(* ===== verification/Prelude.thy ===== *)
theory Prelude
  imports Main "HOL-Library.Word" "HOL-Library.AList" "HOL-Library.Sublist"
begin

text \<open>
  What the component theories share: the types that name the program's machine values, the
  faults a C++ operation can end in, sequencing of fallible operations, and lemmas on
  association lists.

  A C++ operation that can fail is modelled by a value of \<open>fault + 'a\<close>. \<open>Terminated\<close> is a
  failed \<open>PFS__TERMINATE\<close> or \<open>PFS__ASSERT\<close>, \<open>Undefined\<close> is undefined behaviour (\<open>front()\<close> of
  an empty container, an index out of range, use of an erased element), and \<open>Thrown\<close> carries
  the code of a thrown \<open>netty::error\<close>.

  A \<open>std::unordered_map\<close> that the code iterates over is an association list whose order is the
  order of iteration: the order is unspecified in C++, and every theorem quantifies over the
  list. A \<open>std::map\<close> is an association list kept sorted by its key.
\<close>

type_synonym byte = "8 word"
type_synonym bytes = "8 word list"
type_synonym u16 = "16 word"
type_synonym u32 = "32 word"
type_synonym u64 = "64 word"

text \<open>\<open>pfs::universal_id\<close>, which names peers and files.\<close>

type_synonym universal_id = "128 word"
type_synonym peer_id = universal_id

text \<open>Socket identifiers are the native descriptors of the POSIX sockets.\<close>

type_synonym socket_id = int

text \<open>A reading of \<open>std::chrono::steady_clock\<close>, in nanoseconds.\<close>

type_synonym time_point = int

definition seconds :: "int \<Rightarrow> int" where
  "seconds s = s * 1000000000"

text \<open>The codes of \<open>netty::errc\<close> and the codes of \<open>pfs::errc\<close> that the modelled code names.\<close>

datatype errc =
    Success | Operation_not_permitted | Device_not_found | Permissions_denied | Name_too_long
  | Poller_error | Socket_error | Filesystem_error | Wrong_checksum
  | Unexpected_data | Unexpected_error | Invalid_argument | System_error | Bad_message

datatype fault = Terminated | Undefined | Thrown errc

type_synonym 'a result = "fault + 'a"

subsection \<open>Sequencing of fallible operations\<close>

definition bindr :: "'a result \<Rightarrow> ('a \<Rightarrow> 'b result) \<Rightarrow> 'b result" where
  "bindr m f = (case m of Inl e \<Rightarrow> Inl e | Inr x \<Rightarrow> f x)"

lemma bindr_simps [simp]:
  "bindr (Inl e) f = Inl e"
  "bindr (Inr x) f = f x"
  by (simp_all add: bindr_def)

lemma bindr_eq_Inr [simp]: "bindr m f = Inr y \<longleftrightarrow> (\<exists>x. m = Inr x \<and> f x = Inr y)"
  by (cases m) auto

lemma bindr_eq_Inl: "bindr m f = Inl e \<longleftrightarrow> m = Inl e \<or> (\<exists>x. m = Inr x \<and> f x = Inl e)"
  by (cases m) auto

definition mapr :: "('a \<Rightarrow> 'b) \<Rightarrow> 'a result \<Rightarrow> 'b result" where
  "mapr f m = (case m of Inl e \<Rightarrow> Inl e | Inr x \<Rightarrow> Inr (f x))"

lemma mapr_simps [simp]:
  "mapr f (Inl e) = Inl e"
  "mapr f (Inr x) = Inr (f x)"
  by (simp_all add: mapr_def)

lemma mapr_eq_Inr [simp]: "mapr f m = Inr y \<longleftrightarrow> (\<exists>x. m = Inr x \<and> y = f x)"
  by (cases m) auto

text \<open>A loop that runs a fallible body over a list and stops at the first fault.\<close>

fun foldr_res :: "('a \<Rightarrow> 's \<Rightarrow> 's result) \<Rightarrow> 'a list \<Rightarrow> 's \<Rightarrow> 's result" where
  "foldr_res f [] s = Inr s"
| "foldr_res f (x # xs) s = bindr (f x s) (foldr_res f xs)"

lemma foldr_res_append [simp]:
  "foldr_res f (xs @ ys) s = bindr (foldr_res f xs s) (foldr_res f ys)"
proof (induction xs arbitrary: s)
  case Nil
  show ?case by simp
next
  case (Cons x xs)
  then show ?case by (cases "f x s") auto
qed

lemma foldr_res_inv:
  assumes "foldr_res f xs s = Inr t" and "P s"
    and "\<And>x u v. x \<in> set xs \<Longrightarrow> P u \<Longrightarrow> f x u = Inr v \<Longrightarrow> P v"
  shows "P t"
  using assms by (induction xs arbitrary: s) auto

lemma foldr_res_total:
  assumes "P s"
    and "\<And>x u. x \<in> set xs \<Longrightarrow> P u \<Longrightarrow> \<exists>v. f x u = Inr v \<and> P v"
  shows "\<exists>t. foldr_res f xs s = Inr t \<and> P t"
  using assms
proof (induction xs arbitrary: s)
  case Nil
  then show ?case by simp
next
  case (Cons x xs)
  from Cons.prems obtain v where v: "f x s = Inr v" "P v" by fastforce
  with Cons.prems have "\<exists>t. foldr_res f xs v = Inr t \<and> P t" by (intro Cons.IH) auto
  with v show ?case by auto
qed

text \<open>Operations that may also not return: \<open>None\<close> is a loop that does not end.\<close>

definition bindo :: "'a result option \<Rightarrow> ('a \<Rightarrow> 'b result option) \<Rightarrow> 'b result option" where
  "bindo m f = (case m of None \<Rightarrow> None | Some (Inl e) \<Rightarrow> Some (Inl e) | Some (Inr x) \<Rightarrow> f x)"

lemma bindo_simps [simp]:
  "bindo None f = None"
  "bindo (Some (Inl e)) f = Some (Inl e)"
  "bindo (Some (Inr x)) f = f x"
  by (simp_all add: bindo_def)

fun foldo :: "('a \<Rightarrow> 's \<Rightarrow> 's result option) \<Rightarrow> 'a list \<Rightarrow> 's \<Rightarrow> 's result option" where
  "foldo f [] s = Some (Inr s)"
| "foldo f (x # xs) s = bindo (f x s) (foldo f xs)"

lemma bindo_eq_Inr: "bindo m f = Some (Inr y) \<longleftrightarrow> (\<exists>x. m = Some (Inr x) \<and> f x = Some (Inr y))"
  by (simp add: bindo_def split: option.split sum.split)

lemma foldo_inv:
  assumes "foldo f xs s = Some (Inr t)" and "P s"
    and "\<And>x u v. x \<in> set xs \<Longrightarrow> P u \<Longrightarrow> f x u = Some (Inr v) \<Longrightarrow> P v"
  shows "P t"
  using assms by (induction xs arbitrary: s) (auto simp: bindo_eq_Inr)

subsection \<open>Association lists\<close>

lemma keys_update [simp]: "fst ` set (AList.update k v xs) = insert k (fst ` set xs)"
  by (simp add: AList.dom_update)

lemma distinct_keys_update [simp]:
  "distinct (map fst (AList.update k v xs)) \<longleftrightarrow> distinct (map fst xs)"
  by (induction xs) (auto simp: AList.dom_update)

lemma distinct_keys_delete [intro]:
  "distinct (map fst xs) \<Longrightarrow> distinct (map fst (AList.delete k xs))"
  by (rule AList.distinct_delete)

lemma map_of_in_keys: "map_of xs k = Some v \<Longrightarrow> k \<in> fst ` set xs"
  by (force dest: map_of_SomeD)

lemma delete_not_key [simp]: "k \<notin> fst ` set xs \<Longrightarrow> AList.delete k xs = xs"
  by (induction xs) auto

lemma set_delete: "set (AList.delete k xs) = {p \<in> set xs. fst p \<noteq> k}"
  by (auto simp: AList.delete_eq)

lemma delete_append [simp]: "AList.delete k (xs @ ys) = AList.delete k xs @ AList.delete k ys"
  by (simp add: AList.delete_eq)

lemma collect_less_Suc: "{f j | j. j < Suc n} = insert (f 0) {f (Suc j) | j. j < n}"
  by (auto simp: less_Suc_eq_0_disj)

lemma map_of_delete_fun: "map_of (AList.delete k xs) = (map_of xs)(k := None)"
  by (rule AList.delete_conv')

lemma map_of_update_fun: "map_of (AList.update k v xs) = (map_of xs)(k \<mapsto> v)"
  by (rule AList.update_conv')

lemma map_of_Some_in: "map_of xs k = Some v \<Longrightarrow> (k, v) \<in> set xs"
  by (rule map_of_SomeD)

lemma set_update_distinct:
  "distinct (map fst xs) \<Longrightarrow> set (AList.update k v xs) = insert (k, v) {q \<in> set xs. fst q \<noteq> k}"
  by (induction xs) (auto simp: image_iff)

lemma update_same_value: "map_of xs k = Some v \<Longrightarrow> AList.update k v xs = xs"
  by (induction xs) (auto split: if_splits)

text \<open>The total of a measure over the entries, when an entry is replaced or added.\<close>

lemma sum_update_old:
  fixes g :: "'v \<Rightarrow> nat"
  assumes "map_of xs k = Some a"
  shows "(\<Sum>(k, v) \<leftarrow> AList.update k b xs. g v) + g a = (\<Sum>(k, v) \<leftarrow> xs. g v) + g b"
  using assms by (induction xs) (auto split: if_splits)

lemma sum_update_new:
  fixes g :: "'v \<Rightarrow> nat"
  assumes "map_of xs k = None"
  shows "(\<Sum>(k, v) \<leftarrow> AList.update k b xs. g v) = (\<Sum>(k, v) \<leftarrow> xs. g v) + g b"
  using assms by (induction xs) (auto split: if_splits)

text \<open>Removing every key of a list, as the \<open>apply_remove\<close> methods of the pools do.\<close>

fun delete_all :: "'k list \<Rightarrow> ('k \<times> 'v) list \<Rightarrow> ('k \<times> 'v) list" where
  "delete_all [] m = m"
| "delete_all (k # ks) m = delete_all ks (AList.delete k m)"

lemma map_of_delete_all:
  "map_of (delete_all ks m) k = (if k \<in> set ks then None else map_of m k)"
  by (induction ks arbitrary: m) (auto simp: map_of_delete_fun)

lemma distinct_delete_all [intro]:
  "distinct (map fst m) \<Longrightarrow> distinct (map fst (delete_all ks m))"
  by (induction ks arbitrary: m) auto

lemma set_delete_all: "set (delete_all ks m) = {q \<in> set m. fst q \<notin> set ks}"
  by (induction ks arbitrary: m) (auto simp: set_delete)

lemma keys_delete_all: "fst ` set (delete_all ks m) = fst ` set m - set ks"
  by (induction ks arbitrary: m) (auto simp: set_delete)

subsection \<open>Maps sorted by key\<close>

fun om_update :: "'k::linorder \<Rightarrow> 'v \<Rightarrow> ('k \<times> 'v) list \<Rightarrow> ('k \<times> 'v) list" where
  "om_update k v [] = [(k, v)]"
| "om_update k v ((k', v') # m) =
     (if k < k' then (k, v) # (k', v') # m
      else if k = k' then (k, v) # m
      else (k', v') # om_update k v m)"

lemma map_of_om_update:
  "sorted (map fst m) \<Longrightarrow> map_of (om_update k v m) = (map_of m)(k \<mapsto> v)"
proof (induction k v m rule: om_update.induct)
  case (1 k v)
  show ?case by simp
next
  case (2 k v k' v' m)
  then show ?case by (auto simp: fun_eq_iff)
qed

lemma keys_om_update [simp]: "fst ` set (om_update k v m) = insert k (fst ` set m)"
  by (induction k v m rule: om_update.induct) auto

lemma sorted_om_update:
  assumes "sorted (map fst m)" and "distinct (map fst m)"
  shows "sorted (map fst (om_update k v m)) \<and> distinct (map fst (om_update k v m))"
  using assms
proof (induction k v m rule: om_update.induct)
  case (1 k v)
  show ?case by simp
next
  case (2 k v k' v' m)
  then show ?case by (auto simp: less_imp_le)
qed

lemma om_update_twice [simp]: "om_update k v (om_update k w m) = om_update k v m"
  by (induction k w m rule: om_update.induct) auto

lemma om_update_same:
  assumes "sorted (map fst m)" and "map_of m k = Some v"
  shows "om_update k v m = m"
  using assms
proof (induction k v m rule: om_update.induct)
  case (1 k v)
  then show ?case by simp
next
  case (2 k v k' v' m)
  then show ?case by (auto dest!: map_of_in_keys split: if_splits)
qed

end
