(* ===== verification/Streams.thy ===== *)
theory Streams
  imports Prelude
begin

text \<open>
  \<open>pfs::binary_istream\<close> and \<open>pfs::binary_ostream\<close>, through which packets are written and read, are not
  part of the repository. The definitions that use them take their operations as an argument, a record
  \<open>streams\<close>: \<open>out_u16\<close> and the like give the bytes the operator \<open><<\<close> appends (a single byte and the bytes
  of a pointer and length pair are appended as they are), and the operators \<open>>>\<close> act on an input stream.

  What the code relies on is the locale \<open>byte_streams\<close>, over a view of the input stream: whether it is
  good, what is left to read and the positions of the open transactions. A read that has enough bytes
  gives back what was written, a read that has not makes the stream bad, and a bad stream stays bad
  until a transaction ends. \<open>commit_transaction\<close> tells whether the stream is good and otherwise
  goes back to the start of the transaction; only for an outermost transaction is the stream known to be
  good afterwards.

  The record also holds \<open>pfs::numeric_cast\<close>, which keeps a value that the target type can represent,
  and \<open>pfs::crc32_of_ptr\<close>, of which nothing is assumed.

  \<open>out_id\<close> and \<open>in_id\<close> are the operators for \<open>pfs::universal_id\<close> (16 bytes), \<open>out_string\<close> and \<open>in_string\<close>
  those for \<open>std::string\<close>, \<open>in_rest\<close> reads a \<open>std::vector<char>\<close>, which is all that is left, and
  \<open>in_peek\<close> is \<open>peek\<close>.

  \<open>be_streams\<close> is a stream over a byte list in network byte order that satisfies these laws.
\<close>

subsection \<open>The operations\<close>

record 'i streams =
  out_u16 :: "u16 \<Rightarrow> bytes"
  out_u32 :: "u32 \<Rightarrow> bytes"
  out_u64 :: "u64 \<Rightarrow> bytes"
  in_open :: "bytes \<Rightarrow> 'i"
  in_u8 :: "'i \<Rightarrow> byte \<times> 'i"
  in_u16 :: "'i \<Rightarrow> u16 \<times> 'i"
  in_u32 :: "'i \<Rightarrow> u32 \<times> 'i"
  in_u64 :: "'i \<Rightarrow> u64 \<times> 'i"
  in_bytes :: "nat \<Rightarrow> 'i \<Rightarrow> bytes \<times> 'i"
  in_start :: "'i \<Rightarrow> 'i"
  in_commit :: "'i \<Rightarrow> bool \<times> 'i"
  in_available :: "'i \<Rightarrow> nat"
  cast_u8 :: "nat \<Rightarrow> byte result"
  cast_u32 :: "nat \<Rightarrow> u32 result"
  crc32_of :: "bytes \<Rightarrow> u32"
  out_id :: "universal_id \<Rightarrow> bytes"
  in_id :: "'i \<Rightarrow> universal_id \<times> 'i"
  out_string :: "bytes \<Rightarrow> bytes"
  in_string :: "'i \<Rightarrow> bytes \<times> 'i"
  in_rest :: "'i \<Rightarrow> bytes \<times> 'i"
  in_peek :: "'i \<Rightarrow> byte"

record 'i stream_view =
  sv_good :: "'i \<Rightarrow> bool"
  sv_rest :: "'i \<Rightarrow> bytes"
  sv_saved :: "'i \<Rightarrow> bytes list"

text \<open>A read of a value written as \<open>w\<close>: it succeeds on a stream that begins with \<open>w\<close>.\<close>

definition reads :: "'i stream_view \<Rightarrow> ('i \<Rightarrow> 'a \<times> 'i) \<Rightarrow> bytes \<Rightarrow> 'a \<Rightarrow> bool" where
  "reads v rd w x \<longleftrightarrow> (\<forall>s r. sv_good v s \<and> sv_rest v s = w @ r \<longrightarrow>
     fst (rd s) = x \<and> sv_good v (snd (rd s)) \<and> sv_rest v (snd (rd s)) = r)"

text \<open>A read of \<open>n\<close> bytes fails on a stream with fewer and on a bad stream, and never touches transactions.\<close>

definition needs :: "'i stream_view \<Rightarrow> ('i \<Rightarrow> 'a \<times> 'i) \<Rightarrow> nat \<Rightarrow> bool" where
  "needs v rd n \<longleftrightarrow> (\<forall>s. sv_saved v (snd (rd s)) = sv_saved v s \<and>
     (\<not> sv_good v s \<or> length (sv_rest v s) < n \<longrightarrow> \<not> sv_good v (snd (rd s))))"

locale byte_streams =
  fixes io :: "'i streams" and v :: "'i stream_view"
  assumes u16_length: "length (out_u16 io x2) = 2"
    and u32_length: "length (out_u32 io x4) = 4"
    and u64_length: "length (out_u64 io x8) = 8"
    and open_view: "sv_good v (in_open io bs) \<and> sv_rest v (in_open io bs) = bs \<and> sv_saved v (in_open io bs) = []"
    and u8_reads: "reads v (in_u8 io) [x1] x1"
    and u16_reads: "reads v (in_u16 io) (out_u16 io x2) x2"
    and u32_reads: "reads v (in_u32 io) (out_u32 io x4) x4"
    and u64_reads: "reads v (in_u64 io) (out_u64 io x8) x8"
    and bytes_reads: "reads v (in_bytes io (length bs)) bs bs"
    and u8_needs: "needs v (in_u8 io) 1"
    and u16_needs: "needs v (in_u16 io) 2"
    and u32_needs: "needs v (in_u32 io) 4"
    and u64_needs: "needs v (in_u64 io) 8"
    and bytes_needs: "needs v (in_bytes io n) n"
    and start_view: "sv_good v (in_start io s) = sv_good v s \<and> sv_rest v (in_start io s) = sv_rest v s \<and>
      sv_saved v (in_start io s) = sv_rest v s # sv_saved v s"
    and commit_good: "sv_good v s \<Longrightarrow> sv_saved v s = p # ps \<Longrightarrow>
      fst (in_commit io s) \<and> sv_good v (snd (in_commit io s)) \<and>
      sv_rest v (snd (in_commit io s)) = sv_rest v s \<and> sv_saved v (snd (in_commit io s)) = ps"
    and commit_bad: "\<not> sv_good v s \<Longrightarrow> sv_saved v s = p # ps \<Longrightarrow>
      \<not> fst (in_commit io s) \<and> sv_rest v (snd (in_commit io s)) = p \<and>
      sv_saved v (snd (in_commit io s)) = ps \<and> (ps = [] \<longrightarrow> sv_good v (snd (in_commit io s)))"
    and available_view: "sv_good v s \<Longrightarrow> in_available io s = length (sv_rest v s)"
    and id_length: "length (out_id io xi) = 16"
    and id_reads: "reads v (in_id io) (out_id io xi) xi"
    and id_needs: "needs v (in_id io) 16"
    and string_reads: "length bs < 2 ^ 32 \<Longrightarrow> reads v (in_string io) (out_string io bs) bs"
    and rest_view: "sv_good v s \<Longrightarrow> fst (in_rest io s) = sv_rest v s \<and> sv_good v (snd (in_rest io s))"
    and peek_view: "sv_good v s \<Longrightarrow> sv_rest v s = x1 # r \<Longrightarrow> in_peek io s = x1"
    and cast_u8_fits: "k < 256 \<Longrightarrow> cast_u8 io k = Inr (of_nat k)"
    and cast_u32_fits: "k < 2 ^ 32 \<Longrightarrow> cast_u32 io k = Inr (of_nat k)"

subsection \<open>Streams over byte lists, in network byte order\<close>

definition be16 :: "u16 \<Rightarrow> bytes" where
  "be16 x = [ucast (drop_bit 8 x), ucast x]"

definition be32 :: "u32 \<Rightarrow> bytes" where
  "be32 x = [ucast (drop_bit 24 x), ucast (drop_bit 16 x), ucast (drop_bit 8 x), ucast x]"

definition be64 :: "u64 \<Rightarrow> bytes" where
  "be64 x = be32 (ucast (drop_bit 32 x)) @ be32 (ucast x)"

fun be_value :: "bytes \<Rightarrow> u64" where
  "be_value [] = 0"
| "be_value (b # bs) = or (push_bit (8 * length bs) (ucast b)) (be_value bs)"

definition be128 :: "universal_id \<Rightarrow> bytes" where
  "be128 x = be64 (ucast (drop_bit 64 x)) @ be64 (ucast x)"

definition be128_value :: "bytes \<Rightarrow> universal_id" where
  "be128_value bs = or (push_bit 64 (ucast (be_value (take 8 bs)))) (ucast (be_value (drop 8 bs)))"

record mem_stream =
  ms_rest :: bytes
  ms_good :: bool
  ms_saved :: "bytes list"

definition ms_read :: "nat \<Rightarrow> (bytes \<Rightarrow> 'a) \<Rightarrow> mem_stream \<Rightarrow> 'a \<times> mem_stream" where
  "ms_read n f s =
     (if ms_good s \<and> n \<le> length (ms_rest s)
      then (f (take n (ms_rest s)), s\<lparr>ms_rest := drop n (ms_rest s)\<rparr>)
      else (f [], s\<lparr>ms_good := False\<rparr>))"

definition ms_commit :: "mem_stream \<Rightarrow> bool \<times> mem_stream" where
  "ms_commit s =
     (case ms_saved s of
        [] \<Rightarrow> (ms_good s, s)
      | p # ps \<Rightarrow>
          (if ms_good s then (True, s\<lparr>ms_saved := ps\<rparr>)
           else (False, \<lparr>ms_rest = p, ms_good = (ps = []), ms_saved = ps\<rparr>)))"

definition be_streams :: "mem_stream streams" where
  "be_streams =
     \<lparr>out_u16 = be16, out_u32 = be32, out_u64 = be64,
      in_open = (\<lambda>bs. \<lparr>ms_rest = bs, ms_good = True, ms_saved = []\<rparr>),
      in_u8 = ms_read 1 (\<lambda>bs. ucast (be_value bs)),
      in_u16 = ms_read 2 (\<lambda>bs. ucast (be_value bs)),
      in_u32 = ms_read 4 (\<lambda>bs. ucast (be_value bs)),
      in_u64 = ms_read 8 be_value,
      in_bytes = (\<lambda>n. ms_read n (\<lambda>bs. bs)),
      in_start = (\<lambda>s. s\<lparr>ms_saved := ms_rest s # ms_saved s\<rparr>),
      in_commit = ms_commit,
      in_available = (\<lambda>s. length (ms_rest s)),
      cast_u8 = (\<lambda>k. if k < 256 then Inr (of_nat k) else Inl (Thrown Invalid_argument)),
      cast_u32 = (\<lambda>k. if k < 2 ^ 32 then Inr (of_nat k) else Inl (Thrown Invalid_argument)),
      crc32_of = (\<lambda>bs. (\<Sum>b \<leftarrow> bs. ucast b)),
      out_id = be128,
      in_id = ms_read 16 be128_value,
      out_string = (\<lambda>bs. be64 (of_nat (length bs)) @ bs),
      in_string = (\<lambda>s. case ms_read 8 be_value s of (n, s) \<Rightarrow> ms_read (unat n) (\<lambda>bs. bs) s),
      in_rest = (\<lambda>s. (ms_rest s, s\<lparr>ms_rest := []\<rparr>)),
      in_peek = (\<lambda>s. hd (ms_rest s))\<rparr>"

definition mem_view :: "mem_stream stream_view" where
  "mem_view = \<lparr>sv_good = ms_good, sv_rest = ms_rest, sv_saved = ms_saved\<rparr>"

lemma byte_no_bit: "8 \<le> n \<Longrightarrow> \<not> bit (b :: byte) n"
  by (auto dest: bit_imp_le_length)

lemma be8_value: "ucast (be_value [x]) = (x :: byte)"
  by (rule bit_word_eqI) (simp add: bit_simps)

lemma be16_value: "ucast (be_value (be16 x)) = x"
proof (rule bit_word_eqI)
  fix n
  assume "n < LENGTH(16)"
  then show "bit (ucast (be_value (be16 x)) :: u16) n = bit x n"
    by (cases "n < 8") (auto simp: be16_def bit_simps byte_no_bit)
qed

lemma be32_value: "ucast (be_value (be32 x)) = x"
proof (rule bit_word_eqI)
  fix n
  assume n: "n < LENGTH(32)"
  consider "n < 8" | "8 \<le> n" "n < 16" | "16 \<le> n" "n < 24" | "24 \<le> n" by linarith
  then show "bit (ucast (be_value (be32 x)) :: u32) n = bit x n"
    using n by cases (auto simp: be32_def bit_simps byte_no_bit)
qed

lemma be_value_append: "be_value (xs @ ys) = or (push_bit (8 * length ys) (be_value xs)) (be_value ys)"
  by (induction xs) (simp_all add: push_bit_or add.commute or.assoc algebra_simps)

lemma be_value_be32: "be_value (be32 x) = ucast x"
proof (rule bit_word_eqI)
  fix n
  assume "n < LENGTH(64)"
  consider "n < 8" | "8 \<le> n" "n < 16" | "16 \<le> n" "n < 24" | "24 \<le> n" "n < 32" | "32 \<le> n" by linarith
  then show "bit (be_value (be32 x)) n = bit (ucast x :: u64) n"
    using \<open>n < LENGTH(64)\<close>
    by cases (auto simp: be32_def bit_simps byte_no_bit dest: bit_imp_le_length)
qed

lemma be64_value: "be_value (be64 x) = x"
proof -
  have "be_value (be64 x) = or (push_bit 32 (ucast (ucast (drop_bit 32 x) :: u32))) (ucast (ucast x :: u32))"
    by (simp add: be64_def be_value_append be_value_be32) (simp add: be32_def)
  also have "\<dots> = x"
  proof (rule bit_word_eqI)
    fix n
    assume "n < LENGTH(64)"
    then show "bit (or (push_bit 32 (ucast (ucast (drop_bit 32 x) :: u32))) (ucast (ucast x :: u32)) :: u64) n = bit x n"
      by (cases "n < 32") (auto simp: bit_simps)
  qed
  finally show ?thesis .
qed

lemma be64_length: "length (be64 x) = 8"
  by (simp add: be64_def be32_def)

lemma be128_value: "be128_value (be128 x) = x"
proof -
  have "be128_value (be128 x) = or (push_bit 64 (ucast (ucast (drop_bit 64 x) :: u64))) (ucast (ucast x :: u64))"
    by (simp add: be128_value_def be128_def be64_length be64_value)
  also have "\<dots> = x"
  proof (rule bit_word_eqI)
    fix n
    assume "n < LENGTH(128)"
    then show "bit (or (push_bit 64 (ucast (ucast (drop_bit 64 x) :: u64))) (ucast (ucast x :: u64)) :: universal_id) n = bit x n"
      by (cases "n < 64") (auto simp: bit_simps)
  qed
  finally show ?thesis .
qed

lemma ms_read_reads: "f w = x \<Longrightarrow> n = length w \<Longrightarrow> reads mem_view (ms_read n f) w x"
  by (auto simp: reads_def ms_read_def mem_view_def)

lemma ms_read_needs: "needs mem_view (ms_read n f) n"
  by (simp add: needs_def ms_read_def mem_view_def)

interpretation be: byte_streams be_streams mem_view
proof
  fix x1 :: byte and x2 :: u16 and x4 :: u32 and x8 :: u64 and bs :: bytes
    and n k :: nat and s :: mem_stream and p :: bytes and ps :: "bytes list"
  show "length (out_u16 be_streams x2) = 2" by (simp add: be_streams_def be16_def)
  show "length (out_u32 be_streams x4) = 4" by (simp add: be_streams_def be32_def)
  show "length (out_u64 be_streams x8) = 8" by (simp add: be_streams_def be64_def be32_def)
  show "sv_good mem_view (in_open be_streams bs) \<and> sv_rest mem_view (in_open be_streams bs) = bs \<and>
      sv_saved mem_view (in_open be_streams bs) = []"
    by (simp add: be_streams_def mem_view_def)
  show "reads mem_view (in_u8 be_streams) [x1] x1"
    using ms_read_reads [of "\<lambda>bs. ucast (be_value bs)" "[x1]" x1 1, OF be8_value] by (simp add: be_streams_def)
  show "reads mem_view (in_u16 be_streams) (out_u16 be_streams x2) x2"
    by (simp add: be_streams_def ms_read_reads be16_value be16_def[THEN arg_cong [of _ _ length]])
  show "reads mem_view (in_u32 be_streams) (out_u32 be_streams x4) x4"
    by (simp add: be_streams_def ms_read_reads be32_value be32_def[THEN arg_cong [of _ _ length]])
  show "reads mem_view (in_u64 be_streams) (out_u64 be_streams x8) x8"
    by (simp add: be_streams_def ms_read_reads be64_value be64_def[THEN arg_cong [of _ _ length]]
        be32_def[THEN arg_cong [of _ _ length]])
  show "reads mem_view (in_bytes be_streams (length bs)) bs bs"
    by (simp add: be_streams_def ms_read_reads)
  show "needs mem_view (in_u8 be_streams) 1" "needs mem_view (in_u16 be_streams) 2"
    "needs mem_view (in_u32 be_streams) 4" "needs mem_view (in_u64 be_streams) 8"
    "needs mem_view (in_bytes be_streams n) n"
    by (simp_all add: be_streams_def ms_read_needs)
  show "sv_good mem_view (in_start be_streams s) = sv_good mem_view s \<and>
      sv_rest mem_view (in_start be_streams s) = sv_rest mem_view s \<and>
      sv_saved mem_view (in_start be_streams s) = sv_rest mem_view s # sv_saved mem_view s"
    by (simp add: be_streams_def mem_view_def)
  show "sv_good mem_view s \<Longrightarrow> sv_saved mem_view s = p # ps \<Longrightarrow>
      fst (in_commit be_streams s) \<and> sv_good mem_view (snd (in_commit be_streams s)) \<and>
      sv_rest mem_view (snd (in_commit be_streams s)) = sv_rest mem_view s \<and>
      sv_saved mem_view (snd (in_commit be_streams s)) = ps"
    by (simp add: be_streams_def mem_view_def ms_commit_def)
  show "\<not> sv_good mem_view s \<Longrightarrow> sv_saved mem_view s = p # ps \<Longrightarrow>
      \<not> fst (in_commit be_streams s) \<and> sv_rest mem_view (snd (in_commit be_streams s)) = p \<and>
      sv_saved mem_view (snd (in_commit be_streams s)) = ps \<and>
      (ps = [] \<longrightarrow> sv_good mem_view (snd (in_commit be_streams s)))"
    by (simp add: be_streams_def mem_view_def ms_commit_def)
  show "sv_good mem_view s \<Longrightarrow> in_available be_streams s = length (sv_rest mem_view s)"
    by (simp add: be_streams_def mem_view_def)
  show "length (out_id be_streams xi) = 16" for xi by (simp add: be_streams_def be128_def be64_length)
  show "reads mem_view (in_id be_streams) (out_id be_streams xi) xi" for xi
    by (simp add: be_streams_def ms_read_reads be128_value be128_def[THEN arg_cong [of _ _ length]] be64_length)
  show "needs mem_view (in_id be_streams) 16" by (simp add: be_streams_def ms_read_needs)
  show "reads mem_view (in_string be_streams) (out_string be_streams bs) bs" if "length bs < 2 ^ 32"
  proof -
    have n: "unat (of_nat (length bs) :: u64) = length bs" using that by (simp add: unat_of_nat)
    have "reads mem_view (ms_read 8 be_value) (be64 (of_nat (length bs))) (of_nat (length bs))"
      by (rule ms_read_reads) (simp_all add: be64_value be64_length)
    moreover have "reads mem_view (ms_read (unat (of_nat (length bs) :: u64)) (\<lambda>bs. bs)) bs bs"
      by (rule ms_read_reads) (simp_all only: n)
    ultimately show ?thesis unfolding be_streams_def by (simp add: reads_def case_prod_unfold)
  qed
  show "sv_good mem_view s \<Longrightarrow> fst (in_rest be_streams s) = sv_rest mem_view s \<and> sv_good mem_view (snd (in_rest be_streams s))"
    by (simp add: be_streams_def mem_view_def)
  show "sv_good mem_view s \<Longrightarrow> sv_rest mem_view s = x1 # r \<Longrightarrow> in_peek be_streams s = x1" for r
    by (simp add: be_streams_def mem_view_def)
  show "k < 256 \<Longrightarrow> cast_u8 be_streams k = Inr (of_nat k)" by (simp add: be_streams_def)
  show "k < 2 ^ 32 \<Longrightarrow> cast_u32 be_streams k = Inr (of_nat k)" by (simp add: be_streams_def)
qed

subsection \<open>Reading in sequence\<close>

lemma readsD:
  assumes "reads v rd w x" and "sv_good v s" and "sv_rest v s = w @ r"
  shows "fst (rd s) = x" and "sv_good v (snd (rd s))" and "sv_rest v (snd (rd s)) = r"
  using assms by (auto simp: reads_def)

lemma needs_saved: "needs v rd n \<Longrightarrow> sv_saved v (snd (rd s)) = sv_saved v s"
  by (simp add: needs_def)

lemma needs_short: "needs v rd n \<Longrightarrow> length (sv_rest v s) < n \<Longrightarrow> \<not> sv_good v (snd (rd s))"
  by (simp add: needs_def)

lemma needs_bad: "needs v rd n \<Longrightarrow> \<not> sv_good v s \<Longrightarrow> \<not> sv_good v (snd (rd s))"
  by (simp add: needs_def)

text \<open>A reader that never touches the open transactions.\<close>

definition keeps :: "'i stream_view \<Rightarrow> ('i \<Rightarrow> 'a \<times> 'i) \<Rightarrow> bool" where
  "keeps v rd \<longleftrightarrow> (\<forall>s. sv_saved v (snd (rd s)) = sv_saved v s)"

lemma reads_then:
  assumes "reads v rd w1 x" and "reads v (rd' x) w2 y"
  shows "reads v (\<lambda>s. case rd s of (a, s) \<Rightarrow> rd' a s) (w1 @ w2) y"
  using assms by (auto simp: reads_def case_prod_unfold)

lemma reads_map:
  assumes "reads v rd w x"
  shows "reads v (\<lambda>s. case rd s of (a, s) \<Rightarrow> (f a, s)) w (f x)"
  using assms by (auto simp: reads_def case_prod_unfold)

lemma reads_return: "reads v (\<lambda>s. (x, s)) [] x"
  by (simp add: reads_def)

lemma needs_keeps: "needs v rd n \<Longrightarrow> keeps v rd"
  by (simp add: needs_def keeps_def)

lemma keeps_then: "keeps v rd \<Longrightarrow> (\<And>a. keeps v (rd' a)) \<Longrightarrow> keeps v (\<lambda>s. case rd s of (a, s) \<Rightarrow> rd' a s)"
  by (simp add: keeps_def case_prod_unfold)

lemma keeps_return: "keeps v (\<lambda>s. (x, s))"
  by (simp add: keeps_def)

context byte_streams
begin

lemmas item_keeps = u8_needs [THEN needs_keeps] u16_needs [THEN needs_keeps] u32_needs [THEN needs_keeps]
  u64_needs [THEN needs_keeps] bytes_needs [THEN needs_keeps]

text \<open>A reader within a transaction of its own, on an outermost stream.\<close>

definition outermost :: "'i \<Rightarrow> bytes \<Rightarrow> bool" where
  "outermost s r \<longleftrightarrow> sv_good v s \<and> sv_saved v s = [] \<and> sv_rest v s = r"

lemma outermost_open: "outermost (in_open io bs) bs"
  using open_view by (simp add: outermost_def)

lemma outermost_available: "outermost s r \<Longrightarrow> in_available io s = length r"
  by (simp add: outermost_def available_view)

lemma transaction_good:
  assumes "outermost s (w @ r)" and "reads v rd w x" and "keeps v rd"
  shows "\<exists>s'. rd (in_start io s) = (x, s') \<and> fst (in_commit io s') \<and> outermost (snd (in_commit io s')) r"
proof -
  let ?s = "in_start io s"
  have "sv_good v ?s" "sv_rest v ?s = w @ r" "sv_saved v ?s = [w @ r]"
    using assms(1) start_view [of s] by (simp_all add: outermost_def)
  with assms(2,3) have "fst (rd ?s) = x" "sv_good v (snd (rd ?s))" "sv_rest v (snd (rd ?s)) = r"
    "sv_saved v (snd (rd ?s)) = [w @ r]"
    by (auto simp: keeps_def reads_def)
  then show ?thesis
    using commit_good [of "snd (rd ?s)"]
    by (intro exI [of _ "snd (rd ?s)"]) (auto simp: outermost_def prod_eq_iff)
qed

lemma transaction_bad:
  assumes "outermost s r" and "\<not> sv_good v (snd (rd (in_start io s)))" and "keeps v rd"
  shows "\<not> fst (in_commit io (snd (rd (in_start io s)))) \<and>
         outermost (snd (in_commit io (snd (rd (in_start io s))))) r"
  using assms start_view [of s] commit_bad [of "snd (rd (in_start io s))" r "[]"]
  by (simp add: outermost_def keeps_def)

end

end
