(* ===== verification/Loops.thy ===== *)
theory Loops
  imports Prelude
begin

text \<open>
  Loops of the program that may not end: the body gives whether the loop goes on and the next state, and is
  told how often it ran before. \<open>None\<close> is a loop that does not end.
\<close>

partial_function (option) loop_while :: "(nat \<Rightarrow> 's \<Rightarrow> (bool \<times> 's) result) \<Rightarrow> nat \<Rightarrow> 's \<Rightarrow> 's result option" where
  "loop_while f k s =
     (case f k s of
        Inl e \<Rightarrow> Some (Inl e)
      | Inr (c, t) \<Rightarrow> if c then loop_while f (Suc k) t else Some (Inr t))"

lemma loop_while_stops: "f k s = Inr (False, t) \<Longrightarrow> loop_while f k s = Some (Inr t)"
  by (subst loop_while.simps) simp

lemma loop_while_goes: "f k s = Inr (True, t) \<Longrightarrow> loop_while f k s = loop_while f (Suc k) t"
  by (subst loop_while.simps) simp

lemma loop_while_fails: "f k s = Inl e \<Longrightarrow> loop_while f k s = Some (Inl e)"
  by (subst loop_while.simps) simp

text \<open>An invariant of the body holds when the loop ends.\<close>

lemma loop_while_inv:
  assumes "loop_while f k s = Some (Inr t)" and "P s" and "\<And>k s c t. P s \<Longrightarrow> f k s = Inr (c, t) \<Longrightarrow> P t"
  shows "P t"
proof -
  have "\<forall>t. f = g \<and> y = Inr t \<and> P s \<longrightarrow> P t" if "loop_while g k s = Some y" for g k s y
  proof (rule loop_while.raw_induct [OF _ that])
    fix loop :: "(nat \<Rightarrow> 'a \<Rightarrow> (bool \<times> 'a) result) \<Rightarrow> nat \<Rightarrow> 'a \<Rightarrow> 'a result option" and g k s y
    assume IH: "\<And>g k s y. loop g k s = Some y \<Longrightarrow> \<forall>t. f = g \<and> y = Inr t \<and> P s \<longrightarrow> P t"
      and body: "(case g k s of Inl e \<Rightarrow> Some (Inl e) | Inr (c, t) \<Rightarrow> if c then loop g (Suc k) t else Some (Inr t)) = Some y"
    show "\<forall>t. f = g \<and> y = Inr t \<and> P s \<longrightarrow> P t"
      using body assms(3) by (auto split: sum.splits prod.splits if_splits dest!: IH)
  qed
  with assms(1,2) show ?thesis by blast
qed

text \<open>A loop ends when a measure gets smaller.\<close>

lemma loop_while_returns:
  fixes \<mu> :: "'s \<Rightarrow> nat"
  assumes "P s"
    and "\<And>k s. P s \<Longrightarrow> \<exists>c t. f k s = Inr (c, t) \<and> (if c then P t \<and> \<mu> t < \<mu> s else Q t)"
  shows "\<exists>t. loop_while f k s = Some (Inr t) \<and> Q t"
  using assms(1)
proof (induction "\<mu> s" arbitrary: s k rule: less_induct)
  case less
  from assms(2) [OF less.prems, of k] obtain c t where t: "f k s = Inr (c, t)" "if c then P t \<and> \<mu> t < \<mu> s else Q t" by blast
  show ?case
  proof (cases c)
    case True
    with t less.hyps [of t "Suc k"] show ?thesis by (simp add: loop_while_goes)
  next
    case False
    with t show ?thesis by (simp add: loop_while_stops)
  qed
qed

text \<open>A loop whose body always goes on does not end.\<close>

lemma loop_while_diverges:
  assumes "P s" and "\<And>k s. P s \<Longrightarrow> \<exists>t. f k s = Inr (True, t) \<and> P t"
  shows "loop_while f k s = None"
proof (rule ccontr)
  have "\<not> (f = g \<and> P s)" if "loop_while g k s = Some y" for g k s y
  proof (rule loop_while.raw_induct [OF _ that])
    fix loop :: "(nat \<Rightarrow> 'a \<Rightarrow> (bool \<times> 'a) result) \<Rightarrow> nat \<Rightarrow> 'a \<Rightarrow> 'a result option" and g k s y
    assume IH: "\<And>g k s y. loop g k s = Some y \<Longrightarrow> \<not> (f = g \<and> P s)"
      and body: "(case g k s of Inl e \<Rightarrow> Some (Inl e) | Inr (c, t) \<Rightarrow> if c then loop g (Suc k) t else Some (Inr t)) = Some y"
    show "\<not> (f = g \<and> P s)"
    proof
      assume "f = g \<and> P s"
      with assms(2) [of s k] body show False by (auto dest: IH)
    qed
  qed
  moreover assume "loop_while f k s \<noteq> None"
  ultimately show False using assms(1) by blast
qed

end
