(* ===== verification/Inet4Addr.thy ===== *)
theory Inet4Addr
  imports Prelude "HOL-Library.Char_ord"
begin

text \<open>
  \<open>netty::inet4_addr\<close> and \<open>netty::socket4_addr\<close> (include/pfs/netty/inet4_addr.hpp, src/inet4_addr.cpp,
  include/pfs/netty/socket4_addr.hpp, src/socket4_addr.cpp): constructors, order, classification,
  printing with a format and a radix, and parsing. The constructors are told apart by the number of
  their parts. The regular expression of \<open>parse\<close> matches four runs of one to three digits separated
  by dots and nothing else; \<open>inet4_match\<close> is that match. \<open>pfs::to_integer\<close> is not part of the
  repository: it is the argument \<open>ti\<close>, and \<open>to_integer_ok\<close> is what its documentation promises of it
  on strings of decimal digits.
\<close>

subsection \<open>Addresses\<close>

datatype inet4_addr = Inet4 (addr_value: u32)

definition inet4_from4 :: "byte \<Rightarrow> byte \<Rightarrow> byte \<Rightarrow> byte \<Rightarrow> inet4_addr" where
  "inet4_from4 a b c d =
     Inet4 (or (or (or (or 0 (push_bit 24 (ucast a))) (push_bit 16 (ucast b))) (push_bit 8 (ucast c))) (ucast d))"

definition inet4_from3 :: "byte \<Rightarrow> byte \<Rightarrow> u16 \<Rightarrow> inet4_addr" where
  "inet4_from3 a b c = Inet4 (or (or (or 0 (push_bit 24 (ucast a))) (push_bit 16 (ucast b))) (ucast c))"

definition inet4_from2 :: "byte \<Rightarrow> u32 \<Rightarrow> inet4_addr" where
  "inet4_from2 a b = Inet4 (or (or 0 (push_bit 24 (ucast a))) b)"

text \<open>The operators \<open><=\<close> and \<open><\<close>, which are those of the order.\<close>

definition inet4_le :: "inet4_addr \<Rightarrow> inet4_addr \<Rightarrow> bool" where
  "inet4_le a b \<longleftrightarrow> addr_value a \<le> addr_value b"

definition inet4_lt :: "inet4_addr \<Rightarrow> inet4_addr \<Rightarrow> bool" where
  "inet4_lt a b \<longleftrightarrow> addr_value a < addr_value b"

instantiation inet4_addr :: linorder
begin

definition less_eq_inet4_addr :: "inet4_addr \<Rightarrow> inet4_addr \<Rightarrow> bool" where
  "less_eq_inet4_addr = inet4_le"

definition less_inet4_addr :: "inet4_addr \<Rightarrow> inet4_addr \<Rightarrow> bool" where
  "less_inet4_addr = inet4_lt"

instance
proof
  fix x y z :: inet4_addr
  show "(x < y) = (x \<le> y \<and> \<not> y \<le> x)"
    by (auto simp: less_eq_inet4_addr_def inet4_le_def less_inet4_addr_def inet4_lt_def)
  show "x \<le> x" by (simp add: less_eq_inet4_addr_def inet4_le_def)
  show "x \<le> y \<Longrightarrow> y \<le> z \<Longrightarrow> x \<le> z" by (simp add: less_eq_inet4_addr_def inet4_le_def)
  show "x \<le> y \<Longrightarrow> y \<le> x \<Longrightarrow> x = y" by (simp add: less_eq_inet4_addr_def inet4_le_def inet4_addr.expand)
  show "x \<le> y \<or> y \<le> x" by (auto simp: less_eq_inet4_addr_def inet4_le_def)
qed

end

definition any_inet4_addr :: inet4_addr where
  "any_inet4_addr = Inet4 0"

definition is_loopback :: "inet4_addr \<Rightarrow> bool" where
  "is_loopback addr \<longleftrightarrow> addr = inet4_from4 127 0 0 1"

definition is_multicast :: "inet4_addr \<Rightarrow> bool" where
  "is_multicast addr \<longleftrightarrow> inet4_from4 224 0 0 0 \<le> addr \<and> addr \<le> inet4_from4 239 255 255 255"

definition is_broadcast :: "inet4_addr \<Rightarrow> bool" where
  "is_broadcast addr \<longleftrightarrow> \<not> is_multicast addr \<and> and (addr_value addr) 0x000000FF = 0x000000FF"

subsection \<open>Printing\<close>

definition default_format :: string where
  "default_format = ''%a.%b.%c.%d''"

definition append_part_prefix :: "string \<Rightarrow> string \<Rightarrow> int \<Rightarrow> string" where
  "append_part_prefix r a base =
     (if base = 16 then
        (let r = r @ ''0x'' in if length a = 1 then r @ ''0'' else r)
      else if base = 8 then
        (let r = r @ ''0'';
             r = (if length a < 3 then r @ ''0'' else r)
         in if length a < 2 then r @ ''0'' else r)
      else r)"

definition append_number_prefix :: "string \<Rightarrow> int \<Rightarrow> string" where
  "append_number_prefix r base =
     (if base = 16 then r @ ''0x'' else if base = 8 then r @ ''0'' else r)"

definition digits_lower :: string where
  "digits_lower = ''0123456789abcdefghijklmnopqrstuvwxyz''"

definition digits_upper :: string where
  "digits_upper = ''0123456789ABCDEFGHIJKLMNOPQRSTUVWXYZ''"

text \<open>The loop over the digits; a radix below 2 is excluded by the \<open>assert\<close> before it.\<close>

fun digits_loop :: "string \<Rightarrow> nat \<Rightarrow> nat \<Rightarrow> string \<Rightarrow> string" where
  "digits_loop ds radix num res =
     (if num = 0 \<or> radix < 2 then res
      else digits_loop ds radix (num div radix) (ds ! (num mod radix) # res))"

declare digits_loop.simps [simp del]

definition uintmax_to_string :: "nat \<Rightarrow> int \<Rightarrow> bool \<Rightarrow> string result" where
  "uintmax_to_string num radix uppercase =
     (if \<not> (2 \<le> radix \<and> radix \<le> 36) then Inl Terminated
      else if num = 0 then Inr ''0''
      else Inr (digits_loop (if uppercase then digits_upper else digits_lower) (nat radix) num []))"

definition inet4_part :: "nat \<Rightarrow> u32 \<Rightarrow> byte" where
  "inet4_part k v = ucast (and 0x000000FF (drop_bit k v))"

definition print_part :: "byte \<Rightarrow> int \<Rightarrow> string \<Rightarrow> string result" where
  "print_part x base r =
     mapr (\<lambda>a. append_part_prefix r a base @ a) (uintmax_to_string (unat x) base True)"

definition print_number :: "u32 \<Rightarrow> int \<Rightarrow> string \<Rightarrow> string result" where
  "print_number x base r =
     mapr (\<lambda>a. append_number_prefix r base @ a) (uintmax_to_string (unat x) base True)"

fun inet4_format :: "u32 \<Rightarrow> int \<Rightarrow> string \<Rightarrow> string \<Rightarrow> string result" where
  "inet4_format v base [] r = Inr r"
| "inet4_format v base [c] r = Inr (r @ [c])"
| "inet4_format v base (c # x # f) r =
     (if c = CHR ''%'' then
        bindr
          (if x = CHR ''a'' then print_part (inet4_part 24 v) base r
           else if x = CHR ''b'' then print_part (inet4_part 16 v) base r
           else if x = CHR ''c'' then print_part (inet4_part 8 v) base r
           else if x = CHR ''d'' then print_part (inet4_part 0 v) base r
           else if x = CHR ''A'' then print_number v base r
           else if x = CHR ''B'' then print_number (and 0x00FFFFFF v) base r
           else if x = CHR ''C'' then print_number (and 0x0000FFFF v) base r
           else Inr (r @ [x]))
          (inet4_format v base f)
      else inet4_format v base (x # f) (r @ [c]))"

definition inet4_to_string :: "inet4_addr \<Rightarrow> string \<Rightarrow> int \<Rightarrow> string result" where
  "inet4_to_string addr format base =
     inet4_format (addr_value addr) (if base = 10 \<or> base = 8 \<or> base = 16 then base else 10)
       (if format = [] then default_format else format) []"

definition inet4_string :: "inet4_addr \<Rightarrow> string result" where
  "inet4_string addr = inet4_to_string addr [] 10"

subsection \<open>Parsing\<close>

type_synonym to_integer = "string \<Rightarrow> nat \<Rightarrow> nat \<Rightarrow> nat option"

definition is_digit :: "char \<Rightarrow> bool" where
  "is_digit c \<longleftrightarrow> (48 :: nat) \<le> of_char c \<and> of_char c \<le> (57 :: nat)"

definition digit_run :: "string \<Rightarrow> (string \<times> string) option" where
  "digit_run s =
     (let ds = takeWhile is_digit s
      in if 1 \<le> length ds \<and> length ds \<le> 3 then Some (ds, dropWhile is_digit s) else None)"

text \<open>The four groups of the regular expression.\<close>

definition inet4_match :: "string \<Rightarrow> (string \<times> string \<times> string \<times> string) option" where
  "inet4_match s =
     (case digit_run s of
        Some (a, CHR ''.'' # s1) \<Rightarrow>
          (case digit_run s1 of
             Some (b, CHR ''.'' # s2) \<Rightarrow>
               (case digit_run s2 of
                  Some (c, CHR ''.'' # s3) \<Rightarrow>
                    (case digit_run s3 of Some (d, []) \<Rightarrow> Some (a, b, c, d) | _ \<Rightarrow> None)
                | _ \<Rightarrow> None)
           | _ \<Rightarrow> None)
      | _ \<Rightarrow> None)"

definition inet4_parse :: "to_integer \<Rightarrow> string \<Rightarrow> inet4_addr option" where
  "inet4_parse ti s =
     (case inet4_match s of
        None \<Rightarrow> None
      | Some (sa, sb, sc, sd) \<Rightarrow>
          (case ti sa 0 255 of None \<Rightarrow> None | Some a \<Rightarrow>
          (case ti sb 0 255 of None \<Rightarrow> None | Some b \<Rightarrow>
          (case ti sc 0 255 of None \<Rightarrow> None | Some c \<Rightarrow>
          (case ti sd 0 255 of None \<Rightarrow> None | Some d \<Rightarrow>
             Some (inet4_from4 (of_nat a) (of_nat b) (of_nat c) (of_nat d)))))))"

subsection \<open>Socket addresses\<close>

record socket4_addr =
  sa_addr :: inet4_addr
  sa_port :: u16

definition socket4_string :: "socket4_addr \<Rightarrow> string result" where
  "socket4_string sa =
     bindr (inet4_string (sa_addr sa)) (\<lambda>a.
     bindr (uintmax_to_string (unat (sa_port sa)) 10 True) (\<lambda>p. Inr (a @ '':'' @ p)))"

definition socket4_parse :: "to_integer \<Rightarrow> string \<Rightarrow> socket4_addr option" where
  "socket4_parse ti s =
     (case dropWhile (\<lambda>c. c \<noteq> CHR '':'') s of
        [] \<Rightarrow> None
      | delim # port_part \<Rightarrow>
          (case inet4_parse ti (takeWhile (\<lambda>c. c \<noteq> CHR '':'') s) of
             None \<Rightarrow> None
           | Some res \<Rightarrow>
               (case ti port_part 1024 65535 of
                  None \<Rightarrow> None
                | Some port \<Rightarrow> Some \<lparr>sa_addr = res, sa_port = of_nat port\<rparr>)))"

subsection \<open>The values of digit strings\<close>

definition digits_value :: "string \<Rightarrow> nat" where
  "digits_value cs = foldl (\<lambda>v c. 10 * v + (of_char c - 48)) 0 cs"

definition decimal :: "nat \<Rightarrow> string" where
  "decimal n = (if n = 0 then ''0'' else digits_loop digits_upper 10 n [])"

text \<open>\<open>pfs::to_integer (first, last, min, max, ec)\<close>: the value if it is within the bounds, else an error.\<close>

definition to_integer_ok :: "to_integer \<Rightarrow> bool" where
  "to_integer_ok ti \<longleftrightarrow> (\<forall>cs lo hi. cs \<noteq> [] \<and> list_all is_digit cs \<longrightarrow>
     ti cs lo hi = (if lo \<le> digits_value cs \<and> digits_value cs \<le> hi then Some (digits_value cs) else None))"

definition decimal_to_integer :: to_integer where
  "decimal_to_integer cs lo hi =
     (if cs \<noteq> [] \<and> list_all is_digit cs \<and> lo \<le> digits_value cs \<and> digits_value cs \<le> hi
      then Some (digits_value cs) else None)"

lemma decimal_to_integer_ok: "to_integer_ok decimal_to_integer"
  by (simp add: to_integer_ok_def decimal_to_integer_def)

lemma uintmax_to_string_decimal: "uintmax_to_string n 10 True = Inr (decimal n)"
  by (simp add: uintmax_to_string_def decimal_def)

lemma digits_loop_append: "digits_loop ds radix n (res @ rest) = digits_loop ds radix n res @ rest"
proof (induction ds radix n res rule: digits_loop.induct)
  case (1 ds radix num res)
  show ?case
  proof (cases "num = 0 \<or> radix < 2")
    case True
    then show ?thesis by (simp add: digits_loop.simps [of _ _ num])
  next
    case False
    with 1 show ?thesis
      by (subst (1 2) digits_loop.simps) simp
  qed
qed

lemma digit_upper_all:
  "list_all (\<lambda>k. is_digit (digits_upper ! k) \<and> of_char (digits_upper ! k) = 48 + (k :: nat)) [0..<10]"
  by code_simp

lemma digit_upper: "k < 10 \<Longrightarrow> is_digit (digits_upper ! k) \<and> of_char (digits_upper ! k) = 48 + (k :: nat)"
  using digit_upper_all unfolding list_all_iff by (drule_tac x = k in bspec) simp_all

lemma decimal_digit: "n < 10 \<Longrightarrow> decimal n = [digits_upper ! n]"
  by (cases "n = 0") (simp_all add: decimal_def digits_loop.simps [of _ _ n] digits_loop.simps [of _ _ 0] digits_upper_def)

lemma decimal_step: "10 \<le> n \<Longrightarrow> decimal n = decimal (n div 10) @ [digits_upper ! (n mod 10)]"
  using digits_loop_append [of digits_upper 10 "n div 10" "[]" "[digits_upper ! (n mod 10)]"]
  by (simp add: decimal_def digits_loop.simps [of _ _ n] div_eq_0_iff)

lemma digits_value_snoc: "digits_value (cs @ [c]) = 10 * digits_value cs + (of_char c - 48)"
  by (simp add: digits_value_def)

lemma decimal_props:
  "list_all is_digit (decimal n) \<and> decimal n \<noteq> [] \<and> digits_value (decimal n) = n"
proof (induction n rule: less_induct)
  case (less n)
  show ?case
  proof (cases "n < 10")
    case True
    then show ?thesis
      using digit_upper [OF True] by (simp add: decimal_digit digits_value_def)
  next
    case False
    then have "n div 10 < n" by simp
    with less.IH [OF this] digit_upper [of "n mod 10"] False show ?thesis
      by (simp add: decimal_step digits_value_snoc)
  qed
qed

lemma decimal_length_step: "10 \<le> n \<Longrightarrow> length (decimal n) = Suc (length (decimal (n div 10)))"
  by (simp only: decimal_step [of n] length_append list.size)

lemma decimal_length: "n < 256 \<Longrightarrow> length (decimal n) \<le> 3"
proof -
  assume n: "n < 256"
  consider "n < 10" | "10 \<le> n" "n div 10 < 10" | "10 \<le> n" "10 \<le> n div 10" "n div 10 div 10 < 10"
    using n by linarith
  then show ?thesis
    by cases (simp_all only: decimal_length_step decimal_digit list.size)
qed

subsection \<open>The parts of an address\<close>

lemma from4_of_parts:
  "inet4_from4 (inet4_part 24 v) (inet4_part 16 v) (inet4_part 8 v) (inet4_part 0 v) = Inet4 v"
proof -
  have "or (or (or (or 0 (push_bit 24 (ucast (inet4_part 24 v)))) (push_bit 16 (ucast (inet4_part 16 v))))
          (push_bit 8 (ucast (inet4_part 8 v)))) (ucast (inet4_part 0 v)) = (v :: u32)"
  proof (rule bit_word_eqI)
    fix n
    assume "n < LENGTH(32)"
    then have n: "n < 32" by simp
    have mask: "0x000000FF = (mask 8 :: u32)" by (simp add: mask_eq_exp_minus_1)
    consider "n < 8" | "8 \<le> n" "n < 16" | "16 \<le> n" "n < 24" | "24 \<le> n" by linarith
    then show "bit (or (or (or (or 0 (push_bit 24 (ucast (inet4_part 24 v))))
          (push_bit 16 (ucast (inet4_part 16 v)))) (push_bit 8 (ucast (inet4_part 8 v))))
          (ucast (inet4_part 0 v)) :: u32) n = bit v n"
      using n
      by cases (auto simp: inet4_part_def bit_simps mask)
  qed
  then show ?thesis by (simp only: inet4_from4_def)
qed

lemma parts_of_from4:
  "inet4_part 24 (addr_value (inet4_from4 a b c d)) = a \<and> inet4_part 16 (addr_value (inet4_from4 a b c d)) = b \<and>
   inet4_part 8 (addr_value (inet4_from4 a b c d)) = c \<and> inet4_part 0 (addr_value (inet4_from4 a b c d)) = d"
proof -
  have mask: "0x000000FF = (mask 8 :: u32)" by (simp add: mask_eq_exp_minus_1)
  have big: "\<not> bit (x :: byte) n" if "8 \<le> n" for x n
    using that by (auto dest: bit_imp_le_length)
  show ?thesis
    by (intro conjI; rule bit_word_eqI)
       (auto simp: inet4_part_def inet4_from4_def bit_simps mask big)
qed

lemma inet4_string_parts:
  "inet4_string (Inet4 v) = Inr (decimal (unat (inet4_part 24 v)) @ ''.'' @ decimal (unat (inet4_part 16 v)) @
     ''.'' @ decimal (unat (inet4_part 8 v)) @ ''.'' @ decimal (unat (inet4_part 0 v)))"
  by (simp add: inet4_string_def inet4_to_string_def default_format_def print_part_def
      append_part_prefix_def uintmax_to_string_decimal)

subsection \<open>The strings the parser accepts\<close>

definition octet_string :: "string \<Rightarrow> bool" where
  "octet_string ds \<longleftrightarrow> list_all is_digit ds \<and> 1 \<le> length ds \<and> length ds \<le> 3"

lemma digit_run_octet:
  assumes "octet_string ds" and "rest = [] \<or> \<not> is_digit (hd rest)"
  shows "digit_run (ds @ rest) = Some (ds, rest)"
proof -
  have t: "takeWhile is_digit (ds @ rest) = ds" "dropWhile is_digit (ds @ rest) = rest"
    using assms by (cases rest; auto simp: octet_string_def list_all_iff)+
  show ?thesis using assms by (simp add: digit_run_def t octet_string_def)
qed

lemma digit_run_Some:
  assumes "digit_run s = Some (ds, rest)"
  shows "s = ds @ rest \<and> octet_string ds"
  using assms set_takeWhileD [of _ is_digit s]
  by (auto simp: digit_run_def octet_string_def list_all_iff Let_def split: if_splits)

lemma not_digit_dot: "\<not> is_digit CHR ''.''"
  by (simp add: is_digit_def)

lemma digit_run_octet_dot: "octet_string ds \<Longrightarrow> digit_run (ds @ CHR ''.'' # rest) = Some (ds, CHR ''.'' # rest)"
  by (rule digit_run_octet) (simp_all add: not_digit_dot)

lemma digit_run_octet_end: "octet_string ds \<Longrightarrow> digit_run ds = Some (ds, [])"
  using digit_run_octet [of ds "[]"] by simp

lemma inet4_match_groups:
  assumes "octet_string a" and "octet_string b" and "octet_string c" and "octet_string d"
  shows "inet4_match (a @ ''.'' @ b @ ''.'' @ c @ ''.'' @ d) = Some (a, b, c, d)"
  using assms by (simp add: inet4_match_def digit_run_octet_dot digit_run_octet_end)

lemma inet4_match_Some:
  assumes "inet4_match s = Some (a, b, c, d)"
  shows "s = a @ ''.'' @ b @ ''.'' @ c @ ''.'' @ d \<and>
         octet_string a \<and> octet_string b \<and> octet_string c \<and> octet_string d"
  using assms
  by (auto simp: inet4_match_def dest!: digit_run_Some split: option.splits prod.splits list.splits char.splits bool.splits)

lemma octet_value_bound:
  assumes "octet_string ds"
  shows "digits_value ds < 1000"
proof -
  have step: "digits_value cs < 10 ^ length cs" if "list_all is_digit cs" for cs
    using that
    by (induction cs rule: rev_induct) (auto simp: digits_value_snoc is_digit_def digits_value_def)
  from assms have "digits_value ds < 10 ^ length ds" by (simp add: octet_string_def step)
  also have "\<dots> \<le> (10 :: nat) ^ 3" using assms by (intro power_increasing) (simp_all add: octet_string_def)
  finally show ?thesis by simp
qed

lemma octet_decimal: "n < 256 \<Longrightarrow> octet_string (decimal n)"
  using decimal_props [of n] decimal_length [of n] by (cases "decimal n") (simp_all add: octet_string_def)

lemma to_integer_octet:
  assumes "to_integer_ok ti" and "octet_string ds"
  shows "ti ds 0 255 = (if digits_value ds < 256 then Some (digits_value ds) else None)"
proof -
  from assms(2) have "ds \<noteq> [] \<and> list_all is_digit ds" by (auto simp: octet_string_def)
  with assms(1) show ?thesis by (simp add: to_integer_ok_def less_Suc_eq_le)
qed

lemma decimal_not_colon: "CHR '':'' \<notin> set (decimal n)"
proof
  assume "CHR '':'' \<in> set (decimal n)"
  with decimal_props [of n] have "is_digit CHR '':''" by (simp add: list_all_iff)
  then show False by (simp add: is_digit_def)
qed

lemma byte_value_bound: "unat (x :: byte) < 256"
  using unsigned_less [of x, where ?'a = nat] by simp

lemma inet4_parse_groups:
  assumes "to_integer_ok ti" and "octet_string a" and "octet_string b" and "octet_string c" and "octet_string d"
  shows "inet4_parse ti (a @ ''.'' @ b @ ''.'' @ c @ ''.'' @ d) =
    (if digits_value a < 256 \<and> digits_value b < 256 \<and> digits_value c < 256 \<and> digits_value d < 256
     then Some (inet4_from4 (of_nat (digits_value a)) (of_nat (digits_value b)) (of_nat (digits_value c))
                 (of_nat (digits_value d)))
     else None)"
  unfolding inet4_parse_def inet4_match_groups [OF assms(2-5)]
  by (simp add: to_integer_octet [OF assms(1)] assms(2-5))

lemma inet4_parse_string:
  assumes "to_integer_ok ti"
  shows "inet4_parse ti (decimal (unat (inet4_part 24 v)) @ ''.'' @ decimal (unat (inet4_part 16 v)) @
     ''.'' @ decimal (unat (inet4_part 8 v)) @ ''.'' @ decimal (unat (inet4_part 0 v))) = Some (Inet4 v)"
  using inet4_parse_groups [OF assms octet_decimal octet_decimal octet_decimal octet_decimal,
      OF byte_value_bound byte_value_bound byte_value_bound byte_value_bound]
  by (simp add: decimal_props byte_value_bound from4_of_parts)

subsection \<open>Fixed width in the octal and hexadecimal notations\<close>

lemma digits_loop_length:
  "2 \<le> r \<Longrightarrow> length (digits_loop ds r n res) =
     (if n = 0 then 0 else Suc (length (digits_loop ds r (n div r) []))) + length res"
  using digits_loop_append [of ds r "n div r" "[]" "ds ! (n mod r) # res"]
  by (simp add: digits_loop.simps [of _ _ n] digits_loop.simps [of _ _ 0])

lemma digits_width:
  assumes "2 \<le> (r :: nat)"
  shows "0 < n \<Longrightarrow> n < r \<Longrightarrow> length (digits_loop ds r n []) = 1"
    and "r \<le> n \<Longrightarrow> n div r < r \<Longrightarrow> length (digits_loop ds r n []) = 2"
    and "r \<le> n \<Longrightarrow> r \<le> n div r \<Longrightarrow> n div r div r < r \<Longrightarrow> length (digits_loop ds r n []) = 3"
proof -
  have z: "length (digits_loop ds r 0 []) = 0" by (simp add: digits_loop.simps)
  have one: "length (digits_loop ds r m []) = 1" if "0 < m" "m < r" for m
    using that by (simp add: digits_loop_length [OF assms, of ds m] z)
  have two: "length (digits_loop ds r m []) = 2" if "r \<le> m" "m div r < r" for m
  proof -
    have "0 < m div r" using that assms by (simp add: div_greater_zero_iff)
    with that show ?thesis by (simp add: digits_loop_length [OF assms, of ds m] one)
  qed
  show "0 < n \<Longrightarrow> n < r \<Longrightarrow> length (digits_loop ds r n []) = 1" by (rule one)
  show "r \<le> n \<Longrightarrow> n div r < r \<Longrightarrow> length (digits_loop ds r n []) = 2" by (rule two)
  show "r \<le> n \<Longrightarrow> r \<le> n div r \<Longrightarrow> n div r div r < r \<Longrightarrow> length (digits_loop ds r n []) = 3"
    using assms by (simp add: digits_loop_length [OF assms, of ds n] two)
qed

lemma part_width:
  assumes "base = 8 \<or> base = 16" and "n < 256"
  shows "\<exists>a. uintmax_to_string n base True = Inr a \<and> length (append_part_prefix [] a base @ a) = 4"
proof (cases "n = 0")
  case True
  with assms show ?thesis by (auto simp: uintmax_to_string_def append_part_prefix_def)
next
  case False
  let ?a = "digits_loop digits_upper (nat base) n []"
  have "uintmax_to_string n base True = Inr ?a"
    using assms False by (auto simp: uintmax_to_string_def)
  moreover have "length (append_part_prefix [] ?a base @ ?a) = 4"
  proof (cases "base = 16")
    case True
    have "n < 16 \<or> 16 \<le> n \<and> n div 16 < 16" using assms(2) by linarith
    then show ?thesis
      using True False digits_width(1,2) [of 16 n digits_upper]
      by (auto simp: append_part_prefix_def)
  next
    case False
    with assms(1) have base: "base = 8" by simp
    consider "0 < n" "n < 8" | "8 \<le> n" "n div 8 < 8" | "8 \<le> n" "8 \<le> n div 8" "n div 8 div 8 < 8"
      using assms(2) \<open>n \<noteq> 0\<close> by linarith
    then have "length ?a = 1 \<or> length ?a = 2 \<or> length ?a = 3"
      using digits_width [of 8 n digits_upper] by cases (simp_all add: base)
    then show ?thesis by (auto simp: append_part_prefix_def Let_def base simp del: nat_numeral)
  qed
  ultimately show ?thesis by blast
qed

lemma append_part_prefix_acc: "append_part_prefix r a base = r @ append_part_prefix [] a base"
  by (simp add: append_part_prefix_def Let_def)

lemma print_part_width:
  assumes "base = 8 \<or> base = 16"
  shows "\<exists>p. length p = 4 \<and> (\<forall>r. print_part x base r = Inr (r @ p))"
proof -
  obtain a where "uintmax_to_string (unat x) base True = Inr a"
    and "length (append_part_prefix [] a base @ a) = 4"
    using part_width [OF assms byte_value_bound [of x]] by blast
  moreover from this have "print_part x base r = Inr (r @ append_part_prefix [] a base @ a)" for r
    by (simp add: print_part_def append_part_prefix_acc [of r a])
  ultimately show ?thesis by blast
qed

subsection \<open>Properties\<close>

text \<open>C38. Printing and parsing of addresses: printing never fails, what is printed for an IPv4 address
  with the default format parses back to it, and a socket address parses back exactly when its port is
  at least 1024: \<open>socket4_addr::parse\<close> rejects the ports below, which printing accepts.\<close>

theorem socket4_roundtrip:
  assumes "to_integer_ok ti"
  shows "\<exists>s t. inet4_string (sa_addr sa) = Inr s \<and> inet4_parse ti s = Some (sa_addr sa) \<and>
    socket4_string sa = Inr t \<and> socket4_parse ti t = (if 1024 \<le> sa_port sa then Some sa else None)"
proof -
  obtain v where v: "sa_addr sa = Inet4 v" by (cases "sa_addr sa")
  define s where "s = decimal (unat (inet4_part 24 v)) @ ''.'' @ decimal (unat (inet4_part 16 v)) @
     ''.'' @ decimal (unat (inet4_part 8 v)) @ ''.'' @ decimal (unat (inet4_part 0 v))"
  define p where "p = decimal (unat (sa_port sa))"
  have s: "inet4_string (sa_addr sa) = Inr s" by (simp add: v s_def inet4_string_parts)
  have parse_s: "inet4_parse ti s = Some (sa_addr sa)"
    unfolding s_def v by (rule inet4_parse_string [OF assms])
  have "\<forall>c \<in> set s. c \<noteq> CHR '':''"
    using decimal_not_colon by (auto simp: s_def)
  then have split: "takeWhile (\<lambda>c. c \<noteq> CHR '':'') (s @ '':'' @ p) = s"
      "dropWhile (\<lambda>c. c \<noteq> CHR '':'') (s @ '':'' @ p) = '':'' @ p"
    by (simp_all add: takeWhile_append2 dropWhile_append2)
  have "ti p 1024 65535 = (if 1024 \<le> unat (sa_port sa) then Some (unat (sa_port sa)) else None)"
    using assms decimal_props [of "unat (sa_port sa)"] unsigned_less [of "sa_port sa", where ?'a = nat]
    by (simp add: to_integer_ok_def p_def)
  then have "socket4_parse ti (s @ '':'' @ p) = (if 1024 \<le> sa_port sa then Some sa else None)"
    unfolding socket4_parse_def split parse_s by (simp add: word_le_nat_alt)
  moreover have "socket4_string sa = Inr (s @ '':'' @ p)"
    by (simp add: socket4_string_def s uintmax_to_string_decimal p_def)
  ultimately show ?thesis using s parse_s by blast
qed

theorem socket4_roundtrip_witness:
  "socket4_parse decimal_to_integer ''127.0.0.1:80'' = None"
proof -
  have "socket4_string \<lparr>sa_addr = Inet4 0x7F000001, sa_port = 80\<rparr> = Inr ''127.0.0.1:80''" by code_simp
  with socket4_roundtrip [OF decimal_to_integer_ok, of "\<lparr>sa_addr = Inet4 0x7F000001, sa_port = 80\<rparr>"]
  show ?thesis by force
qed

text \<open>The language of \<open>inet4_addr::parse\<close>: a string is accepted if and only if it is four runs of
  one to three decimal digits, each of a value of at most 255, separated by dots and nothing else; the
  address then has these four values as its bytes, from the most significant one.\<close>

theorem inet4_parse_language:
  assumes "to_integer_ok ti"
  shows "inet4_parse ti s = Some addr \<longleftrightarrow>
    (\<exists>a b c d. s = a @ ''.'' @ b @ ''.'' @ c @ ''.'' @ d \<and>
       (\<forall>x \<in> set [a, b, c, d]. list_all is_digit x \<and> length x \<in> {1..3} \<and> digits_value x \<le> 255) \<and>
       addr = inet4_from4 (of_nat (digits_value a)) (of_nat (digits_value b))
                (of_nat (digits_value c)) (of_nat (digits_value d)))"
  (is "?L \<longleftrightarrow> ?R")
proof
  assume ?L
  then obtain a b c d where m: "inet4_match s = Some (a, b, c, d)"
    by (auto simp: inet4_parse_def split: option.splits)
  from inet4_match_Some [OF m] have s: "s = a @ ''.'' @ b @ ''.'' @ c @ ''.'' @ d"
    and o: "octet_string a" "octet_string b" "octet_string c" "octet_string d" by simp_all
  from \<open>?L\<close> inet4_parse_groups [OF assms o] s o show ?R
    by (intro exI [of _ a] exI [of _ b] exI [of _ c] exI [of _ d])
       (auto simp: octet_string_def split: if_splits)
next
  assume ?R
  then obtain a b c d where s: "s = a @ ''.'' @ b @ ''.'' @ c @ ''.'' @ d"
    and o: "octet_string a" "octet_string b" "octet_string c" "octet_string d"
    and v: "digits_value a \<le> 255" "digits_value b \<le> 255" "digits_value c \<le> 255" "digits_value d \<le> 255"
    and addr: "addr = inet4_from4 (of_nat (digits_value a)) (of_nat (digits_value b))
                (of_nat (digits_value c)) (of_nat (digits_value d))"
    by (auto simp: octet_string_def)
  show ?L unfolding s inet4_parse_groups [OF assms o] using v addr by simp
qed

theorem inet4_parse_language_witness:
  "inet4_parse decimal_to_integer ''010.0.2.255'' = Some (inet4_from4 10 0 2 255)"
  unfolding inet4_parse_language [OF decimal_to_integer_ok]
  by (rule exI [of _ "''010''"], rule exI [of _ "''0''"], rule exI [of _ "''2''"], rule exI [of _ "''255''"])
     (simp add: digits_value_def is_digit_def)

text \<open>In the octal and hexadecimal notations the default format has a fixed width: printing any
  address with base 8 or 16 gives a string of 19 characters, four for every byte, and never fails.\<close>

theorem inet4_radix_width:
  assumes "base = 8 \<or> base = 16"
  shows "\<exists>s. inet4_to_string addr [] base = Inr s \<and> length s = 19"
proof -
  let ?v = "addr_value addr"
  obtain p1 p2 p3 p4 where p: "length p1 = 4" "length p2 = 4" "length p3 = 4" "length p4 = 4"
    and e: "\<And>r. print_part (inet4_part 24 ?v) base r = Inr (r @ p1)"
      "\<And>r. print_part (inet4_part 16 ?v) base r = Inr (r @ p2)"
      "\<And>r. print_part (inet4_part 8 ?v) base r = Inr (r @ p3)"
      "\<And>r. print_part (inet4_part 0 ?v) base r = Inr (r @ p4)"
    using print_part_width [OF assms] by meson
  have "inet4_to_string addr [] base = Inr (p1 @ ''.'' @ p2 @ ''.'' @ p3 @ ''.'' @ p4)"
    using assms by (auto simp: inet4_to_string_def default_format_def e)
  with p show ?thesis by simp
qed

theorem inet4_radix_width_witness:
  "\<exists>s. inet4_to_string (inet4_from4 192 0 2 235) [] 16 = Inr s \<and> length s = 19 \<and> s = ''0xC0.0x00.0x02.0xEB''"
proof -
  have "inet4_to_string (inet4_from4 192 0 2 235) [] 16 = Inr ''0xC0.0x00.0x02.0xEB''" by code_simp
  moreover from inet4_radix_width [of 16 "inet4_from4 192 0 2 235"]
  obtain s where "inet4_to_string (inet4_from4 192 0 2 235) [] 16 = Inr s" "length s = 19" by auto
  ultimately show ?thesis by simp
qed

end
