(* ===== verification/WriterQueue.thy ===== *)
theory WriterQueue
  imports Prelude
begin

text \<open>
  \<open>netty::writer_queue\<close> (include/pfs/netty/writer_queue.hpp), the first-in first-out output
  queue of a socket, and the interface \<open>writer_pool\<close> uses its \<open>WriterQueue\<close> template parameter
  through. The interface is the record \<open>queue_ops\<close>; what a lawful queue promises is the locale
  \<open>byte_queue\<close>, whose abstraction is the byte stream still to be written.
\<close>

subsection \<open>The template parameter and its contract\<close>

record 'q queue_ops =
  q_init :: 'q
  q_enqueue :: "int \<Rightarrow> bytes \<Rightarrow> 'q \<Rightarrow> 'q result"
  q_empty :: "'q \<Rightarrow> bool"
  q_frame :: "nat \<Rightarrow> 'q \<Rightarrow> bytes result"
  q_shift :: "nat \<Rightarrow> 'q \<Rightarrow> 'q result"
  q_priority_count :: int

text \<open>
  A client's history: data put into the queue, and attempts to write a frame of at most \<open>n\<close>
  bytes to a socket that takes at most \<open>k\<close> of them. An attempt on an empty queue does nothing,
  and a socket that takes nothing leaves the queue alone, as in \<open>writer_pool::send\<close>.
\<close>

datatype q_op = QEnqueue int bytes | QWrite nat nat

fun q_step :: "'q queue_ops \<Rightarrow> q_op \<Rightarrow> bytes \<times> 'q \<Rightarrow> (bytes \<times> 'q) result" where
  "q_step ops (QEnqueue p d) (out, q) = mapr (\<lambda>q'. (out, q')) (q_enqueue ops p d q)"
| "q_step ops (QWrite n k) (out, q) =
     (if q_empty ops q then Inr (out, q)
      else bindr (q_frame ops n q) (\<lambda>f.
        (let m = min k (length f)
         in if m = 0 then Inr (out, q)
            else mapr (\<lambda>q'. (out @ take m f, q')) (q_shift ops m q))))"

definition q_run :: "'q queue_ops \<Rightarrow> q_op list \<Rightarrow> (bytes \<times> 'q) result" where
  "q_run ops xs = foldr_res (q_step ops) xs ([], q_init ops)"

fun q_put :: "q_op \<Rightarrow> bytes" where
  "q_put (QEnqueue p d) = d"
| "q_put (QWrite n k) = []"

fun q_op_ok :: "(int \<Rightarrow> bool) \<Rightarrow> q_op \<Rightarrow> bool" where
  "q_op_ok ok (QEnqueue p d) = ok p"
| "q_op_ok ok (QWrite n k) = True"

locale byte_queue =
  fixes ops :: "'q queue_ops" and prio_ok :: "int \<Rightarrow> bool"
    and invar :: "'q \<Rightarrow> bool" and contents :: "'q \<Rightarrow> bytes"
  assumes init_ok: "invar (q_init ops)"
    and init_contents: "contents (q_init ops) = []"
    and enqueue_ok: "invar q \<Longrightarrow> prio_ok p \<Longrightarrow>
      \<exists>q'. q_enqueue ops p d q = Inr q' \<and> invar q' \<and> contents q' = contents q @ d"
    and empty_iff: "invar q \<Longrightarrow> q_empty ops q \<longleftrightarrow> contents q = []"
    and frame_ok: "invar q \<Longrightarrow> contents q \<noteq> [] \<Longrightarrow>
      \<exists>f. q_frame ops n q = Inr f \<and> prefix f (contents q) \<and> length f \<le> n \<and> (0 < n \<longrightarrow> f \<noteq> [])"
    and shift_ok: "\<lbrakk>invar q; q_frame ops n q = Inr f; contents q \<noteq> []; 0 < k; k \<le> length f\<rbrakk> \<Longrightarrow>
      \<exists>q'. q_shift ops k q = Inr q' \<and> invar q' \<and> contents q' = drop k (contents q)"
begin

text \<open>
  Writing the front frame in pieces: a socket that takes only \<open>k\<close> bytes of a frame leaves the
  queue with exactly the bytes that were not taken.
\<close>

lemma frame_shift_stream:
  assumes "invar q" and "contents q \<noteq> []" and "q_frame ops n q = Inr f" and "0 < k" and "k \<le> length f"
  shows "\<exists>q'. q_shift ops k q = Inr q' \<and> invar q' \<and> take k f @ contents q' = contents q"
proof -
  from assms(1,2) obtain f' where "q_frame ops n q = Inr f'" "prefix f' (contents q)"
    using frame_ok by blast
  with assms(3) obtain r where r: "contents q = f @ r" by (auto simp: prefix_def)
  from shift_ok [OF assms(1,3,2,4,5)] obtain q' where
    q': "q_shift ops k q = Inr q'" "invar q'" "contents q' = drop k (contents q)" by blast
  from r assms(5) have "take k f = take k (contents q)" by simp
  with q' show ?thesis by (metis append_take_drop_id)
qed

lemma step_stream:
  assumes "invar q" and "q_op_ok prio_ok x"
  shows "\<exists>out' q'. q_step ops x (out, q) = Inr (out', q') \<and> invar q' \<and>
           out' @ contents q' = out @ contents q @ q_put x"
proof (cases x)
  case (QEnqueue p d)
  with assms show ?thesis using enqueue_ok [of q p d] by auto
next
  case (QWrite n k)
  show ?thesis
  proof (cases "contents q = []")
    case True
    with assms QWrite show ?thesis by (simp add: empty_iff)
  next
    case False
    with assms obtain f where f: "q_frame ops n q = Inr f" using frame_ok by blast
    show ?thesis
    proof (cases "min k (length f) = 0")
      case True
      with assms QWrite False f show ?thesis by (simp add: empty_iff)
    next
      case m: False
      then obtain q' where "q_shift ops (min k (length f)) q = Inr q'" "invar q'"
          "take (min k (length f)) f @ contents q' = contents q"
        using frame_shift_stream [OF assms(1) False f, of "min k (length f)"] by auto
      with assms QWrite False f m show ?thesis by (simp add: empty_iff Let_def)
    qed
  qed
qed

lemma run_stream_from:
  assumes "invar q" and "list_all (q_op_ok prio_ok) xs"
  shows "\<exists>out' q'. foldr_res (q_step ops) xs (out, q) = Inr (out', q') \<and> invar q' \<and>
           out' @ contents q' = out @ contents q @ concat (map q_put xs)"
  using assms
proof (induction xs arbitrary: out q)
  case Nil
  then show ?case by simp
next
  case (Cons x xs)
  from Cons.prems obtain out1 q1 where 1: "q_step ops x (out, q) = Inr (out1, q1)" "invar q1"
      "out1 @ contents q1 = out @ contents q @ q_put x"
    using step_stream [of q x out] by auto
  with Cons.IH [of q1 out1] Cons.prems show ?case
    by (auto simp: append_assoc [symmetric] simp del: append_assoc)
qed

lemma run_stream:
  assumes "list_all (q_op_ok prio_ok) xs"
  shows "\<exists>out q. q_run ops xs = Inr (out, q) \<and> invar q \<and> out @ contents q = concat (map q_put xs)"
  using run_stream_from [OF init_ok assms, of "[]"] by (simp add: q_run_def init_contents)

end

subsection \<open>writer_queue\<close>

record elem =
  elem_b :: bytes
  elem_cursor :: nat

type_synonym writer_queue = "elem list"

definition wq_new :: writer_queue where
  "wq_new = []"

definition wq_enqueue :: "int \<Rightarrow> bytes \<Rightarrow> writer_queue \<Rightarrow> writer_queue" where
  "wq_enqueue priority data q =
     (if data = [] then q else q @ [\<lparr>elem_b = data, elem_cursor = 0\<rparr>])"

definition wq_empty :: "writer_queue \<Rightarrow> bool" where
  "wq_empty q \<longleftrightarrow> q = []"

definition wq_frame :: "nat \<Rightarrow> writer_queue \<Rightarrow> bytes" where
  "wq_frame frame_size q =
     (case q of
        [] \<Rightarrow> []
      | front # _ \<Rightarrow>
          (let size = min (length (elem_b front) - elem_cursor front) frame_size
           in take size (drop (elem_cursor front) (elem_b front))))"

definition wq_shift :: "nat \<Rightarrow> writer_queue \<Rightarrow> writer_queue result" where
  "wq_shift n q =
     (case q of
        [] \<Rightarrow> Inl Undefined
      | front # rest \<Rightarrow>
          (let front' = front\<lparr>elem_cursor := elem_cursor front + n\<rparr>
           in if elem_cursor front' \<ge> length (elem_b front') then Inr rest
              else Inr (front' # rest)))"

definition wq_priority_count :: int where
  "wq_priority_count = 1"

definition wq_ops :: "writer_queue queue_ops" where
  "wq_ops = \<lparr>q_init = wq_new,
     q_enqueue = (\<lambda>p d q. Inr (wq_enqueue p d q)),
     q_empty = wq_empty,
     q_frame = (\<lambda>n q. Inr (wq_frame n q)),
     q_shift = wq_shift,
     q_priority_count = wq_priority_count\<rparr>"

subsection \<open>Invariant and abstraction\<close>

text \<open>Every queued element has bytes left; the queue stands for the bytes its elements have left.\<close>

definition elem_rest :: "elem \<Rightarrow> bytes" where
  "elem_rest e = drop (elem_cursor e) (elem_b e)"

definition wq_inv :: "writer_queue \<Rightarrow> bool" where
  "wq_inv q \<longleftrightarrow> (\<forall>e \<in> set q. elem_cursor e < length (elem_b e))"

definition wq_contents :: "writer_queue \<Rightarrow> bytes" where
  "wq_contents q = concat (map elem_rest q)"

lemma wq_contents_simps [simp]:
  "wq_contents [] = []"
  "wq_contents (e # q) = elem_rest e @ wq_contents q"
  "wq_contents (q @ r) = wq_contents q @ wq_contents r"
  by (simp_all add: wq_contents_def)

lemma wq_inv_simps [simp]:
  "wq_inv []"
  "wq_inv (e # q) \<longleftrightarrow> elem_cursor e < length (elem_b e) \<and> wq_inv q"
  "wq_inv (q @ r) \<longleftrightarrow> wq_inv q \<and> wq_inv r"
  by (auto simp: wq_inv_def)

lemma elem_rest_nonempty: "elem_cursor e < length (elem_b e) \<Longrightarrow> elem_rest e \<noteq> []"
  by (simp add: elem_rest_def)

lemma wq_contents_empty: "wq_inv q \<Longrightarrow> wq_contents q = [] \<longleftrightarrow> q = []"
  by (cases q) (auto simp: elem_rest_nonempty)

lemma wq_enqueue_inv: "wq_inv q \<Longrightarrow> wq_inv (wq_enqueue p d q)"
  by (simp add: wq_enqueue_def)

lemma wq_enqueue_contents: "wq_contents (wq_enqueue p d q) = wq_contents q @ d"
  by (simp add: wq_enqueue_def elem_rest_def)

lemma wq_frame_prefix: "prefix (wq_frame n q) (wq_contents q)"
  by (cases q) (auto simp: wq_frame_def elem_rest_def Let_def intro: prefix_prefix take_is_prefix)

lemma wq_frame_length: "length (wq_frame n q) \<le> n"
  by (cases q) (auto simp: wq_frame_def Let_def)

lemma wq_frame_nonempty: "wq_inv q \<Longrightarrow> q \<noteq> [] \<Longrightarrow> 0 < n \<Longrightarrow> wq_frame n q \<noteq> []"
  by (cases q) (auto simp: wq_frame_def Let_def)

lemma wq_shift_step:
  assumes "wq_inv q" and "q \<noteq> []" and "k \<le> length (wq_frame n q)"
  shows "\<exists>q'. wq_shift k q = Inr q' \<and> wq_inv q' \<and> wq_contents q' = drop k (wq_contents q)"
  using assms
  by (cases q) (auto simp: wq_shift_def wq_frame_def Let_def elem_rest_def add.commute)

interpretation wq: byte_queue wq_ops "\<lambda>_. True" wq_inv wq_contents
proof (unfold_locales, goal_cases)
  case (5 q n)
  then show ?case
    by (auto simp: wq_ops_def wq_frame_prefix wq_frame_length wq_contents_empty wq_frame_nonempty)
next
  case (6 q n f k)
  then show ?case
    using wq_shift_step [of q k n] by (auto simp: wq_ops_def wq_contents_empty)
qed (auto simp: wq_ops_def wq_new_def wq_empty_def wq_enqueue_inv wq_enqueue_contents wq_contents_empty)

lemma all_q_op_ok [simp]: "list_all (q_op_ok (\<lambda>_. True)) xs"
proof (induction xs)
  case (Cons x xs)
  then show ?case by (cases x) auto
qed simp

subsection \<open>Properties\<close>

text \<open>C35. For any history of enqueues and partial writes on a fresh \<open>writer_queue\<close>, no operation
  is undefined, and the bytes the socket took followed by the bytes still queued are exactly
  the bytes enqueued, in order: nothing is lost, duplicated or reordered.\<close>

theorem wq_fifo:
  "\<exists>sent q. q_run wq_ops xs = Inr (sent, q) \<and> wq_inv q \<and>
     sent @ wq_contents q = concat (map q_put xs)"
  by (rule wq.run_stream) simp

end
