(* ===== verification/WriterPool.thy ===== *)
theory WriterPool
  imports WriterQueue
begin

text \<open>
  \<open>netty::writer_pool\<close> (include/pfs/netty/writer_pool.hpp): the sockets with data to write, each
  with an output queue and a flag telling whether the poller reported it writable.

  The class is a template over its queue, a \<open>queue_ops\<close> record here. The poller and the sockets
  are the environment: what the pool asks of them (\<open>wait_for_write\<close>, \<open>remove\<close>, \<open>send\<close>) and the
  callbacks it makes are events, listed in the order the code makes them; what a socket answers
  is an argument. \<open>_remain_bytes\<close> is kept at its 64 bits.
\<close>

subsection \<open>State\<close>

datatype send_status = SendFailure | SendGood | SendAgain | SendOverflow | SendNetwork

record send_result =
  sr_status :: send_status
  sr_n :: u64

text \<open>
  One socket as \<open>_locate_socket\<close> finds it: the result of \<open>send\<close> for a frame, with the code of the
  error \<open>send\<close> stores on failure.
\<close>

type_synonym wsocket = "bytes \<Rightarrow> send_result \<times> errc"
type_synonym wsockets = "socket_id \<Rightarrow> wsocket option"

record 'q wp_account =
  wa_id :: socket_id
  wa_writable :: bool
  wa_frame_size :: u16
  wa_q :: 'q

record 'q writer_pool =
  wp_remain_bytes :: u64
  wp_accounts :: "(socket_id \<times> 'q wp_account) list"
  wp_removable :: "socket_id list"

datatype wp_event =
    WaitForWrite socket_id
  | WpPollerRemove socket_id
  | SocketSend socket_id bytes send_result
  | WpFailure socket_id errc
  | BytesWritten socket_id u64

type_synonym 'q wp_out = "'q writer_pool \<times> wp_event list"

definition wp_default_frame_size :: u16 where
  "wp_default_frame_size = 1500"

definition wp_new :: "'q writer_pool" where
  "wp_new = \<lparr>wp_remain_bytes = 0, wp_accounts = [], wp_removable = []\<rparr>"

subsection \<open>Operations\<close>

definition wp_locate_account :: "socket_id \<Rightarrow> 'q writer_pool \<Rightarrow> 'q wp_account option result" where
  "wp_locate_account sid p =
     (case map_of (wp_accounts p) sid of
        None \<Rightarrow> Inr None
      | Some acc \<Rightarrow> if wa_id acc = sid then Inr (Some acc) else Inl Terminated)"

definition wp_ensure_account ::
  "'q queue_ops \<Rightarrow> socket_id \<Rightarrow> u16 \<Rightarrow> 'q writer_pool \<Rightarrow> ('q wp_account \<times> 'q wp_out) result" where
  "wp_ensure_account ops sid frame_size p =
     bindr (wp_locate_account sid p) (\<lambda>found.
       (case found of
          Some acc \<Rightarrow> Inr (acc, p, [])
        | None \<Rightarrow>
            (let a = \<lparr>wa_id = sid, wa_writable = False, wa_frame_size = frame_size, wa_q = q_init ops\<rparr>
             in Inr (a, p\<lparr>wp_accounts := AList.update sid a (wp_accounts p)\<rparr>, [WaitForWrite sid]))))"

definition wp_add :: "'q queue_ops \<Rightarrow> socket_id \<Rightarrow> u16 \<Rightarrow> 'q writer_pool \<Rightarrow> 'q wp_out result" where
  "wp_add ops sid frame_size p = mapr snd (wp_ensure_account ops sid frame_size p)"

definition wp_remove_later :: "socket_id \<Rightarrow> 'q writer_pool \<Rightarrow> 'q writer_pool" where
  "wp_remove_later sid p = p\<lparr>wp_removable := wp_removable p @ [sid]\<rparr>"

definition wp_apply_remove :: "'q writer_pool \<Rightarrow> 'q wp_out" where
  "wp_apply_remove p =
     (if wp_removable p = [] then (p, [])
      else (p\<lparr>wp_accounts := delete_all (wp_removable p) (wp_accounts p), wp_removable := []\<rparr>,
            map WpPollerRemove (wp_removable p)))"

definition wp_put :: "socket_id \<Rightarrow> 'q wp_account \<Rightarrow> 'q writer_pool \<Rightarrow> 'q writer_pool" where
  "wp_put sid acc p = p\<lparr>wp_accounts := AList.update sid acc (wp_accounts p)\<rparr>"

definition wp_enqueue ::
  "'q queue_ops \<Rightarrow> socket_id \<Rightarrow> int \<Rightarrow> bytes \<Rightarrow> 'q writer_pool \<Rightarrow> 'q wp_out result" where
  "wp_enqueue ops sid priority data p =
     (if data = [] then Inr (p, [])
      else bindr (wp_ensure_account ops sid wp_default_frame_size p) (\<lambda>(acc, p1, evs).
        mapr (\<lambda>q'. ((wp_put sid (acc\<lparr>wa_q := q'\<rparr>) p1)
                     \<lparr>wp_remain_bytes := wp_remain_bytes p1 + word_of_nat (length data)\<rparr>, evs))
             (q_enqueue ops priority data (wa_q acc))))"

text \<open>The handlers the constructor installs in the poller.\<close>

definition wp_on_poller_failure :: "socket_id \<Rightarrow> errc \<Rightarrow> 'q writer_pool \<Rightarrow> 'q wp_out" where
  "wp_on_poller_failure sid err p = (wp_remove_later sid p, [WpFailure sid err])"

definition wp_on_can_write :: "socket_id \<Rightarrow> 'q writer_pool \<Rightarrow> 'q wp_out result" where
  "wp_on_can_write sid p =
     mapr (\<lambda>found. (case found of
         None \<Rightarrow> (p, [])
       | Some acc \<Rightarrow> (wp_put sid (acc\<lparr>wa_writable := True\<rparr>) p, [])))
       (wp_locate_account sid p)"

text \<open>
  The body of the loop over the accounts in \<open>send\<close>, for one account. The status \<open>again\<close> tests
  \<open>acc.writable\<close> before it clears it; the loop has just tested it, so it is set.
\<close>

definition wp_blocked :: "'q wp_account \<Rightarrow> 'q writer_pool \<Rightarrow> 'q writer_pool" where
  "wp_blocked acc p = wp_put (wa_id acc) (acc\<lparr>wa_writable := False\<rparr>) p"

definition wp_sent ::
  "'q queue_ops \<Rightarrow> 'q wp_account \<Rightarrow> bytes \<Rightarrow> send_result \<times> errc \<Rightarrow> 'q writer_pool \<Rightarrow> 'q wp_out result"
where
  "wp_sent ops acc frame answer p =
     (let sid = wa_id acc; res = fst answer; err = snd answer; sent = SocketSend sid frame res in
      case sr_status res of
        SendFailure \<Rightarrow> Inr (wp_remove_later sid p, [sent, WpFailure sid err])
      | SendNetwork \<Rightarrow> Inr (wp_remove_later sid p, [sent, WpFailure sid err])
      | SendAgain \<Rightarrow> Inr (wp_blocked acc p, [sent, WaitForWrite sid])
      | SendOverflow \<Rightarrow> Inr (wp_blocked acc p, [sent, WaitForWrite sid])
      | SendGood \<Rightarrow>
          (if sr_n res > 0 then
             mapr (\<lambda>q'. ((wp_put sid (acc\<lparr>wa_q := q'\<rparr>) p)
                          \<lparr>wp_remain_bytes := wp_remain_bytes p - sr_n res\<rparr>,
                         [sent, BytesWritten sid (sr_n res)]))
                  (q_shift ops (unat (sr_n res)) (wa_q acc))
           else Inr (p, [sent])))"

definition wp_send_account ::
  "'q queue_ops \<Rightarrow> wsockets \<Rightarrow> 'q wp_account \<Rightarrow> 'q writer_pool \<Rightarrow> 'q wp_out result" where
  "wp_send_account ops socks acc p =
     (if \<not> wa_writable acc then Inr (p, [])
      else if q_empty ops (wa_q acc) then Inr (p, [])
      else case socks (wa_id acc) of
          None \<Rightarrow> Inr (wp_remove_later (wa_id acc) p, [WpFailure (wa_id acc) Device_not_found])
        | Some sock \<Rightarrow>
            bindr (q_frame ops (unat (wa_frame_size acc)) (wa_q acc)) (\<lambda>frame.
              (if frame = [] then Inr (p, []) else wp_sent ops acc frame (sock frame) p)))"

text \<open>
  One pass over the accounts. The body changes no account but its own and adds or erases none,
  so the accounts are visited with the values they have at the start of the pass.
\<close>

fun wp_then :: "('q writer_pool \<Rightarrow> 'q wp_out result) \<Rightarrow> 'q wp_out \<Rightarrow> 'q wp_out result" where
  "wp_then f (p, evs) = mapr (\<lambda>(p', evs'). (p', evs @ evs')) (f p)"

definition wp_send_pass :: "'q queue_ops \<Rightarrow> wsockets \<Rightarrow> 'q writer_pool \<Rightarrow> 'q wp_out result" where
  "wp_send_pass ops socks p =
     foldr_res (\<lambda>item. wp_then (wp_send_account ops socks (snd item))) (wp_accounts p) (p, [])"

text \<open>
  \<open>send\<close> repeats the pass until its time limit: one list element per pass made, at least one.
\<close>

definition wp_send :: "'q queue_ops \<Rightarrow> wsockets list \<Rightarrow> 'q writer_pool \<Rightarrow> 'q wp_out result" where
  "wp_send ops passes p = foldr_res (\<lambda>socks. wp_then (wp_send_pass ops socks)) passes (p, [])"

datatype wp_poll_event = CanWrite socket_id | WpPollFailure socket_id errc

fun wp_on_poll :: "wp_poll_event \<Rightarrow> 'q writer_pool \<Rightarrow> 'q wp_out result" where
  "wp_on_poll (CanWrite sid) p = wp_on_can_write sid p"
| "wp_on_poll (WpPollFailure sid err) p = Inr (wp_on_poller_failure sid err p)"

text \<open>\<open>step\<close> sends and then polls; the poller's calls of the handlers are an argument.\<close>

definition wp_step ::
  "'q queue_ops \<Rightarrow> wsockets list \<Rightarrow> wp_poll_event list \<Rightarrow> 'q writer_pool \<Rightarrow> 'q wp_out result" where
  "wp_step ops passes polled p =
     bindr (wp_send ops passes p) (foldr_res (\<lambda>e. wp_then (wp_on_poll e)) polled)"

definition wp_is_empty :: "'q writer_pool \<Rightarrow> bool" where
  "wp_is_empty p \<longleftrightarrow> wp_accounts p = []"

subsection \<open>What a pool holds and what it has sent\<close>

definition wp_inv :: "('q \<Rightarrow> bool) \<Rightarrow> 'q writer_pool \<Rightarrow> bool" where
  "wp_inv invar p \<longleftrightarrow> distinct (map fst (wp_accounts p)) \<and>
     (\<forall>(k, a) \<in> set (wp_accounts p). wa_id a = k \<and> invar (wa_q a))"

definition wp_contents :: "('q \<Rightarrow> bytes) \<Rightarrow> 'q writer_pool \<Rightarrow> socket_id \<Rightarrow> bytes" where
  "wp_contents contents p sid =
     (case map_of (wp_accounts p) sid of None \<Rightarrow> [] | Some a \<Rightarrow> contents (wa_q a))"

definition wp_pending :: "('q \<Rightarrow> bytes) \<Rightarrow> 'q writer_pool \<Rightarrow> nat" where
  "wp_pending contents p = (\<Sum>(k, a) \<leftarrow> wp_accounts p. length (contents (wa_q a)))"

text \<open>How far the counter \<open>_remain_bytes\<close> is from the bytes the queues hold.\<close>

definition wp_drift :: "('q \<Rightarrow> bytes) \<Rightarrow> 'q writer_pool \<Rightarrow> u64" where
  "wp_drift contents p = wp_remain_bytes p - word_of_nat (wp_pending contents p)"

text \<open>The bytes that socket \<open>sid\<close> took, according to the events.\<close>

fun ev_accepted :: "socket_id \<Rightarrow> wp_event \<Rightarrow> bytes" where
  "ev_accepted sid (SocketSend i frame res) =
     (if i = sid \<and> sr_status res = SendGood then take (unat (sr_n res)) frame else [])"
| "ev_accepted sid _ = []"

definition wp_accepted :: "socket_id \<Rightarrow> wp_event list \<Rightarrow> bytes" where
  "wp_accepted sid evs = concat (map (ev_accepted sid) evs)"

text \<open>A socket reports no more bytes than it was given.\<close>

definition honest :: "wsockets \<Rightarrow> bool" where
  "honest socks \<longleftrightarrow> (\<forall>i s f. socks i = Some s \<longrightarrow> unat (sr_n (fst (s f))) \<le> length f)"

text \<open>
  \<open>wp_flow\<close> relates a state to the outcome of an operation that put the bytes \<open>add i\<close> into the
  queue of each socket \<open>i\<close>: the bytes taken and the bytes left are the bytes there were and the
  bytes added, for every socket not removed; and the counter has not drifted, if none was.
\<close>

definition wp_flow ::
  "('q \<Rightarrow> bool) \<Rightarrow> ('q \<Rightarrow> bytes) \<Rightarrow> (socket_id \<Rightarrow> bytes) \<Rightarrow> 'q writer_pool \<Rightarrow> 'q wp_out \<Rightarrow> bool" where
  "wp_flow invar contents add p out \<longleftrightarrow>
     wp_inv invar (fst out) \<and>
     (\<forall>i. WpPollerRemove i \<notin> set (snd out) \<longrightarrow>
        wp_accepted i (snd out) @ wp_contents contents (fst out) i = wp_contents contents p i @ add i) \<and>
     ((\<forall>i. WpPollerRemove i \<notin> set (snd out)) \<longrightarrow>
        wp_drift contents (fst out) = wp_drift contents p)"

lemma wp_accepted_simps [simp]:
  "wp_accepted i [] = []"
  "wp_accepted i (e # es) = ev_accepted i e @ wp_accepted i es"
  "wp_accepted i (es @ fs) = wp_accepted i es @ wp_accepted i fs"
  by (simp_all add: wp_accepted_def)

lemma wp_flow_refl: "wp_inv invar p \<Longrightarrow> wp_flow invar contents (\<lambda>_. []) p (p, [])"
  by (simp add: wp_flow_def)

lemma wp_flow_trans:
  assumes "wp_flow invar contents add1 p (p1, evs1)" and "wp_flow invar contents add2 p1 (p2, evs2)"
  shows "wp_flow invar contents (\<lambda>i. add1 i @ add2 i) p (p2, evs1 @ evs2)"
  unfolding wp_flow_def
proof (intro conjI allI impI)
  from assms(2) show "wp_inv invar (fst (p2, evs1 @ evs2))" by (simp add: wp_flow_def)
next
  fix i assume "WpPollerRemove i \<notin> set (snd (p2, evs1 @ evs2))"
  with assms have "wp_accepted i evs1 @ wp_contents contents p1 i = wp_contents contents p i @ add1 i"
    "wp_accepted i evs2 @ wp_contents contents p2 i = wp_contents contents p1 i @ add2 i"
    by (auto simp: wp_flow_def)
  then show "wp_accepted i (snd (p2, evs1 @ evs2)) @ wp_contents contents (fst (p2, evs1 @ evs2)) i =
      wp_contents contents p i @ add1 i @ add2 i"
    by (metis append.assoc fst_conv snd_conv wp_accepted_simps(3))
next
  assume "\<forall>i. WpPollerRemove i \<notin> set (snd (p2, evs1 @ evs2))"
  with assms show "wp_drift contents (fst (p2, evs1 @ evs2)) = wp_drift contents p"
    by (auto simp: wp_flow_def)
qed

text \<open>Replacing an account's queue, or adding an account.\<close>

lemma wp_inv_put:
  "\<lbrakk>wp_inv invar p; wa_id a = sid; invar (wa_q a)\<rbrakk> \<Longrightarrow> wp_inv invar (wp_put sid a p)"
  by (auto simp: wp_inv_def wp_put_def set_update_distinct)

lemma wp_contents_put:
  "wp_contents contents (wp_put sid a p) i =
     (if i = sid then contents (wa_q a) else wp_contents contents p i)"
  by (simp add: wp_contents_def wp_put_def map_of_update_fun)

lemma wp_pending_put_old:
  assumes "map_of (wp_accounts p) sid = Some acc"
  shows "wp_pending contents (wp_put sid a p) + length (contents (wa_q acc)) =
         wp_pending contents p + length (contents (wa_q a))"
  using sum_update_old [OF assms, of "\<lambda>a. length (contents (wa_q a))" a]
  by (simp add: wp_pending_def wp_put_def)

lemma wp_pending_put_new:
  assumes "map_of (wp_accounts p) sid = None"
  shows "wp_pending contents (wp_put sid a p) = wp_pending contents p + length (contents (wa_q a))"
  using sum_update_new [OF assms, of "\<lambda>a. length (contents (wa_q a))" a]
  by (simp add: wp_pending_def wp_put_def)

lemma wp_accounts_fields [simp]:
  "wp_accounts (wp_remove_later sid p) = wp_accounts p"
  "wp_remain_bytes (wp_remove_later sid p) = wp_remain_bytes p"
  "wp_remain_bytes (wp_put sid a p) = wp_remain_bytes p"
  "wp_removable (wp_put sid a p) = wp_removable p"
  by (simp_all add: wp_remove_later_def wp_put_def)

lemma wp_ignores_fields [simp]:
  "wp_inv invar (p\<lparr>wp_remain_bytes := r\<rparr>) = wp_inv invar p"
  "wp_inv invar (wp_remove_later sid p) = wp_inv invar p"
  "wp_contents contents (p\<lparr>wp_remain_bytes := r\<rparr>) = wp_contents contents p"
  "wp_contents contents (wp_remove_later sid p) = wp_contents contents p"
  "wp_pending contents (p\<lparr>wp_remain_bytes := r\<rparr>) = wp_pending contents p"
  "wp_pending contents (wp_remove_later sid p) = wp_pending contents p"
  by (simp_all add: wp_inv_def wp_contents_def wp_pending_def fun_eq_iff)

lemma wp_inv_account:
  "wp_inv invar p \<Longrightarrow> map_of (wp_accounts p) sid = Some a \<Longrightarrow> wa_id a = sid \<and> invar (wa_q a)"
  by (force simp: wp_inv_def dest: map_of_SomeD)

lemma wp_locate_ok:
  "wp_inv invar p \<Longrightarrow> wp_locate_account sid p = Inr (map_of (wp_accounts p) sid)"
  by (auto simp: wp_locate_account_def dest: wp_inv_account split: option.splits)

subsection \<open>The pool over any lawful queue\<close>

context byte_queue
begin

lemma ensure_ok:
  assumes "wp_inv invar p"
  shows "\<exists>acc p1 evs. wp_ensure_account ops sid fs p = Inr (acc, p1, evs) \<and>
    wp_inv invar p1 \<and> map_of (wp_accounts p1) sid = Some acc \<and>
    wp_contents contents p1 = wp_contents contents p \<and>
    wp_pending contents p1 = wp_pending contents p \<and> wp_remain_bytes p1 = wp_remain_bytes p \<and>
    (evs = [] \<or> evs = [WaitForWrite sid])"
proof (cases "map_of (wp_accounts p) sid")
  case (Some acc)
  with assms show ?thesis by (simp add: wp_ensure_account_def wp_locate_ok)
next
  case None
  let ?a = "\<lparr>wa_id = sid, wa_writable = False, wa_frame_size = fs, wa_q = q_init ops\<rparr>"
  have "wp_contents contents p sid = []" using None by (simp add: wp_contents_def)
  then have "wp_contents contents (wp_put sid ?a p) = wp_contents contents p"
    by (auto simp: fun_eq_iff wp_contents_put init_contents)
  moreover have "wp_pending contents (wp_put sid ?a p) = wp_pending contents p"
    using None by (simp add: wp_pending_put_new init_contents)
  moreover have "wp_inv invar (wp_put sid ?a p)"
    using assms by (simp add: wp_inv_put init_ok)
  moreover have "wp_ensure_account ops sid fs p = Inr (?a, wp_put sid ?a p, [WaitForWrite sid])"
    using assms None by (simp add: wp_ensure_account_def wp_locate_ok wp_put_def Let_def)
  moreover have "map_of (wp_accounts (wp_put sid ?a p)) sid = Some ?a"
    by (simp add: wp_put_def map_of_update_fun)
  ultimately show ?thesis by simp
qed

lemma add_flow:
  assumes "wp_inv invar p"
  shows "\<exists>out. wp_add ops sid fs p = Inr out \<and> wp_flow invar contents (\<lambda>_. []) p out"
  using ensure_ok [OF assms, of sid fs] by (fastforce simp: wp_add_def wp_flow_def wp_drift_def)

lemma enqueue_flow:
  assumes "wp_inv invar p" and "prio_ok prio"
  shows "\<exists>out. wp_enqueue ops sid prio data p = Inr out \<and>
    wp_flow invar contents (\<lambda>i. if i = sid then data else []) p out"
proof (cases "data = []")
  case True
  with assms show ?thesis by (simp add: wp_enqueue_def wp_flow_def)
next
  case False
  from ensure_ok [OF assms(1), of sid wp_default_frame_size] obtain acc p1 evs where
    e: "wp_ensure_account ops sid wp_default_frame_size p = Inr (acc, p1, evs)"
    "wp_inv invar p1" "map_of (wp_accounts p1) sid = Some acc"
    "wp_contents contents p1 = wp_contents contents p"
    "wp_pending contents p1 = wp_pending contents p" "wp_remain_bytes p1 = wp_remain_bytes p"
    and evs: "evs = [] \<or> evs = [WaitForWrite sid]" by blast
  from e have acc: "wa_id acc = sid" "invar (wa_q acc)" by (auto dest: wp_inv_account)
  from enqueue_ok [OF acc(2) assms(2)] obtain q' where
    q': "q_enqueue ops prio data (wa_q acc) = Inr q'" "invar q'"
    "contents q' = contents (wa_q acc) @ data" by blast
  let ?p2 = "wp_put sid (acc\<lparr>wa_q := q'\<rparr>) p1"
  have out: "wp_enqueue ops sid prio data p =
      Inr (?p2\<lparr>wp_remain_bytes := wp_remain_bytes p + word_of_nat (length data)\<rparr>, evs)"
    using False e q' by (simp add: wp_enqueue_def)
  have pend: "wp_pending contents ?p2 = wp_pending contents p + length data"
    using wp_pending_put_old [OF e(3), of contents "acc\<lparr>wa_q := q'\<rparr>"] q' e(5) by simp
  have "wp_contents contents p sid = contents (wa_q acc)"
    using e by (simp add: wp_contents_def flip: e(4))
  then have "wp_flow invar contents (\<lambda>i. if i = sid then data else []) p
      (?p2\<lparr>wp_remain_bytes := wp_remain_bytes p + word_of_nat (length data)\<rparr>, evs)"
    using e acc q' evs pend
    by (auto simp: wp_flow_def wp_drift_def wp_inv_put wp_contents_put)
  with out show ?thesis by blast
qed

text \<open>
  One account of a pass: every branch of the loop body keeps the flow, and changes no other account.
\<close>

lemma sent_flow:
  assumes p: "wp_inv invar p" "map_of (wp_accounts p) sid = Some acc"
    and q: "q_frame ops n (wa_q acc) = Inr frame" "contents (wa_q acc) \<noteq> []"
    and le: "unat (sr_n (fst ans)) \<le> length frame"
  shows "\<exists>p' evs. wp_sent ops acc frame ans p = Inr (p', evs) \<and>
    wp_flow invar contents (\<lambda>_. []) p (p', evs) \<and>
    (\<forall>k. k \<noteq> sid \<longrightarrow> map_of (wp_accounts p') k = map_of (wp_accounts p) k)"
proof -
  from wp_inv_account [OF p] have acc: "wa_id acc = sid" "invar (wa_q acc)" by auto
  have cts: "wp_contents contents p sid = contents (wa_q acc)" using p by (simp add: wp_contents_def)
  have blocked: "wp_flow invar contents (\<lambda>_. []) p (wp_blocked acc p, evs)"
    if "\<forall>i. wp_accepted i evs = []" for evs
    using p acc cts that wp_pending_put_old [OF p(2), of contents "acc\<lparr>wa_writable := False\<rparr>"]
    by (auto simp: wp_flow_def wp_blocked_def wp_drift_def wp_inv_put wp_contents_put)
  show ?thesis
  proof (cases "sr_status (fst ans)")
    case SendGood
    show ?thesis
    proof (cases "sr_n (fst ans) > 0")
      case False
      then have "sr_n (fst ans) = 0" by (simp add: word_gt_0)
      with SendGood p acc show ?thesis by (simp add: wp_sent_def wp_flow_def)
    next
      case True
      then have pos: "0 < unat (sr_n (fst ans))" by (simp add: word_gt_0 unat_gt_0)
      from frame_shift_stream [OF acc(2) q(2,1) pos le] obtain q' where
        q': "q_shift ops (unat (sr_n (fst ans))) (wa_q acc) = Inr q'" "invar q'"
        "take (unat (sr_n (fst ans))) frame @ contents q' = contents (wa_q acc)" by blast
      let ?p2 = "wp_put sid (acc\<lparr>wa_q := q'\<rparr>) p"
      from q'(3) have "length (contents (wa_q acc)) = unat (sr_n (fst ans)) + length (contents q')"
        using le by (metis length_append length_take min.absorb2)
      then have "wp_pending contents p = wp_pending contents ?p2 + unat (sr_n (fst ans))"
        using wp_pending_put_old [OF p(2), of contents "acc\<lparr>wa_q := q'\<rparr>"] by simp
      then have drift: "wp_drift contents (?p2\<lparr>wp_remain_bytes := wp_remain_bytes p - sr_n (fst ans)\<rparr>) =
          wp_drift contents p"
        by (simp add: wp_drift_def)
      from SendGood True acc q' have "wp_sent ops acc frame ans p =
          Inr (?p2\<lparr>wp_remain_bytes := wp_remain_bytes p - sr_n (fst ans)\<rparr>,
               [SocketSend sid frame (fst ans), BytesWritten sid (sr_n (fst ans))])"
        by (simp add: wp_sent_def Let_def)
      moreover have "wp_flow invar contents (\<lambda>_. []) p
          (?p2\<lparr>wp_remain_bytes := wp_remain_bytes p - sr_n (fst ans)\<rparr>,
           [SocketSend sid frame (fst ans), BytesWritten sid (sr_n (fst ans))])"
        using p acc q' cts drift SendGood by (auto simp: wp_flow_def wp_inv_put wp_contents_put)
      ultimately show ?thesis by (simp add: wp_put_def map_of_update_fun)
    qed
  next
    case SendFailure
    with p acc show ?thesis by (simp add: wp_sent_def wp_flow_def wp_drift_def)
  next
    case SendNetwork
    with p acc show ?thesis by (simp add: wp_sent_def wp_flow_def wp_drift_def)
  next
    case SendAgain
    with acc blocked show ?thesis
      by (simp add: wp_sent_def wp_blocked_def wp_put_def map_of_update_fun)
  next
    case SendOverflow
    with acc blocked show ?thesis
      by (simp add: wp_sent_def wp_blocked_def wp_put_def map_of_update_fun)
  qed
qed

lemma send_account_flow:
  assumes p: "wp_inv invar p" "map_of (wp_accounts p) sid = Some acc" and h: "honest socks"
  shows "\<exists>p' evs. wp_send_account ops socks acc p = Inr (p', evs) \<and>
    wp_flow invar contents (\<lambda>_. []) p (p', evs) \<and>
    (\<forall>k. k \<noteq> sid \<longrightarrow> map_of (wp_accounts p') k = map_of (wp_accounts p) k)"
proof (cases "wa_writable acc \<and> contents (wa_q acc) \<noteq> []")
  case False
  with p show ?thesis
    by (auto simp: wp_send_account_def wp_flow_refl empty_iff dest: wp_inv_account)
next
  case True
  from wp_inv_account [OF p] have acc: "wa_id acc = sid" "invar (wa_q acc)" by auto
  show ?thesis
  proof (cases "socks sid")
    case None
    with True acc p show ?thesis
      by (simp add: wp_send_account_def empty_iff wp_flow_def wp_drift_def)
  next
    case (Some s)
    from frame_ok [OF acc(2), of "unat (wa_frame_size acc)"] True obtain f where
      f: "q_frame ops (unat (wa_frame_size acc)) (wa_q acc) = Inr f" by blast
    from h Some have le: "unat (sr_n (fst (s f))) \<le> length f" by (auto simp: honest_def)
    from sent_flow [OF p f _ le] True acc Some f p show ?thesis
      by (auto simp: wp_send_account_def empty_iff wp_flow_refl)
  qed
qed

text \<open>Sequencing: a step that keeps the flow, run after another, keeps the flow of both.\<close>

lemma then_flow:
  assumes "wp_flow invar contents add1 p out"
    and "\<And>p1. wp_inv invar p1 \<Longrightarrow> \<exists>out1. f p1 = Inr out1 \<and> wp_flow invar contents add2 p1 out1"
  shows "\<exists>out2. wp_then f out = Inr out2 \<and> wp_flow invar contents (\<lambda>i. add1 i @ add2 i) p out2"
proof -
  obtain p1 evs1 where out: "out = (p1, evs1)" by (cases out)
  with assms(1) have "wp_inv invar p1" by (simp add: wp_flow_def)
  with assms(2) obtain p2 evs2 where "f p1 = Inr (p2, evs2)" "wp_flow invar contents add2 p1 (p2, evs2)"
    by fastforce
  with out assms(1) show ?thesis by (auto intro!: wp_flow_trans)
qed

lemma loop_flow:
  assumes "wp_flow invar contents (\<lambda>_. []) p out"
    and "\<And>x p1. x \<in> set xs \<Longrightarrow> wp_inv invar p1 \<Longrightarrow>
           \<exists>out1. f x p1 = Inr out1 \<and> wp_flow invar contents (\<lambda>_. []) p1 out1"
  shows "\<exists>out2. foldr_res (\<lambda>x. wp_then (f x)) xs out = Inr out2 \<and>
           wp_flow invar contents (\<lambda>_. []) p out2"
proof (rule foldr_res_total [where P = "wp_flow invar contents (\<lambda>_. []) p"])
  show "wp_flow invar contents (\<lambda>_. []) p out" by (rule assms(1))
next
  fix x u assume "x \<in> set xs" "wp_flow invar contents (\<lambda>_. []) p u"
  then show "\<exists>v. wp_then (f x) u = Inr v \<and> wp_flow invar contents (\<lambda>_. []) p v"
    using then_flow [of "\<lambda>_. []" p u "f x" "\<lambda>_. []"] assms(2) by simp
qed

text \<open>
  A pass over accounts \<open>xs\<close> that still have the values they had at its start: the body for one
  account leaves the others as they are, so this holds again for the accounts not yet visited.
\<close>

lemma pass_flow_from:
  assumes "wp_flow invar contents (\<lambda>_. []) p0 (p, evs)" and "honest socks"
    and "distinct (map fst xs)" and "\<forall>(k, a) \<in> set xs. map_of (wp_accounts p) k = Some a"
  shows "\<exists>out. foldr_res (\<lambda>item. wp_then (wp_send_account ops socks (snd item))) xs (p, evs) = Inr out \<and>
           wp_flow invar contents (\<lambda>_. []) p0 out"
  using assms
proof (induction xs arbitrary: p evs)
  case Nil
  then show ?case by simp
next
  case (Cons x xs)
  obtain k a where x: "x = (k, a)" by (cases x)
  with Cons.prems have ka: "map_of (wp_accounts p) k = Some a" by simp
  from Cons.prems(1) have "wp_inv invar p" by (simp add: wp_flow_def)
  from send_account_flow [OF this ka Cons.prems(2)] obtain p1 evs1 where
    1: "wp_send_account ops socks a p = Inr (p1, evs1)" "wp_flow invar contents (\<lambda>_. []) p (p1, evs1)"
    and same: "\<forall>j. j \<noteq> k \<longrightarrow> map_of (wp_accounts p1) j = map_of (wp_accounts p) j" by blast
  from wp_flow_trans [OF Cons.prems(1) 1(2)]
  have flow: "wp_flow invar contents (\<lambda>_. []) p0 (p1, evs @ evs1)" by simp
  have "\<forall>(j, b) \<in> set xs. map_of (wp_accounts p1) j = Some b"
  proof clarify
    fix j b assume jb: "(j, b) \<in> set xs"
    with Cons.prems(3) x have "j \<noteq> k" by force
    with same jb Cons.prems(4) show "map_of (wp_accounts p1) j = Some b" by auto
  qed
  with Cons.IH [OF flow Cons.prems(2)] Cons.prems(3) 1 x show ?case by simp
qed

lemma pass_flow:
  assumes "wp_inv invar p" and "honest socks"
  shows "\<exists>out. wp_send_pass ops socks p = Inr out \<and> wp_flow invar contents (\<lambda>_. []) p out"
proof -
  have d: "distinct (map fst (wp_accounts p))" using assms(1) by (simp add: wp_inv_def)
  then have "\<forall>(k, a) \<in> set (wp_accounts p). map_of (wp_accounts p) k = Some a" by auto
  from pass_flow_from [OF wp_flow_refl [OF assms(1)] assms(2) d this]
  show ?thesis by (simp add: wp_send_pass_def)
qed

lemma send_flow:
  assumes "wp_inv invar p" and "\<forall>socks \<in> set passes. honest socks"
  shows "\<exists>out. wp_send ops passes p = Inr out \<and> wp_flow invar contents (\<lambda>_. []) p out"
  unfolding wp_send_def
  by (rule loop_flow [OF wp_flow_refl [OF assms(1)]]) (use assms(2) pass_flow in blast)

lemma on_poll_flow:
  assumes "wp_inv invar p"
  shows "\<exists>out. wp_on_poll e p = Inr out \<and> wp_flow invar contents (\<lambda>_. []) p out"
proof (cases e)
  case (WpPollFailure sid err)
  with assms show ?thesis by (simp add: wp_on_poller_failure_def wp_flow_def wp_drift_def)
next
  case (CanWrite sid)
  show ?thesis
  proof (cases "map_of (wp_accounts p) sid")
    case None
    with assms CanWrite show ?thesis
      by (simp add: wp_on_can_write_def wp_locate_ok wp_flow_refl)
  next
    case (Some acc)
    let ?a = "acc\<lparr>wa_writable := True\<rparr>"
    have c: "wp_contents contents p sid = contents (wa_q acc)" using Some by (simp add: wp_contents_def)
    have "wp_pending contents (wp_put sid ?a p) = wp_pending contents p"
      using wp_pending_put_old [OF Some, of contents ?a] by simp
    with assms Some c have "wp_flow invar contents (\<lambda>_. []) p (wp_put sid ?a p, [])"
      using wp_inv_account [OF assms Some]
      by (auto simp: wp_flow_def wp_drift_def wp_inv_put wp_contents_put)
    with assms Some CanWrite show ?thesis by (simp add: wp_on_can_write_def wp_locate_ok)
  qed
qed

lemma step_flow:
  assumes "wp_inv invar p" and "\<forall>socks \<in> set passes. honest socks"
  shows "\<exists>out. wp_step ops passes polled p = Inr out \<and> wp_flow invar contents (\<lambda>_. []) p out"
proof -
  from send_flow [OF assms] obtain out where
    "wp_send ops passes p = Inr out" "wp_flow invar contents (\<lambda>_. []) p out" by blast
  with loop_flow [of p out polled wp_on_poll] on_poll_flow show ?thesis by (simp add: wp_step_def)
qed

lemma apply_remove_flow:
  assumes "wp_inv invar p"
  shows "wp_flow invar contents (\<lambda>_. []) p (wp_apply_remove p)"
proof (cases "wp_removable p = []")
  case True
  with assms show ?thesis by (simp add: wp_apply_remove_def wp_flow_refl)
next
  case False
  have "wp_inv invar (fst (wp_apply_remove p))"
    using assms False by (auto simp: wp_apply_remove_def wp_inv_def set_delete_all)
  moreover have "wp_accepted i (map WpPollerRemove ks) = []" for i ks
    by (induction ks) auto
  moreover have "\<exists>i. WpPollerRemove i \<in> WpPollerRemove ` set (wp_removable p)"
    using False by (cases "wp_removable p") auto
  ultimately show ?thesis
    using False by (simp add: wp_flow_def wp_apply_remove_def wp_contents_def map_of_delete_all image_iff)
qed

end

subsection \<open>Histories of a pool\<close>

datatype wp_op =
    WpAdd socket_id u16
  | WpEnqueue socket_id int bytes
  | WpRemoveLater socket_id
  | WpStep "wsockets list" "wp_poll_event list"
  | WpApplyRemove

fun wp_exec :: "'q queue_ops \<Rightarrow> wp_op \<Rightarrow> 'q writer_pool \<Rightarrow> 'q wp_out result" where
  "wp_exec ops (WpAdd sid fs) p = wp_add ops sid fs p"
| "wp_exec ops (WpEnqueue sid prio data) p = wp_enqueue ops sid prio data p"
| "wp_exec ops (WpRemoveLater sid) p = Inr (wp_remove_later sid p, [])"
| "wp_exec ops (WpStep passes polled) p = wp_step ops passes polled p"
| "wp_exec ops WpApplyRemove p = Inr (wp_apply_remove p)"

definition wp_run :: "'q queue_ops \<Rightarrow> wp_op list \<Rightarrow> 'q wp_out result" where
  "wp_run ops xs = foldr_res (\<lambda>x. wp_then (wp_exec ops x)) xs (wp_new, [])"

fun wp_op_put :: "socket_id \<Rightarrow> wp_op \<Rightarrow> bytes" where
  "wp_op_put i (WpEnqueue sid prio data) = (if i = sid then data else [])"
| "wp_op_put i _ = []"

fun wp_op_ok :: "(int \<Rightarrow> bool) \<Rightarrow> wp_op \<Rightarrow> bool" where
  "wp_op_ok ok (WpEnqueue sid prio data) = ok prio"
| "wp_op_ok ok (WpStep passes polled) = (\<forall>socks \<in> set passes. honest socks)"
| "wp_op_ok ok _ = True"

context byte_queue
begin

lemma exec_flow:
  assumes "wp_inv invar p" and "wp_op_ok prio_ok x"
  shows "\<exists>out. wp_exec ops x p = Inr out \<and> wp_flow invar contents (\<lambda>i. wp_op_put i x) p out"
proof (cases x)
  case (WpEnqueue sid prio data)
  with assms show ?thesis using enqueue_flow [of p prio sid data] by simp
next
  case (WpRemoveLater sid)
  with assms show ?thesis by (simp add: wp_flow_def wp_drift_def)
qed (use assms add_flow step_flow apply_remove_flow in auto)

lemma run_flow_from:
  assumes "wp_flow invar contents add p0 out" and "list_all (wp_op_ok prio_ok) xs"
  shows "\<exists>out2. foldr_res (\<lambda>x. wp_then (wp_exec ops x)) xs out = Inr out2 \<and>
    wp_flow invar contents (\<lambda>i. add i @ concat (map (wp_op_put i) xs)) p0 out2"
  using assms
proof (induction xs arbitrary: add out)
  case Nil
  then show ?case by simp
next
  case (Cons x xs)
  from then_flow [OF Cons.prems(1), of "wp_exec ops x" "\<lambda>i. wp_op_put i x"] exec_flow Cons.prems(2)
  obtain out1 where out1: "wp_then (wp_exec ops x) out = Inr out1"
    "wp_flow invar contents (\<lambda>i. add i @ wp_op_put i x) p0 out1" by auto
  with Cons.IH [OF out1(2)] Cons.prems(2) show ?case by simp
qed

lemma run_flow:
  assumes "list_all (wp_op_ok prio_ok) xs"
  shows "\<exists>p evs. wp_run ops xs = Inr (p, evs) \<and> wp_inv invar p \<and>
    (\<forall>i. WpPollerRemove i \<notin> set evs \<longrightarrow>
       wp_accepted i evs @ wp_contents contents p i = concat (map (wp_op_put i) xs)) \<and>
    ((\<forall>i. WpPollerRemove i \<notin> set evs) \<longrightarrow>
       wp_remain_bytes p = word_of_nat (wp_pending contents p))"
proof -
  have new: "wp_flow invar contents (\<lambda>_. []) wp_new (wp_new, [])"
    by (rule wp_flow_refl) (simp add: wp_inv_def wp_new_def)
  have "wp_contents contents wp_new = (\<lambda>_. [])" "wp_drift contents wp_new = 0"
    by (simp_all add: wp_contents_def wp_drift_def wp_pending_def wp_new_def fun_eq_iff)
  with run_flow_from [OF new assms] show ?thesis
    by (auto simp: wp_run_def wp_flow_def wp_drift_def)
qed

end

lemma all_wp_op_ok:
  "list_all (wp_op_ok (\<lambda>_. True)) xs \<longleftrightarrow>
     (\<forall>passes polled. WpStep passes polled \<in> set xs \<longrightarrow> (\<forall>socks \<in> set passes. honest socks))"
proof (induction xs)
  case (Cons x xs)
  then show ?case by (cases x) auto
qed simp

text \<open>A socket that takes at most \<open>n\<close> bytes of every frame, and the sockets that all do.\<close>

definition taking :: "nat \<Rightarrow> wsocket" where
  "taking n f = (\<lparr>sr_status = SendGood, sr_n = word_of_nat (min n (length f))\<rparr>, Success)"

lemma honest_taking: "honest (\<lambda>i. Some (taking n))"
proof -
  have "unat (word_of_nat (min n (length f)) :: u64) \<le> min n (length f)" for f :: bytes
    unfolding unat_of_nat by (rule mod_less_eq_dividend)
  then show ?thesis by (auto simp: honest_def taking_def intro: order_trans)
qed

subsection \<open>Properties\<close>

text \<open>C7. A \<open>writer_pool\<close> over \<open>writer_queue\<close>, driven by any sequence of calls with any answers of
  the sockets and the poller in which no socket claims to have taken more than it was given, never
  terminates the program and never runs into undefined behaviour; for every socket that was not
  removed, the bytes the socket took followed by the bytes still queued are the bytes enqueued for
  it, in order; and while no socket was removed, \<open>_remain_bytes\<close> is the number of queued bytes.\<close>

theorem wp_delivers:
  assumes "list_all (wp_op_ok (\<lambda>_. True)) xs"
  shows "\<exists>p evs. wp_run wq_ops xs = Inr (p, evs) \<and> wp_inv wq_inv p \<and>
    (\<forall>i. WpPollerRemove i \<notin> set evs \<longrightarrow>
       wp_accepted i evs @ wp_contents wq_contents p i = concat (map (wp_op_put i) xs)) \<and>
    ((\<forall>i. WpPollerRemove i \<notin> set evs) \<longrightarrow>
       wp_remain_bytes p = word_of_nat (wp_pending wq_contents p))"
  by (rule wq.run_flow [OF assms])

theorem wp_delivers_witness:
  "\<exists>p evs. wp_run wq_ops [WpEnqueue 1 0 [1, 2, 3], WpEnqueue 2 0 [9],
       WpStep [] [CanWrite 1], WpStep [\<lambda>i. Some (taking 2)] []] = Inr (p, evs) \<and> wp_inv wq_inv p"
  using wp_delivers [of "[WpEnqueue 1 0 [1, 2, 3], WpEnqueue 2 0 [9], WpStep [] [CanWrite 1],
      WpStep [\<lambda>i. Some (taking 2)] []]"] honest_taking [of 2]
  by auto

text \<open>Removing a socket with queued data leaves \<open>_remain_bytes\<close> as it is: after enqueuing any
  data for a socket and removing that socket, the pool has no account left and still reports all
  of that data as remaining.\<close>

theorem wp_remain_bytes_after_removal:
  "\<exists>p evs. wp_run wq_ops [WpEnqueue sid 0 d, WpRemoveLater sid, WpApplyRemove] = Inr (p, evs) \<and>
     wp_is_empty p \<and> wp_remain_bytes p = word_of_nat (length d)"
  by (auto simp: wp_run_def wp_enqueue_def wp_ensure_account_def wp_locate_account_def wp_new_def wq_ops_def
      wp_put_def wp_remove_later_def wp_apply_remove_def wp_is_empty_def Let_def)

end
