(* ===== verification/PriorityFrame.thy ===== *)
theory PriorityFrame
  imports Prelude
begin

text \<open>
  \<open>priority_frame\<close> (include/pfs/netty/patterns/meshnet/priority_frame.hpp): the three-byte header
  that carries a priority and a payload size in front of a piece of a packet. \<open>data[1]\<close> and
  \<open>data[2]\<close> are \<open>char\<close>s, signed on most platforms; the masks of \<open>parse\<close> remove the sign bits,
  so a zero extension gives the same values.
\<close>

unbundle bit_operations_syntax

definition pf_header_size :: nat where
  "pf_header_size = 3"

record priority_frame =
  pf_b0 :: byte
  pf_size :: u16

definition pf_default :: priority_frame where
  "pf_default = \<lparr>pf_b0 = 0, pf_size = 0\<rparr>"

definition pf_make :: "int \<Rightarrow> priority_frame" where
  "pf_make priority =
     (let f = pf_default;
          f1 = f\<lparr>pf_b0 := pf_b0 f OR (push_bit 4 5 AND 0xF0)\<rparr>;
          f2 = f1\<lparr>pf_b0 := pf_b0 f1 OR (word_of_int priority AND 0x0F)\<rparr>
      in f2\<lparr>pf_size := 0\<rparr>)"

definition pf_priority :: "priority_frame \<Rightarrow> int" where
  "pf_priority f = uint (pf_b0 f AND 0x0F)"

definition pf_payload_size :: "priority_frame \<Rightarrow> nat" where
  "pf_payload_size f = unat (pf_size f)"

text \<open>
  \<open>serialize\<close> appends the header and \<open>_h.size\<close> bytes from \<open>first\<close>; reading past the data there is
  undefined. The size is \<open>frame_size - header_size()\<close>, truncated to 16 bits by the assignment.
\<close>

definition pf_set_size :: "nat \<Rightarrow> priority_frame \<Rightarrow> priority_frame" where
  "pf_set_size frame_size f = f\<lparr>pf_size := word_of_int (int frame_size - int pf_header_size)\<rparr>"

definition pf_header_bytes :: "priority_frame \<Rightarrow> bytes" where
  "pf_header_bytes f = [pf_b0 f, ucast (drop_bit 8 (pf_size f)), ucast (pf_size f AND 0x00FF)]"

definition pf_serialize :: "bytes \<Rightarrow> bytes \<Rightarrow> nat \<Rightarrow> priority_frame \<Rightarrow> bytes result" where
  "pf_serialize out first frame_size f =
     (let f' = pf_set_size frame_size f
      in if unat (pf_size f') \<le> length first
         then Inr (out @ pf_header_bytes f' @ take (unat (pf_size f')) first)
         else Inl Undefined)"

definition pf_parse :: "bytes \<Rightarrow> priority_frame option result" where
  "pf_parse data =
     (let len = length data;
          f = (if len > 0 then pf_default\<lparr>pf_b0 := data ! 0\<rparr> else pf_default);
          f' = (if len \<ge> pf_header_size
                then f\<lparr>pf_size := (push_bit 8 (ucast (data ! 1)) AND 0xFF00) OR (ucast (data ! 2) AND 0x00FF)\<rparr>
                else f)
      in if len \<ge> pf_header_size \<and> drop_bit 4 (pf_b0 f') AND 0x0F \<noteq> 5 then Inl (Thrown Unexpected_data)
         else if len < pf_header_size + unat (pf_size f') then Inr None
         else Inr (Some f'))"

subsection \<open>Header bytes\<close>

lemma mask_values:
  "(0x0F :: byte) = mask 4" "(0x00FF :: u16) = mask 8" "(0xFF00 :: u16) = push_bit 8 (mask 8)"
  by (simp_all add: mask_eq_exp_minus_1)

lemma u16_bytes:
  "(push_bit 8 (ucast (ucast (drop_bit 8 s) :: byte)) AND 0xFF00) OR
   (ucast (ucast (s AND 0x00FF) :: byte) AND 0x00FF) = (s :: u16)"
  unfolding mask_values by (rule bit_word_eqI) (auto simp: bit_simps)

lemma pf_make_b0: "pf_b0 (pf_make p) = 0x50 OR take_bit 4 (word_of_int p)"
proof -
  have "push_bit 4 5 AND 0xF0 = (0x50 :: byte)" by simp
  then show ?thesis
    unfolding pf_make_def pf_default_def Let_def by (simp add: mask_values take_bit_eq_mask)
qed

lemma pf_b0_magic: "drop_bit 4 (pf_b0 (pf_make p)) AND 0x0F = 5"
  by (simp add: pf_make_b0 drop_bit_take_bit)

lemma pf_make_size [simp]: "pf_size (pf_make p) = 0"
  by (simp add: pf_make_def Let_def)

lemma pf_set_size_b0 [simp]: "pf_b0 (pf_set_size n f) = pf_b0 f"
  by (simp add: pf_set_size_def)

lemma pf_set_size_size:
  assumes "pf_header_size \<le> n" and "n < 65536"
  shows "unat (pf_size (pf_set_size n f)) = n - pf_header_size"
proof -
  have "word_of_int (int n - int pf_header_size) = (word_of_nat (n - pf_header_size) :: u16)"
    using assms(1) by (simp flip: of_nat_diff)
  then show ?thesis
    using assms(2) by (simp add: pf_set_size_def unat_of_nat)
qed

lemma pf_priority_make:
  assumes "0 \<le> p" and "p < 16"
  shows "pf_priority (pf_make p) = p"
proof -
  have "(0x50 :: byte) AND mask 4 = 0" by (simp add: mask_eq_exp_minus_1)
  then have "pf_b0 (pf_make p) AND mask 4 = take_bit 4 (word_of_int p)"
    by (simp add: pf_make_b0 bit.conj_disj_distrib2 flip: take_bit_eq_mask)
  moreover have "uint (take_bit 4 (word_of_int p :: byte)) = take_bit 4 (take_bit 8 p)"
    by (simp only: unsigned_take_bit_eq uint_word_of_int_eq) simp
  moreover have "take_bit 4 (take_bit 8 p) = p"
    using assms by (simp add: take_bit_int_eq_self)
  ultimately show ?thesis by (simp add: pf_priority_def mask_values)
qed

text \<open>Parsing a header followed by enough, or not enough, payload.\<close>

lemma pf_parse_header:
  assumes "drop_bit 4 (pf_b0 f) AND 0x0F = 5"
  shows "pf_parse (pf_header_bytes f @ rest) =
    Inr (if unat (pf_size f) \<le> length rest then Some f else None)"
proof -
  have "pf_default\<lparr>pf_b0 := pf_b0 f, pf_size := pf_size f\<rparr> = f"
    by (simp add: pf_default_def)
  with assms u16_bytes [of "pf_size f"] show ?thesis
    by (simp add: pf_parse_def pf_header_bytes_def pf_header_size_def Let_def)
qed

lemma pf_parse_short: "length data < 3 \<Longrightarrow> pf_parse data = Inr None"
  by (auto simp: pf_parse_def pf_header_size_def Let_def)

lemma pf_serialize_ok:
  assumes "length payload + 3 \<le> 65535" and "length payload \<le> length first" and "take (length payload) first = payload"
  shows "pf_serialize out first (length payload + 3) (pf_make p) =
    Inr (out @ pf_header_bytes (pf_set_size (length payload + 3) (pf_make p)) @ payload)"
  using assms by (simp add: pf_serialize_def pf_set_size_size pf_header_size_def Let_def)

lemma length_pf_header [simp]: "length (pf_header_bytes f) = 3"
  by (simp add: pf_header_bytes_def)

lemma pf_parse_prefix:
  assumes "drop_bit 4 (pf_b0 f) AND 0x0F = 5" and "unat (pf_size f) = length payload"
    and "k < 3 + length payload"
  shows "pf_parse (take k (pf_header_bytes f @ payload)) = Inr None"
proof (cases "k < 3")
  case True
  then show ?thesis by (intro pf_parse_short) simp
next
  case False
  then have "take k (pf_header_bytes f @ payload) = pf_header_bytes f @ take (k - 3) payload"
    by simp
  with assms pf_parse_header [OF assms(1), of "take (k - 3) payload"] False show ?thesis by simp
qed

subsection \<open>Properties\<close>

text \<open>A frame written by \<open>serialize\<close> for a priority below 16 and a payload that fits its 16-bit
  size is read back by \<open>parse\<close>, whatever follows it in the buffer, with the same priority and
  payload size, the payload standing right behind the three header bytes; and no proper prefix of
  the frame parses as a frame or raises an error, so a reader that has received only part of it
  waits for the rest.\<close>

theorem pf_roundtrip:
  assumes "0 \<le> p" and "p < 16" and "length payload \<le> 65532"
  shows "\<exists>frame h. pf_serialize [] payload (length payload + 3) (pf_make p) = Inr frame \<and>
    pf_parse (frame @ rest) = Inr (Some h) \<and> pf_priority h = p \<and>
    pf_payload_size h = length payload \<and> drop pf_header_size frame = payload \<and>
    (\<forall>k < length frame. pf_parse (take k frame) = Inr None)"
proof -
  let ?h = "pf_set_size (length payload + 3) (pf_make p)"
  have size: "unat (pf_size ?h) = length payload"
    using assms(3) by (simp add: pf_set_size_size pf_header_size_def)
  have magic: "drop_bit 4 (pf_b0 ?h) AND 0x0F = 5" by (simp add: pf_b0_magic)
  have "pf_serialize [] payload (length payload + 3) (pf_make p) = Inr (pf_header_bytes ?h @ payload)"
    using assms(3) pf_serialize_ok [of payload payload "[]" p] by simp
  moreover have "pf_parse ((pf_header_bytes ?h @ payload) @ rest) = Inr (Some ?h)"
    using pf_parse_header [OF magic, of "payload @ rest"] size by simp
  moreover have "pf_priority ?h = p"
    using pf_priority_make [OF assms(1,2)] by (simp add: pf_priority_def)
  moreover have "\<forall>k < length (pf_header_bytes ?h @ payload).
      pf_parse (take k (pf_header_bytes ?h @ payload)) = Inr None"
    using pf_parse_prefix [OF magic size] by simp
  ultimately show ?thesis
    using size by (auto simp: pf_payload_size_def pf_header_size_def)
qed

theorem pf_roundtrip_witness:
  "\<exists>frame h. pf_serialize [] [7, 8] 5 (pf_make 1) = Inr frame \<and>
    pf_parse (frame @ [9]) = Inr (Some h) \<and> pf_priority h = 1 \<and> pf_payload_size h = 2"
  using pf_roundtrip [of 1 "[7, 8]" "[9]"] by auto

end
