(* ===== verification/PriorityQueue.thy ===== *)
theory PriorityQueue
  imports PriorityFrame WriterQueue
begin

text \<open>
  \<open>priority_writer_queue\<close> (include/pfs/netty/patterns/meshnet/priority_writer_queue.hpp): \<open>N\<close>
  output queues, one per priority, and a cursor that gives each queue a number of frames per
  phase. \<open>_total_size\<close> is kept at its 64 bits.

  In \<open>shift\<close> the variable \<open>x\<close> is a reference to the queue the cursor pointed to on entry, so the
  two assignments \<open>x = _qp[_priority_cursor]\<close> copy another queue over that queue. The model writes
  the copies out.
\<close>

subsection \<open>State\<close>

definition frame_calculator :: "nat \<Rightarrow> nat list" where
  "frame_calculator n =
     (if n = 2 then [2, 1]
      else if n = 3 then [4, 2, 1]
      else if n = 4 then [8, 4, 2, 1]
      else if n = 5 then [16, 8, 4, 2, 1]
      else if n = 6 then [32, 16, 8, 4, 2, 1]
      else [])"

record pq_queue =
  pq_q :: "elem list"
  pq_frame_limit :: int
  pq_frame_counter :: int

record priority_queue =
  pq_qp :: "pq_queue list"
  pq_cursor :: nat
  pq_total_size :: u64

subsection \<open>Operations\<close>

text \<open>The constructor, for the frame limits \<open>x\<close> of the \<open>FrameCalculator\<close>.\<close>

definition pq_new :: "nat list \<Rightarrow> priority_queue result" where
  "pq_new x =
     (if \<forall>n \<in> set x. n > 0
      then Inr \<lparr>pq_qp = map (\<lambda>n. \<lparr>pq_q = [], pq_frame_limit = int n, pq_frame_counter = int n\<rparr>) x,
                pq_cursor = 0, pq_total_size = 0\<rparr>
      else Inl Terminated)"

definition pq_reset_phase :: "pq_queue list \<Rightarrow> pq_queue list" where
  "pq_reset_phase qp = map (\<lambda>x. x\<lparr>pq_frame_counter := pq_frame_limit x\<rparr>) qp"

definition pq_enqueue :: "int \<Rightarrow> bytes \<Rightarrow> priority_queue \<Rightarrow> priority_queue result" where
  "pq_enqueue priority data pq =
     (if data = [] then Inr pq
      else if 0 \<le> priority \<and> nat priority < length (pq_qp pq) then
        (let x = pq_qp pq ! nat priority
         in Inr (pq\<lparr>pq_total_size := pq_total_size pq + word_of_nat (length data),
                    pq_qp := (pq_qp pq)[nat priority :=
                      x\<lparr>pq_q := pq_q x @ [\<lparr>elem_b = data, elem_cursor = 0\<rparr>]\<rparr>]\<rparr>))
      else Inl Undefined)"

definition pq_empty :: "priority_queue \<Rightarrow> bool" where
  "pq_empty pq \<longleftrightarrow> pq_total_size pq = 0"

definition pq_frame :: "nat \<Rightarrow> priority_queue \<Rightarrow> bytes result" where
  "pq_frame frame_size pq =
     (if pq_empty pq then Inr []
      else if pq_cursor pq < length (pq_qp pq) then
        (case pq_q (pq_qp pq ! pq_cursor pq) of
           [] \<Rightarrow> Inl Undefined
         | front # _ \<Rightarrow>
             (let frame_size' = min (length (elem_b front) - elem_cursor front + pf_header_size) frame_size;
                  first = drop (elem_cursor front) (elem_b front)
              in pf_serialize [] first frame_size' (pf_make (int (pq_cursor pq)))))
      else Inl Undefined)"

text \<open>The loops of \<open>shift\<close> that look for a queue from \<open>k\<close> on; \<open>c\<close> is the queue \<open>x\<close> refers to.\<close>

function pq_next_in_phase :: "nat \<Rightarrow> nat \<Rightarrow> pq_queue list \<Rightarrow> pq_queue list \<times> nat option" where
  "pq_next_in_phase c k qp =
     (if k < length qp then
        (let qp' = qp[c := qp ! k]
         in if pq_frame_counter (qp' ! c) \<noteq> 0 then (qp', Some k)
            else pq_next_in_phase c (Suc k) qp')
      else (qp, None))"
  by pat_completeness auto
termination
  by (relation "measure (\<lambda>(c, k, qp). length qp - k)") auto

function pq_next_nonempty :: "nat \<Rightarrow> nat \<Rightarrow> pq_queue list \<Rightarrow> pq_queue list \<times> nat option" where
  "pq_next_nonempty c k qp =
     (if k < length qp then
        (let qp' = qp[c := qp ! k]
         in if pq_q (qp' ! c) \<noteq> [] then (qp', Some k)
            else pq_next_nonempty c (Suc k) qp')
      else (qp, None))"
  by pat_completeness auto
termination
  by (relation "measure (\<lambda>(c, k, qp). length qp - k)") auto

declare pq_next_in_phase.simps [simp del] pq_next_nonempty.simps [simp del]

text \<open>The front element after \<open>front.cursor += n\<close>, in \<open>size_t\<close> arithmetic.\<close>

definition pq_advance :: "u64 \<Rightarrow> elem \<Rightarrow> elem" where
  "pq_advance n e = e\<lparr>elem_cursor := unat (word_of_nat (elem_cursor e) + n)\<rparr>"

definition pq_change_queue :: "nat \<Rightarrow> priority_queue \<Rightarrow> priority_queue result" where
  "pq_change_queue c pq =
     (let qp0 = (pq_qp pq)[c := (pq_qp pq ! c)\<lparr>pq_frame_counter := 0\<rparr>]
      in case pq_next_in_phase c (Suc c) qp0 of
           (qp1, Some k) \<Rightarrow> Inr (pq\<lparr>pq_qp := qp1, pq_cursor := k\<rparr>)
         | (qp1, None) \<Rightarrow>
             (case pq_next_nonempty c 0 (pq_reset_phase qp1) of
                (qp2, Some k) \<Rightarrow> Inr (pq\<lparr>pq_qp := qp2, pq_cursor := k\<rparr>)
              | (qp2, None) \<Rightarrow> Inl Terminated))"

definition pq_shift :: "nat \<Rightarrow> priority_queue \<Rightarrow> priority_queue result" where
  "pq_shift frame_size pq =
     (let n = word_of_nat frame_size - word_of_nat pf_header_size;
          c = pq_cursor pq
      in if \<not> c < length (pq_qp pq) then Inl Undefined
         else case pq_q (pq_qp pq ! c) of
           [] \<Rightarrow> Inl Undefined
         | front # rest \<Rightarrow>
             (let total = pq_total_size pq - n;
                  front' = pq_advance n front;
                  q' = (if elem_cursor front' \<ge> length (elem_b front') then rest else front' # rest);
                  x = (pq_qp pq ! c)\<lparr>pq_q := q', pq_frame_counter := pq_frame_counter (pq_qp pq ! c) - 1\<rparr>;
                  pq1 = pq\<lparr>pq_total_size := total, pq_qp := (pq_qp pq)[c := x]\<rparr>
              in if pq_frame_counter x > 0 \<and> pq_q x \<noteq> [] then Inr pq1
                 else if total = 0 then
                   Inr (pq1\<lparr>pq_cursor := 0, pq_qp := pq_reset_phase (pq_qp pq1)\<rparr>)
                 else pq_change_queue c pq1))"

text \<open>The template parameter of \<open>writer_pool\<close> for the limits \<open>x\<close>.\<close>

definition pq_ops :: "priority_queue \<Rightarrow> nat \<Rightarrow> priority_queue queue_ops" where
  "pq_ops new n = \<lparr>q_init = new, q_enqueue = pq_enqueue, q_empty = pq_empty, q_frame = pq_frame,
     q_shift = pq_shift, q_priority_count = int n\<rparr>"

subsection \<open>Rounds of frame and shift\<close>

text \<open>\<open>k\<close> rounds in which the socket takes the whole frame, as in a loop of \<open>writer_pool::send\<close>.\<close>

fun pq_rounds :: "nat \<Rightarrow> nat \<Rightarrow> priority_queue \<Rightarrow> (bytes list \<times> priority_queue) result" where
  "pq_rounds 0 frame_size pq = Inr ([], pq)"
| "pq_rounds (Suc k) frame_size pq =
     bindr (pq_frame frame_size pq) (\<lambda>f.
       bindr (pq_shift (length f) pq) (\<lambda>pq'.
         mapr (\<lambda>(fs, r). (f # fs, r)) (pq_rounds k frame_size pq')))"

subsection \<open>One message within a phase\<close>

text \<open>A queue in which only priority 0 holds data, a single element \<open>e\<close>, with \<open>j\<close> frames left.\<close>

definition pq_idle :: "nat \<Rightarrow> pq_queue" where
  "pq_idle l = \<lparr>pq_q = [], pq_frame_limit = int l, pq_frame_counter = int l\<rparr>"

definition pq_sending :: "nat \<Rightarrow> nat list \<Rightarrow> nat \<Rightarrow> elem \<Rightarrow> priority_queue" where
  "pq_sending l ls j e =
     \<lparr>pq_qp = \<lparr>pq_q = [e], pq_frame_limit = int l, pq_frame_counter = int j\<rparr> # map pq_idle ls,
      pq_cursor = 0, pq_total_size = word_of_nat (length (elem_rest e))\<rparr>"

lemma pq_new_idle: "\<forall>n \<in> set (l # ls). n > 0 \<Longrightarrow>
   pq_new (l # ls) = Inr \<lparr>pq_qp = map pq_idle (l # ls), pq_cursor = 0, pq_total_size = 0\<rparr>"
  by (simp add: pq_new_def pq_idle_def)

lemma pq_reset_idle [simp]: "pq_reset_phase (map pq_idle ls) = map pq_idle ls"
  by (simp add: pq_reset_phase_def pq_idle_def)

lemma word_of_nat_nonzero: "0 < n \<Longrightarrow> n < 2 ^ 64 \<Longrightarrow> (word_of_nat n :: u64) \<noteq> 0"
  by (auto simp: word_of_nat_eq_0_iff dest: nat_dvd_not_less)

text \<open>One round sends the next \<open>fs - 3\<close> bytes.\<close>

lemma pq_frame_sending:
  assumes "elem_cursor e < length (elem_b e)" and "length (elem_b e) < 2 ^ 64"
    and "3 < fs" and "fs < 65536"
  shows "\<exists>h. pq_frame fs (pq_sending l ls j e) = Inr (pf_header_bytes h @ take (fs - 3) (elem_rest e)) \<and>
    pf_parse (pf_header_bytes h @ take (fs - 3) (elem_rest e)) = Inr (Some h) \<and> pf_priority h = 0"
proof -
  let ?pl = "take (fs - 3) (elem_rest e)"
  let ?h = "pf_set_size (length ?pl + 3) (pf_make 0)"
  have "length (elem_rest e) < 2 ^ 64" "0 < length (elem_rest e)"
    using assms by (simp_all add: elem_rest_def)
  then have nonempty: "\<not> pq_empty (pq_sending l ls j e)"
    using word_of_nat_nonzero by (simp add: pq_empty_def pq_sending_def)
  have len: "min (length (elem_b e) - elem_cursor e + pf_header_size) fs = length ?pl + 3"
    using assms by (auto simp: pf_header_size_def elem_rest_def)
  have "pq_frame fs (pq_sending l ls j e) = pf_serialize [] (elem_rest e) (length ?pl + 3) (pf_make 0)"
    using nonempty unfolding pq_frame_def Let_def len
    by (simp add: pq_sending_def len flip: elem_rest_def)
  also have "\<dots> = Inr ([] @ pf_header_bytes ?h @ ?pl)"
    by (rule pf_serialize_ok) (use assms in \<open>auto simp: min_def\<close>)
  finally have "pq_frame fs (pq_sending l ls j e) = Inr (pf_header_bytes ?h @ ?pl)" by simp
  moreover have "unat (pf_size ?h) = length ?pl"
    using assms by (simp add: pf_set_size_size pf_header_size_def)
  moreover have "drop_bit 4 (pf_b0 ?h) AND 0x0F = 5" by (simp add: pf_b0_magic)
  moreover have "pf_priority ?h = 0"
    using pf_priority_make [of 0] by (simp add: pf_priority_def)
  ultimately show ?thesis using pf_parse_header [of ?h ?pl] by auto
qed

lemma pq_advance_cursor:
  assumes "elem_cursor e + m \<le> length (elem_b e)" and "length (elem_b e) < 2 ^ 64"
  shows "pq_advance (word_of_nat m) e = e\<lparr>elem_cursor := elem_cursor e + m\<rparr>"
  using assms by (simp add: pq_advance_def unat_of_nat flip: of_nat_add)

lemma pq_shift_sending:
  assumes e: "elem_cursor e < length (elem_b e)" "length (elem_b e) < 2 ^ 64"
    and m: "m \<le> length (elem_rest e)"
  shows "pq_shift (m + 3) (pq_sending l ls (Suc j) e) =
    (if m = length (elem_rest e)
     then Inr \<lparr>pq_qp = map pq_idle (l # ls), pq_cursor = 0, pq_total_size = 0\<rparr>
     else if 0 < j then Inr (pq_sending l ls j (e\<lparr>elem_cursor := elem_cursor e + m\<rparr>))
     else pq_shift (m + 3) (pq_sending l ls (Suc j) e))"
proof -
  have n: "(word_of_nat (m + 3) - word_of_nat pf_header_size :: u64) = word_of_nat m"
    by (simp add: pf_header_size_def)
  have adv: "pq_advance (word_of_nat m) e = e\<lparr>elem_cursor := elem_cursor e + m\<rparr>"
    using e m by (intro pq_advance_cursor) (auto simp: elem_rest_def)
  have rest: "length (elem_rest (e\<lparr>elem_cursor := elem_cursor e + m\<rparr>)) = length (elem_rest e) - m"
    by (simp add: elem_rest_def)
  have total: "(word_of_nat (length (elem_rest e)) - word_of_nat m :: u64) =
      word_of_nat (length (elem_rest e) - m)"
    using m by simp
  have last: "length (elem_b e) \<le> elem_cursor e + m \<longleftrightarrow> m = length (elem_rest e)"
    using e m by (auto simp: elem_rest_def)
  show ?thesis
  proof (cases "m = length (elem_rest e)")
    case True
    then show ?thesis
      using adv [unfolded True] last [unfolded True]
      unfolding pq_shift_def Let_def n
      by (simp add: pq_sending_def pq_reset_phase_def pq_idle_def)
  next
    case False
    then show ?thesis
      unfolding pq_shift_def Let_def n
      by (simp add: pq_sending_def adv last total rest)
  qed
qed

lemma pq_rounds_sending:
  assumes "elem_cursor e < length (elem_b e)" "length (elem_b e) < 2 ^ 64" "3 < fs" "fs < 65536"
    and "k \<le> j" and "length (elem_rest e) \<le> k * (fs - 3)" and "(k - 1) * (fs - 3) < length (elem_rest e)"
  shows "\<exists>frames. pq_rounds k fs (pq_sending l ls j e) =
      Inr (frames, \<lparr>pq_qp = map pq_idle (l # ls), pq_cursor = 0, pq_total_size = 0\<rparr>) \<and>
    concat (map (drop 3) frames) = elem_rest e \<and>
    (\<forall>f \<in> set frames. length f \<le> fs \<and> (\<exists>h. pf_parse f = Inr (Some h) \<and> pf_priority h = 0))"
  using assms
proof (induction k arbitrary: j e)
  case 0
  then show ?case by (simp add: elem_rest_def)
next
  case (Suc k)
  let ?r = "elem_rest e"
  let ?m = "min (length ?r) (fs - 3)"
  let ?e = "e\<lparr>elem_cursor := elem_cursor e + ?m\<rparr>"
  from Suc.prems(5) obtain i where j: "j = Suc i" by (cases j) auto
  from pq_frame_sending [OF Suc.prems(1-4), of l ls j] obtain h where
    f: "pq_frame fs (pq_sending l ls j e) = Inr (pf_header_bytes h @ take (fs - 3) ?r)"
    and h: "pf_parse (pf_header_bytes h @ take (fs - 3) ?r) = Inr (Some h)" "pf_priority h = 0" by blast
  have len: "length (pf_header_bytes h @ take (fs - 3) ?r) = ?m + 3" by simp
  note shift = pq_shift_sending [OF Suc.prems(1,2), of ?m l ls i]
  have rest: "elem_rest ?e = drop ?m ?r" by (simp add: elem_rest_def add.commute)
  show ?case
  proof (cases "k = 0")
    case True
    with Suc.prems(6) have "?m = length ?r" by simp
    with True f h len shift j Suc.prems(3) show ?thesis by (auto simp: add.commute)
  next
    case False
    with Suc.prems(7) have less: "fs - 3 < length ?r"
      by (metis diff_Suc_1 le_less_trans mult.commute mult_le_mono2 nat_mult_1_right One_nat_def Suc_leI neq0_conv)
    then have m: "?m = fs - 3" by simp
    have len_e: "length (elem_rest ?e) = length ?r - (fs - 3)" unfolding rest using m by simp
    from False Suc.prems(5) j have "0 < i" "k \<le> i" by auto
    have e1: "elem_cursor ?e < length (elem_b ?e)" using less m by (simp add: elem_rest_def)
    have k1: "length (elem_rest ?e) \<le> k * (fs - 3)" using Suc.prems(6) len_e by simp
    from False obtain k' where "k = Suc k'" by (cases k) auto
    then have k2: "(k - 1) * (fs - 3) < length (elem_rest ?e)"
      using Suc.prems(7) len_e by (simp add: less_diff_conv add.commute)
    have b: "length (elem_b ?e) < 2 ^ 64" using Suc.prems(2) by simp
    from Suc.IH [OF e1 b Suc.prems(3,4) \<open>k \<le> i\<close> k1 k2] obtain frames where
      fr: "pq_rounds k fs (pq_sending l ls i ?e) =
        Inr (frames, \<lparr>pq_qp = map pq_idle (l # ls), pq_cursor = 0, pq_total_size = 0\<rparr>)"
      "concat (map (drop 3) frames) = elem_rest ?e"
      "\<forall>f \<in> set frames. length f \<le> fs \<and> (\<exists>h. pf_parse f = Inr (Some h) \<and> pf_priority h = 0)" by blast
    have "pq_shift (?m + 3) (pq_sending l ls j e) = Inr (pq_sending l ls i ?e)"
      using shift less m \<open>0 < i\<close> j by simp
    then have "pq_rounds (Suc k) fs (pq_sending l ls j e) =
        Inr ((pf_header_bytes h @ take (fs - 3) ?r) # frames,
             \<lparr>pq_qp = map pq_idle (l # ls), pq_cursor = 0, pq_total_size = 0\<rparr>)"
      using f len fr(1) by (simp add: add.commute)
    moreover have "take (fs - 3) ?r @ elem_rest ?e = ?r" using rest by (simp add: m)
    ultimately show ?thesis using fr(2,3) h len m Suc.prems(3) by auto
  qed
qed

text \<open>Two rounds of a three-byte message with one payload byte per frame, for two priorities.\<close>

lemma pq_two_rounds:
  "pq_rounds 2 4
     \<lparr>pq_qp = [\<lparr>pq_q = [\<lparr>elem_b = [a, b, c], elem_cursor = 0\<rparr>], pq_frame_limit = 2, pq_frame_counter = 2\<rparr>,
               \<lparr>pq_q = [], pq_frame_limit = 1, pq_frame_counter = 1\<rparr>],
      pq_cursor = 0, pq_total_size = 3\<rparr> =
   Inr ([[80, 0, 1, a], [80, 0, 1, b]],
     \<lparr>pq_qp = [\<lparr>pq_q = [], pq_frame_limit = 1, pq_frame_counter = 1\<rparr>,
               \<lparr>pq_q = [], pq_frame_limit = 1, pq_frame_counter = 1\<rparr>],
      pq_cursor = 1, pq_total_size = 1\<rparr>)"
  by code_simp

subsection \<open>Properties\<close>

text \<open>C36. A message of at most \<open>l\<close> frames (\<open>l\<close> the frame limit of priority 0), enqueued with
  priority 0 on a fresh queue, is delivered: the \<open>k\<close> frames read off by \<open>frame\<close> and \<open>shift\<close> each
  parse with priority 0, are no longer than the frame size, and carry the message's bytes in
  order, and the queue is then the fresh queue again.\<close>

theorem pq_delivers_within_phase:
  assumes "\<forall>n \<in> set (l # ls). n > 0" and "3 < fs" and "fs < 65536" and "length d < 2 ^ 64" and "k \<le> l"
    and "length d \<le> k * (fs - 3)" and "(k - 1) * (fs - 3) < length d"
  shows "\<exists>fresh pq frames. pq_new (l # ls) = Inr fresh \<and> pq_enqueue 0 d fresh = Inr pq \<and>
    pq_rounds k fs pq = Inr (frames, fresh) \<and> concat (map (drop 3) frames) = d \<and>
    (\<forall>f \<in> set frames. length f \<le> fs \<and> (\<exists>h. pf_parse f = Inr (Some h) \<and> pf_priority h = 0))"
proof -
  let ?e = "\<lparr>elem_b = d, elem_cursor = 0\<rparr>"
  have d: "d \<noteq> []" using assms(7) by auto
  have "pq_enqueue 0 d \<lparr>pq_qp = map pq_idle (l # ls), pq_cursor = 0, pq_total_size = 0\<rparr> =
      Inr (pq_sending l ls l ?e)"
    using d by (simp add: pq_enqueue_def pq_sending_def pq_idle_def elem_rest_def)
  moreover have "elem_rest ?e = d" by (simp add: elem_rest_def)
  ultimately show ?thesis
    using pq_rounds_sending [of ?e fs k l l ls] pq_new_idle [OF assms(1)] assms d by auto
qed

theorem pq_delivers_within_phase_witness:
  "\<exists>fresh pq frames. pq_new (frame_calculator 3) = Inr fresh \<and> pq_enqueue 0 [1, 2, 3, 4, 5] fresh = Inr pq \<and>
    pq_rounds 3 5 pq = Inr (frames, fresh) \<and> concat (map (drop 3) frames) = [1, 2, 3, 4, 5]"
  using pq_delivers_within_phase [of 4 "[2, 1]" 5 "[1, 2, 3, 4, 5]" 3]
  by (auto simp: frame_calculator_def)

text \<open>When the turn of queue \<open>c\<close> is over (its frames are used up or it ran empty) while data
  remains somewhere and the next queue still has frames in this phase, \<open>shift\<close> moves the cursor
  to the next queue, and leaves in place \<open>c\<close> a copy of that next queue: the elements that queue
  \<open>c\<close> still held, its limit and its counter are lost, and the next queue's elements are held
  twice.\<close>

theorem pq_shift_overwrites_queue:
  assumes "pq_cursor pq = c" and "Suc c < length (pq_qp pq)" and "pq_q (pq_qp pq ! c) = front # rest"
    and "elem_cursor front + n < length (elem_b front)" and "length (elem_b front) < 2 ^ 64"
    and "pq_frame_counter (pq_qp pq ! c) = 1"
    and "pq_total_size pq \<noteq> word_of_nat n" and "pq_frame_counter (pq_qp pq ! Suc c) \<noteq> 0"
  shows "\<exists>pq'. pq_shift (n + 3) pq = Inr pq' \<and> pq_cursor pq' = Suc c \<and>
    pq_qp pq' ! c = pq_qp pq ! Suc c \<and> pq_qp pq' ! Suc c = pq_qp pq ! Suc c"
proof -
  have n: "(word_of_nat (n + 3) - word_of_nat pf_header_size :: u64) = word_of_nat n"
    by (simp add: pf_header_size_def)
  have adv: "pq_advance (word_of_nat n) front = front\<lparr>elem_cursor := elem_cursor front + n\<rparr>"
    using assms(4,5) by (intro pq_advance_cursor) simp_all
  have "\<exists>pq'. pq_change_queue c pq1 = Inr pq' \<and> pq_cursor pq' = Suc c \<and>
      pq_qp pq' ! c = pq_qp pq ! Suc c \<and> pq_qp pq' ! Suc c = pq_qp pq ! Suc c"
    if "pq_qp pq1 = (pq_qp pq)[c := x]" for pq1 x
    using that assms(2,8) by (simp add: pq_change_queue_def pq_next_in_phase.simps [of c "Suc c"] Let_def)
  with assms adv show ?thesis
    unfolding pq_shift_def Let_def n by simp
qed

theorem pq_shift_overwrites_queue_witness:
  "\<exists>pq'. pq_shift 4 \<lparr>pq_qp = [\<lparr>pq_q = [\<lparr>elem_b = [1, 2], elem_cursor = 0\<rparr>], pq_frame_limit = 2,
       pq_frame_counter = 1\<rparr>, \<lparr>pq_q = [], pq_frame_limit = 1, pq_frame_counter = 1\<rparr>],
       pq_cursor = 0, pq_total_size = 2\<rparr> = Inr pq' \<and>
     pq_qp pq' ! 0 = \<lparr>pq_q = [], pq_frame_limit = 1, pq_frame_counter = 1\<rparr>"
  using pq_shift_overwrites_queue [of "\<lparr>pq_qp = [\<lparr>pq_q = [\<lparr>elem_b = [1, 2], elem_cursor = 0\<rparr>],
       pq_frame_limit = 2, pq_frame_counter = 1\<rparr>, \<lparr>pq_q = [], pq_frame_limit = 1, pq_frame_counter = 1\<rparr>],
       pq_cursor = 0, pq_total_size = 2\<rparr>" 0 "\<lparr>elem_b = [1, 2], elem_cursor = 0\<rparr>" "[]" 1]
  by auto

text \<open>Data enqueued on a fresh queue with any priority but 0 makes the first call of \<open>frame\<close>
  undefined: the cursor stays at queue 0, which is empty, and \<open>frame\<close> takes its \<open>front()\<close>.\<close>

theorem pq_first_low_priority_undefined:
  assumes "\<forall>n \<in> set limits. n > 0" and "0 < p" and "nat p < length limits" and "d \<noteq> []" and "length d < 2 ^ 64"
  shows "\<exists>fresh pq. pq_new limits = Inr fresh \<and> pq_enqueue p d fresh = Inr pq \<and>
    pq_frame fs pq = Inl Undefined"
proof -
  obtain l ls where limits: "limits = l # ls" using assms(3) by (cases limits) auto
  obtain i where p: "nat p = Suc i" using assms(2) by (cases "nat p") auto
  have "word_of_nat (length d) \<noteq> (0 :: u64)" using assms(4,5) by (simp add: word_of_nat_nonzero)
  with assms limits p show ?thesis
    by (simp add: pq_new_def pq_enqueue_def pq_frame_def pq_empty_def Let_def)
qed

theorem pq_first_low_priority_undefined_witness:
  "\<exists>fresh pq. pq_new (frame_calculator 2) = Inr fresh \<and> pq_enqueue 1 [7] fresh = Inr pq \<and>
    pq_frame 1500 pq = Inl Undefined"
  using pq_first_low_priority_undefined [of "frame_calculator 2" 1 "[7]" 1500]
  by (auto simp: frame_calculator_def)

text \<open>A message of three frames on a fresh queue with two priorities and the default frame
  limits is not delivered: two frames go out, the remaining byte is overwritten, and reading the
  third frame is undefined although the queue does not report itself empty.\<close>

theorem pq_long_message_lost:
  "\<exists>fresh pq frames pq2. pq_new (frame_calculator 2) = Inr fresh \<and> pq_enqueue 0 [a, b, c] fresh = Inr pq \<and>
    pq_rounds 2 4 pq = Inr (frames, pq2) \<and> concat (map (drop 3) frames) = [a, b] \<and>
    \<not> pq_empty pq2 \<and> list_all (\<lambda>x. pq_q x = []) (pq_qp pq2) \<and> pq_frame 4 pq2 = Inl Undefined"
  using pq_two_rounds [of a b c]
  by (simp add: frame_calculator_def pq_new_def pq_enqueue_def pq_empty_def pq_frame_def Let_def)

end
