(* ===== verification/SocketPool.thy ===== *)
theory SocketPool
  imports Inet4Addr
begin

text \<open>
  \<open>netty::socket_pool\<close> (include/pfs/netty/socket_pool.hpp): the sockets of a node, in a vector whose
  freed places are used again, with a map from socket identifiers to places. The contract the node
  relies on is the locale \<open>socket_store\<close>: the pool is a map from identifiers to sockets, from which
  a socket disappears when the removals are applied and not before.

  A socket is its identifier and the address \<open>saddr()\<close> returns; the places of freed sockets hold the
  default-constructed socket. \<open>_free_indices\<close> is a \<open>std::set\<close>, a sorted list without duplicates.
\<close>

subsection \<open>State\<close>

record net_socket =
  so_id :: socket_id
  so_saddr :: socket4_addr

definition invalid_socket_id :: socket_id where
  "invalid_socket_id = -1"

definition blank_socket :: net_socket where
  "blank_socket = \<lparr>so_id = invalid_socket_id, so_saddr = \<lparr>sa_addr = Inet4 0, sa_port = 0\<rparr>\<rparr>"

datatype sp_kind = SpAccepted | SpConnected

record sp_account =
  sp_sock :: net_socket
  sp_kind :: sp_kind

record socket_pool =
  sp_free_indices :: "nat list"
  sp_accounts :: "sp_account list"
  sp_mapping :: "socket_id \<rightharpoonup> nat"
  sp_removable :: "socket_id list"

definition sp_new :: socket_pool where
  "sp_new = \<lparr>sp_free_indices = [], sp_accounts = [], sp_mapping = Map.empty, sp_removable = []\<rparr>"

subsection \<open>Operations\<close>

definition sp_add :: "net_socket \<Rightarrow> sp_kind \<Rightarrow> socket_pool \<Rightarrow> socket_pool result" where
  "sp_add sock kind p =
     (case sp_free_indices p of
        [] \<Rightarrow>
          Inr (p\<lparr>sp_mapping := (sp_mapping p)(so_id sock \<mapsto> length (sp_accounts p)),
                 sp_accounts := sp_accounts p @ [\<lparr>sp_sock = sock, sp_kind = kind\<rparr>]\<rparr>)
      | pos # free \<Rightarrow>
          (if pos < length (sp_accounts p) then
             Inr (p\<lparr>sp_mapping := (sp_mapping p)(so_id sock \<mapsto> pos),
                    sp_accounts := (sp_accounts p)[pos := \<lparr>sp_sock = sock, sp_kind = kind\<rparr>],
                    sp_free_indices := free\<rparr>)
           else Inl Undefined))"

definition sp_add_connected :: "net_socket \<Rightarrow> socket_pool \<Rightarrow> socket_pool result" where
  "sp_add_connected sock p = sp_add sock SpConnected p"

definition sp_add_accepted :: "net_socket \<Rightarrow> socket_pool \<Rightarrow> socket_pool result" where
  "sp_add_accepted sock p = sp_add sock SpAccepted p"

definition sp_locate_account :: "socket_id \<Rightarrow> socket_pool \<Rightarrow> sp_account option result" where
  "sp_locate_account sid p =
     (case sp_mapping p sid of
        None \<Rightarrow> Inr None
      | Some index \<Rightarrow>
          (if \<not> index < length (sp_accounts p) then Inl Terminated
           else if index \<in> set (sp_free_indices p) then Inl Terminated
           else if so_id (sp_sock (sp_accounts p ! index)) \<noteq> sid then Inl Terminated
           else Inr (Some (sp_accounts p ! index))))"

definition sp_locate :: "socket_id \<Rightarrow> socket_pool \<Rightarrow> (net_socket \<times> bool) option result" where
  "sp_locate sid p =
     mapr (map_option (\<lambda>acc. (sp_sock acc, sp_kind acc = SpAccepted))) (sp_locate_account sid p)"

definition sp_remove_later :: "socket_id \<Rightarrow> socket_pool \<Rightarrow> socket_pool" where
  "sp_remove_later sid p = p\<lparr>sp_removable := sp_removable p @ [sid]\<rparr>"

text \<open>The body of the loop in \<open>apply_remove\<close>.\<close>

definition sp_remove_one :: "socket_id \<Rightarrow> socket_pool \<Rightarrow> socket_pool result" where
  "sp_remove_one sid p =
     (case sp_mapping p sid of
        None \<Rightarrow> Inr p
      | Some index \<Rightarrow>
          (if index < length (sp_accounts p) then
             Inr (p\<lparr>sp_accounts := (sp_accounts p)[index := (sp_accounts p ! index)\<lparr>sp_sock := blank_socket\<rparr>],
                    sp_free_indices := (if index \<in> set (sp_free_indices p) then sp_free_indices p
                                        else insort index (sp_free_indices p)),
                    sp_mapping := (sp_mapping p)(sid := None)\<rparr>)
           else Inl Undefined))"

definition sp_apply_remove :: "socket_pool \<Rightarrow> socket_pool result" where
  "sp_apply_remove p =
     (if sp_removable p = [] then Inr p
      else mapr (\<lambda>p'. p'\<lparr>sp_removable := []\<rparr>) (foldr_res sp_remove_one (sp_removable p) p))"

text \<open>\<open>count\<close> in \<open>size_t\<close> arithmetic.\<close>

definition sp_count :: "socket_pool \<Rightarrow> u64 result" where
  "sp_count p =
     (let accounts = word_of_nat (length (sp_accounts p));
          free = word_of_nat (length (sp_free_indices p));
          removable = word_of_nat (length (sp_removable p))
      in if accounts < free - removable then Inr (accounts - free - removable)
         else Inl Terminated)"

subsection \<open>Invariant and abstraction\<close>

definition sp_inv :: "socket_pool \<Rightarrow> bool" where
  "sp_inv p \<longleftrightarrow>
     sorted (sp_free_indices p) \<and> distinct (sp_free_indices p) \<and>
     (\<forall>i \<in> set (sp_free_indices p). i < length (sp_accounts p)) \<and>
     (\<forall>sid i. sp_mapping p sid = Some i \<longrightarrow>
        i < length (sp_accounts p) \<and> i \<notin> set (sp_free_indices p) \<and>
        so_id (sp_sock (sp_accounts p ! i)) = sid) \<and>
     (\<forall>i < length (sp_accounts p). i \<notin> set (sp_free_indices p) \<longrightarrow>
        sp_mapping p (so_id (sp_sock (sp_accounts p ! i))) = Some i)"

text \<open>The pool as a map from identifiers to a socket and whether it was accepted.\<close>

definition sp_abs :: "socket_pool \<Rightarrow> socket_id \<rightharpoonup> net_socket \<times> bool" where
  "sp_abs p sid =
     map_option (\<lambda>i. (sp_sock (sp_accounts p ! i), sp_kind (sp_accounts p ! i) = SpAccepted)) (sp_mapping p sid)"

lemma sp_inv_mapping:
  "sp_inv p \<Longrightarrow> sp_mapping p sid = Some i \<Longrightarrow>
     i < length (sp_accounts p) \<and> i \<notin> set (sp_free_indices p) \<and> so_id (sp_sock (sp_accounts p ! i)) = sid"
  by (simp add: sp_inv_def)

lemma sp_locate_abs: "sp_inv p \<Longrightarrow> sp_locate sid p = Inr (sp_abs p sid)"
  by (auto simp: sp_locate_def sp_locate_account_def sp_abs_def dest: sp_inv_mapping split: option.splits)

text \<open>Two identifiers never share a place.\<close>

lemma sp_mapping_inj: "sp_inv p \<Longrightarrow> sp_mapping p a = Some i \<Longrightarrow> sp_mapping p b = Some i \<Longrightarrow> a = b"
  by (auto dest: sp_inv_mapping)

lemma sp_invI:
  assumes "sorted (sp_free_indices p)" and "distinct (sp_free_indices p)"
    and "\<And>i. i \<in> set (sp_free_indices p) \<Longrightarrow> i < length (sp_accounts p)"
    and "\<And>sid i. sp_mapping p sid = Some i \<Longrightarrow> i < length (sp_accounts p) \<and> i \<notin> set (sp_free_indices p) \<and>
          so_id (sp_sock (sp_accounts p ! i)) = sid"
    and "\<And>i. i < length (sp_accounts p) \<Longrightarrow> i \<notin> set (sp_free_indices p) \<Longrightarrow>
          sp_mapping p (so_id (sp_sock (sp_accounts p ! i))) = Some i"
  shows "sp_inv p"
  using assms unfolding sp_inv_def by blast

lemma sp_inv_free:
  "sp_inv p \<Longrightarrow> sorted (sp_free_indices p)" "sp_inv p \<Longrightarrow> distinct (sp_free_indices p)"
  "sp_inv p \<Longrightarrow> i \<in> set (sp_free_indices p) \<Longrightarrow> i < length (sp_accounts p)"
  by (simp_all add: sp_inv_def)

lemma sp_inv_used:
  "sp_inv p \<Longrightarrow> i < length (sp_accounts p) \<Longrightarrow> i \<notin> set (sp_free_indices p) \<Longrightarrow>
     sp_mapping p (so_id (sp_sock (sp_accounts p ! i))) = Some i"
  by (simp add: sp_inv_def)

text \<open>Entries whose place keeps its account keep their value.\<close>

lemma sp_abs_same:
  "sp_mapping p' x = sp_mapping p x \<Longrightarrow>
   (\<And>j. sp_mapping p x = Some j \<Longrightarrow> sp_accounts p' ! j = sp_accounts p ! j) \<Longrightarrow> sp_abs p' x = sp_abs p x"
  by (cases "sp_mapping p x") (auto simp: sp_abs_def)

lemma sp_add_ok:
  assumes "sp_inv p" and "sp_mapping p (so_id sock) = None"
  shows "\<exists>p'. sp_add sock kind p = Inr p' \<and> sp_inv p' \<and>
    sp_abs p' = (sp_abs p)(so_id sock \<mapsto> (sock, kind = SpAccepted)) \<and> sp_removable p' = sp_removable p"
proof (cases "sp_free_indices p")
  case Nil
  let ?n = "length (sp_accounts p)"
  let ?p = "p\<lparr>sp_mapping := (sp_mapping p)(so_id sock \<mapsto> ?n),
      sp_accounts := sp_accounts p @ [\<lparr>sp_sock = sock, sp_kind = kind\<rparr>]\<rparr>"
  have "sp_inv ?p"
  proof (rule sp_invI, goal_cases)
    case (4 sid i)
    then show ?case
      using sp_inv_mapping [OF assms(1), of sid i] Nil by (auto simp: nth_append split: if_splits)
  next
    case (5 i)
    then show ?case
      using sp_inv_used [OF assms(1), of i] assms(2) Nil by (auto simp: nth_append less_Suc_eq)
  qed (use Nil in auto)
  moreover have "sp_abs ?p x = ((sp_abs p)(so_id sock \<mapsto> (sock, kind = SpAccepted))) x" for x
  proof (cases "x = so_id sock")
    case True
    then show ?thesis by (simp add: sp_abs_def)
  next
    case False
    then have "sp_abs ?p x = sp_abs p x"
      by (intro sp_abs_same) (auto simp: nth_append dest: sp_inv_mapping [OF assms(1)])
    with False show ?thesis by simp
  qed
  ultimately show ?thesis using Nil by (auto simp: sp_add_def fun_eq_iff)
next
  case (Cons pos free)
  let ?p = "p\<lparr>sp_mapping := (sp_mapping p)(so_id sock \<mapsto> pos),
      sp_accounts := (sp_accounts p)[pos := \<lparr>sp_sock = sock, sp_kind = kind\<rparr>], sp_free_indices := free\<rparr>"
  have pos: "pos < length (sp_accounts p)" "pos \<notin> set free"
    using sp_inv_free [OF assms(1)] Cons by auto
  have other: "i \<noteq> pos" if "sp_mapping p sid = Some i" for sid i
    using sp_inv_mapping [OF assms(1) that] Cons by auto
  have "sp_inv ?p"
  proof (rule sp_invI, goal_cases)
    case (4 sid i)
    then show ?case
      using sp_inv_mapping [OF assms(1), of sid i] other [of sid i] Cons pos by (auto split: if_splits)
  next
    case (5 i)
    then show ?case
      using sp_inv_used [OF assms(1), of i] assms(2) Cons pos by (auto simp: nth_list_update)
  qed (use sp_inv_free [OF assms(1)] Cons in auto)
  moreover have "sp_abs ?p x = ((sp_abs p)(so_id sock \<mapsto> (sock, kind = SpAccepted))) x" for x
  proof (cases "x = so_id sock")
    case True
    then show ?thesis using pos by (simp add: sp_abs_def)
  next
    case False
    then have "sp_abs ?p x = sp_abs p x"
      by (intro sp_abs_same) (use other in fastforce)+
    with False show ?thesis by simp
  qed
  ultimately show ?thesis using Cons pos by (auto simp: sp_add_def fun_eq_iff)
qed

lemma sp_remove_one_ok:
  assumes "sp_inv p"
  shows "\<exists>p'. sp_remove_one sid p = Inr p' \<and> sp_inv p' \<and> sp_abs p' = (sp_abs p)(sid := None) \<and>
    sp_removable p' = sp_removable p"
proof (cases "sp_mapping p sid")
  case None
  then have "sp_abs p = (sp_abs p)(sid := None)" by (simp add: sp_abs_def fun_eq_iff)
  with None assms show ?thesis by (simp add: sp_remove_one_def)
next
  case (Some i)
  from sp_inv_mapping [OF assms Some]
  have i: "i < length (sp_accounts p)" "i \<notin> set (sp_free_indices p)"
    "so_id (sp_sock (sp_accounts p ! i)) = sid" by auto
  let ?p = "p\<lparr>sp_accounts := (sp_accounts p)[i := (sp_accounts p ! i)\<lparr>sp_sock := blank_socket\<rparr>],
      sp_free_indices := insort i (sp_free_indices p), sp_mapping := (sp_mapping p)(sid := None)\<rparr>"
  have other: "j \<noteq> i" if "sp_mapping p b = Some j" "b \<noteq> sid" for b j
    using that Some sp_mapping_inj [OF assms] by blast
  have "sp_inv ?p"
  proof (rule sp_invI, goal_cases)
    case (4 b j)
    then show ?case
      using sp_inv_mapping [OF assms, of b j] other [of b j]
      by (auto simp: set_insort_key split: if_splits)
  next
    case (5 j)
    then have j: "j < length (sp_accounts p)" "j \<notin> set (sp_free_indices p)" "j \<noteq> i"
      by (auto simp: set_insort_key)
    from sp_inv_used [OF assms j(1,2)] j(3) Some
    show ?case by auto
  qed (use sp_inv_free [OF assms] i in \<open>auto simp: sorted_insort distinct_insort set_insort_key\<close>)
  moreover have "sp_abs ?p x = ((sp_abs p)(sid := None)) x" for x
  proof (cases "x = sid")
    case True
    then show ?thesis by (simp add: sp_abs_def)
  next
    case False
    then have "sp_abs ?p x = sp_abs p x"
      by (intro sp_abs_same) (use other in fastforce)+
    with False show ?thesis by simp
  qed
  ultimately show ?thesis using Some i by (auto simp: sp_remove_one_def fun_eq_iff)
qed

lemma sp_remove_many_ok:
  assumes "sp_inv p"
  shows "\<exists>p'. foldr_res sp_remove_one ids p = Inr p' \<and> sp_inv p' \<and>
    sp_abs p' = (\<lambda>i. if i \<in> set ids then None else sp_abs p i) \<and> sp_removable p' = sp_removable p"
  using assms
proof (induction ids arbitrary: p)
  case Nil
  then show ?case by simp
next
  case (Cons sid ids)
  from sp_remove_one_ok [OF Cons.prems, of sid] obtain p1 where
    "sp_remove_one sid p = Inr p1" "sp_inv p1" "sp_abs p1 = (sp_abs p)(sid := None)"
    "sp_removable p1 = sp_removable p" by blast
  with Cons.IH [of p1] show ?case by (auto simp: fun_eq_iff)
qed

lemma sp_inv_removable [simp]: "sp_inv (p\<lparr>sp_removable := r\<rparr>) = sp_inv p"
  by (simp add: sp_inv_def)

lemma sp_abs_removable [simp]: "sp_abs (p\<lparr>sp_removable := r\<rparr>) = sp_abs p"
  by (simp add: sp_abs_def fun_eq_iff)

lemma sp_apply_remove_ok:
  assumes "sp_inv p"
  shows "\<exists>p'. sp_apply_remove p = Inr p' \<and> sp_inv p' \<and>
    sp_abs p' = (\<lambda>i. if i \<in> set (sp_removable p) then None else sp_abs p i) \<and> sp_removable p' = []"
  using sp_remove_many_ok [OF assms, of "sp_removable p"] assms
  by (auto simp: sp_apply_remove_def)

subsection \<open>The contract of a socket store\<close>

text \<open>
  What a client may rely on, as a map with deferred removal: the specification state is the map of
  the sockets together with the identifiers scheduled for removal.
\<close>

type_synonym store_spec = "(socket_id \<rightharpoonup> net_socket \<times> bool) \<times> socket_id list"

datatype store_op = StoreAdd net_socket sp_kind | StoreRemoveLater socket_id | StoreApplyRemove

fun spec_step :: "store_op \<Rightarrow> store_spec \<Rightarrow> store_spec" where
  "spec_step (StoreAdd sock kind) (m, r) = (m(so_id sock \<mapsto> (sock, kind = SpAccepted)), r)"
| "spec_step (StoreRemoveLater sid) (m, r) = (m, r @ [sid])"
| "spec_step StoreApplyRemove (m, r) = ((\<lambda>i. if i \<in> set r then None else m i), [])"

definition spec_run :: "store_op list \<Rightarrow> store_spec" where
  "spec_run ops = fold spec_step ops (Map.empty, [])"

text \<open>A socket is added under an identifier that is not in use.\<close>

fun spec_ok :: "store_spec \<Rightarrow> store_op list \<Rightarrow> bool" where
  "spec_ok st [] = True"
| "spec_ok st (StoreAdd sock kind # ops) =
     (fst st (so_id sock) = None \<and> spec_ok (spec_step (StoreAdd sock kind) st) ops)"
| "spec_ok st (x # ops) = spec_ok (spec_step x st) ops"

fun store_exec ::
  "(net_socket \<Rightarrow> sp_kind \<Rightarrow> 'p \<Rightarrow> 'p result) \<Rightarrow> (socket_id \<Rightarrow> 'p \<Rightarrow> 'p) \<Rightarrow> ('p \<Rightarrow> 'p result) \<Rightarrow>
     store_op \<Rightarrow> 'p \<Rightarrow> 'p result" where
  "store_exec add later applyr (StoreAdd sock kind) p = add sock kind p"
| "store_exec add later applyr (StoreRemoveLater sid) p = Inr (later sid p)"
| "store_exec add later applyr StoreApplyRemove p = applyr p"

locale socket_store =
  fixes fresh :: 'p
    and add :: "net_socket \<Rightarrow> sp_kind \<Rightarrow> 'p \<Rightarrow> 'p result"
    and later :: "socket_id \<Rightarrow> 'p \<Rightarrow> 'p"
    and apply_remove :: "'p \<Rightarrow> 'p result"
    and locate :: "socket_id \<Rightarrow> 'p \<Rightarrow> (net_socket \<times> bool) option result"
    and invar :: "'p \<Rightarrow> bool"
    and view :: "'p \<Rightarrow> store_spec"
  assumes fresh_ok: "invar fresh \<and> view fresh = (Map.empty, [])"
    and add_ok: "invar p \<Longrightarrow> fst (view p) (so_id sock) = None \<Longrightarrow>
      \<exists>p'. add sock kind p = Inr p' \<and> invar p' \<and> view p' = spec_step (StoreAdd sock kind) (view p)"
    and later_ok: "invar p \<Longrightarrow> invar (later sid p) \<and> view (later sid p) = spec_step (StoreRemoveLater sid) (view p)"
    and apply_ok: "invar p \<Longrightarrow>
      \<exists>p'. apply_remove p = Inr p' \<and> invar p' \<and> view p' = spec_step StoreApplyRemove (view p)"
    and locate_ok: "invar p \<Longrightarrow> locate sid p = Inr (fst (view p) sid)"
begin

lemma run_from:
  assumes "invar p" and "spec_ok (view p) ops"
  shows "\<exists>p'. foldr_res (store_exec add later apply_remove) ops p = Inr p' \<and> invar p' \<and>
    view p' = fold spec_step ops (view p)"
  using assms
proof (induction ops arbitrary: p)
  case Nil
  then show ?case by simp
next
  case (Cons x ops)
  have "\<exists>p1. store_exec add later apply_remove x p = Inr p1 \<and> invar p1 \<and> view p1 = spec_step x (view p)"
    using Cons.prems add_ok later_ok apply_ok by (cases x) auto
  then obtain p1 where
    "store_exec add later apply_remove x p = Inr p1" "invar p1" "view p1 = spec_step x (view p)" by blast
  moreover from Cons.prems have "spec_ok (spec_step x (view p)) ops" by (cases x) auto
  ultimately show ?case using Cons.IH [of p1] by simp
qed

lemma run_refines:
  assumes "spec_ok (Map.empty, []) ops"
  shows "\<exists>p. foldr_res (store_exec add later apply_remove) ops fresh = Inr p \<and> invar p \<and>
    (\<forall>sid. locate sid p = Inr (fst (spec_run ops) sid))"
  using run_from [of fresh ops] fresh_ok assms by (auto simp: spec_run_def locate_ok)

text \<open>A socket scheduled for removal is found until the removals are applied.\<close>

lemma locate_later: "invar p \<Longrightarrow> locate sid (later x p) = locate sid p"
  using later_ok [of p x] by (cases "view p") (simp add: locate_ok)

lemma locate_applied:
  assumes "invar p" and "apply_remove (later sid p) = Inr p'"
  shows "locate sid p' = Inr None"
  using apply_ok [of "later sid p"] later_ok [OF assms(1), of sid] assms
  by (cases "view p") (auto simp: locate_ok)

end

definition sp_view :: "socket_pool \<Rightarrow> store_spec" where
  "sp_view p = (sp_abs p, sp_removable p)"

interpretation sp: socket_store sp_new sp_add sp_remove_later sp_apply_remove sp_locate sp_inv sp_view
proof (unfold_locales, goal_cases)
  case 1
  show ?case by (simp add: sp_inv_def sp_new_def sp_view_def sp_abs_def fun_eq_iff)
next
  case (2 p sock kind)
  then have "sp_mapping p (so_id sock) = None" by (simp add: sp_view_def sp_abs_def)
  from sp_add_ok [OF 2(1) this, of kind] show ?case by (auto simp: sp_view_def)
next
  case (3 p sid)
  then show ?case by (simp add: sp_remove_later_def sp_view_def)
next
  case (4 p)
  from sp_apply_remove_ok [OF 4] show ?case by (auto simp: sp_view_def)
next
  case (5 p sid)
  then show ?case by (simp add: sp_view_def sp_locate_abs)
qed

lemma sp_count_none:
  assumes "sp_inv p" and "sp_removable p = []" and "length (sp_accounts p) < 2 ^ 64"
  shows "sp_count p = Inl Terminated"
proof -
  have "card (set (sp_free_indices p)) \<le> card {..<length (sp_accounts p)}"
    using sp_inv_free [OF assms(1)] by (intro card_mono) auto
  then have "length (sp_free_indices p) \<le> length (sp_accounts p)"
    using sp_inv_free [OF assms(1)] by (simp add: distinct_card)
  then show ?thesis
    using assms by (simp add: sp_count_def word_less_nat_alt unat_of_nat)
qed

subsection \<open>Properties\<close>

text \<open>C22. A \<open>socket_pool\<close> driven by any sequence of additions (each under an identifier not in use),
  deferred removals and applications of them never terminates the program and never reads out of
  range, and \<open>locate\<close> finds for every identifier the socket and the kind that the specification, a map
  with deferred removal, holds for it, although places are used again.\<close>

theorem sp_refines_map:
  assumes "spec_ok (Map.empty, []) ops"
  shows "\<exists>p. foldr_res (store_exec sp_add sp_remove_later sp_apply_remove) ops sp_new = Inr p \<and>
    sp_inv p \<and> (\<forall>sid. sp_locate sid p = Inr (fst (spec_run ops) sid))"
  by (rule sp.run_refines [OF assms])

theorem sp_refines_map_witness:
  "\<exists>p. foldr_res (store_exec sp_add sp_remove_later sp_apply_remove)
      [StoreAdd (blank_socket\<lparr>so_id := 5\<rparr>) SpAccepted, StoreAdd (blank_socket\<lparr>so_id := 6\<rparr>) SpConnected,
       StoreRemoveLater 5, StoreApplyRemove, StoreAdd (blank_socket\<lparr>so_id := 5\<rparr>) SpConnected] sp_new = Inr p \<and>
    sp_locate 5 p = Inr (Some (blank_socket\<lparr>so_id := 5\<rparr>, False))"
  using sp_refines_map [of "[StoreAdd (blank_socket\<lparr>so_id := 5\<rparr>) SpAccepted,
      StoreAdd (blank_socket\<lparr>so_id := 6\<rparr>) SpConnected, StoreRemoveLater 5, StoreApplyRemove,
      StoreAdd (blank_socket\<lparr>so_id := 5\<rparr>) SpConnected]"]
  by (auto simp: spec_run_def)

text \<open>\<open>count\<close> never returns when no removal is pending: the condition it hands to
  \<open>PFS__TERMINATE\<close> asks for fewer accounts than free places.\<close>

theorem sp_count_terminates:
  assumes "spec_ok (Map.empty, []) ops" and "snd (spec_run ops) = []"
    and "foldr_res (store_exec sp_add sp_remove_later sp_apply_remove) ops sp_new = Inr p"
    and "length (sp_accounts p) < 2 ^ 64"
  shows "sp_count p = Inl Terminated"
proof -
  from sp.run_from [of sp_new ops] sp.fresh_ok assms
  have p: "sp_inv p" and v: "sp_view p = spec_run ops" by (auto simp: spec_run_def)
  have "snd (sp_view p) = []" unfolding v by (rule assms(2))
  then have "sp_removable p = []" by (simp add: sp_view_def)
  with p show ?thesis using assms(4) by (rule sp_count_none)
qed

theorem sp_count_terminates_witness:
  "\<exists>p. foldr_res (store_exec sp_add sp_remove_later sp_apply_remove)
      [StoreAdd (blank_socket\<lparr>so_id := 5\<rparr>) SpAccepted] sp_new = Inr p \<and> sp_count p = Inl Terminated"
proof -
  let ?ops = "[StoreAdd (blank_socket\<lparr>so_id := 5\<rparr>) SpAccepted]"
  obtain p where p: "foldr_res (store_exec sp_add sp_remove_later sp_apply_remove) ?ops sp_new = Inr p"
    "length (sp_accounts p) = 1"
    by (simp add: sp_add_def sp_new_def)
  then show ?thesis using sp_count_terminates [of ?ops p] by (simp add: spec_run_def)
qed

end
