(* ===== verification/ReaderPool.thy ===== *)
theory ReaderPool
  imports SocketPool
begin

text \<open>
  \<open>netty::reader_pool\<close> (include/pfs/netty/reader_pool.hpp): the sockets watched for input. When the
  poller reports a socket readable the pool drains it and hands the collected bytes on. The poller
  and the sockets are the environment: the answers of \<open>recv\<close> are a list, one element per call, and
  the pool's calls and callbacks are events in order. The callbacks are taken to be set, as
  \<open>meshnet::node\<close> sets all of them.
\<close>

subsection \<open>State\<close>

record rp_account =
  ra_id :: socket_id
  ra_frame_size :: u16

record reader_pool =
  rp_accounts :: "socket_id \<rightharpoonup> rp_account"
  rp_removable :: "socket_id list"

datatype rp_event =
    RpPollerAdd socket_id
  | RpPollerRemove socket_id
  | RpRecv socket_id nat
  | RpFailure socket_id errc
  | RpDataReady socket_id bytes
  | RpDisconnected socket_id

type_synonym rp_out = "reader_pool \<times> rp_event list"

text \<open>What one call of \<open>recv\<close> returns: the bytes it stored, none for 0, or an error.\<close>

datatype recv_answer = RecvData bytes | RecvError errc

definition rp_new :: reader_pool where
  "rp_new = \<lparr>rp_accounts = Map.empty, rp_removable = []\<rparr>"

subsection \<open>Operations\<close>

definition rp_locate_account :: "socket_id \<Rightarrow> reader_pool \<Rightarrow> rp_account option result" where
  "rp_locate_account sid p =
     (case rp_accounts p sid of
        None \<Rightarrow> Inr None
      | Some acc \<Rightarrow> if ra_id acc = sid then Inr (Some acc) else Inl Terminated)"

text \<open>\<open>add_err\<close> is the error \<open>ReaderPoller::add\<close> stores, if it fails.\<close>

definition rp_ensure_account ::
  "errc option \<Rightarrow> socket_id \<Rightarrow> reader_pool \<Rightarrow> (rp_account \<times> rp_out) result" where
  "rp_ensure_account add_err sid p =
     bindr (rp_locate_account sid p) (\<lambda>found.
       (case found of
          Some acc \<Rightarrow> Inr (acc, p, [])
        | None \<Rightarrow>
            (let a = \<lparr>ra_id = sid, ra_frame_size = 1500\<rparr>
             in Inr (a, p\<lparr>rp_accounts := (rp_accounts p)(sid \<mapsto> a)\<rparr>,
                  RpPollerAdd sid # (case add_err of None \<Rightarrow> [] | Some e \<Rightarrow> [RpFailure sid e])))))"

definition rp_add :: "errc option \<Rightarrow> socket_id \<Rightarrow> reader_pool \<Rightarrow> rp_out result" where
  "rp_add add_err sid p = mapr snd (rp_ensure_account add_err sid p)"

definition rp_remove_later :: "socket_id \<Rightarrow> reader_pool \<Rightarrow> reader_pool" where
  "rp_remove_later sid p = p\<lparr>rp_removable := rp_removable p @ [sid]\<rparr>"

definition rp_apply_remove :: "reader_pool \<Rightarrow> rp_out" where
  "rp_apply_remove p =
     (if rp_removable p = [] then (p, [])
      else (p\<lparr>rp_accounts := (\<lambda>i. if i \<in> set (rp_removable p) then None else rp_accounts p i),
              rp_removable := []\<rparr>,
            map RpPollerRemove (rp_removable p)))"

definition rp_on_poller_failure :: "socket_id \<Rightarrow> errc \<Rightarrow> reader_pool \<Rightarrow> rp_out" where
  "rp_on_poller_failure sid err p = (rp_remove_later sid p, [RpFailure sid err])"

definition rp_on_disconnected :: "socket_id \<Rightarrow> reader_pool \<Rightarrow> rp_out" where
  "rp_on_disconnected sid p = (rp_remove_later sid p, [RpDisconnected sid])"

text \<open>
  The loop that reads \<open>frame_size\<close> bytes at a time into \<open>inpb\<close> until \<open>recv\<close> returns 0 or fails.
  \<open>None\<close>: it has not come to an end with these answers.
\<close>

fun rp_recv_loop :: "socket_id \<Rightarrow> nat \<Rightarrow> recv_answer list \<Rightarrow> bytes \<Rightarrow> ((errc + bytes) \<times> rp_event list) option" where
  "rp_recv_loop sid fs [] inpb = None"
| "rp_recv_loop sid fs (RecvError e # as) inpb = Some (Inl e, [RpRecv sid fs])"
| "rp_recv_loop sid fs (RecvData d # as) inpb =
     (if d = [] then Some (Inr inpb, [RpRecv sid fs])
      else map_option (\<lambda>(r, evs). (r, RpRecv sid fs # evs)) (rp_recv_loop sid fs as (inpb @ d)))"

definition rp_ready_read ::
  "bool \<Rightarrow> recv_answer list \<Rightarrow> socket_id \<Rightarrow> reader_pool \<Rightarrow> rp_out option result" where
  "rp_ready_read socket_found answers sid p =
     bindr (rp_locate_account sid p) (\<lambda>found.
       (case found of
          None \<Rightarrow> Inl Terminated
        | Some acc \<Rightarrow>
            (if \<not> socket_found then
               Inr (Some (rp_remove_later sid p, [RpFailure sid Device_not_found]))
             else Inr (map_option
               (\<lambda>(r, evs). (case r of
                   Inl e \<Rightarrow> (rp_remove_later sid p, evs @ [RpFailure sid e])
                 | Inr inpb \<Rightarrow> (p, evs @ [RpDataReady sid inpb])))
               (rp_recv_loop sid (unat (ra_frame_size acc)) answers [])))))"

datatype rp_poll_event =
    ReadyRead socket_id bool "recv_answer list"
  | RpPollFailure socket_id errc
  | RpPollDisconnected socket_id

fun rp_on_poll :: "rp_poll_event \<Rightarrow> reader_pool \<Rightarrow> rp_out option result" where
  "rp_on_poll (ReadyRead sid socket_found answers) p = rp_ready_read socket_found answers sid p"
| "rp_on_poll (RpPollFailure sid err) p = Inr (Some (rp_on_poller_failure sid err p))"
| "rp_on_poll (RpPollDisconnected sid) p = Inr (Some (rp_on_disconnected sid p))"

subsection \<open>Invariant\<close>

definition rp_inv :: "reader_pool \<Rightarrow> bool" where
  "rp_inv p \<longleftrightarrow> (\<forall>sid acc. rp_accounts p sid = Some acc \<longrightarrow> ra_id acc = sid \<and> ra_frame_size acc = 1500)"

lemma rp_locate_ok: "rp_inv p \<Longrightarrow> rp_locate_account sid p = Inr (rp_accounts p sid)"
  by (auto simp: rp_locate_account_def rp_inv_def split: option.splits)

lemma rp_add_ok:
  assumes "rp_inv p"
  shows "\<exists>p' evs. rp_add err sid p = Inr (p', evs) \<and> rp_inv p' \<and> rp_accounts p' sid \<noteq> None \<and>
    (\<forall>i. i \<noteq> sid \<longrightarrow> rp_accounts p' i = rp_accounts p i) \<and> rp_removable p' = rp_removable p"
  using assms
  by (cases "rp_accounts p sid")
     (auto simp: rp_add_def rp_ensure_account_def rp_locate_ok Let_def rp_inv_def split: if_splits)

lemma rp_later_inv [simp]: "rp_inv (rp_remove_later sid p) = rp_inv p"
  by (simp add: rp_inv_def rp_remove_later_def)

lemma rp_apply_remove_inv: "rp_inv p \<Longrightarrow> rp_inv (fst (rp_apply_remove p))"
  by (simp add: rp_inv_def rp_apply_remove_def)

text \<open>The loop ends at the first answer that is empty or an error.\<close>

lemma rp_recv_loop_data:
  assumes "\<forall>d \<in> set ds. d \<noteq> []"
  shows "rp_recv_loop sid fs (map RecvData ds @ as) inpb =
    map_option (\<lambda>(r, evs). (r, replicate (length ds) (RpRecv sid fs) @ evs))
      (rp_recv_loop sid fs as (inpb @ concat ds))"
  using assms
proof (induction ds arbitrary: inpb)
  case Nil
  then show ?case by (simp add: option.map_ident case_prod_unfold)
next
  case (Cons d ds)
  then show ?case
    by (simp add: option.map_comp comp_def case_prod_unfold)
qed

subsection \<open>Properties\<close>

text \<open>C37. A readable socket is drained: when \<open>recv\<close> returns non-empty pieces and then 0, the pool hands
  on exactly one buffer, the concatenation of the pieces in order, and its state is unchanged; when
  \<open>recv\<close> fails instead, it reports the failure, schedules the socket for removal and hands on no
  data, not even the pieces already read.\<close>

theorem rp_ready_read_drains:
  assumes "rp_inv p" and "rp_accounts p sid = Some acc" and "\<forall>d \<in> set ds. d \<noteq> []"
  shows "rp_ready_read True (map RecvData ds @ RecvData [] # as) sid p =
      Inr (Some (p, replicate (length ds + 1) (RpRecv sid 1500) @ [RpDataReady sid (concat ds)])) \<and>
    rp_ready_read True (map RecvData ds @ RecvError e # as) sid p =
      Inr (Some (rp_remove_later sid p, replicate (length ds + 1) (RpRecv sid 1500) @ [RpFailure sid e]))"
proof -
  have "unat (ra_frame_size acc) = 1500" using assms by (simp add: rp_inv_def)
  with assms show ?thesis
    by (simp add: rp_ready_read_def rp_locate_ok rp_recv_loop_data replicate_append_same)
qed

theorem rp_ready_read_drains_witness:
  "rp_ready_read True [RecvData [1, 2], RecvData [3], RecvData []] 7
       (rp_new\<lparr>rp_accounts := [7 \<mapsto> \<lparr>ra_id = 7, ra_frame_size = 1500\<rparr>]\<rparr>) =
     Inr (Some (rp_new\<lparr>rp_accounts := [7 \<mapsto> \<lparr>ra_id = 7, ra_frame_size = 1500\<rparr>]\<rparr>,
       [RpRecv 7 1500, RpRecv 7 1500, RpRecv 7 1500, RpDataReady 7 [1, 2, 3]]))"
  using rp_ready_read_drains [of "rp_new\<lparr>rp_accounts := [7 \<mapsto> \<lparr>ra_id = 7, ra_frame_size = 1500\<rparr>]\<rparr>"
      7 "\<lparr>ra_id = 7, ra_frame_size = 1500\<rparr>" "[[1, 2], [3]]" "[]"]
  by (simp add: rp_inv_def numeral_3_eq_3)

end
