(* ===== verification/ListenerPool.thy ===== *)
theory ListenerPool
  imports SocketPool
begin

text \<open>
  \<open>netty::listener_pool\<close> (include/pfs/netty/listener_pool.hpp): the listening sockets. The answers of
  the listener sockets and of the poller are arguments; calls and callbacks are events in order.
  A listener is its identifier; \<open>add\<close> gets \<open>None\<close> for a listener that could not be created.
\<close>

record listener_pool =
  lp_listeners :: "(socket_id \<times> socket_id) list"
  lp_removable :: "socket_id list"

datatype lp_event =
    LpPollerAdd socket_id
  | LpPollerRemove socket_id
  | LpListen socket_id
  | LpFailure errc
  | LpAccepted net_socket

type_synonym lp_out = "listener_pool \<times> lp_event list"

definition lp_new :: listener_pool where
  "lp_new = \<lparr>lp_listeners = [], lp_removable = []\<rparr>"

definition lp_add :: "socket_id option \<Rightarrow> listener_pool \<Rightarrow> listener_pool" where
  "lp_add listener p =
     (case listener of
        None \<Rightarrow> p
      | Some lid \<Rightarrow> p\<lparr>lp_listeners := AList.update lid lid (lp_listeners p)\<rparr>)"

definition lp_remove_later :: "socket_id \<Rightarrow> listener_pool \<Rightarrow> listener_pool" where
  "lp_remove_later lid p = p\<lparr>lp_removable := lp_removable p @ [lid]\<rparr>"

definition lp_apply_remove :: "listener_pool \<Rightarrow> lp_out" where
  "lp_apply_remove p =
     (if lp_removable p = [] then (p, [])
      else (p\<lparr>lp_listeners := delete_all (lp_removable p) (lp_listeners p), lp_removable := []\<rparr>,
            map LpPollerRemove (lp_removable p)))"

definition lp_on_poller_failure :: "socket_id \<Rightarrow> errc \<Rightarrow> listener_pool \<Rightarrow> lp_out" where
  "lp_on_poller_failure lid err p = (lp_remove_later lid p, [LpFailure err])"

text \<open>\<open>answer\<close> is what \<open>accept_nonblocking\<close> returns: an error or the peer's socket.\<close>

definition lp_on_accept :: "(errc + net_socket) \<Rightarrow> socket_id \<Rightarrow> listener_pool \<Rightarrow> lp_out" where
  "lp_on_accept answer lid p =
     (case map_of (lp_listeners p) lid of
        Some l \<Rightarrow> (case answer of Inr sock \<Rightarrow> (p, [LpAccepted sock]) | Inl e \<Rightarrow> (p, [LpFailure e]))
      | None \<Rightarrow> (p, [LpFailure Device_not_found]))"

text \<open>
  \<open>answer l\<close> gives the error of \<open>listen\<close> and that of \<open>ListenerPoller::add\<close> for listener \<open>l\<close>, if any.
\<close>

fun lp_listen_one :: "(socket_id \<Rightarrow> errc option \<times> errc option) \<Rightarrow> socket_id \<Rightarrow> lp_event list" where
  "lp_listen_one answer l =
     (case answer l of
        (Some e, _) \<Rightarrow> [LpListen l, LpFailure e]
      | (None, Some e) \<Rightarrow> [LpListen l, LpPollerAdd l, LpFailure e]
      | (None, None) \<Rightarrow> [LpListen l, LpPollerAdd l])"

definition lp_listen :: "(socket_id \<Rightarrow> errc option \<times> errc option) \<Rightarrow> listener_pool \<Rightarrow> lp_out" where
  "lp_listen answer p = (p, concat (map (\<lambda>x. lp_listen_one answer (snd x)) (lp_listeners p)))"

definition lp_is_empty :: "listener_pool \<Rightarrow> bool" where
  "lp_is_empty p \<longleftrightarrow> lp_listeners p = []"

lemma lp_accept_after_removal:
  "lp_removable p \<noteq> [] \<Longrightarrow> lid \<in> set (lp_removable p) \<Longrightarrow>
   snd (lp_on_accept answer lid (fst (lp_apply_remove p))) = [LpFailure Device_not_found]"
  by (simp add: lp_on_accept_def lp_apply_remove_def map_of_delete_all)

end
