(* ===== verification/ConnectingPool.thy ===== *)
theory ConnectingPool
  imports SocketPool
begin

text \<open>
  \<open>netty::connecting_pool\<close> (include/pfs/netty/connecting_pool.hpp): connections being established and
  connection attempts deferred to a later time. A deferred attempt is its time and the arguments of
  the \<open>connect\<close> it will make. \<open>_deferred_connections\<close> is a \<open>std::set\<close> whose order compares the times
  only, so an attempt with the time of one already there is not inserted. The answers of the sockets
  and of the poller are arguments; calls and callbacks are events in order.

  A callback that calls \<open>connect_timeout\<close> while \<open>step\<close> fires attempts inserts a time later than those
  being fired; running it after \<open>step\<close>, as a client of these definitions does, gives the same set.
\<close>

subsection \<open>State\<close>

datatype conn_status = ConnFailure | ConnUnreachable | ConnConnected | ConnConnecting | ConnDeferred

datatype refused_reason = RefusedOther | RefusedTimeout | RefusedReset | RefusedUnreachable

record conn_answer =
  ca_status :: conn_status
  ca_sock :: net_socket
  ca_err :: errc
  ca_poller_err :: "errc option"

record 'a connecting_pool =
  cp_sockets :: "socket_id \<rightharpoonup> net_socket"
  cp_removable :: "socket_id list"
  cp_deferred :: "(time_point \<times> 'a) list"

datatype cp_event =
    CpPollerAdd socket_id
  | CpPollerRemove socket_id
  | CpFailure errc
  | CpConnected net_socket
  | CpRefused socket_id socket4_addr refused_reason

type_synonym 'a cp_out = "'a connecting_pool \<times> cp_event list"

definition cp_new :: "'a connecting_pool" where
  "cp_new = \<lparr>cp_sockets = Map.empty, cp_removable = [], cp_deferred = []\<rparr>"

subsection \<open>Operations\<close>

definition cp_remove_later :: "socket_id \<Rightarrow> 'a connecting_pool \<Rightarrow> 'a connecting_pool" where
  "cp_remove_later sid p = p\<lparr>cp_removable := cp_removable p @ [sid]\<rparr>"

definition cp_apply_remove :: "'a connecting_pool \<Rightarrow> 'a cp_out" where
  "cp_apply_remove p =
     (if cp_removable p = [] then (p, [])
      else (p\<lparr>cp_sockets := (\<lambda>i. if i \<in> set (cp_removable p) then None else cp_sockets p i),
              cp_removable := []\<rparr>,
            map CpPollerRemove (cp_removable p)))"

definition cp_on_poller_failure :: "socket_id \<Rightarrow> errc \<Rightarrow> 'a connecting_pool \<Rightarrow> 'a cp_out" where
  "cp_on_poller_failure sid err p = (cp_remove_later sid p, [CpFailure err])"

text \<open>The connected socket is moved out; the entry stays, with an invalid descriptor, until removed.\<close>

definition cp_on_connected :: "socket_id \<Rightarrow> 'a connecting_pool \<Rightarrow> 'a cp_out" where
  "cp_on_connected sid p =
     (let p1 = cp_remove_later sid p
      in case cp_sockets p sid of
           Some sock \<Rightarrow>
             (p1\<lparr>cp_sockets := (cp_sockets p)(sid \<mapsto> sock\<lparr>so_id := invalid_socket_id\<rparr>)\<rparr>, [CpConnected sock])
         | None \<Rightarrow> (p1, [CpFailure Device_not_found]))"

definition cp_on_refused :: "socket_id \<Rightarrow> refused_reason \<Rightarrow> 'a connecting_pool \<Rightarrow> 'a cp_out" where
  "cp_on_refused sid reason p =
     (let p1 = cp_remove_later sid p
      in case cp_sockets p sid of
           Some sock \<Rightarrow> (p1, [CpRefused sid (so_saddr sock) reason])
         | None \<Rightarrow> (p1, [CpFailure Device_not_found]))"

definition cp_connect :: "conn_answer \<Rightarrow> 'a connecting_pool \<Rightarrow> 'a cp_out" where
  "cp_connect ans p =
     (let sock = ca_sock ans
      in case ca_status ans of
           ConnConnected \<Rightarrow> (p, [CpConnected sock])
         | ConnConnecting \<Rightarrow>
             (case ca_poller_err ans of
                None \<Rightarrow> (p\<lparr>cp_sockets := (cp_sockets p)(so_id sock \<mapsto> sock)\<rparr>, [CpPollerAdd (so_id sock)])
              | Some e \<Rightarrow> (p, [CpPollerAdd (so_id sock), CpFailure e]))
         | ConnUnreachable \<Rightarrow> (p, [CpRefused (so_id sock) (so_saddr sock) RefusedUnreachable])
         | ConnFailure \<Rightarrow> (p, [CpFailure (ca_err ans)])
         | ConnDeferred \<Rightarrow> (p, []))"

fun dc_insert :: "time_point \<Rightarrow> 'a \<Rightarrow> (time_point \<times> 'a) list \<Rightarrow> (time_point \<times> 'a) list" where
  "dc_insert t a [] = [(t, a)]"
| "dc_insert t a ((t', a') # ds) =
     (if t < t' then (t, a) # (t', a') # ds
      else if t' < t then (t', a') # dc_insert t a ds
      else (t', a') # ds)"

definition cp_connect_timeout ::
  "time_point \<Rightarrow> int \<Rightarrow> 'a \<Rightarrow> conn_answer \<Rightarrow> 'a connecting_pool \<Rightarrow> conn_status \<times> 'a cp_out" where
  "cp_connect_timeout now timeout args ans p =
     (if timeout \<le> 0 then (ca_status ans, cp_connect ans p)
      else (ConnDeferred, p\<lparr>cp_deferred := dc_insert (now + timeout) args (cp_deferred p)\<rparr>, []))"

text \<open>
  The reconnecting loop of \<open>step\<close>: \<open>ans i\<close> is the answer to the \<open>i\<close>-th attempt fired, and the loop
  also gives the arguments of the attempts it fires.
\<close>

fun cp_fire ::
  "time_point \<Rightarrow> (nat \<Rightarrow> conn_answer) \<Rightarrow> nat \<Rightarrow> (time_point \<times> 'a) list \<Rightarrow> 'a connecting_pool \<Rightarrow>
     'a cp_out \<times> 'a list" where
  "cp_fire now ans i [] p = ((p\<lparr>cp_deferred := []\<rparr>, []), [])"
| "cp_fire now ans i ((t, a) # ds) p =
     (if t \<le> now then
        (let (p1, evs1) = cp_connect (ans i) p;
             ((p2, evs2), fired) = cp_fire now ans (Suc i) ds p1
         in ((p2, evs1 @ evs2), a # fired))
      else ((p\<lparr>cp_deferred := (t, a) # ds\<rparr>, []), []))"

datatype cp_poll_event =
    CpPollFailure socket_id errc
  | CpPollConnected socket_id
  | CpPollRefused socket_id refused_reason

fun cp_on_poll :: "cp_poll_event \<Rightarrow> 'a connecting_pool \<Rightarrow> 'a cp_out" where
  "cp_on_poll (CpPollFailure sid err) p = cp_on_poller_failure sid err p"
| "cp_on_poll (CpPollConnected sid) p = cp_on_connected sid p"
| "cp_on_poll (CpPollRefused sid reason) p = cp_on_refused sid reason p"

fun cp_polls :: "cp_poll_event list \<Rightarrow> 'a connecting_pool \<Rightarrow> 'a cp_out" where
  "cp_polls [] p = (p, [])"
| "cp_polls (e # es) p =
     (let (p1, evs1) = cp_on_poll e p; (p2, evs2) = cp_polls es p1 in (p2, evs1 @ evs2))"

definition cp_step ::
  "time_point \<Rightarrow> (nat \<Rightarrow> conn_answer) \<Rightarrow> cp_poll_event list \<Rightarrow> 'a connecting_pool \<Rightarrow> 'a cp_out" where
  "cp_step now ans polled p =
     (let (p1, evs1) = fst (cp_fire now ans 0 (cp_deferred p) p); (p2, evs2) = cp_polls polled p1
      in (p2, evs1 @ evs2))"

definition cp_is_empty :: "'a connecting_pool \<Rightarrow> bool" where
  "cp_is_empty p \<longleftrightarrow> cp_sockets p = Map.empty"

subsection \<open>Deferred attempts\<close>

definition dc_inv :: "(time_point \<times> 'a) list \<Rightarrow> bool" where
  "dc_inv ds \<longleftrightarrow> sorted_wrt (<) (map fst ds)"

lemma dc_insert_keys: "fst ` set (dc_insert t a ds) = insert t (fst ` set ds)"
  by (induction t a ds rule: dc_insert.induct) auto

lemma dc_insert_inv: "dc_inv ds \<Longrightarrow> dc_inv (dc_insert t a ds)"
proof (induction t a ds rule: dc_insert.induct)
  case (1 t a)
  show ?case by (simp add: dc_inv_def)
next
  case (2 t a t' a' ds)
  then show ?case
    using dc_insert_keys [of t a ds] by (fastforce simp: dc_inv_def image_iff)
qed

lemma dc_insert_new: "t \<notin> fst ` set ds \<Longrightarrow> set (dc_insert t a ds) = insert (t, a) (set ds)"
  by (induction t a ds rule: dc_insert.induct) auto

lemma dc_insert_present: "dc_inv ds \<Longrightarrow> t \<in> fst ` set ds \<Longrightarrow> dc_insert t a ds = ds"
  by (induction t a ds rule: dc_insert.induct) (force simp: dc_inv_def)+

lemma cp_connect_deferred [simp]: "cp_deferred (fst (cp_connect ans p)) = cp_deferred p"
  by (simp add: cp_connect_def Let_def split: conn_status.split option.split)

lemma cp_fire_split:
  "cp_deferred (fst (fst (cp_fire now ans i ds p))) = dropWhile (\<lambda>d. fst d \<le> now) ds \<and>
   snd (cp_fire now ans i ds p) = map snd (takeWhile (\<lambda>d. fst d \<le> now) ds)"
proof (induction ds arbitrary: i p)
  case Nil
  show ?case by simp
next
  case (Cons d ds)
  obtain t a where "d = (t, a)" by (cases d)
  with Cons [of "Suc i" "fst (cp_connect (ans i) p)"] show ?case
    by (simp add: case_prod_unfold Let_def)
qed

lemma sorted_takeWhile_filter:
  assumes "sorted_wrt (<) (map fst ds)"
  shows "takeWhile (\<lambda>d. fst d \<le> (now :: int)) ds = filter (\<lambda>d. fst d \<le> now) ds \<and>
         dropWhile (\<lambda>d. fst d \<le> now) ds = filter (\<lambda>d. \<not> fst d \<le> now) ds"
  using assms
proof (induction ds)
  case Nil
  show ?case by simp
next
  case (Cons d ds)
  show ?case
  proof (cases "fst d \<le> now")
    case True
    with Cons show ?thesis by simp
  next
    case False
    with Cons.prems have "\<forall>x \<in> set ds. \<not> fst x \<le> now" by fastforce
    with False show ?thesis by (simp add: filter_empty_conv filter_id_conv)
  qed
qed

subsection \<open>Properties\<close>

text \<open>Firing deferred attempts: with the attempts in the order the set keeps them, \<open>step\<close> fires
  exactly those whose time has come, in order of time, and keeps exactly the others.\<close>

theorem cp_fires_due_attempts:
  assumes "dc_inv (cp_deferred p)"
  shows "snd (cp_fire now ans 0 (cp_deferred p) p) = map snd (filter (\<lambda>d. fst d \<le> now) (cp_deferred p)) \<and>
         cp_deferred (fst (fst (cp_fire now ans 0 (cp_deferred p) p))) =
           filter (\<lambda>d. \<not> fst d \<le> now) (cp_deferred p)"
  using assms sorted_takeWhile_filter [of "cp_deferred p" now]
  by (simp add: cp_fire_split dc_inv_def)

theorem cp_fires_due_attempts_witness:
  "snd (cp_fire 7 (\<lambda>_. \<lparr>ca_status = ConnFailure, ca_sock = blank_socket, ca_err = Socket_error,
      ca_poller_err = None\<rparr>) 0 [(5, ''a''), (7, ''b''), (9, ''c'')]
      (cp_new\<lparr>cp_deferred := [(5, ''a''), (7, ''b''), (9, ''c'')]\<rparr>)) = [''a'', ''b'']"
  using cp_fires_due_attempts [of "cp_new\<lparr>cp_deferred := [(5, ''a''), (7, ''b''), (9, ''c'')]\<rparr>" 7
      "\<lambda>_. \<lparr>ca_status = ConnFailure, ca_sock = blank_socket, ca_err = Socket_error, ca_poller_err = None\<rparr>"]
  by (simp add: dc_inv_def)

text \<open>A reconnection deferred to a time point at which another attempt is already deferred is
  dropped: the set of attempts is unchanged, although \<open>connect_timeout\<close> answers \<open>deferred\<close>.\<close>

theorem cp_same_time_attempt_dropped:
  assumes "dc_inv (cp_deferred p)" and "0 < timeout" and "(now + timeout, b) \<in> set (cp_deferred p)"
  shows "cp_connect_timeout now timeout a ans p = (ConnDeferred, p, [])"
proof -
  have "now + timeout \<in> fst ` set (cp_deferred p)" using assms(3) by force
  with assms show ?thesis
    by (simp add: cp_connect_timeout_def dc_insert_present)
qed

theorem cp_same_time_attempt_dropped_witness:
  "cp_connect_timeout 0 5 ''a''
       \<lparr>ca_status = ConnFailure, ca_sock = blank_socket, ca_err = Socket_error, ca_poller_err = None\<rparr>
       (cp_new\<lparr>cp_deferred := [(5, ''b'')]\<rparr>) =
     (ConnDeferred, cp_new\<lparr>cp_deferred := [(5, ''b'')]\<rparr>, [])"
  using cp_same_time_attempt_dropped
    [of "cp_new\<lparr>cp_deferred := [(5, ''b'')]\<rparr>" 5 0 "''b''" "''a''"
        "\<lparr>ca_status = ConnFailure, ca_sock = blank_socket, ca_err = Socket_error, ca_poller_err = None\<rparr>"]
  by (simp add: dc_inv_def)

end
