(* ===== verification/Protocol.thy ===== *)
theory Protocol
  imports Streams
begin

text \<open>
  The packets of the mesh network (include/pfs/netty/patterns/meshnet/protocol.hpp): the header with
  its version, type, checksum and flag bits, and the handshake, heartbeat and data packets with their
  constructors, accessors, serializers and deserializers. A deserializing constructor takes an input
  stream and gives the packet and the stream; header fields it does not read are 0 here and
  indeterminate in C++, where nothing reads them.
\<close>

subsection \<open>Header\<close>

definition packet_handshake :: byte where "packet_handshake = 1"
definition packet_heartbeat :: byte where "packet_heartbeat = 2"
definition packet_data :: byte where "packet_data = 15"

datatype packet_way = WayRequest | WayResponse

record pkt_header =
  ph_b0 :: byte
  ph_b1 :: byte
  ph_crc32 :: u32
  ph_length :: u32

definition header_new :: "byte \<Rightarrow> bool \<Rightarrow> byte \<Rightarrow> pkt_header" where
  "header_new type has_checksum version =
     \<lparr>ph_b0 = or (or 0 (and (push_bit 4 version) 0xF0)) (and type 0x0F),
      ph_b1 = or 0 (if has_checksum then 0x01 else 0x00), ph_crc32 = 0, ph_length = 0\<rparr>"

definition ph_version :: "pkt_header \<Rightarrow> byte" where
  "ph_version h = and (drop_bit 4 (ph_b0 h)) 0x0F"

definition ph_type :: "pkt_header \<Rightarrow> byte" where
  "ph_type h = and (ph_b0 h) 0x0F"

definition ph_has_checksum :: "pkt_header \<Rightarrow> bool" where
  "ph_has_checksum h \<longleftrightarrow> and (ph_b1 h) 0x01 \<noteq> 0"

definition ph_is_f0 :: "pkt_header \<Rightarrow> bool" where "ph_is_f0 h \<longleftrightarrow> and (ph_b1 h) 0x02 \<noteq> 0"
definition ph_is_f1 :: "pkt_header \<Rightarrow> bool" where "ph_is_f1 h \<longleftrightarrow> and (ph_b1 h) 0x04 \<noteq> 0"
definition ph_is_f2 :: "pkt_header \<Rightarrow> bool" where "ph_is_f2 h \<longleftrightarrow> and (ph_b1 h) 0x08 \<noteq> 0"

definition ph_enable_f0 :: "pkt_header \<Rightarrow> pkt_header" where "ph_enable_f0 h = h\<lparr>ph_b1 := or (ph_b1 h) 0x02\<rparr>"
definition ph_enable_f1 :: "pkt_header \<Rightarrow> pkt_header" where "ph_enable_f1 h = h\<lparr>ph_b1 := or (ph_b1 h) 0x04\<rparr>"
definition ph_enable_f2 :: "pkt_header \<Rightarrow> pkt_header" where "ph_enable_f2 h = h\<lparr>ph_b1 := or (ph_b1 h) 0x08\<rparr>"

definition header_read :: "'i streams \<Rightarrow> 'i \<Rightarrow> pkt_header \<times> 'i" where
  "header_read io s =
     (let (b0, s) = in_u8 io s;
          (b1, s) = in_u8 io s;
          h = \<lparr>ph_b0 = b0, ph_b1 = b1, ph_crc32 = 0, ph_length = 0\<rparr>;
          (h, s) = (if ph_has_checksum h then (let (c, s) = in_u32 io s in (h\<lparr>ph_crc32 := c\<rparr>, s)) else (h, s))
      in if ph_type h = packet_data then (let (n, s) = in_u32 io s in (h\<lparr>ph_length := n\<rparr>, s)) else (h, s))"

definition header_serialize :: "'i streams \<Rightarrow> pkt_header \<Rightarrow> bytes" where
  "header_serialize io h =
     [ph_b0 h, ph_b1 h]
     @ (if and (ph_b1 h) 0x01 \<noteq> 0 then out_u32 io (ph_crc32 h) else [])
     @ (if and (ph_b0 h) 0x0F = packet_data then out_u32 io (ph_length h) else [])"

subsection \<open>Handshake packet\<close>

record handshake_packet =
  hp_header :: pkt_header
  hp_id :: bytes

definition handshake_packet_new :: "packet_way \<Rightarrow> bool \<Rightarrow> handshake_packet" where
  "handshake_packet_new way behind_nat =
     (let h = header_new packet_handshake False 0;
          h = (if way = WayResponse then ph_enable_f0 h else h);
          h = (if behind_nat then ph_enable_f1 h else h)
      in \<lparr>hp_header = h, hp_id = []\<rparr>)"

definition handshake_packet_read :: "'i streams \<Rightarrow> pkt_header \<Rightarrow> 'i \<Rightarrow> handshake_packet \<times> 'i" where
  "handshake_packet_read io h s =
     (let (sz, s) = in_u8 io s; (i, s) = in_bytes io (unat sz) s in (\<lparr>hp_header = h, hp_id = i\<rparr>, s))"

definition hp_is_response :: "handshake_packet \<Rightarrow> bool" where
  "hp_is_response p = ph_is_f0 (hp_header p)"

definition hp_is_behind_nat :: "handshake_packet \<Rightarrow> bool" where
  "hp_is_behind_nat p = ph_is_f1 (hp_header p)"

text \<open>The identifier is a \<open>std::string\<close>. The reader takes as many bytes as the size before it says, so what \<open>operator <<\<close> writes
  of it is taken to be its bytes and no more. The packets of p2p that hold a string (\<open>P2PPacket\<close>) are read without such a
  size, so for them what the operator writes is \<open>out_string\<close>, from which \<open>in_string\<close> finds the end. Both use
  \<open>pfs::binary_ostream\<close>, whose code is not in the repository; it cannot be right for both.\<close>

definition handshake_packet_serialize :: "'i streams \<Rightarrow> handshake_packet \<Rightarrow> bytes result" where
  "handshake_packet_serialize io p =
     (if hp_id p = [] then Inr []
      else mapr (\<lambda>sz. header_serialize io (hp_header p) @ [sz] @ hp_id p) (cast_u8 io (length (hp_id p))))"

subsection \<open>Heartbeat packet\<close>

record heartbeat_packet =
  hb_header :: pkt_header
  hb_health_data :: byte

definition heartbeat_packet_new :: heartbeat_packet where
  "heartbeat_packet_new = \<lparr>hb_header = header_new packet_heartbeat False 0, hb_health_data = 0\<rparr>"

definition heartbeat_packet_read :: "'i streams \<Rightarrow> pkt_header \<Rightarrow> 'i \<Rightarrow> heartbeat_packet \<times> 'i" where
  "heartbeat_packet_read io h s = (let (d, s) = in_u8 io s in (\<lparr>hb_header = h, hb_health_data = d\<rparr>, s))"

definition heartbeat_packet_serialize :: "'i streams \<Rightarrow> heartbeat_packet \<Rightarrow> bytes" where
  "heartbeat_packet_serialize io p = header_serialize io (hb_header p) @ [hb_health_data p]"

subsection \<open>Data packet\<close>

record data_packet =
  dp_header :: pkt_header
  dp_bytes :: bytes
  dp_bad_checksum :: bool

definition data_packet_new :: "bool \<Rightarrow> data_packet" where
  "data_packet_new has_checksum =
     \<lparr>dp_header = header_new packet_data has_checksum 0, dp_bytes = [], dp_bad_checksum = False\<rparr>"

definition data_packet_read :: "'i streams \<Rightarrow> pkt_header \<Rightarrow> 'i \<Rightarrow> data_packet \<times> 'i" where
  "data_packet_read io h s =
     (let s = in_start io s;
          (bs, s) = in_bytes io (unat (ph_length h)) s;
          (ok, s) = in_commit io s
      in if \<not> ok then (\<lparr>dp_header = h, dp_bytes = [], dp_bad_checksum = False\<rparr>, s)
         else if ph_has_checksum h \<and> crc32_of io bs \<noteq> ph_crc32 h
              then (\<lparr>dp_header = h, dp_bytes = [], dp_bad_checksum = True\<rparr>, s)
              else (\<lparr>dp_header = h, dp_bytes = bs, dp_bad_checksum = False\<rparr>, s))"

text \<open>Serializing stores the checksum and the length in the packet's header before writing it.\<close>

definition data_packet_serialize :: "'i streams \<Rightarrow> data_packet \<Rightarrow> bytes \<Rightarrow> bytes result" where
  "data_packet_serialize io p d =
     mapr (\<lambda>len.
       (let h = dp_header p;
            h = (if ph_has_checksum h then h\<lparr>ph_crc32 := crc32_of io d\<rparr> else h);
            h = h\<lparr>ph_length := len\<rparr>
        in header_serialize io h @ d))
       (cast_u32 io (length d))"

subsection \<open>Round trips\<close>

text \<open>A header as the constructors leave it: fields that are not written are 0.\<close>

definition header_ok :: "byte \<Rightarrow> pkt_header \<Rightarrow> bool" where
  "header_ok type h \<longleftrightarrow> ph_type h = type \<and> (ph_has_checksum h \<or> ph_crc32 h = 0) \<and>
     (type = packet_data \<or> ph_length h = 0)"

lemma header_new_fields:
  "type < 16 \<Longrightarrow> ph_type (header_new type cs ver) = type"
  "ph_has_checksum (header_new type cs ver) = cs"
  "ph_version (header_new type cs ver) = take_bit 4 ver"
proof -
  have m: "0x0F = (mask 4 :: byte)" "0xF0 = (push_bit 4 (mask 4) :: byte)"
    by (simp_all add: mask_eq_exp_minus_1)
  have "and (or (and (push_bit 4 ver) (push_bit 4 (mask 4))) (and type (mask 4))) (mask 4) = and type (mask 4)"
    by (rule bit_word_eqI) (auto simp: bit_simps)
  moreover have "and type (mask 4) = type" if "type < 16"
    using that by (intro less_mask_eq) simp
  ultimately show "type < 16 \<Longrightarrow> ph_type (header_new type cs ver) = type"
    by (simp add: ph_type_def header_new_def m)
  show "ph_has_checksum (header_new type cs ver) = cs"
    by (simp add: ph_has_checksum_def header_new_def)
  have "and (drop_bit 4 (or (and (push_bit 4 ver) (push_bit 4 (mask 4))) (and type (mask 4)))) (mask 4) = take_bit 4 ver"
    by (rule bit_word_eqI) (auto simp: bit_simps)
  then show "ph_version (header_new type cs ver) = take_bit 4 ver"
    by (simp add: ph_version_def header_new_def m)
qed

context byte_streams
begin

lemma header_reads:
  assumes "header_ok type h"
  shows "reads v (header_read io) (header_serialize io h) h"
proof -
  let ?h0 = "\<lparr>ph_b0 = ph_b0 h, ph_b1 = ph_b1 h, ph_crc32 = 0, ph_length = 0\<rparr>"
  have cs: "ph_has_checksum ?h0 = ph_has_checksum h" by (simp add: ph_has_checksum_def)
  define h1 where "h1 = (if ph_has_checksum h then ?h0\<lparr>ph_crc32 := ph_crc32 h\<rparr> else ?h0)"
  have t: "ph_type h1 = ph_type h" by (simp add: h1_def ph_type_def)
  let ?crc = "\<lambda>s. if ph_has_checksum ?h0
     then (case in_u32 io s of (c, s) \<Rightarrow> (?h0\<lparr>ph_crc32 := c\<rparr>, s)) else (?h0, s)"
  let ?len = "\<lambda>h1 s. if ph_type h1 = packet_data
     then (case in_u32 io s of (n, s) \<Rightarrow> (h1\<lparr>ph_length := n\<rparr>, s)) else (h1, s)"
  have crc: "reads v ?crc (if ph_has_checksum h then out_u32 io (ph_crc32 h) else []) h1"
    using reads_map [OF u32_reads, of "\<lambda>c. ?h0\<lparr>ph_crc32 := c\<rparr>" "ph_crc32 h"] reads_return [of v ?h0]
    by (simp add: cs h1_def)
  have h: "h1\<lparr>ph_length := ph_length h\<rparr> = h" "ph_type h \<noteq> packet_data \<longrightarrow> h1 = h"
    using assms by (auto simp: h1_def header_ok_def)
  have len: "reads v (?len h1) (if ph_type h = packet_data then out_u32 io (ph_length h) else []) h"
    using reads_map [OF u32_reads, of "\<lambda>n. h1\<lparr>ph_length := n\<rparr>" "ph_length h"] reads_return [of v h1] h
    by (cases "ph_type h = packet_data") (simp_all add: t)
  note rest = reads_then [OF crc, of ?len, OF len]
  note b1 = reads_then [OF u8_reads [of "ph_b1 h"], where rd' = "\<lambda>b1 s. case (\<lambda>s.
      if ph_has_checksum \<lparr>ph_b0 = ph_b0 h, ph_b1 = b1, ph_crc32 = 0, ph_length = 0\<rparr>
      then (case in_u32 io s of (c, s) \<Rightarrow> (\<lparr>ph_b0 = ph_b0 h, ph_b1 = b1, ph_crc32 = 0, ph_length = 0\<rparr>\<lparr>ph_crc32 := c\<rparr>, s))
      else (\<lparr>ph_b0 = ph_b0 h, ph_b1 = b1, ph_crc32 = 0, ph_length = 0\<rparr>, s)) s of (h1, s) \<Rightarrow> ?len h1 s", OF rest]
  note b0 = reads_then [OF u8_reads [of "ph_b0 h"], where rd' = "\<lambda>b0 s. case in_u8 io s of (b1, s) \<Rightarrow>
      (case (\<lambda>s.
      if ph_has_checksum \<lparr>ph_b0 = b0, ph_b1 = b1, ph_crc32 = 0, ph_length = 0\<rparr>
      then (case in_u32 io s of (c, s) \<Rightarrow> (\<lparr>ph_b0 = b0, ph_b1 = b1, ph_crc32 = 0, ph_length = 0\<rparr>\<lparr>ph_crc32 := c\<rparr>, s))
      else (\<lparr>ph_b0 = b0, ph_b1 = b1, ph_crc32 = 0, ph_length = 0\<rparr>, s)) s of (h1, s) \<Rightarrow> ?len h1 s)", OF b1]
  have w: "header_serialize io h = [ph_b0 h] @ [ph_b1 h]
      @ (if ph_has_checksum h then out_u32 io (ph_crc32 h) else [])
      @ (if ph_type h = packet_data then out_u32 io (ph_length h) else [])"
    by (simp add: header_serialize_def ph_has_checksum_def ph_type_def)
  show ?thesis
    using b0 unfolding w header_read_def [abs_def] Let_def .
qed

lemmas item_saved = u8_needs [THEN needs_saved] u16_needs [THEN needs_saved] u32_needs [THEN needs_saved]
  u64_needs [THEN needs_saved] bytes_needs [THEN needs_saved]

lemma header_keeps: "keeps v (header_read io)"
  unfolding keeps_def header_read_def Let_def by (simp add: case_prod_unfold item_saved)

lemma handshake_packet_keeps: "keeps v (handshake_packet_read io h)"
  by (simp add: keeps_def handshake_packet_read_def Let_def case_prod_unfold item_saved)

lemma heartbeat_packet_keeps: "keeps v (heartbeat_packet_read io h)"
  by (simp add: keeps_def heartbeat_packet_read_def Let_def case_prod_unfold item_saved)

lemma handshake_packet_reads:
  assumes "length i < 256"
  shows "reads v (handshake_packet_read io h) ([of_nat (length i)] @ i) \<lparr>hp_header = h, hp_id = i\<rparr>"
proof -
  have "unat (of_nat (length i) :: byte) = length i"
    using assms by (simp add: unat_of_nat)
  with bytes_reads [of i]
  have "reads v (in_bytes io (unat (of_nat (length i) :: byte))) i i" by simp
  from reads_then [OF u8_reads, where rd' = "\<lambda>sz s. case in_bytes io (unat sz) s of
      (i, s) \<Rightarrow> (\<lparr>hp_header = h, hp_id = i\<rparr>, s)", OF reads_map [OF this]]
  show ?thesis unfolding handshake_packet_read_def Let_def .
qed

lemma heartbeat_packet_reads:
  "reads v (heartbeat_packet_read io h) [d] \<lparr>hb_header = h, hb_health_data = d\<rparr>"
  using reads_map [OF u8_reads, of "\<lambda>d. \<lparr>hb_header = h, hb_health_data = d\<rparr>" d]
  by (simp add: heartbeat_packet_read_def [abs_def])

text \<open>The data packet as it is received: its bytes, none of them if the checksum does not agree.\<close>

definition data_received :: "pkt_header \<Rightarrow> bytes \<Rightarrow> data_packet" where
  "data_received h d =
     (let bad = (ph_has_checksum h \<and> crc32_of io d \<noteq> ph_crc32 h)
      in \<lparr>dp_header = h, dp_bytes = (if bad then [] else d), dp_bad_checksum = bad\<rparr>)"

lemma data_packet_keeps: "keeps v (data_packet_read io h)"
proof -
  have "sv_saved v (snd (data_packet_read io h s)) = sv_saved v s" for s
  proof -
    let ?s = "snd (in_bytes io (unat (ph_length h)) (in_start io s))"
    have "sv_saved v ?s = sv_rest v s # sv_saved v s"
      using start_view [of s] by (simp add: item_saved)
    with commit_good [of ?s] commit_bad [of ?s] have "sv_saved v (snd (in_commit io ?s)) = sv_saved v s"
      by (cases "sv_good v ?s") auto
    then show ?thesis
      unfolding data_packet_read_def Let_def by (simp add: case_prod_unfold)
  qed
  then show ?thesis by (simp add: keeps_def)
qed

lemma data_packet_reads:
  assumes "unat (ph_length h) = length d"
  shows "reads v (data_packet_read io h) d (data_received h d)"
  unfolding reads_def
proof (intro allI impI, elim conjE)
  fix s r
  assume g: "sv_good v s" "sv_rest v s = d @ r"
  let ?s1 = "in_start io s"
  let ?s2 = "snd (in_bytes io (unat (ph_length h)) ?s1)"
  have "sv_good v ?s1" "sv_rest v ?s1 = d @ r" "sv_saved v ?s1 = (d @ r) # sv_saved v s"
    using g start_view [of s] by simp_all
  with bytes_reads [of d] assms have s2: "fst (in_bytes io (unat (ph_length h)) ?s1) = d" "sv_good v ?s2"
    "sv_rest v ?s2 = r" "sv_saved v ?s2 = (d @ r) # sv_saved v s"
    by (auto simp: reads_def item_saved)
  with commit_good [of ?s2] show "fst (data_packet_read io h s) = data_received h d \<and>
      sv_good v (snd (data_packet_read io h s)) \<and> sv_rest v (snd (data_packet_read io h s)) = r"
    unfolding data_packet_read_def Let_def by (auto simp: case_prod_unfold data_received_def)
qed

text \<open>A packet that is not complete makes the stream bad, and leaves it where the packet began.\<close>

lemma data_packet_short:
  assumes "sv_good v s" and "length (sv_rest v s) < unat (ph_length h)"
  shows "sv_rest v (snd (data_packet_read io h s)) = sv_rest v s \<and> dp_bytes (fst (data_packet_read io h s)) = []"
proof -
  let ?s1 = "in_start io s"
  let ?s2 = "snd (in_bytes io (unat (ph_length h)) ?s1)"
  have "sv_rest v ?s1 = sv_rest v s" "sv_saved v ?s1 = sv_rest v s # sv_saved v s"
    using start_view [of s] by simp_all
  then have "\<not> sv_good v ?s2" "sv_saved v ?s2 = sv_rest v s # sv_saved v s"
    using needs_short [OF bytes_needs, of ?s1 "unat (ph_length h)"] assms(2) by (simp_all add: item_saved)
  with commit_bad [of ?s2] show ?thesis
    unfolding data_packet_read_def Let_def by (simp add: case_prod_unfold)
qed

lemma handshake_serialize:
  assumes "hp_id p \<noteq> []" and "length (hp_id p) < 256"
  shows "handshake_packet_serialize io p =
    Inr (header_serialize io (hp_header p) @ [of_nat (length (hp_id p))] @ hp_id p)"
  using assms by (simp add: handshake_packet_serialize_def cast_u8_fits)

text \<open>The header that goes out with a data packet.\<close>

definition data_header :: "bool \<Rightarrow> bytes \<Rightarrow> pkt_header" where
  "data_header cs d =
     (header_new packet_data cs 0)\<lparr>ph_crc32 := (if cs then crc32_of io d else 0), ph_length := of_nat (length d)\<rparr>"

lemma data_serialize:
  assumes "length d < 2 ^ 32"
  shows "data_packet_serialize io (data_packet_new cs) d = Inr (header_serialize io (data_header cs d) @ d)"
proof -
  have "(header_new packet_data False 0)\<lparr>ph_crc32 := 0\<rparr> = header_new packet_data False 0"
    by (simp add: header_new_def)
  with assms show ?thesis
    by (cases cs) (simp_all add: data_packet_serialize_def cast_u32_fits data_packet_new_def data_header_def Let_def
      header_new_fields)
qed

lemma data_header_fields:
  assumes "length d < 2 ^ 32"
  shows "header_ok packet_data (data_header cs d)" and "unat (ph_length (data_header cs d)) = length d"
    and "ph_has_checksum (data_header cs d) = cs"
    and "ph_has_checksum (data_header cs d) \<Longrightarrow> ph_crc32 (data_header cs d) = crc32_of io d"
proof -
  have "ph_has_checksum (data_header cs d) = ph_has_checksum (header_new packet_data cs 0)"
    "ph_type (data_header cs d) = ph_type (header_new packet_data cs 0)"
    by (simp_all add: data_header_def ph_has_checksum_def ph_type_def)
  then show "header_ok packet_data (data_header cs d)" "ph_has_checksum (data_header cs d) = cs"
    "ph_has_checksum (data_header cs d) \<Longrightarrow> ph_crc32 (data_header cs d) = crc32_of io d"
    by (simp_all add: header_ok_def header_new_fields packet_data_def data_header_def)
  show "unat (ph_length (data_header cs d)) = length d"
    using assms by (simp add: data_header_def unat_of_nat)
qed

lemma handshake_new_fields:
  "header_ok packet_handshake (hp_header (handshake_packet_new way bn))"
  "hp_is_response (handshake_packet_new way bn) = (way = WayResponse)"
  "hp_is_behind_nat (handshake_packet_new way bn) = bn"
  by (cases way; cases bn;
      simp add: handshake_packet_new_def header_ok_def header_new_def ph_type_def ph_has_checksum_def
        packet_handshake_def packet_data_def ph_enable_f0_def ph_enable_f1_def hp_is_response_def
        hp_is_behind_nat_def ph_is_f0_def ph_is_f1_def Let_def)+

lemma heartbeat_new_ok: "header_ok packet_heartbeat (hb_header heartbeat_packet_new)"
  by (simp add: heartbeat_packet_new_def header_ok_def header_new_def ph_type_def ph_has_checksum_def
      packet_heartbeat_def packet_data_def)

lemma header_then:
  assumes "header_ok type h" and "reads v (rd h) w x"
  shows "reads v (\<lambda>s. case header_read io s of (h, s) \<Rightarrow> rd h s) (header_serialize io h @ w) x"
  by (rule reads_then [where rd' = rd]) (use header_reads [OF assms(1)] assms(2) in simp_all)

lemma reads_open:
  assumes "reads v rd w x"
  shows "\<exists>s. rd (in_open io (w @ r)) = (x, s) \<and> sv_good v s \<and> sv_rest v s = r"
  using assms open_view [of "w @ r"] by (auto simp: reads_def prod_eq_iff)

end

subsection \<open>Properties\<close>

text \<open>A handshake packet carries its direction, the NAT flag and the node identifier: one with an
  identifier of 1 to 255 bytes serializes, and reading the header and the packet back from a stream
  that begins with it gives the same packet and leaves exactly what follows.\<close>

theorem handshake_packet_roundtrip:
  assumes "byte_streams io v" and "i \<noteq> []" and "length i < 256"
  shows "\<exists>w s. handshake_packet_serialize io ((handshake_packet_new way behind_nat)\<lparr>hp_id := i\<rparr>) = Inr w \<and>
    (case header_read io (in_open io (w @ r)) of (h, s) \<Rightarrow> handshake_packet_read io h s) =
      ((handshake_packet_new way behind_nat)\<lparr>hp_id := i\<rparr>, s) \<and>
    hp_is_response (handshake_packet_new way behind_nat) = (way = WayResponse) \<and>
    hp_is_behind_nat (handshake_packet_new way behind_nat) = behind_nat \<and> sv_good v s \<and> sv_rest v s = r"
proof -
  let ?p = "(handshake_packet_new way behind_nat)\<lparr>hp_id := i\<rparr>"
  have pe: "?p = \<lparr>hp_header = hp_header ?p, hp_id = i\<rparr>"
    by (cases "handshake_packet_new way behind_nat") simp
  have B: "reads v (\<lambda>s. case header_read io s of (h, s) \<Rightarrow> handshake_packet_read io h s)
      (header_serialize io (hp_header ?p) @ [of_nat (length i)] @ i)
      ?p"
    by (subst pe) (use byte_streams.header_then [OF assms(1) byte_streams.handshake_new_fields(1) [OF assms(1)],
        where rd = "handshake_packet_read io", OF byte_streams.handshake_packet_reads [OF assms(1,3)]] in simp)
  from byte_streams.reads_open [OF assms(1) B, of r] byte_streams.handshake_serialize [OF assms(1), of ?p]
    byte_streams.handshake_new_fields(2,3) [OF assms(1), of way behind_nat] assms(2,3)
  show ?thesis by simp
qed

theorem handshake_packet_roundtrip_witness:
  "\<exists>w s. handshake_packet_serialize be_streams ((handshake_packet_new WayResponse True)\<lparr>hp_id := [65, 66]\<rparr>) = Inr w \<and>
    (case header_read be_streams (in_open be_streams (w @ [9])) of (h, s) \<Rightarrow> handshake_packet_read be_streams h s) =
      ((handshake_packet_new WayResponse True)\<lparr>hp_id := [65, 66]\<rparr>, s) \<and> ms_rest s = [9]"
  using handshake_packet_roundtrip [OF be.byte_streams_axioms, of "[65, 66]" WayResponse True "[9]"]
  by (auto simp: mem_view_def)

text \<open>C39. A data packet of up to 4 GiB carries its payload, with or without a checksum; and a payload
  of the same size whose checksum is another one is not accepted: the packet read is marked and empty.\<close>

theorem data_packet_roundtrip:
  assumes "byte_streams io v" and "length d < 2 ^ 32" and "length d' = length d"
  shows "\<exists>hdr s s'. data_packet_serialize io (data_packet_new cs) d = Inr (hdr @ d) \<and>
    (case header_read io (in_open io (hdr @ d @ r)) of (h, s) \<Rightarrow>
       map_prod (\<lambda>p. (dp_bytes p, dp_bad_checksum p)) id (data_packet_read io h s)) = ((d, False), s) \<and>
    sv_good v s \<and> sv_rest v s = r \<and>
    (case header_read io (in_open io (hdr @ d' @ r)) of (h, s) \<Rightarrow>
       map_prod (\<lambda>p. (dp_bytes p, dp_bad_checksum p)) id (data_packet_read io h s)) =
      ((if cs \<and> crc32_of io d' \<noteq> crc32_of io d then ([], True) else (d', False)), s')"
proof -
  let ?h = "byte_streams.data_header io cs d"
  note F = byte_streams.data_header_fields [OF assms(1,2), of cs]
  note R = byte_streams.header_then [OF assms(1) F(1), where rd = "data_packet_read io",
      OF byte_streams.data_packet_reads [OF assms(1)]]
  from R [of d] F(2) byte_streams.reads_open [OF assms(1), of _ _ _ r]
  obtain s where s: "(case header_read io (in_open io (header_serialize io ?h @ d @ r)) of
      (h, s) \<Rightarrow> data_packet_read io h s) = (byte_streams.data_received io ?h d, s)"
    "sv_good v s" "sv_rest v s = r"
    by (metis append.assoc)
  from R [of d'] F(2) assms(3) byte_streams.reads_open [OF assms(1), of _ _ _ r]
  obtain s' where s': "(case header_read io (in_open io (header_serialize io ?h @ d' @ r)) of
      (h, s) \<Rightarrow> data_packet_read io h s) = (byte_streams.data_received io ?h d', s')"
    by (metis append.assoc)
  show ?thesis
    using s s' byte_streams.data_serialize [OF assms(1,2), of cs] F(3,4)
    by (intro exI [of _ "header_serialize io ?h"] exI [of _ s] exI [of _ s'])
       (auto simp: byte_streams.data_received_def [OF assms(1)] case_prod_unfold Let_def)
qed

theorem data_packet_roundtrip_witness:
  "\<exists>hdr s. data_packet_serialize be_streams (data_packet_new True) [1, 2] = Inr (hdr @ [1, 2]) \<and>
    (case header_read be_streams (in_open be_streams (hdr @ [1, 3] @ [])) of (h, s) \<Rightarrow>
       map_prod (\<lambda>p. (dp_bytes p, dp_bad_checksum p)) id (data_packet_read be_streams h s)) = (([], True), s)"
proof -
  have "crc32_of be_streams [1, 3] \<noteq> crc32_of be_streams [1, 2]" by (simp add: be_streams_def)
  with data_packet_roundtrip [OF be.byte_streams_axioms, of "[1, 2]" "[1, 3]" True "[]"]
  show ?thesis by auto
qed

end
