(* ===== verification/InputProcessor.thy ===== *)
theory InputProcessor
  imports Protocol PriorityFrame
begin

text \<open>
  The input processors of the mesh network (include/pfs/netty/patterns/meshnet/basic_input_processor.hpp,
  simple_input_processor.hpp and priority_input_processor.hpp). \<open>basic_input_processor<Derived, Node>\<close>
  relies on two parties, which are records of operations here: the derived class, which collects chunks
  and gives frames (\<open>ip_ops\<close>, over its state \<open>'d\<close>), and the node, which handles the packets
  (\<open>ip_host\<close>, over its state \<open>'n\<close>, of which the processor's state is a part).

  The code keeps a pointer to the account, and a reference to its buffer, while the node handles the
  packets. A handler that removes the account leaves them dangling, and every way the loop can go on
  uses them, so that is \<open>Undefined\<close>. The loops are partial functions: \<open>None\<close> is a loop that does not end.
\<close>

subsection \<open>The processor and its two parties\<close>

record 'd ip_ops =
  ip_locate :: "socket_id \<Rightarrow> 'd \<Rightarrow> bool result"
  ip_append :: "socket_id \<Rightarrow> bytes \<Rightarrow> 'd \<Rightarrow> 'd"
  ip_read_frame :: "socket_id \<Rightarrow> 'd \<Rightarrow> (bool \<times> 'd) result"
  ip_inpb :: "socket_id \<Rightarrow> 'd \<Rightarrow> bytes result"
  ip_set_inpb :: "socket_id \<Rightarrow> bytes \<Rightarrow> 'd \<Rightarrow> 'd"

datatype wire_packet = WpHandshake handshake_packet | WpHeartbeat heartbeat_packet | WpData bytes

record ('d, 'n) ip_host =
  ih_get :: "'n \<Rightarrow> 'd"
  ih_put :: "'d \<Rightarrow> 'n \<Rightarrow> 'n"
  ih_process :: "socket_id \<Rightarrow> wire_packet \<Rightarrow> 'n \<Rightarrow> 'n result"

text \<open>One packet handed to the node, and the use of the account that follows.\<close>

definition ip_handle ::
  "'d ip_ops \<Rightarrow> ('d, 'n) ip_host \<Rightarrow> socket_id \<Rightarrow> wire_packet \<Rightarrow> 'n \<Rightarrow> 'n result" where
  "ip_handle ops host sid p n =
     bindr (ih_process host sid p n) (\<lambda>n'.
     bindr (ip_locate ops sid (ih_get host n')) (\<lambda>found. if found then Inr n' else Inl Undefined))"

subsection \<open>The packet loop\<close>

text \<open>One round: whether there may be more packets, the stream and the node.\<close>

definition ip_one ::
  "'i streams \<Rightarrow> 'd ip_ops \<Rightarrow> ('d, 'n) ip_host \<Rightarrow> socket_id \<Rightarrow> 'i \<Rightarrow> 'n \<Rightarrow> (bool \<times> 'i \<times> 'n) result" where
  "ip_one io ops host sid s n =
     (let s = in_start io s;
          (h, s) = header_read io s;
          (ok, s) = in_commit io s
      in if \<not> ok then Inr (False, s, n)
         else if ph_type h = packet_handshake then
           (let s = in_start io s;
                (pkt, s) = handshake_packet_read io h s;
                (ok, s) = in_commit io s
            in if ok then mapr (\<lambda>n. (True, s, n)) (ip_handle ops host sid (WpHandshake pkt) n)
               else Inr (False, s, n))
         else if ph_type h = packet_heartbeat then
           (let s = in_start io s;
                (pkt, s) = heartbeat_packet_read io h s;
                (ok, s) = in_commit io s
            in if ok then mapr (\<lambda>n. (True, s, n)) (ip_handle ops host sid (WpHeartbeat pkt) n)
               else Inr (False, s, n))
         else if ph_type h = packet_data then
           (let s = in_start io s;
                (pkt, s) = data_packet_read io h s;
                (ok, s) = in_commit io s
            in if ok then mapr (\<lambda>n. (True, s, n)) (ip_handle ops host sid (WpData (dp_bytes pkt)) n)
               else Inr (False, s, n))
         else Inl (Thrown Unexpected_data))"

partial_function (option) ip_packets ::
  "'i streams \<Rightarrow> 'd ip_ops \<Rightarrow> ('d, 'n) ip_host \<Rightarrow> socket_id \<Rightarrow> 'i \<Rightarrow> 'n \<Rightarrow> ('i \<times> 'n) result option" where
  "ip_packets io ops host sid s n =
     (if in_available io s = 0 then Some (Inr (s, n))
      else case ip_one io ops host sid s n of
             Inl f \<Rightarrow> Some (Inl f)
           | Inr (has_more, s', n') \<Rightarrow>
               (if has_more then ip_packets io ops host sid s' n' else Some (Inr (s', n'))))"

subsection \<open>The frame loop\<close>

definition ip_finish ::
  "'i streams \<Rightarrow> 'd ip_ops \<Rightarrow> ('d, 'n) ip_host \<Rightarrow> socket_id \<Rightarrow> 'i \<Rightarrow> 'n \<Rightarrow> 'n result" where
  "ip_finish io ops host sid s n =
     bindr (ip_inpb ops sid (ih_get host n)) (\<lambda>inpb.
       Inr (ih_put host
         (ip_set_inpb ops sid
            (if in_available io s = 0 then [] else drop (length inpb - in_available io s) inpb)
            (ih_get host n)) n))"

partial_function (option) ip_frames ::
  "'i streams \<Rightarrow> 'd ip_ops \<Rightarrow> ('d, 'n) ip_host \<Rightarrow> socket_id \<Rightarrow> 'n \<Rightarrow> 'n result option" where
  "ip_frames io ops host sid n =
     (case ip_read_frame ops sid (ih_get host n) of
        Inl f \<Rightarrow> Some (Inl f)
      | Inr (ready, d) \<Rightarrow>
          (if \<not> ready then Some (Inr (ih_put host d n))
           else case ip_inpb ops sid d of
                  Inl f \<Rightarrow> Some (Inl f)
                | Inr inpb \<Rightarrow>
                    Option.bind (ip_packets io ops host sid (in_open io inpb) (ih_put host d n)) (\<lambda>r.
                      case r of
                        Inl f \<Rightarrow> Some (Inl f)
                      | Inr (s, n') \<Rightarrow>
                          (case ip_finish io ops host sid s n' of
                             Inl f \<Rightarrow> Some (Inl f)
                           | Inr n'' \<Rightarrow> ip_frames io ops host sid n''))))"

definition process_input ::
  "'i streams \<Rightarrow> 'd ip_ops \<Rightarrow> ('d, 'n) ip_host \<Rightarrow> socket_id \<Rightarrow> bytes \<Rightarrow> 'n \<Rightarrow> 'n result option" where
  "process_input io ops host sid chunk n =
     (if chunk = [] then Some (Inr n)
      else case ip_locate ops sid (ih_get host n) of
             Inl f \<Rightarrow> Some (Inl f)
           | Inr False \<Rightarrow> Some (Inl Terminated)
           | Inr True \<Rightarrow> ip_frames io ops host sid (ih_put host (ip_append ops sid chunk (ih_get host n)) n))"

subsection \<open>\<open>simple_input_processor\<close>\<close>

record si_account =
  sia_sid :: socket_id
  sia_b :: bytes

record simple_ip =
  si_accounts :: "socket_id \<rightharpoonup> si_account"
  si_frame_ready :: bool

definition si_new :: simple_ip where
  "si_new = \<lparr>si_accounts = Map.empty, si_frame_ready = False\<rparr>"

definition si_locate_account :: "socket_id \<Rightarrow> simple_ip \<Rightarrow> bool result" where
  "si_locate_account sid d =
     (case si_accounts d sid of
        None \<Rightarrow> Inr False
      | Some acc \<Rightarrow> if sia_sid acc = sid then Inr True else Inl Terminated)"

definition si_append_chunk :: "socket_id \<Rightarrow> bytes \<Rightarrow> simple_ip \<Rightarrow> simple_ip" where
  "si_append_chunk sid chunk d =
     d\<lparr>si_accounts := (\<lambda>i. if i = sid then map_option (\<lambda>a. a\<lparr>sia_b := sia_b a @ chunk\<rparr>) (si_accounts d i)
                          else si_accounts d i),
       si_frame_ready := True\<rparr>"

definition si_inpb :: "socket_id \<Rightarrow> simple_ip \<Rightarrow> bytes result" where
  "si_inpb sid d = (case si_accounts d sid of None \<Rightarrow> Inl Undefined | Some a \<Rightarrow> Inr (sia_b a))"

definition si_set_inpb :: "socket_id \<Rightarrow> bytes \<Rightarrow> simple_ip \<Rightarrow> simple_ip" where
  "si_set_inpb sid b d =
     d\<lparr>si_accounts := (\<lambda>i. if i = sid then map_option (\<lambda>a. a\<lparr>sia_b := b\<rparr>) (si_accounts d i) else si_accounts d i)\<rparr>"

definition si_read_frame :: "socket_id \<Rightarrow> simple_ip \<Rightarrow> (bool \<times> simple_ip) result" where
  "si_read_frame sid d = Inr (si_frame_ready d, d\<lparr>si_frame_ready := False\<rparr>)"

definition si_remove :: "socket_id \<Rightarrow> simple_ip \<Rightarrow> simple_ip" where
  "si_remove sid d = d\<lparr>si_accounts := (si_accounts d)(sid := None)\<rparr>"

text \<open>\<open>emplace\<close> does not replace an account, but \<open>add\<close> has removed the one there was.\<close>

definition si_add :: "socket_id \<Rightarrow> simple_ip \<Rightarrow> simple_ip result" where
  "si_add sid d =
     bindr (si_locate_account sid d) (\<lambda>found.
       (let d = (if found then si_remove sid d else d)
        in Inr (d\<lparr>si_accounts := (si_accounts d)(sid \<mapsto> \<lparr>sia_sid = sid, sia_b = []\<rparr>)\<rparr>)))"

definition si_ops :: "simple_ip ip_ops" where
  "si_ops = \<lparr>ip_locate = si_locate_account, ip_append = si_append_chunk, ip_read_frame = si_read_frame,
             ip_inpb = si_inpb, ip_set_inpb = si_set_inpb\<rparr>"

subsection \<open>\<open>priority_input_processor\<close>\<close>

record pi_account =
  pia_sid :: socket_id
  pia_buffers :: "bytes list"
  pia_current :: int
  pia_tmp :: bytes

type_synonym priority_ip = "socket_id \<rightharpoonup> pi_account"

definition pi_locate_account :: "socket_id \<Rightarrow> priority_ip \<Rightarrow> bool result" where
  "pi_locate_account sid d =
     (case d sid of None \<Rightarrow> Inr False | Some acc \<Rightarrow> if pia_sid acc = sid then Inr True else Inl Terminated)"

definition pi_append_chunk :: "socket_id \<Rightarrow> bytes \<Rightarrow> priority_ip \<Rightarrow> priority_ip" where
  "pi_append_chunk sid chunk d = (case d sid of None \<Rightarrow> d | Some a \<Rightarrow> d(sid \<mapsto> a\<lparr>pia_tmp := pia_tmp a @ chunk\<rparr>))"

text \<open>The buffers are a \<open>std::array\<close>, whose index operator does not check.\<close>

definition pi_buffer :: "pi_account \<Rightarrow> bytes result" where
  "pi_buffer a =
     (if pia_current a < 0 then Inl Terminated
      else if nat (pia_current a) < length (pia_buffers a) then Inr (pia_buffers a ! nat (pia_current a))
      else Inl Undefined)"

definition pi_inpb :: "socket_id \<Rightarrow> priority_ip \<Rightarrow> bytes result" where
  "pi_inpb sid d = (case d sid of None \<Rightarrow> Inl Undefined | Some a \<Rightarrow> pi_buffer a)"

definition pi_set_inpb :: "socket_id \<Rightarrow> bytes \<Rightarrow> priority_ip \<Rightarrow> priority_ip" where
  "pi_set_inpb sid b d =
     (case d sid of
        None \<Rightarrow> d
      | Some a \<Rightarrow> d(sid \<mapsto> a\<lparr>pia_buffers := (pia_buffers a)[nat (pia_current a) := b]\<rparr>))"

definition pi_read_frame :: "socket_id \<Rightarrow> priority_ip \<Rightarrow> (bool \<times> priority_ip) result" where
  "pi_read_frame sid d =
     (case d sid of
        None \<Rightarrow> Inl Undefined
      | Some a \<Rightarrow>
          bindr (pf_parse (pia_tmp a)) (\<lambda>opt_frame.
            (case opt_frame of
               None \<Rightarrow> Inr (False, d)
             | Some f \<Rightarrow>
                 (let a = a\<lparr>pia_current := pf_priority f\<rparr>
                  in if pia_current a < 0 then Inl Terminated
                     else bindr (pi_buffer a) (\<lambda>inpb.
                       (let payload = take (pf_payload_size f) (drop pf_header_size (pia_tmp a));
                            frame_size = pf_header_size + pf_payload_size f;
                            a = a\<lparr>pia_buffers := (pia_buffers a)[nat (pia_current a) := inpb @ payload],
                                  pia_tmp := drop frame_size (pia_tmp a)\<rparr>
                        in Inr (True, d(sid \<mapsto> a))))))))"

definition pi_remove :: "socket_id \<Rightarrow> priority_ip \<Rightarrow> priority_ip" where
  "pi_remove sid d = d(sid := None)"

definition pi_add :: "nat \<Rightarrow> socket_id \<Rightarrow> priority_ip \<Rightarrow> priority_ip result" where
  "pi_add N sid d =
     bindr (pi_locate_account sid d) (\<lambda>found.
       (let d = (if found then pi_remove sid d else d)
        in Inr (d(sid \<mapsto> \<lparr>pia_sid = sid, pia_buffers = replicate N [], pia_current = -1, pia_tmp = []\<rparr>))))"

definition pi_ops :: "priority_ip ip_ops" where
  "pi_ops = \<lparr>ip_locate = pi_locate_account, ip_append = pi_append_chunk, ip_read_frame = pi_read_frame,
             ip_inpb = pi_inpb, ip_set_inpb = pi_set_inpb\<rparr>"

subsection \<open>Packets on the wire\<close>

text \<open>\<open>encodes io w p\<close>: \<open>w\<close> is what the serializers of the protocol make of a packet that is received as
  \<open>p\<close>, its header included.\<close>

definition encodes :: "'i streams \<Rightarrow> bytes \<Rightarrow> wire_packet \<Rightarrow> bool" where
  "encodes io w p \<longleftrightarrow>
     (case p of
        WpHandshake q \<Rightarrow>
          header_ok packet_handshake (hp_header q) \<and> hp_id q \<noteq> [] \<and> length (hp_id q) < 256 \<and>
          handshake_packet_serialize io q = Inr w
      | WpHeartbeat q \<Rightarrow> header_ok packet_heartbeat (hb_header q) \<and> w = heartbeat_packet_serialize io q
      | WpData d \<Rightarrow> length d < 2 ^ 32 \<and> (\<exists>cs. data_packet_serialize io (data_packet_new cs) d = Inr w))"

context byte_streams
begin

lemma ip_one_header:
  assumes "outermost s (header_serialize io h @ r)" and "header_ok type h"
  shows "\<exists>s1. header_read io (in_start io s) = (h, s1) \<and> fst (in_commit io s1) \<and> outermost (snd (in_commit io s1)) r"
  using transaction_good [OF assms(1) header_reads [OF assms(2)] header_keeps] by blast

lemma ip_one_packet:
  assumes "outermost s (w @ r)" and "encodes io w p"
  shows "\<exists>s'. ip_one io ops host sid s n = mapr (\<lambda>n'. (True, s', n')) (ip_handle ops host sid p n) \<and>
    outermost s' r \<and> 0 < length w"
proof (cases p)
  case (WpHandshake q)
  with assms(2) have q: "header_ok packet_handshake (hp_header q)"
    and w: "w = header_serialize io (hp_header q) @ [of_nat (length (hp_id q))] @ hp_id q"
    and l: "length (hp_id q) < 256"
    by (auto simp: encodes_def handshake_serialize)
  let ?b = "[of_nat (length (hp_id q))] @ hp_id q"
  obtain s1 where s1: "header_read io (in_start io s) = (hp_header q, s1)" "fst (in_commit io s1)"
    "outermost (snd (in_commit io s1)) (?b @ r)"
    using ip_one_header [OF _ q] assms(1) w by (metis append.assoc)
  obtain s2 where s2: "handshake_packet_read io (hp_header q) (in_start io (snd (in_commit io s1))) = (q, s2)"
    "fst (in_commit io s2)" "outermost (snd (in_commit io s2)) r"
    using transaction_good [OF s1(3) handshake_packet_reads [OF l] handshake_packet_keeps, of "hp_header q"] by auto
  from q have "ph_type (hp_header q) = packet_handshake" by (simp add: header_ok_def)
  with s1 s2 WpHandshake show ?thesis
    unfolding ip_one_def Let_def
    by (intro exI [of _ "snd (in_commit io s2)"]) (simp add: case_prod_unfold w)
next
  case (WpHeartbeat q)
  with assms(2) have q: "header_ok packet_heartbeat (hb_header q)"
    and w: "w = header_serialize io (hb_header q) @ [hb_health_data q]"
    by (auto simp: encodes_def heartbeat_packet_serialize_def)
  obtain s1 where s1: "header_read io (in_start io s) = (hb_header q, s1)" "fst (in_commit io s1)"
    "outermost (snd (in_commit io s1)) ([hb_health_data q] @ r)"
    using ip_one_header [OF _ q] assms(1) w by (metis append.assoc)
  obtain s2 where s2: "heartbeat_packet_read io (hb_header q) (in_start io (snd (in_commit io s1))) = (q, s2)"
    "fst (in_commit io s2)" "outermost (snd (in_commit io s2)) r"
    using transaction_good [OF s1(3) heartbeat_packet_reads heartbeat_packet_keeps, of "hb_header q"] by auto
  from q have "ph_type (hb_header q) = packet_heartbeat" by (simp add: header_ok_def)
  with s1 s2 WpHeartbeat show ?thesis
    unfolding ip_one_def Let_def
    by (intro exI [of _ "snd (in_commit io s2)"])
       (simp add: case_prod_unfold w packet_heartbeat_def packet_handshake_def)
next
  case (WpData d)
  with assms(2) obtain cs where l: "length d < 2 ^ 32"
    and w: "w = header_serialize io (data_header cs d) @ d"
    by (auto simp: encodes_def data_serialize)
  let ?h = "data_header cs d"
  note F = data_header_fields [OF l, of cs]
  obtain s1 where s1: "header_read io (in_start io s) = (?h, s1)" "fst (in_commit io s1)"
    "outermost (snd (in_commit io s1)) (d @ r)"
    using ip_one_header [OF _ F(1)] assms(1) w by (metis append.assoc)
  obtain s2 where s2: "data_packet_read io ?h (in_start io (snd (in_commit io s1))) = (data_received ?h d, s2)"
    "fst (in_commit io s2)" "outermost (snd (in_commit io s2)) r"
    using transaction_good [OF s1(3) data_packet_reads [OF F(2)] data_packet_keeps] by auto
  have "dp_bytes (data_received ?h d) = d" using F(4) by (auto simp: data_received_def Let_def)
  moreover have "ph_type ?h = packet_data" using F(1) by (simp add: header_ok_def)
  ultimately show ?thesis
    using s1 s2 WpData unfolding ip_one_def Let_def
    by (intro exI [of _ "snd (in_commit io s2)"])
       (simp add: case_prod_unfold w packet_heartbeat_def packet_handshake_def packet_data_def header_serialize_def)
qed

text \<open>The loop over a buffer of complete packets: it ends, and has handed over every packet in order.\<close>

lemma ip_packets_delivers:
  assumes "outermost s (concat ws)" and "list_all2 (encodes io) ws ps"
  shows "\<exists>s'. outermost s' [] \<and>
    ip_packets io ops host sid s n = Some (mapr (\<lambda>n'. (s', n')) (foldr_res (ip_handle ops host sid) ps n))"
  using assms(2,1)
proof (induction ws ps arbitrary: s n rule: list_all2_induct)
  case Nil
  then show ?case
    by (intro exI [of _ s]) (simp add: ip_packets.simps [of _ _ _ _ s] outermost_available)
next
  case (Cons w ws p ps)
  then have o: "outermost s (w @ concat ws)" by simp
  from ip_one_packet [OF this Cons.hyps(1), of ops host sid n]
  obtain s1 where s1: "ip_one io ops host sid s n = mapr (\<lambda>n'. (True, s1, n')) (ip_handle ops host sid p n)"
    "outermost s1 (concat ws)" and w: "0 < length w" by blast
  from o w have av: "in_available io s \<noteq> 0" by (simp add: outermost_available)
  show ?case
  proof (cases "ip_handle ops host sid p n")
    case (Inl f)
    with s1 av show ?thesis
      by (intro exI [of _ "in_open io []"])
         (simp add: ip_packets.simps [of _ _ _ _ s] outermost_open)
  next
    case (Inr n1)
    with s1 av Cons.IH [OF s1(2), of n1] show ?thesis
      by (simp add: ip_packets.simps [of _ _ _ _ s])
  qed
qed

lemma ip_frames_delivers:
  assumes "ip_read_frame ops sid (ih_get host n) = Inr (True, d)" and "ip_inpb ops sid d = Inr (concat ws)"
    and "list_all2 (encodes io) ws ps"
    and "foldr_res (ip_handle ops host sid) ps (ih_put host d n) = Inr n'"
    and "ip_inpb ops sid (ih_get host n') = Inr b"
  shows "ip_frames io ops host sid n =
    ip_frames io ops host sid (ih_put host (ip_set_inpb ops sid [] (ih_get host n')) n')"
proof -
  obtain s' where "outermost s' []" "ip_packets io ops host sid (in_open io (concat ws)) (ih_put host d n) =
      Some (Inr (s', n'))"
    using ip_packets_delivers [OF outermost_open assms(3), of ops host sid "ih_put host d n"] assms(4) by auto
  with assms show ?thesis
    by (subst ip_frames.simps) (simp add: ip_finish_def outermost_available)
qed

lemma ip_frames_fault:
  assumes "ip_read_frame ops sid (ih_get host n) = Inr (True, d)" and "ip_inpb ops sid d = Inr (concat ws)"
    and "list_all2 (encodes io) ws ps"
    and "foldr_res (ip_handle ops host sid) ps (ih_put host d n) = Inl f"
  shows "ip_frames io ops host sid n = Some (Inl f)"
proof -
  obtain s' where "ip_packets io ops host sid (in_open io (concat ws)) (ih_put host d n) = Some (Inl f)"
    using ip_packets_delivers [OF outermost_open assms(3), of ops host sid "ih_put host d n"] assms(4) by auto
  with assms show ?thesis
    by (subst ip_frames.simps) simp
qed

end

context byte_streams
begin

text \<open>A packet cut off within its body: the round consumes the header and nothing else. A data packet
  cut off right after its header may be handed over as an empty one.\<close>

lemma ip_one_cut:
  assumes "encodes io (header_serialize io h @ part @ missing) p" and "header_ok type h"
    and "outermost s (header_serialize io h @ part)" and "missing \<noteq> []"
    and "type = packet_data \<longrightarrow> part = []"
  shows "\<exists>s'. outermost s' part \<and>
    (ip_one io ops host sid s n = Inr (False, s', n) \<or>
     part = [] \<and> ip_one io ops host sid s n = mapr (\<lambda>n'. (True, s', n')) (ip_handle ops host sid (WpData []) n))"
proof -
  obtain s1 where s1: "header_read io (in_start io s) = (h, s1)" "fst (in_commit io s1)"
    "outermost (snd (in_commit io s1)) part"
    using ip_one_header [OF assms(3,2)] by blast
  let ?s = "snd (in_commit io s1)"
  let ?s2 = "in_start io ?s"
  have s2: "sv_rest v ?s2 = part" "sv_good v ?s2" "sv_saved v ?s2 = [part]"
    using s1(3) start_view [of ?s] by (simp_all add: outermost_def)
  from assms(2) have t: "ph_type h = type" by (simp add: header_ok_def)
  have hdr: "h' = h \<and> b = part @ missing"
    if "header_serialize io h @ part @ missing = header_serialize io h' @ b" "header_ok type' h'" for type' h' b
    using that header_reads [OF assms(2)] header_reads [OF that(2)] open_view
    by (metis prod.exhaust_sel readsD(1) readsD(3))
  show ?thesis
  proof (cases p)
    case (WpHandshake q)
    with assms(1) have q: "header_ok packet_handshake (hp_header q)" "length (hp_id q) < 256"
      "header_serialize io h @ part @ missing =
       header_serialize io (hp_header q) @ [of_nat (length (hp_id q))] @ hp_id q"
      by (auto simp: encodes_def handshake_serialize)
    from hdr [OF q(3,1)] have h: "hp_header q = h"
      and pm: "part @ missing = of_nat (length (hp_id q)) # hp_id q" by simp_all
    have "\<not> sv_good v (snd (handshake_packet_read io h ?s2))"
    proof (cases part)
      case Nil
      then have "\<not> sv_good v (snd (in_u8 io ?s2))"
        using s2 needs_short [OF u8_needs, of ?s2] by simp
      then show ?thesis
        using needs_bad [OF bytes_needs] by (simp add: handshake_packet_read_def case_prod_unfold Let_def)
    next
      case (Cons x xs)
      with pm have x: "x = of_nat (length (hp_id q))" and xs: "xs @ missing = hp_id q" by simp_all
      from readsD [OF u8_reads, of ?s2 x xs] s2 Cons
      have r: "fst (in_u8 io ?s2) = x" "sv_rest v (snd (in_u8 io ?s2)) = xs" by simp_all
      have "unat x = length (hp_id q)" using q(2) x by (simp add: unat_of_nat)
      moreover have "length xs < length (hp_id q)" using assms(4) by (simp flip: xs)
      ultimately have "\<not> sv_good v (snd (in_bytes io (unat x) (snd (in_u8 io ?s2))))"
        using r needs_short [OF bytes_needs, of "snd (in_u8 io ?s2)" "unat x"] by simp
      with r show ?thesis by (simp add: handshake_packet_read_def case_prod_unfold Let_def)
    qed
    from transaction_bad [OF s1(3) this handshake_packet_keeps] s1 h q(1) t
    show ?thesis
      unfolding ip_one_def Let_def
      by (intro exI [of _ "snd (in_commit io (snd (handshake_packet_read io h ?s2)))"])
         (simp add: case_prod_unfold header_ok_def)
  next
    case (WpHeartbeat q)
    with assms(1) have q: "header_ok packet_heartbeat (hb_header q)"
      "header_serialize io h @ part @ missing = header_serialize io (hb_header q) @ [hb_health_data q]"
      by (auto simp: encodes_def heartbeat_packet_serialize_def)
    from hdr [OF q(2,1)] have h: "hb_header q = h" and pm: "part @ missing = [hb_health_data q]" by simp_all
    from pm assms(4) have "part = []" by (cases part) auto
    then have "\<not> sv_good v (snd (heartbeat_packet_read io h ?s2))"
      using s2 needs_short [OF u8_needs, of ?s2]
      by (simp add: heartbeat_packet_read_def case_prod_unfold Let_def)
    from transaction_bad [OF s1(3) this heartbeat_packet_keeps] s1 h q(1) t
    show ?thesis
      unfolding ip_one_def Let_def
      by (intro exI [of _ "snd (in_commit io (snd (heartbeat_packet_read io h ?s2)))"])
         (simp add: case_prod_unfold header_ok_def packet_handshake_def packet_heartbeat_def)
  next
    case (WpData d)
    with assms(1) obtain cs where l: "length d < 2 ^ 32"
      and w': "header_serialize io (data_header cs d) @ d = header_serialize io h @ part @ missing"
      by (auto simp: encodes_def data_serialize)
    note w = sym [OF w']
    note F = data_header_fields [OF l, of cs]
    from hdr [OF w F(1)] have h: "data_header cs d = h" and pm: "part @ missing = d" by auto
    from F(1) h t have type: "type = packet_data" by (simp add: header_ok_def)
    with assms(5) have part: "part = []" by simp
    have "length (sv_rest v ?s2) < unat (ph_length h)" using F(2) h pm part s2 assms(4) by auto
    from data_packet_short [OF s2(2) this] s2(1) part
    have r: "sv_rest v (snd (data_packet_read io h ?s2)) = []" "dp_bytes (fst (data_packet_read io h ?s2)) = []"
      by simp_all
    have sv: "sv_saved v (snd (data_packet_read io h ?s2)) = [[]]"
      using data_packet_keeps [of h] s2(3) part by (simp add: keeps_def)
    let ?s3 = "snd (in_commit io (snd (data_packet_read io h ?s2)))"
    have "outermost ?s3 []"
      using commit_good [OF _ sv] commit_bad [OF _ sv] r
      by (cases "sv_good v (snd (data_packet_read io h ?s2))") (auto simp: outermost_def)
    with s1 t type part r(2) show ?thesis
      unfolding ip_one_def Let_def
      by (intro exI [of _ ?s3])
         (auto simp: case_prod_unfold packet_handshake_def packet_heartbeat_def packet_data_def)
  qed
qed

end

subsection \<open>Nodes whose handlers leave the processor alone\<close>

definition quiet_host :: "('d, 'n) ip_host \<Rightarrow> bool" where
  "quiet_host host \<longleftrightarrow>
     (\<forall>d n. ih_get host (ih_put host d n) = d) \<and>
     (\<forall>d d' n. ih_put host d (ih_put host d' n) = ih_put host d n) \<and>
     (\<forall>n. ih_put host (ih_get host n) n = n) \<and>
     (\<forall>sid p d n. ih_process host sid p (ih_put host d n) = mapr (ih_put host d) (ih_process host sid p n))"

lemma quiet_simps:
  assumes "quiet_host host"
  shows "ih_get host (ih_put host d n) = d" and "ih_put host d (ih_put host d' n) = ih_put host d n"
    and "ih_put host (ih_get host n) n = n"
    and "ih_process host sid p (ih_put host d n) = mapr (ih_put host d) (ih_process host sid p n)"
  using assms by (simp_all add: quiet_host_def)

text \<open>A node whose state is the processor's and the list of the packets it was given.\<close>

definition logging_host :: "('d, 'd \<times> wire_packet list) ip_host" where
  "logging_host = \<lparr>ih_get = fst, ih_put = (\<lambda>d n. (d, snd n)), ih_process = (\<lambda>sid p n. Inr (fst n, snd n @ [p]))\<rparr>"

lemma logging_host_quiet: "quiet_host logging_host"
  by (simp add: quiet_host_def logging_host_def)

lemma logging_host_run: "foldr_res (ih_process logging_host sid) ps n = Inr (fst n, snd n @ ps)"
  by (induction ps arbitrary: n) (simp_all add: logging_host_def)

lemma quiet_handle:
  assumes "quiet_host host" and "ip_locate ops sid d = Inr True"
  shows "ip_handle ops host sid p (ih_put host d n) = mapr (ih_put host d) (ih_process host sid p n)"
  using assms by (cases "ih_process host sid p n") (simp_all add: quiet_host_def ip_handle_def)

lemma quiet_run:
  assumes "quiet_host host" and "ip_locate ops sid d = Inr True"
  shows "foldr_res (ip_handle ops host sid) ps (ih_put host d n) =
    mapr (ih_put host d) (foldr_res (ih_process host sid) ps n)"
proof (induction ps arbitrary: n)
  case Nil
  show ?case by simp
next
  case (Cons p ps)
  then show ?case by (cases "ih_process host sid p n") (simp_all add: quiet_handle [OF assms])
qed

subsection \<open>Delivery by the simple processor\<close>

lemma si_ops_set: "ip_set_inpb si_ops = si_set_inpb"
  by (simp add: si_ops_def)

lemma si_frames_done:
  assumes "quiet_host host" and "\<not> si_frame_ready (ih_get host n)"
  shows "ip_frames io si_ops host sid n = Some (Inr n)"
proof -
  have "(ih_get host n)\<lparr>si_frame_ready := False\<rparr> = ih_get host n"
    using assms(2) by (cases "ih_get host n") simp
  then have "ip_read_frame si_ops sid (ih_get host n) = Inr (False, ih_get host n)"
    using assms(2) by (simp add: si_ops_def si_read_frame_def)
  then show ?thesis
    by (subst ip_frames.simps) (simp add: quiet_simps [OF assms(1)])
qed

lemma si_delivers_run:
  assumes B: "byte_streams io v" and Q: "quiet_host host" and E: "list_all2 (encodes io) ws ps"
    and a: "si_accounts (ih_get host n) sid = Some \<lparr>sia_sid = sid, sia_b = b\<rparr>"
    and nr: "\<not> si_frame_ready (ih_get host n)"
    and chunk: "chunk \<noteq> []" and c: "b @ chunk = concat ws"
  shows "process_input io si_ops host sid chunk n =
    Some (mapr (ih_put host (si_set_inpb sid [] (ih_get host n))) (foldr_res (ih_process host sid) ps n))"
proof -
  let ?old = "ih_get host n"
  let ?start = "ih_put host (si_append_chunk sid chunk ?old) n"
  let ?d = "(si_append_chunk sid chunk ?old)\<lparr>si_frame_ready := False\<rparr>"
  have rf: "ip_read_frame si_ops sid (ih_get host ?start) = Inr (True, ?d)"
    by (simp add: si_ops_def si_read_frame_def si_append_chunk_def quiet_simps [OF Q])
  have ib: "ip_inpb si_ops sid ?d = Inr (concat ws)"
    using a c by (simp add: si_ops_def si_inpb_def si_append_chunk_def)
  have loc: "ip_locate si_ops sid ?d = Inr True"
    using a by (simp add: si_ops_def si_locate_account_def si_append_chunk_def)
  have put: "ih_put host ?d ?start = ih_put host ?d n" by (rule quiet_simps(2) [OF Q])
  have start: "process_input io si_ops host sid chunk n = ip_frames io si_ops host sid ?start"
    using chunk a by (simp add: process_input_def si_ops_def si_locate_account_def)
  have same: "si_set_inpb sid [] ?d = si_set_inpb sid [] ?old"
    using nr by (auto simp: si_set_inpb_def si_append_chunk_def fun_eq_iff option.map_comp comp_def)
  show ?thesis
  proof (cases "foldr_res (ih_process host sid) ps n")
    case (Inl f)
    then have "foldr_res (ip_handle si_ops host sid) ps (ih_put host ?d ?start) = Inl f"
      by (simp add: put quiet_run [OF Q loc])
    from byte_streams.ip_frames_fault [OF B rf ib E this] Inl start show ?thesis by simp
  next
    case (Inr n2)
    then have run: "foldr_res (ip_handle si_ops host sid) ps (ih_put host ?d ?start) = Inr (ih_put host ?d n2)"
      by (simp add: put quiet_run [OF Q loc])
    have get: "ih_get host (ih_put host ?d n2) = ?d" by (rule quiet_simps(1) [OF Q])
    from byte_streams.ip_frames_delivers [OF B rf ib E run, unfolded get, OF ib]
    have "ip_frames io si_ops host sid ?start =
        ip_frames io si_ops host sid (ih_put host (si_set_inpb sid [] ?d) (ih_put host ?d n2))"
      by (simp only: si_ops_set)
    also have "\<dots> = ip_frames io si_ops host sid (ih_put host (si_set_inpb sid [] ?old) n2)"
      by (subst same) (subst quiet_simps(2) [OF Q], rule refl)
    also have "\<dots> = Some (Inr (ih_put host (si_set_inpb sid [] ?old) n2))"
      using Q nr by (intro si_frames_done) (simp_all add: quiet_simps [OF Q] si_set_inpb_def)
    finally show ?thesis using Inr start by simp
  qed
qed

lemma si_split_run:
  assumes B: "byte_streams io v" and Q: "quiet_host host"
    and E: "encodes io (header_serialize io h @ part @ missing) p" "header_ok type h"
    and cut: "missing \<noteq> []" "type = packet_data \<longrightarrow> part = []"
    and a: "si_accounts (ih_get host n) sid = Some \<lparr>sia_sid = sid, sia_b = []\<rparr>"
    and nr: "\<not> si_frame_ready (ih_get host n)"
    and ok: "\<exists>n'. ih_process host sid (WpData []) n = Inr n'"
  shows "\<exists>n'. process_input io si_ops host sid (header_serialize io h @ part) n =
      Some (Inr (ih_put host (si_set_inpb sid part (ih_get host n)) n')) \<and>
    (n' = n \<or> part = [] \<and> ih_process host sid (WpData []) n = Inr n')"
proof -
  let ?chunk = "header_serialize io h @ part"
  let ?old = "ih_get host n"
  let ?start = "ih_put host (si_append_chunk sid ?chunk ?old) n"
  let ?d = "(si_append_chunk sid ?chunk ?old)\<lparr>si_frame_ready := False\<rparr>"
  have ne: "?chunk \<noteq> []" by (simp add: header_serialize_def)
  have rf: "ip_read_frame si_ops sid (ih_get host ?start) = Inr (True, ?d)"
    by (simp add: si_ops_def si_read_frame_def si_append_chunk_def quiet_simps [OF Q])
  have ib: "ip_inpb si_ops sid ?d = Inr ?chunk"
    using a by (simp add: si_ops_def si_inpb_def si_append_chunk_def)
  have loc: "ip_locate si_ops sid ?d = Inr True"
    using a by (simp add: si_ops_def si_locate_account_def si_append_chunk_def)
  have start: "process_input io si_ops host sid ?chunk n = ip_frames io si_ops host sid ?start"
    unfolding process_input_def using a by (simp only: ne if_False) (simp add: si_ops_def si_locate_account_def)
  have same: "si_set_inpb sid b ?d = si_set_inpb sid b ?old" for b
    using nr by (auto simp: si_set_inpb_def si_append_chunk_def fun_eq_iff option.map_comp comp_def)
  let ?n = "ih_put host ?d n"
  have n: "ih_put host ?d ?start = ?n" by (rule quiet_simps(2) [OF Q])
  obtain s' where s': "byte_streams.outermost v s' part"
    and one: "ip_one io si_ops host sid (in_open io ?chunk) ?n = Inr (False, s', ?n) \<or>
      part = [] \<and> ip_one io si_ops host sid (in_open io ?chunk) ?n =
        mapr (\<lambda>n'. (True, s', n')) (ip_handle si_ops host sid (WpData []) ?n)"
    using byte_streams.ip_one_cut [OF B E byte_streams.outermost_open [OF B] cut,
        where ops = si_ops and host = host and sid = sid and n = ?n] by blast
  have "in_available io (in_open io ?chunk) = length ?chunk"
    by (rule byte_streams.outermost_available [OF B byte_streams.outermost_open [OF B]])
  then have av: "in_available io (in_open io ?chunk) \<noteq> 0" "in_available io s' = length part"
    using byte_streams.outermost_available [OF B s'] by (simp_all add: header_serialize_def)
  have "\<exists>n'. (n' = n \<or> part = [] \<and> ih_process host sid (WpData []) n = Inr n') \<and>
      ip_packets io si_ops host sid (in_open io ?chunk) ?n = Some (Inr (s', ih_put host ?d n'))"
    using one
  proof
    assume "ip_one io si_ops host sid (in_open io ?chunk) ?n = Inr (False, s', ?n)"
    then show ?thesis
      using av by (intro exI [of _ n]) (simp add: ip_packets.simps [of _ _ _ _ "in_open io ?chunk"])
  next
    assume one: "part = [] \<and> ip_one io si_ops host sid (in_open io ?chunk) ?n =
        mapr (\<lambda>n'. (True, s', n')) (ip_handle si_ops host sid (WpData []) ?n)"
    from ok obtain n' where "ih_process host sid (WpData []) n = Inr n'" by blast
    then have "ip_one io si_ops host sid (in_open io ?chunk) ?n = Inr (True, s', ih_put host ?d n')"
      using conjunct2 [OF one] by (simp only: quiet_handle [OF Q loc] mapr_simps)
    moreover have "in_available io s' = 0" using av(2) one by simp
    ultimately have "ip_packets io si_ops host sid (in_open io ?chunk) ?n = Some (Inr (s', ih_put host ?d n'))"
      using av(1) by (simp only: ip_packets.simps [of _ _ _ _ "in_open io ?chunk"] ip_packets.simps [of _ _ _ _ s']
          if_False if_True sum.case prod.case refl)
    with one \<open>ih_process host sid (WpData []) n = Inr n'\<close> show ?thesis by blast
  qed
  then obtain n' where n': "n' = n \<or> part = [] \<and> ih_process host sid (WpData []) n = Inr n'"
    and pk: "ip_packets io si_ops host sid (in_open io ?chunk) ?n = Some (Inr (s', ih_put host ?d n'))"
    by blast
  have get: "ih_get host (ih_put host ?d n') = ?d" by (rule quiet_simps(1) [OF Q])
  have left: "(if in_available io s' = 0 then [] else drop (length ?chunk - in_available io s') ?chunk) = part"
    by (simp add: av)
  have fin: "ip_finish io si_ops host sid s' (ih_put host ?d n') = Inr (ih_put host (si_set_inpb sid part ?old) n')"
    unfolding ip_finish_def get ib bindr_simps left si_ops_set same quiet_simps(2) [OF Q] ..
  have "ip_frames io si_ops host sid ?start = ip_frames io si_ops host sid (ih_put host (si_set_inpb sid part ?old) n')"
    by (subst ip_frames.simps) (simp add: rf ib n pk fin)
  also have "\<dots> = Some (Inr (ih_put host (si_set_inpb sid part ?old) n'))"
    using nr by (intro si_frames_done [OF Q]) (simp add: quiet_simps [OF Q] si_set_inpb_def)
  finally show ?thesis using start n' by auto
qed

subsection \<open>The priority processor\<close>

lemma pi_account_view:
  "pi_locate_account sid (d(sid \<mapsto> a)) = (if pia_sid a = sid then Inr True else Inl Terminated)"
  "pi_inpb sid (d(sid \<mapsto> a)) = pi_buffer a"
  "pi_set_inpb sid b (d(sid \<mapsto> a)) = d(sid \<mapsto> a\<lparr>pia_buffers := (pia_buffers a)[nat (pia_current a) := b]\<rparr>)"
  by (simp_all add: pi_locate_account_def pi_inpb_def pi_set_inpb_def)

text \<open>A frame of priority \<open>q\<close> as \<open>priority_frame::serialize\<close> writes it.\<close>

definition framed :: "nat \<Rightarrow> bytes \<Rightarrow> bytes \<Rightarrow> bool" where
  "framed q payload fb \<longleftrightarrow> length payload \<le> 65532 \<and>
     pf_serialize [] payload (length payload + pf_header_size) (pf_make (int q)) = Inr fb"

lemma framed_bytes:
  assumes "framed q payload fb"
  shows "\<exists>f. fb = pf_header_bytes f @ payload \<and> drop_bit 4 (pf_b0 f) AND 0x0F = 5 \<and>
    unat (pf_size f) = length payload \<and> pf_b0 f = pf_b0 (pf_make (int q))"
proof -
  let ?f = "pf_set_size (length payload + 3) (pf_make (int q))"
  from assms pf_serialize_ok [of payload payload "[]" "int q"]
  have "fb = pf_header_bytes ?f @ payload" by (simp add: framed_def pf_header_size_def)
  with assms pf_b0_magic [of "int q"] pf_set_size_size [of "length payload + 3" "pf_make (int q)"]
  show ?thesis
    by (intro exI [of _ ?f]) (simp add: framed_def pf_header_size_def)
qed




definition pi_idle :: "nat \<Rightarrow> socket_id \<Rightarrow> pi_account \<Rightarrow> bool" where
  "pi_idle N sid a \<longleftrightarrow> pia_sid a = sid \<and> pia_buffers a = replicate N []"





lemma pi_process_chunk:
  assumes "quiet_host host" and "pi_idle N sid a" and "c \<noteq> []"
  shows "process_input io pi_ops host sid c (ih_put host (d(sid \<mapsto> a)) n) =
    ip_frames io pi_ops host sid (ih_put host (d(sid \<mapsto> a\<lparr>pia_tmp := pia_tmp a @ c\<rparr>)) n)"
  using assms(2,3)
  by (simp add: process_input_def pi_ops_def quiet_simps [OF assms(1)] pi_account_view pi_idle_def pi_append_chunk_def)


lemma heartbeat_encodes: "encodes be_streams [2, 0, 0] (WpHeartbeat heartbeat_packet_new)"
proof -
  have "heartbeat_packet_serialize be_streams heartbeat_packet_new = [2, 0, 0]"
    by (simp add: heartbeat_packet_serialize_def header_serialize_def heartbeat_packet_new_def header_new_def
        packet_heartbeat_def packet_data_def)
  with be.heartbeat_new_ok show ?thesis by (simp add: encodes_def)
qed

lemma data_encodes: "encodes be_streams [15, 0, 0, 0, 0, 2, 8, 9] (WpData [8, 9])"
proof -
  have "data_packet_serialize be_streams (data_packet_new False) [8, 9] = Inr [15, 0, 0, 0, 0, 2, 8, 9]"
    by (simp add: data_packet_serialize_def header_serialize_def data_packet_new_def header_new_def
        packet_data_def be_streams_def be32_def ph_has_checksum_def Let_def)
  then show ?thesis unfolding encodes_def by auto
qed

subsection \<open>Properties\<close>

text \<open>The simple processor delivers: when the bytes buffered for a socket followed by the chunk that
  arrives are the encodings of packets, \<open>process_input\<close> returns, the node has handled exactly these
  packets, once each and in order, and the buffer is empty; a fault of a handler is the result.\<close>

theorem si_delivers:
  assumes "byte_streams io v" and "quiet_host host" and "list_all2 (encodes io) ws ps"
    and "si_accounts (ih_get host n) sid = Some \<lparr>sia_sid = sid, sia_b = b\<rparr>"
    and "\<not> si_frame_ready (ih_get host n)" and "chunk \<noteq> []" and "b @ chunk = concat ws"
  shows "process_input io si_ops host sid chunk n =
    Some (mapr (ih_put host (si_set_inpb sid [] (ih_get host n))) (foldr_res (ih_process host sid) ps n))"
  using assms by (rule si_delivers_run)

theorem si_delivers_witness:
  "\<exists>d. process_input be_streams si_ops logging_host 7 [2, 0, 0, 15, 0, 0, 0, 0, 2, 8, 9]
      (si_new\<lparr>si_accounts := [7 \<mapsto> \<lparr>sia_sid = 7, sia_b = []\<rparr>]\<rparr>, []) =
    Some (Inr (d, [WpHeartbeat heartbeat_packet_new, WpData [8, 9]]))"
  using si_delivers [OF be.byte_streams_axioms logging_host_quiet,
      of "[[2, 0, 0], [15, 0, 0, 0, 0, 2, 8, 9]]" "[WpHeartbeat heartbeat_packet_new, WpData [8, 9]]"
        "(si_new\<lparr>si_accounts := [7 \<mapsto> \<lparr>sia_sid = 7, sia_b = []\<rparr>]\<rparr>, [])" 7 "[]"
        "[2, 0, 0, 15, 0, 0, 0, 0, 2, 8, 9]"]
    heartbeat_encodes data_encodes
  by (simp add: logging_host_run) (simp add: logging_host_def si_new_def)



text \<open>A packet cut within its body is lost to the simple processor: the header is consumed with the
  chunk it came in, only the part of the body stays in the buffer, and nothing of the packet has been
  handled (a data packet cut right after its header may have been handled as an empty one). The next
  chunk is then read as if a packet began in the middle of this one.\<close>

theorem si_cut_packet_loses_header:
  assumes "byte_streams io v" and "quiet_host host"
    and "encodes io (header_serialize io h @ part @ missing) p" and "header_ok type h"
    and "missing \<noteq> []" and "type = packet_data \<longrightarrow> part = []"
    and "si_accounts (ih_get host n) sid = Some \<lparr>sia_sid = sid, sia_b = []\<rparr>"
    and "\<not> si_frame_ready (ih_get host n)" and "\<exists>n'. ih_process host sid (WpData []) n = Inr n'"
  shows "\<exists>n'. process_input io si_ops host sid (header_serialize io h @ part) n =
      Some (Inr (ih_put host (si_set_inpb sid part (ih_get host n)) n')) \<and>
    (n' = n \<or> part = [] \<and> ih_process host sid (WpData []) n = Inr n')"
  using assms by (rule si_split_run)

theorem si_cut_packet_loses_header_witness:
  "\<exists>d log. process_input be_streams si_ops logging_host 7 [2, 0]
      (si_new\<lparr>si_accounts := [7 \<mapsto> \<lparr>sia_sid = 7, sia_b = []\<rparr>]\<rparr>, []) = Some (Inr (d, log)) \<and>
    si_inpb 7 d = Inr [] \<and> WpHeartbeat heartbeat_packet_new \<notin> set log"
proof -
  let ?n = "(si_new\<lparr>si_accounts := [7 \<mapsto> \<lparr>sia_sid = 7, sia_b = []\<rparr>]\<rparr>, []) :: simple_ip \<times> wire_packet list"
  have h: "header_serialize be_streams (hb_header heartbeat_packet_new) = [2, 0]"
    by (simp add: header_serialize_def heartbeat_packet_new_def header_new_def packet_heartbeat_def packet_data_def)
  have "encodes be_streams (header_serialize be_streams (hb_header heartbeat_packet_new) @ [] @ [0])
      (WpHeartbeat heartbeat_packet_new)"
    using heartbeat_encodes by (simp add: h)
  from si_cut_packet_loses_header [OF be.byte_streams_axioms logging_host_quiet this be.heartbeat_new_ok,
      of ?n 7]
  obtain n' where "process_input be_streams si_ops logging_host 7 [2, 0] ?n =
      Some (Inr (ih_put logging_host (si_set_inpb 7 [] (ih_get logging_host ?n)) n'))"
    "n' = ?n \<or> ih_process logging_host 7 (WpData []) ?n = Inr n'"
    by (auto simp: h logging_host_def packet_heartbeat_def packet_data_def si_new_def)
  then show ?thesis
    by (auto simp: logging_host_def si_set_inpb_def si_inpb_def)
qed

text \<open>A frame from the network whose priority is not below the number of priorities of the processor
  makes \<open>process_input\<close> write outside the array of buffers.\<close>

theorem pi_bad_priority_undefined:
  assumes "quiet_host host" and "framed q payload fb" and "q < 16" and "N \<le> q"
    and "pi_idle N sid a" and "pia_tmp a = []"
  shows "process_input io pi_ops host sid (fb @ tail) (ih_put host (d(sid \<mapsto> a)) n) = Some (Inl Undefined)"
proof -
  let ?a = "a\<lparr>pia_tmp := pia_tmp a @ fb @ tail\<rparr>"
  obtain f where f: "fb = pf_header_bytes f @ payload" "drop_bit 4 (pf_b0 f) AND 0x0F = 5"
    "unat (pf_size f) = length payload" "pf_b0 f = pf_b0 (pf_make (int q))"
    using framed_bytes [OF assms(2)] by blast
  have "pf_parse (pia_tmp ?a) = Inr (Some f)"
    using pf_parse_header [OF f(2), of "payload @ tail"] f(1,3) assms(6) by simp
  moreover have "pf_priority f = int q"
    using pf_priority_make [of "int q"] assms(3) f(4) by (simp add: pf_priority_def)
  ultimately have "pi_read_frame sid (d(sid \<mapsto> ?a)) = Inl Undefined"
    using assms(4,5) by (simp add: pi_read_frame_def pi_buffer_def pi_idle_def Let_def)
  then have "ip_read_frame pi_ops sid (ih_get host (ih_put host (d(sid \<mapsto> ?a)) n)) = Inl Undefined"
    by (simp add: pi_ops_def quiet_simps [OF assms(1)])
  then have "ip_frames io pi_ops host sid (ih_put host (d(sid \<mapsto> ?a)) n) = Some (Inl Undefined)"
    by (subst ip_frames.simps) simp
  moreover have "fb @ tail \<noteq> []" using f(1) by (simp add: pf_header_bytes_def)
  ultimately show ?thesis
    using trans [OF pi_process_chunk [OF assms(1,5)]] by blast
qed

theorem pi_bad_priority_undefined_witness:
  "process_input be_streams pi_ops logging_host 7 ([0x52, 0, 0] @ [])
      (ih_put logging_host (Map.empty(7 \<mapsto> \<lparr>pia_sid = 7, pia_buffers = [[], []], pia_current = -1, pia_tmp = []\<rparr>))
        (Map.empty, [])) = Some (Inl Undefined)"
proof (rule pi_bad_priority_undefined [OF logging_host_quiet, where q = 2 and payload = "[]" and N = 2])
  show "framed 2 [] [0x52, 0, 0]" unfolding framed_def by (simp, code_simp)
qed (simp_all add: pi_idle_def numeral_2_eq_2)

end
