(* ===== verification/Handshake.thy ===== *)
theory Handshake
  imports Protocol
begin

text \<open>
  \<open>basic_handshake\<close> and \<open>exclusive_handshake\<close> (include/pfs/netty/patterns/meshnet/basic_handshake.hpp,
  exclusive_handshake.hpp). The node they belong to is a record of operations over its state \<open>'n\<close>, of
  which the cache of the sockets that wait for a response is a part; the callbacks are operations of the
  node too, because the node sets all of them. Node identifiers are of any linearly ordered type, with
  the conversions of \<open>node_idintifier_traits\<close> in the record. The cache is a \<open>std::map\<close>, an association
  list sorted by key.
\<close>

datatype handshake_result = HrUnusable | HrReader | HrWriter

type_synonym hs_cache = "(socket_id \<times> time_point) list"

record ('id, 'n) hs_host =
  hh_cache :: "'n \<Rightarrow> hs_cache"
  hh_set_cache :: "hs_cache \<Rightarrow> 'n \<Rightarrow> 'n"
  hh_id :: "'n \<Rightarrow> 'id"
  hh_behind_nat :: "'n \<Rightarrow> bool"
  hh_stringify :: "'id \<Rightarrow> bytes"
  hh_parse :: "bytes \<Rightarrow> 'id option"
  hh_send_private :: "socket_id \<Rightarrow> int \<Rightarrow> bytes \<Rightarrow> 'n \<Rightarrow> 'n result"
  hh_on_expired :: "socket_id \<Rightarrow> 'n \<Rightarrow> 'n result"
  hh_on_failure :: "socket_id \<Rightarrow> 'n \<Rightarrow> 'n result"
  hh_on_completed :: "'id \<Rightarrow> socket_id \<Rightarrow> handshake_result \<Rightarrow> 'n \<Rightarrow> 'n result"

definition hs_timeout :: int where
  "hs_timeout = seconds 10"

subsection \<open>\<open>basic_handshake\<close>\<close>

definition hs_send ::
  "'i streams \<Rightarrow> ('id, 'n) hs_host \<Rightarrow> time_point \<Rightarrow> socket_id \<Rightarrow> packet_way \<Rightarrow> 'n \<Rightarrow> 'n result" where
  "hs_send io host now sid way n =
     (let pkt = (handshake_packet_new way (hh_behind_nat host n))\<lparr>hp_id := hh_stringify host (hh_id host n)\<rparr>
      in bindr (handshake_packet_serialize io pkt) (\<lambda>out.
           (let n = (if way = WayRequest
                     then hh_set_cache host (om_update sid (now + hs_timeout) (hh_cache host n)) n
                     else n)
            in hh_send_private host sid 0 out n)))"

text \<open>
  The loop over the cache. Its iterator stands on the next element while \<open>_on_expired\<close> runs; a
  callback that erases that element leaves it dangling.
\<close>

fun hs_check_loop ::
  "('id, 'n) hs_host \<Rightarrow> time_point \<Rightarrow> hs_cache \<Rightarrow> 'n \<Rightarrow> 'n result" where
  "hs_check_loop host now [] n = Inr n"
| "hs_check_loop host now ((sid, t) # rest) n =
     (case map_of (hh_cache host n) sid of
        None \<Rightarrow> Inl Undefined
      | Some limit \<Rightarrow>
          (if limit \<le> now then
             bindr (hh_on_expired host sid (hh_set_cache host (AList.delete sid (hh_cache host n)) n))
               (hs_check_loop host now rest)
           else hs_check_loop host now rest n))"

definition hs_check_expired :: "('id, 'n) hs_host \<Rightarrow> time_point \<Rightarrow> 'n \<Rightarrow> 'n result" where
  "hs_check_expired host now n = hs_check_loop host now (hh_cache host n) n"

definition hs_start :: "'i streams \<Rightarrow> ('id, 'n) hs_host \<Rightarrow> time_point \<Rightarrow> socket_id \<Rightarrow> 'n \<Rightarrow> 'n result" where
  "hs_start io host now sid n = hs_send io host now sid WayRequest n"

definition hs_cancel :: "('id, 'n) hs_host \<Rightarrow> socket_id \<Rightarrow> 'n \<Rightarrow> 'n" where
  "hs_cancel host sid n = hh_set_cache host (AList.delete sid (hh_cache host n)) n"

subsection \<open>\<open>exclusive_handshake\<close>\<close>

definition hs_reader_writer :: "('id, 'n) hs_host \<Rightarrow> 'id \<Rightarrow> socket_id \<Rightarrow> 'n \<Rightarrow> 'n result" where
  "hs_reader_writer host i sid n =
     bindr (hh_on_completed host i sid HrReader n) (hh_on_completed host i sid HrWriter)"

definition hs_handshake_ready ::
  "('id :: linorder, 'n) hs_host \<Rightarrow> socket_id \<Rightarrow> 'id \<Rightarrow> bool \<Rightarrow> bool \<Rightarrow> 'n \<Rightarrow> 'n result" where
  "hs_handshake_ready host sid i is_response is_behind_nat n =
     (if is_behind_nat then hs_reader_writer host i sid n
      else if is_response then
        (if hh_id host n < i then hs_reader_writer host i sid n
         else hh_on_completed host i sid HrUnusable n)
      else if i < hh_id host n then hs_reader_writer host i sid n
      else Inr n)"

definition hs_process ::
  "'i streams \<Rightarrow> ('id :: linorder, 'n) hs_host \<Rightarrow> time_point \<Rightarrow> socket_id \<Rightarrow> handshake_packet \<Rightarrow> 'n \<Rightarrow> 'n result" where
  "hs_process io host now sid pkt n =
     (case hh_parse host (hp_id pkt) of
        Some i \<Rightarrow>
          (case map_of (hh_cache host n) sid of
             Some _ \<Rightarrow>
               hs_handshake_ready host sid i (hp_is_response pkt) (hp_is_behind_nat pkt) (hs_cancel host sid n)
           | None \<Rightarrow>
               (if \<not> hp_is_response pkt then
                  bindr (hs_send io host now sid WayResponse n)
                    (hs_handshake_ready host sid i (hp_is_response pkt) (hp_is_behind_nat pkt))
                else Inr n))
      | None \<Rightarrow> hh_on_failure host sid (hs_cancel host sid n))"

definition hs_step :: "('id, 'n) hs_host \<Rightarrow> time_point \<Rightarrow> 'n \<Rightarrow> 'n result" where
  "hs_step host now n = hs_check_expired host now n"

subsection \<open>What the processor does to a node that only records\<close>

text \<open>A peer: its identity, its cache, what it sent and how its handshakes ended.\<close>

record 'id hs_peer =
  pe_id :: 'id
  pe_behind_nat :: bool
  pe_cache :: hs_cache
  pe_sent :: "(socket_id \<times> bytes) list"
  pe_expired :: "socket_id list"
  pe_failed :: "socket_id list"
  pe_completed :: "('id \<times> socket_id \<times> handshake_result) list"

definition peer_host :: "('id \<Rightarrow> bytes) \<Rightarrow> (bytes \<Rightarrow> 'id option) \<Rightarrow> ('id, 'id hs_peer) hs_host" where
  "peer_host str prs =
     \<lparr>hh_cache = pe_cache, hh_set_cache = (\<lambda>c n. n\<lparr>pe_cache := c\<rparr>), hh_id = pe_id,
      hh_behind_nat = pe_behind_nat, hh_stringify = str, hh_parse = prs,
      hh_send_private = (\<lambda>sid pr out n. Inr (n\<lparr>pe_sent := pe_sent n @ [(sid, out)]\<rparr>)),
      hh_on_expired = (\<lambda>sid n. Inr (n\<lparr>pe_expired := pe_expired n @ [sid]\<rparr>)),
      hh_on_failure = (\<lambda>sid n. Inr (n\<lparr>pe_failed := pe_failed n @ [sid]\<rparr>)),
      hh_on_completed = (\<lambda>i sid r n. Inr (n\<lparr>pe_completed := pe_completed n @ [(i, sid, r)]\<rparr>))\<rparr>"

text \<open>A peer reads the bytes that arrived on a socket as one handshake packet and processes it.\<close>

definition peer_receive ::
  "'i streams \<Rightarrow> ('id :: linorder, 'n) hs_host \<Rightarrow> time_point \<Rightarrow> socket_id \<Rightarrow> bytes \<Rightarrow> 'n \<Rightarrow> 'n result" where
  "peer_receive io host now sid w n =
     hs_process io host now sid
       (fst (case header_read io (in_open io w) of (h, s) \<Rightarrow> handshake_packet_read io h s)) n"

text \<open>The outcome of \<open>handshake_ready\<close> as the sequence of completions it reports.\<close>

definition ready_outcome :: "'id :: linorder \<Rightarrow> 'id \<Rightarrow> bool \<Rightarrow> bool \<Rightarrow> handshake_result list" where
  "ready_outcome self i is_response is_behind_nat =
     (if is_behind_nat then [HrReader, HrWriter]
      else if is_response then (if self < i then [HrReader, HrWriter] else [HrUnusable])
      else if i < self then [HrReader, HrWriter] else [])"

lemma peer_ready:
  "hs_handshake_ready (peer_host str prs) sid i resp bn n =
   Inr (n\<lparr>pe_completed := pe_completed n @ map (\<lambda>r. (i, sid, r)) (ready_outcome (pe_id n) i resp bn)\<rparr>)"
  by (simp add: hs_handshake_ready_def hs_reader_writer_def peer_host_def ready_outcome_def)

text \<open>An identifier as the traits convert it: it fits into a handshake packet and reads back.\<close>

definition id_ok :: "('id \<Rightarrow> bytes) \<Rightarrow> (bytes \<Rightarrow> 'id option) \<Rightarrow> 'id \<Rightarrow> bool" where
  "id_ok str prs i \<longleftrightarrow> str i \<noteq> [] \<and> length (str i) < 256 \<and> prs (str i) = Some i"

context byte_streams
begin

definition hs_wire :: "('id \<Rightarrow> bytes) \<Rightarrow> packet_way \<Rightarrow> bool \<Rightarrow> 'id \<Rightarrow> bytes" where
  "hs_wire str way bn i =
     header_serialize io (hp_header (handshake_packet_new way bn)) @ [of_nat (length (str i))] @ str i"

lemma peer_send:
  assumes "id_ok str prs (pe_id n)"
  shows "hs_send io (peer_host str prs) now sid way n =
    Inr (n\<lparr>pe_cache := (if way = WayRequest then om_update sid (now + hs_timeout) (pe_cache n) else pe_cache n),
           pe_sent := pe_sent n @ [(sid, hs_wire str way (pe_behind_nat n) (pe_id n))]\<rparr>)"
proof -
  let ?p = "(handshake_packet_new way (pe_behind_nat n))\<lparr>hp_id := str (pe_id n)\<rparr>"
  have "handshake_packet_serialize io ?p = Inr (hs_wire str way (pe_behind_nat n) (pe_id n))"
    using assms handshake_serialize [of ?p] by (simp add: id_ok_def hs_wire_def)
  then show ?thesis by (simp add: hs_send_def peer_host_def Let_def)
qed

lemma peer_read:
  assumes "id_ok str prs i"
  shows "fst (case header_read io (in_open io (hs_wire str way bn i)) of (h, s) \<Rightarrow> handshake_packet_read io h s) =
    (handshake_packet_new way bn)\<lparr>hp_id := str i\<rparr>"
proof -
  let ?h = "hp_header (handshake_packet_new way bn)"
  have l: "length (str i) < 256" using assms by (simp add: id_ok_def)
  have "reads v (\<lambda>s. case header_read io s of (h, s) \<Rightarrow> handshake_packet_read io h s)
      (hs_wire str way bn i) \<lparr>hp_header = ?h, hp_id = str i\<rparr>"
    unfolding hs_wire_def
    by (rule header_then [where rd = "handshake_packet_read io", OF handshake_new_fields(1) handshake_packet_reads [OF l]])
  from reads_open [OF this, of "[]"] have "fst (case header_read io (in_open io (hs_wire str way bn i)) of
      (h, s) \<Rightarrow> handshake_packet_read io h s) = \<lparr>hp_header = ?h, hp_id = str i\<rparr>"
    by auto
  then show ?thesis by (cases "handshake_packet_new way bn") simp
qed

lemma peer_receive_request:
  assumes "id_ok str prs i" and "id_ok str prs (pe_id n)" and "map_of (pe_cache n) sid = None"
  shows "peer_receive io (peer_host str prs) now sid (hs_wire str WayRequest bn i) n =
    Inr (n\<lparr>pe_sent := pe_sent n @ [(sid, hs_wire str WayResponse (pe_behind_nat n) (pe_id n))],
           pe_completed := pe_completed n @ map (\<lambda>r. (i, sid, r)) (ready_outcome (pe_id n) i False bn)\<rparr>)"
proof -
  have "hh_parse (peer_host str prs) (str i) = Some i" "hh_cache (peer_host str prs) n = pe_cache n"
    using assms(1) by (simp_all add: peer_host_def id_ok_def)
  moreover have "hp_is_response ((handshake_packet_new WayRequest bn)\<lparr>hp_id := str i\<rparr>) = False"
    "hp_is_behind_nat ((handshake_packet_new WayRequest bn)\<lparr>hp_id := str i\<rparr>) = bn"
    using handshake_new_fields(2,3) [of WayRequest bn] by (simp_all add: hp_is_response_def hp_is_behind_nat_def)
  ultimately show ?thesis
    using assms(3) unfolding peer_receive_def peer_read [OF assms(1)] hs_process_def
    by (simp add: peer_send [OF assms(2)] peer_ready)
qed

lemma peer_receive_response:
  assumes "id_ok str prs i" and "map_of (pe_cache n) sid = Some t"
  shows "peer_receive io (peer_host str prs) now sid (hs_wire str WayResponse bn i) n =
    Inr (n\<lparr>pe_cache := AList.delete sid (pe_cache n),
           pe_completed := pe_completed n @ map (\<lambda>r. (i, sid, r)) (ready_outcome (pe_id n) i True bn)\<rparr>)"
proof -
  have "hh_parse (peer_host str prs) (str i) = Some i" "hh_cache (peer_host str prs) n = pe_cache n"
    using assms(1) by (simp_all add: peer_host_def id_ok_def)
  moreover have "hp_is_response ((handshake_packet_new WayResponse bn)\<lparr>hp_id := str i\<rparr>) = True"
    "hp_is_behind_nat ((handshake_packet_new WayResponse bn)\<lparr>hp_id := str i\<rparr>) = bn"
    using handshake_new_fields(2,3) [of WayResponse bn] by (simp_all add: hp_is_response_def hp_is_behind_nat_def)
  ultimately show ?thesis
    using assms(2) unfolding peer_receive_def peer_read [OF assms(1)] hs_process_def
    by (simp add: peer_ready hs_cancel_def) (simp add: peer_host_def)
qed

end

subsection \<open>A complete exchange\<close>

text \<open>Peer \<open>a\<close> starts a handshake on its socket \<open>sa\<close>; peer \<open>b\<close> gets the request on its socket \<open>sb\<close>
  at time \<open>t1\<close>, and \<open>a\<close> gets the response at time \<open>t2\<close>.\<close>

definition hs_exchange ::
  "'i streams \<Rightarrow> ('id :: linorder, 'id hs_peer) hs_host \<Rightarrow> time_point \<times> time_point \<times> time_point \<Rightarrow>
     socket_id \<Rightarrow> socket_id \<Rightarrow> 'id hs_peer \<Rightarrow> 'id hs_peer \<Rightarrow> ('id hs_peer \<times> 'id hs_peer) result" where
  "hs_exchange io host ts sa sb a b =
     (case ts of (t0, t1, t2) \<Rightarrow>
        bindr (hs_start io host t0 sa a) (\<lambda>a1.
        bindr (peer_receive io host t1 sb (snd (last (pe_sent a1))) b) (\<lambda>b1.
        bindr (peer_receive io host t2 sa (snd (last (pe_sent b1))) a1) (\<lambda>a2. Inr (a2, b1)))))"

lemma hs_exchange_result:
  assumes B: "byte_streams io v" and ids: "id_ok str prs (pe_id a)" "id_ok str prs (pe_id b)"
    and ca: "sorted (map fst (pe_cache a))" "map_of (pe_cache a) sa = None" and cb: "map_of (pe_cache b) sb = None"
  shows "\<exists>a' b'. hs_exchange io (peer_host str prs) ts sa sb a b = Inr (a', b') \<and>
    pe_id a' = pe_id a \<and> pe_id b' = pe_id b \<and> pe_behind_nat a' = pe_behind_nat a \<and>
    pe_behind_nat b' = pe_behind_nat b \<and>
    map_of (pe_cache a') = map_of (pe_cache a) \<and> pe_cache b' = pe_cache b \<and>
    pe_completed a' = pe_completed a @
      map (\<lambda>r. (pe_id b, sa, r)) (ready_outcome (pe_id a) (pe_id b) True (pe_behind_nat b)) \<and>
    pe_completed b' = pe_completed b @
      map (\<lambda>r. (pe_id a, sb, r)) (ready_outcome (pe_id b) (pe_id a) False (pe_behind_nat a))"
proof -
  obtain t0 t1 t2 where ts: "ts = (t0, t1, t2)" by (cases ts)
  let ?req = "byte_streams.hs_wire io str WayRequest (pe_behind_nat a) (pe_id a)"
  let ?rsp = "byte_streams.hs_wire io str WayResponse (pe_behind_nat b) (pe_id b)"
  define a1 where "a1 = a\<lparr>pe_cache := om_update sa (t0 + hs_timeout) (pe_cache a), pe_sent := pe_sent a @ [(sa, ?req)]\<rparr>"
  have a1: "hs_start io (peer_host str prs) t0 sa a = Inr a1"
    by (simp add: hs_start_def byte_streams.peer_send [OF B ids(1)] a1_def)
  define b1 where "b1 = b\<lparr>pe_sent := pe_sent b @ [(sb, ?rsp)],
      pe_completed := pe_completed b @ map (\<lambda>r. (pe_id a, sb, r)) (ready_outcome (pe_id b) (pe_id a) False (pe_behind_nat a))\<rparr>"
  have b1: "peer_receive io (peer_host str prs) t1 sb ?req b = Inr b1"
    by (simp add: byte_streams.peer_receive_request [OF B ids cb] b1_def)
  have "map_of (pe_cache a1) sa = Some (t0 + hs_timeout)"
    using ca(1) by (simp add: a1_def map_of_om_update)
  from byte_streams.peer_receive_response [OF B ids(2) this]
  have a2: "peer_receive io (peer_host str prs) t2 sa ?rsp a1 = Inr (a1\<lparr>pe_cache := AList.delete sa (pe_cache a1),
      pe_completed := pe_completed a1 @
        map (\<lambda>r. (pe_id b, sa, r)) (ready_outcome (pe_id a1) (pe_id b) True (pe_behind_nat b))\<rparr>)" .
  have "map_of (AList.delete sa (pe_cache a1)) = map_of (pe_cache a)"
    using ca by (auto simp: a1_def map_of_delete_fun map_of_om_update fun_eq_iff)
  with a1 b1 a2 show ?thesis
    by (simp add: hs_exchange_def ts) (simp add: a1_def b1_def)
qed

subsection \<open>Properties\<close>

definition fresh_peer :: "'id \<Rightarrow> bool \<Rightarrow> 'id hs_peer" where
  "fresh_peer i bn = \<lparr>pe_id = i, pe_behind_nat = bn, pe_cache = [], pe_sent = [], pe_expired = [], pe_failed = [],
     pe_completed = []\<rparr>"

text \<open>Two exchanges at once: one over a connection that peer \<open>a\<close> made, with its socket \<open>sa\<close> and the socket \<open>sb\<close> of \<open>b\<close>, and one
  over a connection that \<open>b\<close> made, with its socket \<open>sb'\<close> and the socket \<open>sa'\<close> of \<open>a\<close>. Each has three steps: the request is sent,
  the request arrives and is answered, the response arrives. A packet is what was sent last on the socket at the other end.\<close>

definition last_on :: "socket_id \<Rightarrow> 'id hs_peer \<Rightarrow> bytes" where
  "last_on sid p = snd (last (filter (\<lambda>x. fst x = sid) (pe_sent p)))"

definition exchange_step ::
  "'i streams \<Rightarrow> ('id :: linorder, 'id hs_peer) hs_host \<Rightarrow> time_point \<Rightarrow> nat \<Rightarrow> socket_id \<Rightarrow> socket_id \<Rightarrow>
     'id hs_peer \<Rightarrow> 'id hs_peer \<Rightarrow> ('id hs_peer \<times> 'id hs_peer) result" where
  "exchange_step io host now k s s' x y =
     (if k = 0 then mapr (\<lambda>x. (x, y)) (hs_start io host now s x)
      else if k = 1 then mapr (\<lambda>y. (x, y)) (peer_receive io host now s' (last_on s x) y)
      else mapr (\<lambda>x. (x, y)) (peer_receive io host now s (last_on s' y) x))"

text \<open>A schedule says when the next step is made and of which exchange, that of \<open>a\<close> (true) or that of \<open>b\<close>.\<close>

fun exchanges_run ::
  "'i streams \<Rightarrow> ('id :: linorder, 'id hs_peer) hs_host \<Rightarrow> socket_id \<times> socket_id \<Rightarrow> socket_id \<times> socket_id \<Rightarrow>
     (time_point \<times> bool) list \<Rightarrow> nat \<Rightarrow> nat \<Rightarrow> 'id hs_peer \<Rightarrow> 'id hs_peer \<Rightarrow> ('id hs_peer \<times> 'id hs_peer) result" where
  "exchanges_run io host (sa, sb) (sa', sb') [] k k' a b = Inr (a, b)"
| "exchanges_run io host (sa, sb) (sa', sb') ((now, of_a) # xs) k k' a b =
     (if of_a
      then bindr (exchange_step io host now k sa sb a b) (\<lambda>(a, b). exchanges_run io host (sa, sb) (sa', sb') xs (Suc k) k' a b)
      else bindr (exchange_step io host now k' sb' sa' b a) (\<lambda>(b, a). exchanges_run io host (sa, sb) (sa', sb') xs k (Suc k') a b))"

text \<open>The two peers when \<open>k\<close> steps of the one exchange and \<open>k'\<close> of the other were made.\<close>

definition may_wait :: "socket_id \<Rightarrow> nat \<Rightarrow> hs_cache \<Rightarrow> bool" where
  "may_wait sid k c \<longleftrightarrow> (if k = 1 \<or> k = 2 then \<exists>t. c = [(sid, t)] else c = [])"

definition exchanging ::
  "'i streams \<Rightarrow> ('id :: linorder \<Rightarrow> bytes) \<Rightarrow> 'id \<Rightarrow> 'id \<Rightarrow> socket_id \<times> socket_id \<Rightarrow> socket_id \<times> socket_id \<Rightarrow>
     nat \<Rightarrow> nat \<Rightarrow> 'id hs_peer \<Rightarrow> 'id hs_peer \<Rightarrow> bool" where
  "exchanging io str i j c c' k k' a b \<longleftrightarrow> (case (c, c') of ((sa, sb), (sa', sb')) \<Rightarrow>
     pe_id a = i \<and> pe_id b = j \<and> \<not> pe_behind_nat a \<and> \<not> pe_behind_nat b \<and>
     may_wait sa k (pe_cache a) \<and> may_wait sb' k' (pe_cache b) \<and>
     (0 < k \<longrightarrow> last_on sa a = byte_streams.hs_wire io str WayRequest False i) \<and>
     (1 < k \<longrightarrow> last_on sb b = byte_streams.hs_wire io str WayResponse False j) \<and>
     (0 < k' \<longrightarrow> last_on sb' b = byte_streams.hs_wire io str WayRequest False j) \<and>
     (1 < k' \<longrightarrow> last_on sa' a = byte_streams.hs_wire io str WayResponse False i) \<and>
     pe_completed a = (if 2 < k then [(j, sa, HrReader), (j, sa, HrWriter)] else []) \<and>
     pe_completed b \<in> (let u = if 2 < k' then [(i, sb', HrUnusable)] else [];
         r = if 1 < k then [(i, sb, HrReader), (i, sb, HrWriter)] else [] in {u @ r, r @ u}))"

lemma less_3_cases: "(k :: nat) < 3 \<Longrightarrow> k = 0 \<or> k = 1 \<or> k = 2"
  by auto

lemma exchange_step_a:
  assumes B: "byte_streams io v" and ids: "id_ok str prs i" "id_ok str prs j" and ij: "i < j"
    and s: "sa \<noteq> sa'" "sb \<noteq> sb'" and e: "exchanging io str i j (sa, sb) (sa', sb') k k' a b" and k: "k < 3"
  shows "\<exists>a' b'. exchange_step io (peer_host str prs) now k sa sb a b = Inr (a', b') \<and>
    exchanging io str i j (sa, sb) (sa', sb') (Suc k) k' a' b'"
  using less_3_cases [OF k]
proof (elim disjE)
  assume k: "k = 0"
  with e show ?thesis using ids s
    by (simp add: exchange_step_def hs_start_def byte_streams.peer_send [OF B] exchanging_def may_wait_def last_on_def)
next
  assume k: "k = 1"
  have r: "peer_receive io (peer_host str prs) now sb (byte_streams.hs_wire io str WayRequest False i) b =
    Inr (b\<lparr>pe_sent := pe_sent b @ [(sb, byte_streams.hs_wire io str WayResponse False j)],
      pe_completed := pe_completed b @ [(i, sb, HrReader), (i, sb, HrWriter)]\<rparr>)"
    using byte_streams.peer_receive_request [OF B ids(1), of b sb now False] e ids ij s
    by (auto simp: exchanging_def may_wait_def ready_outcome_def split: if_splits)
  with k e s show ?thesis
    by (auto simp: exchange_step_def exchanging_def may_wait_def last_on_def Let_def split: if_splits)
next
  assume k: "k = 2"
  then obtain t where c: "pe_cache a = [(sa, t)]" using e by (auto simp: exchanging_def may_wait_def)
  then have r: "peer_receive io (peer_host str prs) now sa (byte_streams.hs_wire io str WayResponse False j) a =
    Inr (a\<lparr>pe_cache := [], pe_completed := pe_completed a @ [(j, sa, HrReader), (j, sa, HrWriter)]\<rparr>)"
    using byte_streams.peer_receive_response [OF B ids(2), of a sa t now False] e ij
    by (simp add: exchanging_def ready_outcome_def)
  with k e s show ?thesis
    by (auto simp: exchange_step_def exchanging_def may_wait_def last_on_def split: if_splits)
qed

lemma exchange_step_b:
  assumes B: "byte_streams io v" and ids: "id_ok str prs i" "id_ok str prs j" and ij: "i < j"
    and s: "sa \<noteq> sa'" "sb \<noteq> sb'" and e: "exchanging io str i j (sa, sb) (sa', sb') k k' a b" and k: "k' < 3"
  shows "\<exists>a' b'. exchange_step io (peer_host str prs) now k' sb' sa' b a = Inr (b', a') \<and>
    exchanging io str i j (sa, sb) (sa', sb') k (Suc k') a' b'"
  using less_3_cases [OF k]
proof (elim disjE)
  assume k: "k' = 0"
  with e show ?thesis using ids s
    by (simp add: exchange_step_def hs_start_def byte_streams.peer_send [OF B] exchanging_def may_wait_def last_on_def)
next
  assume k: "k' = 1"
  have r: "peer_receive io (peer_host str prs) now sa' (byte_streams.hs_wire io str WayRequest False j) a =
    Inr (a\<lparr>pe_sent := pe_sent a @ [(sa', byte_streams.hs_wire io str WayResponse False i)]\<rparr>)"
    using byte_streams.peer_receive_request [OF B ids(2), of a sa' now False] e ids ij s
    by (cases a) (auto simp: exchanging_def may_wait_def ready_outcome_def split: if_splits)
  with k e s show ?thesis
    by (auto simp: exchange_step_def exchanging_def may_wait_def last_on_def split: if_splits)
next
  assume k: "k' = 2"
  then obtain t where c: "pe_cache b = [(sb', t)]" using e by (auto simp: exchanging_def may_wait_def)
  then have r: "peer_receive io (peer_host str prs) now sb' (byte_streams.hs_wire io str WayResponse False i) b =
    Inr (b\<lparr>pe_cache := [], pe_completed := pe_completed b @ [(i, sb', HrUnusable)]\<rparr>)"
    using byte_streams.peer_receive_response [OF B ids(1), of b sb' t now False] e ij
    by (simp add: exchanging_def ready_outcome_def)
  with k e s show ?thesis
    by (auto simp: exchange_step_def exchanging_def may_wait_def last_on_def Let_def split: if_splits)
qed

lemma exchanges_run_ends:
  assumes "byte_streams io v" and "id_ok str prs i" and "id_ok str prs j" and "i < j" and "sa \<noteq> sa'" and "sb \<noteq> sb'"
  shows "exchanging io str i j (sa, sb) (sa', sb') k k' a b \<Longrightarrow>
    k + length (filter snd xs) = 3 \<Longrightarrow> k' + length (filter (Not \<circ> snd) xs) = 3 \<Longrightarrow>
    \<exists>a' b'. exchanges_run io (peer_host str prs) (sa, sb) (sa', sb') xs k k' a b = Inr (a', b') \<and>
      exchanging io str i j (sa, sb) (sa', sb') 3 3 a' b'"
proof (induction xs arbitrary: k k' a b)
  case (Cons x xs)
  obtain now of_a where x: "x = (now, of_a)" by (cases x)
  show ?case
  proof (cases of_a)
    case True
    with x Cons.prems(2) have "k < 3" by simp
    from exchange_step_a [OF assms Cons.prems(1) this, of now] obtain a1 b1 where
      "exchange_step io (peer_host str prs) now k sa sb a b = Inr (a1, b1)"
      "exchanging io str i j (sa, sb) (sa', sb') (Suc k) k' a1 b1" by blast
    with Cons.IH [OF this(2)] Cons.prems(2,3) x True show ?thesis by simp
  next
    case False
    with x Cons.prems(3) have "k' < 3" by simp
    from exchange_step_b [OF assms Cons.prems(1) this, of now] obtain a1 b1 where
      "exchange_step io (peer_host str prs) now k' sb' sa' b a = Inr (b1, a1)"
      "exchanging io str i j (sa, sb) (sa', sb') k (Suc k') a1 b1" by blast
    with Cons.IH [OF this(2)] Cons.prems(2,3) x False show ?thesis by simp
  qed
qed simp

text \<open>C24. The exclusive handshake agrees: when two nodes with different identifiers, neither of them
  behind NAT, connect to each other, each by a connection of its own, then in whatever order the steps of the two
  exchanges are made (one after the other in either order, or with requests that cross), if no packet is lost and none of
  the handshakes expires, both exchanges complete, and both
  nodes take the same one of the two connections for reading and writing: the one that the node with
  the smaller identifier initiated. The initiator of the other one excludes it, and its acceptor reports
  nothing on it; no socket waits for a response any more. (The nodes are those that record what the processor calls;
  \<open>Node\<close> has the handlers.)\<close>

theorem exclusive_handshake_agrees:
  assumes "byte_streams io v" and "id_ok str prs i" and "id_ok str prs j" and "i < j" and "sa \<noteq> sa'" and "sb \<noteq> sb'"
    and "length (filter snd schedule) = 3" and "length (filter (Not \<circ> snd) schedule) = 3"
  shows "\<exists>a b. exchanges_run io (peer_host str prs) (sa, sb) (sa', sb') schedule 0 0 (fresh_peer i False) (fresh_peer j False) = Inr (a, b) \<and>
    pe_completed a = [(j, sa, HrReader), (j, sa, HrWriter)] \<and>
    pe_completed b \<in> {[(i, sb, HrReader), (i, sb, HrWriter), (i, sb', HrUnusable)],
      [(i, sb', HrUnusable), (i, sb, HrReader), (i, sb, HrWriter)]} \<and>
    pe_cache a = [] \<and> pe_cache b = []"
proof -
  have "exchanging io str i j (sa, sb) (sa', sb') 0 0 (fresh_peer i False) (fresh_peer j False)"
    by (simp add: exchanging_def fresh_peer_def may_wait_def)
  from exchanges_run_ends [OF assms(1-6) this, of schedule] assms(7,8) obtain a b where
    "exchanges_run io (peer_host str prs) (sa, sb) (sa', sb') schedule 0 0 (fresh_peer i False) (fresh_peer j False) = Inr (a, b)"
    "exchanging io str i j (sa, sb) (sa', sb') 3 3 a b" by auto
  then show ?thesis by (auto simp: exchanging_def may_wait_def Let_def)
qed

text \<open>An identifier of one byte, for the examples.\<close>

definition byte_id :: "int \<Rightarrow> bytes" where "byte_id i = [word_of_int i]"
definition byte_id_parse :: "bytes \<Rightarrow> int option" where
  "byte_id_parse w = (case w of [b] \<Rightarrow> Some (uint b) | _ \<Rightarrow> None)"

lemma byte_id_ok: "0 \<le> i \<Longrightarrow> i < 256 \<Longrightarrow> id_ok byte_id byte_id_parse i"
  by (simp add: id_ok_def byte_id_def byte_id_parse_def uint_word_of_int)

text \<open>Requests that cross.\<close>

theorem exclusive_handshake_agrees_witness:
  "\<exists>a b. exchanges_run be_streams (peer_host byte_id byte_id_parse) (3, 4) (9, 8)
      [(0, True), (1, False), (2, True), (3, False), (4, False), (5, True)] 0 0 (fresh_peer 1 False) (fresh_peer 2 False) = Inr (a, b) \<and>
    pe_completed a = [(2, 3, HrReader), (2, 3, HrWriter)] \<and>
    pe_completed b \<in> {[(1, 4, HrReader), (1, 4, HrWriter), (1, 8, HrUnusable)],
      [(1, 8, HrUnusable), (1, 4, HrReader), (1, 4, HrWriter)]} \<and>
    pe_cache a = [] \<and> pe_cache b = []"
  by (rule exclusive_handshake_agrees [OF be.byte_streams_axioms byte_id_ok byte_id_ok]) simp_all

text \<open>The exclusive handshake disagrees when the initiator alone is behind NAT and has the greater
  identifier: the acceptor takes the connection for reading and writing, while the initiator excludes it
  and will close it, although it is the only connection there can be.\<close>

theorem nat_handshake_disagrees:
  assumes "byte_streams io v" and "id_ok str prs i" and "id_ok str prs j" and "j < i"
  shows "\<exists>a b. hs_exchange io (peer_host str prs) ts sa sb (fresh_peer i True) (fresh_peer j False) = Inr (a, b) \<and>
    pe_completed a = [(j, sa, HrUnusable)] \<and> pe_completed b = [(i, sb, HrReader), (i, sb, HrWriter)]"
proof -
  from assms(4) have "\<not> i < j" by simp
  then show ?thesis
    using hs_exchange_result [OF assms(1), of str prs "fresh_peer i True" "fresh_peer j False" sa sb ts] assms(2-3)
    by (auto simp: fresh_peer_def ready_outcome_def)
qed

theorem nat_handshake_disagrees_witness:
  "\<exists>a b. hs_exchange be_streams (peer_host byte_id byte_id_parse) (0, 1, 2) 3 4 (fresh_peer 2 True) (fresh_peer 1 False) =
      Inr (a, b) \<and>
    pe_completed a = [(1, 3, HrUnusable)] \<and> pe_completed b = [(2, 4, HrReader), (2, 4, HrWriter)]"
  by (rule nat_handshake_disagrees [OF be.byte_streams_axioms byte_id_ok byte_id_ok]) simp_all

end
