(* ===== verification/Heartbeat.thy ===== *)
theory Heartbeat
  imports Protocol ConnectingPool
begin

text \<open>
  \<open>simple_heartbeat\<close> (include/pfs/netty/patterns/meshnet/simple_heartbeat.hpp): the times at which a
  socket is due for a heartbeat packet, and the time limits by which one must arrive from it. \<open>_q\<close> is a
  \<open>std::set\<close> ordered by the time alone, so \<open>insert\<close> drops an item whose time is there already: it is
  \<open>dc_insert\<close>. \<open>_limits\<close> is a \<open>std::unordered_map\<close>, an association list in its order of iteration.

  The node is a record of operations over its state \<open>'n\<close>, of which the heartbeat state is a part. The
  readings of the clock are arguments: \<open>add\<close> and \<open>step\<close> read it once for every \<open>enqueue\<close>.
\<close>

record hb_state =
  hb_interval :: int
  hb_timeout :: int
  hb_q :: "(time_point \<times> socket_id) list"
  hb_limits :: "(socket_id \<times> time_point) list"

record 'n hb_host =
  bh_get :: "'n \<Rightarrow> hb_state"
  bh_put :: "hb_state \<Rightarrow> 'n \<Rightarrow> 'n"
  bh_send_private :: "socket_id \<Rightarrow> int \<Rightarrow> bytes \<Rightarrow> 'n \<Rightarrow> 'n result"
  bh_on_expired :: "socket_id \<Rightarrow> 'n \<Rightarrow> 'n result"

definition hb_new :: "int \<Rightarrow> hb_state" where
  "hb_new interval = \<lparr>hb_interval = interval, hb_timeout = seconds 15, hb_q = [], hb_limits = []\<rparr>"

definition hb_enqueue :: "time_point \<Rightarrow> socket_id \<Rightarrow> hb_state \<Rightarrow> hb_state" where
  "hb_enqueue now sid st = st\<lparr>hb_q := dc_insert (now + hb_interval st) sid (hb_q st)\<rparr>"

definition hb_remove :: "socket_id \<Rightarrow> hb_state \<Rightarrow> hb_state" where
  "hb_remove sid st =
     st\<lparr>hb_q := filter (\<lambda>x. snd x \<noteq> sid) (hb_q st), hb_limits := AList.delete sid (hb_limits st)\<rparr>"

definition hb_add :: "time_point \<Rightarrow> socket_id \<Rightarrow> hb_state \<Rightarrow> hb_state" where
  "hb_add now sid st = hb_enqueue now sid (hb_remove sid st)"

definition hb_process :: "time_point \<Rightarrow> socket_id \<Rightarrow> hb_state \<Rightarrow> hb_state" where
  "hb_process now sid st = st\<lparr>hb_limits := AList.update sid (now + hb_timeout st) (hb_limits st)\<rparr>"

subsection \<open>\<open>step\<close>\<close>

text \<open>The items that are due, each sent a packet and erased; the sockets are collected in \<open>_tmp\<close>.\<close>

fun hb_send_loop ::
  "'n hb_host \<Rightarrow> time_point \<Rightarrow> bytes \<Rightarrow> (time_point \<times> socket_id) list \<Rightarrow> 'n \<Rightarrow> (socket_id list \<times> 'n) result" where
  "hb_send_loop host now out [] n = Inr ([], n)"
| "hb_send_loop host now out ((t, sid) # q) n =
     (if t \<le> now then
        bindr (bh_send_private host sid 0 out n) (\<lambda>n1.
        bindr (hb_send_loop host now out q (bh_put host ((bh_get host n1)\<lparr>hb_q := q\<rparr>) n1)) (\<lambda>(tmp, n2).
          Inr (sid # tmp, n2)))
      else Inr ([], n))"

fun hb_requeue :: "(nat \<Rightarrow> time_point) \<Rightarrow> nat \<Rightarrow> socket_id list \<Rightarrow> hb_state \<Rightarrow> hb_state" where
  "hb_requeue clock i [] st = st"
| "hb_requeue clock i (sid # sids) st = hb_requeue clock (Suc i) sids (hb_enqueue (clock i) sid st)"

text \<open>The loop over the limits. The iterator stands on the next element while \<open>remove\<close> and \<open>_on_expired\<close>
  run; a callback that erases that element leaves it dangling.\<close>

fun hb_expire_loop ::
  "'n hb_host \<Rightarrow> time_point \<Rightarrow> (socket_id \<times> time_point) list \<Rightarrow> 'n \<Rightarrow> 'n result" where
  "hb_expire_loop host now [] n = Inr n"
| "hb_expire_loop host now ((sid, t) # rest) n =
     (case map_of (hb_limits (bh_get host n)) sid of
        None \<Rightarrow> Inl Undefined
      | Some limit \<Rightarrow>
          (if limit \<le> now then
             bindr (bh_on_expired host sid (bh_put host (hb_remove sid (bh_get host n)) n))
               (hb_expire_loop host now rest)
           else hb_expire_loop host now rest n))"

text \<open>\<open>clock 0\<close> is the first reading of the clock, the next ones are those of \<open>enqueue\<close>, and \<open>now2\<close> is the
  one before the loop over the limits.\<close>

definition hb_step ::
  "'i streams \<Rightarrow> 'n hb_host \<Rightarrow> (nat \<Rightarrow> time_point) \<Rightarrow> time_point \<Rightarrow> 'n \<Rightarrow> 'n result" where
  "hb_step io host clock now2 n =
     bindr
       (if hb_q (bh_get host n) = [] then Inr n
        else bindr (hb_send_loop host (clock 0) (heartbeat_packet_serialize io heartbeat_packet_new)
                     (hb_q (bh_get host n)) n)
               (\<lambda>(tmp, n1). Inr (bh_put host (hb_requeue clock 1 tmp (bh_get host n1)) n1)))
       (\<lambda>n1. hb_expire_loop host now2 (hb_limits (bh_get host n1)) n1)"

subsection \<open>A node that records\<close>

definition hb_recorder :: "(hb_state \<times> (socket_id \<times> bytes) list \<times> socket_id list) hb_host" where
  "hb_recorder =
     \<lparr>bh_get = fst, bh_put = (\<lambda>st n. (st, snd n)),
      bh_send_private = (\<lambda>sid pr out (st, sent, expired). Inr (st, sent @ [(sid, out)], expired)),
      bh_on_expired = (\<lambda>sid (st, sent, expired). Inr (st, sent, expired @ [sid]))\<rparr>"

lemma hb_recorder_view: "bh_get hb_recorder n = fst n" "bh_put hb_recorder st n = (st, snd n)"
  by (simp_all add: hb_recorder_def)

lemma hb_recorder_send:
  "hb_send_loop hb_recorder now out q (st\<lparr>hb_q := q\<rparr>, sent, expired) =
   Inr (map snd (takeWhile (\<lambda>x. fst x \<le> now) q),
        st\<lparr>hb_q := dropWhile (\<lambda>x. fst x \<le> now) q\<rparr>,
        sent @ map (\<lambda>x. (snd x, out)) (takeWhile (\<lambda>x. fst x \<le> now) q), expired)"
proof (induction q arbitrary: sent)
  case Nil
  show ?case by simp
next
  case (Cons x q)
  obtain t sid where x: "x = (t, sid)" by (cases x)
  show ?case
    using Cons [of "sent @ [(sid, out)]"] by (simp add: x hb_recorder_def)
qed

lemma hb_requeue_new:
  assumes "\<forall>j < length sids. clock (i + j) + hb_interval st \<notin> fst ` set (hb_q st)"
    and "inj_on clock {i..<i + length sids}" and "dc_inv (hb_q st)"
  shows "set (hb_q (hb_requeue clock i sids st)) =
      set (hb_q st) \<union> {(clock (i + j) + hb_interval st, sids ! j) | j. j < length sids} \<and>
    dc_inv (hb_q (hb_requeue clock i sids st)) \<and> hb_limits (hb_requeue clock i sids st) = hb_limits st \<and>
    hb_interval (hb_requeue clock i sids st) = hb_interval st"
  using assms
proof (induction sids arbitrary: i st)
  case Nil
  then show ?case by simp
next
  case (Cons sid sids)
  let ?st = "hb_enqueue (clock i) sid st"
  have i: "hb_interval ?st = hb_interval st" "hb_limits ?st = hb_limits st" by (simp_all add: hb_enqueue_def)
  have new: "clock i + hb_interval st \<notin> fst ` set (hb_q st)" using Cons.prems(1) by force
  then have q: "set (hb_q ?st) = insert (clock i + hb_interval st, sid) (set (hb_q st))"
    by (simp add: hb_enqueue_def dc_insert_new)
  have "clock (Suc i + j) + hb_interval ?st \<notin> fst ` set (hb_q ?st)" if j: "j < length sids" for j
  proof -
    have "clock (Suc i + j) \<noteq> clock i"
      using inj_onD [OF Cons.prems(2), of "Suc i + j" i] j by auto
    moreover have "clock (Suc i + j) + hb_interval st \<notin> fst ` set (hb_q st)"
      using Cons.prems(1) j by (metis Suc_less_eq add_Suc_shift length_Cons)
    ultimately show ?thesis by (simp add: i q)
  qed
  moreover have "inj_on clock {Suc i..<Suc i + length sids}"
    using Cons.prems(2) by (auto simp: inj_on_def)
  moreover have "dc_inv (hb_q ?st)"
    using Cons.prems(3) by (simp add: hb_enqueue_def dc_insert_inv)
  ultimately have IH: "set (hb_q (hb_requeue clock (Suc i) sids ?st)) =
      set (hb_q ?st) \<union> {(clock (Suc i + j) + hb_interval ?st, sids ! j) | j. j < length sids} \<and>
    dc_inv (hb_q (hb_requeue clock (Suc i) sids ?st)) \<and>
    hb_limits (hb_requeue clock (Suc i) sids ?st) = hb_limits ?st \<and>
    hb_interval (hb_requeue clock (Suc i) sids ?st) = hb_interval ?st"
    by (intro Cons.IH) blast+
  have "{(clock (i + j) + hb_interval st, (sid # sids) ! j) | j. j < length (sid # sids)} =
      insert (clock i + hb_interval st, sid) {(clock (Suc i + j) + hb_interval st, sids ! j) | j. j < length sids}"
    using collect_less_Suc [of "\<lambda>j. (clock (i + j) + hb_interval st, (sid # sids) ! j)" "length sids"] by simp
  with IH show ?case by (simp add: i q)
qed

lemma hb_recorder_expire:
  assumes "hb_limits st = filter (\<lambda>x. \<not> snd x \<le> now) done @ rest" and "distinct (map fst (done @ rest))"
  shows "\<exists>st'. hb_expire_loop hb_recorder now rest (st, sent, expired) =
      Inr (st', sent, expired @ map fst (filter (\<lambda>x. snd x \<le> now) rest)) \<and>
    hb_limits st' = filter (\<lambda>x. \<not> snd x \<le> now) (done @ rest) \<and>
    hb_q st' = filter (\<lambda>x. snd x \<notin> fst ` set (filter (\<lambda>x. snd x \<le> now) rest)) (hb_q st)"
  using assms
proof (induction rest arbitrary: "done" st expired)
  case Nil
  then show ?case by simp
next
  case (Cons x rest)
  obtain sid t where x: "x = (sid, t)" by (cases x)
  have nd: "sid \<notin> fst ` set done" "sid \<notin> fst ` set rest" using Cons.prems(2) x by auto
  have lim: "map_of (hb_limits st) sid = Some t"
    using Cons.prems(1) nd x by (auto simp: map_add_Some_iff map_of_eq_None_iff)
  show ?case
  proof (cases "t \<le> now")
    case True
    let ?st = "hb_remove sid st"
    have "AList.delete sid (filter (\<lambda>x. \<not> snd x \<le> now) done) = filter (\<lambda>x. \<not> snd x \<le> now) done"
      using nd(1) by (intro delete_not_key) auto
    then have "hb_limits ?st = filter (\<lambda>x. \<not> snd x \<le> now) (done @ [x]) @ rest"
      using Cons.prems(1) nd(2) True x by (simp add: hb_remove_def delete_not_key)
    from Cons.IH [OF this, of "expired @ [sid]"] Cons.prems(2)
    obtain st' where "hb_expire_loop hb_recorder now rest (?st, sent, expired @ [sid]) =
        Inr (st', sent, (expired @ [sid]) @ map fst (filter (\<lambda>x. snd x \<le> now) rest))"
      "hb_limits st' = filter (\<lambda>x. \<not> snd x \<le> now) ((done @ [x]) @ rest)"
      "hb_q st' = filter (\<lambda>x. snd x \<notin> fst ` set (filter (\<lambda>x. snd x \<le> now) rest)) (hb_q ?st)" by auto
    then show ?thesis
      using lim True x by (intro exI [of _ st']) (auto simp: hb_recorder_def hb_remove_def)
  next
    case False
    have "hb_limits st = filter (\<lambda>x. \<not> snd x \<le> now) (done @ [x]) @ rest"
      using Cons.prems(1) False x by simp
    from Cons.IH [OF this, of expired] Cons.prems(2)
    obtain st' where "hb_expire_loop hb_recorder now rest (st, sent, expired) =
        Inr (st', sent, expired @ map fst (filter (\<lambda>x. snd x \<le> now) rest))"
      "hb_limits st' = filter (\<lambda>x. \<not> snd x \<le> now) ((done @ [x]) @ rest)"
      "hb_q st' = filter (\<lambda>x. snd x \<notin> fst ` set (filter (\<lambda>x. snd x \<le> now) rest)) (hb_q st)" by auto
    then show ?thesis
      using lim False x by (intro exI [of _ st']) (auto simp: hb_recorder_def)
  qed
qed

subsection \<open>Properties\<close>

text \<open>A heartbeat step, with readings of the clock that are distinct and give no time already in the
  queue: every socket that is due, and no other, gets exactly one heartbeat packet, in order of time, and
  is queued again one interval after the reading made for it; every socket whose limit has passed, and
  no other, is reported expired once and is forgotten.\<close>

theorem hb_step_round:
  fixes due exp
  assumes "dc_inv (hb_q st)" and "distinct (map fst (hb_limits st))"
    and "due = filter (\<lambda>x. fst x \<le> clock 0) (hb_q st)" and "exp = filter (\<lambda>x. snd x \<le> now2) (hb_limits st)"
    and "inj_on clock {1..<1 + length due}"
    and "\<forall>j < length due. clock (1 + j) + hb_interval st \<notin> fst ` set (hb_q st)"
  shows "\<exists>st'. hb_step io hb_recorder clock now2 (st, sent, expired) =
      Inr (st', sent @ map (\<lambda>x. (snd x, heartbeat_packet_serialize io heartbeat_packet_new)) due,
           expired @ map fst exp) \<and>
    hb_limits st' = filter (\<lambda>x. \<not> snd x \<le> now2) (hb_limits st) \<and>
    set (hb_q st') =
      {x \<in> {x \<in> set (hb_q st). \<not> fst x \<le> clock 0} \<union>
           {(clock (1 + j) + hb_interval st, snd (due ! j)) | j. j < length due}. snd x \<notin> fst ` set exp}"
proof -
  let ?out = "heartbeat_packet_serialize io heartbeat_packet_new"
  have sorted: "takeWhile (\<lambda>x. fst x \<le> clock 0) (hb_q st) = due"
    "dropWhile (\<lambda>x. fst x \<le> clock 0) (hb_q st) = filter (\<lambda>x. \<not> fst x \<le> clock 0) (hb_q st)"
    using sorted_takeWhile_filter [of "hb_q st" "clock 0"] assms(1,3) by (simp_all add: dc_inv_def)
  define st1 where "st1 = st\<lparr>hb_q := filter (\<lambda>x. \<not> fst x \<le> clock 0) (hb_q st)\<rparr>"
  have loop: "hb_send_loop hb_recorder (clock 0) ?out (hb_q st) (st, sent, expired) =
      Inr (map snd due, st1, sent @ map (\<lambda>x. (snd x, ?out)) due, expired)"
    using hb_recorder_send [of "clock 0" ?out "hb_q st" st sent expired] by (simp add: sorted st1_def)
  define st2 where "st2 = hb_requeue clock 1 (map snd due) st1"
  have inv1: "dc_inv (hb_q st1)"
    using assms(1) by (simp add: st1_def dc_inv_def sorted_wrt_map sorted_wrt_filter)
  have q: "set (hb_q st2) = set (hb_q st1) \<union>
      {(clock (1 + j) + hb_interval st1, map snd due ! j) | j. j < length (map snd due)} \<and>
    dc_inv (hb_q st2) \<and> hb_limits st2 = hb_limits st1 \<and> hb_interval st2 = hb_interval st1"
    unfolding st2_def
  proof (rule hb_requeue_new [OF _ _ inv1])
    show "inj_on clock {1..<1 + length (map snd due)}" using assms(5) by simp
    show "\<forall>j < length (map snd due). clock (1 + j) + hb_interval st1 \<notin> fst ` set (hb_q st1)"
      using assms(6) by (auto simp: st1_def)
  qed
  have first: "(if hb_q (bh_get hb_recorder (st, sent, expired)) = [] then Inr (st, sent, expired)
     else bindr (hb_send_loop hb_recorder (clock 0) ?out (hb_q (bh_get hb_recorder (st, sent, expired))) (st, sent, expired))
       (\<lambda>(tmp, n1). Inr (bh_put hb_recorder (hb_requeue clock 1 tmp (bh_get hb_recorder n1)) n1))) =
     Inr (st2, sent @ map (\<lambda>x. (snd x, ?out)) due, expired)"
  proof (cases "hb_q st = []")
    case True
    then have "st\<lparr>hb_q := []\<rparr> = st" by (cases st) simp
    with True show ?thesis by (simp add: st2_def st1_def assms(3) hb_recorder_view)
  next
    case False
    then show ?thesis by (simp add: loop st2_def hb_recorder_view)
  qed
  have "hb_limits st2 = filter (\<lambda>x. \<not> snd x \<le> now2) [] @ hb_limits st"
    using q by (simp add: st1_def)
  from hb_recorder_expire [OF this, of "sent @ map (\<lambda>x. (snd x, ?out)) due" expired] assms(2)
  obtain st' where st': "hb_expire_loop hb_recorder now2 (hb_limits st)
      (st2, sent @ map (\<lambda>x. (snd x, ?out)) due, expired) =
      Inr (st', sent @ map (\<lambda>x. (snd x, ?out)) due, expired @ map fst exp)"
    "hb_limits st' = filter (\<lambda>x. \<not> snd x \<le> now2) (hb_limits st)"
    "hb_q st' = filter (\<lambda>x. snd x \<notin> fst ` set exp) (hb_q st2)"
    unfolding assms(4) by auto
  have lim: "hb_limits (bh_get hb_recorder (st2, sent @ map (\<lambda>x. (snd x, ?out)) due, expired)) = hb_limits st"
    using q by (simp add: st1_def hb_recorder_view)
  have "hb_step io hb_recorder clock now2 (st, sent, expired) =
      Inr (st', sent @ map (\<lambda>x. (snd x, ?out)) due, expired @ map fst exp)"
    unfolding hb_step_def first bindr_simps lim by (rule st'(1))
  moreover have "set (hb_q st') = {x \<in> {x \<in> set (hb_q st). \<not> fst x \<le> clock 0} \<union>
      {(clock (1 + j) + hb_interval st, snd (due ! j)) | j. j < length due}. snd x \<notin> fst ` set exp}"
    using q by (auto simp: st'(3) st1_def)
  ultimately show ?thesis using st'(2) by blast
qed

theorem hb_step_round_witness:
  "\<exists>st'. hb_step be_streams hb_recorder (\<lambda>i. 10 + int i) 12
      (\<lparr>hb_interval = 5, hb_timeout = 15, hb_q = [(7, 1), (8, 2), (30, 3)], hb_limits = [(1, 11), (2, 13)]\<rparr>, [], []) =
    Inr (st', [(1, heartbeat_packet_serialize be_streams heartbeat_packet_new),
               (2, heartbeat_packet_serialize be_streams heartbeat_packet_new)], [1]) \<and>
    hb_limits st' = [(2, 13)]"
proof -
  have inj: "inj_on (\<lambda>i. 10 + int i) A" for A by (simp add: inj_on_def)
  show ?thesis
    using hb_step_round [of "\<lparr>hb_interval = 5, hb_timeout = 15, hb_q = [(7, 1), (8, 2), (30, 3)],
        hb_limits = [(1, 11), (2, 13)]\<rparr>" "[(7, 1), (8, 2)]" "\<lambda>i. 10 + int i" "[(1, 11)]" 12 be_streams "[]" "[]"] inj
    by (auto simp: dc_inv_def less_Suc_eq)
qed

text \<open>When the clock gives the same reading for two sockets that are queued again, the second one is
  dropped from the queue: no heartbeat will be sent on it any more.\<close>

theorem hb_same_time_socket_dropped:
  assumes "hb_q st = [(t, a), (u, b)]" and "hb_limits st = []" and "t \<le> clock 0" and "u \<le> clock 0"
    and "clock 1 = clock 2"
  shows "hb_step io hb_recorder clock now2 (st, sent, expired) =
    Inr (st\<lparr>hb_q := [(clock 1 + hb_interval st, a)]\<rparr>,
      sent @ [(a, heartbeat_packet_serialize io heartbeat_packet_new),
              (b, heartbeat_packet_serialize io heartbeat_packet_new)], expired)"
  using assms by (simp add: hb_step_def hb_recorder_def hb_enqueue_def numeral_2_eq_2)

theorem hb_same_time_socket_dropped_witness:
  "hb_step be_streams hb_recorder (\<lambda>_. 10) 12 (\<lparr>hb_interval = 5, hb_timeout = 15, hb_q = [(7, 1), (8, 2)], hb_limits = []\<rparr>, [], []) =
    Inr (\<lparr>hb_interval = 5, hb_timeout = 15, hb_q = [(15, 1)], hb_limits = []\<rparr>,
      [(1, heartbeat_packet_serialize be_streams heartbeat_packet_new),
       (2, heartbeat_packet_serialize be_streams heartbeat_packet_new)], [])"
  using hb_same_time_socket_dropped [of "\<lparr>hb_interval = 5, hb_timeout = 15, hb_q = [(7, 1), (8, 2)], hb_limits = []\<rparr>"
      7 1 8 2 "\<lambda>_. 10" be_streams 12 "[]" "[]"] by simp

end
