(* ===== verification/Node.thy ===== *)
theory Node
  imports Handshake Heartbeat InputProcessor WriterPool ReaderPool ListenerPool
begin

text \<open>
  \<open>meshnet::node\<close> (include/pfs/netty/patterns/meshnet/node.hpp): a node of the mesh network, with the
  pools of its sockets, its processors and the two maps that make the channels: \<open>_readers\<close> from sockets
  to nodes and \<open>_writers\<close> from nodes to sockets. It is modelled with \<open>exclusive_handshake\<close>,
  \<open>simple_heartbeat\<close>, \<open>simple_message_sender\<close> and \<open>functional_callbacks\<close>; the queue of the writer pool
  and the input processor are parameters, as in the code, and so are the conversions of node
  identifiers and the timeout of the reconnection policy.

  The pools report what they ask of pollers and sockets, and the callbacks they make, as events. A
  handler of the node runs on every event that is a callback, after the operation of the pool that
  made it; the handlers change of that pool only what the operation does not look at (the list of
  sockets to remove, and deferred connections later than those being made). The clock is a part of the
  state: the readings it will give. All events, and the calls of the user's callbacks, are logged.
\<close>

subsection \<open>State\<close>

record ('i, 'id, 'q, 'd) node_cfg =
  nc_io :: "'i streams"
  nc_queue :: "'q queue_ops"
  nc_ip :: "'d ip_ops"
  nc_ip_add :: "socket_id \<Rightarrow> 'd \<Rightarrow> 'd result"
  nc_ip_remove :: "socket_id \<Rightarrow> 'd \<Rightarrow> 'd"
  nc_stringify :: "'id \<Rightarrow> bytes"
  nc_parse :: "bytes \<Rightarrow> 'id option"
  nc_reconnection :: int

datatype 'id node_event =
    EvNodeConnected 'id
  | EvNodeDisconnected 'id
  | EvMessageReceived 'id bytes
  | EvListener lp_event
  | EvConnecting cp_event
  | EvReader rp_event
  | EvWriter wp_event
  | EvSendFailed 'id

record ('id, 'q, 'd) node =
  nd_id :: 'id
  nd_behind_nat :: bool
  nd_listeners :: listener_pool
  nd_connecting :: "socket4_addr connecting_pool"
  nd_reader :: reader_pool
  nd_writer :: "'q writer_pool"
  nd_sockets :: socket_pool
  nd_handshakes :: hs_cache
  nd_heartbeat :: hb_state
  nd_input :: 'd
  nd_readers :: "(socket_id \<times> 'id) list"
  nd_writers :: "('id \<times> socket_id) list"
  nd_clock :: "nat \<Rightarrow> time_point"
  nd_log :: "'id node_event list"

definition nd_new :: "'id \<Rightarrow> bool \<Rightarrow> 'd \<Rightarrow> (nat \<Rightarrow> time_point) \<Rightarrow> ('id, 'q, 'd) node" where
  "nd_new i behind_nat ip clock =
     \<lparr>nd_id = i, nd_behind_nat = behind_nat, nd_listeners = lp_new, nd_connecting = cp_new,
      nd_reader = rp_new, nd_writer = wp_new, nd_sockets = sp_new, nd_handshakes = [],
      nd_heartbeat = hb_new (seconds 5), nd_input = ip, nd_readers = [], nd_writers = [],
      nd_clock = clock, nd_log = []\<rparr>"

definition nd_emit :: "'id node_event list \<Rightarrow> ('id, 'q, 'd) node \<Rightarrow> ('id, 'q, 'd) node" where
  "nd_emit evs n = n\<lparr>nd_log := nd_log n @ evs\<rparr>"

text \<open>The next reading of the clock.\<close>

definition nd_now :: "('id, 'q, 'd) node \<Rightarrow> time_point" where
  "nd_now n = nd_clock n 0"

definition nd_tick :: "('id, 'q, 'd) node \<Rightarrow> ('id, 'q, 'd) node" where
  "nd_tick n = n\<lparr>nd_clock := (\<lambda>i. nd_clock n (Suc i))\<rparr>"

subsection \<open>Lookup in the maps\<close>

definition find_reader_by_node :: "'id \<Rightarrow> ('id, 'q, 'd) node \<Rightarrow> socket_id option" where
  "find_reader_by_node i n = map_option fst (find (\<lambda>p. snd p = i) (nd_readers n))"

definition find_writer_by_socket :: "socket_id \<Rightarrow> ('id, 'q, 'd) node \<Rightarrow> 'id option" where
  "find_writer_by_socket sid n = map_option fst (find (\<lambda>p. snd p = sid) (nd_writers n))"

definition nd_erase_reader :: "socket_id \<Rightarrow> ('id, 'q, 'd) node \<Rightarrow> ('id, 'q, 'd) node" where
  "nd_erase_reader sid n = n\<lparr>nd_readers := AList.delete sid (nd_readers n)\<rparr>"

definition nd_erase_writer :: "'id \<Rightarrow> ('id, 'q, 'd) node \<Rightarrow> ('id, 'q, 'd) node" where
  "nd_erase_writer i n = n\<lparr>nd_writers := AList.delete i (nd_writers n)\<rparr>"

subsection \<open>Closing\<close>

text \<open>What \<open>close_socket\<close> does at any level: the socket leaves the processors now and the pools later.\<close>

definition nd_drop_socket ::
  "('i, 'id, 'q, 'd) node_cfg \<Rightarrow> socket_id \<Rightarrow> ('id, 'q, 'd) node \<Rightarrow> ('id, 'q, 'd) node" where
  "nd_drop_socket cfg sid n =
     n\<lparr>nd_handshakes := AList.delete sid (nd_handshakes n),
       nd_heartbeat := hb_remove sid (nd_heartbeat n),
       nd_input := nc_ip_remove cfg sid (nd_input n),
       nd_reader := rp_remove_later sid (nd_reader n),
       nd_writer := wp_remove_later sid (nd_writer n),
       nd_sockets := sp_remove_later sid (nd_sockets n)\<rparr>"

text \<open>\<open>close_channel\<close>; the inner \<open>close_socket\<close> is at level 1, where no channel is closed.\<close>

definition nd_close_channel ::
  "('i, 'id, 'q, 'd) node_cfg \<Rightarrow> socket_id \<Rightarrow> ('id, 'q, 'd) node \<Rightarrow> ('id, 'q, 'd) node result" where
  "nd_close_channel cfg sid n =
     (case (map_of (nd_readers n) sid, find_writer_by_socket sid n) of
        (None, None) \<Rightarrow> Inr n
      | (Some r, Some i) \<Rightarrow>
          (if i \<noteq> r then Inl Terminated
           else Inr (nd_emit [EvNodeDisconnected i] (nd_erase_writer i (nd_erase_reader sid n))))
      | (None, Some i) \<Rightarrow>
          (case find_reader_by_node i n of
             Some rsid \<Rightarrow>
               Inr (nd_emit [EvNodeDisconnected i] (nd_erase_writer i (nd_erase_reader rsid (nd_drop_socket cfg rsid n))))
           | None \<Rightarrow> Inr (nd_erase_writer i n))
      | (Some r, None) \<Rightarrow>
          (case map_of (nd_writers n) r of
             Some wsid \<Rightarrow>
               Inr (nd_emit [EvNodeDisconnected r] (nd_erase_writer r (nd_erase_reader sid (nd_drop_socket cfg wsid n))))
           | None \<Rightarrow> Inr (nd_erase_reader sid n)))"

definition nd_close_socket ::
  "('i, 'id, 'q, 'd) node_cfg \<Rightarrow> socket_id \<Rightarrow> ('id, 'q, 'd) node \<Rightarrow> ('id, 'q, 'd) node result" where
  "nd_close_socket cfg sid n = nd_close_channel cfg sid (nd_drop_socket cfg sid n)"

definition nd_schedule_reconnection ::
  "('i, 'id, 'q, 'd) node_cfg \<Rightarrow> socket_id \<Rightarrow> ('id, 'q, 'd) node \<Rightarrow> ('id, 'q, 'd) node result" where
  "nd_schedule_reconnection cfg sid n =
     (if nc_reconnection cfg > 0 then
        bindr (sp_locate sid (nd_sockets n)) (\<lambda>found.
          (case found of
             None \<Rightarrow> Inl Terminated
           | Some (sock, is_accepted) \<Rightarrow>
               (if \<not> is_accepted then
                  Inr (nd_tick (n\<lparr>nd_connecting := (nd_connecting n)
                    \<lparr>cp_deferred := dc_insert (nd_now n + nc_reconnection cfg) (so_saddr sock)
                                     (cp_deferred (nd_connecting n))\<rparr>\<rparr>))
                else Inr n)))
      else Inr n)"

subsection \<open>Sending\<close>

definition nd_send_private ::
  "('i, 'id, 'q, 'd) node_cfg \<Rightarrow> socket_id \<Rightarrow> int \<Rightarrow> bytes \<Rightarrow> ('id, 'q, 'd) node \<Rightarrow> ('id, 'q, 'd) node result" where
  "nd_send_private cfg sid priority data n =
     mapr (\<lambda>(p, evs). nd_emit (map EvWriter evs) (n\<lparr>nd_writer := p\<rparr>))
       (wp_enqueue (nc_queue cfg) sid priority data (nd_writer n))"

text \<open>\<open>simple_message_sender::send\<close>\<close>

definition ms_send ::
  "('i, 'id, 'q, 'd) node_cfg \<Rightarrow> socket_id \<Rightarrow> int \<Rightarrow> bool \<Rightarrow> bytes \<Rightarrow> ('id, 'q, 'd) node \<Rightarrow> ('id, 'q, 'd) node result" where
  "ms_send cfg sid priority has_checksum data n =
     bindr (data_packet_serialize (nc_io cfg) (data_packet_new has_checksum) data)
       (\<lambda>out. nd_send_private cfg sid priority out n)"

definition nd_send ::
  "('i, 'id, 'q, 'd) node_cfg \<Rightarrow> 'id \<Rightarrow> int \<Rightarrow> bool \<Rightarrow> bytes \<Rightarrow> ('id, 'q, 'd) node \<Rightarrow> ('id, 'q, 'd) node result" where
  "nd_send cfg i priority force_checksum data n =
     (case map_of (nd_writers n) i of
        Some sid \<Rightarrow> ms_send cfg sid priority force_checksum data n
      | None \<Rightarrow> Inr (nd_emit [EvSendFailed i] n))"

subsection \<open>Handlers of the processors\<close>

definition nd_on_completed ::
  "('i, 'id, 'q, 'd) node_cfg \<Rightarrow> 'id \<Rightarrow> socket_id \<Rightarrow> handshake_result \<Rightarrow> ('id, 'q, 'd) node \<Rightarrow> ('id, 'q, 'd) node result" where
  "nd_on_completed cfg i sid status n =
     (case status of
        HrUnusable \<Rightarrow> nd_close_socket cfg sid n
      | HrReader \<Rightarrow>
          (let n = n\<lparr>nd_readers := AList.update sid i (nd_readers n)\<rparr>;
               n = nd_tick (n\<lparr>nd_heartbeat := hb_add (nd_now n) sid (nd_heartbeat n)\<rparr>)
           in Inr (if map_of (nd_writers n) i \<noteq> None then nd_emit [EvNodeConnected i] n else n))
      | HrWriter \<Rightarrow>
          (let n = n\<lparr>nd_writers := AList.update i sid (nd_writers n)\<rparr>;
               n = nd_tick (n\<lparr>nd_heartbeat := hb_add (nd_now n) sid (nd_heartbeat n)\<rparr>)
           in Inr (if find_reader_by_node i n \<noteq> None then nd_emit [EvNodeConnected i] n else n)))"

definition nd_hs_host :: "('i, 'id, 'q, 'd) node_cfg \<Rightarrow> ('id, ('id, 'q, 'd) node) hs_host" where
  "nd_hs_host cfg =
     \<lparr>hh_cache = nd_handshakes, hh_set_cache = (\<lambda>c n. n\<lparr>nd_handshakes := c\<rparr>), hh_id = nd_id,
      hh_behind_nat = nd_behind_nat, hh_stringify = nc_stringify cfg, hh_parse = nc_parse cfg,
      hh_send_private = nd_send_private cfg, hh_on_expired = nd_close_socket cfg,
      hh_on_failure = nd_close_socket cfg, hh_on_completed = nd_on_completed cfg\<rparr>"

definition nd_hb_host :: "('i, 'id, 'q, 'd) node_cfg \<Rightarrow> ('id, 'q, 'd) node hb_host" where
  "nd_hb_host cfg =
     \<lparr>bh_get = nd_heartbeat, bh_put = (\<lambda>st n. n\<lparr>nd_heartbeat := st\<rparr>),
      bh_send_private = nd_send_private cfg,
      bh_on_expired = (\<lambda>sid n. bindr (nd_schedule_reconnection cfg sid n) (nd_close_socket cfg sid))\<rparr>"

definition nd_message_received :: "socket_id \<Rightarrow> bytes \<Rightarrow> ('id, 'q, 'd) node \<Rightarrow> ('id, 'q, 'd) node" where
  "nd_message_received sid bytes n =
     (case map_of (nd_readers n) sid of None \<Rightarrow> n | Some i \<Rightarrow> nd_emit [EvMessageReceived i bytes] n)"

definition nd_process_packet ::
  "('i, 'id :: linorder, 'q, 'd) node_cfg \<Rightarrow> socket_id \<Rightarrow> wire_packet \<Rightarrow> ('id, 'q, 'd) node \<Rightarrow> ('id, 'q, 'd) node result" where
  "nd_process_packet cfg sid p n =
     (case p of
        WpHandshake pkt \<Rightarrow> hs_process (nc_io cfg) (nd_hs_host cfg) (nd_now n) sid pkt (nd_tick n)
      | WpHeartbeat pkt \<Rightarrow> Inr (nd_tick (n\<lparr>nd_heartbeat := hb_process (nd_now n) sid (nd_heartbeat n)\<rparr>))
      | WpData bytes \<Rightarrow> Inr (nd_message_received sid bytes n))"

definition nd_ip_host :: "('i, 'id :: linorder, 'q, 'd) node_cfg \<Rightarrow> ('d, ('id, 'q, 'd) node) ip_host" where
  "nd_ip_host cfg =
     \<lparr>ih_get = nd_input, ih_put = (\<lambda>d n. n\<lparr>nd_input := d\<rparr>), ih_process = nd_process_packet cfg\<rparr>"

subsection \<open>Handlers of the pools\<close>

text \<open>\<open>_reader_pool.on_failure\<close>, \<open>on_disconnected\<close> and \<open>on_data_ready\<close>\<close>

definition nd_reader_event ::
  "('i, 'id :: linorder, 'q, 'd) node_cfg \<Rightarrow> rp_event \<Rightarrow> ('id, 'q, 'd) node \<Rightarrow> ('id, 'q, 'd) node result option" where
  "nd_reader_event cfg e n =
     (let n = nd_emit [EvReader e] n
      in case e of
           RpFailure sid err \<Rightarrow> Some (nd_close_socket cfg sid n)
         | RpDisconnected sid \<Rightarrow> Some (bindr (nd_schedule_reconnection cfg sid n) (nd_close_socket cfg sid))
         | RpDataReady sid data \<Rightarrow> process_input (nc_io cfg) (nc_ip cfg) (nd_ip_host cfg) sid data n
         | _ \<Rightarrow> Some (Inr n))"

definition nd_reader_add ::
  "('i, 'id :: linorder, 'q, 'd) node_cfg \<Rightarrow> errc option \<Rightarrow> socket_id \<Rightarrow> ('id, 'q, 'd) node \<Rightarrow> ('id, 'q, 'd) node result option" where
  "nd_reader_add cfg add_err sid n =
     (case rp_add add_err sid (nd_reader n) of
        Inl f \<Rightarrow> Some (Inl f)
      | Inr (p, evs) \<Rightarrow> foldo (nd_reader_event cfg) evs (n\<lparr>nd_reader := p\<rparr>))"

text \<open>\<open>_listener_pool.on_accepted\<close>; \<open>add_err\<close> is the error of the reader's poller, if it has one.\<close>

definition nd_on_accepted ::
  "('i, 'id :: linorder, 'q, 'd) node_cfg \<Rightarrow> errc option \<Rightarrow> net_socket \<Rightarrow> ('id, 'q, 'd) node \<Rightarrow> ('id, 'q, 'd) node result option" where
  "nd_on_accepted cfg add_err sock n =
     bindo (Some (mapr (\<lambda>d. n\<lparr>nd_input := d\<rparr>) (nc_ip_add cfg (so_id sock) (nd_input n)))) (\<lambda>n.
     bindo (nd_reader_add cfg add_err (so_id sock) n) (\<lambda>n.
       Some (mapr (\<lambda>p. n\<lparr>nd_sockets := p\<rparr>) (sp_add_accepted sock (nd_sockets n)))))"

definition nd_listener_event ::
  "('i, 'id :: linorder, 'q, 'd) node_cfg \<Rightarrow> errc option \<Rightarrow> lp_event \<Rightarrow> ('id, 'q, 'd) node \<Rightarrow> ('id, 'q, 'd) node result option" where
  "nd_listener_event cfg add_err e n =
     (let n = nd_emit [EvListener e] n
      in case e of LpAccepted sock \<Rightarrow> nd_on_accepted cfg add_err sock n | _ \<Rightarrow> Some (Inr n))"

text \<open>\<open>_connecting_pool.on_connected\<close> and \<open>on_connection_refused\<close>\<close>

definition nd_on_connected ::
  "('i, 'id :: linorder, 'q, 'd) node_cfg \<Rightarrow> errc option \<Rightarrow> net_socket \<Rightarrow> ('id, 'q, 'd) node \<Rightarrow> ('id, 'q, 'd) node result option" where
  "nd_on_connected cfg add_err sock n =
     bindo (Some (hs_start (nc_io cfg) (nd_hs_host cfg) (nd_now n) (so_id sock) (nd_tick n))) (\<lambda>n.
     bindo (Some (mapr (\<lambda>d. n\<lparr>nd_input := d\<rparr>) (nc_ip_add cfg (so_id sock) (nd_input n)))) (\<lambda>n.
     bindo (nd_reader_add cfg add_err (so_id sock) n) (\<lambda>n.
       Some (mapr (\<lambda>p. n\<lparr>nd_sockets := p\<rparr>) (sp_add_connected sock (nd_sockets n))))))"

definition nd_on_refused ::
  "('i, 'id, 'q, 'd) node_cfg \<Rightarrow> socket4_addr \<Rightarrow> ('id, 'q, 'd) node \<Rightarrow> ('id, 'q, 'd) node" where
  "nd_on_refused cfg saddr n =
     (if nc_reconnection cfg > 0 then
        nd_tick (n\<lparr>nd_connecting := (nd_connecting n)
          \<lparr>cp_deferred := dc_insert (nd_now n + nc_reconnection cfg) saddr (cp_deferred (nd_connecting n))\<rparr>\<rparr>)
      else n)"

definition nd_connecting_event ::
  "('i, 'id :: linorder, 'q, 'd) node_cfg \<Rightarrow> errc option \<Rightarrow> cp_event \<Rightarrow> ('id, 'q, 'd) node \<Rightarrow> ('id, 'q, 'd) node result option" where
  "nd_connecting_event cfg add_err e n =
     (let n = nd_emit [EvConnecting e] n
      in case e of
           CpConnected sock \<Rightarrow> nd_on_connected cfg add_err sock n
         | CpRefused sid saddr reason \<Rightarrow> Some (Inr (nd_on_refused cfg saddr n))
         | _ \<Rightarrow> Some (Inr n))"

text \<open>\<open>_writer_pool.on_failure\<close>\<close>

definition nd_writer_event ::
  "('i, 'id, 'q, 'd) node_cfg \<Rightarrow> wp_event \<Rightarrow> ('id, 'q, 'd) node \<Rightarrow> ('id, 'q, 'd) node result" where
  "nd_writer_event cfg e n =
     (let n = nd_emit [EvWriter e] n
      in case e of
           WpFailure sid err \<Rightarrow> bindr (nd_schedule_reconnection cfg sid n) (nd_close_socket cfg sid)
         | _ \<Rightarrow> Inr n)"

subsection \<open>Operations\<close>

definition nd_add_listener :: "socket_id option \<Rightarrow> ('id, 'q, 'd) node \<Rightarrow> ('id, 'q, 'd) node" where
  "nd_add_listener listener n = n\<lparr>nd_listeners := lp_add listener (nd_listeners n)\<rparr>"

definition nd_listen :: "(socket_id \<Rightarrow> errc option \<times> errc option) \<Rightarrow> ('id, 'q, 'd) node \<Rightarrow> ('id, 'q, 'd) node" where
  "nd_listen answer n =
     (let (p, evs) = lp_listen answer (nd_listeners n)
      in nd_emit (map EvListener evs) (n\<lparr>nd_listeners := p\<rparr>))"

definition nd_connect_host ::
  "('i, 'id :: linorder, 'q, 'd) node_cfg \<Rightarrow> errc option \<Rightarrow> conn_answer \<Rightarrow> ('id, 'q, 'd) node \<Rightarrow>
     (bool \<times> ('id, 'q, 'd) node) result option" where
  "nd_connect_host cfg add_err ans n =
     (let (p, evs) = cp_connect ans (nd_connecting n)
      in bindo (foldo (nd_connecting_event cfg add_err) evs (n\<lparr>nd_connecting := p\<rparr>))
           (\<lambda>n. Some (Inr (ca_status ans \<noteq> ConnFailure, n))))"

text \<open>
  What the environment answers during one step: the connections accepted, the answers to the deferred
  attempts and the events of the connecting poller, the answers of the sockets in each pass of the
  writer pool and the events of its poller, and the events of the reader's poller.
\<close>

record node_env =
  en_accepts :: "(socket_id \<times> (errc + net_socket)) list"
  en_listener_failures :: "(socket_id \<times> errc) list"
  en_connect :: "nat \<Rightarrow> conn_answer"
  en_connecting :: "cp_poll_event list"
  en_sockets :: "(socket_id \<Rightarrow> wsocket) list"
  en_writer :: "wp_poll_event list"
  en_reader :: "rp_poll_event list"
  en_reader_add :: "errc option"

definition nd_listener_step ::
  "('i, 'id :: linorder, 'q, 'd) node_cfg \<Rightarrow> node_env \<Rightarrow> ('id, 'q, 'd) node \<Rightarrow> ('id, 'q, 'd) node result option" where
  "nd_listener_step cfg env n =
     bindo (foldo (\<lambda>(lid, answer) n.
         (let (p, evs) = lp_on_accept answer lid (nd_listeners n)
          in foldo (nd_listener_event cfg (en_reader_add env)) evs (n\<lparr>nd_listeners := p\<rparr>)))
       (en_accepts env) n)
     (foldo (\<lambda>(lid, err) n.
         (let (p, evs) = lp_on_poller_failure lid err (nd_listeners n)
          in foldo (nd_listener_event cfg (en_reader_add env)) evs (n\<lparr>nd_listeners := p\<rparr>)))
       (en_listener_failures env))"

definition nd_connecting_step ::
  "('i, 'id :: linorder, 'q, 'd) node_cfg \<Rightarrow> node_env \<Rightarrow> ('id, 'q, 'd) node \<Rightarrow> ('id, 'q, 'd) node result option" where
  "nd_connecting_step cfg env n =
     (let (p, evs) = cp_step (nd_now n) (en_connect env) (en_connecting env) (nd_connecting n)
      in foldo (nd_connecting_event cfg (en_reader_add env)) evs (nd_tick (n\<lparr>nd_connecting := p\<rparr>)))"

text \<open>\<open>_locate_socket\<close>: a socket answers only if the socket pool has it.\<close>

definition nd_wsockets :: "('id, 'q, 'd) node \<Rightarrow> (socket_id \<Rightarrow> wsocket) \<Rightarrow> wsockets" where
  "nd_wsockets n socks sid = (case sp_locate sid (nd_sockets n) of Inr (Some _) \<Rightarrow> Some (socks sid) | _ \<Rightarrow> None)"

definition nd_writer_step ::
  "('i, 'id, 'q, 'd) node_cfg \<Rightarrow> node_env \<Rightarrow> ('id, 'q, 'd) node \<Rightarrow> ('id, 'q, 'd) node result" where
  "nd_writer_step cfg env n =
     bindr (wp_step (nc_queue cfg) (map (nd_wsockets n) (en_sockets env)) (en_writer env) (nd_writer n)) (\<lambda>(p, evs).
       foldr_res (nd_writer_event cfg) evs (n\<lparr>nd_writer := p\<rparr>))"

text \<open>For \<open>ready_read\<close> the pool locates the socket first.\<close>

definition nd_reader_poll ::
  "('i, 'id :: linorder, 'q, 'd) node_cfg \<Rightarrow> rp_poll_event \<Rightarrow> ('id, 'q, 'd) node \<Rightarrow> ('id, 'q, 'd) node result option" where
  "nd_reader_poll cfg e n =
     bindo (case e of
         ReadyRead sid found answers \<Rightarrow>
           Some (mapr (\<lambda>found. ReadyRead sid (found \<noteq> None) answers) (sp_locate sid (nd_sockets n)))
       | _ \<Rightarrow> Some (Inr e)) (\<lambda>e.
       (case rp_on_poll e (nd_reader n) of
          Inl f \<Rightarrow> Some (Inl f)
        | Inr None \<Rightarrow> None
        | Inr (Some (p, evs)) \<Rightarrow> foldo (nd_reader_event cfg) evs (n\<lparr>nd_reader := p\<rparr>)))"

definition nd_reader_step ::
  "('i, 'id :: linorder, 'q, 'd) node_cfg \<Rightarrow> node_env \<Rightarrow> ('id, 'q, 'd) node \<Rightarrow> ('id, 'q, 'd) node result option" where
  "nd_reader_step cfg env n = foldo (nd_reader_poll cfg) (en_reader env) n"

definition nd_handshake_step ::
  "('i, 'id, 'q, 'd) node_cfg \<Rightarrow> ('id, 'q, 'd) node \<Rightarrow> ('id, 'q, 'd) node result" where
  "nd_handshake_step cfg n =
     (if nd_handshakes n = [] then Inr n
      else hs_step (nd_hs_host cfg) (nd_now n) (nd_tick n))"

text \<open>The heartbeat step reads the clock: the readings are those at its start.\<close>

definition nd_heartbeat_step ::
  "('i, 'id, 'q, 'd) node_cfg \<Rightarrow> ('id, 'q, 'd) node \<Rightarrow> ('id, 'q, 'd) node result" where
  "nd_heartbeat_step cfg n =
     (let k = Suc (length (hb_q (nd_heartbeat n)))
      in hb_step (nc_io cfg) (nd_hb_host cfg) (nd_clock n) (nd_clock n k)
           (n\<lparr>nd_clock := (\<lambda>i. nd_clock n (Suc (k + i)))\<rparr>))"

definition nd_apply_removes :: "('id, 'q, 'd) node \<Rightarrow> ('id, 'q, 'd) node result" where
  "nd_apply_removes n =
     (let (cp, e1) = cp_apply_remove (nd_connecting n);
          (lp, e2) = lp_apply_remove (nd_listeners n);
          (rp, e3) = rp_apply_remove (nd_reader n);
          (wp, e4) = wp_apply_remove (nd_writer n)
      in mapr (\<lambda>sp. nd_emit (map EvConnecting e1 @ map EvListener e2 @ map EvReader e3 @ map EvWriter e4)
                 (n\<lparr>nd_connecting := cp, nd_listeners := lp, nd_reader := rp, nd_writer := wp, nd_sockets := sp\<rparr>))
           (sp_apply_remove (nd_sockets n)))"

definition nd_step ::
  "('i, 'id :: linorder, 'q, 'd) node_cfg \<Rightarrow> node_env \<Rightarrow> ('id, 'q, 'd) node \<Rightarrow> ('id, 'q, 'd) node result option" where
  "nd_step cfg env n =
     bindo (nd_listener_step cfg env n) (\<lambda>n.
     bindo (nd_connecting_step cfg env n) (\<lambda>n.
     bindo (Some (nd_writer_step cfg env n)) (\<lambda>n.
     bindo (nd_reader_step cfg env n) (\<lambda>n.
     bindo (Some (nd_handshake_step cfg n)) (\<lambda>n.
     bindo (Some (nd_heartbeat_step cfg n)) (\<lambda>n.
       Some (nd_apply_removes n)))))))"

subsection \<open>The maps of the channels\<close>

text \<open>Each socket reads for one node and each node writes on one socket by the types of the maps; here,
  also, each node has one reading socket and each socket writes for one node, and a socket that does
  both does it for the same node.\<close>

definition nd_maps_ok :: "('id, 'q, 'd) node \<Rightarrow> bool" where
  "nd_maps_ok n \<longleftrightarrow> distinct (map fst (nd_readers n)) \<and> distinct (map snd (nd_readers n)) \<and>
     distinct (map fst (nd_writers n)) \<and> distinct (map snd (nd_writers n)) \<and>
     (\<forall>s i j. (s, i) \<in> set (nd_readers n) \<and> (j, s) \<in> set (nd_writers n) \<longrightarrow> i = j)"

text \<open>The node at the other end of a socket, if the socket reads or writes for one.\<close>

definition nd_peer :: "socket_id \<Rightarrow> ('id, 'q, 'd) node \<Rightarrow> 'id option" where
  "nd_peer sid n =
     (case map_of (nd_readers n) sid of Some i \<Rightarrow> Some i | None \<Rightarrow> find_writer_by_socket sid n)"

definition nd_channel :: "'id \<Rightarrow> ('id, 'q, 'd) node \<Rightarrow> bool" where
  "nd_channel i n \<longleftrightarrow> i \<in> snd ` set (nd_readers n) \<and> i \<in> fst ` set (nd_writers n)"

text \<open>A socket that was closed: it is not in a handshake or a heartbeat, and every pool will remove it. The input processor, whose state
  is a parameter, has a condition of its own in the theorem.\<close>

definition nd_forgotten :: "socket_id \<Rightarrow> ('id, 'q, 'd) node \<Rightarrow> bool" where
  "nd_forgotten sid n \<longleftrightarrow> sid \<notin> fst ` set (nd_handshakes n) \<and> sid \<notin> snd ` set (hb_q (nd_heartbeat n)) \<and>
     sid \<notin> fst ` set (hb_limits (nd_heartbeat n)) \<and> sid \<in> set (rp_removable (nd_reader n)) \<and>
     sid \<in> set (wp_removable (nd_writer n)) \<and> sid \<in> set (sp_removable (nd_sockets n))"

lemma find_Some_iff_distinct:
  assumes "distinct (map snd xs)"
  shows "map_option fst (find (\<lambda>p. snd p = b) xs) = Some a \<longleftrightarrow> (a, b) \<in> set xs"
  using assms by (induction xs) (auto simp: image_iff)

lemma find_None_iff: "map_option fst (find (\<lambda>p. snd p = b) xs) = None \<longleftrightarrow> b \<notin> snd ` set xs"
  by (induction xs) auto

lemma find_reader_None: "find_reader_by_node i n = None \<longleftrightarrow> i \<notin> snd ` set (nd_readers n)"
  unfolding find_reader_by_node_def by (rule find_None_iff)

lemma filter_key: "AList.delete k xs = filter (\<lambda>p. fst p \<noteq> k) xs"
  by (induction xs) auto

lemma filter_value:
  assumes "distinct (map fst xs)" and "distinct (map snd xs)" and "(a, b) \<in> set xs"
  shows "AList.delete a xs = filter (\<lambda>p. snd p \<noteq> b) xs"
  unfolding filter_key using assms
  by (intro filter_cong refl) (metis distinct_map fst_conv inj_onD snd_conv prod.collapse)

lemma nd_drop_fields [simp]:
  "nd_readers (nd_drop_socket cfg sid n) = nd_readers n"
  "nd_writers (nd_drop_socket cfg sid n) = nd_writers n"
  "nd_log (nd_drop_socket cfg sid n) = nd_log n"
  "nd_channel i (nd_drop_socket cfg sid n) = nd_channel i n"
  "find_reader_by_node i (nd_drop_socket cfg sid n) = find_reader_by_node i n"
  "find_writer_by_socket s (nd_drop_socket cfg sid n) = find_writer_by_socket s n"
  "nd_maps_ok (nd_drop_socket cfg sid n) = nd_maps_ok n"
  "nd_peer s (nd_drop_socket cfg sid n) = nd_peer s n"
  by (simp_all add: nd_drop_socket_def nd_channel_def find_reader_by_node_def find_writer_by_socket_def
      nd_maps_ok_def nd_peer_def split: option.split)

lemma nd_forgotten_ignores [simp]:
  "nd_forgotten sid (nd_emit evs n) = nd_forgotten sid n"
  "nd_forgotten sid (nd_erase_reader s n) = nd_forgotten sid n"
  "nd_forgotten sid (nd_erase_writer i n) = nd_forgotten sid n"
  "nd_forgotten sid (n\<lparr>nd_readers := rs\<rparr>) = nd_forgotten sid n"
  "nd_forgotten sid (n\<lparr>nd_writers := ws\<rparr>) = nd_forgotten sid n"
  "nd_forgotten sid (n\<lparr>nd_log := evs\<rparr>) = nd_forgotten sid n"
  by (simp_all add: nd_forgotten_def nd_emit_def nd_erase_reader_def nd_erase_writer_def)

lemma nd_drop_forgotten:
  "nd_forgotten sid (nd_drop_socket cfg sid n)"
  "nd_forgotten sid n \<Longrightarrow> nd_forgotten sid (nd_drop_socket cfg s n)"
  by (auto simp: nd_forgotten_def nd_drop_socket_def hb_remove_def rp_remove_later_def wp_remove_later_def
      sp_remove_later_def set_delete)

text \<open>What is left of the maps when the channel of a node is gone.\<close>

definition nd_without :: "'id option \<Rightarrow> ('id, 'q, 'd) node \<Rightarrow> ('id, 'q, 'd) node \<Rightarrow> bool" where
  "nd_without peer n n' \<longleftrightarrow>
     nd_readers n' = filter (\<lambda>p. Some (snd p) \<noteq> peer) (nd_readers n) \<and>
     nd_writers n' = filter (\<lambda>p. Some (fst p) \<noteq> peer) (nd_writers n) \<and>
     nd_log n' = nd_log n @
       (case peer of None \<Rightarrow> [] | Some i \<Rightarrow> if nd_channel i n then [EvNodeDisconnected i] else [])"

lemma nd_without_maps_ok:
  assumes "nd_maps_ok n" and "nd_without peer n n'"
  shows "nd_maps_ok n'"
  using assms by (auto simp: nd_maps_ok_def nd_without_def distinct_map_filter)

lemma nd_close_channel_result:
  assumes ok: "nd_maps_ok n"
  shows "\<exists>n'. nd_close_channel cfg sid n = Inr n' \<and> nd_without (nd_peer sid n) n n' \<and>
    (\<forall>s. nd_forgotten s n \<longrightarrow> nd_forgotten s n')"
proof -
  have d: "distinct (map fst (nd_readers n))" "distinct (map snd (nd_readers n))"
    "distinct (map fst (nd_writers n))" "distinct (map snd (nd_writers n))"
    and agree: "\<And>s i j. (s, i) \<in> set (nd_readers n) \<Longrightarrow> (j, s) \<in> set (nd_writers n) \<Longrightarrow> i = j"
    using ok by (auto simp: nd_maps_ok_def)
  have fw: "find_writer_by_socket sid n = Some i \<longleftrightarrow> (i, sid) \<in> set (nd_writers n)" for i
    unfolding find_writer_by_socket_def by (rule find_Some_iff_distinct [OF d(4)])
  have fwn: "find_writer_by_socket sid n = None \<longleftrightarrow> sid \<notin> snd ` set (nd_writers n)"
    unfolding find_writer_by_socket_def by (rule find_None_iff)
  have fr: "find_reader_by_node i n = Some s \<longleftrightarrow> (s, i) \<in> set (nd_readers n)" for i s
    unfolding find_reader_by_node_def by (rule find_Some_iff_distinct [OF d(2)])
  have frn: "find_reader_by_node i n = None \<longleftrightarrow> i \<notin> snd ` set (nd_readers n)" for i
    unfolding find_reader_by_node_def by (rule find_None_iff)
  have mr: "map_of (nd_readers n) s = Some i \<longleftrightarrow> (s, i) \<in> set (nd_readers n)" for s i
    using d(1) by (simp add: map_of_eq_Some_iff)
  have mw: "map_of (nd_writers n) i = Some s \<longleftrightarrow> (i, s) \<in> set (nd_writers n)" for s i
    using d(3) by (simp add: map_of_eq_Some_iff)
  have er: "AList.delete s (nd_readers n) = filter (\<lambda>p. snd p \<noteq> i) (nd_readers n)" if "(s, i) \<in> set (nd_readers n)" for s i
    by (rule filter_value [OF d(1,2) that])
  have all: "filter P xs = xs" if "\<forall>x \<in> set xs. P x" for P and xs :: "'x list"
    using that by (simp add: filter_id_conv)
  note fields = nd_without_def nd_emit_def nd_erase_reader_def nd_erase_writer_def filter_key [of _ "nd_writers n"]
  show ?thesis
  proof (cases "map_of (nd_readers n) sid")
    case None
    show ?thesis
    proof (cases "find_writer_by_socket sid n")
      case None
      with \<open>map_of (nd_readers n) sid = None\<close> show ?thesis
        by (simp add: nd_close_channel_def nd_peer_def nd_without_def)
    next
      case (Some i)
      then have w: "(i, sid) \<in> set (nd_writers n)" by (simp add: fw)
      have peer: "nd_peer sid n = Some i" using None Some by (simp add: nd_peer_def)
      show ?thesis
      proof (cases "find_reader_by_node i n")
        case (Some s)
        then have r: "(s, i) \<in> set (nd_readers n)" by (simp add: fr)
        then have "nd_channel i n" using w by (force simp: nd_channel_def)
        with None \<open>find_writer_by_socket sid n = Some i\<close> Some peer er [OF r] show ?thesis
          by (auto simp: nd_close_channel_def fields nd_drop_forgotten(2))
      next
        case None
        then have "i \<notin> snd ` set (nd_readers n)" by (simp add: frn)
        then have "\<not> nd_channel i n" "filter (\<lambda>p. snd p \<noteq> i) (nd_readers n) = nd_readers n"
          by (auto simp: nd_channel_def filter_id_conv)
        with \<open>map_of (nd_readers n) sid = None\<close> \<open>find_writer_by_socket sid n = Some i\<close> None peer show ?thesis
          by (simp add: nd_close_channel_def fields)
      qed
    qed
  next
    case (Some r)
    then have rr: "(sid, r) \<in> set (nd_readers n)" by (simp add: mr)
    have peer: "nd_peer sid n = Some r" using Some by (simp add: nd_peer_def)
    show ?thesis
    proof (cases "find_writer_by_socket sid n")
      case (Some i)
      then have w: "(i, sid) \<in> set (nd_writers n)" by (simp add: fw)
      with agree [OF rr] have "i = r" by simp
      moreover from rr w this have "nd_channel r n" by (force simp: nd_channel_def)
      ultimately show ?thesis
        using \<open>map_of (nd_readers n) sid = Some r\<close> Some peer er [OF rr]
        by (simp add: nd_close_channel_def fields)
    next
      case None
      show ?thesis
      proof (cases "map_of (nd_writers n) r")
        case (Some s)
        then have "nd_channel r n" using rr by (force simp: nd_channel_def mw)
        with \<open>map_of (nd_readers n) sid = Some r\<close> None Some peer er [OF rr] show ?thesis
          by (auto simp: nd_close_channel_def fields nd_drop_forgotten(2))
      next
        case None
        then have "r \<notin> fst ` set (nd_writers n)" by (simp add: map_of_eq_None_iff)
        then have "\<not> nd_channel r n" "filter (\<lambda>p. fst p \<noteq> r) (nd_writers n) = nd_writers n"
          by (auto simp: nd_channel_def filter_id_conv)
        with \<open>map_of (nd_readers n) sid = Some r\<close> \<open>find_writer_by_socket sid n = None\<close> None peer er [OF rr]
        show ?thesis
          by (simp add: nd_close_channel_def fields)
      qed
    qed
  qed
qed

subsection \<open>The life of a channel\<close>

text \<open>Whether a node is connected according to the log: \<open>None\<close> if the callbacks do not alternate.\<close>

fun link_run :: "'id \<Rightarrow> bool \<Rightarrow> 'id node_event list \<Rightarrow> bool option" where
  "link_run i b [] = Some b"
| "link_run i b (EvNodeConnected j # evs) =
     (if i \<noteq> j then link_run i b evs else if b then None else link_run i True evs)"
| "link_run i b (EvNodeDisconnected j # evs) =
     (if i \<noteq> j then link_run i b evs else if b then link_run i False evs else None)"
| "link_run i b (_ # evs) = link_run i b evs"

fun quiet_event :: "'id node_event \<Rightarrow> bool" where
  "quiet_event (EvNodeConnected i) = False"
| "quiet_event (EvNodeDisconnected i) = False"
| "quiet_event _ = True"

lemma link_run_append: "link_run i b (xs @ ys) = Option.bind (link_run i b xs) (\<lambda>b. link_run i b ys)"
  by (induction i b xs rule: link_run.induct) auto

lemma link_run_quiet: "list_all quiet_event evs \<Longrightarrow> link_run i b evs = Some b"
  by (induction i b evs rule: link_run.induct) auto

definition nd_live :: "('id, 'q, 'd) node \<Rightarrow> bool" where
  "nd_live n \<longleftrightarrow> nd_maps_ok n \<and> (\<forall>i. link_run i False (nd_log n) = Some (nd_channel i n))"

text \<open>An operation that touches neither the maps nor the callbacks about channels.\<close>

definition nd_frame :: "('id, 'q, 'd) node \<Rightarrow> ('id, 'q, 'd) node \<Rightarrow> bool" where
  "nd_frame n n' \<longleftrightarrow> nd_readers n' = nd_readers n \<and> nd_writers n' = nd_writers n \<and>
     (\<exists>evs. nd_log n' = nd_log n @ evs \<and> list_all quiet_event evs)"

lemma nd_frame_live: "nd_frame n n' \<Longrightarrow> nd_live n \<Longrightarrow> nd_live n'"
  by (auto simp: nd_frame_def nd_live_def nd_maps_ok_def nd_channel_def link_run_append link_run_quiet)

lemma nd_frame_refl: "nd_frame n n"
  by (simp add: nd_frame_def exI [of _ "[]"])

lemma nd_frame_trans: "nd_frame a b \<Longrightarrow> nd_frame b c \<Longrightarrow> nd_frame a c"
  by (auto simp: nd_frame_def)

lemma nd_frame_emit: "list_all quiet_event evs \<Longrightarrow> nd_frame n (nd_emit evs n)"
  by (simp add: nd_frame_def nd_emit_def)

lemma quiet_wrapped [simp]:
  "list_all quiet_event (map EvWriter a)" "list_all quiet_event (map EvReader b)"
  "list_all quiet_event (map EvListener c)" "list_all quiet_event (map EvConnecting d)"
  by (simp_all add: list_all_iff)

lemma nd_frame_tick: "nd_frame n (nd_tick n')" if "nd_frame n n'"
  using that by (simp add: nd_frame_def nd_tick_def)

lemma nd_frame_drop: "nd_frame n (nd_drop_socket cfg sid n)"
  by (simp add: nd_frame_def exI [of _ "[]"])

lemma nd_send_private_frame: "nd_send_private cfg sid pr data n = Inr n' \<Longrightarrow> nd_frame n n'"
  by (auto simp: nd_send_private_def nd_frame_def nd_emit_def)

lemma nd_schedule_result:
  "nd_schedule_reconnection cfg sid n = Inr n' \<Longrightarrow> n' = n \<or> (\<exists>c. n' = nd_tick (n\<lparr>nd_connecting := c\<rparr>))"
  unfolding nd_schedule_reconnection_def by (auto split: if_splits option.splits prod.splits)

lemma nd_schedule_frame: "nd_schedule_reconnection cfg sid n = Inr n' \<Longrightarrow> nd_frame n n'"
  by (drule nd_schedule_result) (auto simp: nd_frame_def nd_tick_def exI [of _ "[]"])

lemma link_without:
  assumes "nd_maps_ok n" and "nd_without peer n n'" and "link_run i False (nd_log n) = Some (nd_channel i n)"
  shows "link_run i False (nd_log n') = Some (nd_channel i n')"
proof (cases "peer = Some i")
  case True
  then have "\<not> nd_channel i n'" using assms(2) by (auto simp: nd_without_def nd_channel_def)
  with True assms show ?thesis by (auto simp: nd_without_def link_run_append)
next
  case False
  then have "nd_channel i n' = nd_channel i n"
    using assms(2) by (force simp: nd_without_def nd_channel_def image_iff)
  with False assms show ?thesis by (auto simp: nd_without_def link_run_append split: option.splits)
qed

lemma nd_close_live:
  assumes "nd_close_socket cfg sid n = Inr n'" and "nd_live n"
  shows "nd_live n'"
proof -
  have l: "nd_live (nd_drop_socket cfg sid n)" using nd_frame_live [OF nd_frame_drop assms(2)] .
  then have m: "nd_maps_ok (nd_drop_socket cfg sid n)" by (simp add: nd_live_def)
  from nd_close_channel_result [OF m, of cfg sid] assms(1)
  have w: "nd_without (nd_peer sid (nd_drop_socket cfg sid n)) (nd_drop_socket cfg sid n) n'"
    by (auto simp: nd_close_socket_def)
  from l link_without [OF m w] nd_without_maps_ok [OF m w] show ?thesis by (simp add: nd_live_def)
qed

lemma nd_reconnect_close_live:
  "bindr (nd_schedule_reconnection cfg sid n) (nd_close_socket cfg sid) = Inr n' \<Longrightarrow> nd_live n \<Longrightarrow> nd_live n'"
  by (auto dest: nd_close_live nd_frame_live [OF nd_schedule_frame])

text \<open>A socket and a node between which there is nothing yet.\<close>

definition nd_fresh :: "'id \<Rightarrow> socket_id \<Rightarrow> ('id, 'q, 'd) node \<Rightarrow> bool" where
  "nd_fresh i sid n \<longleftrightarrow> sid \<notin> fst ` set (nd_readers n) \<and> sid \<notin> snd ` set (nd_writers n) \<and>
     i \<notin> snd ` set (nd_readers n) \<and> i \<notin> fst ` set (nd_writers n)"

lemma nd_fresh_frame: "nd_frame n n' \<Longrightarrow> nd_fresh i sid n' = nd_fresh i sid n"
  by (simp add: nd_frame_def nd_fresh_def)

lemma update_new: "k \<notin> fst ` set xs \<Longrightarrow> AList.update k v xs = xs @ [(k, v)]"
  by (induction xs) auto

lemma nd_complete_result:
  assumes "nd_fresh i sid n"
  shows "\<exists>n'. hs_reader_writer (nd_hs_host cfg) i sid n = Inr n' \<and>
    nd_readers n' = nd_readers n @ [(sid, i)] \<and> nd_writers n' = nd_writers n @ [(i, sid)] \<and>
    nd_log n' = nd_log n @ [EvNodeConnected i]"
  using assms
  by (auto simp: hs_reader_writer_def nd_hs_host_def nd_on_completed_def nd_fresh_def Let_def nd_tick_def
      nd_emit_def update_new map_of_eq_None_iff find_reader_None)

lemma nd_complete_live:
  assumes "nd_fresh i sid n" and "hs_reader_writer (nd_hs_host cfg) i sid n = Inr n'" and "nd_live n"
  shows "nd_live n'"
proof -
  from nd_complete_result [OF assms(1), of cfg] assms(2)
  have n': "nd_readers n' = nd_readers n @ [(sid, i)]" "nd_writers n' = nd_writers n @ [(i, sid)]"
    "nd_log n' = nd_log n @ [EvNodeConnected i]" by auto
  have "nd_maps_ok n'"
    using assms(1,3) unfolding nd_maps_ok_def nd_live_def nd_fresh_def n' by (force simp: image_iff)
  moreover have "\<not> nd_channel i n" using assms(1) by (simp add: nd_fresh_def nd_channel_def)
  then have "link_run j False (nd_log n') = Some (nd_channel j n')" for j
    using assms(3) by (auto simp: nd_live_def n' link_run_append nd_channel_def)
  ultimately show ?thesis by (simp add: nd_live_def)
qed

subsection \<open>Every operation keeps the channels alive\<close>

lemma nd_live_fields:
  assumes "nd_live n" and "nd_readers n' = nd_readers n" and "nd_writers n' = nd_writers n" and "nd_log n' = nd_log n"
  shows "nd_live n'"
  using assms by (simp add: nd_live_def nd_maps_ok_def nd_channel_def)

lemma nd_live_emit: "nd_live n \<Longrightarrow> list_all quiet_event evs \<Longrightarrow> nd_live (nd_emit evs n)"
  by (rule nd_frame_live [OF nd_frame_emit])

lemma hs_check_loop_inv:
  assumes "hs_check_loop host now c n = Inr n'" and "P n"
    and "\<And>sid n n'. P n \<Longrightarrow> hh_on_expired host sid n = Inr n' \<Longrightarrow> P n'"
    and "\<And>c n. P n \<Longrightarrow> P (hh_set_cache host c n)"
  shows "P n'"
  using assms(1,2)
proof (induction c arbitrary: n)
  case (Cons e c)
  obtain sid t where e: "e = (sid, t)" by (cases e)
  from Cons.prems(1) e obtain limit where l: "map_of (hh_cache host n) sid = Some limit"
    by (auto split: option.splits)
  show ?case
  proof (cases "limit \<le> now")
    case True
    with Cons.prems(1) e l obtain n1
      where n1: "hh_on_expired host sid (hh_set_cache host (AList.delete sid (hh_cache host n)) n) = Inr n1"
        "hs_check_loop host now c n1 = Inr n'" by auto
    from assms(3) [OF assms(4) [OF Cons.prems(2)] n1(1)] show ?thesis by (rule Cons.IH [OF n1(2)])
  next
    case False
    with Cons e l show ?thesis by simp
  qed
qed simp

lemma hb_send_loop_inv:
  assumes "hb_send_loop host now out q n = Inr (tmp, n')" and "P n"
    and "\<And>sid pr d n n'. P n \<Longrightarrow> bh_send_private host sid pr d n = Inr n' \<Longrightarrow> P n'"
    and "\<And>st n. P n \<Longrightarrow> P (bh_put host st n)"
  shows "P n'"
  using assms(1,2)
proof (induction q arbitrary: n tmp)
  case (Cons e q)
  obtain t sid where e: "e = (t, sid)" by (cases e)
  show ?case
  proof (cases "t \<le> now")
    case True
    with Cons.prems(1) e obtain n1 tmp' where n1: "bh_send_private host sid 0 out n = Inr n1"
      "hb_send_loop host now out q (bh_put host ((bh_get host n1)\<lparr>hb_q := q\<rparr>) n1) = Inr (tmp', n')" by auto
    from assms(4) [OF assms(3) [OF Cons.prems(2) n1(1)]] show ?thesis by (rule Cons.IH [OF n1(2)])
  next
    case False
    with Cons e show ?thesis by simp
  qed
qed simp

lemma hb_expire_loop_inv:
  assumes "hb_expire_loop host now c n = Inr n'" and "P n"
    and "\<And>sid n n'. P n \<Longrightarrow> bh_on_expired host sid n = Inr n' \<Longrightarrow> P n'"
    and "\<And>st n. P n \<Longrightarrow> P (bh_put host st n)"
  shows "P n'"
  using assms(1,2)
proof (induction c arbitrary: n)
  case (Cons e c)
  obtain sid t where e: "e = (sid, t)" by (cases e)
  from Cons.prems(1) e obtain limit where l: "map_of (hb_limits (bh_get host n)) sid = Some limit"
    by (auto split: option.splits)
  show ?case
  proof (cases "limit \<le> now")
    case True
    with Cons.prems(1) e l obtain n1
      where n1: "bh_on_expired host sid (bh_put host (hb_remove sid (bh_get host n)) n) = Inr n1"
        "hb_expire_loop host now c n1 = Inr n'" by auto
    from assms(3) [OF assms(4) [OF Cons.prems(2)] n1(1)] show ?thesis by (rule Cons.IH [OF n1(2)])
  next
    case False
    with Cons e l show ?thesis by simp
  qed
qed simp

lemma nd_send_live: "nd_send cfg i pr cs data n = Inr n' \<Longrightarrow> nd_live n \<Longrightarrow> nd_live n'"
  by (auto simp: nd_send_def ms_send_def intro: nd_live_emit split: option.splits
      dest: nd_frame_live [OF nd_send_private_frame])

lemma nd_writer_step_live:
  assumes "nd_writer_step cfg env n = Inr n'" and "nd_live n"
  shows "nd_live n'"
proof -
  from assms(1) obtain p evs where *: "foldr_res (nd_writer_event cfg) evs (n\<lparr>nd_writer := p\<rparr>) = Inr n'"
    by (auto simp: nd_writer_step_def)
  show ?thesis
  proof (rule foldr_res_inv [OF *])
    show "nd_live (n\<lparr>nd_writer := p\<rparr>)" by (rule nd_live_fields [OF assms(2)]) simp_all
  next
    fix e u w
    assume u: "nd_live u" "nd_writer_event cfg e u = Inr w"
    have "nd_live (nd_emit [EvWriter e] u)" by (rule nd_live_emit [OF u(1)]) simp
    with u(2) show "nd_live w"
      by (cases e) (auto simp: nd_writer_event_def intro: nd_close_live nd_frame_live nd_schedule_frame)
  qed
qed

lemma nd_reader_add_live:
  assumes "nd_reader_add cfg add_err sid n = Some (Inr n')" and "nd_live n"
  shows "nd_live n'"
proof -
  from assms(1) obtain p evs where r: "rp_add add_err sid (nd_reader n) = Inr (p, evs)"
    and *: "foldo (nd_reader_event cfg) evs (n\<lparr>nd_reader := p\<rparr>) = Some (Inr n')"
    by (auto simp: nd_reader_add_def split: sum.splits)
  from r have evs: "\<forall>e \<in> set evs. e = RpPollerAdd sid \<or> (\<exists>err. e = RpFailure sid err)"
    by (auto simp: rp_add_def rp_ensure_account_def Let_def split: option.splits)
  show ?thesis
  proof (rule foldo_inv [OF *])
    show "nd_live (n\<lparr>nd_reader := p\<rparr>)" by (rule nd_live_fields [OF assms(2)]) simp_all
  next
    fix e u w
    assume e: "e \<in> set evs" and u: "nd_live u" "nd_reader_event cfg e u = Some (Inr w)"
    have "nd_live (nd_emit [EvReader e] u)" by (rule nd_live_emit [OF u(1)]) simp
    moreover from e evs have "e = RpPollerAdd sid \<or> (\<exists>err. e = RpFailure sid err)" by blast
    ultimately show "nd_live w"
      using u(2) by (auto simp: nd_reader_event_def intro: nd_close_live)
  qed
qed

lemma nd_on_accepted_live:
  assumes "nd_on_accepted cfg add_err sock n = Some (Inr n')" and "nd_live n"
  shows "nd_live n'"
proof -
  from assms(1) obtain d n1 p where n1: "nd_reader_add cfg add_err (so_id sock) (n\<lparr>nd_input := d\<rparr>) = Some (Inr n1)"
    and n': "n' = n1\<lparr>nd_sockets := p\<rparr>" by (auto simp: nd_on_accepted_def bindo_eq_Inr)
  have "nd_live (n\<lparr>nd_input := d\<rparr>)" by (rule nd_live_fields [OF assms(2)]) simp_all
  from nd_reader_add_live [OF n1 this] show ?thesis by (rule nd_live_fields) (simp_all add: n')
qed

lemma nd_hs_send_frame:
  "hs_send io (nd_hs_host cfg) now sid way n = Inr n' \<Longrightarrow> nd_frame n n'"
  by (auto simp: hs_send_def nd_hs_host_def Let_def nd_frame_def split: if_splits dest!: nd_send_private_frame)

lemma nd_on_connected_live:
  assumes "nd_on_connected cfg add_err sock n = Some (Inr n')" and "nd_live n"
  shows "nd_live n'"
proof -
  from assms(1) obtain n0 d n1 p
    where n0: "hs_start (nc_io cfg) (nd_hs_host cfg) (nd_now n) (so_id sock) (nd_tick n) = Inr n0"
      and n1: "nd_reader_add cfg add_err (so_id sock) (n0\<lparr>nd_input := d\<rparr>) = Some (Inr n1)"
      and n': "n' = n1\<lparr>nd_sockets := p\<rparr>" by (auto simp: nd_on_connected_def bindo_eq_Inr)
  have "nd_live (nd_tick n)" by (rule nd_live_fields [OF assms(2)]) (simp_all add: nd_tick_def)
  with n0 have "nd_live n0" by (auto simp: hs_start_def dest: nd_frame_live [OF nd_hs_send_frame])
  then have "nd_live (n0\<lparr>nd_input := d\<rparr>)" by (rule nd_live_fields) simp_all
  from nd_reader_add_live [OF n1 this] show ?thesis by (rule nd_live_fields) (simp_all add: n')
qed

lemma nd_handshake_step_live:
  assumes "nd_handshake_step cfg n = Inr n'" and "nd_live n"
  shows "nd_live n'"
proof (cases "nd_handshakes n = []")
  case True
  with assms show ?thesis by (simp add: nd_handshake_step_def)
next
  case False
  with assms(1) have "hs_check_loop (nd_hs_host cfg) (nd_now n) (nd_handshakes (nd_tick n)) (nd_tick n) = Inr n'"
    by (simp add: nd_handshake_step_def hs_step_def hs_check_expired_def nd_hs_host_def)
  then show ?thesis
  proof (rule hs_check_loop_inv)
    show "nd_live (nd_tick n)" by (rule nd_live_fields [OF assms(2)]) (simp_all add: nd_tick_def)
    show "nd_live u \<Longrightarrow> hh_on_expired (nd_hs_host cfg) sid u = Inr w \<Longrightarrow> nd_live w" for sid u w
      by (simp add: nd_hs_host_def nd_close_live)
    show "nd_live u \<Longrightarrow> nd_live (hh_set_cache (nd_hs_host cfg) c u)" for c u
      by (erule nd_live_fields) (simp_all add: nd_hs_host_def)
  qed
qed

lemma nd_heartbeat_step_live:
  assumes "nd_heartbeat_step cfg n = Inr n'" and "nd_live n"
  shows "nd_live n'"
proof -
  let ?h = "nd_hb_host cfg"
  have put: "nd_live u \<Longrightarrow> nd_live (bh_put ?h st u)" for st u
    by (erule nd_live_fields) (simp_all add: nd_hb_host_def)
  have send: "nd_live u \<Longrightarrow> bh_send_private ?h sid pr d u = Inr w \<Longrightarrow> nd_live w" for sid pr d u w
    by (simp add: nd_hb_host_def nd_frame_live [OF nd_send_private_frame])
  have expired: "nd_live u \<Longrightarrow> bh_on_expired ?h sid u = Inr w \<Longrightarrow> nd_live w" for sid u w
    by (rule nd_reconnect_close_live) (simp_all add: nd_hb_host_def)
  define k where "k = Suc (length (hb_q (nd_heartbeat n)))"
  define n0 where "n0 = n\<lparr>nd_clock := (\<lambda>i. nd_clock n (Suc (k + i)))\<rparr>"
  have n0: "nd_live n0" by (rule nd_live_fields [OF assms(2)]) (simp_all add: n0_def)
  from assms(1) have "hb_step (nc_io cfg) ?h (nd_clock n) (nd_clock n k) n0 = Inr n'"
    by (simp add: nd_heartbeat_step_def k_def n0_def Let_def)
  then obtain n1 where n1: "hb_q (bh_get ?h n0) = [] \<and> n1 = n0 \<or>
      (\<exists>tmp m. hb_send_loop ?h (nd_clock n 0) (heartbeat_packet_serialize (nc_io cfg) heartbeat_packet_new)
          (hb_q (bh_get ?h n0)) n0 = Inr (tmp, m) \<and> n1 = bh_put ?h (hb_requeue (nd_clock n) 1 tmp (bh_get ?h m)) m)"
    "hb_expire_loop ?h (nd_clock n k) (hb_limits (bh_get ?h n1)) n1 = Inr n'"
    by (fastforce simp: hb_step_def split: if_splits)
  have "nd_live n1"
    using n1(1)
  proof
    assume "\<exists>tmp m. hb_send_loop ?h (nd_clock n 0) (heartbeat_packet_serialize (nc_io cfg) heartbeat_packet_new)
        (hb_q (bh_get ?h n0)) n0 = Inr (tmp, m) \<and> n1 = bh_put ?h (hb_requeue (nd_clock n) 1 tmp (bh_get ?h m)) m"
    then obtain tmp m where m: "hb_send_loop ?h (nd_clock n 0) (heartbeat_packet_serialize (nc_io cfg) heartbeat_packet_new)
        (hb_q (bh_get ?h n0)) n0 = Inr (tmp, m)" "n1 = bh_put ?h (hb_requeue (nd_clock n) 1 tmp (bh_get ?h m)) m"
      by blast
    from hb_send_loop_inv [where P = nd_live, OF m(1) n0] send put have "nd_live m" by blast
    with m(2) put show ?thesis by simp
  qed (use n0 in simp)
  from hb_expire_loop_inv [where P = nd_live, OF n1(2) this] expired put show ?thesis by blast
qed

lemma nd_apply_removes_live: "nd_apply_removes n = Inr n' \<Longrightarrow> nd_live n \<Longrightarrow> nd_live n'"
proof -
  assume r: "nd_apply_removes n = Inr n'" and n: "nd_live n"
  from r have "nd_frame n n'"
    by (auto simp: nd_apply_removes_def nd_frame_def nd_emit_def case_prod_unfold Let_def)
  then show ?thesis by (rule nd_frame_live [OF _ n])
qed

lemma nd_message_live: "nd_live n \<Longrightarrow> nd_live (nd_message_received sid d n)"
  by (auto simp: nd_message_received_def intro: nd_live_emit split: option.split)

text \<open>A handshake packet is expected if it names a node with which, and comes on a socket on which,
  there is no channel yet.\<close>

definition nd_expected :: "('i, 'id, 'q, 'd) node_cfg \<Rightarrow> socket_id \<Rightarrow> wire_packet \<Rightarrow> ('id, 'q, 'd) node \<Rightarrow> bool" where
  "nd_expected cfg sid p n \<longleftrightarrow>
     (case p of
        WpHandshake pkt \<Rightarrow> (case nc_parse cfg (hp_id pkt) of None \<Rightarrow> True | Some i \<Rightarrow> nd_fresh i sid n)
      | _ \<Rightarrow> True)"

lemma nd_ready_live:
  assumes "hs_handshake_ready (nd_hs_host cfg) sid i resp bn n = Inr n'" and "nd_fresh i sid n" and "nd_live n"
  shows "nd_live n'"
proof -
  have c: "hh_on_completed (nd_hs_host cfg) i sid HrUnusable n = nd_close_socket cfg sid n"
    by (simp add: nd_hs_host_def nd_on_completed_def)
  show ?thesis
    using assms(1) nd_complete_live [OF assms(2) _ assms(3)] nd_close_live [OF _ assms(3)] assms(3)
    by (auto simp: hs_handshake_ready_def c split: if_splits)
qed

lemma nd_process_packet_live:
  assumes "nd_process_packet cfg sid p n = Inr n'" and "nd_expected cfg sid p n" and "nd_live n"
  shows "nd_live n'"
proof (cases p)
  case (WpHandshake pkt)
  let ?h = "nd_hs_host cfg"
  let ?n = "nd_tick n"
  have live: "nd_live ?n" by (rule nd_live_fields [OF assms(3)]) (simp_all add: nd_tick_def)
  have cancel: "nd_frame ?n (hs_cancel ?h sid ?n)"
    by (simp add: nd_frame_def hs_cancel_def nd_hs_host_def exI [of _ "[]"])
  from assms(1) WpHandshake have r: "hs_process (nc_io cfg) ?h (nd_now n) sid pkt ?n = Inr n'"
    by (simp add: nd_process_packet_def)
  show ?thesis
  proof (cases "nc_parse cfg (hp_id pkt)")
    case None
    then have "nd_close_socket cfg sid (hs_cancel ?h sid ?n) = Inr n'"
      using r by (simp add: hs_process_def nd_hs_host_def)
    then show ?thesis by (rule nd_close_live) (rule nd_frame_live [OF cancel live])
  next
    case (Some i)
    with assms(2) WpHandshake have fresh: "nd_fresh i sid ?n"
      by (simp add: nd_expected_def nd_fresh_def nd_tick_def)
    have p: "hh_parse ?h (hp_id pkt) = Some i" using Some by (simp add: nd_hs_host_def)
    show ?thesis
    proof (cases "map_of (hh_cache ?h ?n) sid")
      case None
      show ?thesis
      proof (cases "hp_is_response pkt")
        case True
        with None r p have "n' = ?n" by (simp add: hs_process_def)
        with live show ?thesis by simp
      next
        case False
        with None r p obtain x where x: "hs_send (nc_io cfg) ?h (nd_now n) sid WayResponse ?n = Inr x"
          "hs_handshake_ready ?h sid i False (hp_is_behind_nat pkt) x = Inr n'"
          by (auto simp: hs_process_def)
        from nd_hs_send_frame [OF x(1)] have f: "nd_frame ?n x" .
        from x(2) show ?thesis
          by (rule nd_ready_live) (simp_all add: nd_fresh_frame [OF f] fresh nd_frame_live [OF f live])
      qed
    next
      case (Some t)
      with r p have "hs_handshake_ready ?h sid i (hp_is_response pkt) (hp_is_behind_nat pkt) (hs_cancel ?h sid ?n) = Inr n'"
        by (simp add: hs_process_def)
      then show ?thesis
        by (rule nd_ready_live) (simp_all add: nd_fresh_frame [OF cancel] fresh nd_frame_live [OF cancel live])
    qed
  qed
next
  case (WpHeartbeat pkt)
  with assms(1) show ?thesis
    by (auto simp: nd_process_packet_def nd_tick_def intro: nd_live_fields [OF assms(3)])
next
  case (WpData d)
  with assms(1,3) show ?thesis by (auto simp: nd_process_packet_def nd_message_live)
qed

subsection \<open>The node as a state machine\<close>

inductive nd_trans :: "('i, 'id :: linorder, 'q, 'd) node_cfg \<Rightarrow> ('id, 'q, 'd) node \<Rightarrow> ('id, 'q, 'd) node \<Rightarrow> bool"
  for cfg where
  sends: "nd_send cfg i pr cs data n = Inr n' \<Longrightarrow> nd_trans cfg n n'"
| receives: "nd_process_packet cfg sid p n = Inr n' \<Longrightarrow> nd_expected cfg sid p n \<Longrightarrow> nd_trans cfg n n'"
| read_fails: "nd_reader_event cfg (RpFailure sid e) n = Some (Inr n') \<Longrightarrow> nd_trans cfg n n'"
| disconnects: "nd_reader_event cfg (RpDisconnected sid) n = Some (Inr n') \<Longrightarrow> nd_trans cfg n n'"
| writes: "nd_writer_step cfg env n = Inr n' \<Longrightarrow> nd_trans cfg n n'"
| accepts: "nd_on_accepted cfg add_err sock n = Some (Inr n') \<Longrightarrow> nd_trans cfg n n'"
| connects: "nd_on_connected cfg add_err sock n = Some (Inr n') \<Longrightarrow> nd_trans cfg n n'"
| refused: "nd_trans cfg n (nd_on_refused cfg saddr n)"
| handshakes_expire: "nd_handshake_step cfg n = Inr n' \<Longrightarrow> nd_trans cfg n n'"
| heartbeats: "nd_heartbeat_step cfg n = Inr n' \<Longrightarrow> nd_trans cfg n n'"
| removes: "nd_apply_removes n = Inr n' \<Longrightarrow> nd_trans cfg n n'"

inductive_cases nd_transE: "nd_trans cfg n n'"

lemma nd_trans_live: "nd_trans cfg n n' \<Longrightarrow> nd_live n \<Longrightarrow> nd_live n'"
proof (induction rule: nd_trans.induct)
  case (read_fails sid e n n')
  have "nd_live (nd_emit [EvReader (RpFailure sid e)] n)" by (rule nd_live_emit [OF read_fails(2)]) simp
  with read_fails(1) show ?case by (auto simp: nd_reader_event_def intro: nd_close_live)
next
  case (disconnects sid n n')
  have "nd_live (nd_emit [EvReader (RpDisconnected sid)] n)" by (rule nd_live_emit [OF disconnects(2)]) simp
  with disconnects(1) show ?case
    by (auto simp: nd_reader_event_def intro: nd_close_live nd_frame_live nd_schedule_frame)
next
  case (refused n saddr)
  then show ?case by (auto simp: nd_on_refused_def nd_tick_def intro: nd_live_fields)
qed (auto intro: nd_send_live nd_process_packet_live nd_writer_step_live nd_on_accepted_live nd_on_connected_live
      nd_handshake_step_live nd_heartbeat_step_live nd_apply_removes_live)

lemma nd_new_live: "nd_live (nd_new i bn ip clock)"
  by (simp add: nd_live_def nd_new_def nd_maps_ok_def nd_channel_def)

lemma nd_reachable_live: "(nd_trans cfg)\<^sup>*\<^sup>* (nd_new i bn ip clock) n \<Longrightarrow> nd_live n"
  by (induction rule: rtranclp_induct) (auto intro: nd_new_live nd_trans_live)

end
