(* ===== verification/NodeChannels.thy ===== *)
theory NodeChannels
  imports Node PriorityQueue
begin

text \<open>
  The properties of \<open>meshnet::node\<close> (theory \<open>Node\<close>): what closing a socket does, the life of a channel
  over every run, sending, and the runs in which the code ends in a failed assertion or uses an erased
  object.
\<close>

subsection \<open>Configurations for the examples\<close>

definition demo_cfg :: "(mem_stream, int, writer_queue, simple_ip) node_cfg" where
  "demo_cfg = \<lparr>nc_io = be_streams, nc_queue = wq_ops, nc_ip = si_ops, nc_ip_add = si_add,
     nc_ip_remove = si_remove, nc_stringify = byte_id, nc_parse = byte_id_parse, nc_reconnection = seconds 5\<rparr>"

definition demo_node :: "(int, writer_queue, simple_ip) node" where
  "demo_node = nd_new 2 False si_new (\<lambda>i. int i)"

subsection \<open>Closing\<close>

lemma nd_close_channel_input:
  "nd_close_channel cfg sid n = Inr n' \<Longrightarrow>
     nd_input n' = nd_input n \<or> (\<exists>s. nd_input n' = nc_ip_remove cfg s (nd_input n))"
  by (auto simp: nd_close_channel_def nd_emit_def nd_erase_reader_def nd_erase_writer_def nd_drop_socket_def
      split: option.splits if_splits)

lemma nd_close_si:
  assumes "nc_ip_remove cfg = si_remove" and "nd_close_socket cfg sid n = Inr n'"
  shows "si_accounts (nd_input n') sid = None"
proof -
  have "si_accounts (nd_input (nd_drop_socket cfg sid n)) sid = None"
    using assms(1) by (simp add: nd_drop_socket_def si_remove_def)
  with nd_close_channel_input [OF assms(2) [unfolded nd_close_socket_def]] assms(1) show ?thesis
    by (auto simp: si_remove_def)
qed

text \<open>C17. Closing a socket never fails while the two maps are consistent. The socket is no longer in the
  handshakes, the heartbeats, the pool of sockets and the account of the input processor (for any processor
  whose \<open>remove\<close> takes exactly the socket out of those it knows), and is to be removed from the pools of
  readers and of writers. The channel the socket is a part of ends: no socket reads or writes any more for
  the node at its other end, all other entries stay in order, the callback about the disconnection is made if
  and only if the channel was complete, and the maps are consistent again.\<close>

theorem nd_close_socket_spec:
  assumes "nd_maps_ok n" and "\<And>s d. known (nc_ip_remove cfg s d) = known d - {s}"
  shows "\<exists>n'. nd_close_socket cfg sid n = Inr n' \<and> nd_without (nd_peer sid n) n n' \<and>
    nd_forgotten sid n' \<and> sid \<notin> known (nd_input n') \<and> nd_maps_ok n'"
proof -
  let ?d = "nd_drop_socket cfg sid n"
  from assms have ok: "nd_maps_ok ?d" by simp
  obtain n' where n': "nd_close_channel cfg sid ?d = Inr n'" "nd_without (nd_peer sid ?d) ?d n'"
    "\<forall>s. nd_forgotten s ?d \<longrightarrow> nd_forgotten s n'"
    using nd_close_channel_result [OF ok] by blast
  from n'(2) have w: "nd_without (nd_peer sid n) n n'" by (simp add: nd_without_def cong: option.case_cong)
  have "sid \<notin> known (nd_input ?d)" using assms(2) by (simp add: nd_drop_socket_def)
  with nd_close_channel_input [OF n'(1)] assms(2) have "sid \<notin> known (nd_input n')" by auto
  with n' w nd_without_maps_ok [OF assms(1) w] nd_drop_forgotten(1) show ?thesis
    by (auto simp: nd_close_socket_def)
qed

lemma si_known_remove: "dom (si_accounts (si_remove s d)) = dom (si_accounts d) - {s}"
  by (auto simp: si_remove_def)

theorem nd_close_socket_spec_witness:
  "\<exists>n'. nd_close_socket demo_cfg 7 (demo_node\<lparr>nd_readers := [(7, 1)], nd_writers := [(1, 8)]\<rparr>) = Inr n' \<and>
    nd_without (Some 1) (demo_node\<lparr>nd_readers := [(7, 1)], nd_writers := [(1, 8)]\<rparr>) n' \<and>
    nd_forgotten 7 n' \<and> 7 \<notin> dom (si_accounts (nd_input n')) \<and> nd_maps_ok n'"
proof -
  have "nd_maps_ok (demo_node\<lparr>nd_readers := [(7, 1)], nd_writers := [(1, 8)]\<rparr>)" by (simp add: nd_maps_ok_def)
  moreover have "dom (si_accounts (nc_ip_remove demo_cfg s d)) = dom (si_accounts d) - {s}" for s d
    by (simp only: demo_cfg_def node_cfg.simps si_known_remove)
  ultimately show ?thesis
    using nd_close_socket_spec [of "demo_node\<lparr>nd_readers := [(7, 1)], nd_writers := [(1, 8)]\<rparr>"
      "\<lambda>d. dom (si_accounts d)" demo_cfg 7] by (simp add: nd_peer_def)
qed

subsection \<open>The life of a channel\<close>

text \<open>C1. Channels live correctly: in every state that a new node reaches by sending, reading, writing,
  accepting, connecting, expiry of handshakes and heartbeats and removal, as long as every handshake
  packet names a node with which, and comes on a socket on which, there is no channel yet, the user has
  been told about connections and disconnections of each node in turn, the last one says whether the
  node has both a reading and a writing socket now, and the two maps are consistent.\<close>

theorem nd_callbacks_alternate:
  "\<lbrakk>(nd_trans cfg)\<^sup>*\<^sup>* (nd_new self bn ip clock) n\<rbrakk> \<Longrightarrow>
     nd_maps_ok n \<and> (\<forall>i. link_run i False (nd_log n) = Some (nd_channel i n))"
  by (drule nd_reachable_live) (simp add: nd_live_def)

lemma demo_response_sent:
  "\<exists>x. hs_send be_streams (nd_hs_host demo_cfg) (nd_now demo_node) 7 WayResponse
     (nd_tick (demo_node\<lparr>nd_readers := rs, nd_writers := ws\<rparr>)) = Inr x"
proof -
  let ?p = "(handshake_packet_new WayResponse False)\<lparr>hp_id := byte_id 2\<rparr>"
  have "handshake_packet_serialize be_streams ?p = Inr (header_serialize be_streams (hp_header ?p) @ [1] @ [2])"
    using be.handshake_serialize [of ?p] by (simp add: byte_id_def)
  then show ?thesis
    by (simp add: hs_send_def nd_hs_host_def demo_cfg_def demo_node_def nd_new_def nd_tick_def nd_send_private_def
        wp_enqueue_def wp_ensure_account_def wp_locate_account_def wp_new_def wq_ops_def wq_enqueue_def
        header_serialize_def Let_def)
qed

lemma demo_connects:
  assumes "hp_id pkt = [1]" and "\<not> hp_is_response pkt" and "\<not> hp_is_behind_nat pkt"
  shows "\<exists>n. nd_process_packet demo_cfg 7 (WpHandshake pkt) demo_node = Inr n \<and> nd_channel 1 n \<and>
    nd_fresh 1 7 demo_node"
proof -
  let ?h = "nd_hs_host demo_cfg"
  have f: "nd_fresh 1 7 (nd_tick demo_node)" "nd_fresh 1 7 demo_node"
    by (simp_all add: nd_fresh_def demo_node_def nd_new_def nd_tick_def)
  obtain x where x: "hs_send be_streams ?h (nd_now demo_node) 7 WayResponse (nd_tick demo_node) = Inr x"
    using demo_response_sent [of "nd_writers demo_node" "nd_readers demo_node"] by auto
  then have x: "hs_send (nc_io demo_cfg) ?h (nd_now demo_node) 7 WayResponse (nd_tick demo_node) = Inr x"
    by (simp add: demo_cfg_def)
  have "nd_fresh 1 7 x" using nd_fresh_frame [OF nd_hs_send_frame [OF x]] f(1) by blast
  from nd_complete_result [OF this, of demo_cfg] obtain n
    where n: "hs_reader_writer ?h 1 7 x = Inr n" "nd_channel 1 n"
    by (force simp: nd_channel_def)
  have xid: "nd_id x = 2"
    using x by (auto simp: hs_send_def nd_hs_host_def nd_send_private_def nd_emit_def demo_node_def nd_new_def nd_tick_def)
  have c: "hh_cache ?h (nd_tick demo_node) = []" "hh_parse ?h [1] = Some 1" "hh_id ?h x = 2" "nc_io demo_cfg = be_streams"
    by (simp_all add: nd_hs_host_def demo_node_def nd_new_def nd_tick_def demo_cfg_def byte_id_parse_def xid)
  from n x assms show ?thesis
    by (simp add: nd_process_packet_def hs_process_def c hs_handshake_ready_def f(2))
qed

theorem nd_callbacks_alternate_witness:
  "\<exists>n. (nd_trans demo_cfg)\<^sup>*\<^sup>* demo_node n \<and> nd_maps_ok n \<and> link_run 1 False (nd_log n) = Some True"
proof -
  let ?pkt = "(handshake_packet_new WayRequest False)\<lparr>hp_id := [1]\<rparr>"
  obtain n where n: "nd_process_packet demo_cfg 7 (WpHandshake ?pkt) demo_node = Inr n" "nd_channel 1 n"
    "nd_fresh 1 7 demo_node"
    using demo_connects [of ?pkt] be.handshake_new_fields(2,3) [of WayRequest False]
    by (auto simp: hp_is_response_def hp_is_behind_nat_def)
  have "nd_expected demo_cfg 7 (WpHandshake ?pkt) demo_node"
    using n(3) by (simp add: nd_expected_def demo_cfg_def byte_id_parse_def)
  from nd_trans.receives [OF n(1) this] have r: "(nd_trans demo_cfg)\<^sup>*\<^sup>* demo_node n" by blast
  from nd_callbacks_alternate [OF r [unfolded demo_node_def]] n(2) r show ?thesis by auto
qed


subsection \<open>Runs that go wrong\<close>

text \<open>A node that reconnects before its old connection is found dead loses both: the handshake over
  the new socket reports the node as connected a second time; closing the old socket then closes the
  new one too, reports the node as disconnected, and leaves the new socket as a reading socket of the
  node although no pool keeps it.\<close>

theorem nd_reconnect_over_half_open:
  assumes "nd_readers n = [(s, i)]" and "nd_writers n = [(i, s)]" and "s' \<noteq> s"
  shows "\<exists>n1 n2. hs_reader_writer (nd_hs_host cfg) i s' n = Inr n1 \<and> nd_close_socket cfg s n1 = Inr n2 \<and>
    nd_log n2 = nd_log n @ [EvNodeConnected i, EvNodeConnected i, EvNodeDisconnected i] \<and>
    nd_readers n2 = [(s', i)] \<and> nd_writers n2 = [] \<and> nd_forgotten s' n2"
proof -
  obtain n1 where n1: "hs_reader_writer (nd_hs_host cfg) i s' n = Inr n1"
    "nd_readers n1 = [(s, i), (s', i)]" "nd_writers n1 = [(i, s')]"
    "nd_log n1 = nd_log n @ [EvNodeConnected i, EvNodeConnected i]"
    using assms by (simp add: hs_reader_writer_def nd_hs_host_def nd_on_completed_def nd_tick_def nd_emit_def Let_def
        find_reader_by_node_def)
  have f: "find_writer_by_socket s (nd_drop_socket cfg s n1) = None"
    using n1(3) assms(3) by (simp add: find_writer_by_socket_def)
  have "nd_close_socket cfg s n1 = Inr (nd_emit [EvNodeDisconnected i] (nd_erase_writer i (nd_erase_reader s
      (nd_drop_socket cfg s' (nd_drop_socket cfg s n1)))))"
    using n1(2,3) f by (simp add: nd_close_socket_def nd_close_channel_def)
  with n1 assms(3) nd_drop_forgotten(1) [of s' cfg "nd_drop_socket cfg s n1"] show ?thesis
    by (simp add: nd_emit_def nd_erase_writer_def nd_erase_reader_def)
qed

theorem nd_reconnect_over_half_open_witness:
  "\<exists>n1 n2. hs_reader_writer (nd_hs_host demo_cfg) 1 8 (demo_node\<lparr>nd_readers := [(7, 1)], nd_writers := [(1, 7)]\<rparr>) = Inr n1 \<and>
    nd_close_socket demo_cfg 7 n1 = Inr n2 \<and> nd_readers n2 = [(8, 1)] \<and> nd_forgotten 8 n2"
  using nd_reconnect_over_half_open [of "demo_node\<lparr>nd_readers := [(7, 1)], nd_writers := [(1, 7)]\<rparr>" 7 1 8 demo_cfg]
  by auto

text \<open>A peer can terminate the program: if a node that already has a channel over a socket sends a
  second handshake request on it, with the NAT flag and another identifier, the request is accepted and
  closing that socket later fails an assertion. (The map of writing sockets is searched in the order in
  which its entries were made here.)\<close>

theorem nd_second_identity_terminates:
  assumes "nd_readers n = [(s, i)]" and "nd_writers n = [(i, s)]" and "map_of (nd_handshakes n) s = None"
    and "nc_parse cfg (hp_id pkt) = Some j" and "j \<noteq> i" and "\<not> hp_is_response pkt" and "hp_is_behind_nat pkt"
    and "nd_process_packet cfg s (WpHandshake pkt) n = Inr n'"
  shows "nd_close_socket cfg s n' = Inl Terminated"
proof -
  let ?h = "nd_hs_host cfg"
  have c: "map_of (hh_cache ?h (nd_tick n)) s = None" "hh_parse ?h (hp_id pkt) = Some j"
    using assms(3,4) by (simp_all add: nd_hs_host_def nd_tick_def)
  from assms(6-8) obtain x where x: "hs_send (nc_io cfg) ?h (nd_now n) s WayResponse (nd_tick n) = Inr x"
    "hs_reader_writer ?h j s x = Inr n'"
    by (auto simp: nd_process_packet_def hs_process_def c hs_handshake_ready_def)
  from nd_hs_send_frame [OF x(1)] assms(1,2) have "nd_readers x = [(s, i)]" "nd_writers x = [(i, s)]"
    by (simp_all add: nd_frame_def nd_tick_def)
  with x(2) assms(5) have n': "nd_readers n' = [(s, j)]" "nd_writers n' = [(i, s), (j, s)]"
    by (auto simp: hs_reader_writer_def nd_hs_host_def nd_on_completed_def nd_tick_def nd_emit_def Let_def)
  then have "find_writer_by_socket s (nd_drop_socket cfg s n') = Some i"
    by (simp add: find_writer_by_socket_def)
  with n' assms(5) show ?thesis by (simp add: nd_close_socket_def nd_close_channel_def)
qed

theorem nd_second_identity_terminates_witness:
  "\<exists>n'. nd_process_packet demo_cfg 7 (WpHandshake ((handshake_packet_new WayRequest True)\<lparr>hp_id := [3]\<rparr>))
      (demo_node\<lparr>nd_readers := [(7, 1)], nd_writers := [(1, 7)]\<rparr>) = Inr n' \<and>
    nd_close_socket demo_cfg 7 n' = Inl Terminated"
proof -
  let ?n = "demo_node\<lparr>nd_readers := [(7, 1)], nd_writers := [(1, 7)]\<rparr>"
  let ?pkt = "(handshake_packet_new WayRequest True)\<lparr>hp_id := [3]\<rparr>"
  have fl: "\<not> hp_is_response ?pkt" "hp_is_behind_nat ?pkt"
    using be.handshake_new_fields(2,3) [of WayRequest True] by (simp_all add: hp_is_response_def hp_is_behind_nat_def)
  have c: "hh_cache (nd_hs_host demo_cfg) (nd_tick ?n) = []" "hh_parse (nd_hs_host demo_cfg) [3] = Some 3"
    by (simp_all add: nd_hs_host_def demo_node_def nd_new_def nd_tick_def demo_cfg_def byte_id_parse_def)
  obtain x where x: "hs_send be_streams (nd_hs_host demo_cfg) (nd_now demo_node) 7 WayResponse (nd_tick ?n) = Inr x"
    using demo_response_sent by blast
  moreover have "\<exists>n'. hs_reader_writer (nd_hs_host demo_cfg) 3 7 x = Inr n'"
    by (simp add: hs_reader_writer_def nd_hs_host_def nd_on_completed_def Let_def)
  moreover have "nd_now ?n = nd_now demo_node" "nc_io demo_cfg = be_streams" by (simp_all add: nd_now_def demo_cfg_def)
  ultimately obtain n' where n': "nd_process_packet demo_cfg 7 (WpHandshake ?pkt) ?n = Inr n'"
    using fl c by (auto simp: nd_process_packet_def hs_process_def hs_handshake_ready_def)
  have "nd_close_socket demo_cfg 7 n' = Inl Terminated"
    by (rule nd_second_identity_terminates [OF _ _ _ _ _ fl n', of 1 3])
       (simp_all add: demo_node_def nd_new_def demo_cfg_def byte_id_parse_def)
  with n' show ?thesis by blast
qed

text \<open>The normal end of a cross connection is undefined behaviour: when the response that excludes a
  connection comes to the node that initiated it, the handler closes the socket within the loop of
  \<open>process_input\<close>, which goes on to use the account of the socket that this erased.\<close>

theorem nd_exclusion_uses_erased_account:
  assumes "byte_streams (nc_io cfg) v" and "nc_ip cfg = si_ops" and "nc_ip_remove cfg = si_remove" and "nd_maps_ok n"
    and "encodes (nc_io cfg) w (WpHandshake pkt)" and "hp_is_response pkt" and "\<not> hp_is_behind_nat pkt"
    and "nc_parse cfg (hp_id pkt) = Some i" and "\<not> nd_id n < i" and "map_of (nd_handshakes n) sid = Some t"
    and "si_accounts (nd_input n) sid = Some \<lparr>sia_sid = sid, sia_b = []\<rparr>"
  shows "process_input (nc_io cfg) (nc_ip cfg) (nd_ip_host cfg) sid w n = Some (Inl Undefined)"
proof -
  let ?host = "nd_ip_host cfg" and ?h = "nd_hs_host cfg"
  let ?n1 = "n\<lparr>nd_input := si_append_chunk sid w (nd_input n)\<rparr>"
  let ?d = "(si_append_chunk sid w (nd_input n))\<lparr>si_frame_ready := False\<rparr>"
  let ?n2 = "?n1\<lparr>nd_input := ?d\<rparr>"
  have host: "ih_get ?host = nd_input" "ih_put ?host = (\<lambda>d n. n\<lparr>nd_input := d\<rparr>)" "ih_process ?host = nd_process_packet cfg"
    by (simp_all add: nd_ip_host_def)
  have w: "w \<noteq> []"
    using assms(5) byte_streams.handshake_serialize [OF assms(1), of pkt] by (auto simp: encodes_def)
  have rf: "ip_read_frame si_ops sid (ih_get ?host ?n1) = Inr (True, ?d)"
    by (simp add: si_ops_def si_read_frame_def si_append_chunk_def host)
  have ib: "ip_inpb si_ops sid ?d = Inr (concat [w])"
    using assms(11) by (simp add: si_ops_def si_inpb_def si_append_chunk_def)
  let ?m = "hs_cancel ?h sid (nd_tick ?n2)"
  have "nd_maps_ok ?m" using assms(4) by (simp add: nd_maps_ok_def hs_cancel_def nd_hs_host_def nd_tick_def)
  with nd_close_channel_result [of "nd_drop_socket cfg sid ?m" cfg sid] obtain n' where n': "nd_close_socket cfg sid ?m = Inr n'"
    by (auto simp: nd_close_socket_def)
  have "nd_process_packet cfg sid (WpHandshake pkt) ?n2 = nd_close_socket cfg sid ?m"
    using assms(6-10)
    by (simp add: nd_process_packet_def hs_process_def nd_hs_host_def nd_tick_def hs_cancel_def
        nd_on_completed_def hs_handshake_ready_def)
  then have "ip_handle si_ops ?host sid (WpHandshake pkt) ?n2 = Inl Undefined"
    using nd_close_si [OF assms(3) n'] n' by (simp add: ip_handle_def host si_ops_def si_locate_account_def)
  then have "foldr_res (ip_handle si_ops ?host sid) [WpHandshake pkt] (ih_put ?host ?d ?n1) = Inl Undefined"
    by (simp add: host)
  from byte_streams.ip_frames_fault [OF assms(1) rf ib _ this] assms(5)
  have "ip_frames (nc_io cfg) si_ops ?host sid ?n1 = Some (Inl Undefined)" by simp
  with w assms(2,11) show ?thesis
    by (simp add: process_input_def host) (simp add: si_ops_def si_locate_account_def host)
qed

theorem nd_exclusion_uses_erased_account_witness:
  "\<exists>w. process_input be_streams si_ops (nd_ip_host demo_cfg) 7 w
     (demo_node\<lparr>nd_handshakes := [(7, 9)],
        nd_input := si_new\<lparr>si_accounts := [7 \<mapsto> \<lparr>sia_sid = 7, sia_b = []\<rparr>]\<rparr>\<rparr>) = Some (Inl Undefined)"
proof -
  let ?pkt = "(handshake_packet_new WayResponse False)\<lparr>hp_id := [1]\<rparr>"
  have fl: "hp_is_response ?pkt" "\<not> hp_is_behind_nat ?pkt" "header_ok packet_handshake (hp_header ?pkt)"
    using be.handshake_new_fields [of WayResponse False] by (simp_all add: hp_is_response_def hp_is_behind_nat_def)
  then obtain w where w: "encodes be_streams w (WpHandshake ?pkt)"
    using be.handshake_serialize [of ?pkt] by (auto simp: encodes_def)
  show ?thesis
    using nd_exclusion_uses_erased_account [of demo_cfg mem_view
        "demo_node\<lparr>nd_handshakes := [(7, 9)],
           nd_input := si_new\<lparr>si_accounts := [7 \<mapsto> \<lparr>sia_sid = 7, sia_b = []\<rparr>]\<rparr>\<rparr>" w ?pkt 1 7 9]
      be.byte_streams_axioms w fl(1,2)
    by (auto simp: demo_cfg_def demo_node_def nd_new_def nd_maps_ok_def byte_id_parse_def)
qed

end
