(* ===== verification/MessageDelivery.thy ===== *)
theory MessageDelivery
  imports NodeChannels
begin

text \<open>
  Messages from one node to another: \<open>node::send\<close> of the sender, the pool of its writers, and
  \<open>process_input\<close> of the receiver, put together; and the pool of writers over the priority queue.
\<close>

subsection \<open>Sending\<close>

lemma wp_ensure_events:
  "wp_ensure_account ops sid fs p = Inr (acc, p1, evs) \<Longrightarrow> evs = [] \<or> evs = [WaitForWrite sid]"
  by (auto simp: wp_ensure_account_def Let_def split: option.splits)

lemma wp_enqueue_events:
  assumes "wp_enqueue ops sid pr data p = Inr (p', evs)"
  shows "evs = [] \<or> evs = [WaitForWrite sid]"
proof (cases "data = []")
  case True
  with assms show ?thesis by (simp add: wp_enqueue_def)
next
  case False
  with assms obtain acc p1 where "wp_ensure_account ops sid wp_default_frame_size p = Inr (acc, p1, evs)"
    unfolding wp_enqueue_def by (simp add: case_prod_unfold) blast
  then show ?thesis by (rule wp_ensure_events)
qed

text \<open>\<open>node::send\<close> for a node with a channel appends the serialized data packet of the message to
  what is queued for the writing socket of that node, and changes nothing for any other socket, no map
  and no callback; it fails only if the queue does.\<close>

theorem nd_send_enqueues:
  assumes "byte_streams (nc_io cfg) v" and "byte_queue (nc_queue cfg) prio_ok invar contents"
    and "wp_inv invar (nd_writer n)" and "prio_ok pr" and "map_of (nd_writers n) i = Some sid"
    and "length data < 2 ^ 32"
  shows "\<exists>n' w. nd_send cfg i pr cs data n = Inr n' \<and> encodes (nc_io cfg) w (WpData data) \<and>
    wp_inv invar (nd_writer n') \<and> nd_frame n n' \<and>
    wp_contents contents (nd_writer n') =
      (wp_contents contents (nd_writer n))(sid := wp_contents contents (nd_writer n) sid @ w)"
proof -
  let ?w = "header_serialize (nc_io cfg) (byte_streams.data_header (nc_io cfg) cs data) @ data"
  have s: "data_packet_serialize (nc_io cfg) (data_packet_new cs) data = Inr ?w"
    by (rule byte_streams.data_serialize [OF assms(1,6)])
  with assms(6) have e: "encodes (nc_io cfg) ?w (WpData data)" by (auto simp: encodes_def)
  from byte_queue.enqueue_flow [OF assms(2-4)] obtain p evs where
    p: "wp_enqueue (nc_queue cfg) sid pr ?w (nd_writer n) = Inr (p, evs)"
    "wp_flow invar contents (\<lambda>j. if j = sid then ?w else []) (nd_writer n) (p, evs)" by force
  from p(2) wp_enqueue_events [OF p(1)]
  have c: "wp_contents contents p = (wp_contents contents (nd_writer n))(sid := wp_contents contents (nd_writer n) sid @ ?w)"
    and inv: "wp_inv invar p" by (auto simp: wp_flow_def fun_eq_iff)
  let ?n' = "nd_emit (map EvWriter evs) (n\<lparr>nd_writer := p\<rparr>)"
  have sp: "nd_send_private cfg sid pr ?w n = Inr ?n'" using p(1) by (simp add: nd_send_private_def)
  then have "nd_send cfg i pr cs data n = Inr ?n'" using assms(5) s by (simp add: nd_send_def ms_send_def)
  moreover have "nd_writer ?n' = p" by (simp add: nd_emit_def)
  ultimately show ?thesis using nd_send_private_frame [OF sp] c inv e by auto
qed

lemma demo_send_ok: "byte_streams (nc_io demo_cfg) mem_view" "byte_queue (nc_queue demo_cfg) (\<lambda>_. True) wq_inv wq_contents"
  using be.byte_streams_axioms wq.byte_queue_axioms by (simp_all add: demo_cfg_def)

lemma wp_new_inv: "wp_inv invar wp_new"
  by (simp add: wp_inv_def wp_new_def)

theorem nd_send_enqueues_witness:
  "\<exists>n' w. nd_send demo_cfg 1 0 True [8, 9] (demo_node\<lparr>nd_writers := [(1, 7)]\<rparr>) = Inr n' \<and>
    encodes (nc_io demo_cfg) w (WpData [8, 9]) \<and> wp_contents wq_contents (nd_writer n') 7 = w"
proof -
  have e: "wp_contents wq_contents (nd_writer (demo_node\<lparr>nd_writers := [(1, 7)]\<rparr>)) 7 = []"
    by (simp add: demo_node_def nd_new_def wp_new_def wp_contents_def)
  have i: "wp_inv wq_inv (nd_writer (demo_node\<lparr>nd_writers := [(1, 7)]\<rparr>))"
    by (simp add: demo_node_def nd_new_def wp_new_inv)
  have l: "length ([8, 9] :: bytes) < 2 ^ 32" "map_of (nd_writers (demo_node\<lparr>nd_writers := [(1, 7)]\<rparr>)) 1 = Some 7"
    by simp_all
  from nd_send_enqueues [OF demo_send_ok i TrueI l(2,1), of 0 True] e show ?thesis by fastforce
qed

subsection \<open>Sending and receiving\<close>

text \<open>The messages \<open>msgs\<close>, each with its priority and checksum flag, sent to node \<open>i\<close> one after the other.\<close>

definition nd_send_all ::
  "('i, 'id, 'q, 'd) node_cfg \<Rightarrow> 'id \<Rightarrow> (int \<times> bool \<times> bytes) list \<Rightarrow> ('id, 'q, 'd) node \<Rightarrow> ('id, 'q, 'd) node result" where
  "nd_send_all cfg i msgs n = foldr_res (\<lambda>(pr, cs, data). nd_send cfg i pr cs data) msgs n"

definition msg_data :: "int \<times> bool \<times> bytes \<Rightarrow> bytes" where
  "msg_data m = snd (snd m)"

lemma nd_send_all_enqueues:
  assumes "byte_streams (nc_io cfg) v" and "byte_queue (nc_queue cfg) (\<lambda>_. True) invar contents"
    and "wp_inv invar (nd_writer n)" and "map_of (nd_writers n) i = Some sid"
    and "\<forall>m \<in> set msgs. length (msg_data m) < 2 ^ 32"
  shows "\<exists>n' ws. nd_send_all cfg i msgs n = Inr n' \<and>
    list_all2 (encodes (nc_io cfg)) ws (map (WpData \<circ> msg_data) msgs) \<and>
    wp_inv invar (nd_writer n') \<and> wp_contents contents (nd_writer n') sid = wp_contents contents (nd_writer n) sid @ concat ws"
  using assms(3-5)
proof (induction msgs arbitrary: n)
  case Nil
  then show ?case by (simp add: nd_send_all_def)
next
  case (Cons m msgs)
  obtain pr cs data where m: "m = (pr, cs, data)" by (cases m)
  with Cons.prems have l: "length data < 2 ^ 32" by (simp add: msg_data_def)
  from nd_send_enqueues [OF assms(1,2) Cons.prems(1) TrueI Cons.prems(2) l, of pr cs] obtain n1 w where
    n1: "nd_send cfg i pr cs data n = Inr n1" "encodes (nc_io cfg) w (WpData data)" "wp_inv invar (nd_writer n1)"
      "nd_frame n n1" "wp_contents contents (nd_writer n1) sid = wp_contents contents (nd_writer n) sid @ w"
    by auto
  from n1(4) Cons.prems(2) have "map_of (nd_writers n1) i = Some sid" by (simp add: nd_frame_def)
  moreover from Cons.prems(3) have "\<forall>m \<in> set msgs. length (msg_data m) < 2 ^ 32" by simp
  ultimately obtain n' ws where
    "nd_send_all cfg i msgs n1 = Inr n'" "list_all2 (encodes (nc_io cfg)) ws (map (WpData \<circ> msg_data) msgs)"
    "wp_inv invar (nd_writer n')" "wp_contents contents (nd_writer n') sid = wp_contents contents (nd_writer n1) sid @ concat ws"
    using Cons.IH [OF n1(3)] by blast
  with n1 m show ?case
    by (intro exI [of _ n'] exI [of _ "w # ws"]) (simp add: nd_send_all_def comp_def msg_data_def [of "(pr, cs, data)"])
qed

text \<open>The handler of data packets does not touch the input processor.\<close>

lemma nd_data_run:
  assumes "map_of (nd_readers n) sid = Some i" and "si_locate_account sid (nd_input n) = Inr True"
  shows "foldr_res (ip_handle si_ops (nd_ip_host cfg) sid) (map WpData ds) n =
    Inr (nd_emit (map (EvMessageReceived i) ds) n)"
  using assms
proof (induction ds arbitrary: n)
  case Nil
  show ?case by (simp add: nd_emit_def)
next
  case (Cons d ds)
  have "ip_handle si_ops (nd_ip_host cfg) sid (WpData d) n = Inr (nd_emit [EvMessageReceived i d] n)"
    using Cons.prems
    by (simp add: ip_handle_def nd_ip_host_def nd_process_packet_def nd_message_received_def si_ops_def nd_emit_def)
  moreover have "foldr_res (ip_handle si_ops (nd_ip_host cfg) sid) (map WpData ds) (nd_emit [EvMessageReceived i d] n) =
      Inr (nd_emit (map (EvMessageReceived i) ds) (nd_emit [EvMessageReceived i d] n))"
    by (rule Cons.IH) (use Cons.prems in \<open>simp_all add: nd_emit_def\<close>)
  ultimately show ?case by (simp add: nd_emit_def)
qed

lemma nd_receives:
  assumes "byte_streams (nc_io cfg) v" and "nc_ip cfg = si_ops"
    and "list_all2 (encodes (nc_io cfg)) ws (map WpData ds)" and "concat ws \<noteq> []"
    and "map_of (nd_readers n) sid = Some i" and "si_accounts (nd_input n) sid = Some \<lparr>sia_sid = sid, sia_b = []\<rparr>"
  shows "\<exists>n'. process_input (nc_io cfg) (nc_ip cfg) (nd_ip_host cfg) sid (concat ws) n = Some (Inr n') \<and>
    nd_log n' = nd_log n @ map (EvMessageReceived i) ds \<and> nd_readers n' = nd_readers n \<and>
    si_accounts (nd_input n') sid = Some \<lparr>sia_sid = sid, sia_b = []\<rparr>"
proof -
  define c where "c = concat ws"
  let ?host = "nd_ip_host cfg" and ?c = c
  let ?n1 = "n\<lparr>nd_input := si_append_chunk sid ?c (nd_input n)\<rparr>"
  let ?d = "(si_append_chunk sid ?c (nd_input n))\<lparr>si_frame_ready := False\<rparr>"
  let ?n2 = "nd_emit (map (EvMessageReceived i) ds) (?n1\<lparr>nd_input := ?d\<rparr>)"
  have host: "ih_get ?host = nd_input" "ih_put ?host = (\<lambda>d n. n\<lparr>nd_input := d\<rparr>)"
    by (simp_all add: nd_ip_host_def)
  have rf: "ip_read_frame si_ops sid (ih_get ?host ?n1) = Inr (True, ?d)"
    by (simp add: si_ops_def si_read_frame_def si_append_chunk_def host)
  have ib: "ip_inpb si_ops sid ?d = Inr (concat ws)"
    using assms(6) by (simp add: c_def si_ops_def si_inpb_def si_append_chunk_def)
  have "foldr_res (ip_handle si_ops ?host sid) (map WpData ds) (?n1\<lparr>nd_input := ?d\<rparr>) = Inr ?n2"
    by (rule nd_data_run) (use assms(5,6) in \<open>simp_all add: si_locate_account_def si_append_chunk_def\<close>)
  then have run: "foldr_res (ip_handle si_ops ?host sid) (map WpData ds) (ih_put ?host ?d ?n1) = Inr ?n2"
    by (simp add: host)
  have ib2: "ip_inpb si_ops sid (ih_get ?host ?n2) = Inr (concat ws)" using ib by (simp add: host nd_emit_def)
  let ?n3 = "?n2\<lparr>nd_input := si_set_inpb sid [] ?d\<rparr>"
  have "ip_frames (nc_io cfg) si_ops ?host sid ?n1 = ip_frames (nc_io cfg) si_ops ?host sid ?n3"
    using byte_streams.ip_frames_delivers [OF assms(1) rf ib assms(3) run ib2]
    by (simp add: host si_ops_set) (simp add: nd_emit_def)
  also have "\<dots> = Some (Inr ?n3)"
  proof -
    have "ip_read_frame si_ops sid (ih_get ?host ?n3) = Inr (False, si_set_inpb sid [] ?d)"
      by (simp add: si_ops_def si_read_frame_def si_set_inpb_def host)
    then show ?thesis by (subst ip_frames.simps) (simp add: host)
  qed
  finally have "process_input (nc_io cfg) (nc_ip cfg) ?host sid (concat ws) n = Some (Inr ?n3)"
    using assms(2,4,6) unfolding c_def [symmetric]
    by (simp add: process_input_def host) (simp add: si_ops_def si_locate_account_def host)
  moreover have "nd_log ?n3 = nd_log n @ map (EvMessageReceived i) ds" "nd_readers ?n3 = nd_readers n"
    "si_accounts (nd_input ?n3) sid = Some \<lparr>sia_sid = sid, sia_b = []\<rparr>"
    using assms(6) by (simp_all add: nd_emit_def si_set_inpb_def si_append_chunk_def)
  ultimately show ?thesis by blast
qed

lemma encodes_data_nonempty:
  assumes "byte_streams io v" and "encodes io w (WpData d)"
  shows "w \<noteq> []"
  using assms(2) byte_streams.data_serialize [OF assms(1)] by (fastforce simp: encodes_def header_serialize_def)

text \<open>The node reads what arrives on a socket one piece after the other.\<close>

definition nd_receive_all ::
  "('i, 'id::linorder, 'q, 'd) node_cfg \<Rightarrow> socket_id \<Rightarrow> bytes list \<Rightarrow> ('id, 'q, 'd) node \<Rightarrow> ('id, 'q, 'd) node result option" where
  "nd_receive_all cfg sid pieces n = foldo (process_input (nc_io cfg) (nc_ip cfg) (nd_ip_host cfg) sid) pieces n"

lemma nd_receives_pieces:
  assumes "byte_streams (nc_io cfg) v" and "nc_ip cfg = si_ops"
    and "list_all2 (encodes (nc_io cfg)) (concat pieces) (map WpData ds)"
    and "map_of (nd_readers n) sid = Some i" and "si_accounts (nd_input n) sid = Some \<lparr>sia_sid = sid, sia_b = []\<rparr>"
  shows "\<exists>n'. nd_receive_all cfg sid (map concat pieces) n = Some (Inr n') \<and>
    nd_log n' = nd_log n @ map (EvMessageReceived i) ds \<and>
    si_accounts (nd_input n') sid = Some \<lparr>sia_sid = sid, sia_b = []\<rparr>"
  using assms(3-5)
proof (induction pieces arbitrary: n ds)
  case Nil
  then show ?case by (simp add: nd_receive_all_def)
next
  case (Cons ws pieces)
  obtain xs ys where "map WpData ds = xs @ ys" "list_all2 (encodes (nc_io cfg)) ws xs"
      "list_all2 (encodes (nc_io cfg)) (concat pieces) ys"
    using Cons.prems(1) by (auto simp: list_all2_append1)
  then obtain ds1 ds2 where ds: "ds = ds1 @ ds2" "list_all2 (encodes (nc_io cfg)) ws (map WpData ds1)"
      "list_all2 (encodes (nc_io cfg)) (concat pieces) (map WpData ds2)"
    by (auto simp: map_eq_append_conv)
  obtain n1 where n1: "process_input (nc_io cfg) (nc_ip cfg) (nd_ip_host cfg) sid (concat ws) n = Some (Inr n1)"
    "nd_log n1 = nd_log n @ map (EvMessageReceived i) ds1" "nd_readers n1 = nd_readers n"
    "si_accounts (nd_input n1) sid = Some \<lparr>sia_sid = sid, sia_b = []\<rparr>"
  proof (cases "concat ws = []")
    case False
    from nd_receives [OF assms(1,2) ds(2) False Cons.prems(2,3)] that show ?thesis by blast
  next
    case True
    have "ds1 = []"
    proof (cases ds1)
      case (Cons d ds1')
      with ds(2) obtain w where "encodes (nc_io cfg) w (WpData d)" "w \<in> set ws" by (auto simp: list_all2_Cons2)
      with True encodes_data_nonempty [OF assms(1)] show ?thesis by fastforce
    qed simp
    with True Cons.prems(3) that [of n] show ?thesis by (simp add: process_input_def)
  qed
  with Cons.IH [OF ds(3), of n1] Cons.prems(2) obtain n2 where
    "nd_receive_all cfg sid (map concat pieces) n1 = Some (Inr n2)"
    "nd_log n2 = nd_log n1 @ map (EvMessageReceived i) ds2"
    "si_accounts (nd_input n2) sid = Some \<lparr>sia_sid = sid, sia_b = []\<rparr>" by auto
  with n1 ds(1) show ?case by (simp add: nd_receive_all_def)
qed

text \<open>C4. Messages arrive: when a node sends any messages to a node with which it has a channel, and its
  pool of writers over \<open>writer_queue\<close>, in any number of passes with sockets that take any part of what
  they are given, has written all that was queued for the socket, then what the sockets took is the packets
  of the messages, in the order in which they were sent; and the other node, with the simple input processor,
  in however many pieces it reads these bytes, if each piece ends where a packet ends, calls
  \<open>on_message_received\<close> exactly once for each message, in that order, with the bytes that were sent, and
  keeps nothing over. A packet that is cut over two reads is lost (\<open>si_cut_packet_loses_header\<close>).\<close>

theorem nd_messages_arrive:
  assumes "byte_streams (nc_io cfg) v" and "nc_queue cfg = wq_ops" and "nc_io cfg' = nc_io cfg" and "nc_ip cfg' = si_ops"
    and "wp_inv wq_inv (nd_writer a)" and "map_of (nd_writers a) i = Some sid" and "wp_contents wq_contents (nd_writer a) sid = []"
    and "\<forall>m \<in> set msgs. length (msg_data m) < 2 ^ 32" and "\<forall>socks \<in> set passes. honest socks"
    and "map_of (nd_readers b) sid' = Some j" and "si_accounts (nd_input b) sid' = Some \<lparr>sia_sid = sid', sia_b = []\<rparr>"
  shows "\<exists>a1 p evs packets. nd_send_all cfg i msgs a = Inr a1 \<and> wp_send wq_ops passes (nd_writer a1) = Inr (p, evs) \<and>
    list_all2 (\<lambda>w m. encodes (nc_io cfg) w (WpData (msg_data m))) packets msgs \<and>
    (wp_contents wq_contents p sid = [] \<and> WpPollerRemove sid \<notin> set evs \<longrightarrow>
      wp_accepted sid evs = concat packets \<and>
      (\<forall>pieces. concat pieces = packets \<longrightarrow>
        (\<exists>b1. nd_receive_all cfg' sid' (map concat pieces) b = Some (Inr b1) \<and>
          nd_log b1 = nd_log b @ map (EvMessageReceived j \<circ> msg_data) msgs \<and>
          si_accounts (nd_input b1) sid' = Some \<lparr>sia_sid = sid', sia_b = []\<rparr>)))"
proof -
  from wq.byte_queue_axioms assms(2) have "byte_queue (nc_queue cfg) (\<lambda>_. True) wq_inv wq_contents" by simp
  from nd_send_all_enqueues [OF assms(1) this assms(5,6,8)] assms(7) obtain a1 ws where
    a1: "nd_send_all cfg i msgs a = Inr a1" "list_all2 (encodes (nc_io cfg)) ws (map WpData (map msg_data msgs))"
      "wp_inv wq_inv (nd_writer a1)" "wp_contents wq_contents (nd_writer a1) sid = concat ws"
    by (auto simp: comp_def)
  obtain p evs where p: "wp_send wq_ops passes (nd_writer a1) = Inr (p, evs)"
    "wp_flow wq_inv wq_contents (\<lambda>_. []) (nd_writer a1) (p, evs)"
    using wq.send_flow [OF a1(3) assms(9)] by force
  have "wp_accepted sid evs = concat ws"
    if "wp_contents wq_contents p sid = []" "WpPollerRemove sid \<notin> set evs"
    using p(2) that a1(4) by (auto simp: wp_flow_def)
  moreover have "\<exists>b1. nd_receive_all cfg' sid' (map concat pieces) b = Some (Inr b1) \<and>
        nd_log b1 = nd_log b @ map (EvMessageReceived j \<circ> msg_data) msgs \<and>
        si_accounts (nd_input b1) sid' = Some \<lparr>sia_sid = sid', sia_b = []\<rparr>" if "concat pieces = ws" for pieces
    using nd_receives_pieces [of cfg' v pieces "map msg_data msgs", OF _ assms(4) _ assms(10,11)] assms(1,3) a1(2) that
    by simp
  moreover have "list_all2 (\<lambda>w m. encodes (nc_io cfg) w (WpData (msg_data m))) ws msgs"
    using a1(2) by (simp add: list.rel_map comp_def)
  ultimately show ?thesis using a1(1) p(1) by blast
qed

text \<open>The sender of the example has a writable account for its socket.\<close>

definition demo_sender :: "(int, writer_queue, simple_ip) node" where
  "demo_sender = demo_node\<lparr>nd_writers := [(1, 7)], nd_writer := wp_new
     \<lparr>wp_accounts := [(7, \<lparr>wa_id = 7, wa_writable = True, wa_frame_size = 1500, wa_q = []\<rparr>)]\<rparr>\<rparr>"

definition demo_receiver :: "(int, writer_queue, simple_ip) node" where
  "demo_receiver = demo_node\<lparr>nd_readers := [(9, 2)],
     nd_input := si_new\<lparr>si_accounts := [9 \<mapsto> \<lparr>sia_sid = 9, sia_b = []\<rparr>]\<rparr>\<rparr>"

lemma demo_written:
  assumes "nd_send_all demo_cfg 1 [(0, False, [8, 9])] demo_sender = Inr a1"
    and "wp_send wq_ops [\<lambda>i. Some (taking 100)] (nd_writer a1) = Inr (p, evs)"
  shows "wp_contents wq_contents p 7 = []" and "WpPollerRemove 7 \<notin> set evs"
proof -
  let ?w = "[15, 0, 0, 0, 0, 2, 8, 9] :: bytes"
  have "data_packet_serialize be_streams (data_packet_new False) [8, 9] = Inr ?w"
    by (simp add: data_packet_serialize_def header_serialize_def data_packet_new_def header_new_def
        packet_data_def be_streams_def be32_def ph_has_checksum_def Let_def)
  with assms(1) have a1: "wp_accounts (nd_writer a1) =
      [(7, \<lparr>wa_id = 7, wa_writable = True, wa_frame_size = 1500, wa_q = [\<lparr>elem_b = ?w, elem_cursor = 0\<rparr>]\<rparr>)]"
    by (auto simp: nd_send_all_def nd_send_def ms_send_def demo_cfg_def demo_sender_def nd_send_private_def nd_emit_def
        wp_enqueue_def wp_ensure_account_def wp_locate_account_def wp_put_def wq_ops_def wq_enqueue_def)
  have "wp_send_pass wq_ops (\<lambda>i. Some (taking 100)) (nd_writer a1) = Inr (p, evs)"
    using assms(2) by (simp add: wp_send_def)
  then show "wp_contents wq_contents p 7 = []" and "WpPollerRemove 7 \<notin> set evs"
    by (auto simp: wp_send_pass_def a1 wp_send_account_def wq_ops_def wq_empty_def wq_frame_def wq_shift_def
        wp_sent_def taking_def wp_contents_def wp_put_def Let_def)
qed

theorem nd_messages_arrive_witness:
  "\<exists>a1 p evs b1. nd_send_all demo_cfg 1 [(0, False, [8, 9])] demo_sender = Inr a1 \<and>
    wp_send wq_ops [\<lambda>i. Some (taking 100)] (nd_writer a1) = Inr (p, evs) \<and>
    nd_receive_all demo_cfg 9 [wp_accepted 7 evs] demo_receiver = Some (Inr b1) \<and>
    nd_log b1 = [EvMessageReceived 2 [8, 9]]"
proof -
  have c: "nc_queue demo_cfg = wq_ops" "nc_ip demo_cfg = si_ops" by (simp_all add: demo_cfg_def)
  have e: "wp_inv wq_inv (nd_writer demo_sender)" "wp_contents wq_contents (nd_writer demo_sender) 7 = []"
    "map_of (nd_writers demo_sender) 1 = Some 7" "map_of (nd_readers demo_receiver) 9 = Some 2"
    "si_accounts (nd_input demo_receiver) 9 = Some \<lparr>sia_sid = 9, sia_b = []\<rparr>" "nd_log demo_receiver = []"
    by (simp_all add: demo_sender_def demo_receiver_def demo_node_def nd_new_def wp_new_def wp_contents_def wp_inv_def)
  have h: "\<forall>m \<in> set [(0 :: int, False, [8, 9 :: byte])]. length (msg_data m) < 2 ^ 32"
    "\<forall>socks \<in> set [\<lambda>i. Some (taking 100)]. honest socks"
    using honest_taking [of 100] by (simp_all add: msg_data_def)
  from nd_messages_arrive [OF demo_send_ok(1) c(1) refl c(2) e(1,3,2) h e(4,5)] obtain a1 p evs packets where
    r: "nd_send_all demo_cfg 1 [(0, False, [8, 9])] demo_sender = Inr a1"
      "wp_send wq_ops [\<lambda>i. Some (taking 100)] (nd_writer a1) = Inr (p, evs)"
      "wp_contents wq_contents p 7 = [] \<and> WpPollerRemove 7 \<notin> set evs \<longrightarrow>
        wp_accepted 7 evs = concat packets \<and> (\<forall>pieces. concat pieces = packets \<longrightarrow>
          (\<exists>b1. nd_receive_all demo_cfg 9 (map concat pieces) demo_receiver = Some (Inr b1) \<and>
            nd_log b1 = nd_log demo_receiver @ map (EvMessageReceived 2 \<circ> msg_data) [(0, False, [8, 9])]))"
    by blast
  with demo_written [OF r(1,2)] have acc: "wp_accepted 7 evs = concat packets"
    and all: "\<forall>pieces. concat pieces = packets \<longrightarrow> (\<exists>b1. nd_receive_all demo_cfg 9 (map concat pieces) demo_receiver = Some (Inr b1) \<and>
            nd_log b1 = nd_log demo_receiver @ map (EvMessageReceived 2 \<circ> msg_data) [(0, False, [8, 9])])"
    by blast+
  from all [rule_format, of "[packets]"] acc e(6) r(1,2) show ?thesis by (auto simp: msg_data_def)
qed

subsection \<open>The pool of writers over the priority queue\<close>

text \<open>The counter of \<open>writer_pool\<close> underflows over the priority queue: the pool subtracts the size
  of the frame sent, with its header, but has added the size of the data alone. One message that fits
  into a frame, enqueued on a new pool and written at once, leaves the queue empty and \<open>_remain_bytes\<close>
  three below zero, that is close to its greatest value.\<close>

theorem wp_priority_underflow:
  assumes "\<forall>n \<in> set (l # ls). n > 0" and "d \<noteq> []" and "length d \<le> 1497"
  shows "\<exists>fresh p acc evs. pq_new (l # ls) = Inr fresh \<and>
    wp_run (pq_ops fresh (Suc (length ls)))
      [WpEnqueue sid 0 d, WpStep [] [CanWrite sid], WpStep [\<lambda>i. Some (taking 1500)] []] = Inr (p, evs) \<and>
    wp_accounts p = [(sid, acc)] \<and> pq_empty (wa_q acc) \<and> wp_remain_bytes p = - 3"
proof -
  define fresh where "fresh = \<lparr>pq_qp = map pq_idle (l # ls), pq_cursor = 0, pq_total_size = 0\<rparr>"
  let ?fresh = fresh
  let ?e = "\<lparr>elem_b = d, elem_cursor = 0\<rparr>"
  let ?ops = "pq_ops ?fresh (Suc (length ls))"
  have r: "elem_rest ?e = d" by (simp add: elem_rest_def)
  from assms(1) obtain l' where l: "l = Suc l'" by (cases l) auto
  have enq: "pq_enqueue 0 d ?fresh = Inr (pq_sending l ls l ?e)"
    using assms(2) by (simp add: fresh_def pq_enqueue_def pq_sending_def pq_idle_def elem_rest_def)
  have len: "length d < 2 ^ 64" using assms(3) by simp
  then have ne: "\<not> pq_empty (pq_sending l ls l ?e)"
    using assms(2) word_of_nat_nonzero [of "length d"] by (simp add: pq_empty_def pq_sending_def r)
  from pq_frame_sending [of ?e 1500 l ls l] assms(2,3) len obtain h where
    fr: "pq_frame 1500 (pq_sending l ls l ?e) = Inr (pf_header_bytes h @ d)" by (auto simp: r)
  have fl: "length (pf_header_bytes h @ d) = length d + 3" by (simp add: pf_header_bytes_def)
  have sh: "pq_shift (length d + 3) (pq_sending l ls l ?e) = Inr ?fresh"
    using pq_shift_sending [of ?e "length d" l ls l'] assms(2) len by (simp add: r l fresh_def)
  have small: "unat (word_of_nat (length d + 3) :: u64) = length d + 3"
    unfolding unat_of_nat using assms(3) by simp
  then have n: "(0 :: u64) < word_of_nat (length d + 3)" by (metis unat_gt_0 word_gt_0 add_gr_0 zero_less_numeral)
  have tk: "taking 1500 (pf_header_bytes h @ d) = (\<lparr>sr_status = SendGood, sr_n = word_of_nat (length d + 3)\<rparr>, Success)"
    unfolding taking_def fl using assms(3) by simp
  have f: "pf_header_bytes h @ d \<noteq> []" using assms(2) by simp
  define acc where "acc = \<lparr>wa_id = sid, wa_writable = True, wa_frame_size = 1500, wa_q = pq_sending l ls l ?e\<rparr>"
  define p1 where "p1 = \<lparr>wp_remain_bytes = word_of_nat (length d), wp_accounts = [(sid, acc)], wp_removable = []\<rparr>"
  have o: "q_init ?ops = ?fresh" "q_enqueue ?ops = pq_enqueue" "q_empty ?ops = pq_empty" "q_frame ?ops = pq_frame"
    "q_shift ?ops = pq_shift" by (simp_all add: pq_ops_def)
  have s0: "wp_enqueue ?ops sid 0 d wp_new =
      Inr (p1\<lparr>wp_accounts := [(sid, acc\<lparr>wa_writable := False\<rparr>)]\<rparr>, [WaitForWrite sid])"
    using assms(2) enq
    by (simp add: wp_enqueue_def wp_ensure_account_def wp_locate_account_def wp_new_def o wp_put_def Let_def
        wp_default_frame_size_def p1_def acc_def)
  have s1: "wp_on_can_write sid (p1\<lparr>wp_accounts := [(sid, acc\<lparr>wa_writable := False\<rparr>)]\<rparr>) = Inr (p1, [])"
    by (simp add: wp_on_can_write_def wp_locate_account_def wp_put_def p1_def acc_def)
  have s2: "\<exists>evs. wp_send_pass ?ops (\<lambda>i. Some (taking 1500)) p1 =
      Inr (p1\<lparr>wp_remain_bytes := - 3, wp_accounts := [(sid, acc\<lparr>wa_q := ?fresh\<rparr>)]\<rparr>, evs)"
    using ne fr sh f n small
    by (simp add: wp_send_pass_def wp_send_account_def p1_def acc_def o wp_sent_def tk wp_put_def Let_def del: of_nat_add)
       simp
  show ?thesis
    using s0 s1 s2 pq_new_idle [OF assms(1), folded fresh_def]
    by (auto simp: wp_run_def wp_step_def wp_send_def pq_empty_def fresh_def [symmetric])
       (simp add: fresh_def)
qed

theorem wp_priority_underflow_witness:
  "\<exists>fresh p acc evs. pq_new (frame_calculator 2) = Inr fresh \<and>
    wp_run (pq_ops fresh 2) [WpEnqueue 7 0 [1], WpStep [] [CanWrite 7], WpStep [\<lambda>i. Some (taking 1500)] []] = Inr (p, evs) \<and>
    wp_accounts p = [(7, acc)] \<and> wp_remain_bytes p = 18446744073709551613"
proof -
  have c: "frame_calculator 2 = [2, 1]" "Suc (length [1 :: nat]) = 2" "(18446744073709551613 :: u64) = - 3"
    by (simp_all add: frame_calculator_def)
  have "\<forall>n \<in> set [2, 1 :: nat]. n > 0" "[1 :: byte] \<noteq> []" "length [1 :: byte] \<le> 1497" by simp_all
  from wp_priority_underflow [OF this, of 7, unfolded c(2)] show ?thesis
    unfolding c(1,3) by blast
qed

end
