(* ===== verification/P2PPacket.thy ===== *)
theory P2PPacket
  imports Streams
begin

text \<open>
  The packets of the peer-to-peer engine (include/pfs/netty/p2p/packet.hpp, hello_packet.hpp,
  primal_serializer.hpp): fragmentation of a message into packets of a fixed size, and the serializers.

  An enumeration is the byte it is stored in, because a received value need not be one of its
  constants. The array \<open>payload\<close> of a packet is the list of the bytes that have been written to it: the
  code writes the first bytes up to the payload size of the packet size in use. Integers of 64 bits
  are words, signed ones in two's complement.
\<close>

subsection \<open>Packets\<close>

definition pt_regular :: byte where "pt_regular = 0x2A"
definition pt_hello :: byte where "pt_hello = 0x2B"
definition pt_file_credentials :: byte where "pt_file_credentials = 0x2C"
definition pt_file_request :: byte where "pt_file_request = 0x2D"
definition pt_file_stop :: byte where "pt_file_stop = 0x2E"
definition pt_file_begin :: byte where "pt_file_begin = 0x2F"
definition pt_file_chunk :: byte where "pt_file_chunk = 0x30"
definition pt_file_end :: byte where "pt_file_end = 0x31"
definition pt_file_state :: byte where "pt_file_state = 0x32"

lemmas packet_types = pt_regular_def pt_hello_def pt_file_credentials_def pt_file_request_def pt_file_stop_def
  pt_file_begin_def pt_file_chunk_def pt_file_end_def pt_file_state_def

definition is_valid_type :: "byte \<Rightarrow> bool" where
  "is_valid_type t \<longleftrightarrow> t = pt_regular \<or> t = pt_hello \<or> t = pt_file_credentials \<or> t = pt_file_request \<or>
     t = pt_file_chunk \<or> t = pt_file_begin \<or> t = pt_file_end \<or> t = pt_file_state \<or> t = pt_file_stop"

definition packet_header_size :: nat where
  "packet_header_size = 1 + 2 + 16 + 2 + 4 + 4"

definition max_packet_size :: u16 where
  "max_packet_size = 1430"

definition max_payload_size :: nat where
  "max_payload_size = unat max_packet_size - packet_header_size"

record p2p_packet =
  pk_type :: byte
  pk_size :: u16
  pk_addresser :: universal_id
  pk_payloadsize :: u16
  pk_partcount :: u32
  pk_partindex :: u32
  pk_payload :: bytes

text \<open>The condition of the \<open>static_assert\<close> of \<open>delivery_engine\<close> on its packet size.\<close>

definition packet_size_ok :: "u16 \<Rightarrow> bool" where
  "packet_size_ok ps \<longleftrightarrow> unat ps \<le> unat max_packet_size \<and> packet_header_size < unat ps"

definition payload_size :: "u16 \<Rightarrow> nat" where
  "payload_size ps = unat ps - packet_header_size"

text \<open>The loop of \<open>enqueue_packets\<close>: the packets it pushes, in order.\<close>

function enqueue_parts :: "universal_id \<Rightarrow> byte \<Rightarrow> u16 \<Rightarrow> u32 \<Rightarrow> u32 \<Rightarrow> bytes \<Rightarrow> p2p_packet list" where
  "enqueue_parts addresser packettype ps partcount partindex data =
     (if data = [] \<or> payload_size ps = 0 then []
      else
        (let n = (if length data > payload_size ps then payload_size ps else length data)
         in \<lparr>pk_type = packettype, pk_size = ps, pk_addresser = addresser, pk_payloadsize = of_nat n,
             pk_partcount = partcount, pk_partindex = partindex,
             pk_payload = take n data @ replicate (payload_size ps - n) 0\<rparr>
            # enqueue_parts addresser packettype ps partcount (partindex + 1) (drop n data)))"
  by pat_completeness auto
termination
  by (relation "measure (\<lambda>(a, t, ps, c, i, data). length data)") (auto simp: Let_def split: if_splits)

declare enqueue_parts.simps [simp del]

definition part_count :: "u16 \<Rightarrow> nat \<Rightarrow> nat" where
  "part_count ps len = len div payload_size ps + (if len mod payload_size ps \<noteq> 0 then 1 else 0)"

definition enqueue_packets :: "universal_id \<Rightarrow> byte \<Rightarrow> u16 \<Rightarrow> bytes \<Rightarrow> p2p_packet list" where
  "enqueue_packets addresser packettype ps data =
     enqueue_parts addresser packettype ps (of_nat (part_count ps (length data))) 1 data"

subsection \<open>Serialization of packets\<close>

text \<open>The string view that \<open>pack\<close> makes of the payload has the size \<open>packetsize\<close> less the header's.\<close>

definition pk_pack :: "'i streams \<Rightarrow> p2p_packet \<Rightarrow> bytes result" where
  "pk_pack io p =
     (if packet_header_size \<le> unat (pk_size p) \<and> unat (pk_size p) \<le> unat max_packet_size then
        Inr ([pk_type p] @ out_u16 io (pk_size p) @ out_id io (pk_addresser p) @ out_u16 io (pk_payloadsize p) @
             out_u32 io (pk_partcount p) @ out_u32 io (pk_partindex p) @ take (payload_size (pk_size p)) (pk_payload p))
      else Inl Undefined)"

text \<open>\<open>unpack\<close>: the size of the payload is a \<open>size_t\<close> difference. A stream that has more bytes than the
  array has overruns it.\<close>

definition pk_unpack :: "'i streams \<Rightarrow> 'i \<Rightarrow> (p2p_packet \<times> 'i) result" where
  "pk_unpack io s =
     (let (t, s) = in_u8 io s;
          (size, s) = in_u16 io s;
          (addresser, s) = in_id io s;
          (payloadsize, s) = in_u16 io s;
          (partcount, s) = in_u32 io s;
          (partindex, s) = in_u32 io s;
          n = unat (ucast size - of_nat packet_header_size :: u64);
          available = in_available io s;
          (payload, s) = in_bytes io n s
      in if max_payload_size < n \<and> n \<le> available then Inl Undefined
         else Inr (\<lparr>pk_type = t, pk_size = size, pk_addresser = addresser, pk_payloadsize = payloadsize,
                    pk_partcount = partcount, pk_partindex = partindex, pk_payload = payload\<rparr>, s))"

subsection \<open>The other serializers\<close>

record hello_packet =
  hl_greeting :: bytes
  hl_uuid :: universal_id
  hl_port :: u16
  hl_expiration_interval :: u16
  hl_counter :: u32
  hl_timestamp :: u64
  hl_crc16 :: u16

record crc_ops =
  crc16_of_ptr :: "bytes \<Rightarrow> u16 \<Rightarrow> u16"
  crc16_all_of :: "u16 \<Rightarrow> universal_id \<Rightarrow> u16 \<Rightarrow> u16 \<Rightarrow> u32 \<Rightarrow> u64 \<Rightarrow> u16"

definition hello_packet_size :: nat where
  "hello_packet_size = 4 + 16 + 2 * 2 + 4 + 8 + 2"

definition helo :: bytes where
  "helo = [0x48, 0x45, 0x4C, 0x4F]"

definition hl_crc16_of :: "crc_ops \<Rightarrow> hello_packet \<Rightarrow> u16" where
  "hl_crc16_of crc p =
     crc16_all_of crc (crc16_of_ptr crc (hl_greeting p) 0) (hl_uuid p) (hl_port p) (hl_expiration_interval p)
       (hl_counter p) (hl_timestamp p)"

definition hl_is_valid :: "crc_ops \<Rightarrow> hello_packet \<Rightarrow> bool" where
  "hl_is_valid crc p \<longleftrightarrow> hl_greeting p = helo \<and> hl_crc16_of crc p = hl_crc16 p"

definition hl_pack :: "'i streams \<Rightarrow> crc_ops \<Rightarrow> hello_packet \<Rightarrow> bytes" where
  "hl_pack io crc p =
     hl_greeting p @ out_id io (hl_uuid p) @ out_u16 io (hl_port p) @ out_u16 io (hl_expiration_interval p) @
     out_u32 io (hl_counter p) @ out_u64 io (hl_timestamp p) @ out_u16 io (hl_crc16_of crc p)"

definition hl_unpack :: "'i streams \<Rightarrow> 'i \<Rightarrow> hello_packet \<times> 'i" where
  "hl_unpack io s =
     (let (g0, s) = in_u8 io s;
          (g1, s) = in_u8 io s;
          (g2, s) = in_u8 io s;
          (g3, s) = in_u8 io s;
          (uuid, s) = in_id io s;
          (port, s) = in_u16 io s;
          (interval, s) = in_u16 io s;
          (counter, s) = in_u32 io s;
          (timestamp, s) = in_u64 io s;
          (crc, s) = in_u16 io s
      in (\<lparr>hl_greeting = [g0, g1, g2, g3], hl_uuid = uuid, hl_port = port, hl_expiration_interval = interval,
           hl_counter = counter, hl_timestamp = timestamp, hl_crc16 = crc\<rparr>, s))"

record file_credentials =
  fc_fileid :: universal_id
  fc_filename :: bytes
  fc_filesize :: u64
  fc_offset :: u64

definition fc_pack :: "'i streams \<Rightarrow> file_credentials \<Rightarrow> bytes" where
  "fc_pack io fc = out_id io (fc_fileid fc) @ out_string io (fc_filename fc) @ out_u64 io (fc_filesize fc) @ out_u64 io (fc_offset fc)"

definition fc_unpack :: "'i streams \<Rightarrow> 'i \<Rightarrow> file_credentials \<times> 'i" where
  "fc_unpack io s =
     (let (fileid, s) = in_id io s;
          (filename, s) = in_string io s;
          (filesize, s) = in_u64 io s;
          (offset, s) = in_u64 io s
      in (\<lparr>fc_fileid = fileid, fc_filename = filename, fc_filesize = filesize, fc_offset = offset\<rparr>, s))"

text \<open>\<open>file_request\<close> and \<open>file_begin\<close> have the same fields.\<close>

record file_position =
  fp_fileid :: universal_id
  fp_offset :: u64

definition fp_pack :: "'i streams \<Rightarrow> file_position \<Rightarrow> bytes" where
  "fp_pack io p = out_id io (fp_fileid p) @ out_u64 io (fp_offset p)"

definition fp_unpack :: "'i streams \<Rightarrow> 'i \<Rightarrow> file_position \<times> 'i" where
  "fp_unpack io s =
     (let (fileid, s) = in_id io s;
          (offset, s) = in_u64 io s
      in (\<lparr>fp_fileid = fileid, fp_offset = offset\<rparr>, s))"

text \<open>\<open>file_stop\<close> and \<open>file_end\<close> are a file identifier.\<close>

definition fid_pack :: "'i streams \<Rightarrow> universal_id \<Rightarrow> bytes" where
  "fid_pack io fileid = out_id io fileid"

definition fid_unpack :: "'i streams \<Rightarrow> 'i \<Rightarrow> universal_id \<times> 'i" where
  "fid_unpack io s = in_id io s"

record file_chunk =
  ck_fileid :: universal_id
  ck_offset :: u64
  ck_chunksize :: u32
  ck_chunk :: bytes

definition ck_pack :: "'i streams \<Rightarrow> file_chunk \<Rightarrow> bytes" where
  "ck_pack io c = out_id io (ck_fileid c) @ out_u64 io (ck_offset c) @ out_u32 io (ck_chunksize c) @ ck_chunk c"

definition ck_unpack :: "'i streams \<Rightarrow> 'i \<Rightarrow> file_chunk \<times> 'i" where
  "ck_unpack io s =
     (let (fileid, s) = in_id io s;
          (offset, s) = in_u64 io s;
          (chunksize, s) = in_u32 io s;
          (chunk, s) = in_bytes io (unat (scast chunksize :: u64)) s
      in (\<lparr>ck_fileid = fileid, ck_offset = offset, ck_chunksize = chunksize, ck_chunk = chunk\<rparr>, s))"

definition file_status_success :: byte where
  "file_status_success = 0x2A"

record file_state =
  ft_fileid :: universal_id
  ft_status :: byte

definition ft_pack :: "'i streams \<Rightarrow> file_state \<Rightarrow> bytes" where
  "ft_pack io st = out_id io (ft_fileid st) @ [ft_status st]"

definition ft_unpack :: "'i streams \<Rightarrow> 'i \<Rightarrow> file_state \<times> 'i" where
  "ft_unpack io s =
     (let (fileid, s) = in_id io s;
          (status, s) = in_u8 io s
      in (\<lparr>ft_fileid = fileid, ft_status = status\<rparr>, s))"

subsection \<open>Fragmentation\<close>

text \<open>A packet as \<open>enqueue_packets\<close> makes it for the packet size \<open>ps\<close>.\<close>

definition packet_ok :: "u16 \<Rightarrow> p2p_packet \<Rightarrow> bool" where
  "packet_ok ps p \<longleftrightarrow> pk_size p = ps \<and> length (pk_payload p) = payload_size ps \<and> unat (pk_payloadsize p) \<le> payload_size ps"

definition pk_data :: "p2p_packet \<Rightarrow> bytes" where
  "pk_data p = take (unat (pk_payloadsize p)) (pk_payload p)"

lemma packet_sizes [simp]: "packet_header_size = 29" "unat max_packet_size = 1430" "max_payload_size = 1401"
  by (simp_all add: packet_header_size_def max_packet_size_def max_payload_size_def)

lemma payload_size_bounds:
  assumes "packet_size_ok ps"
  shows "0 < payload_size ps" and "payload_size ps \<le> 1401" and "payload_size ps + 29 = unat ps"
  using assms by (auto simp: packet_size_ok_def payload_size_def)

lemma part_count_rest:
  assumes "0 < payload_size ps" and "payload_size ps < len"
  shows "part_count ps len = Suc (part_count ps (len - payload_size ps))"
  using assms le_div_geq [of "payload_size ps" len] le_mod_geq [of "payload_size ps" len] by (simp add: part_count_def)

lemma part_count_last:
  assumes "0 < len" and "len \<le> payload_size ps"
  shows "part_count ps len = 1"
  using assms by (cases "len = payload_size ps") (simp_all add: part_count_def)

lemma part_count_le: "part_count ps len \<le> len"
proof (cases "len = 0")
  case False
  show ?thesis
  proof (cases "payload_size ps \<le> 1")
    case True
    with False show ?thesis by (cases "payload_size ps = 0") (auto simp: part_count_def le_Suc_eq)
  next
    case two: False
    then have "len div payload_size ps < len" using False by simp
    then show ?thesis by (simp add: part_count_def)
  qed
qed (simp add: part_count_def)

text \<open>What one part and those after it are, for a packet size that fits.\<close>

lemma enqueue_parts_step:
  assumes "packet_size_ok ps" and "data \<noteq> []"
  shows "\<exists>p. enqueue_parts a t ps c i data = p # enqueue_parts a t ps c (i + 1) (drop (payload_size ps) data) \<and>
    pk_type p = t \<and> pk_addresser p = a \<and> packet_ok ps p \<and> pk_partcount p = c \<and> pk_partindex p = i \<and>
    pk_data p = take (payload_size ps) data \<and> 0 < unat (pk_payloadsize p)"
proof -
  note B = payload_size_bounds [OF assms(1)]
  let ?n = "if length data > payload_size ps then payload_size ps else length data"
  have n: "?n \<le> payload_size ps" "0 < ?n" using assms(2) B(1) by auto
  then have "unat (of_nat ?n :: u16) = ?n" using B(2) by (simp add: unat_of_nat take_bit_nat_eq_self)
  moreover have "take ?n data = take (payload_size ps) data" "drop ?n data = drop (payload_size ps) data" by simp_all
  moreover have "length (take ?n data) = ?n" by simp
  ultimately show ?thesis
    using assms(2) B(1) n by (subst enqueue_parts.simps) (auto simp: Let_def packet_ok_def pk_data_def)
qed

lemma enqueue_parts_Nil: "enqueue_parts a t ps c i [] = []"
  by (simp add: enqueue_parts.simps)

text \<open>The parts of a message from number \<open>i\<close> on.\<close>

definition part_ok :: "universal_id \<Rightarrow> byte \<Rightarrow> u16 \<Rightarrow> u32 \<Rightarrow> nat \<Rightarrow> p2p_packet \<Rightarrow> bool" where
  "part_ok a t ps c i p \<longleftrightarrow> packet_ok ps p \<and> pk_type p = t \<and> pk_addresser p = a \<and> pk_partcount p = c \<and>
     unat (pk_partindex p) = i \<and> 0 < unat (pk_payloadsize p)"

fun parts_ok :: "universal_id \<Rightarrow> byte \<Rightarrow> u16 \<Rightarrow> u32 \<Rightarrow> nat \<Rightarrow> p2p_packet list \<Rightarrow> bool" where
  "parts_ok a t ps c i [] = True"
| "parts_ok a t ps c i (p # parts) = (part_ok a t ps c i p \<and> parts_ok a t ps c (Suc i) parts)"

lemma parts_ok_nth: "parts_ok a t ps c i parts \<longleftrightarrow> (\<forall>j < length parts. part_ok a t ps c (i + j) (parts ! j))"
  by (induction parts arbitrary: i) (auto simp: nth_Cons' less_Suc_eq_0_disj)

lemma unat_u32: "n < 2 ^ 32 \<Longrightarrow> unat (of_nat n :: u32) = n"
  by (simp add: unat_of_nat take_bit_nat_eq_self)

lemma part_count_cut:
  assumes "packet_size_ok ps" and "0 < len"
  shows "part_count ps len = Suc (part_count ps (len - payload_size ps))"
proof (cases "payload_size ps < len")
  case True
  with payload_size_bounds(1) [OF assms(1)] show ?thesis by (rule part_count_rest)
next
  case False
  with assms(2) show ?thesis by (simp add: part_count_last) (simp add: part_count_def)
qed

lemma enqueue_parts_spec:
  assumes "packet_size_ok ps" and "k + part_count ps (length data) < 2 ^ 32"
  shows "length (enqueue_parts a t ps c (of_nat (Suc k)) data) = part_count ps (length data) \<and>
    concat (map pk_data (enqueue_parts a t ps c (of_nat (Suc k)) data)) = data \<and>
    parts_ok a t ps c (Suc k) (enqueue_parts a t ps c (of_nat (Suc k)) data)"
  using assms(2)
proof (induction "length data" arbitrary: data k rule: less_induct)
  case less
  show ?case
  proof (cases "data = []")
    case True
    then show ?thesis by (simp add: enqueue_parts_Nil part_count_def)
  next
    case False
    let ?rest = "enqueue_parts a t ps c (of_nat (Suc (Suc k))) (drop (payload_size ps) data)"
    obtain p where p: "enqueue_parts a t ps c (of_nat (Suc k)) data = p # ?rest" "pk_type p = t" "pk_addresser p = a"
      "packet_ok ps p" "pk_partcount p = c" "pk_partindex p = of_nat (Suc k)" "pk_data p = take (payload_size ps) data"
      "0 < unat (pk_payloadsize p)"
      using enqueue_parts_step [OF assms(1) False, of a t c "of_nat (Suc k)"] by (auto simp: add.commute add.left_commute)
    have cnt: "part_count ps (length data) = Suc (part_count ps (length (drop (payload_size ps) data)))"
      using part_count_cut [OF assms(1), of "length data"] False by simp
    have "length (drop (payload_size ps) data) < length data"
      using False payload_size_bounds(1) [OF assms(1)] by simp
    from less.hyps [OF this, of "Suc k"] less.prems cnt
    have IH: "length ?rest = part_count ps (length (drop (payload_size ps) data))"
      "concat (map pk_data ?rest) = drop (payload_size ps) data" "parts_ok a t ps c (Suc (Suc k)) ?rest" by auto
    have "unat (of_nat (Suc k) :: u32) = Suc k" by (rule unat_u32) (use less.prems cnt in simp)
    with p have "part_ok a t ps c (Suc k) p" by (simp add: part_ok_def)
    with IH p(7) cnt show ?thesis unfolding p(1) by simp
  qed
qed

lemma enqueue_packets_parts:
  assumes "packet_size_ok ps" and "length data < 2 ^ 31"
  shows "length (enqueue_packets a t ps data) = part_count ps (length data)"
    and "concat (map pk_data (enqueue_packets a t ps data)) = data"
    and "parts_ok a t ps (of_nat (length (enqueue_packets a t ps data))) 1 (enqueue_packets a t ps data)"
    and "length (enqueue_packets a t ps data) < 2 ^ 32"
proof -
  have b: "part_count ps (length data) < 2 ^ 32" using part_count_le [of ps "length data"] assms(2) by simp
  from enqueue_parts_spec [OF assms(1), of 0 data] b
  show "length (enqueue_packets a t ps data) = part_count ps (length data)"
    "concat (map pk_data (enqueue_packets a t ps data)) = data"
    "parts_ok a t ps (of_nat (length (enqueue_packets a t ps data))) 1 (enqueue_packets a t ps data)"
    "length (enqueue_packets a t ps data) < 2 ^ 32"
    by (simp_all add: enqueue_packets_def)
qed

subsection \<open>Reading back\<close>

context byte_streams
begin

lemma pk_pack_length:
  assumes "packet_size_ok ps" and "packet_ok ps p" and "pk_pack io p = Inr w"
  shows "length w = unat ps"
  using assms payload_size_bounds [OF assms(1)]
  by (auto simp: pk_pack_def packet_ok_def u16_length u32_length id_length split: if_splits)

lemma pk_pack_ok: "packet_size_ok ps \<Longrightarrow> packet_ok ps p \<Longrightarrow> \<exists>w. pk_pack io p = Inr (pk_type p # w)"
  by (auto simp: pk_pack_def packet_ok_def packet_size_ok_def)

lemma unat_scast_of_nat:
  assumes "n < 2 ^ 31"
  shows "unat (scast (of_nat n :: u32) :: u64) = n"
proof -
  have "sint (of_nat n :: u32) = int n"
    using assms by (simp add: signed_of_nat signed_take_bit_int_eq_self)
  then have "(scast (of_nat n :: u32) :: u64) = of_int (int n)" by (metis of_int_sint)
  then show ?thesis using assms by (simp add: unat_of_nat take_bit_nat_eq_self)
qed

lemma unat_u16_u64: "unat (ucast (x :: u16) :: u64) = unat x"
proof -
  have "unat x < 2 ^ 16" using unsigned_less [of x, where ?'a = nat] by simp
  then show ?thesis by (simp add: unsigned_ucast_eq take_bit_nat_eq_self)
qed

lemma u64_less: "29 \<le> unat (x :: u16) \<Longrightarrow> unat (ucast x - 29 :: u64) = unat x - 29"
  by (subst unat_sub_if') (auto simp: unat_u16_u64)

lemma pk_unpack_shaped:
  assumes "packet_size_ok ps" and "pk_size p = ps \<and> length (pk_payload p) = payload_size ps" and "pk_pack io p = Inr w"
    and "sv_good v s" and "sv_rest v s = w @ r"
  shows "\<exists>s'. pk_unpack io s = Inr (p, s') \<and> sv_good v s' \<and> sv_rest v s' = r"
proof -
  note B = payload_size_bounds [OF assms(1)]
  have size: "pk_size p = ps" and len: "length (pk_payload p) = payload_size ps" using assms(2) by simp_all
  have w: "w = [pk_type p] @ out_u16 io ps @ out_id io (pk_addresser p) @ out_u16 io (pk_payloadsize p) @
      out_u32 io (pk_partcount p) @ out_u32 io (pk_partindex p) @ pk_payload p"
    using assms(1,3) size len by (simp add: pk_pack_def packet_size_ok_def)
  have n: "unat (ucast ps - of_nat packet_header_size :: u64) = length (pk_payload p)"
    using u64_less [of ps] B len by simp
  show ?thesis
  proof -
    let ?r1 = "out_u16 io ps @ out_id io (pk_addresser p) @ out_u16 io (pk_payloadsize p) @
      out_u32 io (pk_partcount p) @ out_u32 io (pk_partindex p) @ pk_payload p @ r"
    obtain s1 where 1: "in_u8 io s = (pk_type p, s1)" "sv_good v s1" "sv_rest v s1 = ?r1"
      using readsD [OF u8_reads assms(4), of "pk_type p" ?r1] assms(5) w by (cases "in_u8 io s") auto
    obtain s2 where 2: "in_u16 io s1 = (ps, s2)" "sv_good v s2" "sv_rest v s2 = out_id io (pk_addresser p) @
        out_u16 io (pk_payloadsize p) @ out_u32 io (pk_partcount p) @ out_u32 io (pk_partindex p) @ pk_payload p @ r"
      using readsD [OF u16_reads 1(2,3)] by (cases "in_u16 io s1") auto
    obtain s3 where 3: "in_id io s2 = (pk_addresser p, s3)" "sv_good v s3" "sv_rest v s3 = out_u16 io (pk_payloadsize p) @
        out_u32 io (pk_partcount p) @ out_u32 io (pk_partindex p) @ pk_payload p @ r"
      using readsD [OF id_reads 2(2,3)] by (cases "in_id io s2") auto
    obtain s4 where 4: "in_u16 io s3 = (pk_payloadsize p, s4)" "sv_good v s4" "sv_rest v s4 =
        out_u32 io (pk_partcount p) @ out_u32 io (pk_partindex p) @ pk_payload p @ r"
      using readsD [OF u16_reads 3(2,3)] by (cases "in_u16 io s3") auto
    obtain s5 where 5: "in_u32 io s4 = (pk_partcount p, s5)" "sv_good v s5" "sv_rest v s5 = out_u32 io (pk_partindex p) @ pk_payload p @ r"
      using readsD [OF u32_reads 4(2,3)] by (cases "in_u32 io s4") auto
    obtain s6 where 6: "in_u32 io s5 = (pk_partindex p, s6)" "sv_good v s6" "sv_rest v s6 = pk_payload p @ r"
      using readsD [OF u32_reads 5(2,3)] by (cases "in_u32 io s5") auto
    obtain s7 where 7: "in_bytes io (length (pk_payload p)) s6 = (pk_payload p, s7)" "sv_good v s7" "sv_rest v s7 = r"
      using readsD [OF bytes_reads 6(2,3)] by (cases "in_bytes io (length (pk_payload p)) s6") auto
    have "\<not> max_payload_size < length (pk_payload p)" using len B by simp
    then have "pk_unpack io s = Inr (p, s7)"
      unfolding pk_unpack_def Let_def 1(1) prod.case 2(1) 3(1) 4(1) 5(1) 6(1) n 7(1) using size by simp
    with 7 show ?thesis by blast
  qed
qed

lemma pk_unpack_packed:
  assumes "packet_size_ok ps" and "packet_ok ps p" and "pk_pack io p = Inr w"
    and "sv_good v s" and "sv_rest v s = w @ r"
  shows "\<exists>s'. pk_unpack io s = Inr (p, s') \<and> sv_good v s' \<and> sv_rest v s' = r"
  by (rule pk_unpack_shaped [OF assms(1) _ assms(3-5)]) (use assms(2) in \<open>simp add: packet_ok_def\<close>)

lemma reads_step:
  assumes "reads v rd w1 x" and "reads v (rd' x) w2 y"
  shows "reads v (\<lambda>s. let (a, s) = rd s in rd' a s) (w1 @ w2) y"
  using assms by (auto simp: reads_def case_prod_unfold)

lemma reads_last:
  assumes "reads v rd w x" and "f x = y"
  shows "reads v (\<lambda>s. let (a, s) = rd s in (f a, s)) w y"
  using assms by (auto simp: reads_def case_prod_unfold)

lemmas read_steps = u8_reads [THEN reads_step] u16_reads [THEN reads_step] u32_reads [THEN reads_step]
  u64_reads [THEN reads_step] id_reads [THEN reads_step]

lemmas read_lasts = u8_reads [THEN reads_last] u16_reads [THEN reads_last] u32_reads [THEN reads_last]
  u64_reads [THEN reads_last]

lemma hl_reads:
  assumes "length (hl_greeting p) = 4"
  shows "reads v (hl_unpack io) (hl_pack io crc p) (p\<lparr>hl_crc16 := hl_crc16_of crc p\<rparr>)"
proof -
  from assms obtain g0 g1 g2 g3 where g: "hl_greeting p = [g0, g1, g2, g3]"
    by (auto simp: numeral_eq_Suc length_Suc_conv)
  have "reads v (hl_unpack io) ([g0] @ [g1] @ [g2] @ [g3] @ out_id io (hl_uuid p) @ out_u16 io (hl_port p) @
      out_u16 io (hl_expiration_interval p) @ out_u32 io (hl_counter p) @ out_u64 io (hl_timestamp p) @
      out_u16 io (hl_crc16_of crc p)) (p\<lparr>hl_crc16 := hl_crc16_of crc p\<rparr>)"
    unfolding hl_unpack_def by (rule read_steps read_lasts | simp add: g [symmetric])+
  then show ?thesis by (simp add: hl_pack_def g)
qed

lemma fc_reads:
  assumes "length (fc_filename fc) < 2 ^ 32"
  shows "reads v (fc_unpack io) (fc_pack io fc) fc"
  unfolding fc_unpack_def fc_pack_def
  by (rule read_steps string_reads [OF assms, THEN reads_step] read_lasts | simp)+

lemma fp_reads: "reads v (fp_unpack io) (fp_pack io p) p"
  unfolding fp_unpack_def fp_pack_def by (rule read_steps read_lasts | simp)+

lemma fid_reads: "reads v (fid_unpack io) (fid_pack io i) i"
  unfolding fid_unpack_def fid_pack_def by (rule id_reads)

lemma ft_reads: "reads v (ft_unpack io) (ft_pack io st) st"
  unfolding ft_unpack_def ft_pack_def by (rule read_steps read_lasts | simp)+

lemma ck_reads:
  assumes "length (ck_chunk c) < 2 ^ 31" and "ck_chunksize c = of_nat (length (ck_chunk c))"
  shows "reads v (ck_unpack io) (ck_pack io c) c"
proof -
  have n: "unat (scast (ck_chunksize c) :: u64) = length (ck_chunk c)"
    unfolding assms(2) by (rule unat_scast_of_nat [OF assms(1)])
  show ?thesis
    unfolding ck_unpack_def ck_pack_def
    by (rule read_steps bytes_reads [of "ck_chunk c", folded n, THEN reads_last] | simp)+
qed

end

subsection \<open>Properties\<close>

text \<open>\<open>enqueue_packets\<close> fragments a message: it pushes as many packets as payloads of the packet size
  are needed, every one of the packet size, of the type and from the addresser given, numbered from 1 in
  order and with the number of all of them, and their payloads make up the message; an empty message
  makes no packet.\<close>

theorem enqueue_packets_fragments:
  assumes "packet_size_ok ps" and "length data < 2 ^ 31"
  shows "let parts = enqueue_packets a t ps data in
    length parts = part_count ps (length data) \<and> concat (map pk_data parts) = data \<and>
    (\<forall>j < length parts. packet_ok ps (parts ! j) \<and> pk_type (parts ! j) = t \<and> pk_addresser (parts ! j) = a \<and>
      unat (pk_partindex (parts ! j)) = Suc j \<and> unat (pk_partcount (parts ! j)) = length parts \<and>
      pk_data (parts ! j) \<noteq> [])"
proof -
  note P = enqueue_packets_parts [OF assms, of a t]
  have "pk_data p \<noteq> []" if "packet_ok ps p" "0 < unat (pk_payloadsize p)" for p
    using that payload_size_bounds(1) [OF assms(1)] by (auto simp: pk_data_def packet_ok_def)
  with P(1,2) P(3) [unfolded parts_ok_nth] unat_u32 [OF P(4)] show ?thesis
    by (simp add: Let_def part_ok_def)
qed

theorem enqueue_packets_fragments_witness:
  "let parts = enqueue_packets 7 pt_regular 32 [1, 2, 3, 4, 5, 6, 7] in
    length parts = 3 \<and> concat (map pk_data parts) = [1, 2, 3, 4, 5, 6, 7]"
  using enqueue_packets_fragments [of 32 "[1, 2, 3, 4, 5, 6, 7]" 7 pt_regular]
  by (simp add: Let_def packet_size_ok_def part_count_def payload_size_def)

text \<open>The serializers of the peer-to-peer engine are inverse to each other on a stream that begins
  with what was written: a packet of the size in use, a \<open>hello_packet\<close> (which is valid then),
  \<open>file_credentials\<close>, \<open>file_request\<close> and \<open>file_begin\<close>, \<open>file_stop\<close> and \<open>file_end\<close>, \<open>file_chunk\<close> with
  its size, and \<open>file_state\<close>.\<close>

theorem p2p_serializers_roundtrip:
  assumes "byte_streams io v"
  shows "(\<forall>ps p w s r. packet_size_ok ps \<and> packet_ok ps p \<and> pk_pack io p = Inr w \<and> sv_good v s \<and> sv_rest v s = w @ r \<longrightarrow>
      length w = unat ps \<and> (\<exists>s'. pk_unpack io s = Inr (p, s') \<and> sv_good v s' \<and> sv_rest v s' = r)) \<and>
    (\<forall>p. hl_greeting p = helo \<longrightarrow> (let q = p\<lparr>hl_crc16 := hl_crc16_of crc p\<rparr> in
      hl_is_valid crc q \<and> reads v (hl_unpack io) (hl_pack io crc p) q)) \<and>
    (\<forall>fc. length (fc_filename fc) < 2 ^ 32 \<longrightarrow> reads v (fc_unpack io) (fc_pack io fc) fc) \<and>
    (\<forall>p. reads v (fp_unpack io) (fp_pack io p) p) \<and> (\<forall>i. reads v (fid_unpack io) (fid_pack io i) i) \<and>
    (\<forall>c. length (ck_chunk c) < 2 ^ 31 \<and> ck_chunksize c = of_nat (length (ck_chunk c)) \<longrightarrow>
      reads v (ck_unpack io) (ck_pack io c) c) \<and>
    (\<forall>st. reads v (ft_unpack io) (ft_pack io st) st)"
proof (intro conjI allI impI)
  show "reads v (fc_unpack io) (fc_pack io fc) fc" if "length (fc_filename fc) < 2 ^ 32" for fc
    by (rule byte_streams.fc_reads [OF assms that])
  show "reads v (fp_unpack io) (fp_pack io p) p" for p by (rule byte_streams.fp_reads [OF assms])
  show "reads v (fid_unpack io) (fid_pack io i) i" for i by (rule byte_streams.fid_reads [OF assms])
  show "reads v (ft_unpack io) (ft_pack io st) st" for st by (rule byte_streams.ft_reads [OF assms])
  show "reads v (ck_unpack io) (ck_pack io c) c"
    if "length (ck_chunk c) < 2 ^ 31 \<and> ck_chunksize c = of_nat (length (ck_chunk c))" for c
    using byte_streams.ck_reads [OF assms] that by blast
  show "let q = p\<lparr>hl_crc16 := hl_crc16_of crc p\<rparr> in hl_is_valid crc q \<and> reads v (hl_unpack io) (hl_pack io crc p) q"
    if "hl_greeting p = helo" for p
    using byte_streams.hl_reads [OF assms, of p crc] that
    by (simp add: Let_def hl_is_valid_def hl_crc16_of_def helo_def)
next
  fix ps p w s r
  assume a: "packet_size_ok ps \<and> packet_ok ps p \<and> pk_pack io p = Inr w \<and> sv_good v s \<and> sv_rest v s = w @ r"
  then show "length w = unat ps" using byte_streams.pk_pack_length [OF assms] by blast
  from a show "\<exists>s'. pk_unpack io s = Inr (p, s') \<and> sv_good v s' \<and> sv_rest v s' = r"
    using byte_streams.pk_unpack_packed [OF assms] by blast
qed

theorem p2p_serializers_roundtrip_witness:
  "reads mem_view (fp_unpack be_streams) (fp_pack be_streams \<lparr>fp_fileid = 5, fp_offset = 9\<rparr>) \<lparr>fp_fileid = 5, fp_offset = 9\<rparr> \<and>
    reads mem_view (ck_unpack be_streams) (ck_pack be_streams \<lparr>ck_fileid = 5, ck_offset = 0, ck_chunksize = 2, ck_chunk = [8, 9]\<rparr>)
      \<lparr>ck_fileid = 5, ck_offset = 0, ck_chunksize = 2, ck_chunk = [8, 9]\<rparr>"
  using p2p_serializers_roundtrip [OF be.byte_streams_axioms] by (simp del: be128_value)

end
