(* ===== verification/DeliveryEngine.thy ===== *)
theory DeliveryEngine
  imports P2PPacket WriterPool
begin

text \<open>
  \<open>delivery_engine\<close> (include/pfs/netty/p2p/delivery_engine.hpp): messages between peers over packets of
  a fixed size. Each peer is written to over a socket of its own and read from over another one.

  The calls of the callbacks, of the pollers and of the sockets are events, in the order the code makes
  them; what sockets and pollers answer is an argument. \<open>output_queue_type\<close>, a \<open>pfs::ring_buffer\<close>, is used
  as a first-in first-out queue and is a list. Both maps of accounts are \<open>std::map\<close>s, association lists
  sorted by key; a socket is named by its identifier.
\<close>

subsection \<open>State\<close>

record de_reader =
  ra_peerid :: peer_id
  ra_b :: bytes
  ra_raw :: bytes

record de_writer =
  wr_peerid :: peer_id
  wr_writer :: socket_id
  wr_can_write :: bool
  wr_connected :: bool
  wr_regular :: "p2p_packet list"
  wr_chunks :: "(universal_id \<times> p2p_packet list) list"
  wr_raw :: bytes

record delivery_engine =
  de_host_id :: peer_id
  de_readers :: "(socket_id \<times> de_reader) list"
  de_writers :: "(peer_id \<times> de_writer) list"
  de_expired_peers :: "peer_id list"

datatype de_event =
    DeOnError
  | DeOnWarn
  | DeOnFailure errc
  | DeDeferExpirePeer peer_id
  | DeReaderReady peer_id socket_id
  | DeReaderClosed peer_id socket_id
  | DeWriterReady peer_id socket_id
  | DeWriterClosed peer_id socket_id
  | DeChannelEstablished peer_id socket_id
  | DeChannelClosed peer_id
  | DeDataReceived peer_id bytes
  | DeFileDataReceived peer_id byte bytes
  | DeRequestFileChunk peer_id universal_id
  | DePollerAdd socket_id
  | DeReaderPollerRemove socket_id
  | DeWriterPollerRemove socket_id
  | DeWaitForWrite socket_id
  | DeSend socket_id bytes send_result

type_synonym de_out = "delivery_engine \<times> de_event list"

text \<open>The identifier that \<open>peer_id {}\<close> makes.\<close>

definition no_peer :: peer_id where
  "no_peer = 0"

definition de_new :: "peer_id \<Rightarrow> delivery_engine" where
  "de_new host_id = \<lparr>de_host_id = host_id, de_readers = [], de_writers = [], de_expired_peers = []\<rparr>"

subsection \<open>Accounts\<close>

definition de_accept_reader :: "errc + socket_id \<Rightarrow> delivery_engine \<Rightarrow> socket_id option \<times> de_out" where
  "de_accept_reader answer d =
     (case answer of
        Inl e \<Rightarrow> (None, d, [DeOnError])
      | Inr sock \<Rightarrow>
          (let old = (case map_of (de_readers d) sock of Some a \<Rightarrow> ra_peerid a | None \<Rightarrow> no_peer)
           in (Some sock,
               d\<lparr>de_readers := om_update sock \<lparr>ra_peerid = old, ra_b = [], ra_raw = []\<rparr> (de_readers d)\<rparr>, [])))"

definition locate_reader_by_peer :: "peer_id \<Rightarrow> delivery_engine \<Rightarrow> (socket_id \<times> de_reader) option" where
  "locate_reader_by_peer peerid d = find (\<lambda>r. ra_peerid (snd r) = peerid) (de_readers d)"

definition locate_writer_by_socket :: "socket_id \<Rightarrow> delivery_engine \<Rightarrow> de_writer option" where
  "locate_writer_by_socket sock d = map_option snd (find (\<lambda>w. wr_writer (snd w) = sock) (de_writers d))"

definition de_put_reader :: "socket_id \<Rightarrow> de_reader \<Rightarrow> delivery_engine \<Rightarrow> delivery_engine" where
  "de_put_reader sock a d = d\<lparr>de_readers := om_update sock a (de_readers d)\<rparr>"

definition de_put_writer :: "peer_id \<Rightarrow> de_writer \<Rightarrow> delivery_engine \<Rightarrow> delivery_engine" where
  "de_put_writer peerid a d = d\<lparr>de_writers := om_update peerid a (de_writers d)\<rparr>"

text \<open>\<open>acquire_writer_account\<close> and the assignment of the socket that follows it.\<close>

definition de_acquire_writer :: "peer_id \<Rightarrow> socket_id \<Rightarrow> delivery_engine \<Rightarrow> delivery_engine" where
  "de_acquire_writer peerid sock =
     de_put_writer peerid
       \<lparr>wr_peerid = peerid, wr_writer = sock, wr_can_write = False, wr_connected = False,
        wr_regular = [], wr_chunks = [], wr_raw = []\<rparr>"

text \<open>\<open>sock\<close> is the new socket, \<open>add_err\<close> the error of the poller.\<close>

definition de_connect :: "errc option \<Rightarrow> socket_id \<Rightarrow> peer_id \<Rightarrow> delivery_engine \<Rightarrow> de_out" where
  "de_connect add_err sock peerid d =
     (case add_err of
        None \<Rightarrow> (de_acquire_writer peerid sock d, [DePollerAdd sock])
      | Some e \<Rightarrow> (d, [DePollerAdd sock, DeOnError]))"

definition de_release_reader :: "peer_id \<Rightarrow> delivery_engine \<Rightarrow> de_event list" where
  "de_release_reader peerid d =
     (case locate_reader_by_peer peerid d of
        None \<Rightarrow> [DeOnError]
      | Some (sock, a) \<Rightarrow> [DeReaderPollerRemove sock, DeReaderClosed peerid sock])"

definition de_release_writer :: "peer_id \<Rightarrow> delivery_engine \<Rightarrow> de_event list" where
  "de_release_writer peerid d =
     (case map_of (de_writers d) peerid of
        None \<Rightarrow> [DeOnError]
      | Some a \<Rightarrow> [DeWriterPollerRemove (wr_writer a), DeWriterClosed peerid (wr_writer a)])"

definition de_release_peer :: "peer_id \<Rightarrow> delivery_engine \<Rightarrow> de_event list" where
  "de_release_peer peerid d = de_release_reader peerid d @ de_release_writer peerid d @ [DeChannelClosed peerid]"

definition de_expire_peer :: "peer_id \<Rightarrow> delivery_engine \<Rightarrow> delivery_engine" where
  "de_expire_peer peerid d = d\<lparr>de_expired_peers := de_expired_peers d @ [peerid]\<rparr>"

definition de_release_expired_peers :: "delivery_engine \<Rightarrow> de_out" where
  "de_release_expired_peers d =
     (d\<lparr>de_expired_peers := []\<rparr>, concat (map (\<lambda>p. de_release_peer p d) (de_expired_peers d)))"

definition de_release_peers :: "delivery_engine \<Rightarrow> de_event list" where
  "de_release_peers d = concat (map (\<lambda>w. de_release_peer (fst w) d) (de_writers d))"

definition de_check_complete_channel :: "peer_id \<Rightarrow> delivery_engine \<Rightarrow> de_event list" where
  "de_check_complete_channel peerid d =
     (case (locate_reader_by_peer peerid d, map_of (de_writers d) peerid) of
        (Some (sock, r), Some w) \<Rightarrow>
          (if ra_peerid r \<noteq> no_peer \<and> wr_connected w then [DeChannelEstablished peerid (wr_writer w)] else [])
      | _ \<Rightarrow> [])"

subsection \<open>Handlers of the pollers\<close>

text \<open>The reader poller: \<open>on_listener_failure\<close>, \<open>on_failure\<close>, \<open>disconnected\<close>, \<open>removed\<close>.\<close>

definition de_listener_failure :: "errc \<Rightarrow> de_event list" where
  "de_listener_failure e = [DeOnFailure e]"

definition de_reader_failure :: "socket_id \<Rightarrow> errc \<Rightarrow> delivery_engine \<Rightarrow> de_event list" where
  "de_reader_failure sock e d =
     (case map_of (de_readers d) sock of
        Some a \<Rightarrow> if ra_peerid a \<noteq> no_peer then [DeDeferExpirePeer (ra_peerid a)] else [DeOnError, DeOnFailure e]
      | None \<Rightarrow> [DeOnError, DeOnFailure e])"

definition de_reader_disconnected :: "socket_id \<Rightarrow> delivery_engine \<Rightarrow> de_event list" where
  "de_reader_disconnected sock d =
     (case map_of (de_readers d) sock of
        Some a \<Rightarrow> if ra_peerid a \<noteq> no_peer then [DeDeferExpirePeer (ra_peerid a)] else [DeOnWarn]
      | None \<Rightarrow> [DeOnWarn])"

definition de_reader_removed :: "socket_id \<Rightarrow> delivery_engine \<Rightarrow> delivery_engine" where
  "de_reader_removed sock d = d\<lparr>de_readers := AList.delete sock (de_readers d)\<rparr>"

text \<open>The writer poller: \<open>on_failure\<close>, \<open>connection_refused\<close>, \<open>disconnected\<close>, \<open>can_write\<close>, \<open>removed\<close>.\<close>

definition de_writer_failure :: "socket_id \<Rightarrow> errc \<Rightarrow> delivery_engine \<Rightarrow> de_event list" where
  "de_writer_failure sock e d =
     (case locate_writer_by_socket sock d of
        Some a \<Rightarrow> [DeDeferExpirePeer (wr_peerid a)]
      | None \<Rightarrow> [DeOnError, DeOnFailure e])"

definition de_connection_refused :: "socket_id \<Rightarrow> delivery_engine \<Rightarrow> de_event list" where
  "de_connection_refused sock d =
     (case locate_writer_by_socket sock d of
        Some a \<Rightarrow> [DeOnError, DeDeferExpirePeer (wr_peerid a)]
      | None \<Rightarrow> [DeOnError])"

definition de_writer_disconnected :: "socket_id \<Rightarrow> delivery_engine \<Rightarrow> de_event list" where
  "de_writer_disconnected sock d =
     (case locate_writer_by_socket sock d of
        Some a \<Rightarrow> [DeDeferExpirePeer (wr_peerid a)]
      | None \<Rightarrow> [DeOnError])"

text \<open>An account located by its socket is the one stored under its peer identifier.\<close>

definition de_can_write :: "socket_id \<Rightarrow> delivery_engine \<Rightarrow> de_out" where
  "de_can_write sock d =
     (case locate_writer_by_socket sock d of
        Some a \<Rightarrow> (de_put_writer (wr_peerid a) (a\<lparr>wr_can_write := True\<rparr>) d, [])
      | None \<Rightarrow> (d, [DeOnError]))"

definition de_writer_removed :: "socket_id \<Rightarrow> delivery_engine \<Rightarrow> de_out" where
  "de_writer_removed sock d =
     (case locate_writer_by_socket sock d of
        Some a \<Rightarrow> (d\<lparr>de_writers := AList.delete (wr_peerid a) (de_writers d)\<rparr>, [])
      | None \<Rightarrow> (d, [DeOnError]))"

subsection \<open>Output\<close>

definition de_enqueue_packets ::
  "u16 \<Rightarrow> peer_id \<Rightarrow> byte \<Rightarrow> bytes \<Rightarrow> delivery_engine \<Rightarrow> bool \<times> de_out" where
  "de_enqueue_packets ps addressee packettype data d =
     (case map_of (de_writers d) addressee of
        None \<Rightarrow> (False, d, [DeOnError])
      | Some w \<Rightarrow>
          (True, de_put_writer addressee
             (w\<lparr>wr_regular := wr_regular w @ enqueue_packets (de_host_id d) packettype ps data\<rparr>) d, []))"

definition de_enqueue :: "u16 \<Rightarrow> peer_id \<Rightarrow> bytes \<Rightarrow> delivery_engine \<Rightarrow> bool \<times> de_out" where
  "de_enqueue ps addressee data d = de_enqueue_packets ps addressee pt_regular data d"

definition de_enqueue_file_chunk ::
  "u16 \<Rightarrow> peer_id \<Rightarrow> universal_id \<Rightarrow> byte \<Rightarrow> bytes \<Rightarrow> delivery_engine \<Rightarrow> bool \<times> de_out" where
  "de_enqueue_file_chunk ps addressee fileid packettype data d =
     (case map_of (de_writers d) addressee of
        None \<Rightarrow> (False, d, [DeOnError])
      | Some w \<Rightarrow>
          (let q = (case map_of (wr_chunks w) fileid of Some q \<Rightarrow> q | None \<Rightarrow> [])
           in (True, de_put_writer addressee
                 (w\<lparr>wr_chunks := om_update fileid
                    (q @ enqueue_packets (de_host_id d) packettype ps data) (wr_chunks w)\<rparr>) d, [])))"

definition de_file_upload_stopped :: "peer_id \<Rightarrow> universal_id \<Rightarrow> delivery_engine \<Rightarrow> de_out" where
  "de_file_upload_stopped addressee fileid d =
     (case map_of (de_writers d) addressee of
        None \<Rightarrow> (d, [DeOnError])
      | Some w \<Rightarrow> (de_put_writer addressee (w\<lparr>wr_chunks := AList.delete fileid (wr_chunks w)\<rparr>) d, []))"

definition de_file_ready_send ::
  "u16 \<Rightarrow> peer_id \<Rightarrow> universal_id \<Rightarrow> byte \<Rightarrow> bytes \<Rightarrow> delivery_engine \<Rightarrow> de_out" where
  "de_file_ready_send ps addressee fileid packettype data d =
     (if packettype = pt_file_credentials \<or> packettype = pt_file_request \<or> packettype = pt_file_stop \<or>
         packettype = pt_file_state
      then snd (de_enqueue_packets ps addressee packettype data d)
      else if packettype = pt_file_begin \<or> packettype = pt_file_end \<or> packettype = pt_file_chunk
      then snd (de_enqueue_file_chunk ps addressee fileid packettype data d)
      else (d, []))"

definition de_process_socket_connected :: "u16 \<Rightarrow> socket_id \<Rightarrow> delivery_engine \<Rightarrow> de_out" where
  "de_process_socket_connected ps sock d =
     (case locate_writer_by_socket sock d of
        None \<Rightarrow> (d, [DeOnError])
      | Some a \<Rightarrow>
          (let d = de_put_writer (wr_peerid a) (a\<lparr>wr_connected := True\<rparr>) d;
               (sent, d, evs) = de_enqueue_packets ps (wr_peerid a) pt_hello helo d
           in (d, [DeWaitForWrite sock, DeWriterReady (wr_peerid a) sock] @ evs @
                  de_check_complete_channel (wr_peerid a) d)))"

text \<open>\<open>limit\<close> is the number of messages to serialize.\<close>

fun serialize_outgoing_packets ::
  "'i streams \<Rightarrow> bytes \<Rightarrow> p2p_packet list \<Rightarrow> nat \<Rightarrow> (bytes \<times> p2p_packet list) result" where
  "serialize_outgoing_packets io raw q 0 = Inr (raw, q)"
| "serialize_outgoing_packets io raw [] (Suc limit) = Inr (raw, [])"
| "serialize_outgoing_packets io raw (pkt # q) (Suc limit) =
     bindr (pk_pack io pkt) (\<lambda>w.
       serialize_outgoing_packets io (raw @ w) q (if pk_partindex pkt = pk_partcount pkt then limit else Suc limit))"

text \<open>
  \<open>send_outgoing_data\<close> for the answers of the socket in turn; it has not ended with these answers if the
  result is \<open>None\<close>. The socket is trusted not to take more than it is given.
\<close>

fun de_send_data ::
  "u16 \<Rightarrow> send_result list \<Rightarrow> de_writer \<Rightarrow> (de_writer \<times> de_event list) option" where
  "de_send_data ps answers w =
     (if wr_raw w = [] then Some (w, [])
      else case answers of
        [] \<Rightarrow> None
      | res # answers \<Rightarrow>
          (let data = take (unat ps * 10) (wr_raw w); sent = DeSend (wr_writer w) data res
           in case sr_status res of
                SendFailure \<Rightarrow> Some (w, [sent, DeOnError, DeDeferExpirePeer (wr_peerid w)])
              | SendNetwork \<Rightarrow> Some (w, [sent, DeOnError, DeDeferExpirePeer (wr_peerid w)])
              | SendAgain \<Rightarrow>
                  Some (if wr_can_write w then (w\<lparr>wr_can_write := False\<rparr>, [sent, DeWaitForWrite (wr_writer w)]) else (w, [sent]))
              | SendOverflow \<Rightarrow>
                  Some (if wr_can_write w then (w\<lparr>wr_can_write := False\<rparr>, [sent, DeWaitForWrite (wr_writer w)]) else (w, [sent]))
              | SendGood \<Rightarrow>
                  map_option (\<lambda>(w', evs). (w', sent # evs))
                    (de_send_data ps answers (w\<lparr>wr_raw := drop (unat (sr_n res)) (wr_raw w)\<rparr>))))"

declare de_send_data.simps [simp del]

fun de_serialize_chunks ::
  "'i streams \<Rightarrow> peer_id \<Rightarrow> (universal_id \<times> p2p_packet list) list \<Rightarrow> bytes \<Rightarrow>
     ((universal_id \<times> p2p_packet list) list \<times> bytes \<times> de_event list) result" where
  "de_serialize_chunks io peerid [] raw = Inr ([], raw, [])"
| "de_serialize_chunks io peerid ((fileid, q) # rest) raw =
     (if q \<noteq> [] then
        bindr (serialize_outgoing_packets io raw q 10) (\<lambda>(raw, q').
          mapr (\<lambda>(rest', raw', evs). ((fileid, q') # rest', raw', evs)) (de_serialize_chunks io peerid rest raw))
      else
        mapr (\<lambda>(rest', raw', evs). ((fileid, q) # rest', raw', DeRequestFileChunk peerid fileid # evs))
          (de_serialize_chunks io peerid rest raw))"

text \<open>The body of the loop of \<open>send_outgoing_packets\<close>, for one writer.\<close>

definition de_send_writer ::
  "'i streams \<Rightarrow> u16 \<Rightarrow> send_result list \<Rightarrow> de_writer \<Rightarrow> (de_writer \<times> de_event list) result option" where
  "de_send_writer io ps answers w =
     (if \<not> wr_can_write w then Some (Inr (w, []))
      else
        bindo (Some
          (if length (wr_raw w) < unat ps then
             bindr (if wr_regular w \<noteq> [] then serialize_outgoing_packets io (wr_raw w) (wr_regular w) 10
                    else Inr (wr_raw w, wr_regular w)) (\<lambda>(raw, q).
               mapr (\<lambda>(chunks, raw, evs). (w\<lparr>wr_regular := q, wr_chunks := chunks, wr_raw := raw\<rparr>, evs))
                 (de_serialize_chunks io (wr_peerid w) (wr_chunks w) raw))
           else Inr (w, []))) (\<lambda>(w, evs).
        (if wr_raw w \<noteq> []
         then map_option (\<lambda>(w', evs'). Inr (w', evs @ evs')) (de_send_data ps answers w)
         else Some (Inr (w, evs)))))"

definition send_outgoing_packets ::
  "'i streams \<Rightarrow> u16 \<Rightarrow> (peer_id \<Rightarrow> send_result list) \<Rightarrow> delivery_engine \<Rightarrow> de_out result option" where
  "send_outgoing_packets io ps answers d =
     foldo (\<lambda>(peerid, w) (d, evs).
         bindo (de_send_writer io ps (answers peerid) w) (\<lambda>(w', evs').
           Some (Inr (de_put_writer peerid w' d, evs @ evs'))))
       (de_writers d) (d, [])"

subsection \<open>Input\<close>

text \<open>
  The loop that reads all there is, for the answers of \<open>recv\<close> in turn: the buffer, and whether no read
  failed. The buffer is resized before each read, and stays so when the read fails.
\<close>

fun de_recv :: "u16 \<Rightarrow> (errc + bytes) list \<Rightarrow> bytes \<Rightarrow> (bytes \<times> bool) option" where
  "de_recv ps [] inpb = None"
| "de_recv ps (Inl e # answers) inpb = Some (inpb @ replicate (unat ps) 0, False)"
| "de_recv ps (Inr bs # answers) inpb =
     (if length bs < unat ps then Some (inpb @ bs, True) else de_recv ps answers (inpb @ bs))"

text \<open>The switch over the type of the packet that completes a message; \<open>b\<close> is moved to the callback.\<close>

definition de_message_complete ::
  "socket_id \<Rightarrow> p2p_packet \<Rightarrow> de_reader \<Rightarrow> delivery_engine \<Rightarrow> de_out" where
  "de_message_complete sock pkt a d =
     (let peerid = pk_addresser pkt
      in if pk_type pkt = pt_regular then
           (de_put_reader sock (a\<lparr>ra_b := []\<rparr>) d, [DeDataReceived peerid (ra_b a)])
         else if pk_type pkt = pt_hello then
           (let d = de_put_reader sock (a\<lparr>ra_peerid := peerid\<rparr>) d
            in (d, DeReaderReady peerid sock # de_check_complete_channel peerid d))
         else (de_put_reader sock (a\<lparr>ra_b := []\<rparr>) d, [DeFileDataReceived peerid (pk_type pkt) (ra_b a)]))"

text \<open>The body of the loop over the packets in the buffer: whether the loop goes on.\<close>

definition de_packet ::
  "'i streams \<Rightarrow> u16 \<Rightarrow> socket_id \<Rightarrow> de_reader \<Rightarrow> bytes \<Rightarrow> delivery_engine \<Rightarrow> (bool \<times> de_out) result" where
  "de_packet io ps sock a block d =
     (let s = in_open io block;
          failed = Inr (False, d, [DeOnError, DeDeferExpirePeer (ra_peerid a)])
      in if \<not> is_valid_type (in_peek io s) then failed
         else bindr (pk_unpack io s) (\<lambda>(pkt, s).
           (if pk_size pkt \<noteq> ps then failed
            else
              (let a = (if pk_partindex pkt = 1 then a\<lparr>ra_b := []\<rparr> else a)
               in if unat (pk_payloadsize pkt) > length (pk_payload pkt) then Inl Undefined
                  else
                    (let a = a\<lparr>ra_b := ra_b a @ pk_data pkt\<rparr>
                     in if pk_partindex pkt = pk_partcount pkt
                        then Inr (True, de_message_complete sock pkt a d)
                        else Inr (True, de_put_reader sock a d, []))))))"

lemma block_less: "ps \<noteq> 0 \<Longrightarrow> unat ps \<le> length xs \<Longrightarrow> length xs - unat (ps :: u16) < length xs"
  using unat_gt_0 [of ps] by linarith

function de_packets ::
  "'i streams \<Rightarrow> u16 \<Rightarrow> socket_id \<Rightarrow> bytes \<Rightarrow> delivery_engine \<Rightarrow> (bytes \<times> de_out) result" where
  "de_packets io ps sock inpb d =
     (if length inpb < unat ps \<or> ps = 0 then Inr (inpb, d, [])
      else case map_of (de_readers d) sock of
        None \<Rightarrow> Inl Undefined
      | Some a \<Rightarrow>
          bindr (de_packet io ps sock a (take (unat ps) inpb) d) (\<lambda>(more, d, evs).
            (if more then
               mapr (\<lambda>(inpb, d, evs'). (inpb, d, evs @ evs')) (de_packets io ps sock (drop (unat ps) inpb) d)
             else Inr ([], d, evs))))"
  by pat_completeness auto
termination
  by (relation "measure (\<lambda>(io, ps, sock, inpb, d). length inpb)") (auto simp: not_less block_less)

declare de_packets.simps [simp del]

definition process_reader_input ::
  "'i streams \<Rightarrow> u16 \<Rightarrow> socket_id \<Rightarrow> (errc + bytes) list \<Rightarrow> delivery_engine \<Rightarrow> de_out result option" where
  "process_reader_input io ps sock answers d =
     (case map_of (de_readers d) sock of
        None \<Rightarrow> Some (Inr (d, [DeOnError]))
      | Some a \<Rightarrow>
          map_option (\<lambda>(inpb, ok).
              (if \<not> ok then
                 Inr (de_put_reader sock (a\<lparr>ra_raw := inpb\<rparr>) d, [DeOnError, DeDeferExpirePeer (ra_peerid a)])
               else
                 bindr (de_packets io ps sock inpb d) (\<lambda>(rest, d, evs).
                   (case map_of (de_readers d) sock of
                      None \<Rightarrow> Inl Undefined
                    | Some a \<Rightarrow> Inr (de_put_reader sock (a\<lparr>ra_raw := rest\<rparr>) d, evs)))))
            (de_recv ps answers (ra_raw a)))"

subsection \<open>The step\<close>

text \<open>What the pollers report in one step: events of the sockets read from and of those written to.\<close>

datatype de_reader_poll =
    DrAccept "errc + socket_id" | DrListenerFailure errc | DrFailure socket_id errc
  | DrReadyRead socket_id "(errc + bytes) list" | DrDisconnected socket_id | DrRemoved socket_id

datatype de_writer_poll =
    DwFailure socket_id errc | DwRefused socket_id | DwConnected socket_id | DwDisconnected socket_id
  | DwCanWrite socket_id | DwRemoved socket_id

fun de_on_reader_poll ::
  "'i streams \<Rightarrow> u16 \<Rightarrow> de_reader_poll \<Rightarrow> delivery_engine \<Rightarrow> de_out result option" where
  "de_on_reader_poll io ps (DrAccept answer) d = Some (Inr (snd (de_accept_reader answer d)))"
| "de_on_reader_poll io ps (DrListenerFailure e) d = Some (Inr (d, de_listener_failure e))"
| "de_on_reader_poll io ps (DrFailure sock e) d = Some (Inr (d, de_reader_failure sock e d))"
| "de_on_reader_poll io ps (DrReadyRead sock answers) d = process_reader_input io ps sock answers d"
| "de_on_reader_poll io ps (DrDisconnected sock) d = Some (Inr (d, de_reader_disconnected sock d))"
| "de_on_reader_poll io ps (DrRemoved sock) d = Some (Inr (de_reader_removed sock d, []))"

fun de_on_writer_poll :: "u16 \<Rightarrow> de_writer_poll \<Rightarrow> delivery_engine \<Rightarrow> de_out" where
  "de_on_writer_poll ps (DwFailure sock e) d = (d, de_writer_failure sock e d)"
| "de_on_writer_poll ps (DwRefused sock) d = (d, de_connection_refused sock d)"
| "de_on_writer_poll ps (DwConnected sock) d = de_process_socket_connected ps sock d"
| "de_on_writer_poll ps (DwDisconnected sock) d = (d, de_writer_disconnected sock d)"
| "de_on_writer_poll ps (DwCanWrite sock) d = de_can_write sock d"
| "de_on_writer_poll ps (DwRemoved sock) d = de_writer_removed sock d"

text \<open>\<open>step\<close>: the time limits only bound the pollers, whose reports are arguments.\<close>

definition de_step ::
  "'i streams \<Rightarrow> u16 \<Rightarrow> (peer_id \<Rightarrow> send_result list) \<Rightarrow> de_reader_poll list \<Rightarrow> de_writer_poll list \<Rightarrow>
     delivery_engine \<Rightarrow> de_out result option" where
  "de_step io ps answers from_readers from_writers d =
     bindo (send_outgoing_packets io ps answers d) (\<lambda>(d, evs1).
     bindo (foldo (\<lambda>e (d, evs).
         bindo (de_on_reader_poll io ps e d) (\<lambda>(d, evs'). Some (Inr (d, evs @ evs')))) from_readers (d, evs1)) (\<lambda>(d, evs2).
       (let (d, evs3) = fold (\<lambda>e (d, evs). case de_on_writer_poll ps e d of (d, evs') \<Rightarrow> (d, evs @ evs')) from_writers (d, evs2);
            (d, evs4) = (if de_expired_peers d \<noteq> [] then de_release_expired_peers d else (d, []))
        in Some (Inr (d, evs3 @ evs4)))))"

end
