(* ===== verification/DeliveryReassembly.thy ===== *)
theory DeliveryReassembly
  imports DeliveryEngine
begin

text \<open>
  Messages through \<open>delivery_engine\<close> (theory \<open>DeliveryEngine\<close>): the reader as a reassembler of packets, the
  stream of bytes a writer sends, and the two put together.
\<close>

subsection \<open>Reassembly\<close>

text \<open>What a reader makes of packets: the payload of the message under way, and the complete messages.\<close>

fun reassemble :: "p2p_packet list \<Rightarrow> bytes \<Rightarrow> bytes \<times> (peer_id \<times> byte \<times> bytes) list" where
  "reassemble [] b = (b, [])"
| "reassemble (p # pkts) b =
     (let b = (if pk_partindex p = 1 then [] else b) @ pk_data p
      in if pk_partindex p = pk_partcount p
         then (case reassemble pkts [] of (b', ms) \<Rightarrow> (b', (pk_addresser p, pk_type p, b) # ms))
         else reassemble pkts b)"

lemma reassemble_append:
  "reassemble (xs @ ys) b =
     (fst (reassemble ys (fst (reassemble xs b))),
      snd (reassemble xs b) @ snd (reassemble ys (fst (reassemble xs b))))"
  by (induction xs b rule: reassemble.induct) (auto simp: Let_def case_prod_unfold)

lemma reassemble_parts:
  assumes "parts_ok a t ps (of_nat n) i parts" and "parts \<noteq> []" and "0 < i" and "i + length parts = Suc n"
    and "n < 2 ^ 32"
  shows "reassemble parts b = ([], [(a, t, (if i = 1 then [] else b) @ concat (map pk_data parts))])"
  using assms(1-4)
proof (induction parts arbitrary: i b)
  case (Cons p parts)
  then have p: "pk_type p = t" "pk_addresser p = a" "pk_partcount p = of_nat n" "unat (pk_partindex p) = i"
    by (simp_all add: part_ok_def)
  have n: "unat (of_nat n :: u32) = n" by (rule unat_u32 [OF assms(5)])
  have one: "pk_partindex p = 1 \<longleftrightarrow> i = 1" using p(4) by (metis unat_1 word_unat_eq_iff)
  have last: "pk_partindex p = pk_partcount p \<longleftrightarrow> i = n" using p(3,4) n by (metis word_unat_eq_iff)
  show ?case
  proof (cases "parts = []")
    case True
    with Cons.prems one last p show ?thesis by (simp add: Let_def)
  next
    case False
    with Cons.prems(4) have "i \<noteq> n" by (cases parts) auto
    with Cons.IH [of "Suc i"] Cons.prems False one last show ?thesis
      by (auto simp: Let_def dest: p(4) [THEN sym, THEN trans])
  qed
qed simp

lemma reassemble_message:
  assumes "packet_size_ok ps" and "length data < 2 ^ 31" and "data \<noteq> []"
  shows "reassemble (enqueue_packets a t ps data) b = ([], [(a, t, data)])"
proof -
  note P = enqueue_packets_parts [OF assms(1,2), of a t]
  have "enqueue_packets a t ps data \<noteq> []" using P(2) assms(3) by auto
  from reassemble_parts [OF P(3) this _ _ P(4)] P(2) show ?thesis by simp
qed

lemma reassemble_messages:
  assumes "packet_size_ok ps" and "\<forall>m \<in> set msgs. length m < 2 ^ 31 \<and> m \<noteq> []"
  shows "reassemble (concat (map (enqueue_packets a t ps) msgs)) [] = ([], map (\<lambda>m. (a, t, m)) msgs)"
  using assms(2) by (induction msgs) (simp_all add: reassemble_append reassemble_message [OF assms(1)])

subsection \<open>The reader refines it\<close>

definition packet_good :: "u16 \<Rightarrow> p2p_packet \<Rightarrow> bool" where
  "packet_good ps p \<longleftrightarrow> packet_ok ps p \<and> is_valid_type (pk_type p) \<and> pk_type p \<noteq> pt_hello"

definition packed :: "'i streams \<Rightarrow> p2p_packet list \<Rightarrow> bytes list \<Rightarrow> bool" where
  "packed io = list_all2 (\<lambda>p w. pk_pack io p = Inr w)"

definition message_event :: "peer_id \<times> byte \<times> bytes \<Rightarrow> de_event" where
  "message_event m = (case m of (a, t, b) \<Rightarrow> if t = pt_regular then DeDataReceived a b else DeFileDataReceived a t b)"

definition de_sorted :: "delivery_engine \<Rightarrow> bool" where
  "de_sorted d \<longleftrightarrow> sorted (map fst (de_readers d)) \<and> distinct (map fst (de_readers d))"

lemma de_put_reader_simps [simp]:
  "de_put_reader sock a (de_put_reader sock b d) = de_put_reader sock a d"
  "de_writers (de_put_reader sock a d) = de_writers d"
  by (simp_all add: de_put_reader_def)

lemma de_put_reader_sorted: "de_sorted d \<Longrightarrow> de_sorted (de_put_reader sock a d)"
  by (simp add: de_sorted_def de_put_reader_def sorted_om_update)

lemma de_put_reader_lookup: "de_sorted d \<Longrightarrow> map_of (de_readers (de_put_reader sock a d)) sock = Some a"
  by (simp add: de_sorted_def de_put_reader_def map_of_om_update)

lemma de_put_reader_same: "de_sorted d \<Longrightarrow> map_of (de_readers d) sock = Some a \<Longrightarrow> de_put_reader sock a d = d"
  by (simp add: de_sorted_def de_put_reader_def om_update_same)

lemma packed_length:
  assumes "byte_streams io v" and "packet_size_ok ps" and "packed io pkts ws" and "list_all (packet_good ps) pkts"
  shows "\<forall>w \<in> set ws. length w = unat ps"
  using assms(3,4) unfolding packed_def
  by (induction rule: list_all2_induct) (auto simp: packet_good_def intro: byte_streams.pk_pack_length [OF assms(1,2)])

text \<open>One good packet: the account takes its payload, and a complete message is reported.\<close>

lemma de_packet_good:
  assumes "byte_streams io v" and "packet_size_ok ps" and "packet_good ps p" and "pk_pack io p = Inr w"
  shows "\<exists>b evs. de_packet io ps sock a w d = Inr (True, de_put_reader sock (a\<lparr>ra_b := b\<rparr>) d, map message_event evs) \<and>
    reassemble [p] (ra_b a) = (b, evs)"
proof -
  have ok: "packet_ok ps p" and t: "is_valid_type (pk_type p)" "pk_type p \<noteq> pt_hello"
    using assms(3) by (simp_all add: packet_good_def)
  obtain w' where w: "w = pk_type p # w'"
    using byte_streams.pk_pack_ok [OF assms(1,2) ok] assms(4) by auto
  have open': "sv_good v (in_open io w)" "sv_rest v (in_open io w) = w"
    using byte_streams.open_view [OF assms(1), of w] by simp_all
  then have peek: "in_peek io (in_open io w) = pk_type p"
    using byte_streams.peek_view [OF assms(1)] w by blast
  obtain s' where u: "pk_unpack io (in_open io w) = Inr (p, s')"
    using byte_streams.pk_unpack_packed [OF assms(1,2) ok assms(4), of "in_open io w" "[]"] open' by auto
  have size: "pk_size p = ps" "\<not> length (pk_payload p) < unat (pk_payloadsize p)"
    using ok by (simp_all add: packet_ok_def)
  show ?thesis
    unfolding de_packet_def Let_def peek u
    using t size by (auto simp: de_message_complete_def message_event_def)
qed

lemma de_packets_reassembles:
  assumes "byte_streams io v" and "packet_size_ok ps" and "length part < unat ps"
    and "packed io pkts ws" and "list_all (packet_good ps) pkts" and "de_sorted d" and "map_of (de_readers d) sock = Some a"
  shows "de_packets io ps sock (concat ws @ part) d =
    Inr (part, de_put_reader sock (a\<lparr>ra_b := fst (reassemble pkts (ra_b a))\<rparr>) d,
         map message_event (snd (reassemble pkts (ra_b a))))"
  using assms(4-7) unfolding packed_def
proof (induction pkts ws arbitrary: d a rule: list_all2_induct)
  case Nil
  then show ?case using assms(3) by (simp add: de_packets.simps de_put_reader_same)
next
  case (Cons p pkts w ws)
  have good: "packet_good ps p" using Cons.prems by simp
  then have l: "length w = unat ps" using byte_streams.pk_pack_length [OF assms(1,2) _ Cons.hyps(1)] by (simp add: packet_good_def)
  from de_packet_good [OF assms(1,2) good Cons.hyps(1)] obtain b evs where
    s: "de_packet io ps sock a w d = Inr (True, de_put_reader sock (a\<lparr>ra_b := b\<rparr>) d, map message_event evs)"
    "reassemble [p] (ra_b a) = (b, evs)" by blast
  have ps: "ps \<noteq> 0" using assms(2) by (auto simp: packet_size_ok_def)
  let ?a = "a\<lparr>ra_b := b\<rparr>"
  have d1: "de_sorted (de_put_reader sock ?a d)" "map_of (de_readers (de_put_reader sock ?a d)) sock = Some ?a"
    using Cons.prems(2) by (simp_all add: de_put_reader_sorted de_put_reader_lookup)
  have IH: "de_packets io ps sock (concat ws @ part) (de_put_reader sock ?a d) =
      Inr (part, de_put_reader sock (a\<lparr>ra_b := fst (reassemble pkts b)\<rparr>) d, map message_event (snd (reassemble pkts b)))"
    using Cons.IH [OF _ d1] Cons.prems(1) by simp
  have "reassemble (p # pkts) (ra_b a) = (fst (reassemble pkts b), evs @ snd (reassemble pkts b))"
    using reassemble_append [of "[p]" pkts "ra_b a"] s(2) by simp
  with Cons.prems(3) ps l s(1) IH show ?case by (subst de_packets.simps) simp
qed

subsection \<open>Any reads\<close>

text \<open>Answers of \<open>recv\<close> that end a loop of reads: \<open>bs\<close> is what was received.\<close>

definition recv_ok :: "u16 \<Rightarrow> (errc + bytes) list \<Rightarrow> bytes \<Rightarrow> bool" where
  "recv_ok ps answers bs \<longleftrightarrow>
     (\<exists>fulls lst. answers = map Inr (fulls @ [lst]) \<and> (\<forall>x \<in> set fulls. length x = unat ps) \<and>
        length lst < unat ps \<and> bs = concat fulls @ lst)"

lemma de_recv_ok: "recv_ok ps answers bs \<Longrightarrow> de_recv ps answers inpb = Some (inpb @ bs, True)"
proof -
  assume "recv_ok ps answers bs"
  then obtain fulls lst where a: "answers = map Inr (fulls @ [lst])" "\<forall>x \<in> set fulls. length x = unat ps"
    "length lst < unat ps" "bs = concat fulls @ lst" by (auto simp: recv_ok_def)
  have "de_recv ps (map Inr (fulls @ [lst])) inpb = Some (inpb @ concat fulls @ lst, True)"
    using a(2,3) by (induction fulls arbitrary: inpb) simp_all
  with a(1,4) show ?thesis by simp
qed

fun de_feed ::
  "'i streams \<Rightarrow> u16 \<Rightarrow> socket_id \<Rightarrow> (errc + bytes) list list \<Rightarrow> delivery_engine \<Rightarrow> de_out result option" where
  "de_feed io ps sock [] d = Some (Inr (d, []))"
| "de_feed io ps sock (answers # rest) d =
     bindo (process_reader_input io ps sock answers d) (\<lambda>(d, evs).
     bindo (de_feed io ps sock rest d) (\<lambda>(d, evs'). Some (Inr (d, evs @ evs'))))"

text \<open>A prefix of equally long blocks: whole blocks and a part of the next one.\<close>

lemma blocks_prefix:
  assumes "\<forall>w \<in> set ws. length w = n" and "0 < n" and "x @ y = concat ws"
  shows "\<exists>k part. x = concat (take k ws) @ part \<and> length part < n \<and> part @ y = concat (drop k ws)"
  using assms(1,3)
proof (induction ws arbitrary: x)
  case Nil
  then show ?case using assms(2) by simp
next
  case (Cons w ws)
  show ?case
  proof (cases "length x < n")
    case True
    with Cons.prems show ?thesis by (intro exI [of _ 0] exI [of _ x]) simp
  next
    case False
    with Cons.prems obtain x' where x: "x = w @ x'" by (auto simp: append_eq_append_conv2)
    with Cons.prems have "x' @ y = concat ws" by simp
    with Cons.IH [of x'] Cons.prems(1) obtain k part where
      "x' = concat (take k ws) @ part" "length part < n" "part @ y = concat (drop k ws)" by auto
    with x show ?thesis by (intro exI [of _ "Suc k"] exI [of _ part]) simp
  qed
qed

lemma process_reader_input_step:
  assumes "byte_streams io v" and "packet_size_ok ps" and "packed io pkts ws" and "list_all (packet_good ps) pkts"
    and "de_sorted d" and "map_of (de_readers d) sock = Some a"
    and "recv_ok ps answers bs" and "ra_raw a @ bs = concat ws @ part" and "length part < unat ps"
  shows "process_reader_input io ps sock answers d =
    Some (Inr (de_put_reader sock (a\<lparr>ra_b := fst (reassemble pkts (ra_b a)), ra_raw := part\<rparr>) d,
               map message_event (snd (reassemble pkts (ra_b a)))))"
  using de_packets_reassembles [OF assms(1,2,9,3-6)] assms(6,8) de_recv_ok [OF assms(7), of "ra_raw a"]
  by (simp add: process_reader_input_def de_put_reader_lookup [OF assms(5)])

lemma de_feed_reassembles:
  assumes "byte_streams io v" and "packet_size_ok ps" and "list_all2 (recv_ok ps) calls bss"
    and "packed io pkts ws" and "list_all (packet_good ps) pkts" and "de_sorted d"
    and "map_of (de_readers d) sock = Some a" and "ra_raw a @ concat bss = concat ws" and "length (ra_raw a) < unat ps"
  shows "de_feed io ps sock calls d =
    Some (Inr (de_put_reader sock (a\<lparr>ra_b := fst (reassemble pkts (ra_b a)), ra_raw := []\<rparr>) d,
               map message_event (snd (reassemble pkts (ra_b a)))))"
  using assms(3-9)
proof (induction calls bss arbitrary: pkts ws d a rule: list_all2_induct)
  case Nil
  have "ws = []"
  proof (cases ws)
    case (Cons w ws')
    with packed_length [OF assms(1,2) Nil.prems(1,2)] Nil.prems(5,6) show ?thesis by auto
  qed simp
  with Nil have "pkts = []" "ra_raw a = []" by (simp_all add: packed_def)
  with Nil have "a\<lparr>ra_b := ra_b a, ra_raw := []\<rparr> = a" by simp
  with Nil \<open>pkts = []\<close> show ?case by (simp add: de_put_reader_same)
next
  case (Cons answers calls bs bss)
  have n: "0 < unat ps" using assms(2) by (auto simp: packet_size_ok_def)
  have "(ra_raw a @ bs) @ concat bss = concat ws" using Cons.prems(5) by simp
  from blocks_prefix [OF packed_length [OF assms(1,2) Cons.prems(1,2)] n this] obtain k part where
    k: "ra_raw a @ bs = concat (take k ws) @ part" "length part < unat ps" "part @ concat bss = concat (drop k ws)" by blast
  have tk: "packed io (take k pkts) (take k ws)" "packed io (drop k pkts) (drop k ws)"
    "list_all (packet_good ps) (take k pkts)" "list_all (packet_good ps) (drop k pkts)"
    using Cons.prems(1,2) unfolding packed_def by (auto simp: list_all_iff dest: in_set_takeD in_set_dropD intro: list_all2_takeI list_all2_dropI)
  let ?b = "fst (reassemble (take k pkts) (ra_b a))"
  let ?a = "a\<lparr>ra_b := ?b, ra_raw := part\<rparr>"
  note step = process_reader_input_step [OF assms(1,2) tk(1,3) Cons.prems(3,4) Cons.hyps(1) k(1,2)]
  have d1: "de_sorted (de_put_reader sock ?a d)" "map_of (de_readers (de_put_reader sock ?a d)) sock = Some ?a"
    using Cons.prems(3) by (simp_all add: de_put_reader_sorted de_put_reader_lookup)
  note IH = Cons.IH [OF tk(2,4) d1]
  have "reassemble pkts (ra_b a) = (fst (reassemble (drop k pkts) ?b),
      snd (reassemble (take k pkts) (ra_b a)) @ snd (reassemble (drop k pkts) ?b))"
    using reassemble_append [of "take k pkts" "drop k pkts" "ra_b a"] by simp
  with step IH k(2,3) show ?case by simp
qed

subsection \<open>The bytes a writer sends\<close>

definition pk_bytes :: "'i streams \<Rightarrow> p2p_packet \<Rightarrow> bytes" where
  "pk_bytes io p = (case pk_pack io p of Inr w \<Rightarrow> w | Inl f \<Rightarrow> [])"

text \<open>What is still to be sent: the serialized bytes and the packets of the queue.\<close>

definition de_stream :: "'i streams \<Rightarrow> de_writer \<Rightarrow> bytes" where
  "de_stream io w = wr_raw w @ concat (map (pk_bytes io) (wr_regular w))"

fun de_taken :: "de_event \<Rightarrow> bytes" where
  "de_taken (DeSend sock data res) = (if sr_status res = SendGood then take (unat (sr_n res)) data else [])"
| "de_taken _ = []"

definition de_accepted :: "de_event list \<Rightarrow> bytes" where
  "de_accepted evs = concat (map de_taken evs)"

fun send_honest :: "de_event \<Rightarrow> bool" where
  "send_honest (DeSend sock data res) = (sr_status res = SendGood \<longrightarrow> unat (sr_n res) \<le> length data)"
| "send_honest _ = True"

lemma de_accepted_simps [simp]:
  "de_accepted [] = []" "de_accepted (e # evs) = de_taken e @ de_accepted evs"
  "de_accepted (evs @ evs') = de_accepted evs @ de_accepted evs'"
  by (simp_all add: de_accepted_def)

definition writer_ok :: "u16 \<Rightarrow> de_writer \<Rightarrow> bool" where
  "writer_ok ps w \<longleftrightarrow> list_all (packet_ok ps) (wr_regular w) \<and> wr_chunks w = []"

context byte_streams
begin

lemma packed_bytes:
  "packet_size_ok ps \<Longrightarrow> list_all (packet_ok ps) q \<Longrightarrow> packed io q (map (pk_bytes io) q)"
  unfolding packed_def by (induction q) (auto simp: pk_bytes_def dest: pk_pack_ok)

lemma serialize_prefix:
  assumes "packet_size_ok ps" and "list_all (packet_ok ps) q"
  shows "\<exists>q1 q2. q = q1 @ q2 \<and>
    serialize_outgoing_packets io raw q limit = Inr (raw @ concat (map (pk_bytes io) q1), q2)"
  using assms(2)
proof (induction q arbitrary: raw limit)
  case Nil
  then show ?case by (cases limit) simp_all
next
  case (Cons pkt q)
  show ?case
  proof (cases limit)
    case 0
    then show ?thesis by (intro exI [of _ "[]"] exI [of _ "pkt # q"]) simp
  next
    case (Suc l)
    from Cons.prems obtain w where w: "pk_pack io pkt = Inr w" using pk_pack_ok [OF assms(1)] by auto
    let ?l = "if pk_partindex pkt = pk_partcount pkt then l else Suc l"
    from Cons.IH [of "raw @ w" ?l] Cons.prems obtain q1 q2 where "q = q1 @ q2"
      "serialize_outgoing_packets io (raw @ w) q ?l = Inr ((raw @ w) @ concat (map (pk_bytes io) q1), q2)" by auto
    with Suc w show ?thesis by (rule_tac exI [of _ "pkt # q1"], rule_tac exI [of _ q2]) (simp add: pk_bytes_def [of io pkt])
  qed
qed

end

lemma de_send_data_flow:
  assumes "de_send_data ps answers w = Some (w', evs)" and "list_all send_honest evs"
  shows "de_accepted evs @ wr_raw w' = wr_raw w \<and> wr_regular w' = wr_regular w \<and> wr_chunks w' = wr_chunks w"
  using assms
proof (induction answers arbitrary: w evs)
  case Nil
  then show ?case by (simp add: de_send_data.simps split: if_splits)
next
  case (Cons res answers)
  show ?case
  proof (cases "wr_raw w = []")
    case True
    with Cons.prems show ?thesis by (auto simp: de_send_data.simps)
  next
    case False
    show ?thesis
    proof (cases "sr_status res")
      case SendGood
      let ?w = "w\<lparr>wr_raw := drop (unat (sr_n res)) (wr_raw w)\<rparr>"
      let ?data = "take (unat ps * 10) (wr_raw w)"
      from Cons.prems(1) False SendGood obtain evs' where
        e: "de_send_data ps answers ?w = Some (w', evs')" "evs = DeSend (wr_writer w) ?data res # evs'"
        by (subst (asm) de_send_data.simps) (auto simp: Let_def)
      with Cons.prems(2) SendGood have n: "unat (sr_n res) \<le> length ?data" "list_all send_honest evs'" by simp_all
      have "take (unat (sr_n res)) ?data = take (unat (sr_n res)) (wr_raw w)"
        using n(1) by (simp add: min.absorb1)
      with Cons.IH [OF e(1) n(2)] e(2) SendGood show ?thesis by simp
    qed (use Cons.prems False in \<open>subst (asm) de_send_data.simps, auto simp: Let_def split: if_splits\<close>)+
  qed
qed

lemma de_send_writer_flow:
  assumes "byte_streams io v" and "packet_size_ok ps" and "writer_ok ps w"
    and "de_send_writer io ps answers w = Some (Inr (w', evs))" and "list_all send_honest evs"
  shows "de_accepted evs @ de_stream io w' = de_stream io w \<and> writer_ok ps w'"
proof (cases "wr_can_write w")
  case False
  with assms show ?thesis by (simp add: de_send_writer_def)
next
  case True
  obtain q1 q2 where q: "wr_regular w = q1 @ q2"
    "serialize_outgoing_packets io (wr_raw w) (wr_regular w) 10 = Inr (wr_raw w @ concat (map (pk_bytes io) q1), q2)"
    using byte_streams.serialize_prefix [OF assms(1,2)] assms(3) by (metis writer_ok_def)
  define w1 where "w1 = (if length (wr_raw w) < unat ps \<and> wr_regular w \<noteq> []
      then w\<lparr>wr_regular := q2, wr_raw := wr_raw w @ concat (map (pk_bytes io) q1)\<rparr> else w)"
  have s1: "de_stream io w1 = de_stream io w" "writer_ok ps w1"
    using q assms(3) by (auto simp: w1_def de_stream_def writer_ok_def)
  have "(if wr_raw w1 \<noteq> [] then map_option (\<lambda>(w', evs'). Inr (w', evs')) (de_send_data ps answers w1) else Some (Inr (w1, []))) =
      Some (Inr (w', evs) :: (de_writer \<times> de_event list) result)"
    using assms(4) True assms(3) q(2)
    by (cases w) (auto simp: de_send_writer_def w1_def writer_ok_def split: if_splits)
  then have "(w' = w1 \<and> evs = []) \<or> de_send_data ps answers w1 = Some (w', evs)"
    by (auto split: if_splits)
  then show ?thesis
  proof
    assume "de_send_data ps answers w1 = Some (w', evs)"
    from de_send_data_flow [OF this assms(5)] s1 show ?thesis
      by (simp add: de_stream_def writer_ok_def) (metis append.assoc)
  qed (use s1 in simp)
qed

text \<open>Rounds of sending: before each, the poller may report the socket writable.\<close>

fun de_rounds ::
  "'i streams \<Rightarrow> u16 \<Rightarrow> (bool \<times> send_result list) list \<Rightarrow> de_writer \<Rightarrow> (de_writer \<times> de_event list) result option" where
  "de_rounds io ps [] w = Some (Inr (w, []))"
| "de_rounds io ps ((can, answers) # rs) w =
     bindo (de_send_writer io ps answers (if can then w\<lparr>wr_can_write := True\<rparr> else w)) (\<lambda>(w, evs).
     bindo (de_rounds io ps rs w) (\<lambda>(w, evs'). Some (Inr (w, evs @ evs'))))"

lemma de_rounds_flow:
  assumes "byte_streams io v" and "packet_size_ok ps" and "writer_ok ps w"
    and "de_rounds io ps rs w = Some (Inr (w', evs))" and "list_all send_honest evs"
  shows "de_accepted evs @ de_stream io w' = de_stream io w \<and> writer_ok ps w'"
  using assms(3-5)
proof (induction rs arbitrary: w evs)
  case Nil
  then show ?case by simp
next
  case (Cons r rs)
  obtain can answers where r: "r = (can, answers)" by (cases r)
  let ?w = "if can then w\<lparr>wr_can_write := True\<rparr> else w"
  from Cons.prems(2) r obtain w1 evs1 evs2 where
    1: "de_send_writer io ps answers ?w = Some (Inr (w1, evs1))" "de_rounds io ps rs w1 = Some (Inr (w', evs2))" "evs = evs1 @ evs2"
    by (auto simp: bindo_eq_Inr)
  have "de_stream io ?w = de_stream io w" "writer_ok ps ?w" using Cons.prems(1) by (simp_all add: de_stream_def writer_ok_def)
  with de_send_writer_flow [OF assms(1,2) _ 1(1)] Cons.IH [OF _ 1(2)] 1(3) Cons.prems(3) show ?case by auto
qed

text \<open>Messages enqueued one after the other.\<close>

definition de_enqueue_all :: "u16 \<Rightarrow> peer_id \<Rightarrow> bytes list \<Rightarrow> delivery_engine \<Rightarrow> delivery_engine" where
  "de_enqueue_all ps addressee msgs d = fold (\<lambda>m d. fst (snd (de_enqueue ps addressee m d))) msgs d"

lemma de_enqueue_all_writer:
  assumes "sorted (map fst (de_writers d))" and "distinct (map fst (de_writers d))" and "map_of (de_writers d) peer = Some w"
  shows "map_of (de_writers (de_enqueue_all ps peer msgs d)) peer =
    Some (w\<lparr>wr_regular := wr_regular w @ concat (map (enqueue_packets (de_host_id d) pt_regular ps) msgs)\<rparr>)"
  using assms
proof (induction msgs arbitrary: d w)
  case Nil
  then show ?case by (simp add: de_enqueue_all_def)
next
  case (Cons m msgs)
  let ?w = "w\<lparr>wr_regular := wr_regular w @ enqueue_packets (de_host_id d) pt_regular ps m\<rparr>"
  have e: "fst (snd (de_enqueue ps peer m d)) = de_put_writer peer ?w d"
    using Cons.prems(3) by (simp add: de_enqueue_def de_enqueue_packets_def)
  have "sorted (map fst (de_writers (de_put_writer peer ?w d)))" "distinct (map fst (de_writers (de_put_writer peer ?w d)))"
    "map_of (de_writers (de_put_writer peer ?w d)) peer = Some ?w"
    using Cons.prems by (simp_all add: de_put_writer_def sorted_om_update map_of_om_update)
  from Cons.IH [OF this] e show ?case by (simp add: de_enqueue_all_def de_put_writer_def)
qed

subsection \<open>Properties\<close>

text \<open>C15. The reader refines the reassembler: when the bytes kept from earlier reads and the bytes that
  arrive now, in any number of reads, are serialized packets of the engine's size (all but \<open>hello\<close>) and a
  part of another packet, \<open>process_reader_input\<close> returns, its callbacks are the messages that these packets
  complete, in order, and the account keeps the part of the packet and the payload of the message under way.\<close>

theorem process_reader_input_refines:
  assumes "byte_streams io v" and "packet_size_ok ps" and "packed io pkts ws" and "list_all (packet_good ps) pkts"
    and "de_sorted d" and "map_of (de_readers d) sock = Some a"
    and "recv_ok ps answers bs" and "ra_raw a @ bs = concat ws @ part" and "length part < unat ps"
  shows "process_reader_input io ps sock answers d =
    Some (Inr (de_put_reader sock (a\<lparr>ra_b := fst (reassemble pkts (ra_b a)), ra_raw := part\<rparr>) d,
               map message_event (snd (reassemble pkts (ra_b a)))))"
  using assms by (rule process_reader_input_step)

definition demo_reader :: de_reader where
  "demo_reader = \<lparr>ra_peerid = 5, ra_b = [], ra_raw = []\<rparr>"

definition demo_engine :: delivery_engine where
  "demo_engine = (de_new 7)\<lparr>de_readers := [(3, demo_reader)],
     de_writers := [(9, \<lparr>wr_peerid = 9, wr_writer = 4, wr_can_write = True, wr_connected = True,
                         wr_regular = [], wr_chunks = [], wr_raw = []\<rparr>)]\<rparr>"

definition demo_packet :: p2p_packet where
  "demo_packet = \<lparr>pk_type = pt_regular, pk_size = 32, pk_addresser = 5, pk_payloadsize = 2, pk_partcount = 1,
     pk_partindex = 1, pk_payload = [8, 9, 0]\<rparr>"

lemma demo_packet_ok: "packet_size_ok 32" "packet_ok 32 demo_packet" "packet_good 32 demo_packet"
  by (simp_all add: packet_size_ok_def packet_ok_def packet_good_def demo_packet_def payload_size_def
      is_valid_type_def pt_regular_def pt_hello_def)

theorem process_reader_input_refines_witness:
  "\<exists>w d. pk_pack be_streams demo_packet = Inr w \<and>
    process_reader_input be_streams 32 3 [Inr w, Inr [1]] demo_engine = Some (Inr (d, [DeDataReceived 5 [8, 9]]))"
proof -
  obtain w where w: "pk_pack be_streams demo_packet = Inr w" using be.pk_pack_ok demo_packet_ok by blast
  then have l: "length w = 32" using be.pk_pack_length [OF demo_packet_ok(1,2)] by simp
  have "recv_ok 32 [Inr w, Inr [1]] (w @ [1])"
    unfolding recv_ok_def using l by (intro exI [of _ "[w]"] exI [of _ "[1]"]) simp
  moreover have "reassemble [demo_packet] [] = ([], [(5, pt_regular, [8, 9])])"
    by (simp add: demo_packet_def pk_data_def Let_def)
  ultimately show ?thesis
    using process_reader_input_refines [OF be.byte_streams_axioms demo_packet_ok(1), of "[demo_packet]" "[w]"
        demo_engine 3 demo_reader "[Inr w, Inr [1]]" "w @ [1]" "[1]"] w demo_packet_ok(3)
    by (simp add: packed_def de_sorted_def demo_engine_def de_new_def demo_reader_def message_event_def)
qed

text \<open>C2. Messages arrive through the delivery engines: when messages are enqueued for a peer whose writer
  has nothing to send, and the writer, in any rounds with any honest answers of its socket, has sent all
  it had, then the other engine, reading the bytes the socket took in any number of inputs and reads,
  reports exactly the messages, in order and unchanged, from the first engine's host.\<close>

theorem de_messages_arrive:
  assumes "byte_streams io v" and "packet_size_ok ps" and "\<forall>m \<in> set msgs. length m < 2 ^ 31 \<and> m \<noteq> []"
    and "sorted (map fst (de_writers d))" and "distinct (map fst (de_writers d))" and "map_of (de_writers d) peer = Some w"
    and "wr_regular w = []" and "wr_chunks w = []" and "wr_raw w = []"
    and "map_of (de_writers (de_enqueue_all ps peer msgs d)) peer = Some w1"
    and "de_rounds io ps rs w1 = Some (Inr (w2, evs))" and "list_all send_honest evs"
    and "wr_regular w2 = []" and "wr_raw w2 = []"
    and "de_sorted d'" and "map_of (de_readers d') sock = Some a" and "ra_raw a = []" and "ra_b a = []"
    and "list_all2 (recv_ok ps) calls bss" and "concat bss = de_accepted evs"
  shows "\<exists>d2. de_feed io ps sock calls d' = Some (Inr (d2, map (DeDataReceived (de_host_id d)) msgs))"
proof -
  let ?pkts = "concat (map (enqueue_packets (de_host_id d) pt_regular ps) msgs)"
  have ok: "list_all (packet_ok ps) (enqueue_packets h t ps m) \<and> list_all (\<lambda>p. pk_type p = t) (enqueue_packets h t ps m)"
    if "m \<in> set msgs" for h t m
    using enqueue_packets_parts(3) [OF assms(2), of m h t] assms(3) that
    by (auto simp: list_all_length parts_ok_nth part_ok_def)
  have all: "list_all (packet_ok ps) ?pkts" and good: "list_all (packet_good ps) ?pkts"
    using ok by (force simp: list_all_iff packet_good_def is_valid_type_def packet_types)+
  have w1: "wr_regular w1 = ?pkts" "wr_raw w1 = []" "writer_ok ps w1"
    using de_enqueue_all_writer [OF assms(4-6), of ps msgs] assms(7-10) all by (auto simp: writer_ok_def)
  from de_rounds_flow [OF assms(1,2) w1(3) assms(11,12)] assms(13,14) w1(1,2)
  have acc: "de_accepted evs = concat (map (pk_bytes io) ?pkts)" by (simp add: de_stream_def)
  have "0 < unat ps" using assms(2) by (auto simp: packet_size_ok_def)
  then have "length (ra_raw a) < unat ps" using assms(17) by simp
  from de_feed_reassembles [OF assms(1,2,19) byte_streams.packed_bytes [OF assms(1,2) all] good assms(15,16) _ this]
    reassemble_messages [OF assms(2,3), of "de_host_id d" pt_regular] assms(17,18,20) acc
  show ?thesis by (simp add: comp_def message_event_def)
qed

text \<open>The example sends one message of two bytes in a packet of 32 bytes, read whole.\<close>

theorem de_messages_arrive_witness:
  "\<exists>w1 w2 evs d2. map_of (de_writers (de_enqueue_all 32 9 [[8, 9]] demo_engine)) 9 = Some w1 \<and>
    de_rounds be_streams 32 [(False, [\<lparr>sr_status = SendGood, sr_n = 32\<rparr>])] w1 = Some (Inr (w2, evs)) \<and>
    de_feed be_streams 32 3 [[Inr (de_accepted evs), Inr []]] demo_engine = Some (Inr (d2, [DeDataReceived 7 [8, 9]]))"
proof -
  let ?pkt = "demo_packet\<lparr>pk_addresser := 7\<rparr>"
  have e: "enqueue_packets 7 pt_regular 32 [8, 9] = [?pkt]"
    by (simp add: enqueue_packets_def enqueue_parts.simps demo_packet_def payload_size_def part_count_def)
  obtain w where w: "pk_pack be_streams ?pkt = Inr w"
    using be.pk_pack_ok [of 32 ?pkt] demo_packet_ok(1,2) by (auto simp: packet_ok_def)
  then have l: "length w = 32" using be.pk_pack_length [of 32 ?pkt] demo_packet_ok(1,2) by (auto simp: packet_ok_def)
  then have ne: "w \<noteq> []" by auto
  define w0 where "w0 = \<lparr>wr_peerid = 9, wr_writer = 4, wr_can_write = True, wr_connected = True,
                         wr_regular = [], wr_chunks = [], wr_raw = []\<rparr>"
  let ?w1 = "w0\<lparr>wr_regular := [?pkt]\<rparr>"
  let ?res = "\<lparr>sr_status = SendGood, sr_n = 32\<rparr>"
  have d: "map_of (de_writers demo_engine) 9 = Some w0" "de_host_id demo_engine = 7"
    "sorted (map fst (de_writers demo_engine))" "distinct (map fst (de_writers demo_engine))"
    by (simp_all add: demo_engine_def w0_def de_new_def)
  have w1: "map_of (de_writers (de_enqueue_all 32 9 [[8, 9]] demo_engine)) 9 = Some ?w1"
    using de_enqueue_all_writer [OF d(3,4,1), of 32 "[[8, 9]]"] e d(2) by (simp add: w0_def)
  have parts: "pk_partindex ?pkt = pk_partcount ?pkt" by (simp add: demo_packet_def)
  have "serialize_outgoing_packets be_streams [] [?pkt] 10 = Inr (w, [])"
    using w parts by (simp add: numeral_eq_Suc)
  then have r: "de_rounds be_streams 32 [(False, [?res])] ?w1 =
      Some (Inr (w0\<lparr>wr_regular := [], wr_raw := []\<rparr>, [DeSend 4 w ?res]))"
    using l ne by (simp add: de_send_writer_def w0_def de_send_data.simps [of _ "_ # _"] de_send_data.simps [of _ "[]"] Let_def)
  have acc: "de_accepted [DeSend 4 w ?res] = w" "list_all send_honest [DeSend 4 w ?res]" using l by simp_all
  have "recv_ok 32 [Inr w, Inr []] w"
    unfolding recv_ok_def using l by (intro exI [of _ "[w]"] exI [of _ "[]"]) simp
  then have rc: "list_all2 (recv_ok 32) [[Inr w, Inr []]] [w]" by simp
  have rd: "de_sorted demo_engine" "map_of (de_readers demo_engine) 3 = Some demo_reader" "ra_raw demo_reader = []"
    "ra_b demo_reader = []" by (simp_all add: de_sorted_def demo_engine_def demo_reader_def)
  have m: "\<forall>m \<in> set [[8, 9 :: byte]]. length m < 2 ^ 31 \<and> m \<noteq> []" by simp
  from de_messages_arrive [OF be.byte_streams_axioms demo_packet_ok(1) m d(3,4,1) _ _ _ w1 r acc(2) _ _ rd rc] acc(1) d(2)
  have "\<exists>d2. de_feed be_streams 32 3 [[Inr w, Inr []]] demo_engine = Some (Inr (d2, [DeDataReceived 7 [8, 9]]))"
    by (simp add: w0_def)
  with w1 r acc(1) show ?thesis by (metis (no_types, lifting))
qed

text \<open>A packet from the network can make the engine read outside the packet: its field \<open>payloadsize\<close>
  is not checked, and a packet of the right size and a valid type that claims a payload longer than the
  packet can hold makes \<open>process_reader_input\<close> copy what follows the packet in memory.\<close>

theorem de_long_payload_undefined:
  assumes "byte_streams io v" and "packet_size_ok ps" and "pk_size p = ps \<and> length (pk_payload p) = payload_size ps"
    and "is_valid_type (pk_type p)" and "payload_size ps < unat (pk_payloadsize p)" and "pk_pack io p = Inr w"
    and "map_of (de_readers d) sock = Some a" and "ra_raw a = []" and "recv_ok ps answers w"
  shows "process_reader_input io ps sock answers d = Some (Inl Undefined)"
proof -
  have w: "length w = unat ps \<and> (\<exists>w'. w = pk_type p # w')"
    using assms(2,3,6) payload_size_bounds [OF assms(2)] byte_streams.u16_length [OF assms(1)]
      byte_streams.u32_length [OF assms(1)] byte_streams.id_length [OF assms(1)]
    by (auto simp: pk_pack_def split: if_splits)
  have open': "sv_good v (in_open io w)" "sv_rest v (in_open io w) = w"
    using byte_streams.open_view [OF assms(1), of w] by simp_all
  then have peek: "in_peek io (in_open io w) = pk_type p"
    using byte_streams.peek_view [OF assms(1)] w by metis
  obtain s' where u: "pk_unpack io (in_open io w) = Inr (p, s')"
    using byte_streams.pk_unpack_shaped [OF assms(1-3,6), of "in_open io w" "[]"] open' by auto
  have "de_packet io ps sock a w d = Inl Undefined"
    unfolding de_packet_def Let_def peek u using assms(3-5) by simp
  moreover have "ps \<noteq> 0" using assms(2) by (auto simp: packet_size_ok_def)
  ultimately have "de_packets io ps sock w d = Inl Undefined"
    using w assms(7) by (simp add: de_packets.simps [of io ps sock w])
  with assms(7,8) de_recv_ok [OF assms(9), of "[]"] show ?thesis by (simp add: process_reader_input_def)
qed

theorem de_long_payload_undefined_witness:
  "\<exists>w. pk_pack be_streams (demo_packet\<lparr>pk_payloadsize := 4\<rparr>) = Inr w \<and>
    process_reader_input be_streams 32 3 [Inr w, Inr []] demo_engine = Some (Inl Undefined)"
proof -
  let ?p = "demo_packet\<lparr>pk_payloadsize := 4\<rparr>"
  obtain w where w: "pk_pack be_streams ?p = Inr w" by (simp add: pk_pack_def demo_packet_def)
  then have l: "length w = 32"
    by (auto simp: pk_pack_def demo_packet_def be.u16_length be.u32_length be.id_length payload_size_def)
  have "recv_ok 32 [Inr w, Inr []] w"
    unfolding recv_ok_def using l by (intro exI [of _ "[w]"] exI [of _ "[]"]) simp
  with w show ?thesis
    using de_long_payload_undefined [OF be.byte_streams_axioms demo_packet_ok(1), of ?p w demo_engine 3 demo_reader]
    by (auto simp: demo_packet_def payload_size_def is_valid_type_def demo_engine_def demo_reader_def)
qed

end
