(* ===== verification/ReliableDelivery.thy ===== *)
theory ReliableDelivery
  imports Streams
begin

text \<open>
  \<open>reliable_delivery_engine\<close> (include/pfs/netty/p2p/reliable_delivery_engine.hpp) and
  \<open>simple_envelope_traits\<close> (simple_envelope.hpp): numbered envelopes with acknowledgements over a delivery
  engine and a persistent storage, both template parameters and records of operations here. Whatever a
  storage throws is \<open>Thrown\<close>; where the code catches it, it reports a failure. The two methods of the
  storage that may throw after a change, \<open>save\<close> and \<open>meet_peer\<close>, give their outcome beside the storage
  they leave.

  The methods \<open>again\<close> of the storage call back for each envelope; they give the list of these envelopes,
  and the callback runs over it. The callbacks of the engine are events.
\<close>

subsection \<open>Envelopes\<close>

type_synonym envelope_id = u64

definition eid_initial :: envelope_id where
  "eid_initial = 0"

definition eid_next :: "envelope_id \<Rightarrow> envelope_id" where
  "eid_next x = x + 1"

definition eid_eq :: "envelope_id \<Rightarrow> envelope_id \<Rightarrow> bool" where
  "eid_eq a b \<longleftrightarrow> a = b"

definition eid_less_or_eq :: "envelope_id \<Rightarrow> envelope_id \<Rightarrow> bool" where
  "eid_less_or_eq a b \<longleftrightarrow> a \<le> b"

datatype envelope_type = EtPayload | EtAck | EtNack | EtAgain | EtReport

fun etype_byte :: "envelope_type \<Rightarrow> byte" where
  "etype_byte EtPayload = 0"
| "etype_byte EtAck = 1"
| "etype_byte EtNack = 2"
| "etype_byte EtAgain = 3"
| "etype_byte EtReport = 4"

text \<open>The switch over a received type; \<open>None\<close> is the default case.\<close>

definition etype_of :: "byte \<Rightarrow> envelope_type option" where
  "etype_of b =
     (if b = 0 then Some EtPayload else if b = 1 then Some EtAck else if b = 2 then Some EtNack
      else if b = 3 then Some EtAgain else if b = 4 then Some EtReport else None)"

record envelope_header =
  eh_etype :: byte
  eh_eid :: envelope_id

definition header_bytes :: "'i streams \<Rightarrow> envelope_type \<Rightarrow> envelope_id \<Rightarrow> bytes" where
  "header_bytes io t eid = [etype_byte t] @ out_u64 io eid"

subsection \<open>The engine\<close>

record 's storage_ops =
  st_save :: "peer_id \<Rightarrow> bytes \<Rightarrow> 's \<Rightarrow> envelope_id result \<times> 's"
  st_ack :: "peer_id \<Rightarrow> envelope_id \<Rightarrow> 's \<Rightarrow> 's result"
  st_nack :: "peer_id \<Rightarrow> envelope_id \<Rightarrow> 's \<Rightarrow> 's result"
  st_again_after :: "envelope_id \<Rightarrow> peer_id \<Rightarrow> 's \<Rightarrow> (envelope_id \<times> bytes) list result"
  st_again :: "peer_id \<Rightarrow> 's \<Rightarrow> (envelope_id \<times> bytes) list result"
  st_recent_eid :: "peer_id \<Rightarrow> 's \<Rightarrow> envelope_id result"
  st_set_recent_eid :: "peer_id \<Rightarrow> envelope_id \<Rightarrow> 's \<Rightarrow> 's result"
  st_maintain :: "peer_id \<Rightarrow> 's \<Rightarrow> 's result"
  st_meet_peer :: "peer_id \<Rightarrow> 's \<Rightarrow> unit result \<times> 's"
  st_spend_peer :: "peer_id \<Rightarrow> 's \<Rightarrow> 's result"

datatype rl_event =
    RlDataReceived peer_id bytes
  | RlChannelEstablished peer_id
  | RlChannelClosed peer_id
  | RlOnFailure
  | RlOnError

record ('i, 's, 'e) rl_cfg =
  rc_io :: "'i streams"
  rc_storage :: "'s storage_ops"
  rc_enqueue :: "peer_id \<Rightarrow> bytes \<Rightarrow> 'e \<Rightarrow> bool \<times> 'e"

record ('s, 'e) reliable_engine =
  rl_storage :: 's
  rl_engine :: 'e
  rl_events :: "rl_event list"

definition rl_emit :: "rl_event \<Rightarrow> ('s, 'e) reliable_engine \<Rightarrow> ('s, 'e) reliable_engine" where
  "rl_emit e r = r\<lparr>rl_events := rl_events r @ [e]\<rparr>"

text \<open>\<open>DeliveryEngine::enqueue\<close>\<close>

definition rl_base_enqueue ::
  "('i, 's, 'e) rl_cfg \<Rightarrow> peer_id \<Rightarrow> bytes \<Rightarrow> ('s, 'e) reliable_engine \<Rightarrow> bool \<times> ('s, 'e) reliable_engine" where
  "rl_base_enqueue cfg addressee out r =
     (case rc_enqueue cfg addressee out (rl_engine r) of (ok, e) \<Rightarrow> (ok, r\<lparr>rl_engine := e\<rparr>))"

definition rl_enqueue ::
  "('i, 's, 'e) rl_cfg \<Rightarrow> peer_id \<Rightarrow> bytes \<Rightarrow> ('s, 'e) reliable_engine \<Rightarrow> (bool \<times> ('s, 'e) reliable_engine) result" where
  "rl_enqueue cfg addressee data r =
     (case st_save (rc_storage cfg) addressee data (rl_storage r) of
        (Inl (Thrown e), s) \<Rightarrow> Inr (False, rl_emit RlOnFailure (r\<lparr>rl_storage := s\<rparr>))
      | (Inl f, s) \<Rightarrow> Inl f
      | (Inr eid, s) \<Rightarrow>
          Inr (rl_base_enqueue cfg addressee (header_bytes (rc_io cfg) EtPayload eid @ data) (r\<lparr>rl_storage := s\<rparr>)))"

definition rl_enqueue_report ::
  "('i, 's, 'e) rl_cfg \<Rightarrow> peer_id \<Rightarrow> bytes \<Rightarrow> ('s, 'e) reliable_engine \<Rightarrow> bool \<times> ('s, 'e) reliable_engine" where
  "rl_enqueue_report cfg addressee data r =
     rl_base_enqueue cfg addressee (header_bytes (rc_io cfg) EtReport 0 @ data) r"

definition rl_enqueue_ack ::
  "('i, 's, 'e) rl_cfg \<Rightarrow> peer_id \<Rightarrow> envelope_id \<Rightarrow> ('s, 'e) reliable_engine \<Rightarrow> bool \<times> ('s, 'e) reliable_engine" where
  "rl_enqueue_ack cfg addressee eid r = rl_base_enqueue cfg addressee (header_bytes (rc_io cfg) EtAck eid) r"

definition rl_enqueue_nack ::
  "('i, 's, 'e) rl_cfg \<Rightarrow> peer_id \<Rightarrow> envelope_id \<Rightarrow> ('s, 'e) reliable_engine \<Rightarrow> bool \<times> ('s, 'e) reliable_engine" where
  "rl_enqueue_nack cfg addressee eid r = rl_base_enqueue cfg addressee (header_bytes (rc_io cfg) EtNack eid) r"

text \<open>\<open>enqueue_again\<close>: the code writes the type \<open>nack\<close>.\<close>

definition rl_enqueue_again ::
  "('i, 's, 'e) rl_cfg \<Rightarrow> peer_id \<Rightarrow> envelope_id \<Rightarrow> ('s, 'e) reliable_engine \<Rightarrow> bool \<times> ('s, 'e) reliable_engine" where
  "rl_enqueue_again cfg addressee eid r = rl_base_enqueue cfg addressee (header_bytes (rc_io cfg) EtNack eid) r"

definition rl_enqueue_payload_again ::
  "('i, 's, 'e) rl_cfg \<Rightarrow> peer_id \<Rightarrow> envelope_id \<Rightarrow> bytes \<Rightarrow> ('s, 'e) reliable_engine \<Rightarrow> bool \<times> ('s, 'e) reliable_engine" where
  "rl_enqueue_payload_again cfg addressee eid payload r =
     rl_base_enqueue cfg addressee (header_bytes (rc_io cfg) EtPayload eid @ out_string (rc_io cfg) payload) r"

definition rl_payloads_again ::
  "('i, 's, 'e) rl_cfg \<Rightarrow> peer_id \<Rightarrow> (envelope_id \<times> bytes) list \<Rightarrow> ('s, 'e) reliable_engine \<Rightarrow> ('s, 'e) reliable_engine" where
  "rl_payloads_again cfg addressee envelopes r =
     fold (\<lambda>(eid, payload) r. snd (rl_enqueue_payload_again cfg addressee eid payload r)) envelopes r"

definition check_eid_sequence :: "envelope_id \<Rightarrow> envelope_id \<Rightarrow> envelope_type \<times> envelope_id" where
  "check_eid_sequence recent_eid eid =
     (if eid_eq eid (eid_next recent_eid) then (EtAck, eid)
      else if eid_less_or_eq eid recent_eid then (EtNack, eid)
      else (EtAgain, recent_eid))"

definition rl_payload_received ::
  "('i, 's, 'e) rl_cfg \<Rightarrow> peer_id \<Rightarrow> envelope_id \<Rightarrow> bytes \<Rightarrow> ('s, 'e) reliable_engine \<Rightarrow> ('s, 'e) reliable_engine result" where
  "rl_payload_received cfg addresser eid payload r =
     bindr (st_recent_eid (rc_storage cfg) addresser (rl_storage r)) (\<lambda>recent_eid.
       (case check_eid_sequence recent_eid eid of
          (EtAck, i) \<Rightarrow>
            (case rl_enqueue_ack cfg addresser i r of
               (ok, r) \<Rightarrow>
                 (if ok then
                    (let r = rl_emit (RlDataReceived addresser payload) r
                     in mapr (\<lambda>s. r\<lparr>rl_storage := s\<rparr>) (st_set_recent_eid (rc_storage cfg) addresser i (rl_storage r)))
                  else Inr r))
        | (EtNack, i) \<Rightarrow> Inr (snd (rl_enqueue_nack cfg addresser i r))
        | (EtAgain, i) \<Rightarrow> Inr (snd (rl_enqueue_again cfg addresser i r))
        | _ \<Rightarrow> Inr r))"

definition process_data_received ::
  "('i, 's, 'e) rl_cfg \<Rightarrow> peer_id \<Rightarrow> bytes \<Rightarrow> ('s, 'e) reliable_engine \<Rightarrow> ('s, 'e) reliable_engine result" where
  "process_data_received cfg addresser data r =
     (let s = in_open (rc_io cfg) data;
          (etype, s) = in_u8 (rc_io cfg) s;
          (eid, s) = in_u64 (rc_io cfg) s;
          (payload, s) = in_rest (rc_io cfg) s;
          put = mapr (\<lambda>s. r\<lparr>rl_storage := s\<rparr>)
      in case etype_of etype of
           Some EtPayload \<Rightarrow> rl_payload_received cfg addresser eid payload r
         | Some EtAck \<Rightarrow> put (st_ack (rc_storage cfg) addresser eid (rl_storage r))
         | Some EtNack \<Rightarrow> put (st_nack (rc_storage cfg) addresser eid (rl_storage r))
         | Some EtAgain \<Rightarrow>
             mapr (\<lambda>envelopes. rl_payloads_again cfg addresser envelopes r)
               (st_again_after (rc_storage cfg) eid addresser (rl_storage r))
         | Some EtReport \<Rightarrow> Inr (rl_emit (RlDataReceived addresser payload) r)
         | None \<Rightarrow> Inr (rl_emit RlOnError r))"

definition process_channel_established ::
  "('i, 's, 'e) rl_cfg \<Rightarrow> peer_id \<Rightarrow> ('s, 'e) reliable_engine \<Rightarrow> ('s, 'e) reliable_engine result" where
  "process_channel_established cfg addressee r =
     bindr (st_maintain (rc_storage cfg) addressee (rl_storage r)) (\<lambda>s.
     (case st_meet_peer (rc_storage cfg) addressee s of
        (Inl f, s) \<Rightarrow> Inl f
      | (Inr u, s) \<Rightarrow>
          (let r = r\<lparr>rl_storage := s\<rparr>
           in mapr (\<lambda>envelopes. rl_emit (RlChannelEstablished addressee) (rl_payloads_again cfg addressee envelopes r))
                (st_again (rc_storage cfg) addressee s))))"

definition process_channel_closed ::
  "('i, 's, 'e) rl_cfg \<Rightarrow> peer_id \<Rightarrow> ('s, 'e) reliable_engine \<Rightarrow> ('s, 'e) reliable_engine result" where
  "process_channel_closed cfg peerid r =
     bindr (st_maintain (rc_storage cfg) peerid (rl_storage r)) (\<lambda>s.
     bindr (st_spend_peer (rc_storage cfg) peerid s) (\<lambda>s.
       Inr (rl_emit (RlChannelClosed peerid) (r\<lparr>rl_storage := s\<rparr>))))"

subsection \<open>What the receiver relies on\<close>

text \<open>The storage remembers the last envelope received from each peer.\<close>

locale receiver_storage =
  fixes ops :: "'s storage_ops" and ok :: "'s \<Rightarrow> bool" and recent :: "'s \<Rightarrow> peer_id \<Rightarrow> envelope_id"
  assumes recent_read: "ok s \<Longrightarrow> st_recent_eid ops p s = Inr (recent s p)"
    and recent_set: "ok s \<Longrightarrow> \<exists>s'. st_set_recent_eid ops p e s = Inr s' \<and> ok s' \<and> recent s' = (recent s)(p := e)"

text \<open>The payload envelope number \<open>k\<close> of a peer.\<close>

definition payload_envelope :: "'i streams \<Rightarrow> envelope_id \<Rightarrow> bytes \<Rightarrow> bytes" where
  "payload_envelope io k m = header_bytes io EtPayload k @ m"

text \<open>The envelopes of one peer that arrive, one after the other.\<close>

definition rl_feed ::
  "('i, 's, 'e) rl_cfg \<Rightarrow> peer_id \<Rightarrow> bytes list \<Rightarrow> ('s, 'e) reliable_engine \<Rightarrow> ('s, 'e) reliable_engine result" where
  "rl_feed cfg p datas r = foldr_res (process_data_received cfg p) datas r"

text \<open>How many envelopes of a sequence continue the numbering from the last one received.\<close>

fun in_order :: "envelope_id \<Rightarrow> envelope_id list \<Rightarrow> nat" where
  "in_order e [] = 0"
| "in_order e (k # ks) = (if k = eid_next e then Suc (in_order k ks) else in_order e ks)"

text \<open>A delivery engine that takes every acknowledgement: its channels stay established.\<close>

definition takes_all :: "('i, 's, 'e) rl_cfg \<Rightarrow> bool" where
  "takes_all cfg \<longleftrightarrow> (\<forall>p out e. fst (rc_enqueue cfg p out e))"

lemma rl_base_fields [simp]:
  "rl_storage (snd (rl_base_enqueue cfg p out r)) = rl_storage r"
  "rl_events (snd (rl_base_enqueue cfg p out r)) = rl_events r"
  by (simp_all add: rl_base_enqueue_def case_prod_unfold)

lemma envelope_read:
  assumes "byte_streams io v"
  shows "\<exists>s s' s''. in_u8 io (in_open io (header_bytes io t eid @ m)) = (etype_byte t, s) \<and>
    in_u64 io s = (eid, s') \<and> in_rest io s' = (m, s'')"
proof -
  let ?s = "in_open io ([etype_byte t] @ out_u64 io eid @ m)"
  have o: "sv_good v ?s" "sv_rest v ?s = [etype_byte t] @ out_u64 io eid @ m"
    using byte_streams.open_view [OF assms] by simp_all
  obtain s where s: "in_u8 io ?s = (etype_byte t, s)" "sv_good v s" "sv_rest v s = out_u64 io eid @ m"
    using readsD [OF byte_streams.u8_reads [OF assms] o] by (cases "in_u8 io ?s") auto
  obtain s' where s': "in_u64 io s = (eid, s')" "sv_good v s'" "sv_rest v s' = m"
    using readsD [OF byte_streams.u64_reads [OF assms] s(2,3)] by (cases "in_u64 io s") auto
  with s byte_streams.rest_view [OF assms s'(2)] show ?thesis
    by (cases "in_rest io s'") (simp add: header_bytes_def)
qed

lemma received_payload:
  assumes "byte_streams (rc_io cfg) v"
  shows "process_data_received cfg p (payload_envelope (rc_io cfg) k m) r = rl_payload_received cfg p k m r"
  using envelope_read [OF assms, of EtPayload k m]
  by (auto simp: process_data_received_def payload_envelope_def etype_of_def Let_def)

lemma received_nack:
  assumes "byte_streams (rc_io cfg) v"
  shows "process_data_received cfg p (header_bytes (rc_io cfg) EtNack k) r =
    mapr (\<lambda>s. r\<lparr>rl_storage := s\<rparr>) (st_nack (rc_storage cfg) p k (rl_storage r))"
  using envelope_read [OF assms, of EtNack k "[]"]
  by (auto simp: process_data_received_def etype_of_def Let_def)

context receiver_storage
begin

lemma received_step:
  assumes "rc_storage cfg = ops" and "ok (rl_storage r)"
  shows "\<exists>r'. rl_payload_received cfg p k m r = Inr r' \<and> ok (rl_storage r') \<and>
    ((takes_all cfg \<longrightarrow> k \<noteq> eid_next (recent (rl_storage r) p)) \<and>
       recent (rl_storage r') = recent (rl_storage r) \<and> rl_events r' = rl_events r \<or>
     k = eid_next (recent (rl_storage r) p) \<and> recent (rl_storage r') = (recent (rl_storage r))(p := k) \<and>
       rl_events r' = rl_events r @ [RlDataReceived p m])"
proof -
  let ?e = "recent (rl_storage r) p"
  have rd: "st_recent_eid (rc_storage cfg) p (rl_storage r) = Inr ?e" using assms recent_read by simp
  show ?thesis
  proof (cases "k = eid_next ?e")
    case True
    obtain b r1 where a: "rl_enqueue_ack cfg p k r = (b, r1)" by (cases "rl_enqueue_ack cfg p k r")
    then have r1: "rl_storage r1 = rl_storage r" "rl_events r1 = rl_events r"
      using rl_base_fields [of cfg p "header_bytes (rc_io cfg) EtAck k" r] by (simp_all add: rl_enqueue_ack_def)
    obtain s' where s': "st_set_recent_eid ops p k (rl_storage r) = Inr s'" "ok s'" "recent s' = (recent (rl_storage r))(p := k)"
      using recent_set [OF assms(2)] by blast
    show ?thesis
    proof (cases b)
      case True
      with a rd s' r1 assms \<open>k = eid_next ?e\<close> show ?thesis
        by (simp add: rl_payload_received_def check_eid_sequence_def eid_eq_def Let_def rl_emit_def)
    next
      case False
      with a have "\<not> takes_all cfg"
        by (auto simp: takes_all_def rl_enqueue_ack_def rl_base_enqueue_def case_prod_unfold)
      with False a rd r1 assms \<open>k = eid_next ?e\<close> show ?thesis
        by (simp add: rl_payload_received_def check_eid_sequence_def eid_eq_def)
    qed
  next
    case False
    with rd assms(2) show ?thesis
      by (simp add: rl_payload_received_def check_eid_sequence_def eid_eq_def rl_enqueue_nack_def rl_enqueue_again_def)
  qed
qed

text \<open>Whatever envelopes arrive, in any order and any number of times, the messages are reported in order,
  from the one after the last on.\<close>

lemma received_in_order:
  assumes "byte_streams (rc_io cfg) v" and "rc_storage cfg = ops" and "ok (rl_storage r)"
  shows "\<exists>r' n. rl_feed cfg p (map (\<lambda>k. payload_envelope (rc_io cfg) k (msg k)) ks) r = Inr r' \<and> ok (rl_storage r') \<and>
    recent (rl_storage r') = (recent (rl_storage r))(p := recent (rl_storage r) p + of_nat n) \<and>
    rl_events r' = rl_events r @ map (\<lambda>j. RlDataReceived p (msg (recent (rl_storage r) p + of_nat (Suc j)))) [0..<n] \<and>
    (takes_all cfg \<longrightarrow> n = in_order (recent (rl_storage r) p) ks)"
  using assms(3)
proof (induction ks arbitrary: r)
  case Nil
  then show ?case by (intro exI [of _ r] exI [of _ 0]) (simp add: rl_feed_def)
next
  case (Cons k ks)
  from received_step [OF assms(2) Cons.prems, of p k "msg k"] obtain r1 where
    r1: "rl_payload_received cfg p k (msg k) r = Inr r1" "ok (rl_storage r1)"
    and d: "(takes_all cfg \<longrightarrow> k \<noteq> eid_next (recent (rl_storage r) p)) \<and> recent (rl_storage r1) = recent (rl_storage r) \<and> rl_events r1 = rl_events r \<or>
     k = eid_next (recent (rl_storage r) p) \<and> recent (rl_storage r1) = (recent (rl_storage r))(p := k) \<and>
       rl_events r1 = rl_events r @ [RlDataReceived p (msg k)]" by blast
  from Cons.IH [OF r1(2)] obtain r' n where
    IH: "rl_feed cfg p (map (\<lambda>k. payload_envelope (rc_io cfg) k (msg k)) ks) r1 = Inr r'" "ok (rl_storage r')"
    "recent (rl_storage r') = (recent (rl_storage r1))(p := recent (rl_storage r1) p + of_nat n)"
    "rl_events r' = rl_events r1 @ map (\<lambda>j. RlDataReceived p (msg (recent (rl_storage r1) p + of_nat (Suc j)))) [0..<n]"
    "takes_all cfg \<longrightarrow> n = in_order (recent (rl_storage r1) p) ks"
    by blast
  have feed: "rl_feed cfg p (map (\<lambda>k. payload_envelope (rc_io cfg) k (msg k)) (k # ks)) r = Inr r'"
    using r1(1) IH(1) by (simp add: rl_feed_def received_payload [OF assms(1)])
  from d show ?case
  proof
    assume "(takes_all cfg \<longrightarrow> k \<noteq> eid_next (recent (rl_storage r) p)) \<and>
      recent (rl_storage r1) = recent (rl_storage r) \<and> rl_events r1 = rl_events r"
    with feed IH show ?thesis by (intro exI [of _ r'] exI [of _ n]) simp
  next
    assume k: "k = eid_next (recent (rl_storage r) p) \<and> recent (rl_storage r1) = (recent (rl_storage r))(p := k) \<and>
       rl_events r1 = rl_events r @ [RlDataReceived p (msg k)]"
    have "[0..<Suc n] = 0 # map Suc [0..<n]" by (simp add: map_Suc_upt upt_conv_Cons del: upt_Suc)
    with k IH have "rl_events r' = rl_events r @ map (\<lambda>j. RlDataReceived p (msg (recent (rl_storage r) p + of_nat (Suc j)))) [0..<Suc n]"
      by (simp add: eid_next_def comp_def add.assoc)
    with feed IH k show ?thesis
      by (intro exI [of _ r'] exI [of _ "Suc n"]) (simp add: eid_next_def add.assoc)
  qed
qed

end

end
