(* ===== verification/PersistentStorage.thy ===== *)
theory PersistentStorage
  imports ReliableDelivery
begin

text \<open>
  \<open>persistent_storage\<close> (src/sample/persistent_storage.cpp): the storage of the reliable delivery engine over
  a relational database of envelopes awaiting an acknowledgement and a key-value database of the last
  envelope received from each peer.

  The databases are those of the library debby, which is not part of the repository: the statements the
  code sends are the fields of \<open>db_ops\<close>, and the locale \<open>storage_dbs\<close> states what they do to a view
  of the databases, the tables \<open>#peer\<close> as partial maps from the envelope number to payload and flag.
  Numbers are ordered as SQLite integers only below \<open>2 ^ 63\<close>, so the laws of the ordered queries are stated
  for such tables. A method that calls back for each row gives the list of the rows. The fault that a statement or
  \<open>sql_transaction\<close> gives is an exception; a transaction can also give a text that says why it failed, which the
  code ignores (persistent_storage.cpp:54, 96), so that it is no part of the value: such a transaction gives the database
  it leaves, and the operation goes on.
\<close>

subsection \<open>Statements\<close>

record ('d, 'k) db_ops =
  sql_transaction :: "('d \<Rightarrow> 'd result) \<Rightarrow> 'd \<Rightarrow> 'd result"
  sql_create_delivery :: "peer_id \<Rightarrow> 'd \<Rightarrow> 'd result"
  sql_create_eids :: "'d \<Rightarrow> 'd result"
  sql_exists :: "peer_id \<Rightarrow> 'd \<Rightarrow> bool result"
  sql_insert :: "peer_id \<Rightarrow> envelope_id \<Rightarrow> bytes \<Rightarrow> bool \<Rightarrow> 'd \<Rightarrow> 'd result"
  sql_replace_eid :: "peer_id \<Rightarrow> envelope_id \<Rightarrow> 'd \<Rightarrow> 'd result"
  sql_select_eid :: "peer_id \<Rightarrow> 'd \<Rightarrow> envelope_id list result"
  sql_update_ack :: "peer_id \<Rightarrow> bool \<Rightarrow> envelope_id \<Rightarrow> 'd \<Rightarrow> 'd result"
  sql_delete_acked :: "peer_id \<Rightarrow> 'd \<Rightarrow> 'd result"
  sql_select_all :: "peer_id \<Rightarrow> 'd \<Rightarrow> (envelope_id \<times> bytes) list result"
  sql_select_greater :: "peer_id \<Rightarrow> envelope_id \<Rightarrow> 'd \<Rightarrow> (envelope_id \<times> bytes) list result"
  sql_select_unacked :: "peer_id \<Rightarrow> 'd \<Rightarrow> (envelope_id \<times> bytes) list result"
  sql_tables :: "'d \<Rightarrow> peer_id list result"
  sql_remove :: "peer_id list \<Rightarrow> 'd \<Rightarrow> 'd result"
  kv_set :: "peer_id \<Rightarrow> envelope_id \<Rightarrow> 'k \<Rightarrow> 'k result"
  kv_get_or :: "peer_id \<Rightarrow> envelope_id \<Rightarrow> 'k \<Rightarrow> envelope_id result"
  kv_wipe :: "'k \<Rightarrow> 'k result"

subsection \<open>The storage\<close>

record peer_info =
  pi_eid :: envelope_id

record ('d, 'k) persistent_storage =
  ps_wipe_on_destroy :: bool
  ps_delivery_db :: 'd
  ps_ack_db :: 'k
  ps_peers :: "peer_id \<Rightarrow> peer_info option"

definition create_delivary_table ::
  "('d, 'k) db_ops \<Rightarrow> peer_id \<Rightarrow> ('d, 'k) persistent_storage \<Rightarrow> ('d, 'k) persistent_storage result" where
  "create_delivary_table db peerid s =
     mapr (\<lambda>d. s\<lparr>ps_delivery_db := d\<rparr>)
       (sql_transaction db (\<lambda>d. bindr (sql_create_delivery db peerid d) (sql_create_eids db)) (ps_delivery_db s))"

definition fetch_recent_eid :: "('d, 'k) db_ops \<Rightarrow> peer_id \<Rightarrow> ('d, 'k) persistent_storage \<Rightarrow> envelope_id result" where
  "fetch_recent_eid db peerid s =
     bindr (sql_select_eid db peerid (ps_delivery_db s)) (\<lambda>rows.
       (case rows of [] \<Rightarrow> Inl (Thrown Unexpected_error) | eid # _ \<Rightarrow> Inr eid))"

definition meet_peer ::
  "('d, 'k) db_ops \<Rightarrow> peer_id \<Rightarrow> ('d, 'k) persistent_storage \<Rightarrow> unit result \<times> ('d, 'k) persistent_storage" where
  "meet_peer db peerid s =
     (case create_delivary_table db peerid s of
        Inl f \<Rightarrow> (Inl f, s)
      | Inr s \<Rightarrow>
          (case fetch_recent_eid db peerid s of
             Inl f \<Rightarrow> (Inl f, s)
           | Inr eid \<Rightarrow> (Inr (), s\<lparr>ps_peers := (ps_peers s)(peerid \<mapsto> \<lparr>pi_eid = eid\<rparr>)\<rparr>)))"

definition spend_peer ::
  "('d, 'k) db_ops \<Rightarrow> peer_id \<Rightarrow> ('d, 'k) persistent_storage \<Rightarrow> ('d, 'k) persistent_storage result" where
  "spend_peer db peerid s = Inr (s\<lparr>ps_peers := (ps_peers s)(peerid := None)\<rparr>)"

text \<open>The number of the last envelope saved for the peer, from the cache or from the database.\<close>

definition saved_eid ::
  "('d, 'k) db_ops \<Rightarrow> peer_id \<Rightarrow> ('d, 'k) persistent_storage \<Rightarrow> envelope_id result \<times> ('d, 'k) persistent_storage" where
  "saved_eid db addressee s =
     (case ps_peers s addressee of
        None \<Rightarrow>
          (case create_delivary_table db addressee s of
             Inl f \<Rightarrow> (Inl f, s)
           | Inr s \<Rightarrow> (fetch_recent_eid db addressee s, s))
      | Some i \<Rightarrow> (Inr (pi_eid i), s))"

definition ps_save ::
  "('d, 'k) db_ops \<Rightarrow> peer_id \<Rightarrow> bytes \<Rightarrow> ('d, 'k) persistent_storage \<Rightarrow> envelope_id result \<times> ('d, 'k) persistent_storage" where
  "ps_save db addressee data s =
     (case saved_eid db addressee s of
        (Inl f, s) \<Rightarrow> (Inl f, s)
      | (Inr eid, s) \<Rightarrow>
          (let eid = eid_next eid
           in case sql_transaction db (\<lambda>d. bindr (sql_insert db addressee eid data False d)
                     (sql_replace_eid db addressee eid)) (ps_delivery_db s) of
                Inl f \<Rightarrow> (Inl f, s)
              | Inr d \<Rightarrow>
                  (Inr eid, s\<lparr>ps_delivery_db := d, ps_peers := (ps_peers s)(addressee \<mapsto> \<lparr>pi_eid = eid\<rparr>)\<rparr>)))"

definition ps_ack ::
  "('d, 'k) db_ops \<Rightarrow> peer_id \<Rightarrow> envelope_id \<Rightarrow> ('d, 'k) persistent_storage \<Rightarrow> ('d, 'k) persistent_storage result" where
  "ps_ack db addressee eid s =
     mapr (\<lambda>d. s\<lparr>ps_delivery_db := d\<rparr>) (sql_update_ack db addressee True eid (ps_delivery_db s))"

definition ps_nack ::
  "('d, 'k) db_ops \<Rightarrow> peer_id \<Rightarrow> envelope_id \<Rightarrow> ('d, 'k) persistent_storage \<Rightarrow> ('d, 'k) persistent_storage result" where
  "ps_nack db addressee eid s = ps_ack db addressee eid s"

definition for_each ::
  "('d, 'k) db_ops \<Rightarrow> peer_id \<Rightarrow> ('d, 'k) persistent_storage \<Rightarrow> (envelope_id \<times> bytes) list result" where
  "for_each db peerid s = sql_select_all db peerid (ps_delivery_db s)"

definition for_each_eid_greater ::
  "('d, 'k) db_ops \<Rightarrow> envelope_id \<Rightarrow> peer_id \<Rightarrow> ('d, 'k) persistent_storage \<Rightarrow> (envelope_id \<times> bytes) list result" where
  "for_each_eid_greater db eid peerid s = sql_select_greater db peerid eid (ps_delivery_db s)"

definition for_each_unacked ::
  "('d, 'k) db_ops \<Rightarrow> peer_id \<Rightarrow> ('d, 'k) persistent_storage \<Rightarrow> (envelope_id \<times> bytes) list result" where
  "for_each_unacked db peerid s = sql_select_unacked db peerid (ps_delivery_db s)"

definition again_after ::
  "('d, 'k) db_ops \<Rightarrow> envelope_id \<Rightarrow> peer_id \<Rightarrow> ('d, 'k) persistent_storage \<Rightarrow> (envelope_id \<times> bytes) list result" where
  "again_after db eid addressee s = for_each_eid_greater db eid addressee s"

definition again ::
  "('d, 'k) db_ops \<Rightarrow> peer_id \<Rightarrow> ('d, 'k) persistent_storage \<Rightarrow> (envelope_id \<times> bytes) list result" where
  "again db addressee s = for_each_unacked db addressee s"

definition set_recent_eid ::
  "('d, 'k) db_ops \<Rightarrow> peer_id \<Rightarrow> envelope_id \<Rightarrow> ('d, 'k) persistent_storage \<Rightarrow> ('d, 'k) persistent_storage result" where
  "set_recent_eid db addresser eid s = mapr (\<lambda>k. s\<lparr>ps_ack_db := k\<rparr>) (kv_set db addresser eid (ps_ack_db s))"

definition recent_eid :: "('d, 'k) db_ops \<Rightarrow> peer_id \<Rightarrow> ('d, 'k) persistent_storage \<Rightarrow> envelope_id result" where
  "recent_eid db addresser s = kv_get_or db addresser eid_initial (ps_ack_db s)"

definition maintain ::
  "('d, 'k) db_ops \<Rightarrow> peer_id \<Rightarrow> ('d, 'k) persistent_storage \<Rightarrow> ('d, 'k) persistent_storage result" where
  "maintain db peerid s =
     bindr (sql_exists db peerid (ps_delivery_db s)) (\<lambda>table_exists.
       (if \<not> table_exists then Inr s
        else mapr (\<lambda>d. s\<lparr>ps_delivery_db := d\<rparr>) (sql_delete_acked db peerid (ps_delivery_db s))))"

definition wipe :: "('d, 'k) db_ops \<Rightarrow> ('d, 'k) persistent_storage \<Rightarrow> ('d, 'k) persistent_storage result" where
  "wipe db s =
     bindr (sql_tables db (ps_delivery_db s)) (\<lambda>tables.
     bindr (if tables \<noteq> [] then sql_remove db tables (ps_delivery_db s) else Inr (ps_delivery_db s)) (\<lambda>d.
       mapr (\<lambda>k. s\<lparr>ps_delivery_db := d, ps_ack_db := k\<rparr>) (kv_wipe db (ps_ack_db s))))"

definition wipe_on_destroy :: "bool \<Rightarrow> ('d, 'k) persistent_storage \<Rightarrow> ('d, 'k) persistent_storage" where
  "wipe_on_destroy enable s = s\<lparr>ps_wipe_on_destroy := enable\<rparr>"

definition ps_destroy :: "('d, 'k) db_ops \<Rightarrow> ('d, 'k) persistent_storage \<Rightarrow> ('d, 'k) persistent_storage result" where
  "ps_destroy db s = (if ps_wipe_on_destroy s then wipe db s else Inr s)"

text \<open>The methods the reliable delivery engine calls.\<close>

definition storage_of :: "('d, 'k) db_ops \<Rightarrow> ('d, 'k) persistent_storage storage_ops" where
  "storage_of db = \<lparr>st_save = ps_save db, st_ack = ps_ack db, st_nack = ps_nack db,
     st_again_after = again_after db, st_again = again db, st_recent_eid = recent_eid db,
     st_set_recent_eid = set_recent_eid db, st_maintain = maintain db, st_meet_peer = meet_peer db,
     st_spend_peer = spend_peer db\<rparr>"

subsection \<open>What the statements do\<close>

type_synonym envelope_table = "envelope_id \<Rightarrow> (bytes \<times> bool) option"

record ('d, 'k) db_view =
  dv_table :: "'d \<Rightarrow> peer_id \<Rightarrow> envelope_table option"
  dv_has_eids :: "'d \<Rightarrow> bool"
  dv_eids :: "'d \<Rightarrow> peer_id \<Rightarrow> envelope_id option"
  dv_recent :: "'k \<Rightarrow> peer_id \<Rightarrow> envelope_id option"

definition unacked_rows :: "envelope_table \<Rightarrow> (envelope_id \<times> bytes) set" where
  "unacked_rows T = {(e, b). T e = Some (b, False)}"

definition small_table :: "envelope_table \<Rightarrow> bool" where
  "small_table T \<longleftrightarrow> (\<forall>e\<in>dom T. e < 2 ^ 63)"

text \<open>A statement that does not touch the table \<open>eids\<close>.\<close>

definition keeps_eids :: "('d, 'k) db_view \<Rightarrow> ('d \<Rightarrow> 'd result) \<Rightarrow> bool" where
  "keeps_eids v f \<longleftrightarrow> (\<forall>d d'. f d = Inr d' \<longrightarrow> dv_eids v d' = dv_eids v d \<and> dv_has_eids v d' = dv_has_eids v d)"

locale storage_dbs =
  fixes db :: "('d, 'k) db_ops" and v :: "('d, 'k) db_view"
  assumes transaction_commits: "f d = Inr d' \<Longrightarrow> sql_transaction db f d = Inr d'"
    and create_delivery: "\<exists>d'. sql_create_delivery db p d = Inr d' \<and>
      dv_table v d' = (case dv_table v d p of None \<Rightarrow> (dv_table v d)(p \<mapsto> Map.empty) | Some _ \<Rightarrow> dv_table v d)"
    and create_delivery_keeps: "keeps_eids v (sql_create_delivery db p)"
    and create_eids: "\<exists>d'. sql_create_eids db d = Inr d' \<and> dv_has_eids v d' \<and> dv_eids v d' = dv_eids v d \<and>
      dv_table v d' = dv_table v d"
    and select_eid: "dv_has_eids v d \<Longrightarrow>
      sql_select_eid db p d = Inr (case dv_eids v d p of None \<Rightarrow> [] | Some e \<Rightarrow> [e])"
    and insert_row: "dv_table v d p = Some T \<Longrightarrow> T e = None \<Longrightarrow>
      \<exists>d'. sql_insert db p e b a d = Inr d' \<and> dv_table v d' = (dv_table v d)(p \<mapsto> T(e \<mapsto> (b, a)))"
    and insert_keeps: "keeps_eids v (sql_insert db p e b a)"
    and replace_eid: "dv_has_eids v d \<Longrightarrow>
      \<exists>d'. sql_replace_eid db p e d = Inr d' \<and> dv_has_eids v d' \<and> dv_table v d' = dv_table v d \<and>
        dv_eids v d' = (dv_eids v d)(p \<mapsto> e)"
    and update_ack: "dv_table v d p = Some T \<Longrightarrow>
      \<exists>d'. sql_update_ack db p a e d = Inr d' \<and>
        dv_table v d' = (dv_table v d)(p \<mapsto> (case T e of None \<Rightarrow> T | Some (b, _) \<Rightarrow> T(e \<mapsto> (b, a))))"
    and update_ack_keeps: "keeps_eids v (sql_update_ack db p a e)"
    and table_exists: "sql_exists db p d = Inr (dv_table v d p \<noteq> None)"
    and delete_acked: "dv_table v d p = Some T \<Longrightarrow>
      \<exists>d'. sql_delete_acked db p d = Inr d' \<and>
        dv_table v d' = (dv_table v d)(p \<mapsto> (\<lambda>e. case T e of Some (b, True) \<Rightarrow> None | r \<Rightarrow> r))"
    and delete_acked_keeps: "keeps_eids v (sql_delete_acked db p)"
    and select_unacked: "dv_table v d p = Some T \<Longrightarrow> small_table T \<Longrightarrow>
      \<exists>rs. sql_select_unacked db p d = Inr rs \<and> set rs = unacked_rows T \<and> sorted_wrt (<) (map fst rs)"
    and recent_get: "kv_get_or db p e k = Inr (case dv_recent v k p of None \<Rightarrow> e | Some r \<Rightarrow> r)"
    and recent_put: "\<exists>k'. kv_set db p e k = Inr k' \<and> dv_recent v k' = (dv_recent v k)(p \<mapsto> e)"

subsection \<open>A database in memory that does so\<close>

record mem_db =
  md_tables :: "(peer_id \<times> (envelope_id \<times> bytes \<times> bool) list) list"
  md_has_eids :: bool
  md_eids :: "(peer_id \<times> envelope_id) list"

text \<open>A statement on a table that does not exist is an error.\<close>

definition on_table :: "peer_id \<Rightarrow> ((envelope_id \<times> bytes \<times> bool) list \<Rightarrow> 'a result) \<Rightarrow> mem_db \<Rightarrow> 'a result" where
  "on_table p f d = (case map_of (md_tables d) p of None \<Rightarrow> Inl (Thrown Unexpected_error) | Some t \<Rightarrow> f t)"

definition put_table :: "peer_id \<Rightarrow> mem_db \<Rightarrow> (envelope_id \<times> bytes \<times> bool) list \<Rightarrow> mem_db" where
  "put_table p d t = d\<lparr>md_tables := AList.update p t (md_tables d)\<rparr>"

definition mem_update_ack :: "bool \<Rightarrow> envelope_id \<Rightarrow> (envelope_id \<times> bytes \<times> bool) list \<Rightarrow> (envelope_id \<times> bytes \<times> bool) list" where
  "mem_update_ack a e t = (case map_of t e of None \<Rightarrow> t | Some (b, _) \<Rightarrow> AList.update e (b, a) t)"

definition mem_rows :: "(envelope_id \<Rightarrow> bool \<Rightarrow> bool) \<Rightarrow> (envelope_id \<times> bytes \<times> bool) list \<Rightarrow> (envelope_id \<times> bytes) list" where
  "mem_rows q t = map (\<lambda>(e, b, a). (e, b)) (filter (\<lambda>(e, b, a). q e a) (sort_key fst (AList.clearjunk t)))"

definition mem_ops :: "(mem_db, (peer_id \<times> envelope_id) list) db_ops" where
  "mem_ops = \<lparr>
     sql_transaction = (\<lambda>f. f),
     sql_create_delivery = (\<lambda>p d. Inr (case map_of (md_tables d) p of None \<Rightarrow> put_table p d [] | Some _ \<Rightarrow> d)),
     sql_create_eids = (\<lambda>d. Inr (d\<lparr>md_has_eids := True\<rparr>)),
     sql_exists = (\<lambda>p d. Inr (map_of (md_tables d) p \<noteq> None)),
     sql_insert = (\<lambda>p e b a d. on_table p (\<lambda>t.
       (if map_of t e = None then Inr (put_table p d (AList.update e (b, a) t)) else Inl (Thrown Unexpected_error))) d),
     sql_replace_eid = (\<lambda>p e d.
       (if md_has_eids d then Inr (d\<lparr>md_eids := AList.update p e (md_eids d)\<rparr>) else Inl (Thrown Unexpected_error))),
     sql_select_eid = (\<lambda>p d.
       (if md_has_eids d then Inr (case map_of (md_eids d) p of None \<Rightarrow> [] | Some e \<Rightarrow> [e])
        else Inl (Thrown Unexpected_error))),
     sql_update_ack = (\<lambda>p a e d. on_table p (\<lambda>t. Inr (put_table p d (mem_update_ack a e t))) d),
     sql_delete_acked = (\<lambda>p d. on_table p (\<lambda>t. Inr (put_table p d (filter (\<lambda>(e, b, a). \<not> a) (AList.clearjunk t)))) d),
     sql_select_all = (\<lambda>p. on_table p (\<lambda>t. Inr (mem_rows (\<lambda>e a. True) t))),
     sql_select_greater = (\<lambda>p x. on_table p (\<lambda>t. Inr (mem_rows (\<lambda>e a. x < e) t))),
     sql_select_unacked = (\<lambda>p. on_table p (\<lambda>t. Inr (mem_rows (\<lambda>e a. \<not> a) t))),
     sql_tables = (\<lambda>d. Inr (map fst (md_tables d))),
     sql_remove = (\<lambda>ps d. Inr (d\<lparr>md_tables := filter (\<lambda>x. fst x \<notin> set ps) (md_tables d)\<rparr>)),
     kv_set = (\<lambda>p e k. Inr (AList.update p e k)),
     kv_get_or = (\<lambda>p e k. Inr (case map_of k p of None \<Rightarrow> e | Some r \<Rightarrow> r)),
     kv_wipe = (\<lambda>k. Inr [])\<rparr>"

definition mem_db_view :: "(mem_db, (peer_id \<times> envelope_id) list) db_view" where
  "mem_db_view = \<lparr>
     dv_table = (\<lambda>d p. map_option map_of (map_of (md_tables d) p)),
     dv_has_eids = md_has_eids,
     dv_eids = (\<lambda>d. map_of (md_eids d)),
     dv_recent = map_of\<rparr>"

lemma mem_rows_set: "set (mem_rows q t) = {(e, b). \<exists>a. map_of t e = Some (b, a) \<and> q e a}"
proof -
  have "map_of t e = Some x \<longleftrightarrow> (e, x) \<in> set (AList.clearjunk t)" for e x
    using map_of_eq_Some_iff [OF distinct_clearjunk [of t], of e x] by (simp add: map_of_clearjunk)
  then show ?thesis unfolding mem_rows_def by force
qed

lemma mem_rows_sorted: "sorted_wrt (<) (map fst (mem_rows q t))"
proof -
  let ?s = "sort_key fst (AList.clearjunk t)"
  have "distinct (map fst ?s)" by (simp add: distinct_map distinct_clearjunk inj_on_subset)
       (metis distinct_clearjunk distinct_map)
  then have "sorted_wrt (<) (map fst ?s)" by (simp add: strict_sorted_iff)
  then have s: "sorted_wrt (\<lambda>x y. fst x < fst y) ?s" by (simp add: sorted_wrt_map)
  have "map fst (mem_rows q t) = map fst (filter (\<lambda>(e, b, a). q e a) ?s)"
    by (simp add: mem_rows_def case_prod_unfold comp_def)
  with sorted_wrt_filter [OF s] show ?thesis by (simp add: sorted_wrt_map)
qed

lemma on_table_keeps:
  assumes "\<And>t d d'. f d t = Inr d' \<Longrightarrow> \<exists>t'. d' = put_table p d t'"
  shows "keeps_eids mem_db_view (\<lambda>d. on_table p (f d) d)"
  unfolding keeps_eids_def
proof (intro allI impI)
  fix d d' assume "on_table p (f d) d = Inr d'"
  then obtain t where "f d t = Inr d'" by (auto simp: on_table_def split: option.splits)
  with assms obtain t' where "d' = put_table p d t'" by blast
  then show "dv_eids mem_db_view d' = dv_eids mem_db_view d \<and> dv_has_eids mem_db_view d' = dv_has_eids mem_db_view d"
    by (simp add: put_table_def mem_db_view_def)
qed

lemma view_put_table [simp]:
  "dv_table mem_db_view (put_table p d t) = (dv_table mem_db_view d)(p \<mapsto> map_of t)"
  by (rule ext) (simp add: mem_db_view_def put_table_def update_conv')

lemma mem_delete_acked:
  "map_of (filter (\<lambda>(e, b, a). \<not> a) (AList.clearjunk t)) = (\<lambda>e. case map_of t e of Some (b, True) \<Rightarrow> None | r \<Rightarrow> r)"
proof -
  have "map_of (filter (\<lambda>(e, b, a). \<not> a) xs) e = (case map_of xs e of Some (b, True) \<Rightarrow> None | r \<Rightarrow> r)"
    if "distinct (map fst xs)" for xs e
    using that by (induction xs) (auto simp: map_of_eq_None_iff split: option.splits bool.splits intro: rev_image_eqI)
  from this [OF distinct_clearjunk] show ?thesis by (intro ext) (simp add: map_of_clearjunk)
qed

interpretation mem: storage_dbs mem_ops mem_db_view
proof
  show "keeps_eids mem_db_view (sql_create_delivery mem_ops p)" for p
    by (simp add: keeps_eids_def mem_ops_def mem_db_view_def put_table_def split: option.split)
  show "keeps_eids mem_db_view (sql_insert mem_ops p e b a)" for p e b a
    unfolding mem_ops_def db_ops.simps by (rule on_table_keeps) (auto split: if_splits)
  show "keeps_eids mem_db_view (sql_update_ack mem_ops p a e)" for p a e
    unfolding mem_ops_def db_ops.simps by (rule on_table_keeps) auto
  show "keeps_eids mem_db_view (sql_delete_acked mem_ops p)" for p
    unfolding mem_ops_def db_ops.simps by (rule on_table_keeps) auto
  show "\<exists>d'. sql_create_delivery mem_ops p d = Inr d' \<and> dv_table mem_db_view d' =
      (case dv_table mem_db_view d p of None \<Rightarrow> (dv_table mem_db_view d)(p \<mapsto> Map.empty) | Some _ \<Rightarrow> dv_table mem_db_view d)" for p d
    by (cases "map_of (md_tables d) p") (simp_all add: mem_ops_def, simp_all add: mem_db_view_def)
  show "\<exists>d'. sql_create_eids mem_ops d = Inr d' \<and> dv_has_eids mem_db_view d' \<and>
      dv_eids mem_db_view d' = dv_eids mem_db_view d \<and> dv_table mem_db_view d' = dv_table mem_db_view d" for d
    by (simp add: mem_ops_def mem_db_view_def)
  show "\<exists>d'. sql_insert mem_ops p e b a d = Inr d' \<and> dv_table mem_db_view d' = (dv_table mem_db_view d)(p \<mapsto> T(e \<mapsto> (b, a)))"
    if "dv_table mem_db_view d p = Some T" and "T e = None" for p d T e b a
  proof -
    from that obtain t where "map_of (md_tables d) p = Some t" "T = map_of t" "map_of t e = None"
      by (auto simp: mem_db_view_def)
    then show ?thesis by (simp add: mem_ops_def on_table_def update_conv')
  qed
  show "\<exists>d'. sql_update_ack mem_ops p a e d = Inr d' \<and> dv_table mem_db_view d' =
      (dv_table mem_db_view d)(p \<mapsto> (case T e of None \<Rightarrow> T | Some (b, _) \<Rightarrow> T(e \<mapsto> (b, a))))"
    if "dv_table mem_db_view d p = Some T" for p d T e a
  proof -
    from that obtain t where "map_of (md_tables d) p = Some t" "T = map_of t" by (auto simp: mem_db_view_def)
    then show ?thesis by (auto simp: mem_ops_def on_table_def mem_update_ack_def update_conv' split: option.split)
  qed
  show "\<exists>d'. sql_delete_acked mem_ops p d = Inr d' \<and>
      dv_table mem_db_view d' = (dv_table mem_db_view d)(p \<mapsto> (\<lambda>e. case T e of Some (b, True) \<Rightarrow> None | r \<Rightarrow> r))"
    if "dv_table mem_db_view d p = Some T" for p d T
  proof -
    from that obtain t where "map_of (md_tables d) p = Some t" "T = map_of t" by (auto simp: mem_db_view_def)
    then show ?thesis by (simp add: mem_ops_def on_table_def mem_delete_acked)
  qed
  show "\<exists>rs. sql_select_unacked mem_ops p d = Inr rs \<and> set rs = unacked_rows T \<and> sorted_wrt (<) (map fst rs)"
    if "dv_table mem_db_view d p = Some T" for p d T
  proof -
    from that obtain t where "map_of (md_tables d) p = Some t" "T = map_of t" by (auto simp: mem_db_view_def)
    then show ?thesis by (auto simp: mem_ops_def on_table_def mem_rows_set mem_rows_sorted unacked_rows_def)
  qed
qed (auto simp: mem_ops_def mem_db_view_def update_conv')

subsection \<open>The last envelope received\<close>

definition recent_of :: "('d, 'k) db_view \<Rightarrow> ('d, 'k) persistent_storage \<Rightarrow> peer_id \<Rightarrow> envelope_id" where
  "recent_of v s p = (case dv_recent v (ps_ack_db s) p of None \<Rightarrow> eid_initial | Some r \<Rightarrow> r)"

sublocale storage_dbs \<subseteq> recv: receiver_storage "storage_of db" "\<lambda>s. True" "recent_of v"
proof
  show "st_recent_eid (storage_of db) p s = Inr (recent_of v s p)" for s p
    by (simp add: storage_of_def recent_eid_def recent_get recent_of_def)
  show "\<exists>s'. st_set_recent_eid (storage_of db) p e s = Inr s' \<and> True \<and> recent_of v s' = (recent_of v s)(p := e)" for s p e
  proof -
    obtain k where k: "kv_set db p e (ps_ack_db s) = Inr k" "dv_recent v k = (dv_recent v (ps_ack_db s))(p \<mapsto> e)"
      using recent_put by blast
    then show ?thesis by (auto simp: storage_of_def set_recent_eid_def recent_of_def)
  qed
qed

subsection \<open>Histories of a storage\<close>

text \<open>The operations of a storage whose caller catches what they throw.\<close>

datatype ps_op =
    PsSave peer_id bytes
  | PsAck peer_id envelope_id
  | PsNack peer_id envelope_id
  | PsSetRecent peer_id envelope_id
  | PsMaintain peer_id
  | PsMeet peer_id
  | PsSpend peer_id
  | PsWipeOnDestroy bool

definition unless_thrown :: "'s \<Rightarrow> 's result \<Rightarrow> 's" where
  "unless_thrown s m = (case m of Inl f \<Rightarrow> s | Inr s' \<Rightarrow> s')"

fun ps_run_op :: "('d, 'k) db_ops \<Rightarrow> ps_op \<Rightarrow> ('d, 'k) persistent_storage \<Rightarrow> ('d, 'k) persistent_storage" where
  "ps_run_op db (PsSave p data) s = snd (ps_save db p data s)"
| "ps_run_op db (PsAck p e) s = unless_thrown s (ps_ack db p e s)"
| "ps_run_op db (PsNack p e) s = unless_thrown s (ps_nack db p e s)"
| "ps_run_op db (PsSetRecent p e) s = unless_thrown s (set_recent_eid db p e s)"
| "ps_run_op db (PsMaintain p) s = unless_thrown s (maintain db p s)"
| "ps_run_op db (PsMeet p) s = snd (meet_peer db p s)"
| "ps_run_op db (PsSpend p) s = unless_thrown s (spend_peer db p s)"
| "ps_run_op db (PsWipeOnDestroy b) s = wipe_on_destroy b s"

text \<open>A storage on new databases: no number of a peer is stored or in the cache.\<close>

definition ps_unseeded :: "('d, 'k) db_view \<Rightarrow> ('d, 'k) persistent_storage \<Rightarrow> bool" where
  "ps_unseeded v s \<longleftrightarrow> ps_peers s = Map.empty \<and> dv_eids v (ps_delivery_db s) = Map.empty"

context storage_dbs
begin

lemmas payloads_received = recv.received_in_order [OF _ _ TrueI]

lemma create_table:
  "\<exists>d. create_delivary_table db p s = Inr (s\<lparr>ps_delivery_db := d\<rparr>) \<and> dv_has_eids v d \<and>
     dv_eids v d = dv_eids v (ps_delivery_db s) \<and>
     dv_table v d = (case dv_table v (ps_delivery_db s) p of
        None \<Rightarrow> (dv_table v (ps_delivery_db s))(p \<mapsto> Map.empty) | Some T \<Rightarrow> dv_table v (ps_delivery_db s))"
proof -
  let ?d = "ps_delivery_db s"
  obtain d1 where d1: "sql_create_delivery db p ?d = Inr d1"
    "dv_table v d1 = (case dv_table v ?d p of None \<Rightarrow> (dv_table v ?d)(p \<mapsto> Map.empty) | Some T \<Rightarrow> dv_table v ?d)"
    using create_delivery by blast
  moreover have "dv_eids v d1 = dv_eids v ?d" using create_delivery_keeps [of p] d1(1) by (simp add: keeps_eids_def)
  moreover obtain d2 where d2: "sql_create_eids db d1 = Inr d2" "dv_has_eids v d2" "dv_eids v d2 = dv_eids v d1"
    "dv_table v d2 = dv_table v d1" using create_eids by blast
  moreover have "sql_transaction db (\<lambda>d. bindr (sql_create_delivery db p d) (sql_create_eids db)) ?d = Inr d2"
    by (rule transaction_commits) (simp add: d1 d2)
  ultimately show ?thesis by (intro exI [of _ d2]) (simp add: create_delivary_table_def)
qed

lemma fetch_row:
  "dv_has_eids v (ps_delivery_db s) \<Longrightarrow> fetch_recent_eid db p s =
     (case dv_eids v (ps_delivery_db s) p of None \<Rightarrow> Inl (Thrown Unexpected_error) | Some e \<Rightarrow> Inr e)"
  by (simp add: fetch_recent_eid_def select_eid split: option.split)

lemma unseeded_throws:
  assumes "ps_unseeded v s"
  obtains d where "dv_eids v d = Map.empty"
    "ps_save db p data s = (Inl (Thrown Unexpected_error), s\<lparr>ps_delivery_db := d\<rparr>)"
    "meet_peer db p s = (Inl (Thrown Unexpected_error), s\<lparr>ps_delivery_db := d\<rparr>)"
proof -
  obtain d where d: "create_delivary_table db p s = Inr (s\<lparr>ps_delivery_db := d\<rparr>)" "dv_has_eids v d"
    "dv_eids v d = dv_eids v (ps_delivery_db s)" using create_table [of p s] by blast
  moreover from d assms have "fetch_recent_eid db p (s\<lparr>ps_delivery_db := d\<rparr>) = Inl (Thrown Unexpected_error)"
    by (simp add: fetch_row ps_unseeded_def)
  ultimately show thesis using assms
    by (intro that [of d]) (simp_all add: ps_save_def saved_eid_def meet_peer_def ps_unseeded_def)
qed

lemma unseeded_op: "ps_unseeded v s \<Longrightarrow> ps_unseeded v (ps_run_op db x s)"
proof -
  assume u: "ps_unseeded v s"
  have keeps: "ps_unseeded v (s\<lparr>ps_delivery_db := d\<rparr>)" if "keeps_eids v f" "f (ps_delivery_db s) = Inr d" for f d
    using that u by (simp add: keeps_eids_def ps_unseeded_def)
  show ?thesis
  proof (cases x)
    case (PsSave p data)
    then show ?thesis using u by (rule_tac unseeded_throws [OF u, of p data]) (simp add: ps_unseeded_def)
  next
    case (PsMeet p)
    then show ?thesis using u by (rule_tac unseeded_throws [OF u, of p "[]"]) (simp add: ps_unseeded_def)
  next
    case (PsAck p e)
    then show ?thesis using u keeps [OF update_ack_keeps]
      by (auto simp: unless_thrown_def ps_ack_def mapr_def split: sum.split)
  next
    case (PsNack p e)
    then show ?thesis using u keeps [OF update_ack_keeps]
      by (auto simp: unless_thrown_def ps_nack_def ps_ack_def mapr_def split: sum.split)
  next
    case (PsMaintain p)
    then show ?thesis using u keeps [OF delete_acked_keeps]
      by (auto simp: unless_thrown_def maintain_def table_exists mapr_def split: sum.split)
  qed (use u in \<open>auto simp: ps_unseeded_def unless_thrown_def set_recent_eid_def spend_peer_def wipe_on_destroy_def mapr_def split: sum.split\<close>)
qed

end

subsection \<open>The outbox of a peer\<close>

text \<open>What a storage keeps for one addressee, abstractly: the number of the last envelope and the envelopes
  without an acknowledgement, oldest first.\<close>

type_synonym outbox = "envelope_id \<times> (envelope_id \<times> bytes) list"

datatype outbox_op = ObSave bytes | ObAck envelope_id | ObNack envelope_id | ObMaintain | ObMeet | ObSpend

definition without_eid :: "envelope_id \<Rightarrow> (envelope_id \<times> bytes) list \<Rightarrow> (envelope_id \<times> bytes) list" where
  "without_eid i rows = filter (\<lambda>r. fst r \<noteq> i) rows"

fun outbox_step :: "outbox_op \<Rightarrow> outbox \<Rightarrow> envelope_id option \<times> outbox" where
  "outbox_step (ObSave m) (e, rows) = (Some (eid_next e), (eid_next e, rows @ [(eid_next e, m)]))"
| "outbox_step (ObAck i) (e, rows) = (None, (e, without_eid i rows))"
| "outbox_step (ObNack i) (e, rows) = (None, (e, without_eid i rows))"
| "outbox_step x b = (None, b)"

fun outbox_run :: "outbox_op list \<Rightarrow> outbox \<Rightarrow> envelope_id option list \<times> outbox" where
  "outbox_run [] b = ([], b)"
| "outbox_run (x # xs) b = (case outbox_step x b of (o1, b) \<Rightarrow> map_prod (Cons o1) id (outbox_run xs b))"

text \<open>The same operations on the storage.\<close>

fun ps_outbox_op ::
  "('d, 'k) db_ops \<Rightarrow> peer_id \<Rightarrow> outbox_op \<Rightarrow> ('d, 'k) persistent_storage \<Rightarrow>
    (envelope_id option \<times> ('d, 'k) persistent_storage) result" where
  "ps_outbox_op db p (ObSave m) s = (case ps_save db p m s of (r, s) \<Rightarrow> mapr (\<lambda>e. (Some e, s)) r)"
| "ps_outbox_op db p (ObAck i) s = mapr (Pair None) (ps_ack db p i s)"
| "ps_outbox_op db p (ObNack i) s = mapr (Pair None) (ps_nack db p i s)"
| "ps_outbox_op db p ObMaintain s = mapr (Pair None) (maintain db p s)"
| "ps_outbox_op db p ObMeet s = (case meet_peer db p s of (r, s) \<Rightarrow> mapr (\<lambda>u. (None, s)) r)"
| "ps_outbox_op db p ObSpend s = mapr (Pair None) (spend_peer db p s)"

fun ps_outbox_run ::
  "('d, 'k) db_ops \<Rightarrow> peer_id \<Rightarrow> outbox_op list \<Rightarrow> ('d, 'k) persistent_storage \<Rightarrow>
    (envelope_id option list \<times> ('d, 'k) persistent_storage) result" where
  "ps_outbox_run db p [] s = Inr ([], s)"
| "ps_outbox_run db p (x # xs) s =
     bindr (ps_outbox_op db p x s) (\<lambda>(o1, s). mapr (map_prod (Cons o1) id) (ps_outbox_run db p xs s))"

definition ps_outbox :: "('d, 'k) db_view \<Rightarrow> peer_id \<Rightarrow> ('d, 'k) persistent_storage \<Rightarrow> outbox \<Rightarrow> bool" where
  "ps_outbox v p s b \<longleftrightarrow> (case b of (e, rows) \<Rightarrow>
     (let d = ps_delivery_db s
      in dv_has_eids v d \<and> dv_eids v d p = Some e \<and> ps_peers s p \<in> {None, Some \<lparr>pi_eid = e\<rparr>} \<and> e < 2 ^ 63 \<and>
        (\<exists>T. dv_table v d p = Some T \<and> (\<forall>k\<in>dom T. k \<le> e) \<and> set rows = unacked_rows T \<and> sorted_wrt (<) (map fst rows))))"

lemma ps_outboxI:
  assumes "dv_has_eids v (ps_delivery_db s)" "dv_eids v (ps_delivery_db s) p = Some e"
    and "ps_peers s p \<in> {None, Some \<lparr>pi_eid = e\<rparr>}" and "e < 2 ^ 63" and "dv_table v (ps_delivery_db s) p = Some T"
    and "\<forall>k\<in>dom T. k \<le> e" and "set rows = unacked_rows T" and "sorted_wrt (<) (map fst rows)"
  shows "ps_outbox v p s (e, rows)"
  using assms by (simp add: ps_outbox_def)

lemma ps_outboxE:
  assumes "ps_outbox v p s (e, rows)"
  obtains T where "dv_has_eids v (ps_delivery_db s)" "dv_eids v (ps_delivery_db s) p = Some e"
    and "ps_peers s p \<in> {None, Some \<lparr>pi_eid = e\<rparr>}" and "e < 2 ^ 63" and "dv_table v (ps_delivery_db s) p = Some T"
    and "\<forall>k\<in>dom T. k \<le> e" and "set rows = unacked_rows T" and "sorted_wrt (<) (map fst rows)"
  using assms by (auto simp: ps_outbox_def Let_def)

lemma eid_next_above:
  assumes "e < (2 ^ 63 :: envelope_id)"
  shows "e < eid_next e" "unat (eid_next e) = Suc (unat e)"
proof -
  have "1 + e \<noteq> 0" using assms by (auto simp: add_eq_0_iff)
  then show "unat (eid_next e) = Suc (unat e)" using unatSuc [of e] by (simp add: eid_next_def add.commute)
  then show "e < eid_next e" by (simp add: word_less_nat_alt)
qed

lemma rows_unique:
  assumes "set rs = unacked_rows T" "sorted_wrt (<) (map fst rs)" "set rs' = unacked_rows T" "sorted_wrt (<) (map fst rs')"
  shows "rs = rs'"
proof (rule map_sorted_distinct_set_unique [of fst])
  show "inj_on fst (set rs \<union> set rs')" using assms(1,3) by (auto simp: inj_on_def unacked_rows_def)
qed (use assms in \<open>auto simp: strict_sorted_iff\<close>)

lemma unacked_update_ack:
  assumes "set rows = unacked_rows T"
  shows "set (without_eid i rows) = unacked_rows (case T i of None \<Rightarrow> T | Some (b, _) \<Rightarrow> T(i \<mapsto> (b, True)))"
  using assms by (auto simp: without_eid_def unacked_rows_def split: option.split if_splits)

lemma without_sorted: "sorted_wrt (<) (map fst rows) \<Longrightarrow> sorted_wrt (<) (map fst (without_eid i rows))"
  unfolding without_eid_def sorted_wrt_map by (rule sorted_wrt_filter)

lemma unacked_delete_acked: "unacked_rows (\<lambda>e. case T e of Some (b, True) \<Rightarrow> None | r \<Rightarrow> r) = unacked_rows T"
  by (auto simp: unacked_rows_def split: option.splits bool.splits)

lemma outbox_next_insert:
  assumes "set rows = unacked_rows T" "sorted_wrt (<) (map fst rows)" "\<forall>k\<in>dom T. k \<le> e" "e < 2 ^ 63"
  shows "T (eid_next e) = None"
    and "set (rows @ [(eid_next e, m)]) = unacked_rows (T(eid_next e \<mapsto> (m, False)))"
    and "sorted_wrt (<) (map fst (rows @ [(eid_next e, m)]))"
proof -
  note above = eid_next_above [OF assms(4)]
  show none: "T (eid_next e) = None"
  proof (rule ccontr)
    assume "T (eid_next e) \<noteq> None"
    then have "eid_next e \<le> e" using assms(3) by blast
    with above(1) show False by simp
  qed
  then show "set (rows @ [(eid_next e, m)]) = unacked_rows (T(eid_next e \<mapsto> (m, False)))"
    using assms(1) by (auto simp: unacked_rows_def split: if_splits)
  have "k < eid_next e" if "(k, b) \<in> set rows" for k b
  proof -
    have "k \<in> dom T" using that assms(1) by (auto simp: unacked_rows_def)
    with assms(3) above(1) show ?thesis by (meson order.strict_trans1)
  qed
  then show "sorted_wrt (<) (map fst (rows @ [(eid_next e, m)]))"
    using assms(2) by (auto simp: sorted_wrt_append)
qed

context storage_dbs
begin

lemma outbox_again:
  assumes "ps_outbox v p s (e, rows)"
  shows "again db p s = Inr rows"
proof -
  obtain T where T: "e < 2 ^ 63" "dv_table v (ps_delivery_db s) p = Some T" "\<forall>k\<in>dom T. k \<le> e"
    "set rows = unacked_rows T" "sorted_wrt (<) (map fst rows)" using assms by (rule ps_outboxE)
  then have "small_table T" by (force simp: small_table_def)
  with T obtain rs where "sql_select_unacked db p (ps_delivery_db s) = Inr rs" "set rs = unacked_rows T"
    "sorted_wrt (<) (map fst rs)" using select_unacked by blast
  with T show ?thesis using rows_unique by (auto simp: again_def for_each_unacked_def)
qed

lemma outbox_meet:
  assumes "ps_outbox v p s (e, rows)"
  shows "\<exists>d. create_delivary_table db p s = Inr (s\<lparr>ps_delivery_db := d\<rparr>) \<and>
    ps_outbox v p (s\<lparr>ps_delivery_db := d\<rparr>) (e, rows) \<and> fetch_recent_eid db p (s\<lparr>ps_delivery_db := d\<rparr>) = Inr e"
proof -
  obtain T where T: "dv_eids v (ps_delivery_db s) p = Some e" "dv_table v (ps_delivery_db s) p = Some T"
    "ps_peers s p \<in> {None, Some \<lparr>pi_eid = e\<rparr>}" "e < 2 ^ 63"  "\<forall>k\<in>dom T. k \<le> e"
    "set rows = unacked_rows T" "sorted_wrt (<) (map fst rows)" using assms by (rule ps_outboxE)
  with create_table [of p s] obtain d where d: "create_delivary_table db p s = Inr (s\<lparr>ps_delivery_db := d\<rparr>)"
    "dv_has_eids v d" "dv_eids v d p = Some e" "dv_table v d p = Some T" by auto
  with T have "ps_outbox v p (s\<lparr>ps_delivery_db := d\<rparr>) (e, rows)" by (intro ps_outboxI) simp_all
  with d show ?thesis by (intro exI [of _ d]) (simp add: fetch_row)
qed

lemma outbox_save:
  assumes "ps_outbox v p s (e, rows)" and "eid_next e < 2 ^ 63"
  shows "\<exists>s'. ps_save db p m s = (Inr (eid_next e), s') \<and> ps_outbox v p s' (eid_next e, rows @ [(eid_next e, m)])"
proof -
  obtain d where s1: "saved_eid db p s = (Inr e, s\<lparr>ps_delivery_db := d\<rparr>)" "ps_outbox v p (s\<lparr>ps_delivery_db := d\<rparr>) (e, rows)"
  proof (cases "ps_peers s p")
    case None
    with outbox_meet [OF assms(1)] show thesis by (auto simp: saved_eid_def intro: that)
  next
    case (Some i)
    moreover have "pi_eid i = e" by (rule ps_outboxE [OF assms(1)]) (use Some in auto)
    ultimately show thesis using assms(1) by (intro that [of "ps_delivery_db s"]) (simp_all add: saved_eid_def)
  qed
  from s1(2) obtain T where T: "dv_has_eids v d" "dv_eids v d p = Some e" "dv_table v d p = Some T" "e < 2 ^ 63"
    "\<forall>k\<in>dom T. k \<le> e" "set rows = unacked_rows T" "sorted_wrt (<) (map fst rows)" by (auto elim: ps_outboxE)
  note nx = outbox_next_insert [OF T(6,7,5,4)]
  obtain d1 where d1: "sql_insert db p (eid_next e) m False d = Inr d1"
    "dv_table v d1 = (dv_table v d)(p \<mapsto> T(eid_next e \<mapsto> (m, False)))" using insert_row [OF T(3) nx(1)] by blast
  with T(1) insert_keeps [of p "eid_next e" m False] have "dv_has_eids v d1" by (simp add: keeps_eids_def)
  from replace_eid [OF this] obtain d2 where d2: "sql_replace_eid db p (eid_next e) d1 = Inr d2" "dv_has_eids v d2"
    "dv_table v d2 = dv_table v d1" "dv_eids v d2 = (dv_eids v d1)(p \<mapsto> eid_next e)" by blast
  let ?s = "s\<lparr>ps_delivery_db := d2, ps_peers := (ps_peers s)(p \<mapsto> \<lparr>pi_eid = eid_next e\<rparr>)\<rparr>"
  have "sql_transaction db (\<lambda>d. bindr (sql_insert db p (eid_next e) m False d) (sql_replace_eid db p (eid_next e))) d = Inr d2"
    by (rule transaction_commits) (simp add: d1 d2)
  then have "ps_save db p m s = (Inr (eid_next e), ?s)" by (simp add: ps_save_def s1(1) Let_def)
  moreover have "ps_outbox v p ?s (eid_next e, rows @ [(eid_next e, m)])"
  proof (rule ps_outboxI [where T = "T(eid_next e \<mapsto> (m, False))"])
    show "\<forall>k\<in>dom (T(eid_next e \<mapsto> (m, False))). k \<le> eid_next e"
      using T(5) eid_next_above(1) [OF T(4)] by (auto intro: order.trans less_imp_le)
  qed (use assms(2) d1 d2 nx in simp_all)
  ultimately show ?thesis by blast
qed

lemma outbox_ack:
  assumes "ps_outbox v p s (e, rows)"
  shows "\<exists>s'. ps_ack db p i s = Inr s' \<and> ps_outbox v p s' (e, without_eid i rows)"
proof -
  let ?d = "ps_delivery_db s"
  obtain T where T: "dv_has_eids v ?d" "dv_eids v ?d p = Some e" "dv_table v ?d p = Some T"
    "ps_peers s p \<in> {None, Some \<lparr>pi_eid = e\<rparr>}" "e < 2 ^ 63"  "\<forall>k\<in>dom T. k \<le> e"
    "set rows = unacked_rows T" "sorted_wrt (<) (map fst rows)" using assms(1) by (rule ps_outboxE)
  let ?T = "case T i of None \<Rightarrow> T | Some (b, _) \<Rightarrow> T(i \<mapsto> (b, True))"
  obtain d where d: "sql_update_ack db p True i ?d = Inr d" "dv_table v d = (dv_table v ?d)(p \<mapsto> ?T)"
    using update_ack [OF T(3)] by blast
  with update_ack_keeps [of p True i] have "dv_eids v d = dv_eids v ?d \<and> dv_has_eids v d = dv_has_eids v ?d"
    by (auto simp: keeps_eids_def)
  moreover have "\<forall>k\<in>dom ?T. k \<le> e" using T(6) by (auto split: option.splits if_splits)
  ultimately have "ps_outbox v p (s\<lparr>ps_delivery_db := d\<rparr>) (e, without_eid i rows)"
    using T d by (intro ps_outboxI [where T = ?T]) (simp_all add: unacked_update_ack without_sorted)
  with d show ?thesis by (simp add: ps_ack_def)
qed

lemma outbox_op:
  assumes "ps_outbox v p s (e, rows)" and "eid_next e < 2 ^ 63"
  shows "\<exists>s'. ps_outbox_op db p x s = Inr (fst (outbox_step x (e, rows)), s') \<and>
    ps_outbox v p s' (snd (outbox_step x (e, rows)))"
proof -
  let ?d = "ps_delivery_db s"
  obtain T where T: "dv_has_eids v ?d" "dv_eids v ?d p = Some e" "dv_table v ?d p = Some T"
    "ps_peers s p \<in> {None, Some \<lparr>pi_eid = e\<rparr>}" "e < 2 ^ 63"  "\<forall>k\<in>dom T. k \<le> e"
    "set rows = unacked_rows T" "sorted_wrt (<) (map fst rows)" using assms(1) by (rule ps_outboxE)
  note ack = outbox_ack [OF assms(1)]
  show ?thesis
  proof (cases x)
    case (ObSave m)
    then show ?thesis using outbox_save [OF assms, of m] by auto
  next
    case (ObAck i)
    then show ?thesis using ack [of i] by auto
  next
    case (ObNack i)
    then show ?thesis using ack [of i] by (auto simp: ps_nack_def)
  next
    case ObMaintain
    let ?T = "\<lambda>e. case T e of Some (b, True) \<Rightarrow> None | r \<Rightarrow> r"
    obtain d where d: "sql_delete_acked db p ?d = Inr d" "dv_table v d = (dv_table v ?d)(p \<mapsto> ?T)"
      using delete_acked [OF T(3)] by blast
    with delete_acked_keeps [of p] have "dv_eids v d = dv_eids v ?d \<and> dv_has_eids v d = dv_has_eids v ?d"
      by (auto simp: keeps_eids_def)
    moreover have "\<forall>k\<in>dom ?T. k \<le> e" using T(6) by (auto split: option.splits bool.splits)
    ultimately have "ps_outbox v p (s\<lparr>ps_delivery_db := d\<rparr>) (e, rows)"
      using T d by (intro ps_outboxI [where T = ?T]) (simp_all add: unacked_delete_acked)
    with d T(3) ObMaintain show ?thesis by (simp add: maintain_def table_exists)
  next
    case ObMeet
    obtain d where d: "create_delivary_table db p s = Inr (s\<lparr>ps_delivery_db := d\<rparr>)"
      "ps_outbox v p (s\<lparr>ps_delivery_db := d\<rparr>) (e, rows)" "fetch_recent_eid db p (s\<lparr>ps_delivery_db := d\<rparr>) = Inr e"
      using outbox_meet [OF assms(1)] by blast
    from d(2) have "ps_outbox v p (s\<lparr>ps_delivery_db := d, ps_peers := (ps_peers s)(p \<mapsto> \<lparr>pi_eid = e\<rparr>)\<rparr>) (e, rows)"
      by (rule ps_outboxE) (rule ps_outboxI, simp_all)
    with d ObMeet show ?thesis by (simp add: meet_peer_def)
  next
    case ObSpend
    have "ps_outbox v p (s\<lparr>ps_peers := (ps_peers s)(p := None)\<rparr>) (e, rows)"
      using T by (intro ps_outboxI [where T = T]) simp_all
    with ObSpend show ?thesis by (simp add: spend_peer_def)
  qed
qed

lemma outbox_nack:
  assumes "ps_outbox v p s (e, rows)"
  shows "\<exists>s'. ps_nack db p i s = Inr s' \<and> ps_outbox v p s' (e, without_eid i rows)"
  using outbox_ack [OF assms] by (simp add: ps_nack_def)

lemma outbox_simulation:
  assumes "ps_outbox v p s b" and "unat (fst b) + length xs < 2 ^ 63"
  shows "\<exists>s'. ps_outbox_run db p xs s = Inr (fst (outbox_run xs b), s') \<and> ps_outbox v p s' (snd (outbox_run xs b))"
  using assms
proof (induction xs arbitrary: s b)
  case Nil
  then show ?case by simp
next
  case (Cons x xs)
  obtain e rows where b: "b = (e, rows)" by (cases b)
  from Cons.prems b have e: "e < 2 ^ 63" by (auto elim: ps_outboxE)
  note n = eid_next_above [OF e]
  have "unat (eid_next e) < 2 ^ 63" using n(2) Cons.prems(2) b by simp
  then have nx: "eid_next e < 2 ^ 63" by (simp add: word_less_nat_alt)
  from outbox_op [OF Cons.prems(1) [unfolded b] nx, of x] obtain s1 where
    s1: "ps_outbox_op db p x s = Inr (fst (outbox_step x b), s1)" "ps_outbox v p s1 (snd (outbox_step x b))"
    unfolding b by blast
  have "unat (fst (snd (outbox_step x b))) \<le> Suc (unat e)"
    using n(2) by (cases x) (simp_all add: b)
  with Cons.prems(2) b have "unat (fst (snd (outbox_step x b))) + length xs < 2 ^ 63" by simp
  from Cons.IH [OF s1(2) this] s1(1) show ?case by (auto simp: case_prod_unfold)
qed

end

subsection \<open>Properties\<close>

text \<open>C5. Whatever payload envelopes of a peer reach the reliable engine, in whatever order and however often
  repeated, what the engine reports is a run of consecutive numbers that begins after the last one received, in order, each
  once: no message is reported twice, none before its predecessor and none after a gap; and the engine stores the number
  of the last one reported. An envelope that arrives before its predecessor was reported is not kept: it is reported
  only if it arrives again later (\<open>rl_gap_not_retransmitted\<close>). If the delivery engine takes every acknowledgement, the
  number of messages reported is that of the arrivals that each continue the numbering (\<open>in_order\<close>).\<close>

theorem rl_exactly_once_in_order:
  assumes "byte_streams (rc_io cfg) w" and "storage_dbs db v" and "rc_storage cfg = storage_of db"
    and "recent_of v (rl_storage r) p = e"
  shows "\<exists>r' n. rl_feed cfg p (map (\<lambda>k. payload_envelope (rc_io cfg) k (msg k)) ks) r = Inr r' \<and>
    rl_events r' = rl_events r @ map (\<lambda>j. RlDataReceived p (msg (e + of_nat (Suc j)))) [0..<n] \<and>
    recent_of v (rl_storage r') p = e + of_nat n \<and> (takes_all cfg \<longrightarrow> n = in_order e ks)"
  using storage_dbs.payloads_received [OF assms(2,1,3), of p msg ks r] assms(4) by auto

definition example_cfg :: "(mem_stream, (mem_db, (peer_id \<times> envelope_id) list) persistent_storage, bytes list) rl_cfg" where
  "example_cfg = \<lparr>rc_io = be_streams, rc_storage = storage_of mem_ops, rc_enqueue = (\<lambda>p out e. (True, e @ [out]))\<rparr>"

definition example_storage :: "(mem_db, (peer_id \<times> envelope_id) list) persistent_storage" where
  "example_storage = \<lparr>ps_wipe_on_destroy = False,
     ps_delivery_db = \<lparr>md_tables = [], md_has_eids = False, md_eids = []\<rparr>, ps_ack_db = [], ps_peers = Map.empty\<rparr>"

definition example_engine :: "((mem_db, (peer_id \<times> envelope_id) list) persistent_storage, bytes list) reliable_engine" where
  "example_engine = \<lparr>rl_storage = example_storage, rl_engine = [], rl_events = []\<rparr>"

lemma rl_exactly_once_in_order_witness:
  "\<exists>r'. rl_feed example_cfg 7 (map (\<lambda>k. payload_envelope be_streams k [if k = 1 then 11 else 22]) [2, 1, 1, 2, 1])
      example_engine = Inr r' \<and> rl_events r' = [RlDataReceived 7 [11], RlDataReceived 7 [22]]"
proof -
  let ?msg = "\<lambda>k :: envelope_id. [if k = 1 then 11 else 22 :: byte]"
  have cfg: "rc_io example_cfg = be_streams" "rc_storage example_cfg = storage_of mem_ops" "takes_all example_cfg"
    by (simp_all add: takes_all_def example_cfg_def)
  have r: "recent_of mem_db_view (rl_storage example_engine) 7 = 0" "rl_events example_engine = []"
    by (simp_all add: recent_of_def example_engine_def example_storage_def mem_db_view_def eid_initial_def)
  have "in_order 0 [2, 1, 1, 2, 1] = 2" by (simp add: eid_next_def)
  with rl_exactly_once_in_order [of example_cfg mem_view mem_ops mem_db_view example_engine 7 0 ?msg "[2, 1, 1, 2, 1]"]
  obtain r' where "rl_feed example_cfg 7 (map (\<lambda>k. payload_envelope be_streams k (?msg k)) [2, 1, 1, 2, 1]) example_engine = Inr r'"
    and "rl_events r' = map (\<lambda>j. RlDataReceived 7 (?msg (0 + of_nat (Suc j)))) [0..<2]"
    using cfg r mem.storage_dbs_axioms be.byte_streams_axioms by auto
  then show ?thesis by (intro exI [of _ r']) (simp add: upt_rec)
qed

text \<open>A gap is never filled: an envelope further ahead is answered with an envelope of type \<open>nack\<close> that
  holds the last number received, although it stands for a request to send again, and the peer that gets
  it only marks that envelope as acknowledged and sends nothing.\<close>

theorem rl_gap_not_retransmitted:
  assumes "byte_streams (rc_io cfg) w" and "storage_dbs db v" and "rc_storage cfg = storage_of db"
    and "recent_of v (rl_storage r) p = e" and "e < k" and "k \<noteq> eid_next e"
    and "ps_outbox v q (rl_storage s) (f, rows)"
  shows "process_data_received cfg p (payload_envelope (rc_io cfg) k m) r =
      Inr (snd (rl_base_enqueue cfg p (header_bytes (rc_io cfg) EtNack e) r)) \<and>
    (\<exists>s'. process_data_received cfg q (header_bytes (rc_io cfg) EtNack e) s = Inr s' \<and>
      rl_engine s' = rl_engine s \<and> rl_events s' = rl_events s \<and> again db q (rl_storage s') = Inr (without_eid e rows))"
proof
  have "st_recent_eid (storage_of db) p (rl_storage r) = Inr e"
    using storage_dbs.recent_get [OF assms(2)] assms(4) by (simp add: storage_of_def recent_eid_def recent_of_def)
  then show "process_data_received cfg p (payload_envelope (rc_io cfg) k m) r =
      Inr (snd (rl_base_enqueue cfg p (header_bytes (rc_io cfg) EtNack e) r))"
    using assms(3,5,6) by (simp add: received_payload [OF assms(1)] rl_payload_received_def check_eid_sequence_def
      eid_eq_def eid_less_or_eq_def rl_enqueue_again_def)
  obtain s' where s': "ps_nack db q e (rl_storage s) = Inr s'" "ps_outbox v q s' (f, without_eid e rows)"
    using storage_dbs.outbox_nack [OF assms(2,7), of e] by blast
  then have "process_data_received cfg q (header_bytes (rc_io cfg) EtNack e) s = Inr (s\<lparr>rl_storage := s'\<rparr>)"
    using received_nack [OF assms(1), of q e s] assms(3) by (simp add: storage_of_def)
  with storage_dbs.outbox_again [OF assms(2) s'(2)]
  show "\<exists>s'. process_data_received cfg q (header_bytes (rc_io cfg) EtNack e) s = Inr s' \<and>
      rl_engine s' = rl_engine s \<and> rl_events s' = rl_events s \<and> again db q (rl_storage s') = Inr (without_eid e rows)"
    by simp
qed

definition seeded_storage :: "(mem_db, (peer_id \<times> envelope_id) list) persistent_storage" where
  "seeded_storage = example_storage\<lparr>ps_delivery_db :=
     \<lparr>md_tables = [(9, [(5, [1], False), (6, [2], False)])], md_has_eids = True, md_eids = [(9, 6)]\<rparr>\<rparr>"

lemma seeded_outbox: "ps_outbox mem_db_view 9 seeded_storage (6, [(5, [1]), (6, [2])])"
  by (rule ps_outboxI [where T = "map_of [(5, [1], False), (6, [2], False)]"])
    (auto simp: seeded_storage_def mem_db_view_def example_storage_def unacked_rows_def split: if_splits)

lemma rl_gap_not_retransmitted_witness:
  "process_data_received example_cfg 7 (payload_envelope be_streams 3 [42]) example_engine =
     Inr (snd (rl_base_enqueue example_cfg 7 (header_bytes be_streams EtNack 0) example_engine))"
  using rl_gap_not_retransmitted [of example_cfg mem_view mem_ops mem_db_view example_engine 7 0 3 9
      "example_engine\<lparr>rl_storage := seeded_storage\<rparr>" 6 "[(5, [1]), (6, [2])]" "[42]"]
    mem.storage_dbs_axioms be.byte_streams_axioms seeded_outbox
  by (simp add: example_cfg_def recent_of_def example_engine_def example_storage_def mem_db_view_def
      eid_initial_def eid_next_def)

text \<open>On new databases no envelope can ever be saved and no peer met: whatever operations ran before,
  \<open>save\<close> and \<open>meet_peer\<close> throw, since the number of the last envelope of a peer is written only by a
  \<open>save\<close> that has read it.\<close>

theorem ps_fresh_never_saves:
  assumes "storage_dbs db v" and "ps_unseeded v s"
  shows "fst (ps_save db p data (fold (ps_run_op db) ops s)) = Inl (Thrown Unexpected_error) \<and>
    fst (meet_peer db p (fold (ps_run_op db) ops s)) = Inl (Thrown Unexpected_error)"
proof -
  have "ps_unseeded v (fold (ps_run_op db) ops s)"
    using assms by (induction ops arbitrary: s) (simp_all add: storage_dbs.unseeded_op)
  from storage_dbs.unseeded_throws [OF assms(1) this, of p data] show ?thesis by (metis fst_conv)
qed

lemma ps_fresh_never_saves_witness:
  "fst (ps_save mem_ops 3 [1] (fold (ps_run_op mem_ops) [PsMeet 3, PsSave 3 [9], PsAck 3 1] example_storage)) =
     Inl (Thrown Unexpected_error)"
  using ps_fresh_never_saves [of mem_ops mem_db_view example_storage 3 "[1]" "[PsMeet 3, PsSave 3 [9], PsAck 3 1]"]
    mem.storage_dbs_axioms by (simp add: ps_unseeded_def example_storage_def mem_db_view_def)

text \<open>Once the number of the last envelope of a peer is stored (by another program, see above), the storage is an outbox: over any sequence
  of \<open>save\<close>, \<open>ack\<close>, \<open>nack\<close>, \<open>maintain\<close>, \<open>meet_peer\<close> and \<open>spend_peer\<close> nothing is thrown, the numbers given
  are consecutive, and \<open>again\<close> gives the envelopes without an acknowledgement, oldest first. The bound is
  that of the ordering of numbers in the database.\<close>

theorem ps_refines_outbox:
  assumes "storage_dbs db v" and "ps_outbox v p s b" and "unat (fst b) + length xs < 2 ^ 63"
  shows "\<exists>s'. ps_outbox_run db p xs s = Inr (fst (outbox_run xs b), s') \<and>
    ps_outbox v p s' (snd (outbox_run xs b)) \<and> again db p s' = Inr (snd (snd (outbox_run xs b)))"
  using storage_dbs.outbox_simulation [OF assms] storage_dbs.outbox_again [OF assms(1)]
  by (metis prod.collapse)

lemma ps_refines_outbox_witness:
  "\<exists>s'. ps_outbox_run mem_ops 9 [ObSave [3], ObAck 6, ObSpend, ObSave [4], ObMaintain] seeded_storage =
      Inr ([Some 7, None, None, Some 8, None], s') \<and> again mem_ops 9 s' = Inr [(5, [1]), (7, [3]), (8, [4])]"
  using ps_refines_outbox [OF mem.storage_dbs_axioms seeded_outbox, of "[ObSave [3], ObAck 6, ObSpend, ObSave [4], ObMaintain]"]
  by (auto simp add: eid_next_def without_eid_def simp del: ps_outbox_run.simps)

end
