(* ===== verification/DiscoveryEngine.thy ===== *)
theory DiscoveryEngine
  imports P2PPacket WriterPool Inet4Addr
begin

text \<open>
  \<open>discovery_engine\<close> (include/pfs/netty/p2p/discovery_engine.hpp) with its backend for UDP sockets
  (src/p2p/posix/discovery_engine.cpp) and \<open>host4_addr\<close>: hello packets are broadcast to the targets that are
  due, and peers are discovered by the hello packets received, and expire.

  The readings of the steady clock (nanoseconds) and of the UTC clock (milliseconds), the outcomes of
  \<open>send_to\<close> and the datagrams received are arguments; the callbacks are events. Whether the deprecated
  callbacks \<open>peer_discovered\<close> and \<open>peer_expired\<close> are set makes no difference for what is reported.
\<close>

subsection \<open>\<open>host4_addr\<close>\<close>

record host4_addr =
  ha_host_id :: universal_id
  ha_saddr :: socket4_addr

definition host4_eq :: "host4_addr \<Rightarrow> host4_addr \<Rightarrow> bool" where
  "host4_eq a b \<longleftrightarrow> ha_host_id a = ha_host_id b \<and> ha_saddr a = ha_saddr b"

definition host4_neq :: "host4_addr \<Rightarrow> host4_addr \<Rightarrow> bool" where
  "host4_neq a b \<longleftrightarrow> ha_host_id a \<noteq> ha_host_id b \<and> ha_saddr a \<noteq> ha_saddr b"

lemma host4_neither:
  "host4_neq a b \<longleftrightarrow> \<not> host4_eq a b \<and> ha_host_id a \<noteq> ha_host_id b \<and> ha_saddr a \<noteq> ha_saddr b"
  "ha_host_id a = ha_host_id b \<Longrightarrow> ha_saddr a \<noteq> ha_saddr b \<Longrightarrow> \<not> host4_eq a b \<and> \<not> host4_neq a b"
  by (auto simp: host4_neq_def host4_eq_def)

subsection \<open>The engine\<close>

definition max_transmit_interval_seconds :: int where
  "max_transmit_interval_seconds = 300"

definition min_transmit_interval_seconds :: int where
  "min_transmit_interval_seconds = 1"

text \<open>\<open>clock_type::time_point::max ()\<close>\<close>

definition time_max :: time_point where
  "time_max = 2 ^ 63 - 1"

record dc_options =
  do_timestamp_error_limit :: int
  do_host_port :: u16
  do_series_of_retries :: int

record target_item =
  tg_saddr :: socket4_addr
  tg_counter :: u32
  tg_transmit_interval :: int
  tg_expiration_interval :: int
  tg_transmit_timepoint :: time_point
  tg_last_send_status :: send_status

record peer_credentials =
  pc_saddr :: socket4_addr
  pc_expiration_timepoint :: time_point
  pc_timediff :: int

datatype dc_event =
    DcFailure errc
  | DcDiscovered universal_id socket4_addr int
  | DcTimediff universal_id int
  | DcExpired universal_id socket4_addr
  | DcSent socket4_addr bytes

text \<open>\<open>dc_receivers\<close> and \<open>dc_senders\<close> are the sockets of the backend: of the receivers the identifiers, of the
  senders the targets. A datagram handed to the system is an event too.\<close>

record discovery_engine =
  dc_host_uuid :: universal_id
  dc_opts :: dc_options
  dc_nearest :: time_point
  dc_targets :: "target_item list"
  dc_peers :: "(universal_id \<times> peer_credentials) list"
  dc_deferred :: "universal_id list"
  dc_receivers :: "socket_id list"
  dc_senders :: "socket4_addr list"
  dc_events :: "dc_event list"

definition dc_emit :: "dc_event \<Rightarrow> discovery_engine \<Rightarrow> discovery_engine" where
  "dc_emit e d = d\<lparr>dc_events := dc_events d @ [e]\<rparr>"


subsection \<open>Hello packets received\<close>

text \<open>Differences of times are 64-bit integers; overflow is undefined.\<close>

definition i64 :: "int \<Rightarrow> int result" where
  "i64 x = (if - (2 ^ 63) \<le> x \<and> x < 2 ^ 63 then Inr x else Inl Undefined)"

definition process_hello_packet ::
  "crc_ops \<Rightarrow> time_point \<Rightarrow> int \<Rightarrow> socket4_addr \<Rightarrow> hello_packet \<Rightarrow> discovery_engine \<Rightarrow> discovery_engine result" where
  "process_hello_packet crc now utc saddr packet d =
     (if hl_crc16 packet = hl_crc16_of crc packet then
        (if hl_uuid packet \<noteq> dc_host_uuid d then
           (let expiration = now + seconds (uint (hl_expiration_interval packet));
                from = \<lparr>sa_addr = sa_addr saddr, sa_port = hl_port packet\<rparr>
            in bindr (i64 (utc - sint (hl_timestamp packet))) (\<lambda>timediff.
               (case map_of (dc_peers d) (hl_uuid packet) of
                  None \<Rightarrow>
                    Inr (dc_emit (DcDiscovered (hl_uuid packet) from timediff)
                      (d\<lparr>dc_peers := om_update (hl_uuid packet)
                          \<lparr>pc_saddr = from, pc_expiration_timepoint = expiration, pc_timediff = timediff\<rparr> (dc_peers d)\<rparr>))
                | Some c \<Rightarrow>
                    (if sa_addr (pc_saddr c) \<noteq> sa_addr saddr \<or> sa_port (pc_saddr c) \<noteq> hl_port packet then
                       Inr (dc_emit (DcExpired (hl_uuid packet) (pc_saddr c)) d)
                     else
                       (let c = c\<lparr>pc_expiration_timepoint := expiration\<rparr>
                        in bindr (i64 (if timediff > pc_timediff c then timediff - pc_timediff c else pc_timediff c - timediff))
                             (\<lambda>diffdiff.
                               (if diffdiff > do_timestamp_error_limit (dc_opts d) then
                                  Inr (dc_emit (DcTimediff (hl_uuid packet) timediff)
                                    (d\<lparr>dc_peers := om_update (hl_uuid packet) (c\<lparr>pc_timediff := timediff\<rparr>) (dc_peers d)\<rparr>))
                                else Inr (d\<lparr>dc_peers := om_update (hl_uuid packet) c (dc_peers d)\<rparr>))))))))
         else Inr d)
      else Inr (dc_emit (DcFailure Wrong_checksum) d))"

text \<open>The loop reads \<open>PACKET_SIZE\<close> bytes as long as any are left; with fewer it reads past the data. The clocks
  are read for each packet, by its number.\<close>

definition process_hello_data ::
  "'i streams \<Rightarrow> crc_ops \<Rightarrow> time_point \<times> int \<Rightarrow> socket4_addr \<Rightarrow> bytes \<Rightarrow> discovery_engine \<Rightarrow> discovery_engine result" where
  "process_hello_data io crc clk saddr chunk d =
     (let (packet, s) = hl_unpack io (in_open io chunk)
      in if hl_is_valid crc packet then process_hello_packet crc (fst clk) (snd clk) saddr packet d
         else Inr (dc_emit (DcFailure Bad_message) d))"

function hello_loop ::
  "'i streams \<Rightarrow> crc_ops \<Rightarrow> (nat \<Rightarrow> time_point \<times> int) \<Rightarrow> nat \<Rightarrow> socket4_addr \<Rightarrow> bytes \<Rightarrow> discovery_engine \<Rightarrow> discovery_engine result" where
  "hello_loop io crc clk k saddr data d =
     (if data = [] then Inr d
      else if length data < hello_packet_size then Inl Undefined
      else bindr (process_hello_data io crc (clk k) saddr (take hello_packet_size data) d)
             (hello_loop io crc clk (Suc k) saddr (drop hello_packet_size data)))"
  by pat_completeness auto
termination by (relation "measure (\<lambda>(io, crc, clk, k, saddr, data, d). length data)") (auto simp: hello_packet_size_def)

declare hello_loop.simps [simp del]

definition process_discovery_data ::
  "'i streams \<Rightarrow> crc_ops \<Rightarrow> (nat \<Rightarrow> time_point \<times> int) \<Rightarrow> socket4_addr \<Rightarrow> bytes \<Rightarrow> discovery_engine \<Rightarrow> discovery_engine result" where
  "process_discovery_data io crc clk saddr data d =
     (if length data < hello_packet_size then Inr d else hello_loop io crc clk 0 saddr data d)"


subsection \<open>The backend\<close>

text \<open>\<open>ready_read\<close>: the bytes available, and what \<open>recv_from\<close> reads and from whom. The buffer handed on has the
  length of the bytes available.\<close>

definition dc_ready_read :: "socket_id \<Rightarrow> int \<Rightarrow> int \<Rightarrow> bytes \<Rightarrow> discovery_engine \<Rightarrow> bytes option" where
  "dc_ready_read sock available bytes_read buffer d =
     (if sock \<in> set (dc_receivers d) \<and> available > 0 \<and> bytes_read > 0 then Some buffer else None)"


definition dc_has_receivers :: "discovery_engine \<Rightarrow> bool" where
  "dc_has_receivers d \<longleftrightarrow> dc_receivers d \<noteq> []"

definition dc_has_targets :: "discovery_engine \<Rightarrow> bool" where
  "dc_has_targets d \<longleftrightarrow> dc_senders d \<noteq> []"

text \<open>\<open>send\<close>: over the first sender for the address; without one nothing is sent and all is well.\<close>

definition dc_send ::
  "send_status \<times> errc \<Rightarrow> socket4_addr \<Rightarrow> bytes \<Rightarrow> discovery_engine \<Rightarrow> (send_status \<times> errc) \<times> discovery_engine" where
  "dc_send outcome saddr out d =
     (if saddr \<in> set (dc_senders d) then (outcome, dc_emit (DcSent saddr out) d) else ((SendGood, Success), d))"

subsection \<open>Hello packets sent\<close>

text \<open>For a multicast address the backend binds a sender that has no socket yet, which throws
  (\<open>set_multicast_interface\<close>): the engine then has the target, but the backend no sender for it. The outcome is given beside the
  engine that is left.\<close>

definition add_target ::
  "bool \<Rightarrow> time_point \<Rightarrow> socket4_addr \<Rightarrow> int \<Rightarrow> int \<Rightarrow> discovery_engine \<Rightarrow> errc option result \<times> discovery_engine" where
  "add_target perr now target_saddr transmit_interval expiration_interval d =
     (if transmit_interval < min_transmit_interval_seconds \<or> transmit_interval > max_transmit_interval_seconds \<or>
         expiration_interval < transmit_interval
      then (if perr then Inr (Some Invalid_argument) else Inl (Thrown Invalid_argument), d)
      else
        (let transmit_timepoint = now + seconds transmit_interval;
             d = d\<lparr>dc_nearest := min (dc_nearest d) transmit_timepoint,
               dc_targets := dc_targets d @ [\<lparr>tg_saddr = target_saddr, tg_counter = 0, tg_transmit_interval = transmit_interval,
                 tg_expiration_interval = expiration_interval, tg_transmit_timepoint = transmit_timepoint,
                 tg_last_send_status = SendGood\<rparr>]\<rparr>
         in if is_multicast (sa_addr target_saddr) then (Inl (Thrown Invalid_argument), d)
            else (Inr None, d\<lparr>dc_senders := dc_senders d @ [target_saddr]\<rparr>)))"

definition add_target_default ::
  "bool \<Rightarrow> time_point \<Rightarrow> socket4_addr \<Rightarrow> int \<Rightarrow> discovery_engine \<Rightarrow> errc option result \<times> discovery_engine" where
  "add_target_default perr now target_saddr transmit_interval d =
     add_target perr now target_saddr transmit_interval (max (transmit_interval * 3) 5) d"

text \<open>A multicast target is never sent to, and the engine takes every packet for it as sent.\<close>

lemma multicast_target_silent:
  assumes "is_multicast a" and "min_transmit_interval_seconds \<le> ti" "ti \<le> max_transmit_interval_seconds" "ti \<le> ei"
    and "\<lparr>sa_addr = a, sa_port = pt\<rparr> \<notin> set (dc_senders d)"
  shows "case add_target perr now \<lparr>sa_addr = a, sa_port = pt\<rparr> ti ei d of
    (r, d') \<Rightarrow> r = Inl (Thrown Invalid_argument) \<and> length (dc_targets d') = Suc (length (dc_targets d)) \<and>
      dc_send oc \<lparr>sa_addr = a, sa_port = pt\<rparr> out d' = ((SendGood, Success), d')"
  using assms by (simp add: add_target_def dc_send_def Let_def)

text \<open>The retries to one target; an outcome of each is given.\<close>

function send_retries ::
  "int \<Rightarrow> (nat \<Rightarrow> send_status \<times> errc) \<Rightarrow> nat \<Rightarrow> bytes \<Rightarrow> target_item \<Rightarrow> discovery_engine \<Rightarrow> target_item \<times> discovery_engine" where
  "send_retries series outcomes k out t d =
     (if series > 0 then
        (case dc_send (outcomes k) (tg_saddr t) out d of
           ((status, err), d) \<Rightarrow>
             (let series = series - 1;
                  (series, d) =
                    (if status = SendGood then (0, d)
                     else if tg_last_send_status t \<noteq> status then (0, dc_emit (DcFailure err) d)
                     else (series, d))
              in send_retries series outcomes (Suc k) out (t\<lparr>tg_last_send_status := status\<rparr>) d))
      else (t, d))"
  by pat_completeness auto
termination by (relation "measure (\<lambda>(series, outcomes, k, out, t, d). nat series)") (auto split: if_splits)

declare send_retries.simps [simp del]

text \<open>What the system answers while one target is served: the UTC time, the outcomes of sending and the steady
  time after.\<close>

record target_env =
  te_utc :: int
  te_outcomes :: "nat \<Rightarrow> send_status \<times> errc"
  te_after :: time_point

definition hello_for :: "crc_ops \<Rightarrow> int \<Rightarrow> target_item \<Rightarrow> discovery_engine \<Rightarrow> hello_packet" where
  "hello_for crc utc t d =
     (let p = \<lparr>hl_greeting = helo, hl_uuid = dc_host_uuid d, hl_port = do_host_port (dc_opts d),
           hl_expiration_interval = of_int (tg_expiration_interval t), hl_counter = tg_counter t,
           hl_timestamp = of_int utc, hl_crc16 = 0\<rparr>
      in p\<lparr>hl_crc16 := hl_crc16_of crc p\<rparr>)"

definition serve_target ::
  "'i streams \<Rightarrow> crc_ops \<Rightarrow> target_env \<Rightarrow> target_item \<Rightarrow> discovery_engine \<Rightarrow> (target_item \<times> discovery_engine) result" where
  "serve_target io crc env t d =
     (let t = t\<lparr>tg_counter := tg_counter t + 1\<rparr>;
          out = hl_pack io crc (hello_for crc (te_utc env) t d)
      in if length out \<noteq> hello_packet_size then Inl Terminated
         else
           (let (t, d) = send_retries (do_series_of_retries (dc_opts d)) (te_outcomes env) 0 out t d
            in Inr (t\<lparr>tg_transmit_timepoint := te_after env + seconds (tg_transmit_interval t)\<rparr>, d)))"

text \<open>The loop over the targets: those that are not due only count for the nearest time.\<close>

fun serve_targets ::
  "'i streams \<Rightarrow> crc_ops \<Rightarrow> time_point \<Rightarrow> (nat \<Rightarrow> target_env) \<Rightarrow> nat \<Rightarrow> target_item list \<Rightarrow> discovery_engine \<Rightarrow>
    (target_item list \<times> discovery_engine) result" where
  "serve_targets io crc now envs k [] d = Inr ([], d)"
| "serve_targets io crc now envs k (t # ts) d =
     bindr (if tg_transmit_timepoint t \<le> now then serve_target io crc (envs k) t d else Inr (t, d)) (\<lambda>(t, d).
     bindr (serve_targets io crc now envs (Suc k) ts (d\<lparr>dc_nearest := min (dc_nearest d) (tg_transmit_timepoint t)\<rparr>)) (\<lambda>(ts, d).
       Inr (t # ts, d)))"

definition broadcast_discovery_data ::
  "'i streams \<Rightarrow> crc_ops \<Rightarrow> time_point \<Rightarrow> (nat \<Rightarrow> target_env) \<Rightarrow> discovery_engine \<Rightarrow> discovery_engine result" where
  "broadcast_discovery_data io crc now envs d =
     (if dc_targets d = [] then Inr d
      else if dc_nearest d \<le> now then
        mapr (\<lambda>(ts, d). d\<lparr>dc_targets := ts\<rparr>)
          (serve_targets io crc now envs 0 (dc_targets d) (d\<lparr>dc_nearest := time_max\<rparr>))
      else Inr d)"

definition serialize_default_hello_packet :: "'i streams \<Rightarrow> crc_ops \<Rightarrow> int \<Rightarrow> discovery_engine \<Rightarrow> bytes" where
  "serialize_default_hello_packet io crc utc d =
     (let p = \<lparr>hl_greeting = helo, hl_uuid = dc_host_uuid d, hl_port = do_host_port (dc_opts d),
           hl_expiration_interval = of_int (max_transmit_interval_seconds * 3), hl_counter = 0,
           hl_timestamp = of_int utc, hl_crc16 = 0\<rparr>
      in hl_pack io crc (p\<lparr>hl_crc16 := hl_crc16_of crc p\<rparr>))"

subsection \<open>Expiration\<close>


definition drop_peer :: "universal_id \<Rightarrow> discovery_engine \<Rightarrow> discovery_engine" where
  "drop_peer peer_id d =
     (case map_of (dc_peers d) peer_id of
        None \<Rightarrow> d
      | Some c \<Rightarrow> dc_emit (DcExpired peer_id (pc_saddr c)) (d\<lparr>dc_peers := AList.delete peer_id (dc_peers d)\<rparr>))"

text \<open>The loop over the map drops the peers whose time has passed, in the order of their identifiers; then the
  deferred ones are dropped.\<close>

definition check_expiration :: "time_point \<Rightarrow> discovery_engine \<Rightarrow> discovery_engine" where
  "check_expiration now d =
     (let gone = map fst (filter (\<lambda>(p, c). pc_expiration_timepoint c < now) (dc_peers d));
          d = fold drop_peer gone d
      in (fold drop_peer (dc_deferred d) d)\<lparr>dc_deferred := []\<rparr>)"


text \<open>A round: the datagrams that the backend hands on, each with the clocks read for its packets.\<close>

definition dc_step ::
  "'i streams \<Rightarrow> crc_ops \<Rightarrow> time_point \<Rightarrow> (nat \<Rightarrow> target_env) \<Rightarrow> ((nat \<Rightarrow> time_point \<times> int) \<times> socket4_addr \<times> bytes) list \<Rightarrow>
    time_point \<Rightarrow> discovery_engine \<Rightarrow> discovery_engine result" where
  "dc_step io crc now envs datagrams later d =
     bindr (broadcast_discovery_data io crc now envs d) (\<lambda>d.
     mapr (check_expiration later)
       (foldr_res (\<lambda>(clk, saddr, data). process_discovery_data io crc clk saddr data) datagrams d))"

definition discover ::
  "'i streams \<Rightarrow> crc_ops \<Rightarrow> time_point \<Rightarrow> (nat \<Rightarrow> target_env) \<Rightarrow> ((nat \<Rightarrow> time_point \<times> int) \<times> socket4_addr \<times> bytes) list \<Rightarrow>
    time_point \<Rightarrow> discovery_engine \<Rightarrow> discovery_engine result" where
  "discover io crc now envs datagrams later d = dc_step io crc now envs datagrams later d"

subsection \<open>The log of discoveries\<close>

text \<open>The peers that a log reports as discovered and not yet as expired; \<open>None\<close> if it reports one twice or expires
  one that is not present.\<close>

fun log_step :: "dc_event \<Rightarrow> universal_id set option \<Rightarrow> universal_id set option" where
  "log_step e None = None"
| "log_step (DcDiscovered p a t) (Some S) = (if p \<in> S then None else Some (insert p S))"
| "log_step (DcExpired p a) (Some S) = (if p \<in> S then Some (S - {p}) else None)"
| "log_step e (Some S) = Some S"

definition dc_log :: "dc_event list \<Rightarrow> universal_id set option" where
  "dc_log es = fold log_step es (Some {})"

lemma dc_log_snoc [simp]: "dc_log (es @ [e]) = log_step e (dc_log es)"
  by (simp add: dc_log_def)























subsection \<open>Histories\<close>








subsection \<open>An announcement and its discovery\<close>

lemma hl_pack_length:
  assumes "byte_streams io v" and "hl_greeting p = helo"
  shows "length (hl_pack io crc p) = hello_packet_size"
  using assms(2) byte_streams.id_length [OF assms(1)] byte_streams.u16_length [OF assms(1)]
    byte_streams.u32_length [OF assms(1)] byte_streams.u64_length [OF assms(1)]
  by (simp add: hl_pack_def hello_packet_size_def helo_def)

lemma hello_read:
  assumes "byte_streams io v" and "hl_greeting p = helo"
  shows "fst (hl_unpack io (in_open io (hl_pack io crc p))) = p\<lparr>hl_crc16 := hl_crc16_of crc p\<rparr>"
proof -
  have "reads v (hl_unpack io) (hl_pack io crc p) (p\<lparr>hl_crc16 := hl_crc16_of crc p\<rparr>)"
    using byte_streams.hl_reads [OF assms(1), of p crc] assms(2) by (simp add: helo_def)
  from readsD [OF this, of "in_open io (hl_pack io crc p)" "[]"] byte_streams.open_view [OF assms(1)]
  show ?thesis by simp
qed

lemma hello_for_fields [simp]:
  "hl_greeting (hello_for crc utc t d) = helo" "hl_uuid (hello_for crc utc t d) = dc_host_uuid d"
  "hl_port (hello_for crc utc t d) = do_host_port (dc_opts d)"
  "hl_expiration_interval (hello_for crc utc t d) = of_int (tg_expiration_interval t)"
  "hl_timestamp (hello_for crc utc t d) = of_int utc" "hl_counter (hello_for crc utc t d) = tg_counter t"
  "hl_crc16_of crc (hello_for crc utc t d) = hl_crc16 (hello_for crc utc t d)"
  by (simp_all add: hello_for_def Let_def hl_crc16_of_def)

lemma hello_for_crc [simp]: "(hello_for crc utc t d)\<lparr>hl_crc16 := hl_crc16_of crc (hello_for crc utc t d)\<rparr> = hello_for crc utc t d"
  by (simp add: hello_for_def Let_def hl_crc16_of_def)

lemma hello_for_chunk:
  assumes "byte_streams io v"
  shows "process_hello_data io crc clk saddr (hl_pack io crc (hello_for crc utc t a)) d =
    process_hello_packet crc (fst clk) (snd clk) saddr (hello_for crc utc t a) d"
  using hello_read [OF assms, of "hello_for crc utc t a" crc]
  by (auto simp: process_hello_data_def hl_is_valid_def case_prod_unfold)

lemma hello_loop_packet:
  assumes "byte_streams io v"
  shows "hello_loop io crc clk k saddr (hl_pack io crc (hello_for crc utc t a) @ rest) d =
    bindr (process_hello_packet crc (fst (clk k)) (snd (clk k)) saddr (hello_for crc utc t a) d) (hello_loop io crc clk (Suc k) saddr rest)"
proof -
  let ?w = "hl_pack io crc (hello_for crc utc t a)"
  have l: "length ?w = hello_packet_size" by (rule hl_pack_length [OF assms]) simp
  then have "?w \<noteq> []" by (auto simp: hello_packet_size_def)
  with l hello_for_chunk [OF assms] show ?thesis by (subst hello_loop.simps) simp
qed

lemma sint_of_small: "- (2 ^ 63) \<le> x \<Longrightarrow> x < 2 ^ 63 \<Longrightarrow> sint (of_int x :: u64) = x"
  by (simp add: signed_of_int signed_take_bit_int_eq_self)

text \<open>C34. The hello packet that one engine sends to a target is taken by another, that does not know the sender, as
  its discovery: at the address it came from with the port the sender announces, with the difference of the
  clocks, to expire after the interval announced, of which 16 bits are sent.\<close>

theorem dc_announcement_discovered:
  assumes "byte_streams io v" and "dc_host_uuid a \<noteq> dc_host_uuid b" and "map_of (dc_peers b) (dc_host_uuid a) = None"
    and "- (2 ^ 63) \<le> utc" and "utc < 2 ^ 63" and "- (2 ^ 63) \<le> snd (clk 0) - utc" and "snd (clk 0) - utc < 2 ^ 63"
  shows "let from = \<lparr>sa_addr = sa_addr saddr, sa_port = do_host_port (dc_opts a)\<rparr> in
    process_discovery_data io crc clk saddr (hl_pack io crc (hello_for crc utc t a)) b =
      Inr (b\<lparr>dc_events := dc_events b @ [DcDiscovered (dc_host_uuid a) from (snd (clk 0) - utc)],
             dc_peers := om_update (dc_host_uuid a) \<lparr>pc_saddr = from,
               pc_expiration_timepoint = fst (clk 0) + seconds (tg_expiration_interval t mod 2 ^ 16),
               pc_timediff = snd (clk 0) - utc\<rparr> (dc_peers b)\<rparr>)"
proof -
  let ?w = "hl_pack io crc (hello_for crc utc t a)"
  have l: "\<not> length ?w < hello_packet_size" using hl_pack_length [OF assms(1), of "hello_for crc utc t a" crc] by simp
  have i: "uint (of_int (tg_expiration_interval t) :: u16) = tg_expiration_interval t mod 2 ^ 16"
    by (simp add: uint_word_of_int)
  from l hello_loop_packet [OF assms(1), of crc clk 0 saddr utc t a "[]" b] assms(2-7) sint_of_small [OF assms(4,5)] i
  show ?thesis
    by (simp add: process_discovery_data_def process_hello_packet_def Let_def i64_def dc_emit_def hello_loop.simps [of _ _ _ _ _ "[]"])
qed

definition example_crc :: crc_ops where
  "example_crc = \<lparr>crc16_of_ptr = (\<lambda>bs c. c), crc16_all_of = (\<lambda>c i p e n t. c + p + e + ucast n)\<rparr>"

definition example_dc :: "universal_id \<Rightarrow> discovery_engine" where
  "example_dc host = \<lparr>dc_host_uuid = host, dc_opts = \<lparr>do_timestamp_error_limit = 500, do_host_port = 4242, do_series_of_retries = 1\<rparr>,
     dc_nearest = time_max, dc_targets = [], dc_peers = [], dc_deferred = [], dc_receivers = [], dc_senders = [], dc_events = []\<rparr>"

definition example_target :: target_item where
  "example_target = \<lparr>tg_saddr = \<lparr>sa_addr = Inet4 1, sa_port = 9000\<rparr>, tg_counter = 1, tg_transmit_interval = 5, tg_expiration_interval = 15,
     tg_transmit_timepoint = 0, tg_last_send_status = SendGood\<rparr>"

lemma ex_host [simp]: "dc_host_uuid (example_dc h) = h" "dc_peers (example_dc h) = []" "do_host_port (dc_opts (example_dc h)) = 4242"
  "tg_expiration_interval example_target = 15" "dc_events (example_dc h) = []"
  by (simp_all add: example_dc_def example_target_def)

lemma dc_announcement_discovered_witness:
  "\<exists>b. process_discovery_data be_streams example_crc (\<lambda>k. (7, 1000)) \<lparr>sa_addr = Inet4 3, sa_port = 5\<rparr>
      (hl_pack be_streams example_crc (hello_for example_crc 400 example_target (example_dc 1))) (example_dc 2) = Inr b \<and>
    dc_events b = [DcDiscovered 1 \<lparr>sa_addr = Inet4 3, sa_port = 4242\<rparr> 600]"
  using dc_announcement_discovered [of be_streams mem_view "example_dc 1" "example_dc 2" 400 "\<lambda>k. (7, 1000)"
      "\<lparr>sa_addr = Inet4 3, sa_port = 5\<rparr>" example_crc example_target] be.byte_streams_axioms
  by (simp add: example_dc_def Let_def)



text \<open>A peer whose address has changed is reported as expired by every hello packet from its new address, while
  the engine goes on to hold it at its old one.\<close>

theorem dc_address_change_repeats:
  assumes "hl_crc16 packet = hl_crc16_of crc packet" and "hl_uuid packet \<noteq> dc_host_uuid d"
    and "map_of (dc_peers d) (hl_uuid packet) = Some c" and "sa_addr (pc_saddr c) \<noteq> sa_addr saddr"
    and "\<forall>(now, utc)\<in>set clks. - (2 ^ 63) \<le> utc - sint (hl_timestamp packet) \<and> utc - sint (hl_timestamp packet) < 2 ^ 63"
  shows "foldr_res (\<lambda>(now, utc). process_hello_packet crc now utc saddr packet) clks d =
    Inr (d\<lparr>dc_events := dc_events d @ replicate (length clks) (DcExpired (hl_uuid packet) (pc_saddr c))\<rparr>)"
  using assms(2-5)
proof (induction clks arbitrary: d)
  case Nil
  then show ?case by simp
next
  case (Cons k clks)
  obtain now utc where k: "k = (now, utc)" by (cases k)
  let ?d = "dc_emit (DcExpired (hl_uuid packet) (pc_saddr c)) d"
  have "process_hello_packet crc now utc saddr packet d = Inr ?d"
    using assms(1) Cons.prems k by (simp add: process_hello_packet_def Let_def i64_def)
  moreover have "foldr_res (\<lambda>(now, utc). process_hello_packet crc now utc saddr packet) clks ?d =
    Inr (?d\<lparr>dc_events := dc_events ?d @ replicate (length clks) (DcExpired (hl_uuid packet) (pc_saddr c))\<rparr>)"
    by (rule Cons.IH) (use Cons.prems in \<open>auto simp: dc_emit_def\<close>)
  ultimately show ?case by (simp add: k dc_emit_def)
qed

lemma dc_address_change_repeats_witness:
  "\<exists>c. foldr_res (\<lambda>(now, utc). process_hello_packet example_crc now utc \<lparr>sa_addr = Inet4 3, sa_port = 5\<rparr>
        (hello_for example_crc 400 example_target (example_dc 1))) [(7, 500), (8, 600)]
        ((example_dc 2)\<lparr>dc_peers := [(1, \<lparr>pc_saddr = \<lparr>sa_addr = Inet4 9, sa_port = 4242\<rparr>, pc_expiration_timepoint = 0, pc_timediff = 0\<rparr>)]\<rparr>) = Inr c \<and>
    dc_events c = [DcExpired 1 \<lparr>sa_addr = Inet4 9, sa_port = 4242\<rparr>, DcExpired 1 \<lparr>sa_addr = Inet4 9, sa_port = 4242\<rparr>]"
proof -
  let ?c = "\<lparr>pc_saddr = \<lparr>sa_addr = Inet4 9, sa_port = 4242\<rparr>, pc_expiration_timepoint = 0, pc_timediff = 0\<rparr>"
  show ?thesis
    using dc_address_change_repeats [of "hello_for example_crc 400 example_target (example_dc 1)" example_crc
        "(example_dc 2)\<lparr>dc_peers := [(1, ?c)]\<rparr>" ?c "\<lparr>sa_addr = Inet4 3, sa_port = 5\<rparr>" "[(7, 500), (8, 600)]"]
      sint_of_small [of 400]
    by (simp add: example_dc_def del: foldr_res.simps)
qed

lemma dc_partial_packet_undefined:
  assumes "byte_streams io v" and "process_hello_packet crc (fst (clk 0)) (snd (clk 0)) saddr (hello_for crc utc t a) d = Inr d'"
    and "rest \<noteq> []" and "length rest < hello_packet_size"
  shows "process_discovery_data io crc clk saddr (hl_pack io crc (hello_for crc utc t a) @ rest) d = Inl Undefined"
proof -
  have "hello_packet_size \<le> length (hl_pack io crc (hello_for crc utc t a) @ rest)"
    using hl_pack_length [OF assms(1), of "hello_for crc utc t a" crc] by simp
  with hello_loop_packet [OF assms(1), of crc clk 0 saddr utc t a rest d] assms(2-4) show ?thesis
    by (simp add: process_discovery_data_def hello_loop.simps [of _ _ _ _ _ rest])
qed

subsection \<open>The targets that are due\<close>










end
