(* ===== verification/FileSystem.thy ===== *)
theory FileSystem
  imports Prelude
begin

text \<open>
  Files as the file transporter uses them: the class \<open>file\<close> (include/pfs/netty/p2p/file.hpp) and the
  operations of \<open>std::filesystem\<close> and of POSIX it rests on.

  A file system maps the names of files to inodes and the inodes to their bytes, so that a file that is
  open goes on to be the same after it was renamed, and holds the names of the directories. Names are
  taken as the code makes them: a name with \<open>..\<close> in it is a name of its own. An operation that asks
  the operating system takes the next of the answers that are part of the state: that the call
  succeeds, that it moves fewer bytes than it was asked to, or that it fails. A file that is open is
  \<open>None\<close> for the invalid handle, otherwise the inode and the position. Directories cannot be opened.
  A \<open>filesize_t\<close>, of 32 bits, is an \<open>int\<close>; where the code narrows to it the conversion is written out.

  An operation gives its result, or how it failed, beside the state that it leaves, since a thrown
  exception does not undo what was done before it.
\<close>

subsection \<open>Operations that may throw\<close>

type_synonym ('a, 's) act = "'s \<Rightarrow> 'a result \<times> 's"

definition ret :: "'a \<Rightarrow> ('a, 's) act" where
  "ret x s = (Inr x, s)"

definition fails :: "fault \<Rightarrow> ('a, 's) act" where
  "fails e s = (Inl e, s)"

definition bnd :: "('a, 's) act \<Rightarrow> ('a \<Rightarrow> ('b, 's) act) \<Rightarrow> ('b, 's) act" where
  "bnd m f s = (case m s of (Inl e, s') \<Rightarrow> (Inl e, s') | (Inr x, s') \<Rightarrow> f x s')"

lemma ret_apply [simp]: "ret x s = (Inr x, s)"
  by (simp add: ret_def)

lemma fails_apply [simp]: "fails e s = (Inl e, s)"
  by (simp add: fails_def)

lemma bnd_ok [simp]: "m s = (Inr x, s') \<Longrightarrow> bnd m f s = f x s'"
  by (simp add: bnd_def)

lemma bnd_fails [simp]: "m s = (Inl e, s') \<Longrightarrow> bnd m f s = (Inl e, s')"
  by (simp add: bnd_def)

lemma bnd_cases:
  assumes "bnd m f s = (r, t)"
  obtains (thrown) e where "m s = (Inl e, t)" and "r = Inl e"
    | (returned) x u where "m s = (Inr x, u)" and "f x u = (r, t)"
  using assms by (cases "m s"; cases "fst (m s)") (auto simp: bnd_def)

text \<open>An operation on a part of the state.\<close>

definition act_on :: "('s \<Rightarrow> 't) \<Rightarrow> ('t \<Rightarrow> 's \<Rightarrow> 's) \<Rightarrow> ('a, 't) act \<Rightarrow> ('a, 's) act" where
  "act_on get put m s = (case m (get s) of (r, t) \<Rightarrow> (r, put t s))"

lemma act_on_ok [simp]: "m (get s) = (r, t) \<Longrightarrow> act_on get put m s = (r, put t s)"
  by (simp add: act_on_def)

subsection \<open>The file system\<close>

datatype os_answer = SysOk | SysShort nat | SysFail

record file_sys =
  fs_files :: "bytes \<rightharpoonup> nat"
  fs_dirs :: "bytes set"
  fs_data :: "nat \<Rightarrow> bytes"
  fs_next :: nat
  fs_answers :: "nat \<Rightarrow> os_answer"

definition os_call :: "(os_answer, file_sys) act" where
  "os_call s = (Inr (fs_answers s 0), s\<lparr>fs_answers := \<lambda>k. fs_answers s (Suc k)\<rparr>)"

text \<open>A call that either succeeds or fails; what fails throws.\<close>

definition os_try :: "fault \<Rightarrow> (unit, file_sys) act" where
  "os_try e = bnd os_call (\<lambda>a. if a = SysFail then fails e else ret ())"

subsection \<open>The class \<open>file\<close>\<close>

record file_handle =
  fh_inode :: nat
  fh_pos :: nat

type_synonym file_t = "file_handle option"

definition invalid_file :: file_t where
  "invalid_file = None"

definition fl_close :: "file_t \<Rightarrow> file_t" where
  "fl_close f = invalid_file"

text \<open>\<open>offset\<close>: the position in 32 bits, -1 without a handle.\<close>

definition fl_offset :: "file_t \<Rightarrow> int" where
  "fl_offset f = (case f of None \<Rightarrow> -1 | Some h \<Rightarrow> sint (of_nat (fh_pos h) :: u32))"

text \<open>The number of bytes a call moves when it was asked to move \<open>n\<close>: at least one.\<close>

fun moved :: "os_answer \<Rightarrow> nat \<Rightarrow> nat" where
  "moved (SysShort k) n = min n (Suc k)"
| "moved _ n = n"

text \<open>The overload of \<open>read\<close> that throws: the bytes read and the file, whose position moves.\<close>

definition fl_read :: "int \<Rightarrow> file_t \<Rightarrow> (bytes \<times> file_t, file_sys) act" where
  "fl_read count f =
     (if count = 0 then ret ([], f)
      else if count < 0 then fails (Thrown Invalid_argument)
      else case f of
             None \<Rightarrow> fails (Thrown System_error)
           | Some h \<Rightarrow>
               bnd os_call (\<lambda>a s.
                 if a = SysFail then (Inl (Thrown System_error), s)
                 else (let bs = take (moved a (nat count)) (drop (fh_pos h) (fs_data s (fh_inode h)))
                       in (Inr (bs, Some (h\<lparr>fh_pos := fh_pos h + length bs\<rparr>)), s))))"

text \<open>The template that reads a value of \<open>n\<close> bytes is \<open>noexcept\<close>, and the bytes that were not read are
  indeterminate.\<close>

definition fl_read_value :: "nat \<Rightarrow> file_t \<Rightarrow> (bytes \<times> file_t, file_sys) act" where
  "fl_read_value n f s =
     (case fl_read (int n) f s of
        (Inl e, s) \<Rightarrow> (Inl Terminated, s)
      | (Inr (bs, f), s) \<Rightarrow> if length bs < n then (Inl Undefined, s) else (Inr (bs, f), s))"

lemma fl_read_data: "fl_read count f s = (r, s') \<Longrightarrow> fs_data s' = fs_data s"
  by (auto simp: fl_read_def os_call_def split: if_splits option.splits elim!: bnd_cases)

lemma fl_read_progress:
  assumes "fl_read count f s = (Inr (bs, f'), s')" and "bs \<noteq> []"
  obtains h where "f = Some h" and "f' = Some (h\<lparr>fh_pos := fh_pos h + length bs\<rparr>)"
    and "fh_pos h < length (fs_data s (fh_inode h))" and "fs_data s' = fs_data s"
proof -
  obtain h where f: "f = Some h" using assms by (cases f) (auto simp: fl_read_def split: if_splits)
  with assms have "\<exists>n. bs = take n (drop (fh_pos h) (fs_data s (fh_inode h))) \<and>
      f' = Some (h\<lparr>fh_pos := fh_pos h + length bs\<rparr>) \<and> fs_data s' = fs_data s"
    by (auto simp: fl_read_def os_call_def Let_def simp del: length_take split: if_splits elim!: bnd_cases)
  then obtain n where n: "bs = take n (drop (fh_pos h) (fs_data s (fh_inode h)))"
    and r: "f' = Some (h\<lparr>fh_pos := fh_pos h + length bs\<rparr>)" "fs_data s' = fs_data s" by blast
  from n assms(2) have "fh_pos h < length (fs_data s (fh_inode h))" by (metis drop_all leI take_Nil)
  with f r show ?thesis by (intro that)
qed

text \<open>\<open>read_all\<close>: blocks of 512 bytes until nothing is read.\<close>

function fl_read_all :: "file_t \<Rightarrow> (bytes, file_sys) act" where
  "fl_read_all f s =
     (case fl_read 512 f s of
        (Inl e, s') \<Rightarrow> (Inl e, s')
      | (Inr (bs, f'), s') \<Rightarrow>
          (if bs = [] then (Inr [], s')
           else case fl_read_all f' s' of
                  (Inl e, s'') \<Rightarrow> (Inl e, s'')
                | (Inr cs, s'') \<Rightarrow> (Inr (bs @ cs), s'')))"
  by pat_completeness auto
termination
proof (relation "measure (\<lambda>(f, s). case f of None \<Rightarrow> 0 | Some h \<Rightarrow> length (fs_data s (fh_inode h)) - fh_pos h)")
  fix f s x s' y bs f'
  assume a: "(x, s') = fl_read 512 f s" "x = Inr y" "(bs, f') = y" "bs \<noteq> []"
  then have "fl_read 512 f s = (Inr (bs, f'), s')" "bs \<noteq> []" by simp_all
  then show "((f', s'), (f, s)) \<in> measure (\<lambda>(f, s). case f of None \<Rightarrow> 0 | Some h \<Rightarrow> length (fs_data s (fh_inode h)) - fh_pos h)"
    using a(4) by (auto elim!: fl_read_progress simp flip: length_greater_0_conv)
qed auto

declare fl_read_all.simps [simp del]

text \<open>What is written at a position beyond the end leaves zero bytes between.\<close>

definition write_at :: "nat \<Rightarrow> bytes \<Rightarrow> bytes \<Rightarrow> bytes" where
  "write_at pos d c = take pos c @ replicate (pos - length c) 0 @ d @ drop (pos + length d) c"

text \<open>The overload of \<open>write\<close> that throws: the number of bytes written and the file.\<close>

definition fl_write :: "bytes \<Rightarrow> file_t \<Rightarrow> (nat \<times> file_t, file_sys) act" where
  "fl_write d f =
     (case f of
        None \<Rightarrow> fails (Thrown System_error)
      | Some h \<Rightarrow>
          bnd os_call (\<lambda>a s.
            if a = SysFail then (Inl (Thrown System_error), s)
            else (let w = take (moved a (length d)) d
                  in (Inr (length w, Some (h\<lparr>fh_pos := fh_pos h + length w\<rparr>)),
                      if w = [] then s
                      else s\<lparr>fs_data := (fs_data s)(fh_inode h := write_at (fh_pos h) w (fs_data s (fh_inode h)))\<rparr>))))"

text \<open>\<open>set_pos\<close>: \<open>lseek\<close> fails without a handle and for a negative offset.\<close>

definition fl_set_pos :: "int \<Rightarrow> file_t \<Rightarrow> (file_t, file_sys) act" where
  "fl_set_pos offset f =
     (case f of
        None \<Rightarrow> fails (Thrown System_error)
      | Some h \<Rightarrow>
          if offset < 0 then fails (Thrown System_error) else ret (Some (h\<lparr>fh_pos := nat offset\<rparr>)))"

definition fs_exists :: "bytes \<Rightarrow> file_sys \<Rightarrow> bool" where
  "fs_exists path s \<longleftrightarrow> fs_files s path \<noteq> None \<or> path \<in> fs_dirs s"

text \<open>The overloads with an error code, which give an invalid file and the code.\<close>

definition open_read_only :: "bytes \<Rightarrow> (file_t \<times> errc option, file_sys) act" where
  "open_read_only path s =
     (if \<not> fs_exists path s then (Inr (invalid_file, Some System_error), s)
      else bnd os_call (\<lambda>a s.
        case fs_files s path of
          Some i \<Rightarrow> (if a = SysFail then (Inr (invalid_file, Some System_error), s)
                     else (Inr (Some \<lparr>fh_inode = i, fh_pos = 0\<rparr>, None), s))
        | None \<Rightarrow> (Inr (invalid_file, Some System_error), s)) s)"

definition open_write_only :: "bool \<Rightarrow> bytes \<Rightarrow> (file_t \<times> errc option, file_sys) act" where
  "open_write_only trunc path =
     bnd os_call (\<lambda>a s.
       if a = SysFail \<or> path \<in> fs_dirs s then (Inr (invalid_file, Some System_error), s)
       else case fs_files s path of
              Some i \<Rightarrow> (Inr (Some \<lparr>fh_inode = i, fh_pos = 0\<rparr>, None),
                         if trunc then s\<lparr>fs_data := (fs_data s)(i := [])\<rparr> else s)
            | None \<Rightarrow> (Inr (Some \<lparr>fh_inode = fs_next s, fh_pos = 0\<rparr>, None),
                       s\<lparr>fs_files := (fs_files s)(path \<mapsto> fs_next s), fs_data := (fs_data s)(fs_next s := []),
                         fs_next := Suc (fs_next s)\<rparr>))"

text \<open>The overloads that throw.\<close>

definition thrown_code :: "('a \<times> errc option, 's) act \<Rightarrow> ('a, 's) act" where
  "thrown_code m = bnd m (\<lambda>(x, ec). case ec of None \<Rightarrow> ret x | Some e \<Rightarrow> fails (Thrown e))"

definition fl_open_read :: "bytes \<Rightarrow> (file_t, file_sys) act" where
  "fl_open_read path = thrown_code (open_read_only path)"

definition fl_open_write :: "bool \<Rightarrow> bytes \<Rightarrow> (file_t, file_sys) act" where
  "fl_open_write trunc path = thrown_code (open_write_only trunc path)"

text \<open>\<open>rewrite\<close>: a short write is not noticed.\<close>

definition fl_rewrite :: "bytes \<Rightarrow> bytes \<Rightarrow> (unit, file_sys) act" where
  "fl_rewrite path d = bnd (fl_open_write True path) (\<lambda>f. bnd (fl_write d f) (\<lambda>_. ret ()))"

definition read_all_path :: "bytes \<Rightarrow> (bytes, file_sys) act" where
  "read_all_path path = bnd (fl_open_read path) fl_read_all"

text \<open>The overload of the static \<open>read_all\<close> with an error code reads only if the file could not be opened.\<close>

definition read_all_path_ec :: "bytes \<Rightarrow> (bytes \<times> errc option, file_sys) act" where
  "read_all_path_ec path =
     bnd (open_read_only path) (\<lambda>(f, ec).
       if ec \<noteq> None then (\<lambda>s. (Inr ([], ec), s)) else ret ([], None))"

subsection \<open>Operations on names\<close>

definition fs_file_size :: "bytes \<Rightarrow> (u64, file_sys) act" where
  "fs_file_size path s =
     (case fs_files s path of None \<Rightarrow> (Inl (Thrown System_error), s) | Some i \<Rightarrow> (Inr (of_nat (length (fs_data s i))), s))"

definition fs_rename :: "bytes \<Rightarrow> bytes \<Rightarrow> (unit, file_sys) act" where
  "fs_rename old new =
     bnd (os_try (Thrown System_error)) (\<lambda>_ s.
       case fs_files s old of
         None \<Rightarrow> (Inl (Thrown System_error), s)
       | Some i \<Rightarrow>
           if new \<in> fs_dirs s then (Inl (Thrown System_error), s)
           else (Inr (), s\<lparr>fs_files := (fs_files s)(old := None, new \<mapsto> i)\<rparr>))"

definition fs_remove :: "bytes \<Rightarrow> (unit, file_sys) act" where
  "fs_remove path =
     bnd (os_try (Thrown System_error)) (\<lambda>_ s. (Inr (), s\<lparr>fs_files := (fs_files s)(path := None)\<rparr>))"

definition slash :: byte where "slash = 47"
definition dot :: byte where "dot = 46"

text \<open>A directory with those it is in.\<close>

definition dir_prefixes :: "bytes \<Rightarrow> bytes set" where
  "dir_prefixes p = insert p (set (map (\<lambda>n. take n p) (filter (\<lambda>n. p ! n = slash) [0..<length p])))"

definition fs_create_directories :: "fault \<Rightarrow> bytes \<Rightarrow> (unit, file_sys) act" where
  "fs_create_directories e dir =
     bnd (os_try e) (\<lambda>_ s. (Inr (), s\<lparr>fs_dirs := dir_prefixes dir \<union> fs_dirs s\<rparr>))"

text \<open>\<open>operator /\<close>, \<open>filename\<close>, \<open>stem\<close> and \<open>extension\<close> of \<open>std::filesystem::path\<close>\<close>

definition path_join :: "bytes \<Rightarrow> bytes \<Rightarrow> bytes" where
  "path_join p q =
     (if q \<noteq> [] \<and> hd q = slash then q
      else if p = [] \<or> List.last p = slash then p @ q
      else p @ slash # q)"

definition path_filename :: "bytes \<Rightarrow> bytes" where
  "path_filename p = rev (takeWhile (\<lambda>b. b \<noteq> slash) (rev p))"

definition path_extension :: "bytes \<Rightarrow> bytes" where
  "path_extension p =
     (let n = path_filename p; e = rev (takeWhile (\<lambda>b. b \<noteq> dot) (rev n))
      in if n = [dot, dot] \<or> length e = length n \<or> Suc (length e) = length n then [] else dot # e)"

definition path_stem :: "bytes \<Rightarrow> bytes" where
  "path_stem p = (let n = path_filename p in take (length n - length (path_extension p)) n)"

subsection \<open>A file system whose calls succeed\<close>

definition calm :: "file_sys \<Rightarrow> bool" where
  "calm s \<longleftrightarrow> fs_answers s = (\<lambda>_. SysOk)"

lemma os_call_calm [simp]: "calm s \<Longrightarrow> os_call s = (Inr SysOk, s)"
  by (simp add: os_call_def calm_def)

lemma os_try_calm [simp]: "calm s \<Longrightarrow> os_try e s = (Inr (), s)"
  by (simp add: os_try_def)

lemma calm_updates [simp]:
  "calm (s\<lparr>fs_files := m\<rparr>) = calm s" "calm (s\<lparr>fs_dirs := ds\<rparr>) = calm s" "calm (s\<lparr>fs_data := d\<rparr>) = calm s" "calm (s\<lparr>fs_next := n\<rparr>) = calm s"
  by (simp_all add: calm_def)

lemma fl_read_calm:
  assumes "calm s" and "0 < count"
  shows "fl_read count (Some h) s =
    (let bs = take (nat count) (drop (fh_pos h) (fs_data s (fh_inode h)))
     in (Inr (bs, Some (h\<lparr>fh_pos := fh_pos h + length bs\<rparr>)), s))"
  using assms by (simp add: fl_read_def Let_def)

lemma fl_read_value_calm:
  assumes "calm s" and "0 < n" and "fh_pos h + n \<le> length (fs_data s (fh_inode h))"
  shows "fl_read_value n (Some h) s =
    (Inr (take n (drop (fh_pos h) (fs_data s (fh_inode h))), Some (h\<lparr>fh_pos := fh_pos h + n\<rparr>)), s)"
  using assms by (simp add: fl_read_value_def fl_read_calm Let_def)

lemma fl_read_all_calm:
  assumes "calm s"
  shows "fl_read_all (Some h) s = (Inr (drop (fh_pos h) (fs_data s (fh_inode h))), s)"
proof (induction "length (fs_data s (fh_inode h)) - fh_pos h" arbitrary: h rule: less_induct)
  case less
  let ?d = "drop (fh_pos h) (fs_data s (fh_inode h))"
  let ?h = "h\<lparr>fh_pos := fh_pos h + length (take 512 ?d)\<rparr>"
  have r: "fl_read 512 (Some h) s = (Inr (take 512 ?d, Some ?h), s)"
    using fl_read_calm [OF assms, of 512 h] by (simp add: Let_def)
  show ?case
  proof (cases "?d = []")
    case True
    with r show ?thesis by (simp add: fl_read_all.simps)
  next
    case False
    then have "fl_read_all (Some ?h) s = (Inr (drop (fh_pos ?h) (fs_data s (fh_inode ?h))), s)" by (intro less) simp
    moreover have "take 512 ?d @ drop (fh_pos ?h) (fs_data s (fh_inode ?h)) = ?d"
      by (simp add: min_def) (metis append_take_drop_id add.commute drop_drop)
    ultimately show ?thesis using False r by (simp add: fl_read_all.simps [of "Some h"])
  qed
qed

lemma fl_write_calm:
  assumes "calm s" and "d \<noteq> []"
  shows "fl_write d (Some h) s = (Inr (length d, Some (h\<lparr>fh_pos := fh_pos h + length d\<rparr>)),
    s\<lparr>fs_data := (fs_data s)(fh_inode h := write_at (fh_pos h) d (fs_data s (fh_inode h)))\<rparr>)"
  using assms by (simp add: fl_write_def)

lemma open_calm:
  assumes "calm s"
  shows "fs_files s path = Some i \<Longrightarrow> fl_open_read path s = (Inr (Some \<lparr>fh_inode = i, fh_pos = 0\<rparr>), s)"
    and "fs_files s path = Some i \<Longrightarrow> path \<notin> fs_dirs s \<Longrightarrow> fl_open_write False path s = (Inr (Some \<lparr>fh_inode = i, fh_pos = 0\<rparr>), s)"
    and "fs_files s path = Some i \<Longrightarrow> path \<notin> fs_dirs s \<Longrightarrow>
      fl_open_write True path s = (Inr (Some \<lparr>fh_inode = i, fh_pos = 0\<rparr>), s\<lparr>fs_data := (fs_data s)(i := [])\<rparr>)"
    and "fs_files s path = None \<Longrightarrow> path \<notin> fs_dirs s \<Longrightarrow>
      fl_open_write trunc path s = (Inr (Some \<lparr>fh_inode = fs_next s, fh_pos = 0\<rparr>),
        s\<lparr>fs_files := (fs_files s)(path \<mapsto> fs_next s), fs_data := (fs_data s)(fs_next s := []), fs_next := Suc (fs_next s)\<rparr>)"
  using assms by (simp_all add: fl_open_read_def fl_open_write_def open_read_only_def open_write_only_def thrown_code_def fs_exists_def)

lemma read_all_path_calm:
  assumes "calm s" and "fs_files s path = Some i"
  shows "read_all_path path s = (Inr (fs_data s i), s)"
  using open_calm(1) [OF assms] fl_read_all_calm [OF assms(1), of "\<lparr>fh_inode = i, fh_pos = 0\<rparr>"] by (simp add: read_all_path_def)

lemma rename_calm:
  assumes "calm s" and "fs_files s old = Some i" and "new \<notin> fs_dirs s"
  shows "fs_rename old new s = (Inr (), s\<lparr>fs_files := (fs_files s)(old := None, new \<mapsto> i)\<rparr>)"
  using assms by (simp add: fs_rename_def)

lemma remove_calm: "calm s \<Longrightarrow> fs_remove path s = (Inr (), s\<lparr>fs_files := (fs_files s)(path := None)\<rparr>)"
  by (simp add: fs_remove_def)

lemma write_at_end: "pos = length c \<Longrightarrow> write_at pos d c = c @ d"
  by (simp add: write_at_def)

lemma read_all_path_ec_empty: "\<exists>e s'. read_all_path_ec path s = (Inr ([], e), s')"
  by (auto simp: read_all_path_ec_def open_read_only_def bnd_def os_call_def split: option.splits)

end
