(* ===== verification/FileTransporter.thy ===== *)
theory FileTransporter
  imports FileSystem P2PPacket
begin

text \<open>
  The file transporter (include/pfs/netty/p2p/file_transporter.hpp): the pools of incoming and outgoing
  files, the handlers of the seven kinds of packets, and the step that sends the next chunks.

  \<open>lib_ops\<close> stands for the functions of pfs and fmt that make names and for the current directory:
  \<open>to_string\<close> of an identifier, \<open>utf8_decode\<close> and \<open>utf8_encode\<close>, \<open>format\<close> of what makes a name unique, and
  \<open>absolute\<close>; and \<open>lib_chunk_throws\<close> says of the bytes of a chunk packet whether reading the chunk from them throws (its size
  comes from the network and the bytes may be too few for it). Reading its header again does not throw. Identifiers that \<open>generate_uuid\<close> makes are arguments. Callbacks are events in the order in which
  they are made; \<open>addressee_ready\<close> is an argument of \<open>step\<close>; \<open>open_outcome_file\<close> is its default, which opens
  the file for reading. Values are written to the description of a file in the byte order of the
  machine, taken to be little endian. A file that \<open>emplace\<close> adds to a pool comes last in the order of
  iteration.
\<close>

subsection \<open>State\<close>

record lib_ops =
  lib_id :: "universal_id \<Rightarrow> bytes"
  lib_decode :: "bytes \<Rightarrow> bytes"
  lib_encode :: "bytes \<Rightarrow> bytes"
  lib_uniq :: "nat + universal_id \<Rightarrow> bytes"
  lib_absolute :: "bytes \<Rightarrow> bytes"
  lib_chunk_throws :: "bytes \<Rightarrow> bool"

definition min_file_chunk_size :: int where "min_file_chunk_size = 32"
definition max_file_chunk_size :: int where "max_file_chunk_size = 1024 * 1024"
definition max_file_size_limit :: int where "max_file_size_limit = 0x7ffff000"

record tp_options =
  to_download_directory :: bytes
  to_granularity :: int
  to_chunk_size :: int
  to_max_file_size :: int
  to_remove_transient :: bool

record ifile_item =
  ifi_addresser :: universal_id
  ifi_desc :: file_t
  ifi_data :: file_t
  ifi_filesize :: int

record ofile_item =
  ofi_addressee :: universal_id
  ofi_data :: file_t
  ofi_requested :: bool

datatype tp_event =
    TpFailure errc
  | TpReadySend universal_id universal_id byte bytes
  | TpUploadStopped universal_id universal_id
  | TpDownloadProgress universal_id universal_id int int
  | TpDownloadComplete universal_id universal_id bytes bool
  | TpDownloadInterrupted universal_id universal_id

record file_transporter =
  tp_opts :: tp_options
  tp_ifiles :: "(universal_id \<times> ifile_item) list"
  tp_ofiles :: "(universal_id \<times> ofile_item) list"
  tp_fs :: file_sys
  tp_events :: "tp_event list"

type_synonym 'a tact = "('a, file_transporter) act"

definition on_fs :: "('a, file_sys) act \<Rightarrow> 'a tact" where
  "on_fs = act_on tp_fs (\<lambda>s t. t\<lparr>tp_fs := s\<rparr>)"

definition tp_emit :: "tp_event \<Rightarrow> unit tact" where
  "tp_emit e t = (Inr (), t\<lparr>tp_events := tp_events t @ [e]\<rparr>)"

text \<open>The conversion of 64 bits to \<open>filesize_t\<close> and back, and values in the byte order of the machine.\<close>

definition i32 :: "u64 \<Rightarrow> int" where
  "i32 x = sint (ucast x :: u32)"

definition le32 :: "int \<Rightarrow> bytes" where
  "le32 x = rev (be32 (of_int x))"

definition le64 :: "u64 \<Rightarrow> bytes" where
  "le64 x = rev (be64 x)"

definition le_value :: "bytes \<Rightarrow> u64" where
  "le_value bs = be_value (rev bs)"

definition ascii :: "string \<Rightarrow> bytes" where
  "ascii s = map of_char s"

subsection \<open>Names\<close>

definition ensure_directory :: "bytes \<Rightarrow> (unit, file_sys) act" where
  "ensure_directory dir s =
     (if fs_exists dir s then ret () s
      else bnd (fs_create_directories (Thrown Filesystem_error) dir) (\<lambda>_. os_try (Thrown Filesystem_error)) s)"

definition make_transientfilepath :: "lib_ops \<Rightarrow> universal_id \<Rightarrow> universal_id \<Rightarrow> string \<Rightarrow> bytes tact" where
  "make_transientfilepath lib addresser fileid ext t =
     (let dir = path_join (path_join (to_download_directory (tp_opts t)) (lib_decode lib (lib_id lib addresser))) (ascii ''transient'')
      in bnd (on_fs (ensure_directory dir)) (\<lambda>_. ret (path_join dir (lib_decode lib (lib_id lib fileid @ ascii ext)))) t)"

definition make_descfilepath :: "lib_ops \<Rightarrow> universal_id \<Rightarrow> universal_id \<Rightarrow> bytes tact" where
  "make_descfilepath lib addresser fileid = make_transientfilepath lib addresser fileid ''.desc''"

definition make_datafilepath :: "lib_ops \<Rightarrow> universal_id \<Rightarrow> universal_id \<Rightarrow> bytes tact" where
  "make_datafilepath lib addresser fileid = make_transientfilepath lib addresser fileid ''.data''"

definition make_donefilepath :: "lib_ops \<Rightarrow> universal_id \<Rightarrow> universal_id \<Rightarrow> bytes tact" where
  "make_donefilepath lib addresser fileid = make_transientfilepath lib addresser fileid ''.done''"

definition make_errfilepath :: "lib_ops \<Rightarrow> universal_id \<Rightarrow> universal_id \<Rightarrow> bytes tact" where
  "make_errfilepath lib addresser fileid = make_transientfilepath lib addresser fileid ''.err''"

definition make_cachefilepath :: "lib_ops \<Rightarrow> universal_id \<Rightarrow> bytes tact" where
  "make_cachefilepath lib fileid t =
     (let dir = path_join (to_download_directory (tp_opts t)) (ascii ''.cache'')
      in bnd (on_fs (ensure_directory dir)) (\<lambda>_. ret (path_join dir (lib_decode lib (lib_id lib fileid @ ascii ''.desc'')))) t)"

text \<open>The loop that numbers a name until no file has it, and the name with an identifier.\<close>

definition uniq_target :: "lib_ops \<Rightarrow> bytes \<Rightarrow> bytes \<Rightarrow> nat + universal_id \<Rightarrow> bytes" where
  "uniq_target lib dir name x =
     path_join dir (path_stem name) @ lib_decode lib (lib_uniq lib x) @ path_extension name"

function numbered_target :: "lib_ops \<Rightarrow> bytes \<Rightarrow> bytes \<Rightarrow> file_sys \<Rightarrow> nat \<Rightarrow> bytes \<Rightarrow> bytes" where
  "numbered_target lib dir name s counter target =
     (if fs_exists target s \<and> counter < 2 ^ 31 - 1
      then numbered_target lib dir name s (Suc counter) (uniq_target lib dir name (Inl counter))
      else target)"
  by pat_completeness auto
termination by (relation "measure (\<lambda>(lib, dir, name, s, counter, target). 2 ^ 31 - 1 - counter)") auto

declare numbered_target.simps [simp del]

definition make_targetfilepath :: "lib_ops \<Rightarrow> universal_id \<Rightarrow> universal_id \<Rightarrow> bytes \<Rightarrow> bytes tact" where
  "make_targetfilepath lib gen addresser filename t =
     (let dir = path_join (to_download_directory (tp_opts t)) (lib_decode lib (lib_id lib addresser))
      in bnd (on_fs (ensure_directory dir)) (\<lambda>_ t.
        (let name = lib_decode lib filename; s = tp_fs t;
             target = path_join dir name;
             target = (if fs_exists target s then numbered_target lib dir name s 1 target else target);
             target = (if fs_exists target s then uniq_target lib dir name (Inr gen) else target)
         in if fs_exists target s then (Inl (Thrown Filesystem_error), t) else (Inr target, t))) t)"

definition remove_transient_files :: "lib_ops \<Rightarrow> universal_id \<Rightarrow> universal_id \<Rightarrow> unit tact" where
  "remove_transient_files lib addresser fileid =
     bnd (make_descfilepath lib addresser fileid) (\<lambda>desc.
     bnd (make_datafilepath lib addresser fileid) (\<lambda>dat.
     bnd (make_donefilepath lib addresser fileid) (\<lambda>don.
     bnd (make_errfilepath lib addresser fileid) (\<lambda>err.
     bnd (on_fs (fs_remove desc)) (\<lambda>_.
     bnd (on_fs (fs_remove dat)) (\<lambda>_.
     bnd (on_fs (fs_remove don)) (\<lambda>_. on_fs (fs_remove err))))))))"

subsection \<open>The pools\<close>

definition put_ifile :: "universal_id \<Rightarrow> ifile_item \<Rightarrow> unit tact" where
  "put_ifile fileid item t = (Inr (), t\<lparr>tp_ifiles := AList.update fileid item (tp_ifiles t)\<rparr>)"

definition locate_ifile_item :: "lib_ops \<Rightarrow> universal_id \<Rightarrow> universal_id \<Rightarrow> bool \<Rightarrow> ifile_item option tact" where
  "locate_ifile_item lib addresser fileid ensure t =
     (case map_of (tp_ifiles t) fileid of
        Some item \<Rightarrow> (Inr (Some item), t)
      | None \<Rightarrow>
          if ensure then
            bnd (make_descfilepath lib addresser fileid) (\<lambda>descpath.
            bnd (make_datafilepath lib addresser fileid) (\<lambda>datapath.
            bnd (on_fs (fl_open_write False descpath)) (\<lambda>desc.
            bnd (on_fs (fl_open_write False datapath)) (\<lambda>dat.
              (let item = \<lparr>ifi_addresser = addresser, ifi_desc = desc, ifi_data = dat, ifi_filesize = 0\<rparr>
               in bnd (put_ifile fileid item) (\<lambda>_. ret (Some item))))))) t
          else (Inr None, t))"

definition remove_ifile_item :: "universal_id \<Rightarrow> unit tact" where
  "remove_ifile_item fileid t = (Inr (), t\<lparr>tp_ifiles := AList.delete fileid (tp_ifiles t)\<rparr>)"

definition remove_ofile_item :: "universal_id \<Rightarrow> universal_id \<Rightarrow> unit tact" where
  "remove_ofile_item addressee fileid t =
     (Inr (), t\<lparr>tp_ofiles := filter (\<lambda>(f, o'). \<not> (f = fileid \<and> ofi_addressee o' = addressee)) (tp_ofiles t)\<rparr>)"

definition incoming_file_credentials :: "lib_ops \<Rightarrow> universal_id \<Rightarrow> universal_id \<Rightarrow> file_credentials tact" where
  "incoming_file_credentials lib addresser fileid =
     bnd (make_descfilepath lib addresser fileid) (\<lambda>descpath.
     bnd (on_fs (fl_open_read descpath)) (\<lambda>f.
     bnd (on_fs (fl_read_value 8 f)) (\<lambda>(offset, f).
     bnd (on_fs (fl_read_value 8 f)) (\<lambda>(size, f).
     bnd (on_fs (fl_read_all f)) (\<lambda>name.
       ret \<lparr>fc_fileid = fileid, fc_filename = name, fc_filesize = le_value size, fc_offset = le_value offset\<rparr>)))))"

definition cache_file_credentials :: "lib_ops \<Rightarrow> universal_id \<Rightarrow> bytes \<Rightarrow> unit tact" where
  "cache_file_credentials lib fileid abspath =
     bnd (make_cachefilepath lib fileid) (\<lambda>path. on_fs (fl_rewrite path abspath))"

definition uncache_file_credentials :: "lib_ops \<Rightarrow> universal_id \<Rightarrow> unit tact" where
  "uncache_file_credentials lib fileid = bnd (make_cachefilepath lib fileid) (\<lambda>path. on_fs (fs_remove path))"

subsection \<open>Incoming files\<close>

text \<open>The percents of a download are computed in single precision: a positive number is a fraction, rounded to
  24 significant bits, ties to even.\<close>

fun bit_size :: "nat \<Rightarrow> nat" where
  "bit_size n = (if n = 0 then 0 else Suc (bit_size (n div 2)))"

declare bit_size.simps [simp del]

definition round_even :: "nat \<times> nat \<Rightarrow> nat" where
  "round_even x = (case x of (n, d) \<Rightarrow>
     (let q = n div d; r = n mod d in if d < 2 * r \<or> (2 * r = d \<and> odd q) then q + 1 else q))"

definition scaled :: "nat \<times> nat \<Rightarrow> int \<Rightarrow> nat \<times> nat" where
  "scaled x e = (case x of (n, d) \<Rightarrow> if 0 \<le> e then (n * 2 ^ nat e, d) else (n, d * 2 ^ nat (- e)))"

definition f32 :: "nat \<times> nat \<Rightarrow> nat \<times> nat" where
  "f32 x =
     (if fst x = 0 then (0, 1)
      else
        (let e = 24 + int (bit_size (snd x)) - int (bit_size (fst x));
             e = (if 2 ^ 24 \<le> fst (scaled x e) div snd (scaled x e) then e - 1 else e)
         in scaled (round_even (scaled x e), 1) (- e)))"

definition f32_div :: "nat \<times> nat \<Rightarrow> nat \<times> nat \<Rightarrow> nat \<times> nat" where
  "f32_div x y = f32 (fst x * snd y, snd x * fst y)"

definition percents_of :: "int \<Rightarrow> int \<Rightarrow> int" where
  "percents_of offset filesize =
     (case f32_div (f32 (nat offset, 1)) (f32 (nat filesize, 1)) of (n, d) \<Rightarrow>
        (case f32 (100 * n, d) of (n, d) \<Rightarrow> int ((2 * n + d) div (2 * d))))"

definition pass_download_progress :: "int \<Rightarrow> int \<Rightarrow> int \<Rightarrow> int \<Rightarrow> bool" where
  "pass_download_progress granularity last_offset offset filesize \<longleftrightarrow>
     filesize = offset \<or> granularity = 0 \<or>
     (granularity > 0 \<and> percents_of offset filesize > percents_of last_offset filesize \<and> percents_of offset filesize mod granularity = 0)"

definition commit_chunk :: "lib_ops \<Rightarrow> universal_id \<Rightarrow> file_chunk \<Rightarrow> unit tact" where
  "commit_chunk lib addresser fc =
     bnd (locate_ifile_item lib addresser (ck_fileid fc) False) (\<lambda>found.
       case found of
         None \<Rightarrow> ret ()
       | Some p \<Rightarrow>
           bnd (on_fs (fl_set_pos (i32 (ck_offset fc)) (ifi_data p))) (\<lambda>dat.
             (let last_offset = fl_offset dat in
              bnd (on_fs (fl_write (ck_chunk fc) dat)) (\<lambda>(_, dat).
                (let offset = fl_offset dat in
                 bnd (on_fs (fl_set_pos 0 (ifi_desc p))) (\<lambda>desc.
                 bnd (on_fs (fl_write (le32 offset) desc)) (\<lambda>(_, desc).
                 bnd (put_ifile (ck_fileid fc) (p\<lparr>ifi_data := dat, ifi_desc := desc\<rparr>)) (\<lambda>_ t.
                   if ifi_filesize p > 0 \<and> pass_download_progress (to_granularity (tp_opts t)) last_offset offset (ifi_filesize p)
                   then tp_emit (TpDownloadProgress addresser (ck_fileid fc) offset (ifi_filesize p)) t
                   else (Inr (), t)))))))))"

definition complete_file :: "lib_ops \<Rightarrow> universal_id \<Rightarrow> universal_id \<Rightarrow> bool \<Rightarrow> unit tact" where
  "complete_file lib addressee fileid success =
     bnd (uncache_file_credentials lib fileid) (\<lambda>_. remove_ofile_item addressee fileid)"

definition notify_file_status :: "'i streams \<Rightarrow> universal_id \<Rightarrow> universal_id \<Rightarrow> byte \<Rightarrow> unit tact" where
  "notify_file_status io addressee fileid status =
     tp_emit (TpReadySend addressee fileid pt_file_state (ft_pack io \<lparr>ft_fileid = fileid, ft_status = status\<rparr>))"

definition commit_incoming_file :: "'i streams \<Rightarrow> lib_ops \<Rightarrow> universal_id \<Rightarrow> universal_id \<Rightarrow> universal_id \<Rightarrow> unit tact" where
  "commit_incoming_file io lib gen addresser fileid =
     bnd (locate_ifile_item lib addresser fileid False) (\<lambda>found.
       case found of
         None \<Rightarrow> tp_emit (TpFailure Filesystem_error)
       | Some p \<Rightarrow>
           bnd (make_descfilepath lib addresser fileid) (\<lambda>descpath.
           bnd (incoming_file_credentials lib addresser fileid) (\<lambda>fc.
           bnd (put_ifile fileid (p\<lparr>ifi_desc := fl_close (ifi_desc p), ifi_data := fl_close (ifi_data p)\<rparr>)) (\<lambda>_.
           bnd (make_donefilepath lib addresser fileid) (\<lambda>donepath.
           bnd (make_datafilepath lib addresser fileid) (\<lambda>datapath.
           bnd (make_targetfilepath lib gen addresser (fc_filename fc)) (\<lambda>target.
           bnd (on_fs (fs_rename descpath donepath)) (\<lambda>_.
           bnd (on_fs (fs_rename datapath target)) (\<lambda>_.
           bnd (notify_file_status io addresser fileid file_status_success) (\<lambda>_.
           bnd (tp_emit (TpDownloadComplete addresser fileid target True)) (\<lambda>_.
             remove_ifile_item fileid)))))))))))"

definition cache_incoming_file_credentials :: "lib_ops \<Rightarrow> universal_id \<Rightarrow> file_credentials \<Rightarrow> unit tact" where
  "cache_incoming_file_credentials lib addresser fc =
     bnd (make_descfilepath lib addresser (fc_fileid fc)) (\<lambda>descpath t.
       if fs_exists descpath (tp_fs t) then (Inr (), t)
       else
         bnd (make_datafilepath lib addresser (fc_fileid fc)) (\<lambda>datapath.
         bnd (on_fs (fl_open_write True descpath)) (\<lambda>desc.
         bnd (on_fs (fl_open_write True datapath)) (\<lambda>_.
         bnd (on_fs (fl_write (le64 (fc_offset fc)) desc)) (\<lambda>(_, desc).
         bnd (on_fs (fl_write (le64 (fc_filesize fc)) desc)) (\<lambda>(_, desc).
         bnd (on_fs (fl_write (fc_filename fc) desc)) (\<lambda>_. ret ())))))) t)"

subsection \<open>Construction\<close>

definition tp_new :: "tp_options \<Rightarrow> file_sys \<Rightarrow> file_transporter result \<times> file_sys" where
  "tp_new opts s =
     bnd (ensure_directory (to_download_directory opts)) (\<lambda>_ s.
       if to_chunk_size opts < min_file_chunk_size \<or> to_chunk_size opts > max_file_chunk_size
          \<or> to_max_file_size opts < 0 \<or> to_max_file_size opts > max_file_size_limit
          \<or> to_granularity opts < 0 \<or> to_granularity opts > 100
       then (Inl (Thrown Invalid_argument), s)
       else (Inr \<lparr>tp_opts = opts, tp_ifiles = [], tp_ofiles = [], tp_fs = s, tp_events = []\<rparr>, s)) s"

subsection \<open>Requests and stops\<close>

definition send_file_request :: "'i streams \<Rightarrow> lib_ops \<Rightarrow> universal_id \<Rightarrow> universal_id \<Rightarrow> unit tact" where
  "send_file_request io lib addressee fileid =
     bnd (incoming_file_credentials lib addressee fileid) (\<lambda>fc.
     bnd (make_datafilepath lib addressee fileid) (\<lambda>datapath.
     bnd (on_fs (fs_file_size datapath)) (\<lambda>filesize.
       (let offset = (if fc_offset fc > filesize then filesize else fc_offset fc) in
        bnd (locate_ifile_item lib addressee fileid True) (\<lambda>found.
        bnd (case found of None \<Rightarrow> ret () | Some p \<Rightarrow> put_ifile fileid (p\<lparr>ifi_filesize := i32 (fc_filesize fc)\<rparr>)) (\<lambda>_.
          tp_emit (TpReadySend addressee fileid pt_file_request (fp_pack io \<lparr>fp_fileid = fileid, fp_offset = offset\<rparr>))))))))"

definition stop_file :: "'i streams \<Rightarrow> universal_id \<Rightarrow> universal_id \<Rightarrow> unit tact" where
  "stop_file io addressee fileid =
     bnd (remove_ifile_item fileid) (\<lambda>_. tp_emit (TpReadySend addressee fileid pt_file_stop (fid_pack io fileid)))"

subsection \<open>Handlers of packets\<close>

definition process_file_credentials :: "'i streams \<Rightarrow> lib_ops \<Rightarrow> universal_id \<Rightarrow> bytes \<Rightarrow> unit tact" where
  "process_file_credentials io lib addresser data =
     (let fc = fst (fc_unpack io (in_open io data))
      in bnd (cache_incoming_file_credentials lib addresser fc) (\<lambda>_. send_file_request io lib addresser (fc_fileid fc)))"

definition process_file_request :: "'i streams \<Rightarrow> lib_ops \<Rightarrow> universal_id \<Rightarrow> bytes \<Rightarrow> unit tact" where
  "process_file_request io lib addresser data =
     (let fr = fst (fp_unpack io (in_open io data))
      in bnd (make_cachefilepath lib (fp_fileid fr)) (\<lambda>cachepath.
         bnd (on_fs (read_all_path cachepath)) (\<lambda>orig_path.
           if orig_path = [] then ret ()
           else
             bnd (on_fs (fl_open_read orig_path)) (\<lambda>f.
             bnd (on_fs (fl_set_pos (i32 (fp_offset fr)) f)) (\<lambda>f.
             bnd (\<lambda>t. (Inr (), t\<lparr>tp_ofiles := tp_ofiles t @
                 [(fp_fileid fr, \<lparr>ofi_addressee = addresser, ofi_data = f, ofi_requested = True\<rparr>)]\<rparr>)) (\<lambda>_.
               tp_emit (TpReadySend addresser (fp_fileid fr) pt_file_begin (fp_pack io fr))))))))"

definition process_file_stop :: "'i streams \<Rightarrow> universal_id \<Rightarrow> bytes \<Rightarrow> unit tact" where
  "process_file_stop io addresser data =
     (let fileid = fst (fid_unpack io (in_open io data))
      in bnd (remove_ofile_item addresser fileid) (\<lambda>_. tp_emit (TpUploadStopped addresser fileid)))"

definition process_file_begin :: "'i streams \<Rightarrow> lib_ops \<Rightarrow> universal_id \<Rightarrow> bytes \<Rightarrow> unit tact" where
  "process_file_begin io lib addresser data =
     (let fb = fst (fp_unpack io (in_open io data))
      in bnd (locate_ifile_item lib addresser (fp_fileid fb) False) (\<lambda>found.
           case found of
             None \<Rightarrow> ret ()
           | Some p \<Rightarrow> tp_emit (TpDownloadProgress addresser (fp_fileid fb) (i32 (fp_offset fb)) (ifi_filesize p))))"

text \<open>The handler of what reading a chunk and \<open>commit_chunk\<close> throw. The loop over all files erases the element that the range
  \<open>for\<close> then advances from.\<close>

definition chunk_failed :: "'i streams \<Rightarrow> lib_ops \<Rightarrow> universal_id \<Rightarrow> bytes \<Rightarrow> unit tact" where
  "chunk_failed io lib addresser data =
     (let fileid = fst (in_id io (in_open io data))
      in bnd (locate_ifile_item lib addresser fileid False) (\<lambda>found t.
           case found of
             Some _ \<Rightarrow> bnd (tp_emit (TpFailure Filesystem_error)) (\<lambda>_. stop_file io addresser fileid) t
           | None \<Rightarrow>
               (case tp_ifiles t of
                  [(f, _)] \<Rightarrow> bnd (tp_emit (TpFailure Filesystem_error)) (\<lambda>_. stop_file io addresser f) t
                | items \<Rightarrow>
                    bnd (tp_emit (TpFailure Filesystem_error)) (\<lambda>_.
                      if \<exists>(f, x) \<in> set items. ifi_addresser x = addresser then fails Undefined else ret ()) t)))"

definition process_file_chunk :: "'i streams \<Rightarrow> lib_ops \<Rightarrow> universal_id \<Rightarrow> bytes \<Rightarrow> unit tact" where
  "process_file_chunk io lib addresser data t =
     (if lib_chunk_throws lib data then chunk_failed io lib addresser data t
      else case commit_chunk lib addresser (fst (ck_unpack io (in_open io data))) t of
             (Inl (Thrown e), t) \<Rightarrow> chunk_failed io lib addresser data t
           | out \<Rightarrow> out)"

definition process_file_end :: "'i streams \<Rightarrow> lib_ops \<Rightarrow> universal_id \<Rightarrow> universal_id \<Rightarrow> bytes \<Rightarrow> unit tact" where
  "process_file_end io lib gen addresser data =
     commit_incoming_file io lib gen addresser (fst (fid_unpack io (in_open io data)))"

definition process_file_state :: "'i streams \<Rightarrow> lib_ops \<Rightarrow> universal_id \<Rightarrow> bytes \<Rightarrow> unit tact" where
  "process_file_state io lib addresser data =
     (let fs = fst (ft_unpack io (in_open io data))
      in if ft_status fs = file_status_success then complete_file lib addresser (ft_fileid fs) True else ret ())"

definition process_file_data :: "'i streams \<Rightarrow> lib_ops \<Rightarrow> universal_id \<Rightarrow> universal_id \<Rightarrow> byte \<Rightarrow> bytes \<Rightarrow> unit tact" where
  "process_file_data io lib gen addresser packettype data =
     (if packettype = pt_file_credentials then process_file_credentials io lib addresser data
      else if packettype = pt_file_request then process_file_request io lib addresser data
      else if packettype = pt_file_stop then process_file_stop io addresser data
      else if packettype = pt_file_chunk then process_file_chunk io lib addresser data
      else if packettype = pt_file_begin then process_file_begin io lib addresser data
      else if packettype = pt_file_end then process_file_end io lib gen addresser data
      else if packettype = pt_file_state then process_file_state io lib addresser data
      else ret ())"

subsection \<open>Expiration\<close>

definition expire_addressee :: "universal_id \<Rightarrow> unit tact" where
  "expire_addressee addressee t = (Inr (), t\<lparr>tp_ofiles := filter (\<lambda>(f, o'). ofi_addressee o' \<noteq> addressee) (tp_ofiles t)\<rparr>)"

definition expire_addresser :: "universal_id \<Rightarrow> unit tact" where
  "expire_addresser addresser t =
     (Inr (), t\<lparr>tp_ifiles := filter (\<lambda>(f, i). ifi_addresser i \<noteq> addresser) (tp_ifiles t),
       tp_events := tp_events t @ map (\<lambda>(f, i). TpDownloadInterrupted addresser f) (filter (\<lambda>(f, i). ifi_addresser i = addresser) (tp_ifiles t))\<rparr>)"

subsection \<open>Sending\<close>

definition send_credentials :: "'i streams \<Rightarrow> lib_ops \<Rightarrow> universal_id \<Rightarrow> file_credentials \<Rightarrow> bytes \<Rightarrow> universal_id tact" where
  "send_credentials io lib addressee fc abspath =
     bnd (cache_file_credentials lib (fc_fileid fc) abspath) (\<lambda>_.
     bnd (tp_emit (TpReadySend addressee (fc_fileid fc) pt_file_credentials (fc_pack io fc))) (\<lambda>_. ret (fc_fileid fc)))"

definition send_file :: "'i streams \<Rightarrow> lib_ops \<Rightarrow> universal_id \<Rightarrow> universal_id \<Rightarrow> universal_id \<Rightarrow> bytes \<Rightarrow> universal_id tact" where
  "send_file io lib gen addressee fileid path =
     bnd (on_fs (fs_file_size path)) (\<lambda>size t.
       if size > of_int (to_max_file_size (tp_opts t)) then (Inr 0, t)
       else case on_fs (fl_open_read path) t of
              (Inl (Thrown e), t) \<Rightarrow> (Inr 0, t)
            | (Inl f, t) \<Rightarrow> (Inl f, t)
            | (Inr _, t) \<Rightarrow>
                bnd (on_fs (fs_file_size path)) (\<lambda>size.
                  send_credentials io lib addressee
                    \<lparr>fc_fileid = (if fileid = 0 then gen else fileid), fc_filename = lib_encode lib (path_filename path),
                     fc_filesize = of_int (i32 size), fc_offset = 0\<rparr> (lib_encode lib (lib_absolute lib path))) t)"

text \<open>The overload for a file that is not in the file system: its size is narrowed to 32 bits.\<close>

definition send_file_named :: "'i streams \<Rightarrow> lib_ops \<Rightarrow> universal_id \<Rightarrow> universal_id \<Rightarrow> universal_id \<Rightarrow> bytes \<Rightarrow> bytes \<Rightarrow> u64 \<Rightarrow> universal_id tact" where
  "send_file_named io lib gen addressee fileid path display_name filesize =
     send_credentials io lib addressee
       \<lparr>fc_fileid = (if fileid = 0 then gen else fileid), fc_filename = display_name, fc_filesize = of_int (i32 filesize), fc_offset = 0\<rparr> path"

text \<open>\<open>request_chunk\<close> marks the first item of the file for the addressee.\<close>

fun mark_requested :: "universal_id \<Rightarrow> universal_id \<Rightarrow> (universal_id \<times> ofile_item) list \<Rightarrow> (universal_id \<times> ofile_item) list option" where
  "mark_requested addressee fileid [] = None"
| "mark_requested addressee fileid ((f, o') # items) =
     (if f = fileid \<and> ofi_addressee o' = addressee then Some ((f, o'\<lparr>ofi_requested := True\<rparr>) # items)
      else map_option (\<lambda>items. (f, o') # items) (mark_requested addressee fileid items))"

definition request_chunk :: "universal_id \<Rightarrow> universal_id \<Rightarrow> bool tact" where
  "request_chunk addressee fileid t =
     (case mark_requested addressee fileid (tp_ofiles t) of
        None \<Rightarrow> (Inr False, t)
      | Some items \<Rightarrow> (Inr True, t\<lparr>tp_ofiles := items\<rparr>))"

text \<open>One item of the loop of \<open>step\<close>: the item that stays, if any. An item whose file cannot be read stays
  unmarked when the exception leaves the loop.\<close>

definition serve_ofile :: "'i streams \<Rightarrow> universal_id \<Rightarrow> ofile_item \<Rightarrow> (universal_id \<times> ofile_item) list tact" where
  "serve_ofile io fileid o' t =
     (let offset = fl_offset (ofi_data o')
      in bnd (on_fs (fl_read (to_chunk_size (tp_opts t)) (ofi_data o'))) (\<lambda>(chunk, f).
           if chunk = [] then
             bnd (tp_emit (TpReadySend (ofi_addressee o') fileid pt_file_end (fid_pack io fileid))) (\<lambda>_. ret [])
           else
             bnd (tp_emit (TpReadySend (ofi_addressee o') fileid pt_file_chunk
                (ck_pack io \<lparr>ck_fileid = fileid, ck_offset = of_int offset, ck_chunksize = of_nat (length chunk), ck_chunk = chunk\<rparr>)))
               (\<lambda>_. ret [(fileid, o'\<lparr>ofi_data := f\<rparr>)])) t)"

fun step_loop :: "'i streams \<Rightarrow> (universal_id \<Rightarrow> bool) \<Rightarrow> (universal_id \<times> ofile_item) list \<Rightarrow> (universal_id \<times> ofile_item) list \<Rightarrow> nat \<Rightarrow> nat tact" where
  "step_loop io ready before [] n t = (Inr n, t\<lparr>tp_ofiles := before\<rparr>)"
| "step_loop io ready before ((f, o') # items) n t =
     (if \<not> ready (ofi_addressee o') \<or> \<not> ofi_requested o' then step_loop io ready (before @ [(f, o')]) items n t
      else
        (let o' = o'\<lparr>ofi_requested := False\<rparr>
         in case serve_ofile io f o' t of
              (Inl e, t) \<Rightarrow> (Inl e, t\<lparr>tp_ofiles := before @ (f, o') # items\<rparr>)
            | (Inr kept, t) \<Rightarrow> step_loop io ready (before @ kept) items (Suc n) t))"

definition tp_step :: "'i streams \<Rightarrow> (universal_id \<Rightarrow> bool) \<Rightarrow> nat tact" where
  "tp_step io ready t = step_loop io ready [] (tp_ofiles t) 0 t"

text \<open>\<open>wipe\<close> of a directory, over what the traversal of it reports: with a place for an error it goes on after a
  failure, without one it throws.\<close>

datatype traversal = TvEntry bytes | TvLeave bytes | TvEntryError | TvError

definition remove_all :: "bytes \<Rightarrow> (unit, file_sys) act" where
  "remove_all dir = bnd (os_try (Thrown Filesystem_error)) (\<lambda>_ s.
     (Inr (), s\<lparr>fs_files := (\<lambda>p. if take (Suc (length dir)) p = dir @ [slash] then None else fs_files s p),
       fs_dirs := {d \<in> fs_dirs s. d \<noteq> dir \<and> take (Suc (length dir)) d \<noteq> dir @ [slash]}\<rparr>))"

fun wipe_visit :: "bytes \<Rightarrow> traversal \<Rightarrow> (unit, file_sys) act" where
  "wipe_visit download_dir (TvEntry path) =
     bnd (os_try (Thrown Filesystem_error)) (\<lambda>_ s. (Inr (), s\<lparr>fs_files := (fs_files s)(path := None)\<rparr>))"
| "wipe_visit download_dir (TvLeave dir) = (if dir \<noteq> download_dir then remove_all dir else ret ())"
| "wipe_visit download_dir TvEntryError = fails (Thrown Filesystem_error)"
| "wipe_visit download_dir TvError = fails (Thrown Filesystem_error)"

fun wipe_loop :: "bool \<Rightarrow> bytes \<Rightarrow> traversal list \<Rightarrow> (unit, file_sys) act" where
  "wipe_loop perr download_dir [] = ret ()"
| "wipe_loop perr download_dir (v # vs) =
     (\<lambda>s. case wipe_visit download_dir v s of
        (Inl e, s) \<Rightarrow> if perr then wipe_loop perr download_dir vs s else (Inl e, s)
      | (Inr _, s) \<Rightarrow> wipe_loop perr download_dir vs s)"

definition tp_wipe :: "bool \<Rightarrow> traversal list \<Rightarrow> unit tact" where
  "tp_wipe perr visits t =
     (if to_download_directory (tp_opts t) = [] then (Inr (), t)
      else on_fs (wipe_loop perr (to_download_directory (tp_opts t)) visits) t)"

end
