(* ===== verification/FileTransfer.thy ===== *)
theory FileTransfer
  imports FileTransporter
begin

text \<open>
  The transfer of a file between two transporters: names and files at the receiver, what each handler
  does while the calls of the operating system succeed, and the exchange of their packets in any order.
\<close>

subsection \<open>Values in 32 and 64 bits\<close>

lemma i32_of_nat:
  assumes "n < 2 ^ 31"
  shows "i32 (of_nat n) = int n"
proof -
  have "(ucast (of_nat n :: u64) :: u32) = of_nat n" by (rule bit_word_eqI) (simp add: bit_simps)
  with assms show ?thesis by (simp add: i32_def signed_of_nat signed_take_bit_int_eq_self)
qed

lemma high_bits_0:
  assumes "unat (x :: u64) < 2 ^ 32"
  shows "drop_bit 32 x = 0"
proof -
  have "unat (drop_bit 32 x) = 0" using assms by (simp add: drop_bit_eq_div unat_div)
  then show ?thesis by (simp only: unat_eq_zero)
qed

lemma i32_of_int: "0 \<le> x \<Longrightarrow> x < 2 ^ 31 \<Longrightarrow> i32 (of_int x) = x"
  using i32_of_nat [of "nat x"] by simp

lemma fl_offset_pos: "fh_pos h < 2 ^ 31 \<Longrightarrow> fl_offset (Some h) = int (fh_pos h)"
  by (simp add: fl_offset_def signed_of_nat signed_take_bit_int_eq_self)

lemma le64_length [simp]: "length (le64 x) = 8"
  by (simp add: le64_def be64_length)

lemma le_value_le64 [simp]: "le_value (le64 x) = x"
  by (simp add: le_value_def le64_def be64_value)

lemma le32_length [simp]: "length (le32 x) = 4"
  by (simp add: le32_def be32_def)

text \<open>The four bytes that a chunk writes over the eight of the offset leave a value below \<open>2 ^ 32\<close> whole.\<close>

lemma le64_low:
  assumes "unat x < 2 ^ 32" and "0 \<le> y" and "y < 2 ^ 31"
  shows "write_at 0 (le32 y) (le64 x @ r) = le64 (of_int y) @ r"
proof -
  have z: "drop_bit 32 x = 0" "drop_bit 32 (of_int y :: u64) = 0"
    by (rule high_bits_0, use assms in \<open>simp add: unsigned_of_int take_bit_int_eq_self\<close>)+
  have "(ucast (of_int y :: u64) :: u32) = of_int y"
    by (rule bit_word_eqI) (use assms in \<open>simp add: bit_simps\<close>)
  with z show ?thesis by (simp add: write_at_def le32_def le64_def be64_def be32_def)
qed

subsection \<open>Names\<close>

definition peer_dir :: "lib_ops \<Rightarrow> tp_options \<Rightarrow> universal_id \<Rightarrow> bytes" where
  "peer_dir lib opts addresser = path_join (to_download_directory opts) (lib_decode lib (lib_id lib addresser))"

definition transient_dir :: "lib_ops \<Rightarrow> tp_options \<Rightarrow> universal_id \<Rightarrow> bytes" where
  "transient_dir lib opts addresser = path_join (peer_dir lib opts addresser) (ascii ''transient'')"

definition transient_path :: "lib_ops \<Rightarrow> tp_options \<Rightarrow> universal_id \<Rightarrow> universal_id \<Rightarrow> string \<Rightarrow> bytes" where
  "transient_path lib opts addresser fileid ext =
     path_join (transient_dir lib opts addresser) (lib_decode lib (lib_id lib fileid @ ascii ext))"

definition target_path :: "lib_ops \<Rightarrow> tp_options \<Rightarrow> universal_id \<Rightarrow> bytes \<Rightarrow> bytes" where
  "target_path lib opts addresser name = path_join (peer_dir lib opts addresser) (lib_decode lib name)"

definition cache_dir :: "tp_options \<Rightarrow> bytes" where
  "cache_dir opts = path_join (to_download_directory opts) (ascii ''.cache'')"

definition cache_path :: "lib_ops \<Rightarrow> tp_options \<Rightarrow> universal_id \<Rightarrow> bytes" where
  "cache_path lib opts fileid = path_join (cache_dir opts) (lib_decode lib (lib_id lib fileid @ ascii ''.desc''))"

lemma on_fs_ok [simp]: "m (tp_fs t) = (r, s) \<Longrightarrow> on_fs m t = (r, t\<lparr>tp_fs := s\<rparr>)"
  by (simp add: on_fs_def)

lemma tp_same_fs [simp]: "t\<lparr>tp_fs := tp_fs t\<rparr> = (t :: file_transporter)"
  by simp

lemma ensure_directory_exists [simp]: "fs_exists dir s \<Longrightarrow> ensure_directory dir s = (Inr (), s)"
  by (simp add: ensure_directory_def)

lemma make_transient:
  assumes "fs_exists (transient_dir lib (tp_opts t) addresser) (tp_fs t)"
  shows "make_transientfilepath lib addresser fileid ext t = (Inr (transient_path lib (tp_opts t) addresser fileid ext), t)"
  using assms by (simp add: make_transientfilepath_def transient_path_def transient_dir_def peer_dir_def Let_def)

lemma make_cache:
  assumes "fs_exists (cache_dir (tp_opts t)) (tp_fs t)"
  shows "make_cachefilepath lib fileid t = (Inr (cache_path lib (tp_opts t) fileid), t)"
  using assms by (simp add: make_cachefilepath_def cache_path_def cache_dir_def Let_def)

lemma make_target:
  assumes "fs_exists (peer_dir lib (tp_opts t) addresser) (tp_fs t)" and "\<not> fs_exists (target_path lib (tp_opts t) addresser name) (tp_fs t)"
  shows "make_targetfilepath lib gen addresser name t = (Inr (target_path lib (tp_opts t) addresser name), t)"
  using assms by (simp add: make_targetfilepath_def target_path_def peer_dir_def Let_def)

subsection \<open>A download\<close>

text \<open>What a download is of, and the names of its files.\<close>

record download =
  dw_lib :: lib_ops
  dw_from :: universal_id
  dw_file :: universal_id
  dw_name :: bytes
  dw_size :: u64

definition dw_path :: "download \<Rightarrow> file_transporter \<Rightarrow> string \<Rightarrow> bytes" where
  "dw_path x t ext = transient_path (dw_lib x) (tp_opts t) (dw_from x) (dw_file x) ext"

definition dw_target :: "download \<Rightarrow> file_transporter \<Rightarrow> bytes" where
  "dw_target x t = target_path (dw_lib x) (tp_opts t) (dw_from x) (dw_name x)"

text \<open>No call of the system fails or is short and no chunk is too big to be read, the directories exist, the four names differ,
  no directory has one of them, and no file has the last.\<close>

definition names_ok :: "download \<Rightarrow> file_transporter \<Rightarrow> bool" where
  "names_ok x t \<longleftrightarrow> calm (tp_fs t) \<and> (\<forall>d. \<not> lib_chunk_throws (dw_lib x) d) \<and> peer_dir (dw_lib x) (tp_opts t) (dw_from x) \<in> fs_dirs (tp_fs t) \<and>
     transient_dir (dw_lib x) (tp_opts t) (dw_from x) \<in> fs_dirs (tp_fs t) \<and>
     distinct [dw_path x t ''.desc'', dw_path x t ''.data'', dw_path x t ''.done'', dw_target x t] \<and>
     dw_path x t ''.desc'' \<notin> fs_dirs (tp_fs t) \<and> dw_path x t ''.data'' \<notin> fs_dirs (tp_fs t) \<and>
     dw_path x t ''.done'' \<notin> fs_dirs (tp_fs t) \<and> dw_target x t \<notin> fs_dirs (tp_fs t) \<and> fs_files (tp_fs t) (dw_target x t) = None"

text \<open>The two files of a download of which \<open>got\<close> has arrived.\<close>

definition stored :: "download \<Rightarrow> nat \<Rightarrow> nat \<Rightarrow> bytes \<Rightarrow> file_transporter \<Rightarrow> bool" where
  "stored x i j got t \<longleftrightarrow> i \<noteq> j \<and> fs_files (tp_fs t) (dw_path x t ''.desc'') = Some i \<and> fs_files (tp_fs t) (dw_path x t ''.data'') = Some j \<and>
     fs_data (tp_fs t) j = got \<and> fs_data (tp_fs t) i = le64 (of_nat (length got)) @ le64 (dw_size x) @ dw_name x \<and> length got < 2 ^ 31"

definition partial :: "download \<Rightarrow> bytes \<Rightarrow> file_transporter \<Rightarrow> bool" where
  "partial x got t \<longleftrightarrow> names_ok x t \<and> (\<exists>i j. stored x i j got t) \<and> map_of (tp_ifiles t) (dw_file x) = None"

definition downloading :: "download \<Rightarrow> bytes \<Rightarrow> file_transporter \<Rightarrow> bool" where
  "downloading x got t \<longleftrightarrow> names_ok x t \<and>
     (\<exists>p hi hj. map_of (tp_ifiles t) (dw_file x) = Some p \<and> ifi_desc p = Some hi \<and> ifi_data p = Some hj \<and>
        stored x (fh_inode hi) (fh_inode hj) got t)"

text \<open>Callbacks other than the completion of a download and packets to be sent.\<close>

fun progress_only :: "tp_event \<Rightarrow> bool" where
  "progress_only (TpDownloadProgress a f n m) = True"
| "progress_only _ = False"

lemma dw_path_updates [simp]:
  "dw_path x (t\<lparr>tp_ifiles := is\<rparr>) = dw_path x t" "dw_path x (t\<lparr>tp_ofiles := os\<rparr>) = dw_path x t"
  "dw_path x (t\<lparr>tp_fs := s\<rparr>) = dw_path x t" "dw_path x (t\<lparr>tp_events := es\<rparr>) = dw_path x t"
  "dw_target x (t\<lparr>tp_ifiles := is\<rparr>) = dw_target x t" "dw_target x (t\<lparr>tp_ofiles := os\<rparr>) = dw_target x t"
  "dw_target x (t\<lparr>tp_fs := s\<rparr>) = dw_target x t" "dw_target x (t\<lparr>tp_events := es\<rparr>) = dw_target x t"
  by (simp_all add: dw_path_def dw_target_def fun_eq_iff)

lemma dw_make:
  assumes "names_ok x t"
  shows "make_descfilepath (dw_lib x) (dw_from x) (dw_file x) t = (Inr (dw_path x t ''.desc''), t)"
    and "make_datafilepath (dw_lib x) (dw_from x) (dw_file x) t = (Inr (dw_path x t ''.data''), t)"
    and "make_donefilepath (dw_lib x) (dw_from x) (dw_file x) t = (Inr (dw_path x t ''.done''), t)"
    and "make_targetfilepath (dw_lib x) gen (dw_from x) (dw_name x) t = (Inr (dw_target x t), t)"
  using assms
  by (simp_all add: make_descfilepath_def make_datafilepath_def make_donefilepath_def dw_path_def dw_target_def names_ok_def
      make_transient make_target fs_exists_def)

text \<open>The description of a download read back.\<close>

lemma incoming_credentials:
  assumes "names_ok x t" and "stored x i j got t"
  shows "incoming_file_credentials (dw_lib x) (dw_from x) (dw_file x) t =
    (Inr \<lparr>fc_fileid = dw_file x, fc_filename = dw_name x, fc_filesize = dw_size x, fc_offset = of_nat (length got)\<rparr>, t)"
proof -
  have c: "calm (tp_fs t)" "fs_files (tp_fs t) (dw_path x t ''.desc'') = Some i"
    and d: "fs_data (tp_fs t) i = le64 (of_nat (length got)) @ le64 (dw_size x) @ dw_name x"
    using assms by (simp_all add: names_ok_def stored_def)
  have "fl_read_value 8 (Some \<lparr>fh_inode = i, fh_pos = 0\<rparr>) (tp_fs t) = (Inr (le64 (of_nat (length got)), Some \<lparr>fh_inode = i, fh_pos = 8\<rparr>), tp_fs t)"
    "fl_read_value 8 (Some \<lparr>fh_inode = i, fh_pos = 8\<rparr>) (tp_fs t) = (Inr (le64 (dw_size x), Some \<lparr>fh_inode = i, fh_pos = 16\<rparr>), tp_fs t)"
    "fl_read_all (Some \<lparr>fh_inode = i, fh_pos = 16\<rparr>) (tp_fs t) = (Inr (dw_name x), tp_fs t)"
    using c d by (simp_all add: fl_read_value_calm fl_read_all_calm)
  with assms(1) c show ?thesis by (simp add: incoming_file_credentials_def dw_make open_calm)
qed

text \<open>A request for the rest of a download.\<close>

lemma request_rest:
  assumes "partial x got t"
  obtains t' where "send_file_request io (dw_lib x) (dw_from x) (dw_file x) t = (Inr (), t')"
    and "downloading x got t'"
    and "tp_events t' = tp_events t @ [TpReadySend (dw_from x) (dw_file x) pt_file_request (fp_pack io \<lparr>fp_fileid = dw_file x, fp_offset = of_nat (length got)\<rparr>)]"
proof -
  have n: "names_ok x t" and none: "map_of (tp_ifiles t) (dw_file x) = None" using assms by (simp_all add: partial_def)
  obtain i j where st: "stored x i j got t" using assms by (auto simp: partial_def)
  have c: "calm (tp_fs t)" "dw_path x t ''.desc'' \<notin> fs_dirs (tp_fs t)" "dw_path x t ''.data'' \<notin> fs_dirs (tp_fs t)" using n by (simp_all add: names_ok_def)
  have f: "fs_files (tp_fs t) (dw_path x t ''.desc'') = Some i" "fs_files (tp_fs t) (dw_path x t ''.data'') = Some j" "fs_data (tp_fs t) j = got"
    using st by (simp_all add: stored_def)
  let ?p = "\<lparr>ifi_addresser = dw_from x, ifi_desc = Some \<lparr>fh_inode = i, fh_pos = 0\<rparr>, ifi_data = Some \<lparr>fh_inode = j, fh_pos = 0\<rparr>, ifi_filesize = 0\<rparr>"
  let ?q = "?p\<lparr>ifi_filesize := i32 (dw_size x)\<rparr>"
  let ?t = "t\<lparr>tp_ifiles := AList.update (dw_file x) ?p (tp_ifiles t)\<rparr>"
  let ?ev = "TpReadySend (dw_from x) (dw_file x) pt_file_request (fp_pack io \<lparr>fp_fileid = dw_file x, fp_offset = of_nat (length got)\<rparr>)"
  let ?t' = "t\<lparr>tp_ifiles := AList.update (dw_file x) ?q (AList.update (dw_file x) ?p (tp_ifiles t)), tp_events := tp_events t @ [?ev]\<rparr>"
  have l: "locate_ifile_item (dw_lib x) (dw_from x) (dw_file x) True t = (Inr (Some ?p), ?t)"
    using none dw_make [OF n] open_calm(2) [OF c(1) f(1) c(2)] open_calm(2) [OF c(1) f(2) c(3)] by (simp add: locate_ifile_item_def put_ifile_def Let_def)
  have r: "send_file_request io (dw_lib x) (dw_from x) (dw_file x) t = (Inr (), ?t')"
    using incoming_credentials [OF n st] dw_make [OF n] f l
    by (simp add: send_file_request_def fs_file_size_def Let_def put_ifile_def tp_emit_def)
  have "downloading x got ?t'"
    using n st by (simp add: downloading_def names_ok_def stored_def update_conv')
  with r show ?thesis by (rule that) simp
qed

text \<open>A chunk that follows what has arrived.\<close>

lemma chunk_stored:
  assumes "byte_streams io v" and "downloading x got t" and "c \<noteq> []" and "length got + length c < 2 ^ 31"
  obtains t' es where "process_file_chunk io (dw_lib x) (dw_from x)
      (ck_pack io \<lparr>ck_fileid = dw_file x, ck_offset = of_nat (length got), ck_chunksize = of_nat (length c), ck_chunk = c\<rparr>) t = (Inr (), t')"
    and "downloading x (got @ c) t'" and "tp_events t' = tp_events t @ es" and "list_all progress_only es"
proof -
  let ?c = "\<lparr>ck_fileid = dw_file x, ck_offset = of_nat (length got), ck_chunksize = of_nat (length c), ck_chunk = c\<rparr> :: file_chunk"
  have u: "fst (ck_unpack io (in_open io (ck_pack io ?c))) = ?c"
    using readsD(1) [OF byte_streams.ck_reads [OF assms(1), of ?c], of "in_open io (ck_pack io ?c)" "[]"]
      byte_streams.open_view [OF assms(1)] assms(4) by simp
  obtain p hi hj where p: "map_of (tp_ifiles t) (dw_file x) = Some p" "ifi_desc p = Some hi" "ifi_data p = Some hj"
    and st: "stored x (fh_inode hi) (fh_inode hj) got t" and n: "names_ok x t"
    using assms(2) by (auto simp: downloading_def)
  let ?hj = "hj\<lparr>fh_pos := length got + length c\<rparr>" and ?hi = "hi\<lparr>fh_pos := 4\<rparr>"
  let ?off = "int (length got + length c)"
  let ?s = "tp_fs t"
  let ?s' = "?s\<lparr>fs_data := (fs_data ?s)(fh_inode hj := got @ c, fh_inode hi := le64 (of_int ?off) @ le64 (dw_size x) @ dw_name x)\<rparr>"
  let ?t = "t\<lparr>tp_fs := ?s', tp_ifiles := AList.update (dw_file x) (p\<lparr>ifi_data := Some ?hj, ifi_desc := Some ?hi\<rparr>) (tp_ifiles t)\<rparr>"
  have calm: "calm ?s" using n by (simp add: names_ok_def)
  have s: "fh_inode hi \<noteq> fh_inode hj" "fs_data ?s (fh_inode hj) = got"
    "fs_data ?s (fh_inode hi) = le64 (of_nat (length got)) @ le64 (dw_size x) @ dw_name x" using st by (simp_all add: stored_def)
  have w1: "fl_write c (Some (hj\<lparr>fh_pos := length got\<rparr>)) ?s = (Inr (length c, Some ?hj), ?s\<lparr>fs_data := (fs_data ?s)(fh_inode hj := got @ c)\<rparr>)"
    using fl_write_calm [OF calm assms(3)] s(2) by (simp add: write_at_end)
  have ne: "le32 ?off \<noteq> []" by (metis le32_length list.size(3) zero_neq_numeral)
  have e: "write_at 0 (le32 ?off) (le64 (of_nat (length got)) @ r) = le64 (of_int ?off) @ r" for r
    by (rule le64_low) (use assms(4) in \<open>simp_all add: unsigned_of_nat take_bit_nat_eq_self\<close>)
  have w2: "fl_write (le32 ?off) (Some (hi\<lparr>fh_pos := 0\<rparr>)) (?s\<lparr>fs_data := (fs_data ?s)(fh_inode hj := got @ c)\<rparr>) = (Inr (4, Some ?hi), ?s')"
    using fl_write_calm [OF _ ne, of "?s\<lparr>fs_data := (fs_data ?s)(fh_inode hj := got @ c)\<rparr>" "hi\<lparr>fh_pos := 0\<rparr>"] calm s by (simp add: e [unfolded of_nat_add])
  define es where "es = (if ifi_filesize p > 0 \<and> pass_download_progress (to_granularity (tp_opts t)) (int (length got)) ?off (ifi_filesize p)
    then [TpDownloadProgress (dw_from x) (dw_file x) ?off (ifi_filesize p)] else [])"
  have same: "?t\<lparr>tp_events := tp_events t\<rparr> = ?t" by (cases t) simp
  have c: "commit_chunk (dw_lib x) (dw_from x) ?c t = (Inr (), ?t\<lparr>tp_events := tp_events t @ es\<rparr>)"
    using p w1 w2 assms(4) same
    by (simp add: commit_chunk_def locate_ifile_item_def i32_of_nat fl_set_pos_def fl_offset_pos Let_def put_ifile_def tp_emit_def es_def)
  have "list_all progress_only es" by (simp add: es_def)
  have d: "downloading x (got @ c) (?t\<lparr>tp_events := tp_events t @ es\<rparr>)"
    using n st assms(4) by (auto simp: downloading_def names_ok_def stored_def update_conv')
  from \<open>list_all progress_only es\<close> n show ?thesis by (intro that [OF _ d]) (simp_all add: process_file_chunk_def names_ok_def u c)
qed

lemma fl_write_end:
  assumes "calm s" and "fh_pos h = length (fs_data s (fh_inode h))"
  shows "fl_write d (Some h) s = (Inr (length d, Some (h\<lparr>fh_pos := fh_pos h + length d\<rparr>)),
    s\<lparr>fs_data := (fs_data s)(fh_inode h := fs_data s (fh_inode h) @ d)\<rparr>)"
  using fl_write_calm [OF assms(1), of d h] assms by (cases "d = []") (simp_all add: fl_write_def write_at_end)

text \<open>The credentials of a file that is not known yet, and of one of which a part has arrived.\<close>

definition unknown :: "download \<Rightarrow> file_transporter \<Rightarrow> bool" where
  "unknown x t \<longleftrightarrow> names_ok x t \<and> fs_files (tp_fs t) (dw_path x t ''.desc'') = None \<and>
     fs_files (tp_fs t) (dw_path x t ''.data'') = None \<and> map_of (tp_ifiles t) (dw_file x) = None"

definition dw_credentials :: "download \<Rightarrow> file_credentials" where
  "dw_credentials x = \<lparr>fc_fileid = dw_file x, fc_filename = dw_name x, fc_filesize = dw_size x, fc_offset = 0\<rparr>"

lemma cache_unknown:
  assumes "unknown x t"
  obtains s where "cache_incoming_file_credentials (dw_lib x) (dw_from x) (dw_credentials x) t = (Inr (), t\<lparr>tp_fs := s\<rparr>)"
    and "partial x [] (t\<lparr>tp_fs := s\<rparr>)"
proof -
  have n: "names_ok x t" and f: "fs_files (tp_fs t) (dw_path x t ''.desc'') = None" "fs_files (tp_fs t) (dw_path x t ''.data'') = None"
    "map_of (tp_ifiles t) (dw_file x) = None" using assms by (simp_all add: unknown_def)
  have c: "calm (tp_fs t)" "dw_path x t ''.desc'' \<notin> fs_dirs (tp_fs t)" "dw_path x t ''.data'' \<notin> fs_dirs (tp_fs t)"
    "dw_path x t ''.desc'' \<noteq> dw_path x t ''.data''" using n by (simp_all add: names_ok_def)
  let ?s = "tp_fs t" and ?i = "fs_next (tp_fs t)" and ?j = "Suc (fs_next (tp_fs t))"
  let ?s1 = "?s\<lparr>fs_files := (fs_files ?s)(dw_path x t ''.desc'' \<mapsto> ?i), fs_data := (fs_data ?s)(?i := []), fs_next := ?j\<rparr>"
  let ?s2 = "?s1\<lparr>fs_files := (fs_files ?s1)(dw_path x t ''.data'' \<mapsto> ?j), fs_data := (fs_data ?s1)(?j := []), fs_next := Suc ?j\<rparr>"
  let ?w = "\<lambda>d. ?s2\<lparr>fs_data := (fs_data ?s2)(?i := d)\<rparr>" and ?h = "\<lambda>n. Some \<lparr>fh_inode = ?i, fh_pos = n\<rparr>"
  let ?d = "le64 0 @ le64 (dw_size x) @ dw_name x"
  have o: "fl_open_write True (dw_path x t ''.desc'') ?s = (Inr (?h 0), ?s1)"
    "fl_open_write True (dw_path x t ''.data'') ?s1 = (Inr (Some \<lparr>fh_inode = ?j, fh_pos = 0\<rparr>), ?s2)"
    using open_calm(4) [OF c(1) f(1) c(2), of True] open_calm(4) [of ?s1 "dw_path x t ''.data''" True] c f by simp_all
  have w: "fl_write (le64 0) (?h 0) ?s2 = (Inr (8, ?h 8), ?w (le64 0))"
    "fl_write (le64 (dw_size x)) (?h 8) (?w (le64 0)) = (Inr (8, ?h 16), ?w (le64 0 @ le64 (dw_size x)))"
    "fl_write (dw_name x) (?h 16) (?w (le64 0 @ le64 (dw_size x))) = (Inr (length (dw_name x), ?h (16 + length (dw_name x))), ?w ?d)"
    using c by (simp_all add: fl_write_end)
  have r: "cache_incoming_file_credentials (dw_lib x) (dw_from x) (dw_credentials x) t = (Inr (), t\<lparr>tp_fs := ?w ?d\<rparr>)"
    using o w dw_make [OF n] f c by (simp add: cache_incoming_file_credentials_def dw_credentials_def fs_exists_def)
  have "stored x ?i ?j [] (t\<lparr>tp_fs := ?w ?d\<rparr>)" using c by (simp add: stored_def)
  moreover have "names_ok x (t\<lparr>tp_fs := ?w ?d\<rparr>)" using n by (auto simp: names_ok_def)
  ultimately show ?thesis using f by (intro that [OF r]) (auto simp: partial_def)
qed

lemma cache_partial:
  assumes "partial x got t"
  shows "cache_incoming_file_credentials (dw_lib x) (dw_from x) (dw_credentials x) t = (Inr (), t)"
proof -
  have "names_ok x t" and "fs_exists (dw_path x t ''.desc'') (tp_fs t)"
    using assms by (auto simp: partial_def stored_def fs_exists_def)
  then show ?thesis by (simp add: cache_incoming_file_credentials_def dw_credentials_def dw_make)
qed

text \<open>What the receiver holds before the transfer: nothing, or the first part of the file.\<close>

definition awaiting :: "download \<Rightarrow> bytes \<Rightarrow> file_transporter \<Rightarrow> bool" where
  "awaiting x got t \<longleftrightarrow> unknown x t \<and> got = [] \<or> partial x got t"

lemma credentials_requested:
  assumes "byte_streams io v" and "awaiting x got t" and "length (dw_name x) < 2 ^ 32"
  obtains t' where "process_file_credentials io (dw_lib x) (dw_from x) (fc_pack io (dw_credentials x)) t = (Inr (), t')"
    and "downloading x got t'"
    and "tp_events t' = tp_events t @ [TpReadySend (dw_from x) (dw_file x) pt_file_request (fp_pack io \<lparr>fp_fileid = dw_file x, fp_offset = of_nat (length got)\<rparr>)]"
proof -
  have u: "fst (fc_unpack io (in_open io (fc_pack io (dw_credentials x)))) = dw_credentials x"
    using readsD(1) [OF byte_streams.fc_reads [OF assms(1), of "dw_credentials x"], of "in_open io (fc_pack io (dw_credentials x))" "[]"]
      byte_streams.open_view [OF assms(1)] assms(3) by (simp add: dw_credentials_def)
  obtain s where s: "cache_incoming_file_credentials (dw_lib x) (dw_from x) (dw_credentials x) t = (Inr (), t\<lparr>tp_fs := s\<rparr>)"
    "partial x got (t\<lparr>tp_fs := s\<rparr>)"
  proof (cases "unknown x t \<and> got = []")
    case True
    then show ?thesis using cache_unknown [of x t] that by metis
  next
    case False
    then have "partial x got t" using assms(2) by (auto simp: awaiting_def)
    with cache_partial [OF this] that [of "tp_fs t"] show ?thesis by simp
  qed
  from request_rest [OF s(2), of io] obtain t' where
    "send_file_request io (dw_lib x) (dw_from x) (dw_file x) (t\<lparr>tp_fs := s\<rparr>) = (Inr (), t')" "downloading x got t'"
    "tp_events t' = tp_events t @ [TpReadySend (dw_from x) (dw_file x) pt_file_request (fp_pack io \<lparr>fp_fileid = dw_file x, fp_offset = of_nat (length got)\<rparr>)]"
    by auto
  with s(1) show ?thesis by (intro that) (simp_all add: process_file_credentials_def u Let_def, simp add: dw_credentials_def)
qed

lemma begin_reported:
  assumes "byte_streams io v" and "downloading x got t"
  obtains t' e where "process_file_begin io (dw_lib x) (dw_from x) (fp_pack io \<lparr>fp_fileid = dw_file x, fp_offset = k\<rparr>) t = (Inr (), t')"
    and "downloading x got t'" and "tp_events t' = tp_events t @ [e]" and "progress_only e"
proof -
  let ?b = "\<lparr>fp_fileid = dw_file x, fp_offset = k\<rparr>"
  have u: "fst (fp_unpack io (in_open io (fp_pack io ?b))) = ?b"
    using readsD(1) [OF byte_streams.fp_reads [OF assms(1), of ?b], of "in_open io (fp_pack io ?b)" "[]"]
      byte_streams.open_view [OF assms(1)] by simp
  from assms(2) obtain p where p: "map_of (tp_ifiles t) (dw_file x) = Some p" by (auto simp: downloading_def)
  let ?t = "t\<lparr>tp_events := tp_events t @ [TpDownloadProgress (dw_from x) (dw_file x) (i32 k) (ifi_filesize p)]\<rparr>"
  have "downloading x got ?t" using assms(2) by (simp add: downloading_def names_ok_def stored_def)
  with p show ?thesis by (intro that [of ?t "TpDownloadProgress (dw_from x) (dw_file x) (i32 k) (ifi_filesize p)"]) (simp_all add: process_file_begin_def u locate_ifile_item_def tp_emit_def)
qed

text \<open>The end of the file: what has arrived becomes the target.\<close>

definition holds :: "download \<Rightarrow> bytes \<Rightarrow> file_transporter \<Rightarrow> bool" where
  "holds x D t \<longleftrightarrow> (\<exists>j. fs_files (tp_fs t) (dw_target x t) = Some j \<and> fs_data (tp_fs t) j = D)"

definition state_packet :: "'i streams \<Rightarrow> download \<Rightarrow> bytes" where
  "state_packet io x = ft_pack io \<lparr>ft_fileid = dw_file x, ft_status = file_status_success\<rparr>"

lemma end_commits:
  assumes "byte_streams io v" and "downloading x got t"
  obtains t' where "process_file_end io (dw_lib x) gen (dw_from x) (fid_pack io (dw_file x)) t = (Inr (), t')"
    and "holds x got t'" and "map_of (tp_ifiles t') (dw_file x) = None"
    and "tp_events t' = tp_events t @ [TpReadySend (dw_from x) (dw_file x) pt_file_state (state_packet io x),
      TpDownloadComplete (dw_from x) (dw_file x) (dw_target x t) True]" and "dw_target x t' = dw_target x t"
proof -
  have u: "fst (fid_unpack io (in_open io (fid_pack io (dw_file x)))) = dw_file x"
    using readsD(1) [OF byte_streams.fid_reads [OF assms(1), of "dw_file x"], of "in_open io (fid_pack io (dw_file x))" "[]"]
      byte_streams.open_view [OF assms(1)] by simp
  obtain p hi hj where p: "map_of (tp_ifiles t) (dw_file x) = Some p" and "ifi_desc p = Some hi" and "ifi_data p = Some hj"
    and st: "stored x (fh_inode hi) (fh_inode hj) got t" and n: "names_ok x t"
    using assms(2) by (auto simp: downloading_def)
  let ?s = "tp_fs t" and ?i = "fh_inode hi" and ?j = "fh_inode hj"
  let ?p = "p\<lparr>ifi_desc := fl_close (ifi_desc p), ifi_data := fl_close (ifi_data p)\<rparr>"
  let ?t1 = "t\<lparr>tp_ifiles := AList.update (dw_file x) ?p (tp_ifiles t)\<rparr>"
  let ?s2 = "?s\<lparr>fs_files := (fs_files ?s)(dw_path x t ''.desc'' := None, dw_path x t ''.done'' \<mapsto> ?i)\<rparr>"
  let ?s3 = "?s2\<lparr>fs_files := (fs_files ?s2)(dw_path x t ''.data'' := None, dw_target x t \<mapsto> ?j)\<rparr>"
  let ?t' = "t\<lparr>tp_fs := ?s3, tp_ifiles := AList.delete (dw_file x) (AList.update (dw_file x) ?p (tp_ifiles t)),
    tp_events := tp_events t @ [TpReadySend (dw_from x) (dw_file x) pt_file_state (state_packet io x),
      TpDownloadComplete (dw_from x) (dw_file x) (dw_target x t) True]\<rparr>"
  have c: "calm ?s" "dw_path x t ''.done'' \<notin> fs_dirs ?s" "dw_target x t \<notin> fs_dirs ?s" using n by (simp_all add: names_ok_def)
  have d: "dw_path x t ''.desc'' \<noteq> dw_path x t ''.data''" "dw_path x t ''.data'' \<noteq> dw_path x t ''.done''"
    using n by (auto simp: names_ok_def)
  have f: "fs_files ?s (dw_path x t ''.desc'') = Some ?i" "fs_files ?s (dw_path x t ''.data'') = Some ?j" "fs_data ?s ?j = got"
    using st by (simp_all add: stored_def)
  have n1: "names_ok x ?t1" using n by (simp add: names_ok_def)
  have r: "fs_rename (dw_path x t ''.desc'') (dw_path x t ''.done'') ?s = (Inr (), ?s2)"
    "fs_rename (dw_path x t ''.data'') (dw_target x t) ?s2 = (Inr (), ?s3)"
    using rename_calm [OF c(1) f(1) c(2)] rename_calm [of ?s2 "dw_path x t ''.data''" ?j "dw_target x t"] c d f by simp_all
  have e: "process_file_end io (dw_lib x) gen (dw_from x) (fid_pack io (dw_file x)) t = (Inr (), ?t')"
    using p dw_make [OF n] dw_make [OF n1] incoming_credentials [OF n st] r
    by (simp add: process_file_end_def u commit_incoming_file_def locate_ifile_item_def put_ifile_def notify_file_status_def
        tp_emit_def remove_ifile_item_def state_packet_def)
  have "holds x got ?t'" using f by (simp add: holds_def)
  with e show ?thesis by (rule that) (simp_all add: AList.delete_conv')
qed

subsection \<open>An upload\<close>

text \<open>The sender: where the bytes are, and the path under which the file is cached.\<close>

record upload =
  up_lib :: lib_ops
  up_to :: universal_id
  up_file :: universal_id
  up_path :: bytes
  up_inode :: nat
  up_data :: bytes

definition up_cache :: "upload \<Rightarrow> file_transporter \<Rightarrow> bytes" where
  "up_cache y t = cache_path (up_lib y) (tp_opts t) (up_file y)"

text \<open>The file is there, under an absolute name, not too long, and not the one that the cache is kept in.\<close>

definition offers :: "upload \<Rightarrow> file_transporter \<Rightarrow> bool" where
  "offers y t \<longleftrightarrow> calm (tp_fs t) \<and> cache_dir (tp_opts t) \<in> fs_dirs (tp_fs t) \<and> up_cache y t \<notin> fs_dirs (tp_fs t) \<and>
     up_path y \<noteq> [] \<and> up_path y \<noteq> up_cache y t \<and> lib_encode (up_lib y) (lib_absolute (up_lib y) (up_path y)) = up_path y \<and>
     fs_files (tp_fs t) (up_path y) = Some (up_inode y) \<and> fs_data (tp_fs t) (up_inode y) = up_data y \<and>
     up_inode y < fs_next (tp_fs t) \<and> fs_files (tp_fs t) (up_cache y t) \<noteq> Some (up_inode y) \<and>
     int (length (up_data y)) \<le> to_max_file_size (tp_opts t) \<and> to_max_file_size (tp_opts t) < 2 ^ 31 \<and> 0 < to_chunk_size (tp_opts t) \<and>
     to_chunk_size (tp_opts t) < 2 ^ 31"

definition sharing :: "upload \<Rightarrow> file_transporter \<Rightarrow> bool" where
  "sharing y t \<longleftrightarrow> offers y t \<and> (\<exists>k. fs_files (tp_fs t) (up_cache y t) = Some k \<and> fs_data (tp_fs t) k = up_path y)"

text \<open>The item of the pool that stands for the upload, at a position.\<close>

definition up_item :: "upload \<Rightarrow> nat \<Rightarrow> bool \<Rightarrow> universal_id \<times> ofile_item" where
  "up_item y n requested = (up_file y, \<lparr>ofi_addressee = up_to y, ofi_data = Some \<lparr>fh_inode = up_inode y, fh_pos = n\<rparr>, ofi_requested = requested\<rparr>)"

lemma up_cache_updates [simp]:
  "up_cache y (t\<lparr>tp_ofiles := os\<rparr>) = up_cache y t" "up_cache y (t\<lparr>tp_fs := s\<rparr>) = up_cache y t" "up_cache y (t\<lparr>tp_events := es\<rparr>) = up_cache y t"
  by (simp_all add: up_cache_def)

lemma sharing_updates [simp]:
  "sharing y (t\<lparr>tp_ofiles := os\<rparr>) = sharing y t" "sharing y (t\<lparr>tp_events := es\<rparr>) = sharing y t"
  by (simp_all add: sharing_def offers_def)

lemma cache_written:
  assumes "offers y t"
  obtains s where "cache_file_credentials (up_lib y) (up_file y) (up_path y) t = (Inr (), t\<lparr>tp_fs := s\<rparr>)" and "sharing y (t\<lparr>tp_fs := s\<rparr>)"
proof -
  let ?s = "tp_fs t" and ?c = "up_cache y t"
  have c: "calm ?s" "?c \<notin> fs_dirs ?s" and dir: "fs_exists (cache_dir (tp_opts t)) ?s" and p: "up_path y \<noteq> []" using assms by (simp_all add: offers_def fs_exists_def)
  have mk: "make_cachefilepath (up_lib y) (up_file y) t = (Inr ?c, t)" using make_cache [OF dir] by (simp add: up_cache_def)
  obtain k s1 where o: "fl_open_write True ?c ?s = (Inr (Some \<lparr>fh_inode = k, fh_pos = 0\<rparr>), s1)"
    and s1: "calm s1" "fs_data s1 k = []" "k \<noteq> up_inode y" "fs_files s1 = (fs_files ?s)(?c \<mapsto> k)" "fs_dirs s1 = fs_dirs ?s"
      "fs_data s1 (up_inode y) = up_data y" "up_inode y < fs_next s1"
  proof (cases "fs_files ?s ?c")
    case None
    with open_calm(4) [OF c(1) None c(2), of True] assms c show ?thesis
      by (intro that [of "fs_next ?s" "?s\<lparr>fs_files := (fs_files ?s)(?c \<mapsto> fs_next ?s), fs_data := (fs_data ?s)(fs_next ?s := []), fs_next := Suc (fs_next ?s)\<rparr>"])
        (simp_all add: offers_def)
  next
    case (Some k)
    with open_calm(3) [OF c(1) Some c(2)] assms c show ?thesis
      by (intro that [of k "?s\<lparr>fs_data := (fs_data ?s)(k := [])\<rparr>"]) (simp_all add: offers_def map_upd_triv)
  qed
  let ?s2 = "s1\<lparr>fs_data := (fs_data s1)(k := up_path y)\<rparr>"
  have "fl_write (up_path y) (Some \<lparr>fh_inode = k, fh_pos = 0\<rparr>) s1 = (Inr (length (up_path y), Some \<lparr>fh_inode = k, fh_pos = length (up_path y)\<rparr>), ?s2)"
    using fl_write_end [OF s1(1), of "\<lparr>fh_inode = k, fh_pos = 0\<rparr>"] s1(2) by simp
  with o mk have r: "cache_file_credentials (up_lib y) (up_file y) (up_path y) t = (Inr (), t\<lparr>tp_fs := ?s2\<rparr>)"
    by (simp add: cache_file_credentials_def fl_rewrite_def)
  have "offers y (t\<lparr>tp_fs := ?s2\<rparr>)" using assms s1 by (simp add: offers_def)
  then have "sharing y (t\<lparr>tp_fs := ?s2\<rparr>)" using s1(4) by (simp add: sharing_def)
  with r show ?thesis by (rule that)
qed

text \<open>The credentials that \<open>send_file\<close> offers.\<close>

definition up_credentials :: "upload \<Rightarrow> file_credentials" where
  "up_credentials y = \<lparr>fc_fileid = up_file y, fc_filename = lib_encode (up_lib y) (path_filename (up_path y)),
     fc_filesize = of_nat (length (up_data y)), fc_offset = 0\<rparr>"

lemma file_offered:
  assumes "offers y t" and "up_file y \<noteq> 0"
  obtains t' where "send_file io (up_lib y) gen (up_to y) (up_file y) (up_path y) t = (Inr (up_file y), t')"
    and "sharing y t'" and "tp_ofiles t' = tp_ofiles t"
    and "tp_events t' = tp_events t @ [TpReadySend (up_to y) (up_file y) pt_file_credentials (fc_pack io (up_credentials y))]"
proof -
  from cache_written [OF assms(1)] obtain s where s: "cache_file_credentials (up_lib y) (up_file y) (up_path y) t = (Inr (), t\<lparr>tp_fs := s\<rparr>)"
    "sharing y (t\<lparr>tp_fs := s\<rparr>)" .
  have c: "calm (tp_fs t)" "fs_files (tp_fs t) (up_path y) = Some (up_inode y)" "fs_data (tp_fs t) (up_inode y) = up_data y"
    "lib_encode (up_lib y) (lib_absolute (up_lib y) (up_path y)) = up_path y" "int (length (up_data y)) \<le> to_max_file_size (tp_opts t)"
    "to_max_file_size (tp_opts t) < 2 ^ 31" using assms(1) by (simp_all add: offers_def)
  have size: "\<not> (of_int (to_max_file_size (tp_opts t)) < (of_nat (length (up_data y)) :: u64))"
    using c(5,6) by (simp add: word_less_nat_alt unsigned_of_nat unsigned_of_int take_bit_nat_eq_self take_bit_int_eq_self)
  let ?t' = "t\<lparr>tp_fs := s, tp_events := tp_events t @ [TpReadySend (up_to y) (up_file y) pt_file_credentials (fc_pack io (up_credentials y))]\<rparr>"
  have "send_file io (up_lib y) gen (up_to y) (up_file y) (up_path y) t = (Inr (up_file y), ?t')"
    using c size s(1) assms(2) open_calm(1) [OF c(1,2)]
    by (simp add: send_file_def fs_file_size_def send_credentials_def tp_emit_def up_credentials_def i32_of_nat)
  moreover have "sharing y ?t'" using s(2) by (simp add: sharing_def offers_def)
  ultimately show ?thesis by (rule that) simp_all
qed

lemma request_begins:
  assumes "byte_streams io v" and "sharing y t" and "n < 2 ^ 31"
  obtains t' where "process_file_request io (up_lib y) (up_to y) (fp_pack io \<lparr>fp_fileid = up_file y, fp_offset = of_nat n\<rparr>) t = (Inr (), t')"
    and "sharing y t'" and "tp_ofiles t' = tp_ofiles t @ [up_item y n True]"
    and "tp_events t' = tp_events t @ [TpReadySend (up_to y) (up_file y) pt_file_begin (fp_pack io \<lparr>fp_fileid = up_file y, fp_offset = of_nat n\<rparr>)]"
proof -
  let ?r = "\<lparr>fp_fileid = up_file y, fp_offset = of_nat n\<rparr>"
  have u: "fst (fp_unpack io (in_open io (fp_pack io ?r))) = ?r"
    using readsD(1) [OF byte_streams.fp_reads [OF assms(1), of ?r], of "in_open io (fp_pack io ?r)" "[]"]
      byte_streams.open_view [OF assms(1)] by simp
  obtain k where k: "fs_files (tp_fs t) (up_cache y t) = Some k" "fs_data (tp_fs t) k = up_path y" and o: "offers y t"
    using assms(2) by (auto simp: sharing_def)
  from o have c: "calm (tp_fs t)" "fs_exists (cache_dir (tp_opts t)) (tp_fs t)" "fs_files (tp_fs t) (up_path y) = Some (up_inode y)" "up_path y \<noteq> []"
    by (simp_all add: offers_def fs_exists_def)
  let ?t' = "t\<lparr>tp_ofiles := tp_ofiles t @ [up_item y n True],
    tp_events := tp_events t @ [TpReadySend (up_to y) (up_file y) pt_file_begin (fp_pack io ?r)]\<rparr>"
  have "process_file_request io (up_lib y) (up_to y) (fp_pack io ?r) t = (Inr (), ?t')"
    using make_cache [OF c(2), of "up_lib y" "up_file y"] read_all_path_calm [OF c(1) k(1)] k(2) open_calm(1) [OF c(1,3)] c(4) assms(3)
    by (simp add: process_file_request_def u up_cache_def fl_set_pos_def i32_of_nat tp_emit_def up_item_def Let_def)
  moreover have "sharing y ?t'" using assms(2) by (simp add: sharing_def offers_def)
  ultimately show ?thesis by (rule that) simp_all
qed

text \<open>The next packet of an upload: a chunk, or the end.\<close>

definition next_chunk :: "upload \<Rightarrow> nat \<Rightarrow> file_transporter \<Rightarrow> bytes" where
  "next_chunk y n t = take (nat (to_chunk_size (tp_opts t))) (drop n (up_data y))"

definition chunk_packet :: "'i streams \<Rightarrow> universal_id \<Rightarrow> nat \<Rightarrow> bytes \<Rightarrow> bytes" where
  "chunk_packet io fileid n c = ck_pack io \<lparr>ck_fileid = fileid, ck_offset = of_nat n, ck_chunksize = of_nat (length c), ck_chunk = c\<rparr>"

lemma step_chunk:
  assumes "sharing y t" and "tp_ofiles t = [up_item y n True]" and "ready (up_to y)" and "n < length (up_data y)"
  obtains t' where "tp_step io ready t = (Inr 1, t')" and "sharing y t'" and "tp_ofiles t' = [up_item y (n + length (next_chunk y n t)) False]"
    and "tp_events t' = tp_events t @ [TpReadySend (up_to y) (up_file y) pt_file_chunk (chunk_packet io (up_file y) n (next_chunk y n t))]"
    and "next_chunk y n t \<noteq> []"
proof -
  let ?c = "next_chunk y n t"
  have o: "calm (tp_fs t)" "fs_data (tp_fs t) (up_inode y) = up_data y" "0 < to_chunk_size (tp_opts t)" "length (up_data y) < 2 ^ 31"
    using assms(1) by (auto simp: sharing_def offers_def)
  have ne: "?c \<noteq> []" using assms(4) o(3) by (simp add: next_chunk_def)
  have rd: "fl_read (to_chunk_size (tp_opts t)) (Some \<lparr>fh_inode = up_inode y, fh_pos = n\<rparr>) (tp_fs t) =
      (Inr (?c, Some \<lparr>fh_inode = up_inode y, fh_pos = n + length ?c\<rparr>), tp_fs t)"
    using fl_read_calm [OF o(1,3), of "\<lparr>fh_inode = up_inode y, fh_pos = n\<rparr>"] o(2) by (simp add: next_chunk_def Let_def)
  let ?t' = "t\<lparr>tp_ofiles := [up_item y (n + length ?c) False],
    tp_events := tp_events t @ [TpReadySend (up_to y) (up_file y) pt_file_chunk (chunk_packet io (up_file y) n ?c)]\<rparr>"
  have "tp_step io ready t = (Inr 1, ?t')"
    using assms(2-4) rd ne o(4)
    by (simp add: tp_step_def up_item_def serve_ofile_def tp_emit_def fl_offset_pos chunk_packet_def Let_def)
  moreover have "sharing y ?t'" using assms(1) by (simp add: sharing_def offers_def)
  ultimately show ?thesis by (rule that) (simp_all add: ne)
qed

lemma step_end:
  assumes "sharing y t" and "tp_ofiles t = [up_item y n True]" and "ready (up_to y)" and "length (up_data y) \<le> n"
  obtains t' where "tp_step io ready t = (Inr 1, t')" and "sharing y t'" and "tp_ofiles t' = []"
    and "tp_events t' = tp_events t @ [TpReadySend (up_to y) (up_file y) pt_file_end (fid_pack io (up_file y))]"
proof -
  have o: "calm (tp_fs t)" "fs_data (tp_fs t) (up_inode y) = up_data y" "0 < to_chunk_size (tp_opts t)"
    using assms(1) by (auto simp: sharing_def offers_def)
  have rd: "fl_read (to_chunk_size (tp_opts t)) (Some \<lparr>fh_inode = up_inode y, fh_pos = n\<rparr>) (tp_fs t) =
      (Inr ([], Some \<lparr>fh_inode = up_inode y, fh_pos = n\<rparr>), tp_fs t)"
    using fl_read_calm [OF o(1,3), of "\<lparr>fh_inode = up_inode y, fh_pos = n\<rparr>"] o(2) assms(4) by (simp add: Let_def)
  let ?t' = "t\<lparr>tp_ofiles := [], tp_events := tp_events t @ [TpReadySend (up_to y) (up_file y) pt_file_end (fid_pack io (up_file y))]\<rparr>"
  have "tp_step io ready t = (Inr 1, ?t')"
    using assms(2,3) rd by (simp add: tp_step_def up_item_def serve_ofile_def tp_emit_def Let_def)
  moreover have "sharing y ?t'" using assms(1) by (simp add: sharing_def offers_def)
  ultimately show ?thesis by (rule that) simp_all
qed

lemma step_idle:
  assumes "tp_ofiles t = [] \<or> (\<exists>n r. tp_ofiles t = [up_item y n r] \<and> (\<not> r \<or> \<not> ready (up_to y)))"
  shows "tp_step io ready t = (Inr 0, t)"
  using assms by (cases t) (auto simp: tp_step_def up_item_def)

lemma chunk_requested:
  "tp_ofiles t = [] \<Longrightarrow> request_chunk a f t = (Inr False, t)"
  "tp_ofiles t = [up_item y n r] \<Longrightarrow> request_chunk (up_to y) (up_file y) t = (Inr True, t\<lparr>tp_ofiles := [up_item y n True]\<rparr>)"
  by (simp_all add: request_chunk_def up_item_def)

lemma state_completes:
  assumes "byte_streams io v" and "sharing y t" and "tp_ofiles t = []" and "dw_file x = up_file y"
  obtains t' where "process_file_state io (up_lib y) a (state_packet io x) t = (Inr (), t')" and "tp_ofiles t' = []" and "tp_events t' = tp_events t"
proof -
  let ?f = "\<lparr>ft_fileid = up_file y, ft_status = file_status_success\<rparr>"
  have u: "fst (ft_unpack io (in_open io (ft_pack io ?f))) = ?f"
    using readsD(1) [OF byte_streams.ft_reads [OF assms(1), of ?f], of "in_open io (ft_pack io ?f)" "[]"]
      byte_streams.open_view [OF assms(1)] by simp
  have c: "calm (tp_fs t)" "fs_exists (cache_dir (tp_opts t)) (tp_fs t)" using assms(2) by (simp_all add: sharing_def offers_def fs_exists_def)
  show ?thesis
    by (rule that [of "t\<lparr>tp_fs := (tp_fs t)\<lparr>fs_files := (fs_files (tp_fs t))(up_cache y t := None)\<rparr>, tp_ofiles := []\<rparr>"])
      (use make_cache [OF c(2), of "up_lib y" "up_file y"] remove_calm [OF c(1)] assms(3,4)
       in \<open>simp_all add: process_file_state_def state_packet_def u complete_file_def uncache_file_credentials_def remove_ofile_item_def up_cache_def Let_def\<close>)
qed

end
