(* ===== verification/FileExchange.thy ===== *)
theory FileExchange
  imports FileTransfer
begin

text \<open>
  Two transporters that exchange their packets: a step of the exchange is a step of the sender, a request of
  the next chunk, or the arrival of the first packet on its way to either side. Packets to one side arrive in
  the order in which they were sent, as the delivery engine gives them on; otherwise any step may be next.
\<close>

subsection \<open>The exchange\<close>

record tf_state =
  tf_a :: file_transporter
  tf_b :: file_transporter
  tf_ab :: "(byte \<times> bytes) list"
  tf_ba :: "(byte \<times> bytes) list"
  tf_ok :: bool

text \<open>The packets for a peer among what a transporter has asked to be sent.\<close>

fun packet_to :: "universal_id \<Rightarrow> tp_event \<Rightarrow> (byte \<times> bytes) list" where
  "packet_to p (TpReadySend a f ty d) = (if a = p then [(ty, d)] else [])"
| "packet_to p _ = []"

definition sent :: "universal_id \<Rightarrow> file_transporter \<Rightarrow> file_transporter \<Rightarrow> (byte \<times> bytes) list" where
  "sent p t t' = concat (map (packet_to p) (drop (length (tp_events t)) (tp_events t')))"

text \<open>After an operation of the sender, and after one of the receiver.\<close>

definition after_a :: "upload \<Rightarrow> 'x result \<times> file_transporter \<Rightarrow> tf_state \<Rightarrow> tf_state" where
  "after_a y r s = s\<lparr>tf_a := snd r, tf_ab := tf_ab s @ sent (up_to y) (tf_a s) (snd r), tf_ok := tf_ok s \<and> \<not> isl (fst r)\<rparr>"

definition after_b :: "download \<Rightarrow> 'x result \<times> file_transporter \<Rightarrow> tf_state \<Rightarrow> tf_state" where
  "after_b x r s = s\<lparr>tf_b := snd r, tf_ba := tf_ba s @ sent (dw_from x) (tf_b s) (snd r), tf_ok := tf_ok s \<and> \<not> isl (fst r)\<rparr>"

inductive tf_step :: "'i streams \<Rightarrow> upload \<Rightarrow> download \<Rightarrow> tf_state \<Rightarrow> tf_state \<Rightarrow> bool" for io y x where
  upload_step: "tf_step io y x s (after_a y (tp_step io ready (tf_a s)) s)"
| chunk_request: "tf_step io y x s (after_a y (request_chunk (up_to y) (up_file y) (tf_a s)) s)"
| to_receiver: "tf_ab s = (ty, d) # ps \<Longrightarrow>
    tf_step io y x s (after_b x (process_file_data io (dw_lib x) gen (dw_from x) ty d (tf_b s)) (s\<lparr>tf_ab := ps\<rparr>))"
| to_sender: "tf_ba s = (ty, d) # ps \<Longrightarrow>
    tf_step io y x s (after_a y (process_file_data io (up_lib y) gen (up_to y) ty d (tf_a s)) (s\<lparr>tf_ba := ps\<rparr>))"

text \<open>What the receiver reports besides progress and packets to be sent.\<close>

fun is_outcome :: "tp_event \<Rightarrow> bool" where
  "is_outcome (TpReadySend a f ty d) = False"
| "is_outcome (TpDownloadProgress a f n m) = False"
| "is_outcome _ = True"

definition outcomes :: "file_transporter \<Rightarrow> tp_event list" where
  "outcomes t = filter is_outcome (tp_events t)"

lemma sent_more [simp]: "tp_events t' = tp_events t @ es \<Longrightarrow> sent p t t' = concat (map (packet_to p) es)"
  by (simp add: sent_def)

lemma sent_same [simp]: "tp_events t' = tp_events t \<Longrightarrow> sent p t t' = []"
  by (simp add: sent_def)

lemma progress_quiet: "list_all progress_only es \<Longrightarrow> concat (map (packet_to p) es) = [] \<and> filter is_outcome es = []"
proof (induction es)
  case (Cons e es)
  then show ?case by (cases e) simp_all
qed simp

subsection \<open>The phases of a transfer\<close>

definition credentials_packet :: "'i streams \<Rightarrow> upload \<Rightarrow> byte \<times> bytes" where
  "credentials_packet io y = (pt_file_credentials, fc_pack io (up_credentials y))"

definition request_packet :: "'i streams \<Rightarrow> upload \<Rightarrow> nat \<Rightarrow> byte \<times> bytes" where
  "request_packet io y n = (pt_file_request, fp_pack io \<lparr>fp_fileid = up_file y, fp_offset = of_nat n\<rparr>)"

definition begin_packet :: "'i streams \<Rightarrow> upload \<Rightarrow> nat \<Rightarrow> byte \<times> bytes" where
  "begin_packet io y n = (pt_file_begin, fp_pack io \<lparr>fp_fileid = up_file y, fp_offset = of_nat n\<rparr>)"

fun chunk_packets :: "'i streams \<Rightarrow> upload \<Rightarrow> nat \<Rightarrow> bytes list \<Rightarrow> (byte \<times> bytes) list" where
  "chunk_packets io y n [] = []"
| "chunk_packets io y n (c # cs) = (pt_file_chunk, chunk_packet io (up_file y) n c) # chunk_packets io y (n + length c) cs"

lemma chunk_packets_append:
  "chunk_packets io y n (cs @ ds) = chunk_packets io y n cs @ chunk_packets io y (n + length (concat cs)) ds"
  by (induction cs arbitrary: n) (simp_all add: add.assoc)

definition end_packet :: "'i streams \<Rightarrow> upload \<Rightarrow> byte \<times> bytes" where
  "end_packet io y = (pt_file_end, fid_pack io (up_file y))"

text \<open>What the sender has still to do: the bytes sent so far, the packets on their way and the item of its pool.\<close>

definition sending :: "'i streams \<Rightarrow> upload \<Rightarrow> bytes \<Rightarrow> tf_state \<Rightarrow> bool" where
  "sending io y got s \<longleftrightarrow> sharing y (tf_a s) \<and>
     (\<exists>pre cs post. tf_ab s = pre @ chunk_packets io y (length got) cs @ post \<and> (pre = [] \<or> (\<exists>n. pre = [begin_packet io y n])) \<and> [] \<notin> set cs \<and>
        (post = [] \<and> (\<exists>n r. tp_ofiles (tf_a s) = [up_item y n r] \<and> n \<le> length (up_data y) \<and> got @ concat cs = take n (up_data y)) \<or>
         post = [end_packet io y] \<and> tp_ofiles (tf_a s) = [] \<and> got @ concat cs = up_data y))"

inductive tf_phase :: "'i streams \<Rightarrow> upload \<Rightarrow> download \<Rightarrow> tp_event list \<Rightarrow> nat \<Rightarrow> tf_state \<Rightarrow> bool" for io y x before where
  offered: "tf_ok s \<Longrightarrow> sharing y (tf_a s) \<Longrightarrow> tp_ofiles (tf_a s) = [] \<Longrightarrow> awaiting x got (tf_b s) \<Longrightarrow> prefix got (up_data y) \<Longrightarrow>
    outcomes (tf_b s) = before \<Longrightarrow> tf_ab s = [credentials_packet io y] \<Longrightarrow> tf_ba s = [] \<Longrightarrow> tf_phase io y x before 0 s"
| requested: "tf_ok s \<Longrightarrow> sharing y (tf_a s) \<Longrightarrow> tp_ofiles (tf_a s) = [] \<Longrightarrow> downloading x got (tf_b s) \<Longrightarrow> prefix got (up_data y) \<Longrightarrow>
    outcomes (tf_b s) = before \<Longrightarrow> tf_ab s = [] \<Longrightarrow> tf_ba s = [request_packet io y (length got)] \<Longrightarrow> tf_phase io y x before 1 s"
| transferring: "tf_ok s \<Longrightarrow> sending io y got s \<Longrightarrow> downloading x got (tf_b s) \<Longrightarrow> outcomes (tf_b s) = before \<Longrightarrow> tf_ba s = [] \<Longrightarrow>
    tf_phase io y x before 2 s"
| committed: "tf_ok s \<Longrightarrow> sharing y (tf_a s) \<Longrightarrow> tp_ofiles (tf_a s) = [] \<Longrightarrow> holds x (up_data y) (tf_b s) \<Longrightarrow>
    outcomes (tf_b s) = before @ [TpDownloadComplete (dw_from x) (dw_file x) (dw_target x (tf_b s)) True] \<Longrightarrow>
    tf_ab s = [] \<Longrightarrow> tf_ba s = [(pt_file_state, state_packet io x)] \<Longrightarrow> tf_phase io y x before 3 s"
| finished: "tf_ok s \<Longrightarrow> tp_ofiles (tf_a s) = [] \<Longrightarrow> holds x (up_data y) (tf_b s) \<Longrightarrow>
    outcomes (tf_b s) = before @ [TpDownloadComplete (dw_from x) (dw_file x) (dw_target x (tf_b s)) True] \<Longrightarrow>
    tf_ab s = [] \<Longrightarrow> tf_ba s = [] \<Longrightarrow> tf_phase io y x before 4 s"

subsection \<open>Every step leads from phase to phase\<close>

lemma after_same: "tf_ok s \<Longrightarrow> after_a y (Inr n, tf_a s) s = s"
  by (cases s) (simp add: after_a_def)

lemma outcomes_more [simp]: "tp_events t' = tp_events t @ es \<Longrightarrow> outcomes t' = outcomes t @ filter is_outcome es"
  by (simp add: outcomes_def)

lemma sending_b [simp]: "sending io y got (s\<lparr>tf_b := b, tf_ba := ps, tf_ok := ok\<rparr>) = sending io y got s"
  by (simp add: sending_def)

lemma sending_upload:
  assumes "sending io y got s" and "tf_ok s"
  shows "sending io y got (after_a y (tp_step io ready (tf_a s)) s) \<and> tf_ok (after_a y (tp_step io ready (tf_a s)) s)"
proof -
  from assms(1) obtain pre cs post where ab: "tf_ab s = pre @ chunk_packets io y (length got) cs @ post"
    and pre: "pre = [] \<or> (\<exists>n. pre = [begin_packet io y n])" and ne: "[] \<notin> set cs" and sh: "sharing y (tf_a s)"
    and tail: "post = [] \<and> (\<exists>n r. tp_ofiles (tf_a s) = [up_item y n r] \<and> n \<le> length (up_data y) \<and> got @ concat cs = take n (up_data y)) \<or>
      post = [end_packet io y] \<and> tp_ofiles (tf_a s) = [] \<and> got @ concat cs = up_data y"
    unfolding sending_def by blast
  show ?thesis
  proof (cases "\<exists>n. tp_ofiles (tf_a s) = [up_item y n True] \<and> ready (up_to y)")
    case False
    have "tp_ofiles (tf_a s) = [] \<or> (\<exists>n r. tp_ofiles (tf_a s) = [up_item y n r] \<and> (\<not> r \<or> \<not> ready (up_to y)))"
    proof (cases "tp_ofiles (tf_a s) = []")
      case False
      with tail obtain n r where i: "tp_ofiles (tf_a s) = [up_item y n r]" by blast
      with \<open>\<nexists>n. tp_ofiles (tf_a s) = [up_item y n True] \<and> ready (up_to y)\<close> have "\<not> r \<or> \<not> ready (up_to y)" by (cases r) auto
      with i show ?thesis by blast
    qed simp
    then have "tp_step io ready (tf_a s) = (Inr 0, tf_a s)" by (rule step_idle)
    with assms show ?thesis by (simp add: after_same)
  next
    case True
    then obtain n where o: "tp_ofiles (tf_a s) = [up_item y n True]" and r: "ready (up_to y)" by blast
    with tail have n: "n \<le> length (up_data y)" "got @ concat cs = take n (up_data y)" "post = []" by (auto simp: up_item_def)
    then have l: "length got + length (concat cs) = n" by (metis length_append length_take min_absorb2)
    show ?thesis
    proof (cases "n < length (up_data y)")
      case True
      from step_chunk [where io = io and ready = ready, OF sh o r True] obtain a where a: "tp_step io ready (tf_a s) = (Inr 1, a)" "sharing y a"
        "tp_ofiles a = [up_item y (n + length (next_chunk y n (tf_a s))) False]" "next_chunk y n (tf_a s) \<noteq> []"
        "tp_events a = tp_events (tf_a s) @ [TpReadySend (up_to y) (up_file y) pt_file_chunk (chunk_packet io (up_file y) n (next_chunk y n (tf_a s)))]" .
      let ?c = "next_chunk y n (tf_a s)"
      have "got @ concat (cs @ [?c]) = take (n + length ?c) (up_data y)"
        using n(2) by (simp add: next_chunk_def take_add min_def flip: append_assoc)
      moreover have "n + length ?c \<le> length (up_data y)" using n(1) by (simp add: next_chunk_def)
      moreover have "tf_ab (after_a y (tp_step io ready (tf_a s)) s) = pre @ chunk_packets io y (length got) (cs @ [?c]) @ []"
        using ab n(3) l a by (simp add: after_a_def chunk_packets_append)
      moreover have "[] \<notin> set (cs @ [?c])" using ne a(4) by simp
      ultimately show ?thesis
        using a(1-3) pre assms(2) unfolding sending_def
        by (intro conjI exI [of _ pre] exI [of _ "cs @ [?c]"] exI [of _ "[] :: (byte \<times> bytes) list"]) (auto simp: after_a_def)
    next
      case False
      then have "length (up_data y) \<le> n" by simp
      from step_end [where io = io and ready = ready, OF sh o r this] obtain a where a: "tp_step io ready (tf_a s) = (Inr 1, a)" "sharing y a" "tp_ofiles a = []"
        "tp_events a = tp_events (tf_a s) @ [TpReadySend (up_to y) (up_file y) pt_file_end (fid_pack io (up_file y))]" .
      moreover have "got @ concat cs = up_data y" using n False by simp
      ultimately show ?thesis
        using ab n(3) pre ne assms(2) unfolding sending_def
        by (intro conjI exI [of _ pre] exI [of _ cs] exI [of _ "[end_packet io y]"]) (auto simp: after_a_def end_packet_def)
    qed
  qed
qed

lemma sending_request:
  assumes "sending io y got s" and "tf_ok s"
  shows "sending io y got (after_a y (request_chunk (up_to y) (up_file y) (tf_a s)) s) \<and>
    tf_ok (after_a y (request_chunk (up_to y) (up_file y) (tf_a s)) s)"
proof (cases "tp_ofiles (tf_a s) = []")
  case True
  with chunk_requested(1) [OF True] assms show ?thesis by (simp add: after_same)
next
  case False
  with assms(1) obtain n r where "tp_ofiles (tf_a s) = [up_item y n r]" by (auto simp: sending_def)
  then have r: "tp_ofiles (tf_a s) = [up_item y n r]" "request_chunk (up_to y) (up_file y) (tf_a s) = (Inr True, (tf_a s)\<lparr>tp_ofiles := [up_item y n True]\<rparr>)"
    by (simp_all add: chunk_requested)
  with assms show ?thesis by (auto simp: sending_def after_a_def up_item_def)
qed

text \<open>What a packet to the receiver does, by its type.\<close>

lemma process_data_of [simp]:
  "process_file_data io lib gen p pt_file_credentials d = process_file_credentials io lib p d"
  "process_file_data io lib gen p pt_file_request d = process_file_request io lib p d"
  "process_file_data io lib gen p pt_file_chunk d = process_file_chunk io lib p d"
  "process_file_data io lib gen p pt_file_begin d = process_file_begin io lib p d"
  "process_file_data io lib gen p pt_file_end d = process_file_end io lib gen p d"
  "process_file_data io lib gen p pt_file_state d = process_file_state io lib p d"
  by (simp_all add: process_file_data_def packet_types)

text \<open>The sender and the receiver speak of the same file.\<close>

definition same_file :: "upload \<Rightarrow> download \<Rightarrow> bool" where
  "same_file y x \<longleftrightarrow> up_credentials y = dw_credentials x \<and> length (dw_name x) < 2 ^ 32"

lemma same_fileD: "same_file y x \<Longrightarrow> dw_file x = up_file y"
  by (simp add: same_file_def up_credentials_def dw_credentials_def)

lemma sharing_short: "sharing y t \<Longrightarrow> length (up_data y) < 2 ^ 31"
  by (auto simp: sharing_def offers_def)

lemma offered_delivered:
  assumes "byte_streams io v" and "same_file y x" and "tf_ok s" and "sharing y (tf_a s)" and "tp_ofiles (tf_a s) = []"
    and "awaiting x got (tf_b s)" and "prefix got (up_data y)" and "tf_ab s = [credentials_packet io y]" and "tf_ba s = []"
    and "tf_ab s = (ty, d) # ps"
  shows "tf_phase io y x (outcomes (tf_b s)) 1 (after_b x (process_file_data io (dw_lib x) gen (dw_from x) ty d (tf_b s)) (s\<lparr>tf_ab := ps\<rparr>))"
proof -
  have d: "ty = pt_file_credentials" "d = fc_pack io (dw_credentials x)" "ps = []"
    using assms(2,8,10) by (simp_all add: credentials_packet_def same_file_def)
  from credentials_requested [OF assms(1,6)] assms(2) obtain b where b:
    "process_file_credentials io (dw_lib x) (dw_from x) (fc_pack io (dw_credentials x)) (tf_b s) = (Inr (), b)" "downloading x got b"
    "tp_events b = tp_events (tf_b s) @ [TpReadySend (dw_from x) (dw_file x) pt_file_request (fp_pack io \<lparr>fp_fileid = dw_file x, fp_offset = of_nat (length got)\<rparr>)]"
    by (auto simp: same_file_def)
  show ?thesis
    by (rule tf_phase.requested [of _ y x got])
      (use assms(3-5,7,9) b d same_fileD [OF assms(2)] in \<open>simp_all add: after_b_def request_packet_def\<close>)
qed

lemma sending_delivered:
  assumes "byte_streams io v" and "same_file y x" and "tf_ok s" and "sending io y got s" and "downloading x got (tf_b s)" and "tf_ba s = []"
    and "tf_ab s = (ty, d) # ps"
  shows "\<exists>k \<in> {2, 3}. tf_phase io y x (outcomes (tf_b s)) k (after_b x (process_file_data io (dw_lib x) gen (dw_from x) ty d (tf_b s)) (s\<lparr>tf_ab := ps\<rparr>))"
proof -
  note f = same_fileD [OF assms(2)]
  from assms(4) obtain pre cs post where ab: "tf_ab s = pre @ chunk_packets io y (length got) cs @ post"
    and pre: "pre = [] \<or> (\<exists>n. pre = [begin_packet io y n])" and ne: "[] \<notin> set cs" and sh: "sharing y (tf_a s)"
    and tail: "post = [] \<and> (\<exists>n r. tp_ofiles (tf_a s) = [up_item y n r] \<and> n \<le> length (up_data y) \<and> got @ concat cs = take n (up_data y)) \<or>
      post = [end_packet io y] \<and> tp_ofiles (tf_a s) = [] \<and> got @ concat cs = up_data y"
    unfolding sending_def by blast
  consider (start) n where "pre = [begin_packet io y n]" | (chunk) c cs' where "pre = []" "cs = c # cs'" | (finish) "pre = []" "cs = []" "post = [end_packet io y]"
    using pre tail ab assms(7) by (cases cs) auto
  then show ?thesis
  proof cases
    case start
    then have d: "ty = pt_file_begin" "d = fp_pack io \<lparr>fp_fileid = dw_file x, fp_offset = of_nat n\<rparr>" "ps = chunk_packets io y (length got) cs @ post"
      using ab assms(7) f by (simp_all add: begin_packet_def)
    from begin_reported [OF assms(1,5)] obtain b e where b: "process_file_begin io (dw_lib x) (dw_from x) d (tf_b s) = (Inr (), b)"
      "downloading x got b" "tp_events b = tp_events (tf_b s) @ [e]" "progress_only e" unfolding d(2) by metis
    have q: "packet_to (dw_from x) e = []" "\<not> is_outcome e" using b(4) by (cases e; simp)+
    have "sending io y got (s\<lparr>tf_ab := ps\<rparr>)" using sh ne tail d(3) unfolding sending_def by (intro conjI exI [of _ "[]"] exI [of _ cs] exI [of _ post]) auto
    with b q d assms(3,6) show ?thesis by (intro bexI [of _ 2] tf_phase.transferring [of _ io y got]) (simp_all add: after_b_def)
  next
    case chunk
    then have d: "ty = pt_file_chunk" "d = chunk_packet io (dw_file x) (length got) c" "ps = chunk_packets io y (length (got @ c)) cs' @ post" and c: "c \<noteq> []"
      using ab assms(7) f ne by auto
    have "length (got @ concat cs) \<le> length (up_data y)" using tail by (auto simp flip: append_assoc length_append)
    then have "length got + length c < 2 ^ 31" using sharing_short [OF sh] chunk by simp
    from chunk_stored [OF assms(1,5) c this] obtain b es where b: "process_file_chunk io (dw_lib x) (dw_from x) d (tf_b s) = (Inr (), b)"
      "downloading x (got @ c) b" "tp_events b = tp_events (tf_b s) @ es" "list_all progress_only es" unfolding d(2) chunk_packet_def by metis
    note q = progress_quiet [OF b(4)]
    have "sending io y (got @ c) (s\<lparr>tf_ab := ps\<rparr>)"
      using sh ne tail d(3) chunk unfolding sending_def by (intro conjI exI [of _ "[]"] exI [of _ cs'] exI [of _ post]) auto
    with b q d assms(3,6) show ?thesis by (intro bexI [of _ 2] tf_phase.transferring [of _ io y "got @ c"]) (simp_all add: after_b_def)
  next
    case finish
    then have d: "ty = pt_file_end" "d = fid_pack io (dw_file x)" "ps = []" and t: "got = up_data y" "tp_ofiles (tf_a s) = []"
      using ab assms(7) f tail by (auto simp: end_packet_def)
    from end_commits [OF assms(1,5)] obtain b where b: "process_file_end io (dw_lib x) gen (dw_from x) d (tf_b s) = (Inr (), b)" "holds x got b"
      "tp_events b = tp_events (tf_b s) @ [TpReadySend (dw_from x) (dw_file x) pt_file_state (state_packet io x),
        TpDownloadComplete (dw_from x) (dw_file x) (dw_target x (tf_b s)) True]" "dw_target x b = dw_target x (tf_b s)" unfolding d(2) by metis
    with sh d t assms(3,6) show ?thesis by (intro bexI [of _ 3] tf_phase.committed) (simp_all add: after_b_def)
  qed
qed

lemma requested_delivered:
  assumes "byte_streams io v" and "same_file y x" and "tf_ok s" and "sharing y (tf_a s)" and "tp_ofiles (tf_a s) = []"
    and "downloading x got (tf_b s)" and "prefix got (up_data y)" and "tf_ab s = []" and "tf_ba s = [request_packet io y (length got)]"
    and "tf_ba s = (ty, d) # ps"
  shows "tf_phase io y x (outcomes (tf_b s)) 2 (after_a y (process_file_data io (up_lib y) gen (up_to y) ty d (tf_a s)) (s\<lparr>tf_ba := ps\<rparr>))"
proof -
  have d: "ty = pt_file_request" "d = fp_pack io \<lparr>fp_fileid = up_file y, fp_offset = of_nat (length got)\<rparr>" "ps = []"
    using assms(9,10) by (simp_all add: request_packet_def)
  have l: "length got \<le> length (up_data y)" using assms(7) by (rule prefix_length_le)
  with sharing_short [OF assms(4)] have "length got < 2 ^ 31" by simp
  from request_begins [OF assms(1,4) this] obtain a where a: "process_file_request io (up_lib y) (up_to y) d (tf_a s) = (Inr (), a)" "sharing y a"
    "tp_ofiles a = tp_ofiles (tf_a s) @ [up_item y (length got) True]"
    "tp_events a = tp_events (tf_a s) @ [TpReadySend (up_to y) (up_file y) pt_file_begin (fp_pack io \<lparr>fp_fileid = up_file y, fp_offset = of_nat (length got)\<rparr>)]"
    unfolding d(2) by metis
  have "got = take (length got) (up_data y)" using assms(7) by (auto simp: prefix_def)
  with a l assms(5,8) d have "sending io y got (after_a y (process_file_data io (up_lib y) gen (up_to y) ty d (tf_a s)) (s\<lparr>tf_ba := ps\<rparr>))"
    unfolding sending_def
    by (intro conjI exI [of _ "[begin_packet io y (length got)]"] exI [of _ "[] :: bytes list"] exI [of _ "[] :: (byte \<times> bytes) list"])
      (auto simp: after_a_def begin_packet_def)
  with a d assms(3,6) show ?thesis by (intro tf_phase.transferring [of _ io y got]) (simp_all add: after_a_def)
qed

lemma committed_delivered:
  assumes "byte_streams io v" and "same_file y x" and "tf_ok s" and "sharing y (tf_a s)" and "tp_ofiles (tf_a s) = []" and "holds x (up_data y) (tf_b s)"
    and "outcomes (tf_b s) = before @ [TpDownloadComplete (dw_from x) (dw_file x) (dw_target x (tf_b s)) True]"
    and "tf_ab s = []" and "tf_ba s = [(pt_file_state, state_packet io x)]" and "tf_ba s = (ty, d) # ps"
  shows "tf_phase io y x before 4 (after_a y (process_file_data io (up_lib y) gen (up_to y) ty d (tf_a s)) (s\<lparr>tf_ba := ps\<rparr>))"
proof -
  have d: "ty = pt_file_state" "d = state_packet io x" "ps = []" using assms(9,10) by simp_all
  from state_completes [OF assms(1,4,5) same_fileD [OF assms(2)]] obtain a where "process_file_state io (up_lib y) (up_to y) d (tf_a s) = (Inr (), a)"
    "tp_ofiles a = []" "tp_events a = tp_events (tf_a s)" unfolding d(2) by metis
  with d assms(3,6,7,8) show ?thesis by (intro tf_phase.finished) (simp_all add: after_a_def)
qed

lemma phase_step:
  assumes "byte_streams io v" and "same_file y x" and "tf_phase io y x before k s" and "tf_step io y x s s'"
  shows "\<exists>k' \<ge> k. tf_phase io y x before k' s'"
  using assms(4)
proof cases
  case (upload_step ready)
  have "tf_phase io y x before k s'"
    using assms(3)
  proof cases
    case (transferring got)
    with sending_upload [of io y got s ready] show ?thesis unfolding upload_step
      by (auto simp: after_a_def intro: tf_phase.transferring [of _ io y got])
  qed (use assms(3) upload_step in \<open>simp_all add: step_idle after_same\<close>)
  then show ?thesis by blast
next
  case chunk_request
  have "tf_phase io y x before k s'"
    using assms(3)
  proof cases
    case (transferring got)
    with sending_request [of io y got s] show ?thesis unfolding chunk_request
      by (auto simp: after_a_def intro: tf_phase.transferring [of _ io y got])
  qed (use assms(3) chunk_request in \<open>simp_all add: chunk_requested(1) after_same\<close>)
  then show ?thesis by blast
next
  case (to_receiver ty d ps gen)
  from assms(3) show ?thesis
  proof cases
    case (offered got)
    with to_receiver show ?thesis using offered_delivered [OF assms(1,2), of s got ty d ps gen] by auto
  next
    case (transferring got)
    with to_receiver have "tf_phase io y x before 2 s' \<or> tf_phase io y x before 3 s'"
      using sending_delivered [OF assms(1,2), of s got ty d ps gen] by simp
    with transferring(1) show ?thesis by (elim disjE) (rule exI [of _ 2], simp, rule exI [of _ 3], simp)
  qed (use to_receiver in simp_all)
next
  case (to_sender ty d ps gen)
  from assms(3) show ?thesis
  proof cases
    case (requested got)
    with to_sender have "tf_phase io y x before 2 s'" using requested_delivered [OF assms(1,2), of s got ty d ps gen] by simp
    with requested show ?thesis by (intro exI [of _ 2]) simp
  next
    case committed
    with to_sender have "tf_phase io y x before 4 s'" using committed_delivered [OF assms(1,2), of s before ty d ps gen] by simp
    with committed show ?thesis by (intro exI [of _ 4]) simp
  qed (use to_sender in simp_all)
qed

lemma phase_steps:
  assumes "(tf_step io y x)\<^sup>*\<^sup>* s s'" and "byte_streams io v" and "same_file y x" and "tf_phase io y x before k s"
  shows "\<exists>k' \<ge> k. tf_phase io y x before k' s'"
  using assms(1,4)
proof (induction rule: rtranclp_induct)
  case base
  then show ?case by blast
next
  case (step s1 s2)
  then obtain k' where "k \<le> k'" "tf_phase io y x before k' s1" by blast
  with phase_step [OF assms(2,3) this(2) step(2)] show ?case by (meson le_trans)
qed

text \<open>The state after \<open>send_file\<close>.\<close>

definition tf_start :: "'i streams \<Rightarrow> universal_id \<Rightarrow> upload \<Rightarrow> file_transporter \<Rightarrow> file_transporter \<Rightarrow> tf_state" where
  "tf_start io gen y a b =
     after_a y (send_file io (up_lib y) gen (up_to y) (up_file y) (up_path y) a) \<lparr>tf_a = a, tf_b = b, tf_ab = [], tf_ba = [], tf_ok = True\<rparr>"

lemma start_offered:
  assumes "offers y a" and "up_file y \<noteq> 0" and "tp_ofiles a = []" and "awaiting x got b" and "prefix got (up_data y)"
  shows "tf_phase io y x (outcomes b) 0 (tf_start io gen y a b)"
proof -
  from file_offered [OF assms(1,2), of io gen] obtain a' where "send_file io (up_lib y) gen (up_to y) (up_file y) (up_path y) a = (Inr (up_file y), a')"
    "sharing y a'" "tp_ofiles a' = tp_ofiles a"
    "tp_events a' = tp_events a @ [TpReadySend (up_to y) (up_file y) pt_file_credentials (fc_pack io (up_credentials y))]" .
  with assms(3-5) show ?thesis
    by (intro tf_phase.offered [of _ y x got]) (simp_all add: tf_start_def after_a_def credentials_packet_def)
qed

subsection \<open>Progress\<close>

lemma phase_ok: "tf_phase io y x before k s \<Longrightarrow> tf_ok s \<and> (2 < k \<longrightarrow> holds x (up_data y) (tf_b s) \<and>
    outcomes (tf_b s) = before @ [TpDownloadComplete (dw_from x) (dw_file x) (dw_target x (tf_b s)) True]) \<and>
    (k \<le> 2 \<longrightarrow> outcomes (tf_b s) = before)"
  by (erule tf_phase.cases) simp_all

text \<open>All packets on their way to the receiver may arrive before anything else happens.\<close>

lemma drained: "\<exists>s'. (tf_step io y x)\<^sup>*\<^sup>* s s' \<and> tf_ab s' = [] \<and> tf_a s' = tf_a s"
proof (induction "tf_ab s" arbitrary: s)
  case Nil
  then show ?case by auto
next
  case (Cons p ps)
  obtain ty d where p: "p = (ty, d)" by (cases p)
  let ?s = "after_b x (process_file_data io (dw_lib x) undefined (dw_from x) ty d (tf_b s)) (s\<lparr>tf_ab := ps\<rparr>)"
  have "tf_step io y x s ?s" using Cons(2) p by (intro tf_step.to_receiver) simp
  moreover have "ps = tf_ab ?s" "tf_a ?s = tf_a s" by (simp_all add: after_b_def)
  ultimately show ?case using Cons(1) [of ?s] by (metis converse_rtranclp_into_rtranclp)
qed

lemma upload_finishes:
  assumes "byte_streams io v" and "same_file y x" and "tf_phase io y x before k s" and "2 \<le> k"
  shows "\<exists>s' k'. (tf_step io y x)\<^sup>*\<^sup>* s s' \<and> tf_phase io y x before k' s' \<and> 2 < k'"
  using assms(3,4)
proof (induction "case tp_ofiles (tf_a s) of [] \<Rightarrow> 0 | i # is \<Rightarrow> Suc (length (up_data y) - fh_pos (the (ofi_data (snd i))))" arbitrary: s k rule: less_induct)
  case less
  obtain s1 where s1: "(tf_step io y x)\<^sup>*\<^sup>* s s1" "tf_ab s1 = []" "tf_a s1 = tf_a s" using drained [of io y x s] by blast
  from phase_steps [OF s1(1) assms(1,2) less.prems(1)] obtain k1 where k1: "k \<le> k1" "tf_phase io y x before k1 s1" by blast
  show ?case
  proof (cases "k1 = 2")
    case False
    with k1 s1 less.prems(2) show ?thesis by (intro exI [of _ s1] exI [of _ k1]) simp
  next
    case True
    from k1(2) True obtain got where g: "tf_ok s1" "sending io y got s1" by (cases rule: tf_phase.cases) simp_all
    with s1(2) obtain n r where o: "tp_ofiles (tf_a s1) = [up_item y n r]" "n \<le> length (up_data y)" and sh: "sharing y (tf_a s1)"
      by (auto simp: sending_def end_packet_def)
    define s2 where "s2 = after_a y (request_chunk (up_to y) (up_file y) (tf_a s1)) s1"
    define s3 where "s3 = after_a y (tp_step io (\<lambda>_. True) (tf_a s2)) s2"
    have step: "tf_step io y x s1 s2" "tf_step io y x s2 s3" by (simp_all add: s2_def s3_def tf_step.chunk_request tf_step.upload_step)
    with s1(1) have r3: "(tf_step io y x)\<^sup>*\<^sup>* s s3" by simp
    have s2: "tp_ofiles (tf_a s2) = [up_item y n True]" "sharing y (tf_a s2)" using o(1) sh by (simp_all add: s2_def after_a_def chunk_requested)
    from phase_steps [OF r3 assms(1,2) less.prems(1)] obtain k3 where k3: "k \<le> k3" "tf_phase io y x before k3 s3" by blast
    have "(case tp_ofiles (tf_a s3) of [] \<Rightarrow> 0 | i # is \<Rightarrow> Suc (length (up_data y) - fh_pos (the (ofi_data (snd i))))) < Suc (length (up_data y) - n)"
    proof (cases "n < length (up_data y)")
      case True
      from step_chunk [where io = io and ready = "\<lambda>_. True", OF s2(2,1) TrueI True] obtain a where a: "tp_step io (\<lambda>_. True) (tf_a s2) = (Inr 1, a)"
        "tp_ofiles a = [up_item y (n + length (next_chunk y n (tf_a s2))) False]" "next_chunk y n (tf_a s2) \<noteq> []" by metis
      then have "0 < length (next_chunk y n (tf_a s2))" by simp
      with True have "length (up_data y) - (n + length (next_chunk y n (tf_a s2))) < length (up_data y) - n" by linarith
      with a(1,2) show ?thesis by (simp add: s3_def after_a_def up_item_def)
    next
      case False
      then have "length (up_data y) \<le> n" by simp
      from step_end [where io = io and ready = "\<lambda>_. True", OF s2(2,1) TrueI this] obtain a where "tp_step io (\<lambda>_. True) (tf_a s2) = (Inr 1, a)" "tp_ofiles a = []" .
      then show ?thesis by (simp add: s3_def after_a_def)
    qed
    moreover have "(case tp_ofiles (tf_a s) of [] \<Rightarrow> 0 | i # is \<Rightarrow> Suc (length (up_data y) - fh_pos (the (ofi_data (snd i))))) = Suc (length (up_data y) - n)"
      using o(1) s1(3) by (simp add: up_item_def)
    ultimately have "\<exists>s' k'. (tf_step io y x)\<^sup>*\<^sup>* s3 s' \<and> tf_phase io y x before k' s' \<and> 2 < k'" using k3(1) less.prems(2) by (intro less.hyps [OF _ k3(2)]) simp_all
    with r3 show ?thesis by (meson rtranclp_trans)
  qed
qed

lemma phase_completes:
  assumes "byte_streams io v" and "same_file y x" and "tf_phase io y x before k s" and "2 \<le> k"
  shows "\<exists>s'. (tf_step io y x)\<^sup>*\<^sup>* s s' \<and> tf_phase io y x before 4 s'"
proof -
  from upload_finishes [OF assms] obtain s1 k1 where s1: "(tf_step io y x)\<^sup>*\<^sup>* s s1" "tf_phase io y x before k1 s1" "2 < k1" by blast
  from s1(2) show ?thesis
  proof cases
    case committed
    from committed_delivered [OF assms(1,2) committed(2-7) committed(8) committed(8)]
    have "tf_phase io y x before 4 (after_a y (process_file_data io (up_lib y) 0 (up_to y) pt_file_state (state_packet io x) (tf_a s1)) (s1\<lparr>tf_ba := []\<rparr>))" .
    moreover have "tf_step io y x s1 (after_a y (process_file_data io (up_lib y) 0 (up_to y) pt_file_state (state_packet io x) (tf_a s1)) (s1\<lparr>tf_ba := []\<rparr>))"
      by (rule tf_step.to_sender) (simp add: committed(8))
    ultimately show ?thesis using s1(1) by (meson rtranclp.rtrancl_into_rtrancl)
  next
    case finished
    with s1 show ?thesis by blast
  qed (use s1(3) in simp_all)
qed

lemma any_phase_completes:
  assumes "byte_streams io v" and "same_file y x" and "tf_phase io y x before k s"
  shows "\<exists>s'. (tf_step io y x)\<^sup>*\<^sup>* s s' \<and> tf_phase io y x before 4 s'"
proof -
  have one: ?thesis if "tf_phase io y x before 1 u" and "(tf_step io y x)\<^sup>*\<^sup>* s u" for u
    using that(1)
  proof cases
    case (requested got)
    let ?u = "after_a y (process_file_data io (up_lib y) 0 (up_to y) pt_file_request (snd (request_packet io y (length got))) (tf_a u)) (u\<lparr>tf_ba := []\<rparr>)"
    have b: "tf_ba u = [(pt_file_request, snd (request_packet io y (length got)))]" using requested by (simp add: request_packet_def)
    from requested_delivered [OF assms(1,2) requested(1-5) requested(7-8) b] requested(6) have p: "tf_phase io y x before 2 ?u" by simp
    have "tf_step io y x u ?u" by (rule tf_step.to_sender [OF b])
    with phase_completes [OF assms(1,2) p] that(2) show ?thesis by (meson order_refl rtranclp.rtrancl_into_rtrancl rtranclp_trans)
  qed simp_all
  show ?thesis
  proof (cases "2 \<le> k")
    case True
    with phase_completes [OF assms] show ?thesis .
  next
    case False
    with assms(3) show ?thesis
    proof cases
      case (offered got)
      let ?u = "after_b x (process_file_data io (dw_lib x) 0 (dw_from x) pt_file_credentials (snd (credentials_packet io y)) (tf_b s)) (s\<lparr>tf_ab := []\<rparr>)"
      have b: "tf_ab s = [(pt_file_credentials, snd (credentials_packet io y))]" using offered by (simp add: credentials_packet_def)
      from offered_delivered [OF assms(1,2) offered(2-6) offered(8-9) b] offered(7) have p: "tf_phase io y x before 1 ?u" by simp
      have "tf_step io y x s ?u" by (rule tf_step.to_receiver [OF b])
      with one [OF p] show ?thesis by blast
    next
      case (requested got)
      with assms(3) one [of s] show ?thesis by blast
    qed (use False in simp_all)
  qed
qed

subsection \<open>Properties\<close>

text \<open>C3. On a system whose file calls neither fail nor are short, where the directories for the download exist, none of its
  names is a directory, no file has the name of the target, no chunk throws when it is read, and the sender has no other
  upload: whatever the order in which the sender steps, chunks are requested and packets arrive, no operation fails,
  and the receiver reports nothing but the completion of the download, once, when the target file holds
  exactly the bytes of the file that was sent; this also holds when a part of the file had arrived before.
  (\<open>awaiting\<close> and \<open>offers\<close> state these conditions, through \<open>names_ok\<close> and \<open>calm\<close>. A write that is short would not be
  noticed by the code, and one that fails stops the download, C23.)\<close>

theorem file_transfer_delivers:
  assumes "byte_streams io v" and "same_file y x" and "offers y a" and "up_file y \<noteq> 0" and "tp_ofiles a = []"
    and "awaiting x got b" and "prefix got (up_data y)" and "(tf_step io y x)\<^sup>*\<^sup>* (tf_start io gen y a b) s"
  shows "tf_ok s \<and> (outcomes (tf_b s) = outcomes b \<or>
    outcomes (tf_b s) = outcomes b @ [TpDownloadComplete (dw_from x) (dw_file x) (dw_target x (tf_b s)) True] \<and> holds x (up_data y) (tf_b s))"
proof -
  from phase_steps [OF assms(8,1,2) start_offered [OF assms(3-7)]] obtain k where "tf_phase io y x (outcomes b) k s" by blast
  with phase_ok [OF this] show ?thesis by (cases "2 < k") simp_all
qed

definition demo_lib :: lib_ops where
  "demo_lib = \<lparr>lib_id = (\<lambda>i. [ucast i]), lib_decode = (\<lambda>b. b), lib_encode = (\<lambda>b. b), lib_uniq = (\<lambda>_. [45]), lib_absolute = (\<lambda>b. b),
     lib_chunk_throws = (\<lambda>_. False)\<rparr>"

definition demo_opts :: tp_options where
  "demo_opts = \<lparr>to_download_directory = [100], to_granularity = 1, to_chunk_size = 32, to_max_file_size = 1000, to_remove_transient = False\<rparr>"

definition demo_upload :: upload where
  "demo_upload = \<lparr>up_lib = demo_lib, up_to = 2, up_file = 5, up_path = [47, 120], up_inode = 0, up_data = [7, 8, 9]\<rparr>"

definition demo_download :: download where
  "demo_download = \<lparr>dw_lib = demo_lib, dw_from = 1, dw_file = 5, dw_name = [120], dw_size = 3\<rparr>"

definition demo_a :: file_transporter where
  "demo_a = \<lparr>tp_opts = demo_opts, tp_ifiles = [], tp_ofiles = [],
     tp_fs = \<lparr>fs_files = [[47, 120] \<mapsto> 0], fs_dirs = {cache_dir demo_opts}, fs_data = (\<lambda>_. [7, 8, 9]), fs_next = 1, fs_answers = (\<lambda>_. SysOk)\<rparr>,
     tp_events = []\<rparr>"

definition demo_b :: file_transporter where
  "demo_b = \<lparr>tp_opts = demo_opts, tp_ifiles = [], tp_ofiles = [],
     tp_fs = \<lparr>fs_files = Map.empty, fs_dirs = {peer_dir demo_lib demo_opts 1, transient_dir demo_lib demo_opts 1}, fs_data = (\<lambda>_. []),
       fs_next = 0, fs_answers = (\<lambda>_. SysOk)\<rparr>, tp_events = []\<rparr>"

lemma demo_names: "cache_dir demo_opts = [100, 47, 46, 99, 97, 99, 104, 101]" "peer_dir demo_lib demo_opts 1 = [100, 47, 1]"
  "transient_dir demo_lib demo_opts 1 = [100, 47, 1, 47, 116, 114, 97, 110, 115, 105, 101, 110, 116]"
  by (simp_all add: cache_dir_def peer_dir_def transient_dir_def demo_opts_def demo_lib_def path_join_def ascii_def slash_def)

lemma demo_ready:
  "same_file demo_upload demo_download" "offers demo_upload demo_a" "awaiting demo_download [] demo_b"
  "up_file demo_upload \<noteq> 0" "tp_ofiles demo_a = []" "outcomes demo_b = []" "up_data demo_upload = [7, 8, 9]"
proof -
  show "same_file demo_upload demo_download"
    by (simp add: same_file_def up_credentials_def dw_credentials_def demo_upload_def demo_download_def demo_lib_def path_filename_def slash_def)
  show "offers demo_upload demo_a"
    by (simp add: offers_def up_cache_def cache_path_def demo_upload_def demo_a_def demo_names calm_def)
      (simp add: demo_lib_def demo_opts_def path_join_def slash_def ascii_def)
  show "awaiting demo_download [] demo_b"
    by (simp add: awaiting_def unknown_def names_ok_def dw_path_def dw_target_def transient_path_def target_path_def demo_download_def
        demo_b_def demo_names calm_def) (simp add: demo_lib_def path_join_def slash_def ascii_def)
qed (simp_all add: demo_upload_def demo_a_def demo_b_def outcomes_def)

lemma file_transfer_delivers_witness:
  "\<exists>s. (tf_step be_streams demo_upload demo_download)\<^sup>*\<^sup>* (tf_start be_streams 0 demo_upload demo_a demo_b) s \<and>
    outcomes (tf_b s) \<noteq> [] \<and> holds demo_download [7, 8, 9] (tf_b s)"
proof -
  have start: "tf_phase be_streams demo_upload demo_download (outcomes demo_b) 0 (tf_start be_streams 0 demo_upload demo_a demo_b)"
    by (rule start_offered [OF demo_ready(2,4,5,3)]) simp
  from any_phase_completes [OF be.byte_streams_axioms demo_ready(1) start] obtain s where
    s: "(tf_step be_streams demo_upload demo_download)\<^sup>*\<^sup>* (tf_start be_streams 0 demo_upload demo_a demo_b) s"
      "tf_phase be_streams demo_upload demo_download (outcomes demo_b) 4 s" by blast
  from s(2) have "outcomes (tf_b s) \<noteq> outcomes demo_b" by (cases rule: tf_phase.cases) simp_all
  with file_transfer_delivers [OF be.byte_streams_axioms demo_ready(1,2,4,5,3) _ s(1)] demo_ready(6,7) s(1) show ?thesis by auto
qed

text \<open>C9. Under the conditions of C3 (no file call fails or is short, the directories exist, the name of the target is free, no chunk
  throws when it is read, the sender has no other upload) a transfer can always be brought to its end: from every state it
  reaches, some steps lead to one in which the receiver holds the file and has reported so, the sender has no file left in
  its pool, and no packet is on its way.\<close>

theorem file_transfer_completes:
  assumes "byte_streams io v" and "same_file y x" and "offers y a" and "up_file y \<noteq> 0" and "tp_ofiles a = []"
    and "awaiting x got b" and "prefix got (up_data y)" and "(tf_step io y x)\<^sup>*\<^sup>* (tf_start io gen y a b) s"
  shows "\<exists>s'. (tf_step io y x)\<^sup>*\<^sup>* s s' \<and> tf_ok s' \<and> holds x (up_data y) (tf_b s') \<and>
    outcomes (tf_b s') = outcomes b @ [TpDownloadComplete (dw_from x) (dw_file x) (dw_target x (tf_b s')) True] \<and>
    tp_ofiles (tf_a s') = [] \<and> tf_ab s' = [] \<and> tf_ba s' = []"
proof -
  from phase_steps [OF assms(8,1,2) start_offered [OF assms(3-7)]] obtain k where "tf_phase io y x (outcomes b) k s" by blast
  from any_phase_completes [OF assms(1,2) this] obtain s' where s': "(tf_step io y x)\<^sup>*\<^sup>* s s'" "tf_phase io y x (outcomes b) 4 s'" by blast
  from s'(2) show ?thesis by (cases rule: tf_phase.cases) (use s'(1) in auto)
qed

lemma file_transfer_completes_witness:
  "\<exists>s. (tf_step be_streams demo_upload demo_download)\<^sup>*\<^sup>* (tf_start be_streams 0 demo_upload demo_a demo_b) s \<and> tf_ok s \<and>
    holds demo_download [7, 8, 9] (tf_b s) \<and> tp_ofiles (tf_a s) = []"
  using file_transfer_completes [OF be.byte_streams_axioms demo_ready(1,2,4,5,3) _ rtranclp.rtrancl_refl] demo_ready(7) by auto










text \<open>A download that the loss of its sender interrupts is kept for later: the receiver awaits the rest.\<close>

lemma interrupted_kept:
  assumes "downloading x got t" and "map_of (tp_ifiles t) (dw_file x) = Some p" and "ifi_addresser p = dw_from x" and "distinct (map fst (tp_ifiles t))"
  shows "\<exists>t'. expire_addresser (dw_from x) t = (Inr (), t') \<and> awaiting x got t' \<and> TpDownloadInterrupted (dw_from x) (dw_file x) \<in> set (tp_events t')"
proof -
  let ?t = "snd (expire_addresser (dw_from x) t)"
  have "map_of (tp_ifiles ?t) (dw_file x) = None"
    using assms(2-4) by (auto simp: expire_addresser_def map_of_eq_None_iff) (metis eq_key_imp_eq_value map_of_SomeD)
  moreover have "names_ok x ?t" "\<exists>i j. stored x i j got ?t"
    using assms(1) by (auto simp: downloading_def expire_addresser_def names_ok_def stored_def)
  moreover have "TpDownloadInterrupted (dw_from x) (dw_file x) \<in> set (tp_events ?t)"
    using assms(2,3) by (force simp: expire_addresser_def dest: map_of_SomeD)
  ultimately show ?thesis by (auto simp: awaiting_def partial_def expire_addresser_def)
qed

text \<open>A name that begins with a slash is taken as it is: the received file is stored outside the directory for downloads.\<close>

lemma target_outside: "lib_decode lib name = slash # r \<Longrightarrow> target_path lib opts p name = slash # r"
  by (simp add: target_path_def path_join_def)

text \<open>A request for a file that was never offered, or no longer is, makes the handler throw.\<close>

lemma unknown_request_throws:
  assumes "fs_exists (cache_dir (tp_opts t)) (tp_fs t)"
    and "\<not> fs_exists (cache_path lib (tp_opts t) (fp_fileid (fst (fp_unpack io (in_open io data))))) (tp_fs t)"
  shows "\<exists>t'. process_file_request io lib p data t = (Inl (Thrown System_error), t')"
  using assms(2) make_cache [OF assms(1)]
  by (auto simp: process_file_request_def Let_def read_all_path_def fl_open_read_def thrown_code_def open_read_only_def on_fs_def act_on_def bnd_def)

text \<open>The end of a file completes the download however many bytes have arrived.\<close>

lemma short_file_completes:
  assumes "byte_streams io v" and "downloading x got t" and "of_nat (length got) \<noteq> dw_size x"
  shows "\<exists>t'. process_file_end io (dw_lib x) gen (dw_from x) (fid_pack io (dw_file x)) t = (Inr (), t') \<and>
    TpDownloadComplete (dw_from x) (dw_file x) (dw_target x t) True \<in> set (tp_events t')"
  using end_commits [OF assms(1,2), of gen] by (metis in_set_conv_decomp append.assoc append_Cons append_Nil)

end
