(* ===== verification/Pollers.thy ===== *)
theory Pollers
  imports ConnectingPool "HOL-Library.Multiset"
begin

text \<open>
  The pollers: the backends \<open>poll_poller\<close>, \<open>select_poller\<close> (src/posix) and \<open>epoll_poller\<close> (src/linux), and over
  each of them \<open>reader_poller\<close>, \<open>writer_poller\<close>, \<open>listener_poller\<close> and \<open>connecting_poller\<close>.

  The answers of the system are arguments: what \<open>poll\<close>, \<open>select\<close> or \<open>epoll_wait\<close> returns, the pending error of
  a socket (\<open>getsockopt\<close>, which may fail) and what a look at its first byte shows (\<open>recv\<close> with \<open>MSG_PEEK\<close>).
  A poll gives the callbacks it makes, in order, and the number it returns. The callbacks only defer
  removals, so the loop runs over the vector it starts with.

  The bits of events are those of Linux, at the width of their fields. \<open>fd_set\<close> is the set of its
  descriptors; \<open>FD_SET\<close> and \<open>FD_CLR\<close> are undefined outside 0 to \<open>FD_SETSIZE - 1\<close>.
\<close>

subsection \<open>Answers of the system and callbacks\<close>

datatype os_errno = Eok | Epipe | Etimedout | Ehostunreach | Econnreset | Econnrefused | Eother nat

datatype peek_result = PeekData | PeekEof | PeekFails os_errno

record os_sockets =
  os_error :: "socket_id \<Rightarrow> os_errno option"
  os_peek :: "socket_id \<Rightarrow> peek_result"

datatype 'a os_wait = WaitFails bool | WaitReady int 'a

datatype poller_event =
    PeFailure socket_id errc
  | PeDisconnected socket_id
  | PeReadyRead socket_id
  | PeCanWrite socket_id
  | PeAccept socket_id
  | PeConnected socket_id
  | PeRefused socket_id refused_reason

text \<open>The error a backend reports: an interrupted wait is not one. The first argument tells whether the
  caller passed a place for the error; without one it is thrown.\<close>

definition wait_failure :: "bool \<Rightarrow> bool \<Rightarrow> errc option result" where
  "wait_failure perr interrupted =
     (if interrupted then Inr None
      else if perr then Inr (Some Poller_error) else Inl (Thrown Poller_error))"

subsection \<open>\<open>poll_poller\<close>\<close>

definition POLLIN :: u16 where "POLLIN = 0x1"
definition POLLOUT :: u16 where "POLLOUT = 0x4"
definition POLLERR :: u16 where "POLLERR = 0x8"
definition POLLHUP :: u16 where "POLLHUP = 0x10"
definition POLLNVAL :: u16 where "POLLNVAL = 0x20"
definition POLLRDNORM :: u16 where "POLLRDNORM = 0x40"
definition POLLRDBAND :: u16 where "POLLRDBAND = 0x80"
definition POLLWRNORM :: u16 where "POLLWRNORM = 0x100"
definition POLLWRBAND :: u16 where "POLLWRBAND = 0x200"
definition POLLRDHUP :: u16 where "POLLRDHUP = 0x2000"

record pollfd =
  pf_fd :: socket_id
  pf_events :: u16
  pf_revents :: u16

record poll_poller =
  pp_events :: "pollfd list"
  pp_oevents :: u16

definition pp_new :: "u16 \<Rightarrow> poll_poller" where
  "pp_new observable_events = \<lparr>pp_events = [], pp_oevents = observable_events\<rparr>"

definition pp_add_socket :: "socket_id \<Rightarrow> poll_poller \<Rightarrow> poll_poller" where
  "pp_add_socket sock p =
     (if sock \<in> pf_fd ` set (pp_events p) then p
      else p\<lparr>pp_events := pp_events p @ [\<lparr>pf_fd = sock, pf_events = pp_oevents p, pf_revents = 0\<rparr>]\<rparr>)"

definition pp_add_listener :: "socket_id \<Rightarrow> poll_poller \<Rightarrow> poll_poller" where
  "pp_add_listener sock p = pp_add_socket sock p"

definition pp_wait_for_write :: "socket_id \<Rightarrow> poll_poller \<Rightarrow> poll_poller" where
  "pp_wait_for_write sock p = pp_add_socket sock p"

text \<open>The tail is moved by \<open>memcpy\<close>, which is undefined when the ranges overlap: when two or more elements follow.\<close>

fun find_index :: "('a \<Rightarrow> bool) \<Rightarrow> 'a list \<Rightarrow> nat option" where
  "find_index q [] = None"
| "find_index q (x # xs) = (if q x then Some 0 else map_option Suc (find_index q xs))"

definition pp_remove_socket :: "socket_id \<Rightarrow> poll_poller \<Rightarrow> poll_poller result" where
  "pp_remove_socket sock p =
     (case find_index (\<lambda>e. pf_fd e = sock) (pp_events p) of
        None \<Rightarrow> Inr p
      | Some index \<Rightarrow>
          (let n = length (pp_events p) - 1 - index
           in if 2 \<le> n then Inl Undefined
              else Inr (p\<lparr>pp_events := take index (pp_events p) @ drop (index + 1) (pp_events p)\<rparr>)))"

definition pp_remove_listener :: "socket_id \<Rightarrow> poll_poller \<Rightarrow> poll_poller result" where
  "pp_remove_listener sock p = pp_remove_socket sock p"

text \<open>\<open>poll\<close> writes the field \<open>revents\<close> of every element.\<close>

definition pp_poll :: "bool \<Rightarrow> u16 list os_wait \<Rightarrow> poll_poller \<Rightarrow> (errc option \<times> int \<times> poll_poller) result" where
  "pp_poll perr w p =
     (case w of
        WaitFails interrupted \<Rightarrow> mapr (\<lambda>e. (e, -1, p)) (wait_failure perr interrupted)
      | WaitReady n revs \<Rightarrow>
          Inr (None, n, p\<lparr>pp_events := map2 (\<lambda>e r. e\<lparr>pf_revents := r\<rparr>) (pp_events p) revs\<rparr>))"

definition pp_empty :: "poll_poller \<Rightarrow> bool" where
  "pp_empty p \<longleftrightarrow> length (pp_events p) = 0"

subsection \<open>\<open>select_poller\<close>\<close>

definition FD_SETSIZE :: int where "FD_SETSIZE = 1024"

definition invalid_socket :: socket_id where "invalid_socket = -1"

record select_poller =
  sl_max_fd :: socket_id
  sl_sockets :: "socket_id list"
  sl_count :: int
  sl_readfds :: "socket_id set"
  sl_writefds :: "socket_id set"
  sl_observe_read :: bool
  sl_observe_write :: bool

definition sl_new :: "bool \<Rightarrow> bool \<Rightarrow> select_poller" where
  "sl_new oread owrite = \<lparr>sl_max_fd = 0, sl_sockets = [], sl_count = 0, sl_readfds = {}, sl_writefds = {},
     sl_observe_read = oread, sl_observe_write = owrite\<rparr>"

definition fd_ok :: "socket_id \<Rightarrow> bool" where
  "fd_ok sock \<longleftrightarrow> 0 \<le> sock \<and> sock < FD_SETSIZE"

definition sl_add_socket :: "socket_id \<Rightarrow> select_poller \<Rightarrow> select_poller result" where
  "sl_add_socket sock s =
     (if sock \<in> set (sl_sockets s) then Inr s
      else
        (let sockets = (case find_index (\<lambda>x. x = invalid_socket) (sl_sockets s) of
                          None \<Rightarrow> sl_sockets s @ [sock] | Some i \<Rightarrow> (sl_sockets s)[i := sock])
         in if (sl_observe_read s \<or> sl_observe_write s) \<and> \<not> fd_ok sock then Inl Undefined
            else Inr (s\<lparr>sl_sockets := sockets, sl_count := sl_count s + 1,
              sl_readfds := (if sl_observe_read s then insert sock (sl_readfds s) else sl_readfds s),
              sl_writefds := (if sl_observe_write s then insert sock (sl_writefds s) else sl_writefds s),
              sl_max_fd := max (sl_max_fd s) sock\<rparr>)))"

definition sl_add_listener :: "socket_id \<Rightarrow> select_poller \<Rightarrow> select_poller result" where
  "sl_add_listener sock s = sl_add_socket sock s"

definition sl_wait_for_write :: "socket_id \<Rightarrow> select_poller \<Rightarrow> select_poller result" where
  "sl_wait_for_write sock s = sl_add_socket sock s"

definition sl_remove_socket :: "socket_id \<Rightarrow> select_poller \<Rightarrow> select_poller result" where
  "sl_remove_socket sock s =
     (if (sl_observe_read s \<or> sl_observe_write s) \<and> \<not> fd_ok sock then Inl Undefined
      else
        (let s = s\<lparr>sl_readfds := (if sl_observe_read s then sl_readfds s - {sock} else sl_readfds s),
              sl_writefds := (if sl_observe_write s then sl_writefds s - {sock} else sl_writefds s)\<rparr>;
             s = (case find_index (\<lambda>x. x = sock) (sl_sockets s) of
                    None \<Rightarrow> s
                  | Some i \<Rightarrow> s\<lparr>sl_sockets := (sl_sockets s)[i := invalid_socket], sl_count := sl_count s - 1\<rparr>)
         in Inr (if sl_max_fd s = sock then s\<lparr>sl_max_fd := sl_max_fd s - 1\<rparr> else s)))"

definition sl_remove_listener :: "socket_id \<Rightarrow> select_poller \<Rightarrow> select_poller result" where
  "sl_remove_listener sock s = sl_remove_socket sock s"

text \<open>\<open>select\<close> is asked about the descriptors up to \<open>max_fd\<close> of the observed sets: the answer is what the system
  gives for these arguments.\<close>

type_synonym fd_sets = "socket_id set \<times> socket_id set"

type_synonym os_select = "socket_id \<Rightarrow> socket_id set option \<Rightarrow> socket_id set option \<Rightarrow> fd_sets os_wait"

definition sl_poll :: "bool \<Rightarrow> os_select \<Rightarrow> select_poller \<Rightarrow> (errc option \<times> int \<times> fd_sets) result" where
  "sl_poll perr select s =
     (if sl_sockets s = [] then Inr (None, 0, {}, {})
      else
        (case select (sl_max_fd s + 1)
            (if sl_observe_read s then Some (sl_readfds s) else None)
            (if sl_observe_write s then Some (sl_writefds s) else None) of
           WaitFails interrupted \<Rightarrow> mapr (\<lambda>e. (e, -1, {}, {})) (wait_failure perr interrupted)
         | WaitReady n fds \<Rightarrow> Inr (None, n, fds)))"

definition sl_empty :: "select_poller \<Rightarrow> bool" where
  "sl_empty s \<longleftrightarrow> sl_count s = 0"

subsection \<open>\<open>epoll_poller\<close>\<close>

definition EPOLLIN :: u32 where "EPOLLIN = 0x1"
definition EPOLLOUT :: u32 where "EPOLLOUT = 0x4"
definition EPOLLERR :: u32 where "EPOLLERR = 0x8"
definition EPOLLHUP :: u32 where "EPOLLHUP = 0x10"
definition EPOLLRDNORM :: u32 where "EPOLLRDNORM = 0x40"
definition EPOLLRDBAND :: u32 where "EPOLLRDBAND = 0x80"
definition EPOLLWRNORM :: u32 where "EPOLLWRNORM = 0x100"
definition EPOLLWRBAND :: u32 where "EPOLLWRBAND = 0x200"
definition EPOLLRDHUP :: u32 where "EPOLLRDHUP = 0x2000"

text \<open>\<open>ep_interest\<close> is what the system keeps for the descriptor \<open>eid\<close>: the registered sockets.\<close>

record epoll_poller =
  ep_interest :: "socket_id list"
  ep_events :: "(socket_id \<times> u32) list"
  ep_oevents :: u32

text \<open>\<open>epoll_create\<close> may fail.\<close>

definition ep_new :: "bool \<Rightarrow> u32 \<Rightarrow> epoll_poller result" where
  "ep_new created observable_events =
     (if created then Inr \<lparr>ep_interest = [], ep_events = [], ep_oevents = observable_events\<rparr>
      else Inl (Thrown Poller_error))"

text \<open>\<open>epoll_ctl\<close> tells a socket that is registered already from other failures (the argument \<open>fails\<close>).\<close>

definition ep_add_socket :: "bool \<Rightarrow> bool \<Rightarrow> socket_id \<Rightarrow> epoll_poller \<Rightarrow> (errc option \<times> epoll_poller) result" where
  "ep_add_socket perr fails sock p =
     (if sock \<in> set (ep_interest p) then Inr (None, p)
      else if fails then (if perr then Inr (Some Poller_error, p) else Inl (Thrown Poller_error))
      else Inr (None, p\<lparr>ep_interest := ep_interest p @ [sock], ep_events := ep_events p @ [(0, 0)]\<rparr>))"

definition ep_add_listener :: "bool \<Rightarrow> socket_id \<Rightarrow> epoll_poller \<Rightarrow> (errc option \<times> epoll_poller) result" where
  "ep_add_listener fails sock p = ep_add_socket False fails sock p"

definition ep_wait_for_write :: "bool \<Rightarrow> bool \<Rightarrow> socket_id \<Rightarrow> epoll_poller \<Rightarrow> (errc option \<times> epoll_poller) result" where
  "ep_wait_for_write perr fails sock p = ep_add_socket perr fails sock p"

definition ep_remove_socket :: "bool \<Rightarrow> bool \<Rightarrow> socket_id \<Rightarrow> epoll_poller \<Rightarrow> (errc option \<times> epoll_poller) result" where
  "ep_remove_socket perr fails sock p =
     (if sock \<notin> set (ep_interest p) then Inr (None, p)
      else if fails then (if perr then Inr (Some Poller_error, p) else Inl (Thrown Poller_error))
      else Inr (None, p\<lparr>ep_interest := filter (\<lambda>x. x \<noteq> sock) (ep_interest p)\<rparr>))"

definition ep_remove_listener :: "bool \<Rightarrow> socket_id \<Rightarrow> epoll_poller \<Rightarrow> (errc option \<times> epoll_poller) result" where
  "ep_remove_listener fails sock p = ep_remove_socket False fails sock p"

text \<open>\<open>epoll_wait\<close> writes the first elements of the vector, at most as many as it has.\<close>

definition ep_poll ::
  "bool \<Rightarrow> (nat \<Rightarrow> (socket_id \<times> u32) list os_wait) \<Rightarrow> epoll_poller \<Rightarrow> (errc option \<times> int \<times> epoll_poller) result" where
  "ep_poll perr wait p =
     (if ep_events p = [] then Inr (None, 0, p)
      else
        (case wait (length (ep_events p)) of
           WaitFails interrupted \<Rightarrow> mapr (\<lambda>e. (e, -1, p)) (wait_failure perr interrupted)
         | WaitReady n evs \<Rightarrow> Inr (None, n, p\<lparr>ep_events := evs @ drop (length evs) (ep_events p)\<rparr>)))"

definition ep_empty :: "epoll_poller \<Rightarrow> bool" where
  "ep_empty p \<longleftrightarrow> length (ep_events p) = 0"

subsection \<open>The loops over ready sockets\<close>

text \<open>A handler gives the callbacks for a socket and what it adds to the number of events. The loop over a vector
  of events ends when as many elements with events as the system announced have been handled.\<close>

type_synonym handled = "poller_event list \<times> int"

fun event_loop :: "(socket_id \<Rightarrow> 'm :: len word \<Rightarrow> handled) \<Rightarrow> int \<Rightarrow> (socket_id \<times> 'm word) list \<Rightarrow> handled" where
  "event_loop h n [] = ([], 0)"
| "event_loop h n ((fd, revents) # evs) =
     (if n = 0 then ([], 0)
      else if revents = 0 then event_loop h n evs
      else (case h fd revents of (es, k) \<Rightarrow>
              (case event_loop h (n - 1) evs of (es', k') \<Rightarrow> (es @ es', k + k'))))"

text \<open>The loop over the sockets of a \<open>select_poller\<close>; the handler also gives what it takes off the counter.\<close>

fun socket_loop :: "(socket_id \<Rightarrow> poller_event list \<times> int) \<Rightarrow> int \<Rightarrow> socket_id list \<Rightarrow> handled" where
  "socket_loop h rcounter [] = ([], 0)"
| "socket_loop h rcounter (fd # fds) =
     (if rcounter \<le> 0 then ([], 0)
      else if fd = invalid_socket then socket_loop h rcounter fds
      else (case h fd of (es, k) \<Rightarrow>
              (case socket_loop h (rcounter - k) fds of (es', k') \<Rightarrow> (es @ es', k + k'))))"

text \<open>The frame of every \<open>poll\<close>: nothing is handled on an error or a timeout.\<close>

definition after_wait :: "(int \<Rightarrow> handled) \<Rightarrow> int \<Rightarrow> handled" where
  "after_wait loop n = (if n < 0 then ([], n) else if 0 < n then loop n else ([], 0))"

subsection \<open>\<open>reader_poller\<close>\<close>

definition peek_callback :: "os_sockets \<Rightarrow> socket_id \<Rightarrow> poller_event" where
  "peek_callback os fd =
     (case os_peek os fd of
        PeekData \<Rightarrow> PeReadyRead fd
      | PeekEof \<Rightarrow> PeDisconnected fd
      | PeekFails e \<Rightarrow> (if e = Econnreset then PeDisconnected fd else PeFailure fd Socket_error))"

definition read_error_callback :: "os_sockets \<Rightarrow> socket_id \<Rightarrow> poller_event" where
  "read_error_callback os fd =
     (case os_error os fd of
        None \<Rightarrow> PeFailure fd System_error
      | Some e \<Rightarrow>
          (if e \<in> {Epipe, Etimedout, Ehostunreach, Econnreset} then PeDisconnected fd else PeFailure fd Socket_error))"

definition rd_select_new :: select_poller where
  "rd_select_new = sl_new True False"

definition rd_select_handler :: "os_sockets \<Rightarrow> socket_id set \<Rightarrow> socket_id \<Rightarrow> handled" where
  "rd_select_handler os rfds fd = (if fd \<in> rfds then ([peek_callback os fd], 1) else ([], 0))"

definition rd_select_poll :: "os_sockets \<Rightarrow> bool \<Rightarrow> os_select \<Rightarrow> select_poller \<Rightarrow> (errc option \<times> handled) result" where
  "rd_select_poll os perr select s =
     mapr (\<lambda>(err, n, rfds, wfds). (err, after_wait (\<lambda>n. socket_loop (rd_select_handler os rfds) n (sl_sockets s)) n))
       (sl_poll perr select s)"

definition rd_poll_new :: poll_poller where
  "rd_poll_new = pp_new (or POLLERR (or POLLIN (or POLLNVAL (or POLLRDNORM POLLRDBAND))))"

definition rd_poll_handler :: "os_sockets \<Rightarrow> socket_id \<Rightarrow> u16 \<Rightarrow> handled" where
  "rd_poll_handler os fd revents =
     (if and revents POLLERR \<noteq> 0 then ([read_error_callback os fd], 0)
      else if and revents (or POLLIN (or POLLRDNORM POLLRDBAND)) \<noteq> 0 then ([peek_callback os fd], 1)
      else ([], 0))"

text \<open>The elements of the vector, as the loop reads them.\<close>

definition poll_events :: "poll_poller \<Rightarrow> (socket_id \<times> u16) list" where
  "poll_events p = map (\<lambda>e. (pf_fd e, pf_revents e)) (pp_events p)"

definition rd_poll_poll :: "os_sockets \<Rightarrow> bool \<Rightarrow> u16 list os_wait \<Rightarrow> poll_poller \<Rightarrow> (errc option \<times> handled \<times> poll_poller) result" where
  "rd_poll_poll os perr w p =
     mapr (\<lambda>(err, n, p). (err, after_wait (\<lambda>n. event_loop (rd_poll_handler os) n (poll_events p)) n, p)) (pp_poll perr w p)"

definition rd_epoll_new :: "bool \<Rightarrow> epoll_poller result" where
  "rd_epoll_new created =
     ep_new created (or EPOLLERR (or EPOLLIN (or EPOLLRDNORM (or EPOLLRDBAND (or EPOLLHUP EPOLLRDHUP)))))"

definition rd_epoll_handler :: "os_sockets \<Rightarrow> socket_id \<Rightarrow> u32 \<Rightarrow> handled" where
  "rd_epoll_handler os fd events =
     (if and events EPOLLERR \<noteq> 0 then ([read_error_callback os fd], 0)
      else if and events (or EPOLLHUP EPOLLRDHUP) \<noteq> 0 then ([PeDisconnected fd], 0)
      else if and events (or EPOLLIN (or EPOLLRDNORM EPOLLRDBAND)) \<noteq> 0 then ([peek_callback os fd], 1)
      else ([], 0))"

definition rd_epoll_poll ::
  "os_sockets \<Rightarrow> bool \<Rightarrow> (nat \<Rightarrow> (socket_id \<times> u32) list os_wait) \<Rightarrow> epoll_poller \<Rightarrow> (errc option \<times> handled \<times> epoll_poller) result" where
  "rd_epoll_poll os perr wait p =
     mapr (\<lambda>(err, n, p). (err, after_wait (\<lambda>n. event_loop (rd_epoll_handler os) n (ep_events p)) n, p)) (ep_poll perr wait p)"

subsection \<open>\<open>writer_poller\<close>\<close>

definition write_error_callback :: "os_sockets \<Rightarrow> socket_id \<Rightarrow> poller_event" where
  "write_error_callback os fd =
     (case os_error os fd of None \<Rightarrow> PeFailure fd System_error | Some e \<Rightarrow> PeFailure fd Socket_error)"

definition wr_select_new :: select_poller where
  "wr_select_new = sl_new False True"

definition wr_select_handler :: "socket_id set \<Rightarrow> socket_id \<Rightarrow> handled" where
  "wr_select_handler wfds fd = (if fd \<in> wfds then ([PeCanWrite fd], 1) else ([], 0))"

definition wr_select_poll :: "bool \<Rightarrow> os_select \<Rightarrow> select_poller \<Rightarrow> (errc option \<times> handled) result" where
  "wr_select_poll perr select s =
     mapr (\<lambda>(err, n, rfds, wfds). (err, after_wait (\<lambda>n. socket_loop (wr_select_handler wfds) n (sl_sockets s)) n))
       (sl_poll perr select s)"

definition wr_poll_new :: poll_poller where
  "wr_poll_new = pp_new (or POLLERR (or POLLOUT (or POLLWRNORM POLLWRBAND)))"

definition wr_poll_handler :: "os_sockets \<Rightarrow> socket_id \<Rightarrow> u16 \<Rightarrow> handled" where
  "wr_poll_handler os fd revents =
     (if and revents POLLERR \<noteq> 0 then ([write_error_callback os fd], 0)
      else if and revents (or POLLOUT (or POLLWRNORM POLLWRBAND)) \<noteq> 0 then ([PeCanWrite fd], 1)
      else ([], 0))"

definition wr_poll_poll :: "os_sockets \<Rightarrow> bool \<Rightarrow> u16 list os_wait \<Rightarrow> poll_poller \<Rightarrow> (errc option \<times> handled \<times> poll_poller) result" where
  "wr_poll_poll os perr w p =
     mapr (\<lambda>(err, n, p). (err, after_wait (\<lambda>n. event_loop (wr_poll_handler os) n (poll_events p)) n, p)) (pp_poll perr w p)"

definition wr_epoll_new :: "bool \<Rightarrow> epoll_poller result" where
  "wr_epoll_new created = ep_new created (or EPOLLERR (or EPOLLOUT (or EPOLLWRNORM EPOLLWRBAND)))"

definition wr_epoll_handler :: "os_sockets \<Rightarrow> socket_id \<Rightarrow> u32 \<Rightarrow> handled" where
  "wr_epoll_handler os fd events =
     (if and events EPOLLERR \<noteq> 0 then ([write_error_callback os fd], 0)
      else if and events (or EPOLLOUT (or EPOLLWRNORM EPOLLWRBAND)) \<noteq> 0 then ([PeCanWrite fd], 1)
      else ([], 0))"

definition wr_epoll_poll ::
  "os_sockets \<Rightarrow> bool \<Rightarrow> (nat \<Rightarrow> (socket_id \<times> u32) list os_wait) \<Rightarrow> epoll_poller \<Rightarrow> (errc option \<times> handled \<times> epoll_poller) result" where
  "wr_epoll_poll os perr wait p =
     mapr (\<lambda>(err, n, p). (err, after_wait (\<lambda>n. event_loop (wr_epoll_handler os) n (ep_events p)) n, p)) (ep_poll perr wait p)"

subsection \<open>\<open>listener_poller\<close>\<close>

definition ls_select_new :: select_poller where
  "ls_select_new = sl_new True False"

definition ls_select_handler :: "socket_id set \<Rightarrow> socket_id \<Rightarrow> handled" where
  "ls_select_handler rfds fd = (if fd \<in> rfds then ([PeAccept fd], 1) else ([], 0))"

definition ls_select_poll :: "bool \<Rightarrow> os_select \<Rightarrow> select_poller \<Rightarrow> (errc option \<times> handled) result" where
  "ls_select_poll perr select s =
     mapr (\<lambda>(err, n, rfds, wfds). (err, after_wait (\<lambda>n. socket_loop (ls_select_handler rfds) n (sl_sockets s)) n))
       (sl_poll perr select s)"

definition ls_poll_new :: poll_poller where
  "ls_poll_new = pp_new (or POLLERR (or POLLIN (or POLLRDNORM POLLRDBAND)))"

definition ls_poll_handler :: "os_sockets \<Rightarrow> socket_id \<Rightarrow> u16 \<Rightarrow> handled" where
  "ls_poll_handler os fd revents =
     (if and revents POLLERR \<noteq> 0 then ([write_error_callback os fd], 0)
      else if and revents (or POLLIN (or POLLRDNORM POLLRDBAND)) \<noteq> 0 then ([PeAccept fd], 1)
      else ([], 0))"

definition ls_poll_poll :: "os_sockets \<Rightarrow> bool \<Rightarrow> u16 list os_wait \<Rightarrow> poll_poller \<Rightarrow> (errc option \<times> handled \<times> poll_poller) result" where
  "ls_poll_poll os perr w p =
     mapr (\<lambda>(err, n, p). (err, after_wait (\<lambda>n. event_loop (ls_poll_handler os) n (poll_events p)) n, p)) (pp_poll perr w p)"

definition ls_epoll_new :: "bool \<Rightarrow> epoll_poller result" where
  "ls_epoll_new created = ep_new created (or EPOLLERR (or EPOLLIN (or EPOLLRDNORM EPOLLRDBAND)))"

definition ls_epoll_handler :: "os_sockets \<Rightarrow> socket_id \<Rightarrow> u32 \<Rightarrow> handled" where
  "ls_epoll_handler os fd events =
     (if and events EPOLLERR \<noteq> 0 then ([write_error_callback os fd], 0)
      else if and events (or EPOLLIN (or EPOLLRDNORM EPOLLRDBAND)) \<noteq> 0 then ([PeAccept fd], 1)
      else ([], 0))"

definition ls_epoll_poll ::
  "os_sockets \<Rightarrow> bool \<Rightarrow> (nat \<Rightarrow> (socket_id \<times> u32) list os_wait) \<Rightarrow> epoll_poller \<Rightarrow> (errc option \<times> handled \<times> epoll_poller) result" where
  "ls_epoll_poll os perr wait p =
     mapr (\<lambda>(err, n, p). (err, after_wait (\<lambda>n. event_loop (ls_epoll_handler os) n (ep_events p)) n, p)) (ep_poll perr wait p)"

subsection \<open>\<open>connecting_poller\<close>\<close>

text \<open>The errors that refuse a connection; others are failures.\<close>

definition connect_error_callback :: "os_errno \<Rightarrow> socket_id \<Rightarrow> poller_event" where
  "connect_error_callback e fd =
     (case e of
        Ehostunreach \<Rightarrow> PeRefused fd RefusedUnreachable
      | Econnrefused \<Rightarrow> PeRefused fd RefusedOther
      | Econnreset \<Rightarrow> PeRefused fd RefusedReset
      | Etimedout \<Rightarrow> PeRefused fd RefusedTimeout
      | _ \<Rightarrow> PeFailure fd Unexpected_error)"

definition cn_select_new :: select_poller where
  "cn_select_new = sl_new True True"

definition cn_select_handler :: "os_sockets \<Rightarrow> fd_sets \<Rightarrow> socket_id \<Rightarrow> handled" where
  "cn_select_handler os fds fd =
     (case (if fd \<in> fst fds then
              ((case os_error os fd of
                  None \<Rightarrow> [PeFailure fd System_error]
                | Some e \<Rightarrow> (if e = Eok then [] else [connect_error_callback e fd])), 1)
            else ([], 0)) of
        (es, k) \<Rightarrow> (if fd \<in> snd fds then (es @ [PeConnected fd], k + 1) else (es, k)))"

text \<open>Over \<open>select\<close> the number of the system is returned, not that of the connected sockets.\<close>

definition cn_select_poll :: "os_sockets \<Rightarrow> bool \<Rightarrow> os_select \<Rightarrow> select_poller \<Rightarrow> (errc option \<times> handled) result" where
  "cn_select_poll os perr select s =
     mapr (\<lambda>(err, n, fds). (err, fst (after_wait (\<lambda>n. socket_loop (cn_select_handler os fds) n (sl_sockets s)) n), n))
       (sl_poll perr select s)"

definition cn_poll_new :: poll_poller where
  "cn_poll_new = pp_new (or POLLERR (or POLLHUP (or POLLOUT (or POLLRDHUP (or POLLWRNORM POLLWRBAND)))))"

definition connect_pending_error :: "os_sockets \<Rightarrow> socket_id \<Rightarrow> poller_event" where
  "connect_pending_error os fd =
     (case os_error os fd of
        None \<Rightarrow> PeFailure fd System_error
      | Some e \<Rightarrow> (if e = Eok then PeFailure fd Unexpected_error else connect_error_callback e fd))"

definition cn_poll_handler :: "os_sockets \<Rightarrow> socket_id \<Rightarrow> u16 \<Rightarrow> handled" where
  "cn_poll_handler os fd revents =
     (if and revents POLLERR \<noteq> 0 then ([connect_pending_error os fd], 0)
      else if and revents (or POLLHUP POLLRDHUP) \<noteq> 0 then ([PeRefused fd RefusedOther], 0)
      else if and revents (or POLLOUT (or POLLWRNORM POLLWRBAND)) \<noteq> 0 then ([PeConnected fd], 1)
      else ([], 0))"

definition cn_poll_poll :: "os_sockets \<Rightarrow> bool \<Rightarrow> u16 list os_wait \<Rightarrow> poll_poller \<Rightarrow> (errc option \<times> handled \<times> poll_poller) result" where
  "cn_poll_poll os perr w p =
     mapr (\<lambda>(err, n, p). (err, after_wait (\<lambda>n. event_loop (cn_poll_handler os) n (poll_events p)) n, p)) (pp_poll perr w p)"

definition cn_epoll_new :: "bool \<Rightarrow> epoll_poller result" where
  "cn_epoll_new created =
     ep_new created (or EPOLLERR (or EPOLLHUP (or EPOLLRDHUP (or EPOLLOUT (or EPOLLWRNORM EPOLLWRBAND)))))"

definition cn_epoll_handler :: "os_sockets \<Rightarrow> socket_id \<Rightarrow> u32 \<Rightarrow> handled" where
  "cn_epoll_handler os fd events =
     (if and events EPOLLERR \<noteq> 0 then ([connect_pending_error os fd], 0)
      else if and events (or EPOLLHUP EPOLLRDHUP) \<noteq> 0 then ([PeRefused fd RefusedOther], 0)
      else if and events (or EPOLLOUT (or EPOLLWRNORM EPOLLWRBAND)) \<noteq> 0 then ([PeConnected fd], 1)
      else ([], 0))"

definition cn_epoll_poll ::
  "os_sockets \<Rightarrow> bool \<Rightarrow> (nat \<Rightarrow> (socket_id \<times> u32) list os_wait) \<Rightarrow> epoll_poller \<Rightarrow> (errc option \<times> handled \<times> epoll_poller) result" where
  "cn_epoll_poll os perr wait p =
     mapr (\<lambda>(err, n, p). (err, after_wait (\<lambda>n. event_loop (cn_epoll_handler os) n (ep_events p)) n, p)) (ep_poll perr wait p)"

subsection \<open>A backend as a set of sockets\<close>

text \<open>What the pollers are used for: the operations add and remove a socket of the set that is observed, as far
  as they return; \<open>empty\<close> may be true only for the empty set.\<close>

locale poller_backend =
  fixes add_sock :: "socket_id \<Rightarrow> 'p \<Rightarrow> 'p result"
    and remove_sock :: "socket_id \<Rightarrow> 'p \<Rightarrow> 'p result"
    and no_sock :: "'p \<Rightarrow> bool"
    and ok :: "'p \<Rightarrow> bool"
    and members :: "'p \<Rightarrow> socket_id set"
  assumes add_members: "ok p \<Longrightarrow> add_sock x p = Inr p' \<Longrightarrow> ok p' \<and> members p' = insert x (members p)"
    and remove_members: "ok p \<Longrightarrow> remove_sock x p = Inr p' \<Longrightarrow> ok p' \<and> members p' = members p - {x}"
    and empty_sound: "ok p \<Longrightarrow> no_sock p \<Longrightarrow> members p = {}"
begin

lemma add_all:
  "ok p \<Longrightarrow> foldr_res add_sock xs p = Inr p' \<Longrightarrow> ok p' \<and> members p' = set xs \<union> members p"
proof (induction xs arbitrary: p)
  case Nil
  then show ?case by simp
next
  case (Cons x xs)
  from Cons.prems(2) obtain q where q: "add_sock x p = Inr q" "foldr_res add_sock xs q = Inr p'" by auto
  from Cons.IH [OF _ q(2)] add_members [OF Cons.prems(1) q(1)] show ?case by auto
qed

lemma remove_all:
  "ok p \<Longrightarrow> foldr_res remove_sock xs p = Inr p' \<Longrightarrow> ok p' \<and> members p' = members p - set xs"
proof (induction xs arbitrary: p)
  case Nil
  then show ?case by simp
next
  case (Cons x xs)
  from Cons.prems(2) obtain q where q: "remove_sock x p = Inr q" "foldr_res remove_sock xs q = Inr p'" by auto
  from Cons.IH [OF _ q(2)] remove_members [OF Cons.prems(1) q(1)] show ?case by auto
qed

end

text \<open>A backend whose \<open>empty\<close> is exact.\<close>

locale exact_backend = poller_backend +
  assumes empty_iff: "ok p \<Longrightarrow> no_sock p \<longleftrightarrow> members p = {}"

lemma find_index_None: "find_index q xs = None \<longleftrightarrow> (\<forall>x\<in>set xs. \<not> q x)"
  by (induction xs) auto

lemma find_index_Some:
  "find_index q xs = Some i \<Longrightarrow> i < length xs \<and> q (xs ! i) \<and> (\<forall>j < i. \<not> q (xs ! j))"
proof (induction xs arbitrary: i)
  case Nil
  then show ?case by simp
next
  case (Cons x xs)
  show ?case
  proof (cases "q x")
    case True
    with Cons.prems show ?thesis by simp
  next
    case False
    with Cons.prems obtain k where k: "find_index q xs = Some k" "i = Suc k" by auto
    from Cons.IH [OF k(1)] k(2) False show ?thesis by (auto simp: nth_Cons split: nat.split)
  qed
qed

definition pp_members :: "poll_poller \<Rightarrow> socket_id set" where
  "pp_members p = pf_fd ` set (pp_events p)"

definition pp_ok :: "poll_poller \<Rightarrow> bool" where
  "pp_ok p \<longleftrightarrow> distinct (map pf_fd (pp_events p))"

lemma take_drop_nth_members:
  assumes "i < length xs" and "distinct (map f xs)" and "f (xs ! i) = x"
  shows "f ` set (take i xs @ drop (Suc i) xs) = f ` set xs - {x}" and "distinct (map f (take i xs @ drop (Suc i) xs))"
proof -
  have xs: "xs = take i xs @ xs ! i # drop (Suc i) xs" using assms(1) by (simp add: id_take_nth_drop)
  have d: "distinct (map f (take i xs @ xs ! i # drop (Suc i) xs))" using assms(2) xs by simp
  show "distinct (map f (take i xs @ drop (Suc i) xs))" using d by auto
  have "f ` set xs = insert x (f ` set (take i xs @ drop (Suc i) xs))"
    by (subst xs) (use assms(3) in auto)
  moreover have "x \<notin> f ` set (take i xs @ drop (Suc i) xs)" using d assms(3) by auto
  ultimately show "f ` set (take i xs @ drop (Suc i) xs) = f ` set xs - {x}" by simp
qed

interpretation pp: exact_backend "\<lambda>x p. Inr (pp_add_socket x p)" pp_remove_socket pp_empty pp_ok pp_members
proof
  fix p p' :: poll_poller and x
  assume ok: "pp_ok p"
  show "pp_ok p' \<and> pp_members p' = insert x (pp_members p)" if "Inr (pp_add_socket x p) = Inr p'"
    using that ok by (auto simp: pp_add_socket_def pp_ok_def pp_members_def split: if_splits)
  show "pp_ok p' \<and> pp_members p' = pp_members p - {x}" if "pp_remove_socket x p = Inr p'"
  proof (cases "find_index (\<lambda>e. pf_fd e = x) (pp_events p)")
    case None
    with that show ?thesis using ok by (auto simp: pp_remove_socket_def find_index_None pp_members_def)
  next
    case (Some i)
    note i = find_index_Some [OF Some]
    have p': "pp_events p' = take i (pp_events p) @ drop (Suc i) (pp_events p)"
      using that Some by (auto simp: pp_remove_socket_def Let_def split: if_splits)
    show ?thesis
      unfolding pp_ok_def pp_members_def p'
      using take_drop_nth_members [of i "pp_events p" pf_fd x] i ok by (simp only: pp_ok_def simp_thms)
  qed
  show "pp_members p = {}" if "pp_empty p" using that by (simp add: pp_empty_def pp_members_def)
  show "pp_empty p \<longleftrightarrow> pp_members p = {}" by (simp add: pp_empty_def pp_members_def)
qed

lemma pp_remove_undefined:
  assumes "pp_events p = evs @ a # b # c # rest" and "pf_fd a = x" and "x \<notin> pf_fd ` set evs"
  shows "pp_remove_socket x p = Inl Undefined"
proof -
  have "find_index (\<lambda>e. pf_fd e = x) (evs @ a # b # c # rest) = Some (length evs)"
    using assms(2,3) by (induction evs) auto
  with assms(1) show ?thesis by (simp add: pp_remove_socket_def)
qed

text \<open>The invariant of a \<open>select_poller\<close>: free places hold the invalid socket, the count is that of the others, the
  observed sets hold exactly these, and none is above \<open>max_fd\<close>.\<close>

definition sl_members :: "select_poller \<Rightarrow> socket_id set" where
  "sl_members s = set (sl_sockets s) - {invalid_socket}"

definition sl_live :: "select_poller \<Rightarrow> socket_id list" where
  "sl_live s = filter (\<lambda>x. x \<noteq> invalid_socket) (sl_sockets s)"

definition sl_ok :: "select_poller \<Rightarrow> bool" where
  "sl_ok s \<longleftrightarrow> (sl_observe_read s \<or> sl_observe_write s) \<and> distinct (sl_live s) \<and> sl_count s = int (length (sl_live s)) \<and>
     sl_readfds s = (if sl_observe_read s then sl_members s else {}) \<and>
     sl_writefds s = (if sl_observe_write s then sl_members s else {}) \<and>
     (\<forall>x\<in>sl_members s. fd_ok x \<and> x \<le> sl_max_fd s)"

lemma sl_live_set [simp]: "set (sl_live s) = sl_members s"
  by (auto simp: sl_live_def sl_members_def)

lemma filter_list_update:
  assumes "i < length xs"
  shows "filter P (xs[i := y]) = filter P (take i xs) @ filter P [y] @ filter P (drop (Suc i) xs)"
    and "filter P xs = filter P (take i xs) @ filter P [xs ! i] @ filter P (drop (Suc i) xs)"
proof -
  show "filter P (xs[i := y]) = filter P (take i xs) @ filter P [y] @ filter P (drop (Suc i) xs)"
    using assms by (simp add: upd_conv_take_nth_drop)
  show "filter P xs = filter P (take i xs) @ filter P [xs ! i] @ filter P (drop (Suc i) xs)"
    by (subst id_take_nth_drop [OF assms]) simp
qed

lemma sl_put_live:
  assumes "find_index (\<lambda>x. x = y) (sl_sockets s) = Some i" and "distinct (sl_live s)"
  shows "y = invalid_socket \<Longrightarrow> z \<notin> sl_members s \<Longrightarrow> z \<noteq> invalid_socket \<Longrightarrow>
      distinct (filter (\<lambda>x. x \<noteq> invalid_socket) ((sl_sockets s)[i := z])) \<and>
      length (filter (\<lambda>x. x \<noteq> invalid_socket) ((sl_sockets s)[i := z])) = Suc (length (sl_live s)) \<and>
      set ((sl_sockets s)[i := z]) - {invalid_socket} = insert z (sl_members s)"
    and "y \<noteq> invalid_socket \<Longrightarrow>
      distinct (filter (\<lambda>x. x \<noteq> invalid_socket) ((sl_sockets s)[i := invalid_socket])) \<and>
      Suc (length (filter (\<lambda>x. x \<noteq> invalid_socket) ((sl_sockets s)[i := invalid_socket]))) = length (sl_live s) \<and>
      set ((sl_sockets s)[i := invalid_socket]) - {invalid_socket} = sl_members s - {y}"
proof -
  let ?P = "\<lambda>x. x \<noteq> invalid_socket"
  have i: "i < length (sl_sockets s)" "sl_sockets s ! i = y" using find_index_Some [OF assms(1)] by auto
  note f = filter_list_update [OF i(1), of ?P]
  have set_upd: "set (xs[i := z]) - {invalid_socket} = set (filter ?P (xs[i := z]))" for xs :: "socket_id list" and z by auto
  have m: "sl_members s = set (sl_live s)" by simp
  have l: "sl_live s = filter ?P (take i (sl_sockets s)) @ filter ?P [y] @ filter ?P (drop (Suc i) (sl_sockets s))"
    unfolding sl_live_def i(2) [symmetric] by (rule f(2))
  show "distinct (filter ?P ((sl_sockets s)[i := z])) \<and> length (filter ?P ((sl_sockets s)[i := z])) = Suc (length (sl_live s)) \<and>
      set ((sl_sockets s)[i := z]) - {invalid_socket} = insert z (sl_members s)"
    if "y = invalid_socket" "z \<notin> sl_members s" "z \<noteq> invalid_socket"
    using that assms(2) unfolding set_upd f(1) m l by auto
  show "distinct (filter ?P ((sl_sockets s)[i := invalid_socket])) \<and>
      Suc (length (filter ?P ((sl_sockets s)[i := invalid_socket]))) = length (sl_live s) \<and>
      set ((sl_sockets s)[i := invalid_socket]) - {invalid_socket} = sl_members s - {y}"
    if "y \<noteq> invalid_socket"
    using that assms(2) unfolding set_upd f(1) m l by auto
qed

lemma sl_okI:
  assumes "sl_observe_read s \<or> sl_observe_write s" and "distinct (filter (\<lambda>x. x \<noteq> invalid_socket) (sl_sockets s))"
    and "sl_count s = int (length (filter (\<lambda>x. x \<noteq> invalid_socket) (sl_sockets s)))"
    and "set (sl_sockets s) - {invalid_socket} = M"
    and "sl_readfds s = (if sl_observe_read s then M else {})"
    and "sl_writefds s = (if sl_observe_write s then M else {})"
    and "\<forall>x\<in>M. fd_ok x \<and> x \<le> sl_max_fd s"
  shows "sl_ok s \<and> sl_members s = M"
  using assms by (simp add: sl_ok_def sl_live_def sl_members_def)

lemma sl_okD:
  assumes "sl_ok s"
  shows "sl_observe_read s \<or> sl_observe_write s" "distinct (sl_live s)" "sl_count s = int (length (sl_live s))"
    "sl_readfds s = (if sl_observe_read s then sl_members s else {})"
    "sl_writefds s = (if sl_observe_write s then sl_members s else {})"
    "\<And>x. x \<in> sl_members s \<Longrightarrow> fd_ok x" "\<And>x. x \<in> sl_members s \<Longrightarrow> x \<le> sl_max_fd s"
  using assms by (auto simp: sl_ok_def)

lemma sl_add_ok:
  assumes "sl_ok s" and "sl_add_socket x s = Inr s'" and "x \<noteq> invalid_socket"
  shows "sl_ok s' \<and> sl_members s' = insert x (sl_members s)"
proof (cases "x \<in> set (sl_sockets s)")
  case True
  with assms show ?thesis by (auto simp: sl_add_socket_def sl_members_def)
next
  case False
  note s = sl_okD [OF assms(1)]
  have x: "fd_ok x" using assms(2) s(1) False by (auto simp: sl_add_socket_def Let_def split: if_splits)
  have nm: "x \<notin> sl_members s" using False by (simp add: sl_members_def)
  let ?so = "case find_index (\<lambda>x. x = invalid_socket) (sl_sockets s) of
     None \<Rightarrow> sl_sockets s @ [x] | Some i \<Rightarrow> (sl_sockets s)[i := x]"
  have so: "distinct (filter (\<lambda>x. x \<noteq> invalid_socket) ?so) \<and>
      length (filter (\<lambda>x. x \<noteq> invalid_socket) ?so) = Suc (length (sl_live s)) \<and>
      set ?so - {invalid_socket} = insert x (sl_members s)"
  proof (cases "find_index (\<lambda>x. x = invalid_socket) (sl_sockets s)")
    case None
    then show ?thesis using s(2) nm assms(3) False by (auto simp: sl_live_def sl_members_def)
  next
    case (Some i)
    from sl_put_live(1) [OF Some s(2) refl nm assms(3)] Some show ?thesis by simp
  qed
  from assms(2) False x have s': "s' = s\<lparr>sl_sockets := ?so, sl_count := sl_count s + 1,
      sl_readfds := (if sl_observe_read s then insert x (sl_readfds s) else sl_readfds s),
      sl_writefds := (if sl_observe_write s then insert x (sl_writefds s) else sl_writefds s),
      sl_max_fd := max (sl_max_fd s) x\<rparr>"
    by (simp add: sl_add_socket_def Let_def)
  have bound: "y \<le> max (sl_max_fd s) x" if "y \<in> insert x (sl_members s)" for y
    using that s(7) by (auto simp: le_max_iff_disj)
  show ?thesis
    by (rule sl_okI) (use so s x bound in \<open>auto simp: s'\<close>)
qed

lemma sl_remove_ok:
  assumes "sl_ok s" and "sl_remove_socket x s = Inr s'"
  shows "sl_ok s' \<and> sl_members s' = sl_members s - {x}"
proof -
  note s = sl_okD [OF assms(1)]
  have x: "fd_ok x" using assms(2) s(1) by (auto simp: sl_remove_socket_def split: if_splits)
  then have nx: "x \<noteq> invalid_socket" by (auto simp: fd_ok_def invalid_socket_def)
  let ?i = "find_index (\<lambda>y. y = x) (sl_sockets s)"
  let ?so = "case ?i of None \<Rightarrow> sl_sockets s | Some i \<Rightarrow> (sl_sockets s)[i := invalid_socket]"
  let ?c = "case ?i of None \<Rightarrow> sl_count s | Some i \<Rightarrow> sl_count s - 1"
  from assms(2) x have s': "s' = s\<lparr>sl_sockets := ?so, sl_count := ?c,
      sl_readfds := (if sl_observe_read s then sl_readfds s - {x} else sl_readfds s),
      sl_writefds := (if sl_observe_write s then sl_writefds s - {x} else sl_writefds s),
      sl_max_fd := (if sl_max_fd s = x then sl_max_fd s - 1 else sl_max_fd s)\<rparr>"
    by (cases s) (auto simp: sl_remove_socket_def Let_def split: option.split)
  have so: "distinct (filter (\<lambda>x. x \<noteq> invalid_socket) ?so) \<and>
      ?c = int (length (filter (\<lambda>x. x \<noteq> invalid_socket) ?so)) \<and> set ?so - {invalid_socket} = sl_members s - {x}"
  proof (cases ?i)
    case None
    then have "x \<notin> set (sl_sockets s)" by (auto simp: find_index_None)
    with None s(2,3) show ?thesis by (auto simp: sl_live_def sl_members_def)
  next
    case (Some i)
    from sl_put_live(2) [OF Some s(2) nx] Some s(3) show ?thesis by simp
  qed
  have bound: "y \<le> (if sl_max_fd s = x then sl_max_fd s - 1 else sl_max_fd s)" if "y \<in> sl_members s - {x}" for y
    using that s(7) [of y] by auto
  show ?thesis
    by (rule sl_okI) (use so s bound in \<open>auto simp: s'\<close>)
qed

text \<open>Adding the invalid socket is undefined unless a place is free, where nothing changes.\<close>

lemma sl_add_invalid:
  assumes "sl_ok s" and "sl_add_socket invalid_socket s = Inr s'"
  shows "s' = s"
  using assms by (auto simp: sl_add_socket_def sl_ok_def fd_ok_def invalid_socket_def Let_def split: if_splits)

interpretation sl: exact_backend "\<lambda>x s. if x = invalid_socket then Inl Undefined else sl_add_socket x s" sl_remove_socket sl_empty sl_ok sl_members
proof
  fix s s' :: select_poller and x
  assume ok: "sl_ok s"
  show "sl_ok s' \<and> sl_members s' = insert x (sl_members s)"
    if "(if x = invalid_socket then Inl Undefined else sl_add_socket x s) = Inr s'"
    using that sl_add_ok [OF ok] by (auto split: if_splits)
  show "sl_ok s' \<and> sl_members s' = sl_members s - {x}" if "sl_remove_socket x s = Inr s'"
    using that sl_remove_ok [OF ok] by simp
  show iff: "sl_empty s \<longleftrightarrow> sl_members s = {}"
    using sl_okD(3) [OF ok] by (simp add: sl_empty_def set_empty [symmetric] del: set_empty)
  then show "sl_empty s \<Longrightarrow> sl_members s = {}" by simp
qed

text \<open>The interest list of an \<open>epoll_poller\<close> is never longer than its vector of events, which only grows: its
  \<open>empty\<close> stays false once a socket was added.\<close>

definition ep_ok :: "epoll_poller \<Rightarrow> bool" where
  "ep_ok p \<longleftrightarrow> distinct (ep_interest p) \<and> length (ep_interest p) \<le> length (ep_events p)"

definition ep_members :: "epoll_poller \<Rightarrow> socket_id set" where
  "ep_members p = set (ep_interest p)"

lemma ep_never_empty_again:
  assumes "ep_add_socket perr f x p = Inr (None, p')" and "x \<notin> ep_members p"
    and "ep_remove_socket perr' f' x p' = Inr (None, p'')"
  shows "\<not> ep_empty p''" and "x \<notin> ep_members p''"
  using assms by (auto simp: ep_add_socket_def ep_remove_socket_def ep_empty_def ep_members_def split: if_splits)

interpretation ep: poller_backend "\<lambda>x p. mapr snd (ep_add_socket False (fa x) x p)"
  "\<lambda>x p. mapr snd (ep_remove_socket False (fr x) x p)" ep_empty ep_ok ep_members for fa fr :: "socket_id \<Rightarrow> bool"
proof
  fix p p' :: epoll_poller and x
  assume ok: "ep_ok p"
  show "ep_ok p' \<and> ep_members p' = insert x (ep_members p)" if "mapr snd (ep_add_socket False (fa x) x p) = Inr p'"
    using that ok by (auto simp: ep_add_socket_def ep_ok_def ep_members_def split: if_splits)
  show "ep_ok p' \<and> ep_members p' = ep_members p - {x}" if "mapr snd (ep_remove_socket False (fr x) x p) = Inr p'"
    using that ok by (auto simp: ep_remove_socket_def ep_ok_def ep_members_def le_trans [OF length_filter_le] split: if_splits)
  show "ep_members p = {}" if "ep_empty p" using that ok by (simp add: ep_empty_def ep_ok_def ep_members_def)
qed

subsection \<open>The backends agree\<close>

text \<open>The system announces exactly the sockets \<open>R\<close> with the events of interest \<open>want\<close>, and none with the events
  \<open>bad\<close>, for the elements of a vector.\<close>

definition announces :: "'m :: len word \<Rightarrow> 'm word \<Rightarrow> socket_id set \<Rightarrow> (socket_id \<times> 'm word) list \<Rightarrow> bool" where
  "announces bad want R evs \<longleftrightarrow> distinct (map fst evs) \<and> fst ` set (filter (\<lambda>x. snd x \<noteq> 0) evs) = R \<and>
     (\<forall>x\<in>set evs. snd x \<noteq> 0 \<longrightarrow> and (snd x) bad = 0 \<and> and (snd x) want \<noteq> 0)"

lemma announces_card: "announces bad want R evs \<Longrightarrow> length (filter (\<lambda>x. snd x \<noteq> 0) evs) = card R"
  unfolding announces_def
  by (metis (no_types, lifting) distinct_card distinct_map_filter length_map list.set_map)

lemma event_loop_announced:
  assumes "\<forall>x\<in>set evs. snd x \<noteq> 0 \<longrightarrow> h (fst x) (snd x) = ([c (fst x)], 1)"
  shows "event_loop h (int (length (filter (\<lambda>x. snd x \<noteq> 0) evs))) (evs @ rest) =
    (map (\<lambda>x. c (fst x)) (filter (\<lambda>x. snd x \<noteq> 0) evs), int (length (filter (\<lambda>x. snd x \<noteq> 0) evs)))"
  using assms
proof (induction evs)
  case Nil
  show ?case by (cases rest) auto
next
  case (Cons e evs)
  obtain fd rv where e: "e = (fd, rv)" by (cases e)
  have IH: "event_loop h (int (length (filter (\<lambda>x. snd x \<noteq> 0) evs))) (evs @ rest) =
      (map (\<lambda>x. c (fst x)) (filter (\<lambda>x. snd x \<noteq> 0) evs), int (length (filter (\<lambda>x. snd x \<noteq> 0) evs)))"
    using Cons by simp
  show ?case
  proof (cases "rv = 0")
    case True
    have nil: "event_loop h 0 xs = ([], 0)" for xs :: "(socket_id \<times> 'a word) list" by (cases xs) auto
    from True IH e nil show ?thesis by (cases "filter (\<lambda>x. snd x \<noteq> 0) evs") auto
  next
    case False
    with Cons.prems e have "h fd rv = ([c fd], 1)" by auto
    with IH e False show ?thesis by simp
  qed
qed

lemma socket_loop_ready:
  assumes "\<And>fd. h fd = (if fd \<in> R then ([c fd], 1) else ([], 0))"
  shows "socket_loop h (int (length (filter (\<lambda>fd. fd \<noteq> invalid_socket \<and> fd \<in> R) fds))) fds =
    (map c (filter (\<lambda>fd. fd \<noteq> invalid_socket \<and> fd \<in> R) fds), int (length (filter (\<lambda>fd. fd \<noteq> invalid_socket \<and> fd \<in> R) fds)))"
proof (induction fds)
  case Nil
  show ?case by simp
next
  case (Cons fd fds)
  have nil: "socket_loop h 0 xs = ([], 0)" for xs by (cases xs) auto
  from Cons nil show ?case
    by (cases "filter (\<lambda>fd. fd \<noteq> invalid_socket \<and> fd \<in> R) fds") (auto simp: assms)
qed

lemma mset_map_distinct: "distinct xs \<Longrightarrow> mset (map c xs) = image_mset c (mset_set (set xs))"
  by (simp add: mset_set_set)

text \<open>The outcome of a poll that made one callback for each socket of \<open>R\<close> and returned their number.\<close>

definition served :: "(socket_id \<Rightarrow> poller_event) \<Rightarrow> socket_id set \<Rightarrow> handled \<Rightarrow> bool" where
  "served c R out \<longleftrightarrow> mset (fst out) = image_mset c (mset_set R) \<and> snd out = int (card R)"

lemma event_loop_served:
  assumes "announces bad want R evs"
    and "\<And>fd rv. rv \<noteq> 0 \<Longrightarrow> and rv bad = 0 \<Longrightarrow> and rv want \<noteq> 0 \<Longrightarrow> h fd rv = ([c fd], 1)"
  shows "served c R (after_wait (\<lambda>n. event_loop h n (evs @ rest)) (int (card R)))"
proof -
  let ?f = "filter (\<lambda>x. snd x \<noteq> 0) evs"
  have h: "\<forall>x\<in>set evs. snd x \<noteq> 0 \<longrightarrow> h (fst x) (snd x) = ([c (fst x)], 1)"
    using assms by (auto simp: announces_def)
  have "event_loop h (int (card R)) (evs @ rest) = (map (\<lambda>x. c (fst x)) ?f, int (card R))"
    using event_loop_announced [OF h, of rest] announces_card [OF assms(1)] by simp
  moreover have "mset (map (\<lambda>x. c (fst x)) ?f) = image_mset c (mset_set R)"
  proof -
    have "distinct (map fst ?f)" "set (map fst ?f) = R"
      using assms(1) by (auto simp: announces_def distinct_map_filter)
    with mset_map_distinct [of "map fst ?f" c] show ?thesis by (simp add: comp_def)
  qed
  moreover have "card R = 0 \<Longrightarrow> mset_set R = {#}" by (cases "finite R") auto
  ultimately show ?thesis by (auto simp: served_def after_wait_def)
qed

lemma socket_loop_served:
  assumes "sl_ok s" and "R \<subseteq> sl_members s" and "\<And>fd. h fd = (if fd \<in> R then ([c fd], 1) else ([], 0))"
  shows "served c R (after_wait (\<lambda>n. socket_loop h n (sl_sockets s)) (int (card R)))"
proof -
  let ?f = "filter (\<lambda>fd. fd \<noteq> invalid_socket \<and> fd \<in> R) (sl_sockets s)"
  have "?f = filter (\<lambda>fd. fd \<in> R) (sl_live s)" by (simp add: sl_live_def conj_commute)
  then have f: "distinct ?f" "set ?f = R" using sl_okD(2) [OF assms(1)] assms(2) by auto
  then have "length ?f = card R" using distinct_card [of ?f] by simp
  with socket_loop_ready [OF assms(3), of "sl_sockets s"]
  have "socket_loop h (int (card R)) (sl_sockets s) = (map c ?f, int (card R))" by simp
  moreover have "mset (map c ?f) = image_mset c (mset_set R)" using mset_map_distinct [OF f(1)] f(2) by simp
  moreover have "card R = 0 \<Longrightarrow> mset_set R = {#}" by (cases "finite R") auto
  ultimately show ?thesis by (auto simp: served_def after_wait_def)
qed

text \<open>The answers of the three systems for the ready sockets \<open>R\<close> of backends that observe the same sockets.\<close>

definition poll_answer :: "u16 \<Rightarrow> u16 \<Rightarrow> socket_id set \<Rightarrow> poll_poller \<Rightarrow> u16 list os_wait \<Rightarrow> bool" where
  "poll_answer bad want R p w \<longleftrightarrow> (\<exists>revs. w = WaitReady (int (card R)) revs \<and> length revs = length (pp_events p) \<and>
     announces bad want R (zip (map pf_fd (pp_events p)) revs))"

definition select_answer :: "bool \<Rightarrow> bool \<Rightarrow> socket_id set \<Rightarrow> select_poller \<Rightarrow> os_select \<Rightarrow> bool" where
  "select_answer rd wr R s select \<longleftrightarrow> sl_ok s \<and> sl_observe_read s = rd \<and> sl_observe_write s = wr \<and> R \<subseteq> sl_members s \<and>
     select (sl_max_fd s + 1) (if rd then Some (sl_members s) else None) (if wr then Some (sl_members s) else None) =
       WaitReady (int (card R)) (if wr then {} else R, if wr then R else {})"

definition epoll_answer ::
  "u32 \<Rightarrow> u32 \<Rightarrow> socket_id set \<Rightarrow> epoll_poller \<Rightarrow> (nat \<Rightarrow> (socket_id \<times> u32) list os_wait) \<Rightarrow> bool" where
  "epoll_answer bad want R p wait \<longleftrightarrow> R \<subseteq> ep_members p \<and> ep_ok p \<and> (\<exists>evs. wait (length (ep_events p)) = WaitReady (int (card R)) evs \<and>
     announces bad want R evs)"

lemma poll_events_after:
  "length revs = length evs \<Longrightarrow>
    map (\<lambda>e. (pf_fd e, pf_revents e)) (map2 (\<lambda>e r. e\<lparr>pf_revents := r\<rparr>) evs revs) = zip (map pf_fd evs) revs"
proof (induction evs arbitrary: revs)
  case Nil
  then show ?case by simp
next
  case (Cons e evs)
  then show ?case by (cases revs) auto
qed

lemma poll_served:
  assumes "poll_answer bad want R p w"
    and "\<And>fd rv. rv \<noteq> 0 \<Longrightarrow> and rv bad = 0 \<Longrightarrow> and rv want \<noteq> 0 \<Longrightarrow> h fd rv = ([c fd], 1)"
  shows "\<exists>out p'. mapr (\<lambda>(err, n, p). (err, after_wait (\<lambda>n. event_loop h n (poll_events p)) n, p)) (pp_poll perr w p) =
    Inr (None, out, p') \<and> served c R out"
proof -
  obtain revs where w: "w = WaitReady (int (card R)) revs" "length revs = length (pp_events p)"
    "announces bad want R (zip (map pf_fd (pp_events p)) revs)" using assms(1) by (auto simp: poll_answer_def)
  have "served c R (after_wait (\<lambda>n. event_loop h n (zip (map pf_fd (pp_events p)) revs @ [])) (int (card R)))"
    by (rule event_loop_served [OF w(3)]) (rule assms(2))
  then show ?thesis unfolding w(1)
    by (simp add: pp_poll_def poll_events_def poll_events_after [OF w(2)] del: map_map)
qed

lemma epoll_served:
  assumes "epoll_answer bad want R p wait"
    and "\<And>fd rv. rv \<noteq> 0 \<Longrightarrow> and rv bad = 0 \<Longrightarrow> and rv want \<noteq> 0 \<Longrightarrow> h fd rv = ([c fd], 1)"
  shows "\<exists>out p'. mapr (\<lambda>(err, n, p). (err, after_wait (\<lambda>n. event_loop h n (ep_events p)) n, p)) (ep_poll perr wait p) =
    Inr (None, out, p') \<and> served c R out"
proof (cases "ep_events p = []")
  case True
  with assms(1) have "R = {}" by (auto simp: epoll_answer_def ep_ok_def ep_members_def)
  with True show ?thesis by (simp add: ep_poll_def after_wait_def served_def)
next
  case False
  obtain evs where w: "wait (length (ep_events p)) = WaitReady (int (card R)) evs" "announces bad want R evs"
    using assms(1) by (auto simp: epoll_answer_def)
  have "served c R (after_wait (\<lambda>n. event_loop h n (evs @ drop (length evs) (ep_events p))) (int (card R)))"
    by (rule event_loop_served [OF w(2)]) (rule assms(2))
  with w(1) False show ?thesis by (simp add: ep_poll_def)
qed

lemma select_served:
  assumes "select_answer rd wr R s select"
    and "\<And>fd. h (if wr then {} else R, if wr then R else {}) fd = (if fd \<in> R then ([c fd], 1) else ([], 0))"
  shows "\<exists>out fds. sl_poll perr select s = Inr (None, int (card R), fds) \<and>
    out = after_wait (\<lambda>n. socket_loop (h fds) n (sl_sockets s)) (int (card R)) \<and> served c R out"
proof -
  have s: "sl_ok s" "R \<subseteq> sl_members s" "sl_observe_read s = rd" "sl_observe_write s = wr"
    and sel: "select (sl_max_fd s + 1) (if rd then Some (sl_members s) else None) (if wr then Some (sl_members s) else None) =
      WaitReady (int (card R)) (if wr then {} else R, if wr then R else {})"
    using assms(1) by (auto simp: select_answer_def)
  show ?thesis
  proof (cases "sl_sockets s = []")
    case True
    then have "R = {}" using s(2) by (simp add: sl_members_def)
    with True show ?thesis by (simp add: sl_poll_def after_wait_def served_def)
  next
    case False
    have "sl_poll perr select s = Inr (None, int (card R), if wr then {} else R, if wr then R else {})"
      using False sel s(3,4) sl_okD(4,5) [OF s(1)] by (cases rd; cases wr) (simp_all add: sl_poll_def)
    with socket_loop_served [OF s(1,2), of "h (if wr then {} else R, if wr then R else {})" c] assms(2) show ?thesis
      by blast
  qed
qed

lemma select_poll_served:
  assumes "select_answer rd wr R s select"
    and "\<And>fd. h (if wr then {} else R, if wr then R else {}) fd = (if fd \<in> R then ([c fd], 1) else ([], 0))"
  shows "\<exists>out. mapr (\<lambda>(err, n, fds). (err, after_wait (\<lambda>n. socket_loop (h fds) n (sl_sockets s)) n)) (sl_poll perr select s) =
    Inr (None, out) \<and> served c R out"
proof -
  from select_served [OF assms(1), where h = h and c = c and perr = perr, OF assms(2)]
  obtain out fds where "sl_poll perr select s = Inr (None, int (card R), fds)" "served c R out"
    "out = after_wait (\<lambda>n. socket_loop (h fds) n (sl_sockets s)) (int (card R))" by blast
  then show ?thesis by (intro exI [of _ out]) simp
qed

text \<open>The masks of the four pollers: the events that are not served and those that are.\<close>

definition poll_in :: u16 where "poll_in = or POLLIN (or POLLRDNORM POLLRDBAND)"
definition poll_out :: u16 where "poll_out = or POLLOUT (or POLLWRNORM POLLWRBAND)"
definition poll_hup :: u16 where "poll_hup = or POLLERR (or POLLHUP POLLRDHUP)"
definition epoll_in :: u32 where "epoll_in = or EPOLLIN (or EPOLLRDNORM EPOLLRDBAND)"
definition epoll_out :: u32 where "epoll_out = or EPOLLOUT (or EPOLLWRNORM EPOLLWRBAND)"
definition epoll_hup :: u32 where "epoll_hup = or EPOLLERR (or EPOLLHUP EPOLLRDHUP)"

lemma and_or_zero: "and (x :: 'a :: len word) (or y z) = 0 \<longleftrightarrow> and x y = 0 \<and> and x z = 0"
  by (simp add: bit.conj_disj_distrib or_eq_0_iff)

subsection \<open>Examples\<close>

text \<open>Sockets 3 and 4 are observed and 4 is ready.\<close>

definition example_os :: os_sockets where
  "example_os = \<lparr>os_error = (\<lambda>fd. Some Econnrefused), os_peek = (\<lambda>fd. PeekData)\<rparr>"

definition example_pp :: poll_poller where
  "example_pp = \<lparr>pp_events = [\<lparr>pf_fd = 3, pf_events = 1, pf_revents = 0\<rparr>, \<lparr>pf_fd = 4, pf_events = 1, pf_revents = 0\<rparr>], pp_oevents = 1\<rparr>"

definition example_sl :: "bool \<Rightarrow> bool \<Rightarrow> select_poller" where
  "example_sl rd wr = \<lparr>sl_max_fd = 4, sl_sockets = [3, invalid_socket, 4], sl_count = 2, sl_readfds = (if rd then {3, 4} else {}),
     sl_writefds = (if wr then {3, 4} else {}), sl_observe_read = rd, sl_observe_write = wr\<rparr>"

definition example_ep :: epoll_poller where
  "example_ep = \<lparr>ep_interest = [3, 4], ep_events = [(0, 0), (0, 0)], ep_oevents = 1\<rparr>"

lemma example_poll_answer:
  "poll_answer poll_hup poll_in {4} example_pp (WaitReady 1 [0, 1])"
  "poll_answer poll_hup poll_out {4} example_pp (WaitReady 1 [0, 4])"
  by (simp_all add: poll_answer_def example_pp_def announces_def poll_hup_def poll_in_def poll_out_def
      POLLERR_def POLLHUP_def POLLRDHUP_def POLLIN_def POLLRDNORM_def POLLRDBAND_def POLLOUT_def POLLWRNORM_def POLLWRBAND_def
      del: set_filter)

lemma example_epoll_answer:
  "epoll_answer epoll_hup epoll_in {4} example_ep (\<lambda>n. WaitReady 1 [(4, 1)])"
  "epoll_answer epoll_hup epoll_out {4} example_ep (\<lambda>n. WaitReady 1 [(4, 4)])"
  by (simp_all add: epoll_answer_def example_ep_def ep_members_def ep_ok_def announces_def epoll_hup_def epoll_in_def epoll_out_def
      EPOLLERR_def EPOLLHUP_def EPOLLRDHUP_def EPOLLIN_def EPOLLRDNORM_def EPOLLRDBAND_def EPOLLOUT_def EPOLLWRNORM_def EPOLLWRBAND_def
      del: set_filter)

lemma example_select_answer:
  assumes "rd \<or> wr"
  shows "select_answer rd wr {4} (example_sl rd wr) (\<lambda>m r w. WaitReady 1 (if wr then {} else {4}, if wr then {4} else {}))"
proof -
  have "sl_members (example_sl rd wr) = {3, 4}" by (auto simp: sl_members_def example_sl_def invalid_socket_def)
  then show ?thesis using assms
    by (auto simp: select_answer_def sl_ok_def sl_live_def sl_members_def example_sl_def invalid_socket_def fd_ok_def FD_SETSIZE_def)
qed

text \<open>C12. Readers: when the system announces, to pollers that observe the same sockets, the same sockets as
  readable, and none of them with an error or a hang-up, the three reader pollers make the same callbacks up to order,
  one for each announced socket by what a look at its data shows, and return their number; likewise the
  listener pollers, which accept on each announced socket. A socket announced with data and a hang-up is read over
  \<open>poll\<close> and \<open>select\<close>, but reported as disconnected over \<open>epoll\<close>, which tests the hang-up first (\<open>hang_up_differs\<close>).\<close>

theorem input_pollers_agree:
  assumes "poll_answer poll_hup poll_in R p w" and "select_answer True False R s select"
    and "epoll_answer epoll_hup epoll_in R e wait"
  shows "(\<exists>o1 p' o2 o3 e'. rd_poll_poll os perr w p = Inr (None, o1, p') \<and> rd_select_poll os perr select s = Inr (None, o2) \<and>
      rd_epoll_poll os perr wait e = Inr (None, o3, e') \<and>
      served (peek_callback os) R o1 \<and> served (peek_callback os) R o2 \<and> served (peek_callback os) R o3) \<and>
    (\<exists>o1 p' o2 o3 e'. ls_poll_poll os perr w p = Inr (None, o1, p') \<and> ls_select_poll perr select s = Inr (None, o2) \<and>
      ls_epoll_poll os perr wait e = Inr (None, o3, e') \<and>
      served PeAccept R o1 \<and> served PeAccept R o2 \<and> served PeAccept R o3)"
proof -
  have 1: "\<exists>o1 p'. rd_poll_poll os perr w p = Inr (None, o1, p') \<and> served (peek_callback os) R o1"
    unfolding rd_poll_poll_def by (rule poll_served [OF assms(1)]) (simp add: rd_poll_handler_def poll_hup_def poll_in_def and_or_zero)
  have 2: "\<exists>o2. rd_select_poll os perr select s = Inr (None, o2) \<and> served (peek_callback os) R o2"
    using select_poll_served [OF assms(2), where h = "\<lambda>fds. rd_select_handler os (fst fds)" and c = "peek_callback os" and perr = perr]
    by (simp add: rd_select_poll_def rd_select_handler_def case_prod_unfold)
  have 3: "\<exists>o3 e'. rd_epoll_poll os perr wait e = Inr (None, o3, e') \<and> served (peek_callback os) R o3"
    unfolding rd_epoll_poll_def by (rule epoll_served [OF assms(3)]) (simp add: rd_epoll_handler_def epoll_hup_def epoll_in_def and_or_zero)
  have 4: "\<exists>o1 p'. ls_poll_poll os perr w p = Inr (None, o1, p') \<and> served PeAccept R o1"
    unfolding ls_poll_poll_def by (rule poll_served [OF assms(1)]) (simp add: ls_poll_handler_def poll_hup_def poll_in_def and_or_zero)
  have 5: "\<exists>o2. ls_select_poll perr select s = Inr (None, o2) \<and> served PeAccept R o2"
    using select_poll_served [OF assms(2), where h = "\<lambda>fds. ls_select_handler (fst fds)" and c = PeAccept and perr = perr]
    by (simp add: ls_select_poll_def ls_select_handler_def case_prod_unfold)
  have 6: "\<exists>o3 e'. ls_epoll_poll os perr wait e = Inr (None, o3, e') \<and> served PeAccept R o3"
    unfolding ls_epoll_poll_def by (rule epoll_served [OF assms(3)]) (simp add: ls_epoll_handler_def epoll_hup_def epoll_in_def and_or_zero)
  from 1 2 3 4 5 6 show ?thesis by blast
qed

lemma input_pollers_agree_witness:
  "\<exists>o1 p' o2. rd_poll_poll example_os True (WaitReady 1 [0, 1]) example_pp = Inr (None, o1, p') \<and>
    rd_select_poll example_os True (\<lambda>m r w. WaitReady 1 ({4}, {})) (example_sl True False) = Inr (None, o2) \<and>
    mset (fst o1) = {#PeReadyRead 4#} \<and> mset (fst o2) = {#PeReadyRead 4#}"
proof -
  have p: "peek_callback example_os 4 = PeReadyRead 4" by (simp add: peek_callback_def example_os_def)
  show ?thesis
    using input_pollers_agree [OF example_poll_answer(1) example_select_answer [of True False, simplified] example_epoll_answer(1),
      of example_os True]
    by (simp add: served_def p) blast
qed

text \<open>C13. Writers: when the system announces the same sockets as writable and none of them with an error or a hang-up, the
  three writer pollers report each announced socket once as writable and return their number. If moreover \<open>select\<close> announces
  none of them as readable, the three connecting pollers report each once as connected and return their number
  (a refused connection, or a connected one with data to read, is announced by \<open>select\<close> as readable too, \<open>select_connects_refused\<close>).\<close>

theorem output_pollers_agree:
  assumes "poll_answer poll_hup poll_out R p w" and "select_answer False True R s select"
    and "select_answer True True R s' select'" and "epoll_answer epoll_hup epoll_out R e wait"
  shows "(\<exists>o1 p' o2 o3 e'. wr_poll_poll os perr w p = Inr (None, o1, p') \<and> wr_select_poll perr select s = Inr (None, o2) \<and>
      wr_epoll_poll os perr wait e = Inr (None, o3, e') \<and>
      served PeCanWrite R o1 \<and> served PeCanWrite R o2 \<and> served PeCanWrite R o3) \<and>
    (\<exists>o1 p' o2 o3 e'. cn_poll_poll os perr w p = Inr (None, o1, p') \<and> cn_select_poll os perr select' s' = Inr (None, o2) \<and>
      cn_epoll_poll os perr wait e = Inr (None, o3, e') \<and>
      served PeConnected R o1 \<and> served PeConnected R o2 \<and> served PeConnected R o3)"
proof -
  have 1: "\<exists>o1 p'. wr_poll_poll os perr w p = Inr (None, o1, p') \<and> served PeCanWrite R o1"
    unfolding wr_poll_poll_def by (rule poll_served [OF assms(1)]) (simp add: wr_poll_handler_def poll_hup_def poll_out_def and_or_zero)
  have 2: "\<exists>o2. wr_select_poll perr select s = Inr (None, o2) \<and> served PeCanWrite R o2"
    using select_poll_served [OF assms(2), where h = "\<lambda>fds. wr_select_handler (snd fds)" and c = PeCanWrite and perr = perr]
    by (simp add: wr_select_poll_def wr_select_handler_def case_prod_unfold)
  have 3: "\<exists>o3 e'. wr_epoll_poll os perr wait e = Inr (None, o3, e') \<and> served PeCanWrite R o3"
    unfolding wr_epoll_poll_def by (rule epoll_served [OF assms(4)]) (simp add: wr_epoll_handler_def epoll_hup_def epoll_out_def and_or_zero)
  have 4: "\<exists>o1 p'. cn_poll_poll os perr w p = Inr (None, o1, p') \<and> served PeConnected R o1"
    unfolding cn_poll_poll_def by (rule poll_served [OF assms(1)]) (simp add: cn_poll_handler_def poll_hup_def poll_out_def and_or_zero)
  have 5: "\<exists>o2. cn_select_poll os perr select' s' = Inr (None, o2) \<and> served PeConnected R o2"
  proof -
    have "cn_select_handler os (if True then {} else R, if True then R else {}) fd =
        (if fd \<in> R then ([PeConnected fd], 1) else ([], 0))" for fd
      by (simp add: cn_select_handler_def)
    from select_served [OF assms(3), where h = "cn_select_handler os" and c = PeConnected and perr = perr, OF this]
    obtain out fds where "sl_poll perr select' s' = Inr (None, int (card R), fds)" "served PeConnected R out"
      "out = after_wait (\<lambda>n. socket_loop (cn_select_handler os fds) n (sl_sockets s')) (int (card R))" by blast
    then show ?thesis by (intro exI [of _ "(fst out, int (card R))"]) (simp add: cn_select_poll_def served_def)
  qed
  have 6: "\<exists>o3 e'. cn_epoll_poll os perr wait e = Inr (None, o3, e') \<and> served PeConnected R o3"
    unfolding cn_epoll_poll_def by (rule epoll_served [OF assms(4)]) (simp add: cn_epoll_handler_def epoll_hup_def epoll_out_def and_or_zero)
  from 1 2 3 4 5 6 show ?thesis by blast
qed

lemma output_pollers_agree_witness:
  "\<exists>o1 p' o2. cn_poll_poll example_os True (WaitReady 1 [0, 4]) example_pp = Inr (None, o1, p') \<and>
    cn_select_poll example_os True (\<lambda>m r w. WaitReady 1 ({}, {4})) (example_sl True True) = Inr (None, o2) \<and>
    mset (fst o1) = {#PeConnected 4#} \<and> mset (fst o2) = {#PeConnected 4#}"
  using output_pollers_agree [OF example_poll_answer(2) example_select_answer [of False True, simplified]
    example_select_answer [of True True, simplified] example_epoll_answer(2), of example_os True]
  by (simp add: served_def) blast

text \<open>The peer has sent data and closed its end.\<close>

lemma hang_up_differs:
  "rd_poll_handler os fd (or POLLIN POLLRDHUP) = ([peek_callback os fd], 1)"
  "rd_epoll_handler os fd (or EPOLLIN EPOLLRDHUP) = ([PeDisconnected fd], 0)"
  by (simp_all add: rd_poll_handler_def rd_epoll_handler_def POLLERR_def POLLIN_def POLLRDHUP_def POLLRDNORM_def POLLRDBAND_def
      EPOLLERR_def EPOLLIN_def EPOLLRDHUP_def EPOLLHUP_def EPOLLRDNORM_def EPOLLRDBAND_def)

text \<open>A refused connection is announced by \<open>select\<close> as readable and writable: the connecting poller over
  \<open>select\<close> then reports it as refused and as connected, where those over \<open>poll\<close> and \<open>epoll\<close>, to which the
  system announces an error, report it as refused only.\<close>

theorem select_connects_refused:
  assumes "sl_sockets s = [fd]" and "sl_observe_read s" and "sl_observe_write s" and "fd_ok fd"
    and "select (sl_max_fd s + 1) (Some (sl_readfds s)) (Some (sl_writefds s)) = WaitReady 2 ({fd}, {fd})"
    and "os_error os fd = Some Econnrefused"
    and "pp_events p = [\<lparr>pf_fd = fd, pf_events = oe, pf_revents = 0\<rparr>]" and "and rv POLLERR \<noteq> 0"
    and "ep_events e = [x]" and "wait 1 = WaitReady 1 [(fd, rv')]" and "and rv' EPOLLERR \<noteq> 0"
  shows "cn_select_poll os perr select s = Inr (None, [PeRefused fd RefusedOther, PeConnected fd], 2) \<and>
    (\<exists>p'. cn_poll_poll os perr (WaitReady 1 [rv]) p = Inr (None, ([PeRefused fd RefusedOther], 0), p')) \<and>
    (\<exists>e'. cn_epoll_poll os perr wait e = Inr (None, ([PeRefused fd RefusedOther], 0), e'))"
proof (intro conjI)
  have fd: "fd \<noteq> invalid_socket" using assms(4) by (auto simp: fd_ok_def invalid_socket_def)
  show "cn_select_poll os perr select s = Inr (None, [PeRefused fd RefusedOther, PeConnected fd], 2)"
    using assms(1-6) fd by (simp add: cn_select_poll_def sl_poll_def after_wait_def cn_select_handler_def connect_error_callback_def)
  have rv: "rv \<noteq> 0" "rv' \<noteq> 0" using assms(8,11) by auto
  show "\<exists>p'. cn_poll_poll os perr (WaitReady 1 [rv]) p = Inr (None, ([PeRefused fd RefusedOther], 0), p')"
    using assms(6-8) rv by (simp add: cn_poll_poll_def pp_poll_def poll_events_def after_wait_def cn_poll_handler_def
      connect_pending_error_def connect_error_callback_def)
  show "\<exists>e'. cn_epoll_poll os perr wait e = Inr (None, ([PeRefused fd RefusedOther], 0), e')"
    using assms(6,9-11) rv by (simp add: cn_epoll_poll_def ep_poll_def after_wait_def cn_epoll_handler_def
      connect_pending_error_def connect_error_callback_def)
qed

lemma select_connects_refused_witness:
  "cn_select_poll example_os True (\<lambda>m r w. WaitReady 2 ({4}, {4}))
      \<lparr>sl_max_fd = 4, sl_sockets = [4], sl_count = 1, sl_readfds = {4}, sl_writefds = {4}, sl_observe_read = True, sl_observe_write = True\<rparr> =
    Inr (None, [PeRefused 4 RefusedOther, PeConnected 4], 2)"
  using select_connects_refused [of "\<lparr>sl_max_fd = 4, sl_sockets = [4], sl_count = 1, sl_readfds = {4}, sl_writefds = {4},
      sl_observe_read = True, sl_observe_write = True\<rparr>" 4 "\<lambda>m r w. WaitReady 2 ({4}, {4})" example_os
      "\<lparr>pp_events = [\<lparr>pf_fd = 4, pf_events = 4, pf_revents = 0\<rparr>], pp_oevents = 4\<rparr>" 4 8
      "\<lparr>ep_interest = [4], ep_events = [(0, 0)], ep_oevents = 4\<rparr>" "(0, 0)" "\<lambda>n. WaitReady 1 [(4, 8)]" 8 True]
  by (simp add: fd_ok_def FD_SETSIZE_def example_os_def POLLERR_def EPOLLERR_def)

end
