(* ===== verification/ClientServerPoller.thy ===== *)
theory ClientServerPoller
  imports Pollers
begin

text \<open>
  \<open>client_poller\<close> and \<open>server_poller\<close> (include/pfs/netty): a connecting or a listener poller, a reader poller
  and a writer poller over one kind of backend, with vectors of the sockets to add and to remove after the
  next round, and the callbacks of the application.

  The backend is a record of operations; a round takes for each poller the function that waits, as those of
  \<open>Pollers\<close>. The application may call \<open>add\<close> and \<open>remove\<close> from its callbacks: it is a function from the
  callback to the calls it makes. It makes none from \<open>removed\<close>. The pollers do not share a backend (the
  constructors for \<open>poll\<close>, \<open>select\<close> and \<open>epoll\<close>); the time a round may wait is left to the answers of the
  system. A backend that fails throws: no place for an error is passed.
\<close>

subsection \<open>Backends\<close>

record 'p backend_ops =
  bo_add :: "socket_id \<Rightarrow> 'p \<Rightarrow> 'p result"
  bo_remove :: "socket_id \<Rightarrow> 'p \<Rightarrow> 'p result"
  bo_empty :: "'p \<Rightarrow> bool"

text \<open>A wait of a poller: its callbacks, the number it returns and the backend it leaves.\<close>

type_synonym 'p wait = "'p \<Rightarrow> (poller_event list \<times> int \<times> 'p) result"

text \<open>\<open>std::set\<close> of sockets: a sorted list without duplicates.\<close>

definition set_insert :: "socket_id \<Rightarrow> socket_id list \<Rightarrow> socket_id list" where
  "set_insert x xs = (if x \<in> set xs then xs else insort x xs)"

lemma set_insert_set [simp]: "set (set_insert x xs) = insert x (set xs)"
  by (auto simp: set_insert_def set_insort_key)

lemma set_insert_sorted: "sorted xs \<Longrightarrow> distinct xs \<Longrightarrow> sorted (set_insert x xs) \<and> distinct (set_insert x xs)"
  by (auto simp: set_insert_def sorted_insort distinct_insort)

subsection \<open>\<open>client_poller\<close>\<close>

datatype cl_event =
    ClFailure socket_id errc
  | ClRefused socket_id refused_reason
  | ClConnected socket_id
  | ClDisconnected socket_id
  | ClReadyRead socket_id
  | ClCanWrite socket_id
  | ClRemoved socket_id

datatype cl_call = CallAdd socket_id conn_status | CallRemove socket_id

record 'p client_poller =
  cl_connecting :: 'p
  cl_reader :: 'p
  cl_writer :: 'p
  cl_addable_connecting :: "socket_id list"
  cl_addable_readers :: "socket_id list"
  cl_removable_connecting :: "socket_id list"
  cl_removable_readers :: "socket_id list"
  cl_removable_writers :: "socket_id list"
  cl_removable :: "socket_id list"
  cl_shared :: bool
  cl_events :: "cl_event list"

definition cl_new :: "'p \<Rightarrow> 'p \<Rightarrow> 'p \<Rightarrow> 'p client_poller" where
  "cl_new c r w = \<lparr>cl_connecting = c, cl_reader = r, cl_writer = w, cl_addable_connecting = [], cl_addable_readers = [],
     cl_removable_connecting = [], cl_removable_readers = [], cl_removable_writers = [], cl_removable = [],
     cl_shared = False, cl_events = []\<rparr>"

definition cl_add :: "socket_id \<Rightarrow> conn_status \<Rightarrow> 'p client_poller \<Rightarrow> 'p client_poller result" where
  "cl_add sock state p =
     (if state = ConnConnecting then Inr (p\<lparr>cl_addable_connecting := cl_addable_connecting p @ [sock]\<rparr>)
      else if state = ConnConnected then Inr (p\<lparr>cl_addable_readers := cl_addable_readers p @ [sock]\<rparr>)
      else Inl (Thrown Poller_error))"

definition cl_remove :: "socket_id \<Rightarrow> 'p client_poller \<Rightarrow> 'p client_poller" where
  "cl_remove sock p = p\<lparr>
     cl_removable_connecting := cl_removable_connecting p @ [sock],
     cl_removable_readers := cl_removable_readers p @ [sock],
     cl_removable_writers := cl_removable_writers p @ [sock],
     cl_removable := set_insert sock (cl_removable p)\<rparr>"

definition cl_wait_for_write :: "'p backend_ops \<Rightarrow> socket_id \<Rightarrow> 'p client_poller \<Rightarrow> 'p client_poller result" where
  "cl_wait_for_write bo sock p = mapr (\<lambda>w. p\<lparr>cl_writer := w\<rparr>) (bo_add bo sock (cl_writer p))"

definition cl_empty :: "'p backend_ops \<Rightarrow> 'p client_poller \<Rightarrow> bool" where
  "cl_empty bo p \<longleftrightarrow> bo_empty bo (cl_connecting p) \<and> bo_empty bo (cl_reader p) \<and> bo_empty bo (cl_writer p)"

text \<open>A callback of the application and the calls it makes.\<close>

fun cl_run_call :: "cl_call \<Rightarrow> 'p client_poller \<Rightarrow> 'p client_poller result" where
  "cl_run_call (CallAdd sock state) p = cl_add sock state p"
| "cl_run_call (CallRemove sock) p = Inr (cl_remove sock p)"

definition cl_emit :: "(cl_event \<Rightarrow> cl_call list) \<Rightarrow> cl_event \<Rightarrow> 'p client_poller \<Rightarrow> 'p client_poller result" where
  "cl_emit app e p = foldr_res cl_run_call (app e) (p\<lparr>cl_events := cl_events p @ [e]\<rparr>)"

text \<open>The callbacks that \<open>init_callbacks\<close> sets for the three pollers.\<close>

fun cl_on_connecting ::
  "'p backend_ops \<Rightarrow> (cl_event \<Rightarrow> cl_call list) \<Rightarrow> poller_event \<Rightarrow> 'p client_poller \<Rightarrow> 'p client_poller result" where
  "cl_on_connecting bo app (PeFailure sock err) p =
     cl_emit app (ClFailure sock err) (p\<lparr>cl_removable_connecting := cl_removable_connecting p @ [sock],
       cl_removable := set_insert sock (cl_removable p)\<rparr>)"
| "cl_on_connecting bo app (PeRefused sock reason) p =
     cl_emit app (ClRefused sock reason) (p\<lparr>cl_removable_connecting := cl_removable_connecting p @ [sock],
       cl_removable := set_insert sock (cl_removable p)\<rparr>)"
| "cl_on_connecting bo app (PeConnected sock) p =
     bindr (if \<not> cl_shared p
            then mapr (\<lambda>r. p\<lparr>cl_removable_connecting := cl_removable_connecting p @ [sock], cl_reader := r\<rparr>)
                   (bo_add bo sock (cl_reader p))
            else Inr p)
       (cl_emit app (ClConnected sock))"
| "cl_on_connecting bo app _ p = Inr p"

fun cl_on_reader :: "(cl_event \<Rightarrow> cl_call list) \<Rightarrow> poller_event \<Rightarrow> 'p client_poller \<Rightarrow> 'p client_poller result" where
  "cl_on_reader app (PeFailure sock err) p =
     cl_emit app (ClFailure sock err) (p\<lparr>cl_removable_readers := cl_removable_readers p @ [sock],
       cl_removable := set_insert sock (cl_removable p)\<rparr>)"
| "cl_on_reader app (PeDisconnected sock) p =
     cl_emit app (ClDisconnected sock) (p\<lparr>cl_removable_readers := cl_removable_readers p @ [sock],
       cl_removable := set_insert sock (cl_removable p)\<rparr>)"
| "cl_on_reader app (PeReadyRead sock) p = cl_emit app (ClReadyRead sock) p"
| "cl_on_reader app _ p = Inr p"

fun cl_on_writer :: "(cl_event \<Rightarrow> cl_call list) \<Rightarrow> poller_event \<Rightarrow> 'p client_poller \<Rightarrow> 'p client_poller result" where
  "cl_on_writer app (PeFailure sock err) p =
     cl_emit app (ClFailure sock err) (p\<lparr>cl_removable_writers := cl_removable_writers p @ [sock],
       cl_removable := set_insert sock (cl_removable p)\<rparr>)"
| "cl_on_writer app (PeCanWrite sock) p =
     cl_emit app (ClCanWrite sock)
       (if \<not> cl_shared p then p\<lparr>cl_removable_writers := cl_removable_writers p @ [sock]\<rparr> else p)"
| "cl_on_writer app _ p = Inr p"

text \<open>The polls of the single pollers, which are skipped when there is nothing to observe.\<close>

definition cl_poll_write ::
  "'p backend_ops \<Rightarrow> (cl_event \<Rightarrow> cl_call list) \<Rightarrow> 'p wait \<Rightarrow> 'p client_poller \<Rightarrow> (int \<times> 'p client_poller) result" where
  "cl_poll_write bo app w p =
     (if \<not> bo_empty bo (cl_writer p)
      then bindr (w (cl_writer p)) (\<lambda>(es, n, q). mapr (Pair n) (foldr_res (cl_on_writer app) es (p\<lparr>cl_writer := q\<rparr>)))
      else Inr (0, p))"

definition cl_poll_read ::
  "'p backend_ops \<Rightarrow> (cl_event \<Rightarrow> cl_call list) \<Rightarrow> 'p wait \<Rightarrow> 'p client_poller \<Rightarrow> (int \<times> 'p client_poller) result" where
  "cl_poll_read bo app r p =
     (if \<not> bo_empty bo (cl_reader p)
      then bindr (r (cl_reader p)) (\<lambda>(es, n, q). mapr (Pair n) (foldr_res (cl_on_reader app) es (p\<lparr>cl_reader := q\<rparr>)))
      else Inr (0, p))"

definition cl_poll_connected ::
  "'p backend_ops \<Rightarrow> (cl_event \<Rightarrow> cl_call list) \<Rightarrow> 'p wait \<Rightarrow> 'p client_poller \<Rightarrow> (int \<times> 'p client_poller) result" where
  "cl_poll_connected bo app c p =
     (if \<not> bo_empty bo (cl_connecting p)
      then bindr (c (cl_connecting p)) (\<lambda>(es, n, q). mapr (Pair n) (foldr_res (cl_on_connecting bo app) es (p\<lparr>cl_connecting := q\<rparr>)))
      else Inr (0, p))"

text \<open>What follows the polls of a round: the sockets to add, then those to remove.\<close>

definition cl_flush :: "'p backend_ops \<Rightarrow> 'p client_poller \<Rightarrow> 'p client_poller result" where
  "cl_flush bo p =
     bindr (foldr_res (bo_add bo) (cl_addable_connecting p) (cl_connecting p)) (\<lambda>c.
     bindr (foldr_res (bo_add bo) (cl_addable_readers p) (cl_reader p)) (\<lambda>r.
     bindr (foldr_res (bo_remove bo) (cl_removable_connecting p) c) (\<lambda>c.
     bindr (foldr_res (bo_remove bo) (cl_removable_readers p) r) (\<lambda>r.
     bindr (foldr_res (bo_remove bo) (cl_removable_writers p) (cl_writer p)) (\<lambda>w.
       Inr (p\<lparr>cl_connecting := c, cl_reader := r, cl_writer := w, cl_addable_connecting := [], cl_addable_readers := [],
         cl_removable_connecting := [], cl_removable_readers := [], cl_removable_writers := [], cl_removable := [],
         cl_events := cl_events p @ map ClRemoved (cl_removable p)\<rparr>))))))"

definition cl_poll ::
  "'p backend_ops \<Rightarrow> (cl_event \<Rightarrow> cl_call list) \<Rightarrow> 'p wait \<Rightarrow> 'p wait \<Rightarrow> 'p wait \<Rightarrow> 'p client_poller \<Rightarrow>
    (int \<times> 'p client_poller) result" where
  "cl_poll bo app w r c p =
     bindr (cl_poll_write bo app w p) (\<lambda>(n1, p).
     bindr (cl_poll_read bo app r p) (\<lambda>(n2, p).
     bindr (cl_poll_connected bo app c p) (\<lambda>(n3, p).
     bindr (cl_flush bo p) (\<lambda>p.
       Inr (if n1 < 0 \<and> n2 < 0 \<and> n3 < 0 then n1
            else (if n1 > 0 then n1 else 0) + (if n2 > 0 then n2 else 0) + (if n3 > 0 then n3 else 0), p)))))"

subsection \<open>\<open>server_poller\<close>\<close>

datatype sv_event =
    SvListenerFailure socket_id errc
  | SvFailure socket_id errc
  | SvAccepted socket_id
  | SvDisconnected socket_id
  | SvReadyRead socket_id
  | SvCanWrite socket_id
  | SvListenerRemoved socket_id
  | SvRemoved socket_id

record 'p server_poller =
  sv_listener :: 'p
  sv_reader :: 'p
  sv_writer :: 'p
  sv_addable_listeners :: "socket_id list"
  sv_addable_readers :: "socket_id list"
  sv_removable_listeners :: "socket_id list"
  sv_removable_readers :: "socket_id list"
  sv_removable_writers :: "socket_id list"
  sv_removable :: "socket_id list"
  sv_shared :: bool
  sv_events :: "sv_event list"

definition sv_new :: "'p \<Rightarrow> 'p \<Rightarrow> 'p \<Rightarrow> 'p server_poller" where
  "sv_new l r w = \<lparr>sv_listener = l, sv_reader = r, sv_writer = w, sv_addable_listeners = [], sv_addable_readers = [],
     sv_removable_listeners = [], sv_removable_readers = [], sv_removable_writers = [], sv_removable = [],
     sv_shared = False, sv_events = []\<rparr>"

definition sv_add_listener :: "socket_id \<Rightarrow> 'p server_poller \<Rightarrow> 'p server_poller" where
  "sv_add_listener sock p = p\<lparr>sv_addable_listeners := sv_addable_listeners p @ [sock]\<rparr>"

definition sv_remove_listener :: "socket_id \<Rightarrow> 'p server_poller \<Rightarrow> 'p server_poller" where
  "sv_remove_listener sock p = p\<lparr>sv_removable_listeners := sv_removable_listeners p @ [sock]\<rparr>"

definition sv_remove :: "socket_id \<Rightarrow> 'p server_poller \<Rightarrow> 'p server_poller" where
  "sv_remove sock p = p\<lparr>sv_removable_readers := sv_removable_readers p @ [sock],
     sv_removable_writers := sv_removable_writers p @ [sock], sv_removable := set_insert sock (sv_removable p)\<rparr>"

definition sv_empty :: "'p backend_ops \<Rightarrow> 'p server_poller \<Rightarrow> bool" where
  "sv_empty bo p \<longleftrightarrow> bo_empty bo (sv_listener p) \<and> bo_empty bo (sv_reader p) \<and> bo_empty bo (sv_writer p)"

definition sv_wait_for_write :: "'p backend_ops \<Rightarrow> socket_id \<Rightarrow> 'p server_poller \<Rightarrow> 'p server_poller result" where
  "sv_wait_for_write bo sock p = mapr (\<lambda>w. p\<lparr>sv_writer := w\<rparr>) (bo_add bo sock (sv_writer p))"

text \<open>The calls of the application from a callback are sockets to remove (\<open>remove\<close>).\<close>

definition sv_emit :: "(sv_event \<Rightarrow> socket_id list) \<Rightarrow> sv_event \<Rightarrow> 'p server_poller \<Rightarrow> 'p server_poller" where
  "sv_emit app e p = fold sv_remove (app e) (p\<lparr>sv_events := sv_events p @ [e]\<rparr>)"

text \<open>\<open>accept\<close> is the function passed to the constructor: the socket it accepted, if it did.\<close>

fun sv_on_listener ::
  "(sv_event \<Rightarrow> socket_id list) \<Rightarrow> (socket_id \<Rightarrow> socket_id option) \<Rightarrow> poller_event \<Rightarrow> 'p server_poller \<Rightarrow> 'p server_poller" where
  "sv_on_listener app accept (PeFailure sock err) p =
     sv_emit app (SvListenerFailure sock err) (p\<lparr>sv_removable_listeners := sv_removable_listeners p @ [sock]\<rparr>)"
| "sv_on_listener app accept (PeAccept listener_sock) p =
     (case accept listener_sock of
        None \<Rightarrow> p
      | Some sock \<Rightarrow>
          (let p = sv_emit app (SvAccepted sock) p
           in p\<lparr>sv_addable_readers := sv_addable_readers p @ [sock]\<rparr>))"
| "sv_on_listener app accept _ p = p"

fun sv_on_reader :: "(sv_event \<Rightarrow> socket_id list) \<Rightarrow> poller_event \<Rightarrow> 'p server_poller \<Rightarrow> 'p server_poller" where
  "sv_on_reader app (PeFailure sock err) p =
     sv_emit app (SvFailure sock err) (p\<lparr>sv_removable_readers := sv_removable_readers p @ [sock],
       sv_removable := set_insert sock (sv_removable p)\<rparr>)"
| "sv_on_reader app (PeDisconnected sock) p =
     sv_emit app (SvDisconnected sock) (p\<lparr>sv_removable_readers := sv_removable_readers p @ [sock],
       sv_removable := set_insert sock (sv_removable p)\<rparr>)"
| "sv_on_reader app (PeReadyRead sock) p = sv_emit app (SvReadyRead sock) p"
| "sv_on_reader app _ p = p"

fun sv_on_writer :: "(sv_event \<Rightarrow> socket_id list) \<Rightarrow> poller_event \<Rightarrow> 'p server_poller \<Rightarrow> 'p server_poller" where
  "sv_on_writer app (PeFailure sock err) p =
     sv_emit app (SvFailure sock err) (p\<lparr>sv_removable_writers := sv_removable_writers p @ [sock],
       sv_removable := set_insert sock (sv_removable p)\<rparr>)"
| "sv_on_writer app (PeCanWrite sock) p =
     sv_emit app (SvCanWrite sock)
       (if \<not> sv_shared p then p\<lparr>sv_removable_writers := sv_removable_writers p @ [sock]\<rparr> else p)"
| "sv_on_writer app _ p = p"

text \<open>The polls and the flush of a round. The number of the reader poller replaces that of the writer poller.\<close>

definition sv_polls ::
  "'p backend_ops \<Rightarrow> (sv_event \<Rightarrow> socket_id list) \<Rightarrow> (socket_id \<Rightarrow> socket_id option) \<Rightarrow> 'p wait \<Rightarrow> 'p wait \<Rightarrow> 'p wait \<Rightarrow>
    'p server_poller \<Rightarrow> (int \<times> int \<times> 'p server_poller) result" where
  "sv_polls bo app accept w r l p =
     bindr (if \<not> bo_empty bo (sv_writer p)
            then mapr (\<lambda>(es, n, q). (n, fold (sv_on_writer app) es (p\<lparr>sv_writer := q\<rparr>))) (w (sv_writer p))
            else Inr (0, p)) (\<lambda>(n1, p).
     bindr (if \<not> bo_empty bo (sv_reader p)
            then mapr (\<lambda>(es, n, q). (n, fold (sv_on_reader app) es (p\<lparr>sv_reader := q\<rparr>))) (r (sv_reader p))
            else Inr (n1, p)) (\<lambda>(n1, p).
     bindr (if \<not> bo_empty bo (sv_listener p)
            then mapr (\<lambda>(es, n, q). (n, fold (sv_on_listener app accept) es (p\<lparr>sv_listener := q\<rparr>))) (l (sv_listener p))
            else Inr (0, p)) (\<lambda>(n2, p).
       Inr (n1, n2, p))))"

definition sv_flush :: "'p backend_ops \<Rightarrow> 'p server_poller \<Rightarrow> 'p server_poller result" where
  "sv_flush bo p =
     bindr (foldr_res (bo_add bo) (sv_addable_listeners p) (sv_listener p)) (\<lambda>l.
     bindr (foldr_res (bo_add bo) (sv_addable_readers p) (sv_reader p)) (\<lambda>r.
     bindr (foldr_res (bo_remove bo) (sv_removable_listeners p) l) (\<lambda>l.
     bindr (foldr_res (bo_remove bo) (sv_removable_readers p) r) (\<lambda>r.
     bindr (foldr_res (bo_remove bo) (sv_removable_writers p) (sv_writer p)) (\<lambda>w.
       Inr (p\<lparr>sv_listener := l, sv_reader := r, sv_writer := w, sv_addable_listeners := [], sv_addable_readers := [],
         sv_removable_listeners := [], sv_removable_readers := [], sv_removable_writers := [], sv_removable := [],
         sv_events := sv_events p @ map SvListenerRemoved (sv_removable_listeners p) @ map SvRemoved (sv_removable p)\<rparr>))))))"

definition sv_poll ::
  "'p backend_ops \<Rightarrow> (sv_event \<Rightarrow> socket_id list) \<Rightarrow> (socket_id \<Rightarrow> socket_id option) \<Rightarrow> 'p wait \<Rightarrow> 'p wait \<Rightarrow> 'p wait \<Rightarrow>
    'p server_poller \<Rightarrow> (int \<times> 'p server_poller) result" where
  "sv_poll bo app accept w r l p =
     bindr (sv_polls bo app accept w r l p) (\<lambda>(n1, n2, p).
     bindr (sv_flush bo p) (\<lambda>p.
       Inr (if n1 < 0 \<and> n2 < 0 then n1 else (if n1 > 0 then n1 else 0) + (if n2 > 0 then n2 else 0), p)))"

subsection \<open>A round of the client\<close>

text \<open>The three backends of a poller are in order, and \<open>removable\<close> is sorted.\<close>

definition cl_ok :: "('p \<Rightarrow> bool) \<Rightarrow> 'p client_poller \<Rightarrow> bool" where
  "cl_ok ok p \<longleftrightarrow> ok (cl_connecting p) \<and> ok (cl_reader p) \<and> ok (cl_writer p) \<and> sorted (cl_removable p) \<and> distinct (cl_removable p)"

text \<open>What the callbacks may do to a poller: schedule more removals.\<close>

definition cl_grows :: "('p \<Rightarrow> bool) \<Rightarrow> 'p client_poller \<Rightarrow> 'p client_poller \<Rightarrow> bool" where
  "cl_grows ok p p' \<longleftrightarrow> (cl_ok ok p \<longrightarrow> cl_ok ok p') \<and> set (cl_removable_connecting p) \<subseteq> set (cl_removable_connecting p') \<and>
     set (cl_removable_readers p) \<subseteq> set (cl_removable_readers p') \<and>
     set (cl_removable_writers p) \<subseteq> set (cl_removable_writers p') \<and> set (cl_removable p) \<subseteq> set (cl_removable p') \<and>
     (\<exists>es. cl_events p' = cl_events p @ es)"

lemma cl_grows_refl: "cl_grows ok p p"
  by (simp add: cl_grows_def)

lemma cl_grows_trans: "cl_grows ok p q \<Longrightarrow> cl_grows ok q r \<Longrightarrow> cl_grows ok p r"
  by (auto simp: cl_grows_def)

lemma cl_grows_foldr:
  assumes "foldr_res f xs p = Inr p'" and "\<And>x q q'. x \<in> set xs \<Longrightarrow> f x q = Inr q' \<Longrightarrow> cl_grows ok q q'"
  shows "cl_grows ok p p'"
  by (rule foldr_res_inv [OF assms(1), where P = "cl_grows ok p"]) (auto intro: cl_grows_refl cl_grows_trans assms(2))

lemma cl_call_grows: "cl_run_call c p = Inr p' \<Longrightarrow> cl_grows ok p p'"
  by (cases c) (auto simp: cl_add_def cl_remove_def cl_grows_def cl_ok_def set_insert_sorted split: if_splits)

lemma cl_emit_grows: "cl_emit app e p = Inr p' \<Longrightarrow> cl_grows ok p p'"
proof -
  assume "cl_emit app e p = Inr p'"
  then have "cl_grows ok (p\<lparr>cl_events := cl_events p @ [e]\<rparr>) p'"
    unfolding cl_emit_def by (rule cl_grows_foldr) (rule cl_call_grows)
  moreover have "cl_grows ok p (p\<lparr>cl_events := cl_events p @ [e]\<rparr>)" by (simp add: cl_grows_def cl_ok_def)
  ultimately show ?thesis by (rule cl_grows_trans [rotated])
qed

text \<open>A wait keeps the backend and its members.\<close>

definition keeps_members :: "('p \<Rightarrow> bool) \<Rightarrow> ('p \<Rightarrow> socket_id set) \<Rightarrow> 'p wait \<Rightarrow> bool" where
  "keeps_members ok members w \<longleftrightarrow> (\<forall>q es n q'. ok q \<longrightarrow> w q = Inr (es, n, q') \<longrightarrow> ok q' \<and> members q' = members q)"

lemma cl_on_writer_grows: "cl_on_writer app e p = Inr p' \<Longrightarrow> cl_grows ok p p'"
  by (cases e) (auto dest!: cl_emit_grows [where ok = ok] simp: cl_grows_refl cl_grows_def cl_ok_def set_insert_sorted split: if_splits)

lemma cl_on_reader_grows: "cl_on_reader app e p = Inr p' \<Longrightarrow> cl_grows ok p p'"
  by (cases e) (auto dest!: cl_emit_grows [where ok = ok] simp: cl_grows_refl cl_grows_def cl_ok_def set_insert_sorted split: if_splits)

text \<open>The contract of a backend, for the operations in a record.\<close>

locale round_backend = poller_backend "bo_add bo" "bo_remove bo" "bo_empty bo" ok members
  for bo :: "'p backend_ops" and ok :: "'p \<Rightarrow> bool" and members :: "'p \<Rightarrow> socket_id set"
begin

lemma cl_on_connecting_grows:
  assumes "cl_on_connecting bo app e p = Inr p'"
  shows "cl_grows ok p p'"
proof (cases e)
  case (PeConnected sock)
  with assms obtain q where q: "(if \<not> cl_shared p
            then mapr (\<lambda>r. p\<lparr>cl_removable_connecting := cl_removable_connecting p @ [sock], cl_reader := r\<rparr>)
                   (bo_add bo sock (cl_reader p))
            else Inr p) = Inr q" "cl_emit app (ClConnected sock) q = Inr p'" by auto
  from q(1) have "cl_grows ok p q"
    by (auto simp: cl_grows_def cl_ok_def dest: add_members split: if_splits)
  with cl_emit_grows [OF q(2)] show ?thesis by (rule cl_grows_trans [rotated])
qed (use assms in \<open>auto dest!: cl_emit_grows [where ok = ok] simp: cl_grows_refl cl_grows_def cl_ok_def set_insert_sorted split: if_splits\<close>)

lemma cl_put_grows:
  assumes "keeps_members ok members w" and "w q = Inr (es, n, q')"
  shows "q = cl_writer p \<Longrightarrow> cl_grows ok p (p\<lparr>cl_writer := q'\<rparr>)"
    and "q = cl_reader p \<Longrightarrow> cl_grows ok p (p\<lparr>cl_reader := q'\<rparr>)"
    and "q = cl_connecting p \<Longrightarrow> cl_grows ok p (p\<lparr>cl_connecting := q'\<rparr>)"
  using assms by (auto simp: cl_grows_def cl_ok_def keeps_members_def)

lemma cl_poll_write_grows:
  assumes "keeps_members ok members w" and "cl_poll_write bo app w p = Inr (n, p')"
  shows "cl_grows ok p p'"
proof (cases "bo_empty bo (cl_writer p)")
  case False
  with assms(2) obtain es q where w: "w (cl_writer p) = Inr (es, n, q)"
    "foldr_res (cl_on_writer app) es (p\<lparr>cl_writer := q\<rparr>) = Inr p'" by (auto simp: cl_poll_write_def)
  from cl_grows_foldr [OF w(2) cl_on_writer_grows] cl_put_grows(1) [OF assms(1) w(1) refl] show ?thesis
    by (rule cl_grows_trans [rotated])
qed (use assms in \<open>simp add: cl_poll_write_def cl_grows_refl\<close>)

lemma cl_poll_read_grows:
  assumes "keeps_members ok members r" and "cl_poll_read bo app r p = Inr (n, p')"
  shows "cl_grows ok p p'"
proof (cases "bo_empty bo (cl_reader p)")
  case False
  with assms(2) obtain es q where r: "r (cl_reader p) = Inr (es, n, q)"
    "foldr_res (cl_on_reader app) es (p\<lparr>cl_reader := q\<rparr>) = Inr p'" by (auto simp: cl_poll_read_def)
  from cl_grows_foldr [OF r(2) cl_on_reader_grows] cl_put_grows(2) [OF assms(1) r(1) refl] show ?thesis
    by (rule cl_grows_trans [rotated])
qed (use assms in \<open>simp add: cl_poll_read_def cl_grows_refl\<close>)

lemma cl_poll_connected_grows:
  assumes "keeps_members ok members c" and "cl_poll_connected bo app c p = Inr (n, p')"
  shows "cl_grows ok p p'"
proof (cases "bo_empty bo (cl_connecting p)")
  case False
  with assms(2) obtain es q where c: "c (cl_connecting p) = Inr (es, n, q)"
    "foldr_res (cl_on_connecting bo app) es (p\<lparr>cl_connecting := q\<rparr>) = Inr p'" by (auto simp: cl_poll_connected_def)
  from cl_grows_foldr [OF c(2) cl_on_connecting_grows] cl_put_grows(3) [OF assms(1) c(1) refl] show ?thesis
    by (rule cl_grows_trans [rotated])
qed (use assms in \<open>simp add: cl_poll_connected_def cl_grows_refl\<close>)

lemma cl_flush_members:
  assumes "cl_flush bo p = Inr p'" and "cl_ok ok p"
  shows "cl_ok ok p'"
    and "members (cl_connecting p') = members (cl_connecting p) \<union> set (cl_addable_connecting p) - set (cl_removable_connecting p)"
    and "members (cl_reader p') = members (cl_reader p) \<union> set (cl_addable_readers p) - set (cl_removable_readers p)"
    and "members (cl_writer p') = members (cl_writer p) - set (cl_removable_writers p)"
    and "cl_events p' = cl_events p @ map ClRemoved (cl_removable p)"
proof -
  obtain c r c' r' w where f: "foldr_res (bo_add bo) (cl_addable_connecting p) (cl_connecting p) = Inr c"
    "foldr_res (bo_add bo) (cl_addable_readers p) (cl_reader p) = Inr r"
    "foldr_res (bo_remove bo) (cl_removable_connecting p) c = Inr c'"
    "foldr_res (bo_remove bo) (cl_removable_readers p) r = Inr r'"
    "foldr_res (bo_remove bo) (cl_removable_writers p) (cl_writer p) = Inr w"
    and p': "p' = p\<lparr>cl_connecting := c', cl_reader := r', cl_writer := w, cl_addable_connecting := [], cl_addable_readers := [],
         cl_removable_connecting := [], cl_removable_readers := [], cl_removable_writers := [], cl_removable := [],
         cl_events := cl_events p @ map ClRemoved (cl_removable p)\<rparr>"
    using assms(1) by (auto simp: cl_flush_def)
  from assms(2) have ok: "ok (cl_connecting p)" "ok (cl_reader p)" "ok (cl_writer p)" by (simp_all add: cl_ok_def)
  note c = add_all [OF ok(1) f(1)] and r = add_all [OF ok(2) f(2)]
  note c' = remove_all [OF conjunct1 [OF c] f(3)] and r' = remove_all [OF conjunct1 [OF r] f(4)]
  note w = remove_all [OF ok(3) f(5)]
  show "cl_ok ok p'" using c' r' w by (simp add: p' cl_ok_def)
  show "members (cl_connecting p') = members (cl_connecting p) \<union> set (cl_addable_connecting p) - set (cl_removable_connecting p)"
    using c c' by (simp add: p' Un_commute)
  show "members (cl_reader p') = members (cl_reader p) \<union> set (cl_addable_readers p) - set (cl_removable_readers p)"
    using r r' by (simp add: p' Un_commute)
  show "members (cl_writer p') = members (cl_writer p) - set (cl_removable_writers p)" using w by (simp add: p')
  show "cl_events p' = cl_events p @ map ClRemoved (cl_removable p)" by (simp add: p')
qed

text \<open>A removal that is scheduled when a round begins is done when it ends.\<close>

lemma cl_round_removes:
  assumes "cl_ok ok p" and "keeps_members ok members w" and "keeps_members ok members r" and "keeps_members ok members c"
    and "cl_poll bo app w r c p = Inr (n, p')"
  shows "cl_ok ok p' \<and> members (cl_connecting p') \<inter> set (cl_removable_connecting p) = {} \<and>
    members (cl_reader p') \<inter> set (cl_removable_readers p) = {} \<and> members (cl_writer p') \<inter> set (cl_removable_writers p) = {} \<and>
    (\<exists>es gone. cl_events p' = cl_events p @ es @ map ClRemoved gone \<and> set (cl_removable p) \<subseteq> set gone \<and> sorted gone \<and> distinct gone)"
proof -
  obtain n1 p1 n2 p2 n3 p3 where st: "cl_poll_write bo app w p = Inr (n1, p1)" "cl_poll_read bo app r p1 = Inr (n2, p2)"
    "cl_poll_connected bo app c p2 = Inr (n3, p3)" "cl_flush bo p3 = Inr p'"
    using assms(5) by (auto simp: cl_poll_def)
  have g: "cl_grows ok p p3"
    using cl_poll_write_grows [OF assms(2) st(1)] cl_poll_read_grows [OF assms(3) st(2)] cl_poll_connected_grows [OF assms(4) st(3)]
    by (blast intro: cl_grows_trans)
  then have ok: "cl_ok ok p3" using assms(1) by (simp add: cl_grows_def)
  obtain es where es: "cl_events p3 = cl_events p @ es" using g by (auto simp: cl_grows_def)
  note f = cl_flush_members [OF st(4) ok]
  from g f es ok show ?thesis
    by (intro conjI exI [of _ es] exI [of _ "cl_removable p3"]) (auto simp: cl_grows_def cl_ok_def)
qed

end

definition pp_backend :: "poll_poller backend_ops" where
  "pp_backend = \<lparr>bo_add = (\<lambda>x p. Inr (pp_add_socket x p)), bo_remove = pp_remove_socket, bo_empty = pp_empty\<rparr>"

interpretation ppr: round_backend pp_backend pp_ok pp_members
  unfolding round_backend_def pp_backend_def backend_ops.simps by (rule pp.poller_backend_axioms)

definition sl_backend :: "select_poller backend_ops" where
  "sl_backend = \<lparr>bo_add = (\<lambda>x s. if x = invalid_socket then Inl Undefined else sl_add_socket x s),
     bo_remove = sl_remove_socket, bo_empty = sl_empty\<rparr>"

interpretation slr: round_backend sl_backend sl_ok sl_members
  unfolding round_backend_def sl_backend_def backend_ops.simps by (rule sl.poller_backend_axioms)

subsection \<open>The sockets a round observes\<close>

text \<open>The sockets that callbacks name, by what they mean for the poller that made them.\<close>

definition pe_failed :: "poller_event list \<Rightarrow> socket_id set" where
  "pe_failed es = {x. \<exists>e. PeFailure x e \<in> set es}"

definition pe_gone :: "poller_event list \<Rightarrow> socket_id set" where
  "pe_gone es = pe_failed es \<union> {x. PeDisconnected x \<in> set es}"

definition pe_written :: "poller_event list \<Rightarrow> socket_id set" where
  "pe_written es = {x. PeCanWrite x \<in> set es}"

definition pe_refused :: "poller_event list \<Rightarrow> socket_id set" where
  "pe_refused es = pe_failed es \<union> {x. \<exists>r. PeRefused x r \<in> set es}"

definition pe_connected :: "poller_event list \<Rightarrow> socket_id set" where
  "pe_connected es = {x. PeConnected x \<in> set es}"

lemmas pe_defs = pe_failed_def pe_gone_def pe_written_def pe_refused_def pe_connected_def

definition no_calls :: "cl_event \<Rightarrow> cl_call list" where
  "no_calls e = []"

lemma cl_emit_no_calls [simp]: "cl_emit no_calls e p = Inr (p\<lparr>cl_events := cl_events p @ [e]\<rparr>)"
  by (simp add: cl_emit_def no_calls_def)

text \<open>The wait of a poller, skipped when it observes nothing.\<close>

definition polled :: "'p backend_ops \<Rightarrow> 'p wait \<Rightarrow> 'p wait" where
  "polled bo w q = (if bo_empty bo q then Inr ([], 0, q) else w q)"

lemma cl_polled:
  "cl_poll_write bo app w p =
     bindr (polled bo w (cl_writer p)) (\<lambda>(es, n, q). mapr (Pair n) (foldr_res (cl_on_writer app) es (p\<lparr>cl_writer := q\<rparr>)))"
  "cl_poll_read bo app r p =
     bindr (polled bo r (cl_reader p)) (\<lambda>(es, n, q). mapr (Pair n) (foldr_res (cl_on_reader app) es (p\<lparr>cl_reader := q\<rparr>)))"
  "cl_poll_connected bo app c p =
     bindr (polled bo c (cl_connecting p))
       (\<lambda>(es, n, q). mapr (Pair n) (foldr_res (cl_on_connecting bo app) es (p\<lparr>cl_connecting := q\<rparr>)))"
  by (simp_all add: polled_def cl_poll_write_def cl_poll_read_def cl_poll_connected_def)

lemma cl_writer_events:
  assumes "foldr_res (cl_on_writer no_calls) es p = Inr p'" and "\<not> cl_shared p"
  shows "cl_connecting p' = cl_connecting p \<and> cl_reader p' = cl_reader p \<and> cl_writer p' = cl_writer p \<and> \<not> cl_shared p' \<and>
    cl_addable_connecting p' = cl_addable_connecting p \<and> cl_addable_readers p' = cl_addable_readers p \<and>
    set (cl_removable_connecting p') = set (cl_removable_connecting p) \<and>
    set (cl_removable_readers p') = set (cl_removable_readers p) \<and>
    set (cl_removable_writers p') = set (cl_removable_writers p) \<union> pe_failed es \<union> pe_written es \<and>
    set (cl_removable p') = set (cl_removable p) \<union> pe_failed es"
  using assms
proof (induction es arbitrary: p)
  case Nil
  then show ?case by (simp add: pe_defs)
next
  case (Cons e es)
  from Cons.prems(1) obtain q where q: "cl_on_writer no_calls e p = Inr q" "foldr_res (cl_on_writer no_calls) es q = Inr p'" by auto
  have "\<not> cl_shared q" using q(1) Cons.prems(2) by (cases e) auto
  from Cons.IH [OF q(2) this] q(1) Cons.prems(2) show ?case by (cases e) (auto simp: pe_defs)
qed

lemma cl_reader_events:
  assumes "foldr_res (cl_on_reader no_calls) es p = Inr p'"
  shows "cl_connecting p' = cl_connecting p \<and> cl_reader p' = cl_reader p \<and> cl_writer p' = cl_writer p \<and> cl_shared p' = cl_shared p \<and>
    cl_addable_connecting p' = cl_addable_connecting p \<and> cl_addable_readers p' = cl_addable_readers p \<and>
    set (cl_removable_connecting p') = set (cl_removable_connecting p) \<and>
    set (cl_removable_readers p') = set (cl_removable_readers p) \<union> pe_gone es \<and>
    set (cl_removable_writers p') = set (cl_removable_writers p) \<and>
    set (cl_removable p') = set (cl_removable p) \<union> pe_gone es"
  using assms
proof (induction es arbitrary: p)
  case Nil
  then show ?case by (simp add: pe_defs)
next
  case (Cons e es)
  from Cons.prems obtain q where q: "cl_on_reader no_calls e p = Inr q" "foldr_res (cl_on_reader no_calls) es q = Inr p'" by auto
  from Cons.IH [OF q(2)] q(1) show ?case by (cases e) (auto simp: pe_defs)
qed

context round_backend
begin

lemma polled_keeps:
  "keeps_members ok members w \<Longrightarrow> ok q \<Longrightarrow> polled bo w q = Inr (es, n, q') \<Longrightarrow> ok q' \<and> members q' = members q"
  unfolding polled_def keeps_members_def by (auto split: if_splits)

lemma cl_connecting_events:
  assumes "foldr_res (cl_on_connecting bo no_calls) es p = Inr p'" and "\<not> cl_shared p" and "ok (cl_reader p)"
  shows "cl_connecting p' = cl_connecting p \<and> members (cl_reader p') = members (cl_reader p) \<union> pe_connected es \<and>
    cl_writer p' = cl_writer p \<and>
    cl_addable_connecting p' = cl_addable_connecting p \<and> cl_addable_readers p' = cl_addable_readers p \<and>
    set (cl_removable_connecting p') = set (cl_removable_connecting p) \<union> pe_refused es \<union> pe_connected es \<and>
    set (cl_removable_readers p') = set (cl_removable_readers p) \<and>
    set (cl_removable_writers p') = set (cl_removable_writers p) \<and>
    set (cl_removable p') = set (cl_removable p) \<union> pe_refused es"
  using assms
proof (induction es arbitrary: p)
  case Nil
  then show ?case by (simp add: pe_defs)
next
  case (Cons e es)
  from Cons.prems(1) obtain q where q: "cl_on_connecting bo no_calls e p = Inr q"
    "foldr_res (cl_on_connecting bo no_calls) es q = Inr p'" by auto
  have s: "\<not> cl_shared q" using q(1) Cons.prems(2) by (cases e) auto
  have r: "ok (cl_reader q) \<and> members (cl_reader q) = members (cl_reader p) \<union> pe_connected [e]"
  proof (cases e)
    case (PeConnected x)
    with q(1) Cons.prems(2) obtain rr where rr: "bo_add bo x (cl_reader p) = Inr rr" "cl_reader q = rr" by auto
    from add_members [OF Cons.prems(3) rr(1)] rr(2) PeConnected show ?thesis by (auto simp: pe_defs)
  qed (use q(1) Cons.prems(3) in \<open>auto simp: pe_defs\<close>)
  have step: "cl_connecting q = cl_connecting p \<and> cl_writer q = cl_writer p \<and>
    cl_addable_connecting q = cl_addable_connecting p \<and> cl_addable_readers q = cl_addable_readers p \<and>
    set (cl_removable_connecting q) = set (cl_removable_connecting p) \<union> pe_refused [e] \<union> pe_connected [e] \<and>
    set (cl_removable_readers q) = set (cl_removable_readers p) \<and>
    set (cl_removable_writers q) = set (cl_removable_writers p) \<and>
    set (cl_removable q) = set (cl_removable p) \<union> pe_refused [e]"
    using q(1) Cons.prems(2) by (cases e) (auto simp: pe_defs)
  have "pe_refused (e # es) = pe_refused [e] \<union> pe_refused es" "pe_connected (e # es) = pe_connected [e] \<union> pe_connected es"
    by (auto simp: pe_defs)
  with Cons.IH [OF q(2) s conjunct1 [OF r]] r step show ?case by (simp add: Un_assoc Un_left_commute)
qed

lemma cl_round_observes:
  assumes "cl_ok ok p" and "\<not> cl_shared p"
    and "keeps_members ok members w" and "keeps_members ok members r" and "keeps_members ok members c"
    and "polled bo w (cl_writer p) = Inr (wes, n1, qw)" and "polled bo r (cl_reader p) = Inr (res, n2, qr)"
    and "polled bo c (cl_connecting p) = Inr (ces, n3, qc)"
    and "cl_poll bo no_calls w r c p = Inr (n, p')"
  shows "members (cl_connecting p') = members (cl_connecting p) \<union> set (cl_addable_connecting p) -
      (set (cl_removable_connecting p) \<union> pe_refused ces \<union> pe_connected ces) \<and>
    members (cl_reader p') = members (cl_reader p) \<union> pe_connected ces \<union> set (cl_addable_readers p) -
      (set (cl_removable_readers p) \<union> pe_gone res) \<and>
    members (cl_writer p') = members (cl_writer p) - (set (cl_removable_writers p) \<union> pe_failed wes \<union> pe_written wes) \<and>
    (\<exists>es gone. cl_events p' = cl_events p @ es @ map ClRemoved gone \<and> sorted gone \<and> distinct gone \<and>
      set gone = set (cl_removable p) \<union> pe_failed wes \<union> pe_gone res \<union> pe_refused ces)"
proof -
  obtain m1 p1 m2 p2 m3 p3 where st: "cl_poll_write bo no_calls w p = Inr (m1, p1)" "cl_poll_read bo no_calls r p1 = Inr (m2, p2)"
    "cl_poll_connected bo no_calls c p2 = Inr (m3, p3)" "cl_flush bo p3 = Inr p'"
    using assms(9) by (auto simp: cl_poll_def)
  have g: "cl_grows ok p p3"
    using cl_poll_write_grows [OF assms(3) st(1)] cl_poll_read_grows [OF assms(4) st(2)] cl_poll_connected_grows [OF assms(5) st(3)]
    by (blast intro: cl_grows_trans)
  then have ok3: "cl_ok ok p3" using assms(1) by (simp add: cl_grows_def)
  obtain es where es: "cl_events p3 = cl_events p @ es" using g by (auto simp: cl_grows_def)
  have okp: "ok (cl_connecting p)" "ok (cl_reader p)" "ok (cl_writer p)" using assms(1) by (simp_all add: cl_ok_def)
  note kw = polled_keeps [OF assms(3) okp(3) assms(6)] and kr = polled_keeps [OF assms(4) okp(2) assms(7)]
    and kc = polled_keeps [OF assms(5) okp(1) assms(8)]
  have f1: "foldr_res (cl_on_writer no_calls) wes (p\<lparr>cl_writer := qw\<rparr>) = Inr p1"
    using st(1) assms(6) by (simp add: cl_polled)
  note s1 = cl_writer_events [OF f1, simplified, OF assms(2)]
  have f2: "foldr_res (cl_on_reader no_calls) res (p1\<lparr>cl_reader := qr\<rparr>) = Inr p2"
    using st(2) assms(7) s1 by (simp add: cl_polled)
  note s2 = cl_reader_events [OF f2, simplified]
  have f3: "foldr_res (cl_on_connecting bo no_calls) ces (p2\<lparr>cl_connecting := qc\<rparr>) = Inr p3"
    using st(3) assms(8) s1 s2 by (simp add: cl_polled)
  have sh: "\<not> cl_shared (p2\<lparr>cl_connecting := qc\<rparr>)" "ok (cl_reader (p2\<lparr>cl_connecting := qc\<rparr>))" using s1 s2 kr by simp_all
  note s3 = cl_connecting_events [OF f3 sh, simplified]
  note fl = cl_flush_members [OF st(4) ok3]
  have v: "members (cl_connecting p3) = members (cl_connecting p)" "members (cl_reader p3) = members (cl_reader p) \<union> pe_connected ces"
    "members (cl_writer p3) = members (cl_writer p)"
    "cl_addable_connecting p3 = cl_addable_connecting p" "cl_addable_readers p3 = cl_addable_readers p"
    "set (cl_removable_connecting p3) = set (cl_removable_connecting p) \<union> pe_refused ces \<union> pe_connected ces"
    "set (cl_removable_readers p3) = set (cl_removable_readers p) \<union> pe_gone res"
    "set (cl_removable_writers p3) = set (cl_removable_writers p) \<union> pe_failed wes \<union> pe_written wes"
    "set (cl_removable p3) = set (cl_removable p) \<union> pe_failed wes \<union> pe_gone res \<union> pe_refused ces"
    using s1 s2 s3 kw kr kc by auto
  show ?thesis
    using fl es ok3 unfolding v by (intro conjI exI [of _ es] exI [of _ "cl_removable p3"]) (auto simp: v cl_ok_def)
qed

end

subsection \<open>The sockets a round of the server observes\<close>

definition sv_ok :: "('p \<Rightarrow> bool) \<Rightarrow> 'p server_poller \<Rightarrow> bool" where
  "sv_ok ok p \<longleftrightarrow> ok (sv_listener p) \<and> ok (sv_reader p) \<and> ok (sv_writer p) \<and> sorted (sv_removable p) \<and> distinct (sv_removable p)"

definition no_removals :: "sv_event \<Rightarrow> socket_id list" where
  "no_removals e = []"

lemma sv_emit_no_removals [simp]: "sv_emit no_removals e p = p\<lparr>sv_events := sv_events p @ [e]\<rparr>"
  by (simp add: sv_emit_def no_removals_def)

text \<open>The sockets accepted for the callbacks of the listener poller.\<close>

definition pe_accepted :: "(socket_id \<Rightarrow> socket_id option) \<Rightarrow> poller_event list \<Rightarrow> socket_id set" where
  "pe_accepted accept es = {y. \<exists>x. PeAccept x \<in> set es \<and> accept x = Some y}"

lemma sv_writer_events:
  assumes "\<not> sv_shared p"
  shows "let p' = fold (sv_on_writer no_removals) es p in
    sv_listener p' = sv_listener p \<and> sv_reader p' = sv_reader p \<and> sv_writer p' = sv_writer p \<and>
    sv_addable_listeners p' = sv_addable_listeners p \<and> sv_addable_readers p' = sv_addable_readers p \<and>
    sv_removable_listeners p' = sv_removable_listeners p \<and> sv_removable_readers p' = sv_removable_readers p \<and>
    set (sv_removable_writers p') = set (sv_removable_writers p) \<union> pe_failed es \<union> pe_written es \<and>
    set (sv_removable p') = set (sv_removable p) \<union> pe_failed es \<and>
    (sorted (sv_removable p) \<and> distinct (sv_removable p) \<longrightarrow> sorted (sv_removable p') \<and> distinct (sv_removable p')) \<and>
    (\<exists>vs. sv_events p' = sv_events p @ vs)"
  using assms
proof (induction es arbitrary: p)
  case Nil
  then show ?case by (simp add: pe_defs)
next
  case (Cons e es)
  let ?q = "sv_on_writer no_removals e p"
  have "\<not> sv_shared ?q" using Cons.prems by (cases e) auto
  from Cons.IH [OF this] Cons.prems show ?case
    by (cases e) (auto simp: Let_def pe_defs set_insert_sorted)
qed

lemma sv_reader_events:
  "let p' = fold (sv_on_reader no_removals) es p in
    sv_listener p' = sv_listener p \<and> sv_reader p' = sv_reader p \<and> sv_writer p' = sv_writer p \<and>
    sv_addable_listeners p' = sv_addable_listeners p \<and> sv_addable_readers p' = sv_addable_readers p \<and>
    sv_removable_listeners p' = sv_removable_listeners p \<and>
    set (sv_removable_readers p') = set (sv_removable_readers p) \<union> pe_gone es \<and>
    sv_removable_writers p' = sv_removable_writers p \<and>
    set (sv_removable p') = set (sv_removable p) \<union> pe_gone es \<and>
    (sorted (sv_removable p) \<and> distinct (sv_removable p) \<longrightarrow> sorted (sv_removable p') \<and> distinct (sv_removable p')) \<and>
    (\<exists>vs. sv_events p' = sv_events p @ vs)"
proof (induction es arbitrary: p)
  case Nil
  then show ?case by (simp add: pe_defs)
next
  case (Cons e es)
  from Cons.IH [of "sv_on_reader no_removals e p"] show ?case
    by (cases e) (auto simp: Let_def pe_defs set_insert_sorted)
qed

lemma sv_listener_events:
  "let p' = fold (sv_on_listener no_removals accept) es p in
    sv_listener p' = sv_listener p \<and> sv_reader p' = sv_reader p \<and> sv_writer p' = sv_writer p \<and>
    sv_addable_listeners p' = sv_addable_listeners p \<and>
    set (sv_addable_readers p') = set (sv_addable_readers p) \<union> pe_accepted accept es \<and>
    set (sv_removable_listeners p') = set (sv_removable_listeners p) \<union> pe_failed es \<and>
    sv_removable_readers p' = sv_removable_readers p \<and> sv_removable_writers p' = sv_removable_writers p \<and>
    sv_removable p' = sv_removable p \<and> (\<exists>vs. sv_events p' = sv_events p @ vs)"
proof (induction es arbitrary: p)
  case Nil
  then show ?case by (simp add: pe_defs pe_accepted_def)
next
  case (Cons e es)
  from Cons.IH [of "sv_on_listener no_removals accept e p"] show ?case
    by (cases e) (auto simp: Let_def pe_defs pe_accepted_def split: option.splits)
qed

context round_backend
begin

lemma sv_flush_members:
  assumes "sv_flush bo p = Inr p'" and "sv_ok ok p"
  shows "sv_ok ok p'"
    and "members (sv_listener p') = members (sv_listener p) \<union> set (sv_addable_listeners p) - set (sv_removable_listeners p)"
    and "members (sv_reader p') = members (sv_reader p) \<union> set (sv_addable_readers p) - set (sv_removable_readers p)"
    and "members (sv_writer p') = members (sv_writer p) - set (sv_removable_writers p)"
    and "sv_events p' = sv_events p @ map SvListenerRemoved (sv_removable_listeners p) @ map SvRemoved (sv_removable p)"
proof -
  obtain c r c' r' w where f: "foldr_res (bo_add bo) (sv_addable_listeners p) (sv_listener p) = Inr c"
    "foldr_res (bo_add bo) (sv_addable_readers p) (sv_reader p) = Inr r"
    "foldr_res (bo_remove bo) (sv_removable_listeners p) c = Inr c'"
    "foldr_res (bo_remove bo) (sv_removable_readers p) r = Inr r'"
    "foldr_res (bo_remove bo) (sv_removable_writers p) (sv_writer p) = Inr w"
    and p': "p' = p\<lparr>sv_listener := c', sv_reader := r', sv_writer := w, sv_addable_listeners := [], sv_addable_readers := [],
         sv_removable_listeners := [], sv_removable_readers := [], sv_removable_writers := [], sv_removable := [],
         sv_events := sv_events p @ map SvListenerRemoved (sv_removable_listeners p) @ map SvRemoved (sv_removable p)\<rparr>"
    using assms(1) by (auto simp: sv_flush_def)
  from assms(2) have ok: "ok (sv_listener p)" "ok (sv_reader p)" "ok (sv_writer p)" by (simp_all add: sv_ok_def)
  note c = add_all [OF ok(1) f(1)] and r = add_all [OF ok(2) f(2)]
  note c' = remove_all [OF conjunct1 [OF c] f(3)] and r' = remove_all [OF conjunct1 [OF r] f(4)]
  note w = remove_all [OF ok(3) f(5)]
  show "sv_ok ok p'" using c' r' w by (simp add: p' sv_ok_def)
  show "members (sv_listener p') = members (sv_listener p) \<union> set (sv_addable_listeners p) - set (sv_removable_listeners p)"
    using c c' by (simp add: p' Un_commute)
  show "members (sv_reader p') = members (sv_reader p) \<union> set (sv_addable_readers p) - set (sv_removable_readers p)"
    using r r' by (simp add: p' Un_commute)
  show "members (sv_writer p') = members (sv_writer p) - set (sv_removable_writers p)" using w by (simp add: p')
  show "sv_events p' = sv_events p @ map SvListenerRemoved (sv_removable_listeners p) @ map SvRemoved (sv_removable p)" by (simp add: p')
qed

lemma sv_round_observes:
  assumes "sv_ok ok p" and "\<not> sv_shared p"
    and "keeps_members ok members w" and "keeps_members ok members r" and "keeps_members ok members l"
    and "polled bo w (sv_writer p) = Inr (wes, n1, qw)" and "polled bo r (sv_reader p) = Inr (res, n2, qr)"
    and "polled bo l (sv_listener p) = Inr (les, n3, ql)"
    and "sv_poll bo no_removals accept w r l p = Inr (n, p')"
  shows "members (sv_listener p') = members (sv_listener p) \<union> set (sv_addable_listeners p) -
      (set (sv_removable_listeners p) \<union> pe_failed les) \<and>
    members (sv_reader p') = members (sv_reader p) \<union> set (sv_addable_readers p) \<union> pe_accepted accept les -
      (set (sv_removable_readers p) \<union> pe_gone res) \<and>
    members (sv_writer p') = members (sv_writer p) - (set (sv_removable_writers p) \<union> pe_failed wes \<union> pe_written wes) \<and>
    (\<exists>es gone. sv_events p' = sv_events p @ es @ map SvRemoved gone \<and> sorted gone \<and> distinct gone \<and>
      set gone = set (sv_removable p) \<union> pe_failed wes \<union> pe_gone res)"
proof -
  have okp: "ok (sv_listener p)" "ok (sv_reader p)" "ok (sv_writer p)" "sorted (sv_removable p)" "distinct (sv_removable p)"
    using assms(1) by (simp_all add: sv_ok_def)
  note kw = polled_keeps [OF assms(3) okp(3) assms(6)] and kr = polled_keeps [OF assms(4) okp(2) assms(7)]
    and kl = polled_keeps [OF assms(5) okp(1) assms(8)]
  let ?p1 = "fold (sv_on_writer no_removals) wes (p\<lparr>sv_writer := qw\<rparr>)"
  let ?p2 = "fold (sv_on_reader no_removals) res (?p1\<lparr>sv_reader := qr\<rparr>)"
  let ?p3 = "fold (sv_on_listener no_removals accept) les (?p2\<lparr>sv_listener := ql\<rparr>)"
  have "\<not> sv_shared (p\<lparr>sv_writer := qw\<rparr>)" using assms(2) by simp
  note s1 = sv_writer_events [OF this, of wes, unfolded Let_def]
  note s2 = sv_reader_events [of res "?p1\<lparr>sv_reader := qr\<rparr>", unfolded Let_def]
  note s3 = sv_listener_events [of accept les "?p2\<lparr>sv_listener := ql\<rparr>", unfolded Let_def]
  obtain m1 m2 where "sv_polls bo no_removals accept w r l p = Inr (m1, m2, ?p3)"
  proof -
    have 1: "(if \<not> bo_empty bo (sv_writer p)
            then mapr (\<lambda>(es, n, q). (n, fold (sv_on_writer no_removals) es (p\<lparr>sv_writer := q\<rparr>))) (w (sv_writer p))
            else Inr (0, p)) = Inr (n1, ?p1)"
      using assms(6) by (auto simp: polled_def split: if_splits)
    have 2: "\<exists>m. (if \<not> bo_empty bo (sv_reader ?p1)
            then mapr (\<lambda>(es, n, q). (n, fold (sv_on_reader no_removals) es (?p1\<lparr>sv_reader := q\<rparr>))) (r (sv_reader ?p1))
            else Inr (n1, ?p1)) = Inr (m, ?p2)"
      using assms(7) s1 by (auto simp: polled_def split: if_splits)
    then obtain m where m: "(if \<not> bo_empty bo (sv_reader ?p1)
            then mapr (\<lambda>(es, n, q). (n, fold (sv_on_reader no_removals) es (?p1\<lparr>sv_reader := q\<rparr>))) (r (sv_reader ?p1))
            else Inr (n1, ?p1)) = Inr (m, ?p2)" ..
    have 3: "(if \<not> bo_empty bo (sv_listener ?p2)
            then mapr (\<lambda>(es, n, q). (n, fold (sv_on_listener no_removals accept) es (?p2\<lparr>sv_listener := q\<rparr>))) (l (sv_listener ?p2))
            else Inr (0, ?p2)) = Inr (n3, ?p3)"
      using assms(8) s1 s2 by (auto simp: polled_def split: if_splits)
    show thesis by (rule that [of m n3]) (simp only: sv_polls_def 1 m 3 bindr_simps prod.case)
  qed
  with assms(9) have f: "sv_flush bo ?p3 = Inr p'" by (auto simp: sv_poll_def)
  have ok3: "sv_ok ok ?p3" using s1 s2 s3 kw kr kl okp by (simp add: sv_ok_def)
  note fl = sv_flush_members [OF f ok3]
  have v: "members (sv_listener ?p3) = members (sv_listener p)" "members (sv_reader ?p3) = members (sv_reader p)"
    "members (sv_writer ?p3) = members (sv_writer p)" "sv_addable_listeners ?p3 = sv_addable_listeners p"
    "set (sv_addable_readers ?p3) = set (sv_addable_readers p) \<union> pe_accepted accept les"
    "set (sv_removable_listeners ?p3) = set (sv_removable_listeners p) \<union> pe_failed les"
    "set (sv_removable_readers ?p3) = set (sv_removable_readers p) \<union> pe_gone res"
    "set (sv_removable_writers ?p3) = set (sv_removable_writers p) \<union> pe_failed wes \<union> pe_written wes"
    "set (sv_removable ?p3) = set (sv_removable p) \<union> pe_failed wes \<union> pe_gone res"
    using s1 s2 s3 kw kr kl by auto
  obtain es where es: "sv_events ?p3 = sv_events p @ es" using s1 s2 s3 by auto
  show ?thesis
    unfolding fl(2-5) unfolding v
    using ok3 es by (intro conjI exI [of _ "es @ map SvListenerRemoved (sv_removable_listeners ?p3)"] exI [of _ "sv_removable ?p3"])
      (auto simp: v sv_ok_def)
qed

end

subsection \<open>Properties\<close>

text \<open>C16. A round of the client in which the application calls nothing: afterwards the connecting poller observes
  the sockets it had and those to be added, less those to be removed and those that failed, were refused or
  connected; the reader poller also those that connected, less those that failed or disconnected; the writer
  poller those it had, less those that failed or became writable. The sockets that failed, were refused or
  disconnected and those to be removed are reported as removed, each once and last.\<close>

theorem client_round_observes:
  assumes "round_backend bo ok members" and "cl_ok ok p" and "\<not> cl_shared p"
    and "keeps_members ok members w" and "keeps_members ok members r" and "keeps_members ok members c"
    and "polled bo w (cl_writer p) = Inr (wes, n1, qw)" and "polled bo r (cl_reader p) = Inr (res, n2, qr)"
    and "polled bo c (cl_connecting p) = Inr (ces, n3, qc)"
    and "cl_poll bo no_calls w r c p = Inr (n, p')"
  shows "members (cl_connecting p') = members (cl_connecting p) \<union> set (cl_addable_connecting p) -
      (set (cl_removable_connecting p) \<union> pe_refused ces \<union> pe_connected ces) \<and>
    members (cl_reader p') = members (cl_reader p) \<union> pe_connected ces \<union> set (cl_addable_readers p) -
      (set (cl_removable_readers p) \<union> pe_gone res) \<and>
    members (cl_writer p') = members (cl_writer p) - (set (cl_removable_writers p) \<union> pe_failed wes \<union> pe_written wes) \<and>
    (\<exists>es gone. cl_events p' = cl_events p @ es @ map ClRemoved gone \<and> sorted gone \<and> distinct gone \<and>
      set gone = set (cl_removable p) \<union> pe_failed wes \<union> pe_gone res \<union> pe_refused ces)"
  by (rule round_backend.cl_round_observes [OF assms])

definition example_pp_of :: "socket_id list \<Rightarrow> poll_poller" where
  "example_pp_of xs = fold pp_add_socket xs (pp_new 1)"

definition quiet :: "poller_event list \<Rightarrow> 'p wait" where
  "quiet es q = Inr (es, int (length es), q)"

lemma quiet_keeps [simp]: "keeps_members ok members (quiet es)"
  by (simp add: keeps_members_def quiet_def)

lemma example_pp_of_ok:
  "pp_ok (example_pp_of [])" "pp_ok (example_pp_of [x])"
  "pp_members (example_pp_of []) = {}" "pp_members (example_pp_of [x]) = {x}"
  by (simp_all add: example_pp_of_def pp_ok_def pp_members_def pp_new_def pp_add_socket_def)

definition example_client :: "poll_poller client_poller" where
  "example_client = cl_new (example_pp_of [6]) (example_pp_of [5]) (example_pp_of [5])"

lemma example_client_ok: "cl_ok pp_ok example_client" "\<not> cl_shared example_client"
  by (simp_all add: example_client_def cl_new_def cl_ok_def example_pp_of_ok)

lemmas round_eval = cl_poll_def cl_poll_write_def cl_poll_read_def cl_poll_connected_def cl_flush_def cl_new_def set_insert_def
  cl_remove_def cl_emit_def cl_add_def no_calls_def quiet_def pp_backend_def pp_empty_def pp_add_socket_def pp_new_def
  pp_remove_socket_def example_pp_of_def sv_poll_def sv_polls_def sv_flush_def sv_new_def

lemma client_round_observes_witness:
  "\<exists>n p'. cl_poll pp_backend no_calls (quiet [PeCanWrite 5]) (quiet [PeDisconnected 5]) (quiet [PeConnected 6]) example_client = Inr (n, p') \<and>
    pp_members (cl_connecting p') = {} \<and> pp_members (cl_reader p') = {6} \<and> pp_members (cl_writer p') = {}"
proof -
  have "\<exists>n p'. cl_poll pp_backend no_calls (quiet [PeCanWrite 5]) (quiet [PeDisconnected 5]) (quiet [PeConnected 6]) example_client = Inr (n, p')"
    by (simp add: round_eval example_client_def)
  then obtain n p' where r: "cl_poll pp_backend no_calls (quiet [PeCanWrite 5]) (quiet [PeDisconnected 5]) (quiet [PeConnected 6]) example_client = Inr (n, p')"
    by blast
  from client_round_observes [OF ppr.round_backend_axioms example_client_ok quiet_keeps quiet_keeps quiet_keeps _ _ _ r,
      of "[PeCanWrite 5]" 1 "example_pp_of [5]" "[PeDisconnected 5]" 1 "example_pp_of [5]" "[PeConnected 6]" 1 "example_pp_of [6]"]
  have "pp_members (cl_connecting p') = {} \<and> pp_members (cl_reader p') = {6} \<and> pp_members (cl_writer p') = {}"
    by (auto simp: polled_def quiet_def pe_defs example_client_def cl_new_def example_pp_of_ok pp_backend_def pp_empty_def
        example_pp_of_def pp_add_socket_def pp_new_def pp_members_def)
  with r show ?thesis by blast
qed

text \<open>C8. A socket that the application removed is in none of the three pollers after the next round, whatever the
  system announces and whatever the application calls from its callbacks, and it is reported as removed.\<close>

theorem client_remove_is_final:
  assumes "round_backend bo ok members" and "cl_ok ok p"
    and "keeps_members ok members w" and "keeps_members ok members r" and "keeps_members ok members c"
    and "cl_poll bo app w r c (cl_remove x p) = Inr (n, p')"
  shows "x \<notin> members (cl_connecting p') \<union> members (cl_reader p') \<union> members (cl_writer p') \<and>
    (\<exists>es gone. cl_events p' = cl_events p @ es @ map ClRemoved gone \<and> x \<in> set gone \<and> distinct gone)"
proof -
  have "cl_ok ok (cl_remove x p)" using assms(2) by (simp add: cl_remove_def cl_ok_def set_insert_sorted)
  from round_backend.cl_round_removes [OF assms(1) this assms(3-6)] show ?thesis
    by (fastforce simp: cl_remove_def)
qed

lemma client_remove_is_final_witness:
  "\<exists>n p'. cl_poll pp_backend (\<lambda>e. [CallAdd 5 ConnConnected]) (quiet []) (quiet [PeReadyRead 5]) (quiet []) (cl_remove 5 example_client) = Inr (n, p') \<and>
    5 \<notin> pp_members (cl_reader p')"
proof -
  have "\<exists>n p'. cl_poll pp_backend (\<lambda>e. [CallAdd 5 ConnConnected]) (quiet []) (quiet [PeReadyRead 5]) (quiet []) (cl_remove 5 example_client) = Inr (n, p')"
    by (simp add: round_eval example_client_def)
  then obtain n p' where r: "cl_poll pp_backend (\<lambda>e. [CallAdd 5 ConnConnected]) (quiet []) (quiet [PeReadyRead 5]) (quiet [])
      (cl_remove 5 example_client) = Inr (n, p')" by blast
  from client_remove_is_final [OF ppr.round_backend_axioms example_client_ok(1) quiet_keeps quiet_keeps quiet_keeps r] r
  show ?thesis by blast
qed

text \<open>A socket that disconnects while it waits to be written is reported as removed, which says that it may be
  released, but the writer poller goes on to observe it.\<close>

theorem client_removed_still_waits:
  assumes "round_backend bo ok members" and "cl_ok ok p" and "\<not> cl_shared p"
    and "keeps_members ok members w" and "keeps_members ok members r" and "keeps_members ok members c"
    and "polled bo w (cl_writer p) = Inr (wes, n1, qw)" and "polled bo r (cl_reader p) = Inr (res, n2, qr)"
    and "polled bo c (cl_connecting p) = Inr (ces, n3, qc)"
    and "cl_poll bo no_calls w r c p = Inr (n, p')"
    and "x \<in> members (cl_writer p)" and "x \<notin> set (cl_removable_writers p)" and "x \<notin> pe_failed wes \<union> pe_written wes"
    and "PeDisconnected x \<in> set res"
  shows "ClRemoved x \<in> set (drop (length (cl_events p)) (cl_events p')) \<and> x \<notin> members (cl_reader p') \<and> x \<in> members (cl_writer p')"
proof -
  from round_backend.cl_round_observes [OF assms(1-10)] obtain es gone where
    m: "members (cl_reader p') = members (cl_reader p) \<union> pe_connected ces \<union> set (cl_addable_readers p) -
      (set (cl_removable_readers p) \<union> pe_gone res)"
    "members (cl_writer p') = members (cl_writer p) - (set (cl_removable_writers p) \<union> pe_failed wes \<union> pe_written wes)"
    and e: "cl_events p' = cl_events p @ es @ map ClRemoved gone"
    "set gone = set (cl_removable p) \<union> pe_failed wes \<union> pe_gone res \<union> pe_refused ces" by blast
  from assms(14) have "x \<in> pe_gone res" by (simp add: pe_gone_def)
  with m e assms(11-13) show ?thesis by auto
qed

lemma client_removed_still_waits_witness:
  "\<exists>n p'. cl_poll pp_backend no_calls (quiet []) (quiet [PeDisconnected 5]) (quiet []) example_client = Inr (n, p') \<and>
    cl_events p' = [ClDisconnected 5, ClRemoved 5] \<and> 5 \<in> pp_members (cl_writer p')"
proof -
  have "\<exists>n p'. cl_poll pp_backend no_calls (quiet []) (quiet [PeDisconnected 5]) (quiet []) example_client = Inr (n, p') \<and>
    cl_events p' = [ClDisconnected 5, ClRemoved 5]" by (simp add: round_eval example_client_def)
  then obtain n p' where r: "cl_poll pp_backend no_calls (quiet []) (quiet [PeDisconnected 5]) (quiet []) example_client = Inr (n, p')"
    "cl_events p' = [ClDisconnected 5, ClRemoved 5]" by blast
  from client_removed_still_waits [OF ppr.round_backend_axioms example_client_ok quiet_keeps quiet_keeps quiet_keeps _ _ _ r(1),
      of "[]" 0 "example_pp_of [5]" "[PeDisconnected 5]" 1 "example_pp_of [5]" "[]" 0 "example_pp_of [6]" 5]
  have "5 \<in> pp_members (cl_writer p')"
    by (auto simp: polled_def quiet_def pe_defs example_client_def cl_new_def example_pp_of_ok pp_backend_def pp_empty_def
        example_pp_of_def pp_add_socket_def pp_new_def pp_members_def)
  with r show ?thesis by blast
qed

text \<open>A round of the server in which the application removes nothing: afterwards the listener poller observes the
  listeners it had and those to be added, less those to be removed and those that failed; the reader poller
  also every accepted socket, less those that failed or disconnected; the writer poller those it had, less
  those that failed or became writable.\<close>

theorem server_round_observes:
  assumes "round_backend bo ok members" and "sv_ok ok p" and "\<not> sv_shared p"
    and "keeps_members ok members w" and "keeps_members ok members r" and "keeps_members ok members l"
    and "polled bo w (sv_writer p) = Inr (wes, n1, qw)" and "polled bo r (sv_reader p) = Inr (res, n2, qr)"
    and "polled bo l (sv_listener p) = Inr (les, n3, ql)"
    and "sv_poll bo no_removals accept w r l p = Inr (n, p')"
  shows "members (sv_listener p') = members (sv_listener p) \<union> set (sv_addable_listeners p) -
      (set (sv_removable_listeners p) \<union> pe_failed les) \<and>
    members (sv_reader p') = members (sv_reader p) \<union> set (sv_addable_readers p) \<union> pe_accepted accept les -
      (set (sv_removable_readers p) \<union> pe_gone res) \<and>
    members (sv_writer p') = members (sv_writer p) - (set (sv_removable_writers p) \<union> pe_failed wes \<union> pe_written wes) \<and>
    (\<exists>es gone. sv_events p' = sv_events p @ es @ map SvRemoved gone \<and> sorted gone \<and> distinct gone \<and>
      set gone = set (sv_removable p) \<union> pe_failed wes \<union> pe_gone res)"
  by (rule round_backend.sv_round_observes [OF assms])

definition example_server :: "poll_poller server_poller" where
  "example_server = sv_new (example_pp_of [3]) (example_pp_of [5]) (example_pp_of [])"

lemma server_round_observes_witness:
  "\<exists>n p'. sv_poll pp_backend no_removals (\<lambda>x. Some (x + 4)) (quiet []) (quiet [PeReadyRead 5]) (quiet [PeAccept 3]) example_server = Inr (n, p') \<and>
    pp_members (sv_listener p') = {3} \<and> pp_members (sv_reader p') = {5, 7}"
proof -
  have ok: "sv_ok pp_ok example_server" "\<not> sv_shared example_server"
    by (simp_all add: example_server_def sv_new_def sv_ok_def example_pp_of_ok)
  have "\<exists>n p'. sv_poll pp_backend no_removals (\<lambda>x. Some (x + 4)) (quiet []) (quiet [PeReadyRead 5]) (quiet [PeAccept 3]) example_server = Inr (n, p')"
    by (simp add: round_eval example_server_def)
  then obtain n p' where r: "sv_poll pp_backend no_removals (\<lambda>x. Some (x + 4)) (quiet []) (quiet [PeReadyRead 5]) (quiet [PeAccept 3])
      example_server = Inr (n, p')" by blast
  from server_round_observes [OF ppr.round_backend_axioms ok quiet_keeps quiet_keeps quiet_keeps _ _ _ r,
      of "[]" 0 "example_pp_of []" "[PeReadyRead 5]" 1 "example_pp_of [5]" "[PeAccept 3]" 1 "example_pp_of [3]"]
  have "pp_members (sv_listener p') = {3} \<and> pp_members (sv_reader p') = {5, 7}"
    by (auto simp: polled_def quiet_def pe_defs pe_accepted_def example_server_def sv_new_def pp_backend_def pp_empty_def
        example_pp_of_def pp_add_socket_def pp_new_def pp_members_def)
  with r show ?thesis by blast
qed

end
