(* ===== verification/Sockets.thy ===== *)
theory Sockets
  imports FileSystem Inet4Addr WriterPool ConnectingPool "HOL-Library.Multiset"
begin

text \<open>
  The sockets over POSIX (include/pfs/netty/posix/inet_socket.hpp, tcp_socket.hpp, tcp_listener.hpp,
  udp_socket.hpp, udp_receiver.hpp, udp_sender.hpp and their sources), as they are on Linux.

  The state of an operation is one socket object with the calls of the operating system that were made
  so far, each with what it returned; the answers to the calls that will be made are part of the state. An operation
  whose \<open>perr\<close> is null throws; otherwise it gives the error beside its value. Constructors give the
  state of the object, destroyed again if they throw, and destructors that throw terminate the program.
\<close>

subsection \<open>Calls of the operating system\<close>

datatype sock_errno = E_again | E_nobufs | E_connreset | E_netreset | E_netdown | E_netunreach | E_inprogress | E_notconn | E_other

datatype sock_option =
    OptReuseAddr | OptKeepAlive | OptNoDelay | OptBroadcast bool | OptMulticastIf inet4_addr
  | OptAddMembership inet4_addr inet4_addr | OptDropMembership inet4_addr inet4_addr

datatype sys_call =
    CallSocket bool
  | CallSetOption socket_id sock_option
  | CallBind socket_id socket4_addr
  | CallConnect socket_id socket4_addr
  | CallListen socket_id int
  | CallAccept socket_id
  | CallGetFlags socket_id
  | CallSetFlags socket_id int
  | CallShutdown socket_id
  | CallClose socket_id
  | CallRecv socket_id int
  | CallSend socket_id bytes
  | CallRecvFrom socket_id int
  | CallSendTo socket_id socket4_addr bytes

record sys_answer =
  an_rc :: int
  an_errno :: sock_errno
  an_data :: bytes
  an_addr :: socket4_addr
  an_inet :: bool

record inet_socket =
  sk_fd :: socket_id
  sk_saddr :: socket4_addr
  sk_calls :: "(sys_call \<times> int) list"
  sk_answers :: "nat \<Rightarrow> sys_answer"

type_synonym 'a sock_act = "('a, inet_socket) act"

definition sys :: "sys_call \<Rightarrow> sys_answer sock_act" where
  "sys c s = (Inr (sk_answers s 0),
     s\<lparr>sk_calls := sk_calls s @ [(c, an_rc (sk_answers s 0))], sk_answers := \<lambda>k. sk_answers s (Suc k)\<rparr>)"

definition throw_or :: "bool \<Rightarrow> errc \<Rightarrow> 'a \<Rightarrow> ('a \<times> errc option) sock_act" where
  "throw_or perr e x = (if perr then ret (x, Some e) else fails (Thrown e))"

subsection \<open>\<open>inet_socket\<close>\<close>

datatype socket_type = SockUnknown | SockStream | SockDgram

definition kInvalidSocket :: socket_id where "kInvalidSocket = -1"

definition unset_addr :: socket4_addr where "unset_addr = \<lparr>sa_addr = any_inet4_addr, sa_port = 0\<rparr>"

text \<open>An object without a socket, made over the calls made so far.\<close>

definition sk_new :: "inet_socket \<Rightarrow> inet_socket" where
  "sk_new s = s\<lparr>sk_fd := kInvalidSocket, sk_saddr := unset_addr\<rparr>"

definition sk_valid :: "inet_socket \<Rightarrow> bool" where
  "sk_valid s \<longleftrightarrow> sk_fd s \<noteq> kInvalidSocket"

definition sk_destroy :: "unit sock_act" where
  "sk_destroy s =
     (if sk_fd s > 0
      then bnd (sys (CallShutdown (sk_fd s))) (\<lambda>_. bnd (sys (CallClose (sk_fd s))) (\<lambda>_ s. (Inr (), s\<lparr>sk_fd := kInvalidSocket\<rparr>))) s
      else (Inr (), s))"

text \<open>The chain of socket options: the next is set if the last one was.\<close>

definition set_next_option :: "int \<Rightarrow> sock_option \<Rightarrow> int sock_act" where
  "set_next_option rc opt s = (if rc = 0 then bnd (sys (CallSetOption (sk_fd s) opt)) (\<lambda>a. ret (an_rc a)) s else (Inr rc, s))"

definition sk_init :: "socket_type \<Rightarrow> bool \<Rightarrow> (bool \<times> errc option) sock_act" where
  "sk_init socktype perr =
     (if socktype = SockUnknown then throw_or perr Socket_error False
      else
        (let stream = (socktype = SockStream) in
         bnd (sys (CallSocket stream)) (\<lambda>a.
         bnd (\<lambda>s. (Inr (), s\<lparr>sk_fd := an_rc a\<rparr>)) (\<lambda>_.
           if an_rc a < 0 then throw_or perr Socket_error False
           else
             bnd (set_next_option 0 OptReuseAddr) (\<lambda>rc.
             bnd (if stream then set_next_option rc OptKeepAlive else ret rc) (\<lambda>rc.
             bnd (if stream then set_next_option rc OptNoDelay else ret rc) (\<lambda>rc.
               if rc \<noteq> 0 then throw_or perr Socket_error False else ret (True, None))))))))"

definition check_socket_descriptor :: "socket_id \<Rightarrow> bool \<Rightarrow> (bool \<times> errc option) sock_act" where
  "check_socket_descriptor fd perr = (if fd = kInvalidSocket then throw_or perr Invalid_argument False else ret (True, None))"

definition sk_bind :: "socket4_addr \<Rightarrow> bool \<Rightarrow> (bool \<times> errc option) sock_act" where
  "sk_bind saddr perr s =
     bnd (check_socket_descriptor (sk_fd s) perr) (\<lambda>(ok, e).
       if \<not> ok then ret (False, e)
       else bnd (sys (CallBind (sk_fd s) saddr)) (\<lambda>a.
         if an_rc a \<noteq> 0 then throw_or perr Socket_error False else ret (True, None))) s"

text \<open>\<open>O_NONBLOCK\<close> is bit 11 of the flags.\<close>

definition o_nonblock :: int where "o_nonblock = 2048"

definition sk_set_nonblocking :: "bool \<Rightarrow> bool \<Rightarrow> (bool \<times> errc option) sock_act" where
  "sk_set_nonblocking enable perr s =
     bnd (check_socket_descriptor (sk_fd s) perr) (\<lambda>(ok, e).
       if \<not> ok then ret (False, e)
       else
         bnd (sys (CallGetFlags (sk_fd s))) (\<lambda>a.
         bnd (if an_rc a \<ge> 0
              then bnd (sys (CallSetFlags (sk_fd s) (if enable then or (an_rc a) o_nonblock else and (an_rc a) (not o_nonblock)))) (\<lambda>b. ret (an_rc b))
              else ret (an_rc a)) (\<lambda>rc.
           if rc < 0 then throw_or perr Socket_error False else ret (True, None)))) s"

definition sk_is_nonblocking :: "bool \<Rightarrow> (bool \<times> errc option) sock_act" where
  "sk_is_nonblocking perr s =
     bnd (check_socket_descriptor (sk_fd s) perr) (\<lambda>(ok, e).
       if \<not> ok then ret (False, e)
       else bnd (sys (CallGetFlags (sk_fd s))) (\<lambda>a.
         if an_rc a \<ge> 0 then ret (and (an_rc a) o_nonblock \<noteq> 0, None) else throw_or perr Socket_error False)) s"

text \<open>The number that \<open>recv\<close> returns and the bytes it wrote; that there is nothing to read is 0, as is the end.\<close>

definition sk_recv :: "int \<Rightarrow> bool \<Rightarrow> ((int \<times> bytes) \<times> errc option) sock_act" where
  "sk_recv len perr s =
     bnd (sys (CallRecv (sk_fd s) len)) (\<lambda>a.
       if an_rc a < 0 then
         (if an_errno a = E_again then ret ((0, []), None) else throw_or perr Socket_error (an_rc a, []))
       else ret ((an_rc a, an_data a), None)) s"

definition sk_recv_from :: "int \<Rightarrow> bool \<Rightarrow> ((int \<times> bytes \<times> socket4_addr) \<times> errc option) sock_act" where
  "sk_recv_from len perr s =
     bnd (sys (CallRecvFrom (sk_fd s) len)) (\<lambda>a.
       if an_rc a < 0 then
         (if an_errno a = E_again then ret ((0, [], unset_addr), None) else throw_or perr Socket_error (an_rc a, [], unset_addr))
       else ret ((an_rc a, an_data a, an_addr a), None)) s"

text \<open>What \<open>send\<close> and \<open>send_to\<close> make of the answer.\<close>

definition sent_result :: "sys_answer \<Rightarrow> bool \<Rightarrow> (send_result \<times> errc option) sock_act" where
  "sent_result a perr =
     (if an_rc a < 0 then
        (if an_errno a = E_nobufs then ret (\<lparr>sr_status = SendOverflow, sr_n = 0\<rparr>, None)
         else if an_errno a \<in> {E_connreset, E_netreset, E_netdown, E_netunreach} then ret (\<lparr>sr_status = SendNetwork, sr_n = 0\<rparr>, None)
         else if an_errno a = E_again then ret (\<lparr>sr_status = SendAgain, sr_n = 0\<rparr>, None)
         else throw_or perr Socket_error \<lparr>sr_status = SendFailure, sr_n = 0\<rparr>)
      else ret (\<lparr>sr_status = SendGood, sr_n = of_int (an_rc a)\<rparr>, None))"

definition sk_send :: "bytes \<Rightarrow> bool \<Rightarrow> (send_result \<times> errc option) sock_act" where
  "sk_send data perr s = bnd (sys (CallSend (sk_fd s) data)) (\<lambda>a. sent_result a perr) s"

definition sk_send_to :: "socket4_addr \<Rightarrow> bytes \<Rightarrow> bool \<Rightarrow> (send_result \<times> errc option) sock_act" where
  "sk_send_to saddr data perr s = bnd (sys (CallSendTo (sk_fd s) saddr data)) (\<lambda>a. sent_result a perr) s"

text \<open>Move assignment: the old socket is closed, the other object is left without one.\<close>

definition sk_move_assign :: "inet_socket \<Rightarrow> unit sock_act" where
  "sk_move_assign other = bnd sk_destroy (\<lambda>_ s. (Inr (), s\<lparr>sk_fd := sk_fd other, sk_saddr := sk_saddr other\<rparr>))"

subsection \<open>\<open>tcp_socket\<close>\<close>

definition tcp_connect_from :: "socket4_addr \<Rightarrow> inet4_addr \<Rightarrow> bool \<Rightarrow> (conn_status \<times> errc option) sock_act" where
  "tcp_connect_from remote local perr =
     bnd (sk_init SockStream perr) (\<lambda>(ok, e).
       if \<not> ok then ret (ConnFailure, e)
       else
         bnd (if local \<noteq> any_inet4_addr then sk_bind \<lparr>sa_addr = local, sa_port = 0\<rparr> perr else ret (True, None)) (\<lambda>(ok, e).
           if \<not> ok then ret (ConnFailure, e)
           else
             bnd (\<lambda>s. (Inr (), s\<lparr>sk_saddr := remote\<rparr>)) (\<lambda>_ s.
             bnd (sys (CallConnect (sk_fd s) remote)) (\<lambda>a.
               if an_rc a < 0 then
                 (if an_errno a \<in> {E_inprogress, E_again} then ret (ConnConnecting, None)
                  else if an_errno a \<in> {E_netunreach, E_netdown} then ret (ConnUnreachable, None)
                  else throw_or perr Socket_error ConnFailure)
               else ret (ConnConnected, None)) s)))"

definition tcp_connect :: "socket4_addr \<Rightarrow> bool \<Rightarrow> (conn_status \<times> errc option) sock_act" where
  "tcp_connect remote perr = tcp_connect_from remote any_inet4_addr perr"

definition tcp_disconnect :: "bool \<Rightarrow> (unit \<times> errc option) sock_act" where
  "tcp_disconnect perr s =
     (if sk_fd s > 0 then
        bnd (sys (CallShutdown (sk_fd s))) (\<lambda>a.
          if an_rc a \<noteq> 0 \<and> an_errno a \<notin> {E_notconn, E_connreset} then throw_or perr Socket_error () else ret ((), None)) s
      else (Inr ((), None), s))"

subsection \<open>\<open>tcp_listener\<close>\<close>

text \<open>A constructor that throws destroys the base that was made.\<close>

definition constructed :: "'a sock_act \<Rightarrow> 'a sock_act" where
  "constructed m s = (case m s of (Inl e, s) \<Rightarrow> bnd sk_destroy (\<lambda>_. fails e) s | (Inr x, s) \<Rightarrow> (Inr x, s))"

definition tcp_listener_new :: "socket4_addr \<Rightarrow> bool \<Rightarrow> (unit \<times> errc option) sock_act" where
  "tcp_listener_new saddr perr s =
     constructed (bnd (sk_init SockStream perr) (\<lambda>(ok, e) s.
       if \<not> ok then (Inr ((), e), s) else (Inr ((), None), s\<lparr>sk_saddr := saddr\<rparr>))) (sk_new s)"

definition tcp_listen :: "int \<Rightarrow> bool \<Rightarrow> (bool \<times> errc option) sock_act" where
  "tcp_listen backlog perr s =
     bnd (sk_bind (sk_saddr s) perr) (\<lambda>(ok, e).
       if \<not> ok then ret (False, e)
       else bnd (sys (CallListen (sk_fd s) backlog)) (\<lambda>a.
         if an_rc a \<noteq> 0 then throw_or perr Socket_error False else ret (True, None))) s"

text \<open>\<open>accept\<close>: the descriptor and the address of the new socket, none for an object without one.\<close>

type_synonym accepted = "(socket_id \<times> socket4_addr) option"

definition tcp_accept :: "bool \<Rightarrow> (accepted \<times> errc option) sock_act" where
  "tcp_accept perr s =
     bnd (sys (CallAccept (sk_fd s))) (\<lambda>a.
       if an_rc a > 0 then
         (if an_inet a then ret (Some (an_rc a, an_addr a), None) else throw_or perr Socket_error None)
       else if an_errno a = E_again then ret (None, None)
       else throw_or perr Socket_error None) s"

text \<open>An operation on another object with the calls made so far, which is destroyed if the operation throws.\<close>

definition on_accepted :: "accepted \<Rightarrow> 'a sock_act \<Rightarrow> ('a \<times> accepted) sock_act" where
  "on_accepted c m s =
     (let o' = (case c of None \<Rightarrow> sk_new s | Some (fd, a) \<Rightarrow> s\<lparr>sk_fd := fd, sk_saddr := a\<rparr>) in
      case constructed m o' of
        (r, o') \<Rightarrow> (mapr (\<lambda>x. (x, if sk_valid o' then Some (sk_fd o', sk_saddr o') else None)) r,
           s\<lparr>sk_calls := sk_calls o', sk_answers := sk_answers o'\<rparr>))"

definition tcp_accept_nonblocking :: "bool \<Rightarrow> (accepted \<times> errc option) sock_act" where
  "tcp_accept_nonblocking perr =
     bnd (tcp_accept perr) (\<lambda>(c, e).
     bnd (on_accepted c (bnd (sk_set_nonblocking True perr) (\<lambda>(ok, e').
         if ok then ret (ok, e') else bnd sk_destroy (\<lambda>_. ret (ok, e'))))) (\<lambda>((ok, e'), c).
       if ok then ret (c, e) else ret (None, e')))"

subsection \<open>\<open>udp_socket\<close>\<close>

text \<open>A call of \<open>setsockopt\<close> with the error it is reported by.\<close>

definition set_option :: "sock_option \<Rightarrow> bool \<Rightarrow> (bool \<times> errc option) sock_act" where
  "set_option opt perr s =
     bnd (sys (CallSetOption (sk_fd s) opt)) (\<lambda>a. if an_rc a \<noteq> 0 then throw_or perr Socket_error False else ret (True, None)) s"

definition udp_ensure :: "bool \<Rightarrow> (bool \<times> errc option) sock_act" where
  "udp_ensure perr s = (if \<not> sk_valid s then sk_init SockDgram perr s else (Inr (True, None), s))"

definition udp_join :: "socket4_addr \<Rightarrow> inet4_addr \<Rightarrow> bool \<Rightarrow> (bool \<times> errc option) sock_act" where
  "udp_join grp local perr =
     bnd (udp_ensure perr) (\<lambda>(ok, e). if \<not> ok then ret (False, e) else set_option (OptAddMembership (sa_addr grp) local) perr)"

definition udp_leave :: "socket4_addr \<Rightarrow> inet4_addr \<Rightarrow> bool \<Rightarrow> (bool \<times> errc option) sock_act" where
  "udp_leave grp local perr = set_option (OptDropMembership (sa_addr grp) local) perr"

definition udp_enable_broadcast :: "bool \<Rightarrow> bool \<Rightarrow> (bool \<times> errc option) sock_act" where
  "udp_enable_broadcast enable perr =
     bnd (udp_ensure perr) (\<lambda>(ok, e). if \<not> ok then ret (False, e) else set_option (OptBroadcast enable) perr)"

subsection \<open>\<open>udp_receiver\<close> and \<open>udp_sender\<close>\<close>

text \<open>A receiver is made with the group that its destructor leaves, if any.\<close>

definition udp_receiver_new :: "socket4_addr \<Rightarrow> inet4_addr \<Rightarrow> ((socket4_addr \<times> inet4_addr) option) sock_act" where
  "udp_receiver_new src local s =
     constructed (bnd (sk_init SockDgram False) (\<lambda>_.
       if is_multicast (sa_addr src) then
         bnd (sk_bind src False) (\<lambda>_. bnd (udp_join src local False) (\<lambda>_. ret (Some (src, local))))
       else if is_broadcast (sa_addr src) then
         bnd (sk_bind src False) (\<lambda>_. bnd (udp_enable_broadcast True False) (\<lambda>_. ret None))
       else bnd (sk_bind src False) (\<lambda>_. ret None))) (sk_new s)"

definition udp_receiver_local :: "socket4_addr \<Rightarrow> unit sock_act" where
  "udp_receiver_local local s =
     constructed
       (if is_multicast (sa_addr local) then fails (Thrown Socket_error)
        else bnd (sk_bind local False) (\<lambda>_.
          if is_broadcast (sa_addr local) then bnd (udp_enable_broadcast True False) (\<lambda>_. ret ()) else ret ())) (sk_new s)"

definition udp_receiver_destroy :: "(socket4_addr \<times> inet4_addr) option \<Rightarrow> unit sock_act" where
  "udp_receiver_destroy dtor s =
     (case dtor of
        None \<Rightarrow> sk_destroy s
      | Some (grp, local) \<Rightarrow>
          (case udp_leave grp local False s of
             (Inl e, s) \<Rightarrow> (Inl Terminated, s)
           | (Inr _, s) \<Rightarrow> sk_destroy s))"

definition set_multicast_interface :: "inet4_addr \<Rightarrow> bool \<Rightarrow> (bool \<times> errc option) sock_act" where
  "set_multicast_interface local perr =
     bnd (sk_bind \<lparr>sa_addr = local, sa_port = 0\<rparr> perr) (\<lambda>(ok, e). if \<not> ok then ret (False, e) else set_option (OptMulticastIf local) perr)"

subsection \<open>Descriptors are closed\<close>

text \<open>The descriptors that the system opened and those that were closed. The destructor takes 0 for no descriptor.\<close>

fun opened_by :: "sys_call \<times> int \<Rightarrow> socket_id multiset" where
  "opened_by (CallSocket b, rc) = (if rc \<ge> 0 then {#rc#} else {#})"
| "opened_by (CallAccept fd, rc) = (if rc \<ge> 0 then {#rc#} else {#})"
| "opened_by _ = {#}"

fun closed_by :: "sys_call \<times> int \<Rightarrow> socket_id multiset" where
  "closed_by (CallClose fd, rc) = {#fd#}"
| "closed_by _ = {#}"

definition fds_opened :: "inet_socket \<Rightarrow> socket_id multiset" where
  "fds_opened s = sum_list (map opened_by (sk_calls s))"

definition fds_closed :: "inet_socket \<Rightarrow> socket_id multiset" where
  "fds_closed s = sum_list (map closed_by (sk_calls s))"

definition fd_owned :: "inet_socket \<Rightarrow> socket_id multiset" where
  "fd_owned s = (if sk_fd s \<ge> 0 then {#sk_fd s#} else {#})"

text \<open>Every descriptor that was opened is closed once, or is the one of the object, or is one of \<open>L\<close>, which were lost.\<close>

definition balanced :: "socket_id multiset \<Rightarrow> inet_socket \<Rightarrow> bool" where
  "balanced L s \<longleftrightarrow> fds_opened s = fds_closed s + fd_owned s + L"

text \<open>An operation that keeps the balance, and one that loses the descriptor of the object, if it has one.\<close>

definition keeps_balance :: "'a sock_act \<Rightarrow> bool" where
  "keeps_balance m \<longleftrightarrow> (\<forall>L s. balanced L s \<longrightarrow> balanced L (snd (m s)))"

definition opens_balanced :: "'a sock_act \<Rightarrow> bool" where
  "opens_balanced m \<longleftrightarrow> (\<forall>L s. balanced L s \<longrightarrow> balanced (L + fd_owned s) (snd (m s)))"

lemma balance_bnd:
  assumes "keeps_balance m" and "\<And>x. keeps_balance (f x)"
  shows "keeps_balance (bnd m f)"
  unfolding keeps_balance_def
proof (intro allI impI)
  fix L s assume "balanced L s"
  with assms(1) have "balanced L (snd (m s))" by (simp add: keeps_balance_def)
  with assms(2) show "balanced L (snd (bnd m f s))"
    by (cases "m s"; cases "fst (m s)") (auto simp: keeps_balance_def bnd_def)
qed

lemma opens_bnd:
  assumes "opens_balanced m" and "\<And>x. keeps_balance (f x)"
  shows "opens_balanced (bnd m f)"
  unfolding opens_balanced_def
proof (intro allI impI)
  fix L s assume "balanced L s"
  with assms(1) have "balanced (L + fd_owned s) (snd (m s))" by (simp add: opens_balanced_def)
  with assms(2) show "balanced (L + fd_owned s) (snd (bnd m f s))"
    by (cases "m s"; cases "fst (m s)") (auto simp: keeps_balance_def bnd_def)
qed

lemma balance_basic [simp]:
  "keeps_balance (ret x)" "keeps_balance (fails e)" "keeps_balance (throw_or perr e' y)"
  by (simp_all add: keeps_balance_def throw_or_def)

lemma balance_saddr [simp]: "keeps_balance (\<lambda>s. (Inr (), s\<lparr>sk_saddr := a\<rparr>))"
  by (simp add: keeps_balance_def balanced_def fds_opened_def fds_closed_def fd_owned_def)

text \<open>A call that neither opens nor closes.\<close>

fun neutral_call :: "sys_call \<Rightarrow> bool" where
  "neutral_call (CallSocket b) = False"
| "neutral_call (CallAccept fd) = False"
| "neutral_call (CallClose fd) = False"
| "neutral_call _ = True"

lemma balance_sys: "neutral_call c \<Longrightarrow> keeps_balance (sys c)"
  by (cases c) (simp_all add: keeps_balance_def balanced_def sys_def fds_opened_def fds_closed_def fd_owned_def)

lemma balance_self:
  assumes "\<And>s. m s = n s s" and "\<And>s. keeps_balance (n s)"
  shows "keeps_balance m"
  using assms by (simp add: keeps_balance_def)

lemma balance_if: "(b \<Longrightarrow> keeps_balance m) \<Longrightarrow> (\<not> b \<Longrightarrow> keeps_balance n) \<Longrightarrow> keeps_balance (if b then m else n)"
  by simp

lemma balance_pair: "(\<And>x y. keeps_balance (f x y)) \<Longrightarrow> keeps_balance (case p of (x, y) \<Rightarrow> f x y)"
  by (simp add: case_prod_unfold)

lemmas balance_intros = balance_bnd balance_basic balance_saddr balance_if balance_pair

lemma check_balance: "keeps_balance (check_socket_descriptor fd perr)"
  unfolding check_socket_descriptor_def by (rule balance_intros)+

lemma bind_balance: "keeps_balance (sk_bind saddr perr)"
  by (rule balance_self [OF sk_bind_def]) (rule balance_intros check_balance balance_sys | simp)+

lemma nonblocking_balance: "keeps_balance (sk_set_nonblocking enable perr)"
  by (rule balance_self [OF sk_set_nonblocking_def]) (rule balance_intros check_balance balance_sys | simp)+

lemma recv_balance: "keeps_balance (sk_recv len perr)"
  by (rule balance_self [OF sk_recv_def]) (rule balance_intros balance_sys | simp)+

lemma sent_balance: "keeps_balance (sent_result a perr)"
  unfolding sent_result_def by (rule balance_intros)+

lemma send_balance: "keeps_balance (sk_send data perr)"
  by (rule balance_self [OF sk_send_def]) (rule balance_intros sent_balance balance_sys | simp)+

lemma disconnect_balance: "keeps_balance (tcp_disconnect perr)"
  unfolding keeps_balance_def
proof (intro allI impI)
  fix L s assume "balanced L s"
  moreover have "keeps_balance (bnd (sys (CallShutdown (sk_fd s)))
      (\<lambda>a. if an_rc a \<noteq> 0 \<and> an_errno a \<notin> {E_notconn, E_connreset} then throw_or perr Socket_error () else ret ((), None)))"
    by (rule balance_intros balance_sys | simp)+
  ultimately show "balanced L (snd (tcp_disconnect perr s))" by (simp add: tcp_disconnect_def keeps_balance_def)
qed

text \<open>A new socket replaces the one the object had, and is kept whatever fails later.\<close>

lemma option_balance: "keeps_balance (set_next_option rc opt)"
  unfolding keeps_balance_def
proof (intro allI impI)
  fix L s assume "balanced L s"
  moreover have "keeps_balance (bnd (sys (CallSetOption (sk_fd s) opt)) (\<lambda>a. ret (an_rc a)))"
    by (rule balance_intros balance_sys | simp)+
  ultimately show "balanced L (snd (set_next_option rc opt s))" by (simp add: set_next_option_def keeps_balance_def)
qed

lemma open_balance:
  assumes "\<And>x. keeps_balance (f x)"
  shows "opens_balanced (bnd (sys (CallSocket b)) (\<lambda>a. bnd (\<lambda>s. (Inr (), s\<lparr>sk_fd := an_rc a\<rparr>)) (\<lambda>_. f a)))"
proof -
  have "opens_balanced (\<lambda>s. bnd (sys (CallSocket b)) (\<lambda>a s. (Inr a, s\<lparr>sk_fd := an_rc a\<rparr>)) s)"
    by (auto simp: opens_balanced_def sys_def balanced_def fds_opened_def fds_closed_def fd_owned_def)
  then have "opens_balanced (bnd (bnd (sys (CallSocket b)) (\<lambda>a s. (Inr a, s\<lparr>sk_fd := an_rc a\<rparr>))) f)" using assms by (rule opens_bnd)
  moreover have "bnd (bnd (sys (CallSocket b)) (\<lambda>a s. (Inr a, s\<lparr>sk_fd := an_rc a\<rparr>))) f =
      bnd (sys (CallSocket b)) (\<lambda>a. bnd (\<lambda>s. (Inr (), s\<lparr>sk_fd := an_rc a\<rparr>)) (\<lambda>_. f a))"
    by (simp add: fun_eq_iff sys_def)
  ultimately show ?thesis by simp
qed

lemma init_balance:
  assumes "t \<noteq> SockUnknown"
  shows "opens_balanced (sk_init t perr)"
  unfolding sk_init_def Let_def if_not_P [OF assms]
  by (rule open_balance) (rule balance_intros option_balance)+

lemma connect_balance: "opens_balanced (tcp_connect_from remote local perr)"
proof -
  have "keeps_balance (\<lambda>s. bnd (sys (CallConnect (sk_fd s) remote)) (\<lambda>a.
      if an_rc a < 0 then
        (if an_errno a \<in> {E_inprogress, E_again} then ret (ConnConnecting, None)
         else if an_errno a \<in> {E_netunreach, E_netdown} then ret (ConnUnreachable, None)
         else throw_or perr Socket_error ConnFailure)
      else ret (ConnConnected, None)) s)"
    by (rule balance_self) (rule refl, (rule balance_intros balance_sys | simp)+)
  then show ?thesis unfolding tcp_connect_from_def
    by (intro opens_bnd init_balance balance_intros bind_balance) simp_all
qed

text \<open>The uses of a socket, by a caller that catches what is thrown. Connecting again makes a new socket, whose descriptor
  replaces the one the object has.\<close>

datatype tcp_use =
    UseConnect socket4_addr inet4_addr bool
  | UseSend bytes bool
  | UseRecv int bool
  | UseDisconnect bool
  | UseNonblocking bool bool

fun tcp_used :: "tcp_use \<Rightarrow> inet_socket \<Rightarrow> inet_socket" where
  "tcp_used (UseConnect remote local perr) s = snd (tcp_connect_from remote local perr s)"
| "tcp_used (UseSend data perr) s = snd (sk_send data perr s)"
| "tcp_used (UseRecv len perr) s = snd (sk_recv len perr s)"
| "tcp_used (UseDisconnect perr) s = snd (tcp_disconnect perr s)"
| "tcp_used (UseNonblocking b perr) s = snd (sk_set_nonblocking b perr s)"

text \<open>The descriptors that are replaced.\<close>

fun fds_replaced :: "tcp_use list \<Rightarrow> inet_socket \<Rightarrow> socket_id multiset" where
  "fds_replaced [] s = {#}"
| "fds_replaced (u # us) s =
     (case u of UseConnect remote local perr \<Rightarrow> fd_owned s | _ \<Rightarrow> {#}) + fds_replaced us (tcp_used u s)"

lemma used_balanced: "balanced L s \<Longrightarrow> balanced (L + fds_replaced us s) (fold tcp_used us s)"
proof (induction us arbitrary: L s)
  case (Cons u us)
  have "balanced (L + (case u of UseConnect remote local perr \<Rightarrow> fd_owned s | _ \<Rightarrow> {#})) (tcp_used u s)"
    using Cons.prems connect_balance send_balance recv_balance disconnect_balance nonblocking_balance
    by (cases u) (simp_all add: keeps_balance_def opens_balanced_def)
  from Cons.IH [OF this] show ?case by (simp add: add.assoc)
qed simp

lemma balance_destroy: "balanced L s \<Longrightarrow> fds_opened (snd (sk_destroy s)) =
    fds_closed (snd (sk_destroy s)) + L + (if sk_fd (snd (sk_destroy s)) = 0 then {#0#} else {#})"
  by (auto simp: sk_destroy_def balanced_def sys_def fds_opened_def fds_closed_def fd_owned_def kInvalidSocket_def)

lemma destroy_fd: "sk_fd (snd (sk_destroy t)) \<le> 0"
  by (simp add: sk_destroy_def sys_def kInvalidSocket_def)

text \<open>C27. The descriptors of a TCP socket: whatever the operating system answers, whether errors are thrown or given, and however
  the object is used to connect, send, receive, shut down and change its mode, when it is destroyed every descriptor that
  was opened for it has been closed exactly once, but for the descriptor 0, which stays open, and for those that the
  object had when it was connected again.\<close>

theorem tcp_socket_closes:
  assumes "sk_fd s = kInvalidSocket" and "sk_calls s = []"
  shows "let s' = snd (sk_destroy (fold tcp_used us s))
    in fds_opened s' = fds_closed s' + fds_replaced us s + (if sk_fd s' = 0 then {#0#} else {#}) \<and> sk_fd s' \<le> 0"
proof -
  have "balanced {#} s" using assms by (simp add: balanced_def fds_opened_def fds_closed_def fd_owned_def kInvalidSocket_def)
  from balance_destroy [OF used_balanced [OF this, of us]] destroy_fd show ?thesis by (simp add: Let_def)
qed

text \<open>Nothing is replaced if the object is connected once.\<close>

lemma once_connected:
  assumes "\<forall>u\<in>set us. \<forall>r l p. u \<noteq> UseConnect r l p" and "sk_fd s = kInvalidSocket"
  shows "fds_replaced (UseConnect r l p # us) s = {#}"
proof -
  have "fds_replaced us t = {#}" for t
    using assms(1) by (induction us arbitrary: t) (auto split: tcp_use.split)
  then show ?thesis using assms(2) by (simp add: fd_owned_def kInvalidSocket_def)
qed

text \<open>An operating system that hands out descriptor 5, whose connect fails, and whose later calls succeed.\<close>

definition refusing_system :: "nat \<Rightarrow> sys_answer" where
  "refusing_system k = \<lparr>an_rc = (if k = 0 then 5 else if k = 4 then -1 else 0), an_errno = E_other, an_data = [],
     an_addr = unset_addr, an_inet = True\<rparr>"

definition fresh_object :: "(nat \<Rightarrow> sys_answer) \<Rightarrow> inet_socket" where
  "fresh_object os = \<lparr>sk_fd = kInvalidSocket, sk_saddr = unset_addr, sk_calls = [], sk_answers = os\<rparr>"

theorem tcp_socket_closes_witness:
  "let s' = snd (sk_destroy (fold tcp_used [UseConnect unset_addr any_inet4_addr True, UseSend [1] True, UseDisconnect True]
       (fresh_object refusing_system)))
   in fds_opened s' = fds_closed s' + (if sk_fd s' = 0 then {#0#} else {#}) \<and> sk_fd s' \<le> 0"
proof -
  have "fds_replaced [UseConnect unset_addr any_inet4_addr True, UseSend [1] True, UseDisconnect True] (fresh_object refusing_system) = {#}"
    by (rule once_connected) (simp_all add: fresh_object_def)
  with tcp_socket_closes [of "fresh_object refusing_system" "[UseConnect unset_addr any_inet4_addr True, UseSend [1] True, UseDisconnect True]"]
  show ?thesis by (simp only: fresh_object_def inet_socket.simps simp_thms add_0_right)
qed

text \<open>What the call of the operating system was is not lost on the way: \<open>fresh_object\<close> opened 5 and closed it.\<close>

lemma refusing_system_closed:
  "fds_closed (snd (sk_destroy (snd (tcp_connect_from unset_addr any_inet4_addr True (fresh_object refusing_system))))) = {#5#}"
  by (simp add: tcp_connect_from_def sk_init_def set_next_option_def sys_def fresh_object_def refusing_system_def
      throw_or_def bnd_def sk_destroy_def kInvalidSocket_def fds_closed_def Let_def)

subsection \<open>What sending reports\<close>

text \<open>Sending gives the status good, with the number of bytes the operating system took, exactly if the call succeeded;
  an error is thrown or given exactly if the status would be a failure; with any other status nothing was taken.\<close>

theorem sk_send_reports:
  assumes "sk_send data perr s = (r, s')" and "an_rc (sk_answers s 0) \<le> int (length data)" and "length data < 2 ^ 31"
  shows "case r of
      Inl e \<Rightarrow> \<not> perr \<and> e = Thrown Socket_error \<and> an_rc (sk_answers s 0) < 0
    | Inr (res, e) \<Rightarrow> (sr_status res = SendGood \<longleftrightarrow> 0 \<le> an_rc (sk_answers s 0)) \<and> (sr_status res = SendFailure \<longleftrightarrow> e \<noteq> None) \<and>
        int (unat (sr_n res)) = max 0 (an_rc (sk_answers s 0)) \<and> unat (sr_n res) \<le> length data"
proof -
  have r: "r = fst (sent_result (sk_answers s 0) perr (snd (sys (CallSend (sk_fd s) data) s)))"
    using assms(1) by (auto simp: sk_send_def sys_def)
  show ?thesis
  proof (cases "an_rc (sk_answers s 0) < 0")
    case True
    then show ?thesis unfolding r by (simp add: sent_result_def throw_or_def)
  next
    case False
    define w :: u64 where "w = of_int (an_rc (sk_answers s 0))"
    have "uint w = an_rc (sk_answers s 0)"
      using False assms(2,3) unfolding w_def by (simp add: uint_word_of_int)
    then have w: "int (unat w) = an_rc (sk_answers s 0)" by simp
    then have "unat w \<le> length data" using assms(2) by linarith
    moreover have "r = Inr (\<lparr>sr_status = SendGood, sr_n = w\<rparr>, None)"
      using False unfolding r w_def by (simp add: sent_result_def)
    ultimately show ?thesis using w [symmetric] by simp
  qed
qed

theorem sk_send_reports_witness:
  "case fst (sk_send [1, 2, 3] False (fresh_object (\<lambda>k. \<lparr>an_rc = 2, an_errno = E_other, an_data = [], an_addr = unset_addr, an_inet = True\<rparr>))) of
      Inl e \<Rightarrow> False | Inr (res, e) \<Rightarrow> sr_status res = SendGood \<and> unat (sr_n res) = 2"
  using sk_send_reports [of "[1, 2, 3]" False "fresh_object (\<lambda>k. \<lparr>an_rc = 2, an_errno = E_other, an_data = [], an_addr = unset_addr, an_inet = True\<rparr>)"]
  by (simp add: sk_send_def sys_def fresh_object_def sent_result_def)

subsection \<open>Objects without a socket\<close>

lemma bind_without_socket: "\<not> sk_valid s \<Longrightarrow> sk_bind saddr perr s = throw_or perr Invalid_argument False s"
  by (simp add: sk_bind_def check_socket_descriptor_def sk_valid_def throw_or_def)

lemma constructed_fails: "m s = (Inl e, s') \<Longrightarrow> fst (constructed m s) = Inl e"
  by (simp add: constructed_def sk_destroy_def sys_def bnd_def)

text \<open>The constructor for unicast and broadcast does not make a socket, so it throws, always.\<close>

lemma udp_receiver_local_throws:
  "fst (udp_receiver_local local s) = Inl (Thrown (if is_multicast (sa_addr local) then Socket_error else Invalid_argument))"
  unfolding udp_receiver_local_def
  by (rule constructed_fails [where s' = "sk_new s"])
    (simp add: bnd_def bind_without_socket sk_valid_def sk_new_def throw_or_def)

text \<open>Nor does a sender have one when its multicast interface is set.\<close>

lemma multicast_interface_fails:
  "set_multicast_interface local perr (sk_new s) = throw_or perr Invalid_argument False (sk_new s)"
  by (simp add: set_multicast_interface_def bnd_def bind_without_socket sk_valid_def sk_new_def throw_or_def)

text \<open>Without a pending connection \<open>accept\<close> gives an object without a socket, but \<open>accept_nonblocking\<close> an error.\<close>

lemma accept_nothing_pending:
  assumes "an_rc (sk_answers s 0) < 0" and "an_errno (sk_answers s 0) = E_again"
  shows "fst (tcp_accept perr s) = Inr (None, None)"
    and "fst (tcp_accept_nonblocking True s) = Inr (None, Some Invalid_argument)"
    and "fst (tcp_accept_nonblocking False s) = Inl (Thrown Invalid_argument)"
  using assms
  by (simp_all add: tcp_accept_nonblocking_def tcp_accept_def sys_def on_accepted_def constructed_def sk_set_nonblocking_def
      check_socket_descriptor_def sk_new_def throw_or_def bnd_def sk_destroy_def kInvalidSocket_def Let_def)

text \<open>The descriptor of a connection of another family is never closed.\<close>

lemma accept_leaks:
  assumes "an_rc (sk_answers s 0) > 0" and "\<not> an_inet (sk_answers s 0)"
  shows "fst (tcp_accept True s) = Inr (None, Some Socket_error)"
    and "fds_opened (snd (tcp_accept True s)) = fds_opened s + {#an_rc (sk_answers s 0)#}"
    and "fds_closed (snd (tcp_accept True s)) = fds_closed s"
  using assms by (simp_all add: tcp_accept_def sys_def throw_or_def bnd_def fds_opened_def fds_closed_def)

text \<open>The destructor of a receiver throws if the group cannot be left, which ends the program.\<close>

lemma receiver_destructor_terminates:
  assumes "an_rc (sk_answers s 0) \<noteq> 0"
  shows "fst (udp_receiver_destroy (Some (grp, local)) s) = Inl Terminated"
  using assms by (simp add: udp_receiver_destroy_def udp_leave_def set_option_def sys_def throw_or_def bnd_def)

text \<open>The descriptor 0, which the system may hand out, is not closed.\<close>

lemma descriptor_zero_stays: "sk_fd s = 0 \<Longrightarrow> sk_destroy s = (Inr (), s) \<and> sk_valid s"
  by (simp add: sk_destroy_def sk_valid_def kInvalidSocket_def)

text \<open>A listener, in contrast, holds the one socket it was made with.\<close>

lemma destroy_keeps: "keeps_balance sk_destroy"
  by (auto simp: keeps_balance_def sk_destroy_def balanced_def sys_def fds_opened_def fds_closed_def fd_owned_def kInvalidSocket_def)

lemma listener_balance:
  assumes "opens_balanced m"
  shows "opens_balanced (constructed m)"
  unfolding opens_balanced_def
proof (intro allI impI)
  fix L s assume "balanced L s"
  with assms have m: "balanced (L + fd_owned s) (snd (m s))" by (simp add: opens_balanced_def)
  obtain x s' where x: "m s = (x, s')" by fastforce
  have "balanced (L + fd_owned s) (snd (sk_destroy s'))" using destroy_keeps m x by (simp add: keeps_balance_def)
  moreover obtain y t where "sk_destroy s' = (y, t)" by fastforce
  ultimately show "balanced (L + fd_owned s) (snd (constructed m s))"
    using m x by (auto simp: constructed_def bnd_def split: sum.splits prod.splits)
qed

lemma listener_new_balanced:
  assumes "balanced {#} s" and "sk_fd s < 0"
  shows "balanced {#} (snd (tcp_listener_new saddr perr s))"
proof -
  have "opens_balanced (bnd (sk_init SockStream perr) (\<lambda>(ok, e) s.
      if \<not> ok then (Inr ((), e), s) else (Inr ((), None), s\<lparr>sk_saddr := saddr\<rparr>)))" (is "opens_balanced ?m")
    by (rule opens_bnd [OF init_balance])
      (auto simp: keeps_balance_def balanced_def fds_opened_def fds_closed_def fd_owned_def split: if_splits)
  moreover have "balanced {#} (sk_new s)" "fd_owned (sk_new s) = {#}"
    using assms by (auto simp: sk_new_def balanced_def fds_opened_def fds_closed_def fd_owned_def kInvalidSocket_def)
  ultimately have "balanced {#} (snd (constructed ?m (sk_new s)))" using listener_balance [of ?m]
    unfolding opens_balanced_def by fastforce
  then show ?thesis by (simp add: tcp_listener_new_def)
qed

end
