(* ===== verification/EnetSockets.thy ===== *)
theory EnetSockets
  imports Sockets ClientServerPoller
begin

text \<open>
  Sockets and pollers over ENet (src/enet): \<open>enet_socket\<close>, \<open>enet_listener\<close>, \<open>enet_poller\<close> and the reader, writer,
  listener and connecting pollers on it.

  ENet is not part of the repository: a host and a peer are numbers (a peer is the identifier of a socket), and what the
  library answers is an argument of each operation. What a peer points to by \<open>data\<close> is the input buffer of a socket
  object, so the objects are in a store, by their addresses: an operation on an address without an object is undefined.
  \<open>ew_log\<close> lists the calls of the library, where a peer got a socket (\<open>EnOpen\<close>, with what was left in the buffer of the socket), the packets that arrived and what
  was read through the sockets.
\<close>

subsection \<open>The store\<close>

record enet_socket =
  es_host :: "nat option"
  es_peer :: "socket_id option"
  es_timeouts :: "int \<times> int \<times> int"
  es_accepted :: bool
  es_inpb :: bytes

datatype enet_log =
    EnHostDestroy nat
  | EnPeerTimeout socket_id "int \<times> int \<times> int"
  | EnPeerReset socket_id
  | EnPeerDisconnect socket_id
  | EnPeerSend socket_id bytes
  | EnOpen socket_id bytes
  | EnPacket socket_id bytes
  | EnRead socket_id bytes

record enet_world =
  ew_objs :: "nat \<rightharpoonup> enet_socket"
  ew_data :: "socket_id \<rightharpoonup> nat"
  ew_host :: "socket_id \<Rightarrow> nat"
  ew_pending :: "socket_id \<Rightarrow> bool"
  ew_log :: "enet_log list"

type_synonym 'a en_act = "('a, enet_world) act"

definition en_call :: "enet_log \<Rightarrow> enet_world \<Rightarrow> enet_world" where
  "en_call c w = w\<lparr>ew_log := ew_log w @ [c]\<rparr>"

definition en_put :: "nat \<Rightarrow> enet_socket \<Rightarrow> enet_world \<Rightarrow> enet_world" where
  "en_put a s w = w\<lparr>ew_objs := (ew_objs w)(a \<mapsto> s)\<rparr>"

definition en_point :: "socket_id option \<Rightarrow> nat \<Rightarrow> enet_world \<Rightarrow> enet_world" where
  "en_point p a w = (case p of None \<Rightarrow> w | Some p \<Rightarrow> w\<lparr>ew_data := (ew_data w)(p \<mapsto> a)\<rparr>)"

definition en_with :: "nat \<Rightarrow> (enet_socket \<Rightarrow> 'a en_act) \<Rightarrow> 'a en_act" where
  "en_with a f w = (case ew_objs w a of None \<Rightarrow> (Inl Undefined, w) | Some s \<Rightarrow> f s w)"

definition en_throw :: "bool \<Rightarrow> errc \<Rightarrow> 'a \<Rightarrow> ('a \<times> errc option) en_act" where
  "en_throw perr e x = (if perr then ret (x, Some e) else fails (Thrown e))"

subsection \<open>\<open>enet_socket\<close>\<close>

definition es_blank :: enet_socket where
  "es_blank = \<lparr>es_host = None, es_peer = None, es_timeouts = (0, 0, 0), es_accepted = False, es_inpb = []\<rparr>"

definition es_new :: "nat \<Rightarrow> enet_world \<Rightarrow> enet_world" where
  "es_new a = en_put a es_blank"

text \<open>\<open>host\<close> is what \<open>enet_host_create\<close> gives.\<close>

definition es_init :: "nat \<Rightarrow> int \<times> int \<times> int \<Rightarrow> nat option \<Rightarrow> bool \<Rightarrow> (unit \<times> errc option) en_act" where
  "es_init a timeouts host perr = en_with a (\<lambda>s w.
     (case host of
        None \<Rightarrow> en_throw perr Socket_error () (en_put a (s\<lparr>es_host := None\<rparr>) w)
      | Some h \<Rightarrow> (Inr ((), None), en_put a (s\<lparr>es_host := Some h, es_timeouts := timeouts\<rparr>) w)))"

text \<open>The timeouts of ENet itself (\<open>enet.h\<close>) are an argument.\<close>

datatype net_quality = NqDefaults | NqFast | NqNormal | NqPoor

definition net_qualities :: "int \<times> int \<times> int \<Rightarrow> net_quality \<Rightarrow> int \<times> int \<times> int" where
  "net_qualities defaults nq =
     (case nq of NqDefaults \<Rightarrow> defaults | NqFast \<Rightarrow> (8, 1000, 2000) | NqNormal \<Rightarrow> (16, 2500, 5000) | NqPoor \<Rightarrow> (96, 5000, 10000))"

definition es_new_quality :: "nat \<Rightarrow> int \<times> int \<times> int \<Rightarrow> net_quality \<Rightarrow> nat option \<Rightarrow> bool \<Rightarrow> (unit \<times> errc option) en_act" where
  "es_new_quality a defaults nq host perr w = es_init a (net_qualities defaults nq) host perr (es_new a w)"



definition es_assign :: "nat \<Rightarrow> nat \<Rightarrow> unit en_act" where
  "es_assign a other = en_with a (\<lambda>_. en_with other (\<lambda>s w.
     if a = other then (Inr (), w)
     else (Inr (), en_point (es_peer s) a (en_put a s (en_put other (s\<lparr>es_host := None, es_peer := None, es_inpb := []\<rparr>) w)))))"

definition es_destroy :: "nat \<Rightarrow> unit en_act" where
  "es_destroy a = en_with a (\<lambda>s w.
     (Inr (), (case es_host s of
         Some h \<Rightarrow> if \<not> es_accepted s then en_call (EnHostDestroy h) w else w
       | None \<Rightarrow> w)\<lparr>ew_objs := (ew_objs w)(a := None)\<rparr>))"

definition es_valid :: "enet_socket \<Rightarrow> bool" where
  "es_valid s \<longleftrightarrow> es_peer s \<noteq> None"

definition es_id :: "enet_socket \<Rightarrow> socket_id" where
  "es_id s = (case es_peer s of None \<Rightarrow> 0 | Some p \<Rightarrow> p)"

definition es_available :: "nat \<Rightarrow> nat en_act" where
  "es_available a = en_with a (\<lambda>s w. (Inr (length (es_inpb s)), w))"

definition es_recv :: "nat \<Rightarrow> int \<Rightarrow> bytes en_act" where
  "es_recv a len = en_with a (\<lambda>s w.
     (let sz = min (if len > 0 then nat len else 0) (length (es_inpb s)) in
      if sz = 0 then (Inr [], w)
      else (Inr (take sz (es_inpb s)),
        (case es_peer s of None \<Rightarrow> (\<lambda>w. w) | Some p \<Rightarrow> en_call (EnRead p (take sz (es_inpb s))))
          (en_put a (s\<lparr>es_inpb := drop sz (es_inpb s)\<rparr>) w))))"

text \<open>\<open>packet_ok\<close>: the packet could be made; \<open>rc\<close>: what \<open>enet_peer_send\<close> returns. Without a packet the error is stored
  and the null pointer is used.\<close>

definition es_send :: "nat \<Rightarrow> bytes \<Rightarrow> bool \<Rightarrow> int \<Rightarrow> bool \<Rightarrow> (send_result \<times> errc option) en_act" where
  "es_send a data packet_ok rc perr = en_with a (\<lambda>s w.
     (case es_peer s of
        None \<Rightarrow> (Inl Undefined, w)
      | Some p \<Rightarrow>
          (if ew_pending w p then (Inr (\<lparr>sr_status = SendAgain, sr_n = 0\<rparr>, None), w)
           else if \<not> packet_ok then (Inl (if perr then Undefined else Thrown System_error), w)
           else if rc < 0 then en_throw perr Socket_error \<lparr>sr_status = SendFailure, sr_n = 0\<rparr> w
           else (Inr (\<lparr>sr_status = SendGood, sr_n = of_nat (length data)\<rparr>, None), en_call (EnPeerSend p data) w))))"

datatype enet_event = EvConnect socket_id | EvReceive socket_id bytes | EvDisconnect socket_id

text \<open>What \<open>enet_host_service\<close> answers: an error, no event, an event, or one of no type the code knows.\<close>

datatype service_answer = SaError | SaNone | SaEvent enet_event | SaOther



subsection \<open>\<open>enet_listener\<close>\<close>

record enet_listener =
  el_host :: "nat option"
  el_saddr :: socket4_addr

definition el_listen :: "nat option \<Rightarrow> bool \<Rightarrow> enet_listener \<Rightarrow> (bool \<times> errc option) result \<times> enet_listener" where
  "el_listen host perr l =
     (case host of
        None \<Rightarrow> (if perr then Inr (False, Some Socket_error) else Inl (Thrown Socket_error), l\<lparr>el_host := None\<rparr>)
      | Some h \<Rightarrow> (Inr (True, None), l\<lparr>el_host := Some h\<rparr>))"


subsection \<open>\<open>enet_poller\<close>\<close>

record enet_poller =
  np_events :: "enet_event list"
  np_sockets :: "socket_id list"
  np_listeners :: "socket_id list"
  np_wait_for_write :: "socket_id list"

definition np_new :: enet_poller where
  "np_new = \<lparr>np_events = [], np_sockets = [], np_listeners = [], np_wait_for_write = []\<rparr>"

definition np_add_socket :: "socket_id \<Rightarrow> enet_poller \<Rightarrow> enet_poller" where
  "np_add_socket s p = (if s \<in> set (np_sockets p) then p else p\<lparr>np_sockets := np_sockets p @ [s]\<rparr>)"

definition np_add_listener :: "socket_id \<Rightarrow> enet_poller \<Rightarrow> enet_poller" where
  "np_add_listener s p = (if s \<in> set (np_listeners p) then p else p\<lparr>np_listeners := np_listeners p @ [s]\<rparr>)"

definition np_wait :: "socket_id \<Rightarrow> enet_poller \<Rightarrow> enet_poller" where
  "np_wait s p = (let p = np_add_socket s p in p\<lparr>np_wait_for_write := set_insert s (np_wait_for_write p)\<rparr>)"

definition np_remove_socket :: "socket_id \<Rightarrow> enet_poller \<Rightarrow> enet_poller" where
  "np_remove_socket s p = p\<lparr>np_sockets := remove1 s (np_sockets p)\<rparr>"

definition np_remove_listener :: "socket_id \<Rightarrow> enet_poller \<Rightarrow> enet_poller" where
  "np_remove_listener s p = p\<lparr>np_listeners := remove1 s (np_listeners p)\<rparr>"

definition np_empty :: "enet_poller \<Rightarrow> bool" where
  "np_empty p \<longleftrightarrow> np_sockets p = [] \<and> np_listeners p = []"

text \<open>\<open>poll_helper\<close>: whether the service succeeded, and the number it adds to the total.\<close>

definition np_poll_helper :: "service_answer \<Rightarrow> enet_poller \<Rightarrow> (nat option \<times> enet_poller)" where
  "np_poll_helper a p =
     (case a of
        SaNone \<Rightarrow> (Some 0, p)
      | SaError \<Rightarrow> (None, p)
      | SaEvent e \<Rightarrow> (Some 1, p\<lparr>np_events := np_events p @ [e]\<rparr>)
      | SaOther \<Rightarrow> (Some 1, p))"

definition np_host_step :: "(socket_id \<Rightarrow> service_answer) \<Rightarrow> socket_id \<Rightarrow> bool \<times> nat \<times> enet_poller \<Rightarrow> bool \<times> nat \<times> enet_poller" where
  "np_host_step answers s = (\<lambda>(ok, n, p). case np_poll_helper (answers s) p of
     (None, p) \<Rightarrow> (False, n, p) | (Some k, p) \<Rightarrow> (ok, n + k, p))"

text \<open>The rounds that the time limit allows, with the answers for listeners and for sockets: the first round with an error
  or an event is the last. At least one round is made.\<close>

fun np_rounds :: "((socket_id \<Rightarrow> service_answer) \<times> (socket_id \<Rightarrow> service_answer)) list \<Rightarrow> enet_poller \<Rightarrow> int \<times> enet_poller" where
  "np_rounds [] p = (0, p)"
| "np_rounds ((ls, ss) # rounds) p =
     (case fold (np_host_step ss) (np_sockets p) (fold (np_host_step ls) (np_listeners p) (True, 0, p)) of
        (ok, n, p) \<Rightarrow> if \<not> ok then (-1, p) else if n > 0 then (int n, p) else np_rounds rounds p)"

definition np_poll :: "((socket_id \<Rightarrow> service_answer) \<times> (socket_id \<Rightarrow> service_answer)) list \<Rightarrow> enet_poller \<Rightarrow> int \<times> enet_poller" where
  "np_poll rounds p = (if np_empty p then (0, p) else np_rounds rounds p)"

definition np_check_can_write :: "(socket_id \<Rightarrow> bool) \<Rightarrow> enet_poller \<Rightarrow> poller_event list \<times> int \<times> enet_poller" where
  "np_check_can_write pending p =
     (let ready = filter (\<lambda>s. \<not> pending s) (np_wait_for_write p)
      in (map PeCanWrite ready, int (length ready), p\<lparr>np_wait_for_write := filter pending (np_wait_for_write p)\<rparr>))"

subsection \<open>The pollers on it\<close>

text \<open>A callback for an event, with the calls of \<open>recv\<close> that the application makes from it.\<close>

type_synonym en_app = "poller_event \<Rightarrow> (nat \<times> int) list"

definition en_emit :: "en_app \<Rightarrow> poller_event \<Rightarrow> enet_world \<Rightarrow> enet_world result" where
  "en_emit app e w = foldr_res (\<lambda>(a, len) w. case es_recv a len w of (Inl f, w) \<Rightarrow> Inl f | (Inr bs, w) \<Rightarrow> Inr w) (app e) w"

text \<open>The dispatching of the queue: what is left of it, the callbacks, and the objects after them.\<close>

type_synonym en_out = "(poller_event list \<times> enet_event list \<times> enet_world) result"

definition en_seen :: "poller_event \<Rightarrow> en_out \<Rightarrow> en_out" where
  "en_seen e = mapr (\<lambda>(es, q, w). (e # es, q, w))"

fun en_dispatch_reader :: "en_app \<Rightarrow> enet_event list \<Rightarrow> enet_world \<Rightarrow> en_out" where
  "en_dispatch_reader app (EvReceive p data # q) w =
     (case ew_data w p of
        None \<Rightarrow> Inl Terminated
      | Some a \<Rightarrow>
          (case ew_objs w a of
             None \<Rightarrow> Inl Undefined
           | Some s \<Rightarrow>
               bindr (en_emit app (PeReadyRead p) (en_call (EnPacket p data) (en_put a (s\<lparr>es_inpb := es_inpb s @ data\<rparr>) w)))
                 (\<lambda>w. en_seen (PeReadyRead p) (en_dispatch_reader app q w))))"
| "en_dispatch_reader app (EvDisconnect p # q) w =
     bindr (en_emit app (PeDisconnected p) (w\<lparr>ew_data := (ew_data w)(p := None)\<rparr>))
       (\<lambda>w. en_seen (PeDisconnected p) (en_dispatch_reader app q w))"
| "en_dispatch_reader app q w = Inr ([], q, w)"



text \<open>\<open>poll\<close> of one of the pollers: the backend, then the dispatching.\<close>

definition en_poll ::
  "(enet_event list \<Rightarrow> enet_world \<Rightarrow> en_out) \<Rightarrow> ((socket_id \<Rightarrow> service_answer) \<times> (socket_id \<Rightarrow> service_answer)) list \<Rightarrow>
    enet_poller \<times> enet_world \<Rightarrow> (poller_event list \<times> int \<times> enet_poller \<times> enet_world) result" where
  "en_poll dispatch rounds = (\<lambda>(p, w).
     (case np_poll rounds p of (n, p) \<Rightarrow>
        if n < 0 then Inr ([], n, p, w)
        else mapr (\<lambda>(es, q, w). (es, int (length es), p\<lparr>np_events := q\<rparr>, w)) (dispatch (np_events p) w)))"

definition en_poll_writer ::
  "((socket_id \<Rightarrow> service_answer) \<times> (socket_id \<Rightarrow> service_answer)) list \<Rightarrow> enet_poller \<times> enet_world \<Rightarrow>
    poller_event list \<times> int \<times> enet_poller \<times> enet_world" where
  "en_poll_writer rounds = (\<lambda>(p, w).
     (case np_poll rounds p of (n, p) \<Rightarrow>
        if n < 0 then ([], n, p, w)
        else case np_check_can_write (ew_pending w) p of (es, k, p) \<Rightarrow> (es, k, p, w)))"

subsection \<open>The bytes of a connection\<close>

fun en_count :: "enet_log \<Rightarrow> (socket_id \<Rightarrow> bytes \<times> bytes) \<Rightarrow> socket_id \<Rightarrow> bytes \<times> bytes" where
  "en_count (EnOpen p left) h = h(p := (left, []))"
| "en_count (EnPacket p d) h = h(p := (fst (h p) @ d, snd (h p)))"
| "en_count (EnRead p d) h = h(p := (fst (h p), snd (h p) @ d))"
| "en_count _ h = h"

text \<open>The bytes of the packets that arrived for a peer since it got its socket, after those that were left in its buffer, and the bytes
  that were read.\<close>

definition en_hist :: "enet_world \<Rightarrow> socket_id \<Rightarrow> bytes \<times> bytes" where
  "en_hist w = fold en_count (ew_log w) (\<lambda>_. ([], []))"


definition objects_ok :: "(nat \<rightharpoonup> enet_socket) \<Rightarrow> (socket_id \<rightharpoonup> nat) \<Rightarrow> (socket_id \<Rightarrow> bytes \<times> bytes) \<Rightarrow> bool" where
  "objects_ok objs ptr h \<longleftrightarrow>
     (\<forall>a b s t p. objs a = Some s \<and> objs b = Some t \<and> es_peer s = Some p \<and> es_peer t = Some p \<longrightarrow> a = b) \<and>
     (\<forall>a s p. objs a = Some s \<and> es_peer s = Some p \<longrightarrow> snd (h p) @ es_inpb s = fst (h p)) \<and>
     (\<forall>p a. ptr p = Some a \<longrightarrow> (\<exists>s. objs a = Some s \<and>
       (es_peer s = Some p \<or> es_peer s = None \<and> (\<forall>b t. objs b = Some t \<longrightarrow> es_peer t \<noteq> Some p))))"

text \<open>What the application knows of the peers: \<open>G\<close> gives, for a peer that a socket object was given and that was not yet reported as
  disconnected or refused, the object. \<open>R\<close> are the peers that the library gave up: those of a host that was destroyed, and
  one that was reset. The library makes no event for them.\<close>

type_synonym en_known = "(socket_id \<rightharpoonup> nat) \<times> socket_id set"






text \<open>The invariant: the objects agree with the pointers of the peers that the library has not given up, and each such pointer is
  one the application knows of.\<close>

definition en_inv :: "enet_world \<Rightarrow> en_known \<Rightarrow> bool" where
  "en_inv w k \<longleftrightarrow> objects_ok (ew_objs w) (ew_data w |` (- snd k)) (en_hist w) \<and>
     (\<forall>p a. p \<notin> snd k \<longrightarrow> ew_data w p = Some a \<longrightarrow> fst k p = Some a)"




subsection \<open>Safe uses keep the invariant\<close>


lemma en_call_simps [simp]:
  "ew_objs (en_call c w) = ew_objs w" "ew_data (en_call c w) = ew_data w" "ew_pending (en_call c w) = ew_pending w"
  "ew_host (en_call c w) = ew_host w"
  by (simp_all add: en_call_def)

lemma en_put_simps [simp]:
  "ew_objs (en_put a s w) = (ew_objs w)(a \<mapsto> s)" "ew_data (en_put a s w) = ew_data w" "en_hist (en_put a s w) = en_hist w"
  by (simp_all add: en_put_def en_hist_def)

lemma en_point_simps [simp]:
  "ew_objs (en_point p a w) = ew_objs w" "en_hist (en_point p a w) = en_hist w"
  "ew_data (en_point None a w) = ew_data w" "ew_data (en_point (Some q) a w) = (ew_data w)(q \<mapsto> a)"
  by (simp_all add: en_point_def en_hist_def split: option.split)

text \<open>The invariant depends only on the objects, the pointers and the history.\<close>

lemma en_inv_cong:
  "ew_objs w' = ew_objs w \<Longrightarrow> ew_data w' = ew_data w \<Longrightarrow> en_hist w' = en_hist w \<Longrightarrow> en_inv w k \<Longrightarrow> en_inv w' k"
  by (simp add: en_inv_def)











lemma en_hist_with_objs [simp]: "en_hist (w\<lparr>ew_objs := o'\<rparr>) = en_hist w" "en_hist (w\<lparr>ew_data := d\<rparr>) = en_hist w"
  "en_hist (w\<lparr>ew_host := host, ew_pending := pending\<rparr>) = en_hist w"
  by (simp_all add: en_hist_def)

















subsection \<open>The dispatching\<close>


















text \<open>What the safe uses rule out. An accepted socket that is destroyed before its peer was reported as disconnected leaves the peer
  pointing to its buffer; a packet for a peer that
  got no socket ends the program; a packet that could not be made is used if the error is stored; a socket that is assigned
  over does not destroy its host.\<close>

lemma destroyed_buffer_used:
  "ew_objs w a = Some s \<Longrightarrow> ew_data w p = Some a \<Longrightarrow> en_dispatch_reader app [EvReceive p d] (snd (es_destroy a w)) = Inl Undefined"
  by (simp add: es_destroy_def en_with_def split: option.split)

lemma packet_for_no_socket: "ew_data w p = None \<Longrightarrow> en_dispatch_reader app (EvReceive p d # q) w = Inl Terminated"
  by simp

lemma null_packet_used:
  "ew_objs w a = Some s \<Longrightarrow> es_peer s = Some p \<Longrightarrow> \<not> ew_pending w p \<Longrightarrow> fst (es_send a d False rc True w) = Inl Undefined"
  by (simp add: es_send_def en_with_def)

lemma assigned_host_kept:
  assumes "ew_objs w a = Some s" and "es_host s = Some h" and "\<not> es_accepted s"
  shows "ew_log (snd (es_assign a b w)) = ew_log w"
  by (auto simp: es_assign_def en_with_def en_put_def en_point_def split: option.split)

text \<open>A connection that is refused, when the reader poller sees the event of the backend it shares first.\<close>

lemma refused_as_disconnected:
  "en_dispatch_reader (\<lambda>e. []) [EvDisconnect p] w = Inr ([PeDisconnected p], [], w\<lparr>ew_data := (ew_data w)(p := None)\<rparr>)"
  by (simp add: en_emit_def en_seen_def)

end
