(* ===== verification/UdtSockets.thy ===== *)
theory UdtSockets
  imports Sockets ClientServerPoller
begin

text \<open>
  Sockets, listeners and pollers over UDT (src/udt): \<open>udt_socket\<close>, \<open>udt_listener\<close>, the backend \<open>epoll_poller\<close> and the
  reader, writer, listener and connecting pollers on it.

  The library UDT (src/udt/newlib) answers by arguments: what a call returns, the code of the last error, and the state of a
  socket. Of its epoll only the sets of sockets that are registered matter: adding fails for a socket that does not exist,
  removing never does (\<open>CEPoll::remove_usock\<close>).
\<close>

subsection \<open>Calls of the library\<close>

datatype udt_option =
    UoReuseAddr bool | UoSndSyn bool | UoRcvSyn bool | UoMss int | UoSndBuf int | UoUdpRcvBuf int | UoExpMaxCounter int | UoExpThreshold u64

datatype udt_call =
    UcSocket
  | UcSetOption int udt_option
  | UcGetOptions int
  | UcClose int
  | UcConnect int socket4_addr
  | UcGetState int
  | UcRecv int int
  | UcSend int bytes
  | UcBind int socket4_addr
  | UcListen int int
  | UcAccept int

datatype udt_state = UsInit | UsOpened | UsListening | UsConnecting | UsConnected | UsBroken | UsClosing | UsClosed | UsNonexist

record udt_answer =
  ua_rc :: int
  ua_code :: int
  ua_state :: udt_state
  ua_data :: bytes
  ua_addr :: socket4_addr
  ua_inet :: bool
  ua_max_counter :: int
  ua_threshold :: u64

record udt_socket =
  us_sock :: int
  us_saddr :: socket4_addr
  us_calls :: "(udt_call \<times> int) list"
  us_answers :: "nat \<Rightarrow> udt_answer"

type_synonym 'a udt_act = "('a, udt_socket) act"

definition usys :: "udt_call \<Rightarrow> udt_answer udt_act" where
  "usys c s = (Inr (us_answers s 0),
     s\<lparr>us_calls := us_calls s @ [(c, ua_rc (us_answers s 0))], us_answers := \<lambda>k. us_answers s (Suc k)\<rparr>)"

definition u_throw_or :: "bool \<Rightarrow> errc \<Rightarrow> 'a \<Rightarrow> ('a \<times> errc option) udt_act" where
  "u_throw_or perr e x = (if perr then ret (x, Some e) else fails (Thrown e))"

definition udt_error :: int where "udt_error = -1"

subsection \<open>\<open>udt_socket\<close>\<close>

definition us_new :: "udt_socket \<Rightarrow> udt_socket" where
  "us_new s = s\<lparr>us_sock := udt_error, us_saddr := unset_addr\<rparr>"

text \<open>The chain of options: the next is set if the last one was.\<close>

fun us_set_options :: "int \<Rightarrow> udt_option list \<Rightarrow> bool udt_act" where
  "us_set_options sock [] = ret True"
| "us_set_options sock (opt # opts) =
     bnd (usys (UcSetOption sock opt)) (\<lambda>a. if ua_rc a = udt_error then ret False else us_set_options sock opts)"

text \<open>An error is thrown before the new socket is closed.\<close>

definition us_give_up :: "int \<Rightarrow> errc \<Rightarrow> bool \<Rightarrow> (unit \<times> errc option) udt_act" where
  "us_give_up sock e perr = bnd (u_throw_or perr e ()) (\<lambda>x. bnd (usys (UcClose sock)) (\<lambda>_. ret x))"

definition us_init :: "int \<Rightarrow> int \<Rightarrow> int \<Rightarrow> bool \<Rightarrow> (unit \<times> errc option) udt_act" where
  "us_init mtu exp_max_counter exp_threshold perr =
     bnd (usys UcSocket) (\<lambda>a.
       if ua_rc a = udt_error then u_throw_or perr Socket_error ()
       else
         (let sock = ua_rc a in
          bnd (us_set_options sock [UoReuseAddr True, UoSndSyn False, UoRcvSyn False, UoMss mtu, UoSndBuf 12288000, UoUdpRcvBuf 12288000]) (\<lambda>ok.
            if \<not> ok then us_give_up sock Socket_error perr
            else if exp_max_counter < 0 then us_give_up sock Invalid_argument perr
            else if exp_threshold < 0 then us_give_up sock Invalid_argument perr
            else bnd (us_set_options sock [UoExpMaxCounter exp_max_counter, UoExpThreshold (of_int exp_threshold * 1000)]) (\<lambda>ok.
              if \<not> ok then us_give_up sock Socket_error perr
              else (\<lambda>s. (Inr ((), None), s\<lparr>us_sock := sock\<rparr>))))))"

text \<open>The constructor of a socket with an MTU; the default of the counter is 2 and of the threshold 625 ms.\<close>

definition us_make :: "int \<Rightarrow> bool \<Rightarrow> (unit \<times> errc option) udt_act" where
  "us_make mtu perr s = us_init mtu 2 625 perr (us_new s)"

definition us_destroy :: "unit udt_act" where
  "us_destroy s =
     (if us_sock s \<ge> 0 then bnd (usys (UcClose (us_sock s))) (\<lambda>_ s. (Inr (), s\<lparr>us_sock := udt_error\<rparr>)) s else (Inr (), s))"

text \<open>The move assignment takes the socket and the address of the other object.\<close>

definition us_assign :: "int \<Rightarrow> socket4_addr \<Rightarrow> unit udt_act" where
  "us_assign sock saddr = bnd us_destroy (\<lambda>_ s. (Inr (), s\<lparr>us_sock := sock, us_saddr := saddr\<rparr>))"

definition us_valid :: "udt_socket \<Rightarrow> bool" where
  "us_valid s \<longleftrightarrow> us_sock s \<noteq> udt_error"

text \<open>Code 6002 is that no data is there.\<close>

definition us_recv :: "int \<Rightarrow> bool \<Rightarrow> ((int \<times> bytes) \<times> errc option) udt_act" where
  "us_recv len perr s =
     bnd (usys (UcRecv (us_sock s) len)) (\<lambda>a.
       if ua_rc a = udt_error then (if ua_code a = 6002 then ret ((0, []), None) else u_throw_or perr Socket_error (ua_rc a, []))
       else ret ((ua_rc a, ua_data a), None)) s"

definition us_send :: "bytes \<Rightarrow> send_result udt_act" where
  "us_send data s =
     bnd (usys (UcSend (us_sock s) data)) (\<lambda>a.
       if ua_rc a = udt_error then ret \<lparr>sr_status = SendFailure, sr_n = 0\<rparr>
       else ret \<lparr>sr_status = SendGood, sr_n = of_int (ua_rc a)\<rparr>) s"

definition us_connect :: "socket4_addr \<Rightarrow> bool \<Rightarrow> (conn_status \<times> errc option) udt_act" where
  "us_connect saddr perr s =
     bnd (usys (UcConnect (us_sock s) saddr)) (\<lambda>a.
       if ua_rc a = udt_error then u_throw_or perr Socket_error ConnFailure
       else
         bnd (\<lambda>s. (Inr (), s\<lparr>us_saddr := saddr\<rparr>)) (\<lambda>_.
         bnd (usys (UcGetState (us_sock s))) (\<lambda>b.
           if ua_state b = UsConnecting then ret (ConnConnecting, None)
           else if ua_state b = UsConnected then ret (ConnConnected, None)
           else u_throw_or perr Socket_error ConnFailure))) s"

definition us_disconnect :: "unit udt_act" where
  "us_disconnect s = bnd (usys (UcClose (us_sock s))) (\<lambda>_ s. (Inr (), s\<lparr>us_sock := udt_error\<rparr>)) s"

subsection \<open>\<open>udt_listener\<close>\<close>

text \<open>If \<open>bind\<close> throws, the socket, a base of the listener, is destroyed.\<close>

definition ul_new :: "socket4_addr \<Rightarrow> int \<Rightarrow> int \<Rightarrow> int \<Rightarrow> bool \<Rightarrow> (unit \<times> errc option) udt_act" where
  "ul_new saddr mtu exp_max_counter exp_threshold perr s =
     (case us_init mtu exp_max_counter exp_threshold perr (us_new s) of
        (Inl e, s) \<Rightarrow> (Inl e, s)
      | (Inr ((), err), s) \<Rightarrow>
          (case bnd (usys (UcBind (us_sock s) saddr)) (\<lambda>a.
             if ua_rc a = udt_error then u_throw_or perr Socket_error ()
             else (\<lambda>s. (Inr ((), err), s\<lparr>us_saddr := saddr\<rparr>))) s of
             (Inl e, s) \<Rightarrow> (Inl e, snd (us_destroy s))
           | r \<Rightarrow> r))"

definition ul_make :: "socket4_addr \<Rightarrow> bool \<Rightarrow> (unit \<times> errc option) udt_act" where
  "ul_make saddr perr = ul_new saddr 1500 2 625 perr"

definition ul_listen :: "int \<Rightarrow> bool \<Rightarrow> (bool \<times> errc option) udt_act" where
  "ul_listen backlog perr s =
     bnd (usys (UcListen (us_sock s) backlog)) (\<lambda>a. if ua_rc a = udt_error then u_throw_or perr Socket_error False else ret (True, None)) s"

text \<open>The socket that is accepted, with its address; it gets the expiration options of the listener. One of another family than
  IPv4 is not closed.\<close>

definition ul_accept_nonblocking :: "int \<Rightarrow> bool \<Rightarrow> ((int \<times> socket4_addr) option \<times> errc option) udt_act" where
  "ul_accept_nonblocking listener perr =
     bnd (usys (UcAccept listener)) (\<lambda>a.
       if ua_rc a > 0 then
         (if ua_inet a then
            bnd (usys (UcGetOptions listener)) (\<lambda>b.
            bnd (usys (UcSetOption (ua_rc a) (UoExpMaxCounter (ua_max_counter b)))) (\<lambda>_.
            bnd (usys (UcSetOption (ua_rc a) (UoExpThreshold (ua_threshold b)))) (\<lambda>_.
            bnd (usys (UcSetOption (ua_rc a) (UoMss 1500))) (\<lambda>_. ret (Some (ua_rc a, ua_addr a), None)))))
          else u_throw_or perr Socket_error None)
       else u_throw_or perr Socket_error None)"

subsection \<open>\<open>epoll_poller\<close>\<close>

text \<open>\<open>up_in\<close> and \<open>up_out\<close> are the sockets that the library has registered for the instance.\<close>

record udt_poller =
  up_in :: "socket_id set"
  up_out :: "socket_id set"
  up_counter :: int
  up_observe_read :: bool
  up_observe_write :: bool
  up_connecting :: "(socket_id \<times> time_point) list"

definition up_new :: "bool \<Rightarrow> bool \<Rightarrow> udt_poller" where
  "up_new oread owrite = \<lparr>up_in = {}, up_out = {}, up_counter = 0, up_observe_read = oread, up_observe_write = owrite, up_connecting = []\<rparr>"

text \<open>Whether the socket exists decides if it can be added. The last error is the one given.\<close>

definition up_add_socket :: "(socket_id \<Rightarrow> bool) \<Rightarrow> bool \<Rightarrow> socket_id \<Rightarrow> udt_poller \<Rightarrow> (errc option \<times> udt_poller) result" where
  "up_add_socket exists perr sock p =
     (if \<not> exists sock then (if perr then Inr (Some Poller_error, p) else Inl (Thrown Poller_error))
      else Inr (None, p\<lparr>up_in := (if up_observe_read p then insert sock (up_in p) else up_in p),
        up_out := (if up_observe_write p then insert sock (up_out p) else up_out p), up_counter := up_counter p + 1\<rparr>))"

text \<open>For listeners the place for an error is not passed on.\<close>

definition up_add_listener :: "(socket_id \<Rightarrow> bool) \<Rightarrow> bool \<Rightarrow> socket_id \<Rightarrow> udt_poller \<Rightarrow> (errc option \<times> udt_poller) result" where
  "up_add_listener exists perr sock p = up_add_socket exists False sock p"

definition up_wait_for_write :: "(socket_id \<Rightarrow> bool) \<Rightarrow> bool \<Rightarrow> socket_id \<Rightarrow> udt_poller \<Rightarrow> (errc option \<times> udt_poller) result" where
  "up_wait_for_write exists perr sock p = up_add_socket exists perr sock p"

definition up_remove_socket :: "bool \<Rightarrow> socket_id \<Rightarrow> udt_poller \<Rightarrow> (errc option \<times> udt_poller) result" where
  "up_remove_socket perr sock p =
     (if up_counter p = 0 then Inr (None, p)
      else
        (let p = p\<lparr>up_in := up_in p - {sock}, up_out := up_out p - {sock}, up_counter := up_counter p - 1\<rparr> in
         if up_counter p < 0 then (if perr then Inr (Some Poller_error, p) else Inl (Thrown Poller_error)) else Inr (None, p)))"

definition up_remove_listener :: "bool \<Rightarrow> socket_id \<Rightarrow> udt_poller \<Rightarrow> (errc option \<times> udt_poller) result" where
  "up_remove_listener perr sock p = up_remove_socket False sock p"

definition up_empty :: "udt_poller \<Rightarrow> bool" where
  "up_empty p \<longleftrightarrow> up_counter p = 0"

text \<open>What \<open>epoll_wait\<close> answers: a time-out, which is not an error, another failure, or the number of events and the ready
  sockets in ascending order.\<close>

datatype udt_wait = UwTimeout | UwFails | UwReady int "socket_id list"

definition up_poll :: "bool \<Rightarrow> udt_wait \<Rightarrow> (errc option \<times> int \<times> socket_id list) result" where
  "up_poll perr w =
     (case w of
        UwTimeout \<Rightarrow> Inr (None, 0, [])
      | UwFails \<Rightarrow> (if perr then Inr (Some Poller_error, -1, []) else Inl (Thrown Poller_error))
      | UwReady n socks \<Rightarrow> Inr (None, n, socks))"

subsection \<open>The pollers on it\<close>

definition ur_event :: "udt_state \<Rightarrow> socket_id \<Rightarrow> poller_event" where
  "ur_event st u =
     (if st = UsConnected \<or> st = UsOpened then PeReadyRead u
      else if st = UsBroken \<or> st = UsClosed then PeDisconnected u
      else PeFailure u Socket_error)"

text \<open>A poll: the error, the callbacks and the number it returns.\<close>

definition ur_poll :: "bool \<Rightarrow> udt_wait \<Rightarrow> (socket_id \<Rightarrow> udt_state) \<Rightarrow> (errc option \<times> poller_event list \<times> int) result" where
  "ur_poll perr w states =
     mapr (\<lambda>(e, n, socks).
       if n < 0 then (e, [], n)
       else if n > 0 then (e, map (\<lambda>u. ur_event (states u) u) socks, int (length (filter (\<lambda>u. states u = UsConnected \<or> states u = UsOpened) socks)))
       else (e, [], 0)) (up_poll perr w)"

definition uw_poll :: "bool \<Rightarrow> udt_wait \<Rightarrow> (errc option \<times> poller_event list \<times> int) result" where
  "uw_poll perr w =
     mapr (\<lambda>(e, n, socks). if n < 0 then (e, [], n) else if n > 0 then (e, map PeCanWrite socks, int (length socks)) else (e, [], 0)) (up_poll perr w)"

text \<open>The listener poller returns the number of events.\<close>

definition ull_poll :: "bool \<Rightarrow> udt_wait \<Rightarrow> (errc option \<times> poller_event list \<times> int) result" where
  "ull_poll perr w = mapr (\<lambda>(e, n, socks). (e, if n > 0 then map PeAccept socks else [], n)) (up_poll perr w)"

text \<open>The connecting poller: \<open>state\<close> is the state of the socket that is added, \<open>threshold\<close> its expiration time in microseconds
  if the library tells it, \<open>now\<close> the reading of the clock.\<close>

definition uc_add ::
  "(socket_id \<Rightarrow> bool) \<Rightarrow> bool \<Rightarrow> udt_state \<Rightarrow> u64 option \<Rightarrow> time_point \<Rightarrow> socket_id \<Rightarrow> udt_poller \<Rightarrow> (errc option \<times> udt_poller) result" where
  "uc_add exists perr st threshold now sock p =
     bindr (up_add_socket exists True sock p) (\<lambda>(err, p).
       case err of
         Some e \<Rightarrow> (if perr then Inr (Some e, p) else Inl (Thrown e))
       | None \<Rightarrow>
           (if st \<noteq> UsConnecting then Inr (None, p)
            else case threshold of
              None \<Rightarrow> (if perr then Inr (Some Poller_error, p) else Inl (Thrown Poller_error))
            | Some t \<Rightarrow>
                Inr (None, if sock \<in> fst ` set (up_connecting p) then p
                           else p\<lparr>up_connecting := om_update sock (now + int (unat (t div 1000)) * 1000000) (up_connecting p)\<rparr>)))"

text \<open>The loop over the sockets that are being connected; the clock is read for each.\<close>

fun uc_expire :: "(nat \<Rightarrow> time_point) \<Rightarrow> (socket_id \<times> time_point) list \<Rightarrow> poller_event list \<times> (socket_id \<times> time_point) list" where
  "uc_expire clock [] = ([], [])"
| "uc_expire clock ((u, t) # ps) =
     (case uc_expire (\<lambda>k. clock (Suc k)) ps of
        (es, qs) \<Rightarrow> if t < clock 0 then (PeRefused u RefusedOther # es, qs) else (es, (u, t) # qs))"

definition uc_poll :: "bool \<Rightarrow> udt_wait \<Rightarrow> (nat \<Rightarrow> time_point) \<Rightarrow> udt_poller \<Rightarrow> (errc option \<times> poller_event list \<times> int \<times> udt_poller) result" where
  "uc_poll perr w clock p =
     mapr (\<lambda>(e, n, socks).
       if n < 0 then (e, [], n, p)
       else
         (let socks = (if n > 0 then socks else []) in
          case uc_expire clock (delete_all socks (up_connecting p)) of
            (es, rest) \<Rightarrow> (e, map PeConnected socks @ es, int (length socks), p\<lparr>up_connecting := rest\<rparr>))) (up_poll perr w)"

subsection \<open>Sockets are closed\<close>

text \<open>The sockets that the library made and those that were closed, as in theory \<open>Sockets\<close>.\<close>

fun u_opened :: "udt_call \<times> int \<Rightarrow> int multiset" where
  "u_opened (UcSocket, rc) = (if rc \<ge> 0 then {#rc#} else {#})"
| "u_opened _ = {#}"

fun u_closed :: "udt_call \<times> int \<Rightarrow> int multiset" where
  "u_closed (UcClose sock, rc) = (if sock \<ge> 0 then {#sock#} else {#})"
| "u_closed _ = {#}"

definition us_opened :: "udt_socket \<Rightarrow> int multiset" where
  "us_opened s = sum_list (map u_opened (us_calls s))"

definition us_closed :: "udt_socket \<Rightarrow> int multiset" where
  "us_closed s = sum_list (map u_closed (us_calls s))"

definition us_balanced :: "udt_socket \<Rightarrow> bool" where
  "us_balanced s \<longleftrightarrow> us_opened s = us_closed s + (if us_sock s \<ge> 0 then {#us_sock s#} else {#})"

text \<open>The uses of a socket after it was made.\<close>

datatype udt_use = UuRecv int bool | UuSend bytes | UuConnect socket4_addr bool | UuDisconnect | UuListen int bool

fun us_use :: "udt_use \<Rightarrow> udt_socket \<Rightarrow> udt_socket" where
  "us_use (UuRecv len perr) s = snd (us_recv len perr s)"
| "us_use (UuSend data) s = snd (us_send data s)"
| "us_use (UuConnect saddr perr) s = snd (us_connect saddr perr s)"
| "us_use UuDisconnect s = snd (us_disconnect s)"
| "us_use (UuListen backlog perr) s = snd (ul_listen backlog perr s)"

lemma us_calls_simps [simp]:
  "us_opened (s\<lparr>us_calls := us_calls s @ [c], us_answers := f\<rparr>) = us_opened s + u_opened c"
  "us_closed (s\<lparr>us_calls := us_calls s @ [c], us_answers := f\<rparr>) = us_closed s + u_closed c"
  "us_opened (s\<lparr>us_sock := n\<rparr>) = us_opened s" "us_closed (s\<lparr>us_sock := n\<rparr>) = us_closed s"
  "us_opened (s\<lparr>us_saddr := a\<rparr>) = us_opened s" "us_closed (s\<lparr>us_saddr := a\<rparr>) = us_closed s"
  by (simp_all add: us_opened_def us_closed_def)

lemma us_use_balanced: "us_balanced s \<Longrightarrow> us_balanced (us_use u s)"
  by (cases u) (auto simp: us_recv_def us_send_def us_connect_def us_disconnect_def ul_listen_def usys_def bnd_def u_throw_or_def
    us_balanced_def us_opened_def us_closed_def udt_error_def Let_def split: if_splits)

lemma us_destroy_closes: "us_balanced s \<Longrightarrow> us_opened (snd (us_destroy s)) = us_closed (snd (us_destroy s))"
  by (auto simp: us_destroy_def usys_def bnd_def us_balanced_def udt_error_def Let_def)

text \<open>Setting options changes neither the socket nor what is open.\<close>

lemma us_set_options_same:
  "us_opened (snd (us_set_options sock opts s)) = us_opened s \<and> us_closed (snd (us_set_options sock opts s)) = us_closed s \<and>
   us_sock (snd (us_set_options sock opts s)) = us_sock s \<and> (\<exists>ok. fst (us_set_options sock opts s) = Inr ok)"
proof (induction opts arbitrary: s)
  case (Cons opt opts)
  let ?s = "snd (usys (UcSetOption sock opt) s)"
  have "us_opened ?s = us_opened s" "us_closed ?s = us_closed s" "us_sock ?s = us_sock s" by (simp_all add: usys_def)
  with Cons.IH [of ?s] show ?case by (cases "ua_rc (us_answers s 0) = udt_error") (auto simp: usys_def bnd_def)
qed (simp, blast)

declare us_set_options.simps [simp del]

lemma us_options_cases:
  obtains ok t where "us_set_options sock opts s = (Inr ok, t)" "us_opened t = us_opened s" "us_closed t = us_closed s" "us_sock t = us_sock s"
  using us_set_options_same [of sock opts s] by (metis prod.collapse)

lemma us_give_up_balanced:
  assumes "us_give_up sock e True s = (Inr x, t)" and "us_sock s < 0" and "us_opened s = us_closed s + (if sock \<ge> 0 then {#sock#} else {#})"
  shows "us_balanced t"
  using assms by (auto simp: us_give_up_def u_throw_or_def usys_def bnd_def us_balanced_def)

lemma us_init_balanced:
  assumes "us_init mtu c th True s = (Inr x, t)" and "us_opened s = us_closed s" and "us_sock s < 0"
  shows "us_balanced t"
proof -
  let ?a = "us_answers s 0"
  obtain s1 where s1: "usys UcSocket s = (Inr ?a, s1)" "us_opened s1 = us_closed s1 + (if ua_rc ?a \<ge> 0 then {#ua_rc ?a#} else {#})" "us_sock s1 < 0"
    using assms(2,3) by (simp add: usys_def)
  show ?thesis
  proof (cases "ua_rc ?a = udt_error")
    case True
    with assms(1) s1 show ?thesis by (auto simp: us_init_def u_throw_or_def us_balanced_def udt_error_def)
  next
    case False
    obtain ok s2 where s2: "us_set_options (ua_rc ?a) [UoReuseAddr True, UoSndSyn False, UoRcvSyn False, UoMss mtu, UoSndBuf 12288000, UoUdpRcvBuf 12288000] s1 = (Inr ok, s2)"
      "us_opened s2 = us_opened s1" "us_closed s2 = us_closed s1" "us_sock s2 = us_sock s1" by (rule us_options_cases)
    obtain ok' s3 where s3: "us_set_options (ua_rc ?a) [UoExpMaxCounter c, UoExpThreshold (of_int th * 1000)] s2 = (Inr ok', s3)"
      "us_opened s3 = us_opened s2" "us_closed s3 = us_closed s2" "us_sock s3 = us_sock s2" by (rule us_options_cases)
    show ?thesis
    proof (cases "ok \<and> \<not> c < 0 \<and> \<not> th < 0 \<and> ok'")
      case True
      with assms(1) s1 s2 s3 False show ?thesis by (auto simp: us_init_def us_balanced_def Let_def)
    next
      case fails: False
      then obtain e u where g: "us_give_up (ua_rc ?a) e True u = (Inr x, t)" and u: "u = s2 \<or> u = s3"
        using assms(1) s1(1) s2(1) s3(1) False by (auto simp: us_init_def Let_def split: if_splits)
      from u s1 s2 s3 show ?thesis by (intro us_give_up_balanced [OF g]) auto
    qed
  qed
qed

text \<open>C29. A UDT socket that was made with a place for errors has closed, once it is destroyed, exactly the sockets that the
  library made for it, whatever the library answers and however it is used in between.\<close>

theorem udt_socket_closes:
  assumes "us_make mtu True s = (Inr x, t)" and "us_opened s = us_closed s"
  shows "us_opened (snd (us_destroy (fold us_use uses t))) = us_closed (snd (us_destroy (fold us_use uses t)))"
proof -
  have "us_opened (us_new s) = us_closed (us_new s)" "us_sock (us_new s) < 0"
    using assms(2) by (simp_all add: us_new_def us_opened_def us_closed_def udt_error_def)
  with assms(1) have "us_balanced t" unfolding us_make_def by (rule us_init_balanced)
  then have "us_balanced (fold us_use uses t)" by (induction uses arbitrary: t) (simp_all add: us_use_balanced)
  then show ?thesis by (rule us_destroy_closes)
qed

text \<open>A library that makes socket 5, and refuses the counter (the ninth call).\<close>

definition udt_library :: "int \<Rightarrow> nat \<Rightarrow> udt_answer" where
  "udt_library rc k = \<lparr>ua_rc = (if k = 0 then 5 else if k = 7 then rc else 0), ua_code = 0, ua_state = UsConnected, ua_data = [],
     ua_addr = unset_addr, ua_inet = True, ua_max_counter = 0, ua_threshold = 0\<rparr>"

definition udt_blank :: "int \<Rightarrow> udt_socket" where
  "udt_blank rc = \<lparr>us_sock = udt_error, us_saddr = unset_addr, us_calls = [], us_answers = udt_library rc\<rparr>"

lemmas us_eval = us_set_options.simps us_make_def us_init_def us_new_def usys_def bnd_def u_throw_or_def us_give_up_def udt_blank_def udt_library_def udt_error_def Let_def

theorem udt_socket_closes_witness:
  "us_closed (snd (us_destroy (fold us_use [UuConnect unset_addr True, UuSend [1]] (snd (us_make 1500 True (udt_blank 0)))))) = {#5#}"
proof -
  have m: "us_make 1500 True (udt_blank 0) = (Inr ((), None), snd (us_make 1500 True (udt_blank 0)))"
    by (simp add: us_eval)
  have o: "us_opened (udt_blank 0) = us_closed (udt_blank 0)" by (simp add: us_opened_def us_closed_def udt_blank_def)
  from udt_socket_closes [OF m o, of "[UuConnect unset_addr True, UuSend [1]]", symmetric] show ?thesis
    by (simp add: us_eval us_connect_def us_send_def us_destroy_def us_opened_def)
qed

text \<open>If an option cannot be set and the error is thrown, the socket is not closed; a full buffer is a failure of the send; a
  connection of another family is not closed.\<close>

lemma option_failure_leaks:
  "fst (us_make 1500 False (udt_blank (-1))) = Inl (Thrown Socket_error) \<and>
   us_opened (snd (us_make 1500 False (udt_blank (-1)))) = {#5#} \<and> us_closed (snd (us_make 1500 False (udt_blank (-1)))) = {#}"
  by (simp add: us_eval us_opened_def us_closed_def)

lemma full_buffer_fails:
  "ua_rc (us_answers s 0) = -1 \<Longrightarrow> ua_code (us_answers s 0) = 6001 \<Longrightarrow> fst (us_send data s) = Inr \<lparr>sr_status = SendFailure, sr_n = 0\<rparr>"
  by (simp add: us_send_def usys_def bnd_def udt_error_def)

lemma accepted_family_leaks:
  assumes "ua_rc (us_answers s 0) = 7" and "\<not> ua_inet (us_answers s 0)"
  shows "us_calls (snd (ul_accept_nonblocking l True s)) = us_calls s @ [(UcAccept l, 7)]" "fst (ul_accept_nonblocking l True s) = Inr (None, Some Socket_error)"
  using assms by (simp_all add: ul_accept_nonblocking_def usys_def bnd_def u_throw_or_def)

subsection \<open>The counter of the backend\<close>

text \<open>As the pools use it, without a place for errors.\<close>

definition up_add :: "socket_id \<Rightarrow> udt_poller \<Rightarrow> udt_poller result" where
  "up_add sock p = mapr snd (up_add_socket (\<lambda>_. True) False sock p)"

definition up_remove :: "socket_id \<Rightarrow> udt_poller \<Rightarrow> udt_poller result" where
  "up_remove sock p = mapr snd (up_remove_socket False sock p)"

definition up_members :: "udt_poller \<Rightarrow> socket_id set" where
  "up_members p = up_in p \<union> up_out p"

text \<open>As long as only sockets that are not observed are added and only observed ones are removed, the counter is the number of the
  sockets that are observed.\<close>

definition up_counts :: "udt_poller \<Rightarrow> bool" where
  "up_counts p \<longleftrightarrow> finite (up_members p) \<and> up_counter p = int (card (up_members p)) \<and>
     (up_observe_read p \<or> up_observe_write p) \<and> (\<not> up_observe_read p \<longrightarrow> up_in p = {}) \<and> (\<not> up_observe_write p \<longrightarrow> up_out p = {}) \<and>
     (up_observe_read p \<and> up_observe_write p \<longrightarrow> up_in p = up_out p)"

lemma up_members_simps:
  "up_members (p\<lparr>up_in := a, up_out := b, up_counter := n\<rparr>) = a \<union> b"
  by (simp add: up_members_def)

lemma up_add_counts:
  assumes "up_counts p" and "sock \<notin> up_members p"
  shows "\<exists>q. up_add sock p = Inr q \<and> up_counts q \<and> up_members q = insert sock (up_members p)"
proof -
  let ?q = "p\<lparr>up_in := (if up_observe_read p then insert sock (up_in p) else up_in p),
        up_out := (if up_observe_write p then insert sock (up_out p) else up_out p), up_counter := up_counter p + 1\<rparr>"
  have m: "up_members ?q = insert sock (up_members p)"
    using assms(1) by (auto simp: up_members_def up_counts_def)
  with assms have "up_counts ?q" by (auto simp: up_counts_def)
  with m show ?thesis by (simp add: up_add_def up_add_socket_def)
qed

lemma up_remove_counts:
  assumes "up_counts p" and "sock \<in> up_members p"
  shows "\<exists>q. up_remove sock p = Inr q \<and> up_counts q \<and> up_members q = up_members p - {sock}"
proof -
  let ?q = "p\<lparr>up_in := up_in p - {sock}, up_out := up_out p - {sock}, up_counter := up_counter p - 1\<rparr>"
  have m: "up_members ?q = up_members p - {sock}" by (auto simp: up_members_def)
  have c: "0 < card (up_members p)" using assms by (auto simp: up_counts_def card_gt_0_iff)
  with m assms have "up_counts ?q" by (auto simp: up_counts_def card_Diff_singleton of_nat_diff)
  with m c assms(1) show ?thesis by (simp add: up_remove_def up_remove_socket_def up_counts_def)
qed

text \<open>Uses of this kind: an addition (\<open>True\<close>) or a removal.\<close>

fun up_run :: "(bool \<times> socket_id) list \<Rightarrow> udt_poller \<Rightarrow> udt_poller result" where
  "up_run [] p = Inr p"
| "up_run ((add, sock) # us) p = bindr (if add then up_add sock p else up_remove sock p) (up_run us)"

fun up_disciplined :: "(bool \<times> socket_id) list \<Rightarrow> socket_id set \<Rightarrow> bool" where
  "up_disciplined [] m \<longleftrightarrow> True"
| "up_disciplined ((add, sock) # us) m \<longleftrightarrow>
     (if add then sock \<notin> m \<and> up_disciplined us (insert sock m) else sock \<in> m \<and> up_disciplined us (m - {sock}))"

lemma up_run_counts:
  "up_counts p \<Longrightarrow> up_disciplined us (up_members p) \<Longrightarrow> \<exists>q. up_run us p = Inr q \<and> up_counts q"
proof (induction us arbitrary: p)
  case (Cons u us)
  obtain add sock where u: "u = (add, sock)" by fastforce
  show ?case
  proof (cases add)
    case True
    with Cons.prems u up_add_counts [of p sock] obtain q where "up_add sock p = Inr q" "up_counts q" "up_members q = insert sock (up_members p)" by auto
    with Cons.IH [of q] Cons.prems(2) True u show ?thesis by simp
  next
    case False
    with Cons.prems u up_remove_counts [of p sock] obtain q where "up_remove sock p = Inr q" "up_counts q" "up_members q = up_members p - {sock}" by auto
    with Cons.IH [of q] Cons.prems(2) False u show ?thesis by simp
  qed
qed simp

lemma udt_counter:
  assumes "up_disciplined us {}" and "oread \<or> owrite"
  shows "\<exists>q. up_run us (up_new oread owrite) = Inr q \<and> up_counter q = int (card (up_members q)) \<and> (up_empty q \<longleftrightarrow> up_members q = {})"
proof -
  have "up_counts (up_new oread owrite)" "up_members (up_new oread owrite) = {}"
    using assms(2) by (simp_all add: up_counts_def up_members_def up_new_def)
  from up_run_counts [OF this(1)] this(2) assms(1) obtain q where "up_run us (up_new oread owrite) = Inr q" "up_counts q" by auto
  then show ?thesis by (auto simp: up_counts_def up_empty_def)
qed

text \<open>But \<open>client_poller\<close> and \<open>server_poller\<close> remove a socket from all their pollers, and the library removes a socket that it does
  not know without an error. After the removal of a socket that was not observed the poller is empty while it observes another,
  which is then not polled any more: the backend does not keep the contract of theory \<open>Pollers\<close>.\<close>

lemma udt_counter_drifts: "up_run [(True, 1), (True, 2), (False, 3), (False, 1)] (up_new True False) = Inr q \<Longrightarrow> up_empty q \<and> up_members q = {2}"
  by (auto simp: up_add_def up_remove_def up_add_socket_def up_remove_socket_def up_new_def up_empty_def up_members_def)

lemma udt_breaks_contract:
  assumes "ok (up_new True False)"
  shows "\<not> poller_backend up_add up_remove up_empty ok up_members"
proof
  assume "poller_backend up_add up_remove up_empty ok up_members"
  then have laws: "\<And>p x q. ok p \<Longrightarrow> up_add x p = Inr q \<Longrightarrow> ok q" "\<And>p x q. ok p \<Longrightarrow> up_remove x p = Inr q \<Longrightarrow> ok q"
    "\<And>p. ok p \<Longrightarrow> up_empty p \<Longrightarrow> up_members p = {}"
    unfolding poller_backend_def by blast+
  let ?us = "[(True, 1), (True, 2), (False, 3), (False, 1)]"
  have run: "ok p \<Longrightarrow> up_run us p = Inr q \<Longrightarrow> ok q" for us p q
  proof (induction us arbitrary: p)
    case (Cons u us)
    obtain add sock where u: "u = (add, sock)" by fastforce
    with Cons.prems(2) obtain p' where p': "(if add then up_add sock p else up_remove sock p) = Inr p'" "up_run us p' = Inr q" by auto
    have "ok p'"
    proof (cases add)
      case True
      with p'(1) have "up_add sock p = Inr p'" by simp
      then show ?thesis by (rule laws(1) [OF Cons.prems(1)])
    next
      case False
      with p'(1) have "up_remove sock p = Inr p'" by simp
      then show ?thesis by (rule laws(2) [OF Cons.prems(1)])
    qed
    then show ?case by (rule Cons.IH [OF _ p'(2)])
  qed simp
  obtain q where q: "up_run ?us (up_new True False) = Inr q"
    by (simp add: up_add_def up_remove_def up_add_socket_def up_remove_socket_def up_new_def)
  from udt_counter_drifts [OF q] laws(3) [OF run [OF assms q]] show False by simp
qed

text \<open>The connecting poller reports a socket as connected whatever its state, and the time-out of a socket that was removed.\<close>

lemma connected_in_any_state: "uc_poll perr (UwReady 1 [u]) clock p = Inr (e, es, n, q) \<Longrightarrow> PeConnected u \<in> set es"
  by (auto simp: uc_poll_def up_poll_def Let_def split: prod.splits)

lemma removed_still_refused:
  assumes "up_connecting p = [(u, t)]" and "t < clock 0" and "0 < up_counter p"
  shows "\<exists>q. up_remove u p = Inr q \<and> uc_poll False UwTimeout clock q = Inr (None, [PeRefused u RefusedOther], 0, q\<lparr>up_connecting := []\<rparr>)"
  using assms by (simp add: up_remove_def up_remove_socket_def uc_poll_def up_poll_def Let_def)

end
