(* ===== verification/Netlink.thy ===== *)
theory Netlink
  imports Streams Inet4Addr
begin

text \<open>
  The Linux monitor of network interfaces (src/utils/netlink_monitor_linux.cpp, include/pfs/netty/utils/netlink_monitor.hpp)
  and its socket (src/utils/netlink_socket.cpp), as they are built without \<open>libmnl\<close>.

  A datagram is the bytes that \<open>recv\<close> stored. What the code reads by a pointer into it is read at an offset, and reading
  past the bytes received is undefined. Numbers are in the byte order of the machine, which is an argument: \<open>be\<close> is true if
  the most significant byte is first. Callbacks are recorded; one that is not set does nothing.
\<close>

subsection \<open>Reading a datagram\<close>

definition native_order :: "bool \<Rightarrow> bytes \<Rightarrow> bytes" where
  "native_order be bs = (if be then bs else rev bs)"

definition nl_read :: "bytes \<Rightarrow> nat \<Rightarrow> nat \<Rightarrow> bytes result" where
  "nl_read buf off n = (if off + n \<le> length buf then Inr (take n (drop off buf)) else Inl Undefined)"

definition nl_value :: "bool \<Rightarrow> bytes \<Rightarrow> nat \<Rightarrow> nat \<Rightarrow> nat result" where
  "nl_value be buf off n = mapr (\<lambda>bs. unat (be_value (native_order be bs))) (nl_read buf off n)"

text \<open>\<open>NLMSG_ALIGN\<close> and \<open>NLA_ALIGN\<close>. The lengths they are applied to are at most that of a datagram.\<close>

definition nl_align :: "nat \<Rightarrow> nat" where
  "nl_align n = (n + 3) div 4 * 4"

definition nlmsghdr_size :: nat where "nlmsghdr_size = 16"
definition nlattr_size :: nat where "nlattr_size = 4"
definition ifaddrmsg_size :: nat where "ifaddrmsg_size = 8"
definition ifinfomsg_size :: nat where "ifinfomsg_size = 16"
definition nlmsgerr_size :: nat where "nlmsgerr_size = 20"

definition rtm_newlink :: nat where "rtm_newlink = 16"
definition rtm_dellink :: nat where "rtm_dellink = 17"
definition rtm_newaddr :: nat where "rtm_newaddr = 20"
definition rtm_deladdr :: nat where "rtm_deladdr = 21"
definition ifa_address :: nat where "ifa_address = 1"
definition ifla_ifname :: nat where "ifla_ifname = 3"
definition ifla_mtu :: nat where "ifla_mtu = 4"
definition af_inet :: nat where "af_inet = 2"

lemmas nl_consts = nlmsghdr_size_def nlattr_size_def ifaddrmsg_size_def ifinfomsg_size_def nlmsgerr_size_def
  rtm_newlink_def rtm_dellink_def rtm_newaddr_def rtm_deladdr_def ifa_address_def ifla_ifname_def ifla_mtu_def af_inet_def

subsection \<open>Attributes\<close>

lemma bindr_cong [fundef_cong]: "m = m' \<Longrightarrow> (\<And>x. m' = Inr x \<Longrightarrow> f x = g x) \<Longrightarrow> bindr m f = bindr m' g"
  by (cases m') auto

text \<open>The loop over the attributes from \<open>attr\<close> to \<open>tail\<close>. The room that is left is compared as an unsigned number with the
  size of the header of an attribute, so a negative one passes, and as a signed number with the length of the attribute.\<close>

function foreach_attr :: "bool \<Rightarrow> bytes \<Rightarrow> nat \<Rightarrow> (nat \<Rightarrow> nat \<Rightarrow> 's \<Rightarrow> 's result) \<Rightarrow> nat \<Rightarrow> 's \<Rightarrow> 's result" where
  "foreach_attr be buf tail visit attr s =
     (let room = int tail - int attr in
      if 0 \<le> room \<and> room < int nlattr_size then Inr s
      else bindr (nl_value be buf attr 2) (\<lambda>n.
        if n < nlattr_size \<or> int n > room then Inr s
        else bindr (visit attr n s) (foreach_attr be buf tail visit (attr + nl_align n))))"
  by pat_completeness auto

termination by (relation "measure (\<lambda>(be, buf, tail, visit, attr, s). tail - attr)") (auto simp: nl_align_def nl_consts)

declare foreach_attr.simps [simp del]

text \<open>The two bits above \<open>NLA_TYPE_MASK\<close> are flags.\<close>

definition attr_type :: "bool \<Rightarrow> bytes \<Rightarrow> nat \<Rightarrow> nat result" where
  "attr_type be buf attr = mapr (\<lambda>t. t mod 2 ^ 14) (nl_value be buf (attr + 2) 2)"

record netlink_attributes =
  na_iface_name :: bytes
  na_mtu :: "u32 option"
  na_up :: bool

datatype nl_event =
    NlAddrAdded inet4_addr u32
  | NlAddrRemoved inet4_addr u32
  | NlAttrs netlink_attributes
  | NlFailure

text \<open>The visitor of \<open>RTM_NEWADDR\<close> and \<open>RTM_DELADDR\<close>, for the message at \<open>off\<close>.\<close>

definition visit_addr :: "bool \<Rightarrow> bytes \<Rightarrow> nat \<Rightarrow> nat \<Rightarrow> nat \<Rightarrow> nat \<Rightarrow> nl_event list \<Rightarrow> nl_event list result" where
  "visit_addr be buf off ty attr n es =
     bindr (attr_type be buf attr) (\<lambda>t.
       if t \<noteq> ifa_address then Inr es
       else bindr (nl_value be buf (off + nlmsghdr_size) 1) (\<lambda>family.
         if family \<noteq> af_inet then Inr es
         else bindr (nl_read buf (attr + nlattr_size) 4) (\<lambda>ip.
           bindr (nl_value be buf (off + nlmsghdr_size + 4) 4) (\<lambda>index.
             Inr (es @ [(if ty = rtm_newaddr then NlAddrAdded else NlAddrRemoved) (Inet4 (ucast (be_value ip))) (of_nat index)])))))"

definition visit_link :: "bool \<Rightarrow> bytes \<Rightarrow> nat \<Rightarrow> nat \<Rightarrow> netlink_attributes \<Rightarrow> netlink_attributes result" where
  "visit_link be buf attr n attrs =
     bindr (attr_type be buf attr) (\<lambda>t.
       if t = ifla_mtu then mapr (\<lambda>v. attrs\<lparr>na_mtu := Some (of_nat v)\<rparr>) (nl_value be buf (attr + nlattr_size) 4)
       else if t = ifla_ifname then mapr (\<lambda>v. attrs\<lparr>na_iface_name := v\<rparr>) (nl_read buf (attr + nlattr_size) (n - nlattr_size))
       else Inr attrs)"

subsection \<open>Messages\<close>

datatype callback_result = NlError | NlStop | NlOk

text \<open>The message at \<open>off\<close> has length \<open>m\<close> and type \<open>ty\<close>. The attributes of a link have no MTU until one is read.\<close>

definition parser_callback :: "bool \<Rightarrow> bytes \<Rightarrow> nat \<Rightarrow> nat \<Rightarrow> nat \<Rightarrow> (callback_result \<times> nl_event list) result" where
  "parser_callback be buf off m ty =
     (if ty = rtm_newaddr \<or> ty = rtm_deladdr then
        mapr (Pair NlOk) (foreach_attr be buf (off + nl_align m) (visit_addr be buf off ty)
          (off + nlmsghdr_size + nl_align ifaddrmsg_size) [])
      else if ty = rtm_newlink \<or> ty = rtm_dellink then
        bindr (nl_value be buf (off + nlmsghdr_size + 8) 4) (\<lambda>flags.
          mapr (\<lambda>attrs. (NlOk, [NlAttrs attrs]))
            (foreach_attr be buf (off + nl_align m) (visit_link be buf) (off + nlmsghdr_size + nl_align ifinfomsg_size)
              \<lparr>na_iface_name = [], na_mtu = None, na_up = odd flags\<rparr>))
      else Inr (NlOk, []))"

text \<open>The messages of the protocol itself: an error or an acknowledgement, and the end of a dump.\<close>

definition control_message :: "bool \<Rightarrow> bytes \<Rightarrow> nat \<Rightarrow> nat \<Rightarrow> nat \<Rightarrow> callback_result result" where
  "control_message be buf off m ty =
     (if ty = 2 then
        (if m < nlmsgerr_size + nlmsghdr_size then Inr NlError
         else mapr (\<lambda>e. if e = 0 then NlStop else NlError) (nl_value be buf (off + nlmsghdr_size) 4))
      else if ty = 3 then Inr NlStop
      else Inr NlOk)"

lemma nl_value_room: "nl_value be buf off n = Inr v \<Longrightarrow> off + n \<le> length buf"
  by (auto simp: nl_value_def nl_read_def split: if_splits)

text \<open>\<open>parse\<close>: \<open>len\<close> is the unsigned number of bytes that are left, from which \<open>NLMSG_NEXT\<close> takes the aligned length of the
  message. A set bit 4 of the flags is \<open>NLM_F_DUMP_INTR\<close>.\<close>

function nl_parse_from :: "bool \<Rightarrow> bytes \<Rightarrow> nat \<Rightarrow> u64 \<Rightarrow> (callback_result \<times> nl_event list) result" where
  "nl_parse_from be buf off len =
     (if unat len < nlmsghdr_size then Inr (NlOk, [])
      else bindr (nl_value be buf off 4) (\<lambda>m.
        if m < nlmsghdr_size \<or> m > unat len then Inr (NlOk, [])
        else bindr (nl_value be buf (off + 6) 2) (\<lambda>flags.
          if odd (flags div 16) then Inr (NlError, [])
          else bindr (nl_value be buf (off + 4) 2) (\<lambda>ty.
            bindr (if ty \<ge> 16 then parser_callback be buf off m ty else mapr (\<lambda>r. (r, [])) (control_message be buf off m ty)) (\<lambda>(r, es).
              if r \<noteq> NlOk then Inr (r, es)
              else mapr (\<lambda>(r, es'). (r, es @ es')) (nl_parse_from be buf (off + nl_align m) (len - of_nat (nl_align m))))))))"
  by pat_completeness auto

termination
  by (relation "measure (\<lambda>(be, buf, off, len). length buf - off)") (auto simp: nl_align_def nl_consts dest!: nl_value_room)

declare nl_parse_from.simps [simp del]

definition nl_parse :: "bool \<Rightarrow> bytes \<Rightarrow> (callback_result \<times> nl_event list) result" where
  "nl_parse be buf = nl_parse_from be buf 0 (of_nat (length buf))"

subsection \<open>Polling\<close>

text \<open>How the reading of the socket ends: at the end of the stream, as nothing more is there, as the connection was reset, or
  with another error.\<close>

datatype recv_end = RecvZero | RecvAgain | RecvReset | RecvFails

definition nl_buffer_size :: nat where "nl_buffer_size = 8192"

text \<open>The loop over \<open>recv\<close>, with the datagrams it gives: of one that is larger than the buffer the rest is dropped.\<close>

fun nm_receive :: "bool \<Rightarrow> bytes list \<Rightarrow> recv_end \<Rightarrow> nl_event list result" where
  "nm_receive be [] fin = Inr (if fin = RecvFails then [NlFailure] else [])"
| "nm_receive be (d # ds) fin =
     (if d = [] then Inr []
      else bindr (nl_parse be (take nl_buffer_size d)) (\<lambda>(r, es).
        if r = NlError then Inr (es @ [NlFailure]) else mapr (append es) (nm_receive be ds fin)))"

datatype nm_ready = NmNothing | NmError | NmReadable "bytes list" recv_end

fun nm_handle :: "bool \<Rightarrow> nm_ready \<Rightarrow> nl_event list result" where
  "nm_handle be NmNothing = Inr []"
| "nm_handle be NmError = Inr [NlFailure]"
| "nm_handle be (NmReadable ds fin) = nm_receive be ds fin"

text \<open>What \<open>epoll_wait\<close> answers; a failure may be an interrupt.\<close>

datatype nm_wait = NmWaitFails bool | NmReady "nm_ready list"

definition nm_poll :: "bool \<Rightarrow> bool \<Rightarrow> nm_wait \<Rightarrow> (int \<times> nl_event list \<times> errc option) result" where
  "nm_poll be perr w =
     (case w of
        NmWaitFails interrupted \<Rightarrow>
          (if interrupted then Inr (-1, [], None)
           else if perr then Inr (-1, [], Some System_error) else Inl (Thrown System_error))
      | NmReady rs \<Rightarrow>
          mapr (\<lambda>es. (int (length rs), es, None)) (foldr_res (\<lambda>r es. mapr (append es) (nm_handle be r)) rs []))"

subsection \<open>Messages as the kernel writes them\<close>

text \<open>The format of rtnetlink: a header with the length, the type, the flags, a sequence number and a port; a fixed structure;
  attributes, each padded to four bytes.\<close>

type_synonym nl_attr = "u16 \<times> bytes"

datatype nl_message =
    AddrMessage bool byte bytes u32 "nl_attr list"
  | LinkMessage bool bytes u32 u32 "nl_attr list"
  | OtherMessage u16 bytes

type_synonym nl_header = "u16 \<times> u32 \<times> u32"

definition put16 :: "bool \<Rightarrow> u16 \<Rightarrow> bytes" where "put16 be x = native_order be (be16 x)"
definition put32 :: "bool \<Rightarrow> u32 \<Rightarrow> bytes" where "put32 be x = native_order be (be32 x)"

definition enc_attr :: "bool \<Rightarrow> nl_attr \<Rightarrow> bytes" where
  "enc_attr be a = put16 be (of_nat (4 + length (snd a))) @ put16 be (fst a) @ snd a @ replicate (nl_align (length (snd a)) - length (snd a)) 0"

definition enc_attrs :: "bool \<Rightarrow> nl_attr list \<Rightarrow> bytes" where
  "enc_attrs be attrs = concat (map (enc_attr be) attrs)"

fun message_type :: "nl_message \<Rightarrow> u16" where
  "message_type (AddrMessage added _ _ _ _) = (if added then 20 else 21)"
| "message_type (LinkMessage added _ _ _ _) = (if added then 16 else 17)"
| "message_type (OtherMessage t _) = t"

fun enc_payload :: "bool \<Rightarrow> nl_message \<Rightarrow> bytes" where
  "enc_payload be (AddrMessage _ family misc index attrs) = [family] @ misc @ put32 be index @ enc_attrs be attrs"
| "enc_payload be (LinkMessage _ misc flags change attrs) = misc @ put32 be flags @ put32 be change @ enc_attrs be attrs"
| "enc_payload be (OtherMessage _ payload) = payload"

fun enc_message :: "bool \<Rightarrow> nl_header \<times> nl_message \<Rightarrow> bytes" where
  "enc_message be ((flags, seq, port), m) =
     put32 be (of_nat (16 + length (enc_payload be m))) @ put16 be (message_type m) @ put16 be flags @ put32 be seq @ put32 be port @ enc_payload be m"

definition enc_messages :: "bool \<Rightarrow> (nl_header \<times> nl_message) list \<Rightarrow> bytes" where
  "enc_messages be ms = concat (map (enc_message be) ms)"

definition attr_ok :: "nat list \<Rightarrow> nl_attr \<Rightarrow> bool" where
  "attr_ok numbers a \<longleftrightarrow> 4 + length (snd a) < 2 ^ 16 \<and> (unat (fst a) mod 2 ^ 14 \<in> set numbers \<longrightarrow> 4 \<le> length (snd a))"

fun message_ok :: "nl_message \<Rightarrow> bool" where
  "message_ok (AddrMessage _ family misc _ attrs) \<longleftrightarrow> length misc = 3 \<and> (\<forall>a\<in>set attrs. attr_ok (if family = 2 then [1] else []) a)"
| "message_ok (LinkMessage _ misc _ _ attrs) \<longleftrightarrow> length misc = 8 \<and> (\<forall>a\<in>set attrs. attr_ok [4] a)"
| "message_ok (OtherMessage t payload) \<longleftrightarrow> 16 \<le> unat t \<and> t \<notin> {16, 17, 20, 21} \<and> 4 dvd length payload"

definition header_ok :: "nl_header \<Rightarrow> bool" where
  "header_ok h \<longleftrightarrow> even (unat (fst h) div 16)"

text \<open>What is to be reported of a message: each address that was added or removed, with its interface; of a link the last name
  and MTU among its attributes and whether the interface is up.\<close>

definition attr_number :: "bool \<Rightarrow> bytes \<Rightarrow> u32" where
  "attr_number be p = ucast (be_value (native_order be (take 4 p)))"

definition link_attr :: "bool \<Rightarrow> nl_attr \<Rightarrow> netlink_attributes \<Rightarrow> netlink_attributes" where
  "link_attr be a attrs =
     (if unat (fst a) mod 2 ^ 14 = 4 then attrs\<lparr>na_mtu := Some (attr_number be (snd a))\<rparr>
      else if unat (fst a) mod 2 ^ 14 = 3 then attrs\<lparr>na_iface_name := snd a\<rparr>
      else attrs)"

fun message_events :: "bool \<Rightarrow> nl_message \<Rightarrow> nl_event list" where
  "message_events be (AddrMessage added family _ index attrs) =
     (if family = 2
      then map (\<lambda>a. (if added then NlAddrAdded else NlAddrRemoved) (Inet4 (ucast (be_value (take 4 (snd a))))) index)
        (filter (\<lambda>a. unat (fst a) mod 2 ^ 14 = 1) attrs)
      else [])"
| "message_events be (LinkMessage _ _ flags _ attrs) =
     [NlAttrs (fold (link_attr be) attrs \<lparr>na_iface_name = [], na_mtu = None, na_up = odd (unat flags)\<rparr>)]"
| "message_events be (OtherMessage _ _) = []"

subsection \<open>Reading back what was written\<close>

lemma native_order_twice [simp]: "native_order be (native_order be bs) = bs"
  by (simp add: native_order_def)

lemma native_order_length [simp]: "length (native_order be bs) = length bs"
  by (simp add: native_order_def)

lemma be_length: "length (be16 x) = 2" "length (be32 y) = 4"
  by (simp_all add: be16_def be32_def)

lemma put_length [simp]: "length (put16 be x) = 2" "length (put32 be y) = 4"
  by (simp_all add: put16_def put32_def be16_def be32_def)

lemma be_value_be16: "be_value (be16 x) = ucast x"
proof (rule bit_word_eqI)
  fix n
  assume "n < LENGTH(64)"
  consider "n < 8" | "8 \<le> n" "n < 16" | "16 \<le> n" by linarith
  then show "bit (be_value (be16 x)) n = bit (ucast x :: u64) n"
    using \<open>n < LENGTH(64)\<close>
    by cases (auto simp: be16_def bit_simps byte_no_bit dest: bit_imp_le_length)
qed

lemma nl_read_at: "buf = a @ b @ c \<Longrightarrow> off = length a \<Longrightarrow> n = length b \<Longrightarrow> nl_read buf off n = Inr b"
  by (simp add: nl_read_def)

lemma unat_u64:
  "unat (ucast (x :: u16) :: u64) = unat x" "unat (ucast (y :: u32) :: u64) = unat y" "unat (ucast (z :: byte) :: u64) = unat z"
proof -
  have "unat x < 2 ^ 16" "unat y < 2 ^ 32" "unat z < 2 ^ 8"
    using unsigned_less [of x, where ?'a = nat] unsigned_less [of y, where ?'a = nat] unsigned_less [of z, where ?'a = nat] by simp_all
  then show "unat (ucast x :: u64) = unat x" "unat (ucast y :: u64) = unat y" "unat (ucast z :: u64) = unat z"
    by (simp_all add: unsigned_ucast_eq take_bit_nat_eq_self)
qed

lemma unat_u16: "n < 2 ^ 16 \<Longrightarrow> unat (of_nat n :: u16) = n"
  by (simp add: unsigned_of_nat take_bit_nat_eq_self)

lemma unat_of_u32: "n < 2 ^ 32 \<Longrightarrow> unat (of_nat n :: u32) = n"
  by (simp add: unsigned_of_nat take_bit_nat_eq_self)

lemma unat_of_u64: "n < 2 ^ 32 \<Longrightarrow> unat (of_nat n :: u64) = n"
  by (simp add: unsigned_of_nat take_bit_nat_eq_self)

lemma nl_value_at:
  "buf = a @ put16 be x @ c \<Longrightarrow> off = length a \<Longrightarrow> nl_value be buf off 2 = Inr (unat x)"
  "buf = a @ put32 be y @ c \<Longrightarrow> off = length a \<Longrightarrow> nl_value be buf off 4 = Inr (unat y)"
  "buf = a @ [z] @ c \<Longrightarrow> off = length a \<Longrightarrow> nl_value be buf off 1 = Inr (unat z)"
proof -
  show "nl_value be buf off 2 = Inr (unat x)" if "buf = a @ put16 be x @ c" "off = length a"
    using nl_read_at [OF that, of 2] by (simp add: nl_value_def put16_def be_value_be16 unat_u64 be_length)
  show "nl_value be buf off 4 = Inr (unat y)" if "buf = a @ put32 be y @ c" "off = length a"
    using nl_read_at [OF that, of 4] by (simp add: nl_value_def put32_def be_value_be32 unat_u64 be_length)
  show "nl_value be buf off 1 = Inr (unat z)" if "buf = a @ [z] @ c" "off = length a"
    using nl_read_at [OF that, of 1] by (simp add: nl_value_def native_order_def unat_u64)
qed

lemma nl_align_le: "n \<le> nl_align n" and nl_align_dvd: "4 dvd n \<Longrightarrow> nl_align n = n"
  by (auto simp: nl_align_def)

lemma nl_align_4: "nl_align (4 + n) = 4 + nl_align n"
  unfolding nl_align_def by presburger

lemma dvd_nl_align: "4 dvd nl_align n"
  by (simp add: nl_align_def)

lemma enc_attr_length: "length (enc_attr be a) = 4 + nl_align (length (snd a))"
  using nl_align_le [of "length (snd a)"] by (simp add: enc_attr_def)


text \<open>The loop over attributes that were written.\<close>

lemma foreach_attr_enc:
  assumes "\<And>a c t s. buf = a @ enc_attr be t @ c \<Longrightarrow> t \<in> set attrs \<Longrightarrow> visit (length a) (4 + length (snd t)) s = Inr (f t s)"
    and "\<forall>t\<in>set attrs. 4 + length (snd t) < 2 ^ 16"
    and "buf = a @ enc_attrs be attrs @ c"
  shows "foreach_attr be buf (length a + length (enc_attrs be attrs)) visit (length a) s = Inr (fold f attrs s)"
  using assms
proof (induction attrs arbitrary: a s)
  case Nil
  then show ?case by (simp add: foreach_attr.simps enc_attrs_def nl_consts)
next
  case (Cons t attrs)
  let ?n = "4 + length (snd t)"
  from Cons.prems(3) have b: "buf = a @ enc_attr be t @ (enc_attrs be attrs @ c)" by (simp add: enc_attrs_def)
  from Cons.prems(2) have n: "unat (of_nat ?n :: u16) = ?n" by (simp only: unat_u16 list.set_intros)
  have v: "nl_value be buf (length a) 2 = Inr ?n"
    
    using nl_value_at(1) [of buf a be "of_nat ?n", OF _ refl] n b by (simp add: enc_attr_def)
  have l: "length (enc_attrs be (t # attrs)) = length (enc_attr be t) + length (enc_attrs be attrs)" by (simp add: enc_attrs_def)
  have step: "nl_align ?n = length (enc_attr be t)" by (simp add: enc_attr_length nl_align_4)
  have room: "4 \<le> length (enc_attr be t)" "?n \<le> length (enc_attr be t)"
    using nl_align_le [of "length (snd t)"] by (simp_all add: enc_attr_length)
  have "foreach_attr be buf (length (a @ enc_attr be t) + length (enc_attrs be attrs)) visit (length (a @ enc_attr be t)) (f t s) =
      Inr (fold f attrs (f t s))"
    by (rule Cons.IH) (use Cons.prems b in auto)
  with v Cons.prems(1) [OF b] room show ?case
    by (subst foreach_attr.simps) (simp add: Let_def nl_consts l step add.assoc)
qed

lemma attr_type_at:
  assumes "buf = a @ enc_attr be t @ c"
  shows "attr_type be buf (length a) = Inr (unat (fst t) mod 2 ^ 14)"
proof -
  have "buf = (a @ put16 be (of_nat (4 + length (snd t)))) @ put16 be (fst t) @ (snd t @ replicate (nl_align (length (snd t)) - length (snd t)) 0 @ c)"
    by (simp add: assms enc_attr_def)
  then have "nl_value be buf (length a + 2) 2 = Inr (unat (fst t))" by (rule nl_value_at(1)) simp
  then show ?thesis by (simp add: attr_type_def)
qed

lemma attr_read_at:
  assumes "buf = a @ enc_attr be t @ c" and "n \<le> length (snd t)"
  shows "nl_read buf (length a + 4) n = Inr (take n (snd t))"
proof (rule nl_read_at)
  have "snd t @ r = take n (snd t) @ drop n (snd t) @ r" for r by simp
  then show "buf = (a @ put16 be (of_nat (4 + length (snd t))) @ put16 be (fst t)) @ take n (snd t) @
      (drop n (snd t) @ replicate (nl_align (length (snd t)) - length (snd t)) 0 @ c)"
    by (simp add: assms(1) enc_attr_def)
qed (use assms(2) in simp_all)


lemma visit_addr_at:
  fixes family :: byte
  assumes "buf = a @ enc_attr be t @ c" and "attr_ok (if family = 2 then [1] else []) t"
    and "nl_value be buf (off + 16) 1 = Inr (unat family)" and "nl_value be buf (off + 20) 4 = Inr (unat index)"
  shows "visit_addr be buf off ty (length a) n es =
    Inr (es @ (if family = 2 \<and> unat (fst t) mod 2 ^ 14 = 1
               then [(if ty = 20 then NlAddrAdded else NlAddrRemoved) (Inet4 (ucast (be_value (take 4 (snd t))))) index] else []))"
proof -
  have f: "unat family = 2 \<longleftrightarrow> family = 2" by (simp add: word_unat_eq_iff)
  have "nl_read buf (length a + 4) 4 = Inr (take 4 (snd t))" if "family = 2" "unat (fst t) mod 2 ^ 14 = 1"
    using attr_read_at [OF assms(1), of 4] that assms(2) by (simp add: attr_ok_def)
  then show ?thesis
    using assms(3,4) attr_type_at [OF assms(1)] f by (auto simp: visit_addr_def nl_consts add.assoc)
qed

lemma visit_link_at:
  assumes "buf = a @ enc_attr be t @ c" and "attr_ok [4] t"
  shows "visit_link be buf (length a) (4 + length (snd t)) s = Inr (link_attr be t s)"
proof -
  have "nl_value be buf (length a + 4) 4 = Inr (unat (be_value (native_order be (take 4 (snd t)))))" if "unat (fst t) mod 2 ^ 14 = 4"
    using attr_read_at [OF assms(1), of 4] that assms(2) by (simp add: attr_ok_def nl_value_def)
  moreover have "nl_read buf (length a + 4) (length (snd t)) = Inr (snd t)"
    using attr_read_at [OF assms(1), of "length (snd t)"] by simp
  ultimately show ?thesis
    using attr_type_at [OF assms(1)] by (simp add: visit_link_def link_attr_def nl_consts attr_number_def)
qed

lemma fold_append_if: "fold (\<lambda>t es. es @ (if P t then [g t] else [])) ts es = es @ map g (filter P ts)"
  by (induction ts arbitrary: es) simp_all

text \<open>A message that was written is reported as it should be.\<close>

lemma dvd_enc_attrs: "4 dvd length (enc_attrs be attrs)"
  by (induction attrs) (simp_all add: enc_attrs_def enc_attr_length dvd_nl_align)

lemma dvd_payload: "message_ok m \<Longrightarrow> 4 dvd length (enc_payload be m)"
  by (cases m) (auto simp: dvd_enc_attrs dvd_add)

lemma callback_message:
  assumes "message_ok m" and "buf = a @ h @ enc_payload be m @ c" and "length h = 16"
  shows "parser_callback be buf (length a) (16 + length (enc_payload be m)) (unat (message_type m)) = Inr (NlOk, message_events be m)"
proof (cases m)
  case (AddrMessage added family misc index attrs)
  let ?n = "16 + length (enc_payload be m)"
  have m: "length misc = 3" using assms(1) AddrMessage by simp
  have d: "nl_align ?n = 16 + (8 + length (enc_attrs be attrs))"
    using AddrMessage m nl_align_dvd [of ?n] dvd_enc_attrs [of be attrs] by (simp add: dvd_add)
  have b: "buf = (a @ h @ [family] @ misc @ put32 be index) @ enc_attrs be attrs @ c" using assms(2) AddrMessage by simp
  have family: "nl_value be buf (length a + 16) 1 = Inr (unat family)"
    by (rule nl_value_at(3) [where a = "a @ h" and c = "misc @ put32 be index @ enc_attrs be attrs @ c"]) (use b assms(3) in simp_all)
  have index: "nl_value be buf (length a + 20) 4 = Inr (unat index)"
    by (rule nl_value_at(2) [where a = "a @ h @ [family] @ misc" and c = "enc_attrs be attrs @ c"]) (use b m assms(3) in simp_all)
  have "foreach_attr be buf (length (a @ h @ [family] @ misc @ put32 be index) + length (enc_attrs be attrs))
      (visit_addr be buf (length a) (unat (message_type m))) (length (a @ h @ [family] @ misc @ put32 be index)) [] =
    Inr (fold (\<lambda>t es. es @ (if family = 2 \<and> unat (fst t) mod 2 ^ 14 = 1 then
        [(if unat (message_type m) = 20 then NlAddrAdded else NlAddrRemoved) (Inet4 (ucast (be_value (take 4 (snd t))))) index] else [])) attrs [])"
    by (rule foreach_attr_enc [OF _ _ b], rule visit_addr_at [OF _ _ family index]) (use assms(1) AddrMessage in \<open>auto simp: attr_ok_def\<close>)
  then have "foreach_attr be buf (length a + nl_align ?n) (visit_addr be buf (length a) (unat (message_type m))) (length a + 24) [] =
      Inr (map (\<lambda>t. (if unat (message_type m) = 20 then NlAddrAdded else NlAddrRemoved) (Inet4 (ucast (be_value (take 4 (snd t))))) index)
        (filter (\<lambda>t. family = 2 \<and> unat (fst t) mod 2 ^ 14 = 1) attrs))"
    unfolding fold_append_if d using m assms(3) by (simp add: ac_simps)
  moreover have "unat (message_type m) = (if added then 20 else 21)" by (simp add: AddrMessage)
  moreover have "nl_align 8 = 8" by (simp add: nl_align_def)
  ultimately show ?thesis
    by (cases "family = 2"; cases added) (simp_all add: parser_callback_def nl_consts AddrMessage ac_simps)
next
  case (LinkMessage added misc flags change attrs)
  let ?n = "16 + length (enc_payload be m)"
  have m: "length misc = 8" using assms(1) LinkMessage by simp
  have d: "nl_align ?n = 16 + (16 + length (enc_attrs be attrs))"
    using LinkMessage m nl_align_dvd [of ?n] dvd_enc_attrs [of be attrs] by (simp add: dvd_add)
  have b: "buf = (a @ h @ misc @ put32 be flags @ put32 be change) @ enc_attrs be attrs @ c" using assms(2) LinkMessage by simp
  have flags: "nl_value be buf (length a + 24) 4 = Inr (unat flags)"
    by (rule nl_value_at(2) [where a = "a @ h @ misc" and c = "put32 be change @ enc_attrs be attrs @ c"]) (use b m assms(3) in simp_all)
  have "foreach_attr be buf (length (a @ h @ misc @ put32 be flags @ put32 be change) + length (enc_attrs be attrs))
      (visit_link be buf) (length (a @ h @ misc @ put32 be flags @ put32 be change)) s = Inr (fold (link_attr be) attrs s)" for s
    by (rule foreach_attr_enc [OF _ _ b], rule visit_link_at) (use assms(1) LinkMessage in \<open>auto simp: attr_ok_def\<close>)
  moreover have "unat (message_type m) = (if added then 16 else 17)" by (simp add: LinkMessage)
  moreover have "nl_align 16 = 16" by (simp add: nl_align_def)
  ultimately show ?thesis
    using d m assms(3) flags by (cases added) (simp_all add: parser_callback_def nl_consts LinkMessage ac_simps)
next
  case (OtherMessage t payload)
  have "unat t \<noteq> 16 \<and> unat t \<noteq> 17 \<and> unat t \<noteq> 20 \<and> unat t \<noteq> 21"
    using assms(1) OtherMessage by (auto simp: word_unat_eq_iff)
  then show ?thesis by (simp add: parser_callback_def nl_consts OtherMessage)
qed


definition messages_ok :: "(nl_header \<times> nl_message) list \<Rightarrow> bool" where
  "messages_ok ms \<longleftrightarrow> (\<forall>(h, m)\<in>set ms. header_ok h \<and> message_ok m)"

definition messages_events :: "bool \<Rightarrow> (nl_header \<times> nl_message) list \<Rightarrow> nl_event list" where
  "messages_events be ms = concat (map (message_events be \<circ> snd) ms)"

lemma enc_message_length: "length (enc_message be (h, m)) = 16 + length (enc_payload be m)"
  by (cases h) simp

lemma message_type_16: "message_ok m \<Longrightarrow> 16 \<le> unat (message_type m)"
  by (cases m) auto

lemma nl_parse_messages:
  assumes "messages_ok ms" and "length (enc_messages be ms) < 2 ^ 32"
  shows "nl_parse_from be (a @ enc_messages be ms) (length a) (of_nat (length (enc_messages be ms))) = Inr (NlOk, messages_events be ms)"
  using assms
proof (induction ms arbitrary: a)
  case Nil
  then show ?case by (simp add: nl_parse_from.simps enc_messages_def messages_events_def nl_consts)
next
  case (Cons hm ms)
  obtain flags seq port m where hm: "hm = ((flags, seq, port), m)" by (metis prod.collapse)
  let ?rest = "enc_messages be ms" and ?n = "16 + length (enc_payload be m)"
  let ?buf = "a @ enc_messages be (hm # ms)"
  from Cons.prems(1) hm have ok: "message_ok m" "even (unat flags div 16)" and oks: "messages_ok ms"
    by (auto simp: messages_ok_def header_ok_def)
  have e: "enc_messages be (hm # ms) = enc_message be hm @ ?rest" by (simp add: enc_messages_def)
  have l: "length (enc_messages be (hm # ms)) = ?n + length ?rest"
    by (simp only: e) (simp only: hm length_append enc_message_length)
  with Cons.prems(2) have small: "?n + length ?rest < 2 ^ 32" by simp
  have align: "nl_align ?n = ?n" by (rule nl_align_dvd) (simp add: dvd_payload ok)
  have len: "unat (of_nat (length (enc_messages be (hm # ms))) :: u64) = ?n + length ?rest"
    unfolding l using small by (intro unat_of_u64) simp
  have left: "of_nat (length (enc_messages be (hm # ms))) - of_nat ?n = (of_nat (length ?rest) :: u64)"
    unfolding l by simp
  have m: "nl_value be ?buf (length a) 4 = Inr ?n"
  proof -
    have "?buf = a @ put32 be (of_nat ?n) @ (put16 be (message_type m) @ put16 be flags @ put32 be seq @ put32 be port @ enc_payload be m @ ?rest)"
      by (simp only: e) (simp add: hm)
    from nl_value_at(2) [OF this refl] show ?thesis using unat_of_u32 [of ?n] small by simp
  qed
  have f: "nl_value be ?buf (length a + 6) 2 = Inr (unat flags)"
    by (rule nl_value_at(1) [where a = "a @ put32 be (of_nat ?n) @ put16 be (message_type m)"]) (simp_all only: e, simp_all add: hm)
  have t: "nl_value be ?buf (length a + 4) 2 = Inr (unat (message_type m))"
    by (rule nl_value_at(1) [where a = "a @ put32 be (of_nat ?n)"]) (simp_all only: e, simp_all add: hm)
  have c: "parser_callback be ?buf (length a) ?n (unat (message_type m)) = Inr (NlOk, message_events be m)"
    by (rule callback_message [OF ok(1), where h = "put32 be (of_nat ?n) @ put16 be (message_type m) @ put16 be flags @ put32 be seq @ put32 be port"])
       (simp_all only: e, simp_all add: hm)
  have "nl_parse_from be ?buf (length a + ?n) (of_nat (length ?rest)) = Inr (NlOk, messages_events be ms)"
    using Cons.IH [OF oks, of "a @ enc_message be hm"] small by (simp only: e append_assoc) (simp add: hm)
  then show ?case
    using len left m f t c align ok(2) message_type_16 [OF ok(1)]
    by (subst nl_parse_from.simps) (simp add: nl_consts hm messages_events_def)
qed

lemma nm_receive_messages:
  assumes "\<forall>ms\<in>set mss. ms \<noteq> [] \<and> messages_ok ms \<and> length (enc_messages be ms) \<le> nl_buffer_size"
  shows "nm_receive be (map (enc_messages be) mss) fin =
    Inr (concat (map (messages_events be) mss) @ (if fin = RecvFails then [NlFailure] else []))"
  using assms
proof (induction mss)
  case (Cons ms mss)
  then have "ms \<noteq> []" "messages_ok ms" "length (enc_messages be ms) \<le> nl_buffer_size" by auto
  moreover have "enc_messages be ms \<noteq> []"
  proof -
    from \<open>ms \<noteq> []\<close> obtain h m r where "ms = (h, m) # r" by (cases ms) auto
    then have "length (enc_messages be ms) \<noteq> 0" by (simp only: enc_messages_def list.map concat.simps length_append enc_message_length)
    then show ?thesis by simp
  qed
  moreover have "nl_parse be (enc_messages be ms) = Inr (NlOk, messages_events be ms)"
    using nl_parse_messages [OF \<open>messages_ok ms\<close>, of be "[]"] \<open>length (enc_messages be ms) \<le> _\<close> by (simp add: nl_parse_def nl_buffer_size_def)
  ultimately show ?case using Cons by simp
qed simp

text \<open>C30. Datagrams of well-formed messages, in either byte order, that fit the buffer are read back: a poll on a readable socket
  reports exactly the addresses added and removed and the attributes of links that the messages hold, in their order, and
  reads nothing outside a datagram.\<close>

theorem netlink_reports:
  assumes "\<forall>ms\<in>set mss. ms \<noteq> [] \<and> messages_ok ms \<and> length (enc_messages be ms) \<le> nl_buffer_size"
  shows "nm_poll be perr (NmReady [NmReadable (map (enc_messages be) mss) RecvAgain]) = Inr (1, concat (map (messages_events be) mss), None)"
  by (simp add: nm_poll_def nm_receive_messages [OF assms])

definition nl_example :: "(nl_header \<times> nl_message) list" where
  "nl_example =
     [((0, 1, 2), LinkMessage True [0, 0, 1, 0, 3, 0, 0, 0] 1 0 [(3, [101, 116, 104, 0]), (4, native_order False (be32 1500))]),
      ((0, 2, 2), AddrMessage True 2 [24, 0, 0] 3 [(1, [192, 168, 0, 7]), (2, [192, 168, 0, 7])])]"

theorem netlink_reports_witness:
  "nm_poll False False (NmReady [NmReadable [enc_messages False nl_example] RecvAgain]) =
     Inr (1, [NlAttrs \<lparr>na_iface_name = [101, 116, 104, 0], na_mtu = Some 1500, na_up = True\<rparr>, NlAddrAdded (Inet4 0xC0A80007) 3], None)"
proof -
  have "\<forall>ms\<in>set [nl_example]. ms \<noteq> [] \<and> messages_ok ms \<and> length (enc_messages False ms) \<le> nl_buffer_size"
    by (simp add: nl_example_def messages_ok_def header_ok_def attr_ok_def enc_messages_def enc_attrs_def enc_attr_def nl_buffer_size_def
      nl_align_def native_order_def be32_def)
  from netlink_reports [OF this, of False] show ?thesis
    by (simp add: messages_events_def nl_example_def link_attr_def attr_number_def native_order_def be32_def)
qed

text \<open>The name of an interface keeps the terminating zero that the kernel writes, and an interface whose MTU is not told has none
  that was set.\<close>

lemma name_keeps_zero:
  "message_events be (LinkMessage added misc flags change [(3, name @ [0])]) =
     [NlAttrs \<lparr>na_iface_name = name @ [0], na_mtu = None, na_up = odd (unat flags)\<rparr>]"
  by (simp add: link_attr_def)

text \<open>Messages that are read outside the datagram: one of an address without its structure, as the negative room passes for a
  large one, one whose last address is shorter than four bytes, and the one after a message whose length is not aligned, as
  the number of bytes that are left wraps around.\<close>

lemmas nl_eval = nl_parse_def nl_parse_from.simps foreach_attr.simps nl_value_def nl_read_def native_order_def nl_consts parser_callback_def
  control_message_def nl_align_def visit_addr_def attr_type_def Let_def

lemma short_message_overread: "nl_parse False [16, 0, 0, 0, 20, 0, 0, 0, 0, 0, 0, 0, 0, 0, 0, 0] = Inl Undefined"
  by (simp add: nl_eval)

lemma short_address_overread:
  "nl_parse False ([29, 0, 0, 0, 20, 0, 0, 0, 0, 0, 0, 0, 0, 0, 0, 0] @ [2, 24, 0, 0, 3, 0, 0, 0] @ [5, 0, 1, 0, 192]) = Inl Undefined"
  by (simp add: nl_eval)

lemma unaligned_message_overread: "nl_parse False [17, 0, 0, 0, 22, 0, 0, 0, 0, 0, 0, 0, 0, 0, 0, 0, 7] = Inl Undefined"
  by (simp add: nl_eval)

text \<open>Of a datagram that does not fit, the messages past the buffer are lost without a report.\<close>

lemma truncated_unreported:
  assumes "d \<noteq> []"
  shows "nm_receive be [d] RecvAgain = nm_receive be [take nl_buffer_size d] RecvAgain"
  using assms by (simp add: nl_buffer_size_def)

subsection \<open>The socket and the monitor\<close>

text \<open>What is opened and closed: the socket, and the instance of epoll. An operation gives the calls it made beside its result.\<close>

datatype nl_call = NlOpened int | NlClosed int

definition nls_invalid :: int where "nls_invalid = -1"

text \<open>The constructor; the arguments are what \<open>socket\<close> and \<open>bind\<close> return. The destructor does not run if it throws.\<close>

definition nls_new :: "int \<Rightarrow> int \<Rightarrow> int result \<times> nl_call list" where
  "nls_new sock rc =
     (if sock < 0 then (Inl (Thrown System_error), [])
      else if rc < 0 then (Inl (Thrown System_error), [NlOpened sock])
      else (Inr sock, [NlOpened sock]))"

definition nls_destroy :: "int \<Rightarrow> int \<times> nl_call list" where
  "nls_destroy sock = (nls_invalid, if sock > 0 then [NlClosed sock] else [])"

text \<open>The move assignment: the new sockets of both, and the calls.\<close>

definition nls_assign :: "int \<Rightarrow> int \<Rightarrow> (int \<times> int) \<times> nl_call list" where
  "nls_assign sock other = ((other, nls_invalid), snd (nls_destroy sock))"

definition nls_valid :: "int \<Rightarrow> bool" where
  "nls_valid sock \<longleftrightarrow> sock > 0"

text \<open>\<open>recv\<close>: a datagram that was truncated or has no address of the kernel is an error too.\<close>

definition nls_recv :: "int \<Rightarrow> bool \<Rightarrow> bool \<Rightarrow> bool \<Rightarrow> (int \<times> errc option) result" where
  "nls_recv rc truncated address_ok perr =
     (let n = (if rc < 0 then rc else if truncated then -1 else if \<not> address_ok then -1 else rc) in
      if n < 0 then (if perr then Inr (n, Some System_error) else Inl (Thrown System_error)) else Inr (n, None))"

definition nls_send :: "int \<Rightarrow> bool \<Rightarrow> (int \<times> errc option) result" where
  "nls_send rc perr = (if rc < 0 then (if perr then Inr (rc, Some System_error) else Inl (Thrown System_error)) else Inr (rc, None))"

record netlink_monitor =
  nm_sock :: int
  nm_epoll :: int

text \<open>The constructor of the monitor; \<open>ctl\<close> is what \<open>epoll_ctl\<close> returns, \<open>exists\<close> whether its error is \<open>EEXIST\<close>. If it throws,
  its members are destroyed: the socket, but not the instance of epoll, which is a number.\<close>

definition nm_new :: "int \<Rightarrow> int \<Rightarrow> int \<Rightarrow> int \<Rightarrow> bool \<Rightarrow> bool \<Rightarrow> (netlink_monitor \<times> errc option) result \<times> nl_call list" where
  "nm_new sock rc epoll ctl eexist perr =
     (case nls_new sock rc of
        (Inl e, calls) \<Rightarrow> (Inl e, calls)
      | (Inr s, calls) \<Rightarrow>
          (if epoll < 0 then
             (if perr then (Inr (\<lparr>nm_sock = s, nm_epoll = epoll\<rparr>, Some System_error), calls)
              else (Inl (Thrown System_error), calls @ snd (nls_destroy s)))
           else if ctl \<noteq> 0 \<and> \<not> eexist then
             (if perr then (Inr (\<lparr>nm_sock = s, nm_epoll = epoll\<rparr>, Some System_error), calls @ [NlOpened epoll])
              else (Inl (Thrown System_error), calls @ [NlOpened epoll] @ snd (nls_destroy s)))
           else (Inr (\<lparr>nm_sock = s, nm_epoll = epoll\<rparr>, None), calls @ [NlOpened epoll])))"

definition nm_destroy :: "netlink_monitor \<Rightarrow> nl_call list" where
  "nm_destroy m = (if nm_epoll m > 0 then [NlClosed (nm_epoll m)] else []) @ snd (nls_destroy (nm_sock m))"

text \<open>A monitor that was made closes what it opened, unless a descriptor is 0; one that could not be made does not.\<close>

definition nl_open_after :: "nl_call list \<Rightarrow> int set" where
  "nl_open_after calls = fold (\<lambda>c fds. case c of NlOpened fd \<Rightarrow> insert fd fds | NlClosed fd \<Rightarrow> fds - {fd}) calls {}"

lemma nm_closes:
  assumes "nm_new sock rc epoll ctl eexist perr = (Inr (m, e), calls)" and "sock \<noteq> 0" and "epoll \<noteq> 0"
  shows "nl_open_after (calls @ nm_destroy m) = {}"
  using assms by (auto simp: nm_new_def nls_new_def nm_destroy_def nls_destroy_def nl_open_after_def split: if_splits)

lemma unbound_socket_leaks: "0 \<le> sock \<Longrightarrow> rc < 0 \<Longrightarrow> nl_open_after (snd (nm_new sock rc epoll ctl eexist perr)) = {sock}"
  by (simp add: nm_new_def nls_new_def nl_open_after_def)

lemma epoll_leaks:
  "0 < sock \<Longrightarrow> 0 \<le> rc \<Longrightarrow> 0 \<le> epoll \<Longrightarrow> epoll \<noteq> sock \<Longrightarrow> ctl \<noteq> 0 \<Longrightarrow> nl_open_after (snd (nm_new sock rc epoll ctl False False)) = {epoll}"
  by (auto simp: nm_new_def nls_new_def nls_destroy_def nl_open_after_def)

end
