(* ===== verification/Interfaces.thy ===== *)
theory Interfaces
  imports Inet4Addr
begin

text \<open>
  Network interfaces on Linux (include/pfs/netty/utils/network_interface.hpp, src/utils/network_interface.cpp,
  src/utils/network_interface_linux.cpp).

  What \<open>getifaddrs\<close> and \<open>ioctl\<close> answer, the text that \<open>inet_ntop\<close> makes of an IPv6 address and what the formatting library
  makes of a byte are arguments.
\<close>

subsection \<open>Interfaces\<close>

datatype network_interface_type =
    NitOther | NitEthernet | NitTokenring | NitPpp | NitLoopback | NitAtm | NitIeee80211 | NitTunnel | NitIeee1394 | NitFddi
  | NitSlip | NitIeee80216 | NitIeee802154

datatype network_interface_status = NisUnknown | NisUp | NisDown | NisTesting | NisPending

record network_interface =
  ni_mtu :: u32
  ni_ip4 :: inet4_addr
  ni_ip6 :: string
  ni_adapter_name :: string
  ni_readable_name :: string
  ni_description :: string
  ni_hardware_address :: string
  ni_type :: network_interface_type
  ni_status :: network_interface_status
  ni_flags :: u32

definition ni_new :: network_interface where
  "ni_new = \<lparr>ni_mtu = 0, ni_ip4 = any_inet4_addr, ni_ip6 = [], ni_adapter_name = [], ni_readable_name = [], ni_description = [],
     ni_hardware_address = [], ni_type = NitOther, ni_status = NisUnknown, ni_flags = 0\<rparr>"

definition flag_multicast :: u32 where "flag_multicast = 0x10"
definition flag_ip4_enabled :: u32 where "flag_ip4_enabled = 0x80"
definition flag_ip6_enabled :: u32 where "flag_ip6_enabled = 0x100"

definition ni_is_up :: "network_interface \<Rightarrow> bool" where
  "ni_is_up i \<longleftrightarrow> ni_status i = NisUp"

definition ni_is_down :: "network_interface \<Rightarrow> bool" where
  "ni_is_down i \<longleftrightarrow> ni_status i = NisDown"

definition ni_is_flag_on :: "u32 \<Rightarrow> network_interface \<Rightarrow> bool" where
  "ni_is_flag_on f i \<longleftrightarrow> and (ni_flags i) f \<noteq> 0"

definition ni_is_loopback :: "network_interface \<Rightarrow> bool" where
  "ni_is_loopback i \<longleftrightarrow> ni_type i = NitLoopback"

fun type_to_string :: "network_interface_type \<Rightarrow> string" where
  "type_to_string NitEthernet = ''Ethernet''"
| "type_to_string NitTokenring = ''Token Ring''"
| "type_to_string NitPpp = ''PPP''"
| "type_to_string NitLoopback = ''loopback''"
| "type_to_string NitAtm = ''ATM''"
| "type_to_string NitIeee80211 = ''IEEE 802.11''"
| "type_to_string NitTunnel = ''tunnel''"
| "type_to_string NitIeee1394 = ''IEEE 1394''"
| "type_to_string NitFddi = ''FDDI''"
| "type_to_string NitSlip = ''SLIP''"
| "type_to_string NitIeee80216 = ''IEEE 80216''"
| "type_to_string NitIeee802154 = ''IEEE 802.15.4''"
| "type_to_string NitOther = ''other''"

text \<open>\<open>pending\<close> has no name of its own.\<close>

fun status_to_string :: "network_interface_status \<Rightarrow> string" where
  "status_to_string NisUp = ''up''"
| "status_to_string NisDown = ''down''"
| "status_to_string NisTesting = ''testing''"
| "status_to_string _ = ''unknown''"

subsection \<open>What the operating system answers\<close>

datatype if_address = IfNoAddress | IfInet u32 | IfInet6 string | IfOtherFamily

type_synonym if_entry = "string option \<times> if_address"

datatype io_error = IoPermission | IoNoDevice | IoOther

text \<open>The answers to the three requests, by name of the interface.\<close>

record if_requests =
  io_hwaddr :: "string \<Rightarrow> io_error + bytes"
  io_mtu :: "string \<Rightarrow> io_error + int"
  io_flags :: "string \<Rightarrow> io_error + int"

text \<open>The length of \<open>ifr_name\<close> (\<open>IFNAMSIZ\<close>), and the flags.\<close>

definition ifnamsiz :: nat where "ifnamsiz = 16"
definition iff_up :: int where "iff_up = 0x1"
definition iff_loopback :: int where "iff_loopback = 0x8"
definition iff_pointopoint :: int where "iff_pointopoint = 0x10"
definition iff_multicast :: int where "iff_multicast = 0x1000"

subsection \<open>\<open>foreach_interface\<close>\<close>

text \<open>A request whose answer is taken if no request failed before.\<close>

definition ioctl_step ::
  "io_error + 'a \<Rightarrow> ('a \<Rightarrow> network_interface \<Rightarrow> network_interface) \<Rightarrow> network_interface \<times> io_error option \<Rightarrow> network_interface \<times> io_error option" where
  "ioctl_step answer f = (\<lambda>(i, ec). case ec of
     Some e \<Rightarrow> (i, ec)
   | None \<Rightarrow> (case answer of Inl e \<Rightarrow> (i, Some e) | Inr x \<Rightarrow> (f x i, None)))"

definition hardware_text :: "(byte \<Rightarrow> string) \<Rightarrow> bytes \<Rightarrow> string" where
  "hardware_text hex bs = hex (bs ! 0) @ concat (map (\<lambda>k. '':'' @ hex (bs ! k)) [1..<6])"

definition apply_flags :: "int \<Rightarrow> network_interface \<Rightarrow> network_interface" where
  "apply_flags fl i =
     (let i = (if and fl iff_loopback \<noteq> 0 then i\<lparr>ni_type := NitLoopback\<rparr> else i);
          i = (if and fl iff_pointopoint \<noteq> 0 then i\<lparr>ni_type := NitPpp\<rparr> else i);
          i = i\<lparr>ni_status := NisUnknown\<rparr>;
          i = (if and fl iff_up \<noteq> 0 then i\<lparr>ni_status := NisUp\<rparr> else i)
      in if and fl iff_multicast \<noteq> 0 then i\<lparr>ni_flags := or (ni_flags i) flag_multicast\<rparr> else i)"

text \<open>The part for a name that is seen first. A name that does not fit the request overwrites what follows it.\<close>

definition describe_interface ::
  "(byte \<Rightarrow> string) \<Rightarrow> if_requests \<Rightarrow> string \<Rightarrow> network_interface \<Rightarrow> (network_interface \<times> io_error option) result" where
  "describe_interface hex io name i =
     (if length name \<ge> ifnamsiz then Inl Undefined
      else Inr (ioctl_step (io_flags io name) apply_flags
        (ioctl_step (io_mtu io name) (\<lambda>m i. i\<lparr>ni_mtu := of_int m\<rparr>)
        (ioctl_step (io_hwaddr io name) (\<lambda>bs i. i\<lparr>ni_hardware_address := hardware_text hex bs\<rparr>)
        (i\<lparr>ni_adapter_name := name, ni_readable_name := name\<rparr>, None)))))"

text \<open>\<open>IfInet a\<close> holds the address in the order of the host, the value that the code gets by a conversion from the order of the
  network (network_interface_linux.cpp:192).\<close>

fun apply_address :: "if_address \<Rightarrow> network_interface \<Rightarrow> network_interface" where
  "apply_address (IfInet a) i = i\<lparr>ni_ip4 := Inet4 a, ni_flags := or (ni_flags i) flag_ip4_enabled\<rparr>"
| "apply_address (IfInet6 t) i = i\<lparr>ni_ip6 := t, ni_flags := or (ni_flags i) flag_ip6_enabled\<rparr>"
| "apply_address _ i = i"

text \<open>The first interface of the cache that has a name is changed.\<close>

fun update_named :: "string \<Rightarrow> (network_interface \<Rightarrow> network_interface) \<Rightarrow> network_interface list \<Rightarrow> network_interface list" where
  "update_named name f [] = []"
| "update_named name f (i # is) = (if ni_adapter_name i = name then f i # is else i # update_named name f is)"

text \<open>The loop over the entries: the cache, and an error that ends it.\<close>

fun collect_interfaces ::
  "(byte \<Rightarrow> string) \<Rightarrow> if_requests \<Rightarrow> if_entry list \<Rightarrow> network_interface list \<Rightarrow> (network_interface list \<times> io_error option) result" where
  "collect_interfaces hex io [] cache = Inr (cache, None)"
| "collect_interfaces hex io ((None, addr) # es) cache = collect_interfaces hex io es cache"
| "collect_interfaces hex io ((Some name, addr) # es) cache =
     (if name \<in> ni_adapter_name ` set cache then collect_interfaces hex io es (update_named name (apply_address addr) cache)
      else bindr (describe_interface hex io name ni_new) (\<lambda>(i, ec).
        (case ec of
           Some e \<Rightarrow> Inr (cache @ [apply_address addr i], Some e)
         | None \<Rightarrow> collect_interfaces hex io es (cache @ [apply_address addr i]))))"

text \<open>What is opened and not closed again beside the result: the list of entries, and the socket of the requests.\<close>

datatype if_resource = IfEntries | IfSocket int

definition foreach_interface ::
  "(byte \<Rightarrow> string) \<Rightarrow> if_requests \<Rightarrow> if_entry list option \<Rightarrow> int \<Rightarrow> bool \<Rightarrow>
    (network_interface list \<times> errc option) result \<times> if_resource list" where
  "foreach_interface hex io entries sock perr =
     (let failed = (if perr then Inr ([], Some System_error) else Inl (Thrown System_error)) in
      case entries of
        None \<Rightarrow> (failed, [])
      | Some es \<Rightarrow>
          (if sock < 0 then (failed, [IfEntries])
           else (case collect_interfaces hex io es [] of
               Inl e \<Rightarrow> (Inl e, [IfEntries, IfSocket sock])
             | Inr (cache, Some e) \<Rightarrow> (failed, [IfEntries, IfSocket sock])
             | Inr (cache, None) \<Rightarrow> (Inr (cache, None), [IfSocket sock]))))"

text \<open>\<open>fetch_interfaces\<close>: those that the visitor takes; an error is thrown again or given.\<close>

definition fetch_interfaces ::
  "(byte \<Rightarrow> string) \<Rightarrow> if_requests \<Rightarrow> if_entry list option \<Rightarrow> int \<Rightarrow> (network_interface \<Rightarrow> bool) \<Rightarrow> bool \<Rightarrow>
    (network_interface list \<times> errc option) result" where
  "fetch_interfaces hex io entries sock visitor perr =
     bindr (fst (foreach_interface hex io entries sock True)) (\<lambda>(is, err).
       case err of
         Some e \<Rightarrow> (if perr then Inr ([], Some e) else Inl (Thrown e))
       | None \<Rightarrow> Inr (filter visitor is, None))"

definition fetch_interfaces_by_name ::
  "(byte \<Rightarrow> string) \<Rightarrow> if_requests \<Rightarrow> if_entry list option \<Rightarrow> int \<Rightarrow> bool \<Rightarrow> string \<Rightarrow> bool \<Rightarrow>
    (network_interface list \<times> errc option) result" where
  "fetch_interfaces_by_name hex io entries sock readable name perr =
     fetch_interfaces hex io entries sock (\<lambda>i. name = (if readable then ni_readable_name i else ni_adapter_name i)) perr"

subsection \<open>What is visited\<close>

definition entry_names :: "if_entry list \<Rightarrow> string list" where
  "entry_names es = List.map_filter fst es"

text \<open>The names of the entries in the order in which they are seen first, and the addresses of a name.\<close>

definition interface_names :: "if_entry list \<Rightarrow> string list" where
  "interface_names es = rev (remdups (rev (entry_names es)))"

definition addresses_of :: "string \<Rightarrow> if_entry list \<Rightarrow> if_address list" where
  "addresses_of name es = map snd (filter (\<lambda>e. fst e = Some name) es)"

definition answered :: "if_requests \<Rightarrow> string \<Rightarrow> bytes \<Rightarrow> int \<Rightarrow> int \<Rightarrow> bool" where
  "answered io name hw mtu fl \<longleftrightarrow> io_hwaddr io name = Inr hw \<and> io_mtu io name = Inr mtu \<and> io_flags io name = Inr fl"

definition interface_of :: "(byte \<Rightarrow> string) \<Rightarrow> if_requests \<Rightarrow> string \<Rightarrow> network_interface" where
  "interface_of hex io name =
     (case (io_hwaddr io name, io_mtu io name, io_flags io name) of
        (Inr hw, Inr mtu, Inr fl) \<Rightarrow>
          ni_new\<lparr>ni_adapter_name := name, ni_readable_name := name, ni_hardware_address := hardware_text hex hw, ni_mtu := of_int mtu,
            ni_type := (if and fl iff_pointopoint \<noteq> 0 then NitPpp else if and fl iff_loopback \<noteq> 0 then NitLoopback else NitOther),
            ni_status := (if and fl iff_up \<noteq> 0 then NisUp else NisUnknown),
            ni_flags := (if and fl iff_multicast \<noteq> 0 then flag_multicast else 0)\<rparr>
      | _ \<Rightarrow> ni_new)"

definition requests_ok :: "if_requests \<Rightarrow> if_entry list \<Rightarrow> bool" where
  "requests_ok io es \<longleftrightarrow> (\<forall>name\<in>set (entry_names es). length name < ifnamsiz \<and> (\<exists>hw mtu fl. answered io name hw mtu fl))"

lemma entry_names_simps [simp]:
  "entry_names [] = []" "entry_names (es @ [(None, addr)]) = entry_names es" "entry_names (es @ [(Some n, addr)]) = entry_names es @ [n]"
  by (simp_all add: entry_names_def map_filter_def)

lemma interface_names_snoc:
  "interface_names [] = []" "interface_names (es @ [(None, addr)]) = interface_names es"
  "interface_names (es @ [(Some n, addr)]) = (if n \<in> set (interface_names es) then interface_names es else interface_names es @ [n])"
  by (simp_all add: interface_names_def)

lemma interface_names_distinct: "distinct (interface_names es)" and interface_names_set: "set (interface_names es) = set (entry_names es)"
  by (simp_all add: interface_names_def)

lemma addresses_snoc:
  "addresses_of n [] = []" "addresses_of n (es @ [e]) = addresses_of n es @ (if fst e = Some n then [snd e] else [])"
  by (simp_all add: addresses_of_def)

lemma addresses_none: "n \<notin> set (interface_names es) \<Longrightarrow> addresses_of n es = []"
  by (force simp: interface_names_set addresses_of_def entry_names_def map_filter_def filter_empty_conv)

lemma apply_address_name [simp]: "ni_adapter_name (apply_address a i) = ni_adapter_name i"
  by (cases a) simp_all

lemma fold_apply_address_name [simp]: "ni_adapter_name (fold apply_address as i) = ni_adapter_name i"
  by (induction as arbitrary: i) simp_all

lemma interface_of_name: "answered io name hw mtu fl \<Longrightarrow> ni_adapter_name (interface_of hex io name) = name"
  by (simp add: interface_of_def answered_def)

lemma describe_answered:
  assumes "answered io name hw mtu fl" and "length name < ifnamsiz"
  shows "describe_interface hex io name ni_new = Inr (interface_of hex io name, None)"
  using assms
  by (simp add: describe_interface_def ioctl_step_def answered_def interface_of_def apply_flags_def ni_new_def Let_def)

lemma update_named_map:
  assumes "distinct ns" and "name \<in> set ns" and "\<And>n. n \<in> set ns \<Longrightarrow> ni_adapter_name (g n) = n"
  shows "update_named name f (map g ns) = map (\<lambda>n. if n = name then f (g n) else g n) ns"
  using assms by (induction ns) (auto intro!: map_cong)

lemma collect_append:
  "collect_interfaces hex io es cache = Inr (c, None) \<Longrightarrow> collect_interfaces hex io (es @ es') cache = collect_interfaces hex io es' c"
  by (induction hex io es cache rule: collect_interfaces.induct) (auto split: if_splits option.splits)

lemma collect_spec:
  assumes "requests_ok io es"
  shows "collect_interfaces hex io es [] = Inr (map (\<lambda>n. fold apply_address (addresses_of n es) (interface_of hex io n)) (interface_names es), None)"
  using assms
proof (induction es rule: rev_induct)
  case Nil
  show ?case by (simp add: interface_names_snoc)
next
  case (snoc e es)
  let ?g = "\<lambda>es n. fold apply_address (addresses_of n es) (interface_of hex io n)"
  obtain nm addr where e: "e = (nm, addr)" by fastforce
  have ok: "requests_ok io es" using snoc.prems e by (cases nm) (auto simp: requests_ok_def)
  note app = collect_append [OF snoc.IH [OF ok], of "[e]"]
  show ?case
  proof (cases nm)
    case None
    with app show ?thesis by (simp add: e interface_names_snoc addresses_snoc)
  next
    case (Some name)
    have name: "ni_adapter_name (?g es n) = n" if "n \<in> set (interface_names es)" for n
    proof -
      from that ok obtain hw mtu fl where "answered io n hw mtu fl" by (auto simp: requests_ok_def interface_names_set)
      then show ?thesis by (simp add: interface_of_name)
    qed
    then have in_cache: "name \<in> ni_adapter_name ` set (map (?g es) (interface_names es)) \<longleftrightarrow> name \<in> set (interface_names es)"
      by (force simp: image_image)
    show ?thesis
    proof (cases "name \<in> set (interface_names es)")
      case True
      have "update_named name (apply_address addr) (map (?g es) (interface_names es)) = map (?g (es @ [e])) (interface_names es)"
        using update_named_map [OF interface_names_distinct True name]
        by (auto simp: e Some addresses_snoc intro!: map_cong)
      with True app in_cache show ?thesis by (simp add: e Some interface_names_snoc)
    next
      case False
      from snoc.prems e Some obtain hw mtu fl where d: "answered io name hw mtu fl" "length name < ifnamsiz"
        by (auto simp: requests_ok_def)
      have "map (?g (es @ [e])) (interface_names es) = map (?g es) (interface_names es)"
        using False by (intro map_cong) (auto simp: e Some addresses_snoc)
      with False app in_cache describe_answered [OF d] addresses_none [OF False] show ?thesis
        by (simp add: e Some interface_names_snoc addresses_snoc)
    qed
  qed
qed

text \<open>C31. If the operating system answers every request, the visitor sees each interface once, in the order in which the names
  are met first, with its hardware address, MTU, type and status and with the last address of each family of its entries.\<close>

theorem interfaces_visited:
  assumes "requests_ok io es" and "0 \<le> sock"
  shows "fetch_interfaces hex io (Some es) sock visitor perr =
    Inr (filter visitor (map (\<lambda>n. fold apply_address (addresses_of n es) (interface_of hex io n)) (interface_names es)), None)"
  using assms by (simp add: fetch_interfaces_def foreach_interface_def collect_spec)

theorem interfaces_visited_witness:
  "fetch_interfaces (\<lambda>b. if b = 0 then ''00'' else ''0A'') \<lparr>io_hwaddr = \<lambda>_. Inr [0, 0, 0, 0, 0, 10], io_mtu = \<lambda>_. Inr 1500,
      io_flags = \<lambda>n. Inr (if n = ''lo'' then 9 else 0x1001)\<rparr>
     (Some [(Some ''lo'', IfOtherFamily), (Some ''eth0'', IfOtherFamily), (Some ''lo'', IfInet 0x7F000001), (None, IfNoAddress),
       (Some ''eth0'', IfInet 0xC0A80007), (Some ''eth0'', IfInet 0xC0A80008)]) 5 ni_is_loopback False =
   Inr ([ni_new\<lparr>ni_adapter_name := ''lo'', ni_readable_name := ''lo'', ni_hardware_address := ''00:00:00:00:00:0A'', ni_mtu := 1500,
     ni_type := NitLoopback, ni_status := NisUp, ni_ip4 := Inet4 0x7F000001, ni_flags := 0x80\<rparr>], None)"
proof -
  let ?io = "\<lparr>io_hwaddr = \<lambda>_. Inr [0, 0, 0, 0, 0, 10], io_mtu = \<lambda>_. Inr 1500, io_flags = \<lambda>n. Inr (if n = ''lo'' then 9 else 0x1001)\<rparr>"
  let ?es = "[(Some ''lo'', IfOtherFamily), (Some ''eth0'', IfOtherFamily), (Some ''lo'', IfInet 0x7F000001), (None, IfNoAddress),
    (Some ''eth0'', IfInet 0xC0A80007), (Some ''eth0'', IfInet 0xC0A80008)]"
  have n: "entry_names ?es = [''lo'', ''eth0'', ''lo'', ''eth0'', ''eth0'']" by (simp add: entry_names_def map_filter_def)
  have ok: "requests_ok ?io ?es" "(0 :: int) \<le> 5" by (simp_all add: requests_ok_def n ifnamsiz_def answered_def)
  show ?thesis
    by (subst interfaces_visited [OF ok])
       (simp add: interface_names_def n addresses_of_def interface_of_def hardware_text_def upt_rec ni_is_loopback_def ni_new_def
         iff_up_def iff_loopback_def iff_pointopoint_def iff_multicast_def flag_multicast_def flag_ip4_enabled_def)
qed

text \<open>The socket of the requests is never closed, the list of entries only if nothing failed; one interface about which the
  operating system does not answer keeps all from being visited.\<close>

lemma request_socket_leaks: "0 \<le> sock \<Longrightarrow> IfSocket sock \<in> set (snd (foreach_interface hex io (Some es) sock perr))"
  by (simp add: foreach_interface_def split: sum.split prod.split option.split)

lemma entries_leak:
  "fst (foreach_interface hex io (Some es) sock False) = Inl f \<Longrightarrow> IfEntries \<in> set (snd (foreach_interface hex io (Some es) sock False))"
  by (auto simp: foreach_interface_def Let_def split: sum.splits prod.splits option.splits if_splits)

lemma one_failure_hides_all:
  "length name < ifnamsiz \<Longrightarrow> io_hwaddr io name = Inl e \<Longrightarrow> 0 \<le> sock \<Longrightarrow>
    fst (foreach_interface hex io (Some ((Some name, addr) # es)) sock True) = Inr ([], Some System_error)"
  by (simp add: foreach_interface_def describe_interface_def ioctl_step_def)

end
