(* ===== verification/Startup.thy ===== *)
theory Startup
  imports Prelude
begin

text \<open>
  Starting and stopping the library (src/startup.cpp, include/pfs/netty/startup.hpp) as it is built with UDT on Linux: a
  counter of the guards that are alive, and the library UDT, which is started with the first and stopped with the last.

  The counter is an atomic number, but what follows a change of it is not part of that change: a thread is between the two
  while it starts or stops the library.
\<close>

subsection \<open>One thread\<close>

text \<open>\<open>su_calls\<close> lists the calls of the library: \<open>True\<close> is \<open>UDT::startup\<close>, which ends the program if it fails, \<open>False\<close> is
  \<open>UDT::cleanup\<close>.\<close>

record startup_state =
  su_counter :: int
  su_calls :: "bool list"

definition su_initial :: startup_state where
  "su_initial = \<lparr>su_counter = 0, su_calls = []\<rparr>"

definition startup :: "bool \<Rightarrow> startup_state \<Rightarrow> startup_state result" where
  "startup fails s =
     (let s' = s\<lparr>su_counter := su_counter s + 1\<rparr> in
      if su_counter s = 0 then (if fails then Inl Terminated else Inr (s'\<lparr>su_calls := su_calls s @ [True]\<rparr>)) else Inr s')"

definition cleanup :: "startup_state \<Rightarrow> startup_state" where
  "cleanup s =
     (let s' = s\<lparr>su_counter := su_counter s - 1\<rparr> in
      if su_counter s = 1 then s'\<lparr>su_calls := su_calls s @ [False]\<rparr> else s')"

text \<open>Guards that are made (\<open>True\<close>) and destroyed.\<close>

fun su_run :: "bool list \<Rightarrow> startup_state \<Rightarrow> startup_state result" where
  "su_run [] s = Inr s"
| "su_run (g # gs) s = (if g then bindr (startup False s) (su_run gs) else su_run gs (cleanup s))"

text \<open>There are never more guards destroyed than were made.\<close>

fun su_guards :: "bool list \<Rightarrow> nat \<Rightarrow> bool" where
  "su_guards [] n \<longleftrightarrow> True"
| "su_guards (True # gs) n \<longleftrightarrow> su_guards gs (Suc n)"
| "su_guards (False # gs) n \<longleftrightarrow> 0 < n \<and> su_guards gs (n - 1)"

definition su_alive :: "bool list \<Rightarrow> int" where
  "su_alive gs = int (length (filter id gs)) - int (length (filter Not gs))"

text \<open>Whether the library is started after some calls, if it was started and stopped alternately.\<close>

fun su_up :: "bool \<Rightarrow> bool list \<Rightarrow> bool option" where
  "su_up up [] = Some up"
| "su_up up (c # cs) = (if c = up then None else su_up c cs)"

lemma su_up_append: "su_up up (cs @ [c]) = (case su_up up cs of Some u \<Rightarrow> if c = u then None else Some c | None \<Rightarrow> None)"
  by (induction cs arbitrary: up) auto

definition su_inv :: "startup_state \<Rightarrow> bool" where
  "su_inv s \<longleftrightarrow> 0 \<le> su_counter s \<and> su_up False (su_calls s) = Some (0 < su_counter s)"

lemma startup_inv: "su_inv s \<Longrightarrow> \<exists>t. startup False s = Inr t \<and> su_inv t \<and> su_counter t = su_counter s + 1"
  by (auto simp: su_inv_def startup_def su_up_append Let_def)

lemma cleanup_inv: "su_inv s \<Longrightarrow> 0 < su_counter s \<Longrightarrow> su_inv (cleanup s) \<and> su_counter (cleanup s) = su_counter s - 1"
  by (auto simp: su_inv_def cleanup_def su_up_append Let_def)

lemma su_run_inv:
  assumes "su_inv s" and "su_guards gs (nat (su_counter s))"
  shows "\<exists>t. su_run gs s = Inr t \<and> su_inv t \<and> su_counter t = su_counter s + su_alive gs"
  using assms
proof (induction gs arbitrary: s)
  case (Cons g gs)
  show ?case
  proof (cases g)
    case True
    obtain t where t: "startup False s = Inr t" "su_inv t" "su_counter t = su_counter s + 1"
      using startup_inv [OF Cons.prems(1)] by blast
    have "nat (su_counter t) = Suc (nat (su_counter s))" using t(3) Cons.prems(1) by (simp add: su_inv_def nat_add_distrib)
    with Cons.IH [OF t(2)] Cons.prems(2) True t show ?thesis by (auto simp: su_alive_def)
  next
    case False
    with Cons.prems(2) have c: "0 < su_counter s" "su_guards gs (nat (su_counter s) - 1)" by auto
    from cleanup_inv [OF Cons.prems(1) c(1)] have t: "su_inv (cleanup s)" "su_counter (cleanup s) = su_counter s - 1" by auto
    have "nat (su_counter (cleanup s)) = nat (su_counter s) - 1" using t(2) by simp
    with Cons.IH [OF t(1)] c(2) False t show ?thesis by (auto simp: su_alive_def)
  qed
qed (simp add: su_alive_def)

text \<open>Guards made and destroyed in any order on one thread: the library is started and stopped alternately, beginning with a
  start, and is started exactly while a guard is alive.\<close>

theorem startup_follows_guards:
  assumes "su_guards gs 0"
  shows "\<exists>t. su_run gs su_initial = Inr t \<and> su_counter t = su_alive gs \<and> su_up False (su_calls t) = Some (0 < su_alive gs)"
  using su_run_inv [of su_initial gs] assms by (auto simp: su_inv_def su_initial_def)

theorem startup_follows_guards_witness:
  "su_run [True, True, False, True, False, False, True] su_initial = Inr \<lparr>su_counter = 1, su_calls = [True, False, True]\<rparr> \<and>
   su_up False [True, False, True] = Some True"
  using startup_follows_guards [of "[True, True, False, True, False, False, True]"]
  by (auto simp: su_alive_def su_initial_def startup_def cleanup_def)

subsection \<open>Several threads\<close>

datatype su_pc = SuIdle | SuStarting | SuStopping

record startup_threads =
  st_counter :: int
  st_up :: bool
  st_pc :: "nat \<Rightarrow> su_pc"
  st_guards :: "nat \<Rightarrow> nat"

text \<open>The steps of a thread: the change of the counter, which tells whether the library is to be started or stopped, and then
  that. \<open>st_guards\<close> are the guards that a thread holds once its call has returned.\<close>

inductive st_step :: "startup_threads \<Rightarrow> startup_threads \<Rightarrow> bool" where
  "st_pc s t = SuIdle \<Longrightarrow> st_counter s = 0 \<Longrightarrow> st_step s (s\<lparr>st_counter := st_counter s + 1, st_pc := (st_pc s)(t := SuStarting)\<rparr>)"
| "st_pc s t = SuIdle \<Longrightarrow> st_counter s \<noteq> 0 \<Longrightarrow> st_step s (s\<lparr>st_counter := st_counter s + 1, st_guards := (st_guards s)(t := Suc (st_guards s t))\<rparr>)"
| "st_pc s t = SuStarting \<Longrightarrow> st_step s (s\<lparr>st_up := True, st_pc := (st_pc s)(t := SuIdle), st_guards := (st_guards s)(t := Suc (st_guards s t))\<rparr>)"
| "st_pc s t = SuIdle \<Longrightarrow> 0 < st_guards s t \<Longrightarrow> st_counter s = 1 \<Longrightarrow>
    st_step s (s\<lparr>st_counter := st_counter s - 1, st_pc := (st_pc s)(t := SuStopping), st_guards := (st_guards s)(t := st_guards s t - 1)\<rparr>)"
| "st_pc s t = SuIdle \<Longrightarrow> 0 < st_guards s t \<Longrightarrow> st_counter s \<noteq> 1 \<Longrightarrow>
    st_step s (s\<lparr>st_counter := st_counter s - 1, st_guards := (st_guards s)(t := st_guards s t - 1)\<rparr>)"
| "st_pc s t = SuStopping \<Longrightarrow> st_step s (s\<lparr>st_up := False, st_pc := (st_pc s)(t := SuIdle)\<rparr>)"

definition st_initial :: startup_threads where
  "st_initial = \<lparr>st_counter = 0, st_up = False, st_pc = \<lambda>_. SuIdle, st_guards = \<lambda>_. 0\<rparr>"

inductive st_reach :: "startup_threads \<Rightarrow> bool" where
  "st_reach st_initial"
| "st_reach s \<Longrightarrow> st_step s s' \<Longrightarrow> st_reach s'"

text \<open>The second of two threads that start the library returns before it is started, and if the last guard is destroyed while
  another thread makes one, the library may be stopped with a guard alive and no thread on its way to start it.\<close>

lemma startup_returns_early: "\<exists>s. st_reach s \<and> 0 < st_guards s 1 \<and> \<not> st_up s"
proof -
  let ?s1 = "st_initial\<lparr>st_counter := 1, st_pc := (\<lambda>_. SuIdle)(0 := SuStarting)\<rparr>"
  let ?s2 = "?s1\<lparr>st_counter := 2, st_guards := (\<lambda>_. 0)(1 := 1)\<rparr>"
  have "st_step st_initial ?s1" using st_step.intros(1) [of st_initial 0] by (simp add: st_initial_def)
  then have r1: "st_reach ?s1" by (rule st_reach.intros(2) [OF st_reach.intros(1)])
  have "st_step ?s1 ?s2" using st_step.intros(2) [of ?s1 1] by (simp add: st_initial_def)
  then have "st_reach ?s2" by (rule st_reach.intros(2) [OF r1])
  then show ?thesis by (intro exI [of _ ?s2]) (simp add: st_initial_def)
qed

lemma cleanup_race: "\<exists>s. st_reach s \<and> st_counter s = 1 \<and> st_guards s 1 = 1 \<and> (\<forall>t. st_pc s t = SuIdle) \<and> \<not> st_up s"
proof -
  let ?s1 = "st_initial\<lparr>st_counter := 1, st_pc := (\<lambda>_. SuIdle)(0 := SuStarting)\<rparr>"
  let ?s2 = "?s1\<lparr>st_up := True, st_pc := \<lambda>_. SuIdle, st_guards := (\<lambda>_. 0)(0 := 1)\<rparr>"
  let ?s3 = "?s2\<lparr>st_counter := 0, st_pc := (\<lambda>_. SuIdle)(0 := SuStopping), st_guards := \<lambda>_. 0\<rparr>"
  let ?s4 = "?s3\<lparr>st_counter := 1, st_pc := (\<lambda>_. SuIdle)(0 := SuStopping, 1 := SuStarting)\<rparr>"
  let ?s5 = "?s4\<lparr>st_up := True, st_pc := (\<lambda>_. SuIdle)(0 := SuStopping), st_guards := (\<lambda>_. 0)(1 := 1)\<rparr>"
  let ?s6 = "?s5\<lparr>st_up := False, st_pc := \<lambda>_. SuIdle\<rparr>"
  have u: "(\<lambda>_. SuIdle)(t := SuIdle) = (\<lambda>_. SuIdle)" "(\<lambda>_ :: nat. 0 :: nat)(t := 0) = (\<lambda>_. 0)" for t :: nat by auto
  have v: "(\<lambda>_. SuIdle)(0 := SuStopping, Suc 0 := SuIdle) = (\<lambda>_. SuIdle)(0 := SuStopping)" by (auto simp: fun_eq_iff)
  have "st_step st_initial ?s1" using st_step.intros(1) [of st_initial 0] by (simp add: st_initial_def)
  then have r1: "st_reach ?s1" by (rule st_reach.intros(2) [OF st_reach.intros(1)])
  have "st_step ?s1 ?s2" using st_step.intros(3) [of ?s1 0] by (simp add: st_initial_def u)
  then have r2: "st_reach ?s2" by (rule st_reach.intros(2) [OF r1])
  have "st_step ?s2 ?s3" using st_step.intros(4) [of ?s2 0] by (simp add: st_initial_def u)
  then have r3: "st_reach ?s3" by (rule st_reach.intros(2) [OF r2])
  have "st_step ?s3 ?s4" using st_step.intros(1) [of ?s3 1] by (simp add: st_initial_def u)
  then have r4: "st_reach ?s4" by (rule st_reach.intros(2) [OF r3])
  have "st_step ?s4 ?s5" using st_step.intros(3) [of ?s4 1] by (simp add: st_initial_def v u)
  then have r5: "st_reach ?s5" by (rule st_reach.intros(2) [OF r4])
  have "st_step ?s5 ?s6" using st_step.intros(6) [of ?s5 0] by (simp add: st_initial_def u)
  then have "st_reach ?s6" by (rule st_reach.intros(2) [OF r5])
  then show ?thesis by (intro exI [of _ ?s6]) (simp add: st_initial_def)
qed

end
