(* ===== verification/Service.thy ===== *)
theory Service
  imports ClientServerPoller FileSystem WriterPool ReaderPool Loops
begin

text \<open>
  \<open>netty::service\<close> (include/pfs/netty/service.hpp): the client \<open>requester\<close>, whose base class is a
  \<open>client_poller\<close>, and the server \<open>respondent\<close>, whose base class is a \<open>server_poller\<close>.

  The pollers and the sockets are the environment. What the classes ask of them and the callbacks they make
  are events in the order the code makes them; the callbacks of the poller during one \<open>poll\<close> and the
  answers of the sockets are arguments. \<open>output_queue_type\<close>, a \<open>pfs::ring_buffer\<close>, is used as a queue
  without a bound. \<open>InputEnvelope\<close> and its deserializer are parameters of the template, a record of
  operations here. A callback for a message may enqueue data in turn.

  The functions that loop are partial: \<open>None\<close> is a loop that does not end.
\<close>

subsection \<open>Events\<close>

datatype 'm svc_event =
    SvcFailure errc
  | SvcError
  | SvcConnected
  | SvcRefused
  | SvcAccepted socket_id
  | SvcDisconnected socket_id
  | SvcReleased socket_id
  | SvcMessage socket_id 'm
  | SvcEnqueued socket_id bytes
  | SvcReceived socket_id bytes
  | SvcSent socket_id bytes send_result
  | SvcWaitForWrite socket_id
  | SvcPollerAdd socket_id conn_status
  | SvcPollerRemove socket_id
  | SvcSocketDisconnect socket_id

subsection \<open>Envelopes\<close>

text \<open>The deserializer over the bytes of a buffer: whether it is true, how an envelope is made of it (none for one
  that is corrupted) and how far it has read.\<close>

record ('m, 'd) envelope_ops =
  ev_open :: "bytes \<Rightarrow> 'd"
  ev_more :: "'d \<Rightarrow> bool"
  ev_read :: "'d \<Rightarrow> 'm option \<times> 'd"
  ev_pos :: "'d \<Rightarrow> nat"

text \<open>The loop over the envelopes in the buffer: the messages, whether all were in order, and the bytes processed.\<close>

definition env_once :: "('m, 'd) envelope_ops \<Rightarrow> nat \<Rightarrow> 'm list \<times> bool \<times> 'd \<Rightarrow> (bool \<times> 'm list \<times> bool \<times> 'd) result" where
  "env_once ev k s = (case s of (ms, ok, d) \<Rightarrow>
     (if ev_more ev d then
        (case ev_read ev d of
           (None, d') \<Rightarrow> Inr (False, ms, False, d')
         | (Some m, d') \<Rightarrow> Inr (True, ms @ [m], ok, d'))
      else Inr (False, ms, ok, d)))"

definition env_loop :: "('m, 'd) envelope_ops \<Rightarrow> bytes \<Rightarrow> ('m list \<times> bool \<times> 'd) result option" where
  "env_loop ev bs = loop_while (env_once ev) 0 ([], True, ev_open ev bs)"

subsection \<open>The requester\<close>

record 'm requester =
  rq_sock :: socket_id
  rq_can_write :: bool
  rq_q :: "bytes list"
  rq_inpb :: bytes
  rq_connected :: bool
  rq_connecting :: bool
  rq_log :: "'m svc_event list"

definition rq_new :: "'m requester" where
  "rq_new = \<lparr>rq_sock = -1, rq_can_write = False, rq_q = [], rq_inpb = [], rq_connected = False, rq_connecting = False, rq_log = []\<rparr>"

definition rq_emit :: "'m svc_event list \<Rightarrow> 'm requester \<Rightarrow> 'm requester" where
  "rq_emit es r = r\<lparr>rq_log := rq_log r @ es\<rparr>"

definition rq_enqueue :: "bytes \<Rightarrow> 'm requester \<Rightarrow> 'm requester" where
  "rq_enqueue data r = rq_emit [SvcEnqueued (rq_sock r) data] (r\<lparr>rq_q := rq_q r @ [data]\<rparr>)"

text \<open>The answer of \<open>connect\<close>: the status, the error and the identifier of the socket it made.\<close>

record conn_answer =
  ca_status :: conn_status
  ca_err :: "errc option"
  ca_id :: socket_id

text \<open>\<open>client_poller::add\<close> refuses what is neither connected nor connecting.\<close>

definition rq_connect :: "bool \<Rightarrow> conn_answer \<Rightarrow> (bool \<times> errc option, 'm requester) act" where
  "rq_connect perr a r =
     (let r = r\<lparr>rq_sock := ca_id a\<rparr>;
          err = (case ca_err a of
                   Some e \<Rightarrow> Some e
                 | None \<Rightarrow> if ca_status a \<in> {ConnConnecting, ConnConnected} then None else Some Poller_error);
          r = (if ca_err a = None \<and> err = None then rq_emit [SvcPollerAdd (rq_sock r) (ca_status a)] r else r)
      in case err of
           Some e \<Rightarrow> (if perr then (Inr (False, Some e), r) else (Inl (Thrown e), r))
         | None \<Rightarrow> (Inr (True, None), r\<lparr>rq_connecting := True\<rparr>))"

definition rq_disconnect :: "'m requester \<Rightarrow> 'm requester" where
  "rq_disconnect r = rq_emit [SvcPollerRemove (rq_sock r)] r"

text \<open>The loop that reads 512 bytes at a time. When \<open>recv\<close> fails the room it was given stays in the buffer.
  The answers of \<open>recv\<close> are a list; \<open>None\<close>: the loop has not come to an end with them.\<close>

definition input_size_quant :: nat where "input_size_quant = 512"

fun rq_recv_loop :: "recv_answer list \<Rightarrow> bytes \<Rightarrow> (bool \<times> bytes \<times> bytes) option" where
  "rq_recv_loop [] inpb = None"
| "rq_recv_loop (RecvError e # as) inpb = Some (False, inpb @ replicate input_size_quant 0, [])"
| "rq_recv_loop (RecvData d # as) inpb =
     (if length d < input_size_quant then Some (True, inpb @ d, d)
      else map_option (\<lambda>(ok, b, got). (ok, b, d @ got)) (rq_recv_loop as (inpb @ d)))"

text \<open>The callback for a message, and what it enqueues.\<close>

definition rq_deliver :: "('m \<Rightarrow> bytes list) \<Rightarrow> 'm \<Rightarrow> 'm requester \<Rightarrow> 'm requester" where
  "rq_deliver app m r = fold rq_enqueue (app m) (rq_emit [SvcMessage (rq_sock r) m] r)"

definition rq_process_input ::
  "('m, 'd) envelope_ops \<Rightarrow> ('m \<Rightarrow> bytes list) \<Rightarrow> recv_answer list \<Rightarrow> 'm requester \<Rightarrow> 'm requester result option" where
  "rq_process_input ev app answers r =
     (case rq_recv_loop answers (rq_inpb r) of
        None \<Rightarrow> None
      | Some (ok, b, got) \<Rightarrow>
          (let r = rq_emit [SvcReceived (rq_sock r) got] (r\<lparr>rq_inpb := b\<rparr>) in
           if \<not> ok then Some (Inr (rq_emit [SvcError, SvcSocketDisconnect (rq_sock r)] r))
           else
             bindo (env_loop ev b) (\<lambda>(ms, good, d).
               let r = fold (rq_deliver app) ms r in
               Some (if \<not> good then Inr (rq_emit [SvcError, SvcSocketDisconnect (rq_sock r)] r)
                 else if b = [] then Inl Undefined
                 else Inr (if ev_pos ev d > 0 then r\<lparr>rq_inpb := drop (ev_pos ev d) b\<rparr> else r)))))"

text \<open>What is left of the queue when the socket took \<open>n\<close> bytes of its front.\<close>

definition svc_taken :: "nat \<Rightarrow> bytes \<Rightarrow> bytes list \<Rightarrow> bytes list result" where
  "svc_taken n data q =
     (if n = 0 then Inr (data # q)
      else if n = length data then Inr q
      else if n < length data then Inr (drop n data # q)
      else Inl Undefined)"

text \<open>The loop of \<open>send_outgoing_data\<close>; the answer of the call number \<open>k\<close> of \<open>send\<close> is \<open>answers k\<close>.\<close>

type_synonym send_answers = "nat \<Rightarrow> bytes \<Rightarrow> send_result \<times> errc"

definition rq_send_once :: "send_answers \<Rightarrow> nat \<Rightarrow> 'm requester \<Rightarrow> (bool \<times> 'm requester) result" where
  "rq_send_once answers k r =
     (case rq_q r of
        [] \<Rightarrow> Inr (False, r)
      | data # q \<Rightarrow>
          (let res = fst (answers k data); err = snd (answers k data); sid = rq_sock r;
               r = rq_emit [SvcSent sid data res] r in
           case sr_status res of
             SendGood \<Rightarrow> mapr (\<lambda>q'. (True, r\<lparr>rq_q := q'\<rparr>)) (svc_taken (unat (sr_n res)) data q)
           | SendFailure \<Rightarrow> Inr (False, rq_emit [SvcPollerRemove sid, SvcFailure err] r)
           | SendNetwork \<Rightarrow> Inr (False, rq_emit [SvcPollerRemove sid, SvcFailure err] r)
           | SendAgain \<Rightarrow> Inr (False, if rq_can_write r then rq_emit [SvcWaitForWrite sid] (r\<lparr>rq_can_write := False\<rparr>) else r)
           | SendOverflow \<Rightarrow> Inr (False, if rq_can_write r then rq_emit [SvcWaitForWrite sid] (r\<lparr>rq_can_write := False\<rparr>) else r)))"

definition rq_send_outgoing_data :: "send_answers \<Rightarrow> 'm requester \<Rightarrow> 'm requester result option" where
  "rq_send_outgoing_data answers r = (if \<not> rq_can_write r then Some (Inr r) else loop_while (rq_send_once answers) 0 r)"

text \<open>The callbacks that \<open>init_callbacks\<close> sets, with the answers of \<open>recv\<close> for \<open>ready_read\<close>.\<close>

fun rq_on ::
  "('m, 'd) envelope_ops \<Rightarrow> ('m \<Rightarrow> bytes list) \<Rightarrow> cl_event \<times> recv_answer list \<Rightarrow> 'm requester \<Rightarrow> 'm requester result option" where
  "rq_on ev app (ClFailure s err, _) r = Some (Inr (rq_emit [SvcFailure err] r))"
| "rq_on ev app (ClRefused s reason, _) r = Some (Inr (rq_emit [SvcRefused] r))"
| "rq_on ev app (ClConnected s, _) r =
     Some (Inr (rq_emit [SvcConnected] ((rq_emit [SvcWaitForWrite (rq_sock r)] r)\<lparr>rq_connected := True, rq_connecting := False\<rparr>)))"
| "rq_on ev app (ClDisconnected s, _) r =
     Some (Inr (rq_emit [SvcDisconnected s] (r\<lparr>rq_connected := False, rq_connecting := False\<rparr>)))"
| "rq_on ev app (ClReadyRead s, answers) r = rq_process_input ev app answers r"
| "rq_on ev app (ClCanWrite s, _) r = Some (Inr (r\<lparr>rq_can_write := True\<rparr>))"
| "rq_on ev app (ClRemoved s, _) r =
     Some (Inr (rq_emit [SvcReleased s] ((rq_emit [SvcSocketDisconnect (rq_sock r)] r)
       \<lparr>rq_sock := -1, rq_can_write := False, rq_connected := False, rq_connecting := False\<rparr>)))"

text \<open>\<open>step\<close>: the poll with the callbacks it makes, then sending.\<close>

definition rq_step ::
  "('m, 'd) envelope_ops \<Rightarrow> ('m \<Rightarrow> bytes list) \<Rightarrow> (cl_event \<times> recv_answer list) list \<Rightarrow> send_answers \<Rightarrow> 'm requester \<Rightarrow>
    'm requester result option" where
  "rq_step ev app evs answers r = bindo (foldo (rq_on ev app) evs r) (rq_send_outgoing_data answers)"

datatype rq_op =
    RqEnqueue bytes
  | RqConnect bool conn_answer
  | RqDisconnect
  | RqStep "(cl_event \<times> recv_answer list) list" send_answers

text \<open>A caller that catches what \<open>connect\<close> throws.\<close>

fun rq_run_op :: "('m, 'd) envelope_ops \<Rightarrow> ('m \<Rightarrow> bytes list) \<Rightarrow> rq_op \<Rightarrow> 'm requester \<Rightarrow> 'm requester result option" where
  "rq_run_op ev app (RqEnqueue data) r = Some (Inr (rq_enqueue data r))"
| "rq_run_op ev app (RqConnect perr a) r = Some (Inr (snd (rq_connect perr a r)))"
| "rq_run_op ev app RqDisconnect r = Some (Inr (rq_disconnect r))"
| "rq_run_op ev app (RqStep evs answers) r = rq_step ev app evs answers r"

subsection \<open>What went through a socket\<close>

fun sent_part :: "'m svc_event \<Rightarrow> bytes" where
  "sent_part (SvcSent s d res) = (if sr_status res = SendGood then take (unat (sr_n res)) d else [])"
| "sent_part e = []"

fun enqueued_part :: "'m svc_event \<Rightarrow> bytes" where
  "enqueued_part (SvcEnqueued s d) = d"
| "enqueued_part e = []"

fun received_part :: "'m svc_event \<Rightarrow> bytes" where
  "received_part (SvcReceived s d) = d"
| "received_part e = []"

fun message_part :: "'m svc_event \<Rightarrow> 'm list" where
  "message_part (SvcMessage s m) = [m]"
| "message_part e = []"

definition svc_written :: "'m svc_event list \<Rightarrow> bytes" where
  "svc_written es = concat (map sent_part es)"

definition svc_enqueued :: "'m svc_event list \<Rightarrow> bytes" where
  "svc_enqueued es = concat (map enqueued_part es)"

definition svc_received :: "'m svc_event list \<Rightarrow> bytes" where
  "svc_received es = concat (map received_part es)"

definition svc_messages :: "'m svc_event list \<Rightarrow> 'm list" where
  "svc_messages es = concat (map message_part es)"

lemmas svc_parts = svc_written_def svc_enqueued_def svc_received_def svc_messages_def

text \<open>The queue holds what was enqueued and not written yet.\<close>

definition rq_conserves :: "'m requester \<Rightarrow> bool" where
  "rq_conserves r \<longleftrightarrow> svc_written (rq_log r) @ concat (rq_q r) = svc_enqueued (rq_log r)"

lemma svc_taken_concat: "svc_taken n data q = Inr q' \<Longrightarrow> take n data @ concat q' = data @ concat q"
  by (auto simp: svc_taken_def split: if_splits)

text \<open>What an operation changes beside: the input and the errors reported.\<close>

definition same_input :: "'m requester \<Rightarrow> 'm requester \<Rightarrow> bool" where
  "same_input r r' \<longleftrightarrow> rq_inpb r' = rq_inpb r \<and> svc_received (rq_log r') = svc_received (rq_log r) \<and>
     svc_messages (rq_log r') = svc_messages (rq_log r) \<and> (SvcError \<in> set (rq_log r') \<longleftrightarrow> SvcError \<in> set (rq_log r))"

lemma same_input_trans: "same_input r r1 \<Longrightarrow> same_input r1 r2 \<Longrightarrow> same_input r r2"
  by (simp add: same_input_def)

lemma rq_send_once_conserves:
  assumes "rq_send_once answers k r = Inr (c, t)" and "rq_conserves r"
  shows "rq_conserves t \<and> same_input r t"
proof (cases "rq_q r")
  case Nil
  with assms show ?thesis by (simp add: rq_send_once_def same_input_def)
next
  case (Cons data q)
  show ?thesis
  proof (cases "sr_status (fst (answers k data)) = SendGood")
    case True
    with assms(1) Cons obtain q' where q': "svc_taken (unat (sr_n (fst (answers k data)))) data q = Inr q'"
      and t: "t = rq_emit [SvcSent (rq_sock r) data (fst (answers k data))] r\<lparr>rq_q := q'\<rparr>"
      by (auto simp: rq_send_once_def Let_def)
    from assms(2) Cons True svc_taken_concat [OF q'] show ?thesis
      by (simp add: t rq_conserves_def same_input_def rq_emit_def svc_parts)
  next
    case False
    with assms Cons show ?thesis
      by (cases "sr_status (fst (answers k data))")
        (auto simp: rq_send_once_def Let_def rq_conserves_def same_input_def rq_emit_def svc_parts split: if_splits)
  qed
qed

lemma rq_send_conserves:
  assumes "rq_send_outgoing_data answers r = Some (Inr t)" and "rq_conserves r"
  shows "rq_conserves t \<and> same_input r t"
proof (cases "rq_can_write r")
  case True
  with assms(1) have "loop_while (rq_send_once answers) 0 r = Some (Inr t)" by (simp add: rq_send_outgoing_data_def)
  then show ?thesis
  proof (rule loop_while_inv [where P = "\<lambda>u. rq_conserves u \<and> same_input r u"])
    show "rq_conserves r \<and> same_input r r" using assms(2) by (simp add: same_input_def)
    show "rq_conserves v \<and> same_input r v" if "rq_conserves u \<and> same_input r u" "rq_send_once answers k u = Inr (c, v)" for k u c v
      using that rq_send_once_conserves [of answers k u c v] by (blast intro: same_input_trans)
  qed
next
  case False
  with assms show ?thesis by (simp add: rq_send_outgoing_data_def same_input_def)
qed

text \<open>Sending returns if no message is empty and the socket, when it takes data, takes at least a byte.\<close>

definition honest_answers :: "send_answers \<Rightarrow> bool" where
  "honest_answers answers \<longleftrightarrow> (\<forall>k d. d \<noteq> [] \<and> sr_status (fst (answers k d)) = SendGood \<longrightarrow>
     0 < unat (sr_n (fst (answers k d))) \<and> unat (sr_n (fst (answers k d))) \<le> length d)"

fun is_sent :: "'m svc_event \<Rightarrow> bool" where
  "is_sent (SvcSent s d res) = True"
| "is_sent e = False"

definition svc_sends :: "'m svc_event list \<Rightarrow> nat" where
  "svc_sends es = length (filter is_sent es)"

lemma svc_taken_honest:
  assumes "0 < n" and "n \<le> length d" and "\<forall>d\<in>set q. d \<noteq> []"
  shows "\<exists>q'. svc_taken n d q = Inr q' \<and> (\<forall>d\<in>set q'. d \<noteq> []) \<and> length (concat q') + n = length (concat (d # q))"
  using assms by (auto simp: svc_taken_def)

text \<open>An empty message that the socket takes keeps the loop going for ever.\<close>

lemma rq_empty_message_hangs:
  assumes "rq_q r = [] # q" and "rq_can_write r" and "\<And>k. answers k [] = (\<lparr>sr_status = SendGood, sr_n = 0\<rparr>, Success)"
  shows "rq_send_outgoing_data answers r = None"
proof -
  have "loop_while (rq_send_once answers) 0 r = None"
  proof (rule loop_while_diverges [where P = "\<lambda>r. rq_q r = [] # q"])
    show "\<exists>t. rq_send_once answers k s = Inr (True, t) \<and> rq_q t = [] # q" if "rq_q s = [] # q" for k s
      using that assms(3) by (simp add: rq_send_once_def svc_taken_def Let_def)
  qed (rule assms(1))
  with assms(2) show ?thesis by (simp add: rq_send_outgoing_data_def)
qed

lemma rq_send_once_honest:
  fixes r :: "'m requester"
  assumes "honest_answers answers" and "\<forall>d\<in>set (rq_q r). d \<noteq> []"
  shows "\<exists>c t. rq_send_once answers k r = Inr (c, t) \<and> svc_sends (rq_log t) \<le> Suc (svc_sends (rq_log r)) \<and>
    (if c then (\<forall>d\<in>set (rq_q t). d \<noteq> []) \<and> length (concat (rq_q t)) < length (concat (rq_q r)) \<and>
        rq_can_write t = rq_can_write r
     else rq_q t = [] \<and> rq_q r = [] \<and> t = r \<or> \<not> rq_can_write t \<or> (\<exists>err. last (rq_log t) = SvcFailure err))"
proof (cases "rq_q r")
  case Nil
  then have "rq_send_once answers k r = Inr (False, r)" by (simp add: rq_send_once_def)
  with Nil show ?thesis by (intro exI [of _ False] exI [of _ r]) simp
next
  case (Cons data q)
  show ?thesis
  proof (cases "sr_status (fst (answers k data)) = SendGood")
    case True
    let ?n = "unat (sr_n (fst (answers k data)))"
    have "data \<noteq> []" using assms(2) Cons by simp
    with True assms(1) have n: "0 < ?n" "?n \<le> length data" by (auto simp: honest_answers_def)
    with svc_taken_honest [OF n, of q] assms(2) Cons obtain q' where
      "svc_taken ?n data q = Inr q'" "\<forall>d\<in>set q'. d \<noteq> []" "length (concat q') + ?n = length (concat (rq_q r))" by auto
    with True Cons n show ?thesis by (auto simp: rq_send_once_def Let_def rq_emit_def svc_sends_def)
  next
    case False
    with Cons show ?thesis
      by (cases "sr_status (fst (answers k data))") (auto simp: rq_send_once_def Let_def rq_emit_def svc_sends_def)
  qed
qed

text \<open>C32. The loop of the requester that sends ends: if no message of the queue is empty and the socket, when it takes data,
  takes at least a byte, it calls \<open>send\<close> at most once more than there are bytes, and leaves the queue empty, or waits
  for the socket to become writable, or reports a failure.\<close>

theorem requester_send_returns:
  fixes r :: "'m requester"
  assumes "honest_answers answers" and "\<forall>d\<in>set (rq_q r). d \<noteq> []"
  shows "\<exists>t. rq_send_outgoing_data answers r = Some (Inr t) \<and>
    svc_sends (rq_log t) \<le> svc_sends (rq_log r) + length (concat (rq_q r)) + 1 \<and>
    (rq_q t = [] \<or> \<not> rq_can_write t \<or> (\<exists>err. last (rq_log t) = SvcFailure err))"
proof (cases "rq_can_write r")
  case True
  let ?m = "svc_sends (rq_log r) + length (concat (rq_q r))"
  have "\<exists>t. loop_while (rq_send_once answers) 0 r = Some (Inr t) \<and> svc_sends (rq_log t) \<le> ?m + 1 \<and>
      (rq_q t = [] \<or> \<not> rq_can_write t \<or> (\<exists>err. last (rq_log t) = SvcFailure err))"
  proof (rule loop_while_returns [where \<mu> = "\<lambda>s. length (concat (rq_q s))"
      and P = "\<lambda>s :: 'm requester. (\<forall>d\<in>set (rq_q s). d \<noteq> []) \<and> svc_sends (rq_log s) + length (concat (rq_q s)) \<le> ?m"])
    fix k and s :: "'m requester" assume s: "(\<forall>d\<in>set (rq_q s). d \<noteq> []) \<and> svc_sends (rq_log s) + length (concat (rq_q s)) \<le> ?m"
    with rq_send_once_honest [OF assms(1), of s k] obtain c t where
      t: "rq_send_once answers k s = Inr (c, t)" "svc_sends (rq_log t) \<le> Suc (svc_sends (rq_log s))"
      "if c then (\<forall>d\<in>set (rq_q t). d \<noteq> []) \<and> length (concat (rq_q t)) < length (concat (rq_q s)) \<and> rq_can_write t = rq_can_write s
       else rq_q t = [] \<and> rq_q s = [] \<and> t = s \<or> \<not> rq_can_write t \<or> (\<exists>err. last (rq_log t) = SvcFailure err)" by blast
    with s show "\<exists>c t. rq_send_once answers k s = Inr (c, t) \<and>
        (if c then ((\<forall>d\<in>set (rq_q t). d \<noteq> []) \<and> svc_sends (rq_log t) + length (concat (rq_q t)) \<le> ?m) \<and>
             length (concat (rq_q t)) < length (concat (rq_q s))
         else svc_sends (rq_log t) \<le> ?m + 1 \<and> (rq_q t = [] \<or> \<not> rq_can_write t \<or> (\<exists>err. last (rq_log t) = SvcFailure err)))"
      by (cases c) auto
  qed (use assms(2) in simp)
  with True show ?thesis by (simp add: rq_send_outgoing_data_def)
next
  case False
  then show ?thesis by (simp add: rq_send_outgoing_data_def)
qed

definition slow_socket :: send_answers where
  "slow_socket k d = (if k < 2 then (\<lparr>sr_status = SendGood, sr_n = 1\<rparr>, Success) else (\<lparr>sr_status = SendAgain, sr_n = 0\<rparr>, Success))"

theorem requester_send_returns_witness:
  "\<exists>t. rq_send_outgoing_data slow_socket ((rq_new :: nat requester)\<lparr>rq_can_write := True, rq_q := [[1, 2], [3]]\<rparr>) = Some (Inr t) \<and>
    svc_sends (rq_log t) \<le> 4"
proof -
  have "honest_answers slow_socket" by (simp add: honest_answers_def slow_socket_def Suc_le_eq)
  from requester_send_returns [OF this, of "(rq_new :: nat requester)\<lparr>rq_can_write := True, rq_q := [[1, 2], [3]]\<rparr>"]
  show ?thesis by (auto simp: rq_new_def svc_sends_def)
qed

subsection \<open>Envelopes in the stream of bytes\<close>

text \<open>What the code relies on: the deserializer is true on bytes that begin with an envelope, and reads it; an envelope
  that it reads was there. It may be true on other bytes.\<close>

locale service_envelopes =
  fixes ev :: "('m, 'd) envelope_ops" and rest :: "'d \<Rightarrow> bytes" and enc :: "'m \<Rightarrow> bytes"
  assumes open_rest: "rest (ev_open ev bs) = bs \<and> ev_pos ev (ev_open ev bs) = 0"
    and complete: "rest d = enc m @ t \<Longrightarrow> ev_more ev d \<and> (\<exists>d'. ev_read ev d = (Some m, d') \<and> rest d' = t)"
    and sound: "ev_more ev d \<Longrightarrow> ev_read ev d = (Some m, d') \<Longrightarrow>
      rest d = enc m @ rest d' \<and> ev_pos ev d' = ev_pos ev d + length (enc m)"
    and nonempty: "enc m \<noteq> []"

definition incomplete :: "('m \<Rightarrow> bytes) \<Rightarrow> bytes \<Rightarrow> bool" where
  "incomplete enc bs \<longleftrightarrow> (\<forall>m t. bs \<noteq> enc m @ t)"

context service_envelopes
begin

lemma enc_unique: "enc m @ t = enc m' @ t' \<Longrightarrow> m = m' \<and> t = t'"
proof -
  assume e: "enc m @ t = enc m' @ t'"
  define d where "d = ev_open ev (enc m @ t)"
  have r: "rest d = enc m @ t" by (simp add: d_def open_rest)
  from complete [OF r] complete [OF trans [OF r e]] show ?thesis by auto
qed

lemma encs_unique:
  "concat (map enc ms) @ t = concat (map enc ms') @ t' \<Longrightarrow> incomplete enc t \<Longrightarrow> incomplete enc t' \<Longrightarrow> ms = ms' \<and> t = t'"
proof (induction ms arbitrary: ms')
  case Nil
  then show ?case by (cases ms') (auto simp: incomplete_def)
next
  case (Cons m ms)
  show ?case
  proof (cases ms')
    case Nil
    with Cons.prems show ?thesis by (auto simp: incomplete_def)
  next
    case (Cons m' ns)
    with \<open>concat (map enc (m # ms)) @ t = _\<close> have
      "enc m @ concat (map enc ms) @ t = enc m' @ concat (map enc ns) @ t'" by simp
    then have "m = m'" "concat (map enc ms) @ t = concat (map enc ns) @ t'" using enc_unique by blast+
    with Cons Cons.IH [of ns] Cons.prems show ?thesis by simp
  qed
qed

lemma encs_prefix: "concat (map enc ms) @ t = bs \<Longrightarrow> prefix bs (concat (map enc ns)) \<Longrightarrow> prefix ms ns"
proof (induction ms arbitrary: ns bs)
  case (Cons m ms)
  then obtain u where u: "concat (map enc ns) = enc m @ (concat (map enc ms) @ t @ u)" by (auto simp: prefix_def)
  show ?case
  proof (cases ns)
    case Nil
    with u nonempty [of m] show ?thesis by simp
  next
    case (Cons n ns')
    with u have "n = m" "concat (map enc ns') = (concat (map enc ms) @ t) @ u" using enc_unique [of n _ m] by auto
    with Cons Cons.IH [OF refl, of ns'] show ?thesis by (simp add: prefix_def)
  qed
qed simp

lemma env_loop_spec:
  "\<exists>ms ok d. env_loop ev bs = Some (Inr (ms, ok, d)) \<and> (ok \<longrightarrow>
     concat (map enc ms) @ rest d = bs \<and> ev_pos ev d = length (concat (map enc ms)) \<and> incomplete enc (rest d))"
proof -
  define P where "P = (\<lambda>(ms, ok, d). ok \<and> concat (map enc ms) @ rest d = bs \<and> ev_pos ev d = length (concat (map enc ms)))"
  define Q where "Q = (\<lambda>(ms, ok, d). ok \<longrightarrow>
     concat (map enc ms) @ rest d = bs \<and> ev_pos ev d = length (concat (map enc ms)) \<and> incomplete enc (rest d))"
  have "\<exists>t. loop_while (env_once ev) 0 ([], True, ev_open ev bs) = Some (Inr t) \<and> Q t"
  proof (rule loop_while_returns [where P = P and \<mu> = "\<lambda>(ms, ok, d). length (rest d)"])
    show "P ([], True, ev_open ev bs)" by (simp add: P_def open_rest)
    fix k s assume "P s"
    then obtain ms d where s: "s = (ms, True, d)" "concat (map enc ms) @ rest d = bs" "ev_pos ev d = length (concat (map enc ms))"
      by (auto simp: P_def)
    show "\<exists>c t. env_once ev k s = Inr (c, t) \<and>
        (if c then P t \<and> (case t of (ms, ok, d) \<Rightarrow> length (rest d)) < (case s of (ms, ok, d) \<Rightarrow> length (rest d)) else Q t)"
    proof (cases "ev_more ev d")
      case False
      with complete [of d] have "incomplete enc (rest d)" by (auto simp: incomplete_def)
      with False s show ?thesis by (intro exI [of _ False] exI [of _ s]) (simp add: env_once_def Q_def)
    next
      case True
      show ?thesis
      proof (cases "ev_read ev d")
        case (Pair m d')
        show ?thesis
        proof (cases m)
          case None
          with True Pair s show ?thesis by (intro exI [of _ False] exI [of _ "(ms, False, d')"]) (simp add: env_once_def Q_def)
        next
          case (Some m)
          with sound [OF True, of m d'] Pair have d: "rest d = enc m @ rest d'" "ev_pos ev d' = ev_pos ev d + length (enc m)" by auto
          with s nonempty [of m] have "P (ms @ [m], True, d') \<and> length (rest d') < length (rest d)" by (simp add: P_def)
          with Some True Pair s(1) show ?thesis
            by (intro exI [of _ True] exI [of _ "(ms @ [m], True, d')"]) (simp add: env_once_def)
        qed
      qed
    qed
  qed
  then show ?thesis by (simp add: env_loop_def Q_def)
qed

end

lemma rq_enqueue_parts:
  "rq_inpb (rq_enqueue d r) = rq_inpb r" "rq_conserves (rq_enqueue d r) \<longleftrightarrow> rq_conserves r" "same_input r (rq_enqueue d r)"
  by (simp_all add: rq_enqueue_def rq_emit_def rq_conserves_def same_input_def svc_parts)

lemma rq_enqueues_parts:
  "rq_conserves (fold rq_enqueue ds r) \<longleftrightarrow> rq_conserves r" "same_input r (fold rq_enqueue ds r)"
proof (induction ds arbitrary: r)
  case Nil
  { case 1 show ?case by simp }
  { case 2 show ?case by (simp add: same_input_def) }
next
  case (Cons d ds)
  { case 1 show ?case using Cons.IH by (simp add: rq_enqueue_parts) }
  { case 2 show ?case using Cons.IH(2) [of "rq_enqueue d r"] rq_enqueue_parts(3) [of r d] by (auto intro: same_input_trans) }
qed

lemma rq_deliver_parts:
  fixes r :: "'m requester"
  shows
  "rq_conserves (rq_deliver app m r) \<longleftrightarrow> rq_conserves r"
  "rq_inpb (rq_deliver app m r) = rq_inpb r" "svc_received (rq_log (rq_deliver app m r)) = svc_received (rq_log r)"
  "svc_messages (rq_log (rq_deliver app m r)) = svc_messages (rq_log r) @ [m]"
  "SvcError \<in> set (rq_log (rq_deliver app m r)) \<longleftrightarrow> SvcError \<in> set (rq_log r)"
  using rq_enqueues_parts [where ds = "app m" and r = "rq_emit [SvcMessage (rq_sock r) m] r"]
  by (auto simp: rq_deliver_def same_input_def rq_conserves_def rq_emit_def svc_parts)

lemma rq_delivers_parts:
  "rq_conserves (fold (rq_deliver app) ms r) \<longleftrightarrow> rq_conserves r"
  "rq_inpb (fold (rq_deliver app) ms r) = rq_inpb r" "svc_received (rq_log (fold (rq_deliver app) ms r)) = svc_received (rq_log r)"
  "svc_messages (rq_log (fold (rq_deliver app) ms r)) = svc_messages (rq_log r) @ ms"
  "SvcError \<in> set (rq_log (fold (rq_deliver app) ms r)) \<longleftrightarrow> SvcError \<in> set (rq_log r)"
  by (induction ms arbitrary: r) (simp_all add: rq_deliver_parts)

lemma rq_recv_loop_data: "rq_recv_loop answers b = Some (True, b', got) \<Longrightarrow> b' = b @ got"
  by (induction answers b arbitrary: b' got rule: rq_recv_loop.induct) (auto split: if_splits)

text \<open>What holds of a requester as long as it reported no error: the messages and the buffer are what was received, and
  there is no whole envelope in the buffer.\<close>

definition rq_reads :: "('m \<Rightarrow> bytes) \<Rightarrow> 'm requester \<Rightarrow> bool" where
  "rq_reads enc r \<longleftrightarrow> (SvcError \<notin> set (rq_log r) \<longrightarrow>
     concat (map enc (svc_messages (rq_log r))) @ rq_inpb r = svc_received (rq_log r) \<and> incomplete enc (rq_inpb r))"

lemma same_input_reads: "same_input r r' \<Longrightarrow> rq_reads enc r \<Longrightarrow> rq_reads enc r'"
  by (simp add: same_input_def rq_reads_def)

lemma rq_process_input_keeps:
  assumes "service_envelopes ev rest enc" and "rq_process_input ev app answers r = Some (Inr t)"
    and "rq_conserves r" and "rq_reads enc r"
  shows "rq_conserves t \<and> rq_reads enc t"
proof -
  from assms(2) obtain ok b got where l: "rq_recv_loop answers (rq_inpb r) = Some (ok, b, got)"
    by (auto simp: rq_process_input_def split: option.splits)
  define r1 where "r1 = rq_emit [SvcReceived (rq_sock r) got] (r\<lparr>rq_inpb := b\<rparr>)"
  have c1: "rq_conserves r1" "svc_messages (rq_log r1) = svc_messages (rq_log r)" "rq_inpb r1 = b"
    "svc_received (rq_log r1) = svc_received (rq_log r) @ got" "SvcError \<in> set (rq_log r1) \<longleftrightarrow> SvcError \<in> set (rq_log r)"
    using assms(3) by (simp_all add: r1_def rq_conserves_def rq_emit_def svc_parts)
  show ?thesis
  proof (cases ok)
    case False
    with assms(2) l have "t = rq_emit [SvcError, SvcSocketDisconnect (rq_sock r1)] r1"
      by (simp add: rq_process_input_def r1_def Let_def)
    with c1 show ?thesis by (simp add: rq_conserves_def rq_reads_def rq_emit_def svc_parts)
  next
    case True
    from service_envelopes.env_loop_spec [OF assms(1), of b] obtain ms good d where
      e: "env_loop ev b = Some (Inr (ms, good, d))" "good \<longrightarrow> concat (map enc ms) @ rest d = b \<and>
        ev_pos ev d = length (concat (map enc ms)) \<and> incomplete enc (rest d)" by blast
    define r2 where "r2 = fold (rq_deliver app) ms r1"
    have r2: "rq_conserves r2" "svc_messages (rq_log r2) = svc_messages (rq_log r) @ ms"
      "svc_received (rq_log r2) = svc_received (rq_log r) @ got" "SvcError \<in> set (rq_log r2) \<longleftrightarrow> SvcError \<in> set (rq_log r)"
      using c1 by (simp_all add: r2_def rq_delivers_parts)
    have i2: "rq_inpb r2 = b" by (simp add: r2_def rq_delivers_parts c1)
    have t: "(if \<not> good then Inr (rq_emit [SvcError, SvcSocketDisconnect (rq_sock r2)] r2)
        else if b = [] then Inl Undefined
        else Inr (if ev_pos ev d > 0 then r2\<lparr>rq_inpb := drop (ev_pos ev d) b\<rparr> else r2)) = Inr t"
      using assms(2) l True e(1)
      by (cases good; cases "b = []"; cases "0 < ev_pos ev d") (simp_all add: rq_process_input_def r1_def r2_def Let_def)
    show ?thesis
    proof (cases good)
      case False
      with t r2 show ?thesis by (auto simp: rq_conserves_def rq_reads_def rq_emit_def svc_parts)
    next
      case good: True
      with e(2) have b: "b = concat (map enc ms) @ rest d" "ev_pos ev d = length (concat (map enc ms))" "incomplete enc (rest d)" by auto
      then have "drop (ev_pos ev d) b = rest d" by simp
      with t good i2 have "t = r2\<lparr>rq_inpb := rest d\<rparr>" by (auto split: if_splits)
      moreover have "concat (map enc (svc_messages (rq_log r))) @ b = svc_received (rq_log r) @ got"
        if "SvcError \<notin> set (rq_log r)"
        using assms(4) that rq_recv_loop_data [of answers "rq_inpb r" b got] l True by (auto simp: rq_reads_def)
      ultimately show ?thesis using r2 b by (simp add: rq_conserves_def rq_reads_def)
    qed
  qed
qed

lemma rq_on_keeps:
  assumes "service_envelopes ev rest enc" and "rq_on ev app e r = Some (Inr t)" and "rq_conserves r \<and> rq_reads enc r"
  shows "rq_conserves t \<and> rq_reads enc t"
proof (cases "\<exists>s. fst e = ClReadyRead s")
  case True
  then obtain s as where "e = (ClReadyRead s, as)" by (cases e) auto
  with assms(2,3) rq_process_input_keeps [OF assms(1)] show ?thesis by auto
next
  case False
  obtain x as where e: "e = (x, as)" by (cases e)
  from False assms(2) e have "same_input r t \<and> (rq_conserves r \<longrightarrow> rq_conserves t)"
    by (cases x) (auto simp: rq_emit_def same_input_def rq_conserves_def svc_parts)
  with assms(3) show ?thesis using same_input_reads by blast
qed

lemma rq_run_op_keeps:
  assumes "service_envelopes ev rest enc" and "rq_run_op ev app x r = Some (Inr t)" and "rq_conserves r \<and> rq_reads enc r"
  shows "rq_conserves t \<and> rq_reads enc t"
proof (cases x)
  case (RqEnqueue data)
  with assms(2,3) rq_enqueue_parts [where d = data and r = r] show ?thesis by (auto intro: same_input_reads)
next
  case (RqConnect perr a)
  with assms(2) have "same_input r t \<and> (rq_conserves r \<longrightarrow> rq_conserves t)"
    by (auto simp: rq_connect_def Let_def rq_emit_def same_input_def rq_conserves_def svc_parts split: option.splits if_splits)
  with assms(3) show ?thesis using same_input_reads by blast
next
  case RqDisconnect
  with assms(2) have "same_input r t \<and> (rq_conserves r \<longrightarrow> rq_conserves t)"
    by (auto simp: rq_disconnect_def rq_emit_def same_input_def rq_conserves_def svc_parts)
  with assms(3) show ?thesis using same_input_reads by blast
next
  case (RqStep evs answers)
  with assms(2) obtain u where u: "foldo (rq_on ev app) evs r = Some (Inr u)" "rq_send_outgoing_data answers u = Some (Inr t)"
    by (auto simp: rq_step_def bindo_eq_Inr)
  from u(1) assms(3) have "rq_conserves u \<and> rq_reads enc u" by (rule foldo_inv) (rule rq_on_keeps [OF assms(1)])
  with rq_send_conserves [OF u(2)] show ?thesis by (auto intro: same_input_reads)
qed

lemma rq_run_keeps:
  fixes r :: "'m requester"
  assumes "service_envelopes ev rest enc" and "foldo (rq_run_op ev app) ops rq_new = Some (Inr r)"
  shows "rq_conserves r \<and> rq_reads enc r"
proof -
  have "incomplete enc []" using service_envelopes.nonempty [OF assms(1)] by (simp add: incomplete_def)
  then have "rq_conserves (rq_new :: 'm requester) \<and> rq_reads enc rq_new"
    by (simp add: rq_conserves_def rq_reads_def rq_new_def svc_parts)
  with assms(2) show ?thesis by (rule foldo_inv) (rule rq_run_op_keeps [OF assms(1)])
qed

text \<open>C25. What a requester reads and writes are the messages in order, whatever callbacks the poller makes, in whatever pieces
  the bytes arrive and however many of them the socket takes at a time: as long as no error was reported, the
  messages delivered are exactly those whose envelopes are in the bytes received, an incomplete one is kept, and what was
  written and what is queued are together what was enqueued.\<close>

theorem requester_streams:
  assumes "service_envelopes ev rest enc" and "foldo (rq_run_op ev app) ops rq_new = Some (Inr r)"
    and "SvcError \<notin> set (rq_log r)" and "svc_received (rq_log r) = concat (map enc ms) @ t" and "incomplete enc t"
  shows "svc_messages (rq_log r) = ms \<and> rq_inpb r = t \<and> svc_written (rq_log r) @ concat (rq_q r) = svc_enqueued (rq_log r)"
proof -
  from assms(3-5) rq_run_keeps [OF assms(1,2)] service_envelopes.encs_unique [OF assms(1), of "svc_messages (rq_log r)" "rq_inpb r" ms t] show ?thesis
    by (simp add: rq_reads_def rq_conserves_def)
qed

text \<open>Envelopes of two bytes after a start byte.\<close>

definition pair_envelopes :: "(byte \<times> byte, bytes \<times> nat) envelope_ops" where
  "pair_envelopes = \<lparr>ev_open = (\<lambda>bs. (bs, 0)), ev_more = (\<lambda>(bs, n). length bs \<ge> 3),
     ev_read = (\<lambda>(bs, n). (if hd bs = 1 then Some (bs ! 1, bs ! 2) else None, (drop 3 bs, n + 3))), ev_pos = snd\<rparr>"

interpretation pe: service_envelopes pair_envelopes fst "\<lambda>(a, b). [1, a, b]"
proof
  fix d :: "bytes \<times> nat" and m d'
  assume "ev_more pair_envelopes d" "ev_read pair_envelopes d = (Some m, d')"
  moreover obtain a b c bs n where "ev_more pair_envelopes d \<Longrightarrow> d = (a # b # c # bs, n)"
    by (cases d; cases "fst d"; cases "tl (fst d)"; cases "tl (tl (fst d))") (auto simp: pair_envelopes_def)
  ultimately show "fst d = (case m of (a, b) \<Rightarrow> [1, a, b]) @ fst d' \<and>
      ev_pos pair_envelopes d' = ev_pos pair_envelopes d + length (case m of (a, b) \<Rightarrow> [1, a, b])"
    by (auto simp: pair_envelopes_def split: if_splits)
qed (auto simp: pair_envelopes_def)

theorem requester_streams_witness:
  "\<exists>r. foldo (rq_run_op pair_envelopes (\<lambda>m. [[fst m]]))
     [RqConnect True \<lparr>ca_status = ConnConnecting, ca_err = None, ca_id = 5\<rparr>,
      RqStep [(ClConnected 5, [])] slow_socket,
      RqStep [(ClReadyRead 5, [RecvData [1, 7]]), (ClReadyRead 5, [RecvData [8, 1]]), (ClCanWrite 5, [])] slow_socket] rq_new = Some (Inr r) \<and>
     svc_messages (rq_log r) = [(7, 8)] \<and> rq_inpb r = [1] \<and> svc_written (rq_log r) = [7]"
proof -
  let ?ops = "[RqConnect True \<lparr>ca_status = ConnConnecting, ca_err = None, ca_id = 5\<rparr>,
      RqStep [(ClConnected 5, [])] slow_socket,
      RqStep [(ClReadyRead 5, [RecvData [1, 7]]), (ClReadyRead 5, [RecvData [8, 1]]), (ClCanWrite 5, [])] slow_socket]"
  obtain r where r: "foldo (rq_run_op pair_envelopes (\<lambda>m. [[fst m]])) ?ops rq_new = Some (Inr r)"
    "SvcError \<notin> set (rq_log r)" "svc_received (rq_log r) = [1, 7, 8, 1]" "svc_written (rq_log r) = [7]"
    by (simp add: rq_step_def rq_connect_def rq_emit_def rq_new_def rq_process_input_def env_loop_def env_once_def
        pair_envelopes_def loop_while.simps input_size_quant_def rq_deliver_def rq_enqueue_def rq_send_outgoing_data_def
        rq_send_once_def slow_socket_def svc_taken_def svc_parts Let_def)
  have "incomplete (\<lambda>(a, b). [1, a, b]) [1 :: byte]" by (simp add: incomplete_def)
  with requester_streams [OF pe.service_envelopes_axioms r(1,2), of "[(7, 8)]" "[1]"] r show ?thesis by auto
qed

subsection \<open>What a requester keeps\<close>

text \<open>A requester whose socket was removed keeps the bytes it did not process and the messages it did not send: what the
  next connection receives is appended to the rest of the last one.\<close>

lemma rq_stale_input:
  assumes "rq_on ev app (ClRemoved s, as) r = Some (Inr t)"
  shows "rq_inpb t = rq_inpb r \<and> rq_q t = rq_q r \<and> rq_sock t = -1"
  using assms by (auto simp: rq_emit_def)

text \<open>When \<open>recv\<close> fails, the 512 bytes of room it was given are taken for input by the next \<open>ready_read\<close>.\<close>

lemma rq_recv_failure_leaves:
  "rq_process_input ev app [RecvError e] r =
    Some (Inr (rq_emit [SvcError, SvcSocketDisconnect (rq_sock r)]
      (rq_emit [SvcReceived (rq_sock r) []] (r\<lparr>rq_inpb := rq_inpb r @ replicate 512 0\<rparr>))))"
  by (simp add: rq_process_input_def Let_def input_size_quant_def rq_emit_def)

text \<open>A connection that is established at once is only added to the readers, so \<open>connected\<close> is not called: the requester goes
  on connecting, and as nobody waits for the socket to become writable, nothing is sent.\<close>

lemma rq_immediate_connect_stalls:
  "rq_connect perr \<lparr>ca_status = ConnConnected, ca_err = None, ca_id = sid\<rparr> r =
     (Inr (True, None), (rq_emit [SvcPollerAdd sid ConnConnected] (r\<lparr>rq_sock := sid\<rparr>))\<lparr>rq_connecting := True\<rparr>)"
  "cl_add sid ConnConnected p = Inr (p\<lparr>cl_addable_readers := cl_addable_readers p @ [sid]\<rparr>)"
  "\<not> rq_can_write r \<Longrightarrow> rq_send_outgoing_data answers r = Some (Inr r)"
  by (simp_all add: rq_connect_def cl_add_def rq_send_outgoing_data_def)

end
