(* ===== verification/Respondent.thy ===== *)
theory Respondent
  imports Service
begin

text \<open>
  The server of \<open>netty::service\<close> (include/pfs/netty/service.hpp, class \<open>respondent\<close>), over the events and
  envelopes of \<open>Service\<close>. Its accounts are a \<open>std::map\<close> by the identifier of the socket.

  \<open>recv\<close> is called without a place for an error, so a socket that fails throws, and the branch for a negative number of
  bytes is not taken by any socket of the repository; \<open>available\<close> and the answer of \<open>recv\<close> are arguments.
\<close>

subsection \<open>State\<close>

record requester_account =
  qa_can_write :: bool
  qa_inb :: bytes
  qa_outq :: "bytes list"

record 'm respondent =
  rs_requesters :: "(socket_id \<times> requester_account) list"
  rs_log :: "'m svc_event list"

definition rs_new :: "'m respondent" where
  "rs_new = \<lparr>rs_requesters = [], rs_log = []\<rparr>"

definition rs_emit :: "'m svc_event list \<Rightarrow> 'm respondent \<Rightarrow> 'm respondent" where
  "rs_emit es r = r\<lparr>rs_log := rs_log r @ es\<rparr>"

definition rs_put :: "socket_id \<Rightarrow> requester_account \<Rightarrow> 'm respondent \<Rightarrow> 'm respondent" where
  "rs_put sid a r = r\<lparr>rs_requesters := om_update sid a (rs_requesters r)\<rparr>"

subsection \<open>Operations\<close>

text \<open>\<open>accept_proc\<close>: the identifier it returns and the flag \<open>success\<close>, for what the listener answers.\<close>

definition rs_accept :: "errc + socket_id \<Rightarrow> 'm respondent \<Rightarrow> (socket_id \<times> bool) \<times> 'm respondent" where
  "rs_accept a r =
     (case a of
        Inl e \<Rightarrow> ((-1, False), rs_emit [SvcError] r)
      | Inr sid \<Rightarrow>
          (case map_of (rs_requesters r) sid of
             None \<Rightarrow> ((sid, True), rs_put sid \<lparr>qa_can_write = True, qa_inb = [], qa_outq = []\<rparr> r)
           | Some b \<Rightarrow> ((-1, True), rs_emit [SvcError] r)))"

definition rs_locate_account :: "socket_id \<Rightarrow> 'm respondent \<Rightarrow> requester_account option \<times> 'm respondent" where
  "rs_locate_account sid r =
     (case map_of (rs_requesters r) sid of
        None \<Rightarrow> (None, rs_emit [SvcFailure Unexpected_error] r)
      | Some a \<Rightarrow> (Some a, r))"

definition rs_enqueue :: "socket_id \<Rightarrow> bytes \<Rightarrow> 'm respondent \<Rightarrow> 'm respondent" where
  "rs_enqueue sid data r =
     (case rs_locate_account sid r of
        (None, r) \<Rightarrow> r
      | (Some a, r) \<Rightarrow> rs_emit [SvcEnqueued sid data] (rs_put sid (a\<lparr>qa_outq := qa_outq a @ [data]\<rparr>) r))"

definition rs_enqueue_broadcast :: "bytes \<Rightarrow> 'm respondent \<Rightarrow> 'm respondent" where
  "rs_enqueue_broadcast data r =
     rs_emit (map (\<lambda>(sid, a). SvcEnqueued sid data) (rs_requesters r))
       (r\<lparr>rs_requesters := map (\<lambda>(sid, a). (sid, a\<lparr>qa_outq := qa_outq a @ [data]\<rparr>)) (rs_requesters r)\<rparr>)"

text \<open>The callback for a message may enqueue data for any socket.\<close>

definition rs_deliver :: "(socket_id \<Rightarrow> 'm \<Rightarrow> (socket_id \<times> bytes) list) \<Rightarrow> socket_id \<Rightarrow> 'm \<Rightarrow> 'm respondent \<Rightarrow> 'm respondent" where
  "rs_deliver app sid m r = fold (\<lambda>(s, d). rs_enqueue s d) (app sid m) (rs_emit [SvcMessage sid m] r)"

text \<open>The buffer gets room for what is available and keeps all of it, however many bytes \<open>recv\<close> stores.\<close>

definition rs_set_inb :: "socket_id \<Rightarrow> bytes \<Rightarrow> 'm respondent \<Rightarrow> 'm respondent" where
  "rs_set_inb sid b r =
     (case map_of (rs_requesters r) sid of None \<Rightarrow> r | Some a \<Rightarrow> rs_put sid (a\<lparr>qa_inb := b\<rparr>) r)"

definition rs_process_input ::
  "('m, 'd) envelope_ops \<Rightarrow> (socket_id \<Rightarrow> 'm \<Rightarrow> (socket_id \<times> bytes) list) \<Rightarrow> nat \<Rightarrow> recv_answer \<Rightarrow> socket_id \<Rightarrow>
    'm respondent \<Rightarrow> 'm respondent result option" where
  "rs_process_input ev app available answer sid r =
     (case rs_locate_account sid r of
        (None, r) \<Rightarrow> Some (Inr r)
      | (Some a, r) \<Rightarrow>
          (case answer of
             RecvError e \<Rightarrow> Some (Inl (Thrown e))
           | RecvData d \<Rightarrow>
               (let b = qa_inb a @ d @ replicate (available - length d) 0;
                    r = rs_emit [SvcReceived sid d] (rs_set_inb sid b r) in
                if length d > available then Some (Inl Undefined)
                else bindo (env_loop ev b) (\<lambda>(ms, good, d).
                  let r = fold (rs_deliver app sid) ms r in
                  Some (if \<not> good then Inr (rs_emit [SvcError, SvcSocketDisconnect sid] r)
                    else if b = [] then Inl Undefined
                    else Inr (if ev_pos ev d > 0 then rs_set_inb sid (drop (ev_pos ev d) b) r else r))))))"

text \<open>The loop of \<open>send_outgoing_data\<close> over the queue of one account; the state has the flag \<open>break_sending\<close> and the total
  number of bytes sent too.\<close>

type_synonym 'm rs_sending = "bool \<times> nat \<times> 'm respondent"

definition rs_send_once :: "send_answers \<Rightarrow> socket_id \<Rightarrow> nat \<Rightarrow> 'm rs_sending \<Rightarrow> (bool \<times> 'm rs_sending) result" where
  "rs_send_once answers sid k s = (case s of (brk, sent, r) \<Rightarrow>
     (case map_of (rs_requesters r) sid of
        None \<Rightarrow> Inl Undefined
      | Some a \<Rightarrow>
          (if brk then Inr (False, s)
           else case qa_outq a of
             [] \<Rightarrow> Inr (False, s)
           | data # q \<Rightarrow>
               (let res = fst (answers k data); err = snd (answers k data); r = rs_emit [SvcSent sid data res] r in
                case sr_status res of
                  SendGood \<Rightarrow>
                    mapr (\<lambda>q'. (True, brk, sent + unat (sr_n res), rs_put sid (a\<lparr>qa_outq := q'\<rparr>) r))
                      (svc_taken (unat (sr_n res)) data q)
                | SendFailure \<Rightarrow>
                    Inr (True, True, sent, rs_emit [SvcPollerRemove sid, SvcSocketDisconnect sid, SvcFailure err] r)
                | SendNetwork \<Rightarrow>
                    Inr (True, True, sent, rs_emit [SvcPollerRemove sid, SvcSocketDisconnect sid, SvcFailure err] r)
                | SendAgain \<Rightarrow> Inr (True, True, sent,
                    if qa_can_write a then rs_emit [SvcWaitForWrite sid] (rs_put sid (a\<lparr>qa_can_write := False\<rparr>) r) else r)
                | SendOverflow \<Rightarrow> Inr (True, True, sent,
                    if qa_can_write a then rs_emit [SvcWaitForWrite sid] (rs_put sid (a\<lparr>qa_can_write := False\<rparr>) r) else r)))))"

definition rs_send_account :: "(socket_id \<Rightarrow> send_answers) \<Rightarrow> socket_id \<times> requester_account \<Rightarrow> 'm rs_sending \<Rightarrow>
    'm rs_sending result option" where
  "rs_send_account answers item s =
     (if \<not> qa_can_write (snd item) then Some (Inr s) else loop_while (rs_send_once (answers (fst item)) (fst item)) 0 s)"

text \<open>The body changes no account but its own, and adds and erases none: the accounts are visited with the values they
  have at the start.\<close>

definition rs_send_outgoing_data :: "(socket_id \<Rightarrow> send_answers) \<Rightarrow> 'm respondent \<Rightarrow> (nat \<times> 'm respondent) result option" where
  "rs_send_outgoing_data answers r =
     bindo (foldo (rs_send_account answers) (rs_requesters r) (False, 0, r)) (\<lambda>(brk, sent, r). Some (Inr (sent, r)))"

text \<open>The callbacks of the poller, with what \<open>available\<close> and \<open>recv\<close> answer for \<open>ready_read\<close>.\<close>

fun rs_on ::
  "('m, 'd) envelope_ops \<Rightarrow> (socket_id \<Rightarrow> 'm \<Rightarrow> (socket_id \<times> bytes) list) \<Rightarrow> sv_event \<times> nat \<times> recv_answer \<Rightarrow> 'm respondent \<Rightarrow>
    'm respondent result option" where
  "rs_on ev app (SvListenerFailure s err, _) r = Some (Inr (rs_emit [SvcFailure err] r))"
| "rs_on ev app (SvFailure s err, _) r = Some (Inr (rs_emit [SvcFailure err] r))"
| "rs_on ev app (SvReadyRead s, available, answer) r = rs_process_input ev app available answer s r"
| "rs_on ev app (SvAccepted s, _) r = Some (Inr (rs_emit [SvcAccepted s] r))"
| "rs_on ev app (SvDisconnected s, _) r = Some (Inr (rs_emit [SvcDisconnected s] r))"
| "rs_on ev app (SvCanWrite s, _) r =
     (case rs_locate_account s r of
        (None, r) \<Rightarrow> Some (Inr r)
      | (Some a, r) \<Rightarrow> Some (Inr (rs_put s (a\<lparr>qa_can_write := True\<rparr>) r)))"
| "rs_on ev app (SvListenerRemoved s, _) r = Some (Inr r)"
| "rs_on ev app (SvRemoved s, _) r =
     (case rs_locate_account s r of
        (None, r) \<Rightarrow> Some (Inr r)
      | (Some a, r) \<Rightarrow>
          Some (Inr (rs_emit [SvcReleased s]
            ((rs_emit [SvcSocketDisconnect s] r)\<lparr>rs_requesters := AList.delete s (rs_requesters r)\<rparr>))))"

text \<open>\<open>step\<close>: what is sent, whether the poll may wait, and the poll, in which the listener may accept.\<close>

datatype rs_poll_event = RsAccept "errc + socket_id" | RsEvent sv_event nat recv_answer

fun rs_on_poll ::
  "('m, 'd) envelope_ops \<Rightarrow> (socket_id \<Rightarrow> 'm \<Rightarrow> (socket_id \<times> bytes) list) \<Rightarrow> rs_poll_event \<Rightarrow> 'm respondent \<Rightarrow> 'm respondent result option" where
  "rs_on_poll ev app (RsAccept a) r = Some (Inr (snd (rs_accept a r)))"
| "rs_on_poll ev app (RsEvent e available answer) r = rs_on ev app (e, available, answer) r"

definition rs_step ::
  "('m, 'd) envelope_ops \<Rightarrow> (socket_id \<Rightarrow> 'm \<Rightarrow> (socket_id \<times> bytes) list) \<Rightarrow> (socket_id \<Rightarrow> send_answers) \<Rightarrow> int \<Rightarrow>
    rs_poll_event list \<Rightarrow> 'm respondent \<Rightarrow> (int \<times> 'm respondent) result option" where
  "rs_step ev app answers timeout evs r =
     bindo (rs_send_outgoing_data answers r) (\<lambda>(sent, r).
     bindo (foldo (rs_on_poll ev app) evs r) (\<lambda>r. Some (Inr (if sent > 0 then 0 else timeout, r))))"

datatype rs_op =
    RsStep "socket_id \<Rightarrow> send_answers" int "rs_poll_event list"
  | RsEnqueue socket_id bytes
  | RsBroadcast bytes

fun rs_run_op :: "('m, 'd) envelope_ops \<Rightarrow> (socket_id \<Rightarrow> 'm \<Rightarrow> (socket_id \<times> bytes) list) \<Rightarrow> rs_op \<Rightarrow> 'm respondent \<Rightarrow>
    'm respondent result option" where
  "rs_run_op ev app (RsStep answers timeout evs) r = bindo (rs_step ev app answers timeout evs r) (\<lambda>(t, r). Some (Inr r))"
| "rs_run_op ev app (RsEnqueue sid data) r = Some (Inr (rs_enqueue sid data r))"
| "rs_run_op ev app (RsBroadcast data) r = Some (Inr (rs_enqueue_broadcast data r))"

text \<open>An account that breaks the sending keeps all accounts after it from being served in this pass.\<close>

lemma rs_break_starves:
  assumes "\<forall>item\<in>set items. map_of (rs_requesters r) (fst item) \<noteq> None"
  shows "foldo (rs_send_account answers) items (True, n, r) = Some (Inr (True, n, r))"
  using assms
proof (induction items)
  case (Cons item items)
  then have "rs_send_once (answers (fst item)) (fst item) 0 (True, n, r) = Inr (False, True, n, r)"
    by (auto simp: rs_send_once_def)
  then have "rs_send_account answers item (True, n, r) = Some (Inr (True, n, r))"
    by (simp add: rs_send_account_def loop_while_stops)
  with Cons show ?case by simp
qed simp

subsection \<open>The history of a socket\<close>

record 'm hist =
  hi_written :: bytes
  hi_enqueued :: bytes
  hi_received :: bytes
  hi_messages :: "'m list"
  hi_dropped :: bool

definition no_hist :: "'m hist" where
  "no_hist = \<lparr>hi_written = [], hi_enqueued = [], hi_received = [], hi_messages = [], hi_dropped = False\<rparr>"

text \<open>A socket that is released starts again.\<close>

fun hist_step :: "'m svc_event \<Rightarrow> (socket_id \<Rightarrow> 'm hist) \<Rightarrow> socket_id \<Rightarrow> 'm hist" where
  "hist_step (SvcReleased s) h = h(s := no_hist)"
| "hist_step (SvcSent s d res) h =
     h(s := (h s)\<lparr>hi_written := hi_written (h s) @ (if sr_status res = SendGood then take (unat (sr_n res)) d else [])\<rparr>)"
| "hist_step (SvcEnqueued s d) h = h(s := (h s)\<lparr>hi_enqueued := hi_enqueued (h s) @ d\<rparr>)"
| "hist_step (SvcReceived s d) h = h(s := (h s)\<lparr>hi_received := hi_received (h s) @ d\<rparr>)"
| "hist_step (SvcMessage s m) h = h(s := (h s)\<lparr>hi_messages := hi_messages (h s) @ [m]\<rparr>)"
| "hist_step (SvcSocketDisconnect s) h = h(s := (h s)\<lparr>hi_dropped := True\<rparr>)"
| "hist_step _ h = h"

definition rs_hist :: "'m svc_event list \<Rightarrow> socket_id \<Rightarrow> 'm hist" where
  "rs_hist es = fold hist_step es (\<lambda>_. no_hist)"

lemma rs_hist_emit [simp]: "rs_hist (rs_log (rs_emit es r)) = fold hist_step es (rs_hist (rs_log r))"
  by (simp add: rs_hist_def rs_emit_def)

lemma rs_emit_simps [simp]: "rs_requesters (rs_emit es r) = rs_requesters r" "rs_log (rs_put sid a r) = rs_log r"
  by (simp_all add: rs_emit_def rs_put_def)

lemma rs_emit_nil [simp]: "rs_emit [] r = r"
  by (cases r) (simp add: rs_emit_def)

lemma rs_set_inb_put: "map_of (rs_requesters r) sid = Some a \<Longrightarrow> rs_set_inb sid b r = rs_put sid (a\<lparr>qa_inb := b\<rparr>) r"
  by (simp add: rs_set_inb_def)

lemma rs_put_emit: "rs_put sid a (rs_emit es r) = rs_emit es (rs_put sid a r)"
  by (cases r) (simp add: rs_put_def rs_emit_def)

lemma rs_emit_emit: "rs_emit fs (rs_emit es r) = rs_emit (es @ fs) r"
  by (simp add: rs_emit_def)

definition account_sends :: "'m hist \<Rightarrow> requester_account \<Rightarrow> bool" where
  "account_sends h a \<longleftrightarrow> hi_written h @ concat (qa_outq a) = hi_enqueued h"

definition account_reads :: "('m \<Rightarrow> bytes) \<Rightarrow> 'm hist \<Rightarrow> requester_account \<Rightarrow> bool" where
  "account_reads enc h a \<longleftrightarrow> (\<not> hi_dropped h \<longrightarrow>
     concat (map enc (hi_messages h)) @ qa_inb a = hi_received h \<and> incomplete enc (qa_inb a))"

text \<open>Every account agrees with the history of its socket, and a socket without an account has none.\<close>

fun agrees :: "('m \<Rightarrow> bytes) \<Rightarrow> requester_account option \<Rightarrow> 'm hist \<Rightarrow> bool" where
  "agrees enc None h \<longleftrightarrow> h = no_hist"
| "agrees enc (Some a) h \<longleftrightarrow> account_sends h a \<and> account_reads enc h a"

definition rs_inv :: "('m \<Rightarrow> bytes) \<Rightarrow> 'm respondent \<Rightarrow> bool" where
  "rs_inv enc r \<longleftrightarrow> sorted (map fst (rs_requesters r)) \<and> distinct (map fst (rs_requesters r)) \<and>
     (\<forall>sid. agrees enc (map_of (rs_requesters r) sid) (rs_hist (rs_log r) sid))"

definition only_about :: "socket_id \<Rightarrow> 'm svc_event list \<Rightarrow> bool" where
  "only_about sid es \<longleftrightarrow> (\<forall>h s. s \<noteq> sid \<longrightarrow> fold hist_step es h s = h s)"

lemma rs_inv_put:
  assumes "rs_inv enc r" and "only_about sid es"
    and "agrees enc (Some a) (fold hist_step es (rs_hist (rs_log r)) sid)"
  shows "rs_inv enc (rs_emit es (rs_put sid a r))"
proof -
  have "rs_requesters (rs_emit es (rs_put sid a r)) = om_update sid a (rs_requesters r)" by (simp add: rs_emit_def rs_put_def)
  moreover have "agrees enc (((map_of (rs_requesters r))(sid \<mapsto> a)) s) (fold hist_step es (rs_hist (rs_log r)) s)" for s
    using assms by (cases "s = sid") (simp_all add: only_about_def rs_inv_def)
  ultimately show ?thesis
    using assms(1) sorted_om_update [of "rs_requesters r" sid a] by (simp add: rs_inv_def map_of_om_update)
qed

lemma rs_inv_account:
  "rs_inv enc r \<Longrightarrow> map_of (rs_requesters r) sid = Some a \<Longrightarrow>
    account_sends (rs_hist (rs_log r) sid) a \<and> account_reads enc (rs_hist (rs_log r) sid) a"
  unfolding rs_inv_def by (metis agrees.simps(2))

lemma rs_inv_none: "rs_inv enc r \<Longrightarrow> map_of (rs_requesters r) sid = None \<Longrightarrow> rs_hist (rs_log r) sid = no_hist"
  unfolding rs_inv_def by (metis agrees.simps(1))

lemma rs_inv_emit: "rs_inv enc r \<Longrightarrow> (\<And>h. fold hist_step es h = h) \<Longrightarrow> rs_inv enc (rs_emit es r)"
  by (simp add: rs_inv_def)

lemma rs_inv_locate: "rs_inv enc r \<Longrightarrow> rs_locate_account sid r = (x, r') \<Longrightarrow> rs_inv enc r' \<and>
    (x = None \<and> map_of (rs_requesters r) sid = None \<or> (\<exists>a. x = Some a \<and> map_of (rs_requesters r) sid = Some a \<and> r' = r))"
  by (auto simp: rs_locate_account_def rs_inv_emit split: option.splits)

subsection \<open>The operations keep the invariant\<close>

lemma rs_inv_enqueue:
  assumes "rs_inv enc r"
  shows "rs_inv enc (rs_enqueue sid data r)"
proof (cases "map_of (rs_requesters r) sid")
  case None
  with assms show ?thesis by (simp add: rs_enqueue_def rs_locate_account_def rs_inv_emit)
next
  case (Some a)
  have "rs_inv enc (rs_emit [SvcEnqueued sid data] (rs_put sid (a\<lparr>qa_outq := qa_outq a @ [data]\<rparr>) r))"
    using rs_inv_account [OF assms Some]
    by (intro rs_inv_put [OF assms]) (simp_all add: only_about_def account_sends_def account_reads_def)
  with Some show ?thesis by (simp add: rs_enqueue_def rs_locate_account_def)
qed

lemma rs_inv_enqueues: "rs_inv enc r \<Longrightarrow> rs_inv enc (fold (\<lambda>(s, d). rs_enqueue s d) xs r)"
  by (induction xs arbitrary: r) (auto simp: rs_inv_enqueue)

lemma fold_enqueued_out:
  "s \<notin> fst ` set items \<Longrightarrow> fold hist_step (map (\<lambda>(sid, a). SvcEnqueued sid data) items) h s = h s"
  by (induction items arbitrary: h) auto

lemma fold_enqueued_in:
  assumes "distinct (map fst items)" and "s \<in> fst ` set items"
  shows "fold hist_step (map (\<lambda>(sid, a). SvcEnqueued sid data) items) h s = (h s)\<lparr>hi_enqueued := hi_enqueued (h s) @ data\<rparr>"
  using assms
proof (induction items arbitrary: h)
  case (Cons item items)
  show ?case
  proof (cases "s = fst item")
    case True
    with Cons.prems have "s \<notin> fst ` set items" by auto
    with True show ?thesis by (simp add: case_prod_unfold fold_enqueued_out [unfolded case_prod_unfold])
  next
    case False
    with Cons.prems Cons.IH [of "hist_step (SvcEnqueued (fst item) data) h"] show ?thesis
      by (auto simp: case_prod_unfold fun_upd_other simp del: fun_upd_apply)
  qed
qed simp

lemma rs_inv_broadcast:
  assumes "rs_inv enc r"
  shows "rs_inv enc (rs_enqueue_broadcast data r)"
proof -
  define f :: "requester_account \<Rightarrow> requester_account" where "f = (\<lambda>a. a\<lparr>qa_outq := qa_outq a @ [data]\<rparr>)"
  have m: "map_of (map (\<lambda>(sid, a). (sid, f a)) (rs_requesters r)) s = map_option f (map_of (rs_requesters r) s)" for s
    by (simp add: map_of_map)
  have "agrees enc (map_option f (map_of (rs_requesters r) s))
      (fold hist_step (map (\<lambda>(sid, a). SvcEnqueued sid data) (rs_requesters r)) (rs_hist (rs_log r)) s)" for s
  proof (cases "map_of (rs_requesters r) s")
    case None
    then have "s \<notin> fst ` set (rs_requesters r)" by (simp add: map_of_eq_None_iff)
    with None rs_inv_none [OF assms None] show ?thesis using fold_enqueued_out [of s "rs_requesters r" data "rs_hist (rs_log r)"] by simp
  next
    case (Some a)
    then have "s \<in> fst ` set (rs_requesters r)" by (rule map_of_in_keys)
    with assms have "fold hist_step (map (\<lambda>(sid, a). SvcEnqueued sid data) (rs_requesters r)) (rs_hist (rs_log r)) s =
        (rs_hist (rs_log r) s)\<lparr>hi_enqueued := hi_enqueued (rs_hist (rs_log r) s) @ data\<rparr>"
      by (intro fold_enqueued_in) (simp_all add: rs_inv_def)
    with Some rs_inv_account [OF assms Some] show ?thesis by (simp add: f_def account_sends_def account_reads_def)
  qed
  moreover have "map fst (map (\<lambda>(sid, a). (sid, f a)) (rs_requesters r)) = map fst (rs_requesters r)" by auto
  moreover have "rs_enqueue_broadcast data r = rs_emit (map (\<lambda>(sid, a). SvcEnqueued sid data) (rs_requesters r))
      (r\<lparr>rs_requesters := map (\<lambda>(sid, a). (sid, f a)) (rs_requesters r)\<rparr>)"
    by (simp add: rs_enqueue_broadcast_def f_def)
  ultimately show ?thesis using assms by (simp add: rs_inv_def m del: map_map)
qed

lemma rs_inv_send_once:
  assumes "rs_inv enc r" and "rs_send_once answers sid k (brk, n, r) = Inr (c, brk', n', r')"
  shows "rs_inv enc r'"
proof -
  from assms(2) obtain a where a: "map_of (rs_requesters r) sid = Some a" by (cases "map_of (rs_requesters r) sid") (auto simp: rs_send_once_def)
  note h = rs_inv_account [OF assms(1) a]
  show ?thesis
  proof (cases "brk \<or> qa_outq a = []")
    case True
    with assms a show ?thesis by (auto simp: rs_send_once_def split: if_splits)
  next
    case False
    then obtain data q where q: "qa_outq a = data # q" "\<not> brk" by (cases "qa_outq a") auto
    let ?res = "fst (answers k data)"
    show ?thesis
    proof (cases "sr_status ?res = SendGood")
      case True
      with assms(2) a q obtain q' where q': "svc_taken (unat (sr_n ?res)) data q = Inr q'"
        and r': "r' = rs_put sid (a\<lparr>qa_outq := q'\<rparr>) (rs_emit [SvcSent sid data ?res] r)"
        by (auto simp: rs_send_once_def Let_def)
      have "rs_inv enc (rs_emit [SvcSent sid data ?res] (rs_put sid (a\<lparr>qa_outq := q'\<rparr>) r))"
        using h True svc_taken_concat [OF q'] q
        by (intro rs_inv_put [OF assms(1)]) (simp_all add: only_about_def account_sends_def account_reads_def)
      then show ?thesis by (simp add: r' rs_put_emit)
    next
      case False
      have keep: "rs_inv enc (rs_emit (SvcSent sid data ?res # es) (rs_put sid b r))"
        if "qa_outq b = qa_outq a" "qa_inb b = qa_inb a" "es \<in> {[SvcPollerRemove sid, SvcSocketDisconnect sid, SvcFailure e], [SvcWaitForWrite sid], []}" for b es e
        using h False that by (intro rs_inv_put [OF assms(1)]) (auto simp: only_about_def account_sends_def account_reads_def)
      have "rs_put sid a r = r" using assms(1) a by (simp add: rs_put_def rs_inv_def om_update_same)
      with keep [of a] keep [of "a\<lparr>qa_can_write := False\<rparr>" "[SvcWaitForWrite sid]"] False assms(2) a q show ?thesis
        by (cases "sr_status ?res") (auto simp: rs_send_once_def Let_def rs_put_emit rs_emit_emit split: if_splits)
    qed
  qed
qed

lemma rs_inv_send:
  fixes r :: "'a respondent"
  assumes "rs_inv enc r" and "rs_send_outgoing_data answers r = Some (Inr (n, t))"
  shows "rs_inv enc t"
proof -
  from assms(2) obtain brk where f: "foldo (rs_send_account answers) (rs_requesters r) (False, 0, r) = Some (Inr (brk, n, t))"
    by (auto simp: rs_send_outgoing_data_def bindo_eq_Inr)
  have "(\<lambda>(brk, n, u). rs_inv enc u) (brk, n, t)"
  proof (rule foldo_inv [OF f])
    show "(\<lambda>(brk, n, u). rs_inv enc u) (False, 0, r)" using assms(1) by simp
    fix item and u v :: "'a rs_sending" assume u: "(\<lambda>(brk, n, u). rs_inv enc u) u" and l: "rs_send_account answers item u = Some (Inr v)"
    show "(\<lambda>(brk, n, u). rs_inv enc u) v"
    proof (cases "qa_can_write (snd item)")
      case True
      with l have "loop_while (rs_send_once (answers (fst item)) (fst item)) 0 u = Some (Inr v)" by (simp add: rs_send_account_def)
      then show ?thesis by (rule loop_while_inv) (use u rs_inv_send_once in \<open>fastforce+\<close>)
    next
      case False
      with l u show ?thesis by (simp add: rs_send_account_def)
    qed
  qed
  then show ?thesis by simp
qed

text \<open>While the messages of a buffer are delivered, the history of the socket is behind its buffer.\<close>

definition delivering ::
  "('m \<Rightarrow> bytes) \<Rightarrow> bool \<Rightarrow> socket_id \<Rightarrow> bytes \<Rightarrow> bytes \<Rightarrow> 'm list \<Rightarrow> socket_id \<Rightarrow> requester_account option \<Rightarrow> 'm hist \<Rightarrow> bool" where
  "delivering enc good sid b rest ms s x h \<longleftrightarrow>
     (if s = sid
      then (\<exists>a. x = Some a \<and> account_sends h a \<and> qa_inb a = b \<and>
        (good \<and> \<not> hi_dropped h \<longrightarrow> concat (map enc (hi_messages h @ ms)) @ rest = hi_received h))
      else agrees enc x h)"

definition rs_all :: "(socket_id \<Rightarrow> requester_account option \<Rightarrow> 'm hist \<Rightarrow> bool) \<Rightarrow> 'm respondent \<Rightarrow> bool" where
  "rs_all P r \<longleftrightarrow> sorted (map fst (rs_requesters r)) \<and> distinct (map fst (rs_requesters r)) \<and>
     (\<forall>s. P s (map_of (rs_requesters r) s) (rs_hist (rs_log r) s))"

lemma rs_inv_all: "rs_inv enc r \<longleftrightarrow> rs_all (\<lambda>_. agrees enc) r"
  by (simp add: rs_inv_def rs_all_def)

lemma rs_all_put:
  assumes "rs_all P r" and "only_about sid es" and "\<And>s x h. s \<noteq> sid \<Longrightarrow> P s x h \<Longrightarrow> Q s x h"
    and "Q sid (Some a) (fold hist_step es (rs_hist (rs_log r)) sid)"
  shows "rs_all Q (rs_emit es (rs_put sid a r))"
proof -
  have "rs_requesters (rs_emit es (rs_put sid a r)) = om_update sid a (rs_requesters r)" by (simp add: rs_emit_def rs_put_def)
  moreover have "Q s (((map_of (rs_requesters r))(sid \<mapsto> a)) s) (fold hist_step es (rs_hist (rs_log r)) s)" for s
    using assms by (cases "s = sid") (simp_all add: only_about_def rs_all_def)
  ultimately show ?thesis
    using assms(1) sorted_om_update [of "rs_requesters r" sid a] by (simp add: rs_all_def map_of_om_update)
qed

lemma delivering_enqueue:
  assumes "rs_all (delivering enc good sid b rest ms) r"
  shows "rs_all (delivering enc good sid b rest ms) (rs_enqueue s data r)"
proof (cases "map_of (rs_requesters r) s")
  case None
  with assms show ?thesis by (simp add: rs_enqueue_def rs_locate_account_def rs_all_def)
next
  case (Some a)
  from assms have "delivering enc good sid b rest ms s (map_of (rs_requesters r) s) (rs_hist (rs_log r) s)" by (simp add: rs_all_def)
  with Some have "rs_all (delivering enc good sid b rest ms)
      (rs_emit [SvcEnqueued s data] (rs_put s (a\<lparr>qa_outq := qa_outq a @ [data]\<rparr>) r))"
    by (intro rs_all_put [OF assms])
      (auto simp: only_about_def delivering_def account_sends_def account_reads_def split: if_splits)
  with Some show ?thesis by (simp add: rs_enqueue_def rs_locate_account_def)
qed

lemma delivering_one:
  assumes "rs_all (delivering enc good sid b rest (m # ms)) r"
  shows "rs_all (delivering enc good sid b rest ms) (rs_deliver app sid m r)"
proof -
  have "delivering enc good sid b rest ms s x (hist_step (SvcMessage sid m) h s)"
    if "delivering enc good sid b rest (m # ms) s x (h s)" for s x h
    using that by (auto simp: delivering_def account_sends_def)
  with assms have "rs_all (delivering enc good sid b rest ms) (rs_emit [SvcMessage sid m] r)"
    by (simp add: rs_all_def)
  moreover have "rs_all (delivering enc good sid b rest ms) (fold (\<lambda>(s, d). rs_enqueue s d) xs u)"
    if "rs_all (delivering enc good sid b rest ms) u" for xs u
    using that by (induction xs arbitrary: u) (auto simp: delivering_enqueue)
  ultimately show ?thesis by (simp add: rs_deliver_def)
qed

lemma delivering_all:
  "rs_all (delivering enc good sid b rest ms) r \<Longrightarrow> rs_all (delivering enc good sid b rest []) (fold (rs_deliver app sid) ms r)"
  by (induction ms arbitrary: r) (auto dest: delivering_one)

lemma rs_inv_process_input:
  fixes r :: "'m respondent"
  assumes "service_envelopes ev rest enc" and "rs_inv enc r"
    and "rs_process_input ev app available answer sid r = Some (Inr t)" and "\<And>d. answer = RecvData d \<Longrightarrow> length d = available"
  shows "rs_inv enc t"
proof (cases "map_of (rs_requesters r) sid")
  case None
  with assms(2,3) show ?thesis by (auto simp: rs_process_input_def rs_locate_account_def intro!: rs_inv_emit)
next
  case (Some a)
  with assms(3) obtain data where answer: "answer = RecvData data"
    by (cases answer) (auto simp: rs_process_input_def rs_locate_account_def)
  define b where "b = qa_inb a @ data"
  from service_envelopes.env_loop_spec [OF assms(1), of b] obtain ms good d where
    e: "env_loop ev b = Some (Inr (ms, good, d))" "good \<longrightarrow> concat (map enc ms) @ rest d = b \<and>
      ev_pos ev d = length (concat (map enc ms)) \<and> incomplete enc (rest d)" by blast
  define r1 where "r1 = rs_emit [SvcReceived sid data] (rs_set_inb sid b r)"
  define r2 where "r2 = fold (rs_deliver app sid) ms r1"
  have "rs_all (delivering enc good sid b (rest d) ms) r1"
    unfolding r1_def rs_set_inb_put [OF Some] using assms(2) rs_inv_account [OF assms(2) Some] e(2)
    by (intro rs_all_put [where P = "\<lambda>_. agrees enc"])
      (auto simp: rs_inv_all only_about_def delivering_def account_sends_def account_reads_def b_def)
  then have r2: "rs_all (delivering enc good sid b (rest d) []) r2" unfolding r2_def by (rule delivering_all)
  then have "delivering enc good sid b (rest d) [] sid (map_of (rs_requesters r2) sid) (rs_hist (rs_log r2) sid)"
    by (simp add: rs_all_def)
  then obtain a2 where a2: "map_of (rs_requesters r2) sid = Some a2" "account_sends (rs_hist (rs_log r2) sid) a2" "qa_inb a2 = b"
    "good \<and> \<not> hi_dropped (rs_hist (rs_log r2) sid) \<longrightarrow>
       concat (map enc (hi_messages (rs_hist (rs_log r2) sid))) @ rest d = hi_received (rs_hist (rs_log r2) sid)"
    by (auto simp: delivering_def)
  have t: "(if \<not> good then Inr (rs_emit [SvcError, SvcSocketDisconnect sid] r2)
      else if b = [] then Inl Undefined
      else Inr (if ev_pos ev d > 0 then rs_set_inb sid (drop (ev_pos ev d) b) r2 else r2)) = Inr t"
  proof -
    have "rs_process_input ev app available answer sid r = bindo (env_loop ev b) (\<lambda>(ms, good, d).
        let r = fold (rs_deliver app sid) ms r1 in
        Some (if \<not> good then Inr (rs_emit [SvcError, SvcSocketDisconnect sid] r)
          else if b = [] then Inl Undefined
          else Inr (if ev_pos ev d > 0 then rs_set_inb sid (drop (ev_pos ev d) b) r else r)))"
      using assms(4) [OF answer] Some
      by (simp add: rs_process_input_def rs_locate_account_def answer r1_def Let_def flip: b_def)
    with assms(3) e(1) show ?thesis
      by (cases good; cases "b = []"; cases "0 < ev_pos ev d") (simp_all add: r2_def Let_def)
  qed
  have same: "rs_put sid a2 r2 = r2" using r2 a2(1) by (simp add: rs_put_def rs_all_def om_update_same)
  show ?thesis
  proof (cases good)
    case False
    have "rs_all (\<lambda>_. agrees enc) (rs_emit [SvcError, SvcSocketDisconnect sid] (rs_put sid a2 r2))"
      using a2 by (intro rs_all_put [OF r2]) (auto simp: only_about_def delivering_def account_sends_def account_reads_def)
    with t False same show ?thesis by (simp add: rs_inv_all)
  next
    case True
    with e(2) have b: "drop (ev_pos ev d) b = rest d" "incomplete enc (rest d)" by auto
    with t True a2 have "t = rs_put sid (a2\<lparr>qa_inb := rest d\<rparr>) r2 \<or> t = r2 \<and> rest d = b"
      by (auto simp: rs_set_inb_put split: if_splits)
    moreover have "rs_all (\<lambda>_. agrees enc) (rs_emit [] (rs_put sid (a2\<lparr>qa_inb := rest d\<rparr>) r2))"
      using a2 True b by (intro rs_all_put [OF r2]) (auto simp: only_about_def delivering_def account_sends_def account_reads_def)
    moreover have "rs_put sid (a2\<lparr>qa_inb := rest d\<rparr>) r2 = r2" if "rest d = b" using same a2(3) that by (cases a2) simp
    ultimately show ?thesis by (auto simp: rs_inv_all)
  qed
qed

text \<open>The operations of a run in which \<open>recv\<close> gives all that is available.\<close>

fun reads_all :: "rs_poll_event \<Rightarrow> bool" where
  "reads_all (RsEvent e available (RecvData d)) \<longleftrightarrow> length d = available"
| "reads_all _ \<longleftrightarrow> True"

fun op_reads_all :: "rs_op \<Rightarrow> bool" where
  "op_reads_all (RsStep answers timeout evs) \<longleftrightarrow> (\<forall>e\<in>set evs. reads_all e)"
| "op_reads_all _ \<longleftrightarrow> True"

lemma rs_inv_accept:
  assumes "rs_inv enc r" and "incomplete enc []"
  shows "rs_inv enc (snd (rs_accept a r))"
proof (cases a)
  case (Inl e)
  with assms show ?thesis by (simp add: rs_accept_def rs_inv_emit)
next
  case (Inr sid)
  show ?thesis
  proof (cases "map_of (rs_requesters r) sid")
    case None
    have "rs_inv enc (rs_emit [] (rs_put sid \<lparr>qa_can_write = True, qa_inb = [], qa_outq = []\<rparr> r))"
      using rs_inv_none [OF assms(1) None] assms(2)
      by (intro rs_inv_put [OF assms(1)]) (simp_all add: only_about_def account_sends_def account_reads_def no_hist_def)
    with Inr None show ?thesis by (simp add: rs_accept_def)
  next
    case (Some b)
    with Inr assms show ?thesis by (simp add: rs_accept_def rs_inv_emit)
  qed
qed

lemma rs_inv_removed:
  assumes "rs_inv enc r"
  shows "rs_inv enc (rs_emit [SvcReleased s] ((rs_emit [SvcSocketDisconnect s] r)\<lparr>rs_requesters := AList.delete s (rs_requesters r)\<rparr>))"
proof -
  have "agrees enc (((map_of (rs_requesters r))(s := None)) i) (((rs_hist (rs_log r))(s := no_hist)) i)" for i
    using assms by (simp add: rs_inv_def)
  moreover have "sorted (map fst (AList.delete s (rs_requesters r)))"
    using assms by (simp add: rs_inv_def AList.delete_eq sorted_filter)
  ultimately show ?thesis using assms
    by (simp add: rs_inv_def rs_emit_def rs_hist_def map_of_delete_fun distinct_keys_delete)
qed

lemma rs_inv_on:
  assumes "service_envelopes ev rest enc" and "rs_inv enc r" and "rs_on ev app (e, available, answer) r = Some (Inr t)"
    and "reads_all (RsEvent e available answer)"
  shows "rs_inv enc t"
proof (cases e)
  case (SvReadyRead s)
  with assms(3,4) have "rs_process_input ev app available answer s r = Some (Inr t)" "\<And>d. answer = RecvData d \<Longrightarrow> length d = available"
    by auto
  with rs_inv_process_input [OF assms(1,2)] show ?thesis by blast
next
  case (SvCanWrite s)
  show ?thesis
  proof (cases "map_of (rs_requesters r) s")
    case None
    with SvCanWrite assms(2,3) show ?thesis by (auto simp: rs_locate_account_def intro!: rs_inv_emit)
  next
    case (Some a)
    have "rs_inv enc (rs_emit [] (rs_put s (a\<lparr>qa_can_write := True\<rparr>) r))"
      using rs_inv_account [OF assms(2) Some]
      by (intro rs_inv_put [OF assms(2)]) (simp_all add: only_about_def account_sends_def account_reads_def)
    with Some SvCanWrite assms(3) show ?thesis by (auto simp: rs_locate_account_def)
  qed
next
  case (SvRemoved s)
  with assms(2,3) rs_inv_removed [OF assms(2), of s] show ?thesis
    by (auto simp: rs_locate_account_def intro!: rs_inv_emit split: option.splits)
qed (use assms(2,3) in \<open>auto intro!: rs_inv_emit\<close>)

lemma rs_inv_run_op:
  assumes "service_envelopes ev rest enc" and "rs_inv enc r" and "rs_run_op ev app x r = Some (Inr t)" and "op_reads_all x"
  shows "rs_inv enc t"
proof (cases x)
  case (RsStep answers timeout evs)
  with assms(3) obtain n u where u: "rs_send_outgoing_data answers r = Some (Inr (n, u))" "foldo (rs_on_poll ev app) evs u = Some (Inr t)"
    by (auto simp: rs_step_def bindo_eq_Inr)
  have e: "incomplete enc []" using service_envelopes.nonempty [OF assms(1)] by (simp add: incomplete_def)
  from u(2) rs_inv_send [OF assms(2) u(1)] show ?thesis
  proof (rule foldo_inv)
    fix y v w assume "y \<in> set evs" "rs_inv enc v" "rs_on_poll ev app y v = Some (Inr w)"
    with RsStep assms(4) e show "rs_inv enc w" by (cases y) (auto intro: rs_inv_accept rs_inv_on [OF assms(1)])
  qed
qed (use assms in \<open>auto intro: rs_inv_enqueue rs_inv_broadcast\<close>)

lemma rs_run_keeps:
  fixes r :: "'m respondent"
  assumes "service_envelopes ev rest enc" and "foldo (rs_run_op ev app) ops rs_new = Some (Inr r)" and "\<forall>x\<in>set ops. op_reads_all x"
  shows "rs_inv enc r"
proof -
  have "rs_inv enc (rs_new :: 'm respondent)" by (simp add: rs_inv_def rs_new_def rs_hist_def)
  with assms(2) show ?thesis by (rule foldo_inv) (use assms(3) rs_inv_run_op [OF assms(1)] in blast)
qed

text \<open>C26. With envelopes of which any sequence can be parsed in one way (\<open>service_envelopes\<close>, the contract of the template argument),
  and if \<open>recv\<close> always gives all bytes that \<open>available\<close> has announced (\<open>op_reads_all\<close>; a shorter read is padded with zeros,
  \<open>rs_short_read_padded\<close>): for every connection of a respondent, what was written to it and what is queued for it are together what was
  enqueued for it since it was accepted, and unless it was disconnected for a bad envelope the messages delivered from it are
  exactly those whose envelopes are in the bytes received, whatever the other connections do.\<close>

theorem respondent_streams:
  fixes r :: "'m respondent"
  assumes "service_envelopes ev rest enc" and "foldo (rs_run_op ev app) ops rs_new = Some (Inr r)"
    and "\<forall>x\<in>set ops. op_reads_all x" and "map_of (rs_requesters r) sid = Some a"
  shows "hi_written (rs_hist (rs_log r) sid) @ concat (qa_outq a) = hi_enqueued (rs_hist (rs_log r) sid) \<and>
    (\<not> hi_dropped (rs_hist (rs_log r) sid) \<and> hi_received (rs_hist (rs_log r) sid) = concat (map enc ms) @ t \<and> incomplete enc t \<longrightarrow>
       hi_messages (rs_hist (rs_log r) sid) = ms \<and> qa_inb a = t)"
proof -
  from rs_inv_account [OF rs_run_keeps [OF assms(1-3)] assms(4)] show ?thesis
    using service_envelopes.encs_unique [OF assms(1), of "hi_messages (rs_hist (rs_log r) sid)" "qa_inb a" ms t]
    by (auto simp: account_sends_def account_reads_def)
qed

definition echo_app :: "socket_id \<Rightarrow> byte \<times> byte \<Rightarrow> (socket_id \<times> bytes) list" where
  "echo_app sid m = [(sid, [fst m])]"

theorem respondent_streams_witness:
  "\<exists>r a. foldo (rs_run_op pair_envelopes echo_app)
     [RsStep (\<lambda>_. slow_socket) 0 [RsAccept (Inr 5), RsAccept (Inr 6), RsEvent (SvReadyRead 5) 4 (RecvData [1, 7, 8, 1])],
      RsBroadcast [9], RsStep (\<lambda>_. slow_socket) 0 []] rs_new = Some (Inr r) \<and>
     map_of (rs_requesters r) 5 = Some a \<and> hi_messages (rs_hist (rs_log r) 5) = [(7, 8)] \<and> qa_inb a = [1] \<and>
     hi_written (rs_hist (rs_log r) 5) @ concat (qa_outq a) = [7, 9]"
proof -
  let ?ops = "[RsStep (\<lambda>_. slow_socket) 0 [RsAccept (Inr 5), RsAccept (Inr 6), RsEvent (SvReadyRead 5) 4 (RecvData [1, 7, 8, 1])],
      RsBroadcast [9], RsStep (\<lambda>_. slow_socket) 0 []]"
  obtain r a where r: "foldo (rs_run_op pair_envelopes echo_app) ?ops rs_new = Some (Inr r)" "map_of (rs_requesters r) 5 = Some a"
    "\<not> hi_dropped (rs_hist (rs_log r) 5)" "hi_received (rs_hist (rs_log r) 5) = [1, 7, 8, 1]" "hi_enqueued (rs_hist (rs_log r) 5) = [7, 9]"
    by (simp add: rs_step_def rs_send_outgoing_data_def rs_send_account_def rs_send_once_def rs_emit_def rs_put_def rs_new_def
        rs_accept_def rs_process_input_def rs_locate_account_def rs_set_inb_def env_loop_def env_once_def
        pair_envelopes_def loop_while.simps rs_deliver_def rs_enqueue_def rs_enqueue_broadcast_def echo_app_def
        slow_socket_def svc_taken_def rs_hist_def no_hist_def Let_def)
  have "incomplete (\<lambda>(a, b). [1, a, b]) [1 :: byte]" by (simp add: incomplete_def)
  with respondent_streams [OF pe.service_envelopes_axioms r(1) _ r(2), of "[(7, 8)]" "[1]"] r show ?thesis by auto
qed

text \<open>A socket whose identifier is taken already is reported as accepted, but as the invalid one.\<close>

lemma rs_accept_duplicate: "map_of (rs_requesters r) sid = Some a \<Longrightarrow> fst (rs_accept (Inr sid) r) = (-1, True)"
  by (simp add: rs_accept_def)

text \<open>When \<open>recv\<close> stores less than was available, the rest of the room is taken for input.\<close>

lemma rs_short_read_padded:
  assumes "map_of (rs_requesters r) sid = Some a" and "env_loop ev (qa_inb a @ d @ replicate n 0) = Some (Inr ([], True, x))"
    and "ev_pos ev x = 0" and "n > 0" and "sorted (map fst (rs_requesters r))"
  shows "\<exists>t. rs_process_input ev app (length d + n) (RecvData d) sid r = Some (Inr t) \<and>
    map_of (rs_requesters t) sid = Some (a\<lparr>qa_inb := qa_inb a @ d @ replicate n 0\<rparr>)"
  using assms by (auto simp: rs_process_input_def rs_locate_account_def rs_set_inb_def rs_put_def rs_emit_def map_of_om_update Let_def)

end
