(* ===== verification/RequestResponse.thy ===== *)
theory RequestResponse
  imports Respondent
begin

text \<open>
  A requester and a respondent of \<open>netty::service\<close> (include/pfs/netty/service.hpp) together: the bytes that one side
  reads are bytes that the other side wrote, and the callback of the respondent enqueues one response for every request. The
  composition rests on the invariants of \<open>Service\<close> and \<open>Respondent\<close>; what this theory adds is that a respondent
  enqueues for a connection exactly the responses to the messages it delivered from it.
\<close>

subsection \<open>One response for every message\<close>

definition answering :: "('m \<Rightarrow> bytes) \<Rightarrow> socket_id \<Rightarrow> 'm \<Rightarrow> (socket_id \<times> bytes) list" where
  "answering reply s m = [(s, reply m)]"

definition answered :: "('m \<Rightarrow> bytes) \<Rightarrow> (socket_id \<Rightarrow> 'm hist) \<Rightarrow> bool" where
  "answered reply h \<longleftrightarrow> (\<forall>s. hi_enqueued (h s) = concat (map reply (hi_messages (h s))))"

abbreviation rs_answered :: "('m \<Rightarrow> bytes) \<Rightarrow> 'm respondent \<Rightarrow> bool" where
  "rs_answered reply r \<equiv> answered reply (rs_hist (rs_log r))"

lemmas answered_simps = answered_def no_hist_def

lemma rs_log_set_inb [simp]: "rs_log (rs_set_inb sid b r) = rs_log r"
  by (simp add: rs_set_inb_def split: option.splits)

lemma rs_answered_deliver:
  assumes "rs_answered reply r" and "sid \<in> fst ` set (rs_requesters r)"
  shows "rs_answered reply (rs_deliver (answering reply) sid m r) \<and>
    sid \<in> fst ` set (rs_requesters (rs_deliver (answering reply) sid m r))"
proof -
  from assms(2) obtain a where "map_of (rs_requesters r) sid = Some a" by (cases "map_of (rs_requesters r) sid") (auto simp: map_of_eq_None_iff)
  with assms show ?thesis
    by (auto simp: rs_deliver_def answering_def rs_enqueue_def rs_locate_account_def answered_def rs_put_def rs_emit_def rs_hist_def)
qed

lemma rs_answered_delivers:
  "rs_answered reply r \<Longrightarrow> sid \<in> fst ` set (rs_requesters r) \<Longrightarrow> rs_answered reply (fold (rs_deliver (answering reply) sid) ms r)"
  by (induction ms arbitrary: r) (auto simp: rs_answered_deliver)

lemma answered_dropped: "answered reply h \<Longrightarrow> answered reply (h(s := (h s)\<lparr>hi_dropped := True\<rparr>))"
  by (simp add: answered_def)

lemma rs_answered_process_input:
  assumes "rs_answered reply r" and "rs_process_input ev (answering reply) available answer sid r = Some (Inr t)"
  shows "rs_answered reply t"
proof (cases "map_of (rs_requesters r) sid")
  case None
  with assms show ?thesis by (auto simp: rs_process_input_def rs_locate_account_def answered_simps)
next
  case (Some a)
  have fresh: "rs_answered reply (fold (rs_deliver (answering reply) sid) ms (rs_emit [SvcReceived sid data] (rs_set_inb sid b r)))" for ms data b
    using assms(1) Some by (intro rs_answered_delivers) (auto simp: rs_set_inb_put rs_put_def answered_simps)
  from assms(2) Some show ?thesis
    by (auto simp: rs_process_input_def rs_locate_account_def bindo_eq_Inr Let_def fresh intro!: answered_dropped
        split: recv_answer.splits if_splits)
qed

lemma rs_answered_send_once:
  "rs_answered reply r \<Longrightarrow> rs_send_once answers sid k (brk, n, r) = Inr (c, brk', n', r') \<Longrightarrow> rs_answered reply r'"
  by (auto simp: rs_send_once_def Let_def answered_simps split: option.splits list.splits send_status.splits if_splits)

lemma rs_answered_send:
  fixes r :: "'a respondent"
  assumes "rs_answered reply r" and "rs_send_outgoing_data answers r = Some (Inr (n, t))"
  shows "rs_answered reply t"
proof -
  from assms(2) obtain brk where f: "foldo (rs_send_account answers) (rs_requesters r) (False, 0, r) = Some (Inr (brk, n, t))"
    by (auto simp: rs_send_outgoing_data_def bindo_eq_Inr)
  have "(\<lambda>(brk, n, u). rs_answered reply u) (brk, n, t)"
  proof (rule foldo_inv [OF f])
    show "(\<lambda>(brk, n, u). rs_answered reply u) (False, 0, r)" using assms(1) by simp
    fix item and u v :: "'a rs_sending"
    assume u: "(\<lambda>(brk, n, u). rs_answered reply u) u" and l: "rs_send_account answers item u = Some (Inr v)"
    show "(\<lambda>(brk, n, u). rs_answered reply u) v"
    proof (cases "qa_can_write (snd item)")
      case True
      with l have "loop_while (rs_send_once (answers (fst item)) (fst item)) 0 u = Some (Inr v)" by (simp add: rs_send_account_def)
      then show ?thesis by (rule loop_while_inv) (use u rs_answered_send_once in \<open>fastforce+\<close>)
    next
      case False
      with l u show ?thesis by (simp add: rs_send_account_def)
    qed
  qed
  then show ?thesis by simp
qed

lemma rs_answered_on_poll:
  assumes "rs_answered reply r" and "rs_on_poll ev (answering reply) e r = Some (Inr t)"
  shows "rs_answered reply t"
proof (cases e)
  case (RsAccept a)
  with assms show ?thesis by (auto simp: rs_accept_def answered_simps split: sum.splits option.splits)
next
  case (RsEvent ev1 available answer)
  with assms show ?thesis
    by (cases ev1) (auto simp: answered_simps rs_locate_account_def rs_put_def split: option.splits
        intro: rs_answered_process_input [unfolded answered_def, THEN spec])
qed

text \<open>The application only answers: it enqueues nothing else.\<close>

fun only_steps :: "rs_op \<Rightarrow> bool" where
  "only_steps (RsStep answers timeout evs) \<longleftrightarrow> True"
| "only_steps _ \<longleftrightarrow> False"

lemma rs_run_answers:
  fixes r :: "'m respondent"
  assumes "foldo (rs_run_op ev (answering reply)) ops rs_new = Some (Inr r)" and "\<forall>x\<in>set ops. only_steps x"
  shows "rs_answered reply r"
proof -
  have "rs_answered reply (rs_new :: 'm respondent)" by (simp add: answered_def rs_new_def rs_hist_def no_hist_def)
  with assms(1) show ?thesis
  proof (rule foldo_inv)
    fix x and u v :: "'m respondent"
    assume x: "x \<in> set ops" and u: "rs_answered reply u" and s: "rs_run_op ev (answering reply) x u = Some (Inr v)"
    from x assms(2) have "only_steps x" by simp
    then obtain answers timeout evs where "x = RsStep answers timeout evs" by (cases x) simp_all
    with s obtain n w where w: "rs_send_outgoing_data answers u = Some (Inr (n, w))"
        "foldo (rs_on_poll ev (answering reply)) evs w = Some (Inr v)"
      by (auto simp: rs_step_def bindo_eq_Inr)
    from w(2) rs_answered_send [OF u w(1)] show "rs_answered reply v" by (rule foldo_inv) (rule rs_answered_on_poll)
  qed
qed

subsection \<open>The two sides together\<close>

lemma requests_prefix:
  assumes "service_envelopes ev rest enc" and "concat (map enc ms) @ t = received" and "prefix received (concat (map enc ns))"
  shows "prefix ms ns" and "received = concat (map enc ns) \<Longrightarrow> incomplete enc t \<Longrightarrow> ms = ns"
  using service_envelopes.encs_prefix [OF assms(1,2,3)] service_envelopes.encs_unique [OF assms(1), of ms t ns "[]"] assms(2)
    service_envelopes.nonempty [OF assms(1)]
  by (simp_all add: incomplete_def)

text \<open>C6. A requester and a respondent that speak over one connection, with envelopes of which any sequence can be parsed in one way
  (\<open>service_envelopes\<close>, the contract of the template argument): if each side receives a prefix of what the other
  wrote, in whatever pieces and whatever the sockets take at a time, \<open>recv\<close> gives the respondent all bytes that \<open>available\<close> has
  announced (\<open>op_reads_all\<close>; a shorter read is padded with zeros, \<open>rs_short_read_padded\<close>), the respondent enqueues nothing but its
  responses, and no error is reported, then the requests that
  the respondent takes are the first of those enqueued, the responses that the requester takes are the responses to the
  first of these, in order, and once all bytes went through every request has its response.\<close>

theorem requests_answered:
  fixes q :: "'b requester" and r :: "'m respondent"
  assumes "service_envelopes evq restq encq" and "service_envelopes evp restp encp"
    and "foldo (rq_run_op evp app) qops rq_new = Some (Inr q)" and "SvcError \<notin> set (rq_log q)"
    and "svc_enqueued (rq_log q) = concat (map encq reqs)"
    and "foldo (rs_run_op evq (answering (\<lambda>m. encp (f m)))) rops rs_new = Some (Inr r)"
    and "\<forall>x\<in>set rops. op_reads_all x \<and> only_steps x"
    and "map_of (rs_requesters r) sid = Some a" and "\<not> hi_dropped (rs_hist (rs_log r) sid)"
    and "prefix (hi_received (rs_hist (rs_log r) sid)) (svc_written (rq_log q))"
    and "prefix (svc_received (rq_log q)) (hi_written (rs_hist (rs_log r) sid))"
  shows "prefix (hi_messages (rs_hist (rs_log r) sid)) reqs \<and>
    prefix (svc_messages (rq_log q)) (map f (hi_messages (rs_hist (rs_log r) sid))) \<and>
    (hi_received (rs_hist (rs_log r) sid) = svc_enqueued (rq_log q) \<and>
       svc_received (rq_log q) = hi_enqueued (rs_hist (rs_log r) sid) \<longrightarrow> svc_messages (rq_log q) = map f reqs)"
proof -
  let ?h = "rs_hist (rs_log r) sid"
  have q: "rq_conserves q" "concat (map encp (svc_messages (rq_log q))) @ rq_inpb q = svc_received (rq_log q)"
    "incomplete encp (rq_inpb q)"
    using rq_run_keeps [OF assms(2,3)] assms(4) by (simp_all add: rq_reads_def)
  have r: "account_sends ?h a" "concat (map encq (hi_messages ?h)) @ qa_inb a = hi_received ?h" "incomplete encq (qa_inb a)"
    using rs_inv_account [OF rs_run_keeps [OF assms(1,6)] assms(8)] assms(7,9) by (simp_all add: account_reads_def)
  have out: "hi_enqueued ?h = concat (map encp (map f (hi_messages ?h)))"
    using rs_run_answers [OF assms(6)] assms(7) by (simp add: answered_def comp_def)
  have "prefix (svc_written (rq_log q)) (concat (map encq reqs))" "prefix (hi_written ?h) (concat (map encp (map f (hi_messages ?h))))"
    using q(1) r(1) assms(5) out unfolding rq_conserves_def account_sends_def by (metis prefixI)+
  with assms(10,11) have "prefix (hi_received ?h) (concat (map encq reqs))"
    "prefix (svc_received (rq_log q)) (concat (map encp (map f (hi_messages ?h))))"
    by (blast intro: prefix_order.trans)+
  note requests_prefix [OF assms(1) r(2) this(1)] requests_prefix [OF assms(2) q(2) this(2)]
  with q(3) r(3) assms(5) out show ?thesis by auto
qed

text \<open>A socket that takes all it is given.\<close>

definition prompt_socket :: send_answers where
  "prompt_socket k d = (\<lparr>sr_status = SendGood, sr_n = of_nat (length d)\<rparr>, Success)"

theorem requests_answered_witness:
  "\<exists>q r. foldo (rq_run_op pair_envelopes (\<lambda>m. []))
       [RqConnect True \<lparr>ca_status = ConnConnecting, ca_err = None, ca_id = 5\<rparr>, RqEnqueue [1, 7, 8],
        RqStep [(ClConnected 5, []), (ClCanWrite 5, [])] prompt_socket,
        RqStep [(ClReadyRead 5, [RecvData [1, 8]]), (ClReadyRead 5, [RecvData [7]])] prompt_socket] rq_new = Some (Inr q) \<and>
     foldo (rs_run_op pair_envelopes (answering (\<lambda>m. (\<lambda>(a, b). [1, a, b]) (prod.swap m))))
       [RsStep (\<lambda>_. prompt_socket) 0 [RsAccept (Inr 9), RsEvent (SvReadyRead 9) 1 (RecvData [1]), RsEvent (SvReadyRead 9) 2 (RecvData [7, 8])],
        RsStep (\<lambda>_. prompt_socket) 0 []] rs_new = Some (Inr r) \<and>
     svc_messages (rq_log q) = [(8, 7)]"
proof -
  let ?qops = "[RqConnect True \<lparr>ca_status = ConnConnecting, ca_err = None, ca_id = 5\<rparr>, RqEnqueue [1, 7, 8],
        RqStep [(ClConnected 5, []), (ClCanWrite 5, [])] prompt_socket,
        RqStep [(ClReadyRead 5, [RecvData [1, 8]]), (ClReadyRead 5, [RecvData [7]])] prompt_socket]"
  let ?rops = "[RsStep (\<lambda>_. prompt_socket) 0
          [RsAccept (Inr 9), RsEvent (SvReadyRead 9) 1 (RecvData [1]), RsEvent (SvReadyRead 9) 2 (RecvData [7, 8])],
        RsStep (\<lambda>_. prompt_socket) 0 []]"
  obtain q where q: "foldo (rq_run_op pair_envelopes (\<lambda>m. [])) ?qops rq_new = Some (Inr q)" "SvcError \<notin> set (rq_log q)"
    "svc_enqueued (rq_log q) = [1, 7, 8]" "svc_written (rq_log q) = [1, 7, 8]" "svc_received (rq_log q) = [1, 8, 7]"
    by (simp add: rq_step_def rq_connect_def rq_emit_def rq_new_def rq_process_input_def env_loop_def env_once_def
        pair_envelopes_def loop_while.simps input_size_quant_def rq_deliver_def rq_enqueue_def rq_send_outgoing_data_def
        rq_send_once_def prompt_socket_def svc_taken_def svc_parts Let_def)
  obtain r a where r: "foldo (rs_run_op pair_envelopes (answering (\<lambda>m. (\<lambda>(a, b). [1, a, b]) (prod.swap m)))) ?rops rs_new = Some (Inr r)"
    "map_of (rs_requesters r) 9 = Some a" "\<not> hi_dropped (rs_hist (rs_log r) 9)"
    "hi_received (rs_hist (rs_log r) 9) = [1, 7, 8]" "hi_enqueued (rs_hist (rs_log r) 9) = [1, 8, 7]"
    "hi_written (rs_hist (rs_log r) 9) = [1, 8, 7]"
    by (simp add: rs_step_def rs_send_outgoing_data_def rs_send_account_def rs_send_once_def rs_emit_def rs_put_def rs_new_def
        rs_accept_def rs_process_input_def rs_locate_account_def rs_set_inb_def env_loop_def env_once_def
        pair_envelopes_def loop_while.simps rs_deliver_def rs_enqueue_def answering_def
        prompt_socket_def svc_taken_def rs_hist_def no_hist_def Let_def)
  from requests_answered [OF pe.service_envelopes_axioms pe.service_envelopes_axioms q(1,2) _ r(1) _ r(2,3), of "[(7, 8)]"] q r
  show ?thesis by auto
qed

end
