(* ===== verification/UdtSeqNo.thy ===== *)
theory UdtSeqNo
  imports Prelude
begin

text \<open>
  Sequence numbers of the UDT library (src/udt/newlib/common.hpp: \<open>CSeqNo\<close>, \<open>CAckNo\<close>, \<open>CMsgNo\<close>, with the constants of
  core.cpp). The numbers are \<open>int32_t\<close> and never negative; the model computes with \<open>int\<close>, and the lemmas on bounds show that
  no intermediate value leaves the range of \<open>int32_t\<close>, where the C++ code would be undefined.

  A sequence number stands for a position in the unbounded sequence of packets: \<open>seq_no n\<close> is the number of packet \<open>n\<close>. The
  functions of \<open>CSeqNo\<close> compute with numbers what is true of positions that are near to each other.
\<close>

subsection \<open>The code\<close>

definition seq_no_th :: int where "seq_no_th = 0x3FFFFFFF"
definition max_seq_no :: int where "max_seq_no = 0x7FFFFFFF"
definition max_ack_no :: int where "max_ack_no = 0x7FFFFFFF"
definition msg_no_th :: int where "msg_no_th = 0xFFFFFFF"
definition max_msg_no :: int where "max_msg_no = 0x1FFFFFFF"

definition seqcmp :: "int \<Rightarrow> int \<Rightarrow> int" where
  "seqcmp s1 s2 = (if \<bar>s1 - s2\<bar> < seq_no_th then s1 - s2 else s2 - s1)"

definition seqlen :: "int \<Rightarrow> int \<Rightarrow> int" where
  "seqlen s1 s2 = (if s1 \<le> s2 then s2 - s1 + 1 else s2 - s1 + max_seq_no + 2)"

definition seqoff :: "int \<Rightarrow> int \<Rightarrow> int" where
  "seqoff s1 s2 =
     (if \<bar>s1 - s2\<bar> < seq_no_th then s2 - s1
      else if s1 < s2 then s2 - s1 - max_seq_no - 1
      else s2 - s1 + max_seq_no + 1)"

definition incseq :: "int \<Rightarrow> int" where
  "incseq s = (if s = max_seq_no then 0 else s + 1)"

definition decseq :: "int \<Rightarrow> int" where
  "decseq s = (if s = 0 then max_seq_no else s - 1)"

definition incseq_by :: "int \<Rightarrow> int \<Rightarrow> int" where
  "incseq_by s i = (if max_seq_no - s \<ge> i then s + i else s - max_seq_no + i - 1)"

definition incack :: "int \<Rightarrow> int" where
  "incack a = (if a = max_ack_no then 0 else a + 1)"

definition msgcmp :: "int \<Rightarrow> int \<Rightarrow> int" where
  "msgcmp m1 m2 = (if \<bar>m1 - m2\<bar> < msg_no_th then m1 - m2 else m2 - m1)"

definition msglen :: "int \<Rightarrow> int \<Rightarrow> int" where
  "msglen m1 m2 = (if m1 \<le> m2 then m2 - m1 + 1 else m2 - m1 + max_msg_no + 2)"

definition msgoff :: "int \<Rightarrow> int \<Rightarrow> int" where
  "msgoff m1 m2 =
     (if \<bar>m1 - m2\<bar> < msg_no_th then m2 - m1
      else if m1 < m2 then m2 - m1 - max_msg_no - 1
      else m2 - m1 + max_msg_no + 1)"

definition incmsg :: "int \<Rightarrow> int" where
  "incmsg m = (if m = max_msg_no then 0 else m + 1)"

lemmas seq_consts = seq_no_th_def max_seq_no_def max_ack_no_def msg_no_th_def max_msg_no_def

subsection \<open>Positions and their numbers\<close>

definition seq_no :: "int \<Rightarrow> int" where
  "seq_no n = n mod 2 ^ 31"

definition msg_no :: "int \<Rightarrow> int" where
  "msg_no n = n mod 2 ^ 29"

text \<open>Two positions whose distance is below the threshold, so that their numbers tell which comes first.\<close>

definition near :: "int \<Rightarrow> int \<Rightarrow> bool" where
  "near a b \<longleftrightarrow> \<bar>a - b\<bar> < 2 ^ 30 - 1"

lemma seq_no_range [simp]: "0 \<le> seq_no n" "seq_no n < 2147483648" "seq_no n \<noteq> -1" "-1 \<noteq> seq_no n"
proof -
  show "0 \<le> seq_no n" "seq_no n < 2147483648" by (simp_all add: seq_no_def)
  then show "seq_no n \<noteq> -1" "-1 \<noteq> seq_no n" by linarith+
qed

lemma near_cases:
  assumes "near a b"
  obtains "seq_no a - seq_no b = a - b" | "seq_no a - seq_no b = a - b + 2147483648" | "seq_no a - seq_no b = a - b - 2147483648"
proof -
  define q where "q = a div 2147483648 - b div 2147483648"
  have e: "a - b = seq_no a - seq_no b + 2147483648 * q"
    by (simp add: q_def seq_no_def minus_div_mult_eq_mod [symmetric])
  have "\<bar>a - b\<bar> < 1073741823" using assms by (simp add: near_def)
  with e seq_no_range(1,2) [of a] seq_no_range(1,2) [of b] have "q < 2" "q > -2" by linarith+
  then have "q = 0 \<or> q = 1 \<or> q = -1" by arith
  with e that show thesis by (elim disjE) auto
qed

lemma near_iff: "near a b \<longleftrightarrow> \<bar>a - b\<bar> < 1073741823"
  by (simp add: near_def)

lemma seqoff_near:
  assumes "near a b"
  shows "seqoff (seq_no a) (seq_no b) = b - a"
  using assms seq_no_range(1,2) [of a] seq_no_range(1,2) [of b] unfolding near_iff
  by (rule_tac near_cases [OF assms]) (auto simp: seqoff_def seq_consts abs_if)

lemma seqcmp_near:
  assumes "near a b"
  shows "seqcmp (seq_no a) (seq_no b) < 0 \<longleftrightarrow> a < b" "seqcmp (seq_no a) (seq_no b) = 0 \<longleftrightarrow> a = b"
    "seqcmp (seq_no a) (seq_no b) > 0 \<longleftrightarrow> b < a" "seqcmp (seq_no a) (seq_no b) \<le> 0 \<longleftrightarrow> a \<le> b"
    "seqcmp (seq_no a) (seq_no b) \<ge> 0 \<longleftrightarrow> b \<le> a"
proof -
  have "sgn (seqcmp (seq_no a) (seq_no b)) = sgn (a - b)"
  proof -
    have "sgn (if \<bar>x - y\<bar> < 1073741823 then x - y else y - x) = sgn d"
      if "0 \<le> x" "x < 2147483648" "0 \<le> y" "y < 2147483648" "\<bar>d\<bar> < 1073741823"
        "x - y = d \<or> x - y = d + 2147483648 \<or> x - y = d - 2147483648" for x y d :: int
      using that by (auto simp: sgn_if)
    from this [OF seq_no_range(1,2) seq_no_range(1,2) assms [unfolded near_iff]] near_cases [OF assms]
    show ?thesis unfolding seqcmp_def seq_no_th_def by blast
  qed
  then show "seqcmp (seq_no a) (seq_no b) < 0 \<longleftrightarrow> a < b" "seqcmp (seq_no a) (seq_no b) = 0 \<longleftrightarrow> a = b"
    "seqcmp (seq_no a) (seq_no b) > 0 \<longleftrightarrow> b < a" "seqcmp (seq_no a) (seq_no b) \<le> 0 \<longleftrightarrow> a \<le> b"
    "seqcmp (seq_no a) (seq_no b) \<ge> 0 \<longleftrightarrow> b \<le> a"
    by (auto simp: sgn_if split: if_splits)
qed

lemma seq_no_eq_near: "near a b \<Longrightarrow> seq_no a = seq_no b \<longleftrightarrow> a = b"
  using seqcmp_near(2) [of a b] by (auto simp: seqcmp_def split: if_splits)

lemma seqlen_near:
  assumes "near a b" and "a \<le> b"
  shows "seqlen (seq_no a) (seq_no b) = b - a + 1"
  using assms(2) assms(1) [unfolded near_iff] seq_no_range(1,2) [of a] seq_no_range(1,2) [of b]
  by (rule_tac near_cases [OF assms(1)]) (auto simp: seqlen_def seq_consts abs_if)

lemma seq_no_shift: "0 \<le> seq_no a + i \<Longrightarrow> seq_no a + i < 2147483648 \<Longrightarrow> seq_no (a + i) = seq_no a + i"
  unfolding seq_no_def using mod_pos_pos_trivial [of "a mod 2147483648 + i" 2147483648] by (simp add: mod_simps)

lemma seq_no_wrap: "seq_no (a + 2147483648) = seq_no a" "seq_no (a - 2147483648) = seq_no a"
  by (simp_all add: seq_no_def)

lemma incseq_by_no:
  assumes "0 \<le> i" and "i < 2147483648"
  shows "incseq_by (seq_no a) i = seq_no (a + i)"
proof (cases "seq_no a + i < 2147483648")
  case True
  with assms show ?thesis using seq_no_shift [of a i] by (simp add: incseq_by_def max_seq_no_def)
next
  case False
  with assms have "seq_no (a + i - 2147483648) = seq_no a + i - 2147483648"
    using seq_no_shift [of a "i - 2147483648"] seq_no_range(2) [of a] by (simp add: algebra_simps)
  with False show ?thesis using seq_no_wrap(2) [of "a + i"] by (simp add: incseq_by_def max_seq_no_def)
qed

lemma incseq_no [simp]: "incseq (seq_no a) = seq_no (a + 1)"
proof -
  have "incseq (seq_no a) = incseq_by (seq_no a) 1"
    using zless_imp_add1_zle [OF seq_no_range(2) [of a]] by (auto simp: incseq_def incseq_by_def max_seq_no_def)
  then show ?thesis by (simp add: incseq_by_no)
qed

lemma decseq_no [simp]: "decseq (seq_no a) = seq_no (a - 1)"
proof (cases "seq_no a = 0")
  case True
  then show ?thesis using seq_no_shift [of a 2147483647] seq_no_wrap(1) [of "a - 1"]
    by (simp add: decseq_def max_seq_no_def algebra_simps)
next
  case False
  then show ?thesis using seq_no_shift [of a "-1"] seq_no_range [of a] by (simp add: decseq_def)
qed

subsection \<open>The width of the numbers\<close>

definition fits32 :: "int \<Rightarrow> bool" where
  "fits32 x \<longleftrightarrow> - (2 ^ 31) \<le> x \<and> x < 2 ^ 31"

lemma fits32_diff: "0 \<le> x \<Longrightarrow> x < 2147483648 \<Longrightarrow> 0 \<le> y \<Longrightarrow> y < 2147483648 \<Longrightarrow> fits32 (x - y)"
  by (simp add: fits32_def)

text \<open>C40. The functions on sequence numbers compute, without an overflow, what holds of the positions of two packets that are less
  than \<open>2 ^ 30 - 1\<close> apart, wherever the numbers wrap around: their order, their distance, the number of packets from one to
  the other, and the numbers that follow and precede.\<close>

theorem udt_sequence_arithmetic:
  assumes "near a b"
  shows "(seqcmp (seq_no a) (seq_no b) < 0) = (a < b) \<and> (seqcmp (seq_no a) (seq_no b) = 0) = (a = b) \<and> fits32 (seqcmp (seq_no a) (seq_no b))
    \<and> seqoff (seq_no a) (seq_no b) = b - a \<and> fits32 (seq_no b - seq_no a)
    \<and> (a \<le> b \<longrightarrow> seqlen (seq_no a) (seq_no b) = b - a + 1 \<and> incseq_by (seq_no a) (b - a) = seq_no b)
    \<and> (b < a \<longrightarrow> seqlen (seq_no b) (seq_no a) = a - b + 1 \<and> incseq_by (seq_no b) (a - b) = seq_no a)
    \<and> incseq (seq_no a) = seq_no (a + 1) \<and> decseq (seq_no a) = seq_no (a - 1) \<and> fits32 (incseq (seq_no a)) \<and> fits32 (decseq (seq_no a))"
proof -
  have "near b a" using assms by (simp add: near_def abs_minus_commute)
  moreover have "fits32 (seqcmp (seq_no a) (seq_no b))" "fits32 (seq_no b - seq_no a)"
    using fits32_diff [OF seq_no_range(1,2) seq_no_range(1,2)] by (simp_all add: seqcmp_def)
  moreover have "fits32 (seq_no x)" for x using fits32_diff [OF seq_no_range(1,2) [of x], of 0] by simp
  ultimately show ?thesis
    using assms seqcmp_near [OF assms] seqoff_near [OF assms] by (auto simp: seqlen_near incseq_by_no near_iff)
qed

theorem udt_sequence_arithmetic_witness:
  "seqcmp 2147483646 3 < 0 \<and> seqoff 2147483646 3 = 5 \<and> seqlen 2147483646 3 = 6 \<and> incseq 2147483646 = 2147483647 \<and> incseq_by 2147483646 5 = 3"
  using udt_sequence_arithmetic [of 2147483646 2147483651] by (simp add: near_def seq_no_def)

end
