(* ===== verification/UdtIntervals.thy ===== *)
theory UdtIntervals
  imports UdtSeqNo Loops "HOL-Library.Signed_Division"
begin

text \<open>
  What the two loss lists of the UDT library (src/udt/newlib/list.cpp) have in common: arrays of a fixed size that are used as
  a ring, an access outside of which is \<open>Undefined\<close>, and lists of intervals of positions whose nodes are at the index of
  their first position. The operation \<open>%\<close> of C++ is \<open>smod\<close>.
\<close>

subsection \<open>Arrays\<close>

definition cell :: "int \<Rightarrow> (int \<Rightarrow> int) \<Rightarrow> int \<Rightarrow> int result" where
  "cell n a i = (if 0 \<le> i \<and> i < n then Inr (a i) else Inl Undefined)"

definition set_cell :: "int \<Rightarrow> int \<Rightarrow> int \<Rightarrow> (int \<Rightarrow> int) \<Rightarrow> (int \<Rightarrow> int) result" where
  "set_cell n i v a = (if 0 \<le> i \<and> i < n then Inr (a(i := v)) else Inl Undefined)"

subsection \<open>Nodes and their indices\<close>

text \<open>The list stands for intervals \<open>(a, e)\<close> of positions in the sequence of packets; \<open>k\<close> relates positions to indices.\<close>

definition ring :: "int \<Rightarrow> int \<Rightarrow> int \<Rightarrow> int" where
  "ring k n x = (x + k) mod n"

fun path :: "(int \<Rightarrow> int) \<Rightarrow> int \<Rightarrow> int list \<Rightarrow> int \<Rightarrow> bool" where
  "path nx h [] y \<longleftrightarrow> h = y"
| "path nx h (q # qs) y \<longleftrightarrow> h = q \<and> path nx (nx q) qs y"

definition places :: "int \<Rightarrow> int \<Rightarrow> (int \<times> int) list \<Rightarrow> int list" where
  "places k n ns = map (\<lambda>(a, e). ring k n a) ns"

definition node_at :: "int \<Rightarrow> int \<Rightarrow> (int \<times> int) list \<Rightarrow> int \<Rightarrow> (int \<times> int) option" where
  "node_at k n ns = map_of (map (\<lambda>(a, e). (ring k n a, (a, e))) ns)"

fun first_no :: "(int \<times> int) option \<Rightarrow> int" where
  "first_no None = -1"
| "first_no (Some (a, e)) = seq_no a"

fun last_no :: "(int \<times> int) option \<Rightarrow> int" where
  "last_no None = -1"
| "last_no (Some (a, e)) = (if a = e then -1 else seq_no e)"

definition total_len :: "(int \<times> int) list \<Rightarrow> int" where
  "total_len ns = (\<Sum>(a, e)\<leftarrow>ns. e - a + 1)"

text \<open>The nodes start at growing positions of a window of the size of the arrays.\<close>

definition in_window :: "int \<Rightarrow> int \<Rightarrow> (int \<times> int) list \<Rightarrow> bool" where
  "in_window b n ns \<longleftrightarrow> sorted_wrt (\<lambda>x y. fst x < fst y) ns \<and> (\<forall>(a, e)\<in>set ns. b \<le> a \<and> a \<le> e \<and> e < b + n)"

subsection \<open>The ring of indices\<close>

lemma ring_range [simp]: "0 < n \<Longrightarrow> 0 \<le> ring k n x" "0 < n \<Longrightarrow> ring k n x < n" "0 < n \<Longrightarrow> ring k n x \<noteq> -1"
  by (simp_all add: ring_def) (metis Euclidean_Rings.pos_mod_sign neg_0_le_iff_le not_one_le_zero)

lemma mod_window_eq:
  assumes "b \<le> x" "x < b + n" "b \<le> y" "y < b + n" "x mod n = y mod n"
  shows "x = (y :: int)"
proof -
  from assms(5) obtain q where q: "x - y = n * q" by (meson mod_eq_dvd_iff dvdE)
  with assms(1-4) have "\<bar>n * q\<bar> < n" by linarith
  then have "\<bar>n\<bar> * \<bar>q\<bar> < n" by (simp add: abs_mult)
  then have "q = 0" by (cases "q = 0") (smt (verit) mult_le_cancel_left1)+
  with q show ?thesis by simp
qed

lemma ring_eq: "b \<le> x \<Longrightarrow> x < b + n \<Longrightarrow> b \<le> y \<Longrightarrow> y < b + n \<Longrightarrow> ring k n x = ring k n y \<longleftrightarrow> x = y"
  using mod_window_eq [of "b + k" "x + k" n "y + k"] by (auto simp: ring_def)

lemma smod_nonneg: "0 \<le> x \<Longrightarrow> 0 < n \<Longrightarrow> x smod n = x mod (n :: int)"
  by (cases "x = 0") (simp_all add: smod_int_alt_def)

lemma ring_smod:
  assumes "0 < n" and "-n \<le> y - x"
  shows "(ring k n x + (y - x) + n) smod n = ring k n y"
proof -
  have "0 \<le> ring k n x + (y - x) + n" using assms ring_range(1) [of n k x] by linarith
  then have "(ring k n x + (y - x) + n) smod n = (ring k n x + (y - x) + n) mod n"
    using assms(1) by (rule smod_nonneg)
  also have "\<dots> = ring k n y" by (simp add: ring_def mod_simps add.commute)
  finally show ?thesis .
qed

lemma ring_smod1: "0 < n \<Longrightarrow> (ring k n x + 1) smod n = ring k n (x + 1)"
proof -
  assume n: "0 < n"
  then have "(ring k n x + 1) smod n = (ring k n x + 1) mod n"
    using ring_range(1) [OF n, of k x] by (intro smod_nonneg) auto
  then show ?thesis by (simp add: ring_def mod_simps algebra_simps)
qed

lemma ring_smod0: "0 < n \<Longrightarrow> x \<le> y \<Longrightarrow> (ring k n x + (y - x)) smod n = ring k n y"
  using smod_nonneg [of "ring k n x + (y - x)" n] ring_range(1) [of n k x] by (simp add: ring_def mod_simps add.commute)

lemma ring_add: "(ring k n x + d) mod n = ring k n (x + d)"
  unfolding ring_def by (metis add.assoc add.commute mod_add_left_eq)

subsection \<open>Paths and nodes\<close>

lemma path_append: "path nx h (xs @ ys) y \<longleftrightarrow> (\<exists>m. path nx h xs m \<and> path nx m ys y)"
  by (induction xs arbitrary: h) auto

lemma path_update: "i \<notin> set xs \<Longrightarrow> path (nx(i := v)) h xs y \<longleftrightarrow> path nx h xs y"
  by (induction xs arbitrary: h) auto

lemma places_simps [simp]:
  "places k n [] = []" "places k n ((a, e) # ns) = ring k n a # places k n ns"
  "places k n (xs @ ys) = places k n xs @ places k n ys" "set (places k n ns) = (\<lambda>(a, e). ring k n a) ` set ns"
  by (simp_all add: places_def)

lemma total_len_simps [simp]: "total_len [] = 0" "total_len ((a, e) # ns) = e - a + 1 + total_len ns" "total_len (xs @ ys) = total_len xs + total_len ys"
  by (simp_all add: total_len_def)

lemma in_window_simps [simp]:
  "in_window b n []"
  "in_window b n ((a, e) # ns) \<longleftrightarrow> b \<le> a \<and> a \<le> e \<and> e < b + n \<and> (\<forall>(c, f)\<in>set ns. a < c) \<and> in_window b n ns"
  "in_window b n (xs @ ys) \<longleftrightarrow> in_window b n xs \<and> in_window b n ys \<and> (\<forall>(a, e)\<in>set xs. \<forall>(c, f)\<in>set ys. a < c)"
  by (auto simp: in_window_def sorted_wrt_append split_beta)

lemma in_window_mem: "in_window b n ns \<Longrightarrow> (a, e) \<in> set ns \<Longrightarrow> b \<le> a \<and> a \<le> e \<and> e < b + n"
  by (auto simp: in_window_def)

lemma node_at_empty [simp]: "node_at k n [] q = None"
  by (simp add: node_at_def)

lemma places_notin:
  assumes "in_window b n ns" and "b \<le> x" and "x < b + n" and "x \<notin> fst ` set ns"
  shows "ring k n x \<notin> set (places k n ns)"
proof
  assume "ring k n x \<in> set (places k n ns)"
  then obtain a e where a: "(a, e) \<in> set ns" "ring k n x = ring k n a" by auto
  with in_window_mem [OF assms(1) a(1)] ring_eq [OF assms(2,3), of a k] have "x = a" by simp
  with a(1) assms(4) show False by force
qed

lemma node_at_append: "node_at k n (xs @ ys) q = (case node_at k n xs q of None \<Rightarrow> node_at k n ys q | Some x \<Rightarrow> Some x)"
  unfolding node_at_def by (simp add: map_add_def)

lemma node_at_None: "q \<notin> set (places k n ns) \<Longrightarrow> node_at k n ns q = None"
  by (auto simp: node_at_def map_of_eq_None_iff image_image split_beta)

lemma places_middle:
  assumes "in_window b n (xs @ (a, e) # ys)"
  shows "ring k n a \<notin> set (places k n (xs @ ys))"
proof -
  have "b \<le> a" "a < b + n" "in_window b n (xs @ ys)" "a \<notin> fst ` set (xs @ ys)" using assms by fastforce+
  then show ?thesis by (intro places_notin)
qed

text \<open>The map of nodes when a node is in the middle.\<close>

lemma node_at_middle:
  assumes "in_window b n (xs @ (a, e) # ys)"
  shows "node_at k n (xs @ (a, e) # ys) = (node_at k n (xs @ ys))(ring k n a \<mapsto> (a, e))"
    and "node_at k n (xs @ ys) (ring k n a) = None"
proof -
  show none: "node_at k n (xs @ ys) (ring k n a) = None" by (intro node_at_None places_middle [OF assms])
  have "node_at k n (xs @ (a, e) # ys) q = ((node_at k n (xs @ ys))(ring k n a \<mapsto> (a, e))) q" for q
    using none by (auto simp: node_at_append split: option.splits) (auto simp: node_at_def)
  then show "node_at k n (xs @ (a, e) # ys) = (node_at k n (xs @ ys))(ring k n a \<mapsto> (a, e))" by blast
qed


text \<open>Where a list begins, and what the arrays hold for its nodes.\<close>

fun place_of :: "int \<Rightarrow> int \<Rightarrow> (int \<times> int) list \<Rightarrow> int" where
  "place_of k n [] = -1"
| "place_of k n ((a, e) # ns) = ring k n a"

lemma path_place_of: "path nx h (places k n ns) (-1) \<Longrightarrow> h = place_of k n ns"
  by (cases ns) auto

lemma path_start: "path nx h (places k n ns) (-1) \<Longrightarrow> path nx (place_of k n ns) (places k n ns) (-1)"
  using path_place_of by blast

lemma near_window: "\<bar>x - y\<bar> \<le> 536870913 \<Longrightarrow> near x y"
  by (simp add: near_iff)

subsection \<open>The positions of a list of intervals\<close>

definition cover :: "(int \<times> int) list \<Rightarrow> int set" where
  "cover ns = (\<Union>(a, e)\<in>set ns. {a..e})"

definition apart :: "(int \<times> int) list \<Rightarrow> bool" where
  "apart ns \<longleftrightarrow> sorted_wrt (\<lambda>(a, e) (c, f). e < c) ns"

lemma cover_simps [simp]: "cover [] = {}" "cover ((a, e) # ns) = {a..e} \<union> cover ns" "cover (xs @ ys) = cover xs \<union> cover ys"
  by (auto simp: cover_def)

lemma apart_simps [simp]: "apart []" "apart ((a, e) # ns) \<longleftrightarrow> (\<forall>(c, f)\<in>set ns. e < c) \<and> apart ns"
  "apart (xs @ ys) \<longleftrightarrow> apart xs \<and> apart ys \<and> (\<forall>(a, e)\<in>set xs. \<forall>(c, f)\<in>set ys. e < c)"
  by (auto simp: apart_def sorted_wrt_append split_beta)

lemma finite_cover [simp]: "finite (cover ns)"
  by (auto simp: cover_def)

lemma card_cover: "in_window b n ns \<Longrightarrow> apart ns \<Longrightarrow> int (card (cover ns)) = total_len ns"
proof (induction ns)
  case (Cons y ns)
  obtain a e where y: "y = (a, e)" by (cases y)
  have "{a..e} \<inter> cover ns = {}" using Cons.prems y by (fastforce simp: cover_def)
  with Cons y show ?case by (simp add: card_Un_disjoint)
qed simp

lemma in_window_move:
  assumes "in_window b n ns" and "cover ns \<subseteq> {c..<c + n}"
  shows "in_window c n ns"
proof -
  have "c \<le> a \<and> e < c + n" if "(a, e) \<in> set ns" for a e
  proof -
    have "a \<le> e" using in_window_mem [OF assms(1) that] by simp
    then have "a \<in> cover ns" "e \<in> cover ns" using that by (force simp: cover_def)+
    with assms(2) show ?thesis by auto
  qed
  with assms(1) show ?thesis by (fastforce simp: in_window_def)
qed

lemma total_len_pos: "in_window b n ns \<Longrightarrow> ns \<noteq> [] \<Longrightarrow> 0 < total_len ns"
proof (induction ns)
  case (Cons y ns)
  then show ?case by (cases y; cases "ns = []") fastforce+
qed simp

end
