(* ===== verification/UdtSndLossList.thy ===== *)
theory UdtSndLossList
  imports UdtIntervals
begin

text \<open>
  \<open>CSndLossList\<close> of the UDT library (src/udt/newlib/list.hpp, list.cpp): the numbers of lost packets that are to be sent
  again, as a linked list of intervals in arrays of a fixed size. The node of an interval is at the index that its first
  number has relative to the head; a second number of -1 marks an interval of one number.

  The array of links starts with arbitrary values. The mutex that guards each operation is not modelled: an operation is one step.
\<close>

subsection \<open>State\<close>

record snd_loss_list =
  sl_data1 :: "int \<Rightarrow> int"
  sl_data2 :: "int \<Rightarrow> int"
  sl_next :: "int \<Rightarrow> int"
  sl_head :: int
  sl_length :: int
  sl_size :: int
  sl_last_insert_pos :: int

definition sl_new :: "int \<Rightarrow> (int \<Rightarrow> int) \<Rightarrow> snd_loss_list" where
  "sl_new n junk = \<lparr>sl_data1 = (\<lambda>_. -1), sl_data2 = (\<lambda>_. -1), sl_next = junk, sl_head = -1, sl_length = 0,
     sl_size = n, sl_last_insert_pos = -1\<rparr>"

definition sl_get1 :: "snd_loss_list \<Rightarrow> int \<Rightarrow> int result" where "sl_get1 s = cell (sl_size s) (sl_data1 s)"
definition sl_get2 :: "snd_loss_list \<Rightarrow> int \<Rightarrow> int result" where "sl_get2 s = cell (sl_size s) (sl_data2 s)"
definition sl_get_next :: "snd_loss_list \<Rightarrow> int \<Rightarrow> int result" where "sl_get_next s = cell (sl_size s) (sl_next s)"

definition sl_set1 :: "int \<Rightarrow> int \<Rightarrow> snd_loss_list \<Rightarrow> snd_loss_list result" where
  "sl_set1 i v s = mapr (\<lambda>a. s\<lparr>sl_data1 := a\<rparr>) (set_cell (sl_size s) i v (sl_data1 s))"
definition sl_set2 :: "int \<Rightarrow> int \<Rightarrow> snd_loss_list \<Rightarrow> snd_loss_list result" where
  "sl_set2 i v s = mapr (\<lambda>a. s\<lparr>sl_data2 := a\<rparr>) (set_cell (sl_size s) i v (sl_data2 s))"
definition sl_set_next :: "int \<Rightarrow> int \<Rightarrow> snd_loss_list \<Rightarrow> snd_loss_list result" where
  "sl_set_next i v s = mapr (\<lambda>a. s\<lparr>sl_next := a\<rparr>) (set_cell (sl_size s) i v (sl_next s))"

subsection \<open>\<open>insert\<close>\<close>

text \<open>The node of an interval: its numbers are written, the second one if it differs from the first.\<close>

definition sl_put_node :: "int \<Rightarrow> int \<Rightarrow> int \<Rightarrow> snd_loss_list \<Rightarrow> snd_loss_list result" where
  "sl_put_node loc seqno1 seqno2 s =
     bindr (sl_set1 loc seqno1 s) (\<lambda>s. if seqno2 \<noteq> seqno1 then sl_set2 loc seqno2 s else Inr s)"

definition sl_add_length :: "int \<Rightarrow> snd_loss_list \<Rightarrow> snd_loss_list" where
  "sl_add_length n s = s\<lparr>sl_length := sl_length s + n\<rparr>"

text \<open>The node at \<open>loc\<close> starts at the same number: it is made longer, or the operation ends (\<open>None\<close>).\<close>

definition sl_extend :: "int \<Rightarrow> int \<Rightarrow> int \<Rightarrow> snd_loss_list \<Rightarrow> (int option \<times> snd_loss_list) result" where
  "sl_extend loc seqno1 seqno2 s =
     bindr (sl_get2 s loc) (\<lambda>d2.
       if d2 = -1 then
         (if seqno2 \<noteq> seqno1
          then mapr (Pair (Some loc)) (sl_set2 loc seqno2 (sl_add_length (seqlen seqno1 seqno2 - 1) s))
          else Inr (Some loc, s))
       else if seqcmp seqno2 d2 > 0
       then mapr (Pair (Some loc)) (sl_set2 loc seqno2 (sl_add_length (seqlen d2 seqno2 - 1) s))
       else Inr (None, s))"

text \<open>The loop that looks for the node before \<open>seqno\<close>.\<close>

definition sl_prior_once :: "int \<Rightarrow> snd_loss_list \<Rightarrow> nat \<Rightarrow> int \<Rightarrow> (bool \<times> int) result" where
  "sl_prior_once seqno s k i =
     bindr (sl_get_next s i) (\<lambda>n.
       if n = -1 then Inr (False, i)
       else bindr (sl_get1 s n) (\<lambda>d1. if seqcmp d1 seqno < 0 then Inr (True, n) else Inr (False, i)))"

definition sl_prior :: "int \<Rightarrow> int \<Rightarrow> snd_loss_list \<Rightarrow> int result option" where
  "sl_prior seqno i s = loop_while (sl_prior_once seqno s) 0 i"

text \<open>The search for a node before \<open>seqno1\<close> starts at the last insertion, if that is before it.\<close>

definition sl_search_start :: "int \<Rightarrow> snd_loss_list \<Rightarrow> int result" where
  "sl_search_start seqno1 s =
     (if sl_last_insert_pos s = -1 then Inr (sl_head s)
      else mapr (\<lambda>d1. if seqcmp d1 seqno1 < 0 then sl_last_insert_pos s else sl_head s) (sl_get1 s (sl_last_insert_pos s)))"

text \<open>After the node at \<open>i\<close> that starts before \<open>seqno1\<close>: a new node at \<open>loc\<close>, or a longer one at \<open>i\<close>, or the end.\<close>

definition sl_insert_after :: "int \<Rightarrow> int \<Rightarrow> int \<Rightarrow> int \<Rightarrow> snd_loss_list \<Rightarrow> (int option \<times> snd_loss_list) result" where
  "sl_insert_after i loc seqno1 seqno2 s =
     bindr (sl_get2 s i) (\<lambda>d2.
       if d2 = -1 \<or> seqcmp d2 seqno1 < 0 then
         bindr (sl_put_node loc seqno1 seqno2 (s\<lparr>sl_last_insert_pos := loc\<rparr>)) (\<lambda>s.
         bindr (sl_get_next s i) (\<lambda>n.
         bindr (sl_set_next loc n s) (\<lambda>s.
         bindr (sl_set_next i loc s) (\<lambda>s. Inr (Some loc, sl_add_length (seqlen seqno1 seqno2) s)))))
       else
         (let s = s\<lparr>sl_last_insert_pos := i\<rparr> in
          if seqcmp d2 seqno2 < 0
          then mapr (Pair (Some i)) (sl_set2 i seqno2 (sl_add_length (seqlen d2 seqno2 - 1) s))
          else Inr (None, s)))"

text \<open>The loop that joins the node at \<open>loc\<close> with those after it.\<close>

definition sl_join_once :: "int \<Rightarrow> nat \<Rightarrow> snd_loss_list \<Rightarrow> (bool \<times> snd_loss_list) result" where
  "sl_join_once loc k s =
     bindr (sl_get_next s loc) (\<lambda>i.
     bindr (if i = -1 then Inr (-1) else sl_get2 s loc) (\<lambda>e.
       if i = -1 \<or> e = -1 then Inr (False, s)
       else
         bindr (sl_get1 s i) (\<lambda>d1.
           if seqcmp d1 (incseq e) \<le> 0 then
             bindr (sl_get2 s i) (\<lambda>d2.
             bindr (if d2 \<noteq> -1 then
                      (if seqcmp d2 e > 0
                       then sl_set2 loc d2 (if seqcmp e d1 \<ge> 0 then sl_add_length (- seqlen d1 e) s else s)
                       else Inr (sl_add_length (- seqlen d1 d2) s))
                    else if d1 = incseq e then sl_set2 loc d1 s
                    else Inr (sl_add_length (-1) s)) (\<lambda>s.
             bindr (sl_set1 i (-1) s) (\<lambda>s.
             bindr (sl_set2 i (-1) s) (\<lambda>s.
             bindr (sl_get_next s i) (\<lambda>n. mapr (Pair True) (sl_set_next loc n s))))))
           else Inr (False, s))))"

definition sl_join :: "int \<Rightarrow> snd_loss_list \<Rightarrow> snd_loss_list result option" where
  "sl_join loc s = loop_while (sl_join_once loc) 0 s"

text \<open>What \<open>insert\<close> does to a list that is not empty before the nodes are joined: the node to start from, or \<open>None\<close> if
  it returns 0.\<close>

definition sl_place :: "int \<Rightarrow> int \<Rightarrow> snd_loss_list \<Rightarrow> (int option \<times> snd_loss_list) result option" where
  "sl_place seqno1 seqno2 s =
     bindo (Some (sl_get1 s (sl_head s))) (\<lambda>d.
     let offset = seqoff d seqno1;
         loc = (sl_head s + offset + sl_size s) smod sl_size s in
     if offset < 0 then
       Some (bindr (sl_put_node loc seqno1 seqno2 s) (\<lambda>s.
         bindr (sl_set_next loc (sl_head s) s) (\<lambda>s.
         Inr (Some loc, sl_add_length (seqlen seqno1 seqno2) (s\<lparr>sl_head := loc, sl_last_insert_pos := loc\<rparr>)))))
     else if offset > 0 then
       bindo (Some (sl_get1 s loc)) (\<lambda>d1.
         if seqno1 = d1 then Some (sl_extend loc seqno1 seqno2 (s\<lparr>sl_last_insert_pos := loc\<rparr>))
         else
           bindo (Some (sl_search_start seqno1 s)) (\<lambda>i.
           bindo (sl_prior seqno1 i s) (\<lambda>i. Some (sl_insert_after i loc seqno1 seqno2 s))))
     else
       (let s = s\<lparr>sl_last_insert_pos := sl_head s\<rparr> in
        if seqno2 \<noteq> seqno1 then Some (sl_extend loc seqno1 seqno2 s) else Some (Inr (None, s))))"

definition sl_insert :: "int \<Rightarrow> int \<Rightarrow> snd_loss_list \<Rightarrow> (int \<times> snd_loss_list) result option" where
  "sl_insert seqno1 seqno2 s =
     (if sl_length s = 0 then
        Some (bindr (sl_put_node 0 seqno1 seqno2 (s\<lparr>sl_head := 0\<rparr>)) (\<lambda>s.
          bindr (sl_set_next 0 (-1) s) (\<lambda>s.
          let s = sl_add_length (seqlen seqno1 seqno2) (s\<lparr>sl_last_insert_pos := 0\<rparr>) in Inr (sl_length s, s))))
      else
        bindo (sl_place seqno1 seqno2 s) (\<lambda>(loc, t).
          case loc of
            None \<Rightarrow> Some (Inr (0, t))
          | Some loc \<Rightarrow> bindo (sl_join loc t) (\<lambda>t. Some (Inr (sl_length t - sl_length s, t)))))"

subsection \<open>\<open>remove\<close>, \<open>getLossLength\<close> and \<open>getLostSeq\<close>\<close>

text \<open>What follows \<open>seqno\<close> in the interval that ends at \<open>e\<close>, at the index \<open>loc\<close>.\<close>

definition sl_put_rest :: "int \<Rightarrow> int \<Rightarrow> int \<Rightarrow> snd_loss_list \<Rightarrow> snd_loss_list result" where
  "sl_put_rest loc seqno e s =
     bindr (sl_set1 loc (incseq seqno) s) (\<lambda>s. if seqcmp e (incseq seqno) > 0 then sl_set2 loc e s else Inr s)"

text \<open>The loop that removes the nodes before the new head.\<close>

definition sl_drop_once :: "nat \<Rightarrow> int \<times> snd_loss_list \<Rightarrow> (bool \<times> int \<times> snd_loss_list) result" where
  "sl_drop_once k hs = (case hs of (h, s) \<Rightarrow>
     if h = sl_head s then Inr (False, h, s)
     else
       bindr (sl_get2 s h) (\<lambda>d2.
       bindr (sl_get1 s h) (\<lambda>d1.
       bindr (if d2 \<noteq> -1 then sl_set2 h (-1) (sl_add_length (- seqlen d1 d2) s) else Inr (sl_add_length (-1) s)) (\<lambda>s.
       bindr (sl_set1 h (-1) s) (\<lambda>s.
       let s = (if sl_last_insert_pos s = h then s\<lparr>sl_last_insert_pos := -1\<rparr> else s) in
       mapr (\<lambda>n. (True, n, s)) (sl_get_next s h))))))"

definition sl_drop :: "int \<Rightarrow> snd_loss_list \<Rightarrow> snd_loss_list result option" where
  "sl_drop h s = bindo (loop_while sl_drop_once 0 (h, s)) (\<lambda>(h, s). Some (Inr s))"

text \<open>\<open>remove\<close> when the head is \<open>seqno\<close> itself.\<close>

definition sl_remove_head :: "int \<Rightarrow> int \<Rightarrow> snd_loss_list \<Rightarrow> snd_loss_list result" where
  "sl_remove_head loc seqno s =
     (let loc = (loc + 1) smod sl_size s; h = sl_head s in
      bindr (sl_get2 s h) (\<lambda>e.
      bindr (if e = -1 then mapr (\<lambda>n. (n, s)) (sl_get_next s h)
             else
               bindr (sl_put_rest loc seqno e s) (\<lambda>s.
               bindr (sl_set2 h (-1) s) (\<lambda>s.
               bindr (sl_get_next s h) (\<lambda>n. mapr (Pair loc) (sl_set_next loc n s))))) (\<lambda>(loc, s).
      bindr (sl_set1 h (-1) s) (\<lambda>s.
      let s = (if sl_last_insert_pos s = h then s\<lparr>sl_last_insert_pos := -1\<rparr> else s) in
      Inr (sl_add_length (-1) (s\<lparr>sl_head := loc\<rparr>))))))"

text \<open>\<open>remove\<close> when a node starts at \<open>seqno\<close>, at the index \<open>loc\<close>.\<close>

definition sl_cut_at :: "int \<Rightarrow> int \<Rightarrow> snd_loss_list \<Rightarrow> snd_loss_list result" where
  "sl_cut_at temp seqno s =
     (let loc = (temp + 1) smod sl_size s in
      bindr (sl_get2 s temp) (\<lambda>e.
        if e = -1 then mapr (\<lambda>n. s\<lparr>sl_head := n\<rparr>) (sl_get_next s temp)
        else
          bindr (sl_put_rest loc seqno e s) (\<lambda>s.
          bindr (sl_get_next s temp) (\<lambda>n.
          bindr (sl_set_next loc n (s\<lparr>sl_head := loc\<rparr>)) (\<lambda>s.
          bindr (sl_set_next temp loc s) (\<lambda>s. sl_set2 temp (-1) s))))))"

text \<open>\<open>remove\<close> when no node starts at \<open>seqno\<close>; \<open>i\<close> is the node before it.\<close>

definition sl_cut_in :: "int \<Rightarrow> int \<Rightarrow> int \<Rightarrow> snd_loss_list \<Rightarrow> snd_loss_list result" where
  "sl_cut_in loc i seqno s =
     (let loc = (loc + 1) smod sl_size s in
      bindr (sl_get2 s i) (\<lambda>e.
        if e \<noteq> -1 \<and> seqcmp e seqno > 0 then
          bindr (sl_put_rest loc seqno e s) (\<lambda>s.
          bindr (sl_set2 i seqno s) (\<lambda>s.
          bindr (sl_get_next s i) (\<lambda>n.
          bindr (sl_set_next loc n s) (\<lambda>s. mapr (\<lambda>s. s\<lparr>sl_head := loc\<rparr>) (sl_set_next i loc s)))))
        else mapr (\<lambda>n. s\<lparr>sl_head := n\<rparr>) (sl_get_next s i)))"

definition sl_remove :: "int \<Rightarrow> snd_loss_list \<Rightarrow> snd_loss_list result option" where
  "sl_remove seqno s =
     (if sl_length s = 0 then Some (Inr s)
      else
        bindo (Some (sl_get1 s (sl_head s))) (\<lambda>d.
        let offset = seqoff d seqno;
            loc = (sl_head s + offset + sl_size s) smod sl_size s in
        if offset = 0 then Some (sl_remove_head loc seqno s)
        else if offset > 0 then
          bindo (bindo (Some (sl_get1 s loc)) (\<lambda>d1.
            if seqno = d1 then Some (sl_cut_at loc seqno s)
            else bindo (sl_prior seqno (sl_head s) s) (\<lambda>i. Some (sl_cut_in loc i seqno s))))
            (sl_drop (sl_head s))
        else Some (Inr s)))"

definition sl_get_loss_length :: "snd_loss_list \<Rightarrow> int" where
  "sl_get_loss_length s = sl_length s"

text \<open>The head moves to the next number of its interval, or to the next node.\<close>

definition sl_next_head :: "int \<Rightarrow> int \<Rightarrow> int \<Rightarrow> snd_loss_list \<Rightarrow> snd_loss_list result" where
  "sl_next_head h seqno e s =
     (if e = -1 then bindr (sl_set1 h (-1) s) (\<lambda>s. mapr (\<lambda>n. s\<lparr>sl_head := n\<rparr>) (sl_get_next s h))
      else
        (let loc = (h + 1) smod sl_size s in
         bindr (sl_put_rest loc seqno e s) (\<lambda>s.
         bindr (sl_set1 h (-1) s) (\<lambda>s.
         bindr (sl_set2 h (-1) s) (\<lambda>s.
         bindr (sl_get_next s h) (\<lambda>n. mapr (\<lambda>s. s\<lparr>sl_head := loc\<rparr>) (sl_set_next loc n s)))))))"

definition sl_get_lost_seq :: "snd_loss_list \<Rightarrow> (int \<times> snd_loss_list) result" where
  "sl_get_lost_seq s =
     (if sl_length s = 0 then Inr (-1, s)
      else
        (let h = sl_head s; s = (if sl_last_insert_pos s = h then s\<lparr>sl_last_insert_pos := -1\<rparr> else s) in
         bindr (sl_get1 s h) (\<lambda>seqno.
         bindr (sl_get2 s h) (\<lambda>e.
         bindr (sl_next_head h seqno e s) (\<lambda>s. Inr (seqno, sl_add_length (-1) s))))))"

subsection \<open>Nodes and their indices\<close>

definition sl_rep :: "int \<Rightarrow> int \<Rightarrow> (int \<times> int) list \<Rightarrow> snd_loss_list \<Rightarrow> bool" where
  "sl_rep b k ns s \<longleftrightarrow> 0 < sl_size s \<and> sl_size s \<le> 2 ^ 29 \<and> in_window b (sl_size s) ns \<and>
     path (sl_next s) (sl_head s) (places k (sl_size s) ns) (-1) \<and>
     (\<forall>q. 0 \<le> q \<and> q < sl_size s \<longrightarrow>
        sl_data1 s q = first_no (node_at k (sl_size s) ns q) \<and> sl_data2 s q = last_no (node_at k (sl_size s) ns q)) \<and>
     sl_length s = total_len ns \<and>
     (sl_last_insert_pos s = -1 \<or> sl_last_insert_pos s \<in> set (places k (sl_size s) ns))"

subsection \<open>Cells\<close>

lemma sl_rep_size: "sl_rep b k ns s \<Longrightarrow> 0 < sl_size s" "sl_rep b k ns s \<Longrightarrow> sl_size s \<le> 536870912"
  by (simp_all add: sl_rep_def)

lemma sl_rep_window: "sl_rep b k ns s \<Longrightarrow> in_window b (sl_size s) ns"
  by (simp add: sl_rep_def)

lemma sl_gets:
  assumes "sl_rep b k ns s" and "n = sl_size s"
  shows "sl_get1 s (ring k n x) = Inr (first_no (node_at k n ns (ring k n x)))"
    and "sl_get2 s (ring k n x) = Inr (last_no (node_at k n ns (ring k n x)))"
  using assms by (simp_all add: sl_rep_def sl_get1_def sl_get2_def cell_def)

lemma sl_node:
  assumes "sl_rep b k (xs @ (a, e) # ys) s" and "n = sl_size s"
  shows "sl_get1 s (ring k n a) = Inr (seq_no a)" and "sl_get2 s (ring k n a) = Inr (if a = e then -1 else seq_no e)"
    and "sl_get_next s (ring k n a) = Inr (place_of k n ys)" and "sl_next s (ring k n a) = place_of k n ys"
proof -
  note w = sl_rep_window [OF assms(1), folded assms(2)]
  show "sl_get1 s (ring k n a) = Inr (seq_no a)" "sl_get2 s (ring k n a) = Inr (if a = e then -1 else seq_no e)"
    by (simp_all add: sl_gets [OF assms] node_at_middle(1) [OF w])
  show "sl_next s (ring k n a) = place_of k n ys"
    using assms by (auto simp: sl_rep_def path_append dest: path_place_of)
  then show "sl_get_next s (ring k n a) = Inr (place_of k n ys)"
    using sl_rep_size [OF assms(1)] assms(2) by (simp add: sl_get_next_def cell_def)
qed

lemma sl_sets:
  assumes "0 < n" and "sl_size s = n"
  shows "sl_set1 (ring k n x) v s = Inr (s\<lparr>sl_data1 := (sl_data1 s)(ring k n x := v)\<rparr>)"
    and "sl_set2 (ring k n x) v s = Inr (s\<lparr>sl_data2 := (sl_data2 s)(ring k n x := v)\<rparr>)"
    and "sl_set_next (ring k n x) v s = Inr (s\<lparr>sl_next := (sl_next s)(ring k n x := v)\<rparr>)"
    and "sl_get_next s (ring k n x) = Inr (sl_next s (ring k n x))"
    and "sl_get1 s (ring k n x) = Inr (sl_data1 s (ring k n x))"
    and "sl_get2 s (ring k n x) = Inr (sl_data2 s (ring k n x))"
  using assms by (simp_all add: sl_set1_def sl_set2_def sl_set_next_def set_cell_def sl_get_next_def cell_def sl_get1_def sl_get2_def)

text \<open>Two nodes that follow each other become one.\<close>

lemma sl_rep_merge:
  assumes rep: "sl_rep b k (xs @ (a, e) # (c, f) # ys) s" and n: "n = sl_size s"
    and "a \<noteq> e" and last: "sl_last_insert_pos s = ring k n a" and m: "m = max e f"
  shows "sl_rep b k (xs @ (a, m) # ys)
    (s\<lparr>sl_data1 := (sl_data1 s)(ring k n c := -1), sl_data2 := (sl_data2 s)(ring k n a := seq_no m, ring k n c := -1),
       sl_next := (sl_next s)(ring k n a := place_of k n ys), sl_length := total_len (xs @ (a, m) # ys)\<rparr>)"
proof -
  have w: "in_window b n (xs @ (a, e) # (c, f) # ys)" using rep n by (simp add: sl_rep_def)
  then have w': "in_window b n (xs @ (a, m) # ys)" by (auto simp: m)
  have ac: "ring k n a \<noteq> ring k n c" using w ring_eq [of b a n c k] by fastforce
  have notin: "ring k n a \<notin> set (places k n (xs @ ys))" "ring k n c \<notin> set (places k n (xs @ ys))"
    using w by (intro places_notin [of b]; fastforce)+
  have at: "node_at k n (xs @ (a, e) # (c, f) # ys) = (node_at k n (xs @ ys))(ring k n c \<mapsto> (c, f), ring k n a \<mapsto> (a, e))"
  proof -
    have "in_window b n (xs @ (c, f) # ys)" using w by auto
    then show ?thesis by (simp only: node_at_middle(1) [OF w] node_at_middle(1))
  qed
  have "a < m" using w assms(3) by (auto simp: m)
  have p: "path (sl_next s) (sl_head s) (places k n xs @ ring k n a # ring k n c # places k n ys) (-1)"
    using rep n by (simp add: sl_rep_def)
  then have "path ((sl_next s)(ring k n a := place_of k n ys)) (sl_head s) (places k n xs @ ring k n a # places k n ys) (-1)"
    using notin by (auto simp: path_append path_update intro: path_start)
  moreover have "\<forall>q. 0 \<le> q \<and> q < n \<longrightarrow>
      ((sl_data1 s)(ring k n c := -1)) q = first_no (node_at k n (xs @ (a, m) # ys) q) \<and>
      ((sl_data2 s)(ring k n a := seq_no m, ring k n c := -1)) q = last_no (node_at k n (xs @ (a, m) # ys) q)"
    using rep n at ac \<open>a < m\<close> node_at_None [OF notin(2)] node_at_middle(1) [OF w', of k] by (auto simp: sl_rep_def)
  ultimately show ?thesis using rep n w' last by (simp add: sl_rep_def)
qed

lemma sl_join_step:
  assumes rep: "sl_rep b k (xs @ (a, e) # (c, f) # ys) s" and n: "n = sl_size s"
    and ae: "a \<noteq> e" and last: "sl_last_insert_pos s = ring k n a" and ce: "c \<le> e + 1"
  shows "\<exists>t. sl_join_once (ring k n a) j s = Inr (True, t) \<and> sl_rep b k (xs @ (a, max e f) # ys) t \<and>
    sl_size t = n \<and> sl_last_insert_pos t = ring k n a"
proof -
  have n0: "0 < n" "n \<le> 536870912" using sl_rep_size [OF rep] n by simp_all
  have w: "b \<le> a" "a < e" "e < b + n" "a < c" "c \<le> f" "f < b + n" using sl_rep_window [OF rep] n ae by auto
  note cmp = seqcmp_near [OF near_window] seqlen_near [OF near_window] seq_no_eq_near [OF near_window]
  have ra: "sl_get1 s (ring k n a) = Inr (seq_no a)" "sl_get2 s (ring k n a) = Inr (seq_no e)"
    "sl_get_next s (ring k n a) = Inr (ring k n c)"
    using sl_node [OF rep n] ae by simp_all
  have rep': "sl_rep b k ((xs @ [(a, e)]) @ (c, f) # ys) s" using rep by simp
  have rc: "sl_get1 s (ring k n c) = Inr (seq_no c)" "sl_get2 s (ring k n c) = Inr (if c = f then -1 else seq_no f)"
    "sl_next s (ring k n c) = place_of k n ys"
    using sl_node [OF rep' n] by simp_all
  have d2: "sl_data2 s (ring k n a) = seq_no e" using ra(2) sl_sets(6) [OF n0(1), of s k a] n by simp
  have len: "sl_length s = total_len (xs @ (a, e) # (c, f) # ys)" using rep by (simp add: sl_rep_def)
  let ?m = "max e f"
  have "\<exists>t. sl_join_once (ring k n a) j s = Inr (True, t) \<and>
      t = s\<lparr>sl_data1 := (sl_data1 s)(ring k n c := -1), sl_data2 := (sl_data2 s)(ring k n a := seq_no ?m, ring k n c := -1),
       sl_next := (sl_next s)(ring k n a := place_of k n ys), sl_length := total_len (xs @ (a, ?m) # ys)\<rparr>"
  proof (cases "e < f")
    case True
    with w n0 ra rc ae ce len show ?thesis
      by (auto simp: sl_join_once_def cmp sl_sets [OF n0(1)] n [symmetric] sl_add_length_def fun_upd_twist)
  next
    case False
    with w n0 ra rc ae ce len d2 show ?thesis
      by (auto simp: sl_join_once_def cmp sl_sets [OF n0(1)] n [symmetric] sl_add_length_def fun_upd_idem)
  qed
  with sl_rep_merge [OF rep n ae last refl] n last show ?thesis by auto
qed

lemma sl_join_ends:
  assumes rep: "sl_rep b k (xs @ (a, e) # ys) s" and n: "n = sl_size s"
    and "a = e \<or> (\<forall>c f zs. ys = (c, f) # zs \<longrightarrow> e + 1 < c)"
  shows "sl_join_once (ring k n a) j s = Inr (False, s)"
proof (cases ys)
  case Nil
  then show ?thesis using sl_node [OF rep n] by (simp add: sl_join_once_def)
next
  case (Cons y zs)
  obtain c f where ys: "ys = (c, f) # zs" using Cons by (cases y) auto
  have n0: "0 < n" "n \<le> 536870912" using sl_rep_size [OF rep] n by simp_all
  have w: "b \<le> a" "a \<le> e" "e < b + n" "a < c" "c \<le> f" "f < b + n" using sl_rep_window [OF rep] n ys by auto
  have rep': "sl_rep b k ((xs @ [(a, e)]) @ (c, f) # zs) s" using rep ys by simp
  show ?thesis
    using sl_node [OF rep n] sl_node(1) [OF rep' n] assms(3) ys w n0
    by (auto simp: sl_join_once_def seqcmp_near [OF near_window])
qed

text \<open>The loop joins the node at \<open>a\<close> with those it reaches.\<close>

lemma sl_join_spec:
  assumes "sl_rep b k (xs @ (a, e) # ys) s" and "n = sl_size s" and "sl_last_insert_pos s = ring k n a" and "apart ys"
  shows "\<exists>t e' ys'. loop_while (sl_join_once (ring k n a)) j s = Some (Inr t) \<and> sl_rep b k (xs @ (a, e') # ys') t \<and>
    cover ((a, e') # ys') = cover ((a, e) # ys) \<and> apart ((a, e') # ys')  \<and> sl_size t = n"
  using assms
proof (induction ys arbitrary: e s j)
  case Nil
  have "sl_join_once (ring k n a) j s = Inr (False, s)" using sl_join_ends [OF Nil.prems(1,2)] by simp
  then show ?case using Nil by (intro exI [of _ s] exI [of _ e] exI [of _ "[]"]) (simp add: loop_while_stops)
next
  case (Cons y ys)
  obtain c f where y: "y = (c, f)" by (cases y)
  have w: "a \<le> e" "a < c" "c \<le> f" "\<forall>(d, g)\<in>set ys. c < d" using sl_rep_window [OF Cons.prems(1)] Cons.prems(2) y by auto
  show ?case
  proof (cases "a \<noteq> e \<and> c \<le> e + 1")
    case True
    obtain t where t: "sl_join_once (ring k n a) j s = Inr (True, t)" "sl_rep b k (xs @ (a, max e f) # ys) t"
      "n = sl_size t" "sl_last_insert_pos t = ring k n a"
      using sl_join_step [OF Cons.prems(1) [unfolded y] Cons.prems(2) _ Cons.prems(3)] True by blast
    have "cover ((a, max e f) # ys) = cover ((a, e) # (c, f) # ys)" using True w by auto
    moreover have "apart ys" using Cons.prems(4) y by simp
    ultimately show ?thesis using Cons.IH [OF t(2-4), of "Suc j"] t(1) y by (auto simp: loop_while_goes)
  next
    case False
    have "sl_join_once (ring k n a) j s = Inr (False, s)" using sl_join_ends [OF Cons.prems(1,2)] False y by auto
    moreover have "e < c" using False w(1,2) by auto
    then have "apart ((a, e) # y # ys)" using Cons.prems(4) y w by auto
    ultimately show ?thesis using Cons.prems by (intro exI [of _ s] exI [of _ e] exI [of _ "y # ys"]) (simp add: loop_while_stops)
  qed
qed

subsection \<open>The search for the node before a position\<close>

lemma sl_prior_spec:
  assumes "sl_rep b k (xs @ (a, e) # ys) s" and "n = sl_size s" and "a < x" and "b - 1 \<le> x" and "x \<le> b + n"
  shows "\<exists>us c f vs. (a, e) # ys = us @ (c, f) # vs \<and> loop_while (sl_prior_once (seq_no x) s) j (ring k n a) = Some (Inr (ring k n c)) \<and>
    c < x \<and> (\<forall>(d, g)\<in>set vs. x \<le> d)"
  using assms
proof (induction ys arbitrary: xs a e j)
  case Nil
  have "sl_prior_once (seq_no x) s j (ring k n a) = Inr (False, ring k n a)"
    using sl_node [OF Nil.prems(1,2)] by (simp add: sl_prior_once_def)
  then show ?case using Nil.prems(3) by (intro exI [of _ "[]"] exI [of _ a] exI [of _ e] exI [of _ "[]"]) (simp add: loop_while_stops)
next
  case (Cons y ys)
  obtain d g where y: "y = (d, g)" by (cases y)
  have n0: "0 < n" "n \<le> 536870912" using sl_rep_size [OF Cons.prems(1)] Cons.prems(2) by simp_all
  have w: "b \<le> d" "d \<le> g" "g < b + n" "\<forall>(p, q)\<in>set ys. d < p" using sl_rep_window [OF Cons.prems(1)] Cons.prems(2) y by auto
  have rep': "sl_rep b k ((xs @ [(a, e)]) @ (d, g) # ys) s" using Cons.prems(1) y by simp
  have once: "sl_prior_once (seq_no x) s j (ring k n a) = (if d < x then Inr (True, ring k n d) else Inr (False, ring k n a))"
    using sl_node [OF Cons.prems(1,2)] sl_node(1) [OF rep' Cons.prems(2)] y n0 w Cons.prems(4,5)
    by (simp add: sl_prior_once_def seqcmp_near [OF near_window])
  show ?case
  proof (cases "d < x")
    case True
    with Cons.IH [OF rep' Cons.prems(2) True Cons.prems(4,5), of "Suc j"] obtain us c f vs where
      "(d, g) # ys = us @ (c, f) # vs" "loop_while (sl_prior_once (seq_no x) s) (Suc j) (ring k n d) = Some (Inr (ring k n c))"
      "c < x" "\<forall>(d, g)\<in>set vs. x \<le> d" by blast
    with once True y show ?thesis by (intro exI [of _ "(a, e) # us"] exI [of _ c] exI [of _ f] exI [of _ vs]) (simp add: loop_while_goes)
  next
    case False
    with w have "\<forall>(p, q)\<in>set (y # ys). x \<le> p" using y by auto
    with once False Cons.prems(3) show ?thesis
      by (intro exI [of _ "[]"] exI [of _ a] exI [of _ e] exI [of _ "y # ys"]) (simp add: loop_while_stops)
  qed
qed

subsection \<open>The place of an interval\<close>

lemma sl_rep_last:
  "sl_rep b k (xs @ (a, e) # ys) s \<Longrightarrow> sl_rep b k (xs @ (a, e) # ys) (s\<lparr>sl_last_insert_pos := ring k (sl_size s) a\<rparr>)"
  by (simp add: sl_rep_def)

lemma sl_rep_extend:
  assumes rep: "sl_rep b k (xs @ (a, e) # ys) s" and n: "n = sl_size s" and m: "e < m" "m < b + n"
    and l: "l = total_len (xs @ (a, m) # ys)"
  shows "sl_rep b k (xs @ (a, m) # ys) (s\<lparr>sl_length := l, sl_data2 := (sl_data2 s)(ring k n a := seq_no m)\<rparr>)"
proof -
  have w: "in_window b n (xs @ (a, e) # ys)" using rep n by (simp add: sl_rep_def)
  then have w': "in_window b n (xs @ (a, m) # ys)" and "a < m" using m by auto
  then have "\<forall>q. 0 \<le> q \<and> q < n \<longrightarrow> sl_data1 s q = first_no (node_at k n (xs @ (a, m) # ys) q) \<and>
      ((sl_data2 s)(ring k n a := seq_no m)) q = last_no (node_at k n (xs @ (a, m) # ys) q)"
    using rep n node_at_middle(1) [OF w, of k] node_at_middle(1) [OF w', of k] by (auto simp: sl_rep_def)
  then show ?thesis using rep n w' l by (simp add: sl_rep_def)
qed

lemma sl_rep_insert:
  assumes rep: "sl_rep b k (xs @ ys) s" and n: "n = sl_size s" and w: "in_window b n (xs @ (a, e) # ys)"
    and p: "path nx h (places k n (xs @ (a, e) # ys)) (-1)" and l: "l = total_len (xs @ (a, e) # ys)"
  shows "sl_rep b k (xs @ (a, e) # ys)
    (s\<lparr>sl_data1 := (sl_data1 s)(ring k n a := seq_no a), sl_data2 := (sl_data2 s)(ring k n a := if a = e then -1 else seq_no e),
       sl_next := nx, sl_head := h, sl_length := l, sl_last_insert_pos := ring k n a\<rparr>)"
proof -
  have "\<forall>q. 0 \<le> q \<and> q < n \<longrightarrow>
      ((sl_data1 s)(ring k n a := seq_no a)) q = first_no (node_at k n (xs @ (a, e) # ys) q) \<and>
      ((sl_data2 s)(ring k n a := if a = e then -1 else seq_no e)) q = last_no (node_at k n (xs @ (a, e) # ys) q)"
    using rep n node_at_middle(1) [OF w, of k] by (auto simp: sl_rep_def)
  then show ?thesis using rep n w p l by (simp add: sl_rep_def)
qed

lemma sl_put_node_at:
  assumes "sl_rep b k ns s" and n: "n = sl_size s" and "x \<notin> fst ` set ns" and "b \<le> x" "x \<le> y" "y < b + n"
  shows "sl_put_node (ring k n x) (seq_no x) (seq_no y) (s\<lparr>sl_last_insert_pos := l\<rparr>) =
    Inr (s\<lparr>sl_data1 := (sl_data1 s)(ring k n x := seq_no x),
      sl_data2 := (sl_data2 s)(ring k n x := if x = y then -1 else seq_no y), sl_last_insert_pos := l\<rparr>)"
proof -
  have n0: "0 < n" "n \<le> 536870912" using sl_rep_size [OF assms(1)] n by simp_all
  have "ring k n x \<notin> set (places k n ns)" using sl_rep_window [OF assms(1)] assms by (intro places_notin) auto
  then have "sl_data2 s (ring k n x) = -1" using assms(1) n n0 by (simp add: sl_rep_def node_at_None)
  then show ?thesis using assms(4-6) n0 n [symmetric] seq_no_eq_near [OF near_window, of y x]
    by (auto simp: sl_put_node_def sl_sets [OF n0(1)] fun_upd_idem)
qed

lemma sl_extend_spec:
  assumes rep: "sl_rep b k (xs @ (a, e) # ys) s" and n: "n = sl_size s" and y: "a \<le> y" "y < b + n"
  shows "\<exists>t. (sl_extend (ring k n a) (seq_no a) (seq_no y) s = Inr (None, s) \<and> y \<le> e) \<or>
    (sl_extend (ring k n a) (seq_no a) (seq_no y) s = Inr (Some (ring k n a), t) \<and> sl_rep b k (xs @ (a, max e y) # ys) t \<and>
      sl_last_insert_pos t = sl_last_insert_pos s \<and> sl_size t = n)"
proof -
  have n0: "0 < n" "n \<le> 536870912" using sl_rep_size [OF rep] n by simp_all
  have w: "b \<le> a" "a \<le> e" "e < b + n" using sl_rep_window [OF rep] n by auto
  have len: "sl_length s = total_len (xs @ (a, e) # ys)" using rep by (simp add: sl_rep_def)
  note cmp = seqcmp_near [OF near_window] seqlen_near [OF near_window] seq_no_eq_near [OF near_window]
  show ?thesis
  proof (cases "e < y")
    case True
    let ?t = "s\<lparr>sl_length := sl_length s + (y - e), sl_data2 := (sl_data2 s)(ring k n a := seq_no y)\<rparr>"
    have "sl_rep b k (xs @ (a, max e y) # ys) ?t" using True len by (simp add: sl_rep_extend [OF rep n True y(2)])
    moreover have "sl_extend (ring k n a) (seq_no a) (seq_no y) s = Inr (Some (ring k n a), ?t)"
      using True w y n0 sl_node(2) [OF rep n] n [symmetric]
      by (auto simp: sl_extend_def cmp sl_sets [OF n0(1)] sl_add_length_def)
    ultimately show ?thesis using n by auto
  next
    case False
    then show ?thesis using w y n0 sl_node(2) [OF rep n] rep n by (auto simp: sl_extend_def cmp)
  qed
qed

lemma sl_search_start_spec:
  assumes rep: "sl_rep b k ((h, g) # zs) s" and n: "n = sl_size s" and "h < x" "b \<le> x" "x < b + n"
  shows "\<exists>xs a e ys. (h, g) # zs = xs @ (a, e) # ys \<and> a < x \<and> sl_search_start (seq_no x) s = Inr (ring k n a)"
proof -
  have n0: "0 < n" "n \<le> 536870912" using sl_rep_size [OF rep] n by simp_all
  have h: "sl_head s = ring k n h" using rep n by (simp add: sl_rep_def)
  have head: ?thesis if "sl_search_start (seq_no x) s = Inr (sl_head s)"
    using that h assms(3) by (intro exI [of _ "[]"] exI [of _ h] exI [of _ g] exI [of _ zs]) simp
  show ?thesis
  proof (cases "sl_last_insert_pos s = -1")
    case True
    then show ?thesis by (intro head) (simp add: sl_search_start_def)
  next
    case False
    with rep n have "sl_last_insert_pos s \<in> set (places k n ((h, g) # zs))" by (simp add: sl_rep_def)
    then obtain a e where a: "(a, e) \<in> set ((h, g) # zs)" "sl_last_insert_pos s = ring k n a" by auto
    from split_list [OF a(1)] obtain xs ys where xs: "(h, g) # zs = xs @ (a, e) # ys" by blast
    have w: "b \<le> a" "a < b + n" using in_window_mem [OF sl_rep_window [OF rep] a(1)] n by auto
    have "sl_get1 s (ring k n a) = Inr (seq_no a)" using sl_node(1) [OF rep [unfolded xs] n] .
    then have "sl_search_start (seq_no x) s = Inr (if a < x then ring k n a else sl_head s)"
      using w assms(4,5) n0 a(2) by (simp add: sl_search_start_def seqcmp_near [OF near_window])
    then show ?thesis using head xs by (cases "a < x") auto
  qed
qed

text \<open>What an operation that puts \<open>{x..y}\<close> in its place leaves: the interval was there, or its node is to be joined.\<close>

definition placed ::
  "int \<Rightarrow> int \<Rightarrow> int \<Rightarrow> (int \<times> int) list \<Rightarrow> int \<Rightarrow> int \<Rightarrow> (int option \<times> snd_loss_list) result \<Rightarrow> bool" where
  "placed b k n ns x y r \<longleftrightarrow>
     (\<exists>t. r = Inr (None, t) \<and> sl_rep b k ns t \<and> sl_size t = n \<and> {x..y} \<subseteq> cover ns) \<or>
     (\<exists>t xs a e ys. r = Inr (Some (ring k n a), t) \<and> sl_rep b k (xs @ (a, e) # ys) t \<and> sl_size t = n \<and>
        sl_last_insert_pos t = ring k n a \<and> apart xs \<and> apart ys \<and> (\<forall>(c, f)\<in>set xs. f < a) \<and>
        cover (xs @ (a, e) # ys) = cover ns \<union> {x..y})"

lemma placed_joins:
  "r = Inr (Some (ring k n a), t) \<Longrightarrow> sl_rep b k (xs @ (a, e) # ys) t \<Longrightarrow> sl_size t = n \<Longrightarrow> sl_last_insert_pos t = ring k n a \<Longrightarrow>
    apart xs \<Longrightarrow> apart ys \<Longrightarrow> \<forall>(c, f)\<in>set xs. f < a \<Longrightarrow> cover (xs @ (a, e) # ys) = cover ns \<union> {x..y} \<Longrightarrow> placed b k n ns x y r"
  unfolding placed_def by blast

lemma placed_extend:
  assumes "sl_rep b k (xs @ (x, e) # ys) s" and n: "n = sl_size s" and y: "x \<le> y" "y < b + n" and ap: "apart (xs @ (x, e) # ys)"
  shows "placed b k n (xs @ (x, e) # ys) x y (sl_extend (ring k n x) (seq_no x) (seq_no y) (s\<lparr>sl_last_insert_pos := ring k n x\<rparr>))"
proof -
  let ?s = "s\<lparr>sl_last_insert_pos := ring k n x\<rparr>"
  have rep: "sl_rep b k (xs @ (x, e) # ys) ?s" using sl_rep_last [OF assms(1)] n by simp
  have n': "n = sl_size ?s" using n by simp
  from sl_extend_spec [OF rep n' y] show ?thesis
  proof (elim exE disjE conjE)
    fix t assume "sl_extend (ring k n x) (seq_no x) (seq_no y) ?s = Inr (None, ?s)" "y \<le> e"
    with rep n show ?thesis unfolding placed_def by auto
  next
    fix t assume t: "sl_extend (ring k n x) (seq_no x) (seq_no y) ?s = Inr (Some (ring k n x), t)"
      "sl_rep b k (xs @ (x, max e y) # ys) t" "sl_last_insert_pos t = sl_last_insert_pos ?s" "sl_size t = n"
    have "x \<le> e" using sl_rep_window [OF assms(1)] by simp
    then have "cover (xs @ (x, max e y) # ys) = cover (xs @ (x, e) # ys) \<union> {x..y}" by auto
    with t ap show ?thesis by (intro placed_joins [OF t(1,2)]) auto
  qed
qed

lemma sl_insert_after_spec:
  assumes rep: "sl_rep b k (us @ (c, f) # vs) s" and n: "n = sl_size s" and "c < x" "x \<le> y" "y < b + n"
    and vs: "\<forall>(d, g)\<in>set vs. x < d" and ap: "apart (us @ (c, f) # vs)"
  shows "placed b k n (us @ (c, f) # vs) x y (sl_insert_after (ring k n c) (ring k n x) (seq_no x) (seq_no y) s)"
proof -
  have n0: "0 < n" "n \<le> 536870912" using sl_rep_size [OF rep] n by simp_all
  have w: "b \<le> c" "c \<le> f" "f < b + n" "in_window b n (us @ (c, f) # vs)" using sl_rep_window [OF rep] n by auto
  have len: "sl_length s = total_len (us @ (c, f) # vs)" using rep by (simp add: sl_rep_def)
  note cmp = seqcmp_near [OF near_window] seqlen_near [OF near_window]
  note node = sl_node [OF rep n]
  show ?thesis
  proof (cases "f < x")
    case True
    have wi: "in_window b n ((us @ [(c, f)]) @ (x, y) # vs)" using w(4) vs assms(3-5) by fastforce
    have nx: "x \<notin> fst ` set (us @ (c, f) # vs)" using w(4) vs assms(3) by fastforce
    have ring: "ring k n x \<noteq> ring k n c" using ring_eq [of b x n c k] w assms(3-5) by auto
    have notin: "ring k n x \<notin> set (places k n (us @ (c, f) # vs))" "ring k n c \<notin> set (places k n (us @ vs))"
      by (rule places_notin [OF w(4) _ _ nx]; use w assms(3-5) in linarith) (rule places_middle [OF w(4)])
    let ?nx = "(sl_next s)(ring k n x := place_of k n vs, ring k n c := ring k n x)"
    have "path (sl_next s) (sl_head s) (places k n us @ ring k n c # places k n vs) (-1)" using rep n by (simp add: sl_rep_def)
    then have p: "path ?nx (sl_head s) (places k n ((us @ [(c, f)]) @ (x, y) # vs)) (-1)"
      using notin ring by (auto simp: path_append path_update intro: path_start)
    let ?t = "s\<lparr>sl_data1 := (sl_data1 s)(ring k n x := seq_no x), sl_data2 := (sl_data2 s)(ring k n x := if x = y then -1 else seq_no y),
       sl_next := ?nx, sl_head := sl_head s, sl_length := total_len ((us @ [(c, f)]) @ (x, y) # vs), sl_last_insert_pos := ring k n x\<rparr>"
    have "sl_rep b k ((us @ [(c, f)]) @ vs) s" using rep by simp
    then have t: "sl_rep b k ((us @ [(c, f)]) @ (x, y) # vs) ?t" by (rule sl_rep_insert [OF _ n wi p refl])
    have "sl_insert_after (ring k n c) (ring k n x) (seq_no x) (seq_no y) s = Inr (Some (ring k n x), ?t)"
      using node True w n0 assms(3-5) ring sl_put_node_at [OF rep n nx, of y "ring k n x"] len n [symmetric]
      by (auto simp: sl_insert_after_def cmp sl_sets [OF n0(1)] sl_add_length_def)
    then show ?thesis using t n ap vs True assms(3,4) w(2) by (intro placed_joins [OF _ t]) fastforce+
  next
    case False
    let ?s = "s\<lparr>sl_last_insert_pos := ring k n c\<rparr>"
    have rep': "sl_rep b k (us @ (c, f) # vs) ?s" using sl_rep_last [OF rep] n by simp
    show ?thesis
    proof (cases "f < y")
      case True
      let ?t = "?s\<lparr>sl_length := sl_length s + (y - f), sl_data2 := (sl_data2 s)(ring k n c := seq_no y)\<rparr>"
      have t: "sl_rep b k (us @ (c, y) # vs) ?t" using sl_rep_extend [OF rep' _ True assms(5), of "sl_length s + (y - f)"] n len by simp
      have r: "sl_insert_after (ring k n c) (ring k n x) (seq_no x) (seq_no y) s = Inr (Some (ring k n c), ?t)"
        using node True False w n0 assms(3-5) n [symmetric]
        by (auto simp: sl_insert_after_def cmp sl_sets [OF n0(1)] sl_add_length_def)
      show ?thesis using n ap True False w(2) assms(3) by (intro placed_joins [OF r t]) auto
    next
      case False
      with \<open>\<not> f < x\<close> have "sl_insert_after (ring k n c) (ring k n x) (seq_no x) (seq_no y) s = Inr (None, ?s)"
        using node w n0 assms(3-5) by (auto simp: sl_insert_after_def cmp)
      then show ?thesis using rep' n False assms(3) unfolding placed_def by auto
    qed
  qed
qed

lemma first_no_at:
  assumes "in_window b n ns" and "n \<le> 536870912" and "b \<le> x" "x < b + n"
  shows "first_no (node_at k n ns (ring k n x)) = seq_no x \<longleftrightarrow> (\<exists>e. (x, e) \<in> set ns)"
proof (cases "x \<in> fst ` set ns")
  case True
  then obtain e where e: "(x, e) \<in> set ns" by force
  then obtain xs ys where ns: "ns = xs @ (x, e) # ys" by (metis split_list)
  have "node_at k n ns (ring k n x) = Some (x, e)" unfolding ns by (simp add: node_at_middle(1) [OF assms(1) [unfolded ns]])
  with e show ?thesis by auto
next
  case False
  then have "node_at k n ns (ring k n x) = None" using assms by (intro node_at_None places_notin [of b])
  with False show ?thesis by force
qed

text \<open>The search for the place of \<open>{x..y}\<close> in a list that starts before \<open>x\<close>, and the operation there.\<close>

lemma sl_place_between:
  assumes rep: "sl_rep b k ((h, g) # zs) s" and n: "n = sl_size s" and "h < x" "x \<le> y" "b \<le> x" "y < b + n"
    and no: "x \<notin> fst ` set ((h, g) # zs)" and ap: "apart ((h, g) # zs)"
  shows "\<exists>r. placed b k n ((h, g) # zs) x y r \<and>
    bindo (Some (sl_search_start (seq_no x) s)) (\<lambda>i. bindo (sl_prior (seq_no x) i s) (\<lambda>i.
      Some (sl_insert_after i (ring k n x) (seq_no x) (seq_no y) s))) = Some r"
proof -
  have xn: "x < b + n" using assms(4,6) by linarith
  obtain xs a e ys where start: "(h, g) # zs = xs @ (a, e) # ys" "a < x" "sl_search_start (seq_no x) s = Inr (ring k n a)"
    using sl_search_start_spec [OF rep n assms(3,5) xn] by blast
  obtain us c f vs where prior: "(a, e) # ys = us @ (c, f) # vs"
      "loop_while (sl_prior_once (seq_no x) s) 0 (ring k n a) = Some (Inr (ring k n c))" "c < x" "\<forall>(d, g)\<in>set vs. x \<le> d"
    using sl_prior_spec [OF rep [unfolded start(1)] n start(2), of 0] assms(5) xn by force
  have ns: "(h, g) # zs = (xs @ us) @ (c, f) # vs" using start(1) prior(1) by simp
  have "\<forall>(d, g)\<in>set vs. x < d" using no prior(4) unfolding ns by (force simp: less_le)
  from sl_insert_after_spec [OF rep [unfolded ns] n prior(3) assms(4,6) this ap [unfolded ns]]
  show ?thesis unfolding ns by (simp add: start(3) sl_prior_def prior(2))
qed

lemma sl_place_spec:
  assumes rep: "sl_rep b k ((h, g) # zs) s" and n: "n = sl_size s" and "x \<le> y" "b \<le> x" "y < b + n" and ap: "apart ((h, g) # zs)"
  shows "\<exists>r. placed b k n ((h, g) # zs) x y r \<and> sl_place (seq_no x) (seq_no y) s = Some r"
proof -
  have n0: "0 < n" "n \<le> 536870912" using sl_rep_size [OF rep] n by simp_all
  have w: "b \<le> h" "h \<le> g" "g < b + n" "in_window b n ((h, g) # zs)" using sl_rep_window [OF rep] n by auto
  have len: "sl_length s = total_len ((h, g) # zs)" using rep by (simp add: sl_rep_def)
  have head: "sl_head s = ring k n h" using rep n by (simp add: sl_rep_def)
  have rep0: "sl_rep b k ([] @ (h, g) # zs) s" using rep by simp
  have d: "sl_get1 s (sl_head s) = Inr (seq_no h)" using sl_node(1) [OF rep0 n] head by simp
  have off: "seqoff (seq_no h) (seq_no x) = x - h" using w assms(3-5) n0 by (intro seqoff_near near_window) auto
  have loc: "(sl_head s + (x - h) + sl_size s) smod sl_size s = ring k n x"
    using ring_smod [of n x h k] head n n0 w assms(4) by simp
  consider "x < h" | "x = h" | "h < x" by linarith
  then show ?thesis
  proof cases
    case 1
    have wi: "in_window b n ([] @ (x, y) # (h, g) # zs)" using w 1 assms(3-5) by fastforce
    have nx: "x \<notin> fst ` set ((h, g) # zs)" using w(4) 1 by fastforce
    have "ring k n x \<notin> set (places k n ([] @ (h, g) # zs))" by (rule places_middle [OF wi])
    moreover have "path (sl_next s) (ring k n h) (places k n ((h, g) # zs)) (-1)" using rep n head by (simp add: sl_rep_def)
    ultimately have p: "path ((sl_next s)(ring k n x := ring k n h)) (ring k n x) (places k n ([] @ (x, y) # (h, g) # zs)) (-1)"
      by (auto simp: path_update)
    let ?t = "s\<lparr>sl_data1 := (sl_data1 s)(ring k n x := seq_no x), sl_data2 := (sl_data2 s)(ring k n x := if x = y then -1 else seq_no y),
       sl_next := (sl_next s)(ring k n x := ring k n h), sl_head := ring k n x, sl_length := total_len ([] @ (x, y) # (h, g) # zs),
       sl_last_insert_pos := ring k n x\<rparr>"
    have t: "sl_rep b k ([] @ (x, y) # (h, g) # zs) ?t" by (rule sl_rep_insert [OF _ n wi p refl]) (use rep in simp)
    have "sl_place (seq_no x) (seq_no y) s = Some (Inr (Some (ring k n x), ?t))"
      using sl_put_node_at [OF rep n nx assms(4,3,5), of "sl_last_insert_pos s"] 1 d off loc head len n0 w assms(3-5) n [symmetric]
      by (simp add: sl_place_def sl_sets [OF n0(1)] sl_add_length_def Let_def seqlen_near [OF near_window] del: places_simps)
    moreover have "placed b k n ((h, g) # zs) x y (Inr (Some (ring k n x), ?t))"
      using n ap by (intro placed_joins [OF refl t]) auto
    ultimately show ?thesis by blast
  next
    case 2
    show ?thesis
    proof (cases "x = y")
      case True
      let ?t = "s\<lparr>sl_last_insert_pos := ring k n h\<rparr>"
      have "sl_place (seq_no x) (seq_no y) s = Some (Inr (None, ?t))"
        using d off loc head 2 True by (simp add: sl_place_def Let_def)
      moreover have "placed b k n ((h, g) # zs) x y (Inr (None, ?t))"
        using sl_rep_last [OF rep0] n 2 True w unfolding placed_def by auto
      ultimately show ?thesis by blast
    next
      case False
      then have "seq_no y \<noteq> seq_no x" using w assms(3-5) n0 by (subst seq_no_eq_near) (auto intro: near_window)
      with 2 d off loc head have "sl_place (seq_no x) (seq_no y) s =
          Some (sl_extend (ring k n h) (seq_no h) (seq_no y) (s\<lparr>sl_last_insert_pos := ring k n h\<rparr>))"
        by (simp add: sl_place_def Let_def)
      moreover have "placed b k n ([] @ (h, g) # zs) x y (sl_extend (ring k n h) (seq_no h) (seq_no y) (s\<lparr>sl_last_insert_pos := ring k n h\<rparr>))"
        using placed_extend [OF rep0 n, of y] 2 assms(3-5) ap by simp
      ultimately show ?thesis by auto
    qed
  next
    case 3
    have l1: "sl_get1 s (ring k n x) = Inr (first_no (node_at k n ((h, g) # zs) (ring k n x)))" by (rule sl_gets [OF rep n])
    have xb: "x < b + n" using assms(3,5) by linarith
    note first = first_no_at [OF w(4) n0(2) assms(4) xb, of k]
    show ?thesis
    proof (cases "x \<in> fst ` set ((h, g) # zs)")
      case True
      then obtain e where e: "(x, e) \<in> set ((h, g) # zs)" by force
      then obtain xs ys where ns: "(h, g) # zs = xs @ (x, e) # ys" by (metis split_list)
      have "first_no (node_at k n ((h, g) # zs) (ring k n x)) = seq_no x" using e first by blast
      with 3 d off loc l1 have "sl_place (seq_no x) (seq_no y) s =
          Some (sl_extend (ring k n x) (seq_no x) (seq_no y) (s\<lparr>sl_last_insert_pos := ring k n x\<rparr>))"
        by (simp add: sl_place_def Let_def)
      then show ?thesis using placed_extend [OF rep [unfolded ns] n assms(3,5) ap [unfolded ns]] ns by auto
    next
      case False
      then have "first_no (node_at k n ((h, g) # zs) (ring k n x)) \<noteq> seq_no x" using first by force
      with 3 d off loc l1 have "sl_place (seq_no x) (seq_no y) s =
          bindo (Some (sl_search_start (seq_no x) s)) (\<lambda>i. bindo (sl_prior (seq_no x) i s) (\<lambda>i.
            Some (sl_insert_after i (ring k n x) (seq_no x) (seq_no y) s)))"
        by (simp add: sl_place_def Let_def eq_commute [of "seq_no x"])
      then show ?thesis using sl_place_between [OF rep n 3 assms(3-5) False ap] by simp
    qed
  qed
qed

subsection \<open>What the list stands for\<close>

definition sl_holds :: "int set \<Rightarrow> snd_loss_list \<Rightarrow> bool" where
  "sl_holds S s \<longleftrightarrow> (\<exists>b k ns. sl_rep b k ns s \<and> apart ns \<and> cover ns = S)"

lemma sl_rep_move: "sl_rep b k ns s \<Longrightarrow> cover ns \<subseteq> {c..<c + sl_size s} \<Longrightarrow> sl_rep c k ns s"
  using in_window_move [of b "sl_size s" ns c] by (simp add: sl_rep_def)

lemma sl_holds_length: "sl_holds S s \<Longrightarrow> sl_length s = int (card S) \<and> finite S"
  unfolding sl_holds_def sl_rep_def using card_cover by force

lemma sl_rep_nil: "sl_rep b k ns s \<Longrightarrow> sl_length s = 0 \<longleftrightarrow> ns = []"
  using total_len_pos [of b "sl_size s" ns] by (cases "ns = []") (simp_all add: sl_rep_def)

lemma sl_insert_empty:
  assumes rep: "sl_rep b k [] s" and n: "n = sl_size s" and "x \<le> y" "b \<le> x" "y < b + n"
  shows "\<exists>t. sl_insert (seq_no x) (seq_no y) s = Some (Inr (y - x + 1, t)) \<and> sl_rep b (-x) [(x, y)] t \<and> sl_size t = n"
proof -
  have n0: "0 < n" "n \<le> 536870912" using sl_rep_size [OF rep] n by simp_all
  have z: "ring (-x) n x = 0" by (simp add: ring_def)
  have rep': "sl_rep b (-x) ([] @ []) s" using rep by (simp add: sl_rep_def)
  have d2: "sl_data2 s 0 = -1" using rep n0 n by (simp add: sl_rep_def)
  have len: "sl_length s = 0" using rep by (simp add: sl_rep_def)
  have wi: "in_window b n ([] @ (x, y) # [])" using assms by simp
  have p: "path ((sl_next s)(0 := -1)) 0 (places (-x) n ([] @ (x, y) # [])) (-1)" using z by simp
  note sets = sl_sets [OF n0(1), of _ "-x" x, unfolded z]
  let ?t = "s\<lparr>sl_data1 := (sl_data1 s)(0 := seq_no x), sl_data2 := (sl_data2 s)(0 := if x = y then -1 else seq_no y),
        sl_next := (sl_next s)(0 := -1), sl_head := 0, sl_length := total_len ([] @ (x, y) # []), sl_last_insert_pos := 0\<rparr>"
  have "sl_insert (seq_no x) (seq_no y) s = Some (Inr (y - x + 1, ?t))"
    using assms(3-5) n0 len n [symmetric] d2 seq_no_eq_near [OF near_window, of y x] seqlen_near [OF near_window, of x y]
    by (auto simp: sl_insert_def sl_put_node_def sets sl_add_length_def fun_upd_idem)
  moreover have "sl_rep b (-x) ([] @ [(x, y)]) ?t" by (rule sl_rep_insert [OF rep' n wi p refl, unfolded z])
  moreover have "sl_size ?t = n" using n by simp
  ultimately show ?thesis unfolding append_Nil by blast
qed

lemma sl_insert_spec:
  assumes "sl_holds S s" and "x \<le> y" and w: "S \<union> {x..y} \<subseteq> {b..<b + sl_size s}"
  shows "\<exists>t. sl_insert (seq_no x) (seq_no y) s = Some (Inr (int (card ({x..y} - S)), t)) \<and> sl_holds (S \<union> {x..y}) t \<and>
    sl_size t = sl_size s"
proof -
  define n where "n = sl_size s"
  from assms(1) obtain b0 k ns where "sl_rep b0 k ns s" and ap: "apart ns" and S: "cover ns = S" unfolding sl_holds_def by blast
  then have rep: "sl_rep b k ns s" using sl_rep_move [of b0 k ns s b] w by simp
  have xy: "b \<le> x" "y < b + n" using w assms(2) by (auto simp: n_def)
  show ?thesis
  proof (cases ns)
    case Nil
    from sl_insert_empty [OF rep [unfolded Nil] n_def assms(2) xy] obtain t where
      "sl_insert (seq_no x) (seq_no y) s = Some (Inr (y - x + 1, t))" "sl_rep b (-x) [(x, y)] t" "sl_size t = n" by blast
    moreover have "sl_holds {x..y} t" unfolding sl_holds_def using calculation(2) by (intro exI conjI, assumption) auto
    ultimately show ?thesis using Nil S assms(2) n_def by simp
  next
    case (Cons z zs)
    obtain h g where z: "z = (h, g)" by (cases z)
    have len: "sl_length s \<noteq> 0" using sl_rep_nil [OF rep] Cons by simp
    have card: "int (card (S \<union> {x..y})) - int (card S) = int (card ({x..y} - S))"
      using card_Un_disjoint [of S "{x..y} - S"] sl_holds_length [OF assms(1)] by (simp add: Un_Diff_cancel)
    from sl_place_spec [OF rep [unfolded Cons z] n_def assms(2) xy ap [unfolded Cons z]] obtain r where
      r: "placed b k n ns x y r" "sl_place (seq_no x) (seq_no y) s = Some r" unfolding Cons z by blast
    from r(1) show ?thesis unfolding placed_def
    proof (elim disjE exE conjE)
      fix t assume t: "r = Inr (None, t)" "sl_rep b k ns t" "sl_size t = n" "{x..y} \<subseteq> cover ns"
      then have "S \<union> {x..y} = S" "{x..y} - S = {}" using S by auto
      moreover have "sl_holds S t" unfolding sl_holds_def using t(2) ap S by blast
      ultimately show ?thesis using r(2) t len n_def by (simp add: sl_insert_def)
    next
      fix t xs a e ys
      assume t: "r = Inr (Some (ring k n a), t)" "sl_rep b k (xs @ (a, e) # ys) t" "sl_size t = n" "sl_last_insert_pos t = ring k n a"
        "apart xs" "apart ys" "\<forall>(c, f)\<in>set xs. f < a" "cover (xs @ (a, e) # ys) = cover ns \<union> {x..y}"
      from sl_join_spec [OF t(2) t(3) [symmetric] t(4) t(6), of 0] obtain u e' ys' where
        u: "loop_while (sl_join_once (ring k n a)) 0 t = Some (Inr u)" "sl_rep b k (xs @ (a, e') # ys') u"
          "cover ((a, e') # ys') = cover ((a, e) # ys)" "apart ((a, e') # ys')" "sl_size u = n" by blast
      have "\<forall>(c, f)\<in>set ys'. a < c" using sl_rep_window [OF u(2)] by simp
      then have "apart (xs @ (a, e') # ys')" using t(5,7) u(4) by fastforce
      moreover have "cover (xs @ (a, e') # ys') = S \<union> {x..y}" using t(8) u(3) S by (metis cover_simps(3))
      ultimately have h: "sl_holds (S \<union> {x..y}) u" unfolding sl_holds_def using u(2) by blast
      then show ?thesis
        using r(2) t(1) u(1,5) len n_def card sl_holds_length [OF h] sl_holds_length [OF assms(1)]
        by (simp add: sl_insert_def sl_join_def)
    qed
  qed
qed

subsection \<open>Removal\<close>

text \<open>The first node goes, or its first number, or a node is cut in two.\<close>

lemma sl_rep_drop:
  assumes rep: "sl_rep b k ((a, e) # ns) s" and n: "n = sl_size s"
    and t: "sl_data1 t = (sl_data1 s)(ring k n a := -1)" "sl_data2 t = (sl_data2 s)(ring k n a := -1)" "sl_next t = sl_next s"
      "sl_head t = place_of k n ns" "sl_length t = total_len ns" "sl_size t = n"
      "sl_last_insert_pos t = (if sl_last_insert_pos s = ring k n a then -1 else sl_last_insert_pos s)"
  shows "sl_rep b k ns t"
proof -
  have w: "in_window b n ([] @ (a, e) # ns)" using rep n by (simp add: sl_rep_def)
  have "path (sl_next s) (sl_next s (ring k n a)) (places k n ns) (-1)" using rep n by (simp add: sl_rep_def)
  then have "path (sl_next t) (sl_head t) (places k n ns) (-1)" using path_start t(3,4) by simp
  moreover have "\<forall>q. 0 \<le> q \<and> q < n \<longrightarrow> sl_data1 t q = first_no (node_at k n ns q) \<and> sl_data2 t q = last_no (node_at k n ns q)"
    using rep n node_at_middle [OF w, of k] t(1,2) by (auto simp: sl_rep_def)
  ultimately show ?thesis using rep n w t(5-7) by (auto simp: sl_rep_def)
qed

lemma sl_rep_advance:
  assumes rep: "sl_rep b k ((a, e) # ns) s" and n: "n = sl_size s" and ae: "a < e" and ap: "apart ((a, e) # ns)"
    and t: "sl_data1 t = (sl_data1 s)(ring k n a := -1, ring k n (a + 1) := seq_no (a + 1))"
      "sl_data2 t = (sl_data2 s)(ring k n a := -1, ring k n (a + 1) := if a + 1 = e then -1 else seq_no e)"
      "sl_next t = (sl_next s)(ring k n (a + 1) := place_of k n ns)" "sl_head t = ring k n (a + 1)"
      "sl_length t = total_len ((a + 1, e) # ns)" "sl_size t = n"
      "sl_last_insert_pos t = (if sl_last_insert_pos s = ring k n a then -1 else sl_last_insert_pos s)"
  shows "sl_rep b k ((a + 1, e) # ns) t"
proof -
  have w: "in_window b n ([] @ (a, e) # ns)" using rep n by (simp add: sl_rep_def)
  have w': "in_window b n ([] @ (a + 1, e) # ns)" using w ae ap by fastforce
  have at: "node_at k n ((a, e) # ns) = (node_at k n ns)(ring k n a \<mapsto> (a, e))" "node_at k n ns (ring k n a) = None"
    "node_at k n ((a + 1, e) # ns) = (node_at k n ns)(ring k n (a + 1) \<mapsto> (a + 1, e))" "node_at k n ns (ring k n (a + 1)) = None"
    using node_at_middle [OF w, of k] node_at_middle [OF w', of k] by simp_all
  have "path (sl_next s) (sl_next s (ring k n a)) (places k n ns) (-1)" using rep n by (simp add: sl_rep_def)
  moreover have "ring k n (a + 1) \<notin> set (places k n ns)" using places_middle [OF w', of k] by simp
  ultimately have "path (sl_next t) (sl_head t) (places k n ((a + 1, e) # ns)) (-1)"
    using path_start t(3,4) by (simp add: path_update)
  moreover have "\<forall>q. 0 \<le> q \<and> q < n \<longrightarrow> sl_data1 t q = first_no (node_at k n ((a + 1, e) # ns) q) \<and>
      sl_data2 t q = last_no (node_at k n ((a + 1, e) # ns) q)"
    using rep n at t(1,2) by (auto simp: sl_rep_def)
  ultimately show ?thesis using rep n w' t(5-7) by (auto simp: sl_rep_def)
qed

lemma sl_rep_split:
  assumes rep: "sl_rep b k (xs @ (a, e) # ys) s" and n: "n = sl_size s" and x: "a \<le> x" "x < e" and ap: "apart (xs @ (a, e) # ys)"
    and t: "sl_data1 t = (sl_data1 s)(ring k n (x + 1) := seq_no (x + 1))"
      "sl_data2 t = (sl_data2 s)(ring k n (x + 1) := if x + 1 = e then -1 else seq_no e, ring k n a := if a = x then -1 else seq_no x)"
      "sl_next t = (sl_next s)(ring k n (x + 1) := place_of k n ys, ring k n a := ring k n (x + 1))"
      "sl_head t = sl_head s" "sl_length t = sl_length s" "sl_size t = n" "sl_last_insert_pos t = sl_last_insert_pos s"
  shows "sl_rep b k (xs @ (a, x) # (x + 1, e) # ys) t"
proof -
  have w: "in_window b n (xs @ (a, e) # ys)" using rep n by (simp add: sl_rep_def)
  have w2: "in_window b n ((xs @ [(a, x)]) @ (x + 1, e) # ys)" using w x ap by fastforce
  have w1: "in_window b n (xs @ (a, x) # ys)" using w x by auto
  have at: "node_at k n (xs @ (a, e) # ys) = (node_at k n (xs @ ys))(ring k n a \<mapsto> (a, e))"
    "node_at k n (xs @ (a, x) # (x + 1, e) # ys) = (node_at k n (xs @ ys))(ring k n a \<mapsto> (a, x), ring k n (x + 1) \<mapsto> (x + 1, e))"
    using node_at_middle(1) [OF w] node_at_middle(1) [OF w2] node_at_middle(1) [OF w1] by simp_all
  have ne: "ring k n (x + 1) \<noteq> ring k n a" and notin: "ring k n (x + 1) \<notin> set (places k n xs)" "ring k n (x + 1) \<notin> set (places k n ys)"
    "ring k n a \<notin> set (places k n xs)" "ring k n a \<notin> set (places k n ys)"
    using places_middle [OF w2, of k] places_middle [OF w, of k] by auto
  have "path (sl_next s) (sl_head s) (places k n xs @ ring k n a # places k n ys) (-1)" using rep n by (simp add: sl_rep_def)
  then have "path (sl_next t) (sl_head t) (places k n (xs @ (a, x) # (x + 1, e) # ys)) (-1)"
    using notin ne t(3,4) by (auto simp: path_append path_update intro: path_start simp del: places_simps(4))
  moreover have "\<forall>q. 0 \<le> q \<and> q < n \<longrightarrow> sl_data1 t q = first_no (node_at k n (xs @ (a, x) # (x + 1, e) # ys) q) \<and>
      sl_data2 t q = last_no (node_at k n (xs @ (a, x) # (x + 1, e) # ys) q)"
    using rep n at t(1,2) ne by (auto simp: sl_rep_def)
  moreover have "in_window b n (xs @ (a, x) # (x + 1, e) # ys)" using w2 by simp
  ultimately show ?thesis using rep n t(5-7) by (auto simp: sl_rep_def)
qed

text \<open>The loop that drops the nodes before the head; the head is already where the list is to start.\<close>

lemma sl_drop_spec:
  assumes "sl_rep b k (xs @ ys) (s\<lparr>sl_head := place_of k n (xs @ ys)\<rparr>)" and "n = sl_size s" and "sl_head s = place_of k n ys"
  shows "\<exists>t h. loop_while sl_drop_once j (place_of k n (xs @ ys), s) = Some (Inr (h, t)) \<and> sl_rep b k ys t \<and> sl_size t = n"
  using assms
proof (induction xs arbitrary: s j)
  case Nil
  then have e: "s\<lparr>sl_head := place_of k n ([] @ ys)\<rparr> = s" by simp
  have "sl_rep b k ys s" using Nil.prems(1) e by (simp only: append_Nil)
  with Nil.prems(2,3) show ?case by (auto simp: loop_while_stops sl_drop_once_def)
next
  case (Cons x xs)
  obtain a e where x: "x = (a, e)" by (cases x)
  let ?s = "s\<lparr>sl_head := ring k n a\<rparr>"
  have rep: "sl_rep b k ((a, e) # xs @ ys) ?s" using Cons.prems(1) x by simp
  have n: "n = sl_size ?s" using Cons.prems(2) by simp
  have n0: "0 < n" "n \<le> 536870912" using sl_rep_size [OF rep] n by simp_all
  have w: "b \<le> a" "a \<le> e" "e < b + n" "in_window b n ([] @ (a, e) # xs @ ys)" using sl_rep_window [OF rep] n by auto
  have rep0: "sl_rep b k ([] @ (a, e) # xs @ ys) ?s" using rep by simp
  have head: "ring k n a \<noteq> sl_head s"
    using Cons.prems(3) places_middle [OF w(4), of k] n0 by (cases ys) auto
  let ?t = "s\<lparr>sl_length := total_len (xs @ ys), sl_data2 := (sl_data2 s)(ring k n a := -1), sl_data1 := (sl_data1 s)(ring k n a := -1),
    sl_last_insert_pos := if sl_last_insert_pos s = ring k n a then -1 else sl_last_insert_pos s\<rparr>"
  have len: "sl_length s = total_len ((a, e) # xs @ ys)" using rep by (simp add: sl_rep_def)
  have d: "sl_data1 s (ring k n a) = seq_no a" "sl_data2 s (ring k n a) = (if a = e then -1 else seq_no e)"
    "sl_next s (ring k n a) = place_of k n (xs @ ys)"
    using sl_node [OF rep0 n] sl_sets(5,6) [OF n0(1), of ?s k a] n by simp_all
  have "sl_drop_once j (ring k n a, s) = Inr (True, place_of k n (xs @ ys), ?t)"
  proof (cases "a = e")
    case True
    then show ?thesis using head d len n0 Cons.prems(2) [symmetric]
      by (auto simp: sl_drop_once_def sl_sets [OF n0(1)] sl_add_length_def Let_def fun_upd_idem)
  next
    case False
    then show ?thesis using head d len n0 w Cons.prems(2) [symmetric]
      by (auto simp: sl_drop_once_def sl_sets [OF n0(1)] sl_add_length_def Let_def seqlen_near [OF near_window])
  qed
  moreover have "sl_rep b k (xs @ ys) (?t\<lparr>sl_head := place_of k n (xs @ ys)\<rparr>)"
    by (rule sl_rep_drop [OF rep n]) (simp_all add: Cons.prems(2))
  ultimately show ?case using Cons.IH [of ?t "Suc j"] Cons.prems(2,3) x by (simp add: loop_while_goes)
qed

lemma sl_put_rest_at:
  assumes rep: "sl_rep b k (xs @ (a, e) # ys) s" and n: "n = sl_size s" and x: "a \<le> x" "x < e" and ap: "apart (xs @ (a, e) # ys)"
  shows "sl_put_rest (ring k n (x + 1)) (seq_no x) (seq_no e) s =
    Inr (s\<lparr>sl_data1 := (sl_data1 s)(ring k n (x + 1) := seq_no (x + 1)),
      sl_data2 := (sl_data2 s)(ring k n (x + 1) := if x + 1 = e then -1 else seq_no e)\<rparr>)"
proof -
  have n0: "0 < n" "n \<le> 536870912" using sl_rep_size [OF rep] n by simp_all
  have w: "b \<le> a" "e < b + n" "in_window b n (xs @ (a, e) # ys)" using sl_rep_window [OF rep] n by auto
  have "x + 1 \<notin> fst ` set (xs @ (a, e) # ys)" using w x ap by fastforce
  then have "ring k n (x + 1) \<notin> set (places k n (xs @ (a, e) # ys))" using w x by (intro places_notin) auto
  then have "sl_data2 s (ring k n (x + 1)) = -1" using rep n n0 by (simp add: sl_rep_def node_at_None)
  then show ?thesis using x w n0 n [symmetric]
    by (auto simp: sl_put_rest_def sl_sets [OF n0(1)] seqcmp_near [OF near_window] fun_upd_idem)
qed

text \<open>The first number of the list is taken away.\<close>

definition without_first :: "(int \<times> int) list \<Rightarrow> (int \<times> int) list" where
  "without_first ns = (case ns of [] \<Rightarrow> [] | (a, e) # ns \<Rightarrow> if a = e then ns else (a + 1, e) # ns)"

lemma without_first_simps [simp]:
  "without_first ((a, e) # ns) = (if a = e then ns else (a + 1, e) # ns)"
  by (simp add: without_first_def)

lemma without_first_spec:
  assumes "in_window b n ((a, e) # ns)" and "apart ((a, e) # ns)"
  shows "apart (without_first ((a, e) # ns))" and "cover (without_first ((a, e) # ns)) = cover ((a, e) # ns) - {..a}"
    and "total_len (without_first ((a, e) # ns)) = total_len ((a, e) # ns) - 1" and "Min (cover ((a, e) # ns)) = a"
proof -
  have "\<forall>z\<in>cover ns. e < z" using assms(2) by (fastforce simp: cover_def)
  with assms show "cover (without_first ((a, e) # ns)) = cover ((a, e) # ns) - {..a}" "Min (cover ((a, e) # ns)) = a"
    by (auto intro!: Min_eqI)
qed (use assms in auto)

lemma sl_remove_head_spec:
  assumes rep: "sl_rep b k ((a, e) # ns) s" and n: "n = sl_size s" and ap: "apart ((a, e) # ns)"
  shows "\<exists>t. sl_remove_head (ring k n a) (seq_no a) s = Inr t \<and> sl_rep b k (without_first ((a, e) # ns)) t \<and> sl_size t = n"
proof -
  have n0: "0 < n" "n \<le> 536870912" using sl_rep_size [OF rep] n by simp_all
  have w: "b \<le> a" "a \<le> e" "e < b + n" using sl_rep_window [OF rep] n by auto
  have head: "sl_head s = ring k n a" and len: "sl_length s = total_len ((a, e) # ns)" using rep n by (simp_all add: sl_rep_def)
  have rep0: "sl_rep b k ([] @ (a, e) # ns) s" using rep by simp
  note node = sl_node [OF rep0 n]
  have d2: "sl_data2 s (ring k n a) = (if a = e then -1 else seq_no e)" using node(2) sl_sets(6) [OF n0(1), of s k a] n by simp
  let ?last = "if sl_last_insert_pos s = ring k n a then -1 else sl_last_insert_pos s"
  show ?thesis
  proof (cases "a = e")
    case True
    let ?t = "s\<lparr>sl_data1 := (sl_data1 s)(ring k n a := -1), sl_last_insert_pos := ?last, sl_head := place_of k n ns,
      sl_length := total_len ns\<rparr>"
    have "sl_remove_head (ring k n a) (seq_no a) s = Inr ?t"
      using True node head len n [symmetric] by (auto simp: sl_remove_head_def sl_sets [OF n0(1)] sl_add_length_def Let_def)
    moreover have "sl_rep b k ns ?t" by (rule sl_rep_drop [OF rep n]) (use True d2 n in \<open>simp_all add: fun_upd_idem\<close>)
    ultimately show ?thesis using True n by auto
  next
    case False
    with w have ae: "a < e" by simp
    have ne: "ring k n (a + 1) \<noteq> ring k n a" using ring_eq [of b "a + 1" n a k] w ae by simp
    let ?t = "s\<lparr>sl_data1 := (sl_data1 s)(ring k n (a + 1) := seq_no (a + 1), ring k n a := -1),
      sl_data2 := (sl_data2 s)(ring k n (a + 1) := if a + 1 = e then -1 else seq_no e, ring k n a := -1),
      sl_next := (sl_next s)(ring k n (a + 1) := place_of k n ns), sl_last_insert_pos := ?last,
      sl_head := ring k n (a + 1), sl_length := total_len ((a + 1, e) # ns)\<rparr>"
    have "sl_remove_head (ring k n a) (seq_no a) s = Inr ?t"
      using False node head len n [symmetric] sl_put_rest_at [OF rep0 n order.refl ae] ap
      by (auto simp: sl_remove_head_def sl_sets [OF n0(1)] sl_add_length_def Let_def ring_smod1 [OF n0(1)])
    moreover have "sl_rep b k ((a + 1, e) # ns) ?t"
      by (rule sl_rep_advance [OF rep n ae ap]) (use n ne in \<open>simp_all add: fun_upd_twist\<close>)
    ultimately show ?thesis using False n by auto
  qed
qed

lemma sl_next_head_spec:
  assumes rep: "sl_rep b k ((a, e) # ns) s" and n: "n = sl_size s" and ap: "apart ((a, e) # ns)"
    and l: "sl_last_insert_pos s \<noteq> ring k n a"
  shows "\<exists>t. sl_next_head (ring k n a) (seq_no a) (if a = e then -1 else seq_no e) s = Inr t \<and>
    sl_rep b k (without_first ((a, e) # ns)) (sl_add_length (-1) t) \<and> sl_size t = n"
proof -
  have n0: "0 < n" "n \<le> 536870912" using sl_rep_size [OF rep] n by simp_all
  have w: "b \<le> a" "a \<le> e" "e < b + n" using sl_rep_window [OF rep] n by auto
  have len: "sl_length s = total_len ((a, e) # ns)" using rep n by (simp add: sl_rep_def)
  have rep0: "sl_rep b k ([] @ (a, e) # ns) s" using rep by simp
  note node = sl_node [OF rep0 n]
  have d2: "sl_data2 s (ring k n a) = (if a = e then -1 else seq_no e)" using node(2) sl_sets(6) [OF n0(1), of s k a] n by simp
  show ?thesis
  proof (cases "a = e")
    case True
    let ?t = "s\<lparr>sl_data1 := (sl_data1 s)(ring k n a := -1), sl_head := place_of k n ns\<rparr>"
    have "sl_next_head (ring k n a) (seq_no a) (-1) s = Inr ?t"
      using node n [symmetric] by (simp add: sl_next_head_def sl_sets [OF n0(1)])
    moreover have "sl_rep b k ns (sl_add_length (-1) ?t)"
      by (rule sl_rep_drop [OF rep n]) (use True d2 n l len in \<open>simp_all add: fun_upd_idem sl_add_length_def\<close>)
    ultimately show ?thesis using True n by auto
  next
    case False
    with w have ae: "a < e" by simp
    have ne: "ring k n (a + 1) \<noteq> ring k n a" using ring_eq [of b "a + 1" n a k] w ae by simp
    let ?t = "s\<lparr>sl_data1 := (sl_data1 s)(ring k n (a + 1) := seq_no (a + 1), ring k n a := -1),
      sl_data2 := (sl_data2 s)(ring k n (a + 1) := if a + 1 = e then -1 else seq_no e, ring k n a := -1),
      sl_next := (sl_next s)(ring k n (a + 1) := place_of k n ns), sl_head := ring k n (a + 1)\<rparr>"
    have "sl_next_head (ring k n a) (seq_no a) (seq_no e) s = Inr ?t"
      using node n [symmetric] sl_put_rest_at [OF rep0 n order.refl ae] ap
      by (auto simp: sl_next_head_def sl_sets [OF n0(1)] Let_def ring_smod1 [OF n0(1)])
    moreover have "sl_rep b k ((a + 1, e) # ns) (sl_add_length (-1) ?t)"
      by (rule sl_rep_advance [OF rep n ae ap]) (use n ne l len in \<open>simp_all add: fun_upd_twist sl_add_length_def\<close>)
    ultimately show ?thesis using False n by auto
  qed
qed

lemma sl_get_lost_seq_spec:
  assumes "sl_holds S s"
  shows "\<exists>t. sl_get_lost_seq s = Inr (if S = {} then -1 else seq_no (Min S), t) \<and> sl_holds (S - {Min S}) t \<and> sl_size t = sl_size s"
proof -
  from assms obtain b k ns where rep: "sl_rep b k ns s" and ap: "apart ns" and S: "cover ns = S" unfolding sl_holds_def by blast
  define n where "n = sl_size s"
  show ?thesis
  proof (cases ns)
    case Nil
    then show ?thesis using assms S sl_rep_nil [OF rep] by (simp add: sl_get_lost_seq_def)
  next
    case (Cons x zs)
    obtain a e where x: "x = (a, e)" by (cases x)
    let ?s = "if sl_last_insert_pos s = ring k n a then s\<lparr>sl_last_insert_pos := -1\<rparr> else s"
    have w: "in_window b n ((a, e) # zs)" using sl_rep_window [OF rep] Cons x n_def by simp
    have head: "sl_head s = ring k n a" and len: "sl_length s \<noteq> 0"
      using rep Cons x sl_rep_nil [OF rep] by (simp_all add: sl_rep_def n_def)
    have rep': "sl_rep b k ((a, e) # zs) ?s" using rep Cons x by (simp add: sl_rep_def)
    have n': "n = sl_size ?s" by (simp add: n_def)
    have rep0: "sl_rep b k ([] @ (a, e) # zs) ?s" using rep' by simp
    have "ring k n a \<noteq> -1" using sl_rep_size [OF rep] n_def by simp
    then have l: "sl_last_insert_pos ?s \<noteq> ring k n a" by auto
    from sl_next_head_spec [OF rep' n' _ l] ap Cons x obtain t where
      t: "sl_next_head (ring k n a) (seq_no a) (if a = e then -1 else seq_no e) ?s = Inr t"
        "sl_rep b k (without_first ((a, e) # zs)) (sl_add_length (-1) t)" "sl_size t = n" by blast
    have "Min S = a" "cover (without_first ((a, e) # zs)) = S - {..a}" "apart (without_first ((a, e) # zs))"
      using without_first_spec [OF w] ap Cons x S by auto
    moreover have "S - {..a} = S - {a}" using calculation(1) S by (auto simp: order.antisym)
    ultimately have h: "sl_holds (S - {Min S}) (sl_add_length (-1) t)" unfolding sl_holds_def using t(2) by metis
    have "S \<noteq> {}" using S Cons x w by auto
    with \<open>Min S = a\<close> t(1) have "sl_get_lost_seq s = Inr (seq_no (Min S), sl_add_length (-1) t)"
      using sl_node(1,2) [OF rep0 n'] len head by (simp add: sl_get_lost_seq_def Let_def)
    with h t(3) \<open>S \<noteq> {}\<close> n_def show ?thesis by (simp add: sl_add_length_def)
  qed
qed

text \<open>The node that holds the position, or the last before it, is cut: what follows the position is the new head.\<close>

lemma sl_cut_in_spec:
  assumes rep: "sl_rep b k (us @ (c, f) # vs) s" and n: "n = sl_size s" and ap: "apart (us @ (c, f) # vs)"
    and x: "c < x" "x < b + n"
  shows "\<exists>u xs ys. sl_cut_in (ring k n x) (ring k n c) (seq_no x) s = Inr u \<and>
    sl_rep b k (xs @ ys) (u\<lparr>sl_head := sl_head s\<rparr>) \<and> sl_head u = place_of k n ys \<and> sl_size u = n \<and> xs \<noteq> [] \<and>
    ys = (if x < f then (x + 1, f) # vs else vs)"
proof -
  have n0: "0 < n" "n \<le> 536870912" using sl_rep_size [OF rep] n by simp_all
  have w: "b \<le> c" "c \<le> f" "f < b + n" using sl_rep_window [OF rep] n by auto
  note node = sl_node [OF rep n]
  show ?thesis
  proof (cases "x < f")
    case True
    have ne: "ring k n c \<noteq> ring k n (x + 1)" using ring_eq [of b c n "x + 1" k] w x True by simp
    let ?t = "s\<lparr>sl_data1 := (sl_data1 s)(ring k n (x + 1) := seq_no (x + 1)),
      sl_data2 := (sl_data2 s)(ring k n (x + 1) := if x + 1 = f then -1 else seq_no f, ring k n c := seq_no x),
      sl_next := (sl_next s)(ring k n (x + 1) := place_of k n vs, ring k n c := ring k n (x + 1)), sl_head := ring k n (x + 1)\<rparr>"
    have "sl_cut_in (ring k n x) (ring k n c) (seq_no x) s = Inr ?t"
      using node True w x n0 n [symmetric] ne sl_put_rest_at [OF rep n _ True ap]
      by (auto simp: sl_cut_in_def sl_sets [OF n0(1)] Let_def ring_smod1 [OF n0(1)] seqcmp_near [OF near_window])
    moreover have "sl_rep b k (us @ (c, x) # (x + 1, f) # vs) (?t\<lparr>sl_head := sl_head s\<rparr>)"
      by (rule sl_rep_split [OF rep n _ True ap]) (use x n in simp_all)
    ultimately show ?thesis using True n
      by (intro exI [of _ ?t] exI [of _ "us @ [(c, x)]"] exI [of _ "(x + 1, f) # vs"]) simp
  next
    case False
    let ?t = "s\<lparr>sl_head := place_of k n vs\<rparr>"
    have "sl_cut_in (ring k n x) (ring k n c) (seq_no x) s = Inr ?t"
      using node False w x n0 by (auto simp: sl_cut_in_def seqcmp_near [OF near_window])
    moreover have "?t\<lparr>sl_head := sl_head s\<rparr> = s" by simp
    ultimately show ?thesis using False rep n
      by (intro exI [of _ ?t] exI [of _ "us @ [(c, f)]"] exI [of _ vs]) simp
  qed
qed

lemma sl_cut_at_spec:
  assumes rep: "sl_rep b k (us @ (x, f) # vs) s" and n: "n = sl_size s" and ap: "apart (us @ (x, f) # vs)"
  shows "\<exists>u xs ys. sl_cut_at (ring k n x) (seq_no x) s = Inr u \<and>
    sl_rep b k (xs @ ys) (u\<lparr>sl_head := sl_head s\<rparr>) \<and> sl_head u = place_of k n ys \<and> sl_size u = n \<and> xs \<noteq> [] \<and>
    ys = (if x < f then (x + 1, f) # vs else vs)"
proof -
  have n0: "0 < n" "n \<le> 536870912" using sl_rep_size [OF rep] n by simp_all
  have w: "b \<le> x" "x \<le> f" "f < b + n" using sl_rep_window [OF rep] n by auto
  note node = sl_node [OF rep n]
  show ?thesis
  proof (cases "x < f")
    case True
    have ne: "ring k n x \<noteq> ring k n (x + 1)" using ring_eq [of b x n "x + 1" k] w True by simp
    let ?t = "s\<lparr>sl_data1 := (sl_data1 s)(ring k n (x + 1) := seq_no (x + 1)),
      sl_data2 := (sl_data2 s)(ring k n (x + 1) := if x + 1 = f then -1 else seq_no f, ring k n x := -1), sl_head := ring k n (x + 1),
      sl_next := (sl_next s)(ring k n (x + 1) := place_of k n vs, ring k n x := ring k n (x + 1))\<rparr>"
    have "sl_cut_at (ring k n x) (seq_no x) s = Inr ?t"
      using node True n [symmetric] ne sl_put_rest_at [OF rep n order.refl True ap]
      by (auto simp: sl_cut_at_def sl_sets [OF n0(1)] Let_def ring_smod1 [OF n0(1)])
    moreover have "sl_rep b k (us @ (x, x) # (x + 1, f) # vs) (?t\<lparr>sl_head := sl_head s\<rparr>)"
      by (rule sl_rep_split [OF rep n order.refl True ap]) (use n in simp_all)
    ultimately show ?thesis using True n
      by (intro exI [of _ ?t] exI [of _ "us @ [(x, x)]"] exI [of _ "(x + 1, f) # vs"]) simp
  next
    case False
    let ?t = "s\<lparr>sl_head := place_of k n vs\<rparr>"
    have "sl_cut_at (ring k n x) (seq_no x) s = Inr ?t"
      using node False w by (auto simp: sl_cut_at_def)
    moreover have "?t\<lparr>sl_head := sl_head s\<rparr> = s" by simp
    ultimately show ?thesis using False rep n
      by (intro exI [of _ ?t] exI [of _ "us @ [(x, f)]"] exI [of _ vs]) simp
  qed
qed

lemma sl_drop_from_head:
  assumes "sl_rep b k (xs @ ys) (u\<lparr>sl_head := h\<rparr>)" and "sl_head u = place_of k n ys" and "sl_size u = n"
  shows "\<exists>t. sl_drop h u = Some (Inr t) \<and> sl_rep b k ys t \<and> sl_size t = n"
proof -
  have h: "h = place_of k n (xs @ ys)"
    using assms path_place_of [of "sl_next u" h k n "xs @ ys"] by (simp add: sl_rep_def del: places_simps)
  obtain t h' where "loop_while sl_drop_once 0 (h, u) = Some (Inr (h', t))" "sl_rep b k ys t" "sl_size t = n"
    using sl_drop_spec [OF assms(1) [unfolded h] assms(3) [symmetric] assms(2), of 0] h by auto
  then show ?thesis by (simp add: sl_drop_def)
qed

lemma cut_cover:
  assumes "in_window b n (us @ (c, f) # vs)" and "apart (us @ (c, f) # vs)" and "c \<le> x" and "\<forall>(d, g)\<in>set vs. x < d"
    and "ys = (if x < f then (x + 1, f) # vs else vs)"
  shows "cover ys = cover (us @ (c, f) # vs) - {..x}" and "apart ys"
proof -
  have "\<forall>z\<in>cover us. z < c" "\<forall>z\<in>cover vs. x < z" using assms(2,4) by (fastforce simp: cover_def)+
  then have "cover us - {..x} = {}" "cover vs - {..x} = cover vs" using assms(3) by fastforce+
  moreover have "{c..f} - {..x} = (if x < f then {x + 1..f} else {})" using assms(3) by auto
  ultimately show "cover ys = cover (us @ (c, f) # vs) - {..x}" by (auto simp: assms(5) Un_Diff)
  show "apart ys" using assms by auto
qed

lemma sl_remove_spec:
  assumes "sl_holds S s" and w: "S \<subseteq> {b..<b + sl_size s}" and x: "b - sl_size s < x" "x < b + sl_size s"
  shows "\<exists>t. sl_remove (seq_no x) s = Some (Inr t) \<and> sl_holds (S - {..x}) t \<and> sl_size t = sl_size s"
proof -
  define n where "n = sl_size s"
  from assms(1) obtain b0 k ns where "sl_rep b0 k ns s" and ap: "apart ns" and S: "cover ns = S" unfolding sl_holds_def by blast
  then have rep: "sl_rep b k ns s" using sl_rep_move [of b0 k ns s b] w by simp
  show ?thesis
  proof (cases ns)
    case Nil
    then show ?thesis using assms(1) S sl_rep_nil [OF rep] by (simp add: sl_remove_def)
  next
    case (Cons z zs)
    obtain h g where z: "z = (h, g)" by (cases z)
    note ns = Cons [unfolded z]
    have n0: "0 < n" "n \<le> 536870912" using sl_rep_size [OF rep] n_def by simp_all
    have wn: "in_window b n ns" using sl_rep_window [OF rep] n_def by simp
    then have wh: "b \<le> h" "h \<le> g" "g < b + n" using ns by simp_all
    have len: "sl_length s \<noteq> 0" using sl_rep_nil [OF rep] ns by simp
    have head: "sl_head s = ring k n h" using rep ns n_def by (simp add: sl_rep_def)
    have rep0: "sl_rep b k ([] @ (h, g) # zs) s" using rep ns by simp
    have d: "sl_get1 s (sl_head s) = Inr (seq_no h)" using sl_node(1) [OF rep0 n_def] head by simp
    have off: "seqoff (seq_no h) (seq_no x) = x - h" using wh x n0 n_def by (intro seqoff_near) (simp add: near_iff)
    have loc: "(sl_head s + (x - h) + sl_size s) smod sl_size s = ring k n x" if "h \<le> x"
      using ring_smod [of n x h k] head n_def n0 that by simp
    have finish: ?thesis if "sl_remove (seq_no x) s = bindo (Some (Inr u)) (sl_drop (sl_head s))"
      "sl_rep b k (xs @ ys) (u\<lparr>sl_head := sl_head s\<rparr>)" "sl_head u = place_of k n ys" "sl_size u = n" "cover ys = S - {..x}" "apart ys"
      for u xs ys
    proof -
      from sl_drop_from_head [OF that(2-4)] obtain t where "sl_drop (sl_head s) u = Some (Inr t)" "sl_rep b k ys t" "sl_size t = n" by blast
      with that(1,5,6) n_def show ?thesis unfolding sl_holds_def by auto
    qed
    consider "x < h" | "x = h" | "h < x" by linarith
    then show ?thesis
    proof cases
      case 1
      have "\<forall>v\<in>cover ns. h \<le> v" using wn ns by (fastforce simp: cover_def)
      with 1 S have "S - {..x} = S" by auto
      with 1 d off len assms(1) show ?thesis by (simp add: sl_remove_def Let_def)
    next
      case 2
      from sl_remove_head_spec [OF rep [unfolded ns] n_def ap [unfolded ns]] obtain t where
        t: "sl_remove_head (ring k n h) (seq_no h) s = Inr t" "sl_rep b k (without_first ((h, g) # zs)) t" "sl_size t = n" by blast
      moreover have "cover (without_first ((h, g) # zs)) = S - {..x}" "apart (without_first ((h, g) # zs))"
        using without_first_spec(1,2) [OF wn [unfolded ns] ap [unfolded ns]] S ns 2 by simp_all
      ultimately have "sl_holds (S - {..x}) t" unfolding sl_holds_def by blast
      with 2 d off loc len t(1,3) n_def show ?thesis by (simp add: sl_remove_def Let_def)
    next
      case 3
      have l1: "sl_get1 s (ring k n x) = Inr (first_no (node_at k n ns (ring k n x)))" by (rule sl_gets [OF rep n_def])
      have xb: "b \<le> x" "x < b + n" using 3 wh x n_def by linarith+
      note first = first_no_at [OF wn n0(2) xb, of k]
      show ?thesis
      proof (cases "x \<in> fst ` set ns")
        case True
        then obtain f where "(x, f) \<in> set ns" by force
        then obtain us vs where us: "ns = us @ (x, f) # vs" by (metis split_list)
        have "first_no (node_at k n ns (ring k n x)) = seq_no x" using first us by auto
        with 3 d off loc len l1 have r: "sl_remove (seq_no x) s = bindo (Some (sl_cut_at (ring k n x) (seq_no x) s)) (sl_drop (sl_head s))"
          by (simp add: sl_remove_def Let_def)
        from sl_cut_at_spec [OF rep [unfolded us] n_def ap [unfolded us]] obtain u xs ys where
          u: "sl_cut_at (ring k n x) (seq_no x) s = Inr u" "sl_rep b k (xs @ ys) (u\<lparr>sl_head := sl_head s\<rparr>)" "sl_head u = place_of k n ys"
            "sl_size u = n" "ys = (if x < f then (x + 1, f) # vs else vs)" by blast
        have "\<forall>(d, g)\<in>set vs. x < d" using wn us by simp
        from cut_cover [OF wn [unfolded us] ap [unfolded us] order.refl this u(5)] show ?thesis
          using finish [OF r [unfolded u(1)] u(2-4)] S us by simp
      next
        case False
        then have ne: "first_no (node_at k n ns (ring k n x)) \<noteq> seq_no x" using first by force
        obtain us c f vs where prior: "(h, g) # zs = us @ (c, f) # vs"
            "loop_while (sl_prior_once (seq_no x) s) 0 (ring k n h) = Some (Inr (ring k n c))" "c < x" "\<forall>(d, g)\<in>set vs. x \<le> d"
          using sl_prior_spec [OF rep0 n_def 3, of 0] xb by force
        have us: "ns = us @ (c, f) # vs" using prior(1) ns by simp
        from 3 d off loc len l1 ne have r: "sl_remove (seq_no x) s =
            bindo (Some (sl_cut_in (ring k n x) (ring k n c) (seq_no x) s)) (sl_drop (sl_head s))"
          by (simp add: sl_remove_def Let_def sl_prior_def prior(2) head [symmetric] eq_commute [of "seq_no x"])
            (simp add: head prior(2))
        from sl_cut_in_spec [OF rep [unfolded us] n_def ap [unfolded us] prior(3) xb(2)] obtain u xs ys where
          u: "sl_cut_in (ring k n x) (ring k n c) (seq_no x) s = Inr u" "sl_rep b k (xs @ ys) (u\<lparr>sl_head := sl_head s\<rparr>)"
            "sl_head u = place_of k n ys" "sl_size u = n" "ys = (if x < f then (x + 1, f) # vs else vs)" by blast
        have "\<forall>(d, g)\<in>set vs. x < d" using False prior(4) unfolding us by (force simp: less_le)
        from cut_cover [OF wn [unfolded us] ap [unfolded us] _ this u(5)] prior(3) show ?thesis
          using finish [OF r [unfolded u(1)] u(2-4)] S us by simp
      qed
    qed
  qed
qed

subsection \<open>Any sequence of operations\<close>

datatype sl_op = SlInsert int int | SlRemove int | SlGetLostSeq

text \<open>The operations on the set of the positions that are lost, with what they return.\<close>

fun loss_step :: "sl_op \<Rightarrow> int set \<Rightarrow> int \<times> int set" where
  "loss_step (SlInsert x y) S = (int (card ({x..y} - S)), S \<union> {x..y})"
| "loss_step (SlRemove x) S = (0, S - {..x})"
| "loss_step SlGetLostSeq S = (if S = {} then -1 else seq_no (Min S), S - {Min S})"

fun loss_run :: "sl_op list \<Rightarrow> int set \<Rightarrow> int list \<times> int set" where
  "loss_run [] S = ([], S)"
| "loss_run (op # ops) S = (let (r, S) = loss_step op S; (rs, S) = loss_run ops S in (r # rs, S))"

text \<open>The packets that can be lost at a time are those of a window of the size of the arrays.\<close>

fun loss_allowed :: "int \<Rightarrow> sl_op \<Rightarrow> int set \<Rightarrow> bool" where
  "loss_allowed n (SlInsert x y) S \<longleftrightarrow> x \<le> y \<and> (\<exists>b. S \<union> {x..y} \<subseteq> {b..<b + n})"
| "loss_allowed n (SlRemove x) S \<longleftrightarrow> (\<exists>b. S \<subseteq> {b..<b + n} \<and> b - n < x \<and> x < b + n)"
| "loss_allowed n SlGetLostSeq S \<longleftrightarrow> True"

fun losses_allowed :: "int \<Rightarrow> sl_op list \<Rightarrow> int set \<Rightarrow> bool" where
  "losses_allowed n [] S \<longleftrightarrow> True"
| "losses_allowed n (op # ops) S \<longleftrightarrow> loss_allowed n op S \<and> losses_allowed n ops (snd (loss_step op S))"

text \<open>The operations on the list, which knows numbers only.\<close>

fun sl_run_op :: "sl_op \<Rightarrow> snd_loss_list \<Rightarrow> (int \<times> snd_loss_list) result option" where
  "sl_run_op (SlInsert x y) s = sl_insert (seq_no x) (seq_no y) s"
| "sl_run_op (SlRemove x) s = bindo (sl_remove (seq_no x) s) (\<lambda>s. Some (Inr (0, s)))"
| "sl_run_op SlGetLostSeq s = Some (sl_get_lost_seq s)"

fun sl_run :: "sl_op list \<Rightarrow> snd_loss_list \<Rightarrow> (int list \<times> snd_loss_list) result option" where
  "sl_run [] s = Some (Inr ([], s))"
| "sl_run (op # ops) s = bindo (sl_run_op op s) (\<lambda>(r, s). bindo (sl_run ops s) (\<lambda>(rs, s). Some (Inr (r # rs, s))))"

lemma sl_run_op_refines:
  assumes "sl_holds S s" and "loss_allowed (sl_size s) op S"
  shows "\<exists>t. sl_run_op op s = Some (Inr (fst (loss_step op S), t)) \<and> sl_holds (snd (loss_step op S)) t \<and> sl_size t = sl_size s"
  using assms sl_insert_spec [OF assms(1)] sl_remove_spec [OF assms(1)] sl_get_lost_seq_spec [OF assms(1)]
  by (cases op) fastforce+

lemma sl_run_refines:
  "sl_holds S s \<Longrightarrow> losses_allowed (sl_size s) ops S \<Longrightarrow>
    \<exists>t. sl_run ops s = Some (Inr (fst (loss_run ops S), t)) \<and> sl_holds (snd (loss_run ops S)) t"
proof (induction ops arbitrary: S s)
  case (Cons op ops)
  then obtain t where t: "sl_run_op op s = Some (Inr (fst (loss_step op S), t))" "sl_holds (snd (loss_step op S)) t" "sl_size t = sl_size s"
    using sl_run_op_refines [of S s op] by auto
  with Cons.IH [OF t(2)] Cons.prems(2) show ?case by (auto simp: split_beta Let_def)
qed simp

lemma sl_new_holds: "0 < n \<Longrightarrow> n \<le> 2 ^ 29 \<Longrightarrow> sl_holds {} (sl_new n junk)"
  unfolding sl_holds_def by (intro exI [of _ 0] exI [of _ "[]"]) (simp add: sl_rep_def sl_new_def)

text \<open>C18. The list of losses of a sender is the set of the packets that are lost, over any sequence of operations whose packets
  fit the arrays, with sequence numbers that wrap around: nothing is undefined, every loop ends, an insertion returns how many
  packets are new, the first lost packet is taken, and the length is the number of packets.\<close>

theorem snd_loss_list_refines_set:
  assumes "0 < n" and "n \<le> 2 ^ 29" and "losses_allowed n ops {}"
  shows "\<exists>t. sl_run ops (sl_new n junk) = Some (Inr (fst (loss_run ops {}), t)) \<and>
    sl_get_loss_length t = int (card (snd (loss_run ops {})))"
proof -
  have "sl_size (sl_new n junk) = n" by (simp add: sl_new_def)
  with sl_run_refines [of "{}" "sl_new n junk" ops] sl_new_holds [OF assms(1,2)] assms(3) obtain t where
    "sl_run ops (sl_new n junk) = Some (Inr (fst (loss_run ops {}), t))" "sl_holds (snd (loss_run ops {})) t" by auto
  with sl_holds_length [of "snd (loss_run ops {})" t] show ?thesis by (auto simp: sl_get_loss_length_def)
qed

theorem snd_loss_list_refines_set_witness:
  "\<exists>t. sl_run [SlInsert 2147483646 2147483649, SlInsert 2147483651 2147483651, SlGetLostSeq, SlRemove 2147483648]
      (sl_new 16 (\<lambda>_. 7)) = Some (Inr ([4, 1, 2147483646, 0], t)) \<and> sl_get_loss_length t = 2"
proof -
  let ?ops = "[SlInsert 2147483646 2147483649, SlInsert 2147483651 2147483651, SlGetLostSeq, SlRemove 2147483648]"
  have m: "Min ({2147483646..2147483649} \<union> {2147483651 :: int}) = 2147483646" by (intro Min_eqI) auto
  have c: "{2147483651 :: int} - {2147483646..2147483649} = {2147483651}" by auto
  have f: "insert (2147483651 :: int) {2147483646..2147483649} - {2147483646} - {..2147483648} = {2147483649, 2147483651}" by auto
  have "losses_allowed 16 ?ops {}"
    using m by (auto intro!: exI [of _ "2147483646 :: int"])
  from snd_loss_list_refines_set [OF _ _ this, of "\<lambda>_. 7"] show ?thesis
    using m by (simp add: c f seq_no_def)
qed

end
