(* ===== verification/UdtRcvLossList.thy ===== *)
theory UdtRcvLossList
  imports UdtIntervals
begin

text \<open>
  \<open>CRcvLossList\<close> of the UDT library (src/udt/newlib/list.hpp, list.cpp): the numbers of the packets that a receiver misses, as a
  list of intervals that is linked in both directions, in arrays of a fixed size. New losses come after those in the list,
  while any number can be removed. The arrays of links start with arbitrary values.
\<close>

unbundle bit_operations_syntax

subsection \<open>State\<close>

record rcv_loss_list =
  rcl_data1 :: "int \<Rightarrow> int"
  rcl_data2 :: "int \<Rightarrow> int"
  rcl_next :: "int \<Rightarrow> int"
  rcl_prior :: "int \<Rightarrow> int"
  rcl_head :: int
  rcl_tail :: int
  rcl_length :: int
  rcl_size :: int

definition rcl_new :: "int \<Rightarrow> (int \<Rightarrow> int) \<Rightarrow> (int \<Rightarrow> int) \<Rightarrow> rcv_loss_list" where
  "rcl_new n next_junk prior_junk = \<lparr>rcl_data1 = (\<lambda>_. -1), rcl_data2 = (\<lambda>_. -1), rcl_next = next_junk, rcl_prior = prior_junk,
     rcl_head = -1, rcl_tail = -1, rcl_length = 0, rcl_size = n\<rparr>"

definition rcl_get1 :: "rcv_loss_list \<Rightarrow> int \<Rightarrow> int result" where "rcl_get1 s = cell (rcl_size s) (rcl_data1 s)"
definition rcl_get2 :: "rcv_loss_list \<Rightarrow> int \<Rightarrow> int result" where "rcl_get2 s = cell (rcl_size s) (rcl_data2 s)"
definition rcl_get_next :: "rcv_loss_list \<Rightarrow> int \<Rightarrow> int result" where "rcl_get_next s = cell (rcl_size s) (rcl_next s)"
definition rcl_get_prior :: "rcv_loss_list \<Rightarrow> int \<Rightarrow> int result" where "rcl_get_prior s = cell (rcl_size s) (rcl_prior s)"

definition rcl_set1 :: "int \<Rightarrow> int \<Rightarrow> rcv_loss_list \<Rightarrow> rcv_loss_list result" where
  "rcl_set1 i v s = mapr (\<lambda>a. s\<lparr>rcl_data1 := a\<rparr>) (set_cell (rcl_size s) i v (rcl_data1 s))"
definition rcl_set2 :: "int \<Rightarrow> int \<Rightarrow> rcv_loss_list \<Rightarrow> rcv_loss_list result" where
  "rcl_set2 i v s = mapr (\<lambda>a. s\<lparr>rcl_data2 := a\<rparr>) (set_cell (rcl_size s) i v (rcl_data2 s))"
definition rcl_set_next :: "int \<Rightarrow> int \<Rightarrow> rcv_loss_list \<Rightarrow> rcv_loss_list result" where
  "rcl_set_next i v s = mapr (\<lambda>a. s\<lparr>rcl_next := a\<rparr>) (set_cell (rcl_size s) i v (rcl_next s))"
definition rcl_set_prior :: "int \<Rightarrow> int \<Rightarrow> rcv_loss_list \<Rightarrow> rcv_loss_list result" where
  "rcl_set_prior i v s = mapr (\<lambda>a. s\<lparr>rcl_prior := a\<rparr>) (set_cell (rcl_size s) i v (rcl_prior s))"

definition rcl_add_length :: "int \<Rightarrow> rcv_loss_list \<Rightarrow> rcv_loss_list" where
  "rcl_add_length n s = s\<lparr>rcl_length := rcl_length s + n\<rparr>"

subsection \<open>\<open>insert\<close>\<close>

definition rcl_put_node :: "int \<Rightarrow> int \<Rightarrow> int \<Rightarrow> rcv_loss_list \<Rightarrow> rcv_loss_list result" where
  "rcl_put_node loc seqno1 seqno2 s =
     bindr (rcl_set1 loc seqno1 s) (\<lambda>s. if seqno2 \<noteq> seqno1 then rcl_set2 loc seqno2 s else Inr s)"

definition rcl_append_node :: "int \<Rightarrow> int \<Rightarrow> int \<Rightarrow> rcv_loss_list \<Rightarrow> rcv_loss_list result" where
  "rcl_append_node loc seqno1 seqno2 s =
     bindr (rcl_put_node loc seqno1 seqno2 s) (\<lambda>s.
     bindr (rcl_set_next (rcl_tail s) loc s) (\<lambda>s.
     bindr (rcl_set_prior loc (rcl_tail s) s) (\<lambda>s.
     mapr (\<lambda>s. s\<lparr>rcl_tail := loc\<rparr>) (rcl_set_next loc (-1) s))))"

definition rcl_insert :: "int \<Rightarrow> int \<Rightarrow> rcv_loss_list \<Rightarrow> rcv_loss_list result" where
  "rcl_insert seqno1 seqno2 s =
     (if rcl_length s = 0 then
        bindr (rcl_put_node 0 seqno1 seqno2 (s\<lparr>rcl_head := 0, rcl_tail := 0\<rparr>)) (\<lambda>s.
        bindr (rcl_set_next 0 (-1) s) (\<lambda>s.
        mapr (rcl_add_length (seqlen seqno1 seqno2)) (rcl_set_prior 0 (-1) s)))
      else
        bindr (rcl_get1 s (rcl_head s)) (\<lambda>d.
        let loc = (rcl_head s + seqoff d seqno1) smod rcl_size s in
        bindr (rcl_get2 s (rcl_tail s)) (\<lambda>e.
        mapr (rcl_add_length (seqlen seqno1 seqno2))
          (if e \<noteq> -1 \<and> incseq e = seqno1 then rcl_set2 (rcl_tail s) seqno2 s
           else rcl_append_node loc seqno1 seqno2 s))))"

subsection \<open>\<open>remove\<close>\<close>

text \<open>The only number of the node at \<open>loc\<close> is removed.\<close>

definition rcl_unlink :: "int \<Rightarrow> rcv_loss_list \<Rightarrow> rcv_loss_list result" where
  "rcl_unlink loc s =
     bindr
       (if rcl_head s = loc then
          bindr (rcl_get_next s (rcl_head s)) (\<lambda>h.
          let s = s\<lparr>rcl_head := h\<rparr> in if rcl_head s \<noteq> -1 then rcl_set_prior (rcl_head s) (-1) s else Inr s)
        else
          bindr (rcl_get_prior s loc) (\<lambda>p.
          bindr (rcl_get_next s loc) (\<lambda>n.
          bindr (rcl_set_next p n s) (\<lambda>s.
          bindr (rcl_get_next s loc) (\<lambda>n.
          bindr (rcl_get_prior s loc) (\<lambda>p.
          if n \<noteq> -1 then rcl_set_prior n p s else Inr (s\<lparr>rcl_tail := p\<rparr>)))))))
       (\<lambda>s. rcl_set1 loc (-1) s)"

text \<open>The first of several numbers of the node at \<open>loc\<close> is removed: the node moves to the next index.\<close>

definition rcl_shift :: "int \<Rightarrow> rcv_loss_list \<Rightarrow> rcv_loss_list result" where
  "rcl_shift loc s =
     (let i = (loc + 1) smod rcl_size s in
      bindr (rcl_get1 s loc) (\<lambda>d.
      bindr (rcl_set1 i (incseq d) s) (\<lambda>s.
      bindr (rcl_get1 s loc) (\<lambda>d.
      bindr (rcl_get2 s loc) (\<lambda>e.
      bindr (if seqcmp e (incseq d) > 0 then rcl_set2 i e s else Inr s) (\<lambda>s.
      bindr (rcl_set1 loc (-1) s) (\<lambda>s.
      bindr (rcl_set2 loc (-1) s) (\<lambda>s.
      bindr (rcl_get_next s loc) (\<lambda>n.
      bindr (rcl_set_next i n s) (\<lambda>s.
      bindr (rcl_get_prior s loc) (\<lambda>p.
      bindr (rcl_set_prior i p s) (\<lambda>s.
      bindr (if rcl_head s = loc then Inr (s\<lparr>rcl_head := i\<rparr>) else bindr (rcl_get_prior s i) (\<lambda>p. rcl_set_next p i s)) (\<lambda>s.
      if rcl_tail s = loc then Inr (s\<lparr>rcl_tail := i\<rparr>) else bindr (rcl_get_next s i) (\<lambda>n. rcl_set_prior n i s))))))))))))))"

text \<open>The loop that goes back to the next node, over empty places.\<close>

definition rcl_back_once :: "rcv_loss_list \<Rightarrow> nat \<Rightarrow> int \<Rightarrow> (bool \<times> int) result" where
  "rcl_back_once s k i =
     mapr (\<lambda>d. if d = -1 then (True, (i - 1 + rcl_size s) smod rcl_size s) else (False, i)) (rcl_get1 s i)"

definition rcl_back :: "int \<Rightarrow> rcv_loss_list \<Rightarrow> int result option" where
  "rcl_back loc s = loop_while (rcl_back_once s) 0 ((loc - 1 + rcl_size s) smod rcl_size s)"

text \<open>The interval of the node at \<open>i\<close> ends before \<open>seqno\<close>.\<close>

definition rcl_shorten :: "int \<Rightarrow> int \<Rightarrow> rcv_loss_list \<Rightarrow> rcv_loss_list result" where
  "rcl_shorten i seqno s =
     bindr (rcl_get1 s i) (\<lambda>d. rcl_set2 i (if seqno = incseq d then -1 else decseq seqno) s)"

text \<open>The interval of the node at \<open>i\<close> is split at \<open>seqno\<close>, whose index is \<open>loc\<close>.\<close>

definition rcl_split :: "int \<Rightarrow> int \<Rightarrow> int \<Rightarrow> rcv_loss_list \<Rightarrow> rcv_loss_list result" where
  "rcl_split i loc seqno s =
     (let loc = (loc + 1) smod rcl_size s in
      bindr (rcl_set1 loc (incseq seqno) s) (\<lambda>s.
      bindr (rcl_get2 s i) (\<lambda>e.
      bindr (rcl_get1 s loc) (\<lambda>d.
      bindr (if seqcmp e d > 0 then rcl_set2 loc e s else Inr s) (\<lambda>s.
      bindr (rcl_shorten i seqno s) (\<lambda>s.
      bindr (rcl_get_next s i) (\<lambda>n.
      bindr (rcl_set_next loc n s) (\<lambda>s.
      bindr (rcl_set_next i loc s) (\<lambda>s.
      bindr (rcl_set_prior loc i s) (\<lambda>s.
      if rcl_tail s = i then Inr (s\<lparr>rcl_tail := loc\<rparr>) else bindr (rcl_get_next s loc) (\<lambda>n. rcl_set_prior n loc s)))))))))))"

text \<open>No node starts at \<open>seqno\<close>; the one before it is at \<open>i\<close>.\<close>

definition rcl_remove_inside :: "int \<Rightarrow> int \<Rightarrow> int \<Rightarrow> rcv_loss_list \<Rightarrow> (bool \<times> rcv_loss_list) result" where
  "rcl_remove_inside i loc seqno s =
     bindr (rcl_get2 s i) (\<lambda>e.
       if e = -1 \<or> seqcmp seqno e > 0 then Inr (False, s)
       else mapr (\<lambda>s. (True, rcl_add_length (-1) s)) (if seqno = e then rcl_shorten i seqno s else rcl_split i loc seqno s))"

definition rcl_remove :: "int \<Rightarrow> rcv_loss_list \<Rightarrow> (bool \<times> rcv_loss_list) result option" where
  "rcl_remove seqno s =
     (if rcl_length s = 0 then Some (Inr (False, s))
      else
        bindo (Some (rcl_get1 s (rcl_head s))) (\<lambda>d.
        let offset = seqoff d seqno in
        if offset < 0 then Some (Inr (False, s))
        else
          (let loc = (rcl_head s + offset) smod rcl_size s in
           bindo (Some (rcl_get1 s loc)) (\<lambda>d1.
             if seqno = d1 then
               Some (bindr (rcl_get2 s loc) (\<lambda>e.
                 mapr (\<lambda>s. (True, rcl_add_length (-1) s)) (if e = -1 then rcl_unlink loc s else rcl_shift loc s)))
             else bindo (rcl_back loc s) (\<lambda>i. Some (rcl_remove_inside i loc seqno s))))))"

text \<open>The loops over a range of numbers; counting up from the largest number is an overflow.\<close>

primrec rcl_remove_each :: "int list \<Rightarrow> rcv_loss_list \<Rightarrow> rcv_loss_list result option" where
  "rcl_remove_each [] s = Some (Inr s)"
| "rcl_remove_each (i # is) s = bindo (rcl_remove i s) (\<lambda>(_, s). rcl_remove_each is s)"

definition rcl_remove_range :: "int \<Rightarrow> int \<Rightarrow> rcv_loss_list \<Rightarrow> (bool \<times> rcv_loss_list) result option" where
  "rcl_remove_range seqno1 seqno2 s =
     bindo
       (if seqno1 \<le> seqno2
        then bindo (rcl_remove_each [seqno1..seqno2] s) (\<lambda>s. Some (if seqno2 = max_seq_no then Inl Undefined else Inr s))
        else bindo (rcl_remove_each [seqno1..max_seq_no - 1] s) (rcl_remove_each [0..seqno2]))
       (\<lambda>s. Some (Inr (True, s)))"

subsection \<open>Queries\<close>

definition rcl_find_once :: "int \<Rightarrow> int \<Rightarrow> rcv_loss_list \<Rightarrow> nat \<Rightarrow> int \<times> bool \<Rightarrow> (bool \<times> int \<times> bool) result" where
  "rcl_find_once seqno1 seqno2 s k st = (case st of (p, found) \<Rightarrow>
     if p = -1 then Inr (False, p, False)
     else
       bindr (rcl_get1 s p) (\<lambda>d.
       bindr (rcl_get2 s p) (\<lambda>e.
         if seqcmp d seqno1 = 0 \<or> (seqcmp d seqno1 > 0 \<and> seqcmp d seqno2 \<le> 0) \<or> (seqcmp d seqno1 < 0 \<and> e \<noteq> -1 \<and> seqcmp e seqno1 \<ge> 0)
         then Inr (False, p, True)
         else mapr (\<lambda>p. (True, p, False)) (rcl_get_next s p))))"

definition rcl_find :: "int \<Rightarrow> int \<Rightarrow> rcv_loss_list \<Rightarrow> bool result option" where
  "rcl_find seqno1 seqno2 s =
     (if rcl_length s = 0 then Some (Inr False)
      else bindo (loop_while (rcl_find_once seqno1 seqno2 s) 0 (rcl_head s, False)) (\<lambda>(p, found). Some (Inr found)))"

definition rcl_get_loss_length :: "rcv_loss_list \<Rightarrow> int" where
  "rcl_get_loss_length s = rcl_length s"

definition rcl_get_first_lost_seq :: "rcv_loss_list \<Rightarrow> int result" where
  "rcl_get_first_lost_seq s = (if rcl_length s = 0 then Inr (-1) else rcl_get1 s (rcl_head s))"

text \<open>\<open>getLossArray\<close> writes to the array of the caller, which holds \<open>cap\<close> numbers. An interval is two numbers, the first one with
  the flag \<open>0x80000000\<close>, which makes it negative.\<close>

definition loss_flag :: int where "loss_flag = - 0x80000000"

definition put_loss :: "int \<Rightarrow> int \<Rightarrow> int list \<Rightarrow> int list result" where
  "put_loss cap v out = (if int (length out) < cap then Inr (out @ [v]) else Inl Undefined)"

definition rcl_loss_array_once :: "int \<Rightarrow> int \<Rightarrow> rcv_loss_list \<Rightarrow> nat \<Rightarrow> int \<times> int list \<Rightarrow> (bool \<times> int \<times> int list) result" where
  "rcl_loss_array_once cap limit s k st = (case st of (i, out) \<Rightarrow>
     if int (length out) < limit - 1 \<and> i \<noteq> -1 then
       bindr (rcl_get1 s i) (\<lambda>d.
       bindr (rcl_get2 s i) (\<lambda>e.
       bindr (if e \<noteq> -1 then bindr (put_loss cap (d OR loss_flag) out) (put_loss cap e) else put_loss cap d out) (\<lambda>out.
       mapr (\<lambda>i. (True, i, out)) (rcl_get_next s i))))
     else Inr (False, i, out))"

definition rcl_get_loss_array :: "int \<Rightarrow> int \<Rightarrow> rcv_loss_list \<Rightarrow> int list result option" where
  "rcl_get_loss_array cap limit s =
     bindo (loop_while (rcl_loss_array_once cap limit s) 0 (rcl_head s, [])) (\<lambda>(i, out). Some (Inr out))"

subsection \<open>Lists that are linked in both directions\<close>

fun hd_of :: "int list \<Rightarrow> int" where
  "hd_of [] = -1"
| "hd_of (q # qs) = q"

definition linked :: "(int \<Rightarrow> int) \<Rightarrow> (int \<Rightarrow> int) \<Rightarrow> int \<Rightarrow> int \<Rightarrow> int list \<Rightarrow> bool" where
  "linked nx pr h t qs \<longleftrightarrow> path nx h qs (-1) \<and> (qs \<noteq> [] \<longrightarrow> path pr t (rev qs) (-1))"

lemma path_hd: "path nx h qs (-1) \<Longrightarrow> h = hd_of qs"
  by (cases qs) auto

lemma hd_of_append [simp]: "hd_of (xs @ ys) = (if xs = [] then hd_of ys else hd_of xs)"
  by (cases xs) auto

lemma hd_of_in: "qs \<noteq> [] \<Longrightarrow> hd_of qs \<in> set qs"
  by (cases qs) auto

lemma path_hd_iff: "path nx h qs (-1) \<longleftrightarrow> h = hd_of qs \<and> path nx (hd_of qs) qs (-1)"
  by (cases qs) auto

lemma linked_split:
  "linked nx pr h t (us @ q # vs) \<longleftrightarrow>
     path nx h us q \<and> nx q = hd_of vs \<and> path nx (hd_of vs) vs (-1) \<and>
     path pr t (rev vs) q \<and> pr q = hd_of (rev us) \<and> path pr (hd_of (rev us)) (rev us) (-1)"
  by (auto simp: linked_def path_append path_hd_iff [of nx "nx q"] path_hd_iff [of pr "pr q"])

text \<open>The last link of a path leads elsewhere.\<close>

lemma path_redirect: "path nx h us y \<Longrightarrow> distinct us \<Longrightarrow> us \<noteq> [] \<Longrightarrow> path (nx(hd_of (rev us) := z)) h us z"
  by (cases us rule: rev_cases) (auto simp: path_append path_update)

lemma path_join: "path nx h us (hd_of vs) \<Longrightarrow> path nx (hd_of vs) vs (-1) \<Longrightarrow> path nx h (us @ vs) (-1)"
  by (auto simp: path_append)

text \<open>A node is taken out, moves, or is followed by a new one.\<close>

lemma linked_unlink:
  assumes "linked nx pr h t (us @ q # vs)" and d: "distinct (us @ q # vs)"
  shows "linked (if us = [] then nx else nx(pr q := nx q)) (if vs = [] then pr else pr(nx q := pr q))
    (if us = [] then nx q else h) (if vs = [] then pr q else t) (us @ vs)"
proof -
  have l: "path nx h us q" "nx q = hd_of vs" "path nx (hd_of vs) vs (-1)" "path pr t (rev vs) q" "pr q = hd_of (rev us)"
    "path pr (hd_of (rev us)) (rev us) (-1)" using assms(1) by (simp_all add: linked_split)
  have o: "us \<noteq> [] \<Longrightarrow> hd_of (rev us) \<notin> set vs" "vs \<noteq> [] \<Longrightarrow> hd_of vs \<notin> set us"
    using d hd_of_in [of "rev us"] hd_of_in [of vs] by auto
  have "path (if us = [] then nx else nx(pr q := nx q)) (if us = [] then nx q else h) (us @ vs) (-1)"
    using l path_redirect [OF l(1), of "hd_of vs"] d o(1) by (cases "us = []") (auto intro!: path_join simp: path_update)
  moreover have "path (if vs = [] then pr else pr(nx q := pr q)) (if vs = [] then pr q else t) (rev vs @ rev us) (-1)"
    using l path_redirect [OF l(4), of "hd_of (rev us)"] d o(2) by (cases "vs = []") (auto intro!: path_join simp: path_update)
  ultimately show ?thesis by (simp add: linked_def)
qed

lemma linked_move:
  assumes "linked nx pr h t (us @ q # vs)" and d: "distinct (us @ q # vs)" and q': "q' \<notin> set (us @ q # vs)"
  shows "linked (if us = [] then nx(q' := nx q) else nx(q' := nx q, pr q := q')) (if vs = [] then pr(q' := pr q) else pr(q' := pr q, nx q := q'))
    (if us = [] then q' else h) (if vs = [] then q' else t) (us @ q' # vs)"
proof -
  have l: "path nx h us q" "nx q = hd_of vs" "path nx (hd_of vs) vs (-1)" "path pr t (rev vs) q" "pr q = hd_of (rev us)"
    "path pr (hd_of (rev us)) (rev us) (-1)" using assms(1) by (simp_all add: linked_split)
  have o: "us \<noteq> [] \<Longrightarrow> hd_of (rev us) \<notin> set vs \<and> hd_of (rev us) \<noteq> q'" "vs \<noteq> [] \<Longrightarrow> hd_of vs \<notin> set us \<and> hd_of vs \<noteq> q'"
    using d q' hd_of_in [of "rev us"] hd_of_in [of vs] by auto
  let ?nx = "if us = [] then nx(q' := nx q) else nx(q' := nx q, pr q := q')"
  let ?pr = "if vs = [] then pr(q' := pr q) else pr(q' := pr q, nx q := q')"
  have "path ?nx (if us = [] then q' else h) us q'" "?nx q' = hd_of vs" "path ?nx (hd_of vs) vs (-1)"
    using l path_redirect [of "nx(q' := nx q)" h us q q'] d q' o(1) by (cases "us = []"; simp add: path_update)+
  moreover have "path ?pr (if vs = [] then q' else t) (rev vs) q'" "?pr q' = hd_of (rev us)" "path ?pr (hd_of (rev us)) (rev us) (-1)"
    using l path_redirect [of "pr(q' := pr q)" t "rev vs" q q'] d q' o(2) by (cases "vs = []"; simp add: path_update)+
  ultimately show ?thesis by (simp add: linked_split)
qed

lemma linked_add:
  assumes "linked nx pr h t (us @ q # vs)" and d: "distinct (us @ q # vs)" and q': "q' \<notin> set (us @ q # vs)"
  shows "linked (nx(q' := nx q, q := q')) (if vs = [] then pr(q' := q) else pr(q' := q, nx q := q'))
    h (if vs = [] then q' else t) (us @ q # q' # vs)"
proof -
  have l: "path nx h us q" "nx q = hd_of vs" "path nx (hd_of vs) vs (-1)" "path pr t (rev vs) q" "pr q = hd_of (rev us)"
    "path pr (hd_of (rev us)) (rev us) (-1)" using assms(1) by (simp_all add: linked_split)
  have o: "vs \<noteq> [] \<Longrightarrow> hd_of vs \<notin> set us \<and> hd_of vs \<noteq> q' \<and> hd_of vs \<noteq> q" using d q' hd_of_in [of vs] by auto
  let ?nx = "nx(q' := nx q, q := q')"
  let ?pr = "if vs = [] then pr(q' := q) else pr(q' := q, nx q := q')"
  have n: "path ?nx h us q" "?nx q = q'" "?nx q' = hd_of vs" "path ?nx (hd_of vs) vs (-1)"
    using l d q' by (simp_all add: path_update)
  have p: "path ?pr (if vs = [] then q' else t) (rev vs) q'" "?pr q' = q" "?pr q = hd_of (rev us)" "path ?pr (hd_of (rev us)) (rev us) (-1)"
    using l path_redirect [of "pr(q' := q)" t "rev vs" q q'] d q' o by (cases "vs = []"; simp add: path_update)+
  have "path ?nx h (us @ [q]) q'" using n by (auto simp: path_append)
  moreover have "path ?pr (hd_of (rev (us @ [q]))) (rev (us @ [q])) (-1)" using p by simp
  ultimately have "linked ?nx ?pr h (if vs = [] then q' else t) ((us @ [q]) @ q' # vs)"
    using n p unfolding linked_split by simp
  then show ?thesis by simp
qed

subsection \<open>The nodes of a list and their cells\<close>

definition cells :: "int \<Rightarrow> int \<Rightarrow> (int \<times> int) list \<Rightarrow> (int \<Rightarrow> int) \<Rightarrow> (int \<Rightarrow> int) \<Rightarrow> bool" where
  "cells k n ns d1 d2 \<longleftrightarrow> (\<forall>q. 0 \<le> q \<and> q < n \<longrightarrow> d1 q = first_no (node_at k n ns q) \<and> d2 q = last_no (node_at k n ns q))"

lemma cells_put:
  "cells k n (xs @ ys) d1 d2 \<Longrightarrow> in_window b n (xs @ (a, e) # ys) \<Longrightarrow>
     cells k n (xs @ (a, e) # ys) (d1(ring k n a := seq_no a)) (d2(ring k n a := if a = e then -1 else seq_no e))"
  unfolding cells_def node_at_middle(1) by simp

lemma cells_drop:
  "cells k n (xs @ (a, e) # ys) d1 d2 \<Longrightarrow> in_window b n (xs @ (a, e) # ys) \<Longrightarrow>
     cells k n (xs @ ys) (d1(ring k n a := -1)) (d2(ring k n a := -1))"
  unfolding cells_def node_at_middle(1) using node_at_middle(2) [of b n xs a e ys k] by simp

lemma cells_node:
  assumes "cells k n (xs @ (a, e) # ys) d1 d2" and "in_window b n (xs @ (a, e) # ys)" and "0 < n"
  shows "d1 (ring k n a) = seq_no a" and "d2 (ring k n a) = (if a = e then -1 else seq_no e)"
  using assms(1,3) unfolding cells_def node_at_middle(1) [OF assms(2)] by simp_all

lemma cells_empty:
  assumes "cells k n ns d1 d2" and "in_window b n ns" and "b \<le> x" "x < b + n" "x \<notin> fst ` set ns"
  shows "d1 (ring k n x) = -1" and "d2 (ring k n x) = -1"
  using assms node_at_None [OF places_notin [OF assms(2-5)], of k] by (simp_all add: cells_def)

lemma distinct_places: "in_window b n ns \<Longrightarrow> distinct (places k n ns)"
proof (induction ns)
  case (Cons y ns)
  obtain a e where y: "y = (a, e)" by (cases y)
  with Cons places_notin [of b n ns a k] show ?case by fastforce
qed simp

lemma places_eq_Nil [simp]: "places k n ns = [] \<longleftrightarrow> ns = []"
  by (simp add: places_def)

lemma hd_of_places: "0 < n \<Longrightarrow> ns \<noteq> [] \<Longrightarrow> 0 \<le> hd_of (places k n ns) \<and> hd_of (places k n ns) < n"
  by (cases ns) auto

lemma hd_of_rev_places: "0 < n \<Longrightarrow> ns \<noteq> [] \<Longrightarrow> 0 \<le> hd_of (rev (places k n ns)) \<and> hd_of (rev (places k n ns)) < n"
  by (cases ns rule: rev_cases) auto

lemma linked_Nil [simp]: "linked nx pr h t [] \<longleftrightarrow> h = -1"
  by (simp add: linked_def)

subsection \<open>What a list represents\<close>

definition rcl_rep :: "int \<Rightarrow> int \<Rightarrow> (int \<times> int) list \<Rightarrow> rcv_loss_list \<Rightarrow> bool" where
  "rcl_rep b k ns s \<longleftrightarrow> 0 < rcl_size s \<and> rcl_size s \<le> 2 ^ 29 \<and> in_window b (rcl_size s) ns \<and> apart ns \<and>
     linked (rcl_next s) (rcl_prior s) (rcl_head s) (rcl_tail s) (places k (rcl_size s) ns) \<and>
     cells k (rcl_size s) ns (rcl_data1 s) (rcl_data2 s) \<and> rcl_length s = total_len ns"

lemma rcl_access:
  "0 \<le> i \<Longrightarrow> i < rcl_size s \<Longrightarrow> rcl_get1 s i = Inr (rcl_data1 s i)"
  "0 \<le> i \<Longrightarrow> i < rcl_size s \<Longrightarrow> rcl_get2 s i = Inr (rcl_data2 s i)"
  "0 \<le> i \<Longrightarrow> i < rcl_size s \<Longrightarrow> rcl_get_next s i = Inr (rcl_next s i)"
  "0 \<le> i \<Longrightarrow> i < rcl_size s \<Longrightarrow> rcl_get_prior s i = Inr (rcl_prior s i)"
  "0 \<le> i \<Longrightarrow> i < rcl_size s \<Longrightarrow> rcl_set1 i v s = Inr (s\<lparr>rcl_data1 := (rcl_data1 s)(i := v)\<rparr>)"
  "0 \<le> i \<Longrightarrow> i < rcl_size s \<Longrightarrow> rcl_set2 i v s = Inr (s\<lparr>rcl_data2 := (rcl_data2 s)(i := v)\<rparr>)"
  "0 \<le> i \<Longrightarrow> i < rcl_size s \<Longrightarrow> rcl_set_next i v s = Inr (s\<lparr>rcl_next := (rcl_next s)(i := v)\<rparr>)"
  "0 \<le> i \<Longrightarrow> i < rcl_size s \<Longrightarrow> rcl_set_prior i v s = Inr (s\<lparr>rcl_prior := (rcl_prior s)(i := v)\<rparr>)"
  by (simp_all add: rcl_get1_def rcl_get2_def rcl_get_next_def rcl_get_prior_def rcl_set1_def rcl_set2_def rcl_set_next_def
      rcl_set_prior_def cell_def set_cell_def)

lemma rcl_rep_node:
  assumes "rcl_rep b k (xs @ (a, e) # ys) s" and n: "n = rcl_size s"
  shows "rcl_data1 s (ring k n a) = seq_no a" "rcl_data2 s (ring k n a) = (if a = e then -1 else seq_no e)"
    "rcl_next s (ring k n a) = hd_of (places k n ys)" "rcl_prior s (ring k n a) = hd_of (rev (places k n xs))"
    "(rcl_head s = ring k n a) = (xs = [])" "(rcl_tail s = ring k n a) = (ys = [])"
proof -
  have r: "0 < n" "in_window b n (xs @ (a, e) # ys)" "cells k n (xs @ (a, e) # ys) (rcl_data1 s) (rcl_data2 s)"
    "linked (rcl_next s) (rcl_prior s) (rcl_head s) (rcl_tail s) (places k n xs @ ring k n a # places k n ys)"
    using assms by (simp_all add: rcl_rep_def)
  have d: "distinct (places k n xs @ ring k n a # places k n ys)" using distinct_places [OF r(2), of k] by simp
  show "rcl_data1 s (ring k n a) = seq_no a" "rcl_data2 s (ring k n a) = (if a = e then -1 else seq_no e)"
    using cells_node [OF r(3,2,1)] by simp_all
  show "rcl_next s (ring k n a) = hd_of (places k n ys)" "rcl_prior s (ring k n a) = hd_of (rev (places k n xs))"
    using r(4) by (simp_all add: linked_split)
  have "rcl_head s = hd_of (places k n xs @ [ring k n a])" "rcl_tail s = hd_of (rev (places k n ys) @ [ring k n a])"
    using r(4) by (auto simp: linked_def dest!: path_hd)
  then show "(rcl_head s = ring k n a) = (xs = [])" "(rcl_tail s = ring k n a) = (ys = [])"
    using d hd_of_in [of "places k n xs"] hd_of_in [of "rev (places k n ys)"] by (auto split: if_splits)
qed

lemma cells_grow:
  assumes "cells k n (xs @ (a, e) # ys) d1 d2" and "in_window b n (xs @ (a, e) # ys)" and "in_window b n (xs @ (a, m) # ys)" and "0 < n"
  shows "cells k n (xs @ (a, m) # ys) d1 (d2(ring k n a := if a = m then -1 else seq_no m))"
  using cells_put [OF cells_drop [OF assms(1,2)] assms(3)] cells_node(1) [OF assms(1,2,4)] by (simp add: fun_upd_idem)

lemma rcl_rep_size: "rcl_rep b k ns s \<Longrightarrow> 0 < rcl_size s \<and> rcl_size s \<le> 536870912"
  by (simp add: rcl_rep_def)

lemma rcl_rep_nil: "rcl_rep b k ns s \<Longrightarrow> rcl_length s = 0 \<longleftrightarrow> ns = []"
  using total_len_pos [of b "rcl_size s" ns] by (cases "ns = []") (simp_all add: rcl_rep_def)

lemma rcl_insert_empty:
  assumes rep: "rcl_rep b k [] s" and n: "n = rcl_size s" and "x \<le> y" "b \<le> x" "y < b + n"
  shows "\<exists>t. rcl_insert (seq_no x) (seq_no y) s = Inr t \<and> rcl_rep b (-x) [(x, y)] t \<and> rcl_size t = n"
proof -
  have n0: "0 < n" "n \<le> 536870912" using rcl_rep_size [OF rep] n by simp_all
  have z: "ring (-x) n x = 0" by (simp add: ring_def)
  have c: "cells (-x) n ([] @ []) (rcl_data1 s) (rcl_data2 s)" using rep n by (simp add: rcl_rep_def cells_def)
  have wi: "in_window b n ([] @ (x, y) # [])" using assms by simp
  have c': "cells (-x) n [(x, y)] ((rcl_data1 s)(0 := seq_no x)) ((rcl_data2 s)(0 := if x = y then -1 else seq_no y))"
    using cells_put [OF c wi] by (simp add: z)
  have d2: "rcl_data2 s 0 = -1" using c n0 by (simp add: cells_def)
  have eq: "seq_no y = seq_no x \<longleftrightarrow> x = y" "seqlen (seq_no x) (seq_no y) = y - x + 1"
    using assms(3-5) n0 seq_no_eq_near [OF near_window, of y x] seqlen_near [OF near_window, of x y] by auto
  have "rcl_length s = 0" using rep by (simp add: rcl_rep_def)
  then show ?thesis using c' d2 n0 wi z
    by (auto simp: rcl_insert_def rcl_put_node_def rcl_access n [symmetric] eq rcl_rep_def rcl_add_length_def linked_def fun_upd_idem)
qed

lemma rcl_insert_append:
  assumes rep: "rcl_rep b k ns s" and ns: "ns = zs @ [(a, e)]" and n: "n = rcl_size s" and "x \<le> y" "e < x" "y < b + n"
  shows "\<exists>t ns'. rcl_insert (seq_no x) (seq_no y) s = Inr t \<and> rcl_rep b k ns' t \<and> cover ns' = cover ns \<union> {x..y} \<and> rcl_size t = n"
proof -
  have n0: "0 < n" "n \<le> 536870912" using rcl_rep_size [OF rep] n by simp_all
  have w: "in_window b n ns" "apart ns" "cells k n ns (rcl_data1 s) (rcl_data2 s)"
    "linked (rcl_next s) (rcl_prior s) (rcl_head s) (rcl_tail s) (places k n ns)" "rcl_length s = total_len ns"
    using rep n by (simp_all add: rcl_rep_def)
  have a: "b \<le> a" "a \<le> e" "e < b + n" using w(1) ns by simp_all
  obtain c f ws where hd: "ns = [] @ (c, f) # ws" using ns by (metis append_Nil list.exhaust snoc_eq_iff_butlast surj_pair)
  have c: "b \<le> c" "c < x" using hd ns w(1) a(2) assms(5) by (cases zs; force)+
  note h = rcl_rep_node [OF rep [unfolded hd] n] and t = rcl_rep_node [OF rep [unfolded ns] n]
  have loc: "(ring k n c + seqoff (seq_no c) (seq_no x)) smod n = ring k n x"
    using c assms(4,6) n0 ring_smod0 [OF n0(1), of c x k] by (simp add: seqoff_near [OF near_window])
  have eq: "seq_no y = seq_no x \<longleftrightarrow> x = y" "seqlen (seq_no x) (seq_no y) = y - x + 1" "incseq (seq_no e) = seq_no x \<longleftrightarrow> e + 1 = x"
    using assms(4-6) a c n0 seq_no_eq_near [OF near_window, of y x] seqlen_near [OF near_window, of x y]
      seq_no_eq_near [OF near_window, of "e + 1" x] by auto
  have len: "rcl_length s \<noteq> 0" using rcl_rep_nil [OF rep] ns by simp
  have x: "x \<notin> fst ` set ns" using assms(5) ns w(1) a(2) by auto
  note notin = places_notin [OF w(1) _ _ x, of k]
  show ?thesis
  proof (cases "a \<noteq> e \<and> e + 1 = x")
    case True
    have "in_window b n (zs @ [(a, y)])" using w(1) ns True assms(4,6) by auto
    with cells_grow [of k n zs a e "[]" _ _ b y] w ns n0 have
      "cells k n (zs @ [(a, y)]) (rcl_data1 s) ((rcl_data2 s)(ring k n a := if a = y then -1 else seq_no y))" by simp
    moreover have "apart (zs @ [(a, y)])" using w(2) ns True assms(4) by auto
    moreover have "a \<noteq> y" using True assms a by simp
    ultimately have "rcl_rep b k (zs @ [(a, y)]) (s\<lparr>rcl_data2 := (rcl_data2 s)(ring k n a := seq_no y), rcl_length := rcl_length s + (y - x + 1)\<rparr>)"
      using rep n w(5) ns True \<open>in_window b n (zs @ [(a, y)])\<close> by (simp add: rcl_rep_def)
    moreover have "cover (zs @ [(a, y)]) = cover ns \<union> {x..y}" using True assms(4) a ns by auto
    ultimately show ?thesis using True len h t loc eq n n0
      by (intro exI [of _ "s\<lparr>rcl_data2 := (rcl_data2 s)(ring k n a := seq_no y), rcl_length := rcl_length s + (y - x + 1)\<rparr>"] exI [of _ "zs @ [(a, y)]"])
        (simp add: rcl_insert_def rcl_access rcl_add_length_def)
  next
    case False
    let ?t = "s\<lparr>rcl_data1 := (rcl_data1 s)(ring k n x := seq_no x), rcl_data2 := (rcl_data2 s)(ring k n x := if x = y then -1 else seq_no y),
          rcl_next := (rcl_next s)(ring k n a := ring k n x, ring k n x := -1), rcl_prior := (rcl_prior s)(ring k n x := ring k n a),
          rcl_tail := ring k n x, rcl_length := rcl_length s + (y - x + 1)\<rparr>"
    have w': "in_window b n (ns @ (x, y) # [])" using w(1) ns a assms(4-6) by fastforce
    have x': "ring k n x \<notin> set (places k n ns)" using notin c a assms(4-6) by simp
    have "cells k n (ns @ [(x, y)]) ((rcl_data1 s)(ring k n x := seq_no x)) ((rcl_data2 s)(ring k n x := if x = y then -1 else seq_no y))"
      using cells_put [of k n ns "[]" _ _ b x y] w(3) w' by simp
    moreover have d2: "rcl_data2 s (ring k n x) = -1" using cells_empty(2) [OF w(3,1) _ _ x] c assms(4,6) by simp
    moreover have "linked ((rcl_next s)(ring k n a := ring k n x, ring k n x := -1)) ((rcl_prior s)(ring k n x := ring k n a)) (rcl_head s) (ring k n x)
        (places k n (ns @ [(x, y)]))"
      using linked_add [of "rcl_next s" "rcl_prior s" "rcl_head s" "rcl_tail s" "places k n zs" "ring k n a" "[]" "ring k n x"]
        w(4) x' ns t(3) distinct_places [OF w(1), of k] fun_upd_twist [of "ring k n a" "ring k n x" "rcl_next s" "ring k n x" "-1"] by auto
    moreover have "apart (ns @ [(x, y)])" "cover (ns @ [(x, y)]) = cover ns \<union> {x..y}" using w(2) ns assms(5) a by auto
    ultimately have "rcl_rep b k (ns @ [(x, y)]) ?t" "cover (ns @ [(x, y)]) = cover ns \<union> {x..y}"
      using n n0 w(5) w' by (simp_all add: rcl_rep_def)
    moreover have "rcl_insert (seq_no x) (seq_no y) s = Inr ?t"
    proof -
      have i: "0 \<le> rcl_head s" "rcl_head s < n" "0 \<le> rcl_tail s" "rcl_tail s < n" "rcl_head s = ring k n c" "rcl_tail s = ring k n a"
        using h(5) t(6) n0 by auto
      have "rcl_data2 s (ring k n a) \<noteq> -1 \<and> incseq (rcl_data2 s (ring k n a)) = seq_no x \<longleftrightarrow> a \<noteq> e \<and> e + 1 = x" using t(2) eq(3) by simp
      then have "\<not> (rcl_data2 s (ring k n a) \<noteq> -1 \<and> incseq (rcl_data2 s (ring k n a)) = seq_no x)" using False by simp
      then show ?thesis using d2 len h(1) loc eq(1,2) i n0
        by (cases "x = y") (simp_all add: rcl_insert_def rcl_append_node_def rcl_put_node_def rcl_access rcl_add_length_def n [symmetric] fun_upd_idem, blast+)
    qed
    moreover have "rcl_size ?t = n" using n by simp
    ultimately show ?thesis by blast
  qed
qed

subsection \<open>Removal\<close>

lemma rcl_repD:
  assumes "rcl_rep b k ns s" and "n = rcl_size s"
  shows "0 < n" "n \<le> 536870912" "in_window b n ns" "apart ns" "cells k n ns (rcl_data1 s) (rcl_data2 s)"
    "linked (rcl_next s) (rcl_prior s) (rcl_head s) (rcl_tail s) (places k n ns)" "rcl_length s = total_len ns"
  using assms by (simp_all add: rcl_rep_def)

lemma rcl_repI:
  assumes "0 < n" "n \<le> 536870912" "in_window b n ns" "apart ns" "cells k n ns d1 d2" "linked nx pr h t (places k n ns)"
    "rcl_length s = total_len ns + 1" "rcl_size s = n"
  shows "rcl_rep b k ns (rcl_add_length (-1) (s\<lparr>rcl_data1 := d1, rcl_data2 := d2, rcl_next := nx, rcl_prior := pr, rcl_head := h, rcl_tail := t\<rparr>))"
    and "d2 = rcl_data2 s \<Longrightarrow> rcl_rep b k ns (rcl_add_length (-1) (s\<lparr>rcl_data1 := d1, rcl_next := nx, rcl_prior := pr, rcl_head := h, rcl_tail := t\<rparr>))"
  using assms by (simp_all add: rcl_rep_def rcl_add_length_def)

text \<open>The index of the neighbours of a node.\<close>

lemma place_neighbour:
  assumes "in_window b n (xs @ (a, e) # ys)" and "0 < n"
  shows "xs \<noteq> [] \<Longrightarrow> 0 \<le> hd_of (rev (places k n xs)) \<and> hd_of (rev (places k n xs)) < n \<and> hd_of (rev (places k n xs)) \<noteq> ring k n a \<and> hd_of (rev (places k n xs)) \<noteq> -1"
    and "ys \<noteq> [] \<Longrightarrow> 0 \<le> hd_of (places k n ys) \<and> hd_of (places k n ys) < n \<and> hd_of (places k n ys) \<noteq> ring k n a \<and> hd_of (places k n ys) \<noteq> -1"
  using hd_of_rev_places [OF assms(2), of xs k] hd_of_places [OF assms(2), of ys k] distinct_places [OF assms(1), of k]
    hd_of_in [of "rev (places k n xs)"] hd_of_in [of "places k n ys"] by fastforce+

text \<open>The steps of the code on links that are within the arrays.\<close>

definition at_node :: "rcv_loss_list \<Rightarrow> int \<Rightarrow> int \<Rightarrow> int \<Rightarrow> bool" where
  "at_node s q p m \<longleftrightarrow> 0 \<le> q \<and> q < rcl_size s \<and> rcl_prior s q = p \<and> rcl_next s q = m \<and>
     (rcl_head s \<noteq> q \<longrightarrow> 0 \<le> p \<and> p < rcl_size s \<and> p \<noteq> q \<and> q \<noteq> p) \<and> (rcl_head s = q \<longrightarrow> p = -1) \<and>
     (rcl_tail s \<noteq> q \<longrightarrow> 0 \<le> m \<and> m < rcl_size s \<and> m \<noteq> q \<and> q \<noteq> m \<and> m \<noteq> -1) \<and> (rcl_tail s = q \<longrightarrow> m = -1)"

lemma rcl_rep_at:
  assumes "rcl_rep b k (xs @ (a, e) # ys) s" and n: "n = rcl_size s"
  shows "at_node s (ring k n a) (hd_of (rev (places k n xs))) (hd_of (places k n ys))"
  using rcl_rep_node [OF assms] place_neighbour [OF rcl_repD(3,1) [OF assms], of k] rcl_repD(1) [OF assms] n [symmetric]
  unfolding at_node_def by (cases "xs = []"; cases "ys = []") force+

lemma rcl_unlink_exec:
  assumes "at_node s q p m"
  shows "rcl_unlink q s = Inr (s\<lparr>rcl_data1 := (rcl_data1 s)(q := -1),
      rcl_next := if rcl_head s = q then rcl_next s else (rcl_next s)(p := m),
      rcl_prior := if rcl_tail s = q then rcl_prior s else (rcl_prior s)(m := p),
      rcl_head := if rcl_head s = q then m else rcl_head s,
      rcl_tail := if rcl_tail s = q \<and> rcl_head s \<noteq> q then p else rcl_tail s\<rparr>)"
  using assms unfolding at_node_def
  by (cases "rcl_head s = q"; cases "rcl_tail s = q") (simp_all add: rcl_unlink_def rcl_access)

lemma rcl_unlink_spec:
  assumes rep: "rcl_rep b k (xs @ (a, a) # ys) s" and n: "n = rcl_size s"
  shows "\<exists>t. rcl_unlink (ring k n a) s = Inr t \<and> rcl_rep b k (xs @ ys) (rcl_add_length (-1) t) \<and> rcl_size t = n"
proof -
  note r = rcl_repD [OF rep n] and g = rcl_rep_node [OF rep n]
  let ?q = "ring k n a" and ?p = "hd_of (rev (places k n xs))" and ?m = "hd_of (places k n ys)"
  have c: "cells k n (xs @ ys) ((rcl_data1 s)(?q := -1)) (rcl_data2 s)"
    using cells_drop [OF r(5,3)] g(2) by (simp add: fun_upd_idem)
  have w: "in_window b n (xs @ ys)" "apart (xs @ ys)" using r(3,4) by fastforce+
  have "linked (if xs = [] then rcl_next s else (rcl_next s)(?p := ?m)) (if ys = [] then rcl_prior s else (rcl_prior s)(?m := ?p))
      (if xs = [] then ?m else rcl_head s) (if ys = [] \<and> xs \<noteq> [] then ?p else rcl_tail s) (places k n (xs @ ys))"
    using linked_unlink [of "rcl_next s" "rcl_prior s" "rcl_head s" "rcl_tail s" "places k n xs" ?q "places k n ys"] r(6) distinct_places [OF r(3), of k] g(3,4)
    by (cases "xs = []"; cases "ys = []") simp_all
  from rcl_repI(2) [OF r(1,2) w c this, of s] show ?thesis
    using rcl_unlink_exec [OF rcl_rep_at [OF rep n]] r(7) n g(5,6) by simp
qed

lemma rcl_shift_exec:
  assumes "at_node s q p m" and "i = (q + 1) smod rcl_size s" "0 \<le> i" "i < rcl_size s" "i \<noteq> q" "i \<noteq> p" "i \<noteq> m"
    and "rcl_data1 s q = d" "rcl_data2 s q = e" "v = (if seqcmp e (incseq d) > 0 then e else rcl_data2 s i)"
  shows "rcl_shift q s = Inr (s\<lparr>rcl_data1 := (rcl_data1 s)(i := incseq d, q := -1), rcl_data2 := (rcl_data2 s)(i := v, q := -1),
      rcl_next := if rcl_head s = q then (rcl_next s)(i := m) else (rcl_next s)(i := m, p := i),
      rcl_prior := if rcl_tail s = q then (rcl_prior s)(i := p) else (rcl_prior s)(i := p, m := i),
      rcl_head := if rcl_head s = q then i else rcl_head s, rcl_tail := if rcl_tail s = q then i else rcl_tail s\<rparr>)"
  using assms(1,3-10) unfolding at_node_def
  by (cases "rcl_head s = q"; cases "rcl_tail s = q"; cases "seqcmp e (incseq d) > 0") (simp_all add: rcl_shift_def assms(2) [symmetric] rcl_access)

lemma rcl_shift_spec:
  assumes rep: "rcl_rep b k (xs @ (a, e) # ys) s" and n: "n = rcl_size s" and "a < e"
  shows "\<exists>t. rcl_shift (ring k n a) s = Inr t \<and> rcl_rep b k (xs @ (a + 1, e) # ys) (rcl_add_length (-1) t) \<and> rcl_size t = n"
proof -
  note r = rcl_repD [OF rep n] and g = rcl_rep_node [OF rep n]
  let ?q = "ring k n a" and ?i = "ring k n (a + 1)" and ?p = "hd_of (rev (places k n xs))" and ?m = "hd_of (places k n ys)"
  have a: "b \<le> a" "a + 1 < b + n" "e < b + n" "a + 1 \<notin> fst ` set (xs @ (a, e) # ys)" "in_window b n (xs @ (a + 1, e) # ys)"
    "apart (xs @ (a + 1, e) # ys)"
    using r(3,4) assms(3) by fastforce+
  have i: "?i \<notin> set (places k n (xs @ (a, e) # ys))" by (rule places_notin [OF r(3) _ a(2,4)]) (use a in simp)
  have ne: "?i \<noteq> ?q" "?i \<noteq> ?p" "?i \<noteq> ?m"
    using i r(1) hd_of_in [of "rev (places k n xs)"] hd_of_in [of "places k n ys"] by (cases "xs = []"; cases "ys = []"; force)+
  have e': "rcl_data2 s ?i = -1" using cells_empty(2) [OF r(5,3) _ a(2,4)] a(1) by simp
  have c: "cells k n (xs @ (a + 1, e) # ys) ((rcl_data1 s)(?i := seq_no (a + 1), ?q := -1))
      ((rcl_data2 s)(?i := if a + 1 = e then -1 else seq_no e, ?q := -1))"
    using cells_put [OF cells_drop [OF r(5,3)] a(5)] ne(1) by (simp only: fun_upd_twist [OF ne(1)])
  have "linked (if xs = [] then (rcl_next s)(?i := ?m) else (rcl_next s)(?i := ?m, ?p := ?i)) (if ys = [] then (rcl_prior s)(?i := ?p) else (rcl_prior s)(?i := ?p, ?m := ?i))
      (if xs = [] then ?i else rcl_head s) (if ys = [] then ?i else rcl_tail s) (places k n (xs @ (a + 1, e) # ys))"
    using linked_move [of "rcl_next s" "rcl_prior s" "rcl_head s" "rcl_tail s" "places k n xs" ?q "places k n ys" ?i] r(6) distinct_places [OF r(3), of k] i g(3,4)
    by (cases "xs = []"; cases "ys = []") simp_all
  from rcl_repI(1) [OF r(1,2) a(5,6) c this, of s] have
    rep': "rcl_rep b k (xs @ (a + 1, e) # ys) (rcl_add_length (-1) (s\<lparr>rcl_data1 := (rcl_data1 s)(?i := seq_no (a + 1), ?q := -1),
      rcl_data2 := (rcl_data2 s)(?i := if a + 1 = e then -1 else seq_no e, ?q := -1),
      rcl_next := if xs = [] then (rcl_next s)(?i := ?m) else (rcl_next s)(?i := ?m, ?p := ?i),
      rcl_prior := if ys = [] then (rcl_prior s)(?i := ?p) else (rcl_prior s)(?i := ?p, ?m := ?i),
      rcl_head := if xs = [] then ?i else rcl_head s, rcl_tail := if ys = [] then ?i else rcl_tail s\<rparr>))"
    using r(7) n by simp
  have v: "(if a + 1 = e then -1 else seq_no e) = (if seqcmp (seq_no e) (incseq (seq_no a)) > 0 then seq_no e else rcl_data2 s ?i)"
    using assms(3) a r(1,2) seqcmp_near(3) [OF near_window, of e "a + 1"] e' by auto
  have x: "?i = (?q + 1) smod rcl_size s" "0 \<le> ?i" "?i < rcl_size s" "rcl_data2 s ?q = seq_no e"
    using r(1) n g(2) assms(3) by (simp_all add: ring_smod1)
  have "rcl_size (s\<lparr>rcl_data1 := d1, rcl_data2 := d2, rcl_next := nx, rcl_prior := pr, rcl_head := h, rcl_tail := t\<rparr>) = n" for d1 d2 nx pr h t
    using n by simp
  with rcl_shift_exec [OF rcl_rep_at [OF rep n] x(1-3) ne g(1) x(4) v, unfolded g(5,6) incseq_no] rep' show ?thesis by blast
qed

lemma rcl_shorten_spec:
  assumes rep: "rcl_rep b k (xs @ (a, e) # ys) s" and n: "n = rcl_size s" and "a < e"
  shows "\<exists>t. rcl_shorten (ring k n a) (seq_no e) s = Inr t \<and> rcl_rep b k (xs @ (a, e - 1) # ys) (rcl_add_length (-1) t) \<and> rcl_size t = n"
proof -
  note r = rcl_repD [OF rep n] and g = rcl_rep_node [OF rep n]
  have w: "in_window b n (xs @ (a, e - 1) # ys)" "apart (xs @ (a, e - 1) # ys)" "b \<le> a" "e < b + n" using r(3,4) assms(3) by fastforce+
  have eq: "seq_no e = seq_no (a + 1) \<longleftrightarrow> a = e - 1"
    using assms(3) w r(2) seq_no_eq_near [OF near_window, of e "a + 1"] by auto
  let ?t = "s\<lparr>rcl_data2 := (rcl_data2 s)(ring k n a := if a = e - 1 then -1 else seq_no (e - 1))\<rparr>"
  have "rcl_shorten (ring k n a) (seq_no e) s = Inr ?t"
    using g(1) r(1) n by (simp add: rcl_shorten_def rcl_access eq)
  moreover have "linked (rcl_next s) (rcl_prior s) (rcl_head s) (rcl_tail s) (places k n (xs @ (a, e - 1) # ys))" using r(6) by simp
  with cells_grow [OF r(5,3) w(1) r(1)] w(1,2) r(1,2,7) n have "rcl_rep b k (xs @ (a, e - 1) # ys) (rcl_add_length (-1) ?t)"
    unfolding rcl_rep_def rcl_add_length_def by simp
  moreover have "rcl_size ?t = n" using n by simp
  ultimately show ?thesis by blast
qed

lemma rcl_split_exec:
  assumes "at_node s q p m" and "i = (j + 1) smod rcl_size s" "0 \<le> i" "i < rcl_size s" "i \<noteq> q" "q \<noteq> i" "i \<noteq> m"
    and "rcl_data1 s q = d" "rcl_data2 s q = e" "v = (if seqcmp e (incseq x) > 0 then e else rcl_data2 s i)"
  shows "rcl_split q j x s = Inr (s\<lparr>rcl_data1 := (rcl_data1 s)(i := incseq x), rcl_data2 := (rcl_data2 s)(i := v, q := if x = incseq d then -1 else decseq x),
      rcl_next := (rcl_next s)(i := m, q := i), rcl_prior := if rcl_tail s = q then (rcl_prior s)(i := q) else (rcl_prior s)(i := q, m := i),
      rcl_tail := if rcl_tail s = q then i else rcl_tail s\<rparr>)"
  using assms(1,3-10) unfolding at_node_def
  by (cases "rcl_tail s = q"; cases "seqcmp e (incseq x) > 0") (simp_all add: rcl_split_def rcl_shorten_def assms(2) [symmetric] rcl_access)

lemma rcl_split_spec:
  assumes rep: "rcl_rep b k (xs @ (a, e) # ys) s" and n: "n = rcl_size s" and "a < x" "x < e"
  shows "\<exists>t. rcl_split (ring k n a) (ring k n x) (seq_no x) s = Inr t \<and>
    rcl_rep b k (xs @ (a, x - 1) # (x + 1, e) # ys) (rcl_add_length (-1) t) \<and> rcl_size t = n"
proof -
  note r = rcl_repD [OF rep n] and g = rcl_rep_node [OF rep n]
  let ?q = "ring k n a" and ?i = "ring k n (x + 1)" and ?p = "hd_of (rev (places k n xs))" and ?m = "hd_of (places k n ys)"
  have a: "b \<le> a" "x + 1 < b + n" "e < b + n" "x + 1 \<notin> fst ` set (xs @ (a, e) # ys)"
    "in_window b n ((xs @ [(a, x - 1)]) @ (x + 1, e) # ys)" "apart (xs @ (a, x - 1) # (x + 1, e) # ys)" "in_window b n (xs @ (a, x - 1) # ys)"
    using r(3,4) assms(3,4) by fastforce+
  have i: "?i \<notin> set (places k n (xs @ (a, e) # ys))" by (rule places_notin [OF r(3) _ a(2,4)]) (use a assms(3) in simp)
  have ne: "?i \<noteq> ?q" "?q \<noteq> ?i" "?i \<noteq> ?m"
    using i r(1) hd_of_in [of "places k n ys"] by (cases "ys = []"; force)+
  have e': "rcl_data2 s ?i = -1" using cells_empty(2) [OF r(5,3) _ a(2,4)] a(1) assms(3) by simp
  have "cells k n (xs @ [(a, x - 1)] @ ys) (rcl_data1 s) ((rcl_data2 s)(?q := if a = x - 1 then -1 else seq_no (x - 1)))"
    using cells_grow [OF r(5,3) a(7) r(1)] by simp
  with cells_put [of k n "xs @ [(a, x - 1)]" ys _ _ b "x + 1" e] a(5)
  have c: "cells k n (xs @ (a, x - 1) # (x + 1, e) # ys) ((rcl_data1 s)(?i := seq_no (x + 1)))
      ((rcl_data2 s)(?i := if x + 1 = e then -1 else seq_no e, ?q := if a = x - 1 then -1 else seq_no (x - 1)))"
    by (simp add: fun_upd_twist [OF ne(1)])
  have "linked ((rcl_next s)(?i := ?m, ?q := ?i)) (if ys = [] then (rcl_prior s)(?i := ?q) else (rcl_prior s)(?i := ?q, ?m := ?i))
      (rcl_head s) (if ys = [] then ?i else rcl_tail s) (places k n (xs @ (a, x - 1) # (x + 1, e) # ys))"
    using linked_add [of "rcl_next s" "rcl_prior s" "rcl_head s" "rcl_tail s" "places k n xs" ?q "places k n ys" ?i] r(6) distinct_places [OF r(3), of k] i g(3)
    by (cases "ys = []") simp_all
  with r(1,2,7) a(5,6) c n have
    rep': "rcl_rep b k (xs @ (a, x - 1) # (x + 1, e) # ys) (rcl_add_length (-1) (s\<lparr>rcl_data1 := (rcl_data1 s)(?i := seq_no (x + 1)),
      rcl_data2 := (rcl_data2 s)(?i := if x + 1 = e then -1 else seq_no e, ?q := if a = x - 1 then -1 else seq_no (x - 1)),
      rcl_next := (rcl_next s)(?i := ?m, ?q := ?i), rcl_prior := if ys = [] then (rcl_prior s)(?i := ?q) else (rcl_prior s)(?i := ?q, ?m := ?i),
      rcl_tail := if ys = [] then ?i else rcl_tail s\<rparr>))"
    unfolding rcl_rep_def rcl_add_length_def by simp
  have v: "(if x + 1 = e then -1 else seq_no e) = (if seqcmp (seq_no e) (incseq (seq_no x)) > 0 then seq_no e else rcl_data2 s ?i)"
    using assms(3,4) a r(1,2) seqcmp_near(3) [OF near_window, of e "x + 1"] e' by auto
  have eq: "seq_no x = seq_no (a + 1) \<longleftrightarrow> a = x - 1" using assms(3,4) a r(2) seq_no_eq_near [OF near_window, of x "a + 1"] by auto
  have x: "?i = (ring k n x + 1) smod rcl_size s" "0 \<le> ?i" "?i < rcl_size s" "rcl_data2 s ?q = seq_no e"
    using r(1) n g(2) assms(3,4) by (simp_all add: ring_smod1)
  have "rcl_size (s\<lparr>rcl_data1 := d1, rcl_data2 := d2, rcl_next := nx, rcl_prior := pr, rcl_tail := t\<rparr>) = n" for d1 d2 nx pr t
    using n by simp
  with rcl_split_exec [OF rcl_rep_at [OF rep n] x(1-3) ne g(1) x(4) v, unfolded g(5,6) incseq_no decseq_no eq] rep' show ?thesis by blast
qed

text \<open>The loop that goes back finds the last node that starts at the position or before.\<close>

lemma rcl_back_spec:
  assumes rep: "rcl_rep b k (xs @ (a, e) # ys) s" and n: "n = rcl_size s" and "a \<le> y" "y < b + n" "\<forall>(c, f)\<in>set ys. y < c"
  shows "loop_while (rcl_back_once s) j (ring k n y) = Some (Inr (ring k n a))"
  using assms(3-5)
proof (induction "nat (y - a)" arbitrary: y j)
  case 0
  then have "y = a" by simp
  with rcl_rep_node(1) [OF rep n] rcl_repD(1) [OF rep n] n show ?case
    by (intro loop_while_stops) (simp add: rcl_back_once_def rcl_access)
next
  case (Suc d)
  note r = rcl_repD [OF rep n]
  have y: "a < y" using Suc.hyps(2) by simp
  have "y \<notin> fst ` set (xs @ (a, e) # ys)" "b \<le> y" using r(3) y Suc.prems(3) by fastforce+
  then have "rcl_data1 s (ring k n y) = -1" using cells_empty(1) [OF r(5,3)] Suc.prems(2) by blast
  moreover have "(ring k n y - 1 + n) smod n = ring k n (y - 1)" using ring_smod [OF r(1), of "y - 1" y k] r(1) by simp
  ultimately have "rcl_back_once s j (ring k n y) = Inr (True, ring k n (y - 1))"
    using r(1) n by (simp add: rcl_back_once_def rcl_access)
  moreover have "loop_while (rcl_back_once s) (Suc j) (ring k n (y - 1)) = Some (Inr (ring k n a))"
    using Suc.hyps(2) Suc.prems by (intro Suc.hyps(1)) auto
  ultimately show ?case by (simp add: loop_while_goes)
qed

end
