(* ===== verification/UdtRcvLossSet.thy ===== *)
theory UdtRcvLossSet
  imports UdtRcvLossList
begin

text \<open>
  What the operations of \<open>CRcvLossList\<close> do to the set of the positions of the packets that are missing.
\<close>

unbundle bit_operations_syntax

definition rcl_holds :: "int set \<Rightarrow> rcv_loss_list \<Rightarrow> bool" where
  "rcl_holds S s \<longleftrightarrow> (\<exists>b k ns. rcl_rep b k ns s \<and> cover ns = S)"

lemma rcl_rep_move: "rcl_rep b k ns s \<Longrightarrow> cover ns \<subseteq> {c..<c + rcl_size s} \<Longrightarrow> rcl_rep c k ns s"
  using in_window_move [of b "rcl_size s" ns c] by (simp add: rcl_rep_def)

lemma rcl_holdsE:
  assumes "rcl_holds S s" and "S \<subseteq> {c..<c + rcl_size s}"
  obtains k ns where "rcl_rep c k ns s" "cover ns = S"
  using assms rcl_rep_move unfolding rcl_holds_def by blast

lemma rcl_holds_length: "rcl_holds S s \<Longrightarrow> rcl_length s = int (card S) \<and> finite S"
  unfolding rcl_holds_def rcl_rep_def using card_cover by force

lemma rcl_holds_empty: "rcl_holds S s \<Longrightarrow> rcl_length s = 0 \<longleftrightarrow> S = {}"
  using rcl_holds_length by fastforce

lemma rcl_new_holds: "0 < n \<Longrightarrow> n \<le> 2 ^ 29 \<Longrightarrow> rcl_holds {} (rcl_new n nj pj)"
  unfolding rcl_holds_def
  by (intro exI [of _ 0] exI [of _ "[]"]) (simp add: rcl_rep_def rcl_new_def cells_def)

lemma rcl_insert_spec:
  assumes "rcl_holds S s" and "x \<le> y" and "\<forall>z\<in>S. z < x" and w: "S \<union> {x..y} \<subseteq> {c..<c + rcl_size s}"
  shows "\<exists>t. rcl_insert (seq_no x) (seq_no y) s = Inr t \<and> rcl_holds (S \<union> {x..y}) t \<and> rcl_size t = rcl_size s"
proof -
  from w have "S \<subseteq> {c..<c + rcl_size s}" by blast
  with assms(1) obtain k ns where r: "rcl_rep c k ns s" "cover ns = S" by (rule rcl_holdsE)
  have xy: "c \<le> x" "y < c + rcl_size s" using w assms(2) by auto
  show ?thesis
  proof (cases ns rule: rev_cases)
    case Nil
    with rcl_insert_empty [of c k s _ x y] r xy assms(2) show ?thesis unfolding rcl_holds_def by fastforce
  next
    case (snoc zs p)
    obtain a e where p: "p = (a, e)" by (cases p)
    have "a \<le> e" using r(1) snoc p by (simp add: rcl_rep_def)
    then have "e \<in> S" using r(2) snoc p by auto
    with rcl_insert_append [OF r(1) snoc [unfolded p] refl assms(2) _ xy(2)] assms(3) r(2) show ?thesis
      unfolding rcl_holds_def by blast
  qed
qed

lemma in_cover_split:
  assumes "x \<in> cover ns"
  obtains xs a e ys where "ns = xs @ (a, e) # ys" "a \<le> x" "x \<le> e"
proof -
  obtain a e where "(a, e) \<in> set ns" "a \<le> x" "x \<le> e" using assms by (auto simp: cover_def)
  then show thesis using that by (meson split_list)
qed

lemma cover_outside:
  assumes "in_window b n (xs @ (a, e) # ys)" and "apart (xs @ (a, e) # ys)" and "a \<le> x" "x \<le> e"
  shows "x \<notin> cover xs" "x \<notin> cover ys"
  using assms by (fastforce simp: cover_def)+

text \<open>The last node that starts at a position or before.\<close>

lemma last_before:
  assumes "in_window b n ((h, f) # ws)" and "h \<le> x"
  obtains xs a e ys where "(h, f) # ws = xs @ (a, e) # ys" "a \<le> x" "\<forall>(c, g)\<in>set ys. x < c"
proof -
  have "\<exists>xs a e ys. (h, f) # ws = xs @ (a, e) # ys \<and> a \<le> x \<and> (\<forall>(c, g)\<in>set ys. x < c)"
    using assms
  proof (induction ws arbitrary: h f)
    case Nil
    then show ?case by (intro exI [of _ "[]"]) auto
  next
    case (Cons y ws)
    obtain h' f' where y: "y = (h', f')" by (cases y)
    show ?case
    proof (cases "h' \<le> x")
      case True
      with Cons.IH [of h' f'] Cons.prems(1) y obtain xs a e ys where
        "y # ws = xs @ (a, e) # ys" "a \<le> x" "\<forall>(c, g)\<in>set ys. x < c" by auto
      then show ?thesis by (intro exI [of _ "(h, f) # xs"]) auto
    next
      case False
      with Cons.prems y show ?thesis by (intro exI [of _ "[]"]) auto
    qed
  qed
  with that show thesis by blast
qed

lemma rcl_remove_at:
  assumes rep: "rcl_rep b k (xs @ (a, e) # ys) s" and n: "n = rcl_size s"
  shows "\<exists>t ns. bindr (rcl_get2 s (ring k n a)) (\<lambda>d.
      mapr (\<lambda>s. (True, rcl_add_length (-1) s)) (if d = -1 then rcl_unlink (ring k n a) s else rcl_shift (ring k n a) s)) = Inr (True, t) \<and>
    rcl_rep b k ns t \<and> cover ns = cover (xs @ (a, e) # ys) - {a} \<and> rcl_size t = n"
proof -
  note r = rcl_repD [OF rep n]
  have ae: "a \<le> e" and out: "a \<notin> cover xs" "a \<notin> cover ys" using r(3) cover_outside [OF r(3,4), of a] by simp_all
  have g: "rcl_get2 s (ring k n a) = Inr (if a = e then -1 else seq_no e)"
    using rcl_rep_node(2) [OF rep n] r(1) n by (simp add: rcl_access)
  show ?thesis
  proof (cases "a = e")
    case True
    with rcl_unlink_spec [of b k xs a ys s, OF _ n] rep obtain t where
      "rcl_unlink (ring k n a) s = Inr t" "rcl_rep b k (xs @ ys) (rcl_add_length (-1) t)" "rcl_size t = n" by auto
    moreover have "cover (xs @ ys) = cover (xs @ (a, e) # ys) - {a}" using True out by auto
    ultimately show ?thesis using g True by (intro exI [of _ "rcl_add_length (-1) t"] exI [of _ "xs @ ys"]) (simp add: rcl_add_length_def)
  next
    case False
    with ae rcl_shift_spec [OF rep n] obtain t where
      "rcl_shift (ring k n a) s = Inr t" "rcl_rep b k (xs @ (a + 1, e) # ys) (rcl_add_length (-1) t)" "rcl_size t = n" by auto
    moreover have "cover (xs @ (a + 1, e) # ys) = cover (xs @ (a, e) # ys) - {a}" using False ae out by auto
    ultimately show ?thesis using g False
      by (intro exI [of _ "rcl_add_length (-1) t"] exI [of _ "xs @ (a + 1, e) # ys"]) (simp add: rcl_add_length_def)
  qed
qed

lemma rcl_remove_inside_spec:
  assumes rep: "rcl_rep b k (xs @ (a, e) # ys) s" and n: "n = rcl_size s" and x: "a < x" "x < b + n" "\<forall>(c, g)\<in>set ys. x < c"
  shows "\<exists>t ns. rcl_remove_inside (ring k n a) (ring k n x) (seq_no x) s = Inr (x \<in> cover (xs @ (a, e) # ys), t) \<and>
    rcl_rep b k ns t \<and> cover ns = cover (xs @ (a, e) # ys) - {x} \<and> rcl_size t = n"
proof -
  note r = rcl_repD [OF rep n]
  have w: "b \<le> a" "a \<le> e" "e < b + n" using r(3) by simp_all
  have out: "x \<notin> cover xs" "x \<notin> cover ys" using r(3,4) x(1,3) by (fastforce simp: cover_def)+
  have mem: "x \<in> cover (xs @ (a, e) # ys) \<longleftrightarrow> x \<le> e" using out x(1) by auto
  have g: "rcl_get2 s (ring k n a) = Inr (if a = e then -1 else seq_no e)"
    using rcl_rep_node(2) [OF rep n] r(1) n by (simp add: rcl_access)
  have cmp: "seqcmp (seq_no x) (seq_no e) > 0 \<longleftrightarrow> e < x" "seq_no x = seq_no e \<longleftrightarrow> x = e"
    using w x r(2) seqcmp_near(3) [OF near_window, of x e] seq_no_eq_near [OF near_window, of x e] by auto
  show ?thesis
  proof (cases "x \<le> e")
    case False
    then show ?thesis using g cmp mem rep n x(1) w by (intro exI [of _ s] exI [of _ "xs @ (a, e) # ys"]) (auto simp: rcl_remove_inside_def)
  next
    case le: True
    show ?thesis
    proof (cases "x = e")
      case True
      with rcl_shorten_spec [OF rep n] x(1) obtain t where
        t: "rcl_shorten (ring k n a) (seq_no e) s = Inr t" "rcl_rep b k (xs @ (a, e - 1) # ys) (rcl_add_length (-1) t)" "rcl_size t = n" by auto
      have "cover (xs @ (a, e - 1) # ys) = cover (xs @ (a, e) # ys) - {x}" using True out by auto
      with t show ?thesis using g cmp mem True x(1)
        by (intro exI [of _ "rcl_add_length (-1) t"] exI [of _ "xs @ (a, e - 1) # ys"]) (simp add: rcl_remove_inside_def, simp add: rcl_add_length_def)
    next
      case False
      with le rcl_split_spec [OF rep n x(1)] obtain t where
        t: "rcl_split (ring k n a) (ring k n x) (seq_no x) s = Inr t" "rcl_rep b k (xs @ (a, x - 1) # (x + 1, e) # ys) (rcl_add_length (-1) t)" "rcl_size t = n"
        by auto
      have "cover (xs @ (a, x - 1) # (x + 1, e) # ys) = cover (xs @ (a, e) # ys) - {x}" using le x(1) out by auto
      with t show ?thesis using g cmp mem False le x(1)
        by (intro exI [of _ "rcl_add_length (-1) t"] exI [of _ "xs @ (a, x - 1) # (x + 1, e) # ys"]) (simp add: rcl_remove_inside_def, simp add: rcl_add_length_def)
    qed
  qed
qed

lemma rcl_remove_spec:
  assumes "rcl_holds S s" and S: "S \<subseteq> {c..<c + rcl_size s}" and x: "c - rcl_size s < x" "x < c + rcl_size s"
  shows "\<exists>t. rcl_remove (seq_no x) s = Some (Inr (x \<in> S, t)) \<and> rcl_holds (S - {x}) t \<and> rcl_size t = rcl_size s"
proof (cases "S = {}")
  case True
  with assms(1) rcl_holds_empty [OF assms(1)] show ?thesis by (simp add: rcl_remove_def)
next
  case False
  define n where n: "n = rcl_size s"
  obtain k ns where rep: "rcl_rep c k ns s" and cov: "cover ns = S" using assms(1) S by (rule rcl_holdsE)
  have len: "rcl_length s \<noteq> 0" using rcl_holds_empty [OF assms(1)] False by simp
  obtain h f ws where ns: "ns = [] @ (h, f) # ws" using cov False by (cases ns) auto
  note r = rcl_repD [OF rep n] and hd = rcl_rep_node [OF rep [unfolded ns] n]
  have hw: "c \<le> h" "h < c + n" using r(3) ns by auto
  have off: "seqoff (seq_no h) (seq_no x) = x - h" using hw x n r(2) by (intro seqoff_near) (simp add: near_iff)
  have gh: "rcl_get1 s (rcl_head s) = Inr (seq_no h)" using hd(1,5) r(1) n by (simp add: rcl_access)
  show ?thesis
  proof (cases "x < h")
    case True
    have "\<forall>z\<in>cover ns. h \<le> z" using r(3) ns by (fastforce simp: cover_def)
    then have "x \<notin> S" using True cov by auto
    then show ?thesis using True len gh off assms(1) by (simp add: rcl_remove_def)
  next
    case ge: False
    have loc: "(rcl_head s + (x - h)) smod n = ring k n x" using hd(5) ring_smod0 [OF r(1), of h x k] ge by simp
    obtain xs a e ys where sp: "ns = xs @ (a, e) # ys" "a \<le> x" "\<forall>(c, g)\<in>set ys. x < c"
      using last_before [of c n h f ws x thesis] r(3) ns ge by simp
    note rep' = rep [unfolded sp(1)] and cov' = cov [unfolded sp(1)]
    have b: "(ring k n x - 1 + n) smod n = ring k n (x - 1)" using ring_smod [OF r(1), of "x - 1" x k] r(1) by simp
    show ?thesis
    proof (cases "a = x")
      case True
      have "a \<in> S" using cov' rcl_repD(3) [OF rep' n] by auto
      moreover have "rcl_get1 s (ring k n x) = Inr (seq_no x)" using rcl_rep_node(1) [OF rep' n] True r(1) n by (simp add: rcl_access)
      ultimately have "x \<in> S" "rcl_remove (seq_no x) s = Some (bindr (rcl_get2 s (ring k n a)) (\<lambda>d.
          mapr (\<lambda>s. (True, rcl_add_length (-1) s)) (if d = -1 then rcl_unlink (ring k n a) s else rcl_shift (ring k n a) s)))"
        using True len gh off loc ge by (auto simp: rcl_remove_def n [symmetric] Let_def)
      moreover obtain t ns' where "bindr (rcl_get2 s (ring k n a)) (\<lambda>d.
          mapr (\<lambda>s. (True, rcl_add_length (-1) s)) (if d = -1 then rcl_unlink (ring k n a) s else rcl_shift (ring k n a) s)) = Inr (True, t)"
        "rcl_rep c k ns' t" "cover ns' = S - {a}" "rcl_size t = n"
        using rcl_remove_at [OF rep' n] unfolding cov' by blast
      ultimately have "rcl_remove (seq_no x) s = Some (Inr (x \<in> S, t))" "rcl_rep c k ns' t" "cover ns' = S - {x}" "rcl_size t = rcl_size s"
        using True n by simp_all
      then show ?thesis unfolding rcl_holds_def by blast
    next
      case False
      with sp(2) have ax: "a < x" by simp
      have "x \<notin> fst ` set ns" "c \<le> x" "x < c + n" using sp ax r(3) hw ge x n by fastforce+
      then have "rcl_get1 s (ring k n x) = Inr (-1)" using cells_empty(1) [OF r(5,3)] r(1) n by (simp add: rcl_access)
      moreover have "rcl_back (ring k n x) s = Some (Inr (ring k n a))"
        using rcl_back_spec [OF rep' n, of "x - 1" 0] ax sp(3) x n b by (fastforce simp: rcl_back_def)
      ultimately have "rcl_remove (seq_no x) s = Some (rcl_remove_inside (ring k n a) (ring k n x) (seq_no x) s)"
        using len gh off loc ge by (simp add: rcl_remove_def n [symmetric] Let_def)
      moreover obtain t ns' where "rcl_remove_inside (ring k n a) (ring k n x) (seq_no x) s = Inr (x \<in> S, t)"
        "rcl_rep c k ns' t" "cover ns' = S - {x}" "rcl_size t = n"
        using rcl_remove_inside_spec [OF rep' n ax _ sp(3)] x n unfolding cov' by blast
      ultimately have "rcl_remove (seq_no x) s = Some (Inr (x \<in> S, t))" "rcl_rep c k ns' t" "cover ns' = S - {x}" "rcl_size t = rcl_size s"
        using n by simp_all
      then show ?thesis unfolding rcl_holds_def by blast
    qed
  qed
qed

subsection \<open>A range of numbers is removed\<close>

lemma rcl_remove_each_spec:
  assumes "rcl_holds S s" and "S \<subseteq> {c..<c + rcl_size s}" and "\<forall>x\<in>set ps. c - rcl_size s < x \<and> x < c + rcl_size s"
  shows "\<exists>t. rcl_remove_each (map seq_no ps) s = Some (Inr t) \<and> rcl_holds (S - set ps) t \<and> rcl_size t = rcl_size s"
  using assms
proof (induction ps arbitrary: S s)
  case (Cons x ps)
  with rcl_remove_spec [OF Cons.prems(1,2), of x] obtain t where
    t: "rcl_remove (seq_no x) s = Some (Inr (x \<in> S, t))" "rcl_holds (S - {x}) t" "rcl_size t = rcl_size s" by auto
  have "S - {x} \<subseteq> {c..<c + rcl_size t}" using Cons.prems(2) t(3) by auto
  with Cons.IH [OF t(2) this] Cons.prems(3) t(3) obtain u where
    u: "rcl_remove_each (map seq_no ps) t = Some (Inr u)" "rcl_holds (S - {x} - set ps) u" "rcl_size u = rcl_size t" by auto
  have "S - {x} - set ps = S - set (x # ps)" by auto
  with t u show ?case by simp
qed simp

lemma upto_shift: "[a + d..b + d] = map (\<lambda>i. i + d) [a..b :: int]"
proof (induction a b rule: upto.induct)
  case (1 a b)
  have e: "[a + d..b + d] = (if a \<le> b then (a + d) # [a + 1 + d..b + d] else [])"
    using upto.simps [of "a + d" "b + d"] by (simp add: add.commute add.left_commute)
  show ?case unfolding e upto.simps [of a b] using 1 by simp
qed

lemma upto_seq_no:
  assumes "\<forall>z. x \<le> z \<and> z \<le> y \<longrightarrow> seq_no z = z + d"
  shows "map seq_no [x..y] = [x + d..y + d]"
  using assms by (simp add: upto_shift)

text \<open>A range of positions whose numbers do not wrap around, or do so once.\<close>

lemma seq_no_range_cases:
  assumes "x \<le> y" and "y < x + 2147483648"
  obtains "seq_no x \<le> seq_no y" "[seq_no x..seq_no y] = map seq_no [x..y]"
  | m where "seq_no y < seq_no x" "x \<le> m" "m < y" "seq_no m = max_seq_no"
    "[seq_no x..max_seq_no - 1] = map seq_no [x..m - 1]" "[0..seq_no y] = map seq_no [m + 1..y]"
proof (cases "seq_no x + (y - x) < 2147483648")
  case True
  obtain d where d: "d = seq_no x - x" by simp
  have z: "seq_no z = z + d" if "x \<le> z" "z \<le> y" for z
    using seq_no_shift [of x "z - x"] that True seq_no_range(1) [of x] d by simp
  have "map seq_no [x..y] = [seq_no x..seq_no y]" "seq_no x \<le> seq_no y"
    using upto_seq_no [of x y d] z assms(1) by simp_all
  then show thesis using that(1) by simp
next
  case False
  define m where m: "m = x + (2147483647 - seq_no x)"
  have xm: "x \<le> m" "m < y" using False zless_imp_add1_zle [OF seq_no_range(2) [of x]] m by auto
  obtain d where d: "d = seq_no x - x" "d = 2147483647 - m" using m by simp
  have z: "seq_no z = z + d" if "x \<le> z" "z \<le> m" for z
    using seq_no_shift [of x "z - x"] that seq_no_range(1) [of x] d by simp
  have z': "seq_no z = z + (- m - 1)" if "m + 1 \<le> z" "z \<le> y" for z
  proof -
    have "z + seq_no x < x + 4294967296" using that assms(2) seq_no_range(2) [of x] by linarith
    then have "seq_no (z - 2147483648) = seq_no x + (z - 2147483648 - x)"
      using seq_no_shift [of x "z - 2147483648 - x"] that assms(2) m by (simp add: algebra_simps)
    then show ?thesis using seq_no_wrap(2) [of z] m by simp
  qed
  have sm: "seq_no m = 2147483647" using z [of m] xm d(2) by simp
  have y: "seq_no y = y + (- m - 1)" using z' [of y] xm by simp
  then have "seq_no y < seq_no x" using assms(2) m by linarith
  moreover have "[seq_no x..max_seq_no - 1] = map seq_no [x..m - 1]"
    using upto_seq_no [of x "m - 1" d] z xm(1) d(2) by (simp add: max_seq_no_def)
  moreover have "[0..seq_no y] = map seq_no [m + 1..y]"
    using upto_seq_no [of "m + 1" y "- m - 1"] z' xm unfolding y by simp
  ultimately show thesis using that(2) xm sm by (simp add: max_seq_no_def)
qed

lemma seq_no_max_unique:
  assumes "seq_no m = max_seq_no" and "seq_no z = max_seq_no" and "\<bar>z - m\<bar> < 1073741823"
  shows "z = m"
  using seq_no_eq_near [of z m] assms by (simp add: near_iff)

text \<open>All positions of the range are removed, apart from one with the largest number, which the loops leave out.\<close>

lemma rcl_remove_range_spec:
  assumes "rcl_holds S s" and "S \<subseteq> {c..<c + rcl_size s}" and "x \<le> y" "c - rcl_size s < x" "y < c + rcl_size s"
    and "seq_no y \<noteq> max_seq_no"
  shows "\<exists>t. rcl_remove_range (seq_no x) (seq_no y) s = Some (Inr (True, t)) \<and>
    rcl_holds (S - {z \<in> {x..y}. seq_no z \<noteq> max_seq_no}) t \<and> rcl_size t = rcl_size s"
proof -
  have sz: "rcl_size s \<le> 536870912" using assms(1) rcl_rep_size unfolding rcl_holds_def by blast
  then have near: "\<bar>z - m\<bar> < 1073741823" if "x \<le> z" "z \<le> y" "x \<le> m" "m \<le> y" for z m using that assms(4,5) by auto
  from assms(3-5) sz have "y < x + 2147483648" by simp
  from assms(3) this show ?thesis
  proof (cases rule: seq_no_range_cases)
    case 1
    have "seq_no z \<noteq> max_seq_no" if "z \<in> {x..y}" for z
    proof -
      have "seq_no z \<in> set [seq_no x..seq_no y]" using that 1(2) by auto
      then have "seq_no z \<le> seq_no y" by auto
      then show ?thesis using assms(6) zless_imp_add1_zle [OF seq_no_range(2) [of y]] by (auto simp: max_seq_no_def)
    qed
    then have "S - {z \<in> {x..y}. seq_no z \<noteq> max_seq_no} = S - set [x..y]" by auto
    with 1 rcl_remove_each_spec [OF assms(1,2), of "[x..y]"] assms(3-6) show ?thesis by (auto simp: rcl_remove_range_def)
  next
    case (2 m)
    obtain t where t: "rcl_remove_each [seq_no x..max_seq_no - 1] s = Some (Inr t)" "rcl_holds (S - set [x..m - 1]) t" "rcl_size t = rcl_size s"
      using rcl_remove_each_spec [OF assms(1,2), of "[x..m - 1]"] 2 assms(3-5) by auto
    have "S - set [x..m - 1] \<subseteq> {c..<c + rcl_size t}" using assms(2) t(3) by auto
    with rcl_remove_each_spec [OF t(2) this, of "[m + 1..y]"] 2 assms(3-5) t(3) obtain u where
      u: "rcl_remove_each [0..seq_no y] t = Some (Inr u)" "rcl_holds (S - set [x..m - 1] - set [m + 1..y]) u" "rcl_size u = rcl_size t" by auto
    have "z \<in> {x..y} \<Longrightarrow> seq_no z \<noteq> max_seq_no \<longleftrightarrow> z \<noteq> m" for z
      using seq_no_max_unique [OF 2(4)] near 2(2-4) by auto
    then have "S - set [x..m - 1] - set [m + 1..y] = S - {z \<in> {x..y}. seq_no z \<noteq> max_seq_no}" using 2(2,3) by auto
    with t u 2(1) show ?thesis by (simp add: rcl_remove_range_def)
  qed
qed

text \<open>A range that ends at the largest number counts up past it.\<close>

lemma rcl_remove_range_overflow:
  assumes "rcl_holds S s" and "S \<subseteq> {c..<c + rcl_size s}" and "x \<le> y" "c - rcl_size s < x" "y < c + rcl_size s"
    and "seq_no y = max_seq_no"
  shows "rcl_remove_range (seq_no x) (seq_no y) s = Some (Inl Undefined)"
proof -
  have sz: "rcl_size s \<le> 536870912" using assms(1) rcl_rep_size unfolding rcl_holds_def by blast
  from assms(3-5) sz have "y < x + 2147483648" by simp
  from assms(3) this show ?thesis
  proof (cases rule: seq_no_range_cases)
    case 1
    with rcl_remove_each_spec [OF assms(1,2), of "[x..y]"] assms(3-6) show ?thesis by (auto simp: rcl_remove_range_def)
  next
    case (2 m)
    with assms(6) seq_no_range(2) [of x] show ?thesis by (simp add: max_seq_no_def)
  qed
qed

subsection \<open>Queries\<close>

lemma rcl_find_loop:
  assumes "rcl_rep b k (xs @ ys) s" and n: "n = rcl_size s" and "x \<le> y" "b - n < x" "y < b + n"
  shows "\<exists>p. loop_while (rcl_find_once (seq_no x) (seq_no y) s) j (hd_of (places k n ys), False) = Some (Inr (p, cover ys \<inter> {x..y} \<noteq> {}))"
  using assms(1)
proof (induction ys arbitrary: xs j)
  case Nil
  then show ?case by (intro exI [of _ "-1"] loop_while_stops) (simp add: rcl_find_once_def)
next
  case (Cons z ys)
  obtain a e where z: "z = (a, e)" by (cases z)
  note rep = Cons.prems [unfolded z]
  note r = rcl_repD [OF rep n] and g = rcl_rep_node [OF rep n]
  have w: "b \<le> a" "a \<le> e" "e < b + n" using r(3) by simp_all
  have near: "near u v" if "b - n < u" "u < b + n" "b \<le> v" "v < b + n" for u v using that r(2) by (simp add: near_iff)
  have nn: "near a x" "near a y" "near e x" using near [of x a] near [of y a] near [of x e] w assms(3-5) r(1)
    by (simp_all add: near_iff abs_minus_commute)
  have cond: "(seqcmp (seq_no a) (seq_no x) = 0 \<or> (seqcmp (seq_no a) (seq_no x) > 0 \<and> seqcmp (seq_no a) (seq_no y) \<le> 0) \<or>
      (seqcmp (seq_no a) (seq_no x) < 0 \<and> (if a = e then -1 else seq_no e) \<noteq> -1 \<and> seqcmp (if a = e then -1 else seq_no e) (seq_no x) \<ge> 0))
      \<longleftrightarrow> {a..e} \<inter> {x..y} \<noteq> {}"
  proof -
    have "{a..e} \<inter> {x..y} \<noteq> {} \<longleftrightarrow> a \<le> y \<and> x \<le> e" using w(2) assms(3) by (auto simp: ex_in_conv [symmetric] intro: exI [of _ "max a x"])
    then show ?thesis unfolding seqcmp_near [OF nn(1)] seqcmp_near [OF nn(2)]
      using seqcmp_near(5) [OF nn(3)] w(2) assms(3) by (cases "a = e") auto
  qed
  have once: "rcl_find_once (seq_no x) (seq_no y) s j (ring k n a, False) =
      (if {a..e} \<inter> {x..y} \<noteq> {} then Inr (False, ring k n a, True) else Inr (True, hd_of (places k n ys), False))"
    unfolding rcl_find_once_def cond [symmetric] using g r(1) n by (simp add: rcl_access)
  have "rcl_rep b k ((xs @ [(a, e)]) @ ys) s" using Cons.prems z by simp
  with Cons.IH [of "xs @ [(a, e)]" "Suc j"] once z show ?case
    by (cases "{a..e} \<inter> {x..y} = {}") (simp_all add: loop_while_stops loop_while_goes Int_Un_distrib2)
qed

lemma rcl_find_spec:
  assumes "rcl_holds S s" and "S \<subseteq> {c..<c + rcl_size s}" and "x \<le> y" "c - rcl_size s < x" "y < c + rcl_size s"
  shows "rcl_find (seq_no x) (seq_no y) s = Some (Inr (S \<inter> {x..y} \<noteq> {}))"
proof -
  obtain k ns where r: "rcl_rep c k ns s" "cover ns = S" using assms(1,2) by (rule rcl_holdsE)
  have "rcl_head s = hd_of (places k (rcl_size s) ns)" using rcl_repD(6) [OF r(1) refl] by (auto simp: linked_def dest: path_hd)
  with rcl_find_loop [of c k "[]" ns s _ x y 0] r assms(3-5) rcl_holds_empty [OF assms(1)] show ?thesis by (auto simp: rcl_find_def)
qed

lemma rcl_get_first_lost_seq_spec:
  assumes "rcl_holds S s"
  shows "rcl_get_first_lost_seq s = Inr (if S = {} then -1 else seq_no (Min S))"
proof (cases "S = {}")
  case True
  then show ?thesis using rcl_holds_empty [OF assms] by (simp add: rcl_get_first_lost_seq_def)
next
  case False
  obtain b k ns where r: "rcl_rep b k ns s" "cover ns = S" using assms by (auto simp: rcl_holds_def)
  with False obtain h f ws where ns: "ns = [] @ (h, f) # ws" by (cases ns) auto
  note g = rcl_rep_node [OF r(1) [unfolded ns] refl] and rr = rcl_repD [OF r(1) refl]
  have "\<forall>z\<in>S. h \<le> z" "h \<in> S" using rr(3) ns r(2) by (fastforce simp: cover_def)+
  then have "Min S = h" using rcl_holds_length [OF assms] by (intro Min_eqI) auto
  then show ?thesis using False rcl_holds_empty [OF assms] g(1,5) rr(1) by (simp add: rcl_get_first_lost_seq_def rcl_access)
qed

text \<open>The numbers written for a list of nodes, and how many nodes fit.\<close>

definition loss_words :: "(int \<times> int) list \<Rightarrow> int list" where
  "loss_words ns = concat (map (\<lambda>(a, e). if a = e then [seq_no a] else [seq_no a OR loss_flag, seq_no e]) ns)"

lemma loss_words_simps [simp]:
  "loss_words [] = []" "loss_words ((a, e) # ns) = (if a = e then [seq_no a] else [seq_no a OR loss_flag, seq_no e]) @ loss_words ns"
  "loss_words (xs @ ys) = loss_words xs @ loss_words ys"
  by (simp_all add: loss_words_def)

lemma rcl_loss_array_loop:
  assumes "rcl_rep b k (xs @ ys) s" and n: "n = rcl_size s" and "limit \<le> cap"
  shows "\<exists>p us vs. loop_while (rcl_loss_array_once cap limit s) j (hd_of (places k n ys), out) = Some (Inr (p, out @ loss_words us)) \<and>
    ys = us @ vs \<and> (vs = [] \<or> int (length (out @ loss_words us)) \<ge> limit - 1)"
  using assms(1)
proof (induction ys arbitrary: xs j out)
  case Nil
  then show ?case
    by (intro exI [of _ "-1"] exI [of _ "[]"]) (simp add: rcl_loss_array_once_def loop_while_stops)
next
  case (Cons z ys)
  obtain a e where z: "z = (a, e)" by (cases z)
  note rep = Cons.prems [unfolded z]
  note r = rcl_repD [OF rep n] and g = rcl_rep_node [OF rep n]
  show ?case
  proof (cases "int (length out) < limit - 1")
    case False
    then show ?thesis using z r(1)
      by (intro exI [of _ "ring k n a"] exI [of _ "[]"] exI [of _ "z # ys"]) (simp add: rcl_loss_array_once_def loop_while_stops)
  next
    case True
    let ?ws = "if a = e then [seq_no a] else [seq_no a OR loss_flag, seq_no e]"
    have once: "rcl_loss_array_once cap limit s j (ring k n a, out) = Inr (True, hd_of (places k n ys), out @ ?ws)"
      using g r(1) n True assms(3) by (simp add: rcl_loss_array_once_def rcl_access put_loss_def)
    have "rcl_rep b k ((xs @ [(a, e)]) @ ys) s" using Cons.prems z by simp
    from Cons.IH [OF this, of "Suc j" "out @ ?ws"] obtain p us vs where
      "loop_while (rcl_loss_array_once cap limit s) (Suc j) (hd_of (places k n ys), out @ ?ws) = Some (Inr (p, (out @ ?ws) @ loss_words us))"
      "ys = us @ vs" "vs = [] \<or> int (length ((out @ ?ws) @ loss_words us)) \<ge> limit - 1" by blast
    with once z show ?thesis
      by (intro exI [of _ p] exI [of _ "(a, e) # us"] exI [of _ vs]) (simp add: loop_while_goes)
  qed
qed

lemma rcl_get_loss_array_spec:
  assumes "rcl_rep b k ns s" and "limit \<le> cap"
  shows "\<exists>us vs. rcl_get_loss_array cap limit s = Some (Inr (loss_words us)) \<and> ns = us @ vs \<and> (vs = [] \<or> int (length (loss_words us)) \<ge> limit - 1)"
proof -
  have "rcl_head s = hd_of (places k (rcl_size s) ns)" using rcl_repD(6) [OF assms(1) refl] by (auto simp: linked_def dest: path_hd)
  with rcl_loss_array_loop [of b k "[]" ns s _ limit cap 0 "[]"] assms show ?thesis by (auto simp: rcl_get_loss_array_def)
qed

lemma length_loss_words: "length (loss_words ns) \<le> 2 * length ns"
  by (induction ns) auto

subsection \<open>Any sequence of operations\<close>

datatype rcl_op = RclInsert int int | RclRemove int | RclRemoveRange int int | RclFind int int | RclFirst

text \<open>The operations on the set of the positions that are missing, with what they return.\<close>

fun missing_step :: "rcl_op \<Rightarrow> int set \<Rightarrow> int \<times> int set" where
  "missing_step (RclInsert x y) S = (0, S \<union> {x..y})"
| "missing_step (RclRemove x) S = (of_bool (x \<in> S), S - {x})"
| "missing_step (RclRemoveRange x y) S = (1, S - {x..y})"
| "missing_step (RclFind x y) S = (of_bool (S \<inter> {x..y} \<noteq> {}), S)"
| "missing_step RclFirst S = (if S = {} then -1 else seq_no (Min S), S)"

fun missing_run :: "rcl_op list \<Rightarrow> int set \<Rightarrow> int list \<times> int set" where
  "missing_run [] S = ([], S)"
| "missing_run (op # ops) S = (let (r, S) = missing_step op S; (rs, S) = missing_run ops S in (r # rs, S))"

text \<open>The missing packets fit the arrays, new ones come last, and what is asked for is not far away. A range that is removed does not
  end at the largest number, and the packet with this number, if it is in the range, is not missing: the code counts
  past the largest number in the first case (\<open>rcl_remove_range_overflow\<close>) and leaves the packet in the second one
  (\<open>rcl_remove_range_spec\<close>).\<close>

fun missing_allowed :: "int \<Rightarrow> rcl_op \<Rightarrow> int set \<Rightarrow> bool" where
  "missing_allowed n (RclInsert x y) S \<longleftrightarrow> x \<le> y \<and> (\<forall>z\<in>S. z < x) \<and> (\<exists>b. S \<union> {x..y} \<subseteq> {b..<b + n})"
| "missing_allowed n (RclRemove x) S \<longleftrightarrow> (\<exists>b. S \<subseteq> {b..<b + n} \<and> b - n < x \<and> x < b + n)"
| "missing_allowed n (RclRemoveRange x y) S \<longleftrightarrow> (\<exists>b. S \<subseteq> {b..<b + n} \<and> x \<le> y \<and> b - n < x \<and> y < b + n) \<and>
     (\<forall>z\<in>{x..y}. seq_no z = max_seq_no \<longrightarrow> z \<notin> S \<and> z < y)"
| "missing_allowed n (RclFind x y) S \<longleftrightarrow> (\<exists>b. S \<subseteq> {b..<b + n} \<and> x \<le> y \<and> b - n < x \<and> y < b + n)"
| "missing_allowed n RclFirst S \<longleftrightarrow> True"

fun missings_allowed :: "int \<Rightarrow> rcl_op list \<Rightarrow> int set \<Rightarrow> bool" where
  "missings_allowed n [] S \<longleftrightarrow> True"
| "missings_allowed n (op # ops) S \<longleftrightarrow> missing_allowed n op S \<and> missings_allowed n ops (snd (missing_step op S))"

fun rcl_run_op :: "rcl_op \<Rightarrow> rcv_loss_list \<Rightarrow> (int \<times> rcv_loss_list) result option" where
  "rcl_run_op (RclInsert x y) s = Some (mapr (Pair 0) (rcl_insert (seq_no x) (seq_no y) s))"
| "rcl_run_op (RclRemove x) s = bindo (rcl_remove (seq_no x) s) (\<lambda>(r, s). Some (Inr (of_bool r, s)))"
| "rcl_run_op (RclRemoveRange x y) s = bindo (rcl_remove_range (seq_no x) (seq_no y) s) (\<lambda>(r, s). Some (Inr (of_bool r, s)))"
| "rcl_run_op (RclFind x y) s = bindo (rcl_find (seq_no x) (seq_no y) s) (\<lambda>r. Some (Inr (of_bool r, s)))"
| "rcl_run_op RclFirst s = Some (mapr (\<lambda>r. (r, s)) (rcl_get_first_lost_seq s))"

fun rcl_run :: "rcl_op list \<Rightarrow> rcv_loss_list \<Rightarrow> (int list \<times> rcv_loss_list) result option" where
  "rcl_run [] s = Some (Inr ([], s))"
| "rcl_run (op # ops) s = bindo (rcl_run_op op s) (\<lambda>(r, s). bindo (rcl_run ops s) (\<lambda>(rs, s). Some (Inr (r # rs, s))))"

lemma rcl_run_op_refines:
  assumes "rcl_holds S s" and "missing_allowed (rcl_size s) op S"
  shows "\<exists>t. rcl_run_op op s = Some (Inr (fst (missing_step op S), t)) \<and> rcl_holds (snd (missing_step op S)) t \<and> rcl_size t = rcl_size s"
proof (cases op)
  case (RclInsert x y)
  with assms rcl_insert_spec [OF assms(1)] show ?thesis by fastforce
next
  case (RclRemove x)
  with assms rcl_remove_spec [OF assms(1)] show ?thesis by fastforce
next
  case (RclRemoveRange x y)
  with assms(2) obtain b where b: "S \<subseteq> {b..<b + rcl_size s}" "x \<le> y" "b - rcl_size s < x" "y < b + rcl_size s"
    and m: "\<forall>z\<in>{x..y}. seq_no z = max_seq_no \<longrightarrow> z \<notin> S \<and> z < y" by auto
  have "seq_no y \<noteq> max_seq_no" "S - {z \<in> {x..y}. seq_no z \<noteq> max_seq_no} = S - {x..y}" using m b(2) by auto
  with rcl_remove_range_spec [OF assms(1) b] RclRemoveRange show ?thesis by auto
next
  case (RclFind x y)
  with assms rcl_find_spec [OF assms(1)] show ?thesis by fastforce
next
  case RclFirst
  with assms rcl_get_first_lost_seq_spec [OF assms(1)] show ?thesis by simp
qed

lemma rcl_run_refines:
  "rcl_holds S s \<Longrightarrow> missings_allowed (rcl_size s) ops S \<Longrightarrow>
    \<exists>t. rcl_run ops s = Some (Inr (fst (missing_run ops S), t)) \<and> rcl_holds (snd (missing_run ops S)) t"
proof (induction ops arbitrary: S s)
  case (Cons op ops)
  then obtain t where t: "rcl_run_op op s = Some (Inr (fst (missing_step op S), t))" "rcl_holds (snd (missing_step op S)) t" "rcl_size t = rcl_size s"
    using rcl_run_op_refines [of S s op] by auto
  with Cons.IH [OF t(2)] Cons.prems(2) show ?case by (auto simp: split_beta Let_def)
qed simp

text \<open>C20. The list of losses of a receiver is the set of the packets that are missing, over any sequence of operations in which the missing
  packets fit the arrays, new ones come last, and no range that is removed contains a missing packet with the largest sequence number or ends
  at that number: nothing is undefined, every loop ends, and each operation answers for the set. (Of a range that wraps around the code leaves
  the packet with the largest number, and at a range that ends there its counter overflows.)\<close>

theorem rcv_loss_list_refines_set:
  assumes "0 < n" and "n \<le> 2 ^ 29" and "missings_allowed n ops {}"
  shows "\<exists>t. rcl_run ops (rcl_new n nj pj) = Some (Inr (fst (missing_run ops {}), t)) \<and>
    rcl_get_loss_length t = int (card (snd (missing_run ops {})))"
proof -
  have "rcl_size (rcl_new n nj pj) = n" by (simp add: rcl_new_def)
  with rcl_run_refines [of "{}" "rcl_new n nj pj" ops] rcl_new_holds [OF assms(1,2)] assms(3) obtain t where
    "rcl_run ops (rcl_new n nj pj) = Some (Inr (fst (missing_run ops {}), t))" "rcl_holds (snd (missing_run ops {})) t" by auto
  with rcl_holds_length [of "snd (missing_run ops {})" t] show ?thesis by (auto simp: rcl_get_loss_length_def)
qed

theorem rcv_loss_list_refines_set_witness:
  "\<exists>t. rcl_run [RclInsert 2147483645 2147483649, RclRemove 2147483647, RclFind 2147483647 2147483647, RclRemoveRange 2147483646 2147483648, RclFirst]
      (rcl_new 16 (\<lambda>_. 7) (\<lambda>_. 9)) = Some (Inr ([0, 1, 0, 1, 2147483645], t)) \<and> rcl_get_loss_length t = 2"
proof -
  let ?ops = "[RclInsert 2147483645 2147483649, RclRemove 2147483647, RclFind 2147483647 2147483647, RclRemoveRange 2147483646 2147483648, RclFirst]"
  have s: "{2147483645..2147483649} - {2147483647} = {2147483645, 2147483646, 2147483648, 2147483649 :: int}"
    "{2147483646..2147483648} = {2147483646, 2147483647, 2147483648 :: int}" by auto
  have n: "seq_no 2147483645 = 2147483645" "seq_no 2147483646 = 2147483646" "seq_no 2147483648 = 0" by (simp_all add: seq_no_def)
  have run: "missing_run ?ops {} = ([0, 1, 0, 1, 2147483645], {2147483645, 2147483649})"
    by (simp add: s n insert_Diff_if)
  have "missings_allowed 16 ?ops {}"
    by (simp add: s n max_seq_no_def) (intro conjI exI [of _ "2147483645 :: int"]; auto)
  from rcv_loss_list_refines_set [OF _ _ this, of "\<lambda>_. 7" "\<lambda>_. 9"] show ?thesis
    unfolding run by simp
qed

end
