(* ===== verification/UdtLossReport.thy ===== *)
theory UdtLossReport
  imports UdtSndLossList UdtRcvLossSet
begin

text \<open>
  How losses are reported (src/udt/newlib/core.cpp): \<open>CUDT::sendCtrl\<close> writes the loss list of the receiver to a negative
  acknowledgement, and \<open>CUDT::processCtrl\<close> puts what it reads there into the loss list of the sender. The other fields of
  the two operations (congestion control, counters, timers, sending) are not modelled.
\<close>

unbundle bit_operations_syntax

text \<open>The periodic report; no packet is sent if nothing is written.\<close>

definition nak_report :: "int \<Rightarrow> rcv_loss_list \<Rightarrow> int list result option" where
  "nak_report payload_size r =
     (if rcl_get_loss_length r > 0 then rcl_get_loss_array (payload_size div 4) (payload_size div 4) r else Some (Inr []))"

text \<open>The report of one loss, from \<open>seqno1\<close> to \<open>seqno2\<close>, that is sent when it is found.\<close>

definition nak_of_gap :: "int \<Rightarrow> int \<Rightarrow> int list" where
  "nak_of_gap rcv_curr seqno =
     (let a = incseq rcv_curr OR loss_flag; e = decseq seqno in if incseq rcv_curr = decseq seqno then [e] else [a, e])"

text \<open>What is read: the loop ends early if a number is later than the last one sent (the connection is then broken). An
  interval whose second number is past the end of the packet reads beyond it. The second result counts new losses.\<close>

fun nak_read :: "int \<Rightarrow> int \<Rightarrow> int list \<Rightarrow> snd_loss_list \<Rightarrow> (bool \<times> int \<times> snd_loss_list) result option" where
  "nak_read last_ack cur_seq [] s = Some (Inr (True, 0, s))"
| "nak_read last_ack cur_seq (d # ds) s =
     (if d AND 0x80000000 \<noteq> 0 then
        (case ds of
           [] \<Rightarrow> Some (Inl Undefined)
         | e # ds \<Rightarrow>
             if seqcmp (d AND 0x7FFFFFFF) e > 0 \<or> seqcmp e cur_seq > 0 then Some (Inr (False, 0, s))
             else
               bindo (if seqcmp (d AND 0x7FFFFFFF) last_ack \<ge> 0 then sl_insert (d AND 0x7FFFFFFF) e s
                      else if seqcmp e last_ack \<ge> 0 then sl_insert last_ack e s
                      else Some (Inr (0, s))) (\<lambda>(num, s).
               bindo (nak_read last_ack cur_seq ds s) (\<lambda>(ok, n, s). Some (Inr (ok, num + n, s)))))
      else if seqcmp d last_ack \<ge> 0 then
        (if seqcmp d cur_seq > 0 then Some (Inr (False, 0, s))
         else
           bindo (sl_insert d d s) (\<lambda>(num, s).
           bindo (nak_read last_ack cur_seq ds s) (\<lambda>(ok, n, s). Some (Inr (ok, num + n, s)))))
      else nak_read last_ack cur_seq ds s)"

subsection \<open>Words of a report\<close>

lemma loss_word:
  "(seq_no a OR loss_flag) AND 2147483648 \<noteq> 0" "(seq_no a OR loss_flag) AND 2147483647 = seq_no a" "seq_no a AND 2147483648 = 0"
proof -
  have t: "take_bit 31 (seq_no a) = seq_no a" by (simp add: take_bit_int_eq_self_iff)
  have f: "loss_flag = NOT (mask 31)" by (simp add: loss_flag_def mask_eq_exp_minus_1 not_int_def)
  have "bit (seq_no a OR loss_flag) 31" by (simp add: f bit_simps)
  then show "(seq_no a OR loss_flag) AND 2147483648 \<noteq> 0"
    using and_exp_eq_0_iff_not_bit [of "seq_no a OR loss_flag" 31] by simp
  have "take_bit 31 (NOT (mask 31)) = (0 :: int)" by (rule bit_eqI) (simp add: bit_simps)
  then have "take_bit 31 (seq_no a OR loss_flag) = seq_no a" using t by (simp add: f)
  then show "(seq_no a OR loss_flag) AND 2147483647 = seq_no a" by (simp add: take_bit_eq_mask mask_eq_exp_minus_1)
  have "\<not> bit (seq_no a) 31" by (subst t [symmetric]) (simp add: bit_take_bit_iff)
  then show "seq_no a AND 2147483648 = 0" using and_exp_eq_0_iff_not_bit [of "seq_no a" 31] by simp
qed

lemma nak_insert_spec:
  assumes "sl_holds T s" and "T \<union> {ack..cur} \<subseteq> {b..<b + sl_size s}" and "ack \<le> x" "x \<le> y" "y \<le> cur"
  shows "\<exists>t. sl_insert (seq_no x) (seq_no y) s = Some (Inr (int (card ({x..y} - T)), t)) \<and> sl_holds (T \<union> {x..y}) t \<and> sl_size t = sl_size s"
proof -
  have "{x..y} \<subseteq> {ack..cur}" using assms(3-5) by auto
  with assms(2) have "T \<union> {x..y} \<subseteq> {b..<b + sl_size s}" by blast
  with sl_insert_spec [OF assms(1,4)] show ?thesis by blast
qed

lemma nak_read_spec:
  assumes "sl_holds T s" and "T \<union> {ack..cur} \<subseteq> {b..<b + sl_size s}" and "lo \<le> ack" "cur < lo + 536870912" "ack \<le> cur + 1"
    and "\<forall>(a, e)\<in>set us. lo \<le> a \<and> a \<le> e \<and> e \<le> cur"
  shows "\<exists>t. nak_read (seq_no ack) (seq_no cur) (loss_words us) s =
      Some (Inr (True, int (card (cover us \<inter> {ack..} - T)), t)) \<and> sl_holds (T \<union> (cover us \<inter> {ack..})) t"
  using assms(1,2,6)
proof (induction us arbitrary: T s)
  case (Cons y us)
  obtain a e where y: "y = (a, e)" by (cases y)
  have w: "lo \<le> a" "a \<le> e" "e \<le> cur" using Cons.prems(3) y by simp_all
  note cmp = seqcmp_near [OF near_window]
  have c: "seqcmp (seq_no a) (seq_no e) > 0 \<longleftrightarrow> e < a" "seqcmp (seq_no e) (seq_no cur) > 0 \<longleftrightarrow> cur < e"
    "seqcmp (seq_no a) (seq_no ack) \<ge> 0 \<longleftrightarrow> ack \<le> a" "seqcmp (seq_no e) (seq_no ack) \<ge> 0 \<longleftrightarrow> ack \<le> e" "seqcmp (seq_no a) (seq_no cur) > 0 \<longleftrightarrow> cur < a"
    using w assms(3-5) by (subst cmp; simp)+
  define D where "D = {a..e} \<inter> {ack..}"
  obtain t where t: "sl_holds (T \<union> D) t" "sl_size t = sl_size s" and
    step: "nak_read (seq_no ack) (seq_no cur) (loss_words (y # us)) s =
      bindo (nak_read (seq_no ack) (seq_no cur) (loss_words us) t) (\<lambda>(ok, n, u). Some (Inr (ok, int (card (D - T)) + n, u)))"
  proof (cases "ack \<le> e")
    case False
    then have "D = {}" by (auto simp: D_def)
    moreover have id: "bindo m (\<lambda>(ok, n, u). Some (Inr (ok, int 0 + n, u))) = m" for m :: "(bool \<times> int \<times> snd_loss_list) result option"
      by (cases m) (auto simp: bindo_def split: sum.splits)
    ultimately show thesis using that [of s] False Cons.prems(1) w c y by (cases "a = e") (simp_all add: loss_word split_beta)
  next
    case True
    have D: "D = {max a ack..e}" by (auto simp: D_def)
    obtain t where t: "sl_insert (seq_no (max a ack)) (seq_no e) s = Some (Inr (int (card (D - T)), t))" "sl_holds (T \<union> D) t" "sl_size t = sl_size s"
      using nak_insert_spec [OF Cons.prems(1,2), of "max a ack" e] True w unfolding D by auto
    show thesis
    proof (rule that [OF t(2,3)])
      show "nak_read (seq_no ack) (seq_no cur) (loss_words (y # us)) s =
        bindo (nak_read (seq_no ack) (seq_no cur) (loss_words us) t) (\<lambda>(ok, n, u). Some (Inr (ok, int (card (D - T)) + n, u)))"
        using t(1) True w c y by (cases "a = e"; cases "ack \<le> a") (simp_all add: loss_word max_def)
    qed
  qed
  have "D \<subseteq> {ack..cur}" using w by (auto simp: D_def)
  then have "T \<union> D \<union> {ack..cur} \<subseteq> {b..<b + sl_size t}" using Cons.prems(2) t(2) by auto
  from Cons.IH [OF t(1) this] Cons.prems(3) obtain u where
    u: "nak_read (seq_no ack) (seq_no cur) (loss_words us) t = Some (Inr (True, int (card (cover us \<inter> {ack..} - (T \<union> D))), u))"
      "sl_holds (T \<union> D \<union> (cover us \<inter> {ack..})) u" by auto
  have "int (card (D - T)) + int (card (cover us \<inter> {ack..} - (T \<union> D))) = int (card (cover (y # us) \<inter> {ack..} - T))"
  proof -
    have "cover (y # us) \<inter> {ack..} - T = (D - T) \<union> (cover us \<inter> {ack..} - (T \<union> D))" by (auto simp: D_def y)
    moreover have "finite D" by (simp add: D_def)
    ultimately show ?thesis by (subst \<open>cover (y # us) \<inter> {ack..} - T = _\<close>, subst card_Un_disjoint) auto
  qed
  moreover have "T \<union> D \<union> (cover us \<inter> {ack..}) = T \<union> (cover (y # us) \<inter> {ack..})" by (auto simp: D_def y)
  ultimately show ?case using step u by simp
qed simp

text \<open>A gap that is found is reported by the words of its interval. A report that ends in the first number of an interval reads
  past its end.\<close>

lemma nak_of_gap_words: "c + 1 < x \<Longrightarrow> near (c + 1) (x - 1) \<Longrightarrow> nak_of_gap (seq_no c) (seq_no x) = loss_words [(c + 1, x - 1)]"
  using seq_no_eq_near [of "c + 1" "x - 1"] by (auto simp: nak_of_gap_def Let_def)

lemma nak_read_past_end: "d AND 2147483648 \<noteq> 0 \<Longrightarrow> nak_read last_ack cur_seq [d] s = Some (Inl Undefined)"
  by simp

lemma card_cover_nodes: "in_window b n ns \<Longrightarrow> apart ns \<Longrightarrow> int (length ns) \<le> int (card (cover ns))"
  using card_cover [of b n ns]
proof (induction ns)
  case (Cons y ns)
  obtain a e where "y = (a, e)" by (cases y)
  with Cons card_cover [of b n ns] show ?case by auto
qed simp

text \<open>The first nodes of a list are its positions up to some position.\<close>

lemma cover_prefix:
  assumes "in_window b n (us @ vs)" and "apart (us @ vs)"
  obtains m where "cover us = {x \<in> cover (us @ vs). x \<le> m}" "us \<noteq> [] \<longrightarrow> m \<in> cover us"
proof (cases us rule: rev_cases)
  case Nil
  have "cover us = {x \<in> cover (us @ vs). x \<le> b - 1}" using assms(1) Nil by (fastforce simp: cover_def in_window_def)
  with that Nil show thesis by blast
next
  case (snoc ws y)
  obtain a e where y: "y = (a, e)" by (cases y)
  have "cover us = {x \<in> cover (us @ vs). x \<le> e}" using assms snoc y by (fastforce simp: cover_def in_window_def)
  moreover have "e \<in> cover us" using assms(1) snoc y by simp
  ultimately show thesis using that by blast
qed

text \<open>C19. A loss report arrives: what a receiver reports, the first of its missing packets and all of them if the packet is large
  enough, is added to the losses of the sender, but for what is acknowledged already. Nothing is undefined, the report is
  not taken for an attack, and the sender counts the new losses.\<close>

theorem loss_report_arrives:
  assumes "rcl_holds S r" and "sl_holds T s" and "T \<union> {ack..cur} \<subseteq> {b..<b + sl_size s}" and "S \<subseteq> {lo..cur}"
    and "lo \<le> ack" and "ack \<le> cur + 1" and "cur < lo + 2 ^ 29"
  shows "\<exists>words m t. nak_report payload r = Some (Inr words) \<and>
    nak_read (seq_no ack) (seq_no cur) words s = Some (Inr (True, int (card ({x\<in>S. ack \<le> x \<and> x \<le> m} - T)), t)) \<and>
    sl_holds (T \<union> {x\<in>S. ack \<le> x \<and> x \<le> m}) t \<and>
    (S \<noteq> {} \<and> 8 \<le> payload \<longrightarrow> Min S \<le> m) \<and> (2 * int (card S) \<le> payload div 4 \<longrightarrow> (\<forall>x\<in>S. x \<le> m))"
proof (cases "S = {}")
  case True
  with assms(1,2) rcl_holds_length [OF assms(1)] show ?thesis
    by (intro exI [of _ "[]"] exI [of _ 0] exI [of _ s]) (simp add: nak_report_def rcl_get_loss_length_def)
next
  case False
  have fin: "finite S" "rcl_get_loss_length r > 0" using rcl_holds_length [OF assms(1)] False by (auto simp: rcl_get_loss_length_def card_gt_0_iff)
  obtain c k ns where rep: "rcl_rep c k ns r" "cover ns = S" using assms(1) by (auto simp: rcl_holds_def)
  note w = rcl_repD(3,4) [OF rep(1) refl]
  obtain us vs where us: "rcl_get_loss_array (payload div 4) (payload div 4) r = Some (Inr (loss_words us))" "ns = us @ vs"
    "vs = [] \<or> int (length (loss_words us)) \<ge> payload div 4 - 1"
    using rcl_get_loss_array_spec [OF rep(1), of "payload div 4" "payload div 4"] by auto
  obtain m where m: "cover us = {x \<in> S. x \<le> m}" "us \<noteq> [] \<longrightarrow> m \<in> cover us"
    using cover_prefix [OF w [unfolded us(2)]] rep(2) us(2) by blast
  have nodes: "\<forall>(a, e)\<in>set us. lo \<le> a \<and> a \<le> e \<and> e \<le> cur"
  proof clarify
    fix a e assume ae: "(a, e) \<in> set us"
    then have "a \<le> e" using w(1) us(2) by (auto simp: in_window_def)
    then have "a \<in> cover ns" "e \<in> cover ns" using ae us(2) by (force simp: cover_def)+
    with \<open>a \<le> e\<close> assms(4) rep(2) show "lo \<le> a \<and> a \<le> e \<and> e \<le> cur" by auto
  qed
  have e: "cover us \<inter> {ack..} = {x \<in> S. ack \<le> x \<and> x \<le> m}" using m(1) by auto
  obtain t where "nak_read (seq_no ack) (seq_no cur) (loss_words us) s = Some (Inr (True, int (card ({x\<in>S. ack \<le> x \<and> x \<le> m} - T)), t))"
    "sl_holds (T \<union> {x\<in>S. ack \<le> x \<and> x \<le> m}) t"
    using nak_read_spec [OF assms(2,3,5) _ assms(6) nodes] assms(7) unfolding e by auto
  moreover have "nak_report payload r = Some (Inr (loss_words us))" using fin(2) us(1) by (simp add: nak_report_def)
  moreover have "Min S \<le> m" if "8 \<le> payload"
  proof -
    have "us \<noteq> []" using us that False rep(2) by auto
    with m have "m \<in> S" by blast
    then show ?thesis using fin(1) by simp
  qed
  moreover have "\<forall>x\<in>S. x \<le> m" if "2 * int (card S) \<le> payload div 4"
  proof (cases "vs = []")
    case True
    then show ?thesis using m(1) us(2) rep(2) by auto
  next
    case False
    have "int (length ns) \<le> int (card S)" using card_cover_nodes [OF w] rep(2) by simp
    with us(2) False length_loss_words [of us] have "int (length (loss_words us)) \<le> 2 * (int (card S) - 1)" by (cases vs) auto
    with us(3) False that show ?thesis by simp
  qed
  ultimately show ?thesis by blast
qed

theorem loss_report_arrives_witness:
  "\<exists>r s words t. rcl_holds {2147483646..2147483648} r \<and> sl_holds {} s \<and> nak_report 1456 r = Some (Inr words) \<and>
    nak_read 2147483646 2 words s = Some (Inr (True, 3, t)) \<and> sl_holds {2147483646..2147483648} t"
proof -
  have n: "rcl_holds {} (rcl_new 16 (\<lambda>_. 0) (\<lambda>_. 0))" "sl_holds {} (sl_new 16 (\<lambda>_. 0))"
    by (simp_all add: rcl_new_holds sl_new_holds)
  have "{2147483646..2147483648 :: int} \<subseteq> {2147483646..<2147483662}" by auto
  then obtain r where r: "rcl_holds {2147483646..2147483648} r"
    using rcl_insert_spec [OF n(1), of 2147483646 2147483648 2147483646] by (auto simp: rcl_new_def)
  let ?S = "{2147483646..2147483648 :: int}"
  have w: "{} \<union> {2147483646..2147483650} \<subseteq> {2147483646..<2147483646 + sl_size (sl_new 16 (\<lambda>_. 0))}" by (auto simp: sl_new_def)
  have "?S \<subseteq> {2147483646..2147483650}" by auto
  from loss_report_arrives [OF r n(2) w this, of 1456] obtain words m t where
    t: "nak_report 1456 r = Some (Inr words)"
      "nak_read (seq_no 2147483646) (seq_no 2147483650) words (sl_new 16 (\<lambda>_. 0)) = Some (Inr (True, int (card ({x\<in>?S. 2147483646 \<le> x \<and> x \<le> m} - {})), t))"
      "sl_holds ({} \<union> {x\<in>?S. 2147483646 \<le> x \<and> x \<le> m}) t" "\<forall>x\<in>?S. x \<le> m" by auto
  have "{x\<in>?S. 2147483646 \<le> x \<and> x \<le> m} = ?S" using t(4) by auto
  with t(1-3) r n(2) show ?thesis by (intro exI [of _ r] exI [of _ "sl_new 16 (\<lambda>_. 0)"] exI [of _ words] exI [of _ t]) (simp add: seq_no_def)
qed

end
