(* ===== verification/UdtRcvBuffer.thy ===== *)
theory UdtRcvBuffer
  imports UdtIntervals
begin

text \<open>
  \<open>CRcvBuffer\<close> of the UDT library (src/udt/newlib/buffer.hpp, buffer.cpp): packets that arrive in any order are kept in a ring of
  pointers to units until they are acknowledged and read, as a stream of bytes or as messages. A unit belongs to the queue of
  units; the model has the units as a store, whose indices are the pointers, and the number of units that are in use.
\<close>

unbundle bit_operations_syntax

subsection \<open>State\<close>

text \<open>The flag of a unit: free 0, occupied 1, message read but not freed 2, message dropped 3.\<close>

record unit_block =
  un_flag :: int
  un_data :: "byte list"
  un_msg_no :: "32 word"

record rcv_buffer =
  rb_units :: "nat \<Rightarrow> unit_block"
  rb_used :: int
  rb_unit :: "int \<Rightarrow> nat option"
  rb_size :: int
  rb_start :: int
  rb_last_ack :: int
  rb_max_pos :: int
  rb_notch :: int

definition rb_new :: "(nat \<Rightarrow> unit_block) \<Rightarrow> int \<Rightarrow> int \<Rightarrow> rcv_buffer" where
  "rb_new units used bufsize = \<lparr>rb_units = units, rb_used = used, rb_unit = (\<lambda>_. None), rb_size = bufsize, rb_start = 0, rb_last_ack = 0,
     rb_max_pos = 0, rb_notch = 0\<rparr>"

text \<open>The header word of a packet in message mode: boundary, order flag, number.\<close>

definition msg_boundary :: "32 word \<Rightarrow> int" where "msg_boundary w = uint (drop_bit 30 w)"
definition msg_order_flag :: "32 word \<Rightarrow> bool" where "msg_order_flag w \<longleftrightarrow> drop_bit 29 w AND 1 = 1"
definition msg_seq :: "32 word \<Rightarrow> int" where "msg_seq w = uint (w AND 0x1FFFFFFF)"

definition un_length :: "unit_block \<Rightarrow> int" where "un_length u = int (length (un_data u))"

text \<open>A pointer of the ring, and the unit it points to; a null pointer is not to be followed.\<close>

definition rb_at :: "rcv_buffer \<Rightarrow> int \<Rightarrow> nat option result" where
  "rb_at b i = (if 0 \<le> i \<and> i < rb_size b then Inr (rb_unit b i) else Inl Undefined)"

definition rb_deref :: "rcv_buffer \<Rightarrow> int \<Rightarrow> unit_block result" where
  "rb_deref b i = bindr (rb_at b i) (\<lambda>p. case p of None \<Rightarrow> Inl Undefined | Some u \<Rightarrow> Inr (rb_units b u))"

definition rb_set_flag :: "nat \<Rightarrow> int \<Rightarrow> rcv_buffer \<Rightarrow> rcv_buffer" where
  "rb_set_flag u f b = b\<lparr>rb_units := (rb_units b)(u := (rb_units b u)\<lparr>un_flag := f\<rparr>)\<rparr>"

text \<open>The unit at an index goes back to the queue of units.\<close>

definition rb_release :: "int \<Rightarrow> rcv_buffer \<Rightarrow> rcv_buffer result" where
  "rb_release i b =
     bindr (rb_at b i) (\<lambda>p. case p of
       None \<Rightarrow> Inl Undefined
     | Some u \<Rightarrow> Inr (rb_set_flag u 0 (b\<lparr>rb_unit := (rb_unit b)(i := None), rb_used := rb_used b - 1\<rparr>)))"

definition rb_succ :: "rcv_buffer \<Rightarrow> int \<Rightarrow> int" where
  "rb_succ b i = (if i + 1 = rb_size b then 0 else i + 1)"

subsection \<open>Packets that arrive and are acknowledged\<close>

definition rb_add_data :: "nat \<Rightarrow> int \<Rightarrow> rcv_buffer \<Rightarrow> (int \<times> rcv_buffer) result" where
  "rb_add_data u offset b =
     (let pos = (rb_last_ack b + offset) smod rb_size b;
          b = (if offset > rb_max_pos b then b\<lparr>rb_max_pos := offset\<rparr> else b) in
      bindr (rb_at b pos) (\<lambda>p. case p of
        Some _ \<Rightarrow> Inr (-1, b)
      | None \<Rightarrow> Inr (0, rb_set_flag u 1 (b\<lparr>rb_unit := (rb_unit b)(pos := Some u), rb_used := rb_used b + 1\<rparr>))))"

definition rb_ack_data :: "int \<Rightarrow> rcv_buffer \<Rightarrow> rcv_buffer" where
  "rb_ack_data len b =
     (let m = rb_max_pos b - len in
      b\<lparr>rb_last_ack := (rb_last_ack b + len) smod rb_size b, rb_max_pos := if m < 0 then 0 else m\<rparr>)"

definition rb_data_size :: "rcv_buffer \<Rightarrow> int" where
  "rb_data_size b =
     (if rb_last_ack b \<ge> rb_start b then rb_last_ack b - rb_start b else rb_size b + rb_last_ack b - rb_start b)"

definition rb_avail :: "rcv_buffer \<Rightarrow> int" where
  "rb_avail b = rb_size b - rb_data_size b - 1"

subsection \<open>Reading a stream\<close>

text \<open>The position in the ring, what is left to be read, and the bytes copied.\<close>

record reading =
  rd_pos :: int
  rd_left :: int
  rd_out :: "byte list"
  rd_buffer :: rcv_buffer

text \<open>The unit at the position is done, or a part of it is left; \<open>n\<close> bytes of it were copied.\<close>

definition rb_consume :: "int \<Rightarrow> int \<Rightarrow> byte list \<Rightarrow> reading \<Rightarrow> reading result" where
  "rb_consume len n bs r =
     (let b = rd_buffer r in
      if rd_left r > n \<or> rd_left r = len - rb_notch b
      then mapr (\<lambda>c. \<lparr>rd_pos = rb_succ b (rd_pos r), rd_left = rd_left r - n, rd_out = rd_out r @ bs, rd_buffer = c\<lparr>rb_notch := 0\<rparr>\<rparr>)
             (rb_release (rd_pos r) b)
      else Inr \<lparr>rd_pos = rd_pos r, rd_left = rd_left r - n, rd_out = rd_out r @ bs, rd_buffer = b\<lparr>rb_notch := rb_notch b + rd_left r\<rparr>\<rparr>)"

text \<open>One turn of the loop of \<open>readBuffer\<close> and \<open>readBufferToFile\<close>: the latter stops if the \<open>k\<close>-th write to the file fails.\<close>

definition rb_read_once :: "(nat \<Rightarrow> bool) \<Rightarrow> int \<Rightarrow> nat \<Rightarrow> reading \<Rightarrow> (bool \<times> reading) result" where
  "rb_read_once fails lastack k r =
     (if rd_pos r \<noteq> lastack \<and> rd_left r > 0 then
        bindr (rb_deref (rd_buffer r) (rd_pos r)) (\<lambda>u.
        let notch = rb_notch (rd_buffer r); n = min (un_length u - notch) (rd_left r) in
        if n < 0 then Inl Undefined
        else if fails k then Inr (False, r)
        else mapr (Pair True) (rb_consume (un_length u) n (take (nat n) (drop (nat notch) (un_data u))) r))
      else Inr (False, r))"

definition rb_read :: "(nat \<Rightarrow> bool) \<Rightarrow> int \<Rightarrow> rcv_buffer \<Rightarrow> (int \<times> byte list \<times> rcv_buffer) result option" where
  "rb_read fails len b =
     bindo (loop_while (rb_read_once fails (rb_last_ack b)) 0 \<lparr>rd_pos = rb_start b, rd_left = len, rd_out = [], rd_buffer = b\<rparr>)
       (\<lambda>r. Some (Inr (len - rd_left r, rd_out r, (rd_buffer r)\<lparr>rb_start := rd_pos r\<rparr>)))"

definition rb_read_buffer :: "int \<Rightarrow> rcv_buffer \<Rightarrow> (int \<times> byte list \<times> rcv_buffer) result option" where
  "rb_read_buffer = rb_read (\<lambda>_. False)"

definition rb_read_buffer_to_file :: "(nat \<Rightarrow> bool) \<Rightarrow> int \<Rightarrow> rcv_buffer \<Rightarrow> (int \<times> byte list \<times> rcv_buffer) result option" where
  "rb_read_buffer_to_file = rb_read"

subsection \<open>Messages\<close>

definition rb_drop_once :: "int \<Rightarrow> int \<Rightarrow> nat \<Rightarrow> int \<times> rcv_buffer \<Rightarrow> (bool \<times> int \<times> rcv_buffer) result" where
  "rb_drop_once msgno n k st = (case st of (i, b) \<Rightarrow>
     if i = n then Inr (False, i, b)
     else
       bindr (rb_at b i) (\<lambda>p.
       let b = (case p of None \<Rightarrow> b | Some u \<Rightarrow> if word_of_int msgno = un_msg_no (rb_units b u) then rb_set_flag u 3 b else b) in
       Inr (True, (i + 1) smod rb_size b, b)))"

definition rb_drop_msg :: "int \<Rightarrow> rcv_buffer \<Rightarrow> rcv_buffer result option" where
  "rb_drop_msg msgno b =
     bindo (loop_while (rb_drop_once msgno ((rb_last_ack b + rb_max_pos b) smod rb_size b)) 0 (rb_start b, b)) (\<lambda>(i, b). Some (Inr b))"

text \<open>Looking ahead for a whole message: the loop goes from \<open>i\<close> to the last packet of the message.\<close>

definition rb_ahead_once :: "rcv_buffer \<Rightarrow> nat \<Rightarrow> int \<times> bool \<Rightarrow> (bool \<times> int \<times> bool) result" where
  "rb_ahead_once b k st = (case st of (i, good) \<Rightarrow>
     if i = rb_last_ack b then Inr (False, i, good)
     else
       bindr (rb_at b i) (\<lambda>p. case p of
         None \<Rightarrow> Inr (False, i, False)
       | Some u \<Rightarrow>
           if un_flag (rb_units b u) \<noteq> 1 then Inr (False, i, False)
           else if msg_boundary (un_msg_no (rb_units b u)) = 1 \<or> msg_boundary (un_msg_no (rb_units b u)) = 3 then Inr (False, i, good)
           else Inr (True, rb_succ b i, good)))"

definition rb_whole :: "rcv_buffer \<Rightarrow> bool result option" where
  "rb_whole b = bindo (loop_while (rb_ahead_once b) 0 (rb_start b, True)) (\<lambda>(i, good). Some (Inr good))"

text \<open>The loop that skips bad messages at the beginning.\<close>

definition rb_skip_at :: "rcv_buffer \<Rightarrow> (bool \<times> rcv_buffer) result option" where
  "rb_skip_at b =
     (if rb_start b = rb_last_ack b then Some (Inr (False, b))
      else
        bindo (Some (rb_at b (rb_start b))) (\<lambda>p. case p of
          None \<Rightarrow> Some (Inr (True, b\<lparr>rb_start := rb_succ b (rb_start b)\<rparr>))
        | Some u \<Rightarrow>
            bindo (if un_flag (rb_units b u) = 1 \<and> msg_boundary (un_msg_no (rb_units b u)) > 1 then rb_whole b else Some (Inr False)) (\<lambda>good.
            if good then Some (Inr (False, b))
            else bindo (Some (rb_release (rb_start b) b)) (\<lambda>b. Some (Inr (True, b\<lparr>rb_start := rb_succ b (rb_start b)\<rparr>))))))"

partial_function (option) rb_skip :: "rcv_buffer \<Rightarrow> rcv_buffer result option" where
  "rb_skip b =
     (case rb_skip_at b of
        None \<Rightarrow> None
      | Some (Inl e) \<Rightarrow> Some (Inl e)
      | Some (Inr (go, c)) \<Rightarrow> if go then rb_skip c else Some (Inr c))"

text \<open>Looking for the first message: its head, the position, whether what is read is not acknowledged, whether a message was
  found; the first result tells whether to stop.\<close>

record scan =
  sc_p :: int
  sc_q :: int
  sc_passack :: bool
  sc_found :: bool

definition rb_scan_step :: "rcv_buffer \<Rightarrow> scan \<Rightarrow> (bool \<times> scan) result" where
  "rb_scan_step b s =
     bindr (rb_at b (sc_q s)) (\<lambda>u.
     let w = (case u of None \<Rightarrow> 0 | Some u \<Rightarrow> un_msg_no (rb_units b u));
         s = (case u of
                None \<Rightarrow> s\<lparr>sc_p := -1\<rparr>
              | Some u \<Rightarrow>
                  if un_flag (rb_units b u) = 1 then
                    (if msg_boundary w = 3 then s\<lparr>sc_p := sc_q s, sc_found := True\<rparr>
                     else if msg_boundary w = 2 then s\<lparr>sc_p := sc_q s\<rparr>
                     else if msg_boundary w = 1 \<and> sc_p s \<noteq> -1 then s\<lparr>sc_found := True\<rparr>
                     else s)
                  else s\<lparr>sc_p := -1\<rparr>) in
     if sc_found s \<and> (\<not> sc_passack s \<or> \<not> msg_order_flag w) then Inr (True, s)
     else
       (let q = rb_succ b (sc_q s) in
        Inr (False, s\<lparr>sc_found := False, sc_q := q, sc_passack := sc_passack s \<or> q = rb_last_ack b\<rparr>)))"

fun rb_scan_loop :: "rcv_buffer \<Rightarrow> nat \<Rightarrow> scan \<Rightarrow> scan result" where
  "rb_scan_loop b 0 s = Inr s"
| "rb_scan_loop b (Suc n) s = bindr (rb_scan_step b s) (\<lambda>(stop, s). if stop then Inr s else rb_scan_loop b n s)"

definition rb_scan_msg :: "rcv_buffer \<Rightarrow> ((bool \<times> scan) \<times> rcv_buffer) result option" where
  "rb_scan_msg b =
     (if rb_start b = rb_last_ack b \<and> rb_max_pos b \<le> 0
      then Some (Inr ((False, \<lparr>sc_p = -1, sc_q = 0, sc_passack = False, sc_found = False\<rparr>), b))
      else
        bindo (rb_skip b) (\<lambda>b.
        bindo (Some (rb_scan_loop b (nat (rb_max_pos b + rb_data_size b + 1))
                 \<lparr>sc_p = -1, sc_q = rb_start b, sc_passack = (rb_start b = rb_last_ack b), sc_found = False\<rparr>)) (\<lambda>s.
        Some (Inr ((sc_found s \<or> (sc_p s \<noteq> -1 \<and> (sc_q s + 1) smod rb_size b = sc_p s), s), b)))))"

text \<open>The loop of \<open>readMsg\<close> over the packets of the message. A length below 0 leaves room for what is in the packets.\<close>

definition rb_msg_once :: "bool \<Rightarrow> int \<Rightarrow> nat \<Rightarrow> reading \<Rightarrow> (bool \<times> reading) result" where
  "rb_msg_once passack q k r =
     (let b = rd_buffer r in
      if rd_pos r = (q + 1) smod rb_size b then Inr (False, r)
      else
        bindr (rb_at b (rd_pos r)) (\<lambda>p. case p of
          None \<Rightarrow> Inl Undefined
        | Some u \<Rightarrow>
            (let n = (if rd_left r \<ge> 0 \<and> un_length (rb_units b u) > rd_left r then rd_left r else un_length (rb_units b u));
                 r = (if n > 0 then r\<lparr>rd_out := rd_out r @ take (nat n) (un_data (rb_units b u)), rd_left := rd_left r - n\<rparr> else r) in
             mapr (\<lambda>b. (True, r\<lparr>rd_buffer := b, rd_pos := rb_succ b (rd_pos r)\<rparr>))
               (if \<not> passack then rb_release (rd_pos r) b else Inr (rb_set_flag u 2 b)))))"

definition rb_read_msg :: "int \<Rightarrow> rcv_buffer \<Rightarrow> (int \<times> byte list \<times> rcv_buffer) result option" where
  "rb_read_msg len b =
     bindo (rb_scan_msg b) (\<lambda>((found, s), b).
       if \<not> found then Some (Inr (0, [], b))
       else
         bindo (loop_while (rb_msg_once (sc_passack s) (sc_q s)) 0 \<lparr>rd_pos = sc_p s, rd_left = len, rd_out = [], rd_buffer = b\<rparr>) (\<lambda>r.
         let b = rd_buffer r in
         Some (Inr (len - rd_left r, rd_out r, if sc_passack s then b else b\<lparr>rb_start := (sc_q s + 1) smod rb_size b\<rparr>))))"

definition rb_rcv_msg_num :: "rcv_buffer \<Rightarrow> (int \<times> rcv_buffer) result option" where
  "rb_rcv_msg_num b = bindo (rb_scan_msg b) (\<lambda>((found, s), b). Some (Inr (if found then 1 else 0, b)))"

subsection \<open>What a buffer holds\<close>

text \<open>The buffer has the units of the positions in the domain of \<open>M\<close>; \<open>s\<close> is the position to be read next, and those below \<open>a\<close>
  are acknowledged.\<close>

definition rb_holds :: "int \<Rightarrow> int \<Rightarrow> int \<Rightarrow> (int \<Rightarrow> unit_block option) \<Rightarrow> rcv_buffer \<Rightarrow> bool" where
  "rb_holds k s a M b \<longleftrightarrow> s \<le> a \<and> a < s + rb_size b \<and> dom M \<subseteq> {s..<s + rb_size b} \<and>
     rb_start b = ring k (rb_size b) s \<and> rb_last_ack b = ring k (rb_size b) a \<and>
     (\<forall>x. s \<le> x \<and> x < s + rb_size b \<longrightarrow> map_option (rb_units b) (rb_unit b (ring k (rb_size b) x)) = M x) \<and>
     (\<forall>i j u. 0 \<le> i \<and> i < rb_size b \<and> 0 \<le> j \<and> j < rb_size b \<and> rb_unit b i = Some u \<and> rb_unit b j = Some u \<longrightarrow> i = j)"

lemma rb_holdsD:
  assumes "rb_holds k s a M b" and "n = rb_size b"
  shows "0 < n" "s \<le> a" "a < s + n" "rb_start b = ring k n s" "rb_last_ack b = ring k n a" "dom M \<subseteq> {s..<s + n}"
    "\<And>x. s \<le> x \<Longrightarrow> x < s + n \<Longrightarrow> map_option (rb_units b) (rb_unit b (ring k n x)) = M x"
    "\<And>i j u. 0 \<le> i \<Longrightarrow> i < n \<Longrightarrow> 0 \<le> j \<Longrightarrow> j < n \<Longrightarrow> rb_unit b i = Some u \<Longrightarrow> rb_unit b j = Some u \<Longrightarrow> i = j"
proof -
  note h = assms(1) [unfolded rb_holds_def, folded assms(2)]
  show "0 < n" "s \<le> a" "a < s + n" "rb_start b = ring k n s" "rb_last_ack b = ring k n a" "dom M \<subseteq> {s..<s + n}" using h by auto
  show "\<And>x. s \<le> x \<Longrightarrow> x < s + n \<Longrightarrow> map_option (rb_units b) (rb_unit b (ring k n x)) = M x" using h by blast
  show "\<And>i j u. 0 \<le> i \<Longrightarrow> i < n \<Longrightarrow> 0 \<le> j \<Longrightarrow> j < n \<Longrightarrow> rb_unit b i = Some u \<Longrightarrow> rb_unit b j = Some u \<Longrightarrow> i = j"
    using h by blast
qed

lemma rb_holdsI:
  assumes "rb_size b = n" "s \<le> a" "a < s + n" "dom M \<subseteq> {s..<s + n}" "rb_start b = ring k n s" "rb_last_ack b = ring k n a"
    "\<And>x. s \<le> x \<Longrightarrow> x < s + n \<Longrightarrow> map_option (rb_units b) (rb_unit b (ring k n x)) = M x"
    "\<And>i j u. 0 \<le> i \<Longrightarrow> i < n \<Longrightarrow> 0 \<le> j \<Longrightarrow> j < n \<Longrightarrow> rb_unit b i = Some u \<Longrightarrow> rb_unit b j = Some u \<Longrightarrow> i = j"
  shows "rb_holds k s a M b"
  using assms(2-6) assms(7,8) unfolding rb_holds_def assms(1) by blast

lemma ring_succ:
  assumes "0 < n"
  shows "(if ring k n x + 1 = n then 0 else ring k n x + 1) = ring k n (x + 1)"
proof (cases "ring k n x + 1 = n")
  case True
  with ring_smod1 [OF assms, of k x] smod_nonneg [of n n] assms show ?thesis by simp
next
  case False
  then have "ring k n x + 1 < n" using ring_range(2) [OF assms, of k x] by linarith
  with ring_smod1 [OF assms, of k x] smod_nonneg [of "ring k n x + 1" n] assms False ring_range(1) [OF assms, of k x] show ?thesis by simp
qed

lemma rb_succ_ring: "n = rb_size b \<Longrightarrow> 0 < n \<Longrightarrow> rb_succ b (ring k n x) = ring k n (x + 1)"
  unfolding rb_succ_def using ring_succ [of n k x] by metis

lemma rb_at_ring: "n = rb_size b \<Longrightarrow> 0 < n \<Longrightarrow> rb_at b (ring k n x) = Inr (rb_unit b (ring k n x))"
  by (simp add: rb_at_def)

lemma rb_unit_cases:
  assumes "rb_holds k s a M b" and "n = rb_size b" and "s \<le> x" "x < s + n"
  shows "M x = None \<Longrightarrow> rb_unit b (ring k n x) = None" and "M x = Some v \<Longrightarrow> \<exists>u. rb_unit b (ring k n x) = Some u \<and> rb_units b u = v"
  using rb_holdsD(7) [OF assms(1,2)] assms(3,4) by (fastforce, fastforce)

lemma rb_deref_at:
  assumes "rb_holds k s a M b" and "n = rb_size b" and "s \<le> x" "x < s + n" "M x = Some v"
  shows "rb_deref b (ring k n x) = Inr v"
  using rb_unit_cases(2) [OF assms] rb_holdsD(1) [OF assms(1,2)] assms(2) by (auto simp: rb_deref_def rb_at_ring)

text \<open>A unit is replaced by one with another flag, or taken out, and no other one changes.\<close>

lemma rb_set_flag_holds:
  assumes h: "rb_holds k s a M b" and n: "n = rb_size b" and x: "s \<le> x" "x < s + n" and u: "rb_unit b (ring k n x) = Some u" and v: "M x = Some v"
  shows "rb_holds k s a (M(x \<mapsto> v\<lparr>un_flag := f\<rparr>)) (rb_set_flag u f b)"
proof -
  note d = rb_holdsD [OF h n]
  have "map_option ((rb_units b)(u := (rb_units b u)\<lparr>un_flag := f\<rparr>)) (rb_unit b (ring k n y)) = (M(x \<mapsto> v\<lparr>un_flag := f\<rparr>)) y"
    if y: "s \<le> y" "y < s + n" for y
  proof (cases "y = x")
    case True
    then show ?thesis using d(7) [OF x] u v by auto
  next
    case False
    then have "rb_unit b (ring k n y) \<noteq> Some u"
      using d(8) [of "ring k n y" "ring k n x" u] u d(1) ring_eq [OF y x, of k] by auto
    then show ?thesis using d(7) [OF y] False by (cases "rb_unit b (ring k n y)") auto
  qed
  then show ?thesis using h n x v unfolding rb_holds_def by (auto simp: rb_set_flag_def)
qed

lemma rb_remove_holds:
  assumes h: "rb_holds k s a M b" and n: "n = rb_size b" and x: "s \<le> x" "x < s + n" and u: "rb_unit b (ring k n x) = Some u"
  shows "rb_holds k s a (M(x := None)) (rb_set_flag u f (b\<lparr>rb_unit := (rb_unit b)(ring k n x := None), rb_used := m\<rparr>))"
proof -
  note d = rb_holdsD [OF h n]
  have "map_option ((rb_units b)(u := (rb_units b u)\<lparr>un_flag := f\<rparr>)) (((rb_unit b)(ring k n x := None)) (ring k n y)) = (M(x := None)) y"
    if y: "s \<le> y" "y < s + n" for y
  proof (cases "y = x")
    case False
    then have "ring k n y \<noteq> ring k n x" "rb_unit b (ring k n y) \<noteq> Some u"
      using d(8) [of "ring k n y" "ring k n x" u] u d(1) ring_eq [OF y x, of k] by auto
    then show ?thesis using d(7) [OF y] False by (cases "rb_unit b (ring k n y)") auto
  qed simp
  then show ?thesis using h n unfolding rb_holds_def by (auto simp: rb_set_flag_def split: if_splits)
qed

lemma rb_release_holds:
  assumes h: "rb_holds k s a M b" and n: "n = rb_size b" and x: "s \<le> x" "x < s + n" "M x = Some v"
  shows "\<exists>c. rb_release (ring k n x) b = Inr c \<and> rb_holds k s a (M(x := None)) c \<and> rb_size c = n \<and> rb_notch c = rb_notch b \<and>
    rb_max_pos c = rb_max_pos b \<and> rb_used c = rb_used b - 1"
proof -
  obtain u where u: "rb_unit b (ring k n x) = Some u" using rb_unit_cases(2) [OF h n x] by blast
  with rb_remove_holds [OF h n x(1,2) u, of 0 "rb_used b - 1"] rb_holdsD(1) [OF h n] n show ?thesis
    by (simp add: rb_release_def rb_at_ring, simp add: rb_set_flag_def)
qed

text \<open>The position to be read moves on.\<close>

lemma rb_holds_next:
  assumes h: "rb_holds k s a M b" and n: "n = rb_size b" and "M s = None" and "s < a"
  shows "rb_holds k (s + 1) a M (b\<lparr>rb_start := ring k n (s + 1)\<rparr>)"
proof -
  note d = rb_holdsD [OF h n]
  have none: "M (s + n) = None" "dom M \<subseteq> {s + 1..<s + 1 + n}"
  proof -
    show "M (s + n) = None" using d(6) by (cases "M (s + n)") auto
    show "dom M \<subseteq> {s + 1..<s + 1 + n}"
    proof
      fix x assume "x \<in> dom M"
      moreover from this have "x \<noteq> s" using assms(3) by auto
      ultimately show "x \<in> {s + 1..<s + 1 + n}" using d(6) by fastforce
    qed
  qed
  have "ring k n (s + n) = ring k n s" using mod_add_self2 [of "s + k" n] by (simp add: ring_def algebra_simps)
  then have "map_option (rb_units b) (rb_unit b (ring k n x)) = M x" if "s + 1 \<le> x" "x < s + 1 + n" for x
    using that d(7) [of x] d(7) [of s] d(1) none(1) assms(3) by (cases "x = s + n") auto
  then show ?thesis using h n none(2) assms(4) unfolding rb_holds_def by auto
qed

subsection \<open>Packets are added and acknowledged\<close>

lemma rb_data_size_at:
  assumes "rb_holds k s a M b"
  shows "rb_data_size b = a - s"
proof -
  note d = rb_holdsD [OF assms refl]
  let ?n = "rb_size b"
  have e: "ring k ?n a = (if ring k ?n s + (a - s) < ?n then ring k ?n s + (a - s) else ring k ?n s + (a - s) - ?n)"
  proof -
    have m: "ring k ?n a = (ring k ?n s + (a - s)) mod ?n" by (simp add: ring_add)
    have r: "0 \<le> ring k ?n s" "ring k ?n s < ?n" using d(1) by simp_all
    show ?thesis
    proof (cases "ring k ?n s + (a - s) < ?n")
      case True
      with m r(1) d(2) show ?thesis by simp
    next
      case False
      have "(ring k ?n s + (a - s)) mod ?n = (ring k ?n s + (a - s) - ?n) mod ?n" by simp
      also have "\<dots> = ring k ?n s + (a - s) - ?n" using False r(2) d(3) by (intro mod_pos_pos_trivial) linarith+
      finally show ?thesis using m False by simp
    qed
  qed
  have r: "0 \<le> ring k ?n s" "ring k ?n s < ?n" using d(1) by simp_all
  show ?thesis unfolding rb_data_size_def d(4,5) using e r d(2,3) by (simp split: if_splits)
qed

definition rb_pointers :: "rcv_buffer \<Rightarrow> nat set" where
  "rb_pointers b = {u. \<exists>i. 0 \<le> i \<and> i < rb_size b \<and> rb_unit b i = Some u}"

lemma rb_put_holds:
  assumes h: "rb_holds k s a M b" and n: "n = rb_size b" and x: "s \<le> x" "x < s + n" and free: "u \<notin> rb_pointers b"
    and c: "rb_size c = n" "rb_start c = rb_start b" "rb_last_ack c = rb_last_ack b" "rb_unit c = (rb_unit b)(ring k n x := Some u)"
      "rb_units c = (rb_units b)(u := v)"
  shows "rb_holds k s a (M(x \<mapsto> v)) c"
proof -
  note d = rb_holdsD [OF h n]
  have free: "rb_unit b i \<noteq> Some u" if "0 \<le> i" "i < n" for i using free n that by (auto simp: rb_pointers_def)
  show ?thesis
  proof (rule rb_holdsI [OF c(1) d(2,3)])
    show "dom (M(x \<mapsto> v)) \<subseteq> {s..<s + n}" using d(6) x by auto
    show "rb_start c = ring k n s" "rb_last_ack c = ring k n a" using c(2,3) d(4,5) by simp_all
    fix y assume y: "s \<le> y" "y < s + n"
    show "map_option (rb_units c) (rb_unit c (ring k n y)) = (M(x \<mapsto> v)) y"
    proof (cases "y = x")
      case False
      then have "ring k n y \<noteq> ring k n x" "rb_unit b (ring k n y) \<noteq> Some u"
        using ring_eq [OF y x, of k] free d(1) by auto
      then show ?thesis using d(7) [OF y] False c(4,5) by (cases "rb_unit b (ring k n y)") auto
    qed (simp add: c(4,5))
  next
    fix i j w assume ij: "0 \<le> i" "i < n" "0 \<le> j" "j < n" "rb_unit c i = Some w" "rb_unit c j = Some w"
    then show "i = j" using free [of i] free [of j] d(8) [of i j w] unfolding c(4) by (auto split: if_splits)
  qed
qed

lemma rb_add_data_spec:
  assumes h: "rb_holds k s a M b" and n: "n = rb_size b" and o: "0 \<le> offset" "offset < rb_avail b" and u: "u \<notin> rb_pointers b"
  shows "\<exists>c. rb_add_data u offset b = Inr (if a + offset \<in> dom M then -1 else 0, c) \<and> rb_size c = n \<and> rb_notch c = rb_notch b \<and>
    rb_max_pos c = max (rb_max_pos b) offset \<and>
    rb_holds k s a (if a + offset \<in> dom M then M else M(a + offset \<mapsto> (rb_units b u)\<lparr>un_flag := 1\<rparr>)) c"
proof -
  note d = rb_holdsD [OF h n]
  have x: "s \<le> a + offset" "a + offset < s + n" using o rb_data_size_at [OF h] d(2) n by (simp_all add: rb_avail_def)
  have "(rb_last_ack b + offset) smod n = ring k n (a + offset)" using ring_smod0 [OF d(1), of a "a + offset" k] o(1) d(5) by simp
  then have pos: "(rb_last_ack b + offset) smod rb_size b = ring k n (a + offset)" using n by simp
  define b' where b': "b' = (if offset > rb_max_pos b then b\<lparr>rb_max_pos := offset\<rparr> else b)"
  have f: "rb_size b' = n" "rb_start b' = rb_start b" "rb_last_ack b' = rb_last_ack b" "rb_unit b' = rb_unit b" "rb_units b' = rb_units b"
    "rb_notch b' = rb_notch b" "rb_max_pos b' = max (rb_max_pos b) offset" using n by (simp_all add: b')
  have add: "rb_add_data u offset b = (case rb_unit b (ring k n (a + offset)) of
      Some _ \<Rightarrow> Inr (-1, b')
    | None \<Rightarrow> Inr (0, rb_set_flag u 1 (b'\<lparr>rb_unit := (rb_unit b)(ring k n (a + offset) := Some u), rb_used := rb_used b' + 1\<rparr>)))"
    using d(1) f(1,4) by (simp add: rb_add_data_def pos b' [symmetric] Let_def rb_at_def)
  show ?thesis
  proof (cases "M (a + offset)")
    case (Some v)
    then obtain w where "rb_unit b (ring k n (a + offset)) = Some w" using rb_unit_cases(2) [OF h n x] by blast
    moreover have "rb_holds k s a M b'" using h f n unfolding rb_holds_def by simp
    ultimately show ?thesis using Some add f by auto
  next
    case None
    let ?c = "rb_set_flag u 1 (b'\<lparr>rb_unit := (rb_unit b)(ring k n (a + offset) := Some u), rb_used := rb_used b' + 1\<rparr>)"
    have "rb_add_data u offset b = Inr (0, ?c)" using add rb_unit_cases(1) [OF h n x None] by simp
    moreover have "rb_holds k s a (M(a + offset \<mapsto> (rb_units b u)\<lparr>un_flag := 1\<rparr>)) ?c"
      by (rule rb_put_holds [OF h n x u]) (simp_all add: rb_set_flag_def f)
    moreover have "rb_size ?c = n" "rb_notch ?c = rb_notch b" "rb_max_pos ?c = max (rb_max_pos b) offset"
      by (simp_all add: rb_set_flag_def f)
    ultimately show ?thesis using None by (auto simp: domIff)
  qed
qed

lemma rb_ack_data_spec:
  assumes h: "rb_holds k s a M b" and n: "n = rb_size b" and l: "0 \<le> l" "a + l < s + n"
  shows "rb_holds k s (a + l) M (rb_ack_data l b)"
proof -
  note d = rb_holdsD [OF h n]
  have "(rb_last_ack b + l) smod n = ring k n (a + l)" using ring_smod0 [OF d(1), of a "a + l" k] l(1) d(5) by simp
  then show ?thesis using h n l unfolding rb_holds_def by (auto simp: rb_ack_data_def Let_def)
qed

subsection \<open>A stream is read\<close>

definition rb_stream :: "(int \<Rightarrow> unit_block option) \<Rightarrow> int \<Rightarrow> int \<Rightarrow> byte list" where
  "rb_stream M s a = concat (map (\<lambda>x. case M x of Some u \<Rightarrow> un_data u | None \<Rightarrow> []) [s..a - 1])"

text \<open>What was acknowledged is there, and the part of the first packet that was read is a part of it.\<close>

definition rb_ready :: "(int \<Rightarrow> unit_block option) \<Rightarrow> int \<Rightarrow> int \<Rightarrow> int \<Rightarrow> bool" where
  "rb_ready M s a notch \<longleftrightarrow> {s..<a} \<subseteq> dom M \<and> 0 \<le> notch \<and> (if s < a then notch \<le> un_length (the (M s)) else notch = 0)"

definition rb_rest :: "(int \<Rightarrow> unit_block option) \<Rightarrow> int \<Rightarrow> int \<Rightarrow> int \<Rightarrow> byte list" where
  "rb_rest M s a notch = drop (nat notch) (rb_stream M s a)"

lemma rb_stream_empty [simp]: "a \<le> s \<Longrightarrow> rb_stream M s a = []"
  by (simp add: rb_stream_def)

lemma rb_stream_first: "s < a \<Longrightarrow> M s = Some u \<Longrightarrow> rb_stream M s a = un_data u @ rb_stream M (s + 1) a"
  by (simp add: rb_stream_def upto_rec1)

lemma rb_stream_cong: "(\<And>x. s \<le> x \<Longrightarrow> x < a \<Longrightarrow> M x = N x) \<Longrightarrow> rb_stream M s a = rb_stream N s a"
  unfolding rb_stream_def by (intro arg_cong [of _ _ concat] map_cong) auto

definition rd_rep :: "int \<Rightarrow> int \<Rightarrow> int \<Rightarrow> (int \<Rightarrow> unit_block option) \<Rightarrow> reading \<Rightarrow> bool" where
  "rd_rep k p a M r \<longleftrightarrow> rd_pos r = ring k (rb_size (rd_buffer r)) p \<and> rb_holds k p a M ((rd_buffer r)\<lparr>rb_start := rd_pos r\<rparr>)"

lemma rb_release_start: "rb_release i (b\<lparr>rb_start := v\<rparr>) = mapr (\<lambda>c. c\<lparr>rb_start := v\<rparr>) (rb_release i b)"
  by (auto simp: rb_release_def rb_at_def rb_set_flag_def split: option.splits)

lemma rb_deref_start: "rb_deref (b\<lparr>rb_start := v\<rparr>) i = rb_deref b i"
  by (simp add: rb_deref_def rb_at_def split: option.splits)

lemma restrict_same: "dom M \<subseteq> {p..<q} \<Longrightarrow> M |` {p..} = (M :: int \<Rightarrow> 'a option)"
proof
  fix x assume "dom M \<subseteq> {p..<q}"
  then show "(M |` {p..}) x = M x" by (cases "M x") (auto simp: restrict_map_def)
qed

text \<open>One turn of the loop: the packet is read to its end, or a part of it is.\<close>

lemma rd_step_whole:
  assumes rep: "rd_rep k p a M r" and p: "p < a" "M p = Some u" and left: "rd_left r > 0" and notch: "0 \<le> rb_notch (rd_buffer r)" "rb_notch (rd_buffer r) \<le> un_length u"
    and enough: "un_length u - rb_notch (rd_buffer r) \<le> rd_left r" and f: "\<not> fails j"
  shows "\<exists>r'. rb_read_once fails (ring k (rb_size (rd_buffer r)) a) j r = Inr (True, r') \<and> rd_rep k (p + 1) a (M(p := None)) r' \<and>
    rd_left r' = rd_left r - (un_length u - rb_notch (rd_buffer r)) \<and> rd_out r' = rd_out r @ drop (nat (rb_notch (rd_buffer r))) (un_data u) \<and>
    rb_notch (rd_buffer r') = 0 \<and> rb_size (rd_buffer r') = rb_size (rd_buffer r) \<and> rb_max_pos (rd_buffer r') = rb_max_pos (rd_buffer r)"
proof -
  define b n where b: "b = rd_buffer r" and n: "n = rb_size b"
  have h: "rb_holds k p a M (b\<lparr>rb_start := rd_pos r\<rparr>)" and pos: "rd_pos r = ring k n p" using rep unfolding rd_rep_def b n by blast+
  have n': "n = rb_size (b\<lparr>rb_start := rd_pos r\<rparr>)" by (simp add: n)
  note d = rb_holdsD [OF h n']
  have ne: "rd_pos r \<noteq> ring k n a" using ring_eq [of p p n a k] d(1-3) p(1) pos by simp
  have get: "rb_deref b (rd_pos r) = Inr u"
    using rb_deref_at [OF h n' order_refl _ p(2)] d(1) pos by (simp add: rb_deref_start)
  obtain c where c: "rb_release (rd_pos r) (b\<lparr>rb_start := rd_pos r\<rparr>) = Inr c" "rb_holds k p a (M(p := None)) c" "rb_size c = n" "rb_max_pos c = rb_max_pos b"
    using rb_release_holds [OF h n' order_refl _ p(2)] d(1) pos by auto
  then obtain c' where c': "rb_release (rd_pos r) b = Inr c'" "c = c'\<lparr>rb_start := rd_pos r\<rparr>"
    unfolding rb_release_start by (cases "rb_release (rd_pos r) b") auto
  let ?r = "\<lparr>rd_pos = ring k n (p + 1), rd_left = rd_left r - (un_length u - rb_notch b), rd_out = rd_out r @ drop (nat (rb_notch b)) (un_data u),
      rd_buffer = c'\<lparr>rb_notch := 0\<rparr>\<rparr>"
  have "take (nat (un_length u - rb_notch b)) (drop (nat (rb_notch b)) (un_data u)) = drop (nat (rb_notch b)) (un_data u)"
    using notch by (simp add: un_length_def b)
  then have "rb_read_once fails (ring k n a) j r = Inr (True, ?r)"
    using ne get left enough notch f c'(1) rb_succ_ring [OF n d(1), of k p] pos
    by (auto simp: rb_read_once_def rb_consume_def b [symmetric] Let_def min_def)
  moreover have "rb_holds k (p + 1) a (M(p := None)) (c\<lparr>rb_start := ring k n (p + 1)\<rparr>)"
    using rb_holds_next [OF c(2) c(3) [symmetric]] p(1) by simp
  then have "rb_holds k (p + 1) a (M(p := None)) (c'\<lparr>rb_notch := 0, rb_start := ring k n (p + 1)\<rparr>)" unfolding c'(2) by (simp add: rb_holds_def)
  then have "rd_rep k (p + 1) a (M(p := None)) ?r" using c(3) c'(2) by (simp add: rd_rep_def)
  ultimately show ?thesis using c(3,4) c'(2) by (intro exI [of _ ?r]) (simp add: b n)
qed

lemma rd_step_part:
  assumes rep: "rd_rep k p a M r" and p: "p < a" "M p = Some u" and left: "rd_left r > 0" and notch: "0 \<le> rb_notch (rd_buffer r)"
    and part: "rd_left r < un_length u - rb_notch (rd_buffer r)" and f: "\<not> fails j"
  shows "\<exists>r'. loop_while (rb_read_once fails (ring k (rb_size (rd_buffer r)) a)) j r = Some (Inr r') \<and> rd_rep k p a M r' \<and>
    rd_left r' = 0 \<and> rd_out r' = rd_out r @ take (nat (rd_left r)) (drop (nat (rb_notch (rd_buffer r))) (un_data u)) \<and>
    rb_notch (rd_buffer r') = rb_notch (rd_buffer r) + rd_left r \<and> rb_size (rd_buffer r') = rb_size (rd_buffer r) \<and> rb_max_pos (rd_buffer r') = rb_max_pos (rd_buffer r)"
proof -
  define b n where b: "b = rd_buffer r" and n: "n = rb_size b"
  have h: "rb_holds k p a M (b\<lparr>rb_start := rd_pos r\<rparr>)" and pos: "rd_pos r = ring k n p" using rep unfolding rd_rep_def b n by blast+
  have n': "n = rb_size (b\<lparr>rb_start := rd_pos r\<rparr>)" by (simp add: n)
  note d = rb_holdsD [OF h n']
  have ne: "rd_pos r \<noteq> ring k n a" using ring_eq [of p p n a k] d(1-3) p(1) pos by simp
  have get: "rb_deref b (rd_pos r) = Inr u"
    using rb_deref_at [OF h n' order_refl _ p(2)] d(1) pos by (simp add: rb_deref_start)
  let ?r = "\<lparr>rd_pos = rd_pos r, rd_left = 0, rd_out = rd_out r @ take (nat (rd_left r)) (drop (nat (rb_notch b)) (un_data u)),
      rd_buffer = b\<lparr>rb_notch := rb_notch b + rd_left r\<rparr>\<rparr>"
  have "rb_read_once fails (ring k n a) j r = Inr (True, ?r)"
    using ne get left part notch f by (simp add: rb_read_once_def rb_consume_def b [symmetric] Let_def min_def)
  moreover have "rb_read_once fails (ring k n a) (Suc j) ?r = Inr (False, ?r)" by (simp add: rb_read_once_def)
  ultimately have "loop_while (rb_read_once fails (ring k n a)) j r = Some (Inr ?r)" by (simp add: loop_while_goes loop_while_stops)
  moreover have "rd_rep k p a M ?r" using h pos n by (simp add: rd_rep_def rb_holds_def)
  ultimately show ?thesis by (intro exI [of _ ?r]) (simp add: b n)
qed

lemma rd_stop: "rd_rep k p a M r \<Longrightarrow> a \<le> p \<or> rd_left r \<le> 0 \<Longrightarrow> rb_read_once fails (ring k (rb_size (rd_buffer r)) a) j r = Inr (False, r)"
  by (auto simp: rd_rep_def rb_read_once_def rb_holds_def)

lemma rb_read_loop:
  assumes "rd_rep k p a M r" and "rb_ready M p a (rb_notch (rd_buffer r))" and "0 \<le> rd_left r" and "n = rb_size (rd_buffer r)"
  shows "\<exists>r' q m. loop_while (rb_read_once fails (ring k n a)) j r = Some (Inr r') \<and> p \<le> q \<and> q \<le> a \<and> rd_rep k q a (M |` {q..}) r' \<and>
    rb_ready (M |` {q..}) q a (rb_notch (rd_buffer r')) \<and> 0 \<le> rd_left r' \<and> rd_left r' = rd_left r - int m \<and>
    rd_out r' = rd_out r @ take m (rb_rest M p a (rb_notch (rd_buffer r))) \<and> m \<le> length (rb_rest M p a (rb_notch (rd_buffer r))) \<and>
    rb_rest (M |` {q..}) q a (rb_notch (rd_buffer r')) = drop m (rb_rest M p a (rb_notch (rd_buffer r))) \<and>
    rb_size (rd_buffer r') = n \<and> rb_max_pos (rd_buffer r') = rb_max_pos (rd_buffer r) \<and>
    ((\<forall>i. \<not> fails i) \<longrightarrow> m = length (rb_rest M p a (rb_notch (rd_buffer r))) \<or> rd_left r' = 0)"
  using assms
proof (induction "nat (a - p)" arbitrary: p M r j)
  case 0
  have h: "rb_holds k p a M ((rd_buffer r)\<lparr>rb_start := rd_pos r\<rparr>)" using "0.prems"(1) unfolding rd_rep_def by blast
  then have pa: "p = a" using "0.hyps" rb_holdsD(2) by fastforce
  have "M |` {p..} = M" using restrict_same [OF rb_holdsD(6) [OF h refl]] .
  with "0.prems" rd_stop [OF "0.prems"(1), of fails j] pa show ?case
    by (intro exI [of _ r] exI [of _ p] exI [of _ 0]) (simp add: loop_while_stops rb_rest_def)
next
  case (Suc d)
  then have pa: "p < a" by simp
  let ?b = "rd_buffer r"
  have h: "rb_holds k p a M (?b\<lparr>rb_start := rd_pos r\<rparr>)" using Suc.prems(1) unfolding rd_rep_def by blast
  have M: "M |` {p..} = M" using restrict_same [OF rb_holdsD(6) [OF h refl]] .
  have ready: "{p..<a} \<subseteq> dom M" "0 \<le> rb_notch ?b" using Suc.prems(2) by (simp_all add: rb_ready_def)
  then obtain u where u: "M p = Some u" using pa by force
  have notch: "rb_notch ?b \<le> un_length u" using Suc.prems(2) pa u by (simp add: rb_ready_def)
  have rest: "rb_rest M p a (rb_notch ?b) = drop (nat (rb_notch ?b)) (un_data u) @ rb_stream M (p + 1) a"
    using rb_stream_first [of p a M u] pa u notch by (simp add: rb_rest_def un_length_def)
  consider "rd_left r = 0" | "rd_left r > 0" "fails j" | "rd_left r > 0" "\<not> fails j" "rd_left r < un_length u - rb_notch ?b"
    | "rd_left r > 0" "\<not> fails j" "un_length u - rb_notch ?b \<le> rd_left r" using Suc.prems(3) by linarith
  then show ?case
  proof cases
    case 1
    with Suc.prems rd_stop [OF Suc.prems(1), of fails j] pa M show ?thesis
      by (intro exI [of _ r] exI [of _ p] exI [of _ 0]) (simp add: loop_while_stops)
  next
    case 2
    have pos: "rd_pos r = ring k n p" using Suc.prems(1,4) unfolding rd_rep_def by blast
    have "0 < n" using rb_holdsD(1) [OF h] Suc.prems(4) by simp
    then have "rb_deref ?b (rd_pos r) = Inr u"
      using rb_deref_at [OF h _ order_refl _ u] Suc.prems(4) pos by (simp add: rb_deref_start)
    then have "rb_read_once fails (ring k n a) j r = Inr (False, r)"
      using 2 notch by (simp add: rb_read_once_def Let_def min_def)
    with Suc.prems pa M 2 show ?thesis
      by (intro exI [of _ r] exI [of _ p] exI [of _ 0]) (auto simp: loop_while_stops)
  next
    case 3
    obtain r' where r': "loop_while (rb_read_once fails (ring k n a)) j r = Some (Inr r')" "rd_rep k p a M r'" "rd_left r' = 0"
      "rd_out r' = rd_out r @ take (nat (rd_left r)) (drop (nat (rb_notch ?b)) (un_data u))" "rb_notch (rd_buffer r') = rb_notch ?b + rd_left r"
      "rb_size (rd_buffer r') = n" "rb_max_pos (rd_buffer r') = rb_max_pos ?b"
      using rd_step_part [OF Suc.prems(1) pa u 3(1) ready(2) 3(3), where fails = fails and j = j] 3(2) Suc.prems(4) by blast
    have len: "nat (rd_left r) \<le> length (drop (nat (rb_notch ?b)) (un_data u))" using 3 ready(2) by (simp add: un_length_def)
    have "rb_ready M p a (rb_notch (rd_buffer r'))" using r'(5) 3 ready pa u by (simp add: rb_ready_def)
    moreover have "rb_rest M p a (rb_notch (rd_buffer r')) = drop (nat (rd_left r)) (rb_rest M p a (rb_notch ?b))"
      using ready(2) 3(1) by (simp add: rb_rest_def r'(5) nat_add_distrib add.commute)
    ultimately show ?thesis using r' rest len pa M 3(1)
      by (intro exI [of _ r'] exI [of _ p] exI [of _ "nat (rd_left r)"]) simp
  next
    case 4
    obtain r' where r': "rb_read_once fails (ring k n a) j r = Inr (True, r')" "rd_rep k (p + 1) a (M(p := None)) r'"
      "rd_left r' = rd_left r - (un_length u - rb_notch ?b)" "rd_out r' = rd_out r @ drop (nat (rb_notch ?b)) (un_data u)"
      "rb_notch (rd_buffer r') = 0" "rb_size (rd_buffer r') = n" "rb_max_pos (rd_buffer r') = rb_max_pos ?b"
      using rd_step_whole [OF Suc.prems(1) pa u 4(1) ready(2) notch 4(3), where fails = fails and j = j] 4(2) Suc.prems(4) by blast
    let ?M = "M(p := None)" and ?l = "length (drop (nat (rb_notch ?b)) (un_data u))"
    have l: "int ?l = un_length u - rb_notch ?b" using notch ready(2) by (simp add: un_length_def)
    have "{p + 1..<a} \<subseteq> dom ?M"
    proof
      fix x assume "x \<in> {p + 1..<a}"
      moreover from this have "x \<in> {p..<a}" by simp
      with ready(1) have "x \<in> dom M" by blast
      ultimately show "x \<in> dom ?M" by auto
    qed
    then have ready': "rb_ready ?M (p + 1) a (rb_notch (rd_buffer r'))" using r'(5) by (simp add: rb_ready_def un_length_def)
    have rest': "rb_rest ?M (p + 1) a (rb_notch (rd_buffer r')) = rb_stream M (p + 1) a"
      by (simp add: rb_rest_def r'(5)) (rule rb_stream_cong, simp)
    have left': "0 \<le> rd_left r'" using r'(3) 4(3) by simp
    have d: "d = nat (a - (p + 1))" using Suc.hyps(2) pa by linarith
    obtain s q m where s: "loop_while (rb_read_once fails (ring k n a)) (Suc j) r' = Some (Inr s)" "p + 1 \<le> q" "q \<le> a" "rd_rep k q a (?M |` {q..}) s"
      "rb_ready (?M |` {q..}) q a (rb_notch (rd_buffer s))" "0 \<le> rd_left s" "rd_left s = rd_left r' - int m"
      "rd_out s = rd_out r' @ take m (rb_stream M (p + 1) a)" "m \<le> length (rb_stream M (p + 1) a)"
      "rb_rest (?M |` {q..}) q a (rb_notch (rd_buffer s)) = drop m (rb_stream M (p + 1) a)"
      "rb_size (rd_buffer s) = n" "rb_max_pos (rd_buffer s) = rb_max_pos (rd_buffer r')"
      "(\<forall>i. \<not> fails i) \<longrightarrow> m = length (rb_stream M (p + 1) a) \<or> rd_left s = 0"
      using Suc.hyps(1) [OF d r'(2) ready' left' r'(6) [symmetric], of "Suc j"] unfolding rest' by blast
    have M': "?M |` {q..} = M |` {q..}" using s(2) by (auto simp: restrict_map_def)
    have "loop_while (rb_read_once fails (ring k n a)) j r = Some (Inr s)" using r'(1) s(1) by (simp add: loop_while_goes)
    then show ?thesis using s(2-) r'(3,4,7) rest l unfolding M'
      by (intro exI [of _ s] exI [of _ q] exI [of _ "?l + m"]) auto
  qed
qed

lemma rb_read_spec:
  assumes h: "rb_holds k s a M b" and ready: "rb_ready M s a (rb_notch b)" and len: "0 \<le> len"
  shows "\<exists>c q m. rb_read fails len b = Some (Inr (int m, take m (rb_rest M s a (rb_notch b)), c)) \<and> s \<le> q \<and> q \<le> a \<and>
    rb_holds k q a (M |` {q..}) c \<and> rb_ready (M |` {q..}) q a (rb_notch c) \<and> rb_rest (M |` {q..}) q a (rb_notch c) = drop m (rb_rest M s a (rb_notch b)) \<and>
    rb_size c = rb_size b \<and> rb_max_pos c = rb_max_pos b \<and> m \<le> length (rb_rest M s a (rb_notch b)) \<and> int m \<le> len \<and>
    ((\<forall>i. \<not> fails i) \<longrightarrow> m = length (rb_rest M s a (rb_notch b)) \<or> len = int m)"
proof -
  define n where n: "n = rb_size b"
  note d = rb_holdsD [OF h n]
  let ?r = "\<lparr>rd_pos = rb_start b, rd_left = len, rd_out = [], rd_buffer = b\<rparr>"
  have "rb_holds k s a M (b\<lparr>rb_start := rb_start b\<rparr>)" using h by simp
  with d(4) n have rep: "rd_rep k s a M ?r" by (simp add: rd_rep_def)
  obtain r' q m where r': "loop_while (rb_read_once fails (ring k n a)) 0 ?r = Some (Inr r')" "s \<le> q" "q \<le> a" "rd_rep k q a (M |` {q..}) r'"
    "rb_ready (M |` {q..}) q a (rb_notch (rd_buffer r'))" "0 \<le> rd_left r'" "rd_left r' = len - int m" "rd_out r' = take m (rb_rest M s a (rb_notch b))"
    "m \<le> length (rb_rest M s a (rb_notch b))" "rb_rest (M |` {q..}) q a (rb_notch (rd_buffer r')) = drop m (rb_rest M s a (rb_notch b))"
    "rb_size (rd_buffer r') = n" "rb_max_pos (rd_buffer r') = rb_max_pos b" "(\<forall>i. \<not> fails i) \<longrightarrow> m = length (rb_rest M s a (rb_notch b)) \<or> rd_left r' = 0"
    using rb_read_loop [OF rep, of n fails 0] ready len n unfolding reading.simps append_Nil by blast
  let ?c = "(rd_buffer r')\<lparr>rb_start := rd_pos r'\<rparr>"
  have "rb_read fails len b = Some (Inr (int m, take m (rb_rest M s a (rb_notch b)), ?c))" using r'(1,7,8) d(5) by (simp add: rb_read_def)
  moreover have "rb_holds k q a (M |` {q..}) ?c" using r'(4) unfolding rd_rep_def by blast
  ultimately show ?thesis using r' n
    by (intro exI [of _ ?c] exI [of _ q] exI [of _ m]) simp
qed

lemma rb_new_holds: "0 < n \<Longrightarrow> rb_holds (-x) x x Map.empty (rb_new units used n)"
  unfolding rb_holds_def by (simp add: rb_new_def ring_def)

subsection \<open>Messages that are dropped, or too large\<close>

text \<open>A message is dropped by comparing its number with the whole header word, so that the first and last packets of a message
  and those of messages in order are not found.\<close>

lemma rb_drop_misses:
  assumes "0 \<le> msgno" "msgno < 2 ^ 29" and "msg_boundary w \<noteq> 0 \<or> msg_order_flag w"
  shows "word_of_int msgno \<noteq> w"
proof
  assume w: "word_of_int msgno = w"
  have e: "uint w = msgno" unfolding w [symmetric] using assms(1,2) by (intro word_of_int_inverse [OF refl]) simp_all
  have t: "take_bit 32 (uint w) = uint w" using assms(1,2) by (simp add: e take_bit_int_eq_self_iff)
  have "uint (drop_bit 30 w) = msgno div 2 ^ 30" "uint (drop_bit 29 w) = msgno div 2 ^ 29"
    unfolding e [symmetric] by (simp_all only: unsigned_drop_bit_eq) (simp_all add: drop_bit_eq_div t)
  with assms(1,2) have z: "uint (drop_bit 30 w) = 0" "uint (drop_bit 29 w) = 0" by simp_all
  from z(2) have "drop_bit 29 w = 0" using uint_0_iff by blast
  with z(1) assms(3) show False by (simp add: msg_boundary_def msg_order_flag_def)
qed

text \<open>A message that fills the buffer is reported, but nothing of it is copied: the loop ends where it starts.\<close>

lemma rb_large_message_not_read:
  assumes "rb_scan_msg b = Some (Inr ((True, s), c))" and "sc_p s = (sc_q s + 1) smod rb_size c"
  shows "rb_read_msg len b = Some (Inr (0, [], if sc_passack s then c else c\<lparr>rb_start := sc_p s\<rparr>))"
  using assms by (simp add: rb_read_msg_def rb_msg_once_def loop_while_stops)

end
