(* ===== verification/UdtReceiver.thy ===== *)
theory UdtReceiver
  imports UdtLossReport UdtRcvBuffer
begin

text \<open>
  The receiving end of a UDT connection in streaming mode (src/udt/newlib/core.cpp): \<open>CUDT::processData\<close> takes a data packet,
  \<open>CUDT::sendCtrl\<close> acknowledges what arrived without a gap, and \<open>CUDT::recv\<close> reads it. The state is what these use of \<open>CUDT\<close>,
  the loss list and the buffer of the receiver among it; the reports of losses that are sent are recorded. Statistics,
  timers, congestion control and waiting are not modelled.
\<close>

subsection \<open>State\<close>

record udt_receiver =
  ur_last_ack :: int
  ur_last_ack_ack :: int
  ur_curr :: int
  ur_ack_seq :: int
  ur_losses :: rcv_loss_list
  ur_buffer :: rcv_buffer
  ur_naks :: "int list list"

definition ur_new :: "int \<Rightarrow> rcv_loss_list \<Rightarrow> rcv_buffer \<Rightarrow> udt_receiver" where
  "ur_new isn l b = \<lparr>ur_last_ack = isn, ur_last_ack_ack = isn, ur_curr = isn - 1, ur_ack_seq = 0, ur_losses = l, ur_buffer = b, ur_naks = []\<rparr>"

subsection \<open>A data packet\<close>

text \<open>A gap before the packet is inserted into the loss list and reported at once.\<close>

definition ur_gap :: "int \<Rightarrow> udt_receiver \<Rightarrow> udt_receiver result" where
  "ur_gap seqno r =
     (if seqcmp seqno (incseq (ur_curr r)) > 0 then
        mapr (\<lambda>l. r\<lparr>ur_losses := l, ur_naks := ur_naks r @ [nak_of_gap (ur_curr r) seqno]\<rparr>)
          (rcl_insert (incseq (ur_curr r)) (decseq seqno) (ur_losses r))
      else Inr r)"

text \<open>The largest number so far is updated, or a packet that was sent again is not missing any more.\<close>

definition ur_mark :: "int \<Rightarrow> udt_receiver \<Rightarrow> udt_receiver result option" where
  "ur_mark seqno r =
     (if seqcmp seqno (ur_curr r) > 0 then Some (Inr (r\<lparr>ur_curr := seqno\<rparr>))
      else bindo (rcl_remove seqno (ur_losses r)) (\<lambda>(_, l). Some (Inr (r\<lparr>ur_losses := l\<rparr>))))"

definition ur_process_data :: "int \<Rightarrow> nat \<Rightarrow> udt_receiver \<Rightarrow> (int \<times> udt_receiver) result option" where
  "ur_process_data seqno u r =
     (let offset = seqoff (ur_last_ack r) seqno in
      if offset < 0 \<or> offset \<ge> rb_avail (ur_buffer r) then Some (Inr (-1, r))
      else
        bindo (Some (rb_add_data u offset (ur_buffer r))) (\<lambda>(v, b).
        let r = r\<lparr>ur_buffer := b\<rparr> in
        if v < 0 then Some (Inr (-1, r))
        else bindo (Some (ur_gap seqno r)) (\<lambda>r. bindo (ur_mark seqno r) (\<lambda>r. Some (Inr (0, r))))))"

text \<open>What arrives is first written to a unit of the queue of units.\<close>

definition ur_fill :: "nat \<Rightarrow> byte list \<Rightarrow> 32 word \<Rightarrow> udt_receiver \<Rightarrow> udt_receiver" where
  "ur_fill u bs w r =
     (let b = ur_buffer r in
      r\<lparr>ur_buffer := b\<lparr>rb_units := (rb_units b)(u := \<lparr>un_flag = un_flag (rb_units b u), un_data = bs, un_msg_no = w\<rparr>)\<rparr>\<rparr>)"

subsection \<open>Acknowledgements\<close>

datatype ack_packet = LiteAck int | FullAck int int int

text \<open>Whether it is too early to repeat the last acknowledgement is an argument.\<close>

definition ur_ack_number :: "udt_receiver \<Rightarrow> int result" where
  "ur_ack_number r =
     (if rcl_get_loss_length (ur_losses r) = 0 then Inr (incseq (ur_curr r)) else rcl_get_first_lost_seq (ur_losses r))"

definition ur_move_ack :: "int \<Rightarrow> udt_receiver \<Rightarrow> udt_receiver" where
  "ur_move_ack ack r = r\<lparr>ur_last_ack := ack, ur_buffer := rb_ack_data (seqoff (ur_last_ack r) ack) (ur_buffer r)\<rparr>"

definition ur_full_ack :: "udt_receiver \<Rightarrow> ack_packet option \<times> udt_receiver" where
  "ur_full_ack r =
     (if seqcmp (ur_last_ack r) (ur_last_ack_ack r) > 0
      then (Some (FullAck (incack (ur_ack_seq r)) (ur_last_ack r) (max 2 (rb_avail (ur_buffer r)))), r\<lparr>ur_ack_seq := incack (ur_ack_seq r)\<rparr>)
      else (None, r))"

definition ur_send_ack :: "bool \<Rightarrow> bool \<Rightarrow> udt_receiver \<Rightarrow> (ack_packet option \<times> udt_receiver) result" where
  "ur_send_ack lite early r =
     bindr (ur_ack_number r) (\<lambda>ack.
       if ack = ur_last_ack_ack r then Inr (None, r)
       else if lite then Inr (Some (LiteAck ack), r)
       else if seqcmp ack (ur_last_ack r) > 0 then Inr (ur_full_ack (ur_move_ack ack r))
       else if ack = ur_last_ack r \<and> \<not> early then Inr (ur_full_ack r)
       else Inr (None, r))"

definition ur_ack_acked :: "int \<Rightarrow> udt_receiver \<Rightarrow> udt_receiver" where
  "ur_ack_acked ack r = (if seqcmp ack (ur_last_ack_ack r) > 0 then r\<lparr>ur_last_ack_ack := ack\<rparr> else r)"

subsection \<open>Reading\<close>

definition ur_recv :: "int \<Rightarrow> udt_receiver \<Rightarrow> (int \<times> byte list \<times> udt_receiver) result option" where
  "ur_recv len r =
     bindo (rb_read_buffer len (ur_buffer r)) (\<lambda>(n, bs, b). Some (Inr (n, bs, r\<lparr>ur_buffer := b\<rparr>)))"

subsection \<open>The invariant\<close>

text \<open>The number of the last packet is -1 at the start if the first number is 0.\<close>

definition curr_is :: "int \<Rightarrow> int \<Rightarrow> bool" where
  "curr_is c C \<longleftrightarrow> c = seq_no C \<or> (c = -1 \<and> seq_no C = max_seq_no)"

lemma curr_is_inc:
  assumes "curr_is c C"
  shows "incseq c = seq_no (C + 1)"
  using assms unfolding curr_is_def
proof (elim disjE conjE)
  assume c: "c = -1" "seq_no C = max_seq_no"
  have "seq_no (C + 1) = incseq (seq_no C)" by (rule incseq_no [symmetric])
  with c show ?thesis by (simp add: incseq_def max_seq_no_def)
qed simp

lemma curr_is_cmp:
  assumes "curr_is c C" and n: "near x C"
  shows "seqcmp (seq_no x) c > 0 \<longleftrightarrow> C < x"
  using assms(1) unfolding curr_is_def
proof (elim disjE conjE)
  assume c: "c = -1" "seq_no C = max_seq_no"
  obtain X where X: "X = seq_no x" "0 \<le> X" "X < 2147483648" by simp
  have "X - 2147483647 = x - C \<or> X - 2147483647 = x - C + 2147483648 \<or> X - 2147483647 = x - C - 2147483648"
    by (rule near_cases [OF n]) (simp_all add: X(1) c(2) max_seq_no_def)
  moreover have "x - C < 1073741823" "C - x < 1073741823" using n by (auto simp: near_iff)
  ultimately have "X + 1 < 1073741823 \<longleftrightarrow> C < x" using X(2,3) by linarith
  moreover have "seqcmp X (-1) > 0 \<longleftrightarrow> X + 1 < 1073741823" using X(2) by (simp add: seqcmp_def seq_no_th_def)
  ultimately show ?thesis using c(1) X(1) by simp
qed (simp add: seqcmp_near [OF n])

text \<open>\<open>P\<close> is what the packets hold, by position. The buffer and the loss list agree on what arrived; \<open>out\<close> was read.\<close>

definition ur_inv :: "(int \<Rightarrow> byte list) \<Rightarrow> int \<Rightarrow> int \<Rightarrow> udt_receiver \<Rightarrow> byte list \<Rightarrow> bool" where
  "ur_inv P isn a r out \<longleftrightarrow> (\<exists>k s C S M. let b = ur_buffer r; n = rb_size b in
     rb_holds k s a M b \<and> rb_ready M s a (rb_notch b) \<and> rcl_holds S (ur_losses r) \<and>
     n \<le> rcl_size (ur_losses r) \<and> rcl_size (ur_losses r) \<le> 536870912 \<and>
     ur_last_ack r = seq_no a \<and> curr_is (ur_curr r) C \<and> a \<le> C + 1 \<and> isn \<le> a \<and> C + 1 < s + n \<and>
     S \<subseteq> {a..C} \<and> dom M \<subseteq> {s..C} \<and> (\<forall>x. a \<le> x \<and> x \<le> C \<longrightarrow> (x \<in> dom M) = (x \<notin> S)) \<and>
     (\<forall>x v. M x = Some v \<longrightarrow> un_data v = P x \<and> un_flag v = 1) \<and>
     out @ rb_rest M s a (rb_notch b) = concat (map P [isn..a - 1]))"

lemma ur_new_inv:
  assumes "0 \<le> isn" "isn < 2147483648" "0 < n" "n \<le> m" "m \<le> 536870912"
  shows "ur_inv P isn isn (ur_new isn (rcl_new m nj pj) (rb_new units used n)) []"
proof -
  have "curr_is (isn - 1) (isn - 1)"
  proof (cases "isn = 0")
    case True
    then show ?thesis by (simp add: curr_is_def seq_no_def max_seq_no_def)
  next
    case False
    with assms(1,2) show ?thesis by (simp add: curr_is_def seq_no_def)
  qed
  moreover have "rcl_holds {} (rcl_new m nj pj)" using assms(3-5) by (intro rcl_new_holds) simp_all
  ultimately show ?thesis using assms rb_new_holds [OF assms(3), of isn units used]
    unfolding ur_inv_def Let_def
    by (intro exI [of _ "- isn"] exI [of _ isn] exI [of _ "isn - 1"] exI [of _ "{}"] exI [of _ Map.empty])
      (simp add: ur_new_def rb_ready_def rb_rest_def rb_new_def rcl_new_def seq_no_def)
qed

text \<open>A unit that is free is not in the buffer.\<close>

lemma ring_onto:
  assumes "0 \<le> i" "i < (n :: int)"
  obtains x where "s \<le> x" "x < s + n" "ring k n x = i"
proof -
  let ?x = "s + (i - ring k n s) mod n"
  have n: "0 < n" using assms by simp
  have "ring k n ?x = (ring k n s + (i - ring k n s) mod n) mod n" by (simp add: ring_add)
  also have "\<dots> = i mod n" by (simp add: mod_simps)
  finally have "ring k n ?x = i" using assms by simp
  then show thesis using that [of ?x] n by simp
qed

lemma free_not_pointed:
  assumes "rb_holds k s a M b" and "\<forall>x v. M x = Some v \<longrightarrow> un_flag v = 1" and "un_flag (rb_units b u) = 0"
  shows "u \<notin> rb_pointers b"
proof
  assume "u \<in> rb_pointers b"
  then obtain i where i: "0 \<le> i" "i < rb_size b" "rb_unit b i = Some u" by (auto simp: rb_pointers_def)
  obtain x where x: "s \<le> x" "x < s + rb_size b" "ring k (rb_size b) x = i" by (rule ring_onto [OF i(1,2)])
  then have "M x = Some (rb_units b u)" using rb_holdsD(7) [OF assms(1) refl x(1,2)] i(3) by simp
  with assms(2,3) show False by auto
qed

subsection \<open>The operations keep the invariant\<close>

lemma ur_invE:
  assumes "ur_inv P isn a r out"
  obtains k s C S M where "rb_holds k s a M (ur_buffer r)" "rb_ready M s a (rb_notch (ur_buffer r))" "rcl_holds S (ur_losses r)"
    "rb_size (ur_buffer r) \<le> rcl_size (ur_losses r)" "rcl_size (ur_losses r) \<le> 536870912" "ur_last_ack r = seq_no a" "curr_is (ur_curr r) C"
    "a \<le> C + 1" "C + 1 < s + rb_size (ur_buffer r)" "S \<subseteq> {a..C}" "dom M \<subseteq> {s..C}" "isn \<le> a" "\<And>x. a \<le> x \<Longrightarrow> x \<le> C \<Longrightarrow> x \<in> dom M \<longleftrightarrow> x \<notin> S"
    "\<And>x v. M x = Some v \<Longrightarrow> un_data v = P x \<and> un_flag v = 1" "out @ rb_rest M s a (rb_notch (ur_buffer r)) = concat (map P [isn..a - 1])"
  using assms unfolding ur_inv_def Let_def by blast

lemma ur_invI:
  assumes "rb_holds k s a M (ur_buffer r)" "rb_ready M s a (rb_notch (ur_buffer r))" "rcl_holds S (ur_losses r)"
    "rb_size (ur_buffer r) \<le> rcl_size (ur_losses r)" "rcl_size (ur_losses r) \<le> 536870912" "ur_last_ack r = seq_no a" "curr_is (ur_curr r) C"
    "a \<le> C + 1" "C + 1 < s + rb_size (ur_buffer r)" "S \<subseteq> {a..C}" "dom M \<subseteq> {s..C}" "isn \<le> a" "\<And>x. a \<le> x \<Longrightarrow> x \<le> C \<Longrightarrow> x \<in> dom M \<longleftrightarrow> x \<notin> S"
    "\<And>x v. M x = Some v \<Longrightarrow> un_data v = P x \<and> un_flag v = 1" "out @ rb_rest M s a (rb_notch (ur_buffer r)) = concat (map P [isn..a - 1])"
  shows "ur_inv P isn a r out"
  unfolding ur_inv_def Let_def using assms by blast

text \<open>The marks of a packet that was put into the buffer.\<close>

lemma ur_marks:
  assumes l: "rcl_holds S (ur_losses r)" "rcl_size (ur_losses r) \<le> 536870912" "n \<le> rcl_size (ur_losses r)" and c: "curr_is (ur_curr r) C" "S \<subseteq> {a..C}"
    and x: "a \<le> x" "x < a + n" "a \<le> C + 1" "C + 1 \<le> a + n" "x \<le> C \<Longrightarrow> x \<in> S"
  shows "\<exists>t S' C'. bindo (Some (ur_gap (seq_no x) r)) (ur_mark (seq_no x)) = Some (Inr t) \<and> ur_buffer t = ur_buffer r \<and> ur_last_ack t = ur_last_ack r \<and>
    ur_last_ack_ack t = ur_last_ack_ack r \<and> ur_ack_seq t = ur_ack_seq r \<and>
    rcl_holds S' (ur_losses t) \<and> rcl_size (ur_losses t) = rcl_size (ur_losses r) \<and> curr_is (ur_curr t) C' \<and> C' = max C x \<and>
    S' = (S \<union> {C<..<x}) - {x}"
proof -
  let ?L = "rcl_size (ur_losses r)"
  have near: "near x C" "near x (C + 1)" using x assms(2,3) by (auto simp: near_iff)
  have cmp: "seqcmp (seq_no x) (incseq (ur_curr r)) > 0 \<longleftrightarrow> C + 1 < x" "seqcmp (seq_no x) (ur_curr r) > 0 \<longleftrightarrow> C < x"
    using curr_is_inc [OF c(1)] seqcmp_near(3) [OF near(2)] curr_is_cmp [OF c(1) near(1)] by simp_all
  have w: "S \<subseteq> {a..<a + ?L}" using c(2) x assms(3) by force
  consider "C + 1 < x" | "x = C + 1" | "x \<le> C" by linarith
  then show ?thesis
  proof cases
    case 1
    have "\<forall>z\<in>S. z < C + 1" "S \<union> {C + 1..x - 1} \<subseteq> {a..<a + ?L}" using 1 x assms(3) c(2) w by auto
    then obtain t where t: "rcl_insert (seq_no (C + 1)) (seq_no (x - 1)) (ur_losses r) = Inr t" "rcl_holds (S \<union> {C + 1..x - 1}) t" "rcl_size t = ?L"
      using rcl_insert_spec [OF l(1), of "C + 1" "x - 1" a] 1 by auto
    have "S \<union> {C + 1..x - 1} = (S \<union> {C<..<x}) - {x}" using c(2) 1 by auto
    moreover have "curr_is (seq_no x) (max C x)" using 1 by (simp add: curr_is_def)
    ultimately show ?thesis using 1 cmp t curr_is_inc [OF c(1)] by (simp add: ur_gap_def ur_mark_def)
  next
    case 2
    have "S = (S \<union> {C<..<x}) - {x}" using c(2) 2 by auto
    moreover have "curr_is (seq_no x) (max C x)" using 2 by (simp add: curr_is_def)
    ultimately show ?thesis using 2 cmp l by (simp add: ur_gap_def ur_mark_def)
  next
    case 3
    obtain t where t: "rcl_remove (seq_no x) (ur_losses r) = Some (Inr (x \<in> S, t))" "rcl_holds (S - {x}) t" "rcl_size t = ?L"
      using rcl_remove_spec [OF l(1) w, of x] x assms(3) 3 by auto
    have "(S \<union> {C<..<x}) - {x} = S - {x}" using 3 by auto
    with 3 cmp t c(1) show ?thesis by (simp add: ur_gap_def ur_mark_def max_def)
  qed
qed

lemma ur_process_data_spec:
  assumes inv: "ur_inv P isn a r out" and near: "near a x" and u: "un_flag (rb_units (ur_buffer r) u) = 0" "un_data (rb_units (ur_buffer r) u) = P x"
  shows "\<exists>v t. ur_process_data (seq_no x) u r = Some (Inr (v, t)) \<and> ur_inv P isn a t out \<and> ur_last_ack t = ur_last_ack r"
proof -
  let ?b = "ur_buffer r"
  obtain k s C S M where
    h: "rb_holds k s a M ?b" "rb_ready M s a (rb_notch ?b)" "rcl_holds S (ur_losses r)"
      "rb_size ?b \<le> rcl_size (ur_losses r)" "rcl_size (ur_losses r) \<le> 536870912" "ur_last_ack r = seq_no a" "curr_is (ur_curr r) C"
      "a \<le> C + 1" "C + 1 < s + rb_size ?b" "S \<subseteq> {a..C}" "dom M \<subseteq> {s..C}" "isn \<le> a"
    and M: "\<And>x. a \<le> x \<Longrightarrow> x \<le> C \<Longrightarrow> x \<in> dom M \<longleftrightarrow> x \<notin> S" "\<And>x v. M x = Some v \<Longrightarrow> un_data v = P x \<and> un_flag v = 1"
      "out @ rb_rest M s a (rb_notch ?b) = concat (map P [isn..a - 1])" by (rule ur_invE [OF inv]) blast
  have off: "seqoff (ur_last_ack r) (seq_no x) = x - a" using h(6) seqoff_near [OF near] by simp
  show ?thesis
  proof (cases "x < a \<or> x - a \<ge> rb_avail ?b")
    case True
    then have "ur_process_data (seq_no x) u r = Some (Inr (-1, r))" using off by (auto simp: ur_process_data_def)
    with inv show ?thesis by blast
  next
    case False
    then have x: "0 \<le> x - a" "x - a < rb_avail ?b" by simp_all
    have fresh: "u \<notin> rb_pointers ?b" using free_not_pointed [OF h(1) _ u(1)] M(2) by blast
    have ax: "a + (x - a) = x" by simp
    let ?u = "(rb_units ?b u)\<lparr>un_flag := 1\<rparr>"
    obtain c where c: "rb_add_data u (x - a) ?b = Inr (if x \<in> dom M then -1 else 0, c)" "rb_size c = rb_size ?b" "rb_notch c = rb_notch ?b"
      "rb_holds k s a (if x \<in> dom M then M else M(x \<mapsto> ?u)) c"
      using rb_add_data_spec [OF h(1) refl x fresh] unfolding ax by blast
    have step: "ur_process_data (seq_no x) u r =
        (if x \<in> dom M then Some (Inr (-1, r\<lparr>ur_buffer := c\<rparr>))
         else bindo (bindo (Some (ur_gap (seq_no x) (r\<lparr>ur_buffer := c\<rparr>))) (ur_mark (seq_no x))) (\<lambda>r. Some (Inr (0, r))))"
      using x off c(1) by (cases "ur_gap (seq_no x) (r\<lparr>ur_buffer := c\<rparr>)") (auto simp: ur_process_data_def Let_def)
    show ?thesis
    proof (cases "x \<in> dom M")
      case True
      have "ur_inv P isn a (r\<lparr>ur_buffer := c\<rparr>) out"
        by (rule ur_invI [of k s a M _ S C]) (use h M c True in simp_all)
      with step True show ?thesis by simp
    next
      case False
      have ca: "x < a + rb_size ?b" "x + 1 < s + rb_size ?b" using x rb_data_size_at [OF h(1)] rb_holdsD(2) [OF h(1) refl] by (auto simp: rb_avail_def)
      have xs: "x \<le> C \<Longrightarrow> x \<in> S" using M(1) [of x] False x(1) by auto
      have sa: "s \<le> a" "a < s + rb_size ?b" using rb_holdsD(2,3) [OF h(1) refl] by simp_all
      have m1: "rcl_holds S (ur_losses (r\<lparr>ur_buffer := c\<rparr>))" "rcl_size (ur_losses (r\<lparr>ur_buffer := c\<rparr>)) \<le> 536870912"
        "rb_size ?b \<le> rcl_size (ur_losses (r\<lparr>ur_buffer := c\<rparr>))" "curr_is (ur_curr (r\<lparr>ur_buffer := c\<rparr>)) C" using h by simp_all
      have m2: "a \<le> x" "C + 1 \<le> a + rb_size ?b" using x(1) h(9) sa by simp_all
      obtain t S' C' where t: "bindo (Some (ur_gap (seq_no x) (r\<lparr>ur_buffer := c\<rparr>))) (ur_mark (seq_no x)) = Some (Inr t)"
        "ur_buffer t = c" "ur_last_ack t = ur_last_ack r" "rcl_holds S' (ur_losses t)" "rcl_size (ur_losses t) = rcl_size (ur_losses r)"
        "curr_is (ur_curr t) C'" "C' = max C x" "S' = (S \<union> {C<..<x}) - {x}"
        using ur_marks [OF m1 h(10) m2(1) ca(1) h(8) m2(2) xs] by auto
      let ?M = "M(x \<mapsto> ?u)"
      have "rb_rest ?M s a (rb_notch ?b) = rb_rest M s a (rb_notch ?b)"
        unfolding rb_rest_def using m2(1) by (intro arg_cong [of _ _ "drop _"] rb_stream_cong) auto
      moreover have "rb_ready ?M s a (rb_notch ?b)" using h(2) m2(1) sa(1) unfolding rb_ready_def by auto
      moreover have "S' \<subseteq> {a..C'}"
      proof
        fix y assume "y \<in> S'"
        then have "y \<in> S \<or> C < y \<and> y < x" using t(8) by auto
        then show "y \<in> {a..C'}" using t(7) h(8) subsetD [OF h(10), of y] by auto
      qed
      moreover have "dom ?M \<subseteq> {s..C'}"
      proof
        fix y assume "y \<in> dom ?M"
        then have "y = x \<or> y \<in> {s..C}" using h(11) by auto
        then show "y \<in> {s..C'}" using t(7) m2(1) sa(1) by auto
      qed
      moreover have "y \<in> dom ?M \<longleftrightarrow> y \<notin> S'" if "a \<le> y" "y \<le> C'" for y
        using that M(1) [of y] t(7,8) h(10,11) by (cases "y \<le> C"; cases "y = x") auto
      moreover have "un_data v = P y \<and> un_flag v = 1" if "?M y = Some v" for y v
        using that M(2) [of y v] u(2) by (cases "y = x") auto
      moreover have "a \<le> C' + 1" "C' + 1 < s + rb_size ?b" using t(7) h(8,9) ca(2) by auto
      ultimately have "ur_inv P isn a t out"
        using h(4-6,12) M(3) t c(2-4) False by (intro ur_invI [of k s a ?M t S' C']) simp_all
      with step False t(1,3) show ?thesis by simp
    qed
  qed
qed

text \<open>The acknowledgement moves to the first packet that is missing, or past the last one.\<close>

lemma upto_join: "s \<le> a \<Longrightarrow> a \<le> a' \<Longrightarrow> [s..a' - 1] = [s..a - 1] @ [a..a' - 1]"
  using upto_split1 [of s a "a' - 1"] by (cases "a = a'") simp_all

lemma rb_stream_append: "s \<le> a \<Longrightarrow> a \<le> a' \<Longrightarrow> rb_stream M s a' = rb_stream M s a @ rb_stream M a a'"
  using upto_join [of s a a'] by (simp add: rb_stream_def)

lemma rb_stream_payload:
  assumes "{a..<a'} \<subseteq> dom M" and "\<And>x v. M x = Some v \<Longrightarrow> un_data v = P x"
  shows "rb_stream M a a' = concat (map P [a..a' - 1])"
  unfolding rb_stream_def
proof (intro arg_cong [of _ _ concat] map_cong refl)
  fix x assume "x \<in> set [a..a' - 1]"
  then have "x \<in> dom M" using assms(1) by auto
  then show "(case M x of Some u \<Rightarrow> un_data u | None \<Rightarrow> []) = P x" using assms(2) by (auto split: option.splits)
qed

lemma rb_notch_stream:
  assumes "rb_ready M s a notch" and "s \<le> a"
  shows "nat notch \<le> length (rb_stream M s a)"
proof (cases "s < a")
  case True
  with assms(1) have "s \<in> dom M" "notch \<le> un_length (the (M s))" by (auto simp: rb_ready_def)
  then show ?thesis using rb_stream_first [of s a M] True by (auto simp: un_length_def)
qed (use assms in \<open>simp add: rb_ready_def\<close>)

lemma ur_number_spec:
  assumes "ur_inv P isn a r out"
  shows "\<exists>a'. ur_ack_number r = Inr (seq_no a') \<and> a \<le> a' \<and> a' \<le> a + 536870912 \<and> ur_inv P isn a' (ur_move_ack (seq_no a') r) out"
proof -
  let ?b = "ur_buffer r"
  obtain k s C S M where
    h: "rb_holds k s a M ?b" "rb_ready M s a (rb_notch ?b)" "rcl_holds S (ur_losses r)"
      "rb_size ?b \<le> rcl_size (ur_losses r)" "rcl_size (ur_losses r) \<le> 536870912" "ur_last_ack r = seq_no a" "curr_is (ur_curr r) C"
      "a \<le> C + 1" "C + 1 < s + rb_size ?b" "S \<subseteq> {a..C}" "dom M \<subseteq> {s..C}" "isn \<le> a"
    and M: "\<And>x. a \<le> x \<Longrightarrow> x \<le> C \<Longrightarrow> x \<in> dom M \<longleftrightarrow> x \<notin> S" "\<And>x v. M x = Some v \<Longrightarrow> un_data v = P x \<and> un_flag v = 1"
      "out @ rb_rest M s a (rb_notch ?b) = concat (map P [isn..a - 1])" by (rule ur_invE [OF assms]) blast
  define a' where a': "a' = (if S = {} then C + 1 else Min S)"
  have fin: "finite S" "rcl_length (ur_losses r) = 0 \<longleftrightarrow> S = {}" using rcl_holds_length [OF h(3)] rcl_holds_empty [OF h(3)] by simp_all
  have w: "a \<le> a'" "a' \<le> C + 1" "\<forall>y\<in>S. a' \<le> y"
  proof -
    have "Min S \<in> S" if "S \<noteq> {}" using that fin(1) by simp
    then have "S \<noteq> {} \<Longrightarrow> Min S \<in> {a..C}" using h(10) by blast
    then show "a \<le> a'" "a' \<le> C + 1" using h(8) by (cases "S = {}"; force simp: a')+
    show "\<forall>y\<in>S. a' \<le> y" using fin(1) by (auto simp: a')
  qed
  have num: "ur_ack_number r = Inr (seq_no a')"
    using fin(2) curr_is_inc [OF h(7)] rcl_get_first_lost_seq_spec [OF h(3)] by (auto simp: ur_ack_number_def rcl_get_loss_length_def a')
  have sa: "s \<le> a" "a < s + rb_size ?b" using rb_holdsD(2,3) [OF h(1) refl] by simp_all
  have off: "seqoff (ur_last_ack r) (seq_no a') = a' - a"
    unfolding h(6) using w h(4,5,9) sa by (intro seqoff_near) (simp add: near_iff)
  have hb: "rb_holds k s a' M (rb_ack_data (a' - a) ?b)" using rb_ack_data_spec [OF h(1) refl, of "a' - a"] w h(9) by simp
  have notch: "rb_notch (rb_ack_data (a' - a) ?b) = rb_notch ?b" "rb_size (rb_ack_data (a' - a) ?b) = rb_size ?b" by (simp_all add: rb_ack_data_def Let_def)
  have "{a..<a'} \<subseteq> dom M" using M(1) w by fastforce
  moreover have "{s..<a} \<subseteq> dom M" using h(2) by (simp add: rb_ready_def)
  moreover have "{s..<a'} = {s..<a} \<union> {a..<a'}" using sa(1) w(1) by auto
  ultimately have dom: "{s..<a'} \<subseteq> dom M" "{a..<a'} \<subseteq> dom M" by simp_all
  have ready: "rb_ready M s a' (rb_notch ?b)"
    using h(2) dom(1) w(1) sa(1) by (cases "s < a") (auto simp: rb_ready_def un_length_def)
  have "rb_stream M s a' = rb_stream M s a @ concat (map P [a..a' - 1])"
    using rb_stream_append [OF sa(1) w(1)] rb_stream_payload [OF dom(2)] M(2) by simp
  then have "rb_rest M s a' (rb_notch ?b) = rb_rest M s a (rb_notch ?b) @ concat (map P [a..a' - 1])"
    using rb_notch_stream [OF h(2) sa(1)] by (simp add: rb_rest_def)
  moreover have "concat (map P [isn..a' - 1]) = concat (map P [isn..a - 1]) @ concat (map P [a..a' - 1])"
    using upto_join [OF h(12) w(1)] by simp
  ultimately have "out @ rb_rest M s a' (rb_notch ?b) = concat (map P [isn..a' - 1])"
    using M(3) by (metis append_assoc)
  then have "ur_inv P isn a' (ur_move_ack (seq_no a') r) out"
    using h M w hb ready notch off
    by (intro ur_invI [of k s a' M _ S C]) (auto simp: ur_move_ack_def)
  with num w h(9) sa h(4,5) show ?thesis by auto
qed

lemma ur_full_ack_inv:
  assumes "ur_inv P isn a r out"
  shows "ur_inv P isn a (snd (ur_full_ack r)) out" and "ur_last_ack (snd (ur_full_ack r)) = ur_last_ack r"
  using assms by (simp_all add: ur_full_ack_def ur_inv_def)

lemma ur_last_ack_inv: "ur_inv P isn a r out \<Longrightarrow> ur_last_ack r = seq_no a"
  by (auto simp: ur_inv_def Let_def)

lemma ur_send_ack_spec:
  assumes "ur_inv P isn a r out"
  shows "\<exists>p t a'. ur_send_ack lite early r = Inr (p, t) \<and> ur_inv P isn a' t out \<and> a \<le> a' \<and> a' = a + seqoff (ur_last_ack r) (ur_last_ack t)"
proof -
  obtain b where b: "ur_ack_number r = Inr (seq_no b)" "a \<le> b" "b \<le> a + 536870912" "ur_inv P isn b (ur_move_ack (seq_no b) r) out"
    using ur_number_spec [OF assms] by blast
  note la = ur_last_ack_inv [OF assms]
  have near: "near b a" "near a b" using b(2,3) by (simp_all add: near_iff)
  have same: "a = a + seqoff (ur_last_ack r) (ur_last_ack r)" by (simp add: seqoff_def seq_no_th_def)
  consider "seq_no b = ur_last_ack_ack r" | "lite" | "seq_no b \<noteq> ur_last_ack_ack r" "\<not> lite" by blast
  then show ?thesis
  proof cases
    case 3
    have cmp: "seqcmp (seq_no b) (ur_last_ack r) > 0 \<longleftrightarrow> a < b" "seq_no b = ur_last_ack r \<longleftrightarrow> a = b"
      using seqcmp_near(3) [OF near(1)] seq_no_eq_near [OF near(1)] la by auto
    show ?thesis
    proof (cases "a < b")
      case True
      let ?q = "ur_full_ack (ur_move_ack (seq_no b) r)"
      have "ur_send_ack lite early r = Inr (fst ?q, snd ?q)" using 3 b(1) cmp True by (simp add: ur_send_ack_def)
      moreover have "ur_last_ack (snd ?q) = seq_no b" using ur_full_ack_inv(2) [OF b(4)] by (simp add: ur_move_ack_def)
      then have "b = a + seqoff (ur_last_ack r) (ur_last_ack (snd ?q))" using la seqoff_near [OF near(2)] by simp
      ultimately show ?thesis using ur_full_ack_inv(1) [OF b(4)] b(2) by blast
    next
      case False
      with b(2) have "a = b" by simp
      show ?thesis
      proof (cases early)
        case True
        then have "ur_send_ack lite early r = Inr (None, r)" using 3 b(1) cmp False by (simp add: ur_send_ack_def)
        with same assms show ?thesis by blast
      next
        case no: False
        have "ur_send_ack lite early r = Inr (fst (ur_full_ack r), snd (ur_full_ack r))" using 3 b(1) cmp False \<open>a = b\<close> no by (simp add: ur_send_ack_def)
        with same ur_full_ack_inv [OF assms] show ?thesis by fastforce
      qed
    qed
  next
    case 1
    then have "ur_send_ack lite early r = Inr (None, r)" using b(1) by (simp add: ur_send_ack_def)
    with same assms show ?thesis by blast
  next
    case 2
    then obtain p where "ur_send_ack lite early r = Inr (p, r)" using b(1) by (cases "seq_no b = ur_last_ack_ack r") (simp_all add: ur_send_ack_def)
    with same assms show ?thesis by blast
  qed
qed

lemma ur_recv_spec:
  assumes "ur_inv P isn a r out" and "0 \<le> len"
  shows "\<exists>m rest t. ur_recv len r = Some (Inr (int m, take m rest, t)) \<and> ur_inv P isn a t (out @ take m rest) \<and> ur_last_ack t = ur_last_ack r \<and>
    out @ rest = concat (map P [isn..a - 1]) \<and> int m = min len (int (length rest))"
proof -
  let ?b = "ur_buffer r"
  obtain k s C S M where
    h: "rb_holds k s a M ?b" "rb_ready M s a (rb_notch ?b)" "rcl_holds S (ur_losses r)"
      "rb_size ?b \<le> rcl_size (ur_losses r)" "rcl_size (ur_losses r) \<le> 536870912" "ur_last_ack r = seq_no a" "curr_is (ur_curr r) C"
      "a \<le> C + 1" "C + 1 < s + rb_size ?b" "S \<subseteq> {a..C}" "dom M \<subseteq> {s..C}" "isn \<le> a"
    and M: "\<And>x. a \<le> x \<Longrightarrow> x \<le> C \<Longrightarrow> x \<in> dom M \<longleftrightarrow> x \<notin> S" "\<And>x v. M x = Some v \<Longrightarrow> un_data v = P x \<and> un_flag v = 1"
      "out @ rb_rest M s a (rb_notch ?b) = concat (map P [isn..a - 1])" by (rule ur_invE [OF assms(1)]) blast
  let ?rest = "rb_rest M s a (rb_notch ?b)"
  obtain c q m where c: "rb_read_buffer len ?b = Some (Inr (int m, take m ?rest, c))" "s \<le> q" "q \<le> a" "rb_holds k q a (M |` {q..}) c"
    "rb_ready (M |` {q..}) q a (rb_notch c)" "rb_rest (M |` {q..}) q a (rb_notch c) = drop m ?rest" "rb_size c = rb_size ?b"
    "m \<le> length ?rest" "int m \<le> len" "m = length ?rest \<or> len = int m"
    using rb_read_spec [OF h(1,2) assms(2), of "\<lambda>_. False"] unfolding rb_read_buffer_def by blast
  let ?t = "r\<lparr>ur_buffer := c\<rparr>"
  have "ur_recv len r = Some (Inr (int m, take m ?rest, ?t))" using c(1) by (simp add: ur_recv_def)
  moreover have "ur_inv P isn a ?t (out @ take m ?rest)"
  proof (rule ur_invI [of k q a "M |` {q..}" _ S C])
    show "dom (M |` {q..}) \<subseteq> {q..C}" using h(11) by auto
    show "x \<in> dom (M |` {q..}) \<longleftrightarrow> x \<notin> S" if "a \<le> x" "x \<le> C" for x using M(1) [OF that] c(3) that by auto
    show "un_data v = P x \<and> un_flag v = 1" if "(M |` {q..}) x = Some v" for x v
      using that M(2) [of x v] by (auto simp: restrict_map_def split: if_splits)
    show "(out @ take m ?rest) @ rb_rest (M |` {q..}) q a (rb_notch (ur_buffer ?t)) = concat (map P [isn..a - 1])"
      using M(3) c(6) by simp
  qed (use h c in simp_all)
  moreover have "int m = min len (int (length ?rest))" using c(8-10) by auto
  ultimately show ?thesis using M(3) by (intro exI [of _ m] exI [of _ ?rest] exI [of _ ?t]) simp
qed

lemma ur_fill_inv:
  assumes "ur_inv P isn a r out" and u: "un_flag (rb_units (ur_buffer r) u) = 0"
  shows "ur_inv P isn a (ur_fill u bs w r) out"
proof -
  let ?b = "ur_buffer r"
  obtain k s C S M where
    h: "rb_holds k s a M ?b" "rb_ready M s a (rb_notch ?b)" "rcl_holds S (ur_losses r)"
      "rb_size ?b \<le> rcl_size (ur_losses r)" "rcl_size (ur_losses r) \<le> 536870912" "ur_last_ack r = seq_no a" "curr_is (ur_curr r) C"
      "a \<le> C + 1" "C + 1 < s + rb_size ?b" "S \<subseteq> {a..C}" "dom M \<subseteq> {s..C}" "isn \<le> a"
    and M: "\<And>x. a \<le> x \<Longrightarrow> x \<le> C \<Longrightarrow> x \<in> dom M \<longleftrightarrow> x \<notin> S" "\<And>x v. M x = Some v \<Longrightarrow> un_data v = P x \<and> un_flag v = 1"
      "out @ rb_rest M s a (rb_notch ?b) = concat (map P [isn..a - 1])" by (rule ur_invE [OF assms(1)]) blast
  have fresh: "u \<notin> rb_pointers ?b" using free_not_pointed [OF h(1) _ u] M(2) by blast
  let ?c = "ur_buffer (ur_fill u bs w r)"
  have f: "rb_size ?c = rb_size ?b" "rb_start ?c = rb_start ?b" "rb_last_ack ?c = rb_last_ack ?b" "rb_unit ?c = rb_unit ?b" "rb_notch ?c = rb_notch ?b"
    "rb_units ?c = (rb_units ?b)(u := \<lparr>un_flag = 0, un_data = bs, un_msg_no = w\<rparr>)" using u by (simp_all add: ur_fill_def Let_def)
  note d = rb_holdsD [OF h(1) refl]
  have "rb_holds k s a M ?c"
  proof (rule rb_holdsI [OF f(1) d(2,3,6)])
    fix x assume x: "s \<le> x" "x < s + rb_size ?b"
    have "rb_unit ?b (ring k (rb_size ?b) x) \<noteq> Some u" using fresh d(1) by (auto simp: rb_pointers_def)
    then show "map_option (rb_units ?c) (rb_unit ?c (ring k (rb_size ?b) x)) = M x"
      using d(7) [OF x] unfolding f by (cases "rb_unit ?b (ring k (rb_size ?b) x)") auto
  qed (use d(4,5,8) f in auto)
  then show ?thesis using h M f
    by (intro ur_invI [of k s a M _ S C]) (simp_all add: ur_fill_def Let_def)
qed

subsection \<open>Every history of a connection\<close>

text \<open>Packets arrive in any order and any number of times, each at a position near to the acknowledged one \<open>a\<close>, in any free unit;
  acknowledgements are sent at any time, and the application reads as much as it likes.\<close>

inductive ur_reach :: "(int \<Rightarrow> byte list) \<Rightarrow> int \<Rightarrow> udt_receiver \<Rightarrow> int \<Rightarrow> udt_receiver \<Rightarrow> byte list \<Rightarrow> bool"
  for P isn r0 where
  ur_start: "ur_reach P isn r0 isn r0 []"
| ur_packet: "ur_reach P isn r0 a r out \<Longrightarrow> near a x \<Longrightarrow> un_flag (rb_units (ur_buffer r) u) = 0 \<Longrightarrow>
    ur_process_data (seq_no x) u (ur_fill u (P x) w r) = Some (Inr (v, t)) \<Longrightarrow> ur_reach P isn r0 a t out"
| ur_ack: "ur_reach P isn r0 a r out \<Longrightarrow> ur_send_ack lite early r = Inr (p, t) \<Longrightarrow>
    ur_reach P isn r0 (a + seqoff (ur_last_ack r) (ur_last_ack t)) t out"
| ur_acked: "ur_reach P isn r0 a r out \<Longrightarrow> ur_reach P isn r0 a (ur_ack_acked ack r) out"
| ur_read: "ur_reach P isn r0 a r out \<Longrightarrow> 0 \<le> len \<Longrightarrow> ur_recv len r = Some (Inr (n, bs, t)) \<Longrightarrow> ur_reach P isn r0 a t (out @ bs)"

lemma ur_arrive_spec:
  assumes "ur_inv P isn a r out" and "near a x" and "un_flag (rb_units (ur_buffer r) u) = 0"
  shows "\<exists>v t. ur_process_data (seq_no x) u (ur_fill u (P x) w r) = Some (Inr (v, t)) \<and> ur_inv P isn a t out"
  using ur_process_data_spec [OF ur_fill_inv [OF assms(1,3), of "P x" w] assms(2), of u] assms(3)
  by (auto simp: ur_fill_def Let_def)

lemma ur_reach_inv:
  assumes "ur_reach P isn r0 a r out" and "ur_inv P isn isn r0 []"
  shows "ur_inv P isn a r out"
  using assms
proof (induction rule: ur_reach.induct)
  case (ur_packet a r out x u w v t)
  then show ?case using ur_arrive_spec [of P isn a r out x u w] by auto
next
  case (ur_ack a r out lite early p t)
  then show ?case using ur_send_ack_spec [of P isn a r out lite early] by auto
next
  case (ur_acked a r out ack)
  then show ?case by (simp add: ur_inv_def ur_ack_acked_def)
next
  case (ur_read a r out len n bs t)
  then show ?case using ur_recv_spec [of P isn a r out len] by auto
qed

text \<open>C21. A receiver delivers the stream: whatever packets arrive, lost, repeated or out of order, and whenever acknowledgements are
  sent, what the application read and what it can read are the bytes of the packets from the first one to the acknowledged one, in
  order. No operation is undefined, every loop ends, and a read takes as much as it can.\<close>

theorem udt_receiver_delivers:
  assumes "0 \<le> isn" "isn < 2 ^ 31" "0 < n" "n \<le> m" "m \<le> 2 ^ 29"
    and "ur_reach P isn (ur_new isn (rcl_new m nj pj) (rb_new units used n)) a r out"
  shows "(\<exists>rest. out @ rest = concat (map P [isn..a - 1]) \<and>
      (\<forall>len\<ge>0. \<exists>t. ur_recv len r = Some (Inr (min len (int (length rest)), take (nat len) rest, t)))) \<and>
    (\<forall>x u w. near a x \<and> un_flag (rb_units (ur_buffer r) u) = 0 \<longrightarrow>
      (\<exists>v t. ur_process_data (seq_no x) u (ur_fill u (P x) w r) = Some (Inr (v, t)))) \<and>
    (\<forall>lite early. \<exists>p t. ur_send_ack lite early r = Inr (p, t))"
proof -
  have inv: "ur_inv P isn a r out" using assms by (intro ur_reach_inv [OF assms(6)] ur_new_inv) simp_all
  obtain rest where rest: "out @ rest = concat (map P [isn..a - 1])" using ur_recv_spec [OF inv, of 0] by auto
  have "\<exists>t. ur_recv len r = Some (Inr (min len (int (length rest)), take (nat len) rest, t))" if len: "0 \<le> len" for len
  proof -
    obtain m rest' t where t: "ur_recv len r = Some (Inr (int m, take m rest', t))" "out @ rest' = concat (map P [isn..a - 1])" "int m = min len (int (length rest'))"
      using ur_recv_spec [OF inv len] by auto
    then have "rest' = rest" using rest by (metis same_append_eq)
    moreover have "take m rest = take (nat len) rest" using t(3) \<open>rest' = rest\<close> len by (auto simp: min_def split: if_splits)
    ultimately show ?thesis using t by simp
  qed
  with rest ur_arrive_spec [OF inv] ur_send_ack_spec [OF inv] show ?thesis by blast
qed

theorem udt_receiver_delivers_witness:
  "\<exists>r t. ur_reach (\<lambda>_. [1, 2]) 5 (ur_new 5 (rcl_new 4 (\<lambda>_. 0) (\<lambda>_. 0)) (rb_new (\<lambda>_. \<lparr>un_flag = 0, un_data = [], un_msg_no = 0\<rparr>) 0 4)) 6 r [] \<and>
    ur_recv 1 r = Some (Inr (1, [1], t))"
proof -
  let ?P = "\<lambda>_ :: int. [1, 2] :: byte list" and ?u = "\<lambda>_ :: nat. \<lparr>un_flag = 0, un_data = [], un_msg_no = 0\<rparr>"
  let ?r0 = "ur_new 5 (rcl_new 4 (\<lambda>_. 0) (\<lambda>_. 0)) (rb_new ?u 0 4)"
  have s: "seqoff 5 5 = 0" "seqcmp 5 5 = 0" "seqcmp 5 4 = 1" "seqcmp 6 5 = 1" "seqoff 5 6 = 1" "seq_no 5 = 5" "incseq 4 = 5" "incseq 5 = 6"
    by (simp_all add: seqoff_def seqcmp_def seq_consts seq_no_def incseq_def)
  have m: "(0 :: int) smod 4 = 0" "(1 :: int) smod 4 = 1" by (simp_all add: smod_nonneg)
  obtain r1 where r1: "ur_process_data (seq_no 5) 0 (ur_fill 0 (?P 5) 0 ?r0) = Some (Inr (0, r1))"
    "ur_last_ack r1 = 5" "ur_last_ack_ack r1 = 5" "ur_curr r1 = 5" "rcl_length (ur_losses r1) = 0"
    by (simp add: ur_process_data_def ur_fill_def ur_new_def rb_new_def rcl_new_def rb_avail_def rb_data_size_def rb_add_data_def rb_at_def s m
        ur_gap_def ur_mark_def rb_set_flag_def)
  have reach1: "ur_reach ?P 5 ?r0 5 r1 []"
    by (rule ur_packet [OF ur_start _ _ r1(1)]) (simp_all add: near_def ur_new_def rb_new_def)
  obtain p r2 where r2: "ur_send_ack False False r1 = Inr (p, r2)" "ur_last_ack r2 = 6"
    using r1(2-5) by (simp add: ur_send_ack_def ur_ack_number_def rcl_get_loss_length_def s ur_full_ack_def ur_move_ack_def split: if_splits)
  have reach2: "ur_reach ?P 5 ?r0 6 r2 []"
    using ur_ack [OF reach1 r2(1)] r1(2) r2(2) s by simp
  from udt_receiver_delivers [OF _ _ _ _ _ reach2] obtain rest where
    "rest = concat (map ?P [5..5])" "\<forall>len\<ge>0. \<exists>t. ur_recv len r2 = Some (Inr (min len (int (length rest)), take (nat len) rest, t))" by auto
  then have "\<exists>t. ur_recv 1 r2 = Some (Inr (1, [1], t))" by (auto dest: spec [of _ 1])
  with reach2 show ?thesis by blast
qed

end
