(* ===== verification/UdtSndBuffer.thy ===== *)
theory UdtSndBuffer
  imports UdtIntervals "HOL-Library.Multiset"
begin

text \<open>
  \<open>CSndBuffer\<close> of the UDT library (src/udt/newlib/buffer.hpp, buffer.cpp): what the application gives is cut into packets, which
  are kept in a ring of blocks until they are acknowledged. The ring gets longer when it is full. Blocks are numbers in the order
  of their allocation, which always succeeds; a block that is allocated holds what was in memory. A block that holds a packet has the
  bytes of it, and the memory of two blocks does not overlap.
\<close>

unbundle bit_operations_syntax

subsection \<open>State\<close>

record snd_block =
  bk_data :: "byte list"
  bk_msg_no :: "32 word"
  bk_origin :: int
  bk_ttl :: int

text \<open>Every physical buffer has the size of the first one.\<close>

record snd_buffer =
  sb_block :: "int \<Rightarrow> snd_block"
  sb_next :: "int \<Rightarrow> int"
  sb_blocks :: int
  sb_first :: int
  sb_curr :: int
  sb_last :: int
  sb_unit_size :: int
  sb_next_msg_no :: int
  sb_size :: int
  sb_mss :: int
  sb_count :: int

text \<open>A chain of new blocks from \<open>p\<close> on.\<close>

fun chain :: "nat \<Rightarrow> int \<Rightarrow> (int \<Rightarrow> int) \<Rightarrow> int \<Rightarrow> int" where
  "chain 0 p nx = nx"
| "chain (Suc k) p nx = chain k (p + 1) (nx(p := p + 1))"

definition sb_new :: "(int \<Rightarrow> snd_block) \<Rightarrow> (int \<Rightarrow> int) \<Rightarrow> int \<Rightarrow> int \<Rightarrow> snd_buffer" where
  "sb_new memory junk cnt mss =
     \<lparr>sb_block = (\<lambda>p. if 0 \<le> p \<and> p < cnt - 1 then (memory p)\<lparr>bk_msg_no := 0\<rparr> else memory p),
      sb_next = (chain (nat (cnt - 1)) 0 junk)(cnt - 1 := 0), sb_blocks = cnt,
      sb_first = 0, sb_curr = 0, sb_last = 0, sb_unit_size = cnt, sb_next_msg_no = 1, sb_size = cnt, sb_mss = mss, sb_count = 0\<rparr>"

subsection \<open>Data of the application\<close>

definition sb_increase :: "snd_buffer \<Rightarrow> snd_buffer" where
  "sb_increase b =
     (let unit = sb_unit_size b; nblk = sb_blocks b; pb = nblk + unit - 1;
          nx = chain (nat (unit - 1)) nblk (sb_next b) in
      b\<lparr>sb_next := nx(pb := nx (sb_last b), sb_last b := nblk), sb_blocks := nblk + unit, sb_size := sb_size b + unit\<rparr>)"

definition sb_reserve :: "int \<Rightarrow> snd_buffer \<Rightarrow> snd_buffer result option" where
  "sb_reserve cnt b =
     loop_while (\<lambda>_ b. if cnt + sb_count b \<ge> sb_size b then Inr (True, sb_increase b) else Inr (False, b)) 0 b"

text \<open>The number of packets, and the bytes and the header word of the \<open>i\<close>-th one.\<close>

definition packet_count :: "int \<Rightarrow> int \<Rightarrow> int" where
  "packet_count mss len = (if len smod mss \<noteq> 0 then len sdiv mss + 1 else len sdiv mss)"

definition packet_len :: "int \<Rightarrow> int \<Rightarrow> int \<Rightarrow> int" where
  "packet_len mss len i = (let n = len - i * mss in if n > mss then mss else n)"

definition packet_word :: "int \<Rightarrow> bool \<Rightarrow> int \<Rightarrow> int \<Rightarrow> 32 word" where
  "packet_word msgno order cnt i =
     (word_of_int msgno OR (if order then 0x20000000 else 0)) OR (if i = 0 then 0x80000000 else 0) OR (if i = cnt - 1 then 0x40000000 else 0)"

definition packet_of :: "int \<Rightarrow> int \<Rightarrow> bool \<Rightarrow> int \<Rightarrow> int \<Rightarrow> byte list \<Rightarrow> int \<Rightarrow> snd_block" where
  "packet_of mss msgno order ttl time data i =
     (let len = int (length data) in
      \<lparr>bk_data = take (nat (packet_len mss len i)) (drop (nat (i * mss)) data),
       bk_msg_no = packet_word msgno order (packet_count mss len) i, bk_origin = time, bk_ttl = ttl\<rparr>)"

text \<open>The loop over the packets, from the \<open>i\<close>-th one on; \<open>n\<close> are left.\<close>

fun fill :: "(int \<Rightarrow> snd_block) \<Rightarrow> (int \<Rightarrow> int) \<Rightarrow> nat \<Rightarrow> int \<Rightarrow> int \<Rightarrow> (int \<Rightarrow> snd_block) \<Rightarrow> int \<times> (int \<Rightarrow> snd_block)" where
  "fill pk nx 0 i s bl = (s, bl)"
| "fill pk nx (Suc n) i s bl = fill pk nx n (i + 1) (nx s) (bl(s := pk i))"

definition next_msg_no :: "int \<Rightarrow> int" where
  "next_msg_no m = (if m + 1 = max_msg_no then 1 else m + 1)"

definition sb_add_buffer :: "int \<Rightarrow> byte list \<Rightarrow> int \<Rightarrow> bool \<Rightarrow> snd_buffer \<Rightarrow> snd_buffer result option" where
  "sb_add_buffer time data ttl order b =
     (let cnt = packet_count (sb_mss b) (int (length data)) in
      bindo (sb_reserve cnt b) (\<lambda>b.
      let (s, bl) = fill (packet_of (sb_mss b) (sb_next_msg_no b) order ttl time data) (sb_next b) (nat cnt) 0 (sb_last b) (sb_block b) in
      Some (Inr (b\<lparr>sb_block := bl, sb_last := s, sb_count := sb_count b + cnt, sb_next_msg_no := next_msg_no (sb_next_msg_no b)\<rparr>))))"

text \<open>A file is whether its state is good, and the bytes that are left in it.\<close>

fun fill_from_file :: "(int \<Rightarrow> snd_block \<Rightarrow> byte list \<Rightarrow> snd_block) \<Rightarrow> (int \<Rightarrow> int) \<Rightarrow> (int \<Rightarrow> int) \<Rightarrow> nat \<Rightarrow> int \<Rightarrow> int \<Rightarrow>
    bool \<times> byte list \<Rightarrow> (int \<Rightarrow> snd_block) \<Rightarrow> int \<times> int \<times> (bool \<times> byte list) \<times> (int \<Rightarrow> snd_block)" where
  "fill_from_file pk len nx 0 i s f bl = (0, s, f, bl)"
| "fill_from_file pk len nx (Suc n) i s (good, bs) bl =
     (if \<not> good then (0, s, (good, bs), bl)
      else
        let got = take (nat (len i)) bs; f = (length got = nat (len i), drop (nat (len i)) bs) in
        if got = [] then (0, s, f, bl)
        else
          let (total, t) = fill_from_file pk len nx n (i + 1) (nx s) f (bl(s := pk i (bl s) got)) in
          (total + int (length got), t))"

definition sb_add_buffer_from_file :: "bool \<times> byte list \<Rightarrow> int \<Rightarrow> snd_buffer \<Rightarrow> (int \<times> (bool \<times> byte list) \<times> snd_buffer) result option" where
  "sb_add_buffer_from_file f len b =
     (let cnt = packet_count (sb_mss b) len in
      bindo (sb_reserve cnt b) (\<lambda>b.
      let (total, s, f, bl) =
        fill_from_file (\<lambda>i old got. old\<lparr>bk_data := got, bk_msg_no := packet_word (sb_next_msg_no b) True cnt i, bk_ttl := -1\<rparr>)
          (packet_len (sb_mss b) len) (sb_next b) (nat cnt) 0 (sb_last b) f (sb_block b) in
      Some (Inr (total, f, b\<lparr>sb_block := bl, sb_last := s, sb_count := sb_count b + cnt, sb_next_msg_no := next_msg_no (sb_next_msg_no b)\<rparr>))))"

subsection \<open>Packets to be sent\<close>

definition sb_read_data :: "snd_buffer \<Rightarrow> (byte list \<times> 32 word) option \<times> snd_buffer" where
  "sb_read_data b =
     (if sb_curr b = sb_last b then (None, b)
      else
        let u = sb_block b (sb_curr b) in
        (Some (bk_data u, bk_msg_no u), b\<lparr>sb_curr := sb_next b (sb_curr b)\<rparr>))"

text \<open>A packet to be sent again, or the number and the length of a message that is too old, which is skipped.\<close>

datatype read_back = Again "byte list" "32 word" | Expired int int

definition sb_skip_once :: "int \<Rightarrow> nat \<Rightarrow> int \<times> bool \<times> int \<times> snd_buffer \<Rightarrow> (bool \<times> int \<times> bool \<times> int \<times> snd_buffer) result" where
  "sb_skip_once msgno k st = (case st of (p, move, n, b) \<Rightarrow>
     if msgno = uint (bk_msg_no (sb_block b p) AND 0x1FFFFFFF) then
       let move = (move \<or> p = sb_curr b); q = sb_next b p in
       Inr (True, q, move, n + 1, if move then b\<lparr>sb_curr := q\<rparr> else b)
     else Inr (False, p, move, n, b))"

definition bk_expired :: "int \<Rightarrow> snd_block \<Rightarrow> bool" where
  "bk_expired now u \<longleftrightarrow> bk_ttl u \<ge> 0 \<and> ((now - bk_origin u) mod 2 ^ 64) div 1000 > bk_ttl u"

definition sb_read_data_at :: "int \<Rightarrow> int \<Rightarrow> snd_buffer \<Rightarrow> (read_back \<times> snd_buffer) result option" where
  "sb_read_data_at now offset b =
     (let p = (sb_next b ^^ nat offset) (sb_first b); u = sb_block b p in
      if bk_expired now u then
        (let msgno = uint (bk_msg_no u AND 0x1FFFFFFF) in
         bindo (loop_while (sb_skip_once msgno) 0 (sb_next b p, False, 1, b)) (\<lambda>(_, _, n, b). Some (Inr (Expired msgno n, b))))
      else Some (Inr (Again (bk_data u) (bk_msg_no u), b)))"

definition sb_ack_data :: "int \<Rightarrow> snd_buffer \<Rightarrow> snd_buffer" where
  "sb_ack_data offset b = b\<lparr>sb_first := (sb_next b ^^ nat offset) (sb_first b), sb_count := sb_count b - offset\<rparr>"

definition sb_get_curr_buf_size :: "snd_buffer \<Rightarrow> int" where
  "sb_get_curr_buf_size = sb_count"

subsection \<open>Chains and paths\<close>

lemma chain_outside: "q < p \<or> p + int k \<le> q \<Longrightarrow> chain k p nx q = nx q"
  by (induction k arbitrary: p nx) auto

lemma chain_inside: "p \<le> q \<Longrightarrow> q < p + int k \<Longrightarrow> chain k p nx q = q + 1"
proof (induction k arbitrary: p nx)
  case (Suc k)
  then show ?case by (cases "q = p") (auto simp: chain_outside)
qed simp

lemma path_cong: "(\<And>q. q \<in> set xs \<Longrightarrow> nx q = ny q) \<Longrightarrow> path nx h xs y \<longleftrightarrow> path ny h xs y"
  by (induction xs arbitrary: h) auto

lemma path_upto: "(\<And>q. p \<le> q \<Longrightarrow> q < p + int n \<Longrightarrow> nx q = q + 1) \<Longrightarrow> path nx p [p..p + int n - 1] (p + int n)"
proof (induction n arbitrary: p)
  case (Suc n)
  then have "path nx (p + 1) [p + 1..(p + 1) + int n - 1] ((p + 1) + int n)"
    by (intro Suc.IH) auto
  moreover have "nx p = p + 1" using Suc.prems by simp
  moreover have "[p..p + int (Suc n) - 1] = p # [p + 1..(p + 1) + int n - 1]" by (simp add: upto_rec1 algebra_simps)
  ultimately show ?case by (simp add: algebra_simps)
qed simp

text \<open>New blocks, of which the last one is linked to \<open>y\<close>.\<close>

lemma path_chain:
  assumes "0 < n" and "p = (z :: int) - int n + 1"
  shows "path ((chain (n - 1) p nx)(z := y)) p [p..z] y"
proof -
  have "path ((chain (n - 1) p nx)(z := y)) p [p..p + int (n - 1) - 1] (p + int (n - 1))"
    using assms by (intro path_upto) (auto simp: chain_inside)
  moreover have "p + int (n - 1) = z" using assms by simp
  ultimately have "path ((chain (n - 1) p nx)(z := y)) p ([p..z - 1] @ [z]) y" by (auto simp: path_append)
  moreover have "[p..z - 1] @ [z] = [p..z]" using upto_rec2 [of p z] assms by auto
  ultimately show ?thesis by simp
qed

lemma path_walk: "path nx h (xs @ ys) y \<Longrightarrow> path nx h xs ((nx ^^ length xs) h) \<and> path nx ((nx ^^ length xs) h) ys y"
  by (induction xs arbitrary: h) (auto simp: funpow_swap1)

lemma path_walk_at: "path nx h xs y \<Longrightarrow> i < length xs \<Longrightarrow> (nx ^^ i) h = xs ! i"
proof (induction xs arbitrary: h i)
  case (Cons x xs)
  then show ?case by (cases i) (auto simp: funpow_swap1)
qed simp

lemma path_end: "path nx h xs y \<Longrightarrow> path nx h xs z \<Longrightarrow> y = z"
  by (induction xs arbitrary: h) auto

subsection \<open>The blocks are a ring\<close>

text \<open>Of the ring, \<open>us\<close> were sent, \<open>vs\<close> were not, and \<open>ws\<close> are free, as is the block after the last packet.\<close>

definition sb_rep :: "int list \<Rightarrow> int list \<Rightarrow> int list \<Rightarrow> snd_buffer \<Rightarrow> bool" where
  "sb_rep us vs ws b \<longleftrightarrow> (let l = sb_last b; nx = sb_next b in
     path nx (sb_first b) us (sb_curr b) \<and> path nx (sb_curr b) vs l \<and> path nx l (l # ws) (sb_first b) \<and>
     distinct (us @ vs @ l # ws) \<and> set (us @ vs @ l # ws) = {0..<sb_blocks b} \<and>
     sb_size b = sb_blocks b \<and> sb_count b = int (length us + length vs) \<and>
     0 < sb_unit_size b \<and> 0 < sb_mss b \<and> 0 < sb_next_msg_no b \<and> sb_next_msg_no b < max_msg_no)"

definition sb_holds :: "snd_block list \<Rightarrow> snd_block list \<Rightarrow> snd_buffer \<Rightarrow> bool" where
  "sb_holds U V b \<longleftrightarrow> (\<exists>us vs ws. sb_rep us vs ws b \<and> map (sb_block b) us = U \<and> map (sb_block b) vs = V)"

lemma sb_rep_size: "sb_rep us vs ws b \<Longrightarrow> sb_size b = sb_count b + 1 + int (length ws)"
proof -
  assume r: "sb_rep us vs ws b"
  let ?xs = "us @ vs @ sb_last b # ws"
  have "distinct ?xs" "set ?xs = {0..<sb_blocks b}" using r unfolding sb_rep_def Let_def by blast+
  then have "length ?xs = card {0..<sb_blocks b}" by (metis distinct_card)
  with r show ?thesis unfolding sb_rep_def Let_def by simp
qed

lemma sb_repD:
  assumes "sb_rep us vs ws b"
  shows "path (sb_next b) (sb_first b) us (sb_curr b)" "path (sb_next b) (sb_curr b) vs (sb_last b)"
    "path (sb_next b) (sb_next b (sb_last b)) ws (sb_first b)" "distinct (us @ vs @ sb_last b # ws)"
    "set (us @ vs @ sb_last b # ws) = {0..<sb_blocks b}" "sb_size b = sb_blocks b" "sb_count b = int (length us + length vs)"
    "0 < sb_unit_size b" "0 < sb_mss b" "0 < sb_next_msg_no b" "sb_next_msg_no b < max_msg_no"
  using assms by (simp_all add: sb_rep_def Let_def)

lemma sb_repI:
  assumes "path (sb_next b) (sb_first b) us (sb_curr b)" "path (sb_next b) (sb_curr b) vs l"
    "path (sb_next b) (sb_next b l) ws (sb_first b)" "distinct (us @ vs @ l # ws)"
    "set (us @ vs @ l # ws) = {0..<sb_blocks b}" "sb_last b = l" "sb_size b = sb_blocks b" "sb_count b = int (length us + length vs)"
    "0 < sb_unit_size b" "0 < sb_mss b" "0 < sb_next_msg_no b" "sb_next_msg_no b < max_msg_no"
  shows "sb_rep us vs ws b"
  using assms by (simp add: sb_rep_def Let_def)

lemma sb_new_holds:
  assumes "0 < cnt" and "0 < mss"
  shows "sb_holds [] [] (sb_new memory junk cnt mss)"
proof -
  let ?b = "sb_new memory junk cnt mss"
  have "path (sb_next ?b) 0 [0..cnt - 1] 0"
    using path_chain [of "nat cnt" 0 "cnt - 1" junk 0] assms by (simp add: sb_new_def nat_diff_distrib)
  moreover have "[0..cnt - 1] = 0 # [1..cnt - 1]" using assms upto_rec1 [of 0 "cnt - 1"] by simp
  ultimately have "sb_rep [] [] [1..cnt - 1] ?b" using assms
    by (auto simp: sb_rep_def Let_def sb_new_def max_msg_no_def)
  then show ?thesis unfolding sb_holds_def by (intro exI [of _ "[]"] exI [of _ "[1..cnt - 1]"]) simp
qed

lemma sb_increase_fields:
  "sb_block (sb_increase b) = sb_block b" "sb_count (sb_increase b) = sb_count b" "sb_mss (sb_increase b) = sb_mss b"
  "sb_next_msg_no (sb_increase b) = sb_next_msg_no b" "sb_size (sb_increase b) = sb_size b + sb_unit_size b"
  "sb_unit_size (sb_increase b) = sb_unit_size b" "sb_first (sb_increase b) = sb_first b" "sb_curr (sb_increase b) = sb_curr b"
  "sb_last (sb_increase b) = sb_last b" "sb_blocks (sb_increase b) = sb_blocks b + sb_unit_size b"
  "sb_next (sb_increase b) = (let nx = chain (nat (sb_unit_size b - 1)) (sb_blocks b) (sb_next b) in
     nx(sb_blocks b + sb_unit_size b - 1 := nx (sb_last b), sb_last b := sb_blocks b))"
  by (simp_all add: sb_increase_def Let_def)

lemma sb_increase_rep:
  assumes "sb_rep us vs ws b"
  shows "sb_rep us vs ([sb_blocks b..sb_blocks b + sb_unit_size b - 1] @ ws) (sb_increase b)"
proof -
  let ?n = "sb_blocks b" and ?l = "sb_last b" and ?z = "sb_blocks b + sb_unit_size b - 1" and ?nx = "sb_next b"
  note paths = sb_repD(1-3) [OF assms] and d = sb_repD(4) [OF assms] and s = sb_repD(5) [OF assms] and u = sb_repD(8) [OF assms]
  let ?ch = "chain (nat (sb_unit_size b - 1)) ?n ?nx"
  let ?ny = "?ch(?z := ?ch ?l, ?l := ?n)"
  have l: "0 \<le> ?l" "?l < ?n" using s by auto
  have old: "?ny q = ?nx q" if "q \<in> set (us @ vs @ ws)" for q
  proof -
    from that s have "q \<in> {0..<?n}" by auto
    moreover from that d have "q \<noteq> ?l" by auto
    ultimately show ?thesis using u by (auto simp: chain_outside)
  qed
  have keep: "path ?ny h zs y" if "path ?nx h zs y" "set zs \<subseteq> set (us @ vs @ ws)" for h zs y
    using that(1) path_cong [of zs ?ny ?nx h y] old that(2) by blast
  have chl: "?ch ?l = ?nx ?l" using l by (simp add: chain_outside)
  have "path (?ch(?z := ?nx ?l)) ?n [?n..?z] (?nx ?l)"
    using path_chain [of "nat (sb_unit_size b)" ?n ?z ?nx "?nx ?l"] u by (simp add: nat_diff_distrib)
  then have "path ?ny ?n [?n..?z] (?nx ?l)"
    using l chl by (subst path_cong [of _ _ "?ch(?z := ?nx ?l)"]) auto
  moreover have "path ?ny (?nx ?l) ws (sb_first b)"
    by (rule keep [OF paths(3)]) auto
  ultimately have "path ?ny (?ny ?l) ([?n..?z] @ ws) (sb_first b)" by (auto simp: path_append)
  moreover have "path ?ny (sb_first b) us (sb_curr b)" "path ?ny (sb_curr b) vs ?l"
    by (rule keep [OF paths(1)], force) (rule keep [OF paths(2)], force)
  moreover have "distinct (us @ vs @ ?l # [?n..?z] @ ws)"
  proof -
    have "set [?n..?z] \<inter> set (us @ vs @ ?l # ws) = {}" unfolding s by auto
    then show ?thesis using d by auto
  qed
  moreover have "set (us @ vs @ ?l # [?n..?z] @ ws) = {0..<?n + sb_unit_size b}"
  proof -
    have "set (us @ vs @ ?l # [?n..?z] @ ws) = set (us @ vs @ ?l # ws) \<union> {?n..?z}" by auto
    also have "\<dots> = {0..<?n} \<union> {?n..?z}" by (simp only: s)
    also have "\<dots> = {0..<?n + sb_unit_size b}" using l(1,2) u by auto
    finally show ?thesis .
  qed
  ultimately show ?thesis using sb_repD(6-) [OF assms]
    by (intro sb_repI [where l = ?l]) (simp_all only: sb_increase_fields Let_def)
qed

lemma sb_reserve_spec:
  assumes "sb_rep us vs ws b"
  shows "\<exists>ws' t. sb_reserve cnt b = Some (Inr t) \<and> sb_rep us vs ws' t \<and> sb_block t = sb_block b \<and> sb_mss t = sb_mss b \<and>
    sb_next_msg_no t = sb_next_msg_no b \<and> cnt \<le> int (length ws')"
proof -
  let ?P = "\<lambda>t. (\<exists>ws. sb_rep us vs ws t) \<and> sb_block t = sb_block b \<and> sb_mss t = sb_mss b \<and> sb_next_msg_no t = sb_next_msg_no b"
  have "\<exists>t. sb_reserve cnt b = Some (Inr t) \<and> ?P t \<and> cnt + sb_count t < sb_size t"
    unfolding sb_reserve_def
  proof (rule loop_while_returns [where P = ?P and \<mu> = "\<lambda>t. nat (cnt + sb_count t - sb_size t + 1)"])
    show "?P b" using assms by blast
    fix k t assume P: "?P t"
    then obtain ws where ws: "sb_rep us vs ws t" by blast
    then have "0 < sb_unit_size t" by (simp add: sb_rep_def Let_def)
    then have "nat (cnt + sb_count (sb_increase t) - sb_size (sb_increase t) + 1) < nat (cnt + sb_count t - sb_size t + 1)"
      if "cnt + sb_count t \<ge> sb_size t" using that by (simp add: sb_increase_fields)
    moreover have "?P (sb_increase t)" using P sb_increase_rep [OF ws] by (auto simp: sb_increase_fields)
    ultimately show "\<exists>c s. (if cnt + sb_count t \<ge> sb_size t then Inr (True, sb_increase t) else Inr (False, t)) = Inr (c, s) \<and>
      (if c then ?P s \<and> nat (cnt + sb_count s - sb_size s + 1) < nat (cnt + sb_count t - sb_size t + 1)
       else ?P s \<and> cnt + sb_count s < sb_size s)" using P by auto
  qed
  then obtain t ws' where t: "sb_reserve cnt b = Some (Inr t)" "sb_rep us vs ws' t" "sb_block t = sb_block b" "sb_mss t = sb_mss b"
    "sb_next_msg_no t = sb_next_msg_no b" "cnt + sb_count t < sb_size t" by blast
  with sb_rep_size [OF t(2)] show ?thesis by auto
qed

subsection \<open>Cutting data into packets\<close>

definition sb_packets :: "int \<Rightarrow> int \<Rightarrow> bool \<Rightarrow> int \<Rightarrow> int \<Rightarrow> byte list \<Rightarrow> snd_block list" where
  "sb_packets mss msgno order ttl time data = map (packet_of mss msgno order ttl time data) [0..packet_count mss (int (length data)) - 1]"

lemma packet_count_bounds:
  assumes "0 < mss" and "0 \<le> len"
  shows "0 \<le> packet_count mss len" "len \<le> packet_count mss len * mss" "i < packet_count mss len \<Longrightarrow> i * mss < len"
proof -
  have sd: "len sdiv mss = len div mss" "len smod mss = len mod mss"
    using assms smod_nonneg [of len mss] by (simp_all add: signed_divide_int_def sgn_if)
  have dm: "len div mss * mss + len mod mss = len" "0 \<le> len mod mss" "len mod mss < mss" "0 \<le> len div mss"
    using assms by (simp_all add: pos_imp_zdiv_nonneg_iff)
  show "0 \<le> packet_count mss len" "len \<le> packet_count mss len * mss"
  proof -
    have "(len div mss + 1) * mss = len div mss * mss + mss" by (simp add: algebra_simps)
    then have "len mod mss = 0 \<longrightarrow> len \<le> len div mss * mss" "len \<le> (len div mss + 1) * mss" using dm by linarith+
    then show "len \<le> packet_count mss len * mss"
      by (cases "len mod mss = 0") (simp_all only: packet_count_def sd simp_thms if_True if_False)
    show "0 \<le> packet_count mss len" using dm by (simp add: packet_count_def sd)
  qed
  assume "i < packet_count mss len"
  then have i: "i \<le> len div mss" "i = len div mss \<longrightarrow> len mod mss \<noteq> 0" by (auto simp: packet_count_def sd split: if_splits)
  show "i * mss < len"
  proof (cases "i = len div mss")
    case True
    then have "i * mss = len div mss * mss" "len mod mss \<noteq> 0" using i by simp_all
    then show ?thesis using dm by linarith
  next
    case False
    then have "i * mss < len div mss * mss" using i assms(1) by simp
    then show ?thesis using dm by linarith
  qed
qed

lemma packet_len_bounds:
  assumes "0 < mss" and "0 \<le> len" and "i < packet_count mss len"
  shows "0 < packet_len mss len i" "packet_len mss len i \<le> mss" "packet_len mss len i \<le> len - i * mss"
  using packet_count_bounds [OF assms(1,2)] assms(1,3) by (auto simp: packet_len_def Let_def)

lemma packet_len_sum:
  assumes "0 < mss" and "0 \<le> len"
  shows "int k \<le> packet_count mss len \<Longrightarrow> (\<Sum>i\<leftarrow>[0..int k - 1]. packet_len mss len i) = min len (int k * mss)"
proof (induction k)
  case 0
  then show ?case using assms by simp
next
  case (Suc k)
  have "[0..int (Suc k) - 1] = [0..int k - 1] @ [int k]" using upto_rec2 [of 0 "int k"] by simp
  moreover have "int k * mss < len" using packet_count_bounds(3) [OF assms, of "int k"] Suc.prems by simp
  ultimately show ?case using Suc by (simp add: packet_len_def Let_def algebra_simps min_def)
qed

lemma concat_packets:
  assumes "0 < mss"
  shows "concat (map bk_data (sb_packets mss msgno order ttl time data)) = data"
proof -
  let ?f = "packet_of mss msgno order ttl time data" and ?len = "int (length data)"
  have "concat (map (bk_data \<circ> ?f) [0..int k - 1]) = take (nat (int k * mss)) data" if "int k \<le> packet_count mss ?len" for k
    using that
  proof (induction k)
    case (Suc k)
    have "[0..int (Suc k) - 1] = [0..int k - 1] @ [int k]" using upto_rec2 [of 0 "int k"] by simp
    then have "concat (map (bk_data \<circ> ?f) [0..int (Suc k) - 1]) = take (nat (int k * mss)) data @ bk_data (?f (int k))"
      using Suc by (simp add: comp_def)
    also have "bk_data (?f (int k)) = take (nat mss) (drop (nat (int k * mss)) data)"
      by (auto simp: packet_of_def packet_len_def Let_def)
    also have "take (nat (int k * mss)) data @ take (nat mss) (drop (nat (int k * mss)) data) = take (nat (int (Suc k) * mss)) data"
      using assms by (simp add: take_add [symmetric] nat_add_distrib [symmetric] algebra_simps)
    finally show ?case .
  qed simp
  from this [of "nat (packet_count mss ?len)"] packet_count_bounds [OF assms, of ?len] show ?thesis
    by (simp add: sb_packets_def)
qed

lemma sb_packets_sizes:
  assumes "0 < mss" and "p \<in> set (sb_packets mss msgno order ttl time data)"
  shows "bk_data p \<noteq> []" "int (length (bk_data p)) \<le> mss" "bk_ttl p = ttl"
proof -
  let ?len = "int (length data)"
  obtain x where x: "0 \<le> x" "x < packet_count mss ?len" "p = packet_of mss msgno order ttl time data x"
    using assms(2) by (auto simp: sb_packets_def)
  note b = packet_len_bounds [OF assms(1) _ x(2)]
  have "0 \<le> x * mss" using x assms by simp
  then have "int (length (bk_data p)) = packet_len mss ?len x" using b x(3) by (simp add: packet_of_def Let_def)
  then show "bk_data p \<noteq> []" "int (length (bk_data p)) \<le> mss" using b by auto
  show "bk_ttl p = ttl" using x(3) by (simp add: packet_of_def Let_def)
qed

lemma length_sb_packets: "0 < mss \<Longrightarrow> int (length (sb_packets mss msgno order ttl time data)) = packet_count mss (int (length data))"
  using packet_count_bounds(1) [of mss "int (length data)"] by (simp add: sb_packets_def)

subsection \<open>Filling blocks\<close>

lemma fill_spec:
  assumes "path nx s ys e" and "distinct ys" and "length ys = n"
  shows "\<exists>bl'. fill pk nx n i s bl = (e, bl') \<and> map bl' ys = map pk [i..i + int n - 1] \<and> (\<forall>q. q \<notin> set ys \<longrightarrow> bl' q = bl q)"
  using assms
proof (induction n arbitrary: i s bl ys)
  case (Suc n)
  then obtain y zs where ys: "ys = y # zs" by (cases ys) auto
  then have y: "s = y" "path nx (nx s) zs e" "distinct zs" "length zs = n" "y \<notin> set zs" using Suc.prems by auto
  obtain bl' where "fill pk nx n (i + 1) (nx s) (bl(s := pk i)) = (e, bl')" "map bl' zs = map pk [i + 1..(i + 1) + int n - 1]"
    "\<forall>q. q \<notin> set zs \<longrightarrow> bl' q = (bl(s := pk i)) q" using Suc.IH [OF y(2-4)] by blast
  moreover have "[i..i + int (Suc n) - 1] = i # [i + 1..(i + 1) + int n - 1]" by (simp add: upto_rec1 algebra_simps)
  ultimately show ?case using y ys by (auto intro!: exI [of _ bl'])
qed simp

lemma fill_from_file_spec:
  assumes "path nx s ys e" and "distinct ys" and "length ys = n"
    and "\<And>j. i \<le> j \<Longrightarrow> j < i + int n \<Longrightarrow> 0 < len j" and "(\<Sum>j\<leftarrow>[i..i + int n - 1]. len j) \<le> int (length bs)"
    and "\<And>i old got. bk_data (pk i old got) = got"
  shows "\<exists>bl' good. let m = (\<Sum>j\<leftarrow>[i..i + int n - 1]. len j) in
    fill_from_file pk len nx n i s (True, bs) bl = (m, e, (good, drop (nat m) bs), bl') \<and> concat (map (\<lambda>q. bk_data (bl' q)) ys) = take (nat m) bs \<and>
    0 \<le> m \<and> (\<forall>q. q \<notin> set ys \<longrightarrow> bl' q = bl q) \<and> (\<forall>q\<in>set ys. bk_data (bl' q) \<noteq> []) \<and>
    (\<forall>q\<in>set ys. \<exists>i old got. bl' q = pk i old got)"
  using assms(1-5)
proof (induction n arbitrary: i s bl ys bs)
  case (Suc n)
  then obtain y zs where ys: "ys = y # zs" by (cases ys) auto
  then have y: "s = y" "path nx (nx s) zs e" "distinct zs" "length zs = n" "y \<notin> set zs" using Suc.prems by auto
  let ?m = "\<Sum>j\<leftarrow>[i + 1..(i + 1) + int n - 1]. len j" and ?got = "take (nat (len i)) bs"
  have u: "[i..i + int (Suc n) - 1] = i # [i + 1..(i + 1) + int n - 1]" by (simp add: upto_rec1 algebra_simps)
  have m0: "0 \<le> ?m" by (intro sum_list_nonneg) (auto intro!: less_imp_le Suc.prems(4))
  have li: "0 < len i" "len i + ?m \<le> int (length bs)" using Suc.prems(4) [of i] Suc.prems(5) u by auto
  then have got: "length ?got = nat (len i)" "?got \<noteq> []" using m0 by auto
  have "?m \<le> int (length (drop (nat (len i)) bs))" using li by auto
  moreover have "0 < len j" if "i + 1 \<le> j" "j < i + 1 + int n" for j using Suc.prems(4) [of j] that by simp
  ultimately obtain bl' good where
    bl: "fill_from_file pk len nx n (i + 1) (nx s) (True, drop (nat (len i)) bs) (bl(s := pk i (bl s) ?got)) =
        (?m, e, (good, drop (nat ?m) (drop (nat (len i)) bs)), bl')"
      "concat (map (\<lambda>q. bk_data (bl' q)) zs) = take (nat ?m) (drop (nat (len i)) bs)" "\<forall>q. q \<notin> set zs \<longrightarrow> bl' q = (bl(s := pk i (bl s) ?got)) q"
      "\<forall>q\<in>set zs. bk_data (bl' q) \<noteq> []" "\<forall>q\<in>set zs. \<exists>i old got. bl' q = pk i old got"
    using Suc.IH [OF y(2-4), of "i + 1" "drop (nat (len i)) bs" "bl(s := pk i (bl s) ?got)"] unfolding Let_def by blast
  have "nat (len i) + nat ?m = nat (len i + ?m)" using li m0 by simp
  moreover have "?got @ take (nat ?m) (drop (nat (len i)) bs) = take (nat (len i + ?m)) bs"
    using take_add [of "nat (len i)" "nat ?m" bs] li m0 by (simp add: nat_add_distrib)
  moreover have "bl' s = pk i (bl s) ?got" using bl(3) y by simp
  moreover have "int (length ?got) = len i" using got li by simp
  ultimately show ?case using bl got y ys m0 li unfolding u
    by (intro exI [of _ bl'] exI [of _ good]) (auto simp: Let_def assms(6) add.commute)
qed (simp add: exI [of _ True])

subsection \<open>The operations on the packets\<close>

lemma sb_filled:
  assumes "sb_rep us vs ws b" and "0 \<le> n" and "n \<le> int (length ws)"
  obtains ys e zs where "path (sb_next b) (sb_last b) ys e" "distinct ys" "int (length ys) = n" "set ys \<inter> (set us \<union> set vs) = {}"
    "\<And>bl m. 0 < m \<Longrightarrow> m < max_msg_no \<Longrightarrow> sb_rep us (vs @ ys) zs (b\<lparr>sb_block := bl, sb_last := e, sb_count := sb_count b + n, sb_next_msg_no := m\<rparr>)"
proof -
  note d = sb_repD [OF assms(1)]
  let ?xs = "sb_last b # ws"
  have len: "nat n < length ?xs" using assms by simp
  then have xs: "?xs = take (nat n) ?xs @ ?xs ! nat n # drop (Suc (nat n)) ?xs" by (rule id_take_nth_drop)
  then obtain ys e zs where ys: "?xs = ys @ e # zs" "int (length ys) = n" using len assms(2)
    by (metis length_take min.absorb4 nat_0_le)
  have "path (sb_next b) (sb_last b) (ys @ e # zs) (sb_first b)" using d(3) ys(1) by (metis path.simps(2))
  then have p: "path (sb_next b) (sb_last b) ys e" "path (sb_next b) (sb_next b e) zs (sb_first b)" by (auto simp: path_append)
  have ds: "distinct (us @ vs @ ys @ e # zs)" "set (us @ vs @ ys @ e # zs) = {0..<sb_blocks b}"
    using d(4,5) unfolding ys(1) by blast+
  have new: "sb_rep us (vs @ ys) zs (b\<lparr>sb_block := bl, sb_last := e, sb_count := sb_count b + n, sb_next_msg_no := m\<rparr>)"
    if "0 < m" "m < max_msg_no" for bl m
    using d p ds ys(2) that by (intro sb_repI) (simp_all only: snd_buffer.simps append_assoc, auto simp: path_append)
  have "distinct ys" "set ys \<inter> (set us \<union> set vs) = {}" using ds(1) by auto
  from that [OF p(1) this(1) ys(2) this(2) new] show thesis .
qed

lemma next_msg_no_range: "0 < m \<Longrightarrow> m < max_msg_no \<Longrightarrow> 0 < next_msg_no m \<and> next_msg_no m < max_msg_no"
  by (auto simp: next_msg_no_def max_msg_no_def)

lemma map_block_cong: "(\<And>q. q \<notin> set ys \<Longrightarrow> bl' q = bl q) \<Longrightarrow> set ys \<inter> set us = {} \<Longrightarrow> map bl' us = map bl us"
  by (intro map_cong) auto

lemma sb_add_buffer_spec:
  assumes "sb_holds U V b"
  shows "\<exists>t. sb_add_buffer time data ttl order b = Some (Inr t) \<and>
    sb_holds U (V @ sb_packets (sb_mss b) (sb_next_msg_no b) order ttl time data) t \<and> sb_mss t = sb_mss b \<and>
    sb_next_msg_no t = next_msg_no (sb_next_msg_no b)"
proof -
  let ?n = "packet_count (sb_mss b) (int (length data))"
  obtain us vs ws where r: "sb_rep us vs ws b" "map (sb_block b) us = U" "map (sb_block b) vs = V"
    using assms by (auto simp: sb_holds_def)
  note d = sb_repD(9-11) [OF r(1)]
  obtain ws' t where t: "sb_reserve ?n b = Some (Inr t)" "sb_rep us vs ws' t" "sb_block t = sb_block b" "sb_mss t = sb_mss b"
    "sb_next_msg_no t = sb_next_msg_no b" "?n \<le> int (length ws')" using sb_reserve_spec [OF r(1)] by blast
  have n: "0 \<le> ?n" using packet_count_bounds(1) [OF d(1)] by simp
  let ?pk = "packet_of (sb_mss b) (sb_next_msg_no b) order ttl time data"
  obtain ys e zs where y: "path (sb_next t) (sb_last t) ys e" "distinct ys" "int (length ys) = ?n" "set ys \<inter> (set us \<union> set vs) = {}"
    "\<And>bl m. 0 < m \<Longrightarrow> m < max_msg_no \<Longrightarrow> sb_rep us (vs @ ys) zs (t\<lparr>sb_block := bl, sb_last := e, sb_count := sb_count t + ?n, sb_next_msg_no := m\<rparr>)"
    using sb_filled [OF t(2) n t(6)] by blast
  have ln: "length ys = nat ?n" using y(3) by simp
  obtain bl where bl: "fill ?pk (sb_next t) (nat ?n) 0 (sb_last t) (sb_block t) = (e, bl)" "map bl ys = map ?pk [0..0 + int (nat ?n) - 1]"
    "\<forall>q. q \<notin> set ys \<longrightarrow> bl q = sb_block t q" using fill_spec [OF y(1,2) ln] by blast
  have dj: "set ys \<inter> set us = {}" "set ys \<inter> set vs = {}" using y(4) by blast+
  have m: "map bl us = U" "map bl vs = V"
    using map_block_cong [OF _ dj(1), of bl "sb_block t"] map_block_cong [OF _ dj(2), of bl "sb_block t"] bl(3) r(2,3) t(3) by simp_all
  note rep = y(5) [of "next_msg_no (sb_next_msg_no b)" bl] next_msg_no_range [OF d(2,3)]
  have "sb_holds U (V @ sb_packets (sb_mss b) (sb_next_msg_no b) order ttl time data)
      (t\<lparr>sb_block := bl, sb_last := e, sb_count := sb_count t + ?n, sb_next_msg_no := next_msg_no (sb_next_msg_no b)\<rparr>)"
    unfolding sb_holds_def using rep m bl(2) n by (intro exI [of _ us] exI [of _ "vs @ ys"] exI [of _ zs]) (simp add: sb_packets_def)
  then show ?thesis using t bl(1) by (simp add: sb_add_buffer_def Let_def)
qed

text \<open>A file that has enough bytes: its packets hold them in order, and never get too old.\<close>

lemma sb_add_buffer_from_file_spec:
  assumes "sb_holds U V b" and "0 \<le> len" and "len \<le> int (length bs)"
  shows "\<exists>good t ps. sb_add_buffer_from_file (True, bs) len b = Some (Inr (len, (good, drop (nat len) bs), t)) \<and> sb_holds U (V @ ps) t \<and>
    concat (map bk_data ps) = take (nat len) bs \<and> (\<forall>p\<in>set ps. bk_ttl p = -1 \<and> bk_data p \<noteq> []) \<and> sb_mss t = sb_mss b"
proof -
  let ?n = "packet_count (sb_mss b) len"
  obtain us vs ws where r: "sb_rep us vs ws b" "map (sb_block b) us = U" "map (sb_block b) vs = V"
    using assms by (auto simp: sb_holds_def)
  note d = sb_repD(9-11) [OF r(1)]
  obtain ws' t where t: "sb_reserve ?n b = Some (Inr t)" "sb_rep us vs ws' t" "sb_block t = sb_block b" "sb_mss t = sb_mss b"
    "sb_next_msg_no t = sb_next_msg_no b" "?n \<le> int (length ws')" using sb_reserve_spec [OF r(1)] by blast
  note n = packet_count_bounds [OF d(1) assms(2)]
  let ?pk = "\<lambda>i old got. old\<lparr>bk_data := got, bk_msg_no := packet_word (sb_next_msg_no b) True ?n i, bk_ttl := -1\<rparr>"
  let ?len = "packet_len (sb_mss b) len"
  obtain ys e zs where y: "path (sb_next t) (sb_last t) ys e" "distinct ys" "int (length ys) = ?n" "set ys \<inter> (set us \<union> set vs) = {}"
    "\<And>bl m. 0 < m \<Longrightarrow> m < max_msg_no \<Longrightarrow> sb_rep us (vs @ ys) zs (t\<lparr>sb_block := bl, sb_last := e, sb_count := sb_count t + ?n, sb_next_msg_no := m\<rparr>)"
    using sb_filled [OF t(2) n(1) t(6)] by blast
  have ln: "length ys = nat ?n" using y(3) by simp
  have sum: "(\<Sum>j\<leftarrow>[0..0 + int (nat ?n) - 1]. ?len j) = len"
    using packet_len_sum [OF d(1) assms(2), of "nat ?n"] n(1,2) by simp
  have pos: "0 < ?len j" if "j < 0 + int (nat ?n)" for j using packet_len_bounds(1) [OF d(1) assms(2)] that n(1) by simp
  obtain bl good where bl: "fill_from_file ?pk ?len (sb_next t) (nat ?n) 0 (sb_last t) (True, bs) (sb_block t) = (len, e, (good, drop (nat len) bs), bl)"
    "concat (map (\<lambda>q. bk_data (bl q)) ys) = take (nat len) bs" "\<forall>q. q \<notin> set ys \<longrightarrow> bl q = sb_block t q" "\<forall>q\<in>set ys. bk_data (bl q) \<noteq> []"
    "\<forall>q\<in>set ys. \<exists>i old got. bl q = ?pk i old got"
    using fill_from_file_spec [OF y(1,2) ln, of 0 ?len bs ?pk "sb_block t"] pos assms(3) unfolding Let_def sum by auto
  have dj: "set ys \<inter> set us = {}" "set ys \<inter> set vs = {}" using y(4) by blast+
  have m: "map bl us = U" "map bl vs = V"
    using map_block_cong [OF _ dj(1), of bl "sb_block t"] map_block_cong [OF _ dj(2), of bl "sb_block t"] bl(3) r(2,3) t(3) by simp_all
  note rep = y(5) [of "next_msg_no (sb_next_msg_no b)" bl] next_msg_no_range [OF d(2,3)]
  have "sb_holds U (V @ map bl ys)
      (t\<lparr>sb_block := bl, sb_last := e, sb_count := sb_count t + ?n, sb_next_msg_no := next_msg_no (sb_next_msg_no b)\<rparr>)"
    unfolding sb_holds_def using rep m by (intro exI [of _ us] exI [of _ "vs @ ys"] exI [of _ zs]) simp
  moreover have "\<forall>p\<in>set (map bl ys). bk_ttl p = -1 \<and> bk_data p \<noteq> []" using bl(4,5) by fastforce
  ultimately show ?thesis using t bl(1,2)
    by (intro exI [of _ good] exI [of _ "t\<lparr>sb_block := bl, sb_last := e, sb_count := sb_count t + ?n, sb_next_msg_no := next_msg_no (sb_next_msg_no b)\<rparr>"]
        exI [of _ "map bl ys"]) (simp add: sb_add_buffer_from_file_def comp_def)
qed

text \<open>If the file ends early, blocks are counted that hold no packet.\<close>

lemma sb_file_miscounts:
  "\<exists>t. sb_add_buffer_from_file (True, [1]) 5 (sb_new m junk 8 2) = Some (Inr (1, (False, []), t)) \<and> sb_count t = 3 \<and> sb_last t = sb_next t (sb_curr t)"
  by (simp add: sb_add_buffer_from_file_def sb_new_def packet_count_def packet_len_def sb_reserve_def loop_while_stops numeral_eq_Suc)

lemma sb_holdsE:
  assumes "sb_holds U V b"
  obtains us vs ws where "sb_rep us vs ws b" "map (sb_block b) us = U" "map (sb_block b) vs = V"
  using assms by (auto simp: sb_holds_def)

lemma sb_read_data_spec:
  assumes "sb_holds U V b"
  shows "case V of [] \<Rightarrow> sb_read_data b = (None, b)
    | p # V' \<Rightarrow> \<exists>t. sb_read_data b = (Some (bk_data p, bk_msg_no p), t) \<and> sb_holds (U @ [p]) V' t \<and> sb_mss t = sb_mss b \<and> sb_next_msg_no t = sb_next_msg_no b"
proof -
  obtain us vs ws where r: "sb_rep us vs ws b" "map (sb_block b) us = U" "map (sb_block b) vs = V" by (rule sb_holdsE [OF assms])
  note d = sb_repD [OF r(1)]
  show ?thesis
  proof (cases vs)
    case Nil
    then show ?thesis using d(2) r(3) by (auto simp: sb_read_data_def)
  next
    case (Cons v vs')
    then have v: "sb_curr b = v" "v \<noteq> sb_last b" "path (sb_next b) (sb_next b v) vs' (sb_last b)" using d(2,4) by auto
    let ?t = "b\<lparr>sb_curr := sb_next b v\<rparr>"
    have "path (sb_next b) (sb_first b) (us @ [v]) (sb_next b v)" using d(1) v(1) by (auto simp: path_append)
    moreover have "sb_next ?t = sb_next b" "sb_first ?t = sb_first b" "sb_curr ?t = sb_next b v" "sb_last ?t = sb_last b" "sb_blocks ?t = sb_blocks b"
      "sb_size ?t = sb_size b" "sb_count ?t = sb_count b" "sb_unit_size ?t = sb_unit_size b" "sb_mss ?t = sb_mss b" "sb_next_msg_no ?t = sb_next_msg_no b"
      by simp_all
    moreover have "length us + length vs = length (us @ [v]) + length vs'" using Cons by simp
    ultimately have "sb_rep (us @ [v]) vs' ws ?t"
      using d v Cons by (intro sb_repI) (simp_all only: append_assoc append_Cons append_Nil)
    then have "sb_holds (U @ [sb_block b v]) (map (sb_block b) vs') ?t"
      unfolding sb_holds_def using r(2) by (intro exI [of _ "us @ [v]"] exI [of _ vs'] exI [of _ ws]) simp
    then show ?thesis using Cons v r(3) by (auto simp: sb_read_data_def Let_def)
  qed
qed

text \<open>The block of a packet, by its place from the last acknowledgement on.\<close>

lemma sb_walk:
  assumes "sb_rep us vs ws b"
  shows "i < length (us @ vs) \<Longrightarrow> (sb_next b ^^ i) (sb_first b) = (us @ vs) ! i" and "(sb_next b ^^ length us) (sb_first b) = sb_curr b"
    and "(sb_next b ^^ length (us @ vs)) (sb_first b) = sb_last b"
proof -
  note d = sb_repD [OF assms]
  have p: "path (sb_next b) (sb_first b) (us @ vs) (sb_last b)" using d(1,2) by (auto simp: path_append)
  then show "i < length (us @ vs) \<Longrightarrow> (sb_next b ^^ i) (sb_first b) = (us @ vs) ! i" by (rule path_walk_at)
  show "(sb_next b ^^ length us) (sb_first b) = sb_curr b" using path_walk [of _ _ us "[]"] d(1) path_end by fastforce
  show "(sb_next b ^^ length (us @ vs)) (sb_first b) = sb_last b" using path_walk [of _ _ "us @ vs" "[]"] p path_end by fastforce
qed

lemma sb_read_data_at_spec:
  assumes "sb_holds U V b" and "i < length (U @ V)" and "\<not> bk_expired now ((U @ V) ! i)"
  shows "sb_read_data_at now (int i) b = Some (Inr (Again (bk_data ((U @ V) ! i)) (bk_msg_no ((U @ V) ! i)), b))"
proof -
  obtain us vs ws where r: "sb_rep us vs ws b" "map (sb_block b) us = U" "map (sb_block b) vs = V" by (rule sb_holdsE [OF assms(1)])
  have i: "i < length (us @ vs)" using assms(2) r(2,3) by auto
  have "(U @ V) ! i = sb_block b ((us @ vs) ! i)" using r(2,3) i by (metis map_append nth_map)
  with sb_walk(1) [OF r(1) i] assms(3) show ?thesis by (simp add: sb_read_data_at_def Let_def)
qed

lemma sb_ack_fields:
  "sb_next (sb_ack_data n b) = sb_next b" "sb_first (sb_ack_data n b) = (sb_next b ^^ nat n) (sb_first b)" "sb_curr (sb_ack_data n b) = sb_curr b"
  "sb_last (sb_ack_data n b) = sb_last b" "sb_blocks (sb_ack_data n b) = sb_blocks b" "sb_size (sb_ack_data n b) = sb_size b"
  "sb_count (sb_ack_data n b) = sb_count b - n" "sb_unit_size (sb_ack_data n b) = sb_unit_size b" "sb_mss (sb_ack_data n b) = sb_mss b"
  "sb_next_msg_no (sb_ack_data n b) = sb_next_msg_no b"
  by (simp_all add: sb_ack_data_def)

lemma sb_ack_data_spec:
  assumes "sb_holds U V b" and "n \<le> length U"
  shows "sb_holds (drop n U) V (sb_ack_data (int n) b)"
proof -
  obtain us vs ws where r: "sb_rep us vs ws b" "map (sb_block b) us = U" "map (sb_block b) vs = V" by (rule sb_holdsE [OF assms(1)])
  note d = sb_repD [OF r(1)]
  have us: "us = take n us @ drop n us" "length (take n us) = n" using assms(2) r(2) by auto
  let ?f = "(sb_next b ^^ n) (sb_first b)"
  have "path (sb_next b) (sb_first b) (take n us) ?f" "path (sb_next b) ?f (drop n us) (sb_curr b)"
    using path_walk [of "sb_next b" "sb_first b" "take n us" "drop n us" "sb_curr b"] d(1) us by auto
  moreover from this(1) have "path (sb_next b) (sb_next b (sb_last b)) (ws @ take n us) ?f" using d(3) by (auto simp: path_append)
  moreover have "distinct (drop n us @ vs @ sb_last b # ws @ take n us)" "set (drop n us @ vs @ sb_last b # ws @ take n us) = {0..<sb_blocks b}"
  proof -
    have "mset us = mset (take n us) + mset (drop n us)" by (metis append_take_drop_id mset_append)
    then have "mset (drop n us @ vs @ sb_last b # ws @ take n us) = mset (us @ vs @ sb_last b # ws)" by simp
    then show "distinct (drop n us @ vs @ sb_last b # ws @ take n us)" "set (drop n us @ vs @ sb_last b # ws @ take n us) = {0..<sb_blocks b}"
      using d(4,5) by (metis mset_eq_imp_distinct_iff, metis mset_eq_setD)
  qed
  moreover have "sb_count b - int n = int (length (drop n us) + length vs)" using d(7) assms(2) r(2) by auto
  ultimately have "sb_rep (drop n us) vs (ws @ take n us) (sb_ack_data (int n) b)"
    using d by (intro sb_repI) (simp_all only: sb_ack_fields nat_int)
  moreover have "map (sb_block b) (drop n us) = drop n U" unfolding r(2) [symmetric] by (simp add: drop_map)
  ultimately show ?thesis using r(3) unfolding sb_holds_def
    by (intro exI [of _ "drop n us"] exI [of _ vs] exI [of _ "ws @ take n us"]) (simp add: sb_ack_data_def)
qed

text \<open>A message that is too old is skipped from its packet at \<open>i\<close> on, if a packet of another message follows.\<close>

lemma sb_read_data_at_expired:
  assumes "sb_holds U V b" and i: "i < length (U @ V)" and "bk_expired now ((U @ V) ! i)"
    and no: "no = uint (bk_msg_no ((U @ V) ! i) AND 0x1FFFFFFF)"
    and m: "m = length (takeWhile (\<lambda>u. uint (bk_msg_no u AND 0x1FFFFFFF) = no) (drop i (U @ V)))" "i + m < length (U @ V)"
  shows "\<exists>t. sb_read_data_at now (int i) b = Some (Inr (Expired no (int m), t)) \<and> sb_mss t = sb_mss b \<and> sb_next_msg_no t = sb_next_msg_no b \<and>
    (if i < length U \<and> length U < i + m then sb_holds (take (i + m) (U @ V)) (drop (i + m) (U @ V)) t else t = b)"
proof -
  obtain us vs ws where r: "sb_rep us vs ws b" "map (sb_block b) us = U" "map (sb_block b) vs = V" by (rule sb_holdsE [OF assms(1)])
  let ?xs = "us @ vs" and ?same = "\<lambda>u. uint (bk_msg_no u AND 0x1FFFFFFF) = no"
  have len: "length us = length U" "length ?xs = length (U @ V)" using r(2,3) by auto
  have at: "(U @ V) ! j = sb_block b (?xs ! j)" if "j < length ?xs" for j using r(2,3) that by (metis map_append nth_map)
  note d = sb_repD [OF r(1)]
  have step: "sb_next b (?xs ! j) = ?xs ! (j + 1)" if "j + 1 < length ?xs" for j
    using sb_walk(1) [OF r(1), of j] sb_walk(1) [OF r(1), of "j + 1"] that by simp
  have curr: "?xs ! j = sb_curr b \<longleftrightarrow> j = length us" if j: "j < length ?xs" for j
  proof (cases "length us < length ?xs")
    case True
    then have "?xs ! length us = sb_curr b" using sb_walk(1) [OF r(1) True] sb_walk(2) [OF r(1)] by simp
    moreover have "distinct ?xs" using d(4) by auto
    ultimately show ?thesis using nth_eq_iff_index_eq [of ?xs j "length us"] True j by simp
  next
    case False
    then have "sb_curr b = sb_last b" using d(2) by simp
    moreover have "?xs ! j \<noteq> sb_last b" using d(4) nth_mem [OF j] by auto
    ultimately show ?thesis using False j by auto
  qed
  have same: "?same (sb_block b (?xs ! (i + n))) \<longleftrightarrow> n < m" if "n \<le> m" for n
  proof -
    have n: "i + n < length ?xs" using that m(2) len by simp
    then have e: "sb_block b (?xs ! (i + n)) = drop i (U @ V) ! n" using at [OF n] nth_drop [of i "U @ V" n] i by (simp only: less_imp_le)
    show ?thesis
    proof (cases "n < m")
      case True
      then have tw: "n < length (takeWhile ?same (drop i (U @ V)))" unfolding m(1) .
      from nth_mem [OF tw] have "drop i (U @ V) ! n \<in> set (takeWhile ?same (drop i (U @ V)))" unfolding takeWhile_nth [OF tw] .
      then have "?same (drop i (U @ V) ! n)" by (rule set_takeWhileD [THEN conjunct2])
      with True show ?thesis unfolding e by blast
    next
      case False
      then have "n = m" using that by simp
      have "length (takeWhile ?same (drop i (U @ V))) < length (drop i (U @ V))" using m by simp
      from nth_length_takeWhile [OF this] have "\<not> ?same (drop i (U @ V) ! m)" unfolding m(1) .
      with \<open>n = m\<close> show ?thesis unfolding e by blast
    qed
  qed
  have i': "i < length ?xs" using i len by simp
  have "?same (sb_block b (?xs ! (i + 0)))" unfolding no at [OF i'] by simp
  with same [of 0, OF le0] have "0 < m" by blast
  then have m1: "1 \<le> m" by simp
  define moved where "moved n \<longleftrightarrow> i < length us \<and> length us < i + n" for n
  define buf where "buf n = (if moved n then b\<lparr>sb_curr := ?xs ! (i + n)\<rparr> else b)" for n
  define st where "st n = (?xs ! (i + n), moved n, int n, buf n)" for n
  have buf: "sb_block (buf n) = sb_block b" "sb_next (buf n) = sb_next b" "\<not> moved n \<Longrightarrow> sb_curr (buf n) = sb_curr b" for n
    by (simp_all add: buf_def)
  have "\<exists>t. loop_while (sb_skip_once no) 0 (st 1) = Some (Inr t) \<and> t = st m"
  proof (rule loop_while_returns [where P = "\<lambda>t. \<exists>n. 1 \<le> n \<and> n \<le> m \<and> t = st n" and \<mu> = "\<lambda>(_, _, n, _). m - nat n"])
    show "\<exists>n. 1 \<le> n \<and> n \<le> m \<and> st 1 = st n" using m1 by (intro exI [of _ 1]) simp
    fix k t assume "\<exists>n. 1 \<le> n \<and> n \<le> m \<and> t = st n"
    then obtain n where n: "1 \<le> n" "n \<le> m" "t = st n" by blast
    show "\<exists>c t'. sb_skip_once no k t = Inr (c, t') \<and> (if c then (\<exists>n. 1 \<le> n \<and> n \<le> m \<and> t' = st n) \<and>
        (case t' of (_, _, n, _) \<Rightarrow> m - nat n) < (case t of (_, _, n, _) \<Rightarrow> m - nat n) else t' = st m)"
    proof (cases "n < m")
      case True
      then have "i + n + 1 < length ?xs" using m(2) len by simp
      then have s: "sb_next b (?xs ! (i + n)) = ?xs ! (i + Suc n)" "?xs ! (i + n) = sb_curr b \<longleftrightarrow> i + n = length us"
        using step [of "i + n"] curr [of "i + n"] by simp_all
      have mv: "moved n \<or> (\<not> moved n \<and> i + n = length us) \<longleftrightarrow> moved (Suc n)" using n(1) by (auto simp: moved_def)
      have c: "no = uint (bk_msg_no (sb_block (buf n) (?xs ! (i + n))) AND 0x1FFFFFFF)" using same [OF n(2)] True buf(1) by simp
      have move: "(moved n \<or> ?xs ! (i + n) = sb_curr (buf n)) = moved (Suc n)" using mv s(2) buf(3) [of n] by (cases "moved n") simp_all
      have nx: "sb_next (buf n) (?xs ! (i + n)) = ?xs ! (i + Suc n)" using s(1) buf(2) by simp
      have new: "(if moved (Suc n) then (buf n)\<lparr>sb_curr := ?xs ! (i + Suc n)\<rparr> else buf n) = buf (Suc n)"
        using mv by (cases "moved n") (simp_all add: buf_def)
      have "sb_skip_once no k t = Inr (True, st (Suc n))"
        unfolding n(3) st_def sb_skip_once_def prod.case Let_def nx move new if_P [OF c] by simp
      moreover have "m - nat (int (Suc n)) < m - nat (int n)" using True by simp
      ultimately show ?thesis using True n by (intro exI [of _ True] exI [of _ "st (Suc n)"]) (auto simp: n(3) st_def intro!: exI [of _ "Suc n"])
    next
      case False
      then have "n = m" using n(2) by simp
      then show ?thesis using same [of m] n(3) buf [of m] by (intro exI [of _ False] exI [of _ "st m"]) (simp add: sb_skip_once_def st_def)
    qed
  qed
  then have loop: "loop_while (sb_skip_once no) 0 (st 1) = Some (Inr (st m))" by blast
  have p: "(sb_next b ^^ i) (sb_first b) = ?xs ! i" using sb_walk(1) [OF r(1), of i] i len by simp
  have i1: "i + 1 < length ?xs" using m m1 len by simp
  have st1: "st 1 = (sb_next b (?xs ! i), False, 1, b)" using step [OF i1] by (simp add: st_def buf_def moved_def)
  let ?t = "buf m"
  have run: "sb_read_data_at now (int i) b = Some (Inr (Expired no (int m), ?t))"
    using loop p assms(3) no at [of i] i len unfolding st1 by (simp add: sb_read_data_at_def Let_def st_def)
  show ?thesis
  proof (cases "moved m")
    case True
    let ?j = "i + m"
    have j: "?j < length ?xs" using m(2) len by simp
    have xs: "path (sb_next b) (sb_first b) ?xs (sb_last b)" using d(1,2) by (auto simp: path_append)
    have "path (sb_next b) (sb_first b) (take ?j ?xs) (?xs ! ?j) \<and> path (sb_next b) (?xs ! ?j) (drop ?j ?xs) (sb_last b)"
      using path_walk [of "sb_next b" "sb_first b" "take ?j ?xs" "drop ?j ?xs" "sb_last b"] xs sb_walk(1) [OF r(1) j] j
      by (simp only: append_take_drop_id length_take min.absorb4)
    moreover have "sb_next ?t = sb_next b" "sb_first ?t = sb_first b" "sb_curr ?t = ?xs ! ?j" "sb_last ?t = sb_last b" "sb_blocks ?t = sb_blocks b"
      "sb_size ?t = sb_size b" "sb_count ?t = sb_count b" "sb_unit_size ?t = sb_unit_size b" "sb_mss ?t = sb_mss b" "sb_next_msg_no ?t = sb_next_msg_no b"
      using True by (simp_all add: buf_def)
    moreover have "length (take ?j ?xs) + length (drop ?j ?xs) = length us + length vs" using j by simp
    moreover have "take ?j ?xs @ drop ?j ?xs @ sb_last b # ws = us @ vs @ sb_last b # ws" by (metis append_assoc append_take_drop_id)
    ultimately have "sb_rep (take ?j ?xs) (drop ?j ?xs) ws ?t" using d by (intro sb_repI) (simp_all only:)
    moreover have "map (sb_block b) ?xs = U @ V" using r(2,3) by simp
    moreover have "sb_block ?t = sb_block b" by (rule buf)
    ultimately have "sb_holds (take ?j (U @ V)) (drop ?j (U @ V)) ?t" unfolding sb_holds_def
      by (intro exI [of _ "take ?j ?xs"] exI [of _ "drop ?j ?xs"] exI [of _ ws]) (simp only: take_map [symmetric] drop_map [symmetric])
    with True run len show ?thesis by (intro exI [of _ ?t]) (simp add: moved_def buf_def)
  next
    case False
    with run len show ?thesis by (intro exI [of _ ?t]) (auto simp: moved_def buf_def)
  qed
qed

subsection \<open>Any sequence of operations\<close>

text \<open>The buffer as a queue: the packets that were acknowledged, those that were sent and not acknowledged, those that were not sent,
  and the number of the next message.\<close>

type_synonym snd_queue = "snd_block list \<times> snd_block list \<times> snd_block list \<times> int"

datatype snd_op = SndAdd int "byte list" int bool | SndNext | SndAgain int nat | SndAck nat

datatype snd_out = SndDone | SndNothing | SndPacket "byte list" "32 word" | SndExpired int int

definition message_of :: "snd_block \<Rightarrow> int" where
  "message_of u = uint (bk_msg_no u AND 0x1FFFFFFF)"

text \<open>How many of the packets from the \<open>i\<close>-th on belong to its message.\<close>

definition message_rest :: "snd_block list \<Rightarrow> nat \<Rightarrow> nat" where
  "message_rest ps i = length (takeWhile (\<lambda>u. message_of u = message_of (ps ! i)) (drop i ps))"

fun queue_step :: "int \<Rightarrow> snd_op \<Rightarrow> snd_queue \<Rightarrow> snd_out \<times> snd_queue" where
  "queue_step mss (SndAdd time data ttl order) (A, U, V, m) = (SndDone, A, U, V @ sb_packets mss m order ttl time data, next_msg_no m)"
| "queue_step mss SndNext (A, U, V, m) = (case V of [] \<Rightarrow> (SndNothing, A, U, V, m) | p # V \<Rightarrow> (SndPacket (bk_data p) (bk_msg_no p), A, U @ [p], V, m))"
| "queue_step mss (SndAgain now i) (A, U, V, m) =
     (let p = (U @ V) ! i; k = message_rest (U @ V) i in
      if bk_expired now p
      then (SndExpired (message_of p) (int k), A,
        if i < length U \<and> length U < i + k then (take (i + k) (U @ V), drop (i + k) (U @ V), m) else (U, V, m))
      else (SndPacket (bk_data p) (bk_msg_no p), A, U, V, m))"
| "queue_step mss (SndAck n) (A, U, V, m) = (SndDone, A @ take n U, drop n U, V, m)"

fun queue_run :: "int \<Rightarrow> snd_op list \<Rightarrow> snd_queue \<Rightarrow> snd_out list \<times> snd_queue" where
  "queue_run mss [] s = ([], s)"
| "queue_run mss (op # ops) s = (let (r, s) = queue_step mss op s; (rs, s) = queue_run mss ops s in (r # rs, s))"

text \<open>A packet is asked for again only if the buffer has it, and one that is too old only if a packet of another message follows;
  only packets that were sent are acknowledged.\<close>

fun queue_allows :: "snd_op \<Rightarrow> snd_queue \<Rightarrow> bool" where
  "queue_allows (SndAgain now i) (A, U, V, m) \<longleftrightarrow> i < length (U @ V) \<and>
     (bk_expired now ((U @ V) ! i) \<longrightarrow> i + message_rest (U @ V) i < length (U @ V))"
| "queue_allows (SndAck n) (A, U, V, m) \<longleftrightarrow> n \<le> length U"
| "queue_allows _ _ \<longleftrightarrow> True"

fun queue_allows_all :: "int \<Rightarrow> snd_op list \<Rightarrow> snd_queue \<Rightarrow> bool" where
  "queue_allows_all mss [] s \<longleftrightarrow> True"
| "queue_allows_all mss (op # ops) s \<longleftrightarrow> queue_allows op s \<and> queue_allows_all mss ops (snd (queue_step mss op s))"

fun sb_run_op :: "snd_op \<Rightarrow> snd_buffer \<Rightarrow> (snd_out \<times> snd_buffer) result option" where
  "sb_run_op (SndAdd time data ttl order) b = bindo (sb_add_buffer time data ttl order b) (\<lambda>b. Some (Inr (SndDone, b)))"
| "sb_run_op SndNext b =
     (case sb_read_data b of (None, b) \<Rightarrow> Some (Inr (SndNothing, b)) | (Some (d, w), b) \<Rightarrow> Some (Inr (SndPacket d w, b)))"
| "sb_run_op (SndAgain now i) b =
     bindo (sb_read_data_at now (int i) b) (\<lambda>(r, b). Some (Inr (case r of Again d w \<Rightarrow> SndPacket d w | Expired no n \<Rightarrow> SndExpired no n, b)))"
| "sb_run_op (SndAck n) b = Some (Inr (SndDone, sb_ack_data (int n) b))"

fun sb_run :: "snd_op list \<Rightarrow> snd_buffer \<Rightarrow> (snd_out list \<times> snd_buffer) result option" where
  "sb_run [] b = Some (Inr ([], b))"
| "sb_run (op # ops) b = bindo (sb_run_op op b) (\<lambda>(r, b). bindo (sb_run ops b) (\<lambda>(rs, b). Some (Inr (r # rs, b))))"

text \<open>The bytes that the application gave.\<close>

fun added :: "snd_op list \<Rightarrow> byte list" where
  "added [] = []"
| "added (SndAdd time data ttl order # ops) = data @ added ops"
| "added (_ # ops) = added ops"

definition queue_bytes :: "snd_queue \<Rightarrow> byte list" where
  "queue_bytes s = (case s of (A, U, V, m) \<Rightarrow> concat (map bk_data (A @ U @ V)))"

fun sb_is :: "int \<Rightarrow> snd_queue \<Rightarrow> snd_buffer \<Rightarrow> bool" where
  "sb_is mss (A, U, V, m) b \<longleftrightarrow> sb_holds U V b \<and> sb_mss b = mss \<and> sb_next_msg_no b = m"

lemma sb_run_op_refines:
  assumes "sb_is mss s b" and "queue_allows op s"
  shows "\<exists>t. sb_run_op op b = Some (Inr (fst (queue_step mss op s), t)) \<and> sb_is mss (snd (queue_step mss op s)) t"
proof -
  obtain A U V m where s: "s = (A, U, V, m)" by (cases s)
  with assms(1) have b: "sb_holds U V b" "sb_mss b = mss" "sb_next_msg_no b = m" by simp_all
  show ?thesis
  proof (cases op)
    case (SndAdd time data ttl order)
    with sb_add_buffer_spec [OF b(1), of time data ttl order] b(2,3) s show ?thesis by fastforce
  next
    case SndNext
    with sb_read_data_spec [OF b(1)] b s show ?thesis by (cases V) fastforce+
  next
    case (SndAck n)
    with assms(2) s have "n \<le> length U" by simp
    from sb_ack_data_spec [OF b(1) this] SndAck b(2,3) s show ?thesis by (simp add: sb_ack_fields)
  next
    case (SndAgain now i)
    with assms(2) s have i: "i < length (U @ V)" by simp
    let ?p = "(U @ V) ! i"
    show ?thesis
    proof (cases "bk_expired now ?p")
      case True
      with assms(2) SndAgain s have m: "i + message_rest (U @ V) i < length (U @ V)" by simp
      have e: "message_rest (U @ V) i = length (takeWhile (\<lambda>u. uint (bk_msg_no u AND 0x1FFFFFFF) = message_of ?p) (drop i (U @ V)))"
        by (simp add: message_rest_def message_of_def)
      obtain t where t: "sb_read_data_at now (int i) b = Some (Inr (Expired (message_of ?p) (int (message_rest (U @ V) i)), t))"
        "sb_mss t = sb_mss b" "sb_next_msg_no t = sb_next_msg_no b"
        "if i < length U \<and> length U < i + message_rest (U @ V) i
         then sb_holds (take (i + message_rest (U @ V) i) (U @ V)) (drop (i + message_rest (U @ V) i) (U @ V)) t else t = b"
        using sb_read_data_at_expired [OF b(1) i True message_of_def e m] by blast
      define k where "k = message_rest (U @ V) i"
      from t True SndAgain s b show ?thesis unfolding k_def [symmetric]
        by (cases "i < length U \<and> length U < i + k") (auto simp: Let_def simp flip: k_def)
    next
      case False
      from sb_read_data_at_spec [OF b(1) i False] False SndAgain s b show ?thesis by (simp add: Let_def)
    qed
  qed
qed

lemma queue_step_bytes:
  assumes "0 < mss" and "queue_allows op s"
  shows "queue_bytes (snd (queue_step mss op s)) = queue_bytes s @ added [op]"
proof -
  obtain A U V m where s: "s = (A, U, V, m)" by (cases s)
  show ?thesis
  proof (cases op)
    case (SndAdd time data ttl order)
    then show ?thesis using concat_packets [OF assms(1)] s by (simp add: queue_bytes_def)
  next
    case SndNext
    then show ?thesis using s by (cases V) (simp_all add: queue_bytes_def)
  next
    case (SndAck n)
    have "concat (map bk_data (take n U)) @ concat (map bk_data (drop n U)) = concat (map bk_data U)"
      by (metis append_take_drop_id concat_append map_append)
    with SndAck s show ?thesis by (simp add: queue_bytes_def)
  next
    case (SndAgain now i)
    have "concat (map bk_data (take j (U @ V))) @ concat (map bk_data (drop j (U @ V))) = concat (map bk_data (U @ V))" for j
      by (metis append_take_drop_id concat_append map_append)
    with SndAgain s show ?thesis by (simp add: queue_bytes_def Let_def del: take_append drop_append)
  qed
qed

lemma sb_run_refines:
  assumes "0 < mss"
  shows "sb_is mss s b \<Longrightarrow> queue_allows_all mss ops s \<Longrightarrow>
    \<exists>t. sb_run ops b = Some (Inr (fst (queue_run mss ops s), t)) \<and> sb_is mss (snd (queue_run mss ops s)) t \<and>
      queue_bytes (snd (queue_run mss ops s)) = queue_bytes s @ added ops"
proof (induction ops arbitrary: s b)
  case (Cons op ops)
  from sb_run_op_refines [OF Cons.prems(1), of op] Cons.prems(2) obtain t where
    t: "sb_run_op op b = Some (Inr (fst (queue_step mss op s), t))" "sb_is mss (snd (queue_step mss op s)) t" by auto
  obtain u where u: "sb_run ops t = Some (Inr (fst (queue_run mss ops (snd (queue_step mss op s))), u))"
    "sb_is mss (snd (queue_run mss ops (snd (queue_step mss op s)))) u"
    "queue_bytes (snd (queue_run mss ops (snd (queue_step mss op s)))) = queue_bytes (snd (queue_step mss op s)) @ added ops"
    using Cons.IH [OF t(2)] Cons.prems(2) by auto
  have "added (op # ops) = added [op] @ added ops" by (cases op) simp_all
  with queue_step_bytes [OF assms, of op s] t u Cons.prems(2) show ?case by (simp add: split_beta Let_def)
qed simp

text \<open>C11. The send buffer of a UDT connection is a queue of packets: over any sequence of data that is added, packets that are read for
  the first time, packets that are asked for again, and acknowledgements of packets that were sent, the loop that makes room ends, every operation
  gives what the queue gives (a message that is too old is skipped, if a packet of another message follows), the size is the number of
  packets that are not acknowledged, and the packets, from the acknowledged ones on, are together the bytes that were added, in order.\<close>

theorem snd_buffer_refines_queue:
  assumes "0 < cnt" and "0 < mss" and "queue_allows_all mss ops ([], [], [], 1)"
  shows "\<exists>t A U V m. sb_run ops (sb_new memory junk cnt mss) = Some (Inr (fst (queue_run mss ops ([], [], [], 1)), t)) \<and>
    snd (queue_run mss ops ([], [], [], 1)) = (A, U, V, m) \<and> sb_get_curr_buf_size t = int (length U + length V) \<and>
    concat (map bk_data (A @ U @ V)) = added ops"
proof -
  have "sb_is mss ([], [], [], 1) (sb_new memory junk cnt mss)" using sb_new_holds [OF assms(1,2)] by (simp add: sb_new_def)
  from sb_run_refines [OF assms(2) this assms(3)] obtain t where
    t: "sb_run ops (sb_new memory junk cnt mss) = Some (Inr (fst (queue_run mss ops ([], [], [], 1)), t))"
      "sb_is mss (snd (queue_run mss ops ([], [], [], 1))) t"
      "queue_bytes (snd (queue_run mss ops ([], [], [], 1))) = queue_bytes ([], [], [], 1) @ added ops" by blast
  obtain A U V m where q: "snd (queue_run mss ops ([], [], [], 1)) = (A, U, V, m)" by (metis prod_cases4)
  with t(2) have "sb_holds U V t" by simp
  then obtain us vs ws where "sb_rep us vs ws t" "map (sb_block t) us = U" "map (sb_block t) vs = V" by (rule sb_holdsE)
  then have "sb_get_curr_buf_size t = int (length U + length V)" using sb_repD(7) by (auto simp: sb_get_curr_buf_size_def)
  with t q show ?thesis by (simp add: queue_bytes_def)
qed

text \<open>Two bytes to a packet, three packets of one message in a ring of two blocks.\<close>

theorem snd_buffer_refines_queue_witness:
  "\<exists>t. sb_run [SndAdd 0 [1, 2, 3, 4, 5] (-1) True, SndNext, SndNext, SndAgain 9 0, SndAck 1, SndNext, SndNext] (sb_new (\<lambda>_. \<lparr>bk_data = [], bk_msg_no = 7, bk_origin = 5, bk_ttl = 3\<rparr>) (\<lambda>_. 9) 2 2) =
      Some (Inr ([SndDone, SndPacket [1, 2] 0xA0000001, SndPacket [3, 4] 0x20000001, SndPacket [1, 2] 0xA0000001, SndDone,
        SndPacket [5] 0x60000001, SndNothing], t)) \<and> sb_get_curr_buf_size t = 2"
proof -
  let ?ops = "[SndAdd 0 [1, 2, 3, 4, 5] (-1) True, SndNext, SndNext, SndAgain 9 0, SndAck 1, SndNext, SndNext]"
  have u: "[0..2] = [0, 1, 2 :: int]" by (simp add: upto_rec1)
  have p: "sb_packets 2 1 True (-1) 0 [1, 2, 3, 4, 5] =
    [\<lparr>bk_data = [1, 2], bk_msg_no = 0xA0000001, bk_origin = 0, bk_ttl = -1\<rparr>, \<lparr>bk_data = [3, 4], bk_msg_no = 0x20000001, bk_origin = 0, bk_ttl = -1\<rparr>,
     \<lparr>bk_data = [5], bk_msg_no = 0x60000001, bk_origin = 0, bk_ttl = -1\<rparr>]"
    by (simp add: sb_packets_def packet_count_def packet_of_def packet_len_def packet_word_def u)
  have x: "\<not> bk_expired now \<lparr>bk_data = d, bk_msg_no = w, bk_origin = t0, bk_ttl = -1\<rparr>" for now d w t0 by (simp add: bk_expired_def)
  have run: "queue_run 2 ?ops ([], [], [], 1) = ([SndDone, SndPacket [1, 2] 0xA0000001, SndPacket [3, 4] 0x20000001, SndPacket [1, 2] 0xA0000001,
      SndDone, SndPacket [5] 0x60000001, SndNothing],
      [\<lparr>bk_data = [1, 2], bk_msg_no = 0xA0000001, bk_origin = 0, bk_ttl = -1\<rparr>], [\<lparr>bk_data = [3, 4], bk_msg_no = 0x20000001, bk_origin = 0, bk_ttl = -1\<rparr>,
     \<lparr>bk_data = [5], bk_msg_no = 0x60000001, bk_origin = 0, bk_ttl = -1\<rparr>], [], 2)"
    by (simp add: p x next_msg_no_def max_msg_no_def)
  have "queue_allows_all 2 ?ops ([], [], [], 1)" by (simp add: p x)
  from snd_buffer_refines_queue [OF _ _ this, of 2 "\<lambda>_. \<lparr>bk_data = [], bk_msg_no = 7, bk_origin = 5, bk_ttl = 3\<rparr>" "\<lambda>_. 9"] show ?thesis
    unfolding run fst_conv snd_conv by (auto simp del: sb_run.simps)
qed
end
