(* ===== verification/Spec2Isabelle.thy ===== *)
theory Spec2Isabelle
  imports Prelude Streams Loops Inet4Addr WriterQueue WriterPool PriorityFrame PriorityQueue SocketPool ReaderPool ListenerPool ConnectingPool
    Protocol InputProcessor Handshake Heartbeat Node NodeChannels MessageDelivery
    P2PPacket DeliveryEngine DeliveryReassembly ReliableDelivery PersistentStorage DiscoveryEngine
    FileSystem FileTransporter FileTransfer FileExchange
    Pollers ClientServerPoller Sockets EnetSockets UdtSockets Netlink Interfaces Startup Service Respondent RequestResponse
    UdtSeqNo UdtIntervals UdtSndLossList UdtRcvLossList UdtRcvLossSet UdtLossReport UdtRcvBuffer UdtReceiver UdtSndBuffer
begin

text \<open>
  A verification development for netty-lib (C++, namespace \<open>netty\<close>): sockets and pollers, pools that drive them, a mesh
  network of nodes over the pools, a service with requests and responses, peer-to-peer discovery, delivery and file transfer,
  the monitoring of network interfaces, and the parts of the UDT library it carries that keep track of packets.

  \<^bold>\<open>How the parts of the program interact.\<close> A \<open>node\<close> of the mesh network owns pools of listeners, connecting sockets, readers
  and writers and a pool that owns the sockets themselves. Each pool has a poller whose callbacks it handles; what a pool no
  longer needs is removed at the end of a step. Bytes that a reader pool hands on go to the input processor, which cuts them
  into packets and dispatches these to handshake, heartbeat and the callbacks of the node; what the node sends is serialized and
  queued in the writer pool, in a \<open>writer_queue\<close> or a \<open>priority_writer_queue\<close>. The peer-to-peer engines are a second stack:
  \<open>discovery_engine\<close> finds peers by UDP, \<open>delivery_engine\<close> moves messages in packets of a fixed size,
  \<open>reliable_delivery_engine\<close> numbers and acknowledges envelopes over it with a \<open>persistent_storage\<close>, and \<open>file_transporter\<close>
  exchanges files by packets of its own. \<open>client_poller\<close> and \<open>server_poller\<close> combine three pollers each and carry
  \<open>service\<close>. Below all of this are the sockets and the pollers' backends.

  \<^bold>\<open>Theories, and the code they model.\<close> Paths are below src/, headers below include/pfs/netty; a definition keeps the name of
  the function with the prefix of its class.

  Shared: \<open>Prelude\<close> (faults, sequencing, association lists as maps), \<open>Streams\<close> (the interface of binary streams),
  \<open>Loops\<close> (loops that may not end).

  Pools: \<open>WriterQueue\<close> (writer_queue.hpp), \<open>WriterPool\<close> (writer_pool.hpp, send_result.hpp), \<open>PriorityFrame\<close> and
  \<open>PriorityQueue\<close> (patterns/meshnet/priority_frame.hpp, priority_writer_queue.hpp), \<open>SocketPool\<close>, \<open>ReaderPool\<close>,
  \<open>ListenerPool\<close>, \<open>ConnectingPool\<close> (socket_pool.hpp and so on), \<open>Inet4Addr\<close> (inet4_addr, socket4_addr).

  Mesh network (patterns/meshnet): \<open>Protocol\<close> (protocol.hpp), \<open>InputProcessor\<close> (basic, simple and priority input processors),
  \<open>Handshake\<close> (basic_handshake.hpp, exclusive_handshake.hpp), \<open>Heartbeat\<close> (simple_heartbeat.hpp), \<open>Node\<close> (node.hpp, channel
  maps, reconnection policy), with the theorems on nodes in \<open>NodeChannels\<close> and \<open>MessageDelivery\<close>.

  Peer to peer (p2p): \<open>P2PPacket\<close> (packet.hpp, hello_packet.hpp, primal_serializer.hpp), \<open>DeliveryEngine\<close> with
  \<open>DeliveryReassembly\<close> (delivery_engine.hpp), \<open>ReliableDelivery\<close> (reliable_delivery_engine.hpp, simple_envelope.hpp),
  \<open>PersistentStorage\<close> (src/sample/persistent_storage), \<open>DiscoveryEngine\<close> (discovery_engine.hpp, p2p/posix/discovery_engine,
  host4_addr.hpp), \<open>FileSystem\<close> (file.hpp), \<open>FileTransporter\<close> (file_transporter.hpp) with \<open>FileTransfer\<close> and \<open>FileExchange\<close>.

  Service and sockets: \<open>Service\<close> and \<open>Respondent\<close> (service.hpp) with \<open>RequestResponse\<close> on both sides together,
  \<open>Pollers\<close> (src/posix, src/linux: the three backends and the four pollers on each), \<open>ClientServerPoller\<close> (client_poller.hpp, server_poller.hpp), \<open>Sockets\<close> (src/posix: TCP and UDP),
  \<open>EnetSockets\<close> (src/enet), \<open>UdtSockets\<close> (src/udt), \<open>Netlink\<close> and \<open>Interfaces\<close> (src/utils), \<open>Startup\<close> (src/startup.cpp).

  The UDT library (src/udt/newlib): \<open>UdtSeqNo\<close> (the numbers of packets, acknowledgements and messages, common.hpp), \<open>UdtIntervals\<close>
  (intervals of positions, paths in arrays, shared lemmas), \<open>UdtSndLossList\<close> and \<open>UdtRcvLossList\<close> with \<open>UdtRcvLossSet\<close> (list.cpp: the
  loss lists, linked lists in arrays), \<open>UdtLossReport\<close> (core.cpp: negative acknowledgements), \<open>UdtRcvBuffer\<close> and \<open>UdtSndBuffer\<close>
  (buffer.cpp) and \<open>UdtReceiver\<close> (core.cpp: the receiving end of a connection). A sequence number is a position of the
  stream taken modulo \<open>2 ^ 31\<close>, and the theorems are about positions.

  \<^bold>\<open>How code becomes definitions.\<close> A class is a record of its data members, an enumeration a datatype, a number a word of its
  width where overflow can matter. An operation maps a state to a result and a state; \<open>fault + 'a\<close> has the throw of an error,
  a failed assertion (\<open>Terminated\<close>) and undefined behaviour (\<open>Undefined\<close>) as values, so that an access out of range, an iterator
  that is not valid any more and a packet that is read past its end are results that theorems exclude. Callbacks are events
  that an operation records, or are arguments that say which calls the application makes from them. The operating system, clocks
  and libraries answer by arguments: a theorem quantifies over their answers, and the state often holds all answers to come.
  Unordered maps are association lists in the order of iteration, over which theorems quantify.

  \<^bold>\<open>Interfaces.\<close> What the program takes as a template argument or from a library is a locale: \<open>byte_streams\<close> (the binary streams,
  with their transactions), \<open>byte_queue\<close> (the queue of a writer pool), the backends of the pollers, the contract of the
  storage, the envelopes of a service, the database. Each is interpreted on the model's own definitions, in the theory
  that provides them: streams in network byte order over byte lists, \<open>writer_queue\<close>, the poll, select and epoll backends, the
  sample storage, envelopes of a fixed size after a start byte.

  \<^bold>\<open>What the lemmas show.\<close> Queues and pools: bytes leave in the order in which they were put in, whatever part of a frame a
  socket takes; the vector and the index of \<open>socket_pool\<close> are a map; a readable socket is read until nothing is left. Packets:
  serializers and deserializers are inverse, and the processors handle each complete packet once, however the bytes are cut.
  Nodes: the callbacks about a peer alternate as long as handshakes do not name a peer, or use a socket, that has a channel already; closing
  a socket cannot fail; both ends of two connections keep the same one, however their handshakes interleave. Delivery: messages arrive
  whole and in order, envelopes are reported in order without gap or repetition, a storage with a stored number refines an
  outbox (which new databases never become), a transfer of a file has no failure in any order of steps and can always be completed if the
  file system does not fail. Discovery: peers are reported alternately as discovered and expired, if each keeps its address. Pollers: the
  three backends make the same callbacks where the system announces no hang-up; what a removed socket can still
  observe. Services: a stream of requests is delivered in order to the handlers, a requester takes the responses to its requests in
  their order, and the loop that sends ends. Sockets:
  descriptors are closed exactly once (but for 0, and for those that a second connect replaces), sending reports what was taken, the bytes of
  an ENet connection are a stream. Monitor: datagrams of the kernel are read back. UDT: arithmetic on numbers is order and distance
  of positions across the wrap; the loss lists are sets of positions; what one list reports the other takes; the receiver gives
  the stream up to the acknowledged packet, whatever is lost, repeated or out of order; the send buffer is a queue of packets. The
  conditions of each property are stated with it; where the code does not keep a promise without them, a lemma shows how it fails. A theorem about reachable states is an induction over a step relation (\<open>inductive\<close>),
  one about histories an induction over a list of operations; the invariants have one lemma for each operation.

  \<^bold>\<open>Bounds and fuel.\<close> There is no fuel in the definitions, apart from lists that hold what the environment answers (rounds of a
  poll, readings of the clock, datagrams): they end when the environment stops. Loops of the code that may not end are
  \<open>loop_while\<close>, a \<open>partial_function\<close> whose value is \<open>None\<close> if the loop goes on for ever; that the loops return is a theorem of its
  own. The other loops are recursive functions whose termination is proved, by the bytes left of a buffer. Hypotheses such as
  sizes below \<open>2 ^ 32\<close> are those at which a field of a packet overflows.

  \<^bold>\<open>Not modelled.\<close> The rest of the library under src/udt/newlib (UDT 4, changed in places): its interface, multiplexing queues and
  channels, connection set-up, sending, timers, windows and congestion control, caches, epoll, MD5 and the headers of packets;
  the wrappers take its answers as arguments; linenoise and the demo programs; the tests and their framework; the Java and Android sources and getifaddrs for old
  Android; the Windows variants and the obsolete MTU utility; \<open>p2p/engine.hpp\<close>, which the delivery and discovery engines
  replace: it includes a header that the repository does not have and does not match the interfaces it uses, so it cannot be
  compiled; the provider and handles of remote files, which are stubs that say so (only comments or FIXME bodies), with
  their unused protocol; error categories, tracing and export macros, which have no state of their own.
\<close>

end
